(* ===== verification/MP_Prelude.thy ===== *)
theory MP_Prelude
  imports Main "HOL-Library.Word"
begin

text \<open>
  Shared vocabulary of the development: C integer types of the SH-4A target as naturals
  and integers with their wrap-around written out, the little-endian value of a digit
  array, and the arithmetic and list facts that the component theories use over and over.
  The target is a 32-bit big-endian machine (\<^verbatim>\<open>ports/sh/mpconfigport.h\<close>), so
  \<^verbatim>\<open>mp_int_t\<close>, \<^verbatim>\<open>mp_uint_t\<close> and \<^verbatim>\<open>size_t\<close> are 32 bits wide.
\<close>

unbundle bit_operations_syntax

named_theorems wrap_simps "wrap-around that does not happen"
named_theorems digit_simps "values of digit lists"

section \<open>C integers\<close>

text \<open>Conversion to \<^verbatim>\<open>uint16_t\<close>, \<^verbatim>\<open>uint32_t\<close> and \<^verbatim>\<open>int32_t\<close>.\<close>

definition u8 :: "nat \<Rightarrow> nat" where
  "u8 x = x mod 2 ^ 8"

definition u16 :: "nat \<Rightarrow> nat" where
  "u16 x = x mod 2 ^ 16"

definition u32 :: "nat \<Rightarrow> nat" where
  "u32 x = x mod 2 ^ 32"

definition s32 :: "int \<Rightarrow> int" where
  "s32 x = (x + 2 ^ 31) mod 2 ^ 32 - 2 ^ 31"

lemma u8_less [simp]: "u8 x < 256"
  by (simp add: u8_def)

lemma u16_less [simp]: "u16 x < 65536"
  by (simp add: u16_def)

lemma u32_less [simp]: "u32 x < 4294967296"
  by (simp add: u32_def)

lemma u8_id [wrap_simps]: "x < 256 \<Longrightarrow> u8 x = x"
  by (simp add: u8_def)

lemma u16_id [wrap_simps]: "x < 65536 \<Longrightarrow> u16 x = x"
  by (simp add: u16_def)

lemma u32_id [wrap_simps]: "x < 4294967296 \<Longrightarrow> u32 x = x"
  by (simp add: u32_def)

lemma s32_id [wrap_simps]: "- 2147483648 \<le> x \<Longrightarrow> x < 2147483648 \<Longrightarrow> s32 x = x"
  by (simp add: s32_def)

lemma s32_range: "- 2147483648 \<le> s32 x \<and> s32 x < 2147483648"
  by (simp add: s32_def)

section \<open>Bit operations as arithmetic\<close>

lemma or_disjoint_nat:
  fixes a b :: nat
  assumes "b < 2 ^ s"
  shows "a * 2 ^ s OR b = a * 2 ^ s + b"
proof -
  have "\<not> bit (push_bit s a) n \<or> \<not> bit b n" for n
    using assms by (metis bit_push_bit_iff_nat bit_take_bit_iff linorder_not_less take_bit_nat_eq_self)
  then show ?thesis
    by (simp add: disjunctive_add flip: push_bit_eq_mult)
qed

lemma or_disjoint_nat':
  fixes a b :: nat
  assumes "b < 2 ^ s"
  shows "b OR a * 2 ^ s = a * 2 ^ s + b"
  using or_disjoint_nat [OF assms] by (simp add: or.commute)

lemma and_mask_nat: "(x::nat) AND (2 ^ n - 1) = x mod 2 ^ n"
  using take_bit_eq_mask [of n x] by (simp add: take_bit_eq_mod mask_eq_exp_minus_1)

section \<open>Digit lists\<close>

text \<open>
  A digit array of base \<open>B\<close> is a list, least significant digit first, as \<^verbatim>\<open>mpz.c\<close> and
  the variable-length integers of the bytecode store them.
\<close>

fun dval :: "nat \<Rightarrow> nat list \<Rightarrow> nat" where
  "dval B [] = 0"
| "dval B (d # ds) = d + B * dval B ds"

definition digs_ok :: "nat \<Rightarrow> nat list \<Rightarrow> bool" where
  "digs_ok B ds \<longleftrightarrow> (\<forall>d \<in> set ds. d < B)"

lemma digs_ok_simps [simp]:
  "digs_ok B []"
  "digs_ok B (d # ds) \<longleftrightarrow> d < B \<and> digs_ok B ds"
  "digs_ok B (xs @ ys) \<longleftrightarrow> digs_ok B xs \<and> digs_ok B ys"
  by (auto simp: digs_ok_def)

lemma digs_ok_replicate [simp]: "0 < B \<Longrightarrow> digs_ok B (replicate n 0)"
  by (auto simp: digs_ok_def)

lemma digs_ok_take: "digs_ok B ds \<Longrightarrow> digs_ok B (take n ds)"
  by (auto simp: digs_ok_def dest: in_set_takeD)

lemma digs_ok_drop: "digs_ok B ds \<Longrightarrow> digs_ok B (drop n ds)"
  by (auto simp: digs_ok_def dest: in_set_dropD)

lemma digs_ok_nth: "digs_ok B ds \<Longrightarrow> i < length ds \<Longrightarrow> ds ! i < B"
  by (simp add: digs_ok_def)

lemma digs_ok_butlast: "digs_ok B ds \<Longrightarrow> digs_ok B (butlast ds)"
  by (auto simp: digs_ok_def dest: in_set_butlastD)

lemma digs_ok_last: "digs_ok B ds \<Longrightarrow> ds \<noteq> [] \<Longrightarrow> last ds < B"
  by (simp add: digs_ok_def)

lemma dval_append [digit_simps]: "dval B (xs @ ys) = dval B xs + B ^ length xs * dval B ys"
  by (induction xs) (auto simp: algebra_simps)

lemma dval_replicate_0 [simp]: "dval B (replicate n 0) = 0"
  by (induction n) auto

lemma dval_less: "digs_ok B ds \<Longrightarrow> dval B ds < B ^ length ds"
proof (induction ds)
  case (Cons d ds)
  then have "dval B ds + 1 \<le> B ^ length ds" and "d < B" by auto
  then have "B * (dval B ds + 1) \<le> B * B ^ length ds" by (intro mult_left_mono) auto
  with \<open>d < B\<close> show ?case by simp
qed simp

lemma dval_take_drop: "dval B ds = dval B (take n ds) + B ^ min n (length ds) * dval B (drop n ds)"
  by (metis append_take_drop_id dval_append length_take min.commute)

lemma dval_snoc [digit_simps]: "dval B (xs @ [d]) = dval B xs + B ^ length xs * d"
  by (simp add: dval_append)

lemma dval_eq_0_iff: "0 < B \<Longrightarrow> dval B ds = 0 \<longleftrightarrow> (\<forall>d \<in> set ds. d = 0)"
  by (induction ds) auto

lemma dval_ge_last:
  assumes "ds \<noteq> []" and "last ds \<noteq> 0"
  shows "B ^ (length ds - 1) \<le> dval B ds"
proof -
  have "ds = butlast ds @ [last ds]" using assms by simp
  then have "dval B ds = dval B (butlast ds) + B ^ (length ds - 1) * last ds"
    by (metis dval_snoc length_butlast)
  then show ?thesis using assms(2) by (simp add: trans_le_add2)
qed

lemma dval_inj:
  "digs_ok B xs \<Longrightarrow> digs_ok B ys \<Longrightarrow> length xs = length ys \<Longrightarrow> dval B xs = dval B ys \<Longrightarrow> xs = ys"
proof (induction xs ys rule: list_induct2')
  case (4 x xs y ys)
  then have "(x + B * dval B xs) mod B = (y + B * dval B ys) mod B" by simp
  then have "x mod B = y mod B" by (simp only: mod_mult_self2)
  with 4 have "x = y" by simp
  moreover from this 4 have "dval B xs = dval B ys" by auto
  ultimately show ?case using 4 by simp
qed auto

text \<open>The top digit of a normalised array is not zero.\<close>

definition normalised :: "nat list \<Rightarrow> bool" where
  "normalised ds \<longleftrightarrow> (ds \<noteq> [] \<longrightarrow> last ds \<noteq> 0)"

lemma normalised_Nil [simp]: "normalised []"
  by (simp add: normalised_def)

lemma normalised_dval_0:
  "normalised ds \<Longrightarrow> 0 < B \<Longrightarrow> dval B ds = 0 \<longleftrightarrow> ds = []"
  by (cases "ds = []") (auto simp: normalised_def dval_eq_0_iff dest: last_in_set)

lemma normalised_length_le:
  assumes "normalised xs" "digs_ok B ys" "dval B xs \<le> dval B ys" "1 < B"
  shows "length xs \<le> length ys"
proof (rule ccontr)
  assume "\<not> ?thesis"
  then have "xs \<noteq> []" and le: "length ys \<le> length xs - 1" by auto
  then have "B ^ (length xs - 1) \<le> dval B xs"
    using assms(1) by (intro dval_ge_last) (auto simp: normalised_def)
  moreover have "B ^ length ys \<le> B ^ (length xs - 1)"
    using le assms(4) by (intro power_increasing) auto
  ultimately show False using dval_less [OF assms(2)] assms(3) by simp
qed

lemma normalised_inj:
  assumes "normalised xs" "normalised ys" "digs_ok B xs" "digs_ok B ys" "1 < B"
    and "dval B xs = dval B ys"
  shows "xs = ys"
proof -
  have "length xs \<le> length ys" "length ys \<le> length xs"
    using assms by (auto intro: normalised_length_le)
  then show ?thesis using assms by (intro dval_inj) auto
qed

section \<open>Ranges\<close>

lemma upt_split: "i \<le> j \<Longrightarrow> j \<le> k \<Longrightarrow> [i..<k] = [i..<j] @ [j..<k]"
  by (metis le_add_diff_inverse upt_add_eq_append)

end
