(* ===== verification/Mpn.thy ===== *)
theory Mpn
  imports MP_Prelude
begin

text \<open>
  The \<^verbatim>\<open>mpn\<close> layer of \<^verbatim>\<open>py/mpz.c\<close>: non-negative integers as arrays of 16-bit digits
  (\<^verbatim>\<open>MPZ_DIG_SIZE\<close> is 16 on a 32-bit machine, \<^verbatim>\<open>mpz_dig_t\<close> is \<^verbatim>\<open>uint16_t\<close> and
  \<^verbatim>\<open>mpz_dbl_dig_t\<close> is \<^verbatim>\<open>uint32_t\<close>).  An array \<open>(dig, len)\<close> is the list of its first
  \<open>len\<close> digits.  A function that writes \<open>idig\<close> and returns the number of digits written
  is a function that returns the list of these digits; the sources and the destination
  may be the same memory in the code because each digit is read before the digit at the
  same index is written.  \<^verbatim>\<open>& DIG_MASK\<close> is \<open>mod DIG_BASE\<close> and \<^verbatim>\<open>>> DIG_SIZE\<close> is
  \<open>div DIG_BASE\<close> (on a signed value this is the arithmetic shift).  \<open>mpn_mul\<close>, which
  accumulates in its destination, has the destination buffer as an argument, and a write
  past its end is \<open>None\<close>.
\<close>

abbreviation DIG_SIZE :: nat where
  "DIG_SIZE \<equiv> 16"

abbreviation DIG_BASE :: nat where
  "DIG_BASE \<equiv> 65536"

abbreviation nval :: "nat list \<Rightarrow> nat" where
  "nval ds \<equiv> dval DIG_BASE ds"

abbreviation nok :: "nat list \<Rightarrow> bool" where
  "nok ds \<equiv> digs_ok DIG_BASE ds"

section \<open>Operations\<close>

definition mpn_remove_trailing_zeros :: "nat list \<Rightarrow> nat list" where
  "mpn_remove_trailing_zeros ds = rev (dropWhile (\<lambda>d. d = 0) (rev ds))"

fun mpn_cmp_loop :: "nat list \<Rightarrow> nat list \<Rightarrow> int" where
  "mpn_cmp_loop (i # is) (j # js) =
     (let cmp = s32 (int i - int j)
      in if cmp < 0 then - 1 else if cmp > 0 then 1 else mpn_cmp_loop is js)"
| "mpn_cmp_loop _ _ = 0"

definition mpn_cmp :: "nat list \<Rightarrow> nat list \<Rightarrow> int" where
  "mpn_cmp idig jdig =
     (if length idig < length jdig then - 1
      else if length idig > length jdig then 1
      else mpn_cmp_loop (rev idig) (rev jdig))"

fun mpn_shl_loop :: "nat \<Rightarrow> nat \<Rightarrow> nat list \<Rightarrow> nat list" where
  "mpn_shl_loop n_part d [] = [(d div 2 ^ (DIG_SIZE - n_part)) mod DIG_BASE]"
| "mpn_shl_loop n_part d (j # js) =
     (let d = d OR j
      in (d div 2 ^ (DIG_SIZE - n_part)) mod DIG_BASE
           # mpn_shl_loop n_part (u32 (d * DIG_BASE)) js)"

definition mpn_shl :: "nat list \<Rightarrow> nat \<Rightarrow> nat list" where
  "mpn_shl jdig n =
     (let n_whole = (n + DIG_SIZE - 1) div DIG_SIZE;
          n_part = (if n mod DIG_SIZE = 0 then DIG_SIZE else n mod DIG_SIZE);
          idig = replicate (n_whole - 1) 0 @ rev (mpn_shl_loop n_part 0 (rev jdig))
      in mpn_remove_trailing_zeros idig)"

fun mpn_shr_loop :: "nat \<Rightarrow> nat list \<Rightarrow> nat list" where
  "mpn_shr_loop n_part [] = []"
| "mpn_shr_loop n_part [j] = [(j div 2 ^ n_part) mod DIG_BASE]"
| "mpn_shr_loop n_part (j # j1 # js) =
     ((j OR j1 * DIG_BASE) div 2 ^ n_part) mod DIG_BASE # mpn_shr_loop n_part (j1 # js)"

definition mpn_shr :: "nat list \<Rightarrow> nat \<Rightarrow> nat list" where
  "mpn_shr jdig n =
     (let n_whole = n div DIG_SIZE;
          n_part = n mod DIG_SIZE
      in if n_whole \<ge> length jdig then []
         else let idig = mpn_shr_loop n_part (drop n_whole jdig)
              in if last idig = 0 then butlast idig else idig)"

fun mpn_add_loop :: "nat \<Rightarrow> nat list \<Rightarrow> nat list \<Rightarrow> nat list" where
  "mpn_add_loop carry (j # js) (k # ks) =
     (let carry = u32 (carry + (j + k))
      in carry mod DIG_BASE # mpn_add_loop (carry div DIG_BASE) js ks)"
| "mpn_add_loop carry (j # js) [] =
     (let carry = u32 (carry + j)
      in carry mod DIG_BASE # mpn_add_loop (carry div DIG_BASE) js [])"
| "mpn_add_loop carry [] _ = (if carry \<noteq> 0 then [u16 carry] else [])"

definition mpn_add :: "nat list \<Rightarrow> nat list \<Rightarrow> nat list" where
  "mpn_add jdig kdig = mpn_add_loop 0 jdig kdig"

fun mpn_sub_loop :: "int \<Rightarrow> nat list \<Rightarrow> nat list \<Rightarrow> nat list" where
  "mpn_sub_loop borrow (j # js) (k # ks) =
     (let borrow = s32 (borrow + (int j - int k))
      in nat (borrow mod int DIG_BASE) # mpn_sub_loop (borrow div int DIG_BASE) js ks)"
| "mpn_sub_loop borrow (j # js) [] =
     (let borrow = s32 (borrow + int j)
      in nat (borrow mod int DIG_BASE) # mpn_sub_loop (borrow div int DIG_BASE) js [])"
| "mpn_sub_loop borrow [] _ = []"

definition mpn_sub :: "nat list \<Rightarrow> nat list \<Rightarrow> nat list" where
  "mpn_sub jdig kdig = mpn_remove_trailing_zeros (mpn_sub_loop 0 jdig kdig)"

fun mpn_mul_dig_loop :: "nat \<Rightarrow> nat \<Rightarrow> nat list \<Rightarrow> nat list" where
  "mpn_mul_dig_loop dmul carry [] = (if carry \<noteq> 0 then [u16 carry] else [])"
| "mpn_mul_dig_loop dmul carry (i # is) =
     (let carry = u32 (carry + u32 (i * dmul))
      in carry mod DIG_BASE # mpn_mul_dig_loop dmul (carry div DIG_BASE) is)"

definition mpn_mul_dig_add_dig :: "nat list \<Rightarrow> nat \<Rightarrow> nat \<Rightarrow> nat list" where
  "mpn_mul_dig_add_dig idig dmul dadd = mpn_mul_dig_loop dmul dadd idig"

text \<open>
  The inner loop of \<open>mpn_mul\<close>: \<open>ids\<close> is the rest of the buffer from the current digit on.
  The result is that rest, updated, with the number of digits \<open>ids\<close> moved.
\<close>

fun mpn_mul_row :: "nat list \<Rightarrow> nat list \<Rightarrow> nat \<Rightarrow> nat \<Rightarrow> (nat list \<times> nat) option" where
  "mpn_mul_row ids [] k carry =
     (if carry \<noteq> 0
      then (case ids of [] \<Rightarrow> None | _ # ids' \<Rightarrow> Some (u16 carry # ids', 1))
      else Some (ids, 0))"
| "mpn_mul_row [] (j # jd) k carry = None"
| "mpn_mul_row (i # ids) (j # jd) k carry =
     (let carry = u32 (carry + u32 (i + u32 (j * k)))
      in map_option (\<lambda>(ids', n). (carry mod DIG_BASE # ids', Suc n))
           (mpn_mul_row ids jd k (carry div DIG_BASE)))"

fun mpn_mul :: "nat list \<Rightarrow> nat list \<Rightarrow> nat list \<Rightarrow> (nat list \<times> nat) option" where
  "mpn_mul idig jdig [] = Some (idig, 0)"
| "mpn_mul idig jdig (k # kdig) =
     (case mpn_mul_row idig jdig k 0 of
        None \<Rightarrow> None
      | Some (ids, n) \<Rightarrow>
          (case kdig of
             [] \<Rightarrow> Some (ids, n)
           | _ # _ \<Rightarrow>
               (case ids of
                  [] \<Rightarrow> None
                | i # ids' \<Rightarrow> map_option (\<lambda>(r, m). (i # r, Suc m)) (mpn_mul ids' jdig kdig))))"

section \<open>Stripping zeros and comparing\<close>

lemma mpn_remove_trailing_zeros_Nil [simp]: "mpn_remove_trailing_zeros [] = []"
  by (simp add: mpn_remove_trailing_zeros_def)

lemma mpn_remove_trailing_zeros_snoc [simp]:
  "mpn_remove_trailing_zeros (ds @ [d]) =
     (if d = 0 then mpn_remove_trailing_zeros ds else ds @ [d])"
  by (simp add: mpn_remove_trailing_zeros_def)

lemma nval_remove_trailing_zeros [simp]: "nval (mpn_remove_trailing_zeros ds) = nval ds"
  by (induction ds rule: rev_induct) (auto simp: digit_simps)

lemma normalised_remove_trailing_zeros [simp]: "normalised (mpn_remove_trailing_zeros ds)"
  by (induction ds rule: rev_induct) (auto simp: normalised_def)

lemma nok_remove_trailing_zeros: "nok ds \<Longrightarrow> nok (mpn_remove_trailing_zeros ds)"
  by (induction ds rule: rev_induct) auto

lemma length_remove_trailing_zeros: "length (mpn_remove_trailing_zeros ds) \<le> length ds"
  by (induction ds rule: rev_induct) auto

lemma remove_trailing_zeros_normalised: "normalised ds \<Longrightarrow> mpn_remove_trailing_zeros ds = ds"
  by (induction ds rule: rev_induct) (auto simp: normalised_def)

lemma mpn_cmp_loop_dval:
  assumes "length is = length js" "nok is" "nok js"
  shows "mpn_cmp_loop is js = sgn (int (nval (rev is)) - int (nval (rev js)))"
  using assms
proof (induction "is" js rule: list_induct2)
  case (Cons i "is" j js)
  let ?n = "length js" and ?P = "int (DIG_BASE ^ length js)"
  have "nval (rev is) < DIG_BASE ^ ?n" "nval (rev js) < DIG_BASE ^ ?n"
    using Cons.prems dval_less [of DIG_BASE "rev is"] dval_less [of DIG_BASE "rev js"] Cons.hyps
    by (auto simp: digs_ok_def)
  then have lt: "int (nval (rev is)) < ?P" "int (nval (rev js)) < ?P"
    by (simp_all only: of_nat_less_iff)
  have s: "s32 (int i - int j) = int i - int j"
    using Cons.prems by (intro s32_id) auto
  have v: "int (nval (rev (i # is))) - int (nval (rev (j # js))) =
      int (nval (rev is)) - int (nval (rev js)) + ?P * (int i - int j)"
    using Cons.hyps by (simp add: digit_simps algebra_simps)
  have g: "?P * 1 \<le> ?P * (int i - int j)" if "j < i"
    using that by (intro mult_left_mono) auto
  have l: "?P * (int i - int j) \<le> ?P * (- 1)" if "i < j"
    using that by (intro mult_left_mono) auto
  consider "i < j" | "i = j" | "j < i" by linarith
  then show ?case
  proof cases
    case 1
    then have "int (nval (rev is)) - int (nval (rev js)) + ?P * (int i - int j) < 0"
      using l lt by linarith
    with 1 s show ?thesis unfolding v by (simp add: sgn_if)
  next
    case 2
    then show ?thesis unfolding v using s Cons by simp
  next
    case 3
    then have "int (nval (rev is)) - int (nval (rev js)) + ?P * (int i - int j) > 0"
      using g lt by linarith
    with 3 s show ?thesis unfolding v by (simp add: sgn_if)
  qed
qed simp

lemma nval_less_of_length:
  assumes "length xs < length ys" "normalised ys" "nok xs"
  shows "nval xs < nval ys"
proof -
  have "nval xs < DIG_BASE ^ length xs" using assms(3) by (rule dval_less)
  also have "\<dots> \<le> DIG_BASE ^ (length ys - 1)" using assms(1) by (intro power_increasing) auto
  also have "\<dots> \<le> nval ys" using assms by (intro dval_ge_last) (auto simp: normalised_def)
  finally show ?thesis .
qed

lemma mpn_cmp_sgn:
  assumes "normalised i" "normalised j" "nok i" "nok j"
  shows "mpn_cmp i j = sgn (int (nval i) - int (nval j))"
proof -
  consider "length i < length j" | "length j < length i" | "length i = length j" by linarith
  then show ?thesis
  proof cases
    case 1
    then have "nval i < nval j" using assms by (intro nval_less_of_length)
    with 1 show ?thesis by (simp add: mpn_cmp_def)
  next
    case 2
    then have "nval j < nval i" using assms by (intro nval_less_of_length)
    with 2 show ?thesis by (simp add: mpn_cmp_def)
  next
    case 3
    then show ?thesis using assms by (simp add: mpn_cmp_def mpn_cmp_loop_dval digs_ok_def)
  qed
qed

section \<open>Addition and subtraction\<close>

lemma split_digit: "(c::nat) mod B + B * (c div B + r) = c + B * r"
  by (metis add.assoc distrib_left mod_mult_div_eq)

lemma split_digit_int: "(c::int) mod B + B * (c div B + r) = c + B * r"
  by (metis add.assoc distrib_left mod_mult_div_eq)

lemma mpn_add_loop_correct:
  assumes "nok js" "nok ks" "length ks \<le> length js" "carry \<le> 1"
  shows "nval (mpn_add_loop carry js ks) = carry + nval js + nval ks
    \<and> nok (mpn_add_loop carry js ks)"
  using assms
proof (induction carry js ks rule: mpn_add_loop.induct)
  case (1 carry j js k ks)
  let ?c = "carry + (j + k)"
  have u: "u32 ?c = ?c" using "1.prems" by (intro u32_id) auto
  have "?c div DIG_BASE \<le> 1" using "1.prems" by auto
  with "1.IH" [OF refl] "1.prems" u
  have ih: "nval (mpn_add_loop (?c div DIG_BASE) js ks) = ?c div DIG_BASE + (nval js + nval ks)"
    "nok (mpn_add_loop (?c div DIG_BASE) js ks)" by auto
  show ?case using split_digit [of ?c DIG_BASE "nval js + nval ks"] ih u
    by (simp add: Let_def)
next
  case (2 carry j js)
  let ?c = "carry + j"
  have u: "u32 ?c = ?c" using "2.prems" by (intro u32_id) auto
  have "?c div DIG_BASE \<le> 1" using "2.prems" by auto
  with "2.IH" [OF refl] "2.prems" u
  have ih: "nval (mpn_add_loop (?c div DIG_BASE) js []) = ?c div DIG_BASE + nval js"
    "nok (mpn_add_loop (?c div DIG_BASE) js [])" by auto
  show ?case using split_digit [of ?c DIG_BASE "nval js"] ih u
    by (simp add: Let_def)
next
  case (3 carry uu)
  then show ?case by (auto simp: wrap_simps)
qed

lemma mpn_add_loop_length:
  "length ks \<le> length js \<Longrightarrow>
     length js \<le> length (mpn_add_loop c js ks) \<and> length (mpn_add_loop c js ks) \<le> Suc (length js)"
  by (induction c js ks rule: mpn_add_loop.induct) (auto simp: Let_def)

lemma mpn_add_loop_last:
  assumes "length (mpn_add_loop c js ks) = Suc (length js)" "nok js" "nok ks" "c \<le> 1"
    "length ks \<le> length js"
  shows "last (mpn_add_loop c js ks) = 1"
  using assms
proof (induction c js ks rule: mpn_add_loop.induct)
  case (1 carry j js k ks)
  have u: "u32 (carry + (j + k)) = carry + (j + k)" using "1.prems" by (intro u32_id) auto
  have "(carry + (j + k)) div DIG_BASE \<le> 1" using "1.prems" by auto
  with 1 u show ?case by (auto simp: Let_def)
next
  case (2 carry j js)
  have u: "u32 (carry + j) = carry + j" using "2.prems" by (intro u32_id) auto
  have "(carry + j) div DIG_BASE \<le> 1" using "2.prems" by auto
  with 2 u show ?case by (auto simp: Let_def)
next
  case (3 carry uu)
  then show ?case by (auto simp: wrap_simps split: if_splits)
qed

lemma normalised_by_size:
  assumes "ds \<noteq> []" "nok ds" "DIG_BASE ^ (length ds - 1) \<le> nval ds"
  shows "normalised ds"
proof (rule ccontr)
  assume "\<not> normalised ds"
  then have "ds = butlast ds @ [0]" by (auto simp: normalised_def) (metis append_butlast_last_id)
  then have "nval ds = nval (butlast ds)" by (metis add_0_right dval_snoc mult_0_right)
  also have "\<dots> < DIG_BASE ^ length (butlast ds)"
    using assms(2) by (intro dval_less digs_ok_butlast)
  finally show False using assms(3) by simp
qed

lemma mpn_add_correct:
  assumes "nok j" "nok k" "length k \<le> length j"
  shows "nval (mpn_add j k) = nval j + nval k" "nok (mpn_add j k)"
  using mpn_add_loop_correct [OF assms, of 0] by (auto simp: mpn_add_def)

lemma mpn_add_length:
  "length k \<le> length j \<Longrightarrow> length (mpn_add j k) \<le> Suc (length j)"
  using mpn_add_loop_length [of k j 0] by (simp add: mpn_add_def)

lemma mpn_add_normalised:
  assumes "nok j" "nok k" "length k \<le> length j" "normalised j"
  shows "normalised (mpn_add j k)"
proof (cases "length (mpn_add j k) = Suc (length j)")
  case True
  then show ?thesis using mpn_add_loop_last [of 0 j k] assms
    by (simp add: mpn_add_def normalised_def)
next
  case False
  with assms have len: "length (mpn_add j k) = length j"
    using mpn_add_loop_length [of k j 0] by (simp add: mpn_add_def)
  show ?thesis
  proof (cases "j = []")
    case True
    with len show ?thesis by simp
  next
    case False
    then have "DIG_BASE ^ (length j - 1) \<le> nval j"
      using assms(4) by (intro dval_ge_last) (auto simp: normalised_def)
    with False len show ?thesis using mpn_add_correct [OF assms(1-3)]
      by (intro normalised_by_size) auto
  qed
qed

lemma nonneg_quotient:
  fixes c r B :: int
  assumes "0 \<le> c + B * r" "0 < B"
  shows "0 \<le> c div B + r"
proof -
  have "0 \<le> (c + r * B) div B"
    using assms by (intro pos_imp_zdiv_nonneg_iff [THEN iffD2]) (auto simp: mult.commute)
  then show ?thesis using assms(2) by simp
qed

lemma mpn_sub_loop_correct:
  assumes "nok js" "nok ks" "length ks \<le> length js" "- 1 \<le> borrow" "borrow \<le> 0"
    and "int (nval ks) \<le> borrow + int (nval js)"
  shows "int (nval (mpn_sub_loop borrow js ks)) = borrow + int (nval js) - int (nval ks)
    \<and> nok (mpn_sub_loop borrow js ks) \<and> length (mpn_sub_loop borrow js ks) = length js"
  using assms
proof (induction borrow js ks rule: mpn_sub_loop.induct)
  case (1 b j js k ks)
  let ?c = "b + (int j - int k)" and ?q = "(b + (int j - int k)) div int DIG_BASE"
  let ?r = "int (nval js) - int (nval ks)"
  have u: "s32 ?c = ?c" using "1.prems" by (intro s32_id) auto
  have q: "- 1 \<le> ?q" "?q \<le> 0" using "1.prems" by auto
  have nn: "0 \<le> ?c + int DIG_BASE * ?r" using "1.prems" by (simp add: right_diff_distrib)
  have "0 \<le> ?q + ?r" using nn by (rule nonneg_quotient) simp
  with "1.IH" [OF refl] "1.prems" u q
  have ih: "int (nval (mpn_sub_loop ?q js ks)) = ?q + ?r" "nok (mpn_sub_loop ?q js ks)"
    "length (mpn_sub_loop ?q js ks) = length js" by auto
  have "int (nval (mpn_sub_loop b (j # js) (k # ks))) = ?c mod int DIG_BASE + int DIG_BASE * (?q + ?r)"
    using ih(1) u by (simp add: Let_def)
  then have "int (nval (mpn_sub_loop b (j # js) (k # ks))) = ?c + int DIG_BASE * ?r"
    by (simp only: split_digit_int)
  with ih(2,3) u show ?case by (simp add: Let_def nat_less_iff right_diff_distrib)
next
  case (2 b j js)
  let ?c = "b + int j" and ?q = "(b + int j) div int DIG_BASE"
  let ?r = "int (nval js)"
  have u: "s32 ?c = ?c" using "2.prems" by (intro s32_id) auto
  have q: "- 1 \<le> ?q" "?q \<le> 0" using "2.prems" by auto
  have nn: "0 \<le> ?c + int DIG_BASE * ?r" using "2.prems" by simp
  have "0 \<le> ?q + ?r" using nn by (rule nonneg_quotient) simp
  with "2.IH" [OF refl] "2.prems" u q
  have ih: "int (nval (mpn_sub_loop ?q js [])) = ?q + ?r" "nok (mpn_sub_loop ?q js [])"
    "length (mpn_sub_loop ?q js []) = length js" by auto
  have "int (nval (mpn_sub_loop b (j # js) [])) = ?c mod int DIG_BASE + int DIG_BASE * (?q + ?r)"
    using ih(1) u by (simp add: Let_def)
  then have "int (nval (mpn_sub_loop b (j # js) [])) = ?c + int DIG_BASE * ?r"
    by (simp only: split_digit_int)
  with ih(2,3) u show ?case by (simp add: Let_def nat_less_iff)
next
  case (3 b uu)
  then show ?case by auto
qed

lemma mpn_sub_correct:
  assumes "nok j" "nok k" "length k \<le> length j" "nval k \<le> nval j"
  shows "nval (mpn_sub j k) = nval j - nval k" "nok (mpn_sub j k)" "normalised (mpn_sub j k)"
    "length (mpn_sub j k) \<le> length j"
proof -
  have *: "int (nval (mpn_sub_loop 0 j k)) = int (nval j) - int (nval k)"
    "nok (mpn_sub_loop 0 j k)" "length (mpn_sub_loop 0 j k) = length j"
    using mpn_sub_loop_correct [OF assms(1-3), of 0] assms(4) by auto
  show "nval (mpn_sub j k) = nval j - nval k"
    using * assms(4) by (simp add: mpn_sub_def)
  show "nok (mpn_sub j k)" using * by (simp add: mpn_sub_def nok_remove_trailing_zeros)
  show "normalised (mpn_sub j k)" by (simp add: mpn_sub_def)
  show "length (mpn_sub j k) \<le> length j"
    using *(3) length_remove_trailing_zeros by (metis mpn_sub_def)
qed

section \<open>Multiplication\<close>

lemma mul_dig_bound:
  fixes i j k c :: nat
  assumes "i < DIG_BASE" "j < DIG_BASE" "k < DIG_BASE" "c < DIG_BASE"
  shows "j * k < 4294967296" "i + j * k < 4294967296" "c + (i + j * k) < 4294967296"
proof -
  have "j * k \<le> 65535 * 65535" using assms by (intro mult_le_mono) auto
  then show "j * k < 4294967296" "i + j * k < 4294967296" "c + (i + j * k) < 4294967296"
    using assms by auto
qed

lemma mpn_mul_dig_loop_correct:
  assumes "nok is" "dmul < DIG_BASE" "carry < DIG_BASE"
  shows "nval (mpn_mul_dig_loop dmul carry is) = nval is * dmul + carry
    \<and> nok (mpn_mul_dig_loop dmul carry is)
    \<and> length (mpn_mul_dig_loop dmul carry is) \<le> Suc (length is)"
  using assms
proof (induction dmul carry "is" rule: mpn_mul_dig_loop.induct)
  case (1 dmul carry)
  then show ?case by (simp add: wrap_simps)
next
  case (2 dmul carry i "is")
  let ?c = "carry + i * dmul"
  have b: "i * dmul < 4294967296" "?c < 4294967296"
    using mul_dig_bound [of 0 i dmul carry] "2.prems" by auto
  have u: "u32 (carry + u32 (i * dmul)) = ?c"
    using b by (simp add: wrap_simps)
  have "?c div DIG_BASE < DIG_BASE" using b by (simp add: div_less_iff_less_mult)
  with "2.IH" [OF refl] "2.prems" u
  have ih: "nval (mpn_mul_dig_loop dmul (?c div DIG_BASE) is) = ?c div DIG_BASE + nval is * dmul"
    "nok (mpn_mul_dig_loop dmul (?c div DIG_BASE) is)"
    "length (mpn_mul_dig_loop dmul (?c div DIG_BASE) is) \<le> Suc (length is)" by auto
  show ?case using split_digit [of ?c DIG_BASE "nval is * dmul"] ih u
    by (simp add: Let_def algebra_simps)
qed

lemma mpn_mul_dig_loop_normalised:
  assumes "nok is" "dmul < DIG_BASE" "carry < DIG_BASE" "0 < dmul" "normalised is"
  shows "normalised (mpn_mul_dig_loop dmul carry is)"
  using assms
proof (induction dmul carry "is" rule: mpn_mul_dig_loop.induct)
  case (1 dmul carry)
  then show ?case by (simp add: wrap_simps normalised_def)
next
  case (2 dmul carry i "is")
  let ?c = "carry + i * dmul"
  have b: "i * dmul < 4294967296" "?c < 4294967296"
    using mul_dig_bound [of 0 i dmul carry] "2.prems" by auto
  have u: "u32 (carry + u32 (i * dmul)) = ?c" using b by (simp add: wrap_simps)
  have q: "?c div DIG_BASE < DIG_BASE" using b by (simp add: div_less_iff_less_mult)
  have n: "normalised is" using "2.prems"(5) by (auto simp: normalised_def split: if_splits)
  have ih: "normalised (mpn_mul_dig_loop dmul (?c div DIG_BASE) is)"
    using "2.IH" [OF refl] "2.prems" u q n by auto
  show ?case
  proof (cases "mpn_mul_dig_loop dmul (?c div DIG_BASE) is = []")
    case True
    then have z: "?c div DIG_BASE = 0" "is = []"
      by (cases "is"; simp add: Let_def split: if_splits)+
    with "2.prems" have "i \<noteq> 0" by (simp add: normalised_def)
    with "2.prems" have "?c \<noteq> 0" by simp
    moreover have "?c mod DIG_BASE = ?c" using z(1) by simp
    ultimately show ?thesis using True u by (simp add: Let_def normalised_def)
  next
    case False
    with ih u show ?thesis by (simp add: Let_def normalised_def)
  qed
qed

lemma mpn_mul_dig_add_dig_correct:
  assumes "nok i" "dmul < DIG_BASE" "dadd < DIG_BASE"
  shows "nval (mpn_mul_dig_add_dig i dmul dadd) = nval i * dmul + dadd"
    "nok (mpn_mul_dig_add_dig i dmul dadd)"
    "length (mpn_mul_dig_add_dig i dmul dadd) \<le> Suc (length i)"
    "0 < dmul \<Longrightarrow> normalised i \<Longrightarrow> normalised (mpn_mul_dig_add_dig i dmul dadd)"
  using mpn_mul_dig_loop_correct [OF assms] mpn_mul_dig_loop_normalised [OF assms]
  by (auto simp: mpn_mul_dig_add_dig_def)

lemma mpn_mul_row_correct:
  assumes "nok ids" "nok js" "k < DIG_BASE" "carry < DIG_BASE"
    and "length js < length ids" "ids ! length js = 0"
  shows "\<exists>r n. mpn_mul_row ids js k carry = Some (r, n) \<and> nok r \<and> length r = length ids
    \<and> nval r = nval ids + nval js * k + carry
    \<and> drop (Suc (length js)) r = drop (Suc (length js)) ids
    \<and> (n = length js \<and> r ! length js = 0 \<or> n = Suc (length js) \<and> r ! length js \<noteq> 0)"
  using assms
proof (induction ids js k carry rule: mpn_mul_row.induct)
  case (1 ids k carry)
  then show ?case by (cases ids) (auto simp: wrap_simps)
next
  case (2 j jd k carry)
  then show ?case by simp
next
  case (3 i ids j js k carry)
  let ?c = "carry + (i + j * k)"
  have b: "j * k < 4294967296" "i + j * k < 4294967296" "?c < 4294967296"
    using mul_dig_bound [of i j k carry] "3.prems" by auto
  have u: "u32 (carry + u32 (i + u32 (j * k))) = ?c" using b by (simp add: wrap_simps)
  have q: "?c div DIG_BASE < DIG_BASE" using b by (simp add: div_less_iff_less_mult)
  obtain r n where rn: "mpn_mul_row ids js k (?c div DIG_BASE) = Some (r, n)" "nok r"
    "length r = length ids" "nval r = nval ids + nval js * k + ?c div DIG_BASE"
    "drop (Suc (length js)) r = drop (Suc (length js)) ids"
    "n = length js \<and> r ! length js = 0 \<or> n = Suc (length js) \<and> r ! length js \<noteq> 0"
    using "3.IH" [OF refl] "3.prems" u q by auto
  have "mpn_mul_row (i # ids) (j # js) k carry = Some (?c mod DIG_BASE # r, Suc n)"
    using u rn(1) by (simp add: Let_def)
  moreover have "nval (?c mod DIG_BASE # r) = nval (i # ids) + nval (j # js) * k + carry"
    using split_digit [of ?c DIG_BASE "nval ids + nval js * k"] rn(4)
    by (simp add: algebra_simps)
  ultimately show ?case using rn by auto
qed

text \<open>
  With a destination of at least \<open>jlen + klen\<close> zeroed digits no write is out of bounds, and
  the buffer then holds the product, of which the returned length covers all non-zero digits.
\<close>

lemma mpn_mul_correct_gen:
  assumes "nok ids" "nok js" "nok ks" "ks \<noteq> []" "length js + length ks \<le> length ids"
    and "\<forall>d \<in> set (drop (length js) ids). d = 0"
  shows "\<exists>r m. mpn_mul ids js ks = Some (r, m) \<and> nok r \<and> length r = length ids
    \<and> nval r = nval ids + nval js * nval ks
    \<and> (m = length js + length ks - 1 \<or> m = length js + length ks \<and> r ! (m - 1) \<noteq> 0)
    \<and> (\<forall>d \<in> set (drop m r). d = 0)"
  using assms
proof (induction ids js ks rule: mpn_mul.induct)
  case (1 idig jdig)
  then show ?case by simp
next
  case (2 ids js k ks)
  have len: "length js < length ids" using "2.prems" by simp
  then have dr: "drop (length js) ids = ids ! length js # drop (Suc (length js)) ids"
    by (rule Cons_nth_drop_Suc [symmetric])
  with "2.prems" have z: "ids ! length js = 0" "\<forall>d \<in> set (drop (Suc (length js)) ids). d = 0"
    by auto
  obtain r n where rn: "mpn_mul_row ids js k 0 = Some (r, n)" "nok r" "length r = length ids"
    "nval r = nval ids + nval js * k"
    "drop (Suc (length js)) r = drop (Suc (length js)) ids"
    "n = length js \<and> r ! length js = 0 \<or> n = Suc (length js) \<and> r ! length js \<noteq> 0"
    using mpn_mul_row_correct [of ids js k 0] "2.prems" len z by auto
  show ?case
  proof (cases ks)
    case Nil
    have "drop (length js) r = r ! length js # drop (Suc (length js)) r"
      using len rn(3) by (simp add: Cons_nth_drop_Suc)
    with rn(5,6) z have "\<forall>d \<in> set (drop n r). d = 0" by auto
    with Nil rn show ?thesis by (auto simp: algebra_simps)
  next
    case (Cons k2 ks')
    from len rn(3) obtain i r' where r: "r = i # r'" by (cases r) auto
    have "length js + length ks \<le> length r'" using "2.prems" rn(3) r by simp
    moreover have "drop (length js) r' = drop (Suc (length js)) ids" using rn(5) r by simp
    ultimately obtain r2 m where r2: "mpn_mul r' js ks = Some (r2, m)" "nok r2"
      "length r2 = length r'" "nval r2 = nval r' + nval js * nval ks"
      "m = length js + length ks - 1 \<or> m = length js + length ks \<and> r2 ! (m - 1) \<noteq> 0"
      "\<forall>d \<in> set (drop m r2). d = 0"
      using "2.IH" [OF rn(1) refl Cons r] rn(2) r "2.prems" z(2) Cons by auto
    have v: "nval (i # r2) = nval ids + nval js * nval (k # ks)"
      using r2(4) rn(4) r by (simp add: algebra_simps)
    have "mpn_mul ids js (k # ks) = Some (i # r2, Suc m)"
      using rn(1) r2(1) r Cons by simp
    with v r2 rn(2,3) r Cons show ?thesis by auto
  qed
qed

lemma nval_take_zeros:
  "\<forall>d \<in> set (drop m r). d = 0 \<Longrightarrow> nval (take m r) = nval r"
  using dval_take_drop [of DIG_BASE r m] by (simp add: dval_eq_0_iff)

lemma mpn_mul_correct:
  assumes "nok j" "nok k" "normalised j" "normalised k" "j \<noteq> []" "k \<noteq> []"
    and "length j + length k \<le> n"
  shows "\<exists>r m. mpn_mul (replicate n 0) j k = Some (r, m) \<and> length r = n
    \<and> m \<le> length j + length k \<and> nval (take m r) = nval j * nval k
    \<and> nok (take m r) \<and> normalised (take m r) \<and> length (take m r) = m"
proof -
  obtain r m where rm: "mpn_mul (replicate n 0) j k = Some (r, m)" "nok r" "length r = n"
    "nval r = nval j * nval k"
    "m = length j + length k - 1 \<or> m = length j + length k \<and> r ! (m - 1) \<noteq> 0"
    "\<forall>d \<in> set (drop m r). d = 0"
    using mpn_mul_correct_gen [of "replicate n 0" j k] assms by auto
  have v: "nval (take m r) = nval j * nval k"
    using nval_take_zeros rm by metis
  have m: "m \<le> n" "0 < m" using rm(5) assms(5-7) by (auto simp: neq_Nil_conv)
  have "normalised (take m r)"
  proof (cases "r ! (m - 1) = 0")
    case False
    with m rm(3) show ?thesis by (auto simp: normalised_def last_conv_nth)
  next
    case True
    with rm(5) have mm: "m = length j + length k - 1" by auto
    have "DIG_BASE ^ (length j - 1) * DIG_BASE ^ (length k - 1) \<le> nval j * nval k"
      using assms by (intro mult_le_mono dval_ge_last) (auto simp: normalised_def)
    moreover have "length j - 1 + (length k - 1) = m - 1"
      using assms(5,6) mm by (cases j; cases k) auto
    ultimately have "DIG_BASE ^ (m - 1) \<le> nval (take m r)"
      unfolding v by (simp flip: power_add)
    with m rm show ?thesis by (intro normalised_by_size) (auto simp: digs_ok_take)
  qed
  with rm v m show ?thesis by (auto simp: digs_ok_take)
qed

section \<open>Shifts\<close>

lemma pow2_le_base: "p \<le> DIG_SIZE \<Longrightarrow> (2::nat) ^ (DIG_SIZE - p) * 2 ^ p = DIG_BASE"
  by (simp flip: power_add)

lemma shl_digit_gen:
  fixes p j V P h l B :: nat
  assumes B: "B = h * l" and "0 < h" "0 < l" "V < P"
  shows "((p * B + j) div h) mod B * (B * P) + ((j * P + V) * l) mod (B * P)
    = ((p * (B * P) + (j * P + V)) * l) mod (B * (B * P))"
proof -
  let ?X = "(j * P + V) * l"
  have "?X div (B * P) = (j * P + V) div (h * P)"
    using assms(3) div_mult_mult2 [of l "j * P + V" "h * P"] unfolding B by (simp add: ac_simps)
  also have "\<dots> = ((j * P + V) div P) div h" by (simp add: div_mult2_eq mult.commute [of h])
  also have "(j * P + V) div P = j" using assms(4) by simp
  finally have X: "?X div (B * P) = j div h" .
  have "p * B + j = j + h * (p * l)" unfolding B by (simp add: ac_simps)
  then have d: "(p * B + j) div h = p * l + j div h"
    using assms(2) by (simp only: div_mult_self2)
  have "(p * (B * P) + (j * P + V)) * l = ?X + (B * P) * (p * l)"
    by (simp add: algebra_simps)
  moreover have "(?X + (B * P) * (p * l)) mod ((B * P) * B)
      = (B * P) * (((?X + (B * P) * (p * l)) div (B * P)) mod B) + (?X + (B * P) * (p * l)) mod (B * P)"
    by (rule mod_mult2_eq)
  moreover have "(?X + (B * P) * (p * l)) div (B * P) = p * l + j div h"
    using X assms by (simp only: div_mult_self2) simp
  moreover have "(?X + (B * P) * (p * l)) mod (B * P) = ?X mod (B * P)"
    by (rule mod_mult_self2)
  ultimately show ?thesis unfolding d by (simp add: ac_simps)
qed

lemma shl_digit:
  fixes p j V P np :: nat
  assumes "np \<le> DIG_SIZE" "V < P"
  shows "((p * DIG_BASE + j) div 2 ^ (DIG_SIZE - np)) mod DIG_BASE * (DIG_BASE * P)
      + ((j * P + V) * 2 ^ np) mod (DIG_BASE * P)
    = ((p * (DIG_BASE * P) + (j * P + V)) * 2 ^ np) mod (DIG_BASE * (DIG_BASE * P))"
  by (rule shl_digit_gen [OF pow2_le_base [OF assms(1), symmetric] _ _ assms(2)]) simp_all

lemma mpn_shl_loop_correct:
  assumes "1 \<le> np" "np \<le> DIG_SIZE" "p < DIG_BASE" "nok js"
  shows "nval (rev (mpn_shl_loop np (p * DIG_BASE) js))
      = ((p * DIG_BASE ^ length js + nval (rev js)) * 2 ^ np) mod DIG_BASE ^ Suc (length js)
    \<and> nok (mpn_shl_loop np (p * DIG_BASE) js)
    \<and> length (mpn_shl_loop np (p * DIG_BASE) js) = Suc (length js)"
  using assms
proof (induction js arbitrary: p)
  case Nil
  have "p * DIG_BASE = 2 ^ (DIG_SIZE - np) * (p * 2 ^ np)"
    unfolding pow2_le_base [OF Nil.prems(2), symmetric] by (rule mult.left_commute)
  then have "p * DIG_BASE div 2 ^ (DIG_SIZE - np) = p * 2 ^ np"
    by (simp only: nonzero_mult_div_cancel_left power_not_zero zero_neq_numeral not_False_eq_True)
  then show ?case by simp
next
  case (Cons j js)
  have or: "p * DIG_BASE OR j = p * DIG_BASE + j"
    using or_disjoint_nat [of j 16 p] Cons.prems by simp
  have "(p * DIG_BASE + j) * DIG_BASE = j * DIG_BASE + p * 4294967296"
    by (simp add: algebra_simps)
  then have u: "u32 ((p * DIG_BASE + j) * DIG_BASE) = j * DIG_BASE"
    using Cons.prems by (simp add: u32_def)
  have ih: "nval (rev (mpn_shl_loop np (j * DIG_BASE) js))
      = ((j * DIG_BASE ^ length js + nval (rev js)) * 2 ^ np) mod DIG_BASE ^ Suc (length js)"
    "nok (mpn_shl_loop np (j * DIG_BASE) js)"
    "length (mpn_shl_loop np (j * DIG_BASE) js) = Suc (length js)"
    using Cons.IH [of j] Cons.prems by auto
  have lt: "nval (rev js) < DIG_BASE ^ length js"
    using Cons.prems dval_less [of DIG_BASE "rev js"] by (simp add: digs_ok_def)
  let ?o = "((p * DIG_BASE + j) div 2 ^ (DIG_SIZE - np)) mod DIG_BASE"
  have "mpn_shl_loop np (p * DIG_BASE) (j # js) = ?o # mpn_shl_loop np (j * DIG_BASE) js"
    using or u by (simp add: Let_def)
  moreover have "nval (rev (?o # mpn_shl_loop np (j * DIG_BASE) js))
      = ?o * (DIG_BASE * DIG_BASE ^ length js)
        + ((j * DIG_BASE ^ length js + nval (rev js)) * 2 ^ np) mod (DIG_BASE * DIG_BASE ^ length js)"
    using ih by (simp add: digit_simps)
  moreover have "\<dots> = ((p * DIG_BASE ^ length (j # js) + nval (rev (j # js))) * 2 ^ np)
      mod DIG_BASE ^ Suc (length (j # js))"
    unfolding shl_digit [OF Cons.prems(2) lt]
    by (simp add: digit_simps ac_simps)
  ultimately show ?case using ih by simp
qed

lemma mpn_shl_whole_part:
  assumes "0 < n"
  shows "(let w = (n + DIG_SIZE - 1) div DIG_SIZE;
              p = (if n mod DIG_SIZE = 0 then DIG_SIZE else n mod DIG_SIZE)
          in 1 \<le> p \<and> p \<le> DIG_SIZE \<and> 1 \<le> w \<and> DIG_SIZE * (w - 1) + p = n)"
proof -
  define q r where "q = n div DIG_SIZE" and "r = n mod DIG_SIZE"
  have n: "n = DIG_SIZE * q + r" and r: "r < DIG_SIZE" by (simp_all add: q_def r_def)
  have "(n + DIG_SIZE - 1) div DIG_SIZE = q + (r + 15) div DIG_SIZE" unfolding n by simp
  moreover have "(r + 15) div DIG_SIZE = (if r = 0 then 0 else 1)"
    using r by (auto intro: div_nat_eqI)
  moreover have "r = 0 \<Longrightarrow> 1 \<le> q" using assms n by simp
  ultimately show ?thesis using n r by (simp add: Let_def flip: r_def) (simp add: diff_mult_distrib2)
qed

lemma mpn_shl_correct:
  assumes "nok j" "0 < n"
  shows "nval (mpn_shl j n) = nval j * 2 ^ n" "nok (mpn_shl j n)" "normalised (mpn_shl j n)"
    "length (mpn_shl j n) \<le> length j + (n + DIG_SIZE - 1) div DIG_SIZE"
proof -
  define w where "w = (n + DIG_SIZE - 1) div DIG_SIZE"
  define p where "p = (if n mod DIG_SIZE = 0 then DIG_SIZE else n mod DIG_SIZE)"
  define L where "L = mpn_shl_loop p 0 (rev j)"
  have wp: "1 \<le> p" "p \<le> DIG_SIZE" "1 \<le> w" "DIG_SIZE * (w - 1) + p = n"
    using mpn_shl_whole_part [OF assms(2)] by (auto simp: w_def p_def Let_def)
  have eq: "mpn_shl j n = mpn_remove_trailing_zeros (replicate (w - 1) 0 @ rev L)"
    by (simp add: mpn_shl_def w_def p_def L_def Let_def)
  have "nok (rev j)" using assms(1) by (simp add: digs_ok_def)
  from mpn_shl_loop_correct [OF wp(1,2) _ this, of 0]
  have L: "nval (rev L) = (nval j * 2 ^ p) mod DIG_BASE ^ Suc (length j)" "nok L"
    "length L = Suc (length j)" by (auto simp: L_def)
  have "nval j * 2 ^ p < DIG_BASE ^ length j * 2 ^ p"
    using dval_less [OF assms(1)] by simp
  also have "\<dots> \<le> DIG_BASE ^ length j * 2 ^ DIG_SIZE"
    using wp(2) by (intro mult_le_mono2 power_increasing) auto
  finally have "nval (rev L) = nval j * 2 ^ p" using L(1) by (simp add: mult.commute)
  then have "nval (replicate (w - 1) 0 @ rev L) = DIG_BASE ^ (w - 1) * (nval j * 2 ^ p)"
    by (simp add: digit_simps)
  also have "DIG_BASE ^ (w - 1) = 2 ^ (DIG_SIZE * (w - 1))" by (simp add: power_mult)
  also have "2 ^ (DIG_SIZE * (w - 1)) * (nval j * 2 ^ p) = nval j * 2 ^ n"
    unfolding wp(4) [symmetric] power_add by (simp only: ac_simps)
  finally show "nval (mpn_shl j n) = nval j * 2 ^ n" by (simp add: eq)
  show "nok (mpn_shl j n)" unfolding eq using L(2)
    by (intro nok_remove_trailing_zeros) (auto simp: digs_ok_def)
  show "normalised (mpn_shl j n)" by (simp add: eq)
  show "length (mpn_shl j n) \<le> length j + (n + DIG_SIZE - 1) div DIG_SIZE"
    using length_remove_trailing_zeros [of "replicate (w - 1) 0 @ rev L"] wp(3) L(3)
    by (simp only: eq flip: w_def) simp
qed


lemma shr_div_gen:
  fixes j h t B x :: nat
  assumes B: "B = h * t" and "0 < t"
  shows "(j + B * x) div t = j div t + h * x"
proof -
  have "j + B * x = j + t * (h * x)" unfolding B by (simp add: ac_simps)
  then show ?thesis using assms(2) by (simp only: div_mult_self2)
qed

lemma shr_digit_gen:
  fixes j j1 W h t B :: nat
  assumes B: "B = h * t" and "0 < h" "0 < t" "j < B" "j1 < B"
  shows "(j div t + h * j1) mod B + B * (dval B (j1 # ws) div t) = j div t + h * dval B (j1 # ws)"
proof -
  define a b where "a = j1 div t" and "b = j1 mod t"
  have j1: "j1 = t * a + b" "b < t" using assms(3) by (simp_all add: a_def b_def)
  have "j div t < h" using assms by (simp add: div_less_iff_less_mult)
  moreover have "h * b \<le> h * (t - 1)" using j1(2) by (intro mult_le_mono2) simp
  moreover have "h * (t - 1) + h = B" using assms(3) unfolding B by (cases t) auto
  ultimately have lt: "j div t + h * b < B" by linarith
  have "j div t + h * j1 = (j div t + h * b) + B * a" unfolding j1(1) B by (simp add: algebra_simps)
  then have 1: "(j div t + h * j1) mod B = j div t + h * b" using lt by (simp only: mod_mult_self2) simp
  have "dval B (j1 # ws) = b + t * (a + h * dval B ws)"
    unfolding dval.simps j1(1) by (simp add: B algebra_simps)
  then have "dval B (j1 # ws) div t = a + h * dval B ws"
    using assms(3) j1(2) by simp
  with 1 show ?thesis unfolding dval.simps by (simp add: j1(1) B algebra_simps)
qed

lemma mpn_shr_loop_correct:
  assumes "np < DIG_SIZE" "nok js"
  shows "nval (mpn_shr_loop np js) = nval js div 2 ^ np
    \<and> nok (mpn_shr_loop np js) \<and> length (mpn_shr_loop np js) = length js"
  using assms
proof (induction np js rule: mpn_shr_loop.induct)
  case (1 np)
  then show ?case by simp
next
  case (2 np j)
  from 2 have "j div 2 ^ np < DIG_BASE"
    using le_less_trans [OF div_le_dividend, of j DIG_BASE] by simp
  then show ?case by simp
next
  case (3 np j j1 js)
  let ?V = "nval (j1 # js)" and ?t = "2 ^ np :: nat" and ?h = "2 ^ (DIG_SIZE - np) :: nat"
  have B: "DIG_BASE = ?h * ?t" using pow2_le_base [of np] "3.prems" by (metis less_imp_le_nat)
  have or: "j OR j1 * DIG_BASE = j1 * DIG_BASE + j"
    using or_disjoint_nat' [of j 16 j1] "3.prems" by simp
  have ih: "nval (mpn_shr_loop np (j1 # js)) = ?V div ?t" "nok (mpn_shr_loop np (j1 # js))"
    "length (mpn_shr_loop np (j1 # js)) = length (j1 # js)" using 3 by auto
  have dv: "(j + DIG_BASE * x) div ?t = j div ?t + ?h * x" for x
    by (rule shr_div_gen [OF B]) simp
  have "(j + DIG_BASE * ?V) div ?t = j div ?t + ?h * ?V" by (rule dv)
  moreover have "(j1 * DIG_BASE + j) div ?t = j div ?t + ?h * j1"
    using dv [of j1] by (simp add: ac_simps)
  moreover have "(j div ?t + ?h * j1) mod DIG_BASE + DIG_BASE * (?V div ?t) = j div ?t + ?h * ?V"
    using "3.prems" by (intro shr_digit_gen [OF B]) auto
  ultimately show ?case using ih or by simp
qed


lemma mpn_shr_last_zero:
  assumes "np < DIG_SIZE" "nok js" "normalised js" "js \<noteq> []" "last (mpn_shr_loop np js) = 0"
  shows "normalised (butlast (mpn_shr_loop np js))"
proof (cases "length js = 1")
  case True
  then show ?thesis using mpn_shr_loop_correct [OF assms(1,2)]
    by (metis diff_self_eq_0 length_0_conv length_butlast normalised_Nil)
next
  case False
  let ?L = "mpn_shr_loop np js" and ?B = "DIG_BASE"
  have L: "nval ?L = nval js div 2 ^ np" "nok ?L" "length ?L = length js"
    using mpn_shr_loop_correct [OF assms(1,2)] by auto
  from False assms(4) obtain m where m: "length js = Suc (Suc m)"
    by (cases js; cases "tl js") auto
  have ne: "?L \<noteq> []" using L(3) m by auto
  have "(2::nat) ^ np \<le> 2 ^ 16" using assms(1) by (intro power_increasing) auto
  then have "?B ^ m * 2 ^ np \<le> ?B ^ Suc m" by simp
  also have "\<dots> \<le> nval js" using dval_ge_last [of js ?B] assms(3,4) m by (simp add: normalised_def)
  finally have "?B ^ m \<le> nval ?L" unfolding L(1) by (simp add: less_eq_div_iff_mult_less_eq)
  moreover have "nval (butlast ?L) = nval ?L"
    using assms(5) ne dval_snoc [of ?B "butlast ?L" 0] by (metis add_0_right append_butlast_last_id mult_0_right)
  moreover have "length (butlast ?L) = Suc m" using L(3) m by simp
  ultimately show ?thesis using L(2)
    by (intro normalised_by_size digs_ok_butlast) auto
qed

lemma mpn_shr_correct:
  assumes "nok j" "normalised j"
  shows "nval (mpn_shr j n) = nval j div 2 ^ n" "nok (mpn_shr j n)" "normalised (mpn_shr j n)"
    "length (mpn_shr j n) \<le> length j - n div DIG_SIZE"
proof -
  define w p where "w = n div DIG_SIZE" and "p = n mod DIG_SIZE"
  have n: "n = DIG_SIZE * w + p" "p < DIG_SIZE" by (simp_all add: w_def p_def)
  have pw: "(2::nat) ^ n = DIG_BASE ^ w * 2 ^ p"
    unfolding n(1) by (simp add: power_add power_mult)
  have "nval (mpn_shr j n) = nval j div 2 ^ n \<and> nok (mpn_shr j n) \<and> normalised (mpn_shr j n)
    \<and> length (mpn_shr j n) \<le> length j - w"
  proof (cases "length j \<le> w")
    case True
    have "nval j < DIG_BASE ^ length j" using assms(1) by (rule dval_less)
    also have "\<dots> \<le> DIG_BASE ^ w" using True by (intro power_increasing) auto
    also have "\<dots> \<le> 2 ^ n" unfolding pw by simp
    finally have "nval j div 2 ^ n = 0" by simp
    moreover have "mpn_shr j n = []" using True by (simp add: mpn_shr_def Let_def flip: w_def)
    ultimately show ?thesis by simp
  next
    case False
    let ?js = "drop w j" let ?L = "mpn_shr_loop p ?js"
    have eq: "mpn_shr j n = (if last ?L = 0 then butlast ?L else ?L)"
      using False by (simp add: mpn_shr_def Let_def flip: w_def p_def)
    have js: "?js \<noteq> []" "nok ?js" "normalised ?js"
      using False assms by (auto simp: digs_ok_drop normalised_def)
    have L: "nval ?L = nval ?js div 2 ^ p" "nok ?L" "length ?L = length ?js"
      using mpn_shr_loop_correct [OF n(2) js(2)] by auto
    have "nval j = nval (take w j) + DIG_BASE ^ w * nval ?js"
      using dval_take_drop [of DIG_BASE j w] False by (simp add: min_def)
    moreover have "nval (take w j) < DIG_BASE ^ w"
      using dval_less [OF digs_ok_take [OF assms(1)], of w] False by (simp add: min_def)
    ultimately have "nval ?js = nval j div DIG_BASE ^ w" by simp
    then have v: "nval ?L = nval j div 2 ^ n" unfolding L(1) pw by (simp add: div_mult2_eq)
    have ne: "?L \<noteq> []" using L(3) js(1) by (metis length_0_conv)
    show ?thesis
    proof (cases "last ?L = 0")
      case True
      have "nval (butlast ?L) = nval ?L"
        using True ne dval_snoc [of DIG_BASE "butlast ?L" 0]
        by (metis add_0_right append_butlast_last_id mult_0_right)
      with True v L show ?thesis unfolding eq
        using mpn_shr_last_zero [OF n(2) js(2,3,1)] by (simp add: digs_ok_butlast)
    next
      case False
      with v L ne show ?thesis unfolding eq by (simp add: normalised_def)
    qed
  qed
  then show "nval (mpn_shr j n) = nval j div 2 ^ n" "nok (mpn_shr j n)" "normalised (mpn_shr j n)"
    "length (mpn_shr j n) \<le> length j - n div DIG_SIZE" by (auto simp: w_def)
qed

end
