(* ===== verification/MpnBits.thy ===== *)
theory MpnBits
  imports Mpn
begin

text \<open>
  The bitwise \<^verbatim>\<open>mpn\<close> functions of \<^verbatim>\<open>py/mpz.c\<close> in the port's configuration, where
  \<^verbatim>\<open>MICROPY_OPT_MPZ_BITWISE\<close> is 0 (it needs the extra-features level): the general forms
  \<open>mpn_and_neg\<close>, \<open>mpn_or_neg\<close> and \<open>mpn_xor_neg\<close>, which work on a sign and a magnitude and
  produce the magnitude of the two's complement result.  The three loops of the code
  differ in the operator and in what is added to the digit carries, and are one loop here,
  parameterised by these.  The specification is the bit operation on \<^typ>\<open>int\<close>, which is
  infinite two's complement, as Python's integers are.
\<close>

definition DIG_MASK :: nat where
  "DIG_MASK = 65535"

section \<open>Operations\<close>

text \<open>
  One pass over the digits of \<open>j\<close>.  The test \<^verbatim>\<open>--klen <= --jlen\<close> holds exactly while
  digits of \<open>k\<close> are left, because \<open>klen\<close> is at most \<open>jlen\<close> at the start and wraps to a huge
  value once it passes zero; after that \<open>k\<close> is read as a zero digit.
\<close>

fun mpn_neg_loop ::
  "(nat \<Rightarrow> nat \<Rightarrow> nat) \<Rightarrow> nat \<Rightarrow> (nat \<Rightarrow> nat) \<Rightarrow> (nat \<Rightarrow> nat) \<Rightarrow>
     nat \<Rightarrow> nat \<Rightarrow> nat \<Rightarrow> nat list \<Rightarrow> nat list \<Rightarrow> nat list \<times> nat" where
  "mpn_neg_loop oper imask fj fk carryi carryj carryk [] kdig = ([], carryi)"
| "mpn_neg_loop oper imask fj fk carryi carryj carryk (j # jdig) kdig =
     (let carryj = u32 (carryj + fj j);
          carryk = u32 (carryk + (case kdig of [] \<Rightarrow> fk 0 | k # _ \<Rightarrow> fk k));
          carryi = u32 (carryi + (oper carryj carryk XOR imask) mod DIG_BASE);
          (idig, c) = mpn_neg_loop oper imask fj fk (carryi div DIG_BASE)
            (carryj div DIG_BASE) (carryk div DIG_BASE) jdig (tl kdig)
      in (carryi mod DIG_BASE # idig, c))"

definition carry_mask :: "nat \<Rightarrow> nat" where
  "carry_mask c = (if c = 0 then 0 else DIG_MASK)"

definition mpn_and_neg :: "nat list \<Rightarrow> nat list \<Rightarrow> nat \<Rightarrow> nat \<Rightarrow> nat \<Rightarrow> nat list" where
  "mpn_and_neg jdig kdig carryi carryj carryk =
     (let (idig, c) = mpn_neg_loop (AND) (carry_mask carryi)
            (\<lambda>d. d XOR carry_mask carryj) (\<lambda>d. d XOR carry_mask carryk)
            carryi carryj carryk jdig kdig
      in mpn_remove_trailing_zeros (if c \<noteq> 0 then idig @ [u16 c] else idig))"

text \<open>\<open>None\<close> is the failure of \<^verbatim>\<open>assert(carryi == 0)\<close>.\<close>

definition mpn_or_neg :: "nat list \<Rightarrow> nat list \<Rightarrow> nat \<Rightarrow> nat \<Rightarrow> nat \<Rightarrow> nat list option" where
  "mpn_or_neg jdig kdig carryi carryj carryk =
     (let (idig, c) = mpn_neg_loop (OR) (carry_mask carryi)
            (\<lambda>d. d XOR carry_mask carryj) (\<lambda>d. d XOR carry_mask carryk)
            carryi carryj carryk jdig kdig
      in if c = 0 then Some (mpn_remove_trailing_zeros idig) else None)"

definition mpn_xor_neg :: "nat list \<Rightarrow> nat list \<Rightarrow> nat \<Rightarrow> nat \<Rightarrow> nat \<Rightarrow> nat list" where
  "mpn_xor_neg jdig kdig carryi carryj carryk =
     (let (idig, c) = mpn_neg_loop (XOR) 0 (\<lambda>d. d + DIG_MASK) (\<lambda>d. d + DIG_MASK)
            carryi carryj carryk jdig kdig
      in mpn_remove_trailing_zeros (if c \<noteq> 0 then idig @ [u16 c] else idig))"

section \<open>Two's complement digit streams\<close>

text \<open>
  A carry and the digits still to come stand for an integer, \<open>S c ds\<close>, whose lowest digit
  and whose rest the loop computes.
\<close>

locale digit_stream =
  fixes f :: "nat \<Rightarrow> nat" and S :: "nat \<Rightarrow> nat list \<Rightarrow> int"
  assumes f_bound: "c \<le> 1 \<Longrightarrow> d < DIG_BASE \<Longrightarrow> c + f d < 2 * DIG_BASE"
    and S_Cons: "c \<le> 1 \<Longrightarrow> d < DIG_BASE \<Longrightarrow>
      S c (d # ds) = int ((c + f d) mod DIG_BASE) + int DIG_BASE * S ((c + f d) div DIG_BASE) ds"
    and S_Nil: "c \<le> 1 \<Longrightarrow>
      S c [] = int ((c + f 0) mod DIG_BASE) + int DIG_BASE * S ((c + f 0) div DIG_BASE) []"
begin

lemma carry_le: "c \<le> 1 \<Longrightarrow> d < DIG_BASE \<Longrightarrow> (c + f d) div DIG_BASE \<le> 1"
  using f_bound [of c d] by simp

lemma no_wrap: "c \<le> 1 \<Longrightarrow> d < DIG_BASE \<Longrightarrow> u32 (c + f d) = c + f d"
  using f_bound [of c d] by (intro u32_id) simp

lemma S_step:
  assumes "c \<le> 1" "nok ks"
  defines "d \<equiv> (case ks of [] \<Rightarrow> 0 | k # _ \<Rightarrow> k)"
  shows "d < DIG_BASE"
    "S c ks mod int DIG_BASE = int ((c + f d) mod DIG_BASE)"
    "S c ks div int DIG_BASE = S ((c + f d) div DIG_BASE) (tl ks)"
  using assms S_Nil S_Cons by (auto split: list.splits)

end

lemma xor_mask:
  assumes "d < DIG_BASE"
  shows "d XOR DIG_MASK = DIG_MASK - d"
proof -
  have t: "take_bit 16 (int d) = int d" using assms by (simp add: take_bit_int_eq_self)
  have m: "int DIG_MASK = mask 16" by (simp add: DIG_MASK_def mask_eq_exp_minus_1)
  have "int (d XOR DIG_MASK) = int d XOR mask 16" by (simp add: of_nat_xor_eq m)
  also have "\<dots> = take_bit 16 (NOT (int d))"
  proof (rule bit_eqI)
    fix n
    have "bit (int d) n \<Longrightarrow> n < 16" using t by (metis bit_take_bit_iff)
    then show "bit (int d XOR mask 16) n = bit (take_bit 16 (NOT (int d))) n"
      by (auto simp: bit_xor_iff bit_take_bit_iff bit_not_iff bit_mask_iff)
  qed
  also have "\<dots> = mask 16 - int d" by (simp only: take_bit_not_eq_mask_diff t)
  finally have "int (d XOR DIG_MASK) = int DIG_MASK - int d" by (simp add: m)
  then show ?thesis using assms by (simp add: DIG_MASK_def)
qed

lemma int_split: "int (t mod 65536) + 65536 * int (t div 65536) = int t"
proof -
  have "int (t mod 65536 + 65536 * (t div 65536)) = int t" by (simp only: mod_mult_div_eq)
  then show ?thesis unfolding of_nat_add of_nat_mult of_nat_numeral .
qed

interpretation plain_stream: digit_stream "\<lambda>d. d XOR carry_mask 0" "\<lambda>c ds. int (nval ds) + int c"
proof (unfold_locales, goal_cases)
  case (2 c d ds)
  then show ?case using int_split [of "c + d"] by (simp add: carry_mask_def algebra_simps)
qed (auto simp: carry_mask_def)

interpretation neg_stream: digit_stream "\<lambda>d. d XOR carry_mask 1" "\<lambda>c ds. int c - 1 - int (nval ds)"
proof (unfold_locales, goal_cases)
  case (1 c d)
  then have "d XOR DIG_MASK = DIG_MASK - d" by (intro xor_mask)
  with 1 show ?case by (simp add: carry_mask_def DIG_MASK_def)
next
  case (2 c d ds)
  then have e: "d XOR DIG_MASK = DIG_MASK - d" by (intro xor_mask)
  have "int (c + (DIG_MASK - d)) = int c + 65535 - int d" using 2 by (simp add: DIG_MASK_def)
  then show ?case using 2 e int_split [of "c + (DIG_MASK - d)"]
    by (simp add: carry_mask_def right_diff_distrib)
next
  case (3 c)
  then consider "c = 0" | "c = 1" by linarith
  then show ?case by cases (auto simp: carry_mask_def DIG_MASK_def)
qed

interpretation pred_stream: digit_stream "\<lambda>d. d + DIG_MASK" "\<lambda>c ds. int (nval ds) + int c - 1"
proof (unfold_locales, goal_cases)
  case (2 c d ds)
  then show ?case using int_split [of "c + (d + DIG_MASK)"]
    by (simp add: DIG_MASK_def right_diff_distrib distrib_left)
next
  case (3 c)
  then consider "c = 0" | "c = 1" by linarith
  then show ?case by cases (auto simp: DIG_MASK_def)
qed (auto simp: DIG_MASK_def)

section \<open>Digit-wise operators\<close>

text \<open>An operator on digits that is the restriction of an operator on integers.\<close>

locale digit_op =
  fixes oper :: "nat \<Rightarrow> nat \<Rightarrow> nat" and iop :: "int \<Rightarrow> int \<Rightarrow> int"
  assumes iop_mod: "int (oper x y mod DIG_BASE) = iop (int (x mod DIG_BASE)) (int (y mod DIG_BASE))"
    and iop_take: "iop a b mod int DIG_BASE = iop (a mod int DIG_BASE) (b mod int DIG_BASE)"
    and iop_div: "iop a b div int DIG_BASE = iop (a div int DIG_BASE) (b div int DIG_BASE)"
begin

lemma iop_div_pow: "iop a b div int DIG_BASE ^ n = iop (a div int DIG_BASE ^ n) (b div int DIG_BASE ^ n)"
proof (induction n arbitrary: a b)
  case (Suc n)
  have e: "x div int DIG_BASE ^ Suc n = x div int DIG_BASE div int DIG_BASE ^ n" for x
    by (simp add: zdiv_zmult2_eq)
  show ?case unfolding e iop_div Suc ..
qed simp

end

interpretation and_op: digit_op "(AND)" "(AND)"
proof (unfold_locales, goal_cases)
  case (1 x y)
  show ?case by (simp add: take_bit_and flip: take_bit_eq_mod [of 16, simplified])
     (simp add: of_nat_and_eq)
next
  case (2 a b)
  show ?case using take_bit_and [of 16 a b] by (simp add: take_bit_eq_mod)
next
  case (3 a b)
  show ?case using drop_bit_and [of 16 a b] by (simp add: drop_bit_eq_div)
qed

interpretation or_op: digit_op "(OR)" "(OR)"
proof (unfold_locales, goal_cases)
  case (1 x y)
  show ?case by (simp add: take_bit_or flip: take_bit_eq_mod [of 16, simplified])
     (simp add: of_nat_or_eq)
next
  case (2 a b)
  show ?case using take_bit_or [of 16 a b] by (simp add: take_bit_eq_mod)
next
  case (3 a b)
  show ?case using drop_bit_or [of 16 a b] by (simp add: drop_bit_eq_div)
qed

interpretation xor_op: digit_op "(XOR)" "(XOR)"
proof (unfold_locales, goal_cases)
  case (1 x y)
  show ?case by (simp add: take_bit_xor flip: take_bit_eq_mod [of 16, simplified])
     (simp add: of_nat_xor_eq)
next
  case (2 a b)
  show ?case using take_bit_xor [of 16 a b] by (simp add: take_bit_eq_mod)
next
  case (3 a b)
  show ?case using drop_bit_xor [of 16 a b] by (simp add: drop_bit_eq_div)
qed

section \<open>The loop\<close>

text \<open>
  What the carries stand for at any point of the loop: \<open>im\<close> is the mask of the result, which
  negates it when it is not zero.
\<close>

definition loop_int :: "(int \<Rightarrow> int \<Rightarrow> int) \<Rightarrow> nat \<Rightarrow> nat \<Rightarrow> int \<Rightarrow> int \<Rightarrow> int" where
  "loop_int iop im ci J K = (if im = 0 then iop J K + int ci else int ci - 1 - iop J K)"

lemma loop_int_step:
  assumes "digit_op oper iop" "im = 0 \<or> im = DIG_MASK" "ci \<le> 1"
    and "J mod int DIG_BASE = int (x mod DIG_BASE)" "K mod int DIG_BASE = int (y mod DIG_BASE)"
  defines "t \<equiv> ci + (oper x y XOR im) mod DIG_BASE"
  shows "u32 t = t" "t div DIG_BASE \<le> 1"
    "loop_int iop im ci J K = int (t mod DIG_BASE) + int DIG_BASE *
       loop_int iop im (t div DIG_BASE) (J div int DIG_BASE) (K div int DIG_BASE)"
proof -
  let ?X = "iop J K" and ?o = "oper x y mod DIG_BASE"
  have X: "?X = int ?o + int DIG_BASE * iop (J div int DIG_BASE) (K div int DIG_BASE)"
    using assms(1,4,5) mult_div_mod_eq [of "int DIG_BASE" ?X]
    by (simp only: digit_op.iop_mod digit_op.iop_take digit_op.iop_div)
  have "t < 131072" using assms(3) by (simp add: t_def)
  then show "u32 t = t" "t div DIG_BASE \<le> 1" by (auto intro: u32_id)
  have o: "?o < DIG_BASE" by simp
  have "(oper x y XOR DIG_MASK) mod DIG_BASE = DIG_MASK - ?o"
  proof -
    have "(oper x y XOR DIG_MASK) mod DIG_BASE = ?o XOR DIG_MASK"
      using take_bit_xor [of 16 "oper x y" DIG_MASK] by (simp add: take_bit_eq_mod DIG_MASK_def)
    then show ?thesis using xor_mask [OF o] by simp
  qed
  then have im: "int t = int ci + 65535 - int ?o" if "im = DIG_MASK"
    using that o by (simp add: t_def DIG_MASK_def)
  have i0: "int t = int ci + int ?o" if "im = 0" using that by (simp add: t_def)
  from assms(2) show "loop_int iop im ci J K = int (t mod DIG_BASE) + int DIG_BASE *
       loop_int iop im (t div DIG_BASE) (J div int DIG_BASE) (K div int DIG_BASE)"
  proof
    assume "im = 0"
    with i0 X int_split [of t] show ?thesis by (simp add: loop_int_def distrib_left)
  next
    assume "im = DIG_MASK"
    with im X int_split [of t] show ?thesis
      by (simp add: loop_int_def DIG_MASK_def right_diff_distrib)
  qed
qed

lemma mpn_neg_loop_correct:
  assumes "digit_op oper iop" "digit_stream fj Sj" "digit_stream fk Sk"
    and "im = 0 \<or> im = DIG_MASK" "ci \<le> 1" "cj \<le> 1" "ck \<le> 1"
    and "nok js" "nok ks" "length ks \<le> length js"
  shows "\<exists>out c. mpn_neg_loop oper im fj fk ci cj ck js ks = (out, c) \<and> c \<le> 1 \<and> nok out
    \<and> length out = length js
    \<and> loop_int iop im ci (Sj cj js) (Sk ck ks) = int (nval out) + int DIG_BASE ^ length js *
        loop_int iop im c (Sj cj js div int DIG_BASE ^ length js) (Sk ck ks div int DIG_BASE ^ length js)"
  using assms(5-)
proof (induction js arbitrary: ci cj ck ks)
  case Nil
  then show ?case by simp
next
  case (Cons j js)
  let ?B = "int DIG_BASE" and ?k = "case ks of [] \<Rightarrow> 0 | k # _ \<Rightarrow> k"
  define x y t where "x = cj + fj j" and "y = ck + fk ?k"
    and "t = ci + (oper x y XOR im) mod DIG_BASE"
  note sj = digit_stream.S_step [OF assms(2) Cons.prems(2,4), simplified, folded x_def]
  note sk = digit_stream.S_step [OF assms(3) Cons.prems(3,5), folded y_def]
  have j: "j < DIG_BASE" using Cons.prems by simp
  have xy: "x div DIG_BASE \<le> 1" "y div DIG_BASE \<le> 1" "u32 x = x" "u32 y = y"
    using digit_stream.carry_le [OF assms(2) Cons.prems(2) j] digit_stream.no_wrap [OF assms(2) Cons.prems(2) j]
      digit_stream.carry_le [OF assms(3) Cons.prems(3) sk(1)] digit_stream.no_wrap [OF assms(3) Cons.prems(3) sk(1)]
    by (simp_all add: x_def y_def)
  have "Sj cj (j # js) mod ?B = int (x mod DIG_BASE)" using sj by simp
  note ls = loop_int_step [OF assms(1,4) Cons.prems(1) this sk(2), folded t_def]
  have lk: "nok (tl ks)" "length (tl ks) \<le> length js" using Cons.prems by (cases ks; simp)+
  obtain out c where ih: "mpn_neg_loop oper im fj fk (t div DIG_BASE) (x div DIG_BASE) (y div DIG_BASE) js (tl ks) = (out, c)"
    "c \<le> 1" "nok out" "length out = length js"
    "loop_int iop im (t div DIG_BASE) (Sj (x div DIG_BASE) js) (Sk (y div DIG_BASE) (tl ks))
      = int (nval out) + ?B ^ length js * loop_int iop im c
          (Sj (x div DIG_BASE) js div ?B ^ length js) (Sk (y div DIG_BASE) (tl ks) div ?B ^ length js)"
    using Cons.IH [OF ls(2) xy(1,2) _ lk] Cons.prems by auto
  have dv: "z div ?B ^ length (j # js) = z div ?B div ?B ^ length js" for z
    by (simp add: zdiv_zmult2_eq)
  have "(case ks of [] \<Rightarrow> fk 0 | k # _ \<Rightarrow> fk k) = fk ?k" by (cases ks) auto
  then have "mpn_neg_loop oper im fj fk ci cj ck (j # js) ks = (t mod DIG_BASE # out, c)"
    using ih(1) xy(3,4) ls(1) by (simp add: Let_def t_def x_def y_def)
  moreover have "loop_int iop im ci (Sj cj (j # js)) (Sk ck ks) = int (nval (t mod DIG_BASE # out))
      + ?B ^ length (j # js) * loop_int iop im c
          (Sj cj (j # js) div ?B ^ length (j # js)) (Sk ck ks div ?B ^ length (j # js))"
    unfolding ls(3) dv using sj(3) sk(3) ih(5) by (simp add: distrib_left)
  ultimately show ?case using ih by auto
qed

section \<open>Results\<close>

definition signed_val :: "bool \<Rightarrow> nat list \<Rightarrow> int" where
  "signed_val neg ds = (if neg then - int (nval ds) else int (nval ds))"

lemma sign_stream:
  "digit_stream (\<lambda>d. d XOR carry_mask (of_bool neg))
     (\<lambda>c ds. if neg then int c - 1 - int (nval ds) else int (nval ds) + int c)"
  using plain_stream.digit_stream_axioms neg_stream.digit_stream_axioms by (cases neg) auto

lemma neg_div_pow:
  fixes v P :: int
  assumes "v < P" "1 \<le> v"
  shows "- v div P = - 1"
  using assms zdiv_zminus1_eq_if [of P v] by (auto simp: mod_pos_pos_trivial)

lemma top_carry: "0 \<le> (v::int) \<Longrightarrow> v < P \<Longrightarrow> (v + P * c) div P = c"
  by simp

lemma signed_div_pow:
  assumes "nok ds" "length ds \<le> n" "neg \<Longrightarrow> nval ds \<noteq> 0"
  shows "signed_val neg ds div int DIG_BASE ^ n = (if neg then - 1 else 0)"
proof -
  have "nval ds < DIG_BASE ^ length ds" using assms(1) by (rule dval_less)
  also have "\<dots> \<le> DIG_BASE ^ n" using assms(2) by (intro power_increasing) auto
  finally have lt: "int (nval ds) < int DIG_BASE ^ n"
    unfolding of_nat_power [symmetric] by (simp only: of_nat_less_iff)
  show ?thesis
  proof (cases neg)
    case True
    then have "1 \<le> int (nval ds)" using assms(3) by simp
    with lt have "- int (nval ds) div int DIG_BASE ^ n = - 1" by (intro neg_div_pow)
    with True show ?thesis by (simp add: signed_val_def)
  next
    case False
    with lt show ?thesis by (simp add: signed_val_def)
  qed
qed

lemma sign_loop:
  assumes "digit_op oper iop" "nok js" "nok ks" "length ks \<le> length js"
    and "nj \<Longrightarrow> nval js \<noteq> 0" "nk \<Longrightarrow> nval ks \<noteq> 0" "ci \<le> 1"
  shows "\<exists>out c. mpn_neg_loop oper (carry_mask ci) (\<lambda>d. d XOR carry_mask (of_bool nj))
        (\<lambda>d. d XOR carry_mask (of_bool nk)) ci (of_bool nj) (of_bool nk) js ks = (out, c)
    \<and> c \<le> 1 \<and> nok out \<and> length out = length js
    \<and> loop_int iop (carry_mask ci) ci (signed_val nj js) (signed_val nk ks)
      = int (nval out) + int DIG_BASE ^ length js *
        loop_int iop (carry_mask ci) c (if nj then - 1 else 0) (if nk then - 1 else 0)"
proof -
  let ?S = "\<lambda>neg c ds. if neg then int c - 1 - int (nval ds) else int (nval ds) + int c"
  have S: "?S neg (of_bool neg) ds = signed_val neg ds" for neg ds
    by (simp add: signed_val_def)
  have m: "carry_mask ci = 0 \<or> carry_mask ci = DIG_MASK" by (simp add: carry_mask_def)
  have d: "signed_val nj js div int DIG_BASE ^ length js = (if nj then - 1 else 0)"
    "signed_val nk ks div int DIG_BASE ^ length js = (if nk then - 1 else 0)"
    by (rule signed_div_pow; use assms in simp)+
  show ?thesis
    using mpn_neg_loop_correct [OF assms(1) sign_stream sign_stream m assms(7) _ _ assms(2-4),
        of "of_bool nj" "of_bool nk" nj nk] unfolding S d by simp
qed

lemma int_and_neg_iff: "(a AND b < (0::int)) = (a < 0 \<and> b < 0)"
  by (rule and_negative_int_iff)

lemma mpn_and_neg_correct:
  fixes nj nk :: bool
  assumes "nok js" "nok ks" "length ks \<le> length js"
    and "nj \<Longrightarrow> nval js \<noteq> 0" "nk \<Longrightarrow> nval ks \<noteq> 0"
  defines "r \<equiv> mpn_and_neg js ks (of_bool (nj \<and> nk)) (of_bool nj) (of_bool nk)"
  shows "int (nval r) = \<bar>signed_val nj js AND signed_val nk ks\<bar>"
    "nok r" "normalised r" "length r \<le> length js + of_bool (nj \<and> nk)"
proof -
  let ?ci = "of_bool (nj \<and> nk) :: nat"
  let ?J = "signed_val nj js" and ?K = "signed_val nk ks"
  have ci1: "?ci \<le> 1" by (simp add: of_bool_def)
  obtain out c where o: "mpn_neg_loop (AND) (carry_mask ?ci) (\<lambda>d. d XOR carry_mask (of_bool nj))
        (\<lambda>d. d XOR carry_mask (of_bool nk)) ?ci (of_bool nj) (of_bool nk) js ks = (out, c)"
    "c \<le> 1" "nok out" "length out = length js"
    "loop_int (AND) (carry_mask ?ci) ?ci ?J ?K = int (nval out) + int DIG_BASE ^ length js *
        loop_int (AND) (carry_mask ?ci) c (if nj then - 1 else 0) (if nk then - 1 else 0)"
    using sign_loop [where nj = nj and nk = nk and ci = ?ci, OF and_op.digit_op_axioms assms(1-5) ci1]
    by blast
  have e: "loop_int (AND) (carry_mask ?ci) c (if nj then - 1 else 0) (if nk then - 1 else 0) = int c"
    by (auto simp: loop_int_def carry_mask_def DIG_MASK_def)
  have lt: "nval out < DIG_BASE ^ length js" using dval_less [OF o(3)] o(4) by simp
  have neg: "?J < 0 \<longleftrightarrow> nj" "?K < 0 \<longleftrightarrow> nk" using assms(4,5) by (auto simp: signed_val_def)
  then have sg: "?J AND ?K < 0 \<longleftrightarrow> nj \<and> nk" using int_and_neg_iff [of ?J ?K] by simp
  have i: "loop_int (AND) (carry_mask ?ci) ?ci ?J ?K = \<bar>?J AND ?K\<bar>"
    unfolding abs_if sg by (auto simp: loop_int_def carry_mask_def DIG_MASK_def)
  have r: "r = mpn_remove_trailing_zeros (if c \<noteq> 0 then out @ [u16 c] else out)"
    by (simp only: r_def mpn_and_neg_def o(1) Let_def prod.case)
  show v: "int (nval r) = \<bar>?J AND ?K\<bar>"
    using o(2,4,5) unfolding r e i by (simp add: digit_simps wrap_simps)
  show "nok r" unfolding r using o(2,3) by (intro nok_remove_trailing_zeros) (simp add: wrap_simps)
  show "normalised r" unfolding r by simp
  have c0: "c = 0" if "\<not> (nj \<and> nk)"
  proof -
    let ?P = "int DIG_BASE ^ length js"
    have "0 \<le> ?J AND ?K" using that neg int_and_neg_iff [of ?J ?K] by linarith
    then have "int (nval out) + ?P * int c = ?J AND ?K" using o(5) unfolding e i by simp
    moreover have "(?J AND ?K) div ?P = 0"
      unfolding and_op.iop_div_pow using that
        signed_div_pow [OF assms(1) le_refl assms(4)] signed_div_pow [OF assms(2,3,5)] by auto
    moreover have "int (nval out) < ?P" using lt unfolding of_nat_power [symmetric] by (simp only: of_nat_less_iff)
    ultimately show ?thesis using top_carry [of "int (nval out)" ?P "int c"] by simp
  qed
  show "length r \<le> length js + of_bool (nj \<and> nk)"
    unfolding r using c0 o(4) length_remove_trailing_zeros [of "out @ [u16 c]"]
      length_remove_trailing_zeros [of out] by auto
qed

lemma not_or_int: "NOT (a OR b) = NOT a AND NOT (b::int)"
  by (auto simp: bit_eq_iff bit_or_iff bit_and_iff bit_not_iff)

lemma or_neg_ge: "a < 0 \<Longrightarrow> a \<le> a OR (b::int)"
proof -
  assume "a < 0"
  then have "0 \<le> NOT a" by (simp add: not_int_def)
  then have "NOT a AND NOT b \<le> NOT a" by (rule AND_upper1)
  then have "NOT (a OR b) \<le> NOT a" by (simp add: not_or_int)
  then show ?thesis by (simp add: not_int_def)
qed

lemma or_neg_bound:
  fixes a b P :: int
  assumes "a < 0 \<or> b < 0" "- P < a" "- P < b"
  shows "- (a OR b) < P"
  using assms or_neg_ge [of a b] or_neg_ge [of b a] by (auto simp: or.commute)

lemma mpn_or_neg_correct:
  fixes nj nk :: bool
  assumes "nok js" "nok ks" "length ks \<le> length js"
    and "nj \<Longrightarrow> nval js \<noteq> 0" "nk \<Longrightarrow> nval ks \<noteq> 0"
  shows "\<exists>r. mpn_or_neg js ks (of_bool (nj \<or> nk)) (of_bool nj) (of_bool nk) = Some r
    \<and> int (nval r) = \<bar>signed_val nj js OR signed_val nk ks\<bar>
    \<and> nok r \<and> normalised r \<and> length r \<le> length js"
proof -
  let ?ci = "of_bool (nj \<or> nk) :: nat" and ?P = "int DIG_BASE ^ length js"
  let ?J = "signed_val nj js" and ?K = "signed_val nk ks"
  have ci1: "?ci \<le> 1" by (simp add: of_bool_def)
  obtain out c where o: "mpn_neg_loop (OR) (carry_mask ?ci) (\<lambda>d. d XOR carry_mask (of_bool nj))
        (\<lambda>d. d XOR carry_mask (of_bool nk)) ?ci (of_bool nj) (of_bool nk) js ks = (out, c)"
    "c \<le> 1" "nok out" "length out = length js"
    "loop_int (OR) (carry_mask ?ci) ?ci ?J ?K = int (nval out) + ?P *
        loop_int (OR) (carry_mask ?ci) c (if nj then - 1 else 0) (if nk then - 1 else 0)"
    using sign_loop [where nj = nj and nk = nk and ci = ?ci, OF or_op.digit_op_axioms assms(1-5) ci1]
    by blast
  have e: "loop_int (OR) (carry_mask ?ci) c (if nj then - 1 else 0) (if nk then - 1 else 0) = int c"
    by (auto simp: loop_int_def carry_mask_def DIG_MASK_def)
  have "nval out < DIG_BASE ^ length js" "nval js < DIG_BASE ^ length js"
    using dval_less [OF o(3)] o(4) dval_less [OF assms(1)] by auto
  moreover have "nval ks < DIG_BASE ^ length js"
    by (rule less_le_trans [OF dval_less [OF assms(2)] power_increasing [OF assms(3)]]) simp
  ultimately have lt: "int (nval out) < ?P" "int (nval js) < ?P" "int (nval ks) < ?P"
    unfolding of_nat_power [symmetric] by (simp_all only: of_nat_less_iff)
  have neg: "?J < 0 \<longleftrightarrow> nj" "?K < 0 \<longleftrightarrow> nk" using assms(4,5) by (auto simp: signed_val_def)
  then have sg: "?J OR ?K < 0 \<longleftrightarrow> nj \<or> nk" using or_negative_int_iff [of ?J ?K] by simp
  have i: "loop_int (OR) (carry_mask ?ci) ?ci ?J ?K = \<bar>?J OR ?K\<bar>"
    unfolding abs_if sg by (auto simp: loop_int_def carry_mask_def DIG_MASK_def)
  have "\<bar>?J OR ?K\<bar> < ?P"
  proof (cases "nj \<or> nk")
    case True
    have "- ?P < ?J" "- ?P < ?K"
      unfolding signed_val_def using lt by (cases nj; cases nk; simp only: if_True if_False; linarith)+
    with True have "- (?J OR ?K) < ?P" using neg by (intro or_neg_bound) auto
    with sg True show ?thesis by linarith
  next
    case False
    have "(?J OR ?K) div ?P = 0"
      unfolding or_op.iop_div_pow using False
        signed_div_pow [OF assms(1) le_refl assms(4)] signed_div_pow [OF assms(2,3,5)] by auto
    moreover have "0 < ?P" by simp
    ultimately have "?J OR ?K < ?P" using pos_imp_zdiv_pos_iff [of ?P "?J OR ?K"] by linarith
    with sg False show ?thesis by simp
  qed
  moreover have eq: "int (nval out) + ?P * int c = \<bar>?J OR ?K\<bar>" using o(5) unfolding e i by simp
  ultimately have "?P * int c < ?P * 1" by linarith
  then have "c = 0" by (subst (asm) mult_less_cancel_left_pos) auto
  with o eq have "mpn_or_neg js ks ?ci (of_bool nj) (of_bool nk) = Some (mpn_remove_trailing_zeros out)"
    by (simp only: mpn_or_neg_def o(1) Let_def prod.case if_True refl)
  with o \<open>c = 0\<close> eq length_remove_trailing_zeros [of out] show ?thesis
    by (simp add: nok_remove_trailing_zeros)
qed

lemma xor_not_sign:
  fixes a b :: int
  shows "(NOT a) XOR b = NOT (a XOR b)" "a XOR (NOT b) = NOT (a XOR b)" "(NOT a) XOR (NOT b) = a XOR b"
  by (auto simp: bit_eq_iff bit_xor_iff bit_not_iff)

lemma mpn_xor_neg_correct:
  fixes nj nk :: bool
  assumes "nok js" "nok ks" "length ks \<le> length js"
    and "nj \<Longrightarrow> nval js \<noteq> 0" "nk \<Longrightarrow> nval ks \<noteq> 0"
  defines "r \<equiv> mpn_xor_neg js ks (of_bool (nj \<noteq> nk)) (of_bool (\<not> nj)) (of_bool (\<not> nk))"
  shows "int (nval r) = \<bar>signed_val nj js XOR signed_val nk ks\<bar>"
    "nok r" "normalised r" "length r \<le> length js + of_bool (nj \<noteq> nk)"
proof -
  let ?ci = "of_bool (nj \<noteq> nk) :: nat" and ?P = "int DIG_BASE ^ length js"
  let ?J = "signed_val nj js" and ?K = "signed_val nk ks"
  let ?p = "\<lambda>n ds. int (nval ds) + int (of_bool (\<not> n)) - 1"
  have nn: "0 \<le> ?p nj js" "0 \<le> ?p nk ks" using assms(4,5) by (auto simp: of_bool_def)
  have "nval js < DIG_BASE ^ length js" using dval_less [OF assms(1)] .
  moreover have "nval ks < DIG_BASE ^ length js"
    by (rule less_le_trans [OF dval_less [OF assms(2)] power_increasing [OF assms(3)]]) simp
  ultimately have "int (nval js) < ?P" "int (nval ks) < ?P"
    unfolding of_nat_power [symmetric] by (simp_all only: of_nat_less_iff)
  moreover have "int (of_bool b) \<le> 1" for b by (simp add: of_bool_def)
  ultimately have "?p nj js < ?P" "?p nk ks < ?P" by (smt (verit))+
  then have d: "?p nj js div ?P = 0" "?p nk ks div ?P = 0"
    using nn by (simp_all only: div_pos_pos_trivial)
  have z: "(0::nat) = 0 \<or> (0::nat) = DIG_MASK" by simp
  have b1: "of_bool b \<le> (1::nat)" for b by (simp add: of_bool_def)
  obtain out c where o: "mpn_neg_loop (XOR) 0 (\<lambda>d. d + DIG_MASK) (\<lambda>d. d + DIG_MASK) ?ci
        (of_bool (\<not> nj)) (of_bool (\<not> nk)) js ks = (out, c)"
    "c \<le> 1" "nok out" "length out = length js"
    "loop_int (XOR) 0 ?ci (?p nj js) (?p nk ks) = int (nval out) + ?P * loop_int (XOR) 0 c 0 0"
    using mpn_neg_loop_correct [OF xor_op.digit_op_axioms pred_stream.digit_stream_axioms
        pred_stream.digit_stream_axioms z b1 b1 b1 assms(1-3), of "nj \<noteq> nk" "\<not> nj" "\<not> nk"]
    unfolding d by blast
  have J: "?p n ds = (if n then NOT (signed_val n ds) else signed_val n ds)" for n ds
    by (auto simp: signed_val_def not_int_def)
  have i: "loop_int (XOR) 0 ?ci (?p nj js) (?p nk ks) = \<bar>?J XOR ?K\<bar>"
  proof (cases "nj \<noteq> nk")
    case True
    have "0 \<le> ?p nj js XOR ?p nk ks" using nn by simp
    moreover have "?p nj js XOR ?p nk ks = NOT (?J XOR ?K)"
      using True unfolding J by (auto simp: xor_not_sign)
    ultimately have "?J XOR ?K < 0" "?p nj js XOR ?p nk ks = - (?J XOR ?K) - 1"
      by (simp_all only: not_int_def)
    then have "(?p nj js XOR ?p nk ks) + 1 = \<bar>?J XOR ?K\<bar>" by linarith
    with True show ?thesis by (simp add: loop_int_def)
  next
    case False
    have "0 \<le> ?p nj js XOR ?p nk ks" using nn by simp
    moreover have "?p nj js XOR ?p nk ks = ?J XOR ?K"
      using False unfolding J by (auto simp: xor_not_sign)
    ultimately have "(?p nj js XOR ?p nk ks) = \<bar>?J XOR ?K\<bar>" by (simp only: abs_of_nonneg)
    with False show ?thesis by (simp add: loop_int_def)
  qed
  have r: "r = mpn_remove_trailing_zeros (if c \<noteq> 0 then out @ [u16 c] else out)"
    by (simp only: r_def mpn_xor_neg_def o(1) Let_def prod.case)
  have eq: "int (nval out) + ?P * int c = \<bar>?J XOR ?K\<bar>"
    using o(5) unfolding i by (simp add: loop_int_def)
  show "int (nval r) = \<bar>?J XOR ?K\<bar>"
  proof -
    have "nval r = nval out + DIG_BASE ^ length js * c"
      using o(2,4) unfolding r by (simp add: digit_simps wrap_simps)
    then show ?thesis unfolding eq [symmetric] by simp
  qed
  show "nok r" unfolding r using o(2,3) by (intro nok_remove_trailing_zeros) (simp add: wrap_simps)
  show "normalised r" unfolding r by simp
  have c0: "c = 0" if "nj = nk"
  proof -
    have "?p nj js XOR ?p nk ks = int (nval out) + ?P * int c"
      using o(5) that by (simp add: loop_int_def)
    moreover have "(?p nj js XOR ?p nk ks) div ?P = 0"
      unfolding xor_op.iop_div_pow d by simp
    moreover have "int (nval out) < ?P"
      using dval_less [OF o(3)] o(4) unfolding of_nat_power [symmetric] by (simp only: of_nat_less_iff)
    ultimately show ?thesis using top_carry [of "int (nval out)" ?P "int c"] by simp
  qed
  show "length r \<le> length js + of_bool (nj \<noteq> nk)"
    unfolding r using c0 o(4) length_remove_trailing_zeros [of "out @ [u16 c]"]
      length_remove_trailing_zeros [of out] by auto
qed

end
