(* ===== verification/MpnDiv.thy ===== *)
theory MpnDiv imports Mpn begin

text \<open>
  Long division on digit arrays, \<open>mpn_div\<close> of \<^verbatim>\<open>py/mpz.c\<close>.  The divisor is normalised on the
  fly by a shift of \<open>norm_shift\<close> bits, the quotient digit is estimated from the two leading
  digits of the window and one leading digit of the divisor, multiplied and subtracted
  with a signed 32-bit borrow, and corrected by adding the divisor back until the borrow
  is gone.  The numerator window that the pointers \<^verbatim>\<open>num_dig - den_len .. num_dig\<close> delimit is
  \<open>take (Suc den_len) (drop k num)\<close>.  The two loops without a bound of their own (the bit count of
  \<^verbatim>\<open>norm_shift\<close> and the correction) are partial functions, and \<open>None\<close> stands for a loop that
  does not end and for a write outside of the quotient buffer.
\<close>

section \<open>Operations\<close>

partial_function (option) mpn_norm_shift :: "nat \<Rightarrow> nat \<Rightarrow> nat option" where
  "mpn_norm_shift d norm_shift =
     (if d AND 32768 = 0 then mpn_norm_shift (u16 (d * 2)) (norm_shift + 1)
      else Some norm_shift)"

fun mpn_shl_carry :: "nat \<Rightarrow> nat \<Rightarrow> nat list \<Rightarrow> nat list" where
  "mpn_shl_carry norm_shift carry [] = []"
| "mpn_shl_carry norm_shift carry (n # num) =
     ((n * 2 ^ norm_shift) OR carry) mod DIG_BASE
       # mpn_shl_carry norm_shift (n div 2 ^ (DIG_SIZE - norm_shift)) num"

fun mpn_shr_carry :: "nat \<Rightarrow> nat \<Rightarrow> nat list \<Rightarrow> nat list" where
  "mpn_shr_carry norm_shift carry [] = []"
| "mpn_shr_carry norm_shift carry (n # num) =
     ((n div 2 ^ norm_shift) OR carry) mod DIG_BASE
       # mpn_shr_carry norm_shift (u16 (n * 2 ^ (DIG_SIZE - norm_shift))) num"

definition mpn_lead_den_digit :: "nat list \<Rightarrow> nat \<Rightarrow> nat" where
  "mpn_lead_den_digit den norm_shift =
     (let lead = u32 (den ! (length den - 1) * 2 ^ norm_shift)
      in if length den \<ge> 2
         then lead OR (den ! (length den - 2) div 2 ^ (DIG_SIZE - norm_shift))
         else lead)"

fun mpn_div_mulsub :: "nat \<Rightarrow> nat \<Rightarrow> nat \<Rightarrow> int \<Rightarrow> nat list \<Rightarrow> nat list \<Rightarrow> nat list \<times> int" where
  "mpn_div_mulsub norm_shift quo d_norm borrow (n # win) (d # den) =
     (let d_norm = u32 (d * 2 ^ norm_shift) OR (d_norm div DIG_BASE);
          x = u32 (quo * (d_norm mod DIG_BASE));
          low_digs = s32 (borrow mod int DIG_BASE + int n - int (x mod DIG_BASE));
          borrow = s32 (borrow div int DIG_BASE - int (x div DIG_BASE) + low_digs div int DIG_BASE);
          (win', b) = mpn_div_mulsub norm_shift quo d_norm borrow win den
      in (nat (low_digs mod int DIG_BASE) # win', b))"
| "mpn_div_mulsub norm_shift quo d_norm borrow win den = (win, borrow)"

fun mpn_div_addback :: "nat \<Rightarrow> nat \<Rightarrow> nat \<Rightarrow> nat list \<Rightarrow> nat list \<Rightarrow> nat list \<times> nat" where
  "mpn_div_addback norm_shift d_norm carry (n # win) (d # den) =
     (let d_norm = u32 (d * 2 ^ norm_shift) OR (d_norm div DIG_BASE);
          carry = u32 (carry + (n + d_norm mod DIG_BASE));
          (win', c) = mpn_div_addback norm_shift d_norm (carry div DIG_BASE) win den
      in (carry mod DIG_BASE # win', c))"
| "mpn_div_addback norm_shift d_norm carry win den = (win, carry)"

partial_function (option) mpn_div_correct ::
  "nat list \<Rightarrow> nat \<Rightarrow> nat list \<Rightarrow> int \<Rightarrow> nat \<Rightarrow> (nat list \<times> nat) option" where
  "mpn_div_correct den norm_shift win borrow quo =
     (if borrow \<noteq> 0
      then mpn_div_correct den norm_shift (fst (mpn_div_addback norm_shift 0 0 win den))
             (s32 (borrow + int (snd (mpn_div_addback norm_shift 0 0 win den)))) (u32 (quo + 4294967295))
      else Some (win, quo))"

definition mpn_div_step ::
  "nat list \<Rightarrow> nat \<Rightarrow> nat \<Rightarrow> nat \<Rightarrow> nat list \<Rightarrow> (nat list \<times> nat) option" where
  "mpn_div_step den norm_shift lead k num =
     (let den_len = length den;
          hi = num ! (den_len + k);
          quo = ((hi * DIG_BASE) OR num ! (den_len + k - 1)) div lead;
          (win, borrow) = mpn_div_mulsub norm_shift quo 0 0 (take den_len (drop k num)) den
      in case mpn_div_correct den norm_shift win (s32 (borrow + int hi)) quo of
           None \<Rightarrow> None
         | Some (win', quo') \<Rightarrow>
             Some (take k num @ win' @ drop (den_len + k) num, quo' mod DIG_BASE))"

fun mpn_div_loop ::
  "nat list \<Rightarrow> nat \<Rightarrow> nat \<Rightarrow> nat \<Rightarrow> nat list \<Rightarrow> nat list \<Rightarrow> (nat list \<times> nat list) option" where
  "mpn_div_loop den norm_shift lead 0 num quo = Some (num, quo)"
| "mpn_div_loop den norm_shift lead (Suc k) num quo =
     (case mpn_div_step den norm_shift lead k num of
        None \<Rightarrow> None
      | Some (num', q) \<Rightarrow>
          if k < length quo then mpn_div_loop den norm_shift lead k num' (quo[k := q]) else None)"

definition mpn_div ::
  "nat list \<Rightarrow> nat list \<Rightarrow> nat list \<Rightarrow> (nat list \<times> nat list) option" where
  "mpn_div num den quo =
     (let cmp = mpn_cmp num den
      in if cmp = 0 then Some ([], [1])
         else if cmp < 0 then Some (num, [])
         else
           case mpn_norm_shift (den ! (length den - 1)) 0 of
             None \<Rightarrow> None
           | Some norm_shift \<Rightarrow>
               let num1 = mpn_shl_carry norm_shift 0 (num @ [0]);
                   lead = mpn_lead_den_digit den norm_shift;
                   quo_len = length num1 - length den
               in case mpn_div_loop den norm_shift lead quo_len num1 quo of
                    None \<Rightarrow> None
                  | Some (num2, quo1) \<Rightarrow>
                      let rem = rev (mpn_shr_carry norm_shift 0 (rev (take (length den) num2)))
                      in Some (mpn_remove_trailing_zeros rem,
                               mpn_remove_trailing_zeros (take quo_len quo1)))"

section \<open>Normalisation\<close>

lemma mpn_norm_shift_correct:
  "0 < d \<Longrightarrow> d < DIG_BASE \<Longrightarrow>
     \<exists>s. mpn_norm_shift d s0 = Some (s0 + s) \<and> s < DIG_SIZE \<and> 32768 \<le> d * 2 ^ s \<and> d * 2 ^ s < DIG_BASE"
proof (induction "DIG_BASE - d" arbitrary: d s0 rule: less_induct)
  case less
  have b: "d AND 32768 = 0 \<longleftrightarrow> d < 32768"
  proof -
    have "d AND 32768 = 0 \<longleftrightarrow> even (d div 32768)"
      using and_exp_eq_0_iff_not_bit [of d 15] by (simp add: bit_iff_odd)
    moreover have "d div 32768 = (if d < 32768 then 0 else 1)"
      using less.prems by (auto intro: div_nat_eqI)
    ultimately show ?thesis by simp
  qed
  show ?case
  proof (cases "d < 32768")
    case True
    then have u: "u16 (d * 2) = d * 2" by (simp add: wrap_simps)
    have dec: "DIG_BASE - d * 2 < DIG_BASE - d" using True less.prems(1) by simp
    obtain s where s: "mpn_norm_shift (d * 2) (s0 + 1) = Some (s0 + 1 + s)" "s < DIG_SIZE"
      "32768 \<le> d * 2 * 2 ^ s" "d * 2 * 2 ^ s < DIG_BASE"
      using less.hyps [of "d * 2" "s0 + 1"] less.prems True dec by auto
    have "mpn_norm_shift d s0 = Some (s0 + Suc s)"
      using s(1) b True u by (subst mpn_norm_shift.simps) simp
    moreover have "Suc s < DIG_SIZE"
    proof (rule ccontr)
      assume "\<not> Suc s < DIG_SIZE"
      then have "s = 15" using s(2) by simp
      with s(4) less.prems show False by simp
    qed
    ultimately show ?thesis using s by (intro exI [of _ "Suc s"]) (simp add: mult.assoc)
  next
    case False
    with less.prems b show ?thesis by (intro exI [of _ 0]) (simp add: mpn_norm_shift.simps)
  qed
qed

text \<open>The digits of the normalised divisor, as the two inner loops compute them.\<close>

lemma d_norm_step:
  assumes "s < DIG_SIZE" "d < DIG_BASE" "c < 2 ^ s"
  shows "u32 (d * 2 ^ s) OR c = d * 2 ^ s + c" "(d * 2 ^ s + c) div DIG_BASE < 2 ^ s"
proof -
  have "(2::nat) ^ s \<le> 2 ^ 15" using assms(1) by (intro power_increasing) auto
  then have "d * 2 ^ s \<le> 65535 * 2 ^ 15" using assms(2) by (intro mult_le_mono) auto
  then have "u32 (d * 2 ^ s) = d * 2 ^ s" by (intro u32_id) simp
  then show "u32 (d * 2 ^ s) OR c = d * 2 ^ s + c" using or_disjoint_nat [OF assms(3)] by simp
  have "d * 2 ^ s + c < (d + 1) * 2 ^ s" using assms(3) by simp
  also have "\<dots> \<le> DIG_BASE * 2 ^ s" using assms(2) by (intro mult_le_mono1) simp
  finally show "(d * 2 ^ s + c) div DIG_BASE < 2 ^ s" by (simp add: div_less_iff_less_mult mult.commute)
qed

lemma shl_carry_correct:
  assumes "nok num" "s < DIG_SIZE" "c < 2 ^ s"
  shows "\<exists>c'. c' < 2 ^ s \<and> nval (mpn_shl_carry s c num) + DIG_BASE ^ length num * c' = nval num * 2 ^ s + c
    \<and> nok (mpn_shl_carry s c num) \<and> length (mpn_shl_carry s c num) = length num"
  using assms
proof (induction s c num rule: mpn_shl_carry.induct)
  case (1 s c)
  then show ?case by auto
next
  case (2 s c n num)
  let ?h = "2 ^ (DIG_SIZE - s) :: nat" and ?t = "2 ^ s :: nat"
  have B: "DIG_BASE = ?h * ?t" using pow2_le_base [of s] "2.prems" by (metis less_imp_le_nat)
  have or: "n * ?t OR c = n * ?t + c" using "2.prems" by (intro or_disjoint_nat)
  have q: "n div ?h < ?t" using "2.prems"(1) unfolding B by (simp add: div_less_iff_less_mult mult.commute)
  obtain c' where ih: "c' < ?t" "nval (mpn_shl_carry s (n div ?h) num) + DIG_BASE ^ length num * c'
      = nval num * ?t + n div ?h" "nok (mpn_shl_carry s (n div ?h) num)"
    "length (mpn_shl_carry s (n div ?h) num) = length num"
    using "2.IH" "2.prems" q by auto
  have "(n * ?t + c) div DIG_BASE = n div ?h"
  proof -
    have "(n * ?t + c) div DIG_BASE = (n * ?t + c) div ?t div ?h"
      unfolding B by (simp only: div_mult2_eq mult.commute [of ?h])
    also have "(n * ?t + c) div ?t = n" using "2.prems"(3) by simp
    finally show ?thesis .
  qed
  then have "(n * ?t + c) mod DIG_BASE + DIG_BASE * (n div ?h + nval num * ?t) = n * ?t + c + DIG_BASE * (nval num * ?t)"
    using split_digit [of "n * ?t + c" DIG_BASE "nval num * ?t"] by simp
  with ih or show ?case by (intro exI [of _ c']) (simp add: algebra_simps)
qed

lemma shr_carry_correct:
  assumes "nok num" "s < DIG_SIZE" "p < 2 ^ s"
  shows "nval (rev (mpn_shr_carry s (u16 (p * 2 ^ (DIG_SIZE - s))) num))
      = (p * DIG_BASE ^ length num + nval (rev num)) div 2 ^ s
    \<and> nok (mpn_shr_carry s (u16 (p * 2 ^ (DIG_SIZE - s))) num)
    \<and> length (mpn_shr_carry s (u16 (p * 2 ^ (DIG_SIZE - s))) num) = length num"
  using assms
proof (induction num arbitrary: p)
  case Nil
  then show ?case by simp
next
  case (Cons n num)
  let ?h = "2 ^ (DIG_SIZE - s) :: nat" and ?t = "2 ^ s :: nat" and ?P = "DIG_BASE ^ length num"
  have B: "DIG_BASE = ?h * ?t" using pow2_le_base [of s] Cons.prems by (metis less_imp_le_nat)
  have "p * ?h < ?t * ?h" using Cons.prems(3) by (intro mult_strict_right_mono) auto
  then have u: "u16 (p * ?h) = p * ?h" using B by (intro u16_id) (simp only: mult.commute [of ?t])
  define m r where "m = n mod ?t" and "r = n div ?t"
  have n: "n = r * ?t + m" "m < ?t"
    unfolding m_def r_def by (rule div_mult_mod_eq [symmetric], simp)
  have r: "r < ?h" using Cons.prems(1) unfolding r_def B by (simp add: div_less_iff_less_mult)
  have "n * ?h = m * ?h + r * DIG_BASE" unfolding n(1) B by (simp add: algebra_simps)
  then have u2: "u16 (n * ?h) = u16 (m * ?h)" by (simp add: u16_def)
  have or: "r OR p * ?h = p * ?h + r" using r by (rule or_disjoint_nat')
  have "p * ?h + r < (p + 1) * ?h" using r by simp
  also have "\<dots> \<le> ?t * ?h" using Cons.prems(3) by (intro mult_le_mono1) simp
  finally have lt: "p * ?h + r < DIG_BASE" using B by (simp only: mult.commute [of ?t])
  have ih: "nval (rev (mpn_shr_carry s (u16 (m * ?h)) num)) = (m * ?P + nval (rev num)) div ?t"
    "nok (mpn_shr_carry s (u16 (m * ?h)) num)" "length (mpn_shr_carry s (u16 (m * ?h)) num) = length num"
    using Cons.IH [of m] Cons.prems n(2) by auto
  have "p * DIG_BASE ^ length (n # num) + nval (rev (n # num))
      = (m * ?P + nval (rev num)) + ?t * (?P * (p * ?h + r))"
    using n(1) by (simp add: digit_simps B algebra_simps)
  then have "(p * DIG_BASE ^ length (n # num) + nval (rev (n # num))) div ?t
      = (m * ?P + nval (rev num)) div ?t + ?P * (p * ?h + r)"
    by (simp only: div_mult_self2 power_not_zero zero_neq_numeral not_False_eq_True)
  then show ?case using ih u u2 or lt by (simp add: digit_simps flip: r_def)
qed

section \<open>Multiply and subtract, add back\<close>

lemma borrow_step:
  fixes b n x :: int
  shows "b div B - x div B + (b mod B + n - x mod B) div B = (b + n - x) div B"
    "(b mod B + n - x mod B) mod B = (b + n - x) mod B"
proof -
  have e: "b + n - x = (b mod B + n - x mod B) + (b div B - x div B) * B"
    using mult_div_mod_eq [of B b] mult_div_mod_eq [of B x] by (simp add: algebra_simps)
  show "(b mod B + n - x mod B) mod B = (b + n - x) mod B" unfolding e by simp
  show "b div B - x div B + (b mod B + n - x mod B) div B = (b + n - x) div B"
    unfolding e by (cases "B = 0") simp_all
qed

lemma mulsub_digit:
  fixes b :: int and n x :: nat
  assumes "- 65537 \<le> b" "b \<le> 0" "n < DIG_BASE" "x \<le> 4294967295"
  defines "low \<equiv> b mod int DIG_BASE + int n - int (x mod DIG_BASE)"
  shows "s32 low = low" "low mod int DIG_BASE = (b + int n - int x) mod int DIG_BASE"
    "s32 (b div int DIG_BASE - int (x div DIG_BASE) + low div int DIG_BASE) = (b + int n - int x) div int DIG_BASE"
    "- 65537 \<le> (b + int n - int x) div int DIG_BASE" "(b + int n - int x) div int DIG_BASE \<le> 0"
proof -
  have low: "low = b mod int DIG_BASE + int n - int x mod int DIG_BASE"
    by (simp add: low_def zmod_int)
  have m: "0 \<le> b mod int DIG_BASE" "b mod int DIG_BASE < 65536" by simp_all
  have xm: "int (x mod DIG_BASE) < 65536" by simp
  have "- 65536 < low" "low < 131072"
    unfolding low_def using m xm assms(3) of_nat_0_le_iff [of "x mod DIG_BASE", where 'a = int] by linarith+
  then show "s32 low = low" by (intro s32_id) auto
  show "low mod int DIG_BASE = (b + int n - int x) mod int DIG_BASE"
    unfolding low by (rule borrow_step)
  have e: "b div int DIG_BASE - int (x div DIG_BASE) + low div int DIG_BASE = (b + int n - int x) div int DIG_BASE"
    unfolding low zdiv_int by (rule borrow_step)
  have "(b + int n - int x) div int DIG_BASE \<le> 65535 div int DIG_BASE"
    using assms by (intro zdiv_mono1) auto
  then show le: "(b + int n - int x) div int DIG_BASE \<le> 0" by simp
  have "- 4295032832 div int DIG_BASE \<le> (b + int n - int x) div int DIG_BASE"
    using assms by (intro zdiv_mono1) auto
  then show ge: "- 65537 \<le> (b + int n - int x) div int DIG_BASE" by simp
  show "s32 (b div int DIG_BASE - int (x div DIG_BASE) + low div int DIG_BASE) = (b + int n - int x) div int DIG_BASE"
    unfolding e using le ge by (intro s32_id) auto
qed

lemma norm_rest:
  fixes d N t c B :: nat
  assumes "0 < B"
  shows "((d + B * N) * t + c) div (B * P) = (N * t + (d * t + c) div B) div P"
proof -
  have "(d + B * N) * t + c = (d * t + c) + B * (N * t)" by (simp add: algebra_simps)
  then have "((d + B * N) * t + c) div B = (d * t + c) div B + N * t" using assms by (simp only: div_mult_self2)
  then show ?thesis by (simp add: div_mult2_eq add.commute)
qed

lemma mulsub_arith:
  fixes b n Q m B W D e P c :: int
  shows "b + n - Q * m + B * (W - Q * (D + e - P * c)) = n + B * W + b - Q * (m + B * (e + D) - B * P * c)"
  by (simp add: algebra_simps)

lemma mulsub_correct:
  assumes "s < DIG_SIZE" "quo \<le> 65537" "length win = length den" "nok win" "nok den"
    and "- 65537 \<le> b" "b \<le> 0" "dn div DIG_BASE < 2 ^ s"
  defines "D \<equiv> nval den * 2 ^ s + dn div DIG_BASE"
  shows "\<exists>win' b'. mpn_div_mulsub s quo dn b win den = (win', b')
    \<and> nok win' \<and> length win' = length win \<and> - 65537 \<le> b' \<and> b' \<le> 0
    \<and> int (nval win') + int DIG_BASE ^ length den * b' = int (nval win) + b
        - int quo * (int D - int DIG_BASE ^ length den * int (D div DIG_BASE ^ length den))"
  using assms(3-8) unfolding D_def
proof (induction win den arbitrary: dn b rule: list_induct2)
  case Nil
  then show ?case by simp
next
  case (Cons n win d den)
  let ?c = "dn div DIG_BASE"
  define e where "e = d * 2 ^ s + ?c"
  define x where "x = quo * (e mod DIG_BASE)"
  let ?t = "b + int n - int x"
  have d: "d < DIG_BASE" "n < DIG_BASE" using Cons.prems by auto
  note dn = d_norm_step [OF assms(1) d(1) Cons.prems(5), folded e_def]
  have "x \<le> 65537 * 65535" unfolding x_def using assms(2) by (intro mult_le_mono) auto
  then have x: "x \<le> 4294967295" and ux: "u32 x = x" by (auto intro: u32_id)
  note st = mulsub_digit [OF Cons.prems(3,4) d(2) x]
  let ?D = "nval den * 2 ^ s + e div DIG_BASE" and ?Q = "int quo" and ?P = "int DIG_BASE ^ length den"
  define c' where "c' = ?D div DIG_BASE ^ length den"
  obtain win' b' where ih: "mpn_div_mulsub s quo e (?t div int DIG_BASE) win den = (win', b')"
    "nok win'" "length win' = length win" "- 65537 \<le> b'" "b' \<le> 0"
    "int (nval win') + ?P * b' = int (nval win) + ?t div int DIG_BASE - ?Q * (int ?D - ?P * int c')"
    using Cons.IH [of "?t div int DIG_BASE" e] Cons.prems st(4,5) dn(2) unfolding c'_def by auto
  have eq: "mpn_div_mulsub s quo dn b (n # win) (d # den) = (nat (?t mod int DIG_BASE) # win', b')"
    using ih(1) by (simp only: mpn_div_mulsub.simps Let_def dn(1) st(1-3) ux flip: x_def)
      (simp only: prod.case)
  have tm: "int (nat (?t mod int DIG_BASE)) = ?t mod int DIG_BASE" "nat (?t mod int DIG_BASE) < DIG_BASE"
    by (simp_all add: nat_less_iff)
  have c': "(nval (d # den) * 2 ^ s + ?c) div DIG_BASE ^ length (d # den) = c'"
    unfolding dval.simps length_Cons power_Suc c'_def e_def by (rule norm_rest) simp
  have "int (nval (nat (?t mod int DIG_BASE) # win')) + int DIG_BASE ^ length (d # den) * b'
      = ?t mod int DIG_BASE + int DIG_BASE * (int (nval win') + ?P * b')"
    by (simp only: dval.simps of_nat_add of_nat_mult tm length_Cons power_Suc) (simp add: algebra_simps)
  also have "\<dots> = ?t mod int DIG_BASE + int DIG_BASE * (?t div int DIG_BASE + (int (nval win)
        - ?Q * (int ?D - ?P * int c')))"
    unfolding ih(6) by (simp only: add.commute add_diff_eq)
  also have "\<dots> = ?t + int DIG_BASE * (int (nval win) - ?Q * (int ?D - ?P * int c'))"
    by (rule split_digit_int)
  also have "\<dots> = b + int n - ?Q * int (e mod DIG_BASE) + int DIG_BASE * (int (nval win) - ?Q * (int ?D - ?P * int c'))"
    by (simp only: x_def of_nat_mult)
  finally have v: "int (nval (nat (?t mod int DIG_BASE) # win')) + int DIG_BASE ^ length (d # den) * b'
      = int (nval (n # win)) + b - ?Q * (int (e mod DIG_BASE + DIG_BASE * (e div DIG_BASE + nval den * 2 ^ s))
          - int DIG_BASE ^ length (d # den) * int c')"
    by (simp only: mulsub_arith dval.simps length_Cons power_Suc of_nat_add of_nat_mult)
  have sp: "e mod DIG_BASE + DIG_BASE * (e div DIG_BASE + nval den * 2 ^ s) = nval (d # den) * 2 ^ s + ?c"
    unfolding split_digit by (simp add: e_def algebra_simps)
  have nv: "nok (nat (?t mod int DIG_BASE) # win')" using ih(2) tm(2) by (simp only: digs_ok_simps simp_thms)
  have lw: "length (nat (?t mod int DIG_BASE) # win') = length (n # win)" using ih(3) by simp
  show ?case unfolding c'
    by (intro exI conjI, rule eq, rule nv, rule lw, rule ih(4), rule ih(5), rule v [unfolded sp])
qed

lemma addback_correct:
  assumes "s < DIG_SIZE" "length win = length den" "nok win" "nok den" "c \<le> 1" "dn div DIG_BASE < 2 ^ s"
  defines "D \<equiv> nval den * 2 ^ s + dn div DIG_BASE"
  shows "\<exists>win' c1. mpn_div_addback s dn c win den = (win', c1)
    \<and> nok win' \<and> length win' = length win \<and> c1 \<le> 1
    \<and> nval win' + DIG_BASE ^ length den * (c1 + D div DIG_BASE ^ length den) = nval win + c + D"
  using assms(2-6) unfolding D_def
proof (induction win den arbitrary: dn c rule: list_induct2)
  case Nil
  then show ?case by simp
next
  case (Cons n win d den)
  define e where "e = d * 2 ^ s + dn div DIG_BASE"
  let ?t = "c + (n + e mod DIG_BASE)" and ?D = "nval den * 2 ^ s + e div DIG_BASE"
  define c2 where "c2 = ?D div DIG_BASE ^ length den"
  have d: "d < DIG_BASE" "n < DIG_BASE" using Cons.prems by auto
  note dn = d_norm_step [OF assms(1) d(1) Cons.prems(4), folded e_def]
  have "e mod DIG_BASE < DIG_BASE" by simp
  then have t: "?t < 131072" using d Cons.prems(3) by linarith
  then have u: "u32 ?t = ?t" "?t div DIG_BASE \<le> 1" by (auto intro: u32_id)
  obtain win' c1 where ih: "mpn_div_addback s e (?t div DIG_BASE) win den = (win', c1)"
    "nok win'" "length win' = length win" "c1 \<le> 1"
    "nval win' + DIG_BASE ^ length den * (c1 + c2) = nval win + ?t div DIG_BASE + ?D"
    using Cons.IH [of "?t div DIG_BASE" e] Cons.prems u dn(2) unfolding c2_def by auto
  have c2: "(nval (d # den) * 2 ^ s + dn div DIG_BASE) div DIG_BASE ^ length (d # den) = c2"
    unfolding dval.simps length_Cons power_Suc c2_def e_def by (rule norm_rest) simp
  have eq: "mpn_div_addback s dn c (n # win) (d # den) = (?t mod DIG_BASE # win', c1)"
    using ih(1) by (simp only: mpn_div_addback.simps Let_def dn(1) u) (simp only: prod.case)
  have "nval (?t mod DIG_BASE # win') + DIG_BASE ^ length (d # den) * (c1 + c2)
      = ?t mod DIG_BASE + DIG_BASE * (nval win' + DIG_BASE ^ length den * (c1 + c2))"
    by (simp only: dval.simps length_Cons power_Suc) (simp add: algebra_simps)
  also have "\<dots> = ?t mod DIG_BASE + DIG_BASE * (?t div DIG_BASE + (nval win + ?D))"
    unfolding ih(5) by (simp only: ac_simps)
  also have "\<dots> = ?t + DIG_BASE * (nval win + ?D)" by (rule split_digit)
  also have "\<dots> = c + n + DIG_BASE * nval win + DIG_BASE * (nval den * 2 ^ s) + (e mod DIG_BASE + DIG_BASE * (e div DIG_BASE))"
    by (simp only: distrib_left ac_simps)
  also have "e mod DIG_BASE + DIG_BASE * (e div DIG_BASE) = e" by (rule mod_mult_div_eq)
  finally have v: "nval (?t mod DIG_BASE # win') + DIG_BASE ^ length (d # den) * (c1 + c2)
      = nval (n # win) + c + (nval (d # den) * 2 ^ s + dn div DIG_BASE)"
    by (simp add: e_def algebra_simps)
  have "?t mod DIG_BASE < DIG_BASE" by simp
  with v eq ih show ?case unfolding c2
    by (intro exI conjI) (auto simp only: digs_ok_simps length_Cons)
qed

section \<open>One quotient digit\<close>

text \<open>
  The facts about the divisor that hold throughout the division: \<open>D\<close> is the normalised divisor.
\<close>

definition den_norm :: "nat list \<Rightarrow> nat \<Rightarrow> nat \<Rightarrow> bool" where
  "den_norm den s D \<longleftrightarrow> nok den \<and> den \<noteq> [] \<and> s < DIG_SIZE \<and> D = nval den * 2 ^ s
     \<and> D < DIG_BASE ^ length den \<and> 32768 * DIG_BASE ^ (length den - 1) \<le> D"

lemma den_normD:
  assumes "den_norm den s D"
  shows "nok den" "den \<noteq> []" "s < DIG_SIZE" "D = nval den * 2 ^ s" "D < DIG_BASE ^ length den"
    "32768 * DIG_BASE ^ (length den - 1) \<le> D"
  using assms by (auto simp: den_norm_def)

lemma den_norm_pos: "den_norm den s D \<Longrightarrow> 0 < D"
  using den_normD(6) [of den s D] zero_less_power [of DIG_BASE "length den - 1"] by linarith

lemma mulsub_den:
  assumes "den_norm den s D" "quo \<le> 65537" "length win = length den" "nok win"
  shows "\<exists>win' b'. mpn_div_mulsub s quo 0 0 win den = (win', b') \<and> nok win' \<and> length win' = length den
    \<and> - 65537 \<le> b' \<and> b' \<le> 0
    \<and> int (nval win') + int DIG_BASE ^ length den * b' = int (nval win) - int quo * int D"
proof -
  note d = den_normD [OF assms(1)]
  have "D div DIG_BASE ^ length den = 0" using d(5) by simp
  with mulsub_correct [OF d(3) assms(2-4) d(1), of 0 0] assms(3) d(4) show ?thesis by simp
qed

lemma addback_den:
  assumes "den_norm den s D" "length win = length den" "nok win"
  shows "\<exists>win' c. mpn_div_addback s 0 0 win den = (win', c) \<and> nok win' \<and> length win' = length den
    \<and> c \<le> 1 \<and> nval win' + DIG_BASE ^ length den * c = nval win + D"
proof -
  note d = den_normD [OF assms(1)]
  have "D div DIG_BASE ^ length den = 0" using d(5) by simp
  with addback_correct [OF d(3) assms(2,3) d(1), of 0 0] assms(2) d(4) show ?thesis by simp
qed

text \<open>
  The correction ends: while the borrow is not zero the quotient digit is too large, and each
  round lowers it by one.
\<close>

lemma mpn_div_correct_terminates:
  assumes "den_norm den s D" "length win = length den" "nok win" "N div D \<le> quo" "quo \<le> 65537"
    and "- 70000 \<le> b" "b \<le> 65536"
    and "int (nval win) + int DIG_BASE ^ length den * b = int N - int quo * int D"
  shows "\<exists>win'. mpn_div_correct den s win b quo = Some (win', N div D) \<and> nok win'
    \<and> length win' = length den \<and> nval win' = N mod D"
  using assms(2-)
proof (induction "quo - N div D" arbitrary: win b quo rule: less_induct)
  case less
  note D = den_norm_pos [OF assms(1)] and d = den_normD [OF assms(1)]
  have lt: "int (nval win) < int DIG_BASE ^ length den"
    using dval_less [OF less.prems(2)] less.prems(1)
    unfolding of_nat_power [symmetric] by (simp only: of_nat_less_iff)
  have DB: "int D < int DIG_BASE ^ length den"
    using d(5) unfolding of_nat_power [symmetric] by (simp only: of_nat_less_iff)
  have split: "int N = int (N div D) * int D + int (N mod D)"
    by (simp flip: of_nat_mult of_nat_add)
  have modlt: "N mod D < D" using D by simp
  show ?case
  proof (cases "quo = N div D")
    case True
    then have e: "int (nval win) + int DIG_BASE ^ length den * b = int (N mod D)"
      using less.prems(7) split by simp
    have "b = 0"
    proof (rule ccontr)
      assume "b \<noteq> 0"
      then consider "1 \<le> b" | "b \<le> - 1" by linarith
      then show False
      proof cases
        case 1
        then have "int DIG_BASE ^ length den * 1 \<le> int DIG_BASE ^ length den * b"
          by (intro mult_left_mono) simp_all
        with e modlt DB show False by linarith
      next
        case 2
        then have "int DIG_BASE ^ length den * b \<le> int DIG_BASE ^ length den * - 1"
          by (intro mult_left_mono) simp_all
        with e lt show False by linarith
      qed
    qed
    moreover from this e have "nval win = N mod D" by simp
    ultimately show ?thesis using True less.prems by (simp add: mpn_div_correct.simps)
  next
    case False
    then have q: "N div D < quo" using less.prems(3) by simp
    have "int (N div D + 1) * int D \<le> int quo * int D" using q by (intro mult_right_mono) auto
    then have "int N - int quo * int D < 0" using split modlt by (simp add: algebra_simps)
    then have "int DIG_BASE ^ length den * b < 0" using less.prems(7) by linarith
    then have b: "b \<le> - 1" by (simp add: mult_less_0_iff)
    obtain win' c where ab: "mpn_div_addback s 0 0 win den = (win', c)" "nok win'" "length win' = length den"
      "c \<le> 1" "nval win' + DIG_BASE ^ length den * c = nval win + D"
      using addback_den [OF assms(1) less.prems(1,2)] by blast
    have ab5: "int (nval win') + int DIG_BASE ^ length den * int c = int (nval win) + int D"
      using ab(5) unfolding of_nat_power [symmetric] of_nat_mult [symmetric] of_nat_add [symmetric]
      by (simp only:)
    have u: "u32 (quo + 4294967295) = quo - 1"
    proof -
      have e: "quo + 4294967295 = (quo - 1) + 4294967296" using q by simp
      show ?thesis unfolding e u32_def using less.prems(4) by (simp del: add_2_eq_Suc add_2_eq_Suc')
    qed
    have s: "s32 (b + int c) = b + int c" using less.prems(5) b ab(4) by (intro s32_id) auto
    have "int quo = int (quo - 1) + 1" using q by simp
    then have "int (nval win') + int DIG_BASE ^ length den * (b + int c) = int N - int (quo - 1) * int D"
      using less.prems(7) ab5 by (simp only: distrib_left distrib_right mult_1)
    then have "\<exists>w. mpn_div_correct den s win' (b + int c) (quo - 1) = Some (w, N div D) \<and> nok w
        \<and> length w = length den \<and> nval w = N mod D"
      using less.prems b ab q by (intro less.hyps) auto
    moreover have "mpn_div_correct den s win b quo = mpn_div_correct den s win' (b + int c) (quo - 1)"
      using b ab(1) u s by (subst mpn_div_correct.simps) simp
    ultimately show ?thesis by simp
  qed
qed

lemma lead_den_digit_correct:
  assumes "den_norm den s D"
  shows "mpn_lead_den_digit den s = D div DIG_BASE ^ (length den - 1)"
    "32768 \<le> D div DIG_BASE ^ (length den - 1)" "D div DIG_BASE ^ (length den - 1) < DIG_BASE"
proof -
  note d = den_normD [OF assms(1)]
  let ?P = "DIG_BASE ^ (length den - 1)"
  have P: "0 < ?P" by simp
  have "32768 * ?P div ?P \<le> D div ?P" using d(6) by (rule div_le_mono)
  then show "32768 \<le> D div ?P" using P by simp
  have "DIG_BASE ^ length den = DIG_BASE * ?P" using d(2) by (cases den) auto
  then show "D div ?P < DIG_BASE"
    using d(5) by (simp add: div_less_iff_less_mult)
  obtain xs x where den: "den = xs @ [x]" using d(2) by (metis rev_exhaust)
  have x: "x < DIG_BASE" "nok xs" using d(1) unfolding den by auto
  let ?t = "2 ^ s :: nat" and ?h = "2 ^ (DIG_SIZE - s) :: nat"
  have B: "DIG_BASE = ?h * ?t" using pow2_le_base [of s] d(3) by (metis less_imp_le_nat)
  have D: "D = nval xs * ?t + ?P * (x * ?t)"
    unfolding d(4) den by (simp add: digit_simps algebra_simps)
  then have DP: "D div ?P = x * ?t + (nval xs * ?t) div ?P" using P by simp
  have u: "u32 (x * ?t) = x * ?t" using d_norm_step(1) [OF d(3) x(1), of 0] by simp
  show "mpn_lead_den_digit den s = D div ?P"
  proof (cases xs rule: rev_exhaust)
    case Nil
    then show ?thesis using u DP unfolding mpn_lead_den_digit_def den by simp
  next
    case (snoc ys y)
    have y: "y < DIG_BASE" "nok ys" using x(2) unfolding snoc by auto
    have "nval xs * ?t = nval ys * ?t + DIG_BASE ^ length ys * (y * ?t)"
      unfolding snoc by (simp add: digit_simps algebra_simps)
    moreover have "?P = DIG_BASE ^ length ys * DIG_BASE" unfolding den snoc by simp
    ultimately have "(nval xs * ?t) div ?P = ((nval ys * ?t) div DIG_BASE ^ length ys + y * ?t) div DIG_BASE"
      by (simp add: div_mult2_eq)
    also have "\<dots> = ((nval ys * ?t) div DIG_BASE ^ length ys + y * ?t) div ?t div ?h"
      unfolding B by (simp only: div_mult2_eq mult.commute [of ?h])
    also have "((nval ys * ?t) div DIG_BASE ^ length ys + y * ?t) div ?t = y"
    proof -
      have "nval ys < DIG_BASE ^ length ys" using y(2) by (rule dval_less)
      then have "nval ys * ?t < ?t * DIG_BASE ^ length ys" by (simp only: mult.commute [of _ ?t]) simp
      then have "(nval ys * ?t) div DIG_BASE ^ length ys < ?t" by (simp add: div_less_iff_less_mult)
      then show ?thesis by simp
    qed
    finally have r: "(nval xs * ?t) div ?P = y div ?h" .
    have "y div ?h < ?t" using y(1) unfolding B by (simp add: div_less_iff_less_mult mult.commute)
    then have or: "x * ?t OR y div ?h = x * ?t + y div ?h" by (rule or_disjoint_nat)
    have i: "den ! (length den - 1) = x" "den ! (length den - 2) = y" "2 \<le> length den"
      unfolding den snoc by (simp_all add: nth_append)
    show ?thesis unfolding mpn_lead_den_digit_def i Let_def u using DP r or i(3) by simp
  qed
qed
section \<open>The quotient\<close>

text \<open>
  The estimate is at most two above the digit it stands for, and never below it.
\<close>

lemma quo_estimate:
  assumes "den_norm den s D" "N < D * DIG_BASE"
  defines "P \<equiv> DIG_BASE ^ (length den - 1)"
  shows "N div D \<le> N div P div (D div P)" "N div P div (D div P) \<le> 65537"
proof -
  note l = lead_den_digit_correct(2,3) [OF assms(1), folded P_def]
  have P: "0 < P" by (simp add: P_def)
  have D: "D div P * P \<le> D" by simp
  have "N div D \<le> N div (D div P * P)"
    using D l(1) P by (intro div_le_mono2) auto
  also have "\<dots> = N div P div (D div P)" by (metis div_mult2_eq mult.commute)
  finally show "N div D \<le> N div P div (D div P)" .
  have "D < (D div P + 1) * P" using dividend_less_div_times [OF P, of D] by simp
  then have "D * DIG_BASE \<le> (D div P + 1) * P * DIG_BASE" by (intro mult_le_mono1) simp
  then have "D * DIG_BASE \<le> (D div P + 1) * DIG_BASE * P" by (simp only: ac_simps)
  with assms(2) have "N < (D div P + 1) * DIG_BASE * P" by linarith
  then have "N div P < (D div P + 1) * DIG_BASE" using P by (simp add: div_less_iff_less_mult)
  also have "\<dots> \<le> D div P * 65538" using l(1) by simp
  finally show "N div P div (D div P) \<le> 65537"
    using l(1) by (simp add: div_less_iff_less_mult less_Suc_eq_le [symmetric] mult.commute)
qed

lemma mpn_div_step_correct:
  assumes "den_norm den s D" "nok num" "length den + k < length num"
  defines "N \<equiv> nval (take (Suc (length den)) (drop k num))"
  assumes "N < D * DIG_BASE"
  shows "\<exists>win. mpn_div_step den s (D div DIG_BASE ^ (length den - 1)) k num
      = Some (take k num @ win @ drop (length den + k) num, N div D)
    \<and> nok win \<and> length win = length den \<and> nval win = N mod D"
proof -
  note d = den_normD [OF assms(1)] and D0 = den_norm_pos [OF assms(1)]
  let ?n = "length den" and ?P = "DIG_BASE ^ (length den - 1)"
  define hi win0 where "hi = num ! (?n + k)" and "win0 = take ?n (drop k num)"
  have hi: "hi < DIG_BASE" unfolding hi_def using assms(2,3) by (intro digs_ok_nth) auto
  have w: "nok win0" "length win0 = ?n" unfolding win0_def using assms(2,3) by (auto simp: digs_ok_take digs_ok_drop)
  have tk: "take (Suc ?n) (drop k num) = win0 @ [hi]"
    unfolding win0_def hi_def using assms(3) by (simp add: take_Suc_conv_app_nth add.commute)
  then have N: "N = nval win0 + DIG_BASE ^ ?n * hi"
    unfolding N_def using w by (simp add: digit_simps)
  define lo where "lo = num ! (?n + k - 1)"
  have lo: "lo < DIG_BASE" unfolding lo_def using assms(2,3) by (intro digs_ok_nth) auto
  have win0: "win0 = take (?n - 1) win0 @ [lo]"
  proof -
    obtain m where m: "?n = Suc m" using d(2) by (cases den) auto
    have "lo = win0 ! m" unfolding lo_def win0_def using m assms(3) by (simp add: add.commute)
    then show ?thesis using m w(2) by (simp add: take_Suc_conv_app_nth [symmetric])
  qed
  have "nval win0 = nval (take (?n - 1) win0) + ?P * lo"
    by (subst win0) (use w d(2) in \<open>simp add: digit_simps\<close>)
  moreover have "DIG_BASE ^ ?n = ?P * DIG_BASE" using d(2) by (cases den) auto
  moreover have "nval (take (?n - 1) win0) < ?P"
    using dval_less [OF digs_ok_take [OF w(1)], of "?n - 1"] w(2) by simp
  ultimately have NP: "N div ?P = hi * DIG_BASE + lo"
    by (simp only: N mult.assoc distrib_left [symmetric] add.assoc mult.commute [of hi]) (simp add: ac_simps)
  have or: "(hi * DIG_BASE) OR lo = hi * DIG_BASE + lo"
    using or_disjoint_nat [of lo 16 hi] lo by simp
  define quo where "quo = (hi * DIG_BASE + lo) div (D div ?P)"
  have q: "N div D \<le> quo" "quo \<le> 65537"
    using quo_estimate [OF assms(1) assms(5)] unfolding NP quo_def by auto
  obtain win1 b where ms: "mpn_div_mulsub s quo 0 0 win0 den = (win1, b)" "nok win1" "length win1 = ?n"
    "- 65537 \<le> b" "b \<le> 0"
    "int (nval win1) + int DIG_BASE ^ ?n * b = int (nval win0) - int quo * int D"
    using mulsub_den [OF assms(1) q(2) w(2,1)] by blast
  have sb: "s32 (b + int hi) = b + int hi" using ms(4,5) hi by (intro s32_id) auto
  have "int (nval win1) + int DIG_BASE ^ ?n * (b + int hi) = int N - int quo * int D"
    unfolding N using ms(6) by (simp add: algebra_simps)
  then have e1: "int (nval win1) + int DIG_BASE ^ ?n * (b + int hi) = int N - int quo * int D" .
  have bb: "- 70000 \<le> b + int hi" "b + int hi \<le> 65536" using ms(4,5) hi by auto
  obtain win where r: "mpn_div_correct den s win1 (b + int hi) quo = Some (win, N div D)"
    "nok win" "length win = ?n" "nval win = N mod D"
    using mpn_div_correct_terminates [OF assms(1) ms(3,2) q bb e1] by blast
  have "N div D < DIG_BASE" using assms(5) D0 by (simp add: div_less_iff_less_mult mult.commute)
  then have "N div D mod DIG_BASE = N div D" by simp
  then show ?thesis using r ms(1) sb or
    unfolding mpn_div_step_def Let_def hi_def [symmetric] win0_def [symmetric] lo_def [symmetric]
    by (simp add: quo_def)
qed
lemma div_digit_arith:
  fixes V L P N D :: nat
  assumes "V = L + P * N" "L < P" "0 < D"
  shows "L + P * (N mod D) < D * P" "V mod D = (L + P * (N mod D)) mod D"
    "V div D = (L + P * (N mod D)) div D + P * (N div D)"
proof -
  have "N mod D \<le> D - 1" using mod_less_divisor [OF assms(3), of N] by linarith
  then have "P * (N mod D) \<le> P * (D - 1)" by (rule mult_le_mono2)
  then have "L + P * (N mod D) < P + P * (D - 1)" using assms(2) by linarith
  also have "\<dots> = D * P" using assms(3) by (cases D) simp_all
  finally show "L + P * (N mod D) < D * P" .
  have "V = L + P * (D * (N div D) + N mod D)" using assms(1) by simp
  then have V: "V = (L + P * (N mod D)) + D * (P * (N div D))" by (simp only: distrib_left ac_simps)
  show "V mod D = (L + P * (N mod D)) mod D" unfolding V by simp
  show "V div D = (L + P * (N mod D)) div D + P * (N div D)" unfolding V using assms(3) by simp
qed

lemma mpn_div_loop_correct:
  assumes "den_norm den s D" "nok num" "length den + k \<le> length num"
    and "nval (take (length den + k) num) < D * DIG_BASE ^ k" "k \<le> length quo" "nok quo"
  shows "\<exists>num' quo'. mpn_div_loop den s (D div DIG_BASE ^ (length den - 1)) k num quo = Some (num', quo')
    \<and> nok num' \<and> nok quo' \<and> length num' = length num \<and> length quo' = length quo \<and> drop k quo' = drop k quo
    \<and> nval (take (length den) num') = nval (take (length den + k) num) mod D
    \<and> nval (take k quo') = nval (take (length den + k) num) div D"
  using assms(2-)
proof (induction k arbitrary: num quo)
  case 0
  then show ?case using den_norm_pos [OF assms(1)] by simp
next
  case (Suc k)
  note D0 = den_norm_pos [OF assms(1)]
  let ?n = "length den" and ?P = "DIG_BASE ^ k"
  define N L where "N = nval (take (Suc ?n) (drop k num))" and "L = nval (take k num)"
  define V where "V = nval (take (?n + Suc k) num)"
  have len: "length (take k num) = k" using Suc.prems by simp
  have "take (?n + Suc k) num = take k num @ take (Suc ?n) (drop k num)"
    by (simp add: take_add [symmetric] add.commute)
  then have V: "V = L + ?P * N"
    unfolding V_def N_def L_def using len by (simp only: dval_append)
  have L: "L < ?P" using dval_less [OF digs_ok_take [OF Suc.prems(1)], of k] len unfolding L_def by simp
  have "?P * N < ?P * (D * DIG_BASE)"
  proof -
    have "?P * N \<le> V" unfolding V by simp
    also have "\<dots> < D * DIG_BASE ^ Suc k" using Suc.prems(3) unfolding V_def .
    also have "\<dots> = ?P * (D * DIG_BASE)" by (simp only: power_Suc ac_simps)
    finally show ?thesis .
  qed
  then have N: "N < D * DIG_BASE" by simp
  obtain win where st: "mpn_div_step den s (D div DIG_BASE ^ (?n - 1)) k num
      = Some (take k num @ win @ drop (?n + k) num, N div D)"
    "nok win" "length win = ?n" "nval win = N mod D"
    using mpn_div_step_correct [OF assms(1) Suc.prems(1), of k] Suc.prems(2) N unfolding N_def by auto
  let ?num = "take k num @ win @ drop (?n + k) num" and ?q = "quo[k := N div D]"
  have q: "N div D < DIG_BASE" using N D0 by (simp add: div_less_iff_less_mult mult.commute)
  have nq: "nok ?q" using Suc.prems(5) q by (auto simp: digs_ok_def dest!: set_update_subset_insert [THEN subsetD])
  have tk: "take (?n + k) ?num = take k num @ win" using len st(3) by simp
  have tv: "nval (take (?n + k) ?num) = L + ?P * (N mod D)"
    unfolding tk using len st(4) by (simp only: dval_append L_def)
  note ar = div_digit_arith [OF V L D0]
  have "nok ?num" using st(2) Suc.prems(1) by (auto simp: digs_ok_take digs_ok_drop)
  then obtain num' quo' where ih:
    "mpn_div_loop den s (D div DIG_BASE ^ (?n - 1)) k ?num ?q = Some (num', quo')"
    "nok num'" "nok quo'" "length num' = length ?num" "length quo' = length ?q" "drop k quo' = drop k ?q"
    "nval (take ?n num') = (L + ?P * (N mod D)) mod D" "nval (take k quo') = (L + ?P * (N mod D)) div D"
    using Suc.IH [of ?num ?q] Suc.prems nq ar(1) st(3) unfolding tv by auto
  have ln: "length ?num = length num" using len st(3) Suc.prems(2) by simp
  have kl: "k < length quo'" "k < length quo" using ih(5) Suc.prems(4) by auto
  have "quo' ! k = drop k quo' ! 0" using kl by simp
  also have "\<dots> = N div D" unfolding ih(6) using kl by simp
  finally have "take (Suc k) quo' = take k quo' @ [N div D]" using kl by (simp add: take_Suc_conv_app_nth)
  then have "nval (take (Suc k) quo') = V div D"
    using ih(8) ar(3) kl by (simp add: digit_simps)
  moreover have "drop (Suc k) quo' = drop (Suc k) quo"
  proof -
    have "drop (Suc k) quo' = drop 1 (drop k quo')" by simp
    also have "\<dots> = drop (Suc k) quo" unfolding ih(6) by simp
    finally show ?thesis .
  qed
  ultimately show ?case using ih st(1) ar(2) ln kl by (simp add: V_def)
qed

lemma mpn_div_cases:
  assumes "nok num" "normalised num" "nok den" "normalised den"
  shows "mpn_cmp num den = 0 \<longleftrightarrow> nval num = nval den" "mpn_cmp num den < 0 \<longleftrightarrow> nval num < nval den"
  unfolding mpn_cmp_sgn [OF assms(2,4,1,3)] by (auto simp: sgn_if)

lemma den_norm_intro:
  assumes "nok den" "den \<noteq> []" "s < DIG_SIZE" "32768 \<le> last den * 2 ^ s" "last den * 2 ^ s < DIG_BASE"
  shows "den_norm den s (nval den * 2 ^ s)"
proof -
  let ?P = "DIG_BASE ^ (length den - 1)" and ?t = "2 ^ s :: nat" and ?h = "2 ^ (DIG_SIZE - s) :: nat"
  have B: "DIG_BASE = ?h * ?t" using pow2_le_base [of s] assms(3) by (metis less_imp_le_nat)
  have "nval (butlast den @ [last den]) = nval (butlast den) + ?P * last den"
    by (simp only: dval_snoc length_butlast)
  then have v: "nval den = nval (butlast den) + ?P * last den" using assms(2) by simp
  have b: "nval (butlast den) < ?P" using dval_less [OF digs_ok_butlast [OF assms(1)]] by simp
  have "last den < ?h" using assms(5) unfolding B by simp
  then have "?P * (last den + 1) \<le> ?P * ?h" by (intro mult_le_mono2) simp
  moreover have "nval den < ?P * (last den + 1)" using v b by simp
  ultimately have "nval den < ?P * ?h" by linarith
  then have "nval den * ?t < ?P * ?h * ?t" by (intro mult_strict_right_mono) auto
  also have "\<dots> = DIG_BASE * ?P" by (subst B) (simp only: ac_simps)
  also have "\<dots> = DIG_BASE ^ length den" using assms(2) by (cases den) auto
  finally have u: "nval den * ?t < DIG_BASE ^ length den" .
  have "32768 * ?P \<le> last den * ?t * ?P" using assms(4) by (rule mult_le_mono1)
  also have "\<dots> = ?P * last den * ?t" by (simp only: ac_simps)
  also have "\<dots> \<le> nval den * ?t" unfolding v by (intro mult_le_mono1) simp
  finally show ?thesis unfolding den_norm_def using assms u by simp
qed

lemma mpn_div_correct:
  assumes "nok num" "normalised num" "nok den" "normalised den" "den \<noteq> []"
    and "length num < length quo" "nok quo"
  shows "\<exists>r q. mpn_div num den quo = Some (r, q) \<and> nok r \<and> nok q \<and> normalised r \<and> normalised q
    \<and> nval r = nval num mod nval den \<and> nval q = nval num div nval den
    \<and> length q \<le> Suc (length num) \<and> length r \<le> max (length num) (length den)"
proof -
  have n0: "0 < nval den" using normalised_dval_0 [OF assms(4)] assms(5) by fastforce
  consider "nval num = nval den" | "nval num < nval den" | "nval den < nval num" by linarith
  then show ?thesis
  proof cases
    case 1
    then show ?thesis using n0 mpn_div_cases [OF assms(1-4)] by (simp add: mpn_div_def normalised_def)
  next
    case 2
    then show ?thesis using mpn_div_cases [OF assms(1-4)] assms by (simp add: mpn_div_def normalised_def)
  next
    case 3
    then have c: "mpn_cmp num den \<noteq> 0" "\<not> mpn_cmp num den < 0" using mpn_div_cases [OF assms(1-4)] by auto
    let ?n = "length den" and ?m = "length num"
    have lead: "den ! (?n - 1) = last den" using assms(5) by (simp add: last_conv_nth)
    have ld: "0 < last den" "last den < DIG_BASE"
      using assms(3-5) by (auto simp: normalised_def digs_ok_last)
    obtain s where s: "mpn_norm_shift (last den) 0 = Some s" "s < DIG_SIZE" "32768 \<le> last den * 2 ^ s"
      "last den * 2 ^ s < DIG_BASE"
      using mpn_norm_shift_correct [OF ld, of 0] by auto
    let ?D = "nval den * 2 ^ s"
    have dn: "den_norm den s ?D" using den_norm_intro [OF assms(3,5) s(2-4)] .
    note loop = mpn_div_loop_correct [OF dn] and ld' = lead_den_digit_correct(1) [OF dn]
    have "\<not> ?m < ?n" using nval_less_of_length [of num den] assms 3 by auto
    then have le: "?n \<le> ?m" by simp
    define w where "w = mpn_shl_carry s 0 (num @ [0])"
    have t: "(2::nat) ^ s \<le> 2 ^ 15" using s(2) by (intro power_increasing) auto
    have nm: "nval num < DIG_BASE ^ ?m" using assms(1) by (rule dval_less)
    then have V: "nval num * 2 ^ s < DIG_BASE ^ ?m * 2 ^ 15"
      using t by (intro mult_less_le_imp_less) auto
    obtain c where c': "nval w + DIG_BASE ^ Suc ?m * c = nval num * 2 ^ s" "nok w" "length w = Suc ?m"
      using shl_carry_correct [of "num @ [0]" s 0] assms(1) s(2) unfolding w_def by (auto simp: digit_simps)
    have "c = 0"
    proof (rule ccontr)
      assume "c \<noteq> 0"
      then have "DIG_BASE ^ Suc ?m * 1 \<le> DIG_BASE ^ Suc ?m * c" by (intro mult_le_mono2) simp
      then have "DIG_BASE * DIG_BASE ^ ?m \<le> nval num * 2 ^ s" using c'(1) unfolding power_Suc by linarith
      with V nm show False by simp
    qed
    with c' have w: "nval w = nval num * 2 ^ s" by simp
    let ?k = "Suc ?m - ?n"
    have k: "?n + ?k = Suc ?m" using le by simp
    have "DIG_BASE ^ ?m * 2 ^ 15 \<le> ?D * DIG_BASE ^ ?k"
    proof -
      have D: "32768 * DIG_BASE ^ (?n - 1) * DIG_BASE ^ ?k \<le> ?D * DIG_BASE ^ ?k"
        using den_normD(6) [OF dn] by (rule mult_le_mono1)
      have P: "DIG_BASE ^ (?n - 1) * DIG_BASE ^ ?k = DIG_BASE ^ ?m"
        using k assms(5) by (cases den) (auto simp flip: power_add)
      have e: "32768 * DIG_BASE ^ (?n - 1) * DIG_BASE ^ ?k = DIG_BASE ^ ?m * 2 ^ 15"
        unfolding mult.assoc P by simp
      show ?thesis using D unfolding e .
    qed
    with V have "nval num * 2 ^ s < ?D * DIG_BASE ^ ?k" by linarith
    then have lt: "nval (take (?n + ?k) w) < ?D * DIG_BASE ^ ?k"
      unfolding k take_all [OF eq_refl [OF c'(3)]] w .
    obtain num' quo' where r:
      "mpn_div_loop den s (?D div DIG_BASE ^ (?n - 1)) ?k w quo = Some (num', quo')"
      "nok num'" "nok quo'" "length num' = Suc ?m" "length quo' = length quo"
      "nval (take ?n num') = nval num * 2 ^ s mod ?D" "nval (take ?k quo') = nval num * 2 ^ s div ?D"
      using loop [OF c'(2) _ lt _ assms(7)] c'(3) k w assms(6) by auto
    let ?rem = "rev (mpn_shr_carry s 0 (rev (take ?n num')))"
    have nr: "nok (rev (take ?n num'))" using digs_ok_take [OF r(2)] by (simp add: digs_ok_def)
    have rem: "nval ?rem = nval num mod nval den" "nok ?rem" "length ?rem = ?n"
      using shr_carry_correct [of "rev (take ?n num')" s 0] nr r(4,6) le s(2)
      by (auto simp: digs_ok_def mod_mult_mult2 u16_def)
    have quo: "nval (take ?k quo') = nval num div nval den" using r(7) by simp
    have "mpn_div num den quo = Some (mpn_remove_trailing_zeros ?rem, mpn_remove_trailing_zeros (take ?k quo'))"
      unfolding mpn_div_def using c s(1) lead r(1) c'(3) ld' by (simp add: Let_def w_def)
    moreover have "length (mpn_remove_trailing_zeros ?rem) \<le> max ?m ?n"
      using length_remove_trailing_zeros [of ?rem] rem(3) by simp
    moreover have "length (mpn_remove_trailing_zeros (take ?k quo')) \<le> Suc ?m"
      using length_remove_trailing_zeros [of "take ?k quo'"] by (simp only: length_take)
    ultimately show ?thesis using rem quo r(3)
      by (auto intro!: nok_remove_trailing_zeros digs_ok_take)
  qed
qed

end
