(* ===== verification/Mpz.thy ===== *)
theory Mpz
  imports MpnBits MpnDiv "HOL-Library.Monad_Syntax"
begin

text \<open>
  The signed integers of \<^verbatim>\<open>py/mpz.c\<close>.  A record \<open>mpz_t\<close> is the C structure with \<open>dig\<close> the list of
  its first \<open>len\<close> digits; \<^verbatim>\<open>dig == NULL\<close> is \<open>alloc = 0\<close>.  An operation has the destination as its
  first argument (its buffer is what is grown) and returns it updated; \<open>None\<close> is a failed assertion,
  a fixed buffer that cannot grow, or a write outside of a buffer.  The operands may be the
  destination: where the code reads an operand after it has written the destination
  (\<open>mpz_shr_inpl\<close>, \<open>mpz_divmod_inpl\<close>), a flag of the model says whether they are the same object.
  \<^verbatim>\<open>MICROPY_OPT_MPZ_BITWISE\<close> is 0, and \<^verbatim>\<open>mp_int_t\<close> and \<^verbatim>\<open>mp_uint_t\<close> have 32 bits.
\<close>

section \<open>Representation\<close>

record mpz_t =
  neg :: bool
  fixed_dig :: bool
  alloc :: nat
  dig :: "nat list"

definition mpz_init_zero :: mpz_t where
  "mpz_init_zero = \<lparr>neg = False, fixed_dig = False, alloc = 0, dig = []\<rparr>"

definition mpz_need_dig :: "mpz_t \<Rightarrow> nat \<Rightarrow> mpz_t option" where
  "mpz_need_dig z need =
     (let need = (if need < 2 then 2 else need)
      in if alloc z = 0 \<or> alloc z < need
         then if fixed_dig z then None else Some (z\<lparr>alloc := need\<rparr>)
         else Some z)"

definition mpz_clone :: "mpz_t \<Rightarrow> mpz_t option" where
  "mpz_clone src =
     (if alloc src = 0 then None
      else Some \<lparr>neg = neg src, fixed_dig = False, alloc = alloc src, dig = dig src\<rparr>)"

definition mpz_set :: "mpz_t \<Rightarrow> mpz_t \<Rightarrow> mpz_t option" where
  "mpz_set dest src = do {
     dest \<leftarrow> mpz_need_dig dest (length (dig src));
     Some (dest\<lparr>neg := neg src, dig := dig src\<rparr>) }"

section \<open>Machine integers\<close>

text \<open>The loop \<^verbatim>\<open>while (uval > 0)\<close> that splits an unsigned value into digits.\<close>

fun mpz_uval_digits :: "nat \<Rightarrow> nat list" where
  "mpz_uval_digits uval =
     (if 0 < uval then uval mod DIG_BASE # mpz_uval_digits (uval div DIG_BASE) else [])"

declare mpz_uval_digits.simps [simp del]

definition mpz_set_from_int :: "mpz_t \<Rightarrow> int \<Rightarrow> mpz_t option" where
  "mpz_set_from_int z val =
     (if val = 0 then Some (z\<lparr>neg := False, dig := []\<rparr>)
      else do {
        z \<leftarrow> mpz_need_dig z 2;
        let uval = nat ((if val < 0 then - val else val) mod 2 ^ 32);
        Some (z\<lparr>neg := val < 0, dig := mpz_uval_digits uval\<rparr>) })"

definition mpz_init_from_int :: "int \<Rightarrow> mpz_t option" where
  "mpz_init_from_int val = mpz_set_from_int mpz_init_zero val"

definition mpz_init_fixed_from_int :: "nat \<Rightarrow> int \<Rightarrow> mpz_t option" where
  "mpz_init_fixed_from_int n val =
     mpz_set_from_int \<lparr>neg = False, fixed_dig = True, alloc = n, dig = []\<rparr> val"

definition mpz_set_from_ll :: "mpz_t \<Rightarrow> int \<Rightarrow> bool \<Rightarrow> mpz_t option" where
  "mpz_set_from_ll z val is_signed = do {
     z \<leftarrow> mpz_need_dig z 4;
     let n = (is_signed \<and> val < 0);
     let uval = nat ((if n then - val else val) mod 2 ^ 64);
     Some (z\<lparr>neg := n, dig := mpz_uval_digits uval\<rparr>) }"

section \<open>Comparison and operations that change the sign\<close>

definition mpz_is_zero :: "mpz_t \<Rightarrow> bool" where
  "mpz_is_zero z \<longleftrightarrow> dig z = []"

definition mpz_cmp :: "mpz_t \<Rightarrow> mpz_t \<Rightarrow> int" where
  "mpz_cmp z1 z2 =
     (let cmp = (of_bool (neg z2) :: int) - of_bool (neg z1)
      in if cmp \<noteq> 0 then cmp
         else let cmp = mpn_cmp (dig z1) (dig z2)
              in if neg z1 then - cmp else cmp)"

definition mpz_abs_inpl :: "mpz_t \<Rightarrow> mpz_t \<Rightarrow> mpz_t option" where
  "mpz_abs_inpl dest z = do {
     dest \<leftarrow> mpz_set dest z;
     Some (dest\<lparr>neg := False\<rparr>) }"

definition mpz_neg_inpl :: "mpz_t \<Rightarrow> mpz_t \<Rightarrow> mpz_t option" where
  "mpz_neg_inpl dest z = do {
     dest \<leftarrow> mpz_set dest z;
     Some (if dig dest \<noteq> [] then dest\<lparr>neg := \<not> neg dest\<rparr> else dest) }"

definition mpz_not_inpl :: "mpz_t \<Rightarrow> mpz_t \<Rightarrow> mpz_t option" where
  "mpz_not_inpl dest z = do {
     dest \<leftarrow> mpz_set dest z;
     if dig dest = [] then do {
       dest \<leftarrow> mpz_need_dig dest 1;
       Some (dest\<lparr>dig := [1], neg := True\<rparr>) }
     else if neg dest then Some (dest\<lparr>neg := False, dig := mpn_sub (dig dest) [1]\<rparr>)
     else do {
       dest \<leftarrow> mpz_need_dig dest (length (dig dest) + 1);
       Some (dest\<lparr>dig := mpn_add (dig dest) [1], neg := True\<rparr>) } }"

section \<open>Shifts\<close>

definition mpz_shl_inpl :: "mpz_t \<Rightarrow> mpz_t \<Rightarrow> nat \<Rightarrow> mpz_t option" where
  "mpz_shl_inpl dest lhs rhs =
     (if dig lhs = [] \<or> rhs = 0 then mpz_set dest lhs
      else do {
        dest \<leftarrow> mpz_need_dig dest (length (dig lhs) + u32 (rhs + DIG_SIZE - 1) div DIG_SIZE);
        Some (dest\<lparr>dig := mpn_shl (dig lhs) rhs, neg := neg lhs\<rparr>) })"

text \<open>
  The rounding digit is computed from \<open>src\<close>, the digits that \<^verbatim>\<open>lhs->dig\<close> points to at that
  moment: those of the operand, or those of the result when the destination is the operand.
\<close>

definition mpz_shr_round_up :: "nat list \<Rightarrow> nat \<Rightarrow> nat" where
  "mpz_shr_round_up src rhs =
     (let n_whole = rhs div DIG_SIZE;
          n_part = rhs mod DIG_SIZE
      in if (\<exists>d \<in> set (take n_whole src). d \<noteq> 0)
            \<or> n_whole < length src \<and> src ! n_whole AND (2 ^ n_part - 1) \<noteq> 0
         then 1 else 0)"

definition mpz_shr_inpl :: "bool \<Rightarrow> mpz_t \<Rightarrow> mpz_t \<Rightarrow> nat \<Rightarrow> mpz_t option" where
  "mpz_shr_inpl same dest lhs rhs =
     (if dig lhs = [] \<or> rhs = 0 then mpz_set dest lhs
      else do {
        dest \<leftarrow> mpz_need_dig dest (length (dig lhs));
        let dest = dest\<lparr>dig := mpn_shr (dig lhs) rhs, neg := neg lhs\<rparr>;
        if neg dest \<and> mpz_shr_round_up (if same then dig dest else dig lhs) rhs \<noteq> 0
        then (if dig dest = [] then Some (dest\<lparr>dig := [1]\<rparr>)
              else Some (dest\<lparr>dig := mpn_add (dig dest) [1]\<rparr>))
        else Some dest })"

section \<open>Addition, subtraction, multiplication\<close>

definition mpz_add_inpl :: "mpz_t \<Rightarrow> mpz_t \<Rightarrow> mpz_t \<Rightarrow> mpz_t option" where
  "mpz_add_inpl dest lhs rhs =
     (let (lhs, rhs) = (if mpn_cmp (dig lhs) (dig rhs) < 0 then (rhs, lhs) else (lhs, rhs))
      in if neg lhs = neg rhs
         then do {
           dest \<leftarrow> mpz_need_dig dest (length (dig lhs) + 1);
           let ds = mpn_add (dig lhs) (dig rhs);
           Some (dest\<lparr>dig := ds, neg := (neg lhs \<and> ds \<noteq> [])\<rparr>) }
         else do {
           dest \<leftarrow> mpz_need_dig dest (length (dig lhs));
           let ds = mpn_sub (dig lhs) (dig rhs);
           Some (dest\<lparr>dig := ds, neg := (neg lhs \<and> ds \<noteq> [])\<rparr>) })"

definition mpz_sub_inpl :: "mpz_t \<Rightarrow> mpz_t \<Rightarrow> mpz_t \<Rightarrow> mpz_t option" where
  "mpz_sub_inpl dest lhs rhs =
     (let (lhs, rhs, n) =
            (if mpn_cmp (dig lhs) (dig rhs) < 0 then (rhs, lhs, True) else (lhs, rhs, False))
      in do {
        (dest, ds) \<leftarrow>
          (if neg lhs \<noteq> neg rhs
           then do {
             dest \<leftarrow> mpz_need_dig dest (length (dig lhs) + 1);
             Some (dest, mpn_add (dig lhs) (dig rhs)) }
           else do {
             dest \<leftarrow> mpz_need_dig dest (length (dig lhs));
             Some (dest, mpn_sub (dig lhs) (dig rhs)) });
        Some (dest\<lparr>dig := ds,
                   neg := (if ds = [] then False else if n then \<not> neg lhs else neg lhs)\<rparr>) })"

definition mpz_mul_inpl :: "mpz_t \<Rightarrow> mpz_t \<Rightarrow> mpz_t \<Rightarrow> mpz_t option" where
  "mpz_mul_inpl dest lhs rhs =
     (if dig lhs = [] \<or> dig rhs = [] then mpz_set_from_int dest 0
      else do {
        dest \<leftarrow> mpz_need_dig dest (length (dig lhs) + length (dig rhs));
        (buf, n) \<leftarrow> mpn_mul (replicate (alloc dest) 0) (dig lhs) (dig rhs);
        Some (dest\<lparr>dig := take n buf, neg := (neg lhs \<noteq> neg rhs)\<rparr>) })"

section \<open>Bitwise operations\<close>

definition mpz_and_inpl :: "mpz_t \<Rightarrow> mpz_t \<Rightarrow> mpz_t \<Rightarrow> mpz_t option" where
  "mpz_and_inpl dest lhs rhs =
     (let (lhs, rhs) = (if length (dig lhs) < length (dig rhs) then (rhs, lhs) else (lhs, rhs))
      in do {
        dest \<leftarrow> mpz_need_dig dest (length (dig lhs) + of_bool (neg lhs \<or> neg rhs));
        Some (dest\<lparr>dig := mpn_and_neg (dig lhs) (dig rhs)
                     (if neg lhs = neg rhs then of_bool (neg lhs) else 0)
                     (of_bool (neg lhs)) (of_bool (neg rhs)),
                   neg := (neg lhs \<and> neg rhs)\<rparr>) })"

definition mpz_or_inpl :: "mpz_t \<Rightarrow> mpz_t \<Rightarrow> mpz_t \<Rightarrow> mpz_t option" where
  "mpz_or_inpl dest lhs rhs =
     (let (lhs, rhs) = (if length (dig lhs) < length (dig rhs) then (rhs, lhs) else (lhs, rhs))
      in do {
        dest \<leftarrow> mpz_need_dig dest (length (dig lhs) + of_bool (neg lhs \<or> neg rhs));
        ds \<leftarrow> mpn_or_neg (dig lhs) (dig rhs) (of_bool (neg lhs \<or> neg rhs))
                (of_bool (neg lhs)) (of_bool (neg rhs));
        Some (dest\<lparr>dig := ds, neg := (neg lhs \<or> neg rhs)\<rparr>) })"

definition mpz_xor_inpl :: "mpz_t \<Rightarrow> mpz_t \<Rightarrow> mpz_t \<Rightarrow> mpz_t option" where
  "mpz_xor_inpl dest lhs rhs =
     (let (lhs, rhs) = (if length (dig lhs) < length (dig rhs) then (rhs, lhs) else (lhs, rhs))
      in do {
        dest \<leftarrow> mpz_need_dig dest (length (dig lhs) + of_bool (neg lhs \<or> neg rhs));
        Some (dest\<lparr>dig := mpn_xor_neg (dig lhs) (dig rhs) (of_bool (neg lhs \<noteq> neg rhs))
                     (of_bool (\<not> neg lhs)) (of_bool (\<not> neg rhs)),
                   neg := (neg lhs \<noteq> neg rhs)\<rparr>) })"

section \<open>Division\<close>

text \<open>
  The buffer of \<open>dest_quo\<close> has \<open>lhs->len + 1\<close> zeroed digits.  \<open>same\<close> says that \<open>dest_rem\<close>
  is the object \<open>lhs\<close>: the test of the signs then reads the sign of the remainder.
\<close>

definition mpz_divmod_inpl :: "bool \<Rightarrow> mpz_t \<Rightarrow> mpz_t \<Rightarrow> mpz_t \<Rightarrow> mpz_t \<Rightarrow> (mpz_t \<times> mpz_t) option" where
  "mpz_divmod_inpl same dest_quo dest_rem lhs rhs =
     (if mpz_is_zero rhs then None
      else do {
        dest_quo \<leftarrow> mpz_need_dig dest_quo (length (dig lhs) + 1);
        dest_rem \<leftarrow> mpz_need_dig dest_rem (length (dig lhs) + 1);
        dest_rem \<leftarrow> mpz_set dest_rem lhs;
        (r, q) \<leftarrow> mpn_div (dig dest_rem) (dig rhs) (replicate (length (dig lhs) + 1) 0);
        let dest_quo = dest_quo\<lparr>neg := False, dig := q\<rparr>;
        let dest_rem = dest_rem\<lparr>dig := r, neg := (neg dest_rem \<and> r \<noteq> [])\<rparr>;
        if (if same then neg dest_rem else neg lhs) \<noteq> neg rhs
        then do {
          let dest_quo = dest_quo\<lparr>neg := (dig dest_quo \<noteq> [])\<rparr>;
          if \<not> mpz_is_zero dest_rem
          then do {
            mpzone \<leftarrow> mpz_init_from_int (- 1);
            dest_quo \<leftarrow> mpz_add_inpl dest_quo dest_quo mpzone;
            dest_rem \<leftarrow> mpz_add_inpl dest_rem dest_rem rhs;
            Some (dest_quo, dest_rem) }
          else Some (dest_quo, dest_rem) }
        else Some (dest_quo, dest_rem) })"

section \<open>Powers\<close>

partial_function (option) mpz_pow_loop :: "mpz_t \<Rightarrow> mpz_t \<Rightarrow> nat list \<Rightarrow> mpz_t option" where
  "mpz_pow_loop dest x n =
     (if n = [] then Some dest
      else do {
        dest \<leftarrow> (if n ! 0 AND 1 \<noteq> 0 then mpz_mul_inpl dest dest x else Some dest);
        let n = mpn_shr n 1;
        if n = [] then Some dest
        else do {
          x \<leftarrow> mpz_mul_inpl x x x;
          mpz_pow_loop dest x n } })"

definition mpz_pow_inpl :: "mpz_t \<Rightarrow> mpz_t \<Rightarrow> mpz_t \<Rightarrow> mpz_t option" where
  "mpz_pow_inpl dest lhs rhs =
     (if dig lhs = [] \<or> neg rhs then mpz_set_from_int dest 0
      else if dig rhs = [] then mpz_set_from_int dest 1
      else do {
        x \<leftarrow> mpz_clone lhs;
        n \<leftarrow> mpz_clone rhs;
        dest \<leftarrow> mpz_set_from_int dest 1;
        mpz_pow_loop dest x (dig n) })"

text \<open>
  In both calls of \<open>mpz_divmod_inpl\<close> the remainder's destination is the dividend.
\<close>

partial_function (option) mpz_pow3_loop ::
  "mpz_t \<Rightarrow> mpz_t \<Rightarrow> nat list \<Rightarrow> mpz_t \<Rightarrow> mpz_t \<Rightarrow> mpz_t option" where
  "mpz_pow3_loop dest x n quo m =
     (if n = [] then Some dest
      else do {
        (quo, dest) \<leftarrow>
          (if n ! 0 AND 1 \<noteq> 0
           then do {
             dest \<leftarrow> mpz_mul_inpl dest dest x;
             mpz_divmod_inpl True quo dest dest m }
           else Some (quo, dest));
        let n = mpn_shr n 1;
        if n = [] then Some dest
        else do {
          x \<leftarrow> mpz_mul_inpl x x x;
          (quo, x) \<leftarrow> mpz_divmod_inpl True quo x x m;
          mpz_pow3_loop dest x n quo m } })"

definition mpz_pow3_inpl :: "mpz_t \<Rightarrow> mpz_t \<Rightarrow> mpz_t \<Rightarrow> mpz_t \<Rightarrow> mpz_t option" where
  "mpz_pow3_inpl dest lhs rhs m =
     (if dig lhs = [] \<or> neg rhs \<or> length (dig m) = 1 \<and> dig m ! 0 = 1 then mpz_set_from_int dest 0
      else do {
        dest \<leftarrow> mpz_set_from_int dest 1;
        if dig rhs = [] then Some dest
        else do {
          x \<leftarrow> mpz_clone lhs;
          n \<leftarrow> mpz_clone rhs;
          mpz_pow3_loop dest x (dig n) mpz_init_zero m } })"

section \<open>Values and well-formed integers\<close>

text \<open>
  The invariant of the header file (zero has \<open>neg = 0\<close>, no negative zero), with the digits in range,
  no leading zero digit, and the digits within the allocated buffer.
\<close>

definition mpz_val :: "mpz_t \<Rightarrow> int" where
  "mpz_val z = signed_val (neg z) (dig z)"

definition mpz_wf :: "mpz_t \<Rightarrow> bool" where
  "mpz_wf z \<longleftrightarrow> nok (dig z) \<and> normalised (dig z) \<and> length (dig z) \<le> alloc z \<and> (neg z \<longrightarrow> dig z \<noteq> [])"

text \<open>A call returns a well-formed integer with a buffer of its own, and its value is \<open>v\<close>.\<close>

definition gives :: "mpz_t option \<Rightarrow> int \<Rightarrow> bool" where
  "gives r v \<longleftrightarrow> (\<exists>z. r = Some z \<and> mpz_wf z \<and> \<not> fixed_dig z \<and> mpz_val z = v)"

lemma givesI: "r = Some z \<Longrightarrow> mpz_wf z \<Longrightarrow> \<not> fixed_dig z \<Longrightarrow> mpz_val z = v \<Longrightarrow> gives r v"
  by (auto simp: gives_def)

lemma givesE:
  assumes "gives r v"
  obtains z where "r = Some z" "mpz_wf z" "\<not> fixed_dig z" "mpz_val z = v"
  using assms by (auto simp: gives_def)

lemma gives_bind:
  assumes "gives r v" "\<And>z. mpz_wf z \<Longrightarrow> \<not> fixed_dig z \<Longrightarrow> mpz_val z = v \<Longrightarrow> gives (f z) w"
  shows "gives (r \<bind> f) w"
  using assms by (auto simp: gives_def)

lemma mpz_wfD:
  assumes "mpz_wf z"
  shows "nok (dig z)" "normalised (dig z)" "length (dig z) \<le> alloc z" "neg z \<Longrightarrow> dig z \<noteq> []"
  using assms by (auto simp: mpz_wf_def)

lemma mpz_wf_zero: "mpz_wf mpz_init_zero" "mpz_val mpz_init_zero = 0" "\<not> fixed_dig mpz_init_zero"
  by (simp_all add: mpz_wf_def mpz_init_zero_def mpz_val_def signed_val_def)

lemma nval_0_iff: "normalised ds \<Longrightarrow> nval ds = 0 \<longleftrightarrow> ds = []"
  by (rule normalised_dval_0) simp_all

lemma mpz_val_simps:
  "mpz_val z = (if neg z then - int (nval (dig z)) else int (nval (dig z)))"
  by (simp add: mpz_val_def signed_val_def)

lemma mpz_val_abs: "\<bar>mpz_val z\<bar> = int (nval (dig z))"
  by (simp add: mpz_val_simps)

lemma mpz_wf_val:
  assumes "mpz_wf z"
  shows "dig z = [] \<longleftrightarrow> mpz_val z = 0" "neg z \<longleftrightarrow> mpz_val z < 0" "mpz_is_zero z \<longleftrightarrow> mpz_val z = 0"
  using nval_0_iff [OF mpz_wfD(2) [OF assms]] mpz_wfD(4) [OF assms]
  by (auto simp: mpz_val_simps mpz_is_zero_def split: if_splits)

lemma mpz_need_dig_ok:
  assumes "\<not> fixed_dig z"
  shows "\<exists>a. mpz_need_dig z n = Some (z\<lparr>alloc := a\<rparr>) \<and> n \<le> a \<and> 2 \<le> a \<and> alloc z \<le> a"
proof (cases "alloc z = 0 \<or> alloc z < (if n < 2 then 2 else n)")
  case True
  then show ?thesis using assms
    by (intro exI [of _ "if n < 2 then 2 else n"]) (auto simp: mpz_need_dig_def)
next
  case False
  then show ?thesis
    by (intro exI [of _ "alloc z"]) (auto simp: mpz_need_dig_def split: if_splits)
qed

lemma need_dig_gives:
  assumes "\<not> fixed_dig z" "\<And>a. n \<le> a \<Longrightarrow> 2 \<le> a \<Longrightarrow> alloc z \<le> a \<Longrightarrow> gives (f (z\<lparr>alloc := a\<rparr>)) v"
  shows "gives (mpz_need_dig z n \<bind> f) v"
  using mpz_need_dig_ok [OF assms(1), of n] assms(2) by auto

lemma gives_Some:
  assumes "nok (dig z)" "normalised (dig z)" "length (dig z) \<le> alloc z" "neg z \<Longrightarrow> dig z \<noteq> []"
    and "\<not> fixed_dig z" "signed_val (neg z) (dig z) = v"
  shows "gives (Some z) v"
  using assms by (auto simp: gives_def mpz_wf_def mpz_val_def)

section \<open>Arithmetic\<close>

lemma mpz_set_gives:
  assumes "\<not> fixed_dig dest" "mpz_wf src"
  shows "gives (mpz_set dest src) (mpz_val src)"
  unfolding mpz_set_def using mpz_wfD [OF assms(2)] assms(1)
  by (intro need_dig_gives gives_Some) (auto simp: mpz_val_def)

lemma mpz_uval_digits_correct:
  "nval (mpz_uval_digits u) = u \<and> nok (mpz_uval_digits u) \<and> normalised (mpz_uval_digits u)"
proof (induction u rule: mpz_uval_digits.induct)
  case (1 u)
  show ?case
  proof (cases "0 < u")
    case True
    then have eq: "mpz_uval_digits u = u mod DIG_BASE # mpz_uval_digits (u div DIG_BASE)"
      by (subst mpz_uval_digits.simps) simp
    note ih = 1 [OF True]
    have "u mod DIG_BASE = u" if "mpz_uval_digits (u div DIG_BASE) = []"
      using ih that by (simp add: div_eq_0_iff)
    then show ?thesis using ih True unfolding eq by (auto simp: normalised_def)
  qed (simp add: mpz_uval_digits.simps)
qed

lemma nval_length_le:
  assumes "normalised ds" "nval ds < DIG_BASE ^ n"
  shows "length ds \<le> n"
proof (cases "ds = []")
  case False
  then have "DIG_BASE ^ (length ds - 1) \<le> nval ds"
    using assms(1) by (intro dval_ge_last) (auto simp: normalised_def)
  also note assms(2)
  finally have "length ds - 1 < n" by (rule power_less_imp_less_exp [rotated]) simp
  then show ?thesis by linarith
qed simp

lemma mpz_uval_digits_length: "u < DIG_BASE ^ n \<Longrightarrow> length (mpz_uval_digits u) \<le> n"
  using nval_length_le mpz_uval_digits_correct by metis

lemma uval_magnitude:
  fixes v :: int
  assumes "- (2 ^ (w - 1)) \<le> v" "v < 2 ^ w" "0 < w"
  shows "int (nat ((if v < 0 then - v else v) mod 2 ^ w)) = \<bar>v\<bar>" "\<bar>v\<bar> < 2 ^ w"
proof -
  have "(2::int) ^ w = 2 * 2 ^ (w - 1)" using assms(3) by (cases w) auto
  moreover have "(0::int) < 2 ^ (w - 1)" by simp
  ultimately show lt: "\<bar>v\<bar> < 2 ^ w" using assms(1,2) by linarith
  then show "int (nat ((if v < 0 then - v else v) mod 2 ^ w)) = \<bar>v\<bar>" by (simp add: abs_if)
qed

lemma mpz_set_from_int_gives:
  assumes "\<not> fixed_dig z" "- (2 ^ 31) \<le> v" "v < 2 ^ 32"
  shows "gives (mpz_set_from_int z v) v"
proof (cases "v = 0")
  case True
  then show ?thesis using assms(1)
    by (auto simp: mpz_set_from_int_def signed_val_def intro!: gives_Some)
next
  case False
  define u where "u = nat ((if v < 0 then - v else v) mod 2 ^ 32)"
  have u: "int u = \<bar>v\<bar>" "\<bar>v\<bar> < 2 ^ 32" unfolding u_def using uval_magnitude [of 32 v] assms by auto
  note d = mpz_uval_digits_correct [of u]
  have "u < DIG_BASE ^ 2" using u by simp
  then have "length (mpz_uval_digits u) \<le> 2" by (rule mpz_uval_digits_length)
  moreover have "signed_val (v < 0) (mpz_uval_digits u) = v" using d u by (auto simp: signed_val_def)
  moreover have "mpz_uval_digits u \<noteq> []" using d u False by auto
  ultimately show ?thesis using False assms(1) d unfolding mpz_set_from_int_def u_def [symmetric]
    by (auto intro!: need_dig_gives gives_Some)
qed

lemma mpz_set_from_ll_gives:
  assumes "\<not> fixed_dig z" "- (2 ^ 63) \<le> v" "v < 2 ^ 64" "\<not> is_signed \<Longrightarrow> 0 \<le> v"
  shows "gives (mpz_set_from_ll z v is_signed) v"
proof -
  define u where "u = nat ((if is_signed \<and> v < 0 then - v else v) mod 2 ^ 64)"
  have n: "(is_signed \<and> v < 0) = (v < 0)" using assms(4) by force
  have u: "int u = \<bar>v\<bar>" "\<bar>v\<bar> < 2 ^ 64"
    unfolding u_def n using uval_magnitude [of 64 v] assms(2,3) by auto
  note d = mpz_uval_digits_correct [of u]
  have "u < DIG_BASE ^ 4" using u by simp
  then have "length (mpz_uval_digits u) \<le> 4" by (rule mpz_uval_digits_length)
  moreover have "signed_val (v < 0) (mpz_uval_digits u) = v" using d u by (auto simp: signed_val_def)
  moreover have "mpz_uval_digits u \<noteq> []" if "v < 0" using d u that by auto
  ultimately show ?thesis using assms(1) d unfolding mpz_set_from_ll_def Let_def u_def [symmetric] unfolding n
    by (auto intro!: need_dig_gives gives_Some)
qed

lemma mpz_cmp_correct:
  assumes "mpz_wf z1" "mpz_wf z2"
  shows "sgn (mpz_cmp z1 z2) = sgn (mpz_val z1 - mpz_val z2)"
proof -
  have c: "mpn_cmp (dig z1) (dig z2) = sgn (int (nval (dig z1)) - int (nval (dig z2)))"
    using mpz_wfD [OF assms(1)] mpz_wfD [OF assms(2)] by (intro mpn_cmp_sgn) auto
  have p: "neg z \<Longrightarrow> 0 < nval (dig z)" if "mpz_wf z" for z
    using mpz_wfD [OF that] nval_0_iff [of "dig z"] by auto
  show ?thesis using p [OF assms(1)] p [OF assms(2)]
    unfolding mpz_cmp_def Let_def c mpz_val_simps by (auto simp: sgn_if)
qed

lemma mpz_abs_gives:
  assumes "\<not> fixed_dig dest" "mpz_wf z"
  shows "gives (mpz_abs_inpl dest z) \<bar>mpz_val z\<bar>"
  unfolding mpz_abs_inpl_def
  by (rule gives_bind [OF mpz_set_gives [OF assms]])
    (auto simp: mpz_wf_def mpz_val_abs signed_val_def intro!: gives_Some simp flip: mpz_val_abs)

lemma mpz_neg_gives:
  assumes "\<not> fixed_dig dest" "mpz_wf z"
  shows "gives (mpz_neg_inpl dest z) (- mpz_val z)"
  unfolding mpz_neg_inpl_def
  by (rule gives_bind [OF mpz_set_gives [OF assms]])
    (auto simp: mpz_wf_def mpz_val_def signed_val_def split: if_splits intro!: gives_Some)

lemma one_digit: "nok [Suc 0]" "normalised [Suc 0]" "nval [Suc 0] = 1"
  by (simp_all add: normalised_def)

lemma mpz_not_gives:
  assumes "\<not> fixed_dig dest" "mpz_wf z"
  shows "gives (mpz_not_inpl dest z) (- mpz_val z - 1)"
  unfolding mpz_not_inpl_def
proof (rule gives_bind [OF mpz_set_gives [OF assms]])
  fix y
  assume y: "mpz_wf y" "\<not> fixed_dig y" and v: "mpz_val y = mpz_val z"
  note d = mpz_wfD [OF y(1)]
  consider "dig y = []" | "dig y \<noteq> []" "neg y" | "dig y \<noteq> []" "\<not> neg y" by blast
  then show "gives (if dig y = [] then mpz_need_dig y 1 \<bind> (\<lambda>dest. Some (dest\<lparr>dig := [1], neg := True\<rparr>))
      else if neg y then Some (y\<lparr>neg := False, dig := mpn_sub (dig y) [1]\<rparr>)
      else mpz_need_dig y (length (dig y) + 1) \<bind> (\<lambda>dest. Some (dest\<lparr>dig := mpn_add (dig dest) [1], neg := True\<rparr>)))
    (- mpz_val z - 1)"
  proof cases
    case 1
    then have "mpz_val z = 0" using v mpz_wf_val(1) [OF y(1)] by simp
    then show ?thesis using 1 y
      by (auto simp: normalised_def signed_val_def intro!: need_dig_gives gives_Some)
  next
    case 2
    then have le: "length [Suc 0] \<le> length (dig y)" "1 \<le> nval (dig y)"
      using nval_0_iff [OF d(2)] by (auto simp: Suc_le_eq)
    have le': "nval [Suc 0] \<le> nval (dig y)" using le(2) one_digit(3) by simp
    note s = mpn_sub_correct [OF d(1) one_digit(1) le(1) le']
    have "signed_val False (mpn_sub (dig y) [Suc 0]) = - mpz_val z - 1"
      using 2 s(1) le(2) v one_digit(3) by (simp add: signed_val_def mpz_val_simps)
    then show ?thesis using 2 s y(2) d(3) by (auto intro!: gives_Some)
  next
    case 3
    then have le: "length [Suc 0] \<le> length (dig y)" by (simp add: Suc_le_eq)
    note a = mpn_add_correct [OF d(1) one_digit(1) le] mpn_add_length [OF le]
      mpn_add_normalised [OF d(1) one_digit(1) le d(2)]
    have "signed_val True (mpn_add (dig y) [Suc 0]) = - mpz_val z - 1"
      using 3 a(1) v one_digit(3) by (simp add: signed_val_def mpz_val_simps)
    moreover have "mpn_add (dig y) [Suc 0] \<noteq> []" using a(1) one_digit(3) by auto
    ultimately show ?thesis using 3 a y(2) by (auto intro!: need_dig_gives gives_Some)
  qed
qed

lemma cmp_swap:
  assumes "mpz_wf a" "mpz_wf b"
  shows "mpn_cmp (dig a) (dig b) < 0 \<longleftrightarrow> nval (dig a) < nval (dig b)"
    "nval (dig a) \<le> nval (dig b) \<Longrightarrow> length (dig a) \<le> length (dig b)"
proof -
  note d = mpz_wfD [OF assms(1)] mpz_wfD [OF assms(2)]
  show "mpn_cmp (dig a) (dig b) < 0 \<longleftrightarrow> nval (dig a) < nval (dig b)"
    using mpn_cmp_sgn [OF d(2,6,1,5)] by (auto simp: sgn_if)
  show "nval (dig a) \<le> nval (dig b) \<Longrightarrow> length (dig a) \<le> length (dig b)"
    using normalised_length_le [OF d(2,5)] by simp
qed

text \<open>The two cases of an addition of magnitudes, with the larger one first.\<close>

lemma magnitude_sum:
  assumes "mpz_wf a" "mpz_wf b" "nval (dig b) \<le> nval (dig a)" "neg a = neg b" "\<not> fixed_dig dest"
    and "v = signed_val n (dig a) + signed_val n (dig b)"
  shows "gives (mpz_need_dig dest (length (dig a) + 1) \<bind> (\<lambda>dest.
      let ds = mpn_add (dig a) (dig b) in Some (dest\<lparr>dig := ds, neg := (n \<and> ds \<noteq> [])\<rparr>))) v"
proof -
  note d = mpz_wfD [OF assms(1)] mpz_wfD [OF assms(2)]
  note le = cmp_swap(2) [OF assms(2,1,3)]
  note s = mpn_add_correct [OF d(1,5) le] mpn_add_length [OF le] mpn_add_normalised [OF d(1,5) le d(2)]
  show ?thesis using s assms(5,6) unfolding Let_def
    by (intro need_dig_gives gives_Some) (auto simp: signed_val_def)
qed

lemma magnitude_diff:
  assumes "mpz_wf a" "mpz_wf b" "nval (dig b) \<le> nval (dig a)" "\<not> fixed_dig dest"
    and "v = signed_val n (dig a) - signed_val n (dig b)"
  shows "gives (mpz_need_dig dest (length (dig a)) \<bind> (\<lambda>dest.
      let ds = mpn_sub (dig a) (dig b) in Some (dest\<lparr>dig := ds, neg := (n \<and> ds \<noteq> [])\<rparr>))) v"
proof -
  note d = mpz_wfD [OF assms(1)] mpz_wfD [OF assms(2)]
  note s = mpn_sub_correct [OF d(1,5) cmp_swap(2) [OF assms(2,1,3)] assms(3)]
  show ?thesis using s assms(3-5) unfolding Let_def
    by (intro need_dig_gives gives_Some) (auto simp: signed_val_def)
qed

lemma mpz_add_gives:
  assumes "\<not> fixed_dig dest" "mpz_wf lhs" "mpz_wf rhs"
  shows "gives (mpz_add_inpl dest lhs rhs) (mpz_val lhs + mpz_val rhs)"
proof -
  obtain a b where ab: "(a, b) = (if mpn_cmp (dig lhs) (dig rhs) < 0 then (rhs, lhs) else (lhs, rhs))"
    by (metis surj_pair)
  then have wf: "mpz_wf a" "mpz_wf b" and le: "nval (dig b) \<le> nval (dig a)"
    and v: "mpz_val lhs + mpz_val rhs = mpz_val a + mpz_val b"
    using cmp_swap(1) [OF assms(2,3)] assms(2,3) by (auto split: if_splits)
  note mpz = mpz_add_inpl_def ab [symmetric] Let_def prod.case v
  show ?thesis
  proof (cases "neg a = neg b")
    case True
    then have "mpz_val a + mpz_val b = signed_val (neg a) (dig a) + signed_val (neg a) (dig b)"
      by (simp add: mpz_val_def)
    with magnitude_sum [OF wf le True assms(1)] True show ?thesis unfolding mpz by (simp add: Let_def)
  next
    case False
    then have "mpz_val a + mpz_val b = signed_val (neg a) (dig a) - signed_val (neg a) (dig b)"
      by (simp add: mpz_val_def signed_val_def)
    with magnitude_diff [OF wf le assms(1)] False show ?thesis unfolding mpz by (simp add: Let_def)
  qed
qed

lemma mpz_sub_gives:
  assumes "\<not> fixed_dig dest" "mpz_wf lhs" "mpz_wf rhs"
  shows "gives (mpz_sub_inpl dest lhs rhs) (mpz_val lhs - mpz_val rhs)"
proof -
  obtain a b n where ab: "(a, b, n) = (if mpn_cmp (dig lhs) (dig rhs) < 0 then (rhs, lhs, True) else (lhs, rhs, False))"
    by (metis prod_cases3)
  then have wf: "mpz_wf a" "mpz_wf b" and le: "nval (dig b) \<le> nval (dig a)"
    and v: "mpz_val lhs - mpz_val rhs = (if n then mpz_val b - mpz_val a else mpz_val a - mpz_val b)"
    using cmp_swap(1) [OF assms(2,3)] assms(2,3) by (auto split: if_splits)
  define sg where "sg = (if n then \<not> neg a else neg a)"
  note mpz = mpz_sub_inpl_def ab [symmetric] Let_def prod.case v
  have sgn: "(if ds = [] then False else if n then \<not> neg a else neg a) = (sg \<and> ds \<noteq> [])" for ds :: "nat list"
    by (simp add: sg_def)
  show ?thesis
  proof (cases "neg a \<noteq> neg b")
    case True
    then have eq: "(if n then mpz_val b - mpz_val a else mpz_val a - mpz_val b)
        = signed_val sg (dig a) + signed_val sg (dig b)"
      by (auto simp: mpz_val_def signed_val_def sg_def)
    have "gives (mpz_need_dig dest (length (dig a) + 1) \<bind> (\<lambda>dest.
      let ds = mpn_add (dig a) (dig b) in Some (dest\<lparr>dig := ds, neg := (sg \<and> ds \<noteq> [])\<rparr>)))
      (signed_val sg (dig a) + signed_val sg (dig b))"
    proof -
      note d = mpz_wfD [OF wf(1)] mpz_wfD [OF wf(2)] and l = cmp_swap(2) [OF wf(2,1) le]
      note s = mpn_add_correct [OF d(1,5) l] mpn_add_length [OF l] mpn_add_normalised [OF d(1,5) l d(2)]
      show ?thesis using s assms(1) unfolding Let_def
        by (intro need_dig_gives gives_Some) (auto simp: signed_val_def)
    qed
    with True show ?thesis unfolding mpz eq sgn by (simp add: Let_def Option.bind_assoc)
  next
    case False
    then have eq: "(if n then mpz_val b - mpz_val a else mpz_val a - mpz_val b)
        = signed_val sg (dig a) - signed_val sg (dig b)"
      by (auto simp: mpz_val_def signed_val_def sg_def)
    have "gives (mpz_need_dig dest (length (dig a)) \<bind> (\<lambda>dest.
      let ds = mpn_sub (dig a) (dig b) in Some (dest\<lparr>dig := ds, neg := (sg \<and> ds \<noteq> [])\<rparr>)))
      (signed_val sg (dig a) - signed_val sg (dig b))"
      using magnitude_diff [OF wf le assms(1) refl] .
    with False show ?thesis unfolding mpz eq sgn by (simp add: Let_def Option.bind_assoc)
  qed
qed

lemma mpz_mul_gives:
  assumes "\<not> fixed_dig dest" "mpz_wf lhs" "mpz_wf rhs"
  shows "gives (mpz_mul_inpl dest lhs rhs) (mpz_val lhs * mpz_val rhs)"
proof (cases "dig lhs = [] \<or> dig rhs = []")
  case True
  then have "mpz_val lhs * mpz_val rhs = 0" using mpz_wf_val(1) assms by auto
  then show ?thesis unfolding mpz_mul_inpl_def if_P [OF True]
    using mpz_set_from_int_gives [OF assms(1), of 0] by (simp only: simp_thms) simp
next
  case False
  note d = mpz_wfD [OF assms(2)] mpz_wfD [OF assms(3)]
  let ?f = "\<lambda>dest. mpn_mul (replicate (alloc dest) 0) (dig lhs) (dig rhs) \<bind>
    (\<lambda>(buf, n). Some (dest\<lparr>dig := take n buf, neg := (neg lhs \<noteq> neg rhs)\<rparr>))"
  have "gives (mpz_need_dig dest (length (dig lhs) + length (dig rhs)) \<bind> ?f) (mpz_val lhs * mpz_val rhs)"
  proof (rule need_dig_gives [OF assms(1)])
    fix a
    assume a: "length (dig lhs) + length (dig rhs) \<le> a"
    obtain r m where r: "mpn_mul (replicate a 0) (dig lhs) (dig rhs) = Some (r, m)"
      "m \<le> length (dig lhs) + length (dig rhs)" "nval (take m r) = nval (dig lhs) * nval (dig rhs)"
      "nok (take m r)" "normalised (take m r)" "length (take m r) = m"
      using mpn_mul_correct [OF d(1,5,2,6) _ _ a] False by blast
    have "0 < nval (take m r)" using False nval_0_iff [OF d(2)] nval_0_iff [OF d(6)] by (simp add: r(3))
    then have "take m r \<noteq> []" by (metis dval.simps(1) less_irrefl)
    then show "gives (?f (dest\<lparr>alloc := a\<rparr>)) (mpz_val lhs * mpz_val rhs)"
      using r a assms(1) by (auto intro!: gives_Some simp: signed_val_def mpz_val_def)
  qed
  with False show ?thesis by (simp add: mpz_mul_inpl_def)
qed

lemma mpz_shl_gives:
  assumes "\<not> fixed_dig dest" "mpz_wf lhs" "n < 2 ^ 32 - 15"
  shows "gives (mpz_shl_inpl dest lhs n) (mpz_val lhs * 2 ^ n)"
proof (cases "dig lhs = [] \<or> n = 0")
  case True
  then have "mpz_val lhs * 2 ^ n = mpz_val lhs" using mpz_wf_val(1) [OF assms(2)] by auto
  then show ?thesis unfolding mpz_shl_inpl_def if_P [OF True] using mpz_set_gives [OF assms(1,2)] by (simp only: simp_thms)
next
  case False
  note d = mpz_wfD [OF assms(2)]
  have n: "0 < n" using False by simp
  note s = mpn_shl_correct [OF d(1) n]
  have u: "u32 (n + DIG_SIZE - 1) = n + DIG_SIZE - 1" using assms(3) by (intro u32_id) simp
  have "0 < nval (mpn_shl (dig lhs) n)" using s(1) nval_0_iff [OF d(2)] False by simp
  then have "mpn_shl (dig lhs) n \<noteq> []" by auto
  then show ?thesis using s False assms(1) unfolding mpz_shl_inpl_def u
    by (auto intro!: need_dig_gives gives_Some simp: signed_val_def mpz_val_def)
qed

lemma round_up_correct:
  assumes "nok src"
  shows "mpz_shr_round_up src n = of_bool (nval src mod 2 ^ n \<noteq> 0)"
proof -
  let ?w = "n div DIG_SIZE" and ?p = "n mod DIG_SIZE"
  let ?L = "nval (take ?w src)" and ?H = "nval (drop ?w src)"
  have n: "n = DIG_SIZE * ?w + ?p" by simp
  have p: "(2::nat) ^ n = DIG_BASE ^ ?w * 2 ^ ?p"
    by (subst n) (simp only: power_add power_mult, simp)
  have L0: "?L = 0 \<longleftrightarrow> \<not> (\<exists>d \<in> set (take ?w src). d \<noteq> 0)"
    using dval_eq_0_iff [of DIG_BASE "take ?w src"] by auto
  show ?thesis
  proof (cases "?w < length src")
    case True
    have v: "nval src = ?L + DIG_BASE ^ ?w * ?H" using dval_take_drop [of DIG_BASE src ?w] True by simp
    have dr: "drop ?w src = src ! ?w # drop (Suc ?w) src" using True by (simp add: Cons_nth_drop_Suc)
    have "(2::nat) ^ ?p dvd DIG_BASE" using le_imp_power_dvd [of ?p 16 "2::nat"] by simp
    then have "?H mod 2 ^ ?p = src ! ?w mod 2 ^ ?p"
    proof -
      assume dv: "(2::nat) ^ ?p dvd DIG_BASE"
      have "DIG_BASE * nval (drop (Suc ?w) src) mod 2 ^ ?p = 0"
        using dvd_mult2 [OF dv] by (rule dvd_imp_mod_0)
      then show ?thesis unfolding dr dval.simps by (subst mod_add_eq [symmetric]) simp
    qed
    moreover have "src ! ?w AND (2 ^ ?p - 1) = src ! ?w mod 2 ^ ?p"
      by (rule and_mask_nat)
    moreover have "nval src mod 2 ^ n = ?L + DIG_BASE ^ ?w * (?H mod 2 ^ ?p)"
    proof -
      have "?L < DIG_BASE ^ ?w" using dval_less [OF digs_ok_take [OF assms], of ?w] True by simp
      then show ?thesis unfolding p v by (simp add: mod_mult2_eq)
    qed
    ultimately show ?thesis using True L0 unfolding mpz_shr_round_up_def Let_def by auto
  next
    case False
    have "nval src < DIG_BASE ^ length src" using assms by (rule dval_less)
    also have "\<dots> \<le> DIG_BASE ^ ?w" using False by (intro power_increasing) auto
    also have "\<dots> \<le> 2 ^ n" unfolding p by simp
    finally have "nval src mod 2 ^ n = ?L" using False by simp
    with False L0 show ?thesis unfolding mpz_shr_round_up_def Let_def by auto
  qed
qed

text \<open>The right shift rounds towards minus infinity when the destination is a different object.\<close>

lemma floor_shift:
  fixes m p :: nat
  assumes "0 < p"
  shows "- int (m div p + of_bool (m mod p \<noteq> 0)) = - int m div int p"
  using assms by (simp add: zdiv_zminus1_eq_if zdiv_int flip: zmod_int)

lemma mpz_shr_gives:
  assumes "\<not> fixed_dig dest" "mpz_wf lhs"
  shows "gives (mpz_shr_inpl False dest lhs n) (mpz_val lhs div 2 ^ n)"
proof (cases "dig lhs = [] \<or> n = 0")
  case True
  then have "mpz_val lhs div 2 ^ n = mpz_val lhs" using mpz_wf_val(1) [OF assms(2)] by auto
  then show ?thesis unfolding mpz_shr_inpl_def if_P [OF True] using mpz_set_gives [OF assms] by (simp only: simp_thms)
next
  case False
  note d = mpz_wfD [OF assms(2)]
  note s = mpn_shr_correct [OF d(1,2), of n]
  let ?ds = "mpn_shr (dig lhs) n" and ?m = "nval (dig lhs)"
  have ru: "mpz_shr_round_up (dig lhs) n \<noteq> 0 \<longleftrightarrow> ?m mod 2 ^ n \<noteq> 0"
    using round_up_correct [OF d(1)] by simp
  have m0: "0 < ?m" using False nval_0_iff [OF d(2)] by simp
  have pos: "int (?m div 2 ^ n) = int ?m div 2 ^ n" by (simp add: zdiv_int)
  note fl = floor_shift [of "2 ^ n" ?m, simplified]
  let ?f = "\<lambda>dest. let dest = dest\<lparr>dig := ?ds, neg := neg lhs\<rparr> in
     if neg dest \<and> mpz_shr_round_up (if False then dig dest else dig lhs) n \<noteq> 0
     then (if dig dest = [] then Some (dest\<lparr>dig := [1]\<rparr>)
           else Some (dest\<lparr>dig := mpn_add (dig dest) [1]\<rparr>))
     else Some dest"
  have "gives (mpz_need_dig dest (length (dig lhs)) \<bind> ?f) (mpz_val lhs div 2 ^ n)"
  proof (rule need_dig_gives [OF assms(1)])
    fix a
    assume a: "length (dig lhs) \<le> a" "2 \<le> a"
    consider "\<not> neg lhs" | "neg lhs" "?m mod 2 ^ n = 0" | "neg lhs" "?m mod 2 ^ n \<noteq> 0" "?ds = []"
      | "neg lhs" "?m mod 2 ^ n \<noteq> 0" "?ds \<noteq> []" by blast
    then show "gives (?f (dest\<lparr>alloc := a\<rparr>)) (mpz_val lhs div 2 ^ n)"
    proof cases
      case 1
      then show ?thesis using s a assms(1) pos
        by (auto intro!: gives_Some simp: signed_val_def mpz_val_def)
    next
      case 2
      have "?m div 2 ^ n \<noteq> 0" using 2(2) m0 by (metis div_mult_mod_eq add_0_right mult_0 less_irrefl)
      then have "?ds \<noteq> []" using s(1) by auto
      then show ?thesis using 2 s a assms(1) ru fl
        by (auto intro!: gives_Some simp: signed_val_def mpz_val_def)
    next
      case 3
      then have "?m div 2 ^ n = 0" using s(1) by simp
      then show ?thesis using 3 a assms(1) ru fl
        by (auto intro!: gives_Some simp: signed_val_def mpz_val_def normalised_def)
    next
      case 4
      then have le: "length [Suc 0] \<le> length ?ds" by (simp add: Suc_le_eq)
      note ad = mpn_add_correct [OF s(2) one_digit(1) le] mpn_add_normalised [OF s(2) one_digit(1) le s(3)]
      have "nval (mpn_add ?ds [Suc 0]) = ?m div 2 ^ n + 1" using ad(1) s(1) one_digit(3) by simp
      moreover from this have "mpn_add ?ds [Suc 0] \<noteq> []" by auto
      moreover have "length (mpn_add ?ds [Suc 0]) \<le> length (dig lhs)"
      proof (rule nval_length_le [OF ad(3)])
        have "?m div 2 ^ n + 1 \<le> ?m"
        proof -
          have "(2::nat) \<le> 2 ^ n" using False by (cases n) auto
          moreover have "2 ^ n * (?m div 2 ^ n) < ?m"
            using 4(2) mult_div_mod_eq [of "2 ^ n" ?m] by linarith
          ultimately have "2 * (?m div 2 ^ n) < ?m"
            using mult_le_mono1 [of 2 "2 ^ n" "?m div 2 ^ n"] by linarith
          then show ?thesis by linarith
        qed
        also have "\<dots> < DIG_BASE ^ length (dig lhs)" using d(1) by (rule dval_less)
        finally show "nval (mpn_add ?ds [Suc 0]) < DIG_BASE ^ length (dig lhs)"
          using ad(1) s(1) one_digit(3) by simp
      qed
      ultimately show ?thesis using 4 ad a assms(1) ru fl
        by (auto intro!: gives_Some simp: signed_val_def mpz_val_def)
    qed
  qed
  with False show ?thesis by (simp add: mpz_shr_inpl_def Let_def)
qed

section \<open>Bitwise operations and division\<close>

text \<open>The operand with more digits first; the operations are symmetric.\<close>

lemma longer_first:
  assumes "(a, b) = (if length (dig lhs) < length (dig rhs) then (rhs, lhs) else (lhs, rhs))"
    and "mpz_wf lhs" "mpz_wf rhs"
  shows "mpz_wf a" "mpz_wf b" "length (dig b) \<le> length (dig a)"
    "mpz_val lhs AND mpz_val rhs = mpz_val a AND mpz_val b"
    "mpz_val lhs OR mpz_val rhs = mpz_val a OR mpz_val b"
    "mpz_val lhs XOR mpz_val rhs = mpz_val a XOR mpz_val b"
  using assms by (auto split: if_splits simp: and.commute or.commute xor.commute)

lemma mpz_wf_neg_nonzero: "mpz_wf z \<Longrightarrow> neg z \<Longrightarrow> nval (dig z) \<noteq> 0"
  using nval_0_iff [OF mpz_wfD(2)] mpz_wfD(4) by blast

lemma sign_of_result:
  assumes "int m = \<bar>v\<bar>" "n \<longleftrightarrow> v < 0" "m = nval ds"
  shows "signed_val n ds = v" "n \<Longrightarrow> ds \<noteq> []"
  using assms by (auto simp: signed_val_def)

lemma mpz_and_gives:
  assumes "\<not> fixed_dig dest" "mpz_wf lhs" "mpz_wf rhs"
  shows "gives (mpz_and_inpl dest lhs rhs) (mpz_val lhs AND mpz_val rhs)"
proof -
  obtain a b where ab: "(a, b) = (if length (dig lhs) < length (dig rhs) then (rhs, lhs) else (lhs, rhs))"
    by (metis surj_pair)
  note l = longer_first [OF ab assms(2,3)]
  note d = mpz_wfD [OF l(1)] mpz_wfD [OF l(2)]
  have ci: "(if neg a = neg b then of_bool (neg a) else 0) = (of_bool (neg a \<and> neg b) :: nat)" by auto
  note r = mpn_and_neg_correct [of "dig a" "dig b" "neg a" "neg b", OF d(1,5) l(3) mpz_wf_neg_nonzero [OF l(1)]
      mpz_wf_neg_nonzero [OF l(2)],
      folded mpz_val_def, folded ci]
  have "(neg a \<and> neg b) \<longleftrightarrow> mpz_val a AND mpz_val b < 0"
    using mpz_wf_val(2) [OF l(1)] mpz_wf_val(2) [OF l(2)] by (simp add: and_negative_int_iff)
  note sg = sign_of_result [OF r(1) this refl]
  have "length (dig a) + (if neg a = neg b then of_bool (neg a) else 0) \<le> length (dig a) + of_bool (neg a \<or> neg b)"
    by auto
  then have "length (mpn_and_neg (dig a) (dig b) (if neg a = neg b then of_bool (neg a) else 0)
      (of_bool (neg a)) (of_bool (neg b))) \<le> length (dig a) + of_bool (neg a \<or> neg b)" using r(4) by linarith
  then show ?thesis using r(2,3) sg assms(1) unfolding mpz_and_inpl_def ab [symmetric] Let_def prod.case l(4)
    by (intro need_dig_gives gives_Some) simp_all
qed

lemma mpz_or_gives:
  assumes "\<not> fixed_dig dest" "mpz_wf lhs" "mpz_wf rhs"
  shows "gives (mpz_or_inpl dest lhs rhs) (mpz_val lhs OR mpz_val rhs)"
proof -
  obtain a b where ab: "(a, b) = (if length (dig lhs) < length (dig rhs) then (rhs, lhs) else (lhs, rhs))"
    by (metis surj_pair)
  note l = longer_first [OF ab assms(2,3)]
  note d = mpz_wfD [OF l(1)] mpz_wfD [OF l(2)]
  obtain r where r: "mpn_or_neg (dig a) (dig b) (of_bool (neg a \<or> neg b)) (of_bool (neg a)) (of_bool (neg b)) = Some r"
    "int (nval r) = \<bar>mpz_val a OR mpz_val b\<bar>" "nok r" "normalised r" "length r \<le> length (dig a)"
    using mpn_or_neg_correct [of "dig a" "dig b" "neg a" "neg b", OF d(1,5) l(3) mpz_wf_neg_nonzero [OF l(1)] mpz_wf_neg_nonzero [OF l(2)],
      folded mpz_val_def] by blast
  have "(neg a \<or> neg b) \<longleftrightarrow> mpz_val a OR mpz_val b < 0"
    using mpz_wf_val(2) [OF l(1)] mpz_wf_val(2) [OF l(2)] by (simp add: or_negative_int_iff)
  note sg = sign_of_result [OF r(2) this refl]
  show ?thesis using r sg assms(1) l(5) unfolding mpz_or_inpl_def ab [symmetric] Let_def prod.case r(1) bind.bind_lunit l(5)
    by (intro need_dig_gives gives_Some) simp_all
qed

lemma mpz_xor_gives:
  assumes "\<not> fixed_dig dest" "mpz_wf lhs" "mpz_wf rhs"
  shows "gives (mpz_xor_inpl dest lhs rhs) (mpz_val lhs XOR mpz_val rhs)"
proof -
  obtain a b where ab: "(a, b) = (if length (dig lhs) < length (dig rhs) then (rhs, lhs) else (lhs, rhs))"
    by (metis surj_pair)
  note l = longer_first [OF ab assms(2,3)]
  note d = mpz_wfD [OF l(1)] mpz_wfD [OF l(2)]
  note r = mpn_xor_neg_correct [of "dig a" "dig b" "neg a" "neg b", OF d(1,5) l(3) mpz_wf_neg_nonzero [OF l(1)]
      mpz_wf_neg_nonzero [OF l(2)],
      folded mpz_val_def]
  have "(neg a \<noteq> neg b) \<longleftrightarrow> mpz_val a XOR mpz_val b < 0"
    using mpz_wf_val(2) [OF l(1)] mpz_wf_val(2) [OF l(2)] by (simp add: xor_negative_int_iff)
  note sg = sign_of_result [OF r(1) this refl]
  have "length (dig a) + of_bool (neg a \<noteq> neg b) \<le> length (dig a) + of_bool (neg a \<or> neg b)" by auto
  then have "length (mpn_xor_neg (dig a) (dig b) (of_bool (neg a \<noteq> neg b)) (of_bool (\<not> neg a)) (of_bool (\<not> neg b)))
      \<le> length (dig a) + of_bool (neg a \<or> neg b)" using r(4) by linarith
  then show ?thesis using r(2,3) sg assms(1) unfolding mpz_xor_inpl_def ab [symmetric] Let_def prod.case l(6)
    by (intro need_dig_gives gives_Some) simp_all
qed

text \<open>Floor division on signs and magnitudes, as the code adjusts quotient and remainder.\<close>

lemma floor_divmod_signs:
  fixes a b :: nat
  assumes "0 < b"
  shows "a mod b = 0 \<Longrightarrow> - int a div int b = - int (a div b)"
    "a mod b = 0 \<Longrightarrow> - int a mod int b = 0"
    "a mod b = 0 \<Longrightarrow> int a mod - int b = 0"
    "a mod b \<noteq> 0 \<Longrightarrow> - int a div int b = - int (a div b) - 1"
    "a mod b \<noteq> 0 \<Longrightarrow> - int a mod int b = int b - int (a mod b)"
    "a mod b \<noteq> 0 \<Longrightarrow> int a mod - int b = int (a mod b) - int b"
proof -
  have m: "int a mod int b = int (a mod b)" "int a div int b = int (a div b)" by (simp_all add: zdiv_int zmod_int)
  show "a mod b = 0 \<Longrightarrow> - int a div int b = - int (a div b)" "a mod b \<noteq> 0 \<Longrightarrow> - int a div int b = - int (a div b) - 1"
    using assms by (simp_all only: zdiv_zminus1_eq_if m of_nat_eq_0_iff if_True if_False refl)
  show "a mod b = 0 \<Longrightarrow> - int a mod int b = 0" "a mod b \<noteq> 0 \<Longrightarrow> - int a mod int b = int b - int (a mod b)"
    "a mod b = 0 \<Longrightarrow> int a mod - int b = 0" "a mod b \<noteq> 0 \<Longrightarrow> int a mod - int b = int (a mod b) - int b"
    using assms by (simp_all only: zmod_zminus1_eq_if zmod_zminus2_eq_if m of_nat_eq_0_iff if_True if_False refl)
qed

lemma mpz_divmod_signed:
  assumes "\<not> fixed_dig dq" "\<not> fixed_dig dr" "mpz_wf lhs" "mpz_wf rhs" "mpz_val rhs \<noteq> 0"
  shows "\<exists>z1 z2. mpz_divmod_inpl same dq dr lhs rhs =
      (let z1' = z1\<lparr>neg := dig z1 \<noteq> []\<rparr>
       in if (if same then neg z2 else neg lhs) \<noteq> neg rhs
          then if \<not> mpz_is_zero z2
               then do {
                 mpzone \<leftarrow> mpz_init_from_int (- 1);
                 q \<leftarrow> mpz_add_inpl z1' z1' mpzone;
                 r \<leftarrow> mpz_add_inpl z2 z2 rhs;
                 Some (q, r) }
               else Some (z1', z2)
          else Some (z1, z2))
    \<and> mpz_wf z1 \<and> \<not> fixed_dig z1 \<and> \<not> neg z1 \<and> nval (dig z1) = nval (dig lhs) div nval (dig rhs)
    \<and> mpz_wf z2 \<and> \<not> fixed_dig z2 \<and> neg z2 = (neg lhs \<and> dig z2 \<noteq> []) \<and> nval (dig z2) = nval (dig lhs) mod nval (dig rhs)"
proof -
  note d = mpz_wfD [OF assms(3)] mpz_wfD [OF assms(4)]
  have z: "\<not> mpz_is_zero rhs" "dig rhs \<noteq> []" using mpz_wf_val(1,3) [OF assms(4)] assms(5) by auto
  let ?n = "length (dig lhs) + 1"
  obtain aq where aq: "mpz_need_dig dq ?n = Some (dq\<lparr>alloc := aq\<rparr>)" "?n \<le> aq"
    using mpz_need_dig_ok [OF assms(1)] by blast
  obtain ar where ar: "mpz_need_dig dr ?n = Some (dr\<lparr>alloc := ar\<rparr>)" "?n \<le> ar" "2 \<le> ar"
    using mpz_need_dig_ok [OF assms(2)] by blast
  have st: "mpz_set (dr\<lparr>alloc := ar\<rparr>) lhs = Some (dr\<lparr>alloc := ar, neg := neg lhs, dig := dig lhs\<rparr>)"
    using ar(2,3) by (auto simp: mpz_set_def mpz_need_dig_def)
  obtain r q where dm: "mpn_div (dig lhs) (dig rhs) (replicate ?n 0) = Some (r, q)" "nok r" "nok q"
    "normalised r" "normalised q" "nval r = nval (dig lhs) mod nval (dig rhs)"
    "nval q = nval (dig lhs) div nval (dig rhs)" "length q \<le> Suc (length (dig lhs))"
    using mpn_div_correct [OF d(1,2,5,6) z(2), of "replicate ?n 0"] by (auto simp: digs_ok_replicate)
  have "nval r \<le> nval (dig lhs)" using dm(6) by simp
  then have lr: "length r \<le> length (dig lhs)" using normalised_length_le [OF dm(4) d(1)] by simp
  let ?z1 = "dq\<lparr>alloc := aq, neg := False, dig := q\<rparr>"
  let ?z2 = "dr\<lparr>alloc := ar, dig := r, neg := (neg lhs \<and> r \<noteq> [])\<rparr>"
  have "mpz_divmod_inpl same dq dr lhs rhs =
      (let z1' = ?z1\<lparr>neg := dig ?z1 \<noteq> []\<rparr>
       in if (if same then neg ?z2 else neg lhs) \<noteq> neg rhs
          then if \<not> mpz_is_zero ?z2
               then do {
                 mpzone \<leftarrow> mpz_init_from_int (- 1);
                 q \<leftarrow> mpz_add_inpl z1' z1' mpzone;
                 r \<leftarrow> mpz_add_inpl ?z2 ?z2 rhs;
                 Some (q, r) }
               else Some (z1', ?z2)
          else Some (?z1, ?z2))"
    unfolding mpz_divmod_inpl_def if_not_P [OF z(1)] aq(1) ar(1) bind.bind_lunit st using dm(1)
    by (simp add: Let_def)
  moreover have "mpz_wf ?z1" "mpz_wf ?z2" using dm aq(2) ar(2) lr by (auto simp: mpz_wf_def)
  ultimately show ?thesis using dm(6,7) assms(1,2) by (intro exI [of _ ?z1] exI [of _ ?z2]) auto
qed

lemma gives_SomeI: "mpz_wf z \<Longrightarrow> \<not> fixed_dig z \<Longrightarrow> mpz_val z = v \<Longrightarrow> gives (Some z) v"
  by (simp add: gives_def)

lemma mpz_divmod_gives:
  assumes "\<not> fixed_dig dq" "\<not> fixed_dig dr" "mpz_wf lhs" "mpz_wf rhs" "mpz_val rhs \<noteq> 0"
  shows "\<exists>q r. mpz_divmod_inpl same dq dr lhs rhs = Some (q, r)
    \<and> gives (Some r) (mpz_val lhs mod mpz_val rhs)
    \<and> gives (Some q) (if same \<and> mpz_val lhs < 0 \<and> mpz_val lhs mod mpz_val rhs = 0
                      then - (mpz_val lhs div mpz_val rhs) else mpz_val lhs div mpz_val rhs)"
proof -
  let ?a = "nval (dig lhs)" and ?b = "nval (dig rhs)"
  obtain z1 z2 where eq: "mpz_divmod_inpl same dq dr lhs rhs =
      (let z1' = z1\<lparr>neg := dig z1 \<noteq> []\<rparr>
       in if (if same then neg z2 else neg lhs) \<noteq> neg rhs
          then if \<not> mpz_is_zero z2
               then do {
                 mpzone \<leftarrow> mpz_init_from_int (- 1);
                 q \<leftarrow> mpz_add_inpl z1' z1' mpzone;
                 r \<leftarrow> mpz_add_inpl z2 z2 rhs;
                 Some (q, r) }
               else Some (z1', z2)
          else Some (z1, z2))"
    and z1: "mpz_wf z1" "\<not> fixed_dig z1" "\<not> neg z1" "nval (dig z1) = ?a div ?b"
    and z2: "mpz_wf z2" "\<not> fixed_dig z2" "neg z2 = (neg lhs \<and> dig z2 \<noteq> [])" "nval (dig z2) = ?a mod ?b"
    using mpz_divmod_signed [OF assms, of same] by blast
  define z1' where "z1' = z1\<lparr>neg := dig z1 \<noteq> []\<rparr>"
  have z1': "mpz_wf z1'" "\<not> fixed_dig z1'" "mpz_val z1' = - int (?a div ?b)"
    using z1 by (auto simp: z1'_def mpz_wf_def mpz_val_simps simp flip: z1(4))
  have v1: "mpz_val z1 = int (?a div ?b)" using z1 by (simp add: mpz_val_simps)
  have v2: "mpz_val z2 = (if neg lhs then - int (?a mod ?b) else int (?a mod ?b))"
    using z2 by (auto simp: mpz_val_simps)
  have zero: "mpz_is_zero z2 \<longleftrightarrow> ?a mod ?b = 0"
    using mpz_wf_val(3) [OF z2(1)] v2 by (auto split: if_splits)
  have b: "0 < ?b" using mpz_wf_val(1) [OF assms(4)] nval_0_iff [OF mpz_wfD(2) [OF assms(4)]] assms(5) by simp
  have lhs: "mpz_val lhs = (if neg lhs then - int ?a else int ?a)"
    and rhs: "mpz_val rhs = (if neg rhs then - int ?b else int ?b)" by (simp_all add: mpz_val_simps)
  have a0: "neg lhs \<longleftrightarrow> mpz_val lhs < 0" using mpz_wf_val(2) [OF assms(3)] .
  have m: "int ?a mod int ?b = int (?a mod ?b)" "int ?a div int ?b = int (?a div ?b)"
    by (simp_all add: zdiv_int zmod_int)
  note fl = floor_divmod_signs [OF b]
  show ?thesis
  proof (cases "?a mod ?b = 0")
    case True
    then have n2: "\<not> neg z2" using z2(3) zero by (simp add: mpz_is_zero_def)
    have mz: "mpz_val lhs mod mpz_val rhs = 0" unfolding lhs rhs using fl(2,3) [OF True] m True by simp
    have dz: "mpz_val lhs div mpz_val rhs = (if neg lhs = neg rhs then int (?a div ?b) else - int (?a div ?b))"
      unfolding lhs rhs using fl(1) [OF True] m by (auto simp: div_minus_right)
    have r: "gives (Some z2) (mpz_val lhs mod mpz_val rhs)"
      using z2(1,2) v2 True by (intro gives_SomeI) (auto simp: mz)
    have q: "gives (Some (if (if same then neg z2 else neg lhs) \<noteq> neg rhs then z1' else z1))
       (if same \<and> mpz_val lhs < 0 \<and> mpz_val lhs mod mpz_val rhs = 0
        then - (mpz_val lhs div mpz_val rhs) else mpz_val lhs div mpz_val rhs)"
      using z1 z1' v1 n2 mz unfolding dz a0 [symmetric] by (intro gives_SomeI) auto
    have "mpz_divmod_inpl same dq dr lhs rhs
        = Some (if (if same then neg z2 else neg lhs) \<noteq> neg rhs then z1' else z1, z2)"
      unfolding eq z1'_def [symmetric] Let_def using True zero by simp
    with r q show ?thesis by blast
  next
    case False
    then have n2: "(if same then neg z2 else neg lhs) = neg lhs" using z2(3) zero by (simp add: mpz_is_zero_def)
    have mz: "mpz_val lhs mod mpz_val rhs \<noteq> 0"
    proof
      assume "mpz_val lhs mod mpz_val rhs = 0"
      then have "mpz_val rhs dvd mpz_val lhs" by (rule mod_0_imp_dvd)
      then have "\<bar>mpz_val rhs\<bar> dvd \<bar>mpz_val lhs\<bar>" by simp
      then have "int ?b dvd int ?a" unfolding mpz_val_abs .
      then show False using False by (simp add: dvd_eq_mod_eq_0 m)
    qed
    have mv: "mpz_val lhs mod mpz_val rhs =
        (if neg lhs = neg rhs then mpz_val z2 else mpz_val z2 + mpz_val rhs)"
      unfolding lhs rhs v2 using fl(5,6) [OF False] m by auto
    have dv: "mpz_val lhs div mpz_val rhs =
        (if neg lhs = neg rhs then int (?a div ?b) else - int (?a div ?b) - 1)"
      unfolding lhs rhs using fl(4) [OF False] m by (auto simp: div_minus_right)
    show ?thesis
    proof (cases "neg lhs = neg rhs")
      case True
      then have "mpz_divmod_inpl same dq dr lhs rhs = Some (z1, z2)"
        unfolding eq Let_def n2 by simp
      moreover have "gives (Some z2) (mpz_val lhs mod mpz_val rhs)"
        using z2 True by (intro gives_SomeI) (auto simp: mv)
      moreover have "gives (Some z1) (mpz_val lhs div mpz_val rhs)"
        using z1 v1 True by (intro gives_SomeI) (auto simp: dv)
      ultimately show ?thesis using mz by simp
    next
      case sg: False
      obtain one where one: "mpz_init_from_int (- 1) = Some one" "mpz_wf one" "mpz_val one = - 1"
        using mpz_set_from_int_gives [OF mpz_wf_zero(3), of "- 1"]
        unfolding mpz_init_from_int_def by (auto elim: givesE)
      obtain q where q: "mpz_add_inpl z1' z1' one = Some q" "mpz_wf q" "\<not> fixed_dig q"
        "mpz_val q = mpz_val z1' + mpz_val one"
        using mpz_add_gives [OF z1'(2,1) one(2)] by (auto elim: givesE)
      obtain r where r: "mpz_add_inpl z2 z2 rhs = Some r" "mpz_wf r" "\<not> fixed_dig r"
        "mpz_val r = mpz_val z2 + mpz_val rhs"
        using mpz_add_gives [OF z2(2,1) assms(4)] by (auto elim: givesE)
      have "mpz_divmod_inpl same dq dr lhs rhs = Some (q, r)"
        unfolding eq z1'_def [symmetric] Let_def n2 using sg False zero one(1) q(1) r(1) by simp
      moreover have "gives (Some r) (mpz_val lhs mod mpz_val rhs)"
        using r sg by (intro gives_SomeI) (auto simp: mv)
      moreover have "gives (Some q) (mpz_val lhs div mpz_val rhs)"
        using q sg z1' one(3) by (intro gives_SomeI) (auto simp: dv)
      ultimately show ?thesis using mz by simp
    qed
  qed
qed

section \<open>Powers by repeated squaring\<close>

lemma low_bit: "ds \<noteq> [] \<Longrightarrow> ds ! 0 AND 1 \<noteq> 0 \<longleftrightarrow> odd (nval ds)"
  by (cases ds) (auto simp: and_one_eq odd_iff_mod_2_eq_one)

lemma mpz_pow_loop_gives:
  assumes "mpz_wf dest" "\<not> fixed_dig dest" "mpz_wf x" "\<not> fixed_dig x" "nok n" "normalised n"
  shows "gives (mpz_pow_loop dest x n) (mpz_val dest * mpz_val x ^ nval n)"
  using assms
proof (induction "nval n" arbitrary: dest x n rule: less_induct)
  case less
  note n = less.prems(5,6)
  show ?case
  proof (cases "n = []")
    case True
    then show ?thesis using less.prems by (simp add: mpz_pow_loop.simps gives_SomeI)
  next
    case False
    let ?m = "mpn_shr n 1" and ?v = "mpz_val dest * (if odd (nval n) then mpz_val x else 1)"
    note s = mpn_shr_correct [OF n, of 1]
    have pos: "0 < nval n" using nval_0_iff [OF n(2)] False by simp
    have half: "nval ?m = nval n div 2" using s(1) by simp
    have pw: "mpz_val x ^ nval n = (if odd (nval n) then mpz_val x else 1) * (mpz_val x * mpz_val x) ^ (nval n div 2)"
      by (auto elim!: oddE evenE simp: power_add power_mult power2_eq_square)
    have "gives (if odd (nval n) then mpz_mul_inpl dest dest x else Some dest) ?v"
      using mpz_mul_gives [OF less.prems(2,1,3)] less.prems by (auto intro: gives_SomeI)
    then have "gives (do {
        dest \<leftarrow> (if odd (nval n) then mpz_mul_inpl dest dest x else Some dest);
        if ?m = [] then Some dest else do { x \<leftarrow> mpz_mul_inpl x x x; mpz_pow_loop dest x ?m } })
      (mpz_val dest * mpz_val x ^ nval n)"
    proof (rule gives_bind)
      fix d
      assume d: "mpz_wf d" "\<not> fixed_dig d" "mpz_val d = ?v"
      show "gives (if ?m = [] then Some d else do { x \<leftarrow> mpz_mul_inpl x x x; mpz_pow_loop d x ?m })
        (mpz_val dest * mpz_val x ^ nval n)"
      proof (cases "?m = []")
        case True
        then have "nval n div 2 = 0" using half by simp
        then show ?thesis using True d pw by (auto intro: gives_SomeI)
      next
        case m: False
        have "gives (do { x \<leftarrow> mpz_mul_inpl x x x; mpz_pow_loop d x ?m }) (mpz_val dest * mpz_val x ^ nval n)"
        proof (rule gives_bind [OF mpz_mul_gives [OF less.prems(4,3,3)]])
          fix y
          assume y: "mpz_wf y" "\<not> fixed_dig y" "mpz_val y = mpz_val x * mpz_val x"
          have "gives (mpz_pow_loop d y ?m) (mpz_val d * mpz_val y ^ nval ?m)"
            using less.hyps [of ?m d y] half pos d y s(2,3) by simp
          then show "gives (mpz_pow_loop d y ?m) (mpz_val dest * mpz_val x ^ nval n)"
            unfolding pw half d(3) y(3) by (simp only: mult.assoc)
        qed
        with m show ?thesis by simp
      qed
    qed
    then show ?thesis unfolding mpz_pow_loop.simps [of dest x n] if_not_P [OF False] low_bit [OF False]
      by (simp only: Let_def)
  qed
qed

lemma mpz_clone_gives: "mpz_wf z \<Longrightarrow> dig z \<noteq> [] \<Longrightarrow> \<exists>x. mpz_clone z = Some x \<and> mpz_wf x \<and> \<not> fixed_dig x
    \<and> dig x = dig z \<and> mpz_val x = mpz_val z"
  by (auto simp: mpz_clone_def mpz_wf_def mpz_val_def simp flip: length_greater_0_conv)

text \<open>\<open>0 ** 0\<close> is 0 for the code, which tests the base first.\<close>

lemma mpz_pow_gives:
  assumes "\<not> fixed_dig dest" "mpz_wf lhs" "mpz_wf rhs"
  shows "gives (mpz_pow_inpl dest lhs rhs)
    (if mpz_val lhs = 0 \<or> mpz_val rhs < 0 then 0 else mpz_val lhs ^ nat (mpz_val rhs))"
proof -
  note z = mpz_wf_val [OF assms(2)] mpz_wf_val [OF assms(3)]
  have s0: "gives (mpz_set_from_int dest 0) 0" "gives (mpz_set_from_int dest 1) 1"
    using mpz_set_from_int_gives [OF assms(1)] by simp_all
  consider "mpz_val lhs = 0 \<or> mpz_val rhs < 0" | "mpz_val lhs \<noteq> 0" "mpz_val rhs = 0"
    | "mpz_val lhs \<noteq> 0" "0 < mpz_val rhs" by linarith
  then show ?thesis
  proof cases
    case 3
    then obtain x n where xn: "mpz_clone lhs = Some x" "mpz_wf x" "\<not> fixed_dig x" "mpz_val x = mpz_val lhs"
      "mpz_clone rhs = Some n" "mpz_wf n" "dig n = dig rhs" "mpz_val n = mpz_val rhs"
      using mpz_clone_gives [OF assms(2)] mpz_clone_gives [OF assms(3)] z by fastforce
    have nv: "nval (dig n) = nat (mpz_val rhs)"
      using 3 mpz_val_abs [of rhs] by (simp add: xn(7))
    have "gives (mpz_set_from_int dest 1 \<bind> (\<lambda>dest. mpz_pow_loop dest x (dig n)))
      (mpz_val lhs ^ nat (mpz_val rhs))"
    proof (rule gives_bind [OF s0(2)])
      fix d
      assume d: "mpz_wf d" "\<not> fixed_dig d" "mpz_val d = 1"
      show "gives (mpz_pow_loop d x (dig n)) (mpz_val lhs ^ nat (mpz_val rhs))"
        using mpz_pow_loop_gives [OF d(1,2) xn(2,3) mpz_wfD(1,2) [OF xn(6)]] by (simp add: d(3) xn(4) nv)
    qed
    with 3 z xn show ?thesis by (simp add: mpz_pow_inpl_def)
  qed (use z s0 in \<open>auto simp: mpz_pow_inpl_def\<close>)
qed

lemma mult_pow_mod:
  fixes a b m :: int
  shows "a * (b mod m) ^ k mod m = a * b ^ k mod m"
  by (metis mod_mult_right_eq power_mod)

lemma divmod_rem_gives:
  assumes "mpz_wf z" "\<not> fixed_dig z" "\<not> fixed_dig quo" "mpz_wf m" "mpz_val m \<noteq> 0"
  obtains q r where "mpz_divmod_inpl True quo z z m = Some (q, r)" "\<not> fixed_dig q" "mpz_wf r" "\<not> fixed_dig r"
    "mpz_val r = mpz_val z mod mpz_val m"
proof -
  obtain q r where "mpz_divmod_inpl True quo z z m = Some (q, r)"
    "gives (Some r) (mpz_val z mod mpz_val m)" "\<exists>v. gives (Some q) v"
    using mpz_divmod_gives [OF assms(3,2,1,4,5), of True] by blast
  then show thesis using that by (auto simp: gives_def)
qed

lemma mpz_pow3_loop_gives:
  assumes "mpz_wf dest" "\<not> fixed_dig dest" "mpz_wf x" "\<not> fixed_dig x" "nok n" "normalised n" "n \<noteq> []"
    and "\<not> fixed_dig quo" "mpz_wf m" "mpz_val m \<noteq> 0"
  shows "gives (mpz_pow3_loop dest x n quo m) (mpz_val dest * mpz_val x ^ nval n mod mpz_val m)"
  using assms(1-8)
proof (induction "nval n" arbitrary: dest x n quo rule: less_induct)
  case less
  note n = less.prems(5,6) and md = assms(9,10)
  let ?h = "mpn_shr n 1" and ?M = "mpz_val m"
  note s = mpn_shr_correct [OF n, of 1]
  have pos: "0 < nval n" using nval_0_iff [OF n(2)] less.prems(7) by simp
  have half: "nval ?h = nval n div 2" using s(1) by simp
  have h0: "?h = [] \<longleftrightarrow> nval n div 2 = 0" using nval_0_iff [OF s(3)] half by simp
  have pw: "mpz_val x ^ nval n = (if odd (nval n) then mpz_val x else 1) * (mpz_val x * mpz_val x) ^ (nval n div 2)"
    by (auto elim!: oddE evenE simp: power_add power_mult power2_eq_square)
  define v where "v = (if odd (nval n) then mpz_val dest * mpz_val x mod ?M else mpz_val dest)"
  have "\<exists>q d. (if odd (nval n) then mpz_mul_inpl dest dest x \<bind> (\<lambda>dest. mpz_divmod_inpl True quo dest dest m)
      else Some (quo, dest)) = Some (q, d) \<and> \<not> fixed_dig q \<and> mpz_wf d \<and> \<not> fixed_dig d \<and> mpz_val d = v"
  proof (cases "odd (nval n)")
    case True
    obtain p where p: "mpz_mul_inpl dest dest x = Some p" "mpz_wf p" "\<not> fixed_dig p"
      "mpz_val p = mpz_val dest * mpz_val x"
      using mpz_mul_gives [OF less.prems(2,1,3)] by (auto elim: givesE)
    obtain q r where "mpz_divmod_inpl True quo p p m = Some (q, r)" "\<not> fixed_dig q" "mpz_wf r" "\<not> fixed_dig r"
      "mpz_val r = mpz_val p mod ?M" using divmod_rem_gives [OF p(2,3) less.prems(8) md] .
    then show ?thesis using True p by (auto simp: v_def)
  qed (use less.prems in \<open>auto simp: v_def\<close>)
  then obtain q d where d: "(if odd (nval n) then mpz_mul_inpl dest dest x \<bind> (\<lambda>dest. mpz_divmod_inpl True quo dest dest m)
      else Some (quo, dest)) = Some (q, d)" "\<not> fixed_dig q" "mpz_wf d" "\<not> fixed_dig d" "mpz_val d = v" by blast
  have eq: "mpz_pow3_loop dest x n quo m = (if ?h = [] then Some d
      else mpz_mul_inpl x x x \<bind> (\<lambda>x. mpz_divmod_inpl True q x x m \<bind> (\<lambda>(quo, x). mpz_pow3_loop d x ?h quo m)))"
    unfolding mpz_pow3_loop.simps [of dest x n] if_not_P [OF less.prems(7)] low_bit [OF less.prems(7)] d(1)
    by (simp add: Let_def)
  show ?case
  proof (cases "?h = []")
    case True
    then have "nval n = 1" using h0 pos by auto
    then show ?thesis using True d(3-5) eq by (auto simp: v_def intro: gives_SomeI)
  next
    case False
    obtain p where p: "mpz_mul_inpl x x x = Some p" "mpz_wf p" "\<not> fixed_dig p" "mpz_val p = mpz_val x * mpz_val x"
      using mpz_mul_gives [OF less.prems(4,3,3)] by (auto elim: givesE)
    obtain q' y where y: "mpz_divmod_inpl True q p p m = Some (q', y)" "\<not> fixed_dig q'" "mpz_wf y" "\<not> fixed_dig y"
      "mpz_val y = mpz_val p mod ?M" using divmod_rem_gives [OF p(2,3) d(2) md] .
    have "gives (mpz_pow3_loop d y ?h q' m) (mpz_val d * mpz_val y ^ nval ?h mod ?M)"
      using less.hyps [of ?h d y q'] half pos d(3,4) y(2-4) s(2,3) False by simp
    moreover have "mpz_val d * mpz_val y ^ nval ?h mod ?M = mpz_val dest * mpz_val x ^ nval n mod ?M"
      unfolding d(5) y(5) p(4) half pw v_def
      by (cases "odd (nval n)") (simp_all only: mod_mult_left_eq mult_pow_mod if_True if_False mult.assoc [symmetric] simp_thms mult_1_right)
    ultimately show ?thesis unfolding eq using False p(1) y(1) by simp
  qed
qed

text \<open>
  Modular exponentiation.  The code returns 1 for a zero exponent (whatever the modulus is,
  but for the modulus 1) and 0 for a zero base or a negative exponent.
\<close>

lemma mpz_pow3_gives:
  assumes "\<not> fixed_dig dest" "mpz_wf lhs" "mpz_wf rhs" "mpz_wf m" "mpz_val m \<noteq> 0"
  shows "gives (mpz_pow3_inpl dest lhs rhs m)
    (if mpz_val lhs = 0 \<or> mpz_val rhs < 0 \<or> \<bar>mpz_val m\<bar> = 1 then 0
     else if mpz_val rhs = 0 then 1
     else mpz_val lhs ^ nat (mpz_val rhs) mod mpz_val m)"
proof -
  note z = mpz_wf_val [OF assms(2)] mpz_wf_val [OF assms(3)]
  have s0: "gives (mpz_set_from_int dest 0) 0" "gives (mpz_set_from_int dest 1) 1"
    using mpz_set_from_int_gives [OF assms(1)] by simp_all
  have one: "length (dig m) = 1 \<and> dig m ! 0 = 1 \<longleftrightarrow> \<bar>mpz_val m\<bar> = 1"
  proof
    assume "length (dig m) = 1 \<and> dig m ! 0 = 1"
    then have "dig m = [1]" by (cases "dig m") auto
    then show "\<bar>mpz_val m\<bar> = 1" unfolding mpz_val_abs by simp
  next
    assume "\<bar>mpz_val m\<bar> = 1"
    then have "nval (dig m) = nval [1]" unfolding mpz_val_abs by simp
    then have "dig m = [1]"
      using normalised_inj [of "dig m" "[1]" DIG_BASE] mpz_wfD [OF assms(4)] one_digit by simp
    then show "length (dig m) = 1 \<and> dig m ! 0 = 1" by simp
  qed
  consider "mpz_val lhs = 0 \<or> mpz_val rhs < 0 \<or> \<bar>mpz_val m\<bar> = 1"
    | "mpz_val lhs \<noteq> 0" "\<bar>mpz_val m\<bar> \<noteq> 1" "mpz_val rhs = 0"
    | "mpz_val lhs \<noteq> 0" "\<bar>mpz_val m\<bar> \<noteq> 1" "0 < mpz_val rhs" by linarith
  then show ?thesis
  proof cases
    case 3
    then obtain x n where xn: "mpz_clone lhs = Some x" "mpz_wf x" "\<not> fixed_dig x" "mpz_val x = mpz_val lhs"
      "mpz_clone rhs = Some n" "mpz_wf n" "dig n = dig rhs" "mpz_val n = mpz_val rhs" "dig rhs \<noteq> []"
      using mpz_clone_gives [OF assms(2)] mpz_clone_gives [OF assms(3)] z by fastforce
    have nv: "nval (dig n) = nat (mpz_val rhs)"
      using 3 mpz_val_abs [of rhs] by (simp add: xn(7))
    have "gives (mpz_set_from_int dest 1 \<bind> (\<lambda>dest. mpz_pow3_loop dest x (dig n) mpz_init_zero m))
      (mpz_val lhs ^ nat (mpz_val rhs) mod mpz_val m)"
    proof (rule gives_bind [OF s0(2)])
      fix d
      assume d: "mpz_wf d" "\<not> fixed_dig d" "mpz_val d = 1"
      show "gives (mpz_pow3_loop d x (dig n) mpz_init_zero m) (mpz_val lhs ^ nat (mpz_val rhs) mod mpz_val m)"
        using mpz_pow3_loop_gives [OF d(1,2) xn(2,3) mpz_wfD(1,2) [OF xn(6)] _ mpz_wf_zero(3) assms(4,5)] xn(9)
        by (simp add: d(3) xn(4,7) nv [unfolded xn(7)])
    qed
    moreover have nc: "\<not> (dig lhs = [] \<or> neg rhs \<or> length (dig m) = 1 \<and> dig m ! 0 = 1)"
      using 3 z one by auto
    ultimately show ?thesis using 3 xn unfolding mpz_pow3_inpl_def if_not_P [OF nc] by simp
  qed (use z s0 one in \<open>auto simp: mpz_pow3_inpl_def\<close>)
qed

end
