(* ===== verification/MpzConv.thy ===== *)
theory MpzConv
  imports Mpz
begin

text \<open>
  Conversions of \<^verbatim>\<open>py/mpz.c\<close> between integers and floats, strings, bytes and machine integers, with
  the size computation \<^verbatim>\<open>mp_int_format_size\<close> of \<^verbatim>\<open>py/objint.c\<close>.  Characters and bytes are natural
  numbers below 256, and a \<^verbatim>\<open>char *\<close> that may be null is an option.  A destination array of a
  conversion is the list of the bytes written to it, and a write past the length that the caller gave
  is \<open>None\<close>.
\<close>

section \<open>Into an integer\<close>

text \<open>
  \<open>mpz_set_from_float\<close> on the three fields of an IEEE double: \<open>sg\<close>, \<open>ex\<close> (11 bits) and \<open>fr\<close>
  (52 bits).  The loop over the digits runs \<open>n\<close> times, \<open>n\<close> being \<open>dig_cnt - dig_ind\<close>.
\<close>

fun mpz_float_digits :: "nat \<Rightarrow> nat \<Rightarrow> nat list" where
  "mpz_float_digits 0 frc = []"
| "mpz_float_digits (Suc n) frc = frc mod DIG_BASE # mpz_float_digits n (frc div DIG_BASE)"

definition mpz_set_from_float :: "mpz_t \<Rightarrow> bool \<Rightarrow> nat \<Rightarrow> nat \<Rightarrow> mpz_t option" where
  "mpz_set_from_float z sg ex fr =
     (let z = z\<lparr>neg := sg\<rparr>
      in if ex = 0 then mpz_set_from_int z 0
         else if ex = 2 ^ 11 - 1 then mpz_set_from_int z 0
         else if ex < 1023 then mpz_set_from_int z 0
         else if ex = 1023 then mpz_set_from_int z 1
         else
           let adj_exp = ex - 1023;
               dig_cnt = (adj_exp + 1 + (DIG_SIZE - 1)) div DIG_SIZE;
               rem = adj_exp mod DIG_SIZE;
               frc = fr OR 2 ^ 52;
               (shft, dig_ind, frc) =
                 (if adj_exp < 52 then (0, 0, frc div 2 ^ (52 - adj_exp))
                  else (nat ((int rem - 52) mod 2 ^ 32) mod DIG_SIZE, (adj_exp - 52) div DIG_SIZE, frc))
           in do {
             z \<leftarrow> mpz_need_dig z dig_cnt;
             let (mid, frc) =
               (if shft \<noteq> 0 then ([(frc * 2 ^ shft) mod 2 ^ 64 mod DIG_BASE], frc div 2 ^ (DIG_SIZE - shft))
                else ([], frc));
             let top = mpz_float_digits (dig_cnt - (dig_ind + length mid)) frc;
             if dig_ind + length mid \<le> dig_cnt
               then Some (z\<lparr>dig := replicate dig_ind 0 @ mid @ top\<rparr>) else None })"

text \<open>The value of a character as a digit, or \<open>None\<close> where the loop breaks.\<close>

definition mpz_char_digit :: "nat \<Rightarrow> nat \<Rightarrow> nat option" where
  "mpz_char_digit base v =
     (if 48 \<le> v \<and> v \<le> 57 then (if v - 48 \<ge> base then None else Some (v - 48))
      else if 65 \<le> v \<and> v \<le> 90 then (if v - 55 \<ge> base then None else Some (v - 55))
      else if 97 \<le> v \<and> v \<le> 122 then (if v - 87 \<ge> base then None else Some (v - 87))
      else None)"

fun mpz_str_loop :: "nat \<Rightarrow> nat list \<Rightarrow> nat list \<Rightarrow> nat list \<times> nat" where
  "mpz_str_loop base ds [] = (ds, 0)"
| "mpz_str_loop base ds (c # cs) =
     (case mpz_char_digit base c of
        None \<Rightarrow> (ds, 0)
      | Some v \<Rightarrow> (let (r, n) = mpz_str_loop base (mpn_mul_dig_add_dig ds base v) cs in (r, Suc n)))"

definition mpz_set_from_str :: "mpz_t \<Rightarrow> nat list \<Rightarrow> bool \<Rightarrow> nat \<Rightarrow> (mpz_t \<times> nat) option" where
  "mpz_set_from_str z str n base =
     (if base \<le> 36 then do {
        z \<leftarrow> mpz_need_dig z (length str * 8 div DIG_SIZE + 1);
        let (ds, cur) = mpz_str_loop base [] str;
        Some (z\<lparr>neg := n, dig := ds\<rparr>, cur) }
      else None)"

text \<open>
  \<open>mpz_set_from_bytes\<close>: the inner loop collects bytes until the digit is full or the
  buffer is used up (for 16-bit digits that is at most two bytes, the accumulator is zero and
  no bits are left over at its start).
\<close>

fun mpz_bytes_digit :: "nat \<Rightarrow> nat \<Rightarrow> nat list \<Rightarrow> nat \<times> nat list" where
  "mpz_bytes_digit d num_bits [] = (d, [])"
| "mpz_bytes_digit d num_bits (b # buf) =
     (if num_bits < DIG_SIZE
      then mpz_bytes_digit (u16 (d OR (b * 2 ^ num_bits))) (num_bits + 8) buf
      else (d, b # buf))"

lemma mpz_bytes_digit_shorter: "length (snd (mpz_bytes_digit d n bs)) \<le> length bs"
  by (induction d n bs rule: mpz_bytes_digit.induct) auto

function mpz_bytes_digits :: "nat list \<Rightarrow> nat list" where
  "mpz_bytes_digits [] = []"
| "mpz_bytes_digits (b # buf) =
     fst (mpz_bytes_digit 0 0 (b # buf)) mod DIG_BASE
       # mpz_bytes_digits (snd (mpz_bytes_digit 0 0 (b # buf)))"
  by pat_completeness auto

termination mpz_bytes_digits
  by (relation "measure length")
    (auto simp: less_Suc_eq_le mpz_bytes_digit_shorter)

definition mpz_set_from_bytes :: "mpz_t \<Rightarrow> bool \<Rightarrow> nat list \<Rightarrow> mpz_t option" where
  "mpz_set_from_bytes z big_endian buf = do {
     z \<leftarrow> mpz_need_dig z ((length buf * 8 + DIG_SIZE - 1) div DIG_SIZE);
     let ds = mpz_bytes_digits (if big_endian then rev buf else buf);
     Some (z\<lparr>neg := False, dig := mpn_remove_trailing_zeros ds\<rparr>) }"

section \<open>Out of an integer\<close>

text \<open>The loops over the digits from the most significant one: \<^verbatim>\<open>val = (val << DIG_SIZE) | *d\<close>.\<close>

fun mpz_hash_loop :: "nat \<Rightarrow> nat list \<Rightarrow> nat" where
  "mpz_hash_loop val [] = val"
| "mpz_hash_loop val (d # ds) = mpz_hash_loop (u32 (val * DIG_BASE) OR d) ds"

definition mpz_hash :: "mpz_t \<Rightarrow> int" where
  "mpz_hash z =
     (let val = mpz_hash_loop 0 (rev (dig z))
      in s32 (if neg z then - int val else int val))"

fun mpz_checked_loop :: "nat \<Rightarrow> nat \<Rightarrow> nat list \<Rightarrow> nat option" where
  "mpz_checked_loop lim val [] = Some val"
| "mpz_checked_loop lim val (d # ds) =
     (if val > lim then None else mpz_checked_loop lim (u32 (val * DIG_BASE) OR d) ds)"

text \<open>\<^verbatim>\<open>~MP_OBJ_WORD_MSBIT_HIGH\<close> is \<open>0x7fffffff\<close>.\<close>

definition mpz_as_int_checked :: "mpz_t \<Rightarrow> int option" where
  "mpz_as_int_checked i =
     (case mpz_checked_loop (2147483647 div 2 ^ DIG_SIZE) 0 (rev (dig i)) of
        None \<Rightarrow> None
      | Some val \<Rightarrow> Some (s32 (if neg i then - int val else int val)))"

definition mpz_as_uint_checked :: "mpz_t \<Rightarrow> nat option" where
  "mpz_as_uint_checked i =
     (if neg i then None
      else mpz_checked_loop (2147483647 div 2 ^ (DIG_SIZE - 1)) 0 (rev (dig i)))"

text \<open>
  \<open>mpz_as_bytes\<close>.  \<open>out\<close> are the bytes written so far, in the order of writing (upwards from
  \<open>buf\<close>, or downwards from \<open>buf + len\<close> for big endian); the Boolean result says that the buffer
  is full and the function returns.  A write to a buffer that has no room is \<open>None\<close>: the test
  for the end comes after the write.
\<close>

fun mpz_bytes_inner :: "bool \<Rightarrow> nat \<Rightarrow> nat \<Rightarrow> nat \<Rightarrow> nat \<Rightarrow> nat list \<Rightarrow> (bool \<times> nat \<times> nat \<times> nat \<times> nat list) option" where
  "mpz_bytes_inner n len bits d carry out =
     (if 8 \<le> bits
      then let val = u16 d;
               val = (if n then u16 (255 - val mod 256 + carry) else val);
               carry = (if n then val div 256 else carry)
           in if len \<le> length out then None
              else let out = out @ [u8 val]
                   in if length out = len then Some (True, bits, d, carry, out)
                      else mpz_bytes_inner n len (bits - 8) (d div 256) carry out
      else Some (False, bits, d, carry, out))"

declare mpz_bytes_inner.simps [simp del]

fun mpz_bytes_outer :: "bool \<Rightarrow> nat \<Rightarrow> nat \<Rightarrow> nat \<Rightarrow> nat \<Rightarrow> nat list \<Rightarrow> nat list \<Rightarrow> (bool \<times> nat list) option" where
  "mpz_bytes_outer n len bits d carry out [] = Some (False, out)"
| "mpz_bytes_outer n len bits d carry out (zd # zdig) =
     (case mpz_bytes_inner n len (bits + DIG_SIZE) (u32 (d * DIG_BASE) OR zd) carry out of
        None \<Rightarrow> None
      | Some (True, bits, d, carry, out) \<Rightarrow> Some (True, out)
      | Some (False, bits, d, carry, out) \<Rightarrow> mpz_bytes_outer n len bits d carry out zdig)"

definition mpz_as_bytes :: "mpz_t \<Rightarrow> bool \<Rightarrow> nat \<Rightarrow> nat list option" where
  "mpz_as_bytes z big_endian len =
     (case mpz_bytes_outer (neg z) len 0 0 1 [] (dig z) of
        None \<Rightarrow> None
      | Some (full, out) \<Rightarrow>
          let out = (if full then out else out @ replicate (len - length out) (if neg z then 255 else 0))
          in Some (if big_endian then rev out else out))"

text \<open>
  \<open>mpz_as_str_inpl\<close>.  The digits are divided by the base, most significant digit first, until
  they are all zero; the string grows from its least significant character and is reversed at
  the end.  \<open>last_comma\<close> is an index into the string.
\<close>

fun mpz_str_div :: "nat \<Rightarrow> nat \<Rightarrow> nat list \<Rightarrow> nat list \<times> nat" where
  "mpz_str_div base a [] = ([], a)"
| "mpz_str_div base a (d # ds) =
     (let a = u32 (a * DIG_BASE) OR d;
          (qs, r) = mpz_str_div base (a mod base) ds
      in (u16 (a div base) # qs, r))"

definition mpz_digit_char :: "nat \<Rightarrow> nat \<Rightarrow> nat" where
  "mpz_digit_char base_char a =
     (let a = a + 48 in if a > 57 then a + base_char - 57 - 1 else a)"

partial_function (option) mpz_str_digits ::
  "nat \<Rightarrow> nat \<Rightarrow> nat \<Rightarrow> nat list \<Rightarrow> nat list \<Rightarrow> nat \<Rightarrow> nat list option" where
  "mpz_str_digits base base_char comma ds s last_comma =
     (let s1 = s @ [mpz_digit_char base_char (snd (mpz_str_div base 0 (rev ds)))];
          ds1 = rev (fst (mpz_str_div base 0 (rev ds)));
          is_done = list_all (\<lambda>d. d = 0) ds1;
          sep = (comma \<noteq> 0 \<and> length s1 - last_comma = 3);
          s2 = (if sep then s1 @ [comma] else s1);
          last2 = (if sep then length s2 else last_comma)
      in if is_done then Some s2
         else mpz_str_digits base base_char comma ds1 s2 last2)"

definition mpz_as_str_inpl ::
  "mpz_t \<Rightarrow> nat \<Rightarrow> nat list option \<Rightarrow> nat \<Rightarrow> nat \<Rightarrow> nat list option" where
  "mpz_as_str_inpl i base prefix base_char comma =
     (if \<not> (2 \<le> base \<and> base \<le> 32) then None
      else let p = (case prefix of None \<Rightarrow> [] | Some p \<Rightarrow> p)
           in if dig i = [] then Some (p @ [48])
              else do {
                s \<leftarrow> mpz_str_digits base base_char comma (dig i) [] 0;
                let s = s @ rev p;
                let s = (if neg i then s @ [45] else s);
                Some (rev s) })"

definition log_base2_floor :: "nat list" where
  "log_base2_floor = [0, 1, 1, 2, 2, 2, 2, 3, 3, 3, 3, 3, 3, 3, 3, 4]"

definition mp_int_format_size :: "nat \<Rightarrow> nat \<Rightarrow> nat list option \<Rightarrow> nat \<Rightarrow> nat option" where
  "mp_int_format_size num_bits base prefix comma =
     (if 2 \<le> base \<and> base \<le> 16
      then let num_digits = num_bits div log_base2_floor ! (base - 1) + 1;
               num_commas = (if comma \<noteq> 0 then num_digits div 3 else 0);
               prefix_len = (case prefix of None \<Rightarrow> 0 | Some p \<Rightarrow> length p)
           in Some (num_digits + num_commas + prefix_len + 2)
      else None)"

section \<open>Hash and checked conversion\<close>

lemma shift_or_digit:
  assumes "d < DIG_BASE"
  shows "u32 (v * DIG_BASE) OR d = u32 (v * DIG_BASE + d)"
proof -
  have e: "u32 (v * DIG_BASE) = (v mod DIG_BASE) * DIG_BASE"
    using mult_mod_left [of v DIG_BASE DIG_BASE] by (simp add: u32_def)
  have "v mod DIG_BASE \<le> DIG_BASE - 1" by simp
  then have "v mod DIG_BASE * DIG_BASE \<le> (DIG_BASE - 1) * DIG_BASE" by (rule mult_le_mono1)
  then have "u32 (v mod DIG_BASE * DIG_BASE + d) = v mod DIG_BASE * DIG_BASE + d"
    using assms by (intro u32_id) simp
  moreover have "u32 (v * DIG_BASE + d) = u32 (u32 (v * DIG_BASE) + d)"
    by (simp only: u32_def mod_add_left_eq)
  ultimately have "u32 (v * DIG_BASE + d) = v mod DIG_BASE * DIG_BASE + d" unfolding e by simp
  then show ?thesis unfolding e using or_disjoint_nat [of d 16 "v mod DIG_BASE"] assms by simp
qed

lemma mpz_hash_loop_correct:
  "nok ds \<Longrightarrow> mpz_hash_loop (u32 v) ds = u32 (v * DIG_BASE ^ length ds + nval (rev ds))"
proof (induction ds arbitrary: v)
  case (Cons d ds)
  have "u32 (u32 v * DIG_BASE) OR d = u32 (v * DIG_BASE + d)"
    using shift_or_digit [of d "u32 v"] Cons.prems
    unfolding u32_def by (metis digs_ok_simps(2) mod_add_left_eq mod_mult_left_eq)
  with Cons show ?case by (simp add: digit_simps algebra_simps)
qed simp

lemma mpz_hash_correct:
  assumes "mpz_wf z"
  shows "mpz_hash z = s32 (mpz_val z)"
proof -
  have l: "mpz_hash_loop 0 (rev (dig z)) = u32 (nval (dig z))"
    using mpz_hash_loop_correct [of "rev (dig z)" 0] mpz_wfD(1) [OF assms]
    by (simp add: digs_ok_def u32_def)
  have "s32 (int (u32 x)) = s32 (int x)" "s32 (- int (u32 x)) = s32 (- int x)" for x
    by (simp_all add: s32_def u32_def zmod_int mod_simps)
  then show ?thesis unfolding mpz_hash_def l Let_def mpz_val_simps by simp
qed

lemma mpz_checked_loop_correct:
  assumes "nok ds" "val < Suc lim * DIG_BASE" "Suc lim * DIG_BASE \<le> 4294967296"
  shows "mpz_checked_loop lim val ds =
    (let v = val * DIG_BASE ^ length ds + nval (rev ds) in if v < Suc lim * DIG_BASE then Some v else None)"
  using assms(1,2)
proof (induction ds arbitrary: val)
  case (Cons d ds)
  let ?v = "val * DIG_BASE ^ length (d # ds) + nval (rev (d # ds))"
  have v: "?v = (val * DIG_BASE + d) * DIG_BASE ^ length ds + nval (rev ds)"
    by (simp add: digit_simps algebra_simps)
  have d: "d < DIG_BASE" using Cons.prems by simp
  show ?case
  proof (cases "val > lim")
    case True
    have "Suc lim * DIG_BASE \<le> val * DIG_BASE" using True by (intro mult_le_mono1) simp
    also have "\<dots> \<le> (val * DIG_BASE + d) * 1" by simp
    also have "\<dots> \<le> (val * DIG_BASE + d) * DIG_BASE ^ length ds" by (intro mult_le_mono2) simp
    also have "\<dots> \<le> ?v" unfolding v by simp
    finally show ?thesis using True by (simp only: Let_def mpz_checked_loop.simps if_True if_False leD not_less if_not_P)
  next
    case False
    have "val * DIG_BASE + d < (val + 1) * DIG_BASE" using d by simp
    also have "\<dots> \<le> Suc lim * DIG_BASE" using False by (intro mult_le_mono1) simp
    finally have lt: "val * DIG_BASE + d < Suc lim * DIG_BASE" .
    then have "u32 (val * DIG_BASE) OR d = val * DIG_BASE + d"
      using shift_or_digit [OF d, of val] assms(3) by (simp add: u32_id)
    then show ?thesis using False Cons.IH [OF _ lt] Cons.prems(1) unfolding v by simp
  qed
qed simp

lemma mpz_as_int_checked_correct:
  assumes "mpz_wf z"
  shows "mpz_as_int_checked z = (if \<bar>mpz_val z\<bar> < 2 ^ 31 then Some (mpz_val z) else None)"
proof -
  have "nok (rev (dig z))" using mpz_wfD(1) [OF assms] by (simp add: digs_ok_def)
  then have l: "mpz_checked_loop 32767 0 (rev (dig z)) = (if nval (dig z) < 2147483648 then Some (nval (dig z)) else None)"
    using mpz_checked_loop_correct [of "rev (dig z)" 0 32767] by (simp add: Let_def)
  have "s32 (mpz_val z) = mpz_val z" if "nval (dig z) < 2147483648"
    using that by (intro s32_id) (auto simp: mpz_val_simps)
  then show ?thesis using mpz_val_abs [of z] unfolding mpz_as_int_checked_def
    by (auto simp: l mpz_val_simps)
qed

lemma mpz_as_uint_checked_correct:
  assumes "mpz_wf z"
  shows "mpz_as_uint_checked z = (if 0 \<le> mpz_val z \<and> mpz_val z < 2 ^ 32 then Some (nat (mpz_val z)) else None)"
proof -
  have "nok (rev (dig z))" using mpz_wfD(1) [OF assms] by (simp add: digs_ok_def)
  then have l: "mpz_checked_loop 65535 0 (rev (dig z)) = (if nval (dig z) < 4294967296 then Some (nval (dig z)) else None)"
    using mpz_checked_loop_correct [of "rev (dig z)" 0 65535] by (simp add: Let_def)
  show ?thesis using mpz_wf_val(2) [OF assms] unfolding mpz_as_uint_checked_def
    by (auto simp: l mpz_val_simps)
qed

section \<open>Bytes\<close>

text \<open>The first \<open>k\<close> bytes of an integer in two's complement, least significant byte first.\<close>

fun le_bytes :: "nat \<Rightarrow> int \<Rightarrow> nat list" where
  "le_bytes 0 v = []"
| "le_bytes (Suc k) v = nat (v mod 256) # le_bytes k (v div 256)"

lemma length_le_bytes [simp]: "length (le_bytes k v) = k"
  by (induction k arbitrary: v) auto

lemma le_bytes_value: "int (dval 256 (le_bytes k v)) = v mod 256 ^ k"
proof (induction k arbitrary: v)
  case (Suc k)
  have "int (dval 256 (le_bytes (Suc k) v)) = v mod 256 + 256 * (v div 256 mod 256 ^ k)"
    using Suc by simp
  also have "\<dots> = v mod 256 ^ Suc k" by (simp add: zmod_zmult2_eq)
  finally show ?case .
qed simp

lemma le_bytes_ok: "digs_ok 256 (le_bytes k v)"
  by (induction k arbitrary: v) (auto simp: nat_less_iff)

lemma le_bytes_add: "le_bytes (j + k) v = le_bytes j v @ le_bytes k (v div 256 ^ j)"
  by (induction j arbitrary: v) (auto simp: div_mult2_eq zdiv_zmult2_eq)

lemma le_bytes_sign: "le_bytes k (- 1) = replicate k 255" "le_bytes k 0 = replicate k 0"
  by (induction k) auto

lemma le_bytes_take: "take j (le_bytes k v) = le_bytes (min j k) v"
proof (induction j arbitrary: k v)
  case (Suc j)
  then show ?case by (cases k) auto
qed simp

lemma le_bytes_low: "le_bytes k (v + 256 ^ k * w) = le_bytes k v"
proof (induction k arbitrary: v)
  case (Suc k)
  have e: "v + 256 ^ Suc k * w = v + 256 * (256 ^ k * w)" by simp
  have "(v + 256 ^ Suc k * w) mod 256 = v mod 256" "(v + 256 ^ Suc k * w) div 256 = v div 256 + 256 ^ k * w"
    unfolding e by simp_all
  with Suc show ?case by simp
qed simp

text \<open>One byte of the output: \<open>carry - 1 - x\<close> is the complement that is still to be written.\<close>

definition neg_stream :: "bool \<Rightarrow> nat \<Rightarrow> nat \<Rightarrow> int" where
  "neg_stream n carry x = (if n then int carry - 1 - int x else int x)"

lemma neg_stream_byte:
  fixes n :: bool and c x :: nat
  assumes "c \<le> 1"
  defines "v \<equiv> if n then 255 - x mod 256 + c else x mod 256"
    and "c' \<equiv> if n then (255 - x mod 256 + c) div 256 else c"
  shows "nat (neg_stream n c x mod 256) = v mod 256" "neg_stream n c x div 256 = neg_stream n c' (x div 256)" "c' \<le> 1"
proof -
  have le: "x mod 256 \<le> 255" by simp
  show "c' \<le> 1" unfolding c'_def using assms(1) le by auto
  have x: "int x = 256 * int (x div 256) + int (x mod 256)"
    by (metis mult_div_mod_eq of_nat_add of_nat_mult of_nat_numeral)
  define w where "w = 255 - x mod 256 + c"
  have w: "int c - 1 - int x = int w + 256 * (- 1 - int (x div 256))"
    unfolding w_def using le by (subst x) (simp only: of_nat_add of_nat_diff, simp)
  show "nat (neg_stream n c x mod 256) = v mod 256"
  proof (cases n)
    case True
    then have "neg_stream n c x mod 256 = int (w mod 256)"
      unfolding neg_stream_def w by (simp only: if_True mod_mult_self2 zmod_int of_nat_numeral)
    then show ?thesis using True by (simp add: v_def w_def)
  qed (simp add: neg_stream_def v_def nat_mod_distrib)
  show "neg_stream n c x div 256 = neg_stream n c' (x div 256)"
  proof (cases n)
    case True
    then have "neg_stream n c x div 256 = - 1 - int (x div 256) + int (w div 256)"
      unfolding neg_stream_def w by (simp only: if_True div_mult_self2 zdiv_int of_nat_numeral)
    then show ?thesis using True by (simp add: neg_stream_def c'_def w_def)
  qed (simp add: neg_stream_def c'_def zdiv_int)
qed

text \<open>Both bytes of a 16-bit digit, with room for one, or for two and more.\<close>

lemma mpz_bytes_inner_correct:
  assumes "c \<le> 1" "d < DIG_BASE" "length out < len"
  shows "\<exists>full bits d' c'. mpz_bytes_inner n len 16 d c out
      = Some (full, bits, d', c', out @ le_bytes (min 2 (len - length out)) (neg_stream n c d))
    \<and> full = (len - length out \<le> 2)
    \<and> (\<not> full \<longrightarrow> bits = 0 \<and> d' = 0 \<and> c' \<le> 1 \<and> neg_stream n c d div 256 ^ 2 = neg_stream n c' 0)"
proof -
  define byte where "byte c x = (if n then 255 - x mod 256 + c else x mod 256)" for c x :: nat
  define carry where "carry c x = (if n then (255 - x mod 256 + c) div 256 else c)" for c x :: nat
  have st: "mpz_bytes_inner n len (Suc (Suc (Suc (Suc (Suc (Suc (Suc (Suc b)))))))) x c out =
      (if len \<le> length out then None
       else if Suc (length out) = len then Some (True, b + 8, x, carry c x, out @ [byte c x mod 256])
       else mpz_bytes_inner n len b (x div 256) (carry c x) (out @ [byte c x mod 256]))"
    if "x < DIG_BASE" "c \<le> 1" for b x c out
  proof -
    have "u16 x = x" using that by (simp add: u16_id)
    moreover have "255 - x mod 256 + c < 65536" using that(2) by simp
    ultimately show ?thesis
      by (subst mpz_bytes_inner.simps) (simp add: Let_def byte_def carry_def u16_id u8_def)
  qed
  note b = neg_stream_byte [OF assms(1), of n d, folded byte_def carry_def]
  have d2: "d div 256 < DIG_BASE" "d div 256 div 256 = 0" using assms(2) by (auto simp: div_mult2_eq [symmetric])
  note b2 = neg_stream_byte [OF b(3), of n "d div 256", folded byte_def carry_def, unfolded d2(2)]
  have l2: "le_bytes 2 (neg_stream n c d) = [byte c d mod 256, byte (carry c d) (d div 256) mod 256]"
    by (simp add: numeral_2_eq_2 b b2(1))
  have l1: "le_bytes 1 (neg_stream n c d) = [byte c d mod 256]" by (simp add: b(1))
  have nul: "mpz_bytes_inner n len 0 x c out = Some (False, 0, x, c, out)" for x c out
    by (subst mpz_bytes_inner.simps) simp
  have dd: "neg_stream n c d div 256 ^ 2 = neg_stream n (carry (carry c d) (d div 256)) 0"
    using b2(2) b(2) by (simp add: power2_eq_square zdiv_zmult2_eq)
  have s16: "(16::nat) = Suc (Suc (Suc (Suc (Suc (Suc (Suc (Suc 8)))))))" by simp
  have s8: "(8::nat) = Suc (Suc (Suc (Suc (Suc (Suc (Suc (Suc 0)))))))" by simp
  consider "len = Suc (length out)" | "len = Suc (Suc (length out))" | "Suc (Suc (length out)) < len"
    using assms(3) by linarith
  then show ?thesis
  proof cases
    case 1
    then show ?thesis unfolding s16 st [OF assms(2,1)] using l1 by (intro exI [of _ True]) simp
  next
    case 2
    then show ?thesis unfolding s16 st [OF assms(2,1)] using l2 st [OF d2(1) b(3), of 0, folded s8] by (intro exI [of _ True]) simp
  next
    case 3
    then show ?thesis unfolding s16 st [OF assms(2,1)]
      using l2 st [OF d2(1) b(3), of 0, folded s8] d2(2) dd b2(3) nul by simp
  qed
qed

lemma neg_stream_digit:
  assumes "neg_stream n c d div 256 ^ 2 = neg_stream n c' 0"
  shows "neg_stream n c (d + DIG_BASE * Y) div 256 ^ 2 = neg_stream n c' Y"
    "j \<le> 2 \<Longrightarrow> le_bytes j (neg_stream n c (d + DIG_BASE * Y)) = le_bytes j (neg_stream n c d)"
proof -
  have S: "neg_stream n c (d + DIG_BASE * Y) = neg_stream n c d + 256 ^ 2 * (if n then - int Y else int Y)"
    by (simp add: neg_stream_def)
  have "neg_stream n c (d + DIG_BASE * Y) div 256 ^ 2 = neg_stream n c d div 256 ^ 2 + (if n then - int Y else int Y)"
    unfolding S by simp
  then show "neg_stream n c (d + DIG_BASE * Y) div 256 ^ 2 = neg_stream n c' Y"
    unfolding assms by (simp add: neg_stream_def)
  show "le_bytes j (neg_stream n c (d + DIG_BASE * Y)) = le_bytes j (neg_stream n c d)" if "j \<le> 2"
    using le_bytes_take [of j 2] le_bytes_low [of 2 "neg_stream n c d"] that unfolding S by (metis min.absorb1)
qed

lemma mpz_bytes_outer_correct:
  assumes "c \<le> 1" "nok ds" "length out < len"
  shows "\<exists>full out'. mpz_bytes_outer n len 0 0 c out ds = Some (full, out')
    \<and> out' = out @ le_bytes (min (2 * length ds) (len - length out)) (neg_stream n c (nval ds))
    \<and> full = (len - length out \<le> 2 * length ds)
    \<and> (\<not> full \<longrightarrow> (\<exists>c' \<le> 1. neg_stream n c (nval ds) div 256 ^ (2 * length ds) = neg_stream n c' 0))"
  using assms
proof (induction ds arbitrary: c out)
  case Nil
  then show ?case by auto
next
  case (Cons d ds)
  let ?S = "neg_stream n c (nval (d # ds))" and ?r = "len - length out"
  have d: "d < DIG_BASE" using Cons.prems(2) by simp
  obtain full bits d' c' where i: "mpz_bytes_inner n len 16 d c out
      = Some (full, bits, d', c', out @ le_bytes (min 2 ?r) (neg_stream n c d))" "full = (?r \<le> 2)"
    "\<not> full \<Longrightarrow> bits = 0 \<and> d' = 0 \<and> c' \<le> 1 \<and> neg_stream n c d div 256 ^ 2 = neg_stream n c' 0"
    using mpz_bytes_inner_correct [OF Cons.prems(1) d Cons.prems(3)] by blast
  have st: "u32 (0 * DIG_BASE) OR d = d" by (simp add: u32_def)
  show ?case
  proof (cases "?r \<le> 2")
    case True
    have "mpz_bytes_outer n len 0 0 c out (d # ds) = Some (True, out @ le_bytes ?r (neg_stream n c d))"
      using i True st by simp
    moreover have "le_bytes ?r ?S = le_bytes ?r (neg_stream n c d)"
    proof -
      obtain c2 where "neg_stream n c d div 256 ^ 2 = neg_stream n c2 0"
        using mpz_bytes_inner_correct [OF Cons.prems(1) d, of "[]" 3 n] by auto
      from neg_stream_digit(2) [OF this True] show ?thesis by simp
    qed
    ultimately show ?thesis using True by (intro exI [of _ True]) simp
  next
    case False
    with i(3) have c': "bits = 0" "d' = 0" "c' \<le> 1" "neg_stream n c d div 256 ^ 2 = neg_stream n c' 0"
      using i(2) by auto
    let ?out = "out @ le_bytes 2 (neg_stream n c d)"
    have "length ?out < len" using False by simp
    then obtain full2 out' where o: "mpz_bytes_outer n len 0 0 c' ?out ds = Some (full2, out')"
      "out' = ?out @ le_bytes (min (2 * length ds) (?r - 2)) (neg_stream n c' (nval ds))"
      "full2 = (?r - 2 \<le> 2 * length ds)"
      "\<not> full2 \<Longrightarrow> \<exists>c2 \<le> 1. neg_stream n c' (nval ds) div 256 ^ (2 * length ds) = neg_stream n c2 0"
      using Cons.IH [OF c'(3) _ , of ?out] Cons.prems(2) by auto
    note sd = neg_stream_digit(1) [OF c'(4), of "nval ds"] neg_stream_digit(2) [OF c'(4) order_refl, of "nval ds"]
    have "mpz_bytes_outer n len 0 0 c out (d # ds) = Some (full2, out')"
      using i(1,2) False st c' o(1) by simp
    moreover have "out' = out @ le_bytes (min (2 * length (d # ds)) ?r) ?S"
    proof -
      have "min (2 * length (d # ds)) ?r = 2 + min (2 * length ds) (?r - 2)" using False by simp
      then show ?thesis unfolding o(2) using sd by (simp only: le_bytes_add dval.simps append_assoc)
    qed
    moreover have "?S div 256 ^ (2 * length (d # ds)) = neg_stream n c' (nval ds) div 256 ^ (2 * length ds)"
    proof -
      have "?S div 256 ^ (2 * length (d # ds)) = ?S div 256 ^ 2 div 256 ^ (2 * length ds)"
      proof -
        have e: "(256::int) ^ (2 * length (d # ds)) = 256 ^ 2 * 256 ^ (2 * length ds)"
          by simp
        show ?thesis unfolding e by (rule zdiv_zmult2_eq) simp
      qed
      then show ?thesis using sd(1) by simp
    qed
    ultimately show ?thesis using o(3,4) False by auto
  qed
qed

text \<open>
  \<open>mpz_as_bytes\<close> writes the integer in two's complement, truncated to the length asked for.
\<close>

lemma mpz_as_bytes_correct:
  assumes "mpz_wf z" "0 < len"
  shows "mpz_as_bytes z big len =
    Some ((if big then rev else (\<lambda>bs. bs)) (le_bytes len (mpz_val z)))"
proof -
  note d = mpz_wfD [OF assms(1)]
  let ?k = "2 * length (dig z)" and ?n = "neg z"
  have S: "neg_stream ?n 1 (nval (dig z)) = mpz_val z" by (simp add: neg_stream_def mpz_val_simps)
  obtain full out c' where o: "mpz_bytes_outer ?n len 0 0 1 [] (dig z) = Some (full, out)"
    "out = le_bytes (min ?k len) (mpz_val z)" "full = (len \<le> ?k)"
    "\<not> full \<Longrightarrow> mpz_val z div 256 ^ ?k = neg_stream ?n c' 0"
    using mpz_bytes_outer_correct [of 1 "dig z" "[]" len ?n] d(1) assms(2) unfolding S by auto
  have lt: "int (nval (dig z)) < 256 ^ ?k"
  proof -
    have "nval (dig z) < DIG_BASE ^ length (dig z)" using d(1) by (rule dval_less)
    then have "int (nval (dig z)) < int (DIG_BASE ^ length (dig z))" by (simp only: of_nat_less_iff)
    then show ?thesis by (simp add: power_mult)
  qed
  have dv: "mpz_val z div 256 ^ ?k = (if ?n then - 1 else 0)"
  proof (cases ?n)
    case True
    then have "0 < nval (dig z)" using nval_0_iff [OF d(2)] d(4) by simp
    with True lt show ?thesis by (simp add: mpz_val_simps zdiv_zminus1_eq_if)
  next
    case False
    with lt show ?thesis by (simp add: mpz_val_simps)
  qed
  have "(if full then out else out @ replicate (len - length out) (if ?n then 255 else 0)) = le_bytes len (mpz_val z)"
  proof (cases full)
    case True
    then show ?thesis using o by (simp add: min_def)
  next
    case False
    then have "len = ?k + (len - ?k)" "min ?k len = ?k" using o(3) by auto
    then have "le_bytes len (mpz_val z) = out @ le_bytes (len - ?k) (mpz_val z div 256 ^ ?k)"
      unfolding o(2) by (metis le_bytes_add)
    then show ?thesis using False o(2) \<open>min ?k len = ?k\<close> unfolding dv by (simp add: le_bytes_sign)
  qed
  then show ?thesis using o(1) by (auto simp: mpz_as_bytes_def Let_def)
qed

lemma mpz_bytes_digits_correct:
  assumes "digs_ok 256 bs"
  shows "nval (mpz_bytes_digits bs) = dval 256 bs \<and> nok (mpz_bytes_digits bs)
    \<and> 2 * length (mpz_bytes_digits bs) \<le> length bs + 1"
  using assms
proof (induction bs rule: induct_list012)
  case (2 b)
  then show ?case by (simp add: u16_id)
next
  case (3 b1 b2 bs)
  have "b2 * 2 ^ 8 OR b1 = b2 * 2 ^ 8 + b1" using 3(3) by (intro or_disjoint_nat) simp
  then have o: "b1 OR b2 * 256 = b1 + 256 * b2" by (simp add: or.commute)
  have lt: "b1 + 256 * b2 < DIG_BASE" using 3(3) by simp
  have m: "mpz_bytes_digit 0 0 (b1 # b2 # bs) = (b1 + 256 * b2, bs)"
    using 3(3) o lt by (cases bs) (simp_all add: u16_id)
  show ?case using 3(1,3) lt unfolding mpz_bytes_digits.simps m fst_conv snd_conv by simp
qed simp

lemma mpz_set_from_bytes_gives:
  assumes "\<not> fixed_dig z" "digs_ok 256 buf"
  shows "gives (mpz_set_from_bytes z big buf) (int (dval 256 (if big then rev buf else buf)))"
proof -
  let ?bs = "if big then rev buf else buf"
  have ok: "digs_ok 256 ?bs" using assms(2) by (auto simp: digs_ok_def)
  note d = mpz_bytes_digits_correct [OF ok]
  have "length (mpn_remove_trailing_zeros (mpz_bytes_digits ?bs)) \<le> (length buf * 8 + DIG_SIZE - 1) div DIG_SIZE"
    using length_remove_trailing_zeros [of "mpz_bytes_digits ?bs"] d by (auto split: if_splits)
  moreover have "nok (mpn_remove_trailing_zeros (mpz_bytes_digits ?bs))"
    using d by (intro nok_remove_trailing_zeros) simp
  moreover have "signed_val False (mpn_remove_trailing_zeros (mpz_bytes_digits ?bs)) = int (dval 256 ?bs)"
    using d by (simp add: signed_val_def)
  ultimately show ?thesis using assms(1) unfolding mpz_set_from_bytes_def Let_def
    by (intro need_dig_gives gives_Some) simp_all
qed

section \<open>Strings\<close>

text \<open>The digits of a number in a base, the least significant one first, and 0 as a single digit.\<close>

fun repr :: "nat \<Rightarrow> nat \<Rightarrow> nat list" where
  "repr base v =
     (if 2 \<le> base \<and> base \<le> v then v mod base # repr base (v div base) else [v])"

declare repr.simps [simp del]

lemma repr_correct:
  assumes "2 \<le> base"
  shows "dval base (repr base v) = v \<and> digs_ok base (repr base v)"
  using assms
proof (induction base v rule: repr.induct)
  case (1 base v)
  then show ?case by (subst (1 2) repr.simps) auto
qed

lemma repr_length:
  assumes "2 \<le> base" "v < base ^ n" "0 < n"
  shows "length (repr base v) \<le> n"
  using assms
proof (induction n arbitrary: v)
  case (Suc n)
  show ?case
  proof (cases "base \<le> v")
    case True
    then have "0 < n" using Suc.prems by (cases n) auto
    moreover have "v div base < base ^ n"
      using Suc.prems by (simp add: div_less_iff_less_mult mult.commute)
    ultimately have "length (repr base (v div base)) \<le> n" using Suc.IH Suc.prems(1) by blast
    with True Suc.prems(1) show ?thesis by (subst repr.simps) simp
  next
    case False
    then show ?thesis by (subst repr.simps) simp
  qed
qed simp

lemma repr_not_Nil [simp]: "repr base v \<noteq> []"
  by (subst repr.simps) simp

text \<open>A separator after every third character, counted from the least significant one.\<close>

fun commas :: "nat \<Rightarrow> nat \<Rightarrow> nat list \<Rightarrow> nat list" where
  "commas comma k [] = []"
| "commas comma k (x # xs) =
     (if comma \<noteq> 0 \<and> k = 2 then x # comma # commas comma 0 xs else x # commas comma (Suc k) xs)"

lemma commas_none [simp]: "commas 0 k xs = xs"
  by (induction xs arbitrary: k) auto

lemma length_commas: "length (commas comma k xs) \<le> length xs + (if comma \<noteq> 0 then (k + length xs) div 3 else 0)"
  by (induction comma k xs rule: commas.induct) auto

lemma mpz_str_div_correct:
  assumes "nok ds" "a < base" "base \<le> 32"
  shows "nval (rev (fst (mpz_str_div base a ds))) = (a * DIG_BASE ^ length ds + nval (rev ds)) div base
    \<and> snd (mpz_str_div base a ds) = (a * DIG_BASE ^ length ds + nval (rev ds)) mod base
    \<and> nok (fst (mpz_str_div base a ds)) \<and> length (fst (mpz_str_div base a ds)) = length ds"
  using assms(1,2)
proof (induction ds arbitrary: a)
  case (Cons d ds)
  define x where "x = a * DIG_BASE + d"
  have d: "d < DIG_BASE" using Cons.prems by simp
  have xb: "x < base * DIG_BASE"
  proof -
    have "x < (a + 1) * DIG_BASE" using d by (simp add: x_def)
    also have "\<dots> \<le> base * DIG_BASE" using Cons.prems(2) by (intro mult_le_mono1) simp
    finally show ?thesis .
  qed
  also have "\<dots> \<le> 32 * DIG_BASE" using assms(3) by (rule mult_le_mono1)
  finally have x: "u32 (a * DIG_BASE) OR d = x" using shift_or_digit [OF d, of a] by (simp add: x_def u32_id)
  have q: "x div base < DIG_BASE" using xb Cons.prems(2) by (simp add: div_less_iff_less_mult mult.commute)
  then have u: "u16 (x div base) = x div base" by (simp add: u16_id)
  have b0: "0 < base" using Cons.prems(2) by simp
  let ?P = "DIG_BASE ^ length ds" and ?R = "nval (rev ds)"
  obtain qs r where qr: "mpz_str_div base (x mod base) ds = (qs, r)" by (metis surj_pair)
  have ih: "nval (rev qs) = (x mod base * ?P + ?R) div base" "r = (x mod base * ?P + ?R) mod base"
    "nok qs" "length qs = length ds"
    using Cons.IH [of "x mod base"] Cons.prems b0 unfolding qr by auto
  have eq: "mpz_str_div base a (d # ds) = (x div base # qs, r)"
    unfolding mpz_str_div.simps Let_def x qr prod.case u by simp
  have v: "a * DIG_BASE ^ length (d # ds) + nval (rev (d # ds)) = x * ?P + ?R"
    by (simp add: x_def digit_simps algebra_simps)
  have e: "x * ?P + ?R = (x mod base * ?P + ?R) + base * (x div base * ?P)"
  proof -
    have "x * ?P + ?R = (base * (x div base) + x mod base) * ?P + ?R" by simp
    also have "\<dots> = (x mod base * ?P + ?R) + base * (x div base * ?P)" by (simp only: distrib_right ac_simps)
    finally show ?thesis .
  qed
  have "(x * ?P + ?R) div base = x div base * ?P + (x mod base * ?P + ?R) div base"
    "(x * ?P + ?R) mod base = (x mod base * ?P + ?R) mod base"
    unfolding e using b0 by (simp_all only: div_mult_self2 mod_mult_self2)
  then show ?case unfolding eq v using ih q by (simp add: digit_simps mult.commute)
qed simp

lemma mpz_str_digits_correct:
  assumes "2 \<le> base" "base \<le> 32" "nok ds" "lc \<le> length s" "comma \<noteq> 0 \<Longrightarrow> length s - lc \<le> 2"
  shows "mpz_str_digits base bc comma ds s lc
    = Some (s @ commas comma (length s - lc) (map (mpz_digit_char bc) (repr base (nval ds))))"
  using assms(3-)
proof (induction "nval ds" arbitrary: ds s lc rule: less_induct)
  case less
  let ?v = "nval ds"
  obtain qs r where qr: "mpz_str_div base 0 (rev ds) = (qs, r)" by (metis surj_pair)
  have ok: "nok (rev ds)" using less.prems(1) by (simp add: digs_ok_def)
  have q: "nval (rev qs) = ?v div base" "r = ?v mod base" "nok (rev qs)"
    using mpz_str_div_correct [OF ok _ assms(2), of 0] assms(1) unfolding qr by (auto simp: digs_ok_def)
  have z: "list_all (\<lambda>d. d = 0) (rev qs) \<longleftrightarrow> ?v < base"
  proof -
    have "list_all (\<lambda>d. d = 0) (rev qs) \<longleftrightarrow> nval (rev qs) = 0"
      using dval_eq_0_iff [of DIG_BASE "rev qs"] by (auto simp: list_all_iff)
    then show ?thesis unfolding q(1) using assms(1) by (auto simp: div_eq_0_iff)
  qed
  let ?c = "mpz_digit_char bc r"
  define sep where "sep \<longleftrightarrow> comma \<noteq> 0 \<and> length s - lc = 2"
  have sp: "(comma \<noteq> 0 \<and> length (s @ [?c]) - lc = 3) = sep" using less.prems by (auto simp: sep_def)
  define s2 where "s2 = (if sep then (s @ [?c]) @ [comma] else s @ [?c])"
  define l2 where "l2 = (if sep then length s2 else lc)"
  have step: "mpz_str_digits base bc comma ds s lc
      = (if ?v < base then Some s2 else mpz_str_digits base bc comma (rev qs) s2 l2)"
    unfolding s2_def l2_def
    by (subst mpz_str_digits.simps) (simp only: qr fst_conv snd_conv Let_def z sp)
  show ?case
  proof (cases "?v < base")
    case True
    then have "repr base ?v = [r]" using q(2) by (subst repr.simps) simp
    then show ?thesis unfolding step using True by (auto simp: s2_def sep_def)
  next
    case False
    then have rp: "repr base ?v = r # repr base (nval (rev qs))"
      using q assms(1) by (subst repr.simps) simp
    have "?v div base < ?v" using False assms(1) by (intro div_less_dividend) auto
    moreover have l: "l2 \<le> length s2" "comma \<noteq> 0 \<Longrightarrow> length s2 - l2 \<le> 2"
      "comma \<noteq> 0 \<Longrightarrow> length s2 - l2 = (if sep then 0 else Suc (length s - lc))"
      using less.prems by (auto simp: l2_def s2_def sep_def)
    ultimately have ih: "mpz_str_digits base bc comma (rev qs) s2 l2
      = Some (s2 @ commas comma (length s2 - l2) (map (mpz_digit_char bc) (repr base (nval (rev qs)))))"
      using less.hyps [of "rev qs" l2 s2] q(1,3) by simp
    show ?thesis
    proof (cases "comma = 0")
      case True
      then show ?thesis unfolding step rp using False ih by (simp add: s2_def sep_def)
    next
      case c: False
      show ?thesis unfolding step rp using False ih l(3) c by (auto simp: s2_def sep_def)
    qed
  qed
qed

lemma mpz_as_str_correct:
  assumes "mpz_wf z" "2 \<le> base" "base \<le> 32"
  shows "mpz_as_str_inpl z base prefix bc comma =
    Some ((if mpz_val z < 0 then [45] else []) @ (case prefix of None \<Rightarrow> [] | Some p \<Rightarrow> p)
      @ (if mpz_val z = 0 then [48]
         else rev (commas comma 0 (map (mpz_digit_char bc) (repr base (nat \<bar>mpz_val z\<bar>))))))"
proof -
  have "mpz_str_digits base bc comma (dig z) [] 0
      = Some (commas comma 0 (map (mpz_digit_char bc) (repr base (nval (dig z)))))"
    using mpz_str_digits_correct [OF assms(2,3) mpz_wfD(1) [OF assms(1)], of 0 "[]" comma bc] by simp
  moreover have "nat \<bar>mpz_val z\<bar> = nval (dig z)" unfolding mpz_val_abs by simp
  ultimately show ?thesis using assms(2,3) mpz_wf_val(1,2) [OF assms(1)]
    by (auto simp: mpz_as_str_inpl_def)
qed

text \<open>The characters of the digits are read back as the digits.\<close>

lemma char_digit_inverse:
  assumes "v < base" "base \<le> 36" "bc = 65 \<or> bc = 97"
  shows "mpz_char_digit base (mpz_digit_char bc v) = Some v"
  using assms by (auto simp: mpz_char_digit_def mpz_digit_char_def Let_def)

lemma mpz_str_loop_correct:
  assumes "nok ds" "normalised ds" "0 < base" "base \<le> 36"
  shows "\<exists>r. mpz_str_loop base ds cs = (r, length (takeWhile (\<lambda>c. mpz_char_digit base c \<noteq> None) cs))
    \<and> nok r \<and> normalised r
    \<and> nval r = foldl (\<lambda>v c. v * base + the (mpz_char_digit base c)) (nval ds)
                 (takeWhile (\<lambda>c. mpz_char_digit base c \<noteq> None) cs)"
  using assms(1,2)
proof (induction cs arbitrary: ds)
  case (Cons c cs)
  show ?case
  proof (cases "mpz_char_digit base c")
    case (Some v)
    then have v: "v < base" by (auto simp: mpz_char_digit_def split: if_splits)
    then have b: "v < DIG_BASE" "base < DIG_BASE" using assms(4) by auto
    note m = mpn_mul_dig_add_dig_correct [OF Cons.prems(1) b(2,1)]
    show ?thesis using Cons.IH [OF m(2) m(4) [OF assms(3) Cons.prems(2)]] Some m(1)
      by (auto simp: mult.commute split: prod.splits)
  qed (use Cons.prems in simp)
qed simp

lemma foldl_digits_bound:
  fixes base :: nat
  assumes "\<forall>x \<in> set xs. f x < base"
  shows "foldl (\<lambda>v x. v * base + f x) 0 xs < base ^ length xs"
  using assms
proof (induction xs rule: rev_induct)
  case (snoc x xs)
  let ?V = "foldl (\<lambda>v x. v * base + f x) 0 xs"
  have "?V * base + f x < (?V + 1) * base" using snoc.prems by simp
  also have "\<dots> \<le> base ^ length xs * base" using snoc by (intro mult_le_mono1) simp
  finally show ?case by (simp add: mult.commute)
qed simp

lemma mpz_set_from_str_correct:
  fixes base :: nat and str :: "nat list"
  assumes "\<not> fixed_dig z" "0 < base" "base \<le> 36"
  defines "pre \<equiv> takeWhile (\<lambda>c. mpz_char_digit base c \<noteq> None) str"
  shows "\<exists>y. mpz_set_from_str z str n base = Some (y, length pre) \<and> \<not> fixed_dig y \<and> neg y = n
    \<and> nok (dig y) \<and> normalised (dig y) \<and> length (dig y) \<le> alloc y
    \<and> nval (dig y) = foldl (\<lambda>v c. v * base + the (mpz_char_digit base c)) 0 pre"
proof -
  obtain a where a: "mpz_need_dig z (length str * 8 div DIG_SIZE + 1) = Some (z\<lparr>alloc := a\<rparr>)"
    "length str * 8 div DIG_SIZE + 1 \<le> a"
    using mpz_need_dig_ok [OF assms(1)] by blast
  obtain r where r: "mpz_str_loop base [] str = (r, length pre)" "nok r" "normalised r"
    "nval r = foldl (\<lambda>v c. v * base + the (mpz_char_digit base c)) 0 pre"
    using mpz_str_loop_correct [of "[]" base str] assms(2,3) unfolding pre_def by auto
  have "\<forall>c \<in> set pre. the (mpz_char_digit base c) < base"
    unfolding pre_def by (auto simp: mpz_char_digit_def split: if_splits dest!: set_takeWhileD)
  then have "nval r < base ^ length pre" unfolding r(4) by (rule foldl_digits_bound)
  also have "\<dots> \<le> 256 ^ length pre" using assms(3) by (intro power_mono) auto
  also have "\<dots> \<le> 256 ^ (2 * (length pre div 2 + 1))" by (intro power_increasing) auto
  also have "\<dots> = DIG_BASE ^ (length pre div 2 + 1)" by (simp add: power_mult)
  finally have "length r \<le> length pre div 2 + 1" by (rule nval_length_le [OF r(3)])
  also have "\<dots> \<le> length str * 8 div DIG_SIZE + 1"
    using length_takeWhile_le [of _ str] unfolding pre_def by (auto intro: div_le_mono)
  finally have "length r \<le> a" using a(2) by simp
  then show ?thesis using a(1) r assms(1,3) by (simp add: mpz_set_from_str_def)
qed

text \<open>Printing and parsing again gives the integer back.\<close>

lemma foldl_digit_chars:
  assumes "digs_ok base vs" "base \<le> 36" "bc = 65 \<or> bc = 97"
  shows "foldl (\<lambda>v c. v * base + the (mpz_char_digit base c)) 0 (rev (map (mpz_digit_char bc) vs)) = dval base vs"
  using assms(1)
proof (induction vs)
  case (Cons v vs)
  then show ?case using char_digit_inverse [OF _ assms(2,3), of v] by simp
qed simp

lemma digit_chars_all:
  assumes "digs_ok base vs" "base \<le> 36" "bc = 65 \<or> bc = 97"
  shows "takeWhile (\<lambda>c. mpz_char_digit base c \<noteq> None) (rev (map (mpz_digit_char bc) vs)) = rev (map (mpz_digit_char bc) vs)"
  using assms by (auto simp: takeWhile_eq_all_conv digs_ok_def char_digit_inverse)

definition mpz_magnitude_chars :: "nat \<Rightarrow> nat \<Rightarrow> mpz_t \<Rightarrow> nat list" where
  "mpz_magnitude_chars base bc z = rev (map (mpz_digit_char bc) (repr base (nat \<bar>mpz_val z\<bar>)))"

lemma mpz_as_str_plain:
  assumes "mpz_wf z" "2 \<le> base" "base \<le> 32"
  shows "mpz_as_str_inpl z base None bc 0
    = Some ((if mpz_val z < 0 then [45] else []) @ mpz_magnitude_chars base bc z)"
proof -
  have "repr base 0 = [0]" using assms(2) by (subst repr.simps) simp
  moreover have "mpz_digit_char bc 0 = 48" by (simp add: mpz_digit_char_def)
  ultimately show ?thesis unfolding mpz_as_str_correct [OF assms] mpz_magnitude_chars_def by simp
qed

lemma mpz_str_roundtrip:
  assumes "mpz_wf z" "2 \<le> base" "base \<le> 32" "bc = 65 \<or> bc = 97" "\<not> fixed_dig dest"
  shows "\<exists>y. mpz_set_from_str dest (mpz_magnitude_chars base bc z) (mpz_val z < 0) base
      = Some (y, length (mpz_magnitude_chars base bc z)) \<and> gives (Some y) (mpz_val z)"
proof -
  let ?vs = "repr base (nat \<bar>mpz_val z\<bar>)"
  note r = repr_correct [OF assms(2), of "nat \<bar>mpz_val z\<bar>"]
  have b: "0 < base" "base \<le> 36" using assms(2,3) by auto
  obtain y where y: "mpz_set_from_str dest (mpz_magnitude_chars base bc z) (mpz_val z < 0) base
      = Some (y, length (mpz_magnitude_chars base bc z))" "\<not> fixed_dig y" "neg y = (mpz_val z < 0)"
    "nok (dig y)" "normalised (dig y)" "length (dig y) \<le> alloc y" "nval (dig y) = nat \<bar>mpz_val z\<bar>"
    using mpz_set_from_str_correct [OF assms(5) b, of "mpz_magnitude_chars base bc z" "mpz_val z < 0"] r
    unfolding mpz_magnitude_chars_def digit_chars_all [OF conjunct2 [OF r] b(2) assms(4)]
      foldl_digit_chars [OF conjunct2 [OF r] b(2) assms(4)] by auto
  have "signed_val (neg y) (dig y) = mpz_val z" using y(3,7) by (auto simp: signed_val_def)
  moreover have "neg y \<Longrightarrow> dig y \<noteq> []" using y(3,7) by auto
  ultimately have "gives (Some y) (mpz_val z)" using y by (intro gives_Some)
  with y(1) show ?thesis by blast
qed

text \<open>The buffer that \<open>mp_int_format_size\<close> asks for holds the string and its terminating null byte.\<close>

lemma log_base2_floor_le:
  assumes "2 \<le> base" "base \<le> 16"
  shows "2 ^ (log_base2_floor ! (base - 1)) \<le> base" "0 < log_base2_floor ! (base - 1)"
proof -
  have "base = 2 \<or> base = 3 \<or> base = 4 \<or> base = 5 \<or> base = 6 \<or> base = 7 \<or> base = 8 \<or> base = 9
    \<or> base = 10 \<or> base = 11 \<or> base = 12 \<or> base = 13 \<or> base = 14 \<or> base = 15 \<or> base = 16"
    using assms by presburger
  then show "2 ^ (log_base2_floor ! (base - 1)) \<le> base" "0 < log_base2_floor ! (base - 1)"
    by (elim disjE; simp add: log_base2_floor_def)+
qed

lemma mpz_as_str_fits:
  assumes "mpz_wf z" "2 \<le> base" "base \<le> 16"
  shows "\<exists>s n. mpz_as_str_inpl z base prefix bc comma = Some s
    \<and> mp_int_format_size (length (dig z) * DIG_SIZE) base prefix comma = Some n \<and> length s + 1 \<le> n"
proof -
  let ?l = "log_base2_floor ! (base - 1)" and ?bits = "length (dig z) * DIG_SIZE"
  let ?v = "nat \<bar>mpz_val z\<bar>" and ?p = "case prefix of None \<Rightarrow> 0 | Some p \<Rightarrow> length p"
  note l = log_base2_floor_le [OF assms(2,3)]
  have "?v = nval (dig z)" unfolding mpz_val_abs by simp
  also have "\<dots> < DIG_BASE ^ length (dig z)" using mpz_wfD(1) [OF assms(1)] by (rule dval_less)
  also have "\<dots> = 2 ^ ?bits" by (simp add: power_mult mult.commute [of _ 16])
  also have "\<dots> \<le> 2 ^ (?l * (?bits div ?l + 1))"
  proof (rule power_increasing)
    have "?bits < ?l * (?bits div ?l + 1)" using dividend_less_times_div [OF l(2), of ?bits] by simp
    then show "?bits \<le> ?l * (?bits div ?l + 1)" by simp
  qed simp
  also have "\<dots> = (2 ^ ?l) ^ (?bits div ?l + 1)" by (rule power_mult)
  also have "\<dots> \<le> base ^ (?bits div ?l + 1)" using l(1) by (rule power_mono) simp
  finally have k: "length (repr base ?v) \<le> ?bits div ?l + 1" by (intro repr_length [OF assms(2)]) auto
  have c: "length (commas comma 0 (map (mpz_digit_char bc) (repr base ?v)))
      \<le> (?bits div ?l + 1) + (if comma \<noteq> 0 then (?bits div ?l + 1) div 3 else 0)"
  proof -
    have "length (repr base ?v) div 3 \<le> (?bits div ?l + 1) div 3" using k by (rule div_le_mono)
    with length_commas [of comma 0 "map (mpz_digit_char bc) (repr base ?v)"] k show ?thesis by auto
  qed
  have "base \<le> 32" using assms(3) by simp
  note s = mpz_as_str_correct [OF assms(1,2) this, of prefix bc comma]
  show ?thesis unfolding s mp_int_format_size_def Let_def using assms(2,3) c by (auto split: option.splits)
qed

section \<open>Floats\<close>

lemma mpz_float_digits_correct:
  "nval (mpz_float_digits n f) = f mod DIG_BASE ^ n \<and> nok (mpz_float_digits n f)
    \<and> length (mpz_float_digits n f) = n"
proof (induction n arbitrary: f)
  case (Suc n)
  have "f mod DIG_BASE + DIG_BASE * (f div DIG_BASE mod DIG_BASE ^ n) = f mod DIG_BASE ^ Suc n"
    by (simp add: mod_mult2_eq)
  with Suc show ?case by simp
qed simp

text \<open>
  The integer part of a finite double with biased exponent \<open>ex\<close> and fraction \<open>fr\<close>: its significand
  \<open>2 ^ 52 + fr\<close> scaled by \<open>2 ^ (ex - 1075)\<close>, rounded towards zero.
\<close>

definition float_trunc :: "nat \<Rightarrow> nat \<Rightarrow> nat" where
  "float_trunc ex fr =
     (if ex < 1075 then (2 ^ 52 + fr) div 2 ^ (1075 - ex) else (2 ^ 52 + fr) * 2 ^ (ex - 1075))"

lemma pow2_digits: "(2::nat) ^ n < DIG_BASE ^ (n div 16 + 1)" "DIG_BASE ^ (n div 16) \<le> 2 ^ n"
proof -
  have "n < 16 * (n div 16 + 1)" using dividend_less_times_div [of 16 n] by simp
  then have "(2::nat) ^ n < 2 ^ (16 * (n div 16 + 1))" by (intro power_strict_increasing) auto
  then show "(2::nat) ^ n < DIG_BASE ^ (n div 16 + 1)" unfolding power_mult by simp
  have "(2::nat) ^ (16 * (n div 16)) \<le> 2 ^ n" by (intro power_increasing) auto
  then show "DIG_BASE ^ (n div 16) \<le> 2 ^ n" unfolding power_mult by simp
qed

lemma float_trunc_bounds:
  assumes "1023 < ex" "fr < 2 ^ 52"
  shows "2 ^ (ex - 1023) \<le> float_trunc ex fr" "float_trunc ex fr < DIG_BASE ^ ((ex - 1023) div 16 + 1)"
proof -
  have "2 ^ (ex - 1023) \<le> float_trunc ex fr \<and> float_trunc ex fr < 2 ^ Suc (ex - 1023)"
  proof (cases "ex < 1075")
    case True
    then have e: "(2::nat) ^ 52 = 2 ^ (ex - 1023) * 2 ^ (1075 - ex)" using assms(1)
      by (simp add: power_add [symmetric])
    have "2 ^ 52 div 2 ^ (1075 - ex) \<le> (2 ^ 52 + fr) div 2 ^ (1075 - ex)" by (intro div_le_mono) simp
    moreover have "(2::nat) ^ 52 div 2 ^ (1075 - ex) = 2 ^ (ex - 1023)" unfolding e by simp
    moreover have "(2 ^ 52 + fr) div 2 ^ (1075 - ex) < 2 ^ Suc (ex - 1023)"
    proof -
      have "2 ^ 52 + fr < 2 * 2 ^ 52" using assms(2) by simp
      also have "\<dots> = 2 ^ Suc (ex - 1023) * 2 ^ (1075 - ex)" unfolding e by simp
      finally show ?thesis by (simp only: less_mult_imp_div_less)
    qed
    ultimately show ?thesis using True by (simp add: float_trunc_def)
  next
    case False
    then have "ex - 1023 = 52 + (ex - 1075)" by simp
    then have e: "(2::nat) ^ (ex - 1023) = 2 ^ 52 * 2 ^ (ex - 1075)" by (simp only: power_add)
    have "(2 ^ 52 + fr) * 2 ^ (ex - 1075) < 2 * 2 ^ 52 * 2 ^ (ex - 1075)"
      using assms(2) by (intro mult_strict_right_mono) simp_all
    with False show ?thesis unfolding power_Suc e by (simp add: float_trunc_def)
  qed
  moreover have "2 ^ Suc (ex - 1023) \<le> DIG_BASE ^ ((ex - 1023) div 16 + 1)"
  proof -
    have "Suc (ex - 1023) \<le> 16 * ((ex - 1023) div 16 + 1)" by presburger
    then have "(2::nat) ^ Suc (ex - 1023) \<le> 2 ^ (16 * ((ex - 1023) div 16 + 1))" by (intro power_increasing) auto
    then show ?thesis unfolding power_mult by simp
  qed
  ultimately show "2 ^ (ex - 1023) \<le> float_trunc ex fr" "float_trunc ex fr < DIG_BASE ^ ((ex - 1023) div 16 + 1)"
    by auto
qed

lemma float_shift_digits:
  assumes "t < 16" "0 < k" "f < 2 ^ 53"
  shows "(if t \<noteq> 0 then [(f * 2 ^ t) mod 2 ^ 64 mod DIG_BASE] @ mpz_float_digits (k - 1) (f div 2 ^ (DIG_SIZE - t))
     else mpz_float_digits k f) = mpz_float_digits k (f * 2 ^ t)"
proof (cases "t = 0")
  case False
  obtain j where j: "k = Suc j" using assms(2) by (cases k) auto
  have B: "DIG_BASE = 2 ^ t * 2 ^ (DIG_SIZE - t)" using assms(1) by (simp add: power_add [symmetric])
  have "f * 2 ^ t div DIG_BASE = f div 2 ^ (DIG_SIZE - t)" unfolding B by (simp add: div_mult2_eq)
  moreover have "(f * 2 ^ t) mod 2 ^ 64 mod DIG_BASE = f * 2 ^ t mod DIG_BASE"
    by (rule mod_mod_cancel) simp
  ultimately show ?thesis using False j by simp
qed simp

lemma mpz_set_from_float_gives:
  assumes "\<not> fixed_dig z" "ex < 2047" "fr < 2 ^ 52"
  shows "gives (mpz_set_from_float z sg ex fr)
    (if ex < 1023 then 0 else if ex = 1023 then 1
     else if sg then - int (float_trunc ex fr) else int (float_trunc ex fr))"
proof -
  consider "ex < 1023" | "ex = 1023" | "1023 < ex" by linarith
  then show ?thesis
  proof cases
    case 1
    then show ?thesis using mpz_set_from_int_gives [of "z\<lparr>neg := sg\<rparr>" 0] assms(1)
      by (auto simp: mpz_set_from_float_def Let_def)
  next
    case 2
    then show ?thesis using mpz_set_from_int_gives [of "z\<lparr>neg := sg\<rparr>" 1] assms(1)
      by (auto simp: mpz_set_from_float_def Let_def)
  next
    case 3
    let ?adj = "ex - 1023" and ?cnt = "(ex - 1023) div 16 + 1" and ?V = "float_trunc ex fr"
    note b = float_trunc_bounds [OF 3 assms(3)]
    have cnt: "(?adj + 1 + (DIG_SIZE - 1)) div DIG_SIZE = ?cnt" by simp
    have frc: "fr OR 2 ^ 52 = 2 ^ 52 + fr"
      using or_disjoint_nat' [OF assms(3), of 1] by simp
    define q where "q = (if ?adj < 52 then 0 else (?adj - 52) div 16)"
    define t where "t = (if ?adj < 52 then 0 else (?adj - 52) mod 16)"
    define f where "f = (if ?adj < 52 then (2 ^ 52 + fr) div 2 ^ (52 - ?adj) else 2 ^ 52 + fr)"
    let ?ds = "replicate q 0 @ mpz_float_digits (?cnt - q) (f * 2 ^ t)"
    have t: "t < 16" and qc: "q < ?cnt" by (auto simp: t_def q_def)
    have "f \<le> 2 ^ 52 + fr" by (simp only: f_def div_le_dividend order_refl split: if_split) simp
    then have f: "f < 2 ^ 53" using assms(3) by simp
    have shft: "nat ((int (?adj mod DIG_SIZE) - 52) mod 2 ^ 32) mod DIG_SIZE = t" if "\<not> ?adj < 52"
    proof -
      have "int (nat ((int (?adj mod DIG_SIZE) - 52) mod 2 ^ 32) mod DIG_SIZE) = (int (?adj mod DIG_SIZE) - 52) mod 2 ^ 32 mod 16"
        by (simp add: zmod_int)
      also have "\<dots> = (int (?adj mod DIG_SIZE) - 52) mod 16" by (rule mod_mod_cancel) simp
      also have "\<dots> = int ((?adj - 52) mod 16)" using that by (simp add: zmod_int of_nat_diff mod_diff_left_eq)
      finally show ?thesis using that by (simp add: t_def)
    qed
    have V: "?V = DIG_BASE ^ q * (f * 2 ^ t)"
    proof (cases "?adj < 52")
      case True
      then show ?thesis using 3 by (simp add: float_trunc_def q_def t_def f_def)
    next
      case False
      have "ex - 1075 = 16 * ((?adj - 52) div 16) + (?adj - 52) mod 16" using False by simp
      then have "(2::nat) ^ (ex - 1075) = DIG_BASE ^ ((?adj - 52) div 16) * 2 ^ ((?adj - 52) mod 16)"
      proof -
        assume e: "ex - 1075 = 16 * ((?adj - 52) div 16) + (?adj - 52) mod 16"
        have "(2::nat) ^ 16 = DIG_BASE" by simp
        then show ?thesis by (subst e) (simp only: power_add power_mult)
      qed
      with False show ?thesis by (simp add: float_trunc_def q_def t_def f_def)
    qed
    have lt: "f * 2 ^ t < DIG_BASE ^ (?cnt - q)"
    proof -
      have "DIG_BASE ^ q * (f * 2 ^ t) < DIG_BASE ^ q * DIG_BASE ^ (?cnt - q)"
        using b(2) qc unfolding V by (simp add: power_add [symmetric] del: power_Suc)
      then show ?thesis by simp
    qed
    note fd = mpz_float_digits_correct [of "?cnt - q" "f * 2 ^ t"]
    have "nval (replicate q 0) = 0" using dval_eq_0_iff [of DIG_BASE "replicate q 0"] by auto
    then have v: "nval ?ds = ?V" using fd lt unfolding V by (simp add: digit_simps)
    have nd: "nok ?ds" "length ?ds = ?cnt" using fd qc by auto
    have "normalised ?ds"
    proof (rule normalised_by_size)
      show "DIG_BASE ^ (length ?ds - 1) \<le> nval ?ds"
        unfolding nd(2) v using pow2_digits(2) [of ?adj] b(1) by simp
    qed (use nd in auto)
    have eq: "mpz_set_from_float z sg ex fr = mpz_need_dig (z\<lparr>neg := sg\<rparr>) ?cnt \<bind> (\<lambda>z. Some (z\<lparr>dig := ?ds\<rparr>))"
    proof (cases "?adj < 52")
      case True
      then show ?thesis using 3 assms(2) unfolding mpz_set_from_float_def Let_def cnt frc
        by (simp add: q_def t_def f_def del: mpz_float_digits.simps)
    next
      case False
      note fs = float_shift_digits [OF t _ f, of "?cnt - q"]
      have "\<not> (ex = 0 \<or> ex = 2 ^ 11 - 1 \<or> ex < 1023 \<or> ex = 1023)" using 3 assms(2) by simp
      with False qc fs show ?thesis
        unfolding mpz_set_from_float_def Let_def shft [OF False] cnt frc
        by (auto simp: q_def f_def split: if_splits)
    qed
    have "signed_val sg ?ds = (if sg then - int ?V else int ?V)" using v by (simp add: signed_val_def)
    moreover have "?ds \<noteq> []" using nd(2) by (metis list.size(3) add_is_0 zero_neq_one)
    ultimately have "gives (mpz_set_from_float z sg ex fr) (if sg then - int ?V else int ?V)"
      unfolding eq using nd \<open>normalised ?ds\<close> assms(1) by (intro need_dig_gives gives_Some) simp_all
    then show ?thesis using 3 by simp
  qed
qed

end
