(* ===== verification/MpzTheorems.thy ===== *)
theory MpzTheorems
  imports MpzConv
begin

text \<open>
  The properties of the arbitrary precision integers, over the lemmas of \<open>MpnDiv\<close>, \<open>Mpz\<close> and
  \<open>MpzConv\<close>.  \<open>gives r v\<close> says that the call \<open>r\<close> returns a well-formed integer of value \<open>v\<close>, so each
  statement below is a statement that the call returns as well.
\<close>

definition mpz_of :: "bool \<Rightarrow> nat list \<Rightarrow> mpz_t" where
  "mpz_of n ds = \<lparr>neg = n, fixed_dig = False, alloc = max 2 (length ds), dig = ds\<rparr>"

lemma mpz_of_wf: "nok ds \<Longrightarrow> normalised ds \<Longrightarrow> (n \<longrightarrow> ds \<noteq> []) \<Longrightarrow> mpz_wf (mpz_of n ds)"
  by (simp add: mpz_wf_def mpz_of_def)

lemma mpz_of_simps: "mpz_val (mpz_of n ds) = signed_val n ds" "\<not> fixed_dig (mpz_of n ds)"
  by (simp_all add: mpz_of_def mpz_val_def)

lemmas mpz_of_facts = mpz_of_wf mpz_of_simps mpz_wf_zero signed_val_def normalised_def

section \<open>Arithmetic\<close>

text \<open>
  C1: \<open>mpz_add_inpl\<close>, \<open>mpz_sub_inpl\<close> and \<open>mpz_mul_inpl\<close> return, for well-formed operands and a
  destination that can grow, a well-formed integer with the exact sum, difference and product.
\<close>

theorem mpz_ring_operations:
  assumes "\<not> fixed_dig dest" "mpz_wf lhs" "mpz_wf rhs"
  shows "gives (mpz_add_inpl dest lhs rhs) (mpz_val lhs + mpz_val rhs)
    \<and> gives (mpz_sub_inpl dest lhs rhs) (mpz_val lhs - mpz_val rhs)
    \<and> gives (mpz_mul_inpl dest lhs rhs) (mpz_val lhs * mpz_val rhs)"
  using mpz_add_gives [OF assms] mpz_sub_gives [OF assms] mpz_mul_gives [OF assms] by blast

theorem mpz_ring_operations_witness:
  "gives (mpz_mul_inpl mpz_init_zero (mpz_of True [1, 2]) (mpz_of False [3])) (- 393219)"
  using mpz_ring_operations [of mpz_init_zero "mpz_of True [1, 2]" "mpz_of False [3]"]
  by (simp add: mpz_of_facts)

text \<open>
  C2: The long division \<open>mpn_div\<close> returns for every normalised divisor that is not zero: its two
  unbounded loops end, it stays within the quotient buffer, and quotient and remainder are exact.
\<close>

theorem mpn_div_exact:
  assumes "nok num" "normalised num" "nok den" "normalised den" "den \<noteq> []"
    and "length num < length quo" "nok quo"
  shows "\<exists>r q. mpn_div num den quo = Some (r, q) \<and> nok r \<and> nok q \<and> normalised r \<and> normalised q
    \<and> nval num = nval q * nval den + nval r \<and> nval r < nval den \<and> length q \<le> length num + 1"
proof -
  have pos: "0 < nval den" using nval_0_iff [OF assms(4)] assms(5) by simp
  obtain r q where d: "mpn_div num den quo = Some (r, q)" "nok r" "nok q" "normalised r" "normalised q"
    "nval r = nval num mod nval den" "nval q = nval num div nval den" "length q \<le> Suc (length num)"
    using mpn_div_correct [OF assms] by blast
  have "nval num = nval q * nval den + nval r" "nval r < nval den" "length q \<le> length num + 1"
    using pos d(6-8) by (simp_all only: div_mult_mod_eq mod_less_divisor Suc_eq_plus1)
  with d(1-5) show ?thesis by blast
qed

theorem mpn_div_exact_witness:
  "\<exists>r q. mpn_div [7, 0, 65535] [65535, 32768] [0, 0, 0, 0] = Some (r, q)
    \<and> nval [7, 0, 65535] = nval q * nval [65535, 32768] + nval r \<and> nval r < nval [65535, 32768]"
proof -
  have "normalised [7, 0, 65535]" "normalised [65535, 32768]" by (simp_all add: normalised_def)
  then show ?thesis
    using mpn_div_exact [of "[7, 0, 65535]" "[65535, 32768]" "[0, 0, 0, 0]"] by fastforce
qed



text \<open>
  C4: \<open>mpz_shl_inpl\<close> multiplies by a power of two and \<open>mpz_shr_inpl\<close>, with a destination of its own,
  divides by it rounding towards minus infinity, as Python's shifts do.
\<close>

theorem mpz_shifts:
  assumes "\<not> fixed_dig dest" "mpz_wf lhs" "n < 2 ^ 32 - 15"
  shows "gives (mpz_shl_inpl dest lhs n) (mpz_val lhs * 2 ^ n)
    \<and> gives (mpz_shr_inpl False dest lhs n) (mpz_val lhs div 2 ^ n)"
  using mpz_shl_gives [OF assms] mpz_shr_gives [OF assms(1,2)] by blast

theorem mpz_shifts_witness:
  "gives (mpz_shr_inpl False mpz_init_zero (mpz_of True [1, 1]) 17) (- 1)
    \<and> gives (mpz_shl_inpl mpz_init_zero (mpz_of True [1, 1]) 3) (- 524296)"
  using mpz_shifts [of mpz_init_zero "mpz_of True [1, 1]" 17] mpz_shifts [of mpz_init_zero "mpz_of True [1, 1]" 3]
  by (simp add: mpz_of_facts)

text \<open>
  In place, where its comment allows it, \<open>mpz_shr_inpl\<close> does not round towards minus infinity:
  \<open>- 5 >> 1\<close> gives \<open>- 2\<close> when destination and operand are the same object, since the digits that
  decide about the rounding have been overwritten, and \<open>- 3\<close> otherwise.
\<close>

theorem mpz_shr_same_object:
  "mpz_wf (mpz_of True [5]) \<and> mpz_val (mpz_of True [5]) = - 5
    \<and> map_option mpz_val (mpz_shr_inpl True (mpz_of True [5]) (mpz_of True [5]) 1) = Some (- 2)
    \<and> map_option mpz_val (mpz_shr_inpl False mpz_init_zero (mpz_of True [5]) 1) = Some (- 3)"
proof -
  have "mpn_shr [5] 1 = [2]" by (simp add: mpn_shr_def)
  moreover have "mpz_shr_round_up [2] 1 = 0" "mpz_shr_round_up [5] 1 = 1"
    using round_up_correct [of "[2]" 1] round_up_correct [of "[5]" 1] by simp_all
  moreover have "mpn_add [2] [1] = [3]" by (simp add: mpn_add_def Let_def u32_def)
  ultimately show ?thesis
    by (simp add: mpz_shr_inpl_def mpz_of_def mpz_need_dig_def mpz_init_zero_def mpz_wf_def normalised_def
        mpz_val_def signed_val_def)
qed

text \<open>
  C5: \<open>mpz_and_inpl\<close>, \<open>mpz_or_inpl\<close> and \<open>mpz_xor_inpl\<close> act on the infinite two's complement of
  their operands, whatever the signs and the lengths are; no assertion fails.
\<close>

theorem mpz_bitwise:
  assumes "\<not> fixed_dig dest" "mpz_wf lhs" "mpz_wf rhs"
  shows "gives (mpz_and_inpl dest lhs rhs) (mpz_val lhs AND mpz_val rhs)
    \<and> gives (mpz_or_inpl dest lhs rhs) (mpz_val lhs OR mpz_val rhs)
    \<and> gives (mpz_xor_inpl dest lhs rhs) (mpz_val lhs XOR mpz_val rhs)"
  using mpz_and_gives [OF assms] mpz_or_gives [OF assms] mpz_xor_gives [OF assms] by blast

theorem mpz_bitwise_witness:
  "gives (mpz_and_inpl mpz_init_zero (mpz_of True [0, 1]) (mpz_of True [1])) (- 65536)"
  using mpz_bitwise [of mpz_init_zero "mpz_of True [0, 1]" "mpz_of True [1]"] by (simp add: mpz_of_facts)

text \<open>
  C6: The loops of \<open>mpz_pow_inpl\<close> and \<open>mpz_pow3_inpl\<close> end, and compute the power and the modular
  power; \<open>0 ** 0\<close> is 0 and a zero exponent gives 1 whatever the modulus, unlike in Python.
\<close>

theorem mpz_powers:
  assumes "\<not> fixed_dig dest" "mpz_wf lhs" "mpz_wf rhs" "mpz_wf m" "mpz_val m \<noteq> 0"
  shows "gives (mpz_pow_inpl dest lhs rhs)
      (if mpz_val lhs = 0 \<or> mpz_val rhs < 0 then 0 else mpz_val lhs ^ nat (mpz_val rhs))
    \<and> gives (mpz_pow3_inpl dest lhs rhs m)
      (if mpz_val lhs = 0 \<or> mpz_val rhs < 0 \<or> \<bar>mpz_val m\<bar> = 1 then 0
       else if mpz_val rhs = 0 then 1
       else mpz_val lhs ^ nat (mpz_val rhs) mod mpz_val m)"
  using mpz_pow_gives [OF assms(1-3)] mpz_pow3_gives [OF assms] by blast

theorem mpz_powers_witness:
  "gives (mpz_pow_inpl mpz_init_zero (mpz_of True [3]) (mpz_of False [5])) (- 243)
    \<and> gives (mpz_pow3_inpl mpz_init_zero (mpz_of True [3]) (mpz_of False [5]) (mpz_of True [7])) (- 5)
    \<and> gives (mpz_pow_inpl mpz_init_zero (mpz_of False []) (mpz_of False [])) 0"
  using mpz_powers [of mpz_init_zero "mpz_of True [3]" "mpz_of False [5]" "mpz_of True [7]"]
    mpz_powers [of mpz_init_zero "mpz_of False []" "mpz_of False []" "mpz_of True [7]"]
  by (simp add: mpz_of_facts)

text \<open>
  \<open>mpz_abs_inpl\<close>, \<open>mpz_neg_inpl\<close> and \<open>mpz_not_inpl\<close> compute the absolute value, the negation
  and the complement, none of them a negative zero, and \<open>mpz_cmp\<close> has the sign of the difference.
\<close>

theorem mpz_signs:
  assumes "\<not> fixed_dig dest" "mpz_wf z" "mpz_wf y"
  shows "gives (mpz_abs_inpl dest z) \<bar>mpz_val z\<bar> \<and> gives (mpz_neg_inpl dest z) (- mpz_val z)
    \<and> gives (mpz_not_inpl dest z) (- mpz_val z - 1) \<and> sgn (mpz_cmp z y) = sgn (mpz_val z - mpz_val y)"
  using mpz_abs_gives [OF assms(1,2)] mpz_neg_gives [OF assms(1,2)] mpz_not_gives [OF assms(1,2)]
    mpz_cmp_correct [OF assms(2,3)] by blast

theorem mpz_signs_witness:
  "gives (mpz_not_inpl mpz_init_zero (mpz_of False [65535])) (- 65536)
    \<and> sgn (mpz_cmp (mpz_of False [65535]) (mpz_of True [0, 1])) = 1"
  using mpz_signs [of mpz_init_zero "mpz_of False [65535]" "mpz_of True [0, 1]"] by (simp add: mpz_of_facts)

section \<open>Conversions\<close>

text \<open>
  Storing a machine integer and reading it back is the identity where it fits: \<open>mpz_set_from_ll\<close>
  stores it, \<open>mpz_as_int_checked\<close> returns it for magnitudes below \<open>2 ^ 31\<close> and reports an overflow
  otherwise, \<open>mpz_as_uint_checked\<close> for the unsigned range, and \<open>mpz_hash\<close> truncates to 32 bits.
\<close>

theorem mpz_machine_integers:
  assumes "\<not> fixed_dig z" "- (2 ^ 63) \<le> v" "v < 2 ^ 64" "\<not> is_signed \<Longrightarrow> 0 \<le> v"
  shows "\<exists>y. mpz_set_from_ll z v is_signed = Some y \<and> mpz_wf y
    \<and> mpz_as_int_checked y = (if \<bar>v\<bar> < 2 ^ 31 then Some v else None)
    \<and> mpz_as_uint_checked y = (if 0 \<le> v \<and> v < 2 ^ 32 then Some (nat v) else None)
    \<and> mpz_hash y = s32 v"
proof -
  obtain y where "mpz_set_from_ll z v is_signed = Some y" "mpz_wf y" "mpz_val y = v"
    using mpz_set_from_ll_gives [OF assms(1-3), of is_signed] assms(4) by (auto elim: givesE)
  then show ?thesis
    using mpz_as_int_checked_correct [of y] mpz_as_uint_checked_correct [of y] mpz_hash_correct [of y] by simp
qed

theorem mpz_machine_integers_witness:
  "\<exists>y. mpz_set_from_ll mpz_init_zero (- 2147483647) True = Some y \<and> mpz_as_int_checked y = Some (- 2147483647)"
  using mpz_machine_integers [of mpz_init_zero "- 2147483647" True] by (auto simp: mpz_of_facts)

text \<open>
  Printing an integer in a base up to 32 with \<open>mpz_as_str_inpl\<close> (no prefix, no separator)
  and parsing the digits with \<open>mpz_set_from_str\<close> gives the same integer, and the parser consumes
  all characters.
\<close>

theorem mpz_str_print_parse:
  assumes "mpz_wf z" "2 \<le> base" "base \<le> 32" "bc = 65 \<or> bc = 97" "\<not> fixed_dig dest"
  shows "\<exists>s y. mpz_as_str_inpl z base None bc 0 = Some ((if mpz_val z < 0 then [45] else []) @ s)
    \<and> mpz_set_from_str dest s (mpz_val z < 0) base = Some (y, length s) \<and> gives (Some y) (mpz_val z)"
  using mpz_as_str_plain [OF assms(1-3)] mpz_str_roundtrip [OF assms] by blast

theorem mpz_str_print_parse_witness:
  "\<exists>s y. mpz_as_str_inpl (mpz_of True [57, 48]) 16 None 97 0 = Some ([45] @ s)
    \<and> mpz_set_from_str mpz_init_zero s True 16 = Some (y, length s) \<and> gives (Some y) (- 3145785)"
  using mpz_str_print_parse [of "mpz_of True [57, 48]" 16 97 mpz_init_zero] by (simp add: mpz_of_facts)

text \<open>
  C7: The string of \<open>mpz_as_str_inpl\<close>, with prefix, sign, separators and the terminating null
  byte, fits into the buffer that \<open>mp_int_format_size\<close> asks for.
\<close>

theorem mpz_as_str_in_buffer:
  assumes "mpz_wf z" "2 \<le> base" "base \<le> 16"
  shows "\<exists>s n. mpz_as_str_inpl z base prefix bc comma = Some s
    \<and> mp_int_format_size (length (dig z) * DIG_SIZE) base prefix comma = Some n \<and> length s + 1 \<le> n"
  by (rule mpz_as_str_fits [OF assms])

theorem mpz_as_str_in_buffer_witness:
  "\<exists>s n. mpz_as_str_inpl (mpz_of True [57, 48]) 2 (Some [48, 98]) 97 44 = Some s
    \<and> mp_int_format_size 32 2 (Some [48, 98]) 44 = Some n \<and> length s + 1 \<le> n"
  using mpz_as_str_in_buffer [of "mpz_of True [57, 48]" 2 "Some [48, 98]" 97 44]
  by (simp add: mpz_of_facts) (simp add: mpz_of_def)

lemma commas_last:
  assumes "comma \<noteq> 0" "length xs = 3 * Suc m"
  shows "last (commas comma 0 xs) = comma \<and> commas comma 0 xs \<noteq> []"
  using assms(2)
proof (induction m arbitrary: xs)
  case 0
  then obtain a b c where "xs = [a, b, c]"
    by (auto simp: length_Suc_conv numeral_3_eq_3)
  with assms(1) show ?case by simp
next
  case (Suc m)
  then obtain a b c ys where xs: "xs = a # b # c # ys" "length ys = 3 * Suc m"
    by (auto simp: length_Suc_conv numeral_3_eq_3)
  with assms(1) Suc.IH [OF xs(2)] show ?case by simp
qed

text \<open>
  With a thousands separator, a number whose count of digits is a multiple of three is
  printed with a separator in front of its first digit, because the code appends the separator
  after the last digit as well (the formatter of small integers does not).
\<close>

theorem mpz_as_str_leading_separator:
  assumes "mpz_wf z" "0 < mpz_val z" "2 \<le> base" "base \<le> 32" "comma \<noteq> 0"
    and "length (repr base (nat (mpz_val z))) mod 3 = 0"
  shows "\<exists>s. mpz_as_str_inpl z base None bc comma = Some (comma # s)"
proof -
  let ?ds = "map (mpz_digit_char bc) (repr base (nat (mpz_val z)))"
  have "0 < length ?ds" by simp
  then obtain m where "length ?ds = 3 * Suc m" using assms(6)
  proof -
    assume pos: "0 < length ?ds" and ex: "\<And>m. length ?ds = 3 * Suc m \<Longrightarrow> thesis"
    have "length ?ds = 3 * (length ?ds div 3)" using assms(6) by (simp add: minus_mod_eq_mult_div [symmetric])
    moreover from this pos have "length ?ds div 3 = Suc (length ?ds div 3 - 1)" by (cases "length ?ds div 3") auto
    ultimately show thesis using ex [of "length ?ds div 3 - 1"] by simp
  qed
  from commas_last [OF assms(5) this] obtain ys where "commas comma 0 ?ds = ys @ [comma]"
    by (metis append_butlast_last_id)
  then show ?thesis unfolding mpz_as_str_correct [OF assms(1,3,4)] using assms(2) by simp
qed

theorem mpz_as_str_leading_separator_witness:
  "\<exists>s. mpz_as_str_inpl (mpz_of False [34464, 1]) 10 None 97 44 = Some (44 # s)"
proof -
  have v: "mpz_val (mpz_of False [34464, 1]) = 100000" by (simp add: mpz_of_facts)
  have "repr 10 100000 = [0, 0, 0, 0, 0, 1]" by (simp add: repr.simps)
  then have "length (repr 10 (nat (mpz_val (mpz_of False [34464, 1])))) mod 3 = 0" unfolding v by simp
  then show ?thesis
    using mpz_as_str_leading_separator [of "mpz_of False [34464, 1]" 10 44 97]
    by (simp add: v) (simp add: mpz_of_facts)
qed

text \<open>
  For a positive length, \<open>mpz_as_bytes\<close> writes the two's complement of the integer,
  truncated to that length, in either byte order, and \<open>mpz_set_from_bytes\<close> reads the unsigned
  value of these bytes.
\<close>

theorem mpz_bytes_write_read:
  assumes "mpz_wf z" "0 < len" "\<not> fixed_dig dest"
  shows "\<exists>bs. mpz_as_bytes z big len = Some bs \<and> length bs = len
    \<and> gives (mpz_set_from_bytes dest big bs) (mpz_val z mod 256 ^ len)"
proof -
  let ?bs = "(if big then rev else (\<lambda>bs. bs)) (le_bytes len (mpz_val z))"
  have ok: "digs_ok 256 ?bs" using le_bytes_ok [of len "mpz_val z"] by (auto simp: digs_ok_def)
  have "(if big then rev ?bs else ?bs) = le_bytes len (mpz_val z)" by simp
  then have "gives (mpz_set_from_bytes dest big ?bs) (mpz_val z mod 256 ^ len)"
    using mpz_set_from_bytes_gives [OF assms(3) ok, of big] by (simp add: le_bytes_value)
  then show ?thesis using mpz_as_bytes_correct [OF assms(1,2), of big] by auto
qed

theorem mpz_bytes_write_read_witness:
  "\<exists>bs. mpz_as_bytes (mpz_of True [2, 1]) True 3 = Some bs \<and> length bs = 3
    \<and> gives (mpz_set_from_bytes mpz_init_zero True bs) 16711678"
  using mpz_bytes_write_read [of "mpz_of True [2, 1]" 3 mpz_init_zero True] by (simp add: mpz_of_facts)

text \<open>
  For the length 0 and an integer that is not zero, \<open>mpz_as_bytes\<close> writes outside of its
  buffer: the end of the buffer is tested for only after the first byte has been written.
\<close>

theorem mpz_as_bytes_zero_length:
  assumes "mpz_wf z" "mpz_val z \<noteq> 0"
  shows "mpz_as_bytes z big 0 = None"
proof -
  obtain d ds where "dig z = d # ds" using mpz_wf_val(1) [OF assms(1)] assms(2) by (cases "dig z") auto
  moreover have "mpz_bytes_inner n 0 16 x c [] = None" for n x c
    by (subst mpz_bytes_inner.simps) simp
  ultimately show ?thesis by (simp add: mpz_as_bytes_def)
qed

theorem mpz_as_bytes_zero_length_witness:
  "mpz_as_bytes (mpz_of False [0, 0, 1]) False 0 = None"
  using mpz_as_bytes_zero_length [of "mpz_of False [0, 0, 1]" False] by (simp add: mpz_of_facts)

text \<open>
  \<open>mpz_set_from_float\<close> gives the integer part of a finite double, except that a double of
  magnitude in \<open>[1, 2)\<close> gives 1 whatever its sign.
\<close>

theorem mpz_float_truncation:
  assumes "\<not> fixed_dig z" "ex < 2047" "fr < 2 ^ 52"
  shows "gives (mpz_set_from_float z sg ex fr)
    (if ex < 1023 then 0 else if ex = 1023 then 1
     else if sg then - int (float_trunc ex fr) else int (float_trunc ex fr))"
  by (rule mpz_set_from_float_gives [OF assms])

theorem mpz_float_truncation_witness:
  "gives (mpz_set_from_float mpz_init_zero True 1090 1) (- 147573952589676445696)
    \<and> gives (mpz_set_from_float mpz_init_zero True 1023 0) 1"
  using mpz_float_truncation [of mpz_init_zero 1090 1 True] mpz_float_truncation [of mpz_init_zero 1023 0 True]
  by (simp add: mpz_of_facts float_trunc_def)

end
