(* ===== verification/GcTable.thy ===== *)
theory GcTable
  imports MP_Prelude
begin

text \<open>
  The allocation table of the garbage collector of \<^verbatim>\<open>py/gc.c\<close>: two bits per block, four blocks per
  byte.  The macros \<^verbatim>\<open>ATB_GET_KIND\<close>, \<^verbatim>\<open>ATB_ANY_TO_FREE\<close>, \<^verbatim>\<open>ATB_FREE_TO_HEAD\<close>, \<^verbatim>\<open>ATB_FREE_TO_TAIL\<close>,
  \<^verbatim>\<open>ATB_HEAD_TO_MARK\<close> and \<^verbatim>\<open>ATB_MARK_TO_HEAD\<close> work on the bytes with shifts and masks.  The
  locale \<open>block_table\<close> states what the collector relies on, a table of block kinds in which
  each macro changes one entry, and is interpreted by the byte table.
\<close>

section \<open>The macros\<close>

abbreviation AT_FREE :: "8 word" where "AT_FREE \<equiv> 0"
abbreviation AT_HEAD :: "8 word" where "AT_HEAD \<equiv> 1"
abbreviation AT_TAIL :: "8 word" where "AT_TAIL \<equiv> 2"
abbreviation AT_MARK :: "8 word" where "AT_MARK \<equiv> 3"

abbreviation BLOCKS_PER_ATB :: nat where "BLOCKS_PER_ATB \<equiv> 4"

type_synonym atb = "8 word list"

definition block_shift :: "nat \<Rightarrow> nat" where
  "block_shift block = 2 * (block mod BLOCKS_PER_ATB)"

definition atb_get_kind :: "atb \<Rightarrow> nat \<Rightarrow> 8 word" where
  "atb_get_kind t block = drop_bit (block_shift block) (t ! (block div BLOCKS_PER_ATB)) AND 3"

definition atb_any_to_free :: "atb \<Rightarrow> nat \<Rightarrow> atb" where
  "atb_any_to_free t block =
     t[block div BLOCKS_PER_ATB := t ! (block div BLOCKS_PER_ATB) AND NOT (push_bit (block_shift block) AT_MARK)]"

definition atb_free_to_head :: "atb \<Rightarrow> nat \<Rightarrow> atb" where
  "atb_free_to_head t block =
     t[block div BLOCKS_PER_ATB := t ! (block div BLOCKS_PER_ATB) OR push_bit (block_shift block) AT_HEAD]"

definition atb_free_to_tail :: "atb \<Rightarrow> nat \<Rightarrow> atb" where
  "atb_free_to_tail t block =
     t[block div BLOCKS_PER_ATB := t ! (block div BLOCKS_PER_ATB) OR push_bit (block_shift block) AT_TAIL]"

definition atb_head_to_mark :: "atb \<Rightarrow> nat \<Rightarrow> atb" where
  "atb_head_to_mark t block =
     t[block div BLOCKS_PER_ATB := t ! (block div BLOCKS_PER_ATB) OR push_bit (block_shift block) AT_MARK]"

definition atb_mark_to_head :: "atb \<Rightarrow> nat \<Rightarrow> atb" where
  "atb_mark_to_head t block =
     t[block div BLOCKS_PER_ATB := t ! (block div BLOCKS_PER_ATB) AND NOT (push_bit (block_shift block) AT_TAIL)]"

text \<open>\<^verbatim>\<open>ATB_0_IS_FREE\<close> to \<^verbatim>\<open>ATB_3_IS_FREE\<close> test the \<open>k\<close>-th pair of bits of a byte with a mask.\<close>

definition atb_is_free :: "nat \<Rightarrow> 8 word \<Rightarrow> bool" where
  "atb_is_free k a = (a AND [0x03, 0x0c, 0x30, 0xc0] ! k = 0)"

section \<open>A table of block kinds\<close>

locale block_table =
  fixes kind :: "'t \<Rightarrow> nat \<Rightarrow> 8 word" and size :: "'t \<Rightarrow> nat"
    and to_free to_head to_tail to_mark unmark :: "'t \<Rightarrow> nat \<Rightarrow> 't"
  assumes kind_range: "kind t b \<in> {AT_FREE, AT_HEAD, AT_TAIL, AT_MARK}"
    and size_to_free: "size (to_free t b) = size t" and size_to_head: "size (to_head t b) = size t"
    and size_to_tail: "size (to_tail t b) = size t" and size_to_mark: "size (to_mark t b) = size t"
    and size_unmark: "size (unmark t b) = size t"
    and kind_to_free: "b < size t \<Longrightarrow> c < size t \<Longrightarrow> kind (to_free t b) c = (if c = b then AT_FREE else kind t c)"
    and kind_to_head: "b < size t \<Longrightarrow> c < size t \<Longrightarrow> kind t b = AT_FREE \<Longrightarrow>
      kind (to_head t b) c = (if c = b then AT_HEAD else kind t c)"
    and kind_to_tail: "b < size t \<Longrightarrow> c < size t \<Longrightarrow> kind t b = AT_FREE \<Longrightarrow>
      kind (to_tail t b) c = (if c = b then AT_TAIL else kind t c)"
    and kind_to_mark: "b < size t \<Longrightarrow> c < size t \<Longrightarrow> kind (to_mark t b) c = (if c = b then AT_MARK else kind t c)"
    and kind_unmark: "b < size t \<Longrightarrow> c < size t \<Longrightarrow> kind t b = AT_MARK \<Longrightarrow>
      kind (unmark t b) c = (if c = b then AT_HEAD else kind t c)"
begin

text \<open>Loops that set a run of blocks.\<close>

lemma free_run:
  "b + n \<le> size t \<Longrightarrow> size (foldl to_free t [b ..< b + n]) = size t
    \<and> (\<forall>c < size t. kind (foldl to_free t [b ..< b + n]) c = (if b \<le> c \<and> c < b + n then AT_FREE else kind t c))"
proof (induction n)
  case (Suc n)
  then have "b + n < size (foldl to_free t [b ..< b + n])" by simp
  with Suc show ?case by (auto simp: size_to_free kind_to_free)
qed auto

lemma tail_run:
  assumes "b + n \<le> size t" "\<And>c. b \<le> c \<Longrightarrow> c < b + n \<Longrightarrow> kind t c = AT_FREE"
  shows "size (foldl to_tail t [b ..< b + n]) = size t
    \<and> (\<forall>c < size t. kind (foldl to_tail t [b ..< b + n]) c = (if b \<le> c \<and> c < b + n then AT_TAIL else kind t c))"
  using assms
proof (induction n)
  case (Suc n)
  then have ih: "size (foldl to_tail t [b ..< b + n]) = size t"
    "\<forall>c < size t. kind (foldl to_tail t [b ..< b + n]) c = (if b \<le> c \<and> c < b + n then AT_TAIL else kind t c)"
    by auto
  then have "kind (foldl to_tail t [b ..< b + n]) (b + n) = AT_FREE" using Suc.prems by auto
  with ih Suc.prems(1) show ?case by (auto simp: size_to_tail kind_to_tail)
qed auto

end

section \<open>The byte table is a table of block kinds\<close>

declare bit_numeral_word_iff [simp del]

lemma bit_3_word: "bit (3 :: 8 word) n \<longleftrightarrow> n < 2"
proof -
  have "(3 :: 8 word) = mask 2" by (simp add: mask_eq_exp_minus_1)
  then show ?thesis by (simp only: bit_mask_iff) auto
qed

lemma bit_small_words: "bit (1 :: 8 word) n \<longleftrightarrow> n = 0" "bit (2 :: 8 word) n \<longleftrightarrow> n = 1"
proof -
  show "bit (1 :: 8 word) n \<longleftrightarrow> n = 0" by (simp add: bit_1_iff)
  have "(2 :: 8 word) = push_bit 1 1" by simp
  then show "bit (2 :: 8 word) n \<longleftrightarrow> n = 1"
    by (simp only: bit_push_bit_iff bit_1_iff) auto
qed

lemma block_shift_less: "block_shift b < 7" "even (block_shift b)"
  by (auto simp: block_shift_def)

lemma block_eq_iff: "b = c \<longleftrightarrow> b div 4 = c div 4 \<and> block_shift b = block_shift c"
  by (auto simp: block_shift_def) (metis div_mult_mod_eq)

lemma kind_bit: "bit (atb_get_kind t b) n \<longleftrightarrow> n < 2 \<and> bit (t ! (b div 4)) (block_shift b + n)"
  by (auto simp: atb_get_kind_def bit_and_iff bit_drop_bit_eq bit_3_word)

lemma shift_disjoint:
  assumes "block_shift b \<noteq> block_shift c" "n < 2" "m < 2"
  shows "block_shift c + n \<noteq> block_shift b + m"
  using assms block_shift_less(2) [of b] block_shift_less(2) [of c] by presburger

text \<open>The bits of an updated byte, as the pairs of bits of its blocks see them.\<close>

lemma byte_bits:
  fixes w v :: "8 word"
  assumes "n < 2"
  shows "bit (w AND NOT (push_bit (block_shift b) v)) (block_shift c + n) \<longleftrightarrow>
      bit w (block_shift c + n) \<and> \<not> (block_shift b \<le> block_shift c + n \<and> bit v (block_shift c + n - block_shift b))"
    "bit (w OR push_bit (block_shift b) v) (block_shift c + n) \<longleftrightarrow>
      bit w (block_shift c + n) \<or> block_shift b \<le> block_shift c + n \<and> bit v (block_shift c + n - block_shift b)"
  using assms block_shift_less(1) [of c]
  by (auto simp: bit_and_iff bit_or_iff bit_not_iff bit_push_bit_iff)

lemma block_shift_diff:
  assumes "n < 2" "m < 2" "block_shift c + n = block_shift b + m"
  shows "block_shift c = block_shift b" "n = m"
  using assms block_shift_less(2) [of b] block_shift_less(2) [of c] by presburger+

lemma atb_kind_range: "atb_get_kind t b \<in> {AT_FREE, AT_HEAD, AT_TAIL, AT_MARK}"
proof -
  define k where "k = atb_get_kind t b"
  have z: "\<not> bit k n" if "2 \<le> n" for n using that by (simp add: k_def kind_bit)
  have "k = of_bool (bit k 0) + 2 * of_bool (bit k 1)"
  proof (rule bit_eqI)
    fix n
    show "bit k n \<longleftrightarrow> bit (of_bool (bit k 0) + 2 * of_bool (bit k 1) :: 8 word) n"
    proof (cases "2 \<le> n")
      case True
      then show ?thesis using z by (auto simp: of_bool_def bit_3_word bit_small_words)
    next
      case False
      then consider "n = 0" | "n = 1" by linarith
      then show ?thesis by cases (auto simp: of_bool_def bit_3_word bit_small_words)
    qed
  qed
  then show ?thesis unfolding k_def [symmetric] by (auto simp: of_bool_def split: if_splits)
qed

lemma shifted_bit:
  fixes v :: "8 word"
  assumes "n < 2" "\<forall>m. bit v m \<longrightarrow> m < 2"
  shows "block_shift b \<le> block_shift c + n \<and> bit v (block_shift c + n - block_shift b) \<longleftrightarrow>
    block_shift c = block_shift b \<and> bit v n"
proof
  assume a: "block_shift b \<le> block_shift c + n \<and> bit v (block_shift c + n - block_shift b)"
  then have "block_shift c + n - block_shift b < 2" using assms(2) by blast
  then show "block_shift c = block_shift b \<and> bit v n"
    using block_shift_diff [OF assms(1), of "block_shift c + n - block_shift b" c b] a by auto
qed auto

lemma atb_masked:
  fixes v :: "8 word"
  assumes "b < 4 * length t" "c < 4 * length t" "\<forall>m. bit v m \<longrightarrow> m < 2"
  shows "atb_get_kind (t[b div 4 := t ! (b div 4) AND NOT (push_bit (block_shift b) v)]) c
      = (if c = b then atb_get_kind t b AND NOT v else atb_get_kind t c)"
    "atb_get_kind (t[b div 4 := t ! (b div 4) OR push_bit (block_shift b) v]) c
      = (if c = b then atb_get_kind t b OR v else atb_get_kind t c)"
proof -
  have u: "bit (atb_get_kind (t[b div 4 := w]) c) n \<longleftrightarrow>
      n < 2 \<and> (if c div 4 = b div 4 then bit w (block_shift c + n) else bit (t ! (c div 4)) (block_shift c + n))" for w n
    using assms(1,2) by (auto simp: kind_bit nth_list_update)
  have n8: "n < 2 \<Longrightarrow> n < 8" for n :: nat by simp
  show "atb_get_kind (t[b div 4 := t ! (b div 4) AND NOT (push_bit (block_shift b) v)]) c
      = (if c = b then atb_get_kind t b AND NOT v else atb_get_kind t c)"
  proof (rule bit_eqI)
    fix n
    show "bit (atb_get_kind (t[b div 4 := t ! (b div 4) AND NOT (push_bit (block_shift b) v)]) c) n \<longleftrightarrow>
      bit (if c = b then atb_get_kind t b AND NOT v else atb_get_kind t c) n"
    proof (cases "n < 2 \<and> c div 4 = b div 4")
      case True
      then show ?thesis unfolding u byte_bits(1) [OF conjunct1 [OF True]] shifted_bit [OF conjunct1 [OF True] assms(3)]
        using block_eq_iff [of c b] n8 by (auto simp: kind_bit bit_and_iff bit_not_iff)
    next
      case False
      then show ?thesis unfolding u by (auto simp: kind_bit bit_and_iff)
    qed
  qed
  show "atb_get_kind (t[b div 4 := t ! (b div 4) OR push_bit (block_shift b) v]) c
      = (if c = b then atb_get_kind t b OR v else atb_get_kind t c)"
  proof (rule bit_eqI)
    fix n
    show "bit (atb_get_kind (t[b div 4 := t ! (b div 4) OR push_bit (block_shift b) v]) c) n \<longleftrightarrow>
      bit (if c = b then atb_get_kind t b OR v else atb_get_kind t c) n"
    proof (cases "n < 2 \<and> c div 4 = b div 4")
      case True
      then show ?thesis unfolding u byte_bits(2) [OF conjunct1 [OF True]] shifted_bit [OF conjunct1 [OF True] assms(3)]
        using block_eq_iff [of c b] by (auto simp: kind_bit bit_or_iff)
    next
      case False
      then show ?thesis unfolding u using assms(3) by (auto simp: kind_bit bit_or_iff)
    qed
  qed
qed

lemma atb_kind_laws:
  assumes "b < 4 * length t" "c < 4 * length t"
  shows "atb_get_kind (atb_any_to_free t b) c = (if c = b then AT_FREE else atb_get_kind t c)"
    "atb_get_kind t b = AT_FREE \<Longrightarrow> atb_get_kind (atb_free_to_head t b) c = (if c = b then AT_HEAD else atb_get_kind t c)"
    "atb_get_kind t b = AT_FREE \<Longrightarrow> atb_get_kind (atb_free_to_tail t b) c = (if c = b then AT_TAIL else atb_get_kind t c)"
    "atb_get_kind (atb_head_to_mark t b) c = (if c = b then AT_MARK else atb_get_kind t c)"
    "atb_get_kind t b = AT_MARK \<Longrightarrow> atb_get_kind (atb_mark_to_head t b) c = (if c = b then AT_HEAD else atb_get_kind t c)"
proof -
  have v: "\<forall>m. bit (1 :: 8 word) m \<longrightarrow> m < 2" "\<forall>m. bit (2 :: 8 word) m \<longrightarrow> m < 2"
    "\<forall>m. bit (3 :: 8 word) m \<longrightarrow> m < 2"
    by (auto simp: bit_3_word bit_small_words)
  have k: "k AND NOT 3 = 0" "k OR 3 = 3" if "k \<in> {0, 1, 2, 3}" for k :: "8 word" using that by auto
  note m = atb_masked [OF assms v(1)] atb_masked [OF assms v(2)] atb_masked [OF assms v(3)]
  show "atb_get_kind (atb_any_to_free t b) c = (if c = b then AT_FREE else atb_get_kind t c)"
    unfolding atb_any_to_free_def m(5) k(1) [OF atb_kind_range] ..
  show "atb_get_kind (atb_head_to_mark t b) c = (if c = b then AT_MARK else atb_get_kind t c)"
    unfolding atb_head_to_mark_def m(6) k(2) [OF atb_kind_range] ..
  show "atb_get_kind (atb_free_to_head t b) c = (if c = b then AT_HEAD else atb_get_kind t c)"
    if "atb_get_kind t b = AT_FREE" unfolding atb_free_to_head_def m(2) that by simp
  show "atb_get_kind (atb_free_to_tail t b) c = (if c = b then AT_TAIL else atb_get_kind t c)"
    if "atb_get_kind t b = AT_FREE" unfolding atb_free_to_tail_def m(4) that by simp
  show "atb_get_kind (atb_mark_to_head t b) c = (if c = b then AT_HEAD else atb_get_kind t c)"
    if "atb_get_kind t b = AT_MARK" unfolding atb_mark_to_head_def m(3) that by simp
qed

interpretation atb: block_table atb_get_kind "\<lambda>t. 4 * length t"
  atb_any_to_free atb_free_to_head atb_free_to_tail atb_head_to_mark atb_mark_to_head
proof unfold_locales
  fix t :: atb and b
  show "atb_get_kind t b \<in> {AT_FREE, AT_HEAD, AT_TAIL, AT_MARK}" by (rule atb_kind_range)
qed (simp_all add: atb_kind_laws, simp_all add: atb_any_to_free_def atb_free_to_head_def atb_free_to_tail_def
    atb_head_to_mark_def atb_mark_to_head_def)

lemma atb_is_free_kind:
  assumes "k < 4" "i < length t"
  shows "atb_is_free k (t ! i) \<longleftrightarrow> atb_get_kind t (4 * i + k) = AT_FREE"
proof -
  have "[0x03, 0x0c, 0x30, 0xc0] ! k = (push_bit (2 * k) 3 :: 8 word)"
  proof -
    consider "k = 0" | "k = 1" | "k = 2" | "k = 3" using assms(1) by linarith
    then show ?thesis by cases simp_all
  qed
  moreover have "t ! i AND push_bit (2 * k) 3 = push_bit (2 * k) (drop_bit (2 * k) (t ! i) AND 3)"
    by (rule bit_eqI) (auto simp: bit_and_iff bit_push_bit_iff bit_drop_bit_eq bit_3_word)
  moreover have "push_bit (2 * k) (drop_bit (2 * k) (t ! i) AND 3) = 0 \<longleftrightarrow> drop_bit (2 * k) (t ! i) AND 3 = 0"
  proof
    let ?x = "drop_bit (2 * k) (t ! i) AND 3 :: 8 word"
    assume z: "push_bit (2 * k) ?x = 0"
    show "?x = 0"
    proof (rule bit_eqI)
      fix n
      have "n < 2" if "bit ?x n" using that by (simp add: bit_and_iff bit_3_word)
      moreover have "bit (push_bit (2 * k) ?x) (2 * k + n) \<longleftrightarrow> 2 * k + n < 8 \<and> bit ?x n"
        by (simp only: bit_push_bit_iff) auto
      ultimately show "bit ?x n \<longleftrightarrow> bit 0 n" using z assms(1) by auto
    qed
  qed simp
  moreover have "block_shift (4 * i + k) = 2 * k" "(4 * i + k) div 4 = i"
    using assms(1) by (simp_all add: block_shift_def)
  ultimately show ?thesis by (simp add: atb_is_free_def atb_get_kind_def)
qed

end
