(* ===== verification/Gc.thy ===== *)
theory Gc
  imports GcTable
begin

text \<open>
  The garbage collector of \<^verbatim>\<open>py/gc.c\<close> in the configuration of the SH port: split heap, no finaliser,
  allocation threshold, blocks of 16 bytes and words of 4, a mark stack of 64 entries.  The list
  \<open>areas\<close> is the linked list that starts at \<^verbatim>\<open>MP_STATE_MEM(area)\<close>, an area pointer is an index into it,
  and \<open>alloc_table\<close> is the table with its gap byte.  \<open>memory\<close> gives the word at an address; the
  allocation tables and area structures, which the code keeps outside of the pools, are not part of it.
  The root words, which the port gathers from the interpreter state, the registers and the C stack, are
  a parameter.  \<open>None\<close> is a failed assertion or a loop that does not end.
\<close>

section \<open>State\<close>

abbreviation BYTES_PER_BLOCK :: nat where "BYTES_PER_BLOCK \<equiv> 16"

record gc_area =
  alloc_table :: atb
  alloc_table_byte_len :: nat
  pool_start :: nat
  pool_end :: nat
  last_free_atb_index :: nat
  last_used_block :: nat

record gc_state =
  areas :: "gc_area list"
  last_free_area :: nat
  lock_depth :: nat
  auto_collect_enabled :: bool
  alloc_threshold :: nat
  alloc_amount :: nat
  memory :: "nat \<Rightarrow> nat"

abbreviation area_blocks :: "gc_area \<Rightarrow> nat" where
  "area_blocks area \<equiv> alloc_table_byte_len area * BLOCKS_PER_ATB"

section \<open>Setup\<close>

definition gc_setup_area :: "nat \<Rightarrow> nat \<Rightarrow> gc_area" where
  "gc_setup_area start end_ptr =
     (let total_byte_len = u32 (end_ptr + 2 ^ 32 - start);
          byte_len = u32 (total_byte_len + 2 ^ 32 - 1) div (1 + 8 div 2 * BYTES_PER_BLOCK);
          gc_pool_block_len = byte_len * BLOCKS_PER_ATB
      in \<lparr>alloc_table = replicate (byte_len + 1) 0, alloc_table_byte_len = byte_len,
          pool_start = u32 (end_ptr + 2 ^ 32 - gc_pool_block_len * BYTES_PER_BLOCK), pool_end = end_ptr,
          last_free_atb_index = 0, last_used_block = 0\<rparr>)"

definition gc_init :: "gc_state \<Rightarrow> nat \<Rightarrow> nat \<Rightarrow> gc_state" where
  "gc_init s start end_ptr =
     (let end_ptr = end_ptr - end_ptr mod BYTES_PER_BLOCK
      in s\<lparr>areas := [gc_setup_area start end_ptr], last_free_area := 0, lock_depth := 0,
           auto_collect_enabled := True, alloc_threshold := 2 ^ 32 - 1, alloc_amount := 0\<rparr>)"

text \<open>\<^verbatim>\<open>sizeof(mp_state_mem_area_t)\<close> is 28: seven words.\<close>

definition gc_add :: "gc_state \<Rightarrow> nat \<Rightarrow> nat \<Rightarrow> gc_state" where
  "gc_add s start end_ptr =
     (let start = start + 28;
          end_ptr = end_ptr - end_ptr mod BYTES_PER_BLOCK
      in s\<lparr>areas := areas s @ [gc_setup_area start end_ptr]\<rparr>)"

definition gc_lock :: "gc_state \<Rightarrow> gc_state" where
  "gc_lock s = s\<lparr>lock_depth := u16 (lock_depth s + 1)\<rparr>"

definition gc_unlock :: "gc_state \<Rightarrow> gc_state" where
  "gc_unlock s = s\<lparr>lock_depth := u16 (lock_depth s + 2 ^ 16 - 1)\<rparr>"

definition gc_is_locked :: "gc_state \<Rightarrow> bool" where
  "gc_is_locked s \<longleftrightarrow> lock_depth s \<noteq> 0"

section \<open>Blocks and pointers\<close>

fun gc_find_ptr_area :: "nat \<Rightarrow> gc_area list \<Rightarrow> nat \<Rightarrow> nat option" where
  "gc_find_ptr_area i [] ptr = None"
| "gc_find_ptr_area i (area # rest) ptr =
     (if pool_start area \<le> ptr \<and> ptr < pool_end area then Some i
      else gc_find_ptr_area (Suc i) rest ptr)"

definition gc_get_ptr_area :: "gc_area list \<Rightarrow> nat \<Rightarrow> nat option" where
  "gc_get_ptr_area as ptr =
     (if ptr mod BYTES_PER_BLOCK \<noteq> 0 then None else gc_find_ptr_area 0 as ptr)"

definition block_from_ptr :: "gc_area \<Rightarrow> nat \<Rightarrow> nat" where
  "block_from_ptr area ptr = (ptr - pool_start area) div BYTES_PER_BLOCK"

definition ptr_from_block :: "gc_area \<Rightarrow> nat \<Rightarrow> nat" where
  "ptr_from_block area block = block * BYTES_PER_BLOCK + pool_start area"

text \<open>
  The number of tail blocks from a block on.  The loop of the code has no bound of its own: the
  gap byte stops it, so the bound on the length of the table is never what ends it.
\<close>

function gc_tails :: "atb \<Rightarrow> nat \<Rightarrow> nat" where
  "gc_tails t block =
     (if block < BLOCKS_PER_ATB * length t \<and> atb_get_kind t block = AT_TAIL
      then Suc (gc_tails t (Suc block)) else 0)"
  by pat_completeness auto
termination
  by (relation "measure (\<lambda>(t, block). BLOCKS_PER_ATB * length t - block)") auto

declare gc_tails.simps [simp del]

definition gc_n_blocks :: "atb \<Rightarrow> nat \<Rightarrow> nat" where
  "gc_n_blocks t block = 1 + gc_tails t (block + 1)"

section \<open>Mark\<close>

definition gc_set_mark :: "gc_area list \<Rightarrow> nat \<Rightarrow> nat \<Rightarrow> gc_area list" where
  "gc_set_mark as ai block =
     as[ai := (as ! ai)\<lparr>alloc_table := atb_head_to_mark (alloc_table (as ! ai)) block\<rparr>]"

text \<open>
  The loop over the words of a chain of blocks.  The stack is \<open>gc_block_stack\<close> with \<open>gc_area_stack\<close>,
  its top first.
\<close>

fun gc_mark_ptrs :: "nat list \<Rightarrow> gc_area list \<Rightarrow> (nat \<times> nat) list \<Rightarrow> bool \<Rightarrow>
    gc_area list \<times> (nat \<times> nat) list \<times> bool" where
  "gc_mark_ptrs [] as stack ovf = (as, stack, ovf)"
| "gc_mark_ptrs (ptr # ptrs) as stack ovf =
     (case gc_get_ptr_area as ptr of
        None \<Rightarrow> gc_mark_ptrs ptrs as stack ovf
      | Some ai \<Rightarrow>
          let block = block_from_ptr (as ! ai) ptr
          in if atb_get_kind (alloc_table (as ! ai)) block \<noteq> AT_HEAD then gc_mark_ptrs ptrs as stack ovf
             else if length stack < 64
             then gc_mark_ptrs ptrs (gc_set_mark as ai block) ((ai, block) # stack) ovf
             else gc_mark_ptrs ptrs (gc_set_mark as ai block) stack True)"

definition gc_chain_words :: "(nat \<Rightarrow> nat) \<Rightarrow> gc_area \<Rightarrow> nat \<Rightarrow> nat list" where
  "gc_chain_words mem area block =
     map (\<lambda>i. mem (ptr_from_block area block + 4 * i))
       [0 ..< gc_n_blocks (alloc_table area) block * BYTES_PER_BLOCK div 4]"

partial_function (option) gc_mark_subtree ::
  "(nat \<Rightarrow> nat) \<Rightarrow> gc_area list \<Rightarrow> nat \<Rightarrow> nat \<Rightarrow> (nat \<times> nat) list \<Rightarrow> bool \<Rightarrow> (gc_area list \<times> bool) option" where
  "gc_mark_subtree mem as ai block stack ovf =
     (if pool_start (as ! ai) + (block + gc_n_blocks (alloc_table (as ! ai)) block) * BYTES_PER_BLOCK > pool_end (as ! ai)
      then None
      else case gc_mark_ptrs (gc_chain_words mem (as ! ai) block) as stack ovf of
        (as1, stack1, ovf1) \<Rightarrow>
          (case stack1 of
             [] \<Rightarrow> Some (as1, ovf1)
           | (ai2, block2) # stack2 \<Rightarrow> gc_mark_subtree mem as1 ai2 block2 stack2 ovf1))"

fun gc_collect_root :: "(nat \<Rightarrow> nat) \<Rightarrow> nat list \<Rightarrow> gc_area list \<Rightarrow> bool \<Rightarrow> (gc_area list \<times> bool) option" where
  "gc_collect_root mem [] as ovf = Some (as, ovf)"
| "gc_collect_root mem (ptr # ptrs) as ovf =
     (case gc_get_ptr_area as ptr of
        None \<Rightarrow> gc_collect_root mem ptrs as ovf
      | Some ai \<Rightarrow>
          let block = block_from_ptr (as ! ai) ptr
          in if atb_get_kind (alloc_table (as ! ai)) block = AT_HEAD
             then (case gc_mark_subtree mem (gc_set_mark as ai block) ai block [] ovf of
                     None \<Rightarrow> None
                   | Some (as', ovf') \<Rightarrow> gc_collect_root mem ptrs as' ovf')
             else gc_collect_root mem ptrs as ovf)"

text \<open>The blocks of all areas in the order of the two nested loops.\<close>

definition gc_all_blocks :: "gc_area list \<Rightarrow> (nat \<times> nat) list" where
  "gc_all_blocks as =
     concat (map (\<lambda>ai. map (\<lambda>block. (ai, block)) [0 ..< area_blocks (as ! ai)]) [0 ..< length as])"

fun gc_rescan :: "(nat \<Rightarrow> nat) \<Rightarrow> (nat \<times> nat) list \<Rightarrow> gc_area list \<Rightarrow> bool \<Rightarrow> (gc_area list \<times> bool) option" where
  "gc_rescan mem [] as ovf = Some (as, ovf)"
| "gc_rescan mem ((ai, block) # blocks) as ovf =
     (if atb_get_kind (alloc_table (as ! ai)) block = AT_MARK
      then (case gc_mark_subtree mem as ai block [] ovf of
              None \<Rightarrow> None
            | Some (as', ovf') \<Rightarrow> gc_rescan mem blocks as' ovf')
      else gc_rescan mem blocks as ovf)"

partial_function (option) gc_deal_with_stack_overflow ::
  "(nat \<Rightarrow> nat) \<Rightarrow> gc_area list \<Rightarrow> bool \<Rightarrow> gc_area list option" where
  "gc_deal_with_stack_overflow mem as ovf =
     (if ovf
      then (case gc_rescan mem (gc_all_blocks as) as False of
              None \<Rightarrow> None
            | Some (as', ovf') \<Rightarrow> gc_deal_with_stack_overflow mem as' ovf')
      else Some as)"

section \<open>Sweep\<close>

fun gc_sweep_blocks :: "nat list \<Rightarrow> atb \<Rightarrow> bool \<Rightarrow> nat \<Rightarrow> atb \<times> bool \<times> nat" where
  "gc_sweep_blocks [] t free_tail last_used = (t, free_tail, last_used)"
| "gc_sweep_blocks (block # blocks) t free_tail last_used =
     (let kind = atb_get_kind t block
      in if kind = AT_HEAD then gc_sweep_blocks blocks (atb_any_to_free t block) True last_used
         else if kind = AT_TAIL then
           (if free_tail then gc_sweep_blocks blocks (atb_any_to_free t block) free_tail last_used
            else gc_sweep_blocks blocks t free_tail block)
         else if kind = AT_MARK then gc_sweep_blocks blocks (atb_mark_to_head t block) False block
         else gc_sweep_blocks blocks t free_tail last_used)"

fun gc_sweep :: "gc_area list \<Rightarrow> bool \<Rightarrow> gc_area list" where
  "gc_sweep [] free_tail = []"
| "gc_sweep (area # rest) free_tail =
     (let end_block = (if last_used_block area < area_blocks area then last_used_block area + 1
                       else area_blocks area);
          (t, free_tail, last_used) = gc_sweep_blocks [0 ..< end_block] (alloc_table area) free_tail 0
      in area\<lparr>alloc_table := t, last_used_block := last_used\<rparr> # gc_sweep rest free_tail)"

section \<open>Collection\<close>

definition gc_collect_start :: "gc_state \<Rightarrow> nat list \<Rightarrow> (gc_state \<times> bool) option" where
  "gc_collect_start s roots =
     (let s = s\<lparr>lock_depth := u16 (lock_depth s + 1), alloc_amount := 0\<rparr>
      in case gc_collect_root (memory s) roots (areas s) False of
           None \<Rightarrow> None
         | Some (as, ovf) \<Rightarrow> Some (s\<lparr>areas := as\<rparr>, ovf))"

definition gc_collect_end :: "gc_state \<Rightarrow> bool \<Rightarrow> gc_state option" where
  "gc_collect_end s ovf =
     (case gc_deal_with_stack_overflow (memory s) (areas s) ovf of
        None \<Rightarrow> None
      | Some as \<Rightarrow>
          Some (s\<lparr>areas := map (\<lambda>area. area\<lparr>last_free_atb_index := 0\<rparr>) (gc_sweep as False),
                  last_free_area := 0, lock_depth := u16 (lock_depth s + 2 ^ 16 - 1)\<rparr>))"

text \<open>
  \<^verbatim>\<open>gc_collect\<close> of \<^verbatim>\<open>ports/sh/main.c\<close>: the root pointers of the interpreter state, then the words of the
  registers and the C stack, then the end of the collection.
\<close>

definition gc_collect :: "gc_state \<Rightarrow> nat list \<times> nat list \<Rightarrow> gc_state option" where
  "gc_collect s roots =
     (case gc_collect_start s (fst roots) of
        None \<Rightarrow> None
      | Some (s1, ovf) \<Rightarrow>
          (case gc_collect_root (memory s1) (snd roots) (areas s1) ovf of
             None \<Rightarrow> None
           | Some (as, ovf') \<Rightarrow> gc_collect_end (s1\<lparr>areas := as\<rparr>) ovf'))"

definition gc_sweep_all :: "gc_state \<Rightarrow> gc_state option" where
  "gc_sweep_all s = gc_collect_end (s\<lparr>lock_depth := u16 (lock_depth s + 1)\<rparr>) False"

section \<open>Allocation\<close>

text \<open>
  The four tests of one table byte: the number of free blocks in a row so far, and the block that
  ends a run of \<open>n_blocks\<close>.
\<close>

fun gc_scan_byte :: "nat list \<Rightarrow> 8 word \<Rightarrow> nat \<Rightarrow> nat \<Rightarrow> nat \<Rightarrow> (nat \<times> nat) option \<times> nat" where
  "gc_scan_byte [] a i n_blocks n_free = (None, n_free)"
| "gc_scan_byte (k # ks) a i n_blocks n_free =
     (if atb_is_free k a
      then (if n_free + 1 \<ge> n_blocks then (Some (i * BLOCKS_PER_ATB + k, n_free + 1), n_free + 1)
            else gc_scan_byte ks a i n_blocks (n_free + 1))
      else gc_scan_byte ks a i n_blocks 0)"

fun gc_scan_table :: "nat list \<Rightarrow> atb \<Rightarrow> nat \<Rightarrow> nat \<Rightarrow> (nat \<times> nat) option" where
  "gc_scan_table [] t n_blocks n_free = None"
| "gc_scan_table (i # is) t n_blocks n_free =
     (case gc_scan_byte [0, 1, 2, 3] (t ! i) i n_blocks n_free of
        (Some r, _) \<Rightarrow> Some r
      | (None, n_free) \<Rightarrow> gc_scan_table is t n_blocks n_free)"

text \<open>
  The loop over the areas from \<open>ai\<close> on, \<open>n\<close> of them: the area, the last block and the length of the
  run, or the areas with their search index moved.  At the end of the inner loop \<open>i\<close> is the
  length of the table, or the index it started with.
\<close>

fun gc_find_run :: "nat \<Rightarrow> gc_area list \<Rightarrow> nat \<Rightarrow> nat \<Rightarrow> gc_area list \<times> (nat \<times> nat \<times> nat) option" where
  "gc_find_run 0 as ai n_blocks = (as, None)"
| "gc_find_run (Suc n) as ai n_blocks =
     (let area = as ! ai
      in case gc_scan_table [last_free_atb_index area ..< alloc_table_byte_len area] (alloc_table area) n_blocks 0 of
           Some (i, n_free) \<Rightarrow> (as, Some (ai, i, n_free))
         | None \<Rightarrow>
             let i = max (last_free_atb_index area) (alloc_table_byte_len area);
                 as = (if n_blocks = 1
                       then as[ai := area\<lparr>last_free_atb_index := (i + 1) div BLOCKS_PER_ATB\<rparr>] else as)
             in gc_find_run n as (Suc ai) n_blocks)"

text \<open>From the label \<^verbatim>\<open>found\<close> on.\<close>

definition gc_take_run :: "gc_state \<Rightarrow> nat \<Rightarrow> nat \<Rightarrow> nat \<Rightarrow> nat \<Rightarrow> gc_state \<times> nat" where
  "gc_take_run s ai i n_free n_blocks =
     (let end_block = i;
          start_block = i + 1 - n_free;
          area = areas s ! ai;
          area = (if n_free = 1 then area\<lparr>last_free_atb_index := (i + 1) div BLOCKS_PER_ATB\<rparr> else area);
          t = atb_free_to_head (alloc_table area) start_block;
          t = foldl atb_free_to_tail t [start_block + 1 ..< end_block + 1];
          area = area\<lparr>last_used_block := max (last_used_block area) end_block, alloc_table := t\<rparr>;
          ret_ptr = pool_start area + start_block * BYTES_PER_BLOCK;
          top = ret_ptr + (end_block - start_block + 1) * BYTES_PER_BLOCK
      in (s\<lparr>areas := (areas s)[ai := area],
            last_free_area := (if n_free = 1 then ai else last_free_area s),
            alloc_amount := u32 (alloc_amount s + n_blocks),
            memory := (\<lambda>p. if ret_ptr \<le> p \<and> p < top then 0 else memory s p)\<rparr>, ret_ptr))"

definition gc_try_alloc :: "gc_state \<Rightarrow> nat \<Rightarrow> gc_state \<times> nat option" where
  "gc_try_alloc s n_blocks =
     (case gc_find_run (length (areas s) - last_free_area s) (areas s) (last_free_area s) n_blocks of
        (as, None) \<Rightarrow> (s\<lparr>areas := as\<rparr>, None)
      | (as, Some (ai, i, n_free)) \<Rightarrow>
          (case gc_take_run (s\<lparr>areas := as\<rparr>) ai i n_free n_blocks of (s', p) \<Rightarrow> (s', Some p)))"

text \<open>
  \<open>gc_alloc\<close> returns the null pointer 0 on failure.  The loop \<^verbatim>\<open>for (;;)\<close> goes round at most twice,
  with a collection in between.
\<close>

definition gc_alloc :: "gc_state \<Rightarrow> nat list \<times> nat list \<Rightarrow> nat \<Rightarrow> (gc_state \<times> nat) option" where
  "gc_alloc s roots n_bytes =
     (let n_blocks = u32 (n_bytes + BYTES_PER_BLOCK - 1) div BYTES_PER_BLOCK
      in if n_blocks = 0 then Some (s, 0)
         else if lock_depth s > 0 then Some (s, 0)
         else
           let early = (auto_collect_enabled s \<and> alloc_amount s \<ge> alloc_threshold s);
               collected = (\<not> auto_collect_enabled s \<or> early)
           in case (if early then gc_collect s roots else Some s) of
                None \<Rightarrow> None
              | Some s \<Rightarrow>
                  (case gc_try_alloc s n_blocks of
                     (s, Some p) \<Rightarrow> Some (s, p)
                   | (s, None) \<Rightarrow>
                       if collected then Some (s, 0)
                       else case gc_collect s roots of
                              None \<Rightarrow> None
                            | Some s \<Rightarrow>
                                (case gc_try_alloc s n_blocks of
                                   (s, Some p) \<Rightarrow> Some (s, p)
                                 | (s, None) \<Rightarrow> Some (s, 0))))"

section \<open>Freeing, sizes and reallocation\<close>

definition gc_free :: "gc_state \<Rightarrow> nat \<Rightarrow> gc_state option" where
  "gc_free s ptr =
     (if lock_depth s > 0 then Some s
      else if ptr = 0 then Some s
      else case gc_get_ptr_area (areas s) ptr of
             None \<Rightarrow> None
           | Some ai \<Rightarrow>
               let area = areas s ! ai;
                   block = block_from_ptr area ptr
               in if atb_get_kind (alloc_table area) block \<noteq> AT_HEAD then None
                  else
                    let lfa = (if last_free_area s \<noteq> ai then 0 else last_free_area s);
                        area = (if block div BLOCKS_PER_ATB < last_free_atb_index area
                                then area\<lparr>last_free_atb_index := block div BLOCKS_PER_ATB\<rparr> else area);
                        n = gc_n_blocks (alloc_table area) block;
                        area = area\<lparr>alloc_table := foldl atb_any_to_free (alloc_table area) [block ..< block + n]\<rparr>
                    in Some (s\<lparr>areas := (areas s)[ai := area], last_free_area := lfa\<rparr>))"

definition gc_nbytes :: "gc_state \<Rightarrow> nat \<Rightarrow> nat" where
  "gc_nbytes s ptr =
     (case gc_get_ptr_area (areas s) ptr of
        None \<Rightarrow> 0
      | Some ai \<Rightarrow>
          let area = areas s ! ai;
              block = block_from_ptr area ptr
          in if atb_get_kind (alloc_table area) block = AT_HEAD
             then gc_n_blocks (alloc_table area) block * BYTES_PER_BLOCK else 0)"

text \<open>The loop of \<open>gc_realloc\<close> over the blocks behind the head: \<open>(n_blocks, n_free)\<close>.\<close>

fun gc_realloc_scan :: "nat list \<Rightarrow> atb \<Rightarrow> nat \<Rightarrow> nat \<Rightarrow> nat \<Rightarrow> nat \<times> nat" where
  "gc_realloc_scan [] t new_blocks n_blocks n_free = (n_blocks, n_free)"
| "gc_realloc_scan (bl # bls) t new_blocks n_blocks n_free =
     (let block_type = atb_get_kind t bl
      in if block_type = AT_TAIL then gc_realloc_scan bls t new_blocks (n_blocks + 1) n_free
         else if block_type = AT_FREE
         then (if n_blocks + (n_free + 1) \<ge> new_blocks then (n_blocks, n_free + 1)
               else gc_realloc_scan bls t new_blocks n_blocks (n_free + 1))
         else (n_blocks, n_free))"

definition gc_realloc ::
  "gc_state \<Rightarrow> nat list \<times> nat list \<Rightarrow> nat \<Rightarrow> nat \<Rightarrow> bool \<Rightarrow> (gc_state \<times> nat) option" where
  "gc_realloc s roots ptr_in n_bytes allow_move =
     (if ptr_in = 0 then gc_alloc s roots n_bytes
      else if n_bytes = 0 then map_option (\<lambda>s. (s, 0)) (gc_free s ptr_in)
      else if lock_depth s > 0 then Some (s, 0)
      else case gc_get_ptr_area (areas s) ptr_in of
             None \<Rightarrow> None
           | Some ai \<Rightarrow>
               let area = areas s ! ai;
                   block = block_from_ptr area ptr_in;
                   t = alloc_table area
               in if atb_get_kind t block \<noteq> AT_HEAD then None
                  else
                    let new_blocks = u32 (n_bytes + BYTES_PER_BLOCK - 1) div BYTES_PER_BLOCK;
                        (n_blocks, n_free) = gc_realloc_scan [block + 1 ..< area_blocks area] t new_blocks 1 0
                    in if new_blocks = n_blocks then Some (s, ptr_in)
                       else if new_blocks < n_blocks then
                         let t = foldl atb_any_to_free t [block + new_blocks ..< block + new_blocks + (n_blocks - new_blocks)];
                             idx = (block + new_blocks) div BLOCKS_PER_ATB;
                             area = area\<lparr>alloc_table := t,
                               last_free_atb_index := (if idx < last_free_atb_index area then idx else last_free_atb_index area)\<rparr>
                         in Some (s\<lparr>areas := (areas s)[ai := area],
                                    last_free_area := (if last_free_area s \<noteq> ai then 0 else last_free_area s)\<rparr>, ptr_in)
                       else if new_blocks \<le> n_blocks + n_free then
                         let end_block = block + new_blocks;
                             t = foldl atb_free_to_tail t [block + n_blocks ..< end_block];
                             area = area\<lparr>alloc_table := t, last_used_block := max (last_used_block area) end_block\<rparr>;
                             lo = ptr_in + n_blocks * BYTES_PER_BLOCK;
                             hi = ptr_in + new_blocks * BYTES_PER_BLOCK
                         in Some (s\<lparr>areas := (areas s)[ai := area],
                                    memory := (\<lambda>p. if lo \<le> p \<and> p < hi then 0 else memory s p)\<rparr>, ptr_in)
                       else if \<not> allow_move then Some (s, 0)
                       else case gc_alloc s roots n_bytes of
                              None \<Rightarrow> None
                            | Some (s, ptr_out) \<Rightarrow>
                                if ptr_out = 0 then Some (s, 0)
                                else
                                  let m = memory s;
                                      m' = (\<lambda>p. if ptr_out \<le> p \<and> p < ptr_out + n_blocks * BYTES_PER_BLOCK
                                                then m (ptr_in + (p - ptr_out)) else m p)
                                  in map_option (\<lambda>s. (s, ptr_out)) (gc_free (s\<lparr>memory := m'\<rparr>) ptr_in))"

section \<open>Heap statistics\<close>

record gc_info_t =
  info_total :: nat
  info_used :: nat
  info_free :: nat
  info_max_free :: nat
  info_num_1block :: nat
  info_num_2block :: nat
  info_max_block :: nat

text \<open>One round of the loop over the blocks: the switch on the kind, then the end of a run or a chain.\<close>

definition gc_info_switch :: "8 word \<Rightarrow> gc_info_t \<times> nat \<times> nat \<Rightarrow> gc_info_t \<times> nat \<times> nat" where
  "gc_info_switch kind = (\<lambda>(info, len, len_free).
     if kind = AT_FREE then (info\<lparr>info_free := info_free info + 1\<rparr>, 0, len_free + 1)
     else if kind = AT_HEAD then (info\<lparr>info_used := info_used info + 1\<rparr>, 1, len_free)
     else if kind = AT_TAIL then (info\<lparr>info_used := info_used info + 1\<rparr>, len + 1, len_free)
     else (info, len, len_free))"

definition gc_info_run_end :: "bool \<Rightarrow> 8 word \<Rightarrow> gc_info_t \<times> nat \<times> nat \<Rightarrow> gc_info_t \<times> nat \<times> nat" where
  "gc_info_run_end finish kind = (\<lambda>(info, len, len_free).
     if finish \<or> kind = AT_FREE \<or> kind = AT_HEAD then
       let info = (if len = 1 then info\<lparr>info_num_1block := info_num_1block info + 1\<rparr>
                   else if len = 2 then info\<lparr>info_num_2block := info_num_2block info + 1\<rparr> else info);
           info = (if len > info_max_block info then info\<lparr>info_max_block := len\<rparr> else info)
       in if finish \<or> kind = AT_HEAD
          then (if len_free > info_max_free info then info\<lparr>info_max_free := len_free\<rparr> else info, len, 0)
          else (info, len, len_free)
     else (info, len, len_free))"

fun gc_info_blocks :: "nat list \<Rightarrow> atb \<Rightarrow> nat \<Rightarrow> gc_info_t \<times> nat \<times> nat \<Rightarrow> gc_info_t \<times> nat \<times> nat" where
  "gc_info_blocks [] t n x = x"
| "gc_info_blocks (block # blocks) t n x =
     (let kind = atb_get_kind t block;
          x = gc_info_switch kind x;
          finish = (block + 1 = n);
          kind = (if finish then kind else atb_get_kind t (block + 1))
      in gc_info_blocks blocks t n (gc_info_run_end finish kind x))"

text \<open>The loop of an area without blocks does not end.\<close>

fun gc_info_areas :: "gc_area list \<Rightarrow> gc_info_t \<Rightarrow> gc_info_t option" where
  "gc_info_areas [] info = Some info"
| "gc_info_areas (area # rest) info =
     (let info = info\<lparr>info_total := info_total info + (pool_end area - pool_start area)\<rparr>
      in if area_blocks area = 0 then None
         else case gc_info_blocks [0 ..< area_blocks area] (alloc_table area) (area_blocks area) (info, 0, 0) of
                (info, _) \<Rightarrow> gc_info_areas rest info)"

definition gc_info :: "gc_state \<Rightarrow> gc_info_t option" where
  "gc_info s =
     (case gc_info_areas (areas s) \<lparr>info_total = 0, info_used = 0, info_free = 0, info_max_free = 0,
          info_num_1block = 0, info_num_2block = 0, info_max_block = 0\<rparr> of
        None \<Rightarrow> None
      | Some info \<Rightarrow> Some (info\<lparr>info_used := info_used info * BYTES_PER_BLOCK, info_free := info_free info * BYTES_PER_BLOCK\<rparr>))"

end
