(* ===== verification/GcMark.thy ===== *)
theory GcMark
  imports Gc
begin

text \<open>
  The mark phase of the collector: the depth-first marking with a bounded stack and the rescans
  after a stack overflow end, and mark exactly the blocks that are reachable from the roots.
\<close>

section \<open>Well-formed areas\<close>

abbreviation gc_kind :: "gc_area list \<Rightarrow> nat \<times> nat \<Rightarrow> 8 word" where
  "gc_kind as n \<equiv> atb_get_kind (alloc_table (as ! fst n)) (snd n)"

definition in_heap :: "gc_area list \<Rightarrow> nat \<times> nat \<Rightarrow> bool" where
  "in_heap as n \<longleftrightarrow> fst n < length as \<and> snd n < area_blocks (as ! fst n)"

text \<open>
  The gap byte is free, the pool has as many blocks as the table, and a tail block continues a
  chain of used blocks.
\<close>

definition area_wf :: "gc_area \<Rightarrow> bool" where
  "area_wf area \<longleftrightarrow> length (alloc_table area) = alloc_table_byte_len area + 1
     \<and> (\<forall>b. area_blocks area \<le> b \<and> b < 4 * length (alloc_table area) \<longrightarrow> atb_get_kind (alloc_table area) b = AT_FREE)
     \<and> pool_start area mod BYTES_PER_BLOCK = 0
     \<and> pool_end area = pool_start area + area_blocks area * BYTES_PER_BLOCK
     \<and> (\<forall>b < area_blocks area. atb_get_kind (alloc_table area) b = AT_TAIL \<longrightarrow>
          0 < b \<and> atb_get_kind (alloc_table area) (b - 1) \<noteq> AT_FREE)"

definition areas_wf :: "gc_area list \<Rightarrow> bool" where
  "areas_wf as \<longleftrightarrow> (\<forall>area \<in> set as. area_wf area)
     \<and> (\<forall>i j. i < j \<and> j < length as \<longrightarrow> pool_end (as ! i) \<le> pool_start (as ! j) \<or> pool_end (as ! j) \<le> pool_start (as ! i))"

lemma areas_wfD: "areas_wf as \<Longrightarrow> ai < length as \<Longrightarrow> area_wf (as ! ai)"
  by (auto simp: areas_wf_def)

lemma area_wfD:
  assumes "area_wf area"
  shows "length (alloc_table area) = alloc_table_byte_len area + 1"
    "area_blocks area \<le> b \<Longrightarrow> b < 4 * length (alloc_table area) \<Longrightarrow> atb_get_kind (alloc_table area) b = AT_FREE"
    "pool_start area mod BYTES_PER_BLOCK = 0"
    "pool_end area = pool_start area + area_blocks area * BYTES_PER_BLOCK"
    "b < area_blocks area \<Longrightarrow> atb_get_kind (alloc_table area) b = AT_TAIL \<Longrightarrow>
      0 < b \<and> atb_get_kind (alloc_table area) (b - 1) \<noteq> AT_FREE"
    "area_blocks area < 4 * length (alloc_table area)"
  using assms by (auto simp: area_wf_def)

lemma find_ptr_area_Some:
  "gc_find_ptr_area i as ptr = Some ai \<Longrightarrow> i \<le> ai \<and> ai - i < length as
    \<and> pool_start (as ! (ai - i)) \<le> ptr \<and> ptr < pool_end (as ! (ai - i))"
proof (induction i as ptr rule: gc_find_ptr_area.induct)
  case (2 i area rest ptr)
  then show ?case by (auto simp: nth_Cons' Suc_diff_Suc split: if_splits)
qed simp

lemma get_ptr_area_Some:
  assumes "gc_get_ptr_area as ptr = Some ai"
  shows "ai < length as" "pool_start (as ! ai) \<le> ptr" "ptr < pool_end (as ! ai)" "ptr mod BYTES_PER_BLOCK = 0"
  using assms find_ptr_area_Some [of 0 as ptr ai] by (auto simp: gc_get_ptr_area_def split: if_splits)

lemma get_ptr_area_block:
  assumes "gc_get_ptr_area as ptr = Some ai" "areas_wf as"
  shows "in_heap as (ai, block_from_ptr (as ! ai) ptr)"
    "ptr = ptr_from_block (as ! ai) (block_from_ptr (as ! ai) ptr)"
proof -
  note p = get_ptr_area_Some [OF assms(1)]
  note w = area_wfD(3,4) [OF areas_wfD [OF assms(2) p(1)]]
  have "16 dvd ptr - pool_start (as ! ai)" using p(4) w(1) by (intro dvd_diff_nat) (auto simp: mod_eq_0_iff_dvd)
  then have "16 * ((ptr - pool_start (as ! ai)) div 16) = ptr - pool_start (as ! ai)" by auto
  then show "ptr = ptr_from_block (as ! ai) (block_from_ptr (as ! ai) ptr)"
    using p(2) by (simp add: ptr_from_block_def block_from_ptr_def mult.commute)
  show "in_heap as (ai, block_from_ptr (as ! ai) ptr)"
    using p(1-3) w(2) by (auto simp: in_heap_def block_from_ptr_def div_less_iff_less_mult)
qed

text \<open>The chain of a head block ends before the gap byte.\<close>

lemma gc_tails_bound:
  assumes "area_wf area" "block \<le> area_blocks area"
  shows "block + gc_tails (alloc_table area) block \<le> area_blocks area"
  using assms(2)
proof (induction "area_blocks area - block" arbitrary: block rule: less_induct)
  case less
  show ?case
  proof (cases "block < area_blocks area \<and> atb_get_kind (alloc_table area) block = AT_TAIL")
    case True
    then have "Suc block + gc_tails (alloc_table area) (Suc block) \<le> area_blocks area"
      by (intro less.hyps) auto
    then show ?thesis by (subst gc_tails.simps) simp
  next
    case False
    then have "\<not> (block < 4 * length (alloc_table area) \<and> atb_get_kind (alloc_table area) block = AT_TAIL)"
      using area_wfD(2) [OF assms(1), of block] less.prems by (cases "block < area_blocks area") auto
    then have "gc_tails (alloc_table area) block = 0" by (subst gc_tails.simps) auto
    with less.prems show ?thesis by simp
  qed
qed

lemma gc_tails_kinds:
  "b \<le> c \<Longrightarrow> c < b + gc_tails t b \<Longrightarrow> atb_get_kind t c = AT_TAIL"
proof (induction t b rule: gc_tails.induct)
  case (1 t b)
  show ?case
  proof (cases "b < 4 * length t \<and> atb_get_kind t b = AT_TAIL")
    case True
    then have "gc_tails t b = Suc (gc_tails t (Suc b))" by (subst gc_tails.simps) simp
    with 1 True show ?thesis by (cases "c = b") auto
  next
    case False
    then have "gc_tails t b = 0" by (subst gc_tails.simps) auto
    with 1 show ?thesis by simp
  qed
qed

lemma gc_tails_end:
  "b + gc_tails t b < 4 * length t \<Longrightarrow> atb_get_kind t (b + gc_tails t b) \<noteq> AT_TAIL"
proof (induction t b rule: gc_tails.induct)
  case (1 t b)
  show ?case
  proof (cases "b < 4 * length t \<and> atb_get_kind t b = AT_TAIL")
    case True
    then have "gc_tails t b = Suc (gc_tails t (Suc b))" by (subst gc_tails.simps) simp
    with 1 True show ?thesis by auto
  next
    case False
    then have "gc_tails t b = 0" by (subst gc_tails.simps) auto
    with 1 False show ?thesis by auto
  qed
qed

lemma gc_tails_cong:
  assumes "length t = length t'" "\<And>c. c < 4 * length t \<Longrightarrow> b \<le> c \<Longrightarrow> atb_get_kind t c = AT_TAIL \<longleftrightarrow> atb_get_kind t' c = AT_TAIL"
  shows "gc_tails t b = gc_tails t' b"
  using assms
proof (induction t b rule: gc_tails.induct)
  case (1 t b)
  show ?case
  proof (cases "b < 4 * length t \<and> atb_get_kind t b = AT_TAIL")
    case True
    then have "gc_tails t (Suc b) = gc_tails t' (Suc b)" using 1 by auto
    with 1(2,3) True show ?thesis by (subst (1 2) gc_tails.simps) auto
  next
    case False
    with 1(2,3) show ?thesis by (subst (1 2) gc_tails.simps) auto
  qed
qed

section \<open>The heap graph\<close>

definition gc_target :: "gc_area list \<Rightarrow> nat \<Rightarrow> (nat \<times> nat) option" where
  "gc_target as ptr = map_option (\<lambda>ai. (ai, block_from_ptr (as ! ai) ptr)) (gc_get_ptr_area as ptr)"

definition gc_nodes :: "gc_area list \<Rightarrow> (nat \<times> nat) set" where
  "gc_nodes as = {n. in_heap as n \<and> gc_kind as n = AT_HEAD}"

definition gc_words :: "(nat \<Rightarrow> nat) \<Rightarrow> gc_area list \<Rightarrow> nat \<times> nat \<Rightarrow> nat list" where
  "gc_words mem as n = gc_chain_words mem (as ! fst n) (snd n)"

text \<open>The heads that some of the words point to.\<close>

definition gc_pointees :: "gc_area list \<Rightarrow> nat list \<Rightarrow> (nat \<times> nat) set" where
  "gc_pointees as ptrs = {n \<in> gc_nodes as. \<exists>ptr \<in> set ptrs. gc_target as ptr = Some n}"

inductive_set gc_reachable :: "(nat \<Rightarrow> nat) \<Rightarrow> gc_area list \<Rightarrow> (nat \<times> nat) set \<Rightarrow> (nat \<times> nat) set"
  for mem as roots where
  root: "n \<in> roots \<Longrightarrow> n \<in> gc_reachable mem as roots"
| step: "n \<in> gc_reachable mem as roots \<Longrightarrow> m \<in> gc_pointees as (gc_words mem as n) \<Longrightarrow> m \<in> gc_reachable mem as roots"

lemma finite_gc_nodes: "finite (gc_nodes as)"
proof (rule finite_subset)
  show "gc_nodes as \<subseteq> (\<Union>ai < length as. {ai} \<times> {..< area_blocks (as ! ai)})"
    by (auto simp: gc_nodes_def in_heap_def)
qed auto

lemma gc_reachable_mono: "R \<subseteq> S \<Longrightarrow> gc_reachable mem as R \<subseteq> gc_reachable mem as S"
proof
  fix n
  assume "n \<in> gc_reachable mem as R" "R \<subseteq> S"
  then show "n \<in> gc_reachable mem as S"
    by (induction rule: gc_reachable.induct) (auto intro: gc_reachable.intros)
qed

lemma gc_reachable_trans:
  assumes "R \<subseteq> gc_reachable mem as S"
  shows "gc_reachable mem as R \<subseteq> gc_reachable mem as S"
proof
  fix n
  assume "n \<in> gc_reachable mem as R"
  then show "n \<in> gc_reachable mem as S"
    by (induction rule: gc_reachable.induct) (use assms in \<open>auto intro: gc_reachable.step\<close>)
qed

lemma gc_reachable_least:
  assumes "roots \<subseteq> M" "\<And>n. n \<in> M \<Longrightarrow> gc_pointees as (gc_words mem as n) \<subseteq> M"
  shows "gc_reachable mem as roots \<subseteq> M"
proof
  fix n
  assume "n \<in> gc_reachable mem as roots"
  then show "n \<in> M" by (induction rule: gc_reachable.induct) (use assms in auto)
qed

section \<open>Marked areas\<close>

text \<open>\<open>as\<close> is \<open>as0\<close> with the heads in \<open>M\<close> marked.\<close>

definition gc_marked :: "gc_area list \<Rightarrow> (nat \<times> nat) set \<Rightarrow> gc_area list \<Rightarrow> bool" where
  "gc_marked as0 M as \<longleftrightarrow> length as = length as0 \<and> M \<subseteq> gc_nodes as0
     \<and> (\<forall>ai < length as0. (\<exists>t. as ! ai = (as0 ! ai)\<lparr>alloc_table := t\<rparr>)
         \<and> length (alloc_table (as ! ai)) = length (alloc_table (as0 ! ai))
         \<and> (\<forall>b < 4 * length (alloc_table (as0 ! ai)).
              gc_kind as (ai, b) = (if (ai, b) \<in> M then AT_MARK else gc_kind as0 (ai, b))))"

lemma gc_marked_refl: "gc_marked as0 {} as0"
proof -
  have "\<exists>t. area = area\<lparr>alloc_table := t\<rparr>" for area :: gc_area
    by (rule exI [of _ "alloc_table area"]) simp
  then show ?thesis unfolding gc_marked_def by simp
qed

lemma gc_markedD:
  assumes "gc_marked as0 M as"
  shows "length as = length as0" "M \<subseteq> gc_nodes as0"
    "ai < length as0 \<Longrightarrow> pool_start (as ! ai) = pool_start (as0 ! ai)"
    "ai < length as0 \<Longrightarrow> pool_end (as ! ai) = pool_end (as0 ! ai)"
    "ai < length as0 \<Longrightarrow> alloc_table_byte_len (as ! ai) = alloc_table_byte_len (as0 ! ai)"
    "ai < length as0 \<Longrightarrow> length (alloc_table (as ! ai)) = length (alloc_table (as0 ! ai))"
    "ai < length as0 \<Longrightarrow> b < 4 * length (alloc_table (as0 ! ai)) \<Longrightarrow>
      gc_kind as (ai, b) = (if (ai, b) \<in> M then AT_MARK else gc_kind as0 (ai, b))"
  using assms unfolding gc_marked_def by fastforce+

lemma find_ptr_area_cong:
  assumes "length as = length as'"
    and "\<And>i. i < length as \<Longrightarrow> pool_start (as ! i) = pool_start (as' ! i) \<and> pool_end (as ! i) = pool_end (as' ! i)"
  shows "gc_find_ptr_area k as ptr = gc_find_ptr_area k as' ptr"
  using assms
proof (induction as as' arbitrary: k rule: list_induct2)
  case (Cons a as b bs)
  have "pool_start a = pool_start b" "pool_end a = pool_end b" using Cons.prems [of 0] by auto
  moreover have "gc_find_ptr_area (Suc k) as ptr = gc_find_ptr_area (Suc k) bs ptr"
    using Cons.prems [of "Suc i" for i] by (intro Cons.IH) auto
  ultimately show ?case by simp
qed simp

lemma gc_marked_static:
  assumes "gc_marked as0 M as" "areas_wf as0"
  shows "gc_get_ptr_area as ptr = gc_get_ptr_area as0 ptr"
    "ai < length as0 \<Longrightarrow> block_from_ptr (as ! ai) ptr = block_from_ptr (as0 ! ai) ptr"
    "ai < length as0 \<Longrightarrow> gc_n_blocks (alloc_table (as ! ai)) b = gc_n_blocks (alloc_table (as0 ! ai)) b"
    "ai < length as0 \<Longrightarrow> gc_chain_words mem (as ! ai) b = gc_words mem as0 (ai, b)"
proof -
  note d = gc_markedD [OF assms(1)]
  show "gc_get_ptr_area as ptr = gc_get_ptr_area as0 ptr"
    unfolding gc_get_ptr_area_def using find_ptr_area_cong [of as as0 0 ptr] d(1,3,4) by simp
  show "ai < length as0 \<Longrightarrow> block_from_ptr (as ! ai) ptr = block_from_ptr (as0 ! ai) ptr"
    by (simp add: block_from_ptr_def d(3))
  show n: "ai < length as0 \<Longrightarrow> gc_n_blocks (alloc_table (as ! ai)) b = gc_n_blocks (alloc_table (as0 ! ai)) b" for ai
  proof -
    assume ai: "ai < length as0"
    have "gc_tails (alloc_table (as ! ai)) (b + 1) = gc_tails (alloc_table (as0 ! ai)) (b + 1)"
    proof (rule gc_tails_cong)
      fix c
      assume "c < 4 * length (alloc_table (as ! ai))"
      then have c: "c < 4 * length (alloc_table (as0 ! ai))" using d(6) [OF ai] by simp
      show "atb_get_kind (alloc_table (as ! ai)) c = AT_TAIL \<longleftrightarrow> atb_get_kind (alloc_table (as0 ! ai)) c = AT_TAIL"
        using d(7) [OF ai c] d(2) by (auto simp: gc_nodes_def split: if_splits)
    qed (use d(6) ai in simp)
    then show ?thesis by (simp add: gc_n_blocks_def)
  qed
  show "ai < length as0 \<Longrightarrow> gc_chain_words mem (as ! ai) b = gc_words mem as0 (ai, b)"
    using n [of ai] d(3) [of ai] by (simp add: gc_chain_words_def gc_words_def ptr_from_block_def)
qed

lemma gc_set_mark_marked:
  assumes "gc_marked as0 M as" "areas_wf as0" "(ai, b) \<in> gc_nodes as0"
  shows "gc_marked as0 (insert (ai, b) M) (gc_set_mark as ai b)"
proof -
  note d = gc_markedD [OF assms(1)]
  have h: "ai < length as0" "b < area_blocks (as0 ! ai)" using assms(3) by (auto simp: gc_nodes_def in_heap_def)
  then have b: "b < 4 * length (alloc_table (as0 ! ai))"
    using area_wfD(6) [OF areas_wfD [OF assms(2) h(1)]] by simp
  obtain t where t: "as ! ai = (as0 ! ai)\<lparr>alloc_table := t\<rparr>" using assms(1) h(1) by (auto simp: gc_marked_def)
  show ?thesis
    unfolding gc_marked_def
  proof (intro conjI allI impI)
    show "length (gc_set_mark as ai b) = length as0" by (simp add: gc_set_mark_def d(1))
    show "insert (ai, b) M \<subseteq> gc_nodes as0" using assms(3) d(2) by simp
    fix aj
    assume aj: "aj < length as0"
    obtain tj where tj: "as ! aj = (as0 ! aj)\<lparr>alloc_table := tj\<rparr>" using assms(1) aj by (auto simp: gc_marked_def)
    show "\<exists>t. gc_set_mark as ai b ! aj = (as0 ! aj)\<lparr>alloc_table := t\<rparr>"
      using t tj aj h(1) d(1) by (cases "aj = ai") (auto simp: gc_set_mark_def)
    show "length (alloc_table (gc_set_mark as ai b ! aj)) = length (alloc_table (as0 ! aj))"
      using d(6) [OF aj] aj d(1) by (cases "aj = ai") (auto simp: gc_set_mark_def atb_head_to_mark_def)
    fix c
    assume c: "c < 4 * length (alloc_table (as0 ! aj))"
    show "gc_kind (gc_set_mark as ai b) (aj, c) = (if (aj, c) \<in> insert (ai, b) M then AT_MARK else gc_kind as0 (aj, c))"
    proof (cases "aj = ai")
      case True
      then have "gc_kind (gc_set_mark as ai b) (aj, c) = (if c = b then AT_MARK else gc_kind as (ai, c))"
        using atb.kind_to_mark [of b "alloc_table (as ! ai)" c] b c d(1,6) h(1) by (simp add: gc_set_mark_def)
      with True d(7) [OF h(1)] c show ?thesis by auto
    next
      case False
      then show ?thesis using d(7) [OF aj c] by (simp add: gc_set_mark_def)
    qed
  qed
qed

section \<open>Marking\<close>

lemma gc_marked_kind_head:
  assumes "gc_marked as0 M as" "areas_wf as0" "in_heap as0 n"
  shows "gc_kind as n = AT_HEAD \<longleftrightarrow> n \<in> gc_nodes as0 - M" "gc_kind as n = AT_MARK \<longleftrightarrow> n \<in> M \<or> gc_kind as0 n = AT_MARK"
proof -
  obtain ai b where n: "n = (ai, b)" by (cases n)
  have h: "ai < length as0" "b < area_blocks (as0 ! ai)" using assms(3) by (auto simp: n in_heap_def)
  then have b: "b < 4 * length (alloc_table (as0 ! ai))"
    using area_wfD(6) [OF areas_wfD [OF assms(2) h(1)]] by simp
  show "gc_kind as n = AT_HEAD \<longleftrightarrow> n \<in> gc_nodes as0 - M" "gc_kind as n = AT_MARK \<longleftrightarrow> n \<in> M \<or> gc_kind as0 n = AT_MARK"
    using gc_markedD(7) [OF assms(1) h(1) b] assms(3) by (auto simp: n gc_nodes_def split: if_splits)
qed

lemma gc_target_in_heap:
  "gc_target as ptr = Some n \<Longrightarrow> areas_wf as \<Longrightarrow> in_heap as n"
  using get_ptr_area_block(1) [of as ptr] by (auto simp: gc_target_def)

text \<open>
  The words of one chain: every head they point to is marked afterwards, and pushed unless the
  overflow flag is set.
\<close>

lemma gc_mark_ptrs_correct:
  assumes "areas_wf as0" "gc_marked as0 M as" "length stack \<le> 64"
  shows "\<exists>N as' stack' ovf'. gc_mark_ptrs ptrs as stack ovf = (as', stack', ovf')
    \<and> gc_marked as0 (M \<union> N) as' \<and> N = gc_pointees as0 ptrs - M
    \<and> set stack \<subseteq> set stack' \<and> set stack' \<subseteq> set stack \<union> N \<and> length stack' \<le> 64
    \<and> length stack' \<le> length stack + card N
    \<and> (ovf \<longrightarrow> ovf') \<and> (ovf' \<longrightarrow> ovf \<or> N \<noteq> {}) \<and> (\<not> ovf' \<longrightarrow> N \<subseteq> set stack')"
  using assms(2,3)
proof (induction ptrs arbitrary: as stack ovf M)
  case Nil
  then show ?case by (auto simp: gc_pointees_def)
next
  case (Cons ptr ptrs)
  note st = gc_marked_static(1,2) [OF Cons.prems(1) assms(1)]
  show ?case
  proof (cases "\<exists>n. gc_target as0 ptr = Some n \<and> n \<in> gc_nodes as0 - M")
    case False
    have skip: "gc_mark_ptrs (ptr # ptrs) as stack ovf = gc_mark_ptrs ptrs as stack ovf"
    proof (cases "gc_get_ptr_area as0 ptr")
      case None
      then show ?thesis by (simp add: st(1))
    next
      case (Some ai)
      let ?n = "(ai, block_from_ptr (as0 ! ai) ptr)"
      have t: "gc_target as0 ptr = Some ?n" using Some by (simp add: gc_target_def)
      have "gc_kind as ?n \<noteq> AT_HEAD"
        using False t gc_marked_kind_head(1) [OF Cons.prems(1) assms(1) gc_target_in_heap [OF t assms(1)]] by auto
      then show ?thesis using Some get_ptr_area_Some(1) [OF Some] st(2) by (simp add: st(1))
    qed
    have "gc_pointees as0 (ptr # ptrs) - M = gc_pointees as0 ptrs - M"
      using False by (auto simp: gc_pointees_def)
    then show ?thesis using Cons.IH [OF Cons.prems, of ovf] skip by simp
  next
    case True
    then obtain ai b where n: "gc_target as0 ptr = Some (ai, b)" "(ai, b) \<in> gc_nodes as0" "(ai, b) \<notin> M" by auto
    then have pa: "gc_get_ptr_area as0 ptr = Some ai" "b = block_from_ptr (as0 ! ai) ptr"
      by (auto simp: gc_target_def)
    have hd: "gc_kind as (ai, b) = AT_HEAD"
      using gc_marked_kind_head(1) [OF Cons.prems(1) assms(1) gc_target_in_heap [OF n(1) assms(1)]] n by simp
    let ?as = "gc_set_mark as ai b" and ?M = "insert (ai, b) M"
    define s1 where "s1 = (if length stack < 64 then (ai, b) # stack else stack)"
    define o1 where "o1 = (if length stack < 64 then ovf else True)"
    have step: "gc_mark_ptrs (ptr # ptrs) as stack ovf = gc_mark_ptrs ptrs ?as s1 o1"
      using pa hd st(2) get_ptr_area_Some(1) [OF pa(1)] by (simp add: st(1) Let_def s1_def o1_def)
    have m1: "gc_marked as0 ?M ?as" by (rule gc_set_mark_marked [OF Cons.prems(1) assms(1) n(2)])
    have l1: "length s1 \<le> 64" using Cons.prems(2) by (simp add: s1_def)
    obtain N as' stack' ovf' where ih: "gc_mark_ptrs ptrs ?as s1 o1 = (as', stack', ovf')"
      "gc_marked as0 (?M \<union> N) as'" "N = gc_pointees as0 ptrs - ?M"
      "set s1 \<subseteq> set stack'" "set stack' \<subseteq> set s1 \<union> N" "length stack' \<le> 64"
      "length stack' \<le> length s1 + card N" "o1 \<longrightarrow> ovf'" "ovf' \<longrightarrow> o1 \<or> N \<noteq> {}" "\<not> ovf' \<longrightarrow> N \<subseteq> set stack'"
      using Cons.IH [OF m1 l1, of o1] by blast
    let ?N = "insert (ai, b) N"
    have "finite N" unfolding ih(3) by (rule finite_subset [OF _ finite_gc_nodes [of as0]]) (auto simp: gc_pointees_def)
    moreover have "(ai, b) \<notin> N" using ih(3) by simp
    ultimately have c: "card ?N = Suc (card N)" by simp
    have eqN: "?N = gc_pointees as0 (ptr # ptrs) - M"
      unfolding ih(3) using n by (auto simp: gc_pointees_def)
    have mkd: "gc_marked as0 (M \<union> ?N) as'" using ih(2) by simp
    have len: "length stack' \<le> length stack + card ?N"
      using ih(7) c by (simp add: s1_def split: if_splits)
    have s1: "set stack \<subseteq> set s1" "set s1 \<subseteq> insert (ai, b) (set stack)" by (auto simp: s1_def)
    have sub: "set stack \<subseteq> set stack'" "set stack' \<subseteq> set stack \<union> ?N" using s1 ih(4,5) by blast+
    have o: "ovf \<longrightarrow> ovf'" "ovf' \<longrightarrow> ovf \<or> ?N \<noteq> {}" using ih(8) by (auto simp: o1_def split: if_splits)
    have "\<not> ovf' \<longrightarrow> (ai, b) \<in> set stack'"
    proof
      assume "\<not> ovf'"
      then have "length stack < 64" using ih(8) by (auto simp: o1_def split: if_splits)
      then show "(ai, b) \<in> set stack'" using ih(4) by (auto simp: s1_def)
    qed
    then have "\<not> ovf' \<longrightarrow> ?N \<subseteq> set stack'" using ih(10) by blast
    then show ?thesis unfolding step ih(1) using eqN mkd len sub o ih(6) by blast
  qed
qed

text \<open>
  A run of \<open>gc_mark_subtree\<close> from a marked block: it ends, marks only what is reachable, and unless
  the stack has overflowed every block it has marked, the starting block and the stack are closed.
\<close>

abbreviation gc_closed :: "(nat \<Rightarrow> nat) \<Rightarrow> gc_area list \<Rightarrow> (nat \<times> nat) set \<Rightarrow> nat \<times> nat \<Rightarrow> bool" where
  "gc_closed mem as0 M n \<equiv> gc_pointees as0 (gc_words mem as0 n) \<subseteq> M"

lemma gc_chain_in_pool:
  assumes "areas_wf as0" "gc_marked as0 M as" "in_heap as0 (ai, b)"
  shows "pool_start (as ! ai) + (b + gc_n_blocks (alloc_table (as ! ai)) b) * BYTES_PER_BLOCK \<le> pool_end (as ! ai)"
proof -
  have h: "ai < length as0" "b < area_blocks (as0 ! ai)" using assms(3) by (auto simp: in_heap_def)
  note w = areas_wfD [OF assms(1) h(1)]
  have "b + gc_n_blocks (alloc_table (as0 ! ai)) b \<le> area_blocks (as0 ! ai)"
    using gc_tails_bound [OF w, of "b + 1"] h(2) by (simp add: gc_n_blocks_def)
  then have "(b + gc_n_blocks (alloc_table (as0 ! ai)) b) * BYTES_PER_BLOCK \<le> area_blocks (as0 ! ai) * BYTES_PER_BLOCK"
    by (rule mult_le_mono1)
  then show ?thesis
    unfolding gc_marked_static(3) [OF assms(2,1) h(1)] gc_markedD(3,4) [OF assms(2) h(1)] area_wfD(4) [OF w] by simp
qed

lemma gc_mark_subtree_correct:
  assumes "areas_wf as0" "gc_marked as0 M as" "n \<in> M" "set stack \<subseteq> M" "length stack \<le> 64"
  shows "\<exists>M' as' ovf'. gc_mark_subtree mem as (fst n) (snd n) stack ovf = Some (as', ovf')
    \<and> gc_marked as0 M' as' \<and> M \<subseteq> M' \<and> M' \<subseteq> M \<union> gc_reachable mem as0 (insert n (set stack))
    \<and> (ovf \<longrightarrow> ovf') \<and> (ovf' \<longrightarrow> ovf \<or> M' \<noteq> M)
    \<and> (\<not> ovf' \<longrightarrow> (\<forall>x \<in> (M' - M) \<union> insert n (set stack). gc_closed mem as0 M' x))"
  using assms(2-)
proof (induction "2 * card (gc_nodes as0 - M) + length stack" arbitrary: M as n stack ovf rule: less_induct)
  case less
  note mk = less.prems(1)
  obtain ai b where n: "n = (ai, b)" by (cases n)
  have nn: "(ai, b) \<in> gc_nodes as0" using less.prems(2) gc_markedD(2) [OF mk] n by auto
  then have h: "in_heap as0 (ai, b)" "ai < length as0" by (auto simp: gc_nodes_def in_heap_def)
  have w: "gc_chain_words mem (as ! ai) b = gc_words mem as0 (ai, b)"
    by (rule gc_marked_static(4) [OF mk assms(1) h(2)])
  obtain N as1 stack1 ovf1 where p: "gc_mark_ptrs (gc_words mem as0 (ai, b)) as stack ovf = (as1, stack1, ovf1)"
    "gc_marked as0 (M \<union> N) as1" "N = gc_pointees as0 (gc_words mem as0 (ai, b)) - M"
    "set stack \<subseteq> set stack1" "set stack1 \<subseteq> set stack \<union> N" "length stack1 \<le> 64"
    "length stack1 \<le> length stack + card N" "ovf \<longrightarrow> ovf1" "ovf1 \<longrightarrow> ovf \<or> N \<noteq> {}" "\<not> ovf1 \<longrightarrow> N \<subseteq> set stack1"
    using gc_mark_ptrs_correct [OF assms(1) mk less.prems(4), of "gc_words mem as0 (ai, b)" ovf] by blast
  have step: "gc_mark_subtree mem as (fst n) (snd n) stack ovf =
      (case stack1 of [] \<Rightarrow> Some (as1, ovf1)
       | (ai2, block2) # stack2 \<Rightarrow> gc_mark_subtree mem as1 ai2 block2 stack2 ovf1)"
    unfolding n using gc_chain_in_pool [OF assms(1) mk h(1)] p(1)
    by (subst gc_mark_subtree.simps) (simp add: w)
  have cl: "gc_closed mem as0 (M \<union> N) n" using p(3) n by auto
  have reach: "N \<subseteq> gc_reachable mem as0 (insert n (set stack))"
  proof
    fix x
    assume "x \<in> N"
    then have "x \<in> gc_pointees as0 (gc_words mem as0 n)" using p(3) n by simp
    moreover have "n \<in> gc_reachable mem as0 (insert n (set stack))" by (rule gc_reachable.root) simp
    ultimately show "x \<in> gc_reachable mem as0 (insert n (set stack))" by (rule gc_reachable.step [rotated])
  qed
  show ?case
  proof (cases stack1)
    case Nil
    then have e: "stack = []" using p(4) by simp
    have "\<not> ovf1 \<longrightarrow> N = {}" using p(10) Nil by simp
    moreover have "ovf1 \<longrightarrow> ovf \<or> M \<union> N \<noteq> M" using p(9,3) by auto
    ultimately show ?thesis unfolding step Nil using p(2,8) cl reach e
      by (intro exI [of _ "M \<union> N"] exI [of _ as1] exI [of _ ovf1]) auto
  next
    case (Cons m stack2)
    have fin: "finite (gc_nodes as0 - M)" using finite_gc_nodes [of as0] by simp
    have Nsub: "N \<subseteq> gc_nodes as0 - M" using p(3) by (auto simp: gc_pointees_def)
    have "gc_nodes as0 - (M \<union> N) = (gc_nodes as0 - M) - N" by auto
    then have "card (gc_nodes as0 - (M \<union> N)) = card (gc_nodes as0 - M) - card N"
      using card_Diff_subset [OF finite_subset [OF Nsub fin] Nsub] by simp
    moreover have "card N \<le> card (gc_nodes as0 - M)" by (rule card_mono [OF fin Nsub])
    ultimately have dec: "2 * card (gc_nodes as0 - (M \<union> N)) + length stack2 < 2 * card (gc_nodes as0 - M) + length stack"
      using p(7) Cons by simp
    have "m \<in> M \<union> N" "set stack2 \<subseteq> M \<union> N" "length stack2 \<le> 64"
      using p(5,6) Cons less.prems(3) by auto
    from less.hyps [OF dec p(2) this, of ovf1] obtain M' as' ovf' where ih:
      "gc_mark_subtree mem as1 (fst m) (snd m) stack2 ovf1 = Some (as', ovf')" "gc_marked as0 M' as'"
      "M \<union> N \<subseteq> M'" "M' \<subseteq> M \<union> N \<union> gc_reachable mem as0 (insert m (set stack2))" "ovf1 \<longrightarrow> ovf'"
      "ovf' \<longrightarrow> ovf1 \<or> M' \<noteq> M \<union> N"
      "\<not> ovf' \<longrightarrow> (\<forall>x \<in> (M' - (M \<union> N)) \<union> insert m (set stack2). gc_closed mem as0 M' x)" by blast
    have "gc_reachable mem as0 (insert m (set stack2)) \<subseteq> gc_reachable mem as0 (insert n (set stack))"
    proof (rule gc_reachable_trans, rule subset_trans)
      show "insert m (set stack2) \<subseteq> set stack \<union> N" using p(5) Cons by auto
      show "set stack \<union> N \<subseteq> gc_reachable mem as0 (insert n (set stack))"
        using reach by (auto intro: gc_reachable.root)
    qed
    then have up: "M' \<subseteq> M \<union> gc_reachable mem as0 (insert n (set stack))" using ih(4) reach by blast
    have clo: "\<not> ovf' \<longrightarrow> (\<forall>x \<in> (M' - M) \<union> insert n (set stack). gc_closed mem as0 M' x)"
    proof (intro impI ballI)
      fix x
      assume o: "\<not> ovf'" and x: "x \<in> (M' - M) \<union> insert n (set stack)"
      then have "N \<subseteq> set stack1" using ih(5) p(10) by blast
      then have "x = n \<or> x \<in> (M' - (M \<union> N)) \<union> insert m (set stack2)"
        using x p(4) Cons by auto
      then show "gc_closed mem as0 M' x" using ih(3,7) o cl by auto
    qed
    have "ovf' \<longrightarrow> ovf \<or> M' \<noteq> M" using ih(3,6) p(3,9) by blast
    moreover have "gc_mark_subtree mem as (fst n) (snd n) stack ovf = Some (as', ovf')"
      unfolding step Cons using ih(1) by (cases m) simp
    ultimately show ?thesis using ih(2,3,5) up clo p(8) by blast
  qed
qed

section \<open>Roots, rescans, and the whole mark phase\<close>

lemma gc_collect_root_correct:
  assumes "areas_wf as0" "gc_marked as0 M as" "M \<subseteq> gc_reachable mem as0 R" "gc_pointees as0 ptrs \<subseteq> R"
    and "\<not> ovf \<longrightarrow> (\<forall>x \<in> M. gc_closed mem as0 M x)"
  shows "\<exists>M' as' ovf'. gc_collect_root mem ptrs as ovf = Some (as', ovf') \<and> gc_marked as0 M' as'
    \<and> M \<union> gc_pointees as0 ptrs \<subseteq> M' \<and> M' \<subseteq> gc_reachable mem as0 R
    \<and> (\<not> ovf' \<longrightarrow> (\<forall>x \<in> M'. gc_closed mem as0 M' x))"
  using assms(2-)
proof (induction ptrs arbitrary: M as ovf)
  case Nil
  then show ?case by (auto simp: gc_pointees_def)
next
  case (Cons ptr ptrs)
  note st = gc_marked_static(1,2) [OF Cons.prems(1) assms(1)]
  have sub: "gc_pointees as0 ptrs \<subseteq> R" using Cons.prems(3) by (auto simp: gc_pointees_def)
  show ?case
  proof (cases "\<exists>n. gc_target as0 ptr = Some n \<and> n \<in> gc_nodes as0 - M")
    case False
    have skip: "gc_collect_root mem (ptr # ptrs) as ovf = gc_collect_root mem ptrs as ovf"
    proof (cases "gc_get_ptr_area as0 ptr")
      case None
      then show ?thesis by (simp add: st(1))
    next
      case (Some ai)
      let ?n = "(ai, block_from_ptr (as0 ! ai) ptr)"
      have t: "gc_target as0 ptr = Some ?n" using Some by (simp add: gc_target_def)
      have "gc_kind as ?n \<noteq> AT_HEAD"
        using False t gc_marked_kind_head(1) [OF Cons.prems(1) assms(1) gc_target_in_heap [OF t assms(1)]] by auto
      then show ?thesis using Some get_ptr_area_Some(1) [OF Some] st(2) by (simp add: st(1) Let_def)
    qed
    have "gc_pointees as0 (ptr # ptrs) \<subseteq> M \<union> gc_pointees as0 ptrs"
      using False by (auto simp: gc_pointees_def)
    then show ?thesis using Cons.IH [OF Cons.prems(1,2) sub Cons.prems(4)] unfolding skip by blast
  next
    case True
    then obtain ai b where n: "gc_target as0 ptr = Some (ai, b)" "(ai, b) \<in> gc_nodes as0" "(ai, b) \<notin> M" by auto
    then have pa: "gc_get_ptr_area as0 ptr = Some ai" "b = block_from_ptr (as0 ! ai) ptr"
      by (auto simp: gc_target_def)
    have hd: "gc_kind as (ai, b) = AT_HEAD"
      using gc_marked_kind_head(1) [OF Cons.prems(1) assms(1) gc_target_in_heap [OF n(1) assms(1)]] n by simp
    let ?M = "insert (ai, b) M"
    have m1: "gc_marked as0 ?M (gc_set_mark as ai b)" by (rule gc_set_mark_marked [OF Cons.prems(1) assms(1) n(2)])
    obtain M' as' ovf' where s: "gc_mark_subtree mem (gc_set_mark as ai b) ai b [] ovf = Some (as', ovf')"
      "gc_marked as0 M' as'" "?M \<subseteq> M'" "M' \<subseteq> ?M \<union> gc_reachable mem as0 {(ai, b)}" "ovf \<longrightarrow> ovf'"
      "\<not> ovf' \<longrightarrow> (\<forall>x \<in> (M' - ?M) \<union> {(ai, b)}. gc_closed mem as0 M' x)"
      using gc_mark_subtree_correct [OF assms(1) m1, of "(ai, b)" "[]" mem ovf] by auto
    have inR: "(ai, b) \<in> R" using Cons.prems(3) n by (auto simp: gc_pointees_def)
    then have "gc_reachable mem as0 {(ai, b)} \<subseteq> gc_reachable mem as0 R" by (intro gc_reachable_mono) simp
    then have M': "M' \<subseteq> gc_reachable mem as0 R"
      using s(4) Cons.prems(2) inR by (blast intro: gc_reachable.root)
    have cl: "\<not> ovf' \<longrightarrow> (\<forall>x \<in> M'. gc_closed mem as0 M' x)"
    proof (intro impI ballI)
      fix x
      assume o: "\<not> ovf'" and x: "x \<in> M'"
      show "gc_closed mem as0 M' x"
      proof (cases "x \<in> M")
        case True
        then have "gc_closed mem as0 M x" using Cons.prems(4) s(5) o by blast
        then show ?thesis using s(3) by blast
      next
        case False
        then show ?thesis using s(6) o x by blast
      qed
    qed
    obtain M2 as2 ovf2 where r: "gc_collect_root mem ptrs as' ovf' = Some (as2, ovf2)" "gc_marked as0 M2 as2"
      "M' \<union> gc_pointees as0 ptrs \<subseteq> M2" "M2 \<subseteq> gc_reachable mem as0 R"
      "\<not> ovf2 \<longrightarrow> (\<forall>x \<in> M2. gc_closed mem as0 M2 x)"
      using Cons.IH [OF s(2) M' sub cl] by blast
    have "gc_collect_root mem (ptr # ptrs) as ovf = Some (as2, ovf2)"
      using pa hd st(2) get_ptr_area_Some(1) [OF pa(1)] s(1) r(1) by (simp add: st(1) Let_def)
    moreover have "M \<union> gc_pointees as0 (ptr # ptrs) \<subseteq> M2"
      using r(3) s(3) n by (auto simp: gc_pointees_def)
    ultimately show ?thesis using r(2,4,5) by blast
  qed
qed

lemma gc_all_blocks_in_heap: "n \<in> set (gc_all_blocks as) \<longleftrightarrow> in_heap as n"
  by (cases n) (force simp: gc_all_blocks_def in_heap_def)

text \<open>
  A rescan closes what is marked at the blocks it passes and what it marks itself, or overflows
  again after marking something new.
\<close>

lemma gc_rescan_correct:
  assumes "areas_wf as0" "gc_marked as0 M as" "\<forall>n. gc_kind as0 n = AT_MARK \<longrightarrow> \<not> in_heap as0 n"
    and "\<forall>n \<in> set blocks. in_heap as0 n"
  shows "\<exists>M' as' ovf'. gc_rescan mem blocks as ovf = Some (as', ovf') \<and> gc_marked as0 M' as'
    \<and> M \<subseteq> M' \<and> M' \<subseteq> gc_reachable mem as0 M \<and> (ovf \<longrightarrow> ovf') \<and> (ovf' \<longrightarrow> ovf \<or> M' \<noteq> M)
    \<and> (\<not> ovf' \<longrightarrow> (\<forall>x \<in> (M' - M) \<union> (M \<inter> set blocks). gc_closed mem as0 M' x))"
  using assms(2,4)
proof (induction blocks arbitrary: M as ovf)
  case Nil
  have "M \<subseteq> gc_reachable mem as0 M" by (auto intro: gc_reachable.root)
  with Nil show ?case by auto
next
  case (Cons n blocks)
  obtain ai b where n: "n = (ai, b)" by (cases n)
  have h: "in_heap as0 n" using Cons.prems(2) by simp
  have mk: "gc_kind as n = AT_MARK \<longleftrightarrow> n \<in> M"
    using gc_marked_kind_head(2) [OF Cons.prems(1) assms(1) h] assms(3) h by blast
  show ?case
  proof (cases "n \<in> M")
    case False
    then have "gc_rescan mem (n # blocks) as ovf = gc_rescan mem blocks as ovf" using mk n by simp
    moreover have "M \<inter> set (n # blocks) = M \<inter> set blocks" using False by auto
    ultimately show ?thesis using Cons.IH [OF Cons.prems(1), of ovf] Cons.prems(2) by simp
  next
    case True
    obtain M1 as1 ovf1 where s: "gc_mark_subtree mem as ai b [] ovf = Some (as1, ovf1)"
      "gc_marked as0 M1 as1" "M \<subseteq> M1" "M1 \<subseteq> M \<union> gc_reachable mem as0 {n}" "ovf \<longrightarrow> ovf1"
      "ovf1 \<longrightarrow> ovf \<or> M1 \<noteq> M" "\<not> ovf1 \<longrightarrow> (\<forall>x \<in> (M1 - M) \<union> {n}. gc_closed mem as0 M1 x)"
      using gc_mark_subtree_correct [OF assms(1) Cons.prems(1) True, of "[]" mem ovf] n by auto
    obtain M2 as2 ovf2 where r: "gc_rescan mem blocks as1 ovf1 = Some (as2, ovf2)" "gc_marked as0 M2 as2"
      "M1 \<subseteq> M2" "M2 \<subseteq> gc_reachable mem as0 M1" "ovf1 \<longrightarrow> ovf2" "ovf2 \<longrightarrow> ovf1 \<or> M2 \<noteq> M1"
      "\<not> ovf2 \<longrightarrow> (\<forall>x \<in> (M2 - M1) \<union> (M1 \<inter> set blocks). gc_closed mem as0 M2 x)"
      using Cons.IH [OF s(2), of ovf1] Cons.prems(2) by auto
    have "gc_reachable mem as0 {n} \<subseteq> gc_reachable mem as0 M" using True by (intro gc_reachable_mono) simp
    then have "M1 \<subseteq> gc_reachable mem as0 M" using s(4) by (auto intro: gc_reachable.root)
    then have up: "M2 \<subseteq> gc_reachable mem as0 M" using r(4) gc_reachable_trans by blast
    have cl: "\<not> ovf2 \<longrightarrow> (\<forall>x \<in> (M2 - M) \<union> (M \<inter> set (n # blocks)). gc_closed mem as0 M2 x)"
    proof (intro impI ballI)
      fix x
      assume o: "\<not> ovf2" and x: "x \<in> (M2 - M) \<union> (M \<inter> set (n # blocks))"
      then consider "x \<in> (M1 - M) \<union> {n}" | "x \<in> (M2 - M1) \<union> (M1 \<inter> set blocks)" using s(3) by auto
      then show "gc_closed mem as0 M2 x"
      proof cases
        case 1
        then have "gc_closed mem as0 M1 x" using s(7) r(5) o by blast
        then show ?thesis using r(3) by blast
      next
        case 2
        then show ?thesis using r(7) o by blast
      qed
    qed
    have "gc_rescan mem (n # blocks) as ovf = Some (as2, ovf2)" using mk True n s(1) r(1) by simp
    moreover have "ovf2 \<longrightarrow> ovf \<or> M2 \<noteq> M" using s(3,6) r(3,6) by blast
    moreover have "ovf \<longrightarrow> ovf2" using s(5) r(5) by blast
    ultimately show ?thesis using r(2,3) s(3) up cl by blast
  qed
qed

lemma gc_all_blocks_marked:
  "gc_marked as0 M as \<Longrightarrow> gc_all_blocks as = gc_all_blocks as0"
  by (auto simp: gc_all_blocks_def gc_markedD(1,5) intro!: arg_cong [of _ _ concat])

lemma gc_deal_correct:
  assumes "areas_wf as0" "\<forall>n. gc_kind as0 n = AT_MARK \<longrightarrow> \<not> in_heap as0 n" "gc_marked as0 M as"
    and "\<not> ovf \<longrightarrow> (\<forall>x \<in> M. gc_closed mem as0 M x)"
  shows "\<exists>M' as'. gc_deal_with_stack_overflow mem as ovf = Some as' \<and> gc_marked as0 M' as'
    \<and> M \<subseteq> M' \<and> M' \<subseteq> gc_reachable mem as0 M \<and> (\<forall>x \<in> M'. gc_closed mem as0 M' x)"
  using assms(3,4)
proof (induction "card (gc_nodes as0 - M)" arbitrary: M as ovf rule: less_induct)
  case less
  show ?case
  proof (cases ovf)
    case False
    have "M \<subseteq> gc_reachable mem as0 M" by (auto intro: gc_reachable.root)
    with False less.prems show ?thesis by (simp add: gc_deal_with_stack_overflow.simps) blast
  next
    case True
    obtain M1 as1 ovf1 where r: "gc_rescan mem (gc_all_blocks as) as False = Some (as1, ovf1)" "gc_marked as0 M1 as1"
      "M \<subseteq> M1" "M1 \<subseteq> gc_reachable mem as0 M" "ovf1 \<longrightarrow> M1 \<noteq> M"
      "\<not> ovf1 \<longrightarrow> (\<forall>x \<in> (M1 - M) \<union> (M \<inter> set (gc_all_blocks as)). gc_closed mem as0 M1 x)"
      using gc_rescan_correct [OF assms(1) less.prems(1) assms(2), of "gc_all_blocks as" mem False]
        gc_all_blocks_in_heap unfolding gc_all_blocks_marked [OF less.prems(1)] by auto
    have all: "M \<subseteq> set (gc_all_blocks as)"
      using gc_markedD(2) [OF less.prems(1)] gc_all_blocks_in_heap [of _ as0]
      unfolding gc_all_blocks_marked [OF less.prems(1)] gc_nodes_def by auto
    have step: "gc_deal_with_stack_overflow mem as ovf = gc_deal_with_stack_overflow mem as1 ovf1"
      using True r(1) by (subst gc_deal_with_stack_overflow.simps) simp
    have cl: "\<not> ovf1 \<longrightarrow> (\<forall>x \<in> M1. gc_closed mem as0 M1 x)" using r(6) all by blast
    show ?thesis
    proof (cases ovf1)
      case o: True
      then have "M \<subset> M1" using r(3,5) by auto
      then have "gc_nodes as0 - M1 \<subset> gc_nodes as0 - M" using gc_markedD(2) [OF r(2)] by auto
      then have "card (gc_nodes as0 - M1) < card (gc_nodes as0 - M)"
        using finite_gc_nodes [of as0] by (intro psubset_card_mono) auto
      from less.hyps [OF this r(2) cl] obtain M2 as2 where m2:
        "gc_deal_with_stack_overflow mem as1 ovf1 = Some as2" "gc_marked as0 M2 as2" "M1 \<subseteq> M2"
        "M2 \<subseteq> gc_reachable mem as0 M1" "\<forall>x \<in> M2. gc_closed mem as0 M2 x" by blast
      then show ?thesis unfolding step using r(3,4) gc_reachable_trans by blast
    next
      case False
      then have "gc_deal_with_stack_overflow mem as1 ovf1 = Some as1"
        by (simp add: gc_deal_with_stack_overflow.simps)
      then show ?thesis unfolding step using r(2-4) cl False by blast
    qed
  qed
qed

text \<open>After the mark phase exactly the heads reachable from the roots are marked.\<close>

lemma gc_mark_phase:
  assumes "areas_wf as" "\<forall>n. in_heap as n \<longrightarrow> gc_kind as n \<noteq> AT_MARK"
  shows "\<exists>as1 ovf1 as2 ovf2 as3. gc_collect_root mem roots1 as False = Some (as1, ovf1)
    \<and> gc_collect_root mem roots2 as1 ovf1 = Some (as2, ovf2)
    \<and> gc_deal_with_stack_overflow mem as2 ovf2 = Some as3
    \<and> gc_marked as (gc_reachable mem as (gc_pointees as (roots1 @ roots2))) as3"
proof -
  let ?R = "gc_pointees as (roots1 @ roots2)"
  have R: "?R = gc_pointees as roots1 \<union> gc_pointees as roots2" by (auto simp: gc_pointees_def)
  obtain M1 as1 ovf1 where m1: "gc_collect_root mem roots1 as False = Some (as1, ovf1)" "gc_marked as M1 as1"
    "gc_pointees as roots1 \<subseteq> M1" "M1 \<subseteq> gc_reachable mem as ?R" "\<not> ovf1 \<longrightarrow> (\<forall>x \<in> M1. gc_closed mem as M1 x)"
    using gc_collect_root_correct [OF assms(1) gc_marked_refl, of mem ?R roots1 False] R by auto
  obtain M2 as2 ovf2 where m2: "gc_collect_root mem roots2 as1 ovf1 = Some (as2, ovf2)" "gc_marked as M2 as2"
    "M1 \<union> gc_pointees as roots2 \<subseteq> M2" "M2 \<subseteq> gc_reachable mem as ?R" "\<not> ovf2 \<longrightarrow> (\<forall>x \<in> M2. gc_closed mem as M2 x)"
    using gc_collect_root_correct [OF assms(1) m1(2,4) _ m1(5), of roots2] R by auto
  have um: "\<forall>n. gc_kind as n = AT_MARK \<longrightarrow> \<not> in_heap as n" using assms(2) by blast
  obtain M3 as3 where m3: "gc_deal_with_stack_overflow mem as2 ovf2 = Some as3" "gc_marked as M3 as3"
    "M2 \<subseteq> M3" "M3 \<subseteq> gc_reachable mem as M2" "\<forall>x \<in> M3. gc_closed mem as M3 x"
    using gc_deal_correct [OF assms(1) um m2(2,5)] by blast
  have "M3 \<subseteq> gc_reachable mem as ?R" using m3(4) gc_reachable_trans [OF m2(4)] by blast
  moreover have "gc_reachable mem as ?R \<subseteq> M3"
    using m1(3) m2(3) m3(3,5) R by (intro gc_reachable_least) auto
  ultimately have "M3 = gc_reachable mem as ?R" by blast
  with m1(1) m2(1) m3(1,2) show ?thesis by blast
qed

end
