(* ===== verification/GcSweep.thy ===== *)
theory GcSweep
  imports GcMark
begin

text \<open>
  The sweep and the whole collection: unmarked chains are freed, marked ones keep their blocks
  and lose their mark, and the invariant of the collector holds again.
\<close>

section \<open>The head of a chain\<close>

fun chain_head :: "atb \<Rightarrow> nat \<Rightarrow> nat" where
  "chain_head t 0 = 0"
| "chain_head t (Suc b) = (if atb_get_kind t (Suc b) = AT_TAIL then chain_head t b else Suc b)"

lemma chain_head_not_tail: "atb_get_kind t b \<noteq> AT_TAIL \<Longrightarrow> chain_head t b = b"
  by (cases b) auto

lemma chain_head_le: "chain_head t b \<le> b"
  by (induction t b rule: chain_head.induct) auto

lemma chain_head_between: "chain_head t b < c \<Longrightarrow> c \<le> b \<Longrightarrow> atb_get_kind t c = AT_TAIL"
proof (induction t b rule: chain_head.induct)
  case (2 t b)
  then show ?case by (cases "c = Suc b") (auto split: if_splits)
qed simp

lemma chain_head_used:
  assumes "area_wf area" "b < area_blocks area" "atb_get_kind (alloc_table area) b \<noteq> AT_FREE"
  shows "atb_get_kind (alloc_table area) (chain_head (alloc_table area) b) \<notin> {AT_FREE, AT_TAIL}"
  using assms(2,3)
proof (induction "alloc_table area" b rule: chain_head.induct)
  case 1
  then show ?case using area_wfD(5) [OF assms(1), of 0] by auto
next
  case (2 b)
  then show ?case using area_wfD(5) [OF assms(1), of "Suc b"] by auto
qed

lemma chain_head_cong:
  "(\<And>c. c \<le> b \<Longrightarrow> atb_get_kind t c = AT_TAIL \<longleftrightarrow> atb_get_kind t' c = AT_TAIL) \<Longrightarrow> chain_head t b = chain_head t' b"
  by (induction t b rule: chain_head.induct) auto

text \<open>What the sweep leaves of a block.\<close>

definition swept :: "atb \<Rightarrow> nat \<Rightarrow> 8 word" where
  "swept t b =
     (if atb_get_kind t b = AT_MARK then AT_HEAD
      else if atb_get_kind t b = AT_TAIL \<and> atb_get_kind t (chain_head t b) = AT_MARK then AT_TAIL
      else AT_FREE)"

lemma gc_sweep_blocks_correct:
  assumes "area_wf area" "t0 = alloc_table area" "k \<le> e" "e \<le> area_blocks area"
    and "length t = length t0" "\<And>c. c < k \<Longrightarrow> atb_get_kind t c = swept t0 c"
    and "\<And>c. k \<le> c \<Longrightarrow> c < 4 * length t0 \<Longrightarrow> atb_get_kind t c = atb_get_kind t0 c"
    and "0 < k \<Longrightarrow> k < e \<Longrightarrow> atb_get_kind t0 k = AT_TAIL \<Longrightarrow> ft \<longleftrightarrow> atb_get_kind t0 (chain_head t0 k) \<noteq> AT_MARK"
    and "\<And>c. c < k \<Longrightarrow> swept t0 c \<noteq> AT_FREE \<Longrightarrow> c \<le> lu"
  shows "\<exists>t' ft' lu'. gc_sweep_blocks [k ..< e] t ft lu = (t', ft', lu') \<and> length t' = length t0
    \<and> (\<forall>c < e. atb_get_kind t' c = swept t0 c)
    \<and> (\<forall>c. e \<le> c \<and> c < 4 * length t0 \<longrightarrow> atb_get_kind t' c = atb_get_kind t0 c)
    \<and> (\<forall>c < e. swept t0 c \<noteq> AT_FREE \<longrightarrow> c \<le> lu')"
  using assms(3-)
proof (induction "e - k" arbitrary: k t ft lu)
  case 0
  then show ?case by auto
next
  case (Suc n)
  then have ke: "k < e" and up: "[k ..< e] = k # [Suc k ..< e]" by (auto simp: upt_conv_Cons)
  note w = area_wfD [OF assms(1), folded assms(2)]
  have kb: "k < area_blocks area" "k < 4 * length t0" using ke Suc.prems(2) w(6) by auto
  have kt: "k < 4 * length t" using kb Suc.prems(3) by simp
  have kk: "atb_get_kind t k = atb_get_kind t0 k" using Suc.prems(5) kb by simp
  have chd: "atb_get_kind t0 (Suc k) = AT_TAIL \<Longrightarrow> chain_head t0 (Suc k) = chain_head t0 k" by simp
  have nofree: "atb_get_kind t0 k \<noteq> AT_FREE" if "atb_get_kind t0 (Suc k) = AT_TAIL" "Suc k < e"
    using w(5) [of "Suc k"] that Suc.prems(2) by auto
  have tail: "ft \<longleftrightarrow> atb_get_kind t0 (chain_head t0 k) \<noteq> AT_MARK" if "atb_get_kind t0 k = AT_TAIL"
    using Suc.prems(6) that ke w(5) [OF kb(1)] by auto
  define t1 where "t1 = (if atb_get_kind t0 k = AT_HEAD \<or> atb_get_kind t0 k = AT_TAIL \<and> ft then atb_any_to_free t k
    else if atb_get_kind t0 k = AT_MARK then atb_mark_to_head t k else t)"
  define f1 where "f1 = (if atb_get_kind t0 k = AT_HEAD then True else if atb_get_kind t0 k = AT_MARK then False else ft)"
  define l1 where "l1 = (if atb_get_kind t0 k = AT_MARK \<or> atb_get_kind t0 k = AT_TAIL \<and> \<not> ft then k else lu)"
  have step: "gc_sweep_blocks [k ..< e] t ft lu = gc_sweep_blocks [Suc k ..< e] t1 f1 l1"
    unfolding up t1_def f1_def l1_def by (simp add: kk Let_def)
  have len: "length t1 = length t0"
    using Suc.prems(3) by (auto simp: t1_def atb_any_to_free_def atb_mark_to_head_def)
  have k1: "atb_get_kind t1 c = (if c = k then swept t0 k else atb_get_kind t c)" if "c < 4 * length t0" for c
    using atb.kind_to_free [OF kt, of c] atb.kind_unmark [OF kt, of c] that Suc.prems(3) kk tail
      chain_head_not_tail [of t0 k] atb_kind_range [of t0 k]
    by (auto simp: t1_def swept_def)
  have "n = e - Suc k" using Suc.hyps(2) by simp
  then show ?case unfolding step
  proof (rule Suc.hyps(1))
    show "Suc k \<le> e" "e \<le> area_blocks area" "length t1 = length t0" using ke Suc.prems(2) len by auto
    show "atb_get_kind t1 c = swept t0 c" if "c < Suc k" for c
      using k1 [of c] that kb Suc.prems(4) [of c] by (cases "c = k") auto
    show "atb_get_kind t1 c = atb_get_kind t0 c" if "Suc k \<le> c" "c < 4 * length t0" for c
      using k1 [OF that(2)] Suc.prems(5) [of c] that by simp
    show "f1 \<longleftrightarrow> atb_get_kind t0 (chain_head t0 (Suc k)) \<noteq> AT_MARK"
      if "0 < Suc k" "Suc k < e" "atb_get_kind t0 (Suc k) = AT_TAIL"
      using nofree [OF that(3,2)] chd [OF that(3)] tail chain_head_not_tail [of t0 k] atb_kind_range [of t0 k]
      by (auto simp: f1_def)
    show "c \<le> l1" if "c < Suc k" "swept t0 c \<noteq> AT_FREE" for c
    proof (cases "c = k")
      case True
      then show ?thesis using that(2) tail by (auto simp: swept_def l1_def split: if_splits)
    next
      case False
      then have "c \<le> lu" "c \<le> k" using Suc.prems(7) that by auto
      then show ?thesis by (simp add: l1_def)
    qed
  qed
qed

section \<open>The invariant of the collector\<close>

text \<open>
  Besides the tables being well-formed, no block is marked, the search indices have no free block
  before them, and no block in use lies beyond the last used one.  The null pointer is in no pool.
\<close>

definition search_ok :: "gc_area \<Rightarrow> bool" where
  "search_ok area \<longleftrightarrow> last_free_atb_index area \<le> alloc_table_byte_len area
     \<and> (\<forall>b < 4 * last_free_atb_index area. atb_get_kind (alloc_table area) b \<noteq> AT_FREE)
     \<and> (\<forall>b < area_blocks area. atb_get_kind (alloc_table area) b \<noteq> AT_FREE \<longrightarrow> b \<le> last_used_block area)"

definition gc_wf :: "gc_state \<Rightarrow> bool" where
  "gc_wf s \<longleftrightarrow> areas_wf (areas s) \<and> (\<forall>area \<in> set (areas s). search_ok area \<and> 0 < pool_start area)
     \<and> (\<forall>n. in_heap (areas s) n \<longrightarrow> gc_kind (areas s) n \<noteq> AT_MARK)
     \<and> last_free_area s < length (areas s)
     \<and> (\<forall>n. in_heap (areas s) n \<and> fst n < last_free_area s \<longrightarrow> gc_kind (areas s) n \<noteq> AT_FREE)"

text \<open>One area of the sweep.\<close>

lemma gc_sweep_area:
  assumes "area_wf area" "\<forall>b < area_blocks area. atb_get_kind (alloc_table area) b \<noteq> AT_FREE \<longrightarrow> b \<le> last_used_block area"
  defines "e \<equiv> if last_used_block area < area_blocks area then last_used_block area + 1 else area_blocks area"
  shows "\<exists>t ft' lu. gc_sweep_blocks [0 ..< e] (alloc_table area) ft 0 = (t, ft', lu)
    \<and> length t = length (alloc_table area)
    \<and> (\<forall>c < area_blocks area. atb_get_kind t c = swept (alloc_table area) c \<and> (atb_get_kind t c \<noteq> AT_FREE \<longrightarrow> c \<le> lu))
    \<and> (\<forall>c. area_blocks area \<le> c \<and> c < 4 * length (alloc_table area) \<longrightarrow> atb_get_kind t c = AT_FREE)"
proof -
  have e: "e \<le> area_blocks area" by (auto simp: e_def)
  obtain t ft' lu where s: "gc_sweep_blocks [0 ..< e] (alloc_table area) ft 0 = (t, ft', lu)"
    "length t = length (alloc_table area)" "\<forall>c < e. atb_get_kind t c = swept (alloc_table area) c"
    "\<forall>c. e \<le> c \<and> c < 4 * length (alloc_table area) \<longrightarrow> atb_get_kind t c = atb_get_kind (alloc_table area) c"
    "\<forall>c < e. swept (alloc_table area) c \<noteq> AT_FREE \<longrightarrow> c \<le> lu"
    using gc_sweep_blocks_correct [OF assms(1) refl le0 e, of "alloc_table area" ft 0] by auto
  have free: "atb_get_kind (alloc_table area) c = AT_FREE" if "e \<le> c" "c < 4 * length (alloc_table area)" for c
    using area_wfD(2) [OF assms(1), of c] assms(2) that by (cases "c < area_blocks area") (auto simp: e_def split: if_splits)
  have hi: "area_blocks area < 4 * length (alloc_table area)" using area_wfD(6) [OF assms(1)] .
  have "atb_get_kind t c = swept (alloc_table area) c \<and> (atb_get_kind t c \<noteq> AT_FREE \<longrightarrow> c \<le> lu)" if "c < area_blocks area" for c
  proof (cases "c < e")
    case False
    then show ?thesis using s(4) free [of c] that hi by (auto simp: swept_def)
  qed (use s(3,5) in auto)
  moreover have "atb_get_kind t c = AT_FREE" if "area_blocks area \<le> c" "c < 4 * length (alloc_table area)" for c
    using s(4) free [of c] that e by auto
  ultimately show ?thesis using s(1,2) by blast
qed

lemma gc_sweep_correct:
  assumes "\<forall>area \<in> set as. area_wf area"
    and "\<forall>area \<in> set as. \<forall>b < area_blocks area. atb_get_kind (alloc_table area) b \<noteq> AT_FREE \<longrightarrow> b \<le> last_used_block area"
  shows "length (gc_sweep as ft) = length as \<and> (\<forall>ai < length as.
    (\<exists>t lu. gc_sweep as ft ! ai = (as ! ai)\<lparr>alloc_table := t, last_used_block := lu\<rparr>
      \<and> length t = length (alloc_table (as ! ai))
      \<and> (\<forall>c < area_blocks (as ! ai). atb_get_kind t c = swept (alloc_table (as ! ai)) c \<and> (atb_get_kind t c \<noteq> AT_FREE \<longrightarrow> c \<le> lu))
      \<and> (\<forall>c. area_blocks (as ! ai) \<le> c \<and> c < 4 * length (alloc_table (as ! ai)) \<longrightarrow> atb_get_kind t c = AT_FREE)))"
  using assms
proof (induction as arbitrary: ft)
  case (Cons area as)
  obtain t ft' lu where s: "gc_sweep_blocks [0 ..< if last_used_block area < area_blocks area then last_used_block area + 1 else area_blocks area]
      (alloc_table area) ft 0 = (t, ft', lu)" "length t = length (alloc_table area)"
    "\<forall>c < area_blocks area. atb_get_kind t c = swept (alloc_table area) c \<and> (atb_get_kind t c \<noteq> AT_FREE \<longrightarrow> c \<le> lu)"
    "\<forall>c. area_blocks area \<le> c \<and> c < 4 * length (alloc_table area) \<longrightarrow> atb_get_kind t c = AT_FREE"
    using gc_sweep_area [of area ft] Cons.prems by auto
  have eq: "gc_sweep (area # as) ft = area\<lparr>alloc_table := t, last_used_block := lu\<rparr> # gc_sweep as ft'"
    unfolding gc_sweep.simps Let_def s(1) by simp
  note ih = Cons.IH [of ft'] 
  show ?case unfolding eq
  proof (intro conjI allI impI)
    show "length (area\<lparr>alloc_table := t, last_used_block := lu\<rparr> # gc_sweep as ft') = length (area # as)"
      using ih Cons.prems by simp
    fix ai
    assume "ai < length (area # as)"
    then show "\<exists>t' lu'. (area\<lparr>alloc_table := t, last_used_block := lu\<rparr> # gc_sweep as ft') ! ai
        = ((area # as) ! ai)\<lparr>alloc_table := t', last_used_block := lu'\<rparr>
      \<and> length t' = length (alloc_table ((area # as) ! ai))
      \<and> (\<forall>c < area_blocks ((area # as) ! ai). atb_get_kind t' c = swept (alloc_table ((area # as) ! ai)) c
          \<and> (atb_get_kind t' c \<noteq> AT_FREE \<longrightarrow> c \<le> lu'))
      \<and> (\<forall>c. area_blocks ((area # as) ! ai) \<le> c \<and> c < 4 * length (alloc_table ((area # as) ! ai)) \<longrightarrow> atb_get_kind t' c = AT_FREE)"
    proof (cases ai)
      case 0
      then show ?thesis using s(2-4) by (intro exI [of _ t] exI [of _ lu]) simp
    next
      case (Suc aj)
      then show ?thesis using ih Cons.prems \<open>ai < length (area # as)\<close> by simp
    qed
  qed
qed simp

end
