(* ===== verification/GcCollect.thy ===== *)
theory GcCollect
  imports GcSweep
begin

text \<open>
  The whole collection: a block keeps its kind when the head of its chain is reachable from the roots
  and is free otherwise; nothing else of the heap changes, and the invariant holds again.
\<close>

section \<open>Layout\<close>

text \<open>Two lists of areas with the same pools.\<close>

definition same_layout :: "gc_area list \<Rightarrow> gc_area list \<Rightarrow> bool" where
  "same_layout as as' \<longleftrightarrow> length as' = length as
     \<and> (\<forall>ai < length as. pool_start (as' ! ai) = pool_start (as ! ai) \<and> pool_end (as' ! ai) = pool_end (as ! ai)
          \<and> alloc_table_byte_len (as' ! ai) = alloc_table_byte_len (as ! ai))"

lemma same_layout_refl [simp]: "same_layout as as"
  by (simp add: same_layout_def)

lemma same_layout_trans: "same_layout as bs \<Longrightarrow> same_layout bs cs \<Longrightarrow> same_layout as cs"
  by (simp add: same_layout_def)

lemma same_layoutD:
  assumes "same_layout as as'"
  shows "length as' = length as" "in_heap as' n \<longleftrightarrow> in_heap as n" "gc_get_ptr_area as' ptr = gc_get_ptr_area as ptr"
    "ai < length as \<Longrightarrow> pool_start (as' ! ai) = pool_start (as ! ai)"
    "ai < length as \<Longrightarrow> pool_end (as' ! ai) = pool_end (as ! ai)"
    "ai < length as \<Longrightarrow> alloc_table_byte_len (as' ! ai) = alloc_table_byte_len (as ! ai)"
    "gc_target as' ptr = gc_target as ptr"
proof -
  show l: "length as' = length as" "ai < length as \<Longrightarrow> pool_start (as' ! ai) = pool_start (as ! ai)"
    "ai < length as \<Longrightarrow> pool_end (as' ! ai) = pool_end (as ! ai)"
    "ai < length as \<Longrightarrow> alloc_table_byte_len (as' ! ai) = alloc_table_byte_len (as ! ai)" for ai
    using assms by (auto simp: same_layout_def)
  show "in_heap as' n \<longleftrightarrow> in_heap as n" using l by (auto simp: in_heap_def)
  show p: "gc_get_ptr_area as' ptr = gc_get_ptr_area as ptr"
    using find_ptr_area_cong [of as' as 0 ptr] l by (auto simp: gc_get_ptr_area_def)
  show "gc_target as' ptr = gc_target as ptr"
    unfolding gc_target_def p using l(2) get_ptr_area_Some(1) [of as ptr]
    by (cases "gc_get_ptr_area as ptr") (auto simp: block_from_ptr_def)
qed

lemma same_layout_update:
  assumes "pool_start area = pool_start (as ! ai)" "pool_end area = pool_end (as ! ai)"
    "alloc_table_byte_len area = alloc_table_byte_len (as ! ai)"
  shows "same_layout as (as[ai := area])"
  using assms by (cases "ai < length as") (auto simp: same_layout_def nth_list_update)

text \<open>The layout part of the invariant of all areas.\<close>

lemma areas_wf_layout:
  assumes "areas_wf as" "same_layout as as'" "\<And>ai. ai < length as \<Longrightarrow> area_wf (as' ! ai)"
  shows "areas_wf as'"
  using assms unfolding areas_wf_def same_layout_def all_set_conv_all_nth by fastforce

section \<open>The collection\<close>

definition gc_head :: "gc_area list \<Rightarrow> nat \<times> nat \<Rightarrow> nat \<times> nat" where
  "gc_head as n = (fst n, chain_head (alloc_table (as ! fst n)) (snd n))"

definition gc_live :: "gc_state \<Rightarrow> nat list \<times> nat list \<Rightarrow> (nat \<times> nat) set" where
  "gc_live s roots = gc_reachable (memory s) (areas s) (gc_pointees (areas s) (fst roots @ snd roots))"

lemma gc_live_nodes: "gc_live s roots \<subseteq> gc_nodes (areas s)"
  unfolding gc_live_def by (intro gc_reachable_least) (auto simp: gc_pointees_def)

text \<open>
  The effect of a collection: a block stays when the head of its chain is live, and is free otherwise.
\<close>

definition gc_collected :: "gc_state \<Rightarrow> nat list \<times> nat list \<Rightarrow> gc_state \<Rightarrow> bool" where
  "gc_collected s roots s' \<longleftrightarrow> same_layout (areas s) (areas s')
     \<and> (\<forall>n. in_heap (areas s) n \<longrightarrow>
          gc_kind (areas s') n = (if gc_head (areas s) n \<in> gc_live s roots then gc_kind (areas s) n else AT_FREE))
     \<and> memory s' = memory s \<and> lock_depth s' = lock_depth s"

text \<open>An area after the marks and the sweep.\<close>

definition kept :: "nat set \<Rightarrow> atb \<Rightarrow> nat \<Rightarrow> 8 word" where
  "kept H t b = (if chain_head t b \<in> H then atb_get_kind t b else AT_FREE)"

lemma swept_marked:
  assumes "area_wf area" "t0 = alloc_table area" "b < area_blocks area" "length t = length t0"
    and "\<And>c. c < 4 * length t0 \<Longrightarrow> atb_get_kind t c = (if c \<in> H then AT_MARK else atb_get_kind t0 c)"
    and "\<And>c. c \<in> H \<Longrightarrow> atb_get_kind t0 c = AT_HEAD" "\<And>c. c < area_blocks area \<Longrightarrow> atb_get_kind t0 c \<noteq> AT_MARK"
  shows "swept t b = kept H t0 b"
proof -
  have bl: "c < 4 * length t0" if "c \<le> b" for c using area_wfD(6) [OF assms(1)] assms(2,3) that by simp
  have ch: "chain_head t b = chain_head t0 b"
    using assms(5,6) bl by (intro chain_head_cong) auto
  have k: "atb_get_kind t c = AT_MARK \<longleftrightarrow> c \<in> H" if "c \<le> b" for c
    using assms(5) [OF bl [OF that]] assms(7) [of c] assms(3) that by auto
  have "chain_head t0 b \<le> b" by (rule chain_head_le)
  then show ?thesis
    using k [of b] k [of "chain_head t0 b"] assms(5) [OF bl [of b]] assms(6) [of b] chain_head_not_tail [of t0 b]
      atb_kind_range [of t0 b] assms(7) [OF assms(3)]
    unfolding swept_def kept_def ch by auto
qed

lemma area_wf_kept:
  assumes "area_wf area" "length t = length (alloc_table area)"
    and "\<And>b. b < area_blocks area \<Longrightarrow> atb_get_kind t b = kept H (alloc_table area) b"
    and "\<And>b. area_blocks area \<le> b \<Longrightarrow> b < 4 * length t \<Longrightarrow> atb_get_kind t b = AT_FREE"
    and "alloc_table area' = t" "alloc_table_byte_len area' = alloc_table_byte_len area"
    "pool_start area' = pool_start area" "pool_end area' = pool_end area"
  shows "area_wf area'"
proof -
  note w = area_wfD [OF assms(1)]
  have "0 < b \<and> atb_get_kind t (b - 1) \<noteq> AT_FREE" if "b < area_blocks area" "atb_get_kind t b = AT_TAIL" for b
  proof -
    have k: "chain_head (alloc_table area) b \<in> H" "atb_get_kind (alloc_table area) b = AT_TAIL"
      using assms(3) [OF that(1)] that(2) by (auto simp: kept_def split: if_splits)
    then have p: "0 < b" "atb_get_kind (alloc_table area) (b - 1) \<noteq> AT_FREE" using w(5) [OF that(1)] by auto
    then have "chain_head (alloc_table area) b = chain_head (alloc_table area) (b - 1)" using k(2) by (cases b) auto
    then show ?thesis using assms(3) [of "b - 1"] that(1) k(1) p by (simp add: kept_def)
  qed
  then show ?thesis unfolding area_wf_def using assms(2,4-8) w(1,3,4) by auto
qed

lemma gc_collect_correct:
  assumes "gc_wf s" "lock_depth s < 65536"
  shows "\<exists>s'. gc_collect s roots = Some s' \<and> gc_wf s' \<and> gc_collected s roots s' \<and> alloc_amount s' = 0
    \<and> auto_collect_enabled s' = auto_collect_enabled s \<and> alloc_threshold s' = alloc_threshold s"
proof -
  have wf: "areas_wf (areas s)" and nm: "\<forall>n. in_heap (areas s) n \<longrightarrow> gc_kind (areas s) n \<noteq> AT_MARK"
    and so: "\<And>area. area \<in> set (areas s) \<Longrightarrow> search_ok area \<and> 0 < pool_start area" and ne: "0 < length (areas s)"
    using assms by (auto simp: gc_wf_def)
  have depth: "u16 (u16 (lock_depth s + 1) + 2 ^ 16 - 1) = lock_depth s"
    using assms(2) unfolding u16_def by (cases "lock_depth s = 65535") simp_all
  let ?L = "gc_live s roots"
  obtain as1 ovf1 as2 ovf2 as3 where m: "gc_collect_root (memory s) (fst roots) (areas s) False = Some (as1, ovf1)"
    "gc_collect_root (memory s) (snd roots) as1 ovf1 = Some (as2, ovf2)"
    "gc_deal_with_stack_overflow (memory s) as2 ovf2 = Some as3" "gc_marked (areas s) ?L as3"
    using gc_mark_phase [OF wf nm, of "memory s" "fst roots" "snd roots"] unfolding gc_live_def by blast
  note d = gc_markedD [OF m(4)]
  define as4 where "as4 = map (\<lambda>area. area\<lparr>last_free_atb_index := 0\<rparr>) (gc_sweep as3 False)"
  define s' where "s' = s\<lparr>lock_depth := lock_depth s, alloc_amount := 0, areas := as4, last_free_area := 0\<rparr>"
  have run: "gc_collect s roots = Some s'"
    unfolding gc_collect_def gc_collect_start_def gc_collect_end_def s'_def as4_def Let_def
    using m(1-3) depth by simp
  define H where "H ai = {b. (ai, b) \<in> ?L}" for ai
  have k3: "atb_get_kind (alloc_table (as3 ! ai)) b = (if b \<in> H ai then AT_MARK else atb_get_kind (alloc_table (areas s ! ai)) b)"
    if "ai < length (areas s)" "b < 4 * length (alloc_table (areas s ! ai))" for ai b
    using d(7) [OF that] by (simp add: H_def)
  have Hh: "atb_get_kind (alloc_table (areas s ! ai)) b = AT_HEAD" "b < area_blocks (areas s ! ai)"
    if "b \<in> H ai" for ai b
    using d(2) that by (auto simp: H_def gc_nodes_def in_heap_def)
  have wf3: "area_wf (as3 ! ai)" if "ai < length (areas s)" for ai
  proof -
    note w = areas_wfD [OF wf that]
    have k: "atb_get_kind (alloc_table (as3 ! ai)) b = AT_FREE \<longleftrightarrow> atb_get_kind (alloc_table (areas s ! ai)) b = AT_FREE"
      "atb_get_kind (alloc_table (as3 ! ai)) b = AT_TAIL \<longleftrightarrow> atb_get_kind (alloc_table (areas s ! ai)) b = AT_TAIL"
      if "b < 4 * length (alloc_table (areas s ! ai))" for b
      using k3 [OF \<open>ai < length (areas s)\<close> that] Hh(1) [of b ai] by (cases "b \<in> H ai"; simp)+
    show ?thesis unfolding area_wf_def using d(3-6) [OF that] area_wfD [OF w] k by auto
  qed
  have lu3: "b \<le> last_used_block (as3 ! ai)"
    if "ai < length (areas s)" "b < area_blocks (as3 ! ai)" "atb_get_kind (alloc_table (as3 ! ai)) b \<noteq> AT_FREE" for ai b
  proof -
    have bl: "b < area_blocks (areas s ! ai)" using that(1,2) d(5) by simp
    then have "b < 4 * length (alloc_table (areas s ! ai))" using area_wfD(6) [OF areas_wfD [OF wf that(1)]] by simp
    then have "atb_get_kind (alloc_table (areas s ! ai)) b \<noteq> AT_FREE"
      using k3 [OF that(1), of b] Hh(1) [of b ai] that(3) by (cases "b \<in> H ai") simp_all
    moreover have "last_used_block (as3 ! ai) = last_used_block (areas s ! ai)"
      using m(4) that(1) by (auto simp: gc_marked_def)
    ultimately show ?thesis using so [of "areas s ! ai"] that(1) bl by (auto simp: search_ok_def)
  qed
  have a4: "length as4 = length (areas s)" and each: "\<exists>t lu. as4 ! ai = (as3 ! ai)\<lparr>alloc_table := t, last_used_block := lu, last_free_atb_index := 0\<rparr>
      \<and> length t = length (alloc_table (areas s ! ai))
      \<and> (\<forall>b < area_blocks (areas s ! ai). atb_get_kind t b = kept (H ai) (alloc_table (areas s ! ai)) b \<and> (atb_get_kind t b \<noteq> AT_FREE \<longrightarrow> b \<le> lu))
      \<and> (\<forall>b. area_blocks (areas s ! ai) \<le> b \<and> b < 4 * length t \<longrightarrow> atb_get_kind t b = AT_FREE)"
    if "ai < length (areas s)" for ai
  proof -
    note aiL = that
    note sw = gc_sweep_correct [of as3 False]
    have pre: "\<forall>area \<in> set as3. area_wf area"
      "\<forall>area \<in> set as3. \<forall>b < area_blocks area. atb_get_kind (alloc_table area) b \<noteq> AT_FREE \<longrightarrow> b \<le> last_used_block area"
      using wf3 lu3 d(1) by (auto simp: all_set_conv_all_nth)
    note sw = sw [OF pre]
    have l: "length (gc_sweep as3 False) = length (areas s)" using sw d(1) by simp
    obtain t lu where t: "gc_sweep as3 False ! ai = (as3 ! ai)\<lparr>alloc_table := t, last_used_block := lu\<rparr>"
      "length t = length (alloc_table (as3 ! ai))"
      "\<forall>c < area_blocks (as3 ! ai). atb_get_kind t c = swept (alloc_table (as3 ! ai)) c \<and> (atb_get_kind t c \<noteq> AT_FREE \<longrightarrow> c \<le> lu)"
      "\<forall>c. area_blocks (as3 ! ai) \<le> c \<and> c < 4 * length (alloc_table (as3 ! ai)) \<longrightarrow> atb_get_kind t c = AT_FREE"
      using sw [THEN conjunct2, rule_format, of ai] aiL unfolding d(1) by blast
    have e: "as4 ! ai = (as3 ! ai)\<lparr>alloc_table := t, last_used_block := lu, last_free_atb_index := 0\<rparr>"
      unfolding as4_def using t(1) l that by simp
    have kp: "swept (alloc_table (as3 ! ai)) b = kept (H ai) (alloc_table (areas s ! ai)) b" if b: "b < area_blocks (areas s ! ai)" for b
      using swept_marked [OF areas_wfD [OF wf aiL] refl b d(6) [OF aiL] k3 [OF aiL] Hh(1) [of _ ai]] nm aiL
      by (auto simp: in_heap_def)
    have "\<forall>b < area_blocks (areas s ! ai). atb_get_kind t b = kept (H ai) (alloc_table (areas s ! ai)) b \<and> (atb_get_kind t b \<noteq> AT_FREE \<longrightarrow> b \<le> lu)"
      using t(3) kp d(5) [OF that] by auto
    moreover have "\<forall>b. area_blocks (areas s ! ai) \<le> b \<and> b < 4 * length t \<longrightarrow> atb_get_kind t b = AT_FREE"
      using t(2,4) d(5) [OF that] by auto
    ultimately show "\<exists>t lu. as4 ! ai = (as3 ! ai)\<lparr>alloc_table := t, last_used_block := lu, last_free_atb_index := 0\<rparr>
      \<and> length t = length (alloc_table (areas s ! ai))
      \<and> (\<forall>b < area_blocks (areas s ! ai). atb_get_kind t b = kept (H ai) (alloc_table (areas s ! ai)) b \<and> (atb_get_kind t b \<noteq> AT_FREE \<longrightarrow> b \<le> lu))
      \<and> (\<forall>b. area_blocks (areas s ! ai) \<le> b \<and> b < 4 * length t \<longrightarrow> atb_get_kind t b = AT_FREE)"
      using e trans [OF t(2) d(6) [OF that]] by blast
    show "length as4 = length (areas s)" using l by (simp add: as4_def)
  qed
  have len4: "length as4 = length (areas s)" using a4 [OF ne] .
  have lay: "same_layout (areas s) as4"
    unfolding same_layout_def using len4 each d(3-5) by fastforce
  have kk: "gc_kind as4 n = (if gc_head (areas s) n \<in> ?L then gc_kind (areas s) n else AT_FREE)"
    if "in_heap (areas s) n" for n
  proof -
    have i: "fst n < length (areas s)" "snd n < area_blocks (areas s ! fst n)" using that by (auto simp: in_heap_def)
    show ?thesis using each [OF i(1)] i(2) by (auto simp: kept_def H_def gc_head_def)
  qed
  have wfa: "area_wf (as4 ! ai)" and soa: "search_ok (as4 ! ai)" if ai: "ai < length (areas s)" for ai
  proof -
    obtain t lu where t: "as4 ! ai = (as3 ! ai)\<lparr>alloc_table := t, last_used_block := lu, last_free_atb_index := 0\<rparr>"
      "length t = length (alloc_table (areas s ! ai))"
      "\<forall>b < area_blocks (areas s ! ai). atb_get_kind t b = kept (H ai) (alloc_table (areas s ! ai)) b \<and> (atb_get_kind t b \<noteq> AT_FREE \<longrightarrow> b \<le> lu)"
      "\<forall>b. area_blocks (areas s ! ai) \<le> b \<and> b < 4 * length t \<longrightarrow> atb_get_kind t b = AT_FREE"
      using each [OF ai] by blast
    show "area_wf (as4 ! ai)"
      using area_wf_kept [OF areas_wfD [OF wf ai] t(2), of "H ai" "as4 ! ai"] t d(3-5) [OF ai] by auto
    show "search_ok (as4 ! ai)" unfolding search_ok_def using t d(5) [OF ai] by auto
  qed
  have "areas_wf as4" by (rule areas_wf_layout [OF wf lay wfa])
  moreover have "\<forall>area \<in> set as4. search_ok area \<and> 0 < pool_start area"
    using soa len4 same_layoutD(4) [OF lay] so by (auto simp: all_set_conv_all_nth)
  moreover have "\<forall>n. in_heap as4 n \<longrightarrow> gc_kind as4 n \<noteq> AT_MARK"
    using kk nm same_layoutD(2) [OF lay] by auto
  ultimately have "gc_wf s'" unfolding gc_wf_def s'_def using ne len4 by simp
  with run lay kk show ?thesis by (intro exI [of _ s']) (auto simp: s'_def gc_collected_def)
qed

end
