(* ===== verification/GcAlloc.thy ===== *)
theory GcAlloc
  imports GcCollect
begin

text \<open>
  Allocation and release of blocks: the byte-wise scan of the table finds the first run of free
  blocks that is long enough, \<open>gc_alloc\<close> turns it into a chain of a head and tails, \<open>gc_free\<close> frees
  a chain, \<open>gc_nbytes\<close> measures it, and \<open>gc_realloc\<close> shrinks, grows or moves it.
\<close>

section \<open>The scan for free blocks\<close>

text \<open>The scan block by block.\<close>

fun scan_blocks :: "nat list \<Rightarrow> atb \<Rightarrow> nat \<Rightarrow> nat \<Rightarrow> (nat \<times> nat) option \<times> nat" where
  "scan_blocks [] t n_blocks n_free = (None, n_free)"
| "scan_blocks (b # bs) t n_blocks n_free =
     (if atb_get_kind t b = AT_FREE
      then (if n_free + 1 \<ge> n_blocks then (Some (b, n_free + 1), n_free + 1) else scan_blocks bs t n_blocks (n_free + 1))
      else scan_blocks bs t n_blocks 0)"

lemma scan_blocks_append:
  "scan_blocks (xs @ ys) t n_blocks n_free =
     (case scan_blocks xs t n_blocks n_free of (Some r, m) \<Rightarrow> (Some r, m) | (None, m) \<Rightarrow> scan_blocks ys t n_blocks m)"
  by (induction xs t n_blocks n_free rule: scan_blocks.induct) auto

lemma gc_scan_byte_blocks:
  "set ks \<subseteq> {..< 4} \<Longrightarrow> i < length t \<Longrightarrow>
     gc_scan_byte ks (t ! i) i n_blocks n_free = scan_blocks (map (\<lambda>k. i * 4 + k) ks) t n_blocks n_free"
  by (induction ks "t ! i" i n_blocks n_free rule: gc_scan_byte.induct) (auto simp: atb_is_free_kind mult.commute)

lemma gc_scan_table_blocks:
  "e \<le> length t \<Longrightarrow> gc_scan_table [i ..< e] t n_blocks n_free = fst (scan_blocks [4 * i ..< 4 * e] t n_blocks n_free)"
proof (induction "e - i" arbitrary: i n_free)
  case 0
  then show ?case by simp
next
  case (Suc n)
  then have i: "i < e" "[i ..< e] = i # [Suc i ..< e]" by (auto simp: upt_conv_Cons)
  have "[4 * i ..< 4 * e] = [4 * i ..< 4 * i + 4] @ [4 * Suc i ..< 4 * e]"
    using i(1) upt_add_eq_append [of "4 * i" "4 * i + 4" "4 * e - (4 * i + 4)"] by (simp add: add.commute)
  moreover have "[4 * i ..< 4 * i + 4] = map (\<lambda>k. i * 4 + k) [0, 1, 2, 3]"
    by (simp add: upt_conv_Cons numeral_eq_Suc)
  ultimately have "[4 * i ..< 4 * e] = map (\<lambda>k. i * 4 + k) [0, 1, 2, 3] @ [4 * Suc i ..< 4 * e]" by simp
  moreover have "scan_blocks (map (\<lambda>k. i * 4 + k) [0, 1, 2, 3]) t n_blocks n_free = gc_scan_byte [0, 1, 2, 3] (t ! i) i n_blocks n_free"
    using i(1) Suc.prems by (intro gc_scan_byte_blocks [symmetric]) auto
  ultimately have "scan_blocks [4 * i ..< 4 * e] t n_blocks n_free =
      (case gc_scan_byte [0, 1, 2, 3] (t ! i) i n_blocks n_free of (Some r, m) \<Rightarrow> (Some r, m)
       | (None, m) \<Rightarrow> scan_blocks [4 * Suc i ..< 4 * e] t n_blocks m)"
    by (simp only: scan_blocks_append)
  moreover have "n = e - Suc i" using Suc.hyps(2) by simp
  note Suc.hyps(1) [OF this Suc.prems]
  ultimately show ?case unfolding i(2) gc_scan_table.simps by (simp split: prod.splits option.splits)
qed

text \<open>\<open>n\<close> free blocks from \<open>b\<close> on.\<close>

definition free_run_at :: "atb \<Rightarrow> nat \<Rightarrow> nat \<Rightarrow> bool" where
  "free_run_at t b n \<longleftrightarrow> (\<forall>c. b \<le> c \<and> c < b + n \<longrightarrow> atb_get_kind t c = AT_FREE)"

lemma scan_blocks_Some:
  assumes "fst (scan_blocks [b ..< e] t N n) = Some (i, m)" "n \<le> b" "free_run_at t (b - n) n" "n < N"
  shows "m = N" "b \<le> i" "i < e" "N \<le> i + 1" "free_run_at t (i + 1 - N) N" "b - n \<le> i + 1 - N"
    "N = 1 \<Longrightarrow> \<forall>c. b \<le> c \<and> c < i \<longrightarrow> atb_get_kind t c \<noteq> AT_FREE"
proof -
  have "m = N \<and> b \<le> i \<and> i < e \<and> N \<le> i + 1 \<and> free_run_at t (i + 1 - N) N \<and> b - n \<le> i + 1 - N
      \<and> (N = 1 \<longrightarrow> (\<forall>c. b \<le> c \<and> c < i \<longrightarrow> atb_get_kind t c \<noteq> AT_FREE))"
    using assms
  proof (induction "e - b" arbitrary: b n)
    case (Suc k)
    then have up: "[b ..< e] = b # [Suc b ..< e]" and be: "b < e" and k: "k = e - Suc b" by (auto simp: upt_conv_Cons)
    have grow: "free_run_at t (b - n) (Suc n)" if "atb_get_kind t b = AT_FREE"
    proof (unfold free_run_at_def, intro allI impI)
      fix c
      assume "b - n \<le> c \<and> c < b - n + Suc n"
      then show "atb_get_kind t c = AT_FREE"
        using Suc.prems(2,3) that by (cases "c = b") (auto simp: free_run_at_def)
    qed
    consider "atb_get_kind t b = AT_FREE" "n + 1 \<ge> N" | "atb_get_kind t b = AT_FREE" "n + 1 < N" | "atb_get_kind t b \<noteq> AT_FREE"
      by linarith
    then show ?case
    proof cases
      case 1
      then show ?thesis using Suc.prems up be grow by (auto simp: free_run_at_def)
    next
      case 2
      then have "fst (scan_blocks [Suc b ..< e] t N (Suc n)) = Some (i, m)" using Suc.prems(1) up by simp
      from Suc.hyps(1) [OF k this] show ?thesis using 2 grow Suc.prems(2) by auto
    next
      case 3
      then have "fst (scan_blocks [Suc b ..< e] t N 0) = Some (i, m)" using Suc.prems(1) up by simp
      moreover have "(0 :: nat) \<le> Suc b" "free_run_at t (Suc b - 0) 0" "0 < N"
        using Suc.prems(4) by (auto simp: free_run_at_def)
      ultimately have ih: "m = N \<and> Suc b \<le> i \<and> i < e \<and> N \<le> i + 1 \<and> free_run_at t (i + 1 - N) N \<and> Suc b - 0 \<le> i + 1 - N
          \<and> (N = 1 \<longrightarrow> (\<forall>c. Suc b \<le> c \<and> c < i \<longrightarrow> atb_get_kind t c \<noteq> AT_FREE))"
        by (rule Suc.hyps(1) [OF k])
      moreover have "\<forall>c. b \<le> c \<and> c < i \<longrightarrow> atb_get_kind t c \<noteq> AT_FREE" if "N = 1"
        using ih that 3 by (metis le_neq_implies_less Suc_leI)
      ultimately show ?thesis by auto
    qed
  qed auto
  then show "m = N" "b \<le> i" "i < e" "N \<le> i + 1" "free_run_at t (i + 1 - N) N" "b - n \<le> i + 1 - N"
    "N = 1 \<Longrightarrow> \<forall>c. b \<le> c \<and> c < i \<longrightarrow> atb_get_kind t c \<noteq> AT_FREE" by auto
qed

lemma scan_blocks_None:
  assumes "fst (scan_blocks [b ..< e] t N n) = None" "b \<le> e" "n < N" "n \<le> b - lo" "lo \<le> b"
    and "lo < b - n \<longrightarrow> atb_get_kind t (b - n - 1) \<noteq> AT_FREE"
    and "\<forall>c \<ge> lo. c + N \<le> b \<longrightarrow> \<not> free_run_at t c N"
  shows "\<forall>c \<ge> lo. c + N \<le> e \<longrightarrow> \<not> free_run_at t c N"
  using assms
proof (induction "e - b" arbitrary: b n)
  case (Suc k)
  then have up: "[b ..< e] = b # [Suc b ..< e]" and be: "b < e" and k: "k = e - Suc b" by (auto simp: upt_conv_Cons)
  show ?case
  proof (cases "atb_get_kind t b = AT_FREE")
    case True
    then have n: "n + 1 < N" "fst (scan_blocks [Suc b ..< e] t N (Suc n)) = None"
      using Suc.prems(1) up by (auto split: if_splits)
    have "\<not> free_run_at t c N" if "lo \<le> c" "c + N \<le> Suc b" for c
    proof (cases "c + N \<le> b")
      case False
      then have "c + N = Suc b" using that by simp
      then have "lo < b - n" "c \<le> b - n - 1" "b - n - 1 < c + N" using n(1) that by linarith+
      then show ?thesis using Suc.prems(6) unfolding free_run_at_def by blast
    qed (use Suc.prems(7) that in auto)
    then show ?thesis using Suc.hyps(1) [OF k n(2)] Suc.prems n(1) be by auto
  next
    case False
    then have n: "fst (scan_blocks [Suc b ..< e] t N 0) = None" using Suc.prems(1) up by simp
    have "\<not> free_run_at t c N" if "lo \<le> c" "c + N \<le> Suc b" for c
    proof (cases "c + N \<le> b")
      case f: False
      then have "c \<le> b" "b < c + N" using that Suc.prems(3) by linarith+
      then show ?thesis using False unfolding free_run_at_def by blast
    qed (use Suc.prems(7) that in auto)
    then show ?thesis using Suc.hyps(1) [OF k n] Suc.prems False be by auto
  qed
qed auto

section \<open>Addresses of blocks\<close>

lemma find_ptr_area_complete:
  assumes "ai < length as" "pool_start (as ! ai) \<le> ptr" "ptr < pool_end (as ! ai)"
    and "\<And>j. j < length as \<Longrightarrow> pool_start (as ! j) \<le> ptr \<Longrightarrow> ptr < pool_end (as ! j) \<Longrightarrow> j = ai"
  shows "gc_find_ptr_area k as ptr = Some (k + ai)"
  using assms
proof (induction k as ptr arbitrary: ai rule: gc_find_ptr_area.induct)
  case (2 k area rest ptr)
  show ?case
  proof (cases ai)
    case 0
    then show ?thesis using "2.prems"(2,3) by simp
  next
    case (Suc aj)
    have no: "\<not> (pool_start area \<le> ptr \<and> ptr < pool_end area)" using "2.prems"(4) [of 0] Suc by auto
    have "gc_find_ptr_area (Suc k) rest ptr = Some (Suc k + aj)"
    proof (rule "2.IH" [OF no])
      show "aj < length rest" "pool_start (rest ! aj) \<le> ptr" "ptr < pool_end (rest ! aj)" using "2.prems"(1-3) Suc by auto
      show "j = aj" if "j < length rest" "pool_start (rest ! j) \<le> ptr" "ptr < pool_end (rest ! j)" for j
        using "2.prems"(4) [of "Suc j"] that Suc by auto
    qed
    then show ?thesis using no Suc by auto
  qed
qed simp

lemma ptr_of_block:
  assumes "areas_wf as" "in_heap as (ai, b)"
  shows "gc_get_ptr_area as (ptr_from_block (as ! ai) b) = Some ai"
    "block_from_ptr (as ! ai) (ptr_from_block (as ! ai) b) = b"
    "gc_target as (ptr_from_block (as ! ai) b) = Some (ai, b)"
proof -
  let ?p = "ptr_from_block (as ! ai) b"
  have i: "ai < length as" "b < area_blocks (as ! ai)" using assms(2) by (auto simp: in_heap_def)
  note w = area_wfD [OF areas_wfD [OF assms(1) i(1)]]
  have r: "pool_start (as ! ai) \<le> ?p" "?p < pool_end (as ! ai)" using i(2) w(4) by (auto simp: ptr_from_block_def)
  have u: "j = ai" if "j < length as" "pool_start (as ! j) \<le> ?p" "?p < pool_end (as ! j)" for j
  proof (rule ccontr)
    assume "j \<noteq> ai"
    then have "pool_end (as ! j) \<le> pool_start (as ! ai) \<or> pool_end (as ! ai) \<le> pool_start (as ! j)"
      using assms(1) that(1) i(1) unfolding areas_wf_def by (metis linorder_neqE_nat)
    then show False using r that by auto
  qed
  have "?p mod 16 = 0" using w(3) by (simp add: ptr_from_block_def mod_add_eq [symmetric])
  then show g: "gc_get_ptr_area as ?p = Some ai"
    using find_ptr_area_complete [OF i(1) r u, of 0] by (simp add: gc_get_ptr_area_def)
  show f: "block_from_ptr (as ! ai) ?p = b" by (simp add: block_from_ptr_def ptr_from_block_def)
  show "gc_target as ?p = Some (ai, b)" using g f by (simp add: gc_target_def)
qed

section \<open>Finding a run\<close>

text \<open>The areas with other search indices.\<close>

definition reindexed :: "gc_area list \<Rightarrow> gc_area list \<Rightarrow> bool" where
  "reindexed as as' \<longleftrightarrow> length as' = length as
     \<and> (\<forall>j < length as. \<exists>x. as' ! j = (as ! j)\<lparr>last_free_atb_index := x\<rparr> \<and> search_ok (as' ! j))"

lemma reindexedD:
  assumes "reindexed as as'"
  shows "length as' = length as" "same_layout as as'" "in_heap as' n \<longleftrightarrow> in_heap as n"
    "j < length as \<Longrightarrow> alloc_table (as' ! j) = alloc_table (as ! j)"
    "j < length as \<Longrightarrow> last_used_block (as' ! j) = last_used_block (as ! j)"
    "j < length as \<Longrightarrow> search_ok (as' ! j)"
proof -
  show r: "length as' = length as" "j < length as \<Longrightarrow> alloc_table (as' ! j) = alloc_table (as ! j)"
    "j < length as \<Longrightarrow> last_used_block (as' ! j) = last_used_block (as ! j)" "j < length as \<Longrightarrow> search_ok (as' ! j)" for j
    using assms unfolding reindexed_def by fastforce+
  show l: "same_layout as as'" using assms unfolding reindexed_def same_layout_def by fastforce
  show "in_heap as' n \<longleftrightarrow> in_heap as n" by (rule same_layoutD(2) [OF l])
qed

lemma reindexed_trans: "reindexed as bs \<Longrightarrow> reindexed bs cs \<Longrightarrow> reindexed as cs"
  unfolding reindexed_def by fastforce

lemma reindexed_refl: "\<forall>area \<in> set as. search_ok area \<Longrightarrow> reindexed as as"
  unfolding reindexed_def
proof (intro conjI allI impI)
  fix j
  assume "\<forall>area \<in> set as. search_ok area" "j < length as"
  then show "\<exists>x. as ! j = (as ! j)\<lparr>last_free_atb_index := x\<rparr> \<and> search_ok (as ! j)"
    by (intro exI [of _ "last_free_atb_index (as ! j)"]) auto
qed simp

lemma reindexed_wf:
  assumes "reindexed as as'" "areas_wf as"
  shows "areas_wf as'"
proof (rule areas_wf_layout [OF assms(2) reindexedD(2) [OF assms(1)]])
  fix ai
  assume "ai < length as"
  then show "area_wf (as' ! ai)"
    using areas_wfD [OF assms(2), of ai] assms(1) unfolding reindexed_def area_wf_def by fastforce
qed

text \<open>No run of \<open>n\<close> free blocks in the area.\<close>

definition no_run :: "gc_area \<Rightarrow> nat \<Rightarrow> bool" where
  "no_run area n \<longleftrightarrow> (\<forall>b. b + n \<le> area_blocks area \<longrightarrow> \<not> free_run_at (alloc_table area) b n)"

lemma no_run_reindexed: "reindexed as as' \<Longrightarrow> j < length as \<Longrightarrow> no_run (as' ! j) n \<longleftrightarrow> no_run (as ! j) n"
  unfolding reindexed_def no_run_def by fastforce

lemma scan_area:
  assumes "area_wf area" "search_ok area" "0 < N"
    and "gc_scan_table [last_free_atb_index area ..< alloc_table_byte_len area] (alloc_table area) N 0 = r"
  shows "case r of
      None \<Rightarrow> no_run area N
    | Some (i, m) \<Rightarrow> m = N \<and> i < area_blocks area \<and> N \<le> i + 1 \<and> free_run_at (alloc_table area) (i + 1 - N) N
        \<and> (N = 1 \<longrightarrow> (\<forall>c < i. atb_get_kind (alloc_table area) c \<noteq> AT_FREE))"
proof -
  let ?x = "last_free_atb_index area" and ?t = "alloc_table area"
  have l: "alloc_table_byte_len area \<le> length ?t" using area_wfD(1) [OF assms(1)] by simp
  have x: "?x \<le> alloc_table_byte_len area" "\<And>b. b < 4 * ?x \<Longrightarrow> atb_get_kind ?t b \<noteq> AT_FREE"
    using assms(2) by (auto simp: search_ok_def)
  have s: "fst (scan_blocks [4 * ?x ..< 4 * alloc_table_byte_len area] ?t N 0) = r"
    using gc_scan_table_blocks [OF l, of ?x N 0] assms(4) by simp
  have z: "(0 :: nat) \<le> 4 * ?x" "free_run_at ?t (4 * ?x - 0) 0" by (auto simp: free_run_at_def)
  show ?thesis
  proof (cases r)
    case None
    have "\<forall>c \<ge> 4 * ?x. c + N \<le> 4 * alloc_table_byte_len area \<longrightarrow> \<not> free_run_at ?t c N"
    proof (rule scan_blocks_None [of "4 * ?x" "4 * alloc_table_byte_len area" ?t N 0])
      show "fst (scan_blocks [4 * ?x ..< 4 * alloc_table_byte_len area] ?t N 0) = None" using s None by simp
    qed (use x(1) assms(3) in auto)
    moreover have "\<not> free_run_at ?t c N" if "c < 4 * ?x" for c
      using x(2) [OF that] assms(3) by (auto simp: free_run_at_def)
    ultimately show ?thesis unfolding no_run_def None by (auto simp: mult.commute) (meson not_le)
  next
    case (Some im)
    obtain i m where im: "im = (i, m)" by fastforce
    have e: "fst (scan_blocks [4 * ?x ..< 4 * alloc_table_byte_len area] ?t N 0) = Some (i, m)" using s Some im by simp
    note k = scan_blocks_Some [OF e z assms(3)]
    have "\<forall>c < i. atb_get_kind ?t c \<noteq> AT_FREE" if "N = 1"
      using k(7) [OF that] x(2) by (meson not_le)
    then show ?thesis using k(1,3-5) Some im by auto
  qed
qed

lemma gc_find_run_correct:
  assumes "areas_wf as" "\<forall>area \<in> set as. search_ok area" "0 < N" "ai + n \<le> length as"
    and "gc_find_run n as ai N = (as', r)"
  shows "reindexed as as' \<and> (case r of
      None \<Rightarrow> \<forall>j. ai \<le> j \<and> j < ai + n \<longrightarrow> no_run (as ! j) N
    | Some (j, i, m) \<Rightarrow> ai \<le> j \<and> j < ai + n \<and> m = N \<and> i < area_blocks (as ! j) \<and> N \<le> i + 1
        \<and> free_run_at (alloc_table (as ! j)) (i + 1 - N) N \<and> (\<forall>k. ai \<le> k \<and> k < j \<longrightarrow> no_run (as ! k) N)
        \<and> (N = 1 \<longrightarrow> (\<forall>c < i. atb_get_kind (alloc_table (as ! j)) c \<noteq> AT_FREE)))"
  using assms
proof (induction n as ai N arbitrary: as' r rule: gc_find_run.induct)
  case (1 as ai N)
  then show ?case using reindexed_refl by auto
next
  case (2 n as ai N)
  let ?area = "as ! ai"
  let ?scan = "gc_scan_table [last_free_atb_index ?area ..< alloc_table_byte_len ?area] (alloc_table ?area) N 0"
  have ai: "ai < length as" using "2.prems"(4) by simp
  have wf: "area_wf ?area" "search_ok ?area" using areas_wfD [OF "2.prems"(1) ai] "2.prems"(2) ai by auto
  note sc = scan_area [OF wf "2.prems"(3) refl]
  show ?case
  proof (cases ?scan)
    case (Some im)
    obtain i m where im: "im = (i, m)" by fastforce
    have "as' = as" "r = Some (ai, i, m)" using "2.prems"(5) Some im by (auto simp: Let_def)
    then show ?thesis using sc Some im reindexed_refl [OF "2.prems"(2)] by auto
  next
    case None
    then have nr: "no_run ?area N" using sc by simp
    define i where "i = max (last_free_atb_index ?area) (alloc_table_byte_len ?area)"
    define as1 where "as1 = (if N = 1 then as[ai := ?area\<lparr>last_free_atb_index := (i + 1) div BLOCKS_PER_ATB\<rparr>] else as)"
    have rec: "gc_find_run n as1 (Suc ai) N = (as', r)"
      using "2.prems"(5) unfolding gc_find_run.simps Let_def None option.case as1_def i_def .
    have i: "i = alloc_table_byte_len ?area" using wf(2) by (simp add: i_def search_ok_def)
    have re: "reindexed as as1"
    proof (cases "N = 1")
      case True
      have full: "atb_get_kind (alloc_table ?area) b \<noteq> AT_FREE" if "b < area_blocks ?area" for b
      proof -
        have "\<not> free_run_at (alloc_table ?area) b 1" using nr True that unfolding no_run_def by simp
        then show ?thesis by (auto simp: free_run_at_def) (metis le_antisym less_Suc_eq_le)
      qed
      have "4 * ((i + 1) div 4) \<le> area_blocks ?area" unfolding i by presburger
      then have "search_ok (?area\<lparr>last_free_atb_index := (i + 1) div BLOCKS_PER_ATB\<rparr>)"
        unfolding search_ok_def using wf(2) full i by (auto simp: search_ok_def)
      moreover have "\<exists>x. ?area\<lparr>last_free_atb_index := (i + 1) div BLOCKS_PER_ATB\<rparr> = ?area\<lparr>last_free_atb_index := x\<rparr>" by blast
      ultimately show ?thesis using True ai reindexed_refl [OF "2.prems"(2)]
        unfolding reindexed_def as1_def by (auto simp: nth_list_update)
    next
      case False
      then show ?thesis using reindexed_refl [OF "2.prems"(2)] by (simp add: as1_def)
    qed
    note d = reindexedD [OF re]
    have "\<forall>area \<in> set as1. search_ok area" using d(1,6) by (auto simp: all_set_conv_all_nth)
    then have ih: "reindexed as1 as' \<and> (case r of
        None \<Rightarrow> \<forall>j. Suc ai \<le> j \<and> j < Suc ai + n \<longrightarrow> no_run (as1 ! j) N
      | Some (j, i, m) \<Rightarrow> Suc ai \<le> j \<and> j < Suc ai + n \<and> m = N \<and> i < area_blocks (as1 ! j) \<and> N \<le> i + 1
          \<and> free_run_at (alloc_table (as1 ! j)) (i + 1 - N) N \<and> (\<forall>k. Suc ai \<le> k \<and> k < j \<longrightarrow> no_run (as1 ! k) N)
          \<and> (N = 1 \<longrightarrow> (\<forall>c < i. atb_get_kind (alloc_table (as1 ! j)) c \<noteq> AT_FREE)))"
      using "2.IH" [OF refl None i_def as1_def reindexed_wf [OF re "2.prems"(1)] _ "2.prems"(3) _ rec] "2.prems"(4) d(1) by simp
    have tr: "no_run (as1 ! j) N \<longleftrightarrow> no_run (as ! j) N" "alloc_table (as1 ! j) = alloc_table (as ! j)"
      "area_blocks (as1 ! j) = area_blocks (as ! j)" if "j < length as" for j
      using no_run_reindexed [OF re that] d(4) [OF that] same_layoutD(6) [OF d(2) that] by auto
    have lt: "j < length as" if "j < Suc ai + n" for j using that "2.prems"(4) by simp
    have "reindexed as as'" using reindexed_trans [OF re] ih by blast
    moreover have "case r of
      None \<Rightarrow> \<forall>j. ai \<le> j \<and> j < ai + Suc n \<longrightarrow> no_run (as ! j) N
    | Some (j, i, m) \<Rightarrow> ai \<le> j \<and> j < ai + Suc n \<and> m = N \<and> i < area_blocks (as ! j) \<and> N \<le> i + 1
        \<and> free_run_at (alloc_table (as ! j)) (i + 1 - N) N \<and> (\<forall>k. ai \<le> k \<and> k < j \<longrightarrow> no_run (as ! k) N)
        \<and> (N = 1 \<longrightarrow> (\<forall>c < i. atb_get_kind (alloc_table (as ! j)) c \<noteq> AT_FREE))"
    proof (cases r)
      case None
      have "no_run (as ! j) N" if "ai \<le> j" "j < ai + Suc n" for j
        using ih None nr tr(1) [of j] lt [of j] that by (cases "j = ai") auto
      then show ?thesis using None by simp
    next
      case (Some jim)
      obtain j i m where jim: "jim = (j, i, m)" by (cases jim) auto
      have "no_run (as ! k) N" if "ai \<le> k" "k < j" for k
        using ih Some jim nr tr(1) [of k] lt [of k] that by (cases "k = ai") auto
      then show ?thesis using ih Some jim tr(2,3) [of j] lt [of j] by auto
    qed
    ultimately show ?thesis by blast
  qed
qed

section \<open>Taking a run\<close>

lemma gc_wfD:
  assumes "gc_wf s"
  shows "areas_wf (areas s)" "\<forall>area \<in> set (areas s). search_ok area" "last_free_area s < length (areas s)"
    "ai < length (areas s) \<Longrightarrow> area_wf (areas s ! ai)" "ai < length (areas s) \<Longrightarrow> search_ok (areas s ! ai)"
    "ai < length (areas s) \<Longrightarrow> 0 < pool_start (areas s ! ai)"
    "in_heap (areas s) n \<Longrightarrow> gc_kind (areas s) n \<noteq> AT_MARK"
    "in_heap (areas s) n \<Longrightarrow> fst n < last_free_area s \<Longrightarrow> gc_kind (areas s) n \<noteq> AT_FREE"
  using assms areas_wfD unfolding gc_wf_def by auto

text \<open>One area of the state is replaced.\<close>

lemma gc_wf_update:
  assumes "gc_wf s" "ai < length (areas s)" "areas s' = (areas s)[ai := area']"
    and "pool_start area' = pool_start (areas s ! ai)" "pool_end area' = pool_end (areas s ! ai)"
      "alloc_table_byte_len area' = alloc_table_byte_len (areas s ! ai)"
    and "area_wf area'" "search_ok area'" "\<And>b. b < area_blocks area' \<Longrightarrow> atb_get_kind (alloc_table area') b \<noteq> AT_MARK"
    and "last_free_area s' < length (areas s)"
    and "\<And>n. in_heap (areas s) n \<Longrightarrow> fst n < last_free_area s' \<Longrightarrow> gc_kind (areas s') n \<noteq> AT_FREE"
  shows "gc_wf s'" "same_layout (areas s) (areas s')"
proof -
  note w = gc_wfD [OF assms(1)]
  show lay: "same_layout (areas s) (areas s')" unfolding assms(3) by (rule same_layout_update [OF assms(4-6)])
  have each: "areas s' ! j = (if j = ai then area' else areas s ! j)" if "j < length (areas s)" for j
    using that assms(3) by auto
  have "areas_wf (areas s')"
    using w(4) assms(7) each by (intro areas_wf_layout [OF w(1) lay]) simp
  moreover have "\<forall>area \<in> set (areas s'). search_ok area \<and> 0 < pool_start area"
  proof -
    have "search_ok (areas s' ! j) \<and> 0 < pool_start (areas s' ! j)" if "j < length (areas s)" for j
      using each [OF that] w(5,6) [OF that] assms(4,8) by auto
    then show ?thesis using same_layoutD(1) [OF lay] by (auto simp: all_set_conv_all_nth)
  qed
  moreover have "gc_kind (areas s') n \<noteq> AT_MARK" if "in_heap (areas s') n" for n
    using that same_layoutD(2) [OF lay, of n] w(7) [of n] assms(6) assms(9) [of "snd n"] each [of "fst n"]
    by (auto simp: in_heap_def split: if_splits)
  moreover have "gc_kind (areas s') n \<noteq> AT_FREE" if "in_heap (areas s') n" "fst n < last_free_area s'" for n
    using that assms(11) same_layoutD(2) [OF lay, of n] by blast
  moreover have "last_free_area s' < length (areas s')" using assms(3,10) by simp
  ultimately show "gc_wf s'" unfolding gc_wf_def by blast
qed

text \<open>
  \<open>s'\<close> is \<open>s\<close> with a run of \<open>n_blocks\<close> free blocks made a chain at \<open>p\<close>, its memory cleared.
\<close>

definition gc_allocated :: "gc_state \<Rightarrow> nat \<Rightarrow> gc_state \<Rightarrow> nat \<Rightarrow> bool" where
  "gc_allocated s n_blocks s' p \<longleftrightarrow> (\<exists>ai b. ai < length (areas s) \<and> b + n_blocks \<le> area_blocks (areas s ! ai) \<and> 0 < p
     \<and> p = ptr_from_block (areas s ! ai) b \<and> free_run_at (alloc_table (areas s ! ai)) b n_blocks
     \<and> same_layout (areas s) (areas s') \<and> lock_depth s' = lock_depth s
     \<and> (\<forall>n. in_heap (areas s) n \<longrightarrow> gc_kind (areas s') n =
          (if n = (ai, b) then AT_HEAD else if fst n = ai \<and> b < snd n \<and> snd n < b + n_blocks then AT_TAIL
           else gc_kind (areas s) n))
     \<and> memory s' = (\<lambda>q. if p \<le> q \<and> q < p + n_blocks * BYTES_PER_BLOCK then 0 else memory s q))"

lemma taken_table:
  assumes "b + N \<le> 4 * length t" "0 < N" "free_run_at t b N"
    and "t' = foldl atb_free_to_tail (atb_free_to_head t b) [b + 1 ..< b + N]"
  shows "length t' = length t"
    "\<And>c. c < 4 * length t \<Longrightarrow> atb_get_kind t' c =
       (if c = b then AT_HEAD else if b < c \<and> c < b + N then AT_TAIL else atb_get_kind t c)"
proof -
  let ?t1 = "atb_free_to_head t b"
  have l1: "length ?t1 = length t" by (simp add: atb_free_to_head_def)
  have k1: "atb_get_kind ?t1 c = (if c = b then AT_HEAD else atb_get_kind t c)" if "c < 4 * length t" for c
    using atb.kind_to_head [of b t c] assms(1-3) that by (auto simp: free_run_at_def)
  have "[b + 1 ..< b + N] = [b + 1 ..< b + 1 + (N - 1)]" using assms(2) by simp
  then have t': "t' = foldl atb_free_to_tail ?t1 [b + 1 ..< b + 1 + (N - 1)]" using assms(4) by simp
  have r: "4 * length t' = 4 * length ?t1 \<and> (\<forall>c < 4 * length ?t1. atb_get_kind t' c =
      (if b + 1 \<le> c \<and> c < b + 1 + (N - 1) then AT_TAIL else atb_get_kind ?t1 c))"
    unfolding t'
  proof (rule atb.tail_run)
    show "b + 1 + (N - 1) \<le> 4 * length ?t1" using assms(1,2) l1 by simp
    show "atb_get_kind ?t1 c = AT_FREE" if "b + 1 \<le> c" "c < b + 1 + (N - 1)" for c
      using k1 [of c] that assms(1,3) by (simp add: free_run_at_def)
  qed
  then show "length t' = length t" using l1 by simp
  show "atb_get_kind t' c = (if c = b then AT_HEAD else if b < c \<and> c < b + N then AT_TAIL else atb_get_kind t c)"
    if "c < 4 * length t" for c
    using r k1 [OF that] that l1 assms(2) by auto
qed

text \<open>A table with a run of free blocks turned into a chain is well-formed.\<close>

lemma area_wf_taken:
  assumes "area_wf area" "b + N \<le> area_blocks area" "0 < N" "length t = length (alloc_table area)"
    and "free_run_at (alloc_table area) b N"
    and "\<And>c. c < 4 * length (alloc_table area) \<Longrightarrow> atb_get_kind t c =
       (if c = b then AT_HEAD else if b < c \<and> c < b + N then AT_TAIL else atb_get_kind (alloc_table area) c)"
    and "alloc_table area' = t" "alloc_table_byte_len area' = alloc_table_byte_len area"
      "pool_start area' = pool_start area" "pool_end area' = pool_end area"
  shows "area_wf area'"
proof -
  note w = area_wfD [OF assms(1)]
  have b4: "c < 4 * length (alloc_table area)" if "c \<le> area_blocks area" for c using w(6) that by simp
  have "0 < c \<and> atb_get_kind t (c - 1) \<noteq> AT_FREE" if c: "c < area_blocks area" "atb_get_kind t c = AT_TAIL" for c
  proof (cases "b < c \<and> c < b + N")
    case True
    then show ?thesis using assms(6) [OF b4, of "c - 1"] c(1) by (cases "c - 1 = b") auto
  next
    case False
    then have "atb_get_kind (alloc_table area) c = AT_TAIL" using assms(6) [OF b4, of c] c by (auto split: if_splits)
    then have p: "0 < c" "atb_get_kind (alloc_table area) (c - 1) \<noteq> AT_FREE" using w(5) [OF c(1)] by auto
    then show ?thesis using assms(6) [OF b4, of "c - 1"] c(1) by auto
  qed
  moreover have "atb_get_kind t c = AT_FREE" if "area_blocks area \<le> c" "c < 4 * length t" for c
    using assms(2-4) assms(6) [of c] w(2) [of c] that by auto
  ultimately show ?thesis unfolding area_wf_def using assms(4,7-10) w(1,3,4) by auto
qed

lemma gc_take_run_correct:
  assumes "gc_wf s" "ai < length (areas s)" "i < area_blocks (areas s ! ai)" "N \<le> i + 1" "0 < N"
    and "free_run_at (alloc_table (areas s ! ai)) (i + 1 - N) N"
    and "N = 1 \<Longrightarrow> \<forall>c < i. atb_get_kind (alloc_table (areas s ! ai)) c \<noteq> AT_FREE"
    and "N = 1 \<Longrightarrow> \<forall>n. in_heap (areas s) n \<and> fst n < ai \<longrightarrow> gc_kind (areas s) n \<noteq> AT_FREE"
    and "gc_take_run s ai i N N = (s', p)"
  shows "gc_wf s'" "gc_allocated s N s' p"
proof -
  note w = gc_wfD [OF assms(1)]
  define area where "area = areas s ! ai"
  define b where "b = i + 1 - N"
  have i: "b + N = i + 1" "[b + 1 ..< i + 1] = [b + 1 ..< b + N]" using assms(4) by (auto simp: b_def)
  have wfa: "area_wf area" "search_ok area" using w(4,5) assms(2) by (auto simp: area_def)
  have bound: "b + N \<le> area_blocks area" using assms(3) i by (simp add: area_def)
  have run: "free_run_at (alloc_table area) b N" using assms(6) by (simp add: area_def b_def)
  define t' where "t' = foldl atb_free_to_tail (atb_free_to_head (alloc_table area) b) [b + 1 ..< b + N]"
  have b4: "b + N \<le> 4 * length (alloc_table area)" using bound area_wfD(6) [OF wfa(1)] by simp
  note t = taken_table [OF b4 assms(5) run t'_def]
  define x where "x = (if N = 1 then (i + 1) div 4 else last_free_atb_index area)"
  define area' where "area' = area\<lparr>last_free_atb_index := x, last_used_block := max (last_used_block area) i, alloc_table := t'\<rparr>"
  have s': "areas s' = (areas s)[ai := area']" "last_free_area s' = (if N = 1 then ai else last_free_area s)"
    "lock_depth s' = lock_depth s" and p: "p = ptr_from_block area b"
    "memory s' = (\<lambda>q. if p \<le> q \<and> q < p + N * BYTES_PER_BLOCK then 0 else memory s q)"
  proof -
    have bi: "i - b + 1 = N" using i(1) assms(5) by simp
    have a: "(if N = 1 then area\<lparr>last_free_atb_index := (i + 1) div 4\<rparr> else area) = area\<lparr>last_free_atb_index := x\<rparr>"
      by (simp add: x_def)
    note e = assms(9) [unfolded gc_take_run_def Let_def, folded b_def area_def, unfolded a i(2) bi]
    show "areas s' = (areas s)[ai := area']" "last_free_area s' = (if N = 1 then ai else last_free_area s)"
      "lock_depth s' = lock_depth s" "p = ptr_from_block area b"
      "memory s' = (\<lambda>q. if p \<le> q \<and> q < p + N * BYTES_PER_BLOCK then 0 else memory s q)"
      using e by (auto simp: area'_def t'_def ptr_from_block_def add.commute)
  qed
  have wf': "area_wf area'"
    by (rule area_wf_taken [OF wfa(1) bound assms(5) t(1) run t(2)]) (simp_all add: area'_def)
  have blk: "c < 4 * length (alloc_table area)" if "c < area_blocks area" for c
    using area_wfD(6) [OF wfa(1)] that by simp
  have so': "search_ok area'"
  proof -
    have "x \<le> alloc_table_byte_len area" using wfa(2) assms(3) by (auto simp: x_def search_ok_def area_def)
    moreover have "atb_get_kind t' c \<noteq> AT_FREE" if "c < 4 * x" for c
    proof (cases "N = 1")
      case True
      then have "c \<le> i" using that i by (auto simp: x_def)
      moreover have "c < 4 * length (alloc_table area)" using \<open>c \<le> i\<close> blk assms(3) by (simp add: area_def)
      ultimately show ?thesis using t(2) [of c] assms(7) True i by (cases "c = i") (auto simp: area_def)
    next
      case False
      then have "c < area_blocks area" "atb_get_kind (alloc_table area) c \<noteq> AT_FREE"
        using that wfa(2) by (auto simp: x_def search_ok_def)
      then show ?thesis using t(2) [OF blk] by auto
    qed
    moreover have "c \<le> max (last_used_block area) i" if "c < area_blocks area" "atb_get_kind t' c \<noteq> AT_FREE" for c
      using that t(2) [OF blk [OF that(1)]] wfa(2) i assms(5) by (auto simp: search_ok_def max_def split: if_splits)
    ultimately show ?thesis by (auto simp: search_ok_def area'_def)
  qed
  have nm: "atb_get_kind (alloc_table area') c \<noteq> AT_MARK" if "c < area_blocks area'" for c
    using that t(2) [OF blk, of c] w(7) [of "(ai, c)"] assms(2) by (auto simp: area'_def in_heap_def area_def)
  have kinds: "gc_kind (areas s') n = (if n = (ai, b) then AT_HEAD else if fst n = ai \<and> b < snd n \<and> snd n < b + N then AT_TAIL
      else gc_kind (areas s) n)" if "in_heap (areas s) n" for n
    using that t(2) [OF blk, of "snd n"] assms(2)
    by (cases n; cases "fst n = ai") (auto simp: s'(1) area'_def in_heap_def area_def)
  have full: "gc_kind (areas s') n \<noteq> AT_FREE" if "in_heap (areas s) n" "fst n < last_free_area s'" for n
    using kinds [OF that(1)] that(2) assms(8) w(8) [OF that(1)] s'(2) that(1) by (auto split: if_splits)
  have lt: "last_free_area s' < length (areas s)" using s'(2) assms(2) w(3) by simp
  note u = gc_wf_update [OF assms(1,2) s'(1) _ _ _ wf' so' nm lt full]
  have lay: "pool_start area' = pool_start (areas s ! ai)" "pool_end area' = pool_end (areas s ! ai)"
    "alloc_table_byte_len area' = alloc_table_byte_len (areas s ! ai)" by (simp_all add: area'_def area_def)
  show "gc_wf s'" using u(1) [OF lay] by blast
  have sl: "same_layout (areas s) (areas s')" using u(2) [OF lay] by blast
  have "0 < p" using w(6) [OF assms(2)] p(1) by (simp add: ptr_from_block_def area_def)
  then show "gc_allocated s N s' p"
    unfolding gc_allocated_def
    using assms(2) bound [unfolded area_def] run [unfolded area_def] sl s'(3) kinds p [unfolded area_def] by blast
qed

section \<open>Allocation\<close>

text \<open>The states with the same blocks and memory.\<close>

definition gc_same :: "gc_state \<Rightarrow> gc_state \<Rightarrow> bool" where
  "gc_same s s' \<longleftrightarrow> same_layout (areas s) (areas s')
     \<and> (\<forall>ai < length (areas s). alloc_table (areas s' ! ai) = alloc_table (areas s ! ai))
     \<and> memory s' = memory s \<and> lock_depth s' = lock_depth s"

lemma gc_same_refl [simp]: "gc_same s s"
  by (simp add: gc_same_def)

lemma gc_sameD:
  assumes "gc_same s s'"
  shows "same_layout (areas s) (areas s')" "in_heap (areas s) n \<Longrightarrow> gc_kind (areas s') n = gc_kind (areas s) n"
    "gc_nodes (areas s') = gc_nodes (areas s)" "memory s' = memory s" "lock_depth s' = lock_depth s"
    "in_heap (areas s) n \<Longrightarrow> gc_head (areas s') n = gc_head (areas s) n"
    "gc_pointees (areas s') ptrs = gc_pointees (areas s) ptrs"
    "in_heap (areas s) n \<Longrightarrow> gc_words mem (areas s') n = gc_words mem (areas s) n"
proof -
  show l: "same_layout (areas s) (areas s')" "memory s' = memory s" "lock_depth s' = lock_depth s"
    using assms by (auto simp: gc_same_def)
  show k: "in_heap (areas s) n \<Longrightarrow> gc_kind (areas s') n = gc_kind (areas s) n" for n
    using assms by (auto simp: gc_same_def in_heap_def)
  show g: "gc_nodes (areas s') = gc_nodes (areas s)"
    unfolding gc_nodes_def using k same_layoutD(2) [OF l(1)] by auto
  show "in_heap (areas s) n \<Longrightarrow> gc_head (areas s') n = gc_head (areas s) n"
    using assms by (auto simp: gc_head_def gc_same_def in_heap_def)
  show "gc_pointees (areas s') ptrs = gc_pointees (areas s) ptrs"
    by (simp add: gc_pointees_def g same_layoutD(7) [OF l(1)])
  show "in_heap (areas s) n \<Longrightarrow> gc_words mem (areas s') n = gc_words mem (areas s) n"
    using assms same_layoutD(4) [OF l(1), of "fst n"]
    by (auto simp: gc_words_def gc_chain_words_def gc_same_def in_heap_def ptr_from_block_def)
qed

lemma gc_same_sym: "gc_same s s' \<Longrightarrow> gc_same s' s"
  by (auto simp: gc_same_def same_layout_def)

lemma gc_live_same_subset:
  assumes "gc_same s s'"
  shows "gc_live s roots \<subseteq> gc_live s' roots"
  unfolding gc_live_def
proof (rule gc_reachable_least)
  note d = gc_sameD [OF assms]
  show "gc_pointees (areas s) (fst roots @ snd roots)
      \<subseteq> gc_reachable (memory s') (areas s') (gc_pointees (areas s') (fst roots @ snd roots))"
    unfolding d(7) by (auto intro: gc_reachable.root)
  fix n
  assume n: "n \<in> gc_reachable (memory s') (areas s') (gc_pointees (areas s') (fst roots @ snd roots))"
  then have "in_heap (areas s) n"
    using gc_live_nodes [of s' roots] d(3) unfolding gc_live_def by (auto simp: gc_nodes_def)
  then have "gc_pointees (areas s) (gc_words (memory s) (areas s) n) = gc_pointees (areas s') (gc_words (memory s') (areas s') n)"
    using d(4,7,8) by simp
  then show "gc_pointees (areas s) (gc_words (memory s) (areas s) n)
      \<subseteq> gc_reachable (memory s') (areas s') (gc_pointees (areas s') (fst roots @ snd roots))"
    using n by (auto intro: gc_reachable.step)
qed

lemma gc_live_same: "gc_same s s' \<Longrightarrow> gc_live s' roots = gc_live s roots"
  by (rule equalityI) (simp_all add: gc_live_same_subset gc_same_sym)

lemma gc_collected_same:
  assumes "gc_same s s1" "gc_collected s1 roots s'"
  shows "gc_collected s roots s'"
proof -
  note d = gc_sameD [OF assms(1)]
  show ?thesis
    using assms(2) same_layout_trans [OF d(1)] d(2,4,5,6) same_layoutD(2) [OF d(1)] gc_live_same [OF assms(1)]
    unfolding gc_collected_def by auto
qed

lemma gc_wf_reindexed:
  assumes "gc_wf s" "reindexed (areas s) as"
  shows "gc_wf (s\<lparr>areas := as\<rparr>)" "gc_same s (s\<lparr>areas := as\<rparr>)"
proof -
  note w = gc_wfD [OF assms(1)]
  note d = reindexedD [OF assms(2)]
  have k: "gc_kind as n = gc_kind (areas s) n" if "in_heap (areas s) n" for n
    using d(4) [of "fst n"] that by (simp add: in_heap_def)
  have "areas_wf as" by (rule reindexed_wf [OF assms(2) w(1)])
  moreover have "\<forall>area \<in> set as. search_ok area \<and> 0 < pool_start area"
    using d(1,6) w(6) same_layoutD(4) [OF d(2)] by (auto simp: all_set_conv_all_nth)
  ultimately show "gc_wf (s\<lparr>areas := as\<rparr>)" unfolding gc_wf_def using w(3,7,8) d(1,3) k by auto
  show "gc_same s (s\<lparr>areas := as\<rparr>)" unfolding gc_same_def using d(2,4) by auto
qed

lemma free_run_kinds:
  assumes "areas_wf as" "same_layout as as'" "\<And>n. in_heap as n \<Longrightarrow> gc_kind as' n = gc_kind as n" "ai < length as"
    and "b + N \<le> area_blocks (as ! ai)"
  shows "free_run_at (alloc_table (as' ! ai)) b N \<longleftrightarrow> free_run_at (alloc_table (as ! ai)) b N"
  using assms(3) [of "(ai, c)" for c] assms(4,5) by (auto simp: free_run_at_def in_heap_def)

lemma gc_allocated_same:
  assumes "gc_wf s" "gc_same s s1" "gc_allocated s1 N s' p"
  shows "gc_allocated s N s' p"
proof -
  note w = gc_wfD [OF assms(1)]
  have l: "same_layout (areas s) (areas s1)" and k: "\<And>n. in_heap (areas s) n \<Longrightarrow> gc_kind (areas s1) n = gc_kind (areas s) n"
    and m: "memory s1 = memory s" "lock_depth s1 = lock_depth s" using gc_sameD [OF assms(2)] by auto
  note ld = same_layoutD [OF l]
  obtain ai b where a: "ai < length (areas s1)" "b + N \<le> area_blocks (areas s1 ! ai)" "0 < p"
    "p = ptr_from_block (areas s1 ! ai) b" "free_run_at (alloc_table (areas s1 ! ai)) b N"
    "same_layout (areas s1) (areas s')" "lock_depth s' = lock_depth s1"
    "\<forall>n. in_heap (areas s1) n \<longrightarrow> gc_kind (areas s') n =
       (if n = (ai, b) then AT_HEAD else if fst n = ai \<and> b < snd n \<and> snd n < b + N then AT_TAIL else gc_kind (areas s1) n)"
    "memory s' = (\<lambda>q. if p \<le> q \<and> q < p + N * BYTES_PER_BLOCK then 0 else memory s1 q)"
    using assms(3) unfolding gc_allocated_def by blast
  have ai: "ai < length (areas s)" using a(1) ld(1) by simp
  have bl: "b + N \<le> area_blocks (areas s ! ai)" using a(2) ld(6) [OF ai] by simp
  show ?thesis
    unfolding gc_allocated_def
  proof (rule exI [of _ ai], rule exI [of _ b], intro conjI)
    show "p = ptr_from_block (areas s ! ai) b" using a(4) ld(4) [OF ai] by (simp add: ptr_from_block_def)
    show "free_run_at (alloc_table (areas s ! ai)) b N" using a(5) free_run_kinds [OF w(1) l k ai bl] by blast
    show "same_layout (areas s) (areas s')" by (rule same_layout_trans [OF l a(6)])
    show "memory s' = (\<lambda>q. if p \<le> q \<and> q < p + N * BYTES_PER_BLOCK then 0 else memory s q)" using a(9) unfolding m(1) .
    show "lock_depth s' = lock_depth s" using a(7) m(2) by simp
    show "\<forall>n. in_heap (areas s) n \<longrightarrow> gc_kind (areas s') n =
       (if n = (ai, b) then AT_HEAD else if fst n = ai \<and> b < snd n \<and> snd n < b + N then AT_TAIL else gc_kind (areas s) n)"
    proof (intro allI impI)
      fix n
      assume n: "in_heap (areas s) n"
      show "gc_kind (areas s') n =
       (if n = (ai, b) then AT_HEAD else if fst n = ai \<and> b < snd n \<and> snd n < b + N then AT_TAIL else gc_kind (areas s) n)"
        unfolding k [OF n, symmetric] using a(8) n unfolding ld(2) by blast
    qed
  qed (use ai bl a(3) in simp_all)
qed

lemma gc_try_alloc_correct:
  assumes "gc_wf s" "0 < N" "gc_try_alloc s N = (s', r)"
  shows "gc_wf s' \<and> (case r of None \<Rightarrow> gc_same s s' \<and> (\<forall>area \<in> set (areas s). no_run area N)
    | Some p \<Rightarrow> gc_allocated s N s' p)"
proof -
  note w = gc_wfD [OF assms(1)]
  let ?n = "length (areas s) - last_free_area s"
  obtain as q where f: "gc_find_run ?n (areas s) (last_free_area s) N = (as, q)" by fastforce
  have "last_free_area s + ?n \<le> length (areas s)" using w(3) by simp
  note fr = gc_find_run_correct [OF w(1,2) assms(2) this f]
  let ?s1 = "s\<lparr>areas := as\<rparr>"
  have re: "reindexed (areas s) as" using fr by blast
  note s1 = gc_wf_reindexed [OF assms(1) re]
  note d = reindexedD [OF re]
  have low: "no_run (areas s ! j) N" if "j < last_free_area s" for j
    unfolding no_run_def
  proof (intro allI impI notI)
    fix b
    assume "b + N \<le> area_blocks (areas s ! j)" "free_run_at (alloc_table (areas s ! j)) b N"
    then show False using w(8) [of "(j, b)"] that w(3) assms(2) by (auto simp: in_heap_def free_run_at_def)
  qed
  show ?thesis
  proof (cases q)
    case None
    then have "s' = ?s1" "r = None" using assms(3) f by (auto simp: gc_try_alloc_def)
    moreover have "no_run (areas s ! j) N" if "j < length (areas s)" for j
      using fr None low [of j] that by (cases "j < last_free_area s") auto
    ultimately show ?thesis using s1 by (auto simp: all_set_conv_all_nth)
  next
    case (Some jim)
    obtain j i m where jim: "jim = (j, i, m)" by (cases jim) auto
    obtain s2 p where t: "gc_take_run ?s1 j i m N = (s2, p)" by fastforce
    have r: "s' = s2" "r = Some p" using assms(3) f Some jim t by (auto simp: gc_try_alloc_def)
    have q: "j < length (areas s)" "m = N" "i < area_blocks (areas s ! j)" "N \<le> i + 1"
      "free_run_at (alloc_table (areas s ! j)) (i + 1 - N) N" "\<forall>k. last_free_area s \<le> k \<and> k < j \<longrightarrow> no_run (areas s ! k) N"
      "N = 1 \<longrightarrow> (\<forall>c < i. atb_get_kind (alloc_table (areas s ! j)) c \<noteq> AT_FREE)"
      using fr Some jim by auto
    have e: "alloc_table (areas ?s1 ! j) = alloc_table (areas s ! j)" "area_blocks (areas ?s1 ! j) = area_blocks (areas s ! j)"
      using d(4) [OF q(1)] same_layoutD(6) [OF d(2) q(1)] by auto
    have "gc_kind (areas ?s1) n \<noteq> AT_FREE" if "N = 1" "in_heap (areas ?s1) n" "fst n < j" for n
    proof -
      have h: "fst n < length (areas s)" "snd n < area_blocks (areas s ! fst n)"
        using that(2) d(3) by (auto simp: in_heap_def)
      have "no_run (areas s ! fst n) N" using q(6) low that(3) by (cases "fst n < last_free_area s") auto
      then have "\<not> free_run_at (alloc_table (areas s ! fst n)) (snd n) 1" using h(2) that(1) unfolding no_run_def by auto
      then have "gc_kind (areas s) n \<noteq> AT_FREE" by (auto simp: free_run_at_def) (metis le_antisym less_Suc_eq_le)
      then show ?thesis using d(4) [OF h(1)] by simp
    qed
    then have full: "\<forall>n. in_heap (areas ?s1) n \<and> fst n < j \<longrightarrow> gc_kind (areas ?s1) n \<noteq> AT_FREE" if "N = 1" using that by blast
    have j1: "j < length (areas ?s1)" using q(1) d(1) by simp
    note tk = gc_take_run_correct [OF s1(1) j1 _ q(4) assms(2) _ _ full t [unfolded q(2)], unfolded e, OF q(3,5)]
    have "N = 1 \<Longrightarrow> \<forall>c < i. atb_get_kind (alloc_table (areas s ! j)) c \<noteq> AT_FREE" using q(7) by blast
    note tk = tk [OF this]
    show ?thesis using r tk(1) gc_allocated_same [OF assms(1) s1(2) tk(2)] by auto
  qed
qed

lemma gc_alloc_correct:
  assumes "gc_wf s"
  shows "\<exists>s' p. gc_alloc s roots n_bytes = Some (s', p) \<and> gc_wf s' \<and>
    (let N = u32 (n_bytes + 15) div 16
     in if N = 0 \<or> gc_is_locked s then s' = s \<and> p = 0
        else if p = 0
        then \<exists>s0. (s0 = s \<and> \<not> auto_collect_enabled s \<or> gc_collected s roots s0) \<and> gc_wf s0 \<and> gc_same s0 s'
               \<and> (\<forall>area \<in> set (areas s0). no_run area N)
        else \<exists>s0. (s0 = s \<or> gc_collected s roots s0) \<and> gc_wf s0 \<and> gc_allocated s0 N s' p)"
proof -
  define N where "N = u32 (n_bytes + 15) div 16"
  have N: "u32 (n_bytes + 16 - 1) div 16 = N" by (simp add: N_def add.commute)
  have pos: "0 < p" if "gc_allocated t N s' p" for t s' p using that by (auto simp: gc_allocated_def)
  consider "N = 0 \<or> 0 < lock_depth s" | "0 < N" "lock_depth s = 0" by linarith
  then show ?thesis
  proof cases
    case 1
    then show ?thesis using assms unfolding gc_alloc_def Let_def N N_def [symmetric] by (auto simp: gc_is_locked_def)
  next
    case 2
    then have unlocked: "\<not> (N = 0 \<or> gc_is_locked s)" by (simp add: gc_is_locked_def)
    obtain sc where c: "gc_collect s roots = Some sc" "gc_wf sc" "gc_collected s roots sc"
      using gc_collect_correct [OF assms, of roots] 2(2) by auto
    define early where "early = (auto_collect_enabled s \<and> alloc_amount s \<ge> alloc_threshold s)"
    define s0 where "s0 = (if early then sc else s)"
    have s0: "gc_wf s0" "s0 = s \<or> gc_collected s roots s0" using assms c by (auto simp: s0_def)
    obtain s1 r where t: "gc_try_alloc s0 N = (s1, r)" by fastforce
    note tc = gc_try_alloc_correct [OF s0(1) 2(1) t]
    have run: "gc_alloc s roots n_bytes = (case r of Some p \<Rightarrow> Some (s1, p) | None \<Rightarrow>
        if \<not> auto_collect_enabled s \<or> early then Some (s1, 0)
        else case gc_collect s1 roots of None \<Rightarrow> None | Some s \<Rightarrow>
          (case gc_try_alloc s N of (s, Some p) \<Rightarrow> Some (s, p) | (s, None) \<Rightarrow> Some (s, 0)))"
    proof -
      have e: "(if early then gc_collect s roots else Some s) = Some s0" using c(1) by (simp add: s0_def)
      show ?thesis unfolding gc_alloc_def Let_def N early_def [symmetric] e using 2 t
        by (cases "auto_collect_enabled s"; cases early) simp_all
    qed
    show ?thesis
    proof (cases r)
      case (Some p)
      then have a: "gc_wf s1" "gc_allocated s0 N s1 p" using tc by auto
      have e: "gc_alloc s roots n_bytes = Some (s1, p)" using run Some by simp
      show ?thesis unfolding e Let_def N_def [symmetric] if_not_P [OF unlocked] using a s0 pos [OF a(2)] by auto
    next
      case None
      then have a: "gc_wf s1" "gc_same s0 s1" "\<forall>area \<in> set (areas s0). no_run area N" using tc by auto
      show ?thesis
      proof (cases "\<not> auto_collect_enabled s \<or> early")
        case True
        then have e: "gc_alloc s roots n_bytes = Some (s1, 0)" using run None by simp
        have "s0 = s \<and> \<not> auto_collect_enabled s \<or> gc_collected s roots s0"
          using True c(3) by (auto simp: s0_def early_def)
        then show ?thesis unfolding e Let_def N_def [symmetric] if_not_P [OF unlocked] using a s0(1) by auto
      next
        case False
        then have s0s: "gc_same s s1" using a(2) by (simp add: s0_def)
        obtain s2 where c2: "gc_collect s1 roots = Some s2" "gc_wf s2" "gc_collected s1 roots s2"
          using gc_collect_correct [OF a(1), of roots] gc_sameD(5) [OF s0s] 2(2) by auto
        have c3: "gc_collected s roots s2" by (rule gc_collected_same [OF s0s c2(3)])
        obtain s3 r3 where t3: "gc_try_alloc s2 N = (s3, r3)" by fastforce
        note tc3 = gc_try_alloc_correct [OF c2(2) 2(1) t3]
        show ?thesis
        proof (cases r3)
          case (Some p)
          then have e: "gc_alloc s roots n_bytes = Some (s3, p)" using run None False c2(1) t3 by simp
          have a3: "gc_wf s3" "gc_allocated s2 N s3 p" using tc3 Some by auto
          show ?thesis unfolding e Let_def N_def [symmetric] if_not_P [OF unlocked] using a3 c3 c2(2) pos [OF a3(2)] by auto
        next
          case None3: None
          then have e: "gc_alloc s roots n_bytes = Some (s3, 0)" using run None False c2(1) t3 by simp
          show ?thesis unfolding e Let_def N_def [symmetric] if_not_P [OF unlocked] using tc3 None3 c3 c2(2) by auto
        qed
      qed
    qed
  qed
qed

end
