(* ===== verification/GcFree.thy ===== *)
theory GcFree
  imports GcAlloc
begin

text \<open>
  Releasing, measuring and resizing chains of blocks: \<open>gc_free\<close>, \<open>gc_nbytes\<close>, \<open>gc_realloc\<close>, and the
  layout of a new area.
\<close>

section \<open>The extent of a chain\<close>

lemma gc_tails_unique:
  assumes "\<And>c. b \<le> c \<Longrightarrow> c < b + k \<Longrightarrow> atb_get_kind t c = AT_TAIL" "b + k \<le> 4 * length t"
    and "b + k < 4 * length t \<Longrightarrow> atb_get_kind t (b + k) \<noteq> AT_TAIL"
  shows "gc_tails t b = k"
  using assms
proof (induction k arbitrary: b)
  case 0
  then show ?case by (subst gc_tails.simps) auto
next
  case (Suc k)
  have "gc_tails t (Suc b) = k" using Suc.prems by (intro Suc.IH) auto
  then show ?case using Suc.prems(1) [of b] Suc.prems(2) by (subst gc_tails.simps) simp
qed

lemma gc_n_blocks_unique:
  assumes "0 < N" "\<And>c. b < c \<Longrightarrow> c < b + N \<Longrightarrow> atb_get_kind t c = AT_TAIL" "b + N \<le> 4 * length t"
    and "b + N < 4 * length t \<Longrightarrow> atb_get_kind t (b + N) \<noteq> AT_TAIL"
  shows "gc_n_blocks t b = N"
proof -
  have "gc_tails t (b + 1) = N - 1" using assms by (intro gc_tails_unique) auto
  then show ?thesis using assms(1) by (simp add: gc_n_blocks_def)
qed

lemma gc_n_blocks_kinds:
  assumes "b < c" "c < b + gc_n_blocks t b"
  shows "atb_get_kind t c = AT_TAIL"
  using gc_tails_kinds [of "b + 1" c t] assms by (simp add: gc_n_blocks_def)

lemma gc_n_blocks_bound:
  assumes "area_wf area" "b < area_blocks area"
  shows "b + gc_n_blocks (alloc_table area) b \<le> area_blocks area"
    "atb_get_kind (alloc_table area) (b + gc_n_blocks (alloc_table area) b) \<noteq> AT_TAIL"
    "0 < gc_n_blocks (alloc_table area) b"
proof -
  show e: "b + gc_n_blocks (alloc_table area) b \<le> area_blocks area"
    using gc_tails_bound [OF assms(1), of "b + 1"] assms(2) by (simp add: gc_n_blocks_def)
  then have "b + 1 + gc_tails (alloc_table area) (b + 1) < 4 * length (alloc_table area)"
    using area_wfD(6) [OF assms(1)] by (simp add: gc_n_blocks_def)
  from gc_tails_end [OF this] show "atb_get_kind (alloc_table area) (b + gc_n_blocks (alloc_table area) b) \<noteq> AT_TAIL"
    by (simp add: gc_n_blocks_def)
qed (simp add: gc_n_blocks_def)

text \<open>The blocks of the chain with head \<open>b\<close>.\<close>

lemma chain_head_iff:
  assumes "area_wf area" "b < area_blocks area" "atb_get_kind (alloc_table area) b \<noteq> AT_TAIL"
  shows "chain_head (alloc_table area) c = b \<longleftrightarrow> b \<le> c \<and> c < b + gc_n_blocks (alloc_table area) b"
proof
  let ?t = "alloc_table area" and ?e = "b + gc_n_blocks (alloc_table area) b"
  assume h: "chain_head ?t c = b"
  have "b \<le> c" using chain_head_le [of ?t c] h by simp
  moreover have "c < ?e"
  proof (rule ccontr)
    assume "\<not> c < ?e"
    then have "atb_get_kind ?t ?e = AT_TAIL"
      using chain_head_between [of ?t c ?e] h gc_n_blocks_bound(3) [OF assms(1,2)] by simp
    then show False using gc_n_blocks_bound(2) [OF assms(1,2)] by blast
  qed
  ultimately show "b \<le> c \<and> c < ?e" by blast
next
  let ?t = "alloc_table area"
  assume "b \<le> c \<and> c < b + gc_n_blocks ?t b"
  then show "chain_head ?t c = b"
  proof (induction c)
    case (Suc c)
    then show ?case
      using gc_n_blocks_kinds [of b "Suc c" ?t] chain_head_not_tail [of ?t "Suc c"] assms(3)
      by (cases "b = Suc c") auto
  qed simp
qed

section \<open>Clearing blocks\<close>

lemma area_cleared:
  assumes "area_wf area" "search_ok area" "b \<le> e" "e \<le> area_blocks area" "atb_get_kind (alloc_table area) e \<noteq> AT_TAIL"
    and "t = foldl atb_any_to_free (alloc_table area) [b ..< e]"
    and "x \<le> last_free_atb_index area" "x \<le> b div 4"
    and "area' = area\<lparr>last_free_atb_index := x, alloc_table := t\<rparr>"
  shows "area_wf area'" "search_ok area'" "length t = length (alloc_table area)"
    "c < 4 * length (alloc_table area) \<Longrightarrow>
       atb_get_kind t c = (if b \<le> c \<and> c < e then AT_FREE else atb_get_kind (alloc_table area) c)"
proof -
  note w = area_wfD [OF assms(1)]
  let ?t = "alloc_table area"
  have "[b ..< e] = [b ..< b + (e - b)]" using assms(3) by simp
  then have "4 * length t = 4 * length ?t
      \<and> (\<forall>c < 4 * length ?t. atb_get_kind t c = (if b \<le> c \<and> c < b + (e - b) then AT_FREE else atb_get_kind ?t c))"
    using atb.free_run [of b "e - b" ?t] assms(3,4,6) w(6) by simp
  then have l: "length t = length ?t"
    and k: "\<And>c. c < 4 * length ?t \<Longrightarrow> atb_get_kind t c = (if b \<le> c \<and> c < e then AT_FREE else atb_get_kind ?t c)"
    using assms(3) by auto
  show "length t = length ?t" by (rule l)
  show "c < 4 * length ?t \<Longrightarrow> atb_get_kind t c = (if b \<le> c \<and> c < e then AT_FREE else atb_get_kind ?t c)" by (rule k)
  have blk: "c < 4 * length ?t" if "c < area_blocks area" for c using w(6) that by simp
  have "0 < c \<and> atb_get_kind t (c - 1) \<noteq> AT_FREE" if c: "c < area_blocks area" "atb_get_kind t c = AT_TAIL" for c
  proof -
    have o: "atb_get_kind ?t c = AT_TAIL" "\<not> (b \<le> c \<and> c < e)" using k [OF blk [OF c(1)]] c(2) by (auto split: if_splits)
    then have p: "0 < c" "atb_get_kind ?t (c - 1) \<noteq> AT_FREE" using w(5) [OF c(1)] by auto
    moreover have "c \<noteq> e" using o(1) assms(5) by blast
    ultimately show ?thesis using k [OF blk, of "c - 1"] o(2) c(1) by auto
  qed
  moreover have "atb_get_kind t c = AT_FREE" if "area_blocks area \<le> c" "c < 4 * length t" for c
    using k [of c] w(2) [of c] that l by simp
  ultimately show "area_wf area'" unfolding area_wf_def using assms(9) l w(1,3,4) by auto
  have "atb_get_kind t c \<noteq> AT_FREE" if "c < 4 * x" for c
  proof -
    have "c < b" "c < 4 * last_free_atb_index area" using that assms(7,8) by auto
    moreover have "c < area_blocks area" using \<open>c < b\<close> assms(3,4) by simp
    ultimately show ?thesis using k [OF blk] assms(2) by (auto simp: search_ok_def)
  qed
  moreover have "c \<le> last_used_block area" if "c < area_blocks area" "atb_get_kind t c \<noteq> AT_FREE" for c
    using that k [OF blk [OF that(1)]] assms(2) by (auto simp: search_ok_def split: if_splits)
  moreover have "x \<le> alloc_table_byte_len area" using assms(2,7) by (simp add: search_ok_def)
  ultimately show "search_ok area'" unfolding search_ok_def using assms(9) by auto
qed

text \<open>\<open>s'\<close> is \<open>s\<close> with the blocks from \<open>b\<close> up to \<open>e\<close> of one area freed.\<close>

definition gc_cleared :: "gc_state \<Rightarrow> nat \<Rightarrow> nat \<Rightarrow> nat \<Rightarrow> gc_state \<Rightarrow> bool" where
  "gc_cleared s ai b e s' \<longleftrightarrow> same_layout (areas s) (areas s') \<and> memory s' = memory s \<and> lock_depth s' = lock_depth s
     \<and> (\<forall>n. in_heap (areas s) n \<longrightarrow>
          gc_kind (areas s') n = (if fst n = ai \<and> b \<le> snd n \<and> snd n < e then AT_FREE else gc_kind (areas s) n))"

lemma gc_cleared_correct:
  assumes "gc_wf s" "ai < length (areas s)" "b \<le> e" "e \<le> area_blocks (areas s ! ai)"
    and "atb_get_kind (alloc_table (areas s ! ai)) e \<noteq> AT_TAIL"
    and "t = foldl atb_any_to_free (alloc_table (areas s ! ai)) [b ..< e]"
    and "x = (if b div 4 < last_free_atb_index (areas s ! ai) then b div 4 else last_free_atb_index (areas s ! ai))"
    and "s' = s\<lparr>areas := (areas s)[ai := (areas s ! ai)\<lparr>last_free_atb_index := x, alloc_table := t\<rparr>],
               last_free_area := (if last_free_area s \<noteq> ai then 0 else last_free_area s)\<rparr>"
  shows "gc_wf s'" "gc_cleared s ai b e s'"
proof -
  note w = gc_wfD [OF assms(1)]
  let ?area = "areas s ! ai"
  let ?area' = "?area\<lparr>last_free_atb_index := x, alloc_table := t\<rparr>"
  have x: "x \<le> last_free_atb_index ?area" "x \<le> b div 4" using assms(7) by auto
  note c = area_cleared [OF w(4,5) [OF assms(2)] assms(3-6) x refl]
  have blk: "c < 4 * length (alloc_table ?area)" if "c < area_blocks ?area" for c
    using area_wfD(6) [OF w(4) [OF assms(2)]] that by simp
  have ar: "areas s' = (areas s)[ai := ?area']" using assms(8) by simp
  have kinds: "gc_kind (areas s') n = (if fst n = ai \<and> b \<le> snd n \<and> snd n < e then AT_FREE else gc_kind (areas s) n)"
    if "in_heap (areas s) n" for n
    using that c(4) [OF blk, of "snd n"] assms(2) unfolding ar by (cases "fst n = ai") (auto simp: in_heap_def)
  have nm: "atb_get_kind (alloc_table ?area') c \<noteq> AT_MARK" if "c < area_blocks ?area'" for c
    using that c(4) [OF blk, of c] w(7) [of "(ai, c)"] assms(2) by (auto simp: in_heap_def)
  have lt: "last_free_area s' < length (areas s)" using assms(2,8) by auto
  have full: "gc_kind (areas s') n \<noteq> AT_FREE" if "in_heap (areas s) n" "fst n < last_free_area s'" for n
  proof -
    have "last_free_area s = ai" "fst n < last_free_area s" using that(2) assms(8) by (auto split: if_splits)
    then show ?thesis using kinds [OF that(1)] w(8) [OF that(1)] by auto
  qed
  have "pool_start ?area' = pool_start ?area" "pool_end ?area' = pool_end ?area"
    "alloc_table_byte_len ?area' = alloc_table_byte_len ?area" by simp_all
  note u = gc_wf_update [OF assms(1,2) ar this c(1,2) nm lt full]
  show "gc_wf s'" using u(1) by blast
  show "gc_cleared s ai b e s'" unfolding gc_cleared_def using u(2) kinds assms(8) by simp
qed

section \<open>Freeing and measuring\<close>

text \<open>A pointer to a chain.\<close>

definition gc_chain_at :: "gc_state \<Rightarrow> nat \<Rightarrow> nat \<times> nat \<Rightarrow> bool" where
  "gc_chain_at s p n \<longleftrightarrow> n \<in> gc_nodes (areas s) \<and> p = ptr_from_block (areas s ! fst n) (snd n)"

lemma gc_chain_atD:
  assumes "gc_wf s" "gc_chain_at s p (ai, b)"
  shows "gc_get_ptr_area (areas s) p = Some ai" "block_from_ptr (areas s ! ai) p = b" "p \<noteq> 0" "ai < length (areas s)"
    "b < area_blocks (areas s ! ai)" "atb_get_kind (alloc_table (areas s ! ai)) b = AT_HEAD" "in_heap (areas s) (ai, b)"
proof -
  show i: "in_heap (areas s) (ai, b)" "atb_get_kind (alloc_table (areas s ! ai)) b = AT_HEAD"
    using assms(2) by (auto simp: gc_chain_at_def gc_nodes_def)
  show "gc_get_ptr_area (areas s) p = Some ai" "block_from_ptr (areas s ! ai) p = b"
    using ptr_of_block [OF gc_wfD(1) [OF assms(1)] i(1)] assms(2) by (auto simp: gc_chain_at_def)
  show j: "ai < length (areas s)" "b < area_blocks (areas s ! ai)" using i(1) by (auto simp: in_heap_def)
  show "p \<noteq> 0" using gc_wfD(6) [OF assms(1) j(1)] assms(2) by (simp add: gc_chain_at_def ptr_from_block_def)
qed

lemma gc_nbytes_chain:
  assumes "gc_wf s" "gc_chain_at s p (ai, b)"
  shows "gc_nbytes s p = gc_n_blocks (alloc_table (areas s ! ai)) b * BYTES_PER_BLOCK"
  using gc_chain_atD [OF assms] by (simp add: gc_nbytes_def Let_def)

lemma gc_free_cleared:
  assumes "gc_wf s" "lock_depth s = 0" "gc_chain_at s p (ai, b)"
  shows "\<exists>s'. gc_free s p = Some s' \<and> gc_wf s'
    \<and> gc_cleared s ai b (b + gc_n_blocks (alloc_table (areas s ! ai)) b) s'"
proof -
  note d = gc_chain_atD [OF assms(1,3)]
  let ?area = "areas s ! ai"
  define n where "n = gc_n_blocks (alloc_table ?area) b"
  define x where "x = (if b div 4 < last_free_atb_index ?area then b div 4 else last_free_atb_index ?area)"
  define t where "t = foldl atb_any_to_free (alloc_table ?area) [b ..< b + n]"
  define s' where "s' = s\<lparr>areas := (areas s)[ai := ?area\<lparr>last_free_atb_index := x, alloc_table := t\<rparr>],
               last_free_area := (if last_free_area s \<noteq> ai then 0 else last_free_area s)\<rparr>"
  note n = gc_n_blocks_bound [OF gc_wfD(4) [OF assms(1) d(4)] d(5), folded n_def]
  note c = gc_cleared_correct [OF assms(1) d(4) le_add1 n(1,2) t_def x_def s'_def]
  have a: "(if b div 4 < last_free_atb_index ?area then ?area\<lparr>last_free_atb_index := b div 4\<rparr> else ?area)
      = ?area\<lparr>last_free_atb_index := x\<rparr>" by (simp add: x_def)
  have "gc_free s p = Some s'"
    unfolding gc_free_def s'_def t_def n_def Let_def using assms(2) d(1-3,6)
    by (simp add: a [unfolded x_def] x_def)
  then show ?thesis using c by (auto simp: n_def)
qed

section \<open>Addresses and contents\<close>

text \<open>The contents of a block.\<close>

definition same_block :: "(nat \<Rightarrow> nat) \<Rightarrow> (nat \<Rightarrow> nat) \<Rightarrow> gc_area list \<Rightarrow> nat \<times> nat \<Rightarrow> bool" where
  "same_block mem mem' as n \<longleftrightarrow>
     (\<forall>a. ptr_from_block (as ! fst n) (snd n) \<le> a \<and> a < ptr_from_block (as ! fst n) (snd n) + BYTES_PER_BLOCK \<longrightarrow> mem' a = mem a)"

text \<open>Blocks outside of a run do not share an address with it.\<close>

lemma block_address:
  assumes "areas_wf as" "in_heap as n" "ai < length as" "b + k \<le> area_blocks (as ! ai)"
    and "ptr_from_block (as ! fst n) (snd n) \<le> a" "a < ptr_from_block (as ! fst n) (snd n) + BYTES_PER_BLOCK"
    and "ptr_from_block (as ! ai) b \<le> a" "a < ptr_from_block (as ! ai) b + k * BYTES_PER_BLOCK"
  shows "fst n = ai \<and> b \<le> snd n \<and> snd n < b + k"
proof -
  have i: "fst n < length as" "snd n < area_blocks (as ! fst n)" using assms(2) by (auto simp: in_heap_def)
  note w = area_wfD(4) [OF areas_wfD [OF assms(1) i(1)]] area_wfD(4) [OF areas_wfD [OF assms(1) assms(3)]]
  have r: "pool_start (as ! fst n) \<le> a" "a < pool_end (as ! fst n)" "pool_start (as ! ai) \<le> a" "a < pool_end (as ! ai)"
    using assms(4-8) i(2) w by (auto simp: ptr_from_block_def)
  have e: "fst n = ai"
  proof (rule ccontr)
    assume "fst n \<noteq> ai"
    then have "pool_end (as ! fst n) \<le> pool_start (as ! ai) \<or> pool_end (as ! ai) \<le> pool_start (as ! fst n)"
      using assms(1,3) i(1) unfolding areas_wf_def by (metis linorder_neqE_nat)
    then show False using r by auto
  qed
  then show ?thesis using assms(5-8) by (auto simp: ptr_from_block_def)
qed

text \<open>The chain with head \<open>h\<close> and the words in it are the same in both states.\<close>

definition chain_kept :: "gc_state \<Rightarrow> gc_state \<Rightarrow> nat \<times> nat \<Rightarrow> bool" where
  "chain_kept s s' h \<longleftrightarrow> (\<forall>n. in_heap (areas s) n \<and> gc_kind (areas s) n \<noteq> AT_FREE \<and> gc_head (areas s) n = h \<longrightarrow>
     gc_kind (areas s') n = gc_kind (areas s) n \<and> same_block (memory s) (memory s') (areas s) n)"

lemma chain_keptI:
  assumes "gc_wf s" "ai < length (areas s)" "b + k \<le> area_blocks (areas s ! ai)"
    and "\<And>n. in_heap (areas s) n \<Longrightarrow> gc_kind (areas s) n \<noteq> AT_FREE \<Longrightarrow> gc_head (areas s) n = h \<Longrightarrow>
       \<not> (fst n = ai \<and> b \<le> snd n \<and> snd n < b + k) \<and> gc_kind (areas s') n = gc_kind (areas s) n"
    and "\<And>q. \<not> (ptr_from_block (areas s ! ai) b \<le> q \<and> q < ptr_from_block (areas s ! ai) b + k * BYTES_PER_BLOCK) \<Longrightarrow>
       memory s' q = memory s q"
  shows "chain_kept s s' h"
  unfolding chain_kept_def
proof (intro allI impI)
  fix n
  assume n: "in_heap (areas s) n \<and> gc_kind (areas s) n \<noteq> AT_FREE \<and> gc_head (areas s) n = h"
  have "same_block (memory s) (memory s') (areas s) n"
    unfolding same_block_def
  proof (intro allI impI, elim conjE)
    fix q
    assume "ptr_from_block (areas s ! fst n) (snd n) \<le> q" "q < ptr_from_block (areas s ! fst n) (snd n) + BYTES_PER_BLOCK"
    then show "memory s' q = memory s q"
      using block_address [OF gc_wfD(1) [OF assms(1)] _ assms(2,3), of n q] assms(4) [of n] assms(5) [of q] n by blast
  qed
  then show "gc_kind (areas s') n = gc_kind (areas s) n \<and> same_block (memory s) (memory s') (areas s) n"
    using assms(4) [of n] n by blast
qed

text \<open>The words of a kept chain.\<close>

lemma chain_kept_words:
  assumes "gc_wf s" "gc_chain_at s p (ai, b)" "chain_kept s s' (ai, b)"
    and "i < gc_n_blocks (alloc_table (areas s ! ai)) b * BYTES_PER_BLOCK"
  shows "memory s' (p + i) = memory s (p + i)"
proof -
  note d = gc_chain_atD [OF assms(1,2)]
  let ?t = "alloc_table (areas s ! ai)" and ?c = "b + i div 16"
  note w = gc_wfD(4) [OF assms(1) d(4)]
  have nt: "atb_get_kind ?t b \<noteq> AT_TAIL" using d(6) by simp
  have c: "b \<le> ?c" "?c < b + gc_n_blocks ?t b" using assms(4) by (auto simp: div_less_iff_less_mult)
  have h: "gc_head (areas s) (ai, ?c) = (ai, b)" using chain_head_iff [OF w d(5) nt, of ?c] c by (simp add: gc_head_def)
  have "in_heap (areas s) (ai, ?c)" using c gc_n_blocks_bound(1) [OF w d(5)] d(4) by (simp add: in_heap_def)
  moreover have "atb_get_kind ?t ?c \<noteq> AT_FREE" using gc_n_blocks_kinds [of b ?c ?t] c d(6) by (cases "?c = b") auto
  ultimately have "same_block (memory s) (memory s') (areas s) (ai, ?c)" using assms(3) h by (simp add: chain_kept_def)
  moreover have "ptr_from_block (areas s ! ai) ?c \<le> p + i \<and> p + i < ptr_from_block (areas s ! ai) ?c + 16"
    using assms(2) by (auto simp: gc_chain_at_def ptr_from_block_def)
  ultimately show ?thesis by (simp add: same_block_def)
qed

section \<open>Reallocation\<close>

text \<open>The scan of \<open>gc_realloc\<close>: first the tails of the chain, then free blocks.\<close>

lemma gc_realloc_scan_tails:
  "(\<And>c'. c \<le> c' \<Longrightarrow> c' < c + k \<Longrightarrow> atb_get_kind t c' = AT_TAIL) \<Longrightarrow> c + k \<le> e \<Longrightarrow>
     gc_realloc_scan [c ..< e] t new n f = gc_realloc_scan [c + k ..< e] t new (n + k) f"
proof (induction k arbitrary: c n)
  case (Suc k)
  have "gc_realloc_scan [c ..< e] t new n f = gc_realloc_scan [Suc c ..< e] t new (n + 1) f"
    using Suc.prems(1) [of c] Suc.prems(2) by (simp add: upt_conv_Cons Let_def)
  also have "\<dots> = gc_realloc_scan [Suc c + k ..< e] t new (n + 1 + k) f"
    using Suc.prems by (intro Suc.IH) auto
  finally show ?case by simp
qed simp

lemma gc_realloc_scan_free:
  assumes "area_wf area" "t = alloc_table area" "e = area_blocks area" "c \<le> e" "c < e \<Longrightarrow> atb_get_kind t c \<noteq> AT_TAIL"
    and "gc_realloc_scan [c ..< e] t new n f = (n', f')"
  shows "n' = n \<and> f \<le> f' \<and> c + (f' - f) \<le> e \<and> free_run_at t c (f' - f)"
  using assms(4-6)
proof (induction "e - c" arbitrary: c f)
  case 0
  then show ?case by (auto simp: free_run_at_def)
next
  case (Suc k)
  then have up: "[c ..< e] = c # [Suc c ..< e]" and ce: "c < e" and k: "k = e - Suc c" by (auto simp: upt_conv_Cons)
  show ?case
  proof (cases "atb_get_kind t c = AT_FREE \<and> n + (f + 1) < new")
    case True
    then have r: "gc_realloc_scan [Suc c ..< e] t new n (f + 1) = (n', f')" using Suc.prems(3) up by (auto simp: Let_def)
    have "atb_get_kind t (Suc c) \<noteq> AT_TAIL" if "Suc c < e"
      using area_wfD(5) [OF assms(1), of "Suc c"] True that assms(2,3) by auto
    then have ih: "n' = n \<and> f + 1 \<le> f' \<and> Suc c + (f' - (f + 1)) \<le> e \<and> free_run_at t (Suc c) (f' - (f + 1))"
      using Suc.hyps(1) [OF k _ _ r] ce by auto
    moreover have "free_run_at t c (f' - f)"
      unfolding free_run_at_def
    proof (intro allI impI)
      fix d
      assume "c \<le> d \<and> d < c + (f' - f)"
      then show "atb_get_kind t d = AT_FREE" using ih True by (cases "d = c") (auto simp: free_run_at_def)
    qed
    ultimately show ?thesis by auto
  next
    case False
    then show ?thesis
      using Suc.prems up ce by (auto simp: Let_def free_run_at_def split: if_splits) (metis less_Suc_eq not_less)
  qed
qed

lemma gc_realloc_scan_chain:
  assumes "area_wf area" "b < area_blocks area"
    and "gc_realloc_scan [b + 1 ..< area_blocks area] (alloc_table area) new 1 0 = (n, f)"
  shows "n = gc_n_blocks (alloc_table area) b" "b + n + f \<le> area_blocks area" "free_run_at (alloc_table area) (b + n) f"
proof -
  let ?t = "alloc_table area" and ?e = "area_blocks area"
  define k where "k = gc_tails ?t (b + 1)"
  note g = gc_n_blocks_bound [OF assms(1,2), unfolded gc_n_blocks_def, folded k_def]
  have "gc_realloc_scan [b + 1 ..< ?e] ?t new 1 0 = gc_realloc_scan [b + 1 + k ..< ?e] ?t new (1 + k) 0"
    using gc_tails_kinds [of "b + 1" _ ?t, folded k_def] g(1) by (intro gc_realloc_scan_tails) auto
  then have r: "gc_realloc_scan [b + 1 + k ..< ?e] ?t new (1 + k) 0 = (n, f)" using assms(3) by simp
  have "n = 1 + k \<and> 0 \<le> f \<and> b + 1 + k + (f - 0) \<le> ?e \<and> free_run_at ?t (b + 1 + k) (f - 0)"
    by (rule gc_realloc_scan_free [OF assms(1) refl refl _ _ r]) (use g(1,2) in \<open>simp_all add: add.assoc\<close>)
  then show "n = gc_n_blocks ?t b" "b + n + f \<le> ?e" "free_run_at ?t (b + n) f"
    by (auto simp: gc_n_blocks_def k_def add.assoc)
qed

lemma area_grown:
  assumes "area_wf area" "search_ok area" "b < area_blocks area" "atb_get_kind (alloc_table area) b = AT_HEAD"
    and "n = gc_n_blocks (alloc_table area) b" "n \<le> new" "b + new \<le> area_blocks area"
    and "free_run_at (alloc_table area) (b + n) (new - n)"
    and "t = foldl atb_free_to_tail (alloc_table area) [b + n ..< b + new]"
    and "area' = area\<lparr>alloc_table := t, last_used_block := max (last_used_block area) (b + new)\<rparr>"
  shows "area_wf area'" "search_ok area'"
    "c < 4 * length (alloc_table area) \<Longrightarrow>
       atb_get_kind t c = (if b + n \<le> c \<and> c < b + new then AT_TAIL else atb_get_kind (alloc_table area) c)"
proof -
  note w = area_wfD [OF assms(1)]
  let ?t = "alloc_table area"
  have "[b + n ..< b + new] = [b + n ..< b + n + (new - n)]" using assms(6) by simp
  then have t: "t = foldl atb_free_to_tail ?t [b + n ..< b + n + (new - n)]" using assms(9) by simp
  have "4 * length t = 4 * length ?t \<and> (\<forall>c < 4 * length ?t. atb_get_kind t c =
      (if b + n \<le> c \<and> c < b + n + (new - n) then AT_TAIL else atb_get_kind ?t c))"
    unfolding t
  proof (rule atb.tail_run)
    show "b + n + (new - n) \<le> 4 * length ?t" using assms(6,7) w(6) by simp
    show "atb_get_kind ?t c = AT_FREE" if "b + n \<le> c" "c < b + n + (new - n)" for c
      using assms(8) that by (simp add: free_run_at_def)
  qed
  then have l: "length t = length ?t"
    and k: "\<And>c. c < 4 * length ?t \<Longrightarrow> atb_get_kind t c = (if b + n \<le> c \<and> c < b + new then AT_TAIL else atb_get_kind ?t c)"
    using assms(6) by auto
  show "c < 4 * length ?t \<Longrightarrow> atb_get_kind t c = (if b + n \<le> c \<and> c < b + new then AT_TAIL else atb_get_kind ?t c)" by (rule k)
  have blk: "c < 4 * length ?t" if "c < area_blocks area" for c using w(6) that by simp
  have used: "atb_get_kind ?t c \<noteq> AT_FREE" if "b \<le> c" "c < b + n" for c
    using gc_n_blocks_kinds [of b c ?t] that assms(4,5) by (cases "c = b") auto
  have n: "0 < n" using gc_n_blocks_bound(3) [OF assms(1,3)] assms(5) by simp
  have "0 < c \<and> atb_get_kind t (c - 1) \<noteq> AT_FREE" if c: "c < area_blocks area" "atb_get_kind t c = AT_TAIL" for c
  proof (cases "b + n \<le> c \<and> c < b + new")
    case True
    then show ?thesis using k [OF blk, of "c - 1"] used [of "c - 1"] c(1) n by (cases "c = b + n") auto
  next
    case False
    then have "atb_get_kind ?t c = AT_TAIL" using k [OF blk [OF c(1)]] c(2) by auto
    then show ?thesis using k [OF blk, of "c - 1"] w(5) [OF c(1)] c(1) by auto
  qed
  moreover have "atb_get_kind t c = AT_FREE" if "area_blocks area \<le> c" "c < 4 * length t" for c
    using k [of c] w(2) [of c] that l assms(7) by simp
  ultimately show "area_wf area'" unfolding area_wf_def using assms(10) l w(1,3,4) by auto
  have "atb_get_kind t c \<noteq> AT_FREE" if "c < 4 * last_free_atb_index area" for c
    using k [of c] blk [of c] that assms(2) by (auto simp: search_ok_def)
  moreover have "c \<le> max (last_used_block area) (b + new)" if "c < area_blocks area" "atb_get_kind t c \<noteq> AT_FREE" for c
    using that k [OF blk [OF that(1)]] assms(2) by (auto simp: search_ok_def split: if_splits)
  ultimately show "search_ok area'" unfolding search_ok_def using assms(2,10) by (auto simp: search_ok_def)
qed

text \<open>The chain a successful allocation makes.\<close>

lemma gc_allocated_chain:
  assumes "gc_wf s0" "gc_wf s'" "gc_allocated s0 N s' q" "0 < N"
  shows "\<exists>aj b'. aj < length (areas s0) \<and> b' + N \<le> area_blocks (areas s0 ! aj) \<and> gc_chain_at s' q (aj, b')
    \<and> q = ptr_from_block (areas s0 ! aj) b' \<and> free_run_at (alloc_table (areas s0 ! aj)) b' N
    \<and> gc_n_blocks (alloc_table (areas s' ! aj)) b' = N
    \<and> (\<forall>n. in_heap (areas s0) n \<and> \<not> (fst n = aj \<and> b' \<le> snd n \<and> snd n < b' + N) \<longrightarrow> gc_kind (areas s') n = gc_kind (areas s0) n)"
proof -
  obtain aj b' where a: "aj < length (areas s0)" "b' + N \<le> area_blocks (areas s0 ! aj)" "q = ptr_from_block (areas s0 ! aj) b'"
    "free_run_at (alloc_table (areas s0 ! aj)) b' N" "same_layout (areas s0) (areas s')"
    "\<forall>n. in_heap (areas s0) n \<longrightarrow> gc_kind (areas s') n =
       (if n = (aj, b') then AT_HEAD else if fst n = aj \<and> b' < snd n \<and> snd n < b' + N then AT_TAIL else gc_kind (areas s0) n)"
    using assms(3) unfolding gc_allocated_def by blast
  note l = same_layoutD [OF a(5)]
  note w0 = area_wfD [OF gc_wfD(4) [OF assms(1) a(1)]]
  have aj': "aj < length (areas s')" using a(1) l(1) by simp
  note w' = area_wfD [OF gc_wfD(4) [OF assms(2) aj']]
  let ?t = "alloc_table (areas s' ! aj)" and ?old = "alloc_table (areas s0 ! aj)"
  have len: "length ?t = length ?old" using w0(1) w'(1) l(6) [OF a(1)] by simp
  have k: "atb_get_kind ?t c = (if c = b' then AT_HEAD else if b' < c \<and> c < b' + N then AT_TAIL else atb_get_kind ?old c)"
    if "c < area_blocks (areas s0 ! aj)" for c
    using a(6) [rule_format, of "(aj, c)"] a(1) that by (auto simp: in_heap_def split: if_splits)
  have "atb_get_kind ?t (b' + N) \<noteq> AT_TAIL" if "b' + N < 4 * length ?t"
  proof (cases "b' + N < area_blocks (areas s0 ! aj)")
    case True
    have "atb_get_kind ?old (b' + N - 1) = AT_FREE" using a(4) assms(4) by (simp add: free_run_at_def)
    then have "atb_get_kind ?old (b' + N) \<noteq> AT_TAIL" using w0(5) [OF True] by blast
    then show ?thesis using k [OF True] assms(4) by simp
  next
    case False
    then have "atb_get_kind ?t (b' + N) = AT_FREE" using w'(2) [of "b' + N"] that l(6) [OF a(1)] by simp
    then show ?thesis by simp
  qed
  then have "gc_n_blocks ?t b' = N"
    using k a(2) w0(6) len by (intro gc_n_blocks_unique [OF assms(4)]) auto
  moreover have "gc_chain_at s' q (aj, b')"
    using k [of b'] a(1-3) assms(4) l(2,4,6) aj' by (auto simp: gc_chain_at_def gc_nodes_def in_heap_def ptr_from_block_def)
  moreover have "\<forall>n. in_heap (areas s0) n \<and> \<not> (fst n = aj \<and> b' \<le> snd n \<and> snd n < b' + N) \<longrightarrow> gc_kind (areas s') n = gc_kind (areas s0) n"
    using a(6) assms(4) by auto
  ultimately show ?thesis using a(1-4) by blast
qed

text \<open>The collected or unchanged state keeps the live chains.\<close>

lemma live_kind:
  assumes "s0 = s \<or> gc_collected s roots s0" "h \<in> gc_live s roots" "in_heap (areas s) n" "gc_head (areas s) n = h"
  shows "gc_kind (areas s0) n = gc_kind (areas s) n"
  using assms by (auto simp: gc_collected_def)

lemma collected_layout:
  assumes "s0 = s \<or> gc_collected s roots s0"
  shows "same_layout (areas s) (areas s0)" "memory s0 = memory s" "lock_depth s0 = lock_depth s"
  using assms by (auto simp: gc_collected_def)

definition gc_realloc_post ::
  "gc_state \<Rightarrow> nat list \<times> nat list \<Rightarrow> nat \<Rightarrow> nat \<times> nat \<Rightarrow> nat \<Rightarrow> gc_state \<Rightarrow> nat \<Rightarrow> bool" where
  "gc_realloc_post s roots p h new s' q \<longleftrightarrow> gc_wf s' \<and> (\<forall>h' \<in> gc_live s roots. h' \<noteq> h \<longrightarrow> chain_kept s s' h')
     \<and> (if q = 0 then chain_kept s s' h
        else gc_nbytes s' q = new * BYTES_PER_BLOCK
          \<and> (\<forall>i < min (gc_nbytes s p) (new * BYTES_PER_BLOCK). memory s' (q + i) = memory s (p + i)))"

lemma gc_realloc_shrink:
  assumes "gc_wf s" "gc_chain_at s p (ai, b)" "n = gc_n_blocks (alloc_table (areas s ! ai)) b" "0 < new" "new < n"
    and "gc_cleared s ai (b + new) (b + n) s'" "gc_wf s'"
  shows "gc_realloc_post s roots p (ai, b) new s' p"
proof -
  note d = gc_chain_atD [OF assms(1,2)]
  note w = gc_wfD(4) [OF assms(1) d(4)]
  let ?t = "alloc_table (areas s ! ai)" and ?t' = "alloc_table (areas s' ! ai)"
  note g = gc_n_blocks_bound [OF w d(5), folded assms(3)]
  have nt: "atb_get_kind ?t b \<noteq> AT_TAIL" using d(6) by simp
  have lay: "same_layout (areas s) (areas s')" and mem: "memory s' = memory s"
    and k: "\<And>m. in_heap (areas s) m \<Longrightarrow>
      gc_kind (areas s') m = (if fst m = ai \<and> b + new \<le> snd m \<and> snd m < b + n then AT_FREE else gc_kind (areas s) m)"
    using assms(6) by (auto simp: gc_cleared_def)
  note l = same_layoutD [OF lay]
  have other: "chain_kept s s' h'" if "h' \<noteq> (ai, b)" for h'
  proof (rule chain_keptI [OF assms(1) d(4), of "b + new" "n - new"])
    show "b + new + (n - new) \<le> area_blocks (areas s ! ai)" using g(1) assms(5) by simp
    fix m
    assume m: "in_heap (areas s) m" "gc_head (areas s) m = h'"
    have "\<not> (fst m = ai \<and> b + new \<le> snd m \<and> snd m < b + n)"
      using chain_head_iff [OF w d(5) nt, of "snd m"] m(2) that assms(3) by (auto simp: gc_head_def)
    then show "\<not> (fst m = ai \<and> b + new \<le> snd m \<and> snd m < b + new + (n - new)) \<and> gc_kind (areas s') m = gc_kind (areas s) m"
      using k [OF m(1)] assms(5) by auto
  qed (simp add: mem)
  have kt: "atb_get_kind ?t' c = (if b + new \<le> c \<and> c < b + n then AT_FREE else atb_get_kind ?t c)"
    if "c < area_blocks (areas s ! ai)" for c
    using k [of "(ai, c)"] that d(4) by (simp add: in_heap_def)
  have len: "b + n < 4 * length ?t'"
    using area_wfD(1) [OF gc_wfD(4) [OF assms(7)], of ai] l(1,6) d(4) g(1) by simp
  have at: "gc_chain_at s' p (ai, b)"
    using assms(2,4,5) kt [OF d(5)] d(4,6,7) l(2,4) by (auto simp: gc_chain_at_def gc_nodes_def ptr_from_block_def)
  have "gc_n_blocks ?t' b = new"
  proof (rule gc_n_blocks_unique [OF assms(4)])
    show "atb_get_kind ?t' c = AT_TAIL" if "b < c" "c < b + new" for c
      using kt [of c] that gc_n_blocks_kinds [of b c ?t] assms(3,5) g(1) by simp
    show "atb_get_kind ?t' (b + new) \<noteq> AT_TAIL" using kt [of "b + new"] assms(5) g(1) by simp
  qed (use len assms(5) in simp)
  then have "gc_nbytes s' p = new * BYTES_PER_BLOCK" using gc_nbytes_chain [OF assms(7) at] by simp
  then show ?thesis unfolding gc_realloc_post_def using assms(7) other d(3) mem by simp
qed

lemma gc_realloc_grow:
  assumes "gc_wf s" "gc_chain_at s p (ai, b)" "n = gc_n_blocks (alloc_table (areas s ! ai)) b" "n < new"
    and "b + new \<le> area_blocks (areas s ! ai)" "free_run_at (alloc_table (areas s ! ai)) (b + n) (new - n)"
    and "t = foldl atb_free_to_tail (alloc_table (areas s ! ai)) [b + n ..< b + new]"
    and "s' = s\<lparr>areas := (areas s)[ai := (areas s ! ai)\<lparr>alloc_table := t, last_used_block := max (last_used_block (areas s ! ai)) (b + new)\<rparr>],
               memory := (\<lambda>a. if p + n * BYTES_PER_BLOCK \<le> a \<and> a < p + new * BYTES_PER_BLOCK then 0 else memory s a)\<rparr>"
  shows "gc_realloc_post s roots p (ai, b) new s' p"
proof -
  note d = gc_chain_atD [OF assms(1,2)]
  note wf = gc_wfD [OF assms(1)]
  note w = wf(4) [OF d(4)]
  let ?area = "areas s ! ai"
  let ?area' = "?area\<lparr>alloc_table := t, last_used_block := max (last_used_block ?area) (b + new)\<rparr>"
  note gr = area_grown [OF w wf(5) [OF d(4)] d(5,6) assms(3) less_imp_le [OF assms(4)] assms(5,6,7) refl]
  note g = gc_n_blocks_bound [OF w d(5), folded assms(3)]
  have nt: "atb_get_kind (alloc_table ?area) b \<noteq> AT_TAIL" using d(6) by simp
  have blk: "c < 4 * length (alloc_table ?area)" if "c < area_blocks ?area" for c using area_wfD(6) [OF w] that by simp
  have ar: "areas s' = (areas s)[ai := ?area']" using assms(8) by simp
  have kinds: "gc_kind (areas s') m = (if fst m = ai \<and> b + n \<le> snd m \<and> snd m < b + new then AT_TAIL else gc_kind (areas s) m)"
    if "in_heap (areas s) m" for m
    using that gr(3) [OF blk, of "snd m"] d(4) unfolding ar by (cases "fst m = ai") (auto simp: in_heap_def)
  have nm: "atb_get_kind (alloc_table ?area') c \<noteq> AT_MARK" if "c < area_blocks ?area'" for c
    using that gr(3) [OF blk, of c] wf(7) [of "(ai, c)"] d(4) by (auto simp: in_heap_def)
  have lt: "last_free_area s' < length (areas s)" using wf(3) assms(8) by simp
  have full: "gc_kind (areas s') m \<noteq> AT_FREE" if "in_heap (areas s) m" "fst m < last_free_area s'" for m
    using kinds [OF that(1)] wf(8) [OF that(1)] that(2) assms(8) by auto
  have "pool_start ?area' = pool_start ?area" "pool_end ?area' = pool_end ?area"
    "alloc_table_byte_len ?area' = alloc_table_byte_len ?area" by simp_all
  note u = gc_wf_update [OF assms(1) d(4) ar this gr(1,2) nm lt full]
  have wf': "gc_wf s'" using u(1) by blast
  note l = same_layoutD [OF u(2)]
  have pp: "p + n * 16 = ptr_from_block ?area (b + n)" "p + new * 16 = ptr_from_block ?area (b + n) + (new - n) * 16"
    using assms(2,4) by (auto simp: gc_chain_at_def ptr_from_block_def algebra_simps)
  have kept: "chain_kept s s' h'" for h'
  proof (rule chain_keptI [OF assms(1) d(4), of "b + n" "new - n"])
    show "b + n + (new - n) \<le> area_blocks ?area" using assms(4,5) by simp
    show "memory s' q = memory s q" if "\<not> (ptr_from_block ?area (b + n) \<le> q \<and> q < ptr_from_block ?area (b + n) + (new - n) * BYTES_PER_BLOCK)" for q
      using that unfolding assms(8) by (simp only: gc_state.simps gc_state.select_convs pp if_False) auto
    fix m
    assume m: "in_heap (areas s) m" "gc_kind (areas s) m \<noteq> AT_FREE"
    have "\<not> (fst m = ai \<and> b + n \<le> snd m \<and> snd m < b + n + (new - n))"
      using m(2) assms(6) by (auto simp: free_run_at_def)
    then show "\<not> (fst m = ai \<and> b + n \<le> snd m \<and> snd m < b + n + (new - n)) \<and> gc_kind (areas s') m = gc_kind (areas s) m"
      using kinds [OF m(1)] assms(4) by auto
  qed
  let ?t' = "alloc_table (areas s' ! ai)"
  have t': "?t' = t" using ar d(4) by simp
  have at: "gc_chain_at s' p (ai, b)"
    using assms(2) kinds [OF d(7)] d(4,6,7) l(2,4) g(3) by (auto simp: gc_chain_at_def gc_nodes_def ptr_from_block_def)
  have "gc_n_blocks ?t' b = new" unfolding t'
  proof (rule gc_n_blocks_unique)
    show "0 < new" using assms(4) by simp
    have lt: "length t = length (alloc_table ?area)"
      using area_wfD(1) [OF gr(1)] area_wfD(1) [OF w] by simp
    show e: "b + new \<le> 4 * length t" using assms(5) area_wfD(6) [OF w] lt by simp
    show "atb_get_kind t c = AT_TAIL" if "b < c" "c < b + new" for c
      using gr(3) [OF blk, of c] that gc_n_blocks_kinds [of b c "alloc_table ?area"] assms(3,5) by (cases "b + n \<le> c") auto
    show "atb_get_kind t (b + new) \<noteq> AT_TAIL" if "b + new < 4 * length t"
    proof -
      have "atb_get_kind (alloc_table ?area) (b + new) \<noteq> AT_TAIL"
      proof (cases "b + new < area_blocks ?area")
        case True
        have "atb_get_kind (alloc_table ?area) (b + new - 1) = AT_FREE" using assms(4,6) by (simp add: free_run_at_def)
        then show ?thesis using area_wfD(5) [OF w True] by blast
      next
        case False
        then have "atb_get_kind (alloc_table ?area) (b + new) = AT_FREE" using area_wfD(2) [OF w, of "b + new"] that lt by simp
        then show ?thesis by simp
      qed
      then show ?thesis using gr(3) [of "b + new"] that lt by simp
    qed
  qed
  then have "gc_nbytes s' p = new * BYTES_PER_BLOCK" using gc_nbytes_chain [OF wf' at] by simp
  moreover have "memory s' (p + i) = memory s (p + i)" if "i < gc_nbytes s p" for i
    using chain_kept_words [OF assms(1,2) kept, of i] that gc_nbytes_chain [OF assms(1,2)] by simp
  ultimately show ?thesis unfolding gc_realloc_post_def using wf' kept d(3) by simp
qed

lemma collected_used:
  assumes "s0 = s \<or> gc_collected s roots s0" "in_heap (areas s) m" "gc_kind (areas s0) m \<noteq> AT_FREE"
  shows "gc_kind (areas s0) m = gc_kind (areas s) m"
proof -
  have "gc_kind (areas s0) m = gc_kind (areas s) m \<or> gc_kind (areas s0) m = AT_FREE"
    using assms(1,2) unfolding gc_collected_def by metis
  then show ?thesis using assms(3) by blast
qed

text \<open>Moving a chain: allocate, copy, free.\<close>

lemma gc_realloc_move:
  assumes "gc_wf s" "lock_depth s = 0" "gc_chain_at s p (ai, b)" "(ai, b) \<in> gc_live s roots"
    and "n = gc_n_blocks (alloc_table (areas s ! ai)) b" "n < new"
    and "s0 = s \<or> gc_collected s roots s0" "gc_wf s0" "gc_wf s1" "gc_allocated s0 new s1 q"
    and "m' = (\<lambda>a. if q \<le> a \<and> a < q + n * BYTES_PER_BLOCK then memory s1 (p + (a - q)) else memory s1 a)"
  shows "\<exists>s2. gc_free (s1\<lparr>memory := m'\<rparr>) p = Some s2 \<and> q \<noteq> 0 \<and> gc_realloc_post s roots p (ai, b) new s2 q"
proof -
  note d = gc_chain_atD [OF assms(1,3)]
  note w = gc_wfD(4) [OF assms(1) d(4)]
  let ?tab = "alloc_table (areas s ! ai)"
  note g = gc_n_blocks_bound [OF w d(5), folded assms(5)]
  have nt: "atb_get_kind ?tab b \<noteq> AT_TAIL" using d(6) by simp
  note cl = collected_layout [OF assms(7)]
  note l0 = same_layoutD [OF cl(1)]
  have new: "0 < new" using assms(6) by simp
  obtain aj b' where a: "aj < length (areas s0)" "b' + new \<le> area_blocks (areas s0 ! aj)" "gc_chain_at s1 q (aj, b')"
    "q = ptr_from_block (areas s0 ! aj) b'" "free_run_at (alloc_table (areas s0 ! aj)) b' new"
    "gc_n_blocks (alloc_table (areas s1 ! aj)) b' = new"
    "\<And>m. in_heap (areas s0) m \<Longrightarrow> \<not> (fst m = aj \<and> b' \<le> snd m \<and> snd m < b' + new) \<Longrightarrow> gc_kind (areas s1) m = gc_kind (areas s0) m"
    using gc_allocated_chain [OF assms(8-10) new] by blast
  have lay1: "same_layout (areas s0) (areas s1)" and mem1: "memory s1 = (\<lambda>a. if q \<le> a \<and> a < q + new * 16 then 0 else memory s a)"
    and ld1: "lock_depth s1 = 0" and q0: "q \<noteq> 0"
    using assms(2,10) cl(2,3) by (auto simp: gc_allocated_def)
  have lay: "same_layout (areas s) (areas s1)" by (rule same_layout_trans [OF cl(1) lay1])
  note l1 = same_layoutD [OF lay]
  have aj: "aj < length (areas s)" "b' + new \<le> area_blocks (areas s ! aj)" using a(1,2) l0(1,6) by auto
  have qs: "q = ptr_from_block (areas s ! aj) b'" using a(4) l0(4) [OF aj(1)] by (simp add: ptr_from_block_def)
  \<comment> \<open>live blocks are outside of the run and kept by the allocation\<close>
  have live: "\<not> (fst m = aj \<and> b' \<le> snd m \<and> snd m < b' + new) \<and> gc_kind (areas s1) m = gc_kind (areas s) m"
    if "in_heap (areas s) m" "gc_kind (areas s) m \<noteq> AT_FREE" "gc_head (areas s) m \<in> gc_live s roots" for m
  proof -
    have k: "gc_kind (areas s0) m = gc_kind (areas s) m" by (rule live_kind [OF assms(7) that(3,1) refl])
    have "\<not> (fst m = aj \<and> b' \<le> snd m \<and> snd m < b' + new)"
    proof
      assume "fst m = aj \<and> b' \<le> snd m \<and> snd m < b' + new"
      then have "gc_kind (areas s0) m = AT_FREE" using a(5) by (auto simp: free_run_at_def)
      then show False using k that(2) by simp
    qed
    then show ?thesis using a(7) [of m] that(1) l0(2) k by auto
  qed
  have kept1: "chain_kept s s1 h" if "h \<in> gc_live s roots" for h
  proof (rule chain_keptI [OF assms(1) aj])
    show "memory s1 a = memory s a" if "\<not> (ptr_from_block (areas s ! aj) b' \<le> a \<and> a < ptr_from_block (areas s ! aj) b' + new * BYTES_PER_BLOCK)" for a
      using that unfolding mem1 qs by (simp only: if_False)
  qed (use live that in blast)
  \<comment> \<open>the old chain is still there\<close>
  have hc: "gc_head (areas s) (ai, c) = (ai, b) \<longleftrightarrow> b \<le> c \<and> c < b + n" for c
    using chain_head_iff [OF w d(5) nt, of c] assms(5) by (simp add: gc_head_def)
  have old: "atb_get_kind (alloc_table (areas s1 ! ai)) c = atb_get_kind ?tab c \<and> \<not> (ai = aj \<and> b' \<le> c \<and> c < b' + new)"
    if "b \<le> c" "c < b + n" for c
  proof -
    have "atb_get_kind ?tab c \<noteq> AT_FREE"
      using gc_n_blocks_kinds [of b c ?tab] that assms(5) d(6) by (cases "c = b") auto
    then show ?thesis using live [of "(ai, c)"] hc [of c] that g(1) d(4) assms(4) by (auto simp: in_heap_def)
  qed
  let ?s1 = "s1\<lparr>memory := m'\<rparr>"
  have wf1: "gc_wf ?s1" using assms(9) by (simp add: gc_wf_def)
  have at1: "gc_chain_at ?s1 p (ai, b)"
    using assms(3) old [of b] g(3) d(4,6,7) l1(2,4) by (auto simp: gc_chain_at_def gc_nodes_def ptr_from_block_def)
  have ai1: "ai < length (areas s1)" using d(4) l1(1) by simp
  note w1 = gc_wfD(4) [OF assms(9) ai1]
  have len1: "length (alloc_table (areas s1 ! ai)) = length ?tab"
    using area_wfD(1) [OF w1] area_wfD(1) [OF w] l1(6) [OF d(4)] by simp
  have n1: "gc_n_blocks (alloc_table (areas s1 ! ai)) b = n"
  proof (rule gc_n_blocks_unique [OF g(3)])
    show "atb_get_kind (alloc_table (areas s1 ! ai)) c = AT_TAIL" if "b < c" "c < b + n" for c
      using old [of c] that gc_n_blocks_kinds [of b c ?tab] assms(5) by simp
    show "b + n \<le> 4 * length (alloc_table (areas s1 ! ai))" using g(1) area_wfD(6) [OF w] len1 by simp
    show "atb_get_kind (alloc_table (areas s1 ! ai)) (b + n) \<noteq> AT_TAIL"
    proof
      assume t: "atb_get_kind (alloc_table (areas s1 ! ai)) (b + n) = AT_TAIL"
      have bn: "b + n < area_blocks (areas s ! ai)"
      proof (rule ccontr)
        assume "\<not> b + n < area_blocks (areas s ! ai)"
        then have "atb_get_kind (alloc_table (areas s1 ! ai)) (b + n) = AT_FREE"
          using area_wfD(2) [OF w1, of "b + n"] g(1) area_wfD(6) [OF w] len1 l1(6) [OF d(4)] by simp
        then show False using t by simp
      qed
      have ih: "in_heap (areas s0) (ai, b + n)" using bn d(4) l0(2) [of "(ai, b + n)"] by (simp add: in_heap_def)
      have out: "\<not> (ai = aj \<and> b' \<le> b + n \<and> b + n < b' + new)"
      proof
        assume r: "ai = aj \<and> b' \<le> b + n \<and> b + n < b' + new"
        have "atb_get_kind (alloc_table (areas s1 ! aj)) b' = AT_HEAD" using a(3) by (simp add: gc_chain_at_def gc_nodes_def)
        then have "b' \<noteq> b + n" using t r by auto
        then have "b' \<le> b + n - 1" "b + n - 1 < b' + new" "b \<le> b + n - 1" "b + n - 1 < b + n" using r g(3) by linarith+
        then show False using old [of "b + n - 1"] r by blast
      qed
      then have "atb_get_kind (alloc_table (areas s0 ! ai)) (b + n) = AT_TAIL" using a(7) [OF ih] t by simp
      then have "atb_get_kind ?tab (b + n) = AT_TAIL"
        using collected_used [OF assms(7), of "(ai, b + n)"] ih l0(2) by simp
      then show False using g(2) by simp
    qed
  qed
  obtain s2 where s2: "gc_free ?s1 p = Some s2" "gc_wf s2" "gc_cleared ?s1 ai b (b + n) s2"
    using gc_free_cleared [OF wf1 _ at1] ld1 n1 by auto
  have k2: "\<And>m. in_heap (areas s1) m \<Longrightarrow>
      gc_kind (areas s2) m = (if fst m = ai \<and> b \<le> snd m \<and> snd m < b + n then AT_FREE else gc_kind (areas s1) m)"
    and lay2: "same_layout (areas s1) (areas s2)" and mem2: "memory s2 = m'"
    using s2(3) by (auto simp: gc_cleared_def)
  note l2 = same_layoutD [OF lay2]
  have other: "chain_kept s s2 h" if h: "h \<in> gc_live s roots" "h \<noteq> (ai, b)" for h
  proof (rule chain_keptI [OF assms(1) aj])
    show "memory s2 a = memory s a" if "\<not> (ptr_from_block (areas s ! aj) b' \<le> a \<and> a < ptr_from_block (areas s ! aj) b' + new * BYTES_PER_BLOCK)" for a
      using that assms(6) unfolding mem2 assms(11) mem1 qs by auto
    fix m
    assume m: "in_heap (areas s) m" "gc_kind (areas s) m \<noteq> AT_FREE" "gc_head (areas s) m = h"
    have "\<not> (fst m = ai \<and> b \<le> snd m \<and> snd m < b + n)" using hc [of "snd m"] m(3) h(2) by (cases m) auto
    then show "\<not> (fst m = aj \<and> b' \<le> snd m \<and> snd m < b' + new) \<and> gc_kind (areas s2) m = gc_kind (areas s) m"
      using live [OF m(1,2)] m(3) h(1) k2 [of m] m(1) l1(2) by auto
  qed
  have aj1: "aj < length (areas s1)" using aj(1) l1(1) by simp
  have run_out: "\<not> (aj = ai \<and> b \<le> c \<and> c < b + n)" if "b' \<le> c" "c < b' + new" for c
    using old [of c] that by auto
  have kq: "atb_get_kind (alloc_table (areas s2 ! aj)) c = atb_get_kind (alloc_table (areas s1 ! aj)) c"
    if "b' \<le> c" "c < b' + new" for c
    using k2 [of "(aj, c)"] run_out [OF that] that aj l1(1,6) by (auto simp: in_heap_def)
  have atq: "gc_chain_at s2 q (aj, b')"
    using a(3) kq [of b'] new l2(2,4) aj1 by (auto simp: gc_chain_at_def gc_nodes_def ptr_from_block_def)
  have aj2: "aj < length (areas s2)" using aj1 l2(1) by simp
  note wj1 = gc_wfD(4) [OF assms(9) aj1] and wj2 = gc_wfD(4) [OF s2(2) aj2]
  have len2: "length (alloc_table (areas s2 ! aj)) = length (alloc_table (areas s1 ! aj))"
    using area_wfD(1) [OF wj1] area_wfD(1) [OF wj2] l2(6) [OF aj1] by simp
  have bl1: "b' + new \<le> area_blocks (areas s1 ! aj)" using aj l1(6) by simp
  have "gc_n_blocks (alloc_table (areas s2 ! aj)) b' = new"
  proof (rule gc_n_blocks_unique [OF new])
    show "atb_get_kind (alloc_table (areas s2 ! aj)) c = AT_TAIL" if "b' < c" "c < b' + new" for c
      using kq [of c] that gc_n_blocks_kinds [of b' c "alloc_table (areas s1 ! aj)"] a(6) by simp
    show "b' + new \<le> 4 * length (alloc_table (areas s2 ! aj))" using bl1 area_wfD(6) [OF wj1] len2 by simp
    show "atb_get_kind (alloc_table (areas s2 ! aj)) (b' + new) \<noteq> AT_TAIL"
      if e: "b' + new < 4 * length (alloc_table (areas s2 ! aj))"
    proof (cases "b' + new < area_blocks (areas s1 ! aj)")
      case True
      have "atb_get_kind (alloc_table (areas s1 ! aj)) (b' + new) \<noteq> AT_TAIL"
        using gc_n_blocks_bound(2) [OF wj1, of b'] bl1 new a(6) by simp
      then show ?thesis using k2 [of "(aj, b' + new)"] True aj1 by (auto simp: in_heap_def)
    next
      case False
      then show ?thesis using area_wfD(2) [OF wj2 _ e] l2(6) [OF aj1] by simp
    qed
  qed
  then have nb: "gc_nbytes s2 q = new * BYTES_PER_BLOCK" using gc_nbytes_chain [OF s2(2) atq] by simp
  have "memory s2 (q + i) = memory s (p + i)" if "i < gc_nbytes s p" for i
  proof -
    have i: "i < n * BYTES_PER_BLOCK" using that gc_nbytes_chain [OF assms(1,3)] assms(5) by simp
    then have "memory s2 (q + i) = memory s1 (p + i)" unfolding mem2 assms(11) by simp
    also have "\<dots> = memory s (p + i)"
      using chain_kept_words [OF assms(1,3) kept1 [OF assms(4)], of i] i assms(5) by simp
    finally show ?thesis .
  qed
  then have "gc_realloc_post s roots p (ai, b) new s2 q"
    unfolding gc_realloc_post_def using s2(2) other q0 nb by simp
  then show ?thesis using s2(1) q0 by blast
qed

lemma gc_realloc_correct:
  assumes "gc_wf s" "lock_depth s = 0" "gc_chain_at s p (ai, b)" "(ai, b) \<in> gc_live s roots"
    and "0 < n_bytes" "n_bytes + 15 < 2 ^ 32"
  shows "\<exists>s' q. gc_realloc s roots p n_bytes move = Some (s', q)
    \<and> gc_realloc_post s roots p (ai, b) ((n_bytes + 15) div 16) s' q"
proof -
  note d = gc_chain_atD [OF assms(1,3)]
  note w = gc_wfD(4) [OF assms(1) d(4)]
  define area where "area = areas s ! ai"
  define t where "t = alloc_table area"
  define new where "new = (n_bytes + 15) div 16"
  have N: "u32 (n_bytes + 16 - 1) div 16 = new" "u32 (n_bytes + 15) div 16 = new" using assms(6) by (simp_all add: new_def u32_def add.commute)
  have new: "0 < new" using assms(5) by (simp add: new_def)
  obtain n f where sc: "gc_realloc_scan [b + 1 ..< area_blocks area] t new 1 0 = (n, f)" by fastforce
  note r = gc_realloc_scan_chain [OF w d(5) sc [unfolded t_def area_def]]
  have kept_refl: "chain_kept s s h" for h by (simp add: chain_kept_def same_block_def)
  note pre = gc_realloc_def [of s roots p n_bytes move, unfolded if_not_P [OF d(3)] d(1) option.case Let_def d(2), folded area_def, folded t_def, unfolded N sc prod.case]
  have guards: "n_bytes \<noteq> 0" "\<not> 0 < lock_depth s" "\<not> atb_get_kind t b \<noteq> AT_HEAD"
    using assms(2,5) d(6) by (auto simp: t_def area_def)
  note run = pre [unfolded if_not_P [OF guards(1)] if_not_P [OF guards(2)] if_not_P [OF guards(3)]]
  consider (same) "new = n" | (shrink) "new < n" | (grow) "n < new" "new \<le> n + f"
    | (stay) "n < new" "n + f < new" "\<not> move" | (move) "n < new" "n + f < new" "move" by linarith
  then have "\<exists>s' q. gc_realloc s roots p n_bytes move = Some (s', q) \<and> gc_realloc_post s roots p (ai, b) new s' q"
  proof cases
    case same
    have "gc_realloc s roots p n_bytes move = Some (s, p)" unfolding run using same by simp
    moreover have "gc_realloc_post s roots p (ai, b) new s p"
      unfolding gc_realloc_post_def using assms(1) kept_refl d(3) gc_nbytes_chain [OF assms(1,3)] same r(1) by simp
    ultimately show ?thesis by blast
  next
    case shrink
    define x where "x = (if (b + new) div 4 < last_free_atb_index area then (b + new) div 4 else last_free_atb_index area)"
    define t' where "t' = foldl atb_any_to_free t [b + new ..< b + n]"
    define s' where "s' = s\<lparr>areas := (areas s)[ai := area\<lparr>last_free_atb_index := x, alloc_table := t'\<rparr>],
      last_free_area := (if last_free_area s \<noteq> ai then 0 else last_free_area s)\<rparr>"
    have e: "b + new + (n - new) = b + n" using shrink by simp
    have comm: "area\<lparr>alloc_table := y, last_free_atb_index := z\<rparr> = area\<lparr>last_free_atb_index := z, alloc_table := y\<rparr>" for y z
      by simp
    have "gc_realloc s roots p n_bytes move = Some (s', p)"
      unfolding run s'_def t'_def x_def using shrink by (simp add: e comm)
    moreover have c: "gc_wf s'" "gc_cleared s ai (b + new) (b + n) s'"
      by (rule gc_cleared_correct [OF assms(1) d(4), of "b + new" "b + n" t' x];
          use shrink gc_n_blocks_bound(1,2) [OF w d(5)] r(1) in \<open>simp add: t'_def x_def s'_def t_def area_def\<close>)+
    ultimately show ?thesis using gc_realloc_shrink [OF assms(1,3) r(1) new shrink c(2,1)] by blast
  next
    case grow
    define t' where "t' = foldl atb_free_to_tail t [b + n ..< b + new]"
    define s' where "s' = s\<lparr>areas := (areas s)[ai := area\<lparr>alloc_table := t', last_used_block := max (last_used_block area) (b + new)\<rparr>],
      memory := (\<lambda>a. if p + n * BYTES_PER_BLOCK \<le> a \<and> a < p + new * BYTES_PER_BLOCK then 0 else memory s a)\<rparr>"
    have "gc_realloc s roots p n_bytes move = Some (s', p)"
      unfolding run s'_def t'_def using grow by simp
    moreover have "gc_realloc_post s roots p (ai, b) new s' p"
    proof (rule gc_realloc_grow [OF assms(1,3) r(1) grow(1)])
      show "b + new \<le> area_blocks (areas s ! ai)" using grow r(2) by simp
      show "free_run_at (alloc_table (areas s ! ai)) (b + n) (new - n)" using grow r(3) by (auto simp: free_run_at_def)
      show "t' = foldl atb_free_to_tail (alloc_table (areas s ! ai)) [b + n ..< b + new]" by (simp add: t'_def t_def area_def)
    qed (simp add: s'_def area_def)
    ultimately show ?thesis by blast
  next
    case stay
    have "gc_realloc s roots p n_bytes move = Some (s, 0)" unfolding run using stay by simp
    moreover have "gc_realloc_post s roots p (ai, b) new s 0"
      unfolding gc_realloc_post_def using assms(1) kept_refl by simp
    ultimately show ?thesis by blast
  next
    case move
    obtain s1 q where al: "gc_alloc s roots n_bytes = Some (s1, q)" "gc_wf s1"
      "if new = 0 \<or> gc_is_locked s then s1 = s \<and> q = 0
        else if q = 0
        then \<exists>s0. (s0 = s \<and> \<not> auto_collect_enabled s \<or> gc_collected s roots s0) \<and> gc_wf s0 \<and> gc_same s0 s1
               \<and> (\<forall>area \<in> set (areas s0). no_run area new)
        else \<exists>s0. (s0 = s \<or> gc_collected s roots s0) \<and> gc_wf s0 \<and> gc_allocated s0 new s1 q"
      using gc_alloc_correct [OF assms(1), of roots n_bytes] unfolding Let_def N by blast
    have un: "\<not> (new = 0 \<or> gc_is_locked s)" using new assms(2) by (simp add: gc_is_locked_def)
    show ?thesis
    proof (cases "q = 0")
      case True
      have "gc_realloc s roots p n_bytes move = Some (s1, 0)" unfolding run using move al(1) True by simp
      moreover obtain s0 where s0: "s0 = s \<or> gc_collected s roots s0" "gc_same s0 s1"
        using al(3) True un by auto
      have "chain_kept s s1 h" if "h \<in> gc_live s roots" for h
        unfolding chain_kept_def
      proof (intro allI impI)
        fix m
        assume m: "in_heap (areas s) m \<and> gc_kind (areas s) m \<noteq> AT_FREE \<and> gc_head (areas s) m = h"
        have "gc_kind (areas s0) m = gc_kind (areas s) m" using live_kind [OF s0(1) that] m by blast
        moreover have "gc_kind (areas s1) m = gc_kind (areas s0) m"
          using gc_sameD(2) [OF s0(2)] m same_layoutD(2) [OF collected_layout(1) [OF s0(1)]] by blast
        moreover have "memory s1 = memory s" using gc_sameD(4) [OF s0(2)] collected_layout(2) [OF s0(1)] by simp
        ultimately show "gc_kind (areas s1) m = gc_kind (areas s) m \<and> same_block (memory s) (memory s1) (areas s) m"
          by (simp add: same_block_def)
      qed
      then have "gc_realloc_post s roots p (ai, b) new s1 0"
        unfolding gc_realloc_post_def using al(2) assms(4) by simp
      ultimately show ?thesis by blast
    next
      case False
      obtain s0 where s0: "s0 = s \<or> gc_collected s roots s0" "gc_wf s0" "gc_allocated s0 new s1 q"
        using al(3) False un by auto
      note mv = gc_realloc_move [OF assms(1-4) r(1) move(1) s0(1,2) al(2) s0(3) refl]
      then obtain s2 where s2: "gc_free (s1\<lparr>memory := \<lambda>a. if q \<le> a \<and> a < q + n * BYTES_PER_BLOCK then memory s1 (p + (a - q)) else memory s1 a\<rparr>) p = Some s2"
        "gc_realloc_post s roots p (ai, b) new s2 q" by blast
      have "gc_realloc s roots p n_bytes move = Some (s2, q)" unfolding run using move al(1) False s2(1) by simp
      then show ?thesis using s2(2) by blast
    qed
  qed
  then show ?thesis by (simp add: new_def)
qed
end
