(* ===== verification/GcInfo.thy ===== *)
theory GcInfo
  imports GcFree
begin

text \<open>
  The statistics of \<open>gc_info\<close>: the numbers of used and free blocks and the longest run of free blocks.
\<close>

section \<open>Statistics\<close>

text \<open>
  The counts and the longest run of free blocks after the blocks before \<open>b\<close> of a table have been
  counted, the pending run of free blocks being \<open>lf\<close> long.
\<close>

definition longest_so_far :: "atb \<Rightarrow> nat \<Rightarrow> nat \<Rightarrow> nat \<Rightarrow> nat \<Rightarrow> bool" where
  "longest_so_far t b mf0 mf lf \<longleftrightarrow> lf \<le> b \<and> free_run_at t (b - lf) lf \<and> mf0 \<le> mf
     \<and> (\<forall>c N. 0 < N \<and> c + N \<le> b \<and> free_run_at t c N \<longrightarrow> N \<le> max mf lf)
     \<and> (mf = mf0 \<or> (\<exists>c. c + mf \<le> b \<and> free_run_at t c mf))"

lemma longest_so_far_free:
  assumes "longest_so_far t b mf0 mf lf" "atb_get_kind t b = AT_FREE" "lf < b \<Longrightarrow> atb_get_kind t (b - lf - 1) \<noteq> AT_FREE"
  shows "longest_so_far t (Suc b) mf0 mf (Suc lf)"
proof -
  have a: "lf \<le> b" "free_run_at t (b - lf) lf" "mf0 \<le> mf"
    "\<forall>c N. 0 < N \<and> c + N \<le> b \<and> free_run_at t c N \<longrightarrow> N \<le> max mf lf" "mf = mf0 \<or> (\<exists>c. c + mf \<le> b \<and> free_run_at t c mf)"
    using assms(1) by (auto simp: longest_so_far_def)
  have "free_run_at t (Suc b - Suc lf) (Suc lf)"
    unfolding free_run_at_def
  proof (intro allI impI)
    fix c
    assume "Suc b - Suc lf \<le> c \<and> c < Suc b - Suc lf + Suc lf"
    then show "atb_get_kind t c = AT_FREE" using a(1,2) assms(2) by (cases "c = b") (auto simp: free_run_at_def)
  qed
  moreover have "N \<le> max mf (Suc lf)" if "0 < N" "c + N \<le> Suc b" "free_run_at t c N" for c N
  proof (cases "c + N \<le> b")
    case True
    then have "N \<le> max mf lf" using a(4) that by blast
    then show ?thesis by auto
  next
    case False
    have "N \<le> Suc lf"
    proof (rule ccontr)
      assume "\<not> N \<le> Suc lf"
      then have "lf < b" "c \<le> b - lf - 1" "b - lf - 1 < c + N" using False that(1,2) by linarith+
      then show False using assms(3) that(3) by (auto simp: free_run_at_def)
    qed
    then show ?thesis by simp
  qed
  moreover have "mf = mf0 \<or> (\<exists>c. c + mf \<le> Suc b \<and> free_run_at t c mf)" using a(5) le_SucI by blast
  ultimately show ?thesis unfolding longest_so_far_def using a(1,3) by blast
qed

lemma longest_so_far_used:
  assumes "longest_so_far t b mf0 mf 0" "atb_get_kind t b \<noteq> AT_FREE"
  shows "longest_so_far t (Suc b) mf0 mf 0"
proof -
  have "N \<le> max mf 0" if "0 < N" "c + N \<le> Suc b" "free_run_at t c N" for c N
  proof (cases "c + N \<le> b")
    case False
    then have "c \<le> b" "b < c + N" using that by linarith+
    then show ?thesis using that(3) assms(2) by (auto simp: free_run_at_def)
  qed (use assms(1) that in \<open>auto simp: longest_so_far_def\<close>)
  then show ?thesis using assms(1) unfolding longest_so_far_def by (auto simp: free_run_at_def intro: le_SucI)
qed

lemma longest_so_far_close:
  assumes "longest_so_far t b mf0 mf lf"
  shows "longest_so_far t b mf0 (max mf lf) 0"
proof -
  have a: "lf \<le> b" "free_run_at t (b - lf) lf" "mf0 \<le> mf"
    "\<forall>c N. 0 < N \<and> c + N \<le> b \<and> free_run_at t c N \<longrightarrow> N \<le> max mf lf" "mf = mf0 \<or> (\<exists>c. c + mf \<le> b \<and> free_run_at t c mf)"
    using assms by (auto simp: longest_so_far_def)
  have "max mf lf = mf0 \<or> (\<exists>c. c + max mf lf \<le> b \<and> free_run_at t c (max mf lf))"
  proof (cases "mf < lf")
    case True
    then have "max mf lf = lf" by simp
    then show ?thesis using a(1,2) by (intro disjI2 exI [of _ "b - lf"]) auto
  next
    case False
    then have "max mf lf = mf" by simp
    then show ?thesis using a(5) by metis
  qed
  then show ?thesis unfolding longest_so_far_def using a(3,4) by (auto simp: free_run_at_def)
qed

lemma gc_info_switch_free: "atb_get_kind t b = AT_FREE \<Longrightarrow>
    gc_info_switch (atb_get_kind t b) (info, len, lf) = (info\<lparr>info_free := info_free info + 1\<rparr>, 0, lf + 1)"
  by (simp add: gc_info_switch_def)

lemma gc_info_switch_used: "atb_get_kind t b \<noteq> AT_FREE \<Longrightarrow> atb_get_kind t b \<noteq> AT_MARK \<Longrightarrow>
    \<exists>len'. gc_info_switch (atb_get_kind t b) (info, len, lf) = (info\<lparr>info_used := info_used info + 1\<rparr>, len', lf)"
  using atb_kind_range [of t b] by (auto simp: gc_info_switch_def)

lemma gc_info_run_end_cases:
  "\<exists>info'. gc_info_run_end finish k (info, len, lf) = (info', len, if finish \<or> k = AT_HEAD then 0 else lf)
    \<and> info_total info' = info_total info \<and> info_used info' = info_used info \<and> info_free info' = info_free info
    \<and> info_max_free info' = (if finish \<or> k = AT_HEAD then max (info_max_free info) lf else info_max_free info)"
  by (auto simp: gc_info_run_end_def Let_def max_def)

lemma gc_info_blocks_correct:
  assumes "area_wf area" "\<And>c. c < area_blocks area \<Longrightarrow> atb_get_kind (alloc_table area) c \<noteq> AT_MARK"
    and "t = alloc_table area" "n = area_blocks area" "b < n" "longest_so_far t b mf0 (info_max_free info) lf"
    and "atb_get_kind t b = AT_FREE \<Longrightarrow> lf < b \<Longrightarrow> atb_get_kind t (b - lf - 1) \<noteq> AT_FREE"
    and "atb_get_kind t b \<noteq> AT_FREE \<Longrightarrow> lf = 0"
  shows "\<exists>info' len'. gc_info_blocks [b ..< n] t n (info, len, lf) = (info', len', 0)
    \<and> info_total info' = info_total info
    \<and> info_used info' = info_used info + card {c. c < n \<and> b \<le> c \<and> atb_get_kind t c \<noteq> AT_FREE}
    \<and> info_free info' = info_free info + card {c. c < n \<and> b \<le> c \<and> atb_get_kind t c = AT_FREE}
    \<and> longest_so_far t n mf0 (info_max_free info') 0"
  using assms(5-)
proof (induction "n - b" arbitrary: b info len lf)
  case (Suc m)
  then have up: "[b ..< n] = b # [Suc b ..< n]" by (simp add: upt_conv_Cons)
  let ?k = "atb_get_kind t b"
  define fin where "fin = (b + 1 = n)"
  define nk where "nk = (if fin then ?k else atb_get_kind t (b + 1))"
  define lf1 where "lf1 = (if ?k = AT_FREE then lf + 1 else lf)"
  have nm: "?k \<noteq> AT_MARK" using assms(2-4) Suc.prems(1) by simp
  obtain info1 len1 where sw: "gc_info_switch ?k (info, len, lf) = (info1, len1, lf1)"
    "info_total info1 = info_total info" "info_max_free info1 = info_max_free info"
    "info_used info1 = info_used info + (if ?k = AT_FREE then 0 else 1)" "info_free info1 = info_free info + (if ?k = AT_FREE then 1 else 0)"
    using gc_info_switch_free [of t b info len lf] gc_info_switch_used [of t b info len lf] nm
    by (cases "?k = AT_FREE") (auto simp: lf1_def)
  have ls1: "longest_so_far t (Suc b) mf0 (info_max_free info1) lf1"
    using longest_so_far_free [of t b mf0 "info_max_free info" lf] longest_so_far_used [of t b mf0 "info_max_free info"]
      Suc.prems(2-4) by (cases "?k = AT_FREE") (simp_all add: lf1_def sw(3))
  define lf2 where "lf2 = (if fin \<or> nk = AT_HEAD then 0 else lf1)"
  obtain info2 where re: "gc_info_run_end fin nk (info1, len1, lf1) = (info2, len1, lf2)"
    "info_total info2 = info_total info1" "info_used info2 = info_used info1" "info_free info2 = info_free info1"
    "info_max_free info2 = (if fin \<or> nk = AT_HEAD then max (info_max_free info1) lf1 else info_max_free info1)"
    using gc_info_run_end_cases [of fin nk info1 len1 lf1] unfolding lf2_def by blast
  have ls2: "longest_so_far t (Suc b) mf0 (info_max_free info2) lf2"
    using ls1 longest_so_far_close [OF ls1] by (simp add: re(5) lf2_def)
  have step: "gc_info_blocks [b ..< n] t n (info, len, lf) = gc_info_blocks [Suc b ..< n] t n (info2, len1, lf2)"
    unfolding up gc_info_blocks.simps Let_def fin_def [symmetric] nk_def [symmetric] sw(1) re(1) ..
  have cards: "card {c. c < n \<and> b \<le> c \<and> P c} = card {c. c < n \<and> Suc b \<le> c \<and> P c} + (if P b then 1 else 0)" for P
  proof -
    have "{c. c < n \<and> b \<le> c \<and> P c} = (if P b then insert b {c. c < n \<and> Suc b \<le> c \<and> P c} else {c. c < n \<and> Suc b \<le> c \<and> P c})"
      using Suc.prems(1) by (auto simp: Suc_le_eq order.order_iff_strict)
    then show ?thesis by simp
  qed
  show ?case
  proof (cases fin)
    case True
    then have e: "[Suc b ..< n] = []" "n = Suc b" "lf2 = 0" by (auto simp: fin_def lf2_def)
    have "{c. c < n \<and> Suc b \<le> c \<and> P c} = {}" for P using e(2) by auto
    then show ?thesis unfolding step e(1,3) gc_info_blocks.simps cards
      using sw(2,4,5) re(2-4) ls2 [unfolded e(3), folded e(2)] by auto
  next
    case False
    then have bn: "Suc b < n" "nk = atb_get_kind t (Suc b)" using Suc.prems(1) by (auto simp: fin_def nk_def)
    have m: "m = n - Suc b" using Suc.hyps(2) by simp
    have w: "atb_get_kind t (Suc b) = AT_TAIL \<Longrightarrow> ?k \<noteq> AT_FREE"
      using area_wfD(5) [OF assms(1), of "Suc b"] bn(1) assms(3,4) by auto
    have c1: "atb_get_kind t (Suc b) = AT_FREE \<Longrightarrow> lf2 < Suc b \<Longrightarrow> atb_get_kind t (Suc b - lf2 - 1) \<noteq> AT_FREE"
      using Suc.prems(3,4) False bn(2) by (cases "?k = AT_FREE") (auto simp: lf2_def lf1_def)
    have c2: "atb_get_kind t (Suc b) \<noteq> AT_FREE \<Longrightarrow> lf2 = 0"
      using Suc.prems(4) w bn(2) atb_kind_range [of t "Suc b"] assms(2) [of "Suc b"] bn(1) assms(3,4)
      by (auto simp: lf2_def lf1_def)
    obtain info' len' where ih: "gc_info_blocks [Suc b ..< n] t n (info2, len1, lf2) = (info', len', 0)"
      "info_total info' = info_total info2"
      "info_used info' = info_used info2 + card {c. c < n \<and> Suc b \<le> c \<and> atb_get_kind t c \<noteq> AT_FREE}"
      "info_free info' = info_free info2 + card {c. c < n \<and> Suc b \<le> c \<and> atb_get_kind t c = AT_FREE}"
      "longest_so_far t n mf0 (info_max_free info') 0"
      using Suc.hyps(1) [OF m bn(1) ls2 c1 c2, of len1] by blast
    show ?thesis unfolding step cards
      using ih sw(2,4,5) re(2-4) by (intro exI [of _ info'] exI [of _ len']) auto
  qed
qed simp

text \<open>The runs of free blocks of all areas.\<close>

definition some_run :: "gc_area list \<Rightarrow> nat \<Rightarrow> bool" where
  "some_run as N \<longleftrightarrow> (\<exists>area \<in> set as. \<not> no_run area N)"

definition blocks_of :: "gc_area list \<Rightarrow> (8 word \<Rightarrow> bool) \<Rightarrow> nat" where
  "blocks_of as P = sum_list (map (\<lambda>area. card {c. c < area_blocks area \<and> P (atb_get_kind (alloc_table area) c)}) as)"

lemma gc_info_areas_correct:
  assumes "\<forall>area \<in> set as. area_wf area \<and> 0 < area_blocks area \<and> (\<forall>c < area_blocks area. atb_get_kind (alloc_table area) c \<noteq> AT_MARK)"
  shows "\<exists>info'. gc_info_areas as info = Some info'
    \<and> info_total info' = info_total info + sum_list (map (\<lambda>area. area_blocks area * BYTES_PER_BLOCK) as)
    \<and> info_used info' = info_used info + blocks_of as (\<lambda>k. k \<noteq> AT_FREE)
    \<and> info_free info' = info_free info + blocks_of as (\<lambda>k. k = AT_FREE)
    \<and> info_max_free info \<le> info_max_free info'
    \<and> (\<forall>N > 0. some_run as N \<longrightarrow> N \<le> info_max_free info')
    \<and> (info_max_free info' = info_max_free info \<or> some_run as (info_max_free info'))"
  using assms
proof (induction as arbitrary: info)
  case Nil
  then show ?case by (simp add: blocks_of_def some_run_def)
next
  case (Cons area as)
  let ?t = "alloc_table area" and ?n = "area_blocks area"
  let ?info1 = "info\<lparr>info_total := info_total info + (pool_end area - pool_start area)\<rparr>"
  have w: "area_wf area" "0 < ?n" and nm: "\<And>c. c < ?n \<Longrightarrow> atb_get_kind ?t c \<noteq> AT_MARK" using Cons.prems by auto
  have tot: "pool_end area - pool_start area = ?n * BYTES_PER_BLOCK" using area_wfD(4) [OF w(1)] by simp
  have z: "longest_so_far ?t 0 (info_max_free info) (info_max_free ?info1) 0"
    by (simp add: longest_so_far_def free_run_at_def)
  obtain info2 len2 where b: "gc_info_blocks [0 ..< ?n] ?t ?n (?info1, 0, 0) = (info2, len2, 0)"
    "info_total info2 = info_total ?info1"
    "info_used info2 = info_used ?info1 + card {c. c < ?n \<and> 0 \<le> c \<and> atb_get_kind ?t c \<noteq> AT_FREE}"
    "info_free info2 = info_free ?info1 + card {c. c < ?n \<and> 0 \<le> c \<and> atb_get_kind ?t c = AT_FREE}"
    "longest_so_far ?t ?n (info_max_free info) (info_max_free info2) 0"
    using gc_info_blocks_correct [OF w(1) nm refl refl w(2) z, of 0] by auto
  have run: "gc_info_areas (area # as) info = gc_info_areas as info2"
    unfolding gc_info_areas.simps Let_def b(1) using w(2) by simp
  obtain info' where ih: "gc_info_areas as info2 = Some info'"
    "info_total info' = info_total info2 + sum_list (map (\<lambda>area. area_blocks area * BYTES_PER_BLOCK) as)"
    "info_used info' = info_used info2 + blocks_of as (\<lambda>k. k \<noteq> AT_FREE)"
    "info_free info' = info_free info2 + blocks_of as (\<lambda>k. k = AT_FREE)"
    "info_max_free info2 \<le> info_max_free info'" "\<forall>N > 0. some_run as N \<longrightarrow> N \<le> info_max_free info'"
    "info_max_free info' = info_max_free info2 \<or> some_run as (info_max_free info')"
    using Cons.IH [of info2] Cons.prems by auto
  have l: "info_max_free info \<le> info_max_free info2"
    "\<forall>c N. 0 < N \<and> c + N \<le> ?n \<and> free_run_at ?t c N \<longrightarrow> N \<le> info_max_free info2"
    "info_max_free info2 = info_max_free info \<or> (\<exists>c. c + info_max_free info2 \<le> ?n \<and> free_run_at ?t c (info_max_free info2))"
    using b(5) by (auto simp: longest_so_far_def)
  have "N \<le> info_max_free info'" if "0 < N" "some_run (area # as) N" for N
  proof (cases "some_run as N")
    case False
    then have "\<not> no_run area N" using that(2) by (auto simp: some_run_def)
    then have "N \<le> info_max_free info2" using l(2) that(1) unfolding no_run_def by blast
    then show ?thesis using ih(5) by simp
  qed (use ih(6) that(1) in blast)
  moreover have "info_max_free info' = info_max_free info \<or> some_run (area # as) (info_max_free info')"
    using ih(7) l(3) unfolding some_run_def no_run_def by fastforce
  ultimately show ?case unfolding run using ih(1-5) b(2-4) l(1) tot
    by (intro exI [of _ info']) (auto simp: blocks_of_def)
qed

lemma gc_info_correct:
  assumes "gc_wf s" "\<forall>area \<in> set (areas s). 0 < area_blocks area"
  shows "\<exists>info. gc_info s = Some info
    \<and> info_total info = sum_list (map (\<lambda>area. area_blocks area * BYTES_PER_BLOCK) (areas s))
    \<and> info_used info = BYTES_PER_BLOCK * blocks_of (areas s) (\<lambda>k. k \<noteq> AT_FREE)
    \<and> info_free info = BYTES_PER_BLOCK * blocks_of (areas s) (\<lambda>k. k = AT_FREE)
    \<and> (\<forall>N > 0. N \<le> info_max_free info \<longleftrightarrow> some_run (areas s) N)"
proof -
  have pre: "\<forall>area \<in> set (areas s). area_wf area \<and> 0 < area_blocks area \<and> (\<forall>c < area_blocks area. atb_get_kind (alloc_table area) c \<noteq> AT_MARK)"
  proof
    fix area
    assume "area \<in> set (areas s)"
    then obtain i where i: "i < length (areas s)" "area = areas s ! i" by (auto simp: in_set_conv_nth)
    then show "area_wf area \<and> 0 < area_blocks area \<and> (\<forall>c < area_blocks area. atb_get_kind (alloc_table area) c \<noteq> AT_MARK)"
      using gc_wfD(4) [OF assms(1) i(1)] gc_wfD(7) [OF assms(1), of "(i, c)" for c] assms(2) by (auto simp: in_heap_def)
  qed
  let ?z = "\<lparr>info_total = 0, info_used = 0, info_free = 0, info_max_free = 0, info_num_1block = 0, info_num_2block = 0, info_max_block = 0\<rparr>"
  obtain info where g: "gc_info_areas (areas s) ?z = Some info"
    "info_total info = sum_list (map (\<lambda>area. area_blocks area * BYTES_PER_BLOCK) (areas s))"
    "info_used info = blocks_of (areas s) (\<lambda>k. k \<noteq> AT_FREE)" "info_free info = blocks_of (areas s) (\<lambda>k. k = AT_FREE)"
    "\<forall>N > 0. some_run (areas s) N \<longrightarrow> N \<le> info_max_free info" "info_max_free info = 0 \<or> some_run (areas s) (info_max_free info)"
    using gc_info_areas_correct [OF pre, of ?z] by auto
  have "some_run (areas s) N" if "0 < N" "N \<le> info_max_free info" for N
  proof -
    have pos: "info_max_free info \<noteq> 0" using that by simp
    obtain area b where "area \<in> set (areas s)" "b + info_max_free info \<le> area_blocks area" "free_run_at (alloc_table area) b (info_max_free info)"
    proof -
      have "some_run (areas s) (info_max_free info)" using g(6) pos by blast
      then show thesis using that unfolding some_run_def no_run_def by blast
    qed
    moreover have "free_run_at (alloc_table area) b N" using calculation(3) that(2) by (auto simp: free_run_at_def)
    ultimately show ?thesis using that(2) unfolding some_run_def no_run_def by (meson add_le_cancel_left order_trans)
  qed
  then show ?thesis unfolding gc_info_def g(1) using g(2-5) by (auto simp: mult.commute)
qed

end
