(* ===== verification/GcTheorems.thy ===== *)
theory GcTheorems
  imports GcInfo
begin

text \<open>
  The properties of the garbage collector, with instances on a heap of eight blocks.
\<close>

section \<open>New areas\<close>

lemma atb_kind_zero: "c < 4 * n \<Longrightarrow> atb_get_kind (replicate n 0) c = AT_FREE"
proof -
  assume "c < 4 * n"
  then have "c div 4 < n" by auto
  then show ?thesis by (simp add: atb_get_kind_def)
qed

lemma gc_setup_area_layout:
  assumes "start < end_ptr" "end_ptr < 2 ^ 32" "end_ptr mod 16 = 0" "area = gc_setup_area start end_ptr"
  shows "start + (alloc_table_byte_len area + 1) \<le> pool_start area" "pool_end area = end_ptr"
    "area_wf area" "search_ok area" "\<And>b. b < area_blocks area \<Longrightarrow> atb_get_kind (alloc_table area) b = AT_FREE"
proof -
  define total where "total = end_ptr - start"
  define n where "n = (total - 1) div 65"
  have t: "u32 (end_ptr + 2 ^ 32 - start) = total"
  proof -
    have "end_ptr + 2 ^ 32 - start = total + 2 ^ 32" using assms(1) by (simp add: total_def)
    moreover have "total < 2 ^ 32" using assms(2) by (simp add: total_def)
    ultimately show ?thesis by (simp only: u32_def mod_add_self2 mod_less)
  qed
  have t1: "u32 (total + 2 ^ 32 - 1) = total - 1"
  proof -
    have "total + 2 ^ 32 - 1 = total - 1 + 2 ^ 32" using assms(1) by (simp add: total_def)
    moreover have "total - 1 < 2 ^ 32" using assms(2) by (simp add: total_def)
    ultimately show ?thesis by (simp only: u32_def mod_add_self2 mod_less)
  qed
  have n: "65 * n \<le> total - 1" by (simp add: n_def)
  have le: "64 * n \<le> end_ptr" using n by (simp add: total_def)
  have p: "u32 (end_ptr + 2 ^ 32 - n * 4 * 16) = end_ptr - 64 * n"
  proof -
    have "end_ptr + 2 ^ 32 - n * 4 * 16 = end_ptr - 64 * n + 2 ^ 32" using le by simp
    moreover have "end_ptr - 64 * n < 2 ^ 32" using assms(2) by simp
    ultimately show ?thesis by (simp only: u32_def mod_add_self2 mod_less)
  qed
  have "area = \<lparr>alloc_table = replicate (n + 1) 0, alloc_table_byte_len = n,
      pool_start = end_ptr - 64 * n, pool_end = end_ptr, last_free_atb_index = 0, last_used_block = 0\<rparr>"
    unfolding assms(4) gc_setup_area_def Let_def t t1
    using p by (simp add: n_def)
  then have a: "alloc_table area = replicate (n + 1) 0" "alloc_table_byte_len area = n"
    "pool_start area = end_ptr - 64 * n" "pool_end area = end_ptr" "last_free_atb_index area = 0" by simp_all
  have free: "atb_get_kind (alloc_table area) b = AT_FREE" if "b < 4 * (n + 1)" for b
    unfolding a(1) by (rule atb_kind_zero [OF that])
  show "start + (alloc_table_byte_len area + 1) \<le> pool_start area"
    using n assms(1) unfolding a(2,3) total_def by linarith
  show "pool_end area = end_ptr" by (rule a(4))
  show f: "atb_get_kind (alloc_table area) b = AT_FREE" if "b < area_blocks area" for b using free that a(2) by simp
  have "16 dvd end_ptr" using assms(3) by auto
  then have "16 dvd end_ptr - 64 * n" by (intro dvd_diff_nat) auto
  then have m: "pool_start area mod 16 = 0" unfolding a(3) by auto
  have e: "pool_end area = pool_start area + area_blocks area * 16" unfolding a(2-4) using le by simp
  have l: "length (alloc_table area) = alloc_table_byte_len area + 1" by (simp add: a(1,2))
  show "area_wf area"
    unfolding area_wf_def using l e m free f a(2) by auto
  show "search_ok area" unfolding search_ok_def using f a(5) by simp
qed

lemma gc_init_wf:
  assumes "start < end_ptr - end_ptr mod 16" "end_ptr < 2 ^ 32"
  shows "gc_wf (gc_init s start end_ptr)"
    "n \<in> gc_nodes (areas (gc_init s start end_ptr)) \<Longrightarrow> False"
    "start + (alloc_table_byte_len (areas (gc_init s start end_ptr) ! 0) + 1) \<le> pool_start (areas (gc_init s start end_ptr) ! 0)"
    "pool_end (areas (gc_init s start end_ptr) ! 0) \<le> end_ptr"
proof -
  define e where "e = end_ptr - end_ptr mod 16"
  define area where "area = gc_setup_area start e"
  have m: "e mod 16 = 0" unfolding e_def by (metis minus_mod_eq_mult_div mod_mult_self1_is_0)
  have le: "e < 2 ^ 32" using assms(2) by (simp add: e_def)
  note l = gc_setup_area_layout [OF assms(1) [folded e_def] le m area_def]
  have a: "areas (gc_init s start end_ptr) = [area]" "last_free_area (gc_init s start end_ptr) = 0"
    by (simp_all add: gc_init_def Let_def area_def e_def)
  show "gc_wf (gc_init s start end_ptr)"
    unfolding gc_wf_def a areas_wf_def using l by (auto simp: in_heap_def)
  show "n \<in> gc_nodes (areas (gc_init s start end_ptr)) \<Longrightarrow> False"
    unfolding a using l(5) by (auto simp: gc_nodes_def in_heap_def)
  show "start + (alloc_table_byte_len (areas (gc_init s start end_ptr) ! 0) + 1) \<le> pool_start (areas (gc_init s start end_ptr) ! 0)"
    "pool_end (areas (gc_init s start end_ptr) ! 0) \<le> end_ptr"
    unfolding a using l(1,2) by (simp_all add: e_def)
qed

lemma gc_add_wf:
  assumes "gc_wf s" "start + 28 < end_ptr - end_ptr mod 16" "end_ptr < 2 ^ 32"
    and "\<forall>area \<in> set (areas s). pool_end area \<le> start \<or> end_ptr \<le> pool_start area"
  shows "gc_wf (gc_add s start end_ptr)"
proof -
  define e where "e = end_ptr - end_ptr mod 16"
  define area where "area = gc_setup_area (start + 28) e"
  have m: "e mod 16 = 0" unfolding e_def by (metis minus_mod_eq_mult_div mod_mult_self1_is_0)
  have le: "e < 2 ^ 32" using assms(3) by (simp add: e_def)
  note l = gc_setup_area_layout [OF assms(2) [folded e_def] le m area_def]
  note w = gc_wfD [OF assms(1)]
  have a: "areas (gc_add s start end_ptr) = areas s @ [area]" "last_free_area (gc_add s start end_ptr) = last_free_area s"
    by (simp_all add: gc_add_def Let_def area_def e_def)
  have dis: "pool_end x \<le> pool_start area \<or> pool_end area \<le> pool_start x" if "x \<in> set (areas s)" for x
    using assms(4) that l(1,2) unfolding e_def by fastforce
  have "areas_wf (areas s @ [area])"
    using w(1) l(3) dis unfolding areas_wf_def by (auto simp: nth_append less_Suc_eq)
  moreover have h: "in_heap (areas s) n \<and> gc_kind (areas s @ [area]) n = gc_kind (areas s) n
      \<or> fst n = length (areas s) \<and> gc_kind (areas s @ [area]) n = AT_FREE" if "in_heap (areas s @ [area]) n" for n
    using that l(5) [of "snd n"] by (cases "fst n = length (areas s)") (auto simp: in_heap_def nth_append)
  have "gc_kind (areas s @ [area]) n \<noteq> AT_MARK" if "in_heap (areas s @ [area]) n" for n
    using h [OF that] w(7) [of n] by auto
  moreover have "gc_kind (areas s @ [area]) n \<noteq> AT_FREE" if "in_heap (areas s @ [area]) n" "fst n < last_free_area s" for n
    using h [OF that(1)] w(8) [of n] w(3) that(2) by auto
  moreover have "\<forall>x \<in> set (areas s @ [area]). search_ok x \<and> 0 < pool_start x"
    using assms(1) l(1,4) by (auto simp: gc_wf_def)
  ultimately show ?thesis unfolding gc_wf_def a using w(3) by auto
qed

section \<open>The collector as a state machine\<close>

text \<open>
  What the interpreter does with the heap.  It writes any words, frees and resizes only chains it
  holds, and unlocks what it has locked.
\<close>

inductive gc_step :: "gc_state \<Rightarrow> gc_state \<Rightarrow> bool" where
  alloc: "gc_alloc s roots n_bytes = Some (s', p) \<Longrightarrow> gc_step s s'"
| free: "gc_chain_at s p h \<Longrightarrow> gc_free s p = Some s' \<Longrightarrow> gc_step s s'"
| realloc: "gc_chain_at s p h \<Longrightarrow> h \<in> gc_live s roots \<Longrightarrow> n_bytes + 15 < 2 ^ 32 \<Longrightarrow>
    gc_realloc s roots p n_bytes move = Some (s', q) \<Longrightarrow> gc_step s s'"
| collect: "gc_collect s roots = Some s' \<Longrightarrow> gc_step s s'"
| lock: "lock_depth s < 65535 \<Longrightarrow> gc_step s (gc_lock s)"
| unlock: "gc_is_locked s \<Longrightarrow> gc_step s (gc_unlock s)"
| add: "start + 28 < end_ptr - end_ptr mod 16 \<Longrightarrow> end_ptr < 2 ^ 32 \<Longrightarrow>
    \<forall>area \<in> set (areas s). pool_end area \<le> start \<or> end_ptr \<le> pool_start area \<Longrightarrow> gc_step s (gc_add s start end_ptr)"
| mutate: "gc_step s (s\<lparr>memory := m\<rparr>)"

inductive_cases gc_stepE: "gc_step s s'"

inductive gc_run :: "gc_state \<Rightarrow> gc_state \<Rightarrow> bool" for s0 where
  start: "gc_run s0 s0"
| step: "gc_run s0 s \<Longrightarrow> gc_step s s' \<Longrightarrow> gc_run s0 s'"

definition gc_ok :: "gc_state \<Rightarrow> bool" where
  "gc_ok s \<longleftrightarrow> gc_wf s \<and> lock_depth s < 65536"

lemma gc_wf_lock_depth [simp]: "gc_wf (s\<lparr>lock_depth := d\<rparr>) \<longleftrightarrow> gc_wf s"
  by (simp add: gc_wf_def)

lemma gc_wf_memory [simp]: "gc_wf (s\<lparr>memory := m\<rparr>) \<longleftrightarrow> gc_wf s"
  by (simp add: gc_wf_def)

lemma gc_alloc_lock_depth:
  assumes "gc_wf s" "gc_alloc s roots n_bytes = Some (s', p)"
  shows "lock_depth s' = lock_depth s"
  using gc_alloc_correct [OF assms(1), of roots n_bytes] assms(2)
  by (auto simp: Let_def gc_collected_def gc_same_def gc_allocated_def split: if_splits)

lemma gc_free_ok:
  assumes "gc_ok s" "gc_chain_at s p h" "gc_free s p = Some s'"
  shows "gc_ok s'"
proof (cases "lock_depth s = 0")
  case True
  obtain ai b where h: "h = (ai, b)" by fastforce
  show ?thesis
    using gc_free_cleared [of s p ai b] True assms unfolding h by (auto simp: gc_ok_def gc_cleared_def)
next
  case False
  then show ?thesis using assms by (auto simp: gc_free_def)
qed

lemma gc_realloc_lock_depth:
  assumes "gc_wf s" "gc_chain_at s p h" "gc_realloc s roots p n_bytes move = Some (s', q)"
  shows "lock_depth s' = lock_depth s"
proof -
  obtain ai b where h: "h = (ai, b)" by fastforce
  note d = gc_chain_atD [OF assms(1) assms(2) [unfolded h]]
  have f: "lock_depth u' = lock_depth u" if "gc_free u r = Some u'" for u r u'
    using that by (auto simp: gc_free_def Let_def split: if_splits option.splits)
  show ?thesis
    using assms(3) d(3) gc_alloc_lock_depth [OF assms(1), of roots n_bytes] f [of s p]
    unfolding gc_realloc_def Let_def
    by (auto split: if_splits option.splits prod.splits dest!: f)
qed

lemma gc_step_ok:
  assumes "gc_step s s'" "gc_ok s"
  shows "gc_ok s'"
  using assms
proof (cases rule: gc_step.cases)
  case (alloc roots n_bytes p)
  then show ?thesis
    using assms(2) gc_alloc_correct [of s roots n_bytes] gc_alloc_lock_depth [of s roots n_bytes s' p] by (auto simp: gc_ok_def)
next
  case (free p h)
  then show ?thesis using gc_free_ok [OF assms(2)] by blast
next
  case (realloc p h roots n_bytes move q)
  obtain ai b where h: "h = (ai, b)" by fastforce
  have ld: "lock_depth s' = lock_depth s" using gc_realloc_lock_depth realloc(1,4) assms(2) by (auto simp: gc_ok_def)
  note d = gc_chain_atD [OF _ realloc(1) [unfolded h]]
  have w: "gc_wf s" using assms(2) by (simp add: gc_ok_def)
  consider "n_bytes = 0" | "n_bytes \<noteq> 0" "0 < lock_depth s" | "0 < n_bytes" "lock_depth s = 0" by blast
  then show ?thesis
  proof cases
    case 1
    then show ?thesis using realloc(4) d(3) [OF w] gc_free_ok [OF assms(2) realloc(1)] by (auto simp: gc_realloc_def)
  next
    case 2
    then show ?thesis using realloc(4) d(3) [OF w] assms(2) by (simp add: gc_realloc_def)
  next
    case 3
    then show ?thesis
      using gc_realloc_correct [OF w 3(2) realloc(1) [unfolded h] realloc(2) [unfolded h] 3(1) realloc(3), of move] realloc(4) ld
      by (auto simp: gc_ok_def gc_realloc_post_def)
  qed
next
  case (collect roots)
  then show ?thesis using gc_collect_correct [of s roots] assms(2) by (auto simp: gc_ok_def gc_collected_def)
next
  case lock
  then show ?thesis using assms(2) by (simp add: gc_ok_def gc_lock_def)
next
  case unlock
  then show ?thesis using assms(2) by (simp add: gc_ok_def gc_unlock_def)
next
  case (add start end_ptr)
  then show ?thesis using gc_add_wf [of s start end_ptr] assms(2) by (auto simp: gc_ok_def gc_add_def Let_def)
next
  case (mutate m)
  then show ?thesis using assms(2) by (simp add: gc_ok_def)
qed

section \<open>A small heap\<close>

text \<open>
  Eight blocks from address 32 on: a chain of two blocks that holds a pointer to a second chain, and a
  third chain that nothing points to.
\<close>

definition small_area :: gc_area where
  "small_area = \<lparr>alloc_table = [0x19, 0x01, 0], alloc_table_byte_len = 2, pool_start = 32, pool_end = 160,
     last_free_atb_index = 0, last_used_block = 4\<rparr>"

definition small_heap :: gc_state where
  "small_heap = \<lparr>areas = [small_area], last_free_area = 0, lock_depth = 0, auto_collect_enabled = True,
     alloc_threshold = 4294967295, alloc_amount = 0, memory = (\<lambda>a. if a = 36 then 64 else 0)\<rparr>"

lemma small_kinds:
  "map (atb_get_kind (alloc_table small_area)) [0 ..< 12] =
     [AT_HEAD, AT_TAIL, AT_HEAD, 0, AT_HEAD, 0, 0, 0, 0, 0, 0, 0]"
  by code_simp

lemma small_kind:
  "b < 12 \<Longrightarrow> atb_get_kind (alloc_table small_area) b = [AT_HEAD, AT_TAIL, AT_HEAD, 0, AT_HEAD, 0, 0, 0, 0, 0, 0, 0] ! b"
  using arg_cong [OF small_kinds, of "\<lambda>xs. xs ! b"] by simp

lemma less_8_cases: "b < 8 \<Longrightarrow> b = 0 \<or> b = 1 \<or> b = 2 \<or> b = 3 \<or> b = 4 \<or> b = 5 \<or> b = 6 \<or> b = (7 :: nat)"
  by linarith

lemma small_blocks: "area_blocks small_area = 8" "length (alloc_table small_area) = 3" "pool_start small_area = 32"
  "pool_end small_area = 160" "last_free_atb_index small_area = 0" "last_used_block small_area = 4" "alloc_table_byte_len small_area = 2"
  by (simp_all add: small_area_def)

lemma small_heap_simps: "areas small_heap = [small_area]" "last_free_area small_heap = 0" "lock_depth small_heap = 0"
  "auto_collect_enabled small_heap" "memory small_heap = (\<lambda>a. if a = 36 then 64 else 0)"
  by (simp_all add: small_heap_def)

lemma small_area_wf: "area_wf small_area" "search_ok small_area"
proof -
  have "atb_get_kind (alloc_table small_area) b = AT_FREE" if "8 \<le> b" "b < 12" for b
  proof -
    have "b = 8 \<or> b = 9 \<or> b = 10 \<or> b = 11" using that by linarith
    then show ?thesis using small_kind [of b] that by (elim disjE) simp_all
  qed
  moreover have "0 < b \<and> atb_get_kind (alloc_table small_area) (b - 1) \<noteq> AT_FREE"
    if "b < 8" "atb_get_kind (alloc_table small_area) b = AT_TAIL" for b
    using less_8_cases [OF that(1)] that(2) small_kind [of b] small_kind [of "b - 1"] by (elim disjE) simp_all
  ultimately show "area_wf small_area" unfolding area_wf_def by (simp add: small_blocks)
  have "b \<le> 4" if "b < 8" "atb_get_kind (alloc_table small_area) b \<noteq> AT_FREE" for b
    using less_8_cases [OF that(1)] that(2) small_kind [of b] by (elim disjE) simp_all
  then show "search_ok small_area" unfolding search_ok_def by (simp add: small_blocks)
qed

lemma small_heap_wf: "gc_wf small_heap"
proof -
  have "gc_kind [small_area] n \<noteq> AT_MARK" if "in_heap [small_area] n" for n
  proof -
    have n: "fst n = 0" "snd n < 8" using that by (auto simp: in_heap_def small_blocks)
    show ?thesis using less_8_cases [OF n(2)] small_kind [of "snd n"] n by (elim disjE) simp_all
  qed
  then show ?thesis
    unfolding gc_wf_def small_heap_simps areas_wf_def using small_area_wf by (simp add: small_blocks)
qed

lemma small_chain: "gc_chain_at small_heap 32 (0, 0)" "gc_chain_at small_heap 64 (0, 2)"
  using small_kind [of 0] small_kind [of 2]
  by (simp_all add: gc_chain_at_def gc_nodes_def in_heap_def small_heap_simps small_blocks ptr_from_block_def)

lemma small_target: "gc_target [small_area] 32 = Some (0, 0)"
  by (simp add: gc_target_def gc_get_ptr_area_def small_blocks block_from_ptr_def)

lemma small_live: "(0, 0) \<in> gc_live small_heap ([32], [])"
  unfolding gc_live_def
  using small_chain(1) small_target
  by (intro gc_reachable.root) (auto simp: gc_pointees_def gc_chain_at_def small_heap_simps)

lemma small_n_blocks: "gc_n_blocks (alloc_table small_area) 0 = 2"
  by (rule gc_n_blocks_unique) (use small_kind [of 1] small_kind [of 2] in \<open>auto simp: small_blocks less_Suc_eq numeral_eq_Suc\<close>)

section \<open>Properties\<close>

text \<open>
  C8: A collection with any roots ends and frees exactly the blocks whose chain is not reachable from
  the roots, although its mark stack is bounded; it changes neither the memory nor the lock depth, and
  leaves a well-formed heap.
\<close>

theorem gc_collect_frees_unreachable:
  assumes "gc_wf s" "lock_depth s < 65536"
  shows "\<exists>s'. gc_collect s roots = Some s' \<and> gc_wf s' \<and> memory s' = memory s \<and> lock_depth s' = lock_depth s
    \<and> (\<forall>n. in_heap (areas s) n \<longrightarrow>
         gc_kind (areas s') n = (if gc_head (areas s) n \<in> gc_live s roots then gc_kind (areas s) n else AT_FREE))"
  using gc_collect_correct [OF assms, of roots] by (auto simp: gc_collected_def)

theorem gc_collect_frees_unreachable_witness:
  "\<exists>s'. gc_collect small_heap ([32], []) = Some s' \<and> memory s' = memory small_heap \<and> gc_kind (areas s') (0, 1) = AT_TAIL"
proof -
  have "gc_head (areas small_heap) (0, 1) = (0, 0)" "in_heap (areas small_heap) (0, 1)"
    "gc_kind (areas small_heap) (0, 1) = AT_TAIL"
    using small_kind [of 1] by (simp_all add: gc_head_def small_heap_simps in_heap_def small_blocks)
  then show ?thesis
    using gc_collect_frees_unreachable [OF small_heap_wf, of "([32], [])"] small_live by (auto simp: small_heap_simps(3))
qed

text \<open>
  C9: \<open>gc_alloc\<close> always returns.  It returns null for an empty request, for a locked heap and when
  no area has a long enough run of free blocks even after a collection; otherwise the chain it returns
  was free in the heap, before or after a collection, and its memory is cleared.
\<close>

theorem gc_alloc_contract:
  assumes "gc_wf s"
  shows "\<exists>s' p. gc_alloc s roots n_bytes = Some (s', p) \<and> gc_wf s' \<and>
    (let N = u32 (n_bytes + 15) div 16
     in if N = 0 \<or> gc_is_locked s then s' = s \<and> p = 0
        else if p = 0
        then \<exists>s0. (s0 = s \<and> \<not> auto_collect_enabled s \<or> gc_collected s roots s0) \<and> gc_wf s0 \<and> gc_same s0 s'
               \<and> (\<forall>area \<in> set (areas s0). no_run area N)
        else \<exists>s0. (s0 = s \<or> gc_collected s roots s0) \<and> gc_wf s0 \<and> gc_allocated s0 N s' p)"
  by (rule gc_alloc_correct [OF assms])

theorem gc_alloc_contract_witness:
  "\<exists>s' p. gc_alloc small_heap ([32], []) 0 = Some (s', p) \<and> s' = small_heap \<and> p = 0"
  using gc_alloc_contract [OF small_heap_wf, of "([32], [])" 0] by (simp add: u32_def)

text \<open>
  C10: After a successful allocation the size of the chain is the request rounded up to blocks, and
  freeing it gives the blocks back: every block has its kind from before the allocation.
\<close>

theorem gc_alloc_free_roundtrip:
  assumes "gc_wf s" "gc_wf s'" "lock_depth s = 0" "0 < N" "gc_allocated s N s' p"
  shows "gc_nbytes s' p = N * BYTES_PER_BLOCK
    \<and> (\<exists>s''. gc_free s' p = Some s'' \<and> gc_wf s'' \<and> (\<forall>n. in_heap (areas s) n \<longrightarrow> gc_kind (areas s'') n = gc_kind (areas s) n))"
proof -
  obtain aj b where a: "aj < length (areas s)" "b + N \<le> area_blocks (areas s ! aj)" "gc_chain_at s' p (aj, b)"
    "free_run_at (alloc_table (areas s ! aj)) b N" "gc_n_blocks (alloc_table (areas s' ! aj)) b = N"
    "\<forall>n. in_heap (areas s) n \<and> \<not> (fst n = aj \<and> b \<le> snd n \<and> snd n < b + N) \<longrightarrow> gc_kind (areas s') n = gc_kind (areas s) n"
    using gc_allocated_chain [OF assms(1,2,5,4)] by blast
  have l: "lock_depth s' = 0" "same_layout (areas s) (areas s')" using assms(3,5) by (auto simp: gc_allocated_def)
  obtain s'' where f: "gc_free s' p = Some s''" "gc_wf s''" "gc_cleared s' aj b (b + N) s''"
    using gc_free_cleared [OF assms(2) l(1) a(3)] a(5) by auto
  have "gc_kind (areas s'') n = gc_kind (areas s) n" if "in_heap (areas s) n" for n
    using f(3) a(4,6) that same_layoutD(2) [OF l(2), of n]
    by (cases "fst n = aj \<and> b \<le> snd n \<and> snd n < b + N") (auto simp: gc_cleared_def free_run_at_def)
  moreover have "gc_nbytes s' p = N * BYTES_PER_BLOCK" using gc_nbytes_chain [OF assms(2) a(3)] a(5) by simp
  ultimately show ?thesis using f(1,2) by blast
qed

definition small_alloc :: gc_state where
  "small_alloc = fst (gc_take_run small_heap 0 3 1 1)"

lemma small_alloc_ok: "gc_wf small_alloc" "gc_allocated small_heap 1 small_alloc 80"
proof -
  have p: "snd (gc_take_run small_heap 0 3 1 1) = 80"
    by (simp add: gc_take_run_def small_heap_simps small_blocks Let_def)
  then have e: "gc_take_run small_heap 0 3 1 1 = (small_alloc, 80)" by (simp add: small_alloc_def prod_eq_iff)
  have k: "atb_get_kind (alloc_table small_area) b = [AT_HEAD, AT_TAIL, AT_HEAD, 0] ! b" if "b < 4" for b
  proof -
    have "b = 0 \<or> b = 1 \<or> b = 2 \<or> b = 3" using that by linarith
    then show ?thesis using small_kind [of b] by (elim disjE) simp_all
  qed
  have "\<forall>c < 3. atb_get_kind (alloc_table small_area) c \<noteq> AT_FREE"
  proof (intro allI impI)
    fix c :: nat
    assume "c < 3"
    then have "c = 0 \<or> c = 1 \<or> c = 2" by linarith
    then show "atb_get_kind (alloc_table small_area) c \<noteq> AT_FREE" using k [of c] by (elim disjE) simp_all
  qed
  moreover have "\<forall>c. 3 \<le> c \<and> c < 4 \<longrightarrow> atb_get_kind (alloc_table small_area) c = AT_FREE"
  proof (intro allI impI)
    fix c :: nat
    assume "3 \<le> c \<and> c < 4"
    then have "c = 3" by linarith
    then show "atb_get_kind (alloc_table small_area) c = AT_FREE" using k [of 3] by simp
  qed
  ultimately show "gc_wf small_alloc" "gc_allocated small_heap 1 small_alloc 80"
    using gc_take_run_correct [OF small_heap_wf _ _ _ _ _ _ _ e]
    by (simp_all add: small_heap_simps small_blocks free_run_at_def in_heap_def)
qed

theorem gc_alloc_free_roundtrip_witness:
  "gc_nbytes small_alloc 80 = 16
    \<and> (\<exists>s''. gc_free small_alloc 80 = Some s'' \<and> gc_wf s''
        \<and> (\<forall>n. in_heap (areas small_heap) n \<longrightarrow> gc_kind (areas s'') n = gc_kind (areas small_heap) n))"
  using gc_alloc_free_roundtrip [OF small_heap_wf small_alloc_ok(1) _ _ small_alloc_ok(2)] by (simp add: small_heap_simps)

text \<open>
  C11: Freeing the pointer of a chain frees exactly the blocks of the chain.
\<close>

theorem gc_free_whole_chain:
  assumes "gc_wf s" "lock_depth s = 0" "gc_chain_at s p h"
  shows "\<exists>s'. gc_free s p = Some s' \<and> gc_wf s' \<and> memory s' = memory s
    \<and> (\<forall>n. in_heap (areas s) n \<longrightarrow> gc_kind (areas s') n = (if gc_head (areas s) n = h then AT_FREE else gc_kind (areas s) n))"
proof -
  obtain ai b where h: "h = (ai, b)" by fastforce
  note d = gc_chain_atD [OF assms(1) assms(3) [unfolded h]]
  obtain s' where s': "gc_free s p = Some s'" "gc_wf s'" "gc_cleared s ai b (b + gc_n_blocks (alloc_table (areas s ! ai)) b) s'"
    using gc_free_cleared [OF assms(1,2) assms(3) [unfolded h]] by blast
  have "gc_head (areas s) n = h \<longleftrightarrow> fst n = ai \<and> b \<le> snd n \<and> snd n < b + gc_n_blocks (alloc_table (areas s ! ai)) b" for n
    using chain_head_iff [OF gc_wfD(4) [OF assms(1) d(4)] d(5), of "snd n"] d(6) by (auto simp: gc_head_def h)
  then show ?thesis using s' by (auto simp: gc_cleared_def)
qed

theorem gc_free_whole_chain_witness:
  "\<exists>s'. gc_free small_heap 32 = Some s' \<and> gc_kind (areas s') (0, 1) = AT_FREE"
proof -
  have "gc_head (areas small_heap) (0, 1) = (0, 0)" "in_heap (areas small_heap) (0, 1)"
    using small_kind [of 1] by (simp_all add: gc_head_def small_heap_simps in_heap_def small_blocks)
  then show ?thesis using gc_free_whole_chain [OF small_heap_wf _ small_chain(1)] by (auto simp: small_heap_simps(3))
qed

text \<open>
  C12: Resizing a live chain returns null and leaves the chain as it is, or returns a chain of the new
  size with the contents of the old one up to the smaller of both sizes; every other live chain keeps
  its blocks and its contents, also when the allocation of the new chain collects garbage.
\<close>

theorem gc_realloc_contract:
  assumes "gc_wf s" "lock_depth s = 0" "gc_chain_at s p h" "h \<in> gc_live s roots" "0 < n_bytes" "n_bytes + 15 < 2 ^ 32"
  shows "\<exists>s' q. gc_realloc s roots p n_bytes allow_move = Some (s', q) \<and> gc_wf s'
    \<and> (\<forall>h' \<in> gc_live s roots. h' \<noteq> h \<longrightarrow> chain_kept s s' h')
    \<and> (if q = 0 then chain_kept s s' h
       else gc_nbytes s' q = (n_bytes + 15) div 16 * BYTES_PER_BLOCK
         \<and> (\<forall>i < min (gc_nbytes s p) ((n_bytes + 15) div 16 * BYTES_PER_BLOCK). memory s' (q + i) = memory s (p + i)))"
proof -
  obtain ai b where h: "h = (ai, b)" by fastforce
  show ?thesis
    using gc_realloc_correct [OF assms(1,2) assms(3,4) [unfolded h] assms(5,6), of allow_move]
    unfolding gc_realloc_post_def h by blast
qed

theorem gc_realloc_contract_witness:
  "\<exists>s' q. gc_realloc small_heap ([32], []) 32 17 True = Some (s', q)
    \<and> (if q = 0 then chain_kept small_heap s' (0, 0) else gc_nbytes s' q = 32)"
proof -
  obtain s' q where r: "gc_realloc small_heap ([32], []) 32 17 True = Some (s', q)"
    "if q = 0 then chain_kept small_heap s' (0, 0)
     else gc_nbytes s' q = (17 + 15) div 16 * BYTES_PER_BLOCK
         \<and> (\<forall>i < min (gc_nbytes small_heap 32) ((17 + 15) div 16 * BYTES_PER_BLOCK). memory s' (q + i) = memory small_heap (32 + i))"
    using gc_realloc_contract [OF small_heap_wf small_heap_simps(3) small_chain(1) small_live, of 17 True] by auto
  then have "if q = 0 then chain_kept small_heap s' (0, 0) else gc_nbytes s' q = 32" by (cases "q = 0") simp_all
  then show ?thesis using r(1) by blast
qed

text \<open>
  For a request within 15 bytes of the largest number, the number of new blocks wraps around to
  0: \<open>gc_realloc\<close> frees the chain and still returns its pointer.
\<close>

theorem gc_realloc_overflow:
  assumes "gc_wf s" "lock_depth s = 0" "gc_chain_at s p h" "2 ^ 32 \<le> n_bytes + 15" "n_bytes < 2 ^ 32"
  shows "\<exists>s'. gc_realloc s roots p n_bytes allow_move = Some (s', p) \<and> gc_nbytes s' p = 0"
proof -
  obtain ai b where h: "h = (ai, b)" by fastforce
  note d = gc_chain_atD [OF assms(1) assms(3) [unfolded h]]
  note w = gc_wfD(4) [OF assms(1) d(4)]
  let ?area = "areas s ! ai" and ?tab = "alloc_table (areas s ! ai)"
  have new: "u32 (n_bytes + 16 - 1) div 16 = 0"
  proof -
    have a: "4294967296 \<le> n_bytes + 15" "n_bytes < 4294967296" using assms(4,5) by simp_all
    obtain k where "k = n_bytes - 4294967281" by blast
    then have k: "n_bytes + 16 - 1 = k + 2 ^ 32" "k < 15" using a by simp_all
    show ?thesis unfolding k(1) u32_def mod_add_self2 using k(2) by simp
  qed
  obtain n f where sc: "gc_realloc_scan [b + 1 ..< area_blocks ?area] ?tab 0 1 0 = (n, f)" by fastforce
  note r = gc_realloc_scan_chain(1) [OF w d(5) sc]
  note g = gc_n_blocks_bound [OF w d(5), folded r]
  define x where "x = (if (b + 0) div 4 < last_free_atb_index ?area then (b + 0) div 4 else last_free_atb_index ?area)"
  define t' where "t' = foldl atb_any_to_free ?tab [b ..< b + n]"
  define s' where "s' = s\<lparr>areas := (areas s)[ai := ?area\<lparr>last_free_atb_index := x, alloc_table := t'\<rparr>],
      last_free_area := (if last_free_area s \<noteq> ai then 0 else last_free_area s)\<rparr>"
  have x: "x = (if b div 4 < last_free_atb_index ?area then b div 4 else last_free_atb_index ?area)" by (simp add: x_def)
  have comm: "?area\<lparr>alloc_table := y, last_free_atb_index := z\<rparr> = ?area\<lparr>last_free_atb_index := z, alloc_table := y\<rparr>" for y z
    by simp
  have guards: "n_bytes \<noteq> 0" "\<not> 0 < lock_depth s" "\<not> atb_get_kind ?tab b \<noteq> AT_HEAD"
    using assms(2,4) d(6) by auto
  note pre = gc_realloc_def [of s roots p n_bytes allow_move, unfolded if_not_P [OF d(3)] d(1) option.case Let_def d(2), unfolded new sc prod.case]
  note run = pre [unfolded if_not_P [OF guards(1)] if_not_P [OF guards(2)] if_not_P [OF guards(3)]]
  have res: "gc_realloc s roots p n_bytes allow_move = Some (s', p)"
    unfolding run s'_def t'_def x_def using g(3) by (simp add: comm)
  note c = gc_cleared_correct [OF assms(1) d(4) le_add1 g(1,2) t'_def x s'_def]
  have "gc_kind (areas s') (ai, b) = AT_FREE" using c(2) d(7) g(3) by (auto simp: gc_cleared_def)
  moreover have lay: "same_layout (areas s) (areas s')" using c(2) by (simp add: gc_cleared_def)
  then have "gc_get_ptr_area (areas s') p = Some ai" using same_layoutD(3) [OF lay] d(1) by simp
  moreover have "block_from_ptr (areas s' ! ai) p = b"
    using same_layoutD(4) [OF lay d(4)] d(2) by (simp add: block_from_ptr_def)
  ultimately have "gc_nbytes s' p = 0" by (simp add: gc_nbytes_def Let_def)
  then show ?thesis using res by blast
qed

theorem gc_realloc_overflow_witness:
  "\<exists>s'. gc_realloc small_heap ([32], []) 32 4294967290 True = Some (s', 32) \<and> gc_nbytes s' 32 = 0"
  using gc_realloc_overflow [OF small_heap_wf _ small_chain(1), of 4294967290] by (simp add: small_heap_simps)

text \<open>
  C13: \<open>gc_init\<close> lays the table out before the pool, inside of the memory it is given, and gives a
  well-formed heap, which every sequence of allocations, releases, collections, locks, added areas and
  writes keeps well-formed.
\<close>

theorem gc_invariant:
  assumes "start < end_ptr - end_ptr mod 16" "end_ptr < 2 ^ 32" "gc_run (gc_init s0 start end_ptr) s"
  shows "start + (alloc_table_byte_len (areas (gc_init s0 start end_ptr) ! 0) + 1) \<le> pool_start (areas (gc_init s0 start end_ptr) ! 0)
    \<and> pool_end (areas (gc_init s0 start end_ptr) ! 0) \<le> end_ptr \<and> gc_wf s \<and> lock_depth s < 65536"
proof -
  have "gc_ok (gc_init s0 start end_ptr)" using gc_init_wf(1) [OF assms(1,2)] by (simp add: gc_ok_def gc_init_def Let_def)
  with assms(3) have "gc_ok s" by (induction rule: gc_run.induct) (auto intro: gc_step_ok)
  then show ?thesis using gc_init_wf(3,4) [OF assms(1,2)] by (simp add: gc_ok_def)
qed

theorem gc_invariant_witness:
  "gc_wf (gc_lock (gc_init small_heap 15 163))"
proof -
  have "gc_run (gc_init small_heap 15 163) (gc_lock (gc_init small_heap 15 163))"
    by (intro gc_run.step [OF gc_run.start] gc_step.lock) (simp add: gc_init_def Let_def)
  then show ?thesis using gc_invariant [of 15 163 small_heap "gc_lock (gc_init small_heap 15 163)"] by simp
qed

text \<open>
  The scan of the allocation table byte by byte, with masks, finds what a scan block by block finds.
\<close>

theorem gc_scan_equivalence:
  assumes "e \<le> length t"
  shows "gc_scan_table [i ..< e] t n_blocks n_free = fst (scan_blocks [4 * i ..< 4 * e] t n_blocks n_free)"
  by (rule gc_scan_table_blocks [OF assms])

theorem gc_scan_equivalence_witness:
  "gc_scan_table [0 ..< 2] [0x19, 0x01, 0] 2 0 = Some (6, 2)
    \<and> fst (scan_blocks [0 ..< 8] [0x19, 0x01, 0] 2 0) = Some (6, 2)"
proof -
  have "gc_scan_table [0 ..< 2] [0x19, 0x01, 0] 2 0 = Some (6, 2)" by code_simp
  then show ?thesis using gc_scan_equivalence [of 2 "[0x19, 0x01, 0]" 0 2 0] by simp
qed

text \<open>
  \<open>gc_info\<close> counts the used and the free bytes of the heap, and its longest free run decides
  whether a request for a number of blocks can be served without a collection.
\<close>

theorem gc_info_counts:
  assumes "gc_wf s" "\<forall>area \<in> set (areas s). 0 < area_blocks area"
  shows "\<exists>info. gc_info s = Some info
    \<and> info_total info = sum_list (map (\<lambda>area. area_blocks area * BYTES_PER_BLOCK) (areas s))
    \<and> info_used info = BYTES_PER_BLOCK * blocks_of (areas s) (\<lambda>k. k \<noteq> AT_FREE)
    \<and> info_free info = BYTES_PER_BLOCK * blocks_of (areas s) (\<lambda>k. k = AT_FREE)
    \<and> (\<forall>N > 0. N \<le> info_max_free info \<longleftrightarrow> some_run (areas s) N)"
  by (rule gc_info_correct [OF assms])

theorem gc_info_counts_witness:
  "\<exists>info. gc_info small_heap = Some info \<and> info_total info = 128"
  using gc_info_counts [OF small_heap_wf] by (auto simp: small_heap_simps small_blocks)

end
