(* ===== verification/HashTable.thy ===== *)
theory HashTable
  imports MP_Prelude
begin

text \<open>
  The open-addressing tables that the dictionaries and sets of \<^verbatim>\<open>py/map.c\<close> share: the sizes, the search
  along the probe sequence, the insertion at the first available slot and the deletion that leaves a
  sentinel.  The laws of the keys, an equality that the hash respects, are a locale; the tables are
  proved correct in it once for dictionaries and sets.
\<close>

section \<open>Tables\<close>

datatype 'o slot = Null | Sentinel | Key 'o

text \<open>The first sizes grow by 2, the later ones are primes.\<close>

definition hash_allocation_sizes :: "nat list" where
  "hash_allocation_sizes =
     [0, 2, 4, 6, 8, 10, 12, 17, 23, 29, 37, 47, 59, 73, 97, 127, 167, 223, 293, 389, 521, 691, 919, 1223,
      1627, 2161, 3229, 4831, 7243, 10861, 16273, 24407, 36607, 54907]"

fun first_size :: "nat list \<Rightarrow> nat \<Rightarrow> nat" where
  "first_size [] x = or (x + x div 2) 1"
| "first_size (s # ss) x = (if s \<ge> x then s else first_size ss x)"

definition get_hash_alloc_greater_or_equal_to :: "nat \<Rightarrow> nat" where
  "get_hash_alloc_greater_or_equal_to x = first_size hash_allocation_sizes x"

text \<open>The positions of the search loop, from the start position once around the table.\<close>

definition probe_seq :: "nat \<Rightarrow> nat \<Rightarrow> nat list" where
  "probe_seq n start = map (\<lambda>i. (start + i) mod n) [0 ..< n]"

text \<open>
  How the search loop ends: at the slot of the key, at a null slot, or back at its start; with the
  first deleted slot on its way.
\<close>

datatype probe_result = Found nat | Empty nat "nat option" | Wrapped "nat option"

fun probe :: "('o \<Rightarrow> bool) \<Rightarrow> 'o slot list \<Rightarrow> nat list \<Rightarrow> nat option \<Rightarrow> probe_result" where
  "probe is_index table [] avail_slot = Wrapped avail_slot"
| "probe is_index table (pos # ps) avail_slot =
     (case table ! pos of
        Null \<Rightarrow> Empty pos avail_slot
      | Sentinel \<Rightarrow> probe is_index table ps (if avail_slot = None then Some pos else avail_slot)
      | Key k \<Rightarrow> if is_index k then Found pos else probe is_index table ps avail_slot)"

text \<open>What the deletion writes into a slot.\<close>

definition deleted_slot :: "'o slot list \<Rightarrow> nat \<Rightarrow> 'o slot" where
  "deleted_slot table pos = (if table ! ((pos + 1) mod length table) = Null then Null else Sentinel)"

lemma get_hash_alloc_ge: "x \<le> get_hash_alloc_greater_or_equal_to x"
proof -
  have "x \<le> first_size ss x" for ss :: "nat list"
  proof (induction ss)
    case Nil
    show ?case by (simp add: or_Suc_0_eq)
  qed simp
  then show ?thesis by (simp add: get_hash_alloc_greater_or_equal_to_def)
qed

lemma probe_positions:
  fixes p :: nat
  assumes "p < n"
  shows "\<exists>i < n. p = (h + i) mod n"
proof (intro exI [of _ "(p + (n - h mod n)) mod n"] conjI)
  show "(p + (n - h mod n)) mod n < n" using assms by simp
  have "(h + (p + (n - h mod n)) mod n) mod n = (h mod n + (p + (n - h mod n))) mod n"
    by (simp add: mod_simps)
  also have "h mod n + (p + (n - h mod n)) = p + n"
  proof -
    have "h mod n < n" using assms by simp
    then show ?thesis by linarith
  qed
  finally show "p = (h + (p + (n - h mod n)) mod n) mod n" using assms by simp
qed

section \<open>Keys\<close>

locale hash_keys =
  fixes eq :: "'o \<Rightarrow> 'o \<Rightarrow> bool" and hash :: "'o \<Rightarrow> nat"
  assumes eq_refl: "eq k k" and eq_sym: "eq k l \<Longrightarrow> eq l k" and eq_trans: "eq k l \<Longrightarrow> eq l m \<Longrightarrow> eq k m"
    and eq_hash: "eq k l \<Longrightarrow> hash k = hash l"

definition slot_reached :: "nat \<Rightarrow> 'o slot list \<Rightarrow> nat \<Rightarrow> bool" where
  "slot_reached h table p \<longleftrightarrow>
     (\<exists>j < length table. p = (h + j) mod length table \<and> (\<forall>i < j. table ! ((h + i) mod length table) \<noteq> Null))"

text \<open>A search for a key in the table reaches its slot, and no two slots hold equal keys.\<close>

definition table_ok :: "('o \<Rightarrow> 'o \<Rightarrow> bool) \<Rightarrow> ('o \<Rightarrow> nat) \<Rightarrow> 'o slot list \<Rightarrow> bool" where
  "table_ok eq hash table \<longleftrightarrow>
     (\<forall>p < length table. \<forall>k. table ! p = Key k \<longrightarrow> slot_reached (hash k) table p)
     \<and> (\<forall>p < length table. \<forall>q < length table. \<forall>k l. table ! p = Key k \<and> table ! q = Key l \<and> eq k l \<longrightarrow> p = q)"

definition has_key :: "('o \<Rightarrow> 'o \<Rightarrow> bool) \<Rightarrow> 'o slot list \<Rightarrow> 'o \<Rightarrow> bool" where
  "has_key eq table k \<longleftrightarrow> (\<exists>p < length table. \<exists>l. table ! p = Key l \<and> eq l k)"

definition filled :: "'o slot list \<Rightarrow> nat" where
  "filled table = length (filter (\<lambda>s. s \<noteq> Null \<and> s \<noteq> Sentinel) table)"

text \<open>What the search has seen before step \<open>j\<close>.\<close>

definition probed :: "('o \<Rightarrow> bool) \<Rightarrow> 'o slot list \<Rightarrow> nat \<Rightarrow> nat \<Rightarrow> nat option \<Rightarrow> bool" where
  "probed is_index table start j avail \<longleftrightarrow>
     (\<forall>i < j. let s = table ! ((start + i) mod length table) in s \<noteq> Null \<and> (\<forall>k. s = Key k \<longrightarrow> \<not> is_index k))
     \<and> (case avail of
          None \<Rightarrow> \<forall>i < j. table ! ((start + i) mod length table) \<noteq> Sentinel
        | Some a \<Rightarrow> \<exists>i < j. a = (start + i) mod length table \<and> table ! a = Sentinel)"

lemma probe_cases:
  assumes "j \<le> length table" "probed is_index table start j avail" "n = length table"
  shows "case probe is_index table (map (\<lambda>i. (start + i) mod n) [j ..< n]) avail of
      Found p \<Rightarrow> \<exists>i < n. \<exists>k. p = (start + i) mod n \<and> table ! p = Key k \<and> is_index k
    | Empty p avail' \<Rightarrow> \<exists>i < n. p = (start + i) mod n \<and> table ! p = Null \<and> probed is_index table start i avail'
    | Wrapped avail' \<Rightarrow> probed is_index table start n avail'"
  using assms(1,2)
proof (induction "n - j" arbitrary: j avail)
  case 0
  then show ?case using assms(3) by simp
next
  case (Suc m)
  then have j: "j < n" and up: "[j ..< n] = j # [Suc j ..< n]" and m: "m = n - Suc j" by (auto simp: upt_conv_Cons)
  let ?p = "(start + j) mod n"
  have le: "Suc j \<le> length table" using j assms(3) by simp
  show ?case
  proof (cases "table ! ?p")
    case Null
    then show ?thesis using j Suc.prems(2) up by auto
  next
    case Sentinel
    let ?a = "if avail = None then Some ?p else avail"
    have "probed is_index table start (Suc j) ?a"
      using Suc.prems(2) Sentinel assms(3) unfolding probed_def
      by (cases avail) (auto simp: less_Suc_eq Let_def)
    then show ?thesis using Suc.hyps(1) [OF m le] Sentinel up by simp
  next
    case (Key k)
    show ?thesis
    proof (cases "is_index k")
      case True
      then show ?thesis using Key up j by auto
    next
      case False
      have "probed is_index table start (Suc j) avail"
        using Suc.prems(2) Key False assms(3) unfolding probed_def
        by (cases avail) (auto simp: less_Suc_eq Let_def)
      then show ?thesis using Suc.hyps(1) [OF m le] Key False up by simp
    qed
  qed
qed

lemma probe_seq_cases:
  assumes "n = length table"
  shows "case probe is_index table (probe_seq n start) None of
      Found p \<Rightarrow> \<exists>i < n. \<exists>k. p = (start + i) mod n \<and> table ! p = Key k \<and> is_index k
    | Empty p avail' \<Rightarrow> \<exists>i < n. p = (start + i) mod n \<and> table ! p = Null \<and> probed is_index table start i avail'
    | Wrapped avail' \<Rightarrow> probed is_index table start n avail'"
  using probe_cases [of 0 table is_index start None n] assms by (simp add: probe_seq_def probed_def)

text \<open>A slot that a search for the hash reaches and that holds no key.\<close>

definition free_slot :: "nat \<Rightarrow> 'o slot list \<Rightarrow> nat \<Rightarrow> bool" where
  "free_slot h table q \<longleftrightarrow> q < length table \<and> (\<forall>l. table ! q \<noteq> Key l) \<and> slot_reached h table q"

lemma probe_cong:
  assumes "\<And>p l. p \<in> set ps \<Longrightarrow> table ! p = Key l \<Longrightarrow> f l \<longleftrightarrow> g l"
  shows "probe f table ps a = probe g table ps a"
  using assms
proof (induction ps arbitrary: a)
  case (Cons pos ps)
  have "probe f table ps b = probe g table ps b" for b using Cons.prems by (intro Cons.IH) auto
  then show ?case using Cons.prems [of pos] by (simp split: slot.splits)
qed simp

lemma probe_seq_less: "p \<in> set (probe_seq n s) \<Longrightarrow> p < n"
  by (auto simp: probe_seq_def)

context hash_keys
begin

text \<open>A search that ends at a null slot or comes around shows that the key is not there.\<close>

lemma probed_missing:
  assumes "table_ok eq hash table" "n = length table" "\<And>l. is_index l \<longleftrightarrow> eq l k"
    and "probed is_index table (hash k) j avail" "j = n \<or> j < n \<and> table ! ((hash k + j) mod n) = Null"
  shows "\<not> has_key eq table k"
proof
  assume "has_key eq table k"
  then obtain p l where p: "p < n" "table ! p = Key l" "eq l k" using assms(2) by (auto simp: has_key_def)
  then obtain i where i: "i < n" "p = (hash k + i) mod n" "\<forall>i' < i. table ! ((hash k + i') mod n) \<noteq> Null"
  proof -
    have "slot_reached (hash l) table p" using assms(1,2) p(1,2) by (simp add: table_ok_def)
    then show thesis using that eq_hash [OF p(3)] assms(2) by (auto simp: slot_reached_def)
  qed
  have "\<not> j < i" using assms(5) i(1,3) by auto
  moreover have "j \<noteq> i" using assms(5) i(1,2) p(2) by auto
  ultimately have "i < j" by simp
  then show False using assms(2-4) i(2) p(2,3) unfolding probed_def Let_def by fastforce
qed

lemma table_ok_insert:
  assumes "table_ok eq hash table" "q < length table" "\<forall>l. table ! q \<noteq> Key l" "\<not> has_key eq table k"
    and "slot_reached (hash k) table q"
  shows "table_ok eq hash (table[q := Key k])"
  unfolding table_ok_def
proof (intro conjI allI impI)
  fix p l
  assume p: "p < length (table[q := Key k])" "table[q := Key k] ! p = Key l"
  have mono: "slot_reached h table r \<Longrightarrow> slot_reached h (table[q := Key k]) r" for h r
  proof -
    assume "slot_reached h table r"
    then obtain j where "j < length table" "r = (h + j) mod length table" "\<forall>i < j. table ! ((h + i) mod length table) \<noteq> Null"
      by (auto simp: slot_reached_def)
    moreover have "\<forall>i < j. table[q := Key k] ! ((h + i) mod length table) \<noteq> Null"
      using calculation(3) assms(2) by (metis nth_list_update_eq nth_list_update_neq slot.distinct(3))
    ultimately show ?thesis by (auto simp: slot_reached_def)
  qed
  show "slot_reached (hash l) (table[q := Key k]) p"
  proof (cases "p = q")
    case True
    then have "l = k" using p assms(2) by simp
    then show ?thesis using True assms(5) mono by blast
  next
    case False
    then show ?thesis using p assms(1) mono by (auto simp: table_ok_def)
  qed
next
  fix p p' l l'
  assume a: "p < length (table[q := Key k])" "p' < length (table[q := Key k])"
    "table[q := Key k] ! p = Key l \<and> table[q := Key k] ! p' = Key l' \<and> eq l l'"
  have no: "\<not> (r < length table \<and> r \<noteq> q \<and> table ! r = Key m \<and> eq m k)" for r m
    using assms(4) by (auto simp: has_key_def)
  show "p = p'"
  proof (cases "p = q \<or> p' = q")
    case True
    then show ?thesis using a assms(2) no [of p l] no [of p' l'] eq_sym by (auto simp: nth_list_update split: if_splits)
  next
    case False
    then show ?thesis using a assms(1) by (auto simp: table_ok_def)
  qed
qed

lemma table_ok_delete:
  assumes "table_ok eq hash table" "q < length table" "table ! q = Key k"
  shows "table_ok eq hash (table[q := deleted_slot table q])"
  unfolding table_ok_def
proof (intro conjI allI impI)
  let ?n = "length table" and ?s = "deleted_slot table q"
  have ds: "\<forall>l. ?s \<noteq> Key l" by (simp add: deleted_slot_def)
  fix p l
  assume p: "p < length (table[q := ?s])" "table[q := ?s] ! p = Key l"
  then have pq: "p \<noteq> q" "table ! p = Key l" "p < ?n" using assms(2) ds by (auto simp: nth_list_update split: if_splits)
  then obtain j where j: "j < ?n" "p = (hash l + j) mod ?n" "\<forall>i < j. table ! ((hash l + i) mod ?n) \<noteq> Null"
    using assms(1) unfolding table_ok_def slot_reached_def by blast
  have "table[q := ?s] ! ((hash l + i) mod ?n) \<noteq> Null" if "i < j" for i
  proof (cases "(hash l + i) mod ?n = q")
    case True
    have "?s \<noteq> Null"
    proof
      assume "?s = Null"
      then have null: "table ! ((q + 1) mod ?n) = Null" by (simp add: deleted_slot_def split: if_splits)
      have e: "(hash l + Suc i) mod ?n = (q + 1) mod ?n"
        unfolding True [symmetric] by (simp add: mod_simps)
      show False
      proof (cases "Suc i < j")
        case True
        then show ?thesis using j(3) e null by force
      next
        case False
        then have "Suc i = j" using that by simp
        then show ?thesis using e j(2) null pq(2) by simp
      qed
    qed
    then show ?thesis using True assms(2) by simp
  next
    case False
    then show ?thesis using j(3) that by simp
  qed
  then show "slot_reached (hash l) (table[q := ?s]) p" unfolding slot_reached_def using j(1,2) by auto
next
  let ?s = "deleted_slot table q"
  have ds: "\<forall>l. ?s \<noteq> Key l" by (simp add: deleted_slot_def)
  fix p p' l l'
  assume a: "p < length (table[q := ?s])" "p' < length (table[q := ?s])"
    "table[q := ?s] ! p = Key l \<and> table[q := ?s] ! p' = Key l' \<and> eq l l'"
  then have "table ! p = Key l" "table ! p' = Key l'" using assms(2) ds by (auto simp: nth_list_update split: if_splits)
  then show "p = p'" using a assms(1) by (auto simp: table_ok_def)
qed

text \<open>Where the search puts a new key.\<close>

lemma probed_slot:
  assumes "probed is_index table start j avail" "n = length table" "j < n \<and> p = (start + j) mod n \<and> table ! p = Null"
    and "q = (case avail of None \<Rightarrow> p | Some a \<Rightarrow> a)"
  shows "q < n \<and> (\<forall>l. table ! q \<noteq> Key l) \<and> slot_reached start table q"
proof (cases avail)
  case None
  have "\<forall>i < j. table ! ((start + i) mod n) \<noteq> Null" using assms(1,2) by (auto simp: probed_def Let_def)
  moreover have "p < n" using assms(3) by (metis gr_zeroI less_zeroE mod_less_divisor)
  ultimately show ?thesis using None assms unfolding slot_reached_def by auto
next
  case (Some a)
  then obtain i where i: "i < j" "a = (start + i) mod n" "table ! a = Sentinel"
    using assms(1,2) by (auto simp: probed_def)
  have "\<forall>i' < i. table ! ((start + i') mod n) \<noteq> Null" using assms(1,2) i(1) by (auto simp: probed_def Let_def)
  moreover have "a < n" using i(1,2) assms(3) by (metis gr_zeroI less_zeroE mod_less_divisor)
  moreover have "i < length table" using i(1) assms(2,3) by simp
  ultimately have "slot_reached start table a" unfolding slot_reached_def using i(2) assms(2) by blast
  then show ?thesis using Some i(3) \<open>a < n\<close> assms(4) by simp
qed

lemma probed_slot_wrapped:
  assumes "probed is_index table start n (Some a)" "n = length table"
  shows "a < n \<and> (\<forall>l. table ! a \<noteq> Key l) \<and> slot_reached start table a"
proof -
  obtain i where i: "i < n" "a = (start + i) mod n" "table ! a = Sentinel"
    using assms by (auto simp: probed_def)
  have "\<forall>i' < i. table ! ((start + i') mod n) \<noteq> Null" using assms(1,2) i(1) by (auto simp: probed_def Let_def)
  moreover have "a < n" using i(1,2) by (metis gr_zeroI less_zeroE mod_less_divisor)
  ultimately show ?thesis using i assms(2) unfolding slot_reached_def by auto
qed

end

text \<open>A table the search came around without an available slot is full.\<close>

lemma probed_full:
  assumes "probed is_index table start n None" "n = length table"
  shows "filled table = n"
proof -
  have "table ! p \<noteq> Null \<and> table ! p \<noteq> Sentinel" if "p < n" for p
    using probe_positions [OF that, of start] assms by (auto simp: probed_def Let_def)
  then have "\<forall>s \<in> set table. s \<noteq> Null \<and> s \<noteq> Sentinel" using assms(2) by (auto simp: in_set_conv_nth)
  then have "filter (\<lambda>s. s \<noteq> Null \<and> s \<noteq> Sentinel) table = table" by (simp add: filter_id_conv)
  then show ?thesis using assms(2) by (simp add: filled_def)
qed

lemma filled_update:
  assumes "q < length table"
  shows "filled (table[q := s]) + (if \<exists>k. table ! q = Key k then 1 else 0) = filled table + (if \<exists>k. s = Key k then 1 else 0)"
proof -
  have k: "s \<noteq> Null \<and> s \<noteq> Sentinel \<longleftrightarrow> (\<exists>k. s = Key k)" for s :: "'a slot" by (cases s) auto
  have t: "table = take q table @ table ! q # drop (Suc q) table" using assms by (simp add: id_take_nth_drop)
  have u: "table[q := s] = take q table @ s # drop (Suc q) table" using assms by (simp add: upd_conv_take_nth_drop)
  have "filled table = filled (take q table) + (if \<exists>k. table ! q = Key k then 1 else 0) + filled (drop (Suc q) table)"
    unfolding filled_def k by (subst t) simp
  moreover have "filled (table[q := s]) = filled (take q table) + (if \<exists>k. s = Key k then 1 else 0) + filled (drop (Suc q) table)"
    unfolding filled_def k u by simp
  ultimately show ?thesis by simp
qed

lemma filled_replicate [simp]: "filled (replicate n Null) = 0"
  by (simp add: filled_def)

lemma filled_le: "filled table \<le> length table"
  by (simp add: filled_def)

lemma table_ok_replicate [simp]: "table_ok eq hash (replicate n Null)"
  by (simp add: table_ok_def)

lemma has_key_replicate [simp]: "\<not> has_key eq (replicate n Null) k"
  by (simp add: has_key_def)

context hash_keys
begin

text \<open>How a search for a key ends.\<close>

lemma table_search:
  assumes "table_ok eq hash table" "n = length table" "\<And>l. Key l \<in> set table \<Longrightarrow> f l \<longleftrightarrow> eq l k"
  shows "case probe f table (probe_seq n (hash k mod n)) None of
      Found p \<Rightarrow> p < n \<and> (\<exists>l. table ! p = Key l \<and> eq l k)
    | Empty p a \<Rightarrow> \<not> has_key eq table k \<and> free_slot (hash k) table (case a of None \<Rightarrow> p | Some a \<Rightarrow> a)
    | Wrapped (Some a) \<Rightarrow> \<not> has_key eq table k \<and> free_slot (hash k) table a
    | Wrapped None \<Rightarrow> \<not> has_key eq table k \<and> filled table = n"
proof -
  let ?g = "\<lambda>l. eq l k" and ?h = "hash k"
  have cong: "probe f table (probe_seq n (?h mod n)) None = probe ?g table (probe_seq n ?h) None"
  proof -
    have "probe_seq n (?h mod n) = probe_seq n ?h" by (simp add: probe_seq_def mod_simps)
    moreover have "f l \<longleftrightarrow> ?g l" if "p \<in> set (probe_seq n ?h)" "table ! p = Key l" for p l
    proof -
      have "p < length table" using probe_seq_less [OF that(1)] assms(2) by simp
      then have "Key l \<in> set table" using that(2) nth_mem [of p table] by simp
      then show ?thesis by (rule assms(3))
    qed
    ultimately show ?thesis using probe_cong [of "probe_seq n ?h" table f ?g None] by simp
  qed
  note cases = probe_seq_cases [OF assms(2), where is_index = ?g and start = ?h]
  show ?thesis
  proof (cases "probe ?g table (probe_seq n ?h) None")
    case (Found p)
    then obtain i l where i: "i < n" "p = (?h + i) mod n" "table ! p = Key l" "eq l k" using cases by auto
    then have "p < n" by (metis gr_zeroI less_zeroE mod_less_divisor)
    then show ?thesis using Found i(3,4) cong by auto
  next
    case (Empty p a)
    then obtain i where i: "i < n" "p = (?h + i) mod n" "table ! p = Null" "probed ?g table ?h i a" using cases by auto
    have "\<not> has_key eq table k"
      by (rule probed_missing [OF assms(1,2) _ i(4)]) (use i(1-3) in simp_all)
    moreover have "free_slot ?h table (case a of None \<Rightarrow> p | Some a \<Rightarrow> a)"
      unfolding free_slot_def using probed_slot [OF i(4) assms(2), of p] i assms(2) by auto
    ultimately show ?thesis using Empty cong by simp
  next
    case (Wrapped a)
    then have pr: "probed ?g table ?h n a" using cases by auto
    have "\<not> has_key eq table k" by (rule probed_missing [OF assms(1,2) _ pr]) simp_all
    moreover have "free_slot ?h table b" if "a = Some b" for b
      unfolding free_slot_def using probed_slot_wrapped [of ?g table ?h n b] pr that assms(2) by auto
    moreover have "filled table = n" if "a = None" using probed_full [of ?g table ?h n] pr that assms(2) by simp
    ultimately show ?thesis using Wrapped cong by (cases a) simp_all
  qed
qed

text \<open>Keys that are pairwise different are not more than the keys that cover them.\<close>

definition apart :: "'o list \<Rightarrow> bool" where
  "apart xs \<longleftrightarrow> (\<forall>i < length xs. \<forall>j < length xs. eq (xs ! i) (xs ! j) \<longrightarrow> i = j)"

lemma apart_embed:
  assumes "apart xs" "\<forall>x \<in> set xs. \<exists>y \<in> set ys. eq y x"
  shows "length xs \<le> length ys \<and> (length xs = length ys \<longrightarrow> (\<forall>y \<in> set ys. \<exists>x \<in> set xs. eq x y))"
proof -
  have "\<exists>j < length ys. eq (ys ! j) (xs ! i)" if "i < length xs" for i
    using assms(2) nth_mem [OF that] by (metis in_set_conv_nth)
  then obtain f where f: "\<And>i. i < length xs \<Longrightarrow> f i < length ys \<and> eq (ys ! f i) (xs ! i)" by metis
  have inj: "inj_on f {..< length xs}"
  proof (rule inj_onI)
    fix i j
    assume a: "i \<in> {..< length xs}" "j \<in> {..< length xs}" "f i = f j"
    then have "eq (ys ! f i) (xs ! i)" "eq (ys ! f i) (xs ! j)" using f [of i] f [of j] by (simp_all only: lessThan_iff)
    then have "eq (xs ! i) (xs ! j)" using eq_sym eq_trans by blast
    then show "i = j" using assms(1) a(1,2) by (simp add: apart_def)
  qed
  have sub: "f ` {..< length xs} \<subseteq> {..< length ys}" using f by blast
  have "length xs \<le> length ys" using card_inj_on_le [OF inj sub] by simp
  moreover have "\<exists>x \<in> set xs. eq x y" if len: "length xs = length ys" and y: "y \<in> set ys" for y
  proof -
    have img: "f ` {..< length xs} = {..< length xs}" by (rule endo_inj_surj [OF _ _ inj]) (use sub len in auto)
    obtain j where j: "j < length ys" "ys ! j = y" using y by (auto simp: in_set_conv_nth)
    then obtain i where i: "i < length xs" "f i = j" using img len by (metis imageE lessThan_iff)
    then have "eq (xs ! i) y" using f [OF i(1)] j(2) eq_sym by blast
    then show ?thesis using i(1) nth_mem by blast
  qed
  ultimately show ?thesis by blast
qed

end

lemma free_slot_room:
  assumes "free_slot h table q"
  shows "filled table < length table"
proof -
  have "filled (table[q := Key k]) = filled table + 1" for k
    using assms filled_update [of q table "Key k"] by (auto simp: free_slot_def)
  then show ?thesis using filled_le [of "table[q := Key undefined]"] by (metis Suc_eq_plus1 Suc_le_eq length_list_update)
qed

end
