(* ===== verification/PyMap.thy ===== *)
theory PyMap
  imports HashTable "HOL-Library.Monad_Syntax"
begin

text \<open>
  The maps of \<^verbatim>\<open>py/map.c\<close>, in the configuration without lookup cache and ordered dictionaries.  What a map asks of its keys is a record of
  functions; a value is \<open>None\<close> where the code stores the null object.  A map operation returns \<open>None\<close>
  when an assertion fails, when a null slot is dereferenced or when its loop does not end; a Python
  exception is a value of the result.
\<close>

section \<open>Keys\<close>

record 'o key_ops =
  ko_is_qstr :: "'o \<Rightarrow> bool"
  ko_is_str :: "'o \<Rightarrow> bool"
  ko_qstr_hash :: "'o \<Rightarrow> nat"
  ko_unary_hash :: "'o \<Rightarrow> nat"
  ko_equal :: "'o \<Rightarrow> 'o \<Rightarrow> bool"

definition key_hash :: "'o key_ops \<Rightarrow> 'o \<Rightarrow> nat" where
  "key_hash K index = (if ko_is_qstr K index then ko_qstr_hash K index else ko_unary_hash K index)"

section \<open>Maps\<close>

record ('o, 'v) mp_map =
  all_keys_are_qstrs :: bool
  is_fixed :: bool
  is_ordered :: bool
  map_used :: nat
  map_alloc :: nat
  map_table :: "('o slot \<times> 'v option) list"

datatype lookup_kind = LOOKUP | ADD_IF_NOT_FOUND | REMOVE_IF_FOUND

definition mp_map_init :: "nat \<Rightarrow> ('o, 'v) mp_map" where
  "mp_map_init n = \<lparr>all_keys_are_qstrs = True, is_fixed = False, is_ordered = False, map_used = 0,
     map_alloc = n, map_table = replicate n (Null, None)\<rparr>"

definition mp_map_init_fixed_table :: "nat \<Rightarrow> ('o slot \<times> 'v option) list \<Rightarrow> ('o, 'v) mp_map" where
  "mp_map_init_fixed_table n table = \<lparr>all_keys_are_qstrs = True, is_fixed = True, is_ordered = True, map_used = n,
     map_alloc = n, map_table = table\<rparr>"

definition mp_map_clear :: "('o, 'v) mp_map \<Rightarrow> ('o, 'v) mp_map" where
  "mp_map_clear m = m\<lparr>map_alloc := 0, map_used := 0, all_keys_are_qstrs := True, is_fixed := False, map_table := []\<rparr>"

abbreviation keys_of :: "('o, 'v) mp_map \<Rightarrow> 'o slot list" where
  "keys_of m \<equiv> map fst (map_table m)"

text \<open>The three places where a new key goes into a slot.\<close>

definition map_add_at :: "'o key_ops \<Rightarrow> ('o, 'v) mp_map \<Rightarrow> nat \<Rightarrow> 'o \<Rightarrow> ('o, 'v) mp_map" where
  "map_add_at K m pos index =
     m\<lparr>map_used := map_used m + 1, map_table := (map_table m)[pos := (Key index, None)],
       all_keys_are_qstrs := (if ko_is_qstr K index then all_keys_are_qstrs m else False)\<rparr>"

definition map_remove_at :: "('o, 'v) mp_map \<Rightarrow> nat \<Rightarrow> ('o, 'v) mp_map" where
  "map_remove_at m pos =
     m\<lparr>map_used := map_used m - 1,
       map_table := (map_table m)[pos := (deleted_slot (keys_of m) pos, snd (map_table m ! pos))]\<rparr>"

text \<open>The search loop; after a rehash it starts again.  A third round is never needed.\<close>

fun map_search :: "nat \<Rightarrow> (('o, 'v) mp_map \<Rightarrow> ('o, 'v) mp_map option) \<Rightarrow> 'o key_ops \<Rightarrow> ('o \<Rightarrow> bool) \<Rightarrow> nat \<Rightarrow>
    ('o, 'v) mp_map \<Rightarrow> 'o \<Rightarrow> lookup_kind \<Rightarrow> (('o, 'v) mp_map \<times> nat option) option" where
  "map_search 0 rehash K is_index hash m index kind = None"
| "map_search (Suc rounds) rehash K is_index hash m index kind =
     (case probe is_index (keys_of m) (probe_seq (map_alloc m) (hash mod map_alloc m)) None of
        Found pos \<Rightarrow> Some (if kind = REMOVE_IF_FOUND then map_remove_at m pos else m, Some pos)
      | Empty pos avail_slot \<Rightarrow>
          if kind = ADD_IF_NOT_FOUND
          then let pos = (case avail_slot of None \<Rightarrow> pos | Some a \<Rightarrow> a) in Some (map_add_at K m pos index, Some pos)
          else Some (m, None)
      | Wrapped avail_slot \<Rightarrow>
          if kind = ADD_IF_NOT_FOUND
          then (case avail_slot of
                  Some a \<Rightarrow> Some (map_add_at K m a index, Some a)
                | None \<Rightarrow> do { m \<leftarrow> rehash m; map_search rounds rehash K is_index hash m index kind })
          else Some (m, None))"

text \<open>The linear search of an ordered array.\<close>

fun linear_search :: "('o \<Rightarrow> bool) \<Rightarrow> 'o slot list \<Rightarrow> nat \<Rightarrow> nat option" where
  "linear_search is_index [] i = None"
| "linear_search is_index (s # ss) i =
     (if (case s of Key k \<Rightarrow> is_index k | _ \<Rightarrow> False) then Some i else linear_search is_index ss (i + 1))"

definition mp_map_lookup_with :: "(('o, 'v) mp_map \<Rightarrow> ('o, 'v) mp_map option) \<Rightarrow> 'o key_ops \<Rightarrow>
    ('o, 'v) mp_map \<Rightarrow> 'o \<Rightarrow> lookup_kind \<Rightarrow> (('o, 'v) mp_map \<times> nat option) option" where
  "mp_map_lookup_with rehash K m index kind =
     (if is_fixed m \<and> kind \<noteq> LOOKUP then None
      else
        let only_qstrs = all_keys_are_qstrs m;
            compare_only_ptrs = (only_qstrs \<and> (ko_is_qstr K index \<or> \<not> ko_is_str K index));
            is_index = (\<lambda>k. k = index \<or> \<not> compare_only_ptrs \<and> ko_equal K k index)
        in if only_qstrs \<and> \<not> ko_is_qstr K index \<and> \<not> ko_is_str K index \<and> kind \<noteq> ADD_IF_NOT_FOUND then Some (m, None)
           else if is_ordered m then Some (m, linear_search is_index (take (map_used m) (keys_of m)) 0)
           else if map_alloc m = 0 \<and> kind \<noteq> ADD_IF_NOT_FOUND then Some (m, None)
           else do {
             m \<leftarrow> (if map_alloc m = 0 then rehash m else Some m);
             map_search 2 rehash K is_index (key_hash K index) m index kind })"

fun map_readd :: "(('o, 'v) mp_map \<Rightarrow> 'o \<Rightarrow> lookup_kind \<Rightarrow> (('o, 'v) mp_map \<times> nat option) option) \<Rightarrow>
    ('o slot \<times> 'v option) list \<Rightarrow> ('o, 'v) mp_map \<Rightarrow> ('o, 'v) mp_map option" where
  "map_readd lookup [] m = Some m"
| "map_readd lookup ((s, v) # es) m =
     (case s of
        Key k \<Rightarrow>
          (case lookup m k ADD_IF_NOT_FOUND of
             Some (m', Some pos) \<Rightarrow> map_readd lookup es (m'\<lparr>map_table := (map_table m')[pos := (fst (map_table m' ! pos), v)]\<rparr>)
           | _ \<Rightarrow> None)
      | _ \<Rightarrow> map_readd lookup es m)"

definition mp_map_rehash_with :: "(('o, 'v) mp_map \<Rightarrow> 'o \<Rightarrow> lookup_kind \<Rightarrow> (('o, 'v) mp_map \<times> nat option) option) \<Rightarrow>
    ('o, 'v) mp_map \<Rightarrow> ('o, 'v) mp_map option" where
  "mp_map_rehash_with lookup m =
     (let new_alloc = get_hash_alloc_greater_or_equal_to (map_alloc m + 1);
          new_table = replicate new_alloc (Null, None)
      in map_readd lookup (map_table m)
           (m\<lparr>map_alloc := new_alloc, map_used := 0, all_keys_are_qstrs := True, map_table := new_table\<rparr>))"

text \<open>
  \<open>mp_map_lookup\<close> and \<open>mp_map_rehash\<close> call each other.  The bound on the depth of the calls is 2: the
  insertions of a rehash find room and do not rehash again.
\<close>

fun mp_map_lookup_depth :: "nat \<Rightarrow> 'o key_ops \<Rightarrow> ('o, 'v) mp_map \<Rightarrow> 'o \<Rightarrow> lookup_kind \<Rightarrow> (('o, 'v) mp_map \<times> nat option) option" where
  "mp_map_lookup_depth 0 K m index kind = None"
| "mp_map_lookup_depth (Suc d) K m index kind =
     mp_map_lookup_with (mp_map_rehash_with (mp_map_lookup_depth d K)) K m index kind"

definition mp_map_lookup :: "'o key_ops \<Rightarrow> ('o, 'v) mp_map \<Rightarrow> 'o \<Rightarrow> lookup_kind \<Rightarrow> (('o, 'v) mp_map \<times> nat option) option" where
  "mp_map_lookup K = mp_map_lookup_depth 2 K"

definition mp_map_rehash :: "'o key_ops \<Rightarrow> ('o, 'v) mp_map \<Rightarrow> ('o, 'v) mp_map option" where
  "mp_map_rehash K = mp_map_rehash_with (mp_map_lookup_depth 1 K)"

definition mp_map_slot_is_filled :: "('o, 'v) mp_map \<Rightarrow> nat \<Rightarrow> bool" where
  "mp_map_slot_is_filled m pos \<longleftrightarrow> fst (map_table m ! pos) \<noteq> Null \<and> fst (map_table m ! pos) \<noteq> Sentinel"

definition map_set_value :: "('o, 'v) mp_map \<Rightarrow> nat \<Rightarrow> 'v option \<Rightarrow> ('o, 'v) mp_map" where
  "map_set_value m pos v = m\<lparr>map_table := (map_table m)[pos := (fst (map_table m ! pos), v)]\<rparr>"

definition mp_map_deinit :: "('o, 'v) mp_map \<Rightarrow> ('o, 'v) mp_map" where
  "mp_map_deinit m = m\<lparr>map_used := 0, map_alloc := 0\<rparr>"

end
