(* ===== verification/PyDict.thy ===== *)
theory PyDict
  imports PyMap
begin

text \<open>
  The dictionaries of \<^verbatim>\<open>py/objdict.c\<close> over the maps of \<^verbatim>\<open>py/map.c\<close>.  The keyword arguments and the
  other dictionary of an update are maps of their own; an object that the code iterates over is the
  list of its items.
\<close>

section \<open>Operations\<close>

datatype dict_error = KeyError | TypeError | ValueError

type_synonym ('o, 'v, 'r) dict_result = "(('o, 'v) mp_map \<times> (dict_error + 'r)) option"

definition mp_obj_new_dict :: "nat \<Rightarrow> ('o, 'v) mp_map" where
  "mp_obj_new_dict n_args = mp_map_init n_args"

definition mp_obj_dict_len :: "('o, 'v) mp_map \<Rightarrow> nat" where
  "mp_obj_dict_len m = map_used m"

definition dict_bool :: "('o, 'v) mp_map \<Rightarrow> bool" where
  "dict_bool m \<longleftrightarrow> map_used m \<noteq> 0"

definition mp_obj_dict_get :: "'o key_ops \<Rightarrow> ('o, 'v) mp_map \<Rightarrow> 'o \<Rightarrow> ('o, 'v, 'v option) dict_result" where
  "mp_obj_dict_get K m index =
     (case mp_map_lookup K m index LOOKUP of
        None \<Rightarrow> None
      | Some (m, None) \<Rightarrow> Some (m, Inl KeyError)
      | Some (m, Some pos) \<Rightarrow> Some (m, Inr (snd (map_table m ! pos))))"

text \<open>The assignment to the value of the slot that the look-up finds or adds.\<close>

definition map_put :: "'o key_ops \<Rightarrow> ('o, 'v) mp_map \<Rightarrow> 'o \<Rightarrow> 'v option \<Rightarrow> ('o, 'v) mp_map option" where
  "map_put K m key v =
     (case mp_map_lookup K m key ADD_IF_NOT_FOUND of
        Some (m, Some pos) \<Rightarrow> Some (map_set_value m pos v)
      | _ \<Rightarrow> None)"

definition mp_obj_dict_store :: "'o key_ops \<Rightarrow> ('o, 'v) mp_map \<Rightarrow> 'o \<Rightarrow> 'v \<Rightarrow> ('o, 'v, unit) dict_result" where
  "mp_obj_dict_store K m key v =
     (if is_fixed m then Some (m, Inl TypeError)
      else map_option (\<lambda>m. (m, Inr ())) (map_put K m key (Some v)))"

text \<open>
  The methods \<open>get\<close>, \<open>pop\<close> and \<open>setdefault\<close>; \<open>none\<close> is the object \<open>None\<close>, \<open>dflt\<close> the third argument.
\<close>

definition dict_get_helper :: "'o key_ops \<Rightarrow> 'v \<Rightarrow> ('o, 'v) mp_map \<Rightarrow> 'o \<Rightarrow> 'v option \<Rightarrow> lookup_kind \<Rightarrow> ('o, 'v, 'v) dict_result" where
  "dict_get_helper K none m key dflt kind =
     (if kind \<noteq> LOOKUP \<and> is_fixed m then Some (m, Inl TypeError)
      else do {
        (m, elem) \<leftarrow> mp_map_lookup K m key kind;
        case (case elem of None \<Rightarrow> None | Some pos \<Rightarrow> snd (map_table m ! pos)) of
          Some v \<Rightarrow> Some (if kind = REMOVE_IF_FOUND then (case elem of Some pos \<Rightarrow> map_set_value m pos None | None \<Rightarrow> m) else m, Inr v)
        | None \<Rightarrow>
            if dflt = None \<and> kind = REMOVE_IF_FOUND then Some (m, Inl KeyError)
            else let value = (case dflt of None \<Rightarrow> none | Some d \<Rightarrow> d)
                 in if kind = ADD_IF_NOT_FOUND
                    then (case elem of Some pos \<Rightarrow> Some (map_set_value m pos (Some value), Inr value) | None \<Rightarrow> None)
                    else Some (m, Inr value) })"

definition mp_obj_dict_delete :: "'o key_ops \<Rightarrow> 'v \<Rightarrow> ('o, 'v) mp_map \<Rightarrow> 'o \<Rightarrow> ('o, 'v, unit) dict_result" where
  "mp_obj_dict_delete K none m key =
     map_option (\<lambda>(m, r). (m, case r of Inl e \<Rightarrow> Inl e | Inr _ \<Rightarrow> Inr ())) (dict_get_helper K none m key None REMOVE_IF_FOUND)"

fun first_filled :: "('o, 'v) mp_map \<Rightarrow> nat list \<Rightarrow> nat option" where
  "first_filled m [] = None"
| "first_filled m (i # is) = (if mp_map_slot_is_filled m i then Some i else first_filled m is)"

text \<open>The next filled slot and the cursor after it.\<close>

definition dict_iter_next :: "('o, 'v) mp_map \<Rightarrow> nat \<Rightarrow> (nat \<times> nat) option" where
  "dict_iter_next m cur = map_option (\<lambda>i. (i, i + 1)) (first_filled m [cur ..< map_alloc m])"

definition dict_popitem :: "('o, 'v) mp_map \<Rightarrow> ('o, 'v, 'o \<times> 'v option) dict_result" where
  "dict_popitem m =
     (if is_fixed m then Some (m, Inl TypeError)
      else if map_used m = 0 then Some (m, Inl KeyError)
      else case dict_iter_next m 0 of
             None \<Rightarrow> None
           | Some (pos, _) \<Rightarrow>
               (case map_table m ! pos of
                  (Key k, v) \<Rightarrow> Some (m\<lparr>map_used := map_used m - 1, map_table := (map_table m)[pos := (Sentinel, None)]\<rparr>, Inr (k, v))
                | _ \<Rightarrow> None))"

definition dict_clear :: "('o, 'v) mp_map \<Rightarrow> ('o, 'v, unit) dict_result" where
  "dict_clear m = (if is_fixed m then Some (m, Inl TypeError) else Some (mp_map_clear m, Inr ()))"

definition mp_obj_dict_copy :: "('o, 'v) mp_map \<Rightarrow> ('o, 'v) mp_map" where
  "mp_obj_dict_copy m =
     (mp_obj_new_dict (map_alloc m))\<lparr>map_used := map_used m, all_keys_are_qstrs := all_keys_are_qstrs m, is_fixed := False,
        is_ordered := is_ordered m, map_table := take (map_alloc m) (map_table m)\<rparr>"

text \<open>The loop over the filled slots of another map.\<close>

fun dict_update_slots :: "'o key_ops \<Rightarrow> ('o slot \<times> 'v option) list \<Rightarrow> ('o, 'v) mp_map \<Rightarrow> ('o, 'v) mp_map option" where
  "dict_update_slots K [] m = Some m"
| "dict_update_slots K ((s, v) # es) m =
     (case s of
        Key k \<Rightarrow> do { m \<leftarrow> map_put K m k v; dict_update_slots K es m }
      | _ \<Rightarrow> dict_update_slots K es m)"

text \<open>The loop over an iterable; an item is \<open>None\<close> when it does not have exactly two items itself.\<close>

fun dict_update_pairs :: "'o key_ops \<Rightarrow> ('o \<times> 'v) option list \<Rightarrow> ('o, 'v) mp_map \<Rightarrow> ('o, 'v, unit) dict_result" where
  "dict_update_pairs K [] m = Some (m, Inr ())"
| "dict_update_pairs K (None # ps) m = Some (m, Inl ValueError)"
| "dict_update_pairs K (Some (k, v) # ps) m = do { m \<leftarrow> map_put K m k (Some v); dict_update_pairs K ps m }"

datatype ('o, 'v) update_arg = No_Arg | From_Self | From_Dict "('o, 'v) mp_map" | From_Iterable "('o \<times> 'v) option list"

definition dict_update :: "'o key_ops \<Rightarrow> ('o, 'v) mp_map \<Rightarrow> ('o, 'v) update_arg \<Rightarrow> ('o, 'v) mp_map \<Rightarrow> ('o, 'v, unit) dict_result" where
  "dict_update K m arg kwargs =
     (if is_fixed m then Some (m, Inl TypeError)
      else do {
        (m, r) \<leftarrow> (case arg of
                    No_Arg \<Rightarrow> Some (m, Inr ())
                  | From_Self \<Rightarrow> Some (m, Inr ())
                  | From_Dict other \<Rightarrow> map_option (\<lambda>m. (m, Inr ())) (dict_update_slots K (take (map_alloc other) (map_table other)) m)
                  | From_Iterable ps \<Rightarrow> dict_update_pairs K ps m);
        case r of
          Inl e \<Rightarrow> Some (m, Inl e)
        | Inr _ \<Rightarrow> map_option (\<lambda>m. (m, Inr ())) (dict_update_slots K (take (map_alloc kwargs) (map_table kwargs)) m) })"

definition mp_obj_dict_make_new :: "'o key_ops \<Rightarrow> ('o, 'v) update_arg \<Rightarrow> ('o, 'v) mp_map \<Rightarrow> ('o, 'v, unit) dict_result" where
  "mp_obj_dict_make_new K arg kwargs =
     (if arg = No_Arg \<and> map_used kwargs = 0 then Some (mp_obj_new_dict 0, Inr ()) else dict_update K (mp_obj_new_dict 0) arg kwargs)"

text \<open>The class method; \<open>n\<close> is the length of the iterable where it has one.\<close>

fun dict_fromkeys_loop :: "'o key_ops \<Rightarrow> 'o list \<Rightarrow> 'v \<Rightarrow> ('o, 'v) mp_map \<Rightarrow> ('o, 'v) mp_map option" where
  "dict_fromkeys_loop K [] v m = Some m"
| "dict_fromkeys_loop K (k # ks) v m = do { m \<leftarrow> map_put K m k (Some v); dict_fromkeys_loop K ks v m }"

definition dict_fromkeys :: "'o key_ops \<Rightarrow> nat option \<Rightarrow> 'o list \<Rightarrow> 'v \<Rightarrow> ('o, 'v) mp_map option" where
  "dict_fromkeys K n ks v = dict_fromkeys_loop K ks v (mp_obj_new_dict (case n of None \<Rightarrow> 0 | Some n \<Rightarrow> n))"

definition dict_contains :: "'o key_ops \<Rightarrow> ('o, 'v) mp_map \<Rightarrow> 'o \<Rightarrow> bool option" where
  "dict_contains K m k = map_option (\<lambda>(_, elem). elem \<noteq> None) (mp_map_lookup K m k LOOKUP)"

text \<open>The comparison of two dictionaries; \<open>veq\<close> compares two values.\<close>

fun dict_equal_loop :: "'o key_ops \<Rightarrow> ('v \<Rightarrow> 'v \<Rightarrow> bool) \<Rightarrow> ('o slot \<times> 'v option) list \<Rightarrow> ('o, 'v) mp_map \<Rightarrow> bool option" where
  "dict_equal_loop K veq [] rhs = Some True"
| "dict_equal_loop K veq ((s, v) # es) rhs =
     (case s of
        Key k \<Rightarrow>
          (case mp_map_lookup K rhs k LOOKUP of
             None \<Rightarrow> None
           | Some (_, None) \<Rightarrow> Some False
           | Some (_, Some pos) \<Rightarrow>
               (case (v, snd (map_table rhs ! pos)) of
                  (Some a, Some b) \<Rightarrow> if \<not> veq a b then Some False else dict_equal_loop K veq es rhs
                | _ \<Rightarrow> None))
      | _ \<Rightarrow> dict_equal_loop K veq es rhs)"

definition dict_equal :: "'o key_ops \<Rightarrow> ('v \<Rightarrow> 'v \<Rightarrow> bool) \<Rightarrow> ('o, 'v) mp_map \<Rightarrow> ('o, 'v) mp_map \<Rightarrow> bool option" where
  "dict_equal K veq lhs rhs =
     (if map_used lhs \<noteq> map_used rhs then Some False else dict_equal_loop K veq (take (map_alloc lhs) (map_table lhs)) rhs)"

text \<open>The operators \<open>|=\<close> and \<open>|\<close>.\<close>

definition dict_inplace_or :: "'o key_ops \<Rightarrow> ('o, 'v) mp_map \<Rightarrow> ('o, 'v) update_arg \<Rightarrow> ('o, 'v, unit) dict_result" where
  "dict_inplace_or K m arg = dict_update K m arg \<lparr>all_keys_are_qstrs = False, is_fixed = True, is_ordered = True, map_used = 0, map_alloc = 0, map_table = []\<rparr>"

definition dict_or :: "'o key_ops \<Rightarrow> ('o, 'v) mp_map \<Rightarrow> ('o, 'v) update_arg \<Rightarrow> ('o, 'v, unit) dict_result" where
  "dict_or K m arg = dict_inplace_or K (mp_obj_dict_copy m) arg"

text \<open>The iterator of a view; \<open>cur\<close> is its state.\<close>

datatype dict_view_kind = DICT_VIEW_ITEMS | DICT_VIEW_KEYS | DICT_VIEW_VALUES

datatype ('o, 'v) view_item = Item 'o "'v option" | Item_Key 'o | Item_Value "'v option"

definition dict_view_it_iternext :: "dict_view_kind \<Rightarrow> ('o, 'v) mp_map \<Rightarrow> nat \<Rightarrow> (('o, 'v) view_item \<times> nat) option" where
  "dict_view_it_iternext kind m cur =
     (case dict_iter_next m cur of
        None \<Rightarrow> None
      | Some (i, cur) \<Rightarrow>
          (case map_table m ! i of
             (Key k, v) \<Rightarrow> Some (case kind of DICT_VIEW_ITEMS \<Rightarrow> Item k v | DICT_VIEW_KEYS \<Rightarrow> Item_Key k | DICT_VIEW_VALUES \<Rightarrow> Item_Value v, cur)
           | _ \<Rightarrow> None))"

text \<open>A loop over a view to its end; every step moves the cursor, so \<open>alloc + 1\<close> steps are enough.\<close>

fun dict_view_drain :: "nat \<Rightarrow> dict_view_kind \<Rightarrow> ('o, 'v) mp_map \<Rightarrow> nat \<Rightarrow> ('o, 'v) view_item list option" where
  "dict_view_drain 0 kind m cur = None"
| "dict_view_drain (Suc fuel) kind m cur =
     (case dict_view_it_iternext kind m cur of
        None \<Rightarrow> Some []
      | Some (item, cur) \<Rightarrow> map_option ((#) item) (dict_view_drain fuel kind m cur))"

definition dict_view_list :: "dict_view_kind \<Rightarrow> ('o, 'v) mp_map \<Rightarrow> ('o, 'v) view_item list option" where
  "dict_view_list kind m = dict_view_drain (map_alloc m + 1) kind m 0"

end
