(* ===== verification/MapLaws.thy ===== *)
theory MapLaws
  imports PyMap
begin

text \<open>
  The laws of the keys and what the operations of a map do under them: the invariant \<open>map_wf\<close>, the
  association \<open>map_get\<close> of a map, and the look-up in its kinds.
\<close>

section \<open>The laws of the keys\<close>

text \<open>
  Interned strings are equal only to themselves and to strings; the hash respects the equality.
\<close>

locale key_laws = hash_keys "ko_equal K" "key_hash K" for K :: "'o key_ops" +
  assumes qstr_identity: "ko_is_qstr K k \<Longrightarrow> ko_is_qstr K l \<Longrightarrow> ko_equal K k l \<Longrightarrow> k = l"
    and qstr_only_str: "ko_is_qstr K k \<Longrightarrow> ko_equal K k l \<Longrightarrow> ko_is_qstr K l \<or> ko_is_str K l"

definition map_wf :: "'o key_ops \<Rightarrow> ('o, 'v) mp_map \<Rightarrow> bool" where
  "map_wf K m \<longleftrightarrow> length (map_table m) = map_alloc m \<and> map_used m = filled (keys_of m)
     \<and> (all_keys_are_qstrs m \<longrightarrow> (\<forall>k. Key k \<in> set (keys_of m) \<longrightarrow> ko_is_qstr K k))
     \<and> \<not> is_fixed m \<and> \<not> is_ordered m \<and> table_ok (ko_equal K) (key_hash K) (keys_of m)"

lemma map_wfI:
  assumes "length (map_table m) = map_alloc m" "map_used m = filled (keys_of m)"
    and "\<And>k. all_keys_are_qstrs m \<Longrightarrow> Key k \<in> set (keys_of m) \<Longrightarrow> ko_is_qstr K k" "\<not> is_fixed m" "\<not> is_ordered m"
    and "table_ok (ko_equal K) (key_hash K) (keys_of m)"
  shows "map_wf K m"
  using assms unfolding map_wf_def by blast

text \<open>What the map associates with a key.\<close>

fun table_get :: "('o \<Rightarrow> 'o \<Rightarrow> bool) \<Rightarrow> ('o slot \<times> 'v option) list \<Rightarrow> 'o \<Rightarrow> 'v option option" where
  "table_get eq [] k = None"
| "table_get eq ((s, v) # t) k =
     (case s of Key l \<Rightarrow> if eq l k then Some v else table_get eq t k | _ \<Rightarrow> table_get eq t k)"

abbreviation map_get :: "'o key_ops \<Rightarrow> ('o, 'v) mp_map \<Rightarrow> 'o \<Rightarrow> 'v option option" where
  "map_get K m \<equiv> table_get (ko_equal K) (map_table m)"

lemma table_get_None: "table_get eq t k = None \<longleftrightarrow> \<not> has_key eq (map fst t) k"
proof (induction t)
  case (Cons a t)
  obtain s v where a: "a = (s, v)" by fastforce
  have "has_key eq (map fst ((s, v) # t)) k \<longleftrightarrow> (\<exists>l. s = Key l \<and> eq l k) \<or> has_key eq (map fst t) k"
    unfolding has_key_def by (auto simp: less_Suc_eq_0_disj)
  then show ?case using Cons a by (auto split: slot.splits)
qed (simp add: has_key_def)

lemma table_get_nth:
  assumes "p < length t" "t ! p = (Key l, v)" "eq l k"
    and "\<And>q l'. q < length t \<Longrightarrow> fst (t ! q) = Key l' \<Longrightarrow> eq l' k \<Longrightarrow> q = p"
  shows "table_get eq t k = Some v"
  using assms
proof (induction t arbitrary: p)
  case (Cons a t)
  obtain s w where a: "a = (s, w)" by fastforce
  show ?case
  proof (cases p)
    case 0
    then show ?thesis using Cons.prems(2,3) by simp
  next
    case (Suc q)
    have "\<not> (\<exists>l'. s = Key l' \<and> eq l' k)" using Cons.prems(4) [of 0] a Suc by auto
    moreover have "table_get eq t k = Some v"
    proof (rule Cons.IH)
      show "q' = q" if "q' < length t" "fst (t ! q') = Key l'" "eq l' k" for q' l'
        using Cons.prems(4) [of "Suc q'" l'] that Suc by simp
    qed (use Cons.prems(1-3) Suc in auto)
    ultimately show ?thesis using a by (auto split: slot.splits)
  qed
qed simp

lemma option_extI: "(\<And>v. x = Some v \<longleftrightarrow> y = Some v) \<Longrightarrow> x = y"
  by (cases x) (auto, metis option.exhaust)

text \<open>The comparison that the search uses is the equality on the keys of the map.\<close>

definition index_eq :: "'o key_ops \<Rightarrow> ('o \<Rightarrow> bool) \<Rightarrow> ('o, 'v) mp_map \<Rightarrow> 'o \<Rightarrow> bool" where
  "index_eq K is_index m k \<longleftrightarrow> (\<forall>l. Key l \<in> set (keys_of m) \<longrightarrow> (is_index l \<longleftrightarrow> ko_equal K l k))"

definition elsewhere :: "'o key_ops \<Rightarrow> ('o slot \<times> 'v option) list \<Rightarrow> nat \<Rightarrow> 'o \<Rightarrow> 'v option \<Rightarrow> bool" where
  "elsewhere K t pos k u \<longleftrightarrow> (\<exists>q < length t. q \<noteq> pos \<and> (\<exists>l. t ! q = (Key l, u) \<and> ko_equal K l k))"

definition map_keys :: "('o, 'v) mp_map \<Rightarrow> 'o set" where
  "map_keys m = {k. Key k \<in> set (keys_of m)}"

lemma map_keys_update:
  assumes "q < length t" "\<forall>l. t ! q \<noteq> Key l"
  shows "{x. Key x \<in> set (t[q := Key k])} = insert k {x. Key x \<in> set t}"
proof -
  have "Key x \<in> set (t[q := Key k])" if "Key x \<in> set t" for x
    using that assms(2) by (metis in_set_conv_nth length_list_update nth_list_update_neq)
  moreover have "Key k \<in> set (t[q := Key k])" using assms(1) by (rule set_update_memI)
  ultimately show ?thesis using set_update_subset_insert [of t q "Key k"] by auto
qed

lemma nth_key: "Key k \<in> set (map fst es) \<Longrightarrow> \<exists>p < length es. fst (es ! p) = Key k"
  by (metis (no_types, lifting) in_set_conv_nth length_map nth_map)

lemma table_ok_inj:
  "table_ok eq hash table \<Longrightarrow> p < length table \<Longrightarrow> q < length table \<Longrightarrow> table ! p = Key k \<Longrightarrow> table ! q = Key l \<Longrightarrow> eq k l \<Longrightarrow> p = q"
  unfolding table_ok_def by blast

definition distinct_keys :: "('o \<Rightarrow> 'o \<Rightarrow> bool) \<Rightarrow> ('o slot \<times> 'v option) list \<Rightarrow> bool" where
  "distinct_keys eq es \<longleftrightarrow> (\<forall>p q k l. p < length es \<and> q < length es \<and> fst (es ! p) = Key k \<and> fst (es ! q) = Key l \<and> eq k l \<longrightarrow> p = q)"

lemma distinct_keysD:
  "distinct_keys eq es \<Longrightarrow> p < length es \<Longrightarrow> q < length es \<Longrightarrow> fst (es ! p) = Key k \<Longrightarrow> fst (es ! q) = Key l \<Longrightarrow> eq k l \<Longrightarrow> p = q"
  unfolding distinct_keys_def by blast

lemma distinct_keys_tl: "distinct_keys eq (e # es) \<Longrightarrow> distinct_keys eq es"
  unfolding distinct_keys_def by (metis Suc_less_eq length_Cons nth_Cons_Suc old.nat.inject)

context key_laws
begin

lemma map_wfD:
  assumes "map_wf K m"
  shows "length (map_table m) = map_alloc m" "map_used m = filled (keys_of m)"
    "all_keys_are_qstrs m \<Longrightarrow> Key k \<in> set (keys_of m) \<Longrightarrow> ko_is_qstr K k" "\<not> is_fixed m" "\<not> is_ordered m"
    "table_ok (ko_equal K) (key_hash K) (keys_of m)"
  using assms by (auto simp: map_wf_def)

lemma map_get_iff:
  assumes "map_wf K m"
  shows "map_get K m k = Some v \<longleftrightarrow> (\<exists>p < map_alloc m. \<exists>l. map_table m ! p = (Key l, v) \<and> ko_equal K l k)"
proof -
  note w = map_wfD [OF assms]
  have uniq: "q = p" if "p < map_alloc m" "q < map_alloc m" "fst (map_table m ! p) = Key l" "fst (map_table m ! q) = Key l'"
    "ko_equal K l k" "ko_equal K l' k" for p q l l'
  proof -
    have "ko_equal K l' l" using that(5,6) eq_sym eq_trans by blast
    then show ?thesis using w(1,6) that(1-4) by (auto simp: table_ok_def)
  qed
  have hit: "map_get K m k = Some v'" if p: "p < map_alloc m" "map_table m ! p = (Key l, v')" "ko_equal K l k" for p l v'
  proof (rule table_get_nth)
    show "map_table m ! p = (Key l, v')" "ko_equal K l k" by (rule p(2), rule p(3))
    show "q = p" if "q < length (map_table m)" "fst (map_table m ! q) = Key l'" "ko_equal K l' k" for q l'
      using uniq [of p q l l'] p that w(1) by simp
  qed (use p(1) w(1) in simp)
  show ?thesis
  proof
    assume a: "map_get K m k = Some v"
    then have "has_key (ko_equal K) (keys_of m) k" using table_get_None [of "ko_equal K" "map_table m" k] by auto
    then obtain p l where "p < map_alloc m" "fst (map_table m ! p) = Key l" "ko_equal K l k"
      using w(1) by (auto simp: has_key_def)
    then show "\<exists>p < map_alloc m. \<exists>l. map_table m ! p = (Key l, v) \<and> ko_equal K l k"
      using hit [of p l "snd (map_table m ! p)"] a by (metis option.inject prod.collapse)
  qed (use hit in blast)
qed

lemma map_get_cong: "ko_equal K k k' \<Longrightarrow> map_wf K m \<Longrightarrow> map_get K m k = map_get K m k'"
  by (rule option_extI) (simp add: map_get_iff, metis eq_sym eq_trans)

lemma index_eq_compare:
  assumes "map_wf K m"
  shows "index_eq K (\<lambda>l. l = k \<or> \<not> (all_keys_are_qstrs m \<and> (ko_is_qstr K k \<or> \<not> ko_is_str K k)) \<and> ko_equal K l k) m k"
  using map_wfD(3) [OF assms] eq_refl qstr_identity qstr_only_str unfolding index_eq_def by metis

text \<open>What one slot and what the other slots contribute to a look-up.\<close>

lemma map_get_split:
  assumes "map_wf K m" "pos < map_alloc m"
  shows "map_get K m k = Some u \<longleftrightarrow> (\<exists>l. map_table m ! pos = (Key l, u) \<and> ko_equal K l k) \<or> elsewhere K (map_table m) pos k u"
  unfolding map_get_iff [OF assms(1)] elsewhere_def using assms(2) map_wfD(1) [OF assms(1)] by metis

lemma map_get_update:
  assumes "map_wf K m" "map_wf K m'" "pos < map_alloc m" "map_alloc m' = map_alloc m" "map_table m' = (map_table m)[pos := (s, v)]"
  shows "map_get K m' k = Some u \<longleftrightarrow> (\<exists>l. s = Key l \<and> u = v \<and> ko_equal K l k) \<or> elsewhere K (map_table m) pos k u"
proof -
  have "map_table m' ! pos = (s, v)" using assms(3,5) map_wfD(1) [OF assms(1)] by simp
  moreover have "elsewhere K (map_table m') pos k u \<longleftrightarrow> elsewhere K (map_table m) pos k u"
    unfolding elsewhere_def assms(5) by auto
  ultimately show ?thesis using map_get_split [OF assms(2), of pos k u] assms(3,4) by auto
qed

lemma elsewhere_other:
  assumes "map_wf K m" "pos < map_alloc m" "keys_of m ! pos = Key l" "ko_equal K l k"
  shows "\<not> elsewhere K (map_table m) pos k u"
proof
  note w = map_wfD [OF assms(1)]
  assume "elsewhere K (map_table m) pos k u"
  then obtain q l' where q: "q < map_alloc m" "q \<noteq> pos" "keys_of m ! q = Key l'" "ko_equal K l' k"
    using w(1) by (auto simp: elsewhere_def)
  then have "ko_equal K l' l" using assms(4) eq_sym eq_trans by blast
  then show False using w(1,6) q assms(2,3) unfolding table_ok_def by (metis length_map)
qed

lemma map_add_at_wf:
  assumes "map_wf K m" "pos < map_alloc m" "\<forall>l. keys_of m ! pos \<noteq> Key l" "\<not> has_key (ko_equal K) (keys_of m) k"
    and "slot_reached (key_hash K k) (keys_of m) pos"
  shows "map_wf K (map_add_at K m pos k)" "map_table (map_add_at K m pos k) ! pos = (Key k, None)"
    "map_get K (map_add_at K m pos k) k' = (if ko_equal K k k' then Some None else map_get K m k')"
    "filled (keys_of (map_add_at K m pos k)) = filled (keys_of m) + 1"
proof -
  note w = map_wfD [OF assms(1)]
  have p: "pos < length (keys_of m)" using assms(2) w(1) by simp
  have keys: "keys_of (map_add_at K m pos k) = (keys_of m)[pos := Key k]"
    by (simp add: map_add_at_def map_update)
  show fl: "filled (keys_of (map_add_at K m pos k)) = filled (keys_of m) + 1"
    using filled_update [OF p, of "Key k"] assms(3) unfolding keys by simp
  have q: "ko_is_qstr K l" if a: "all_keys_are_qstrs (map_add_at K m pos k)" "Key l \<in> set (keys_of (map_add_at K m pos k))" for l
  proof -
    have "l = k \<or> Key l \<in> set (keys_of m)"
      using a(2) set_update_subset_insert [of "keys_of m" pos "Key k"] unfolding keys by blast
    moreover have "ko_is_qstr K k" "all_keys_are_qstrs m" using a(1) by (auto simp: map_add_at_def split: if_splits)
    ultimately show "ko_is_qstr K l" using w(3) by blast
  qed
  have tok: "table_ok (ko_equal K) (key_hash K) (keys_of (map_add_at K m pos k))"
    unfolding keys by (rule table_ok_insert [OF w(6) p assms(3-5)])
  have flags: "length (map_table (map_add_at K m pos k)) = map_alloc (map_add_at K m pos k)"
    "map_used (map_add_at K m pos k) = map_used m + 1" "\<not> is_fixed (map_add_at K m pos k)" "\<not> is_ordered (map_add_at K m pos k)"
    using w(1,4,5) by (simp_all add: map_add_at_def)
  have used: "map_used (map_add_at K m pos k) = filled (keys_of (map_add_at K m pos k))" using flags(2) fl w(2) by simp
  show wf: "map_wf K (map_add_at K m pos k)" by (rule map_wfI [OF flags(1) used q flags(3,4) tok])
  show "map_table (map_add_at K m pos k) ! pos = (Key k, None)" using p by (simp add: map_add_at_def)
  have tab: "map_table (map_add_at K m pos k) = (map_table m)[pos := (Key k, None)]" "map_alloc (map_add_at K m pos k) = map_alloc m"
    by (simp_all add: map_add_at_def)
  have pl: "\<not> (\<exists>l u. map_table m ! pos = (Key l, u))" using assms(3) p by auto
  have no: "\<not> elsewhere K (map_table m) pos k' u" if "ko_equal K k k'" for u
  proof
    assume "elsewhere K (map_table m) pos k' u"
    then obtain q l where q: "q < length (map_table m)" "map_table m ! q = (Key l, u)" "ko_equal K l k'" by (auto simp: elsewhere_def)
    have "ko_equal K l k" using q(3) that eq_sym eq_trans by blast
    then show False using assms(4) q(1,2) by (auto simp: has_key_def)
  qed
  show "map_get K (map_add_at K m pos k) k' = (if ko_equal K k k' then Some None else map_get K m k')"
  proof (rule option_extI)
    fix u
    have "map_get K (map_add_at K m pos k) k' = Some u \<longleftrightarrow> u = None \<and> ko_equal K k k' \<or> elsewhere K (map_table m) pos k' u"
      using map_get_update [OF assms(1) wf assms(2) tab(2,1), of k' u] by simp
    moreover have "map_get K m k' = Some u \<longleftrightarrow> elsewhere K (map_table m) pos k' u"
      using map_get_split [OF assms(1,2), of k' u] pl by blast
    ultimately show "map_get K (map_add_at K m pos k) k' = Some u \<longleftrightarrow> (if ko_equal K k k' then Some None else map_get K m k') = Some u"
      using no [of u] by (cases "ko_equal K k k'") auto
  qed
qed

lemma map_remove_at_wf:
  assumes "map_wf K m" "pos < map_alloc m" "keys_of m ! pos = Key l"
    and "s = deleted_slot (keys_of m) pos \<or> s = Sentinel"
    and "m' = m\<lparr>map_used := map_used m - 1, map_table := (map_table m)[pos := (s, v)]\<rparr>"
  shows "map_wf K m'" "map_get K m' k = (if ko_equal K l k then None else map_get K m k)"
    "filled (keys_of m) = filled (keys_of m') + 1"
proof -
  note w = map_wfD [OF assms(1)]
  have p: "pos < length (keys_of m)" using assms(2) w(1) by simp
  have nk: "\<forall>l. s \<noteq> Key l" using assms(4) by (auto simp: deleted_slot_def split: if_splits)
  have keys: "keys_of m' = (keys_of m)[pos := s]" by (simp add: assms(5) map_update)
  show fl: "filled (keys_of m) = filled (keys_of m') + 1"
    using filled_update [OF p, of s] assms(3) nk unfolding keys by simp
  have tok: "table_ok (ko_equal K) (key_hash K) (keys_of m')"
  proof (cases "s = Sentinel")
    case True
    have "slot_reached h (keys_of m') q" if "slot_reached h (keys_of m) q" for h q
    proof -
      obtain j where j: "j < length (keys_of m)" "q = (h + j) mod length (keys_of m)" "\<forall>i < j. keys_of m ! ((h + i) mod length (keys_of m)) \<noteq> Null"
        using \<open>slot_reached h (keys_of m) q\<close> by (auto simp: slot_reached_def)
      then have "\<forall>i < j. (keys_of m)[pos := s] ! ((h + i) mod length (keys_of m)) \<noteq> Null"
        using True p by (metis nth_list_update_eq nth_list_update_neq slot.distinct(1))
      then show ?thesis unfolding keys slot_reached_def using j(1,2) by auto
    qed
    moreover have "keys_of m ! q = Key l' \<and> q \<noteq> pos" if "q < length (keys_of m)" "keys_of m' ! q = Key l'" for q l'
      using that nk p unfolding keys by (cases "q = pos") auto
    ultimately show ?thesis using w(6) unfolding table_ok_def keys by (metis length_list_update)
  next
    case False
    then have "s = deleted_slot (keys_of m) pos" using assms(4) by blast
    then show ?thesis unfolding keys using table_ok_delete [OF w(6) p assms(3)] by simp
  qed
  have q: "ko_is_qstr K l" if a: "all_keys_are_qstrs m'" "Key l \<in> set (keys_of m')" for l
  proof -
    have "Key l \<in> set (keys_of m)"
      using a(2) set_update_subset_insert [of "keys_of m" pos s] nk unfolding keys by blast
    then show "ko_is_qstr K l" using a(1) w(3) by (simp add: assms(5))
  qed
  have flags: "length (map_table m') = map_alloc m'" "map_used m' = map_used m - 1" "\<not> is_fixed m'" "\<not> is_ordered m'"
    using w(1,4,5) by (simp_all add: assms(5))
  have used: "map_used m' = filled (keys_of m')" using flags(2) fl w(2) by simp
  show wf: "map_wf K m'" by (rule map_wfI [OF flags(1) used q flags(3,4) tok])
  have tab: "map_table m' = (map_table m)[pos := (s, v)]" "map_alloc m' = map_alloc m" by (simp_all add: assms(5))
  have l: "fst (map_table m ! pos) = Key l" using assms(3) p by simp
  show "map_get K m' k = (if ko_equal K l k then None else map_get K m k)"
  proof (rule option_extI)
    fix u
    have "map_get K m' k = Some u \<longleftrightarrow> elsewhere K (map_table m) pos k u"
      using map_get_update [OF assms(1) wf assms(2) tab(2,1), of k u] nk by blast
    moreover have "map_get K m k = Some u \<longleftrightarrow> snd (map_table m ! pos) = u \<and> ko_equal K l k \<or> elsewhere K (map_table m) pos k u"
      using map_get_split [OF assms(1,2), of k u] l by (cases "map_table m ! pos") auto
    ultimately show "map_get K m' k = Some u \<longleftrightarrow> (if ko_equal K l k then None else map_get K m k) = Some u"
      using elsewhere_other [OF assms(1-3), of k u] by (cases "ko_equal K l k") auto
  qed
qed

lemma map_set_value_wf:
  assumes "map_wf K m" "pos < map_alloc m" "keys_of m ! pos = Key l"
  shows "map_wf K (map_set_value m pos v)" "map_get K (map_set_value m pos v) k = (if ko_equal K l k then Some v else map_get K m k)"
    "keys_of (map_set_value m pos v) = keys_of m"
proof -
  note w = map_wfD [OF assms(1)]
  have p: "pos < length (map_table m)" using assms(2) w(1) by simp
  have l: "fst (map_table m ! pos) = Key l" using assms(3) p by simp
  show keys: "keys_of (map_set_value m pos v) = keys_of m"
    using p by (simp add: map_set_value_def map_update list_update_same_conv)
  show wf: "map_wf K (map_set_value m pos v)"
    using assms(1) keys unfolding map_wf_def by (simp add: map_set_value_def)
  have tab: "map_table (map_set_value m pos v) = (map_table m)[pos := (Key l, v)]" "map_alloc (map_set_value m pos v) = map_alloc m"
    by (simp_all add: map_set_value_def l)
  show "map_get K (map_set_value m pos v) k = (if ko_equal K l k then Some v else map_get K m k)"
    by (rule option_extI)
      (use elsewhere_other [OF assms] map_get_update [OF assms(1) wf assms(2) tab(2,1), of k] map_get_split [OF assms(1,2), of k] l in auto)
qed


text \<open>What the search loop finds.\<close>

lemma search_outcome:
  assumes "map_wf K m" "index_eq K f m k"
  shows "case probe f (keys_of m) (probe_seq (map_alloc m) (key_hash K k mod map_alloc m)) None of
      Found p \<Rightarrow> p < map_alloc m \<and> (\<exists>l. keys_of m ! p = Key l \<and> ko_equal K l k)
    | Empty p a \<Rightarrow> \<not> has_key (ko_equal K) (keys_of m) k
        \<and> free_slot (key_hash K k) (keys_of m) (case a of None \<Rightarrow> p | Some a \<Rightarrow> a)
    | Wrapped (Some a) \<Rightarrow> \<not> has_key (ko_equal K) (keys_of m) k \<and> free_slot (key_hash K k) (keys_of m) a
    | Wrapped None \<Rightarrow> \<not> has_key (ko_equal K) (keys_of m) k \<and> filled (keys_of m) = map_alloc m"
proof (rule table_search [OF map_wfD(6) [OF assms(1)]])
  show "map_alloc m = length (keys_of m)" using map_wfD(1) [OF assms(1)] by simp
  show "f l = ko_equal K l k" if "Key l \<in> set (keys_of m)" for l using assms(2) that unfolding index_eq_def by blast
qed

lemma search_found:
  assumes "map_wf K m" "index_eq K f m k" "has_key (ko_equal K) (keys_of m) k"
  shows "\<exists>p l. map_search (Suc r) R K f (key_hash K k) m k kind = Some (if kind = REMOVE_IF_FOUND then map_remove_at m p else m, Some p)
    \<and> p < map_alloc m \<and> keys_of m ! p = Key l \<and> ko_equal K l k"
  using search_outcome [OF assms(1,2)] assms(3) by (auto split: probe_result.splits option.splits)

lemma search_missing:
  assumes "map_wf K m" "index_eq K f m k" "\<not> has_key (ko_equal K) (keys_of m) k" "kind \<noteq> ADD_IF_NOT_FOUND"
  shows "map_search (Suc r) R K f (key_hash K k) m k kind = Some (m, None)"
proof -
  note w = map_wfD(1) [OF assms(1)]
  have "\<not> (p < map_alloc m \<and> keys_of m ! p = Key l \<and> ko_equal K l k)" for p l using assms(3) w by (auto simp: has_key_def)
  then show ?thesis using search_outcome [OF assms(1,2)] assms(4) by (simp split: probe_result.splits) blast
qed

lemma search_add:
  assumes "map_wf K m" "index_eq K f m k" "\<not> has_key (ko_equal K) (keys_of m) k" "filled (keys_of m) < map_alloc m"
  shows "\<exists>q. map_search (Suc r) R K f (key_hash K k) m k ADD_IF_NOT_FOUND = Some (map_add_at K m q k, Some q)
    \<and> free_slot (key_hash K k) (keys_of m) q"
proof -
  note w = map_wfD(1) [OF assms(1)]
  have "\<not> (p < map_alloc m \<and> keys_of m ! p = Key l \<and> ko_equal K l k)" for p l using assms(3) w by (auto simp: has_key_def)
  then show ?thesis using search_outcome [OF assms(1,2)] assms(4) 
    by (auto simp: Let_def split: probe_result.splits option.splits)
qed

lemma search_full:
  assumes "map_wf K m" "index_eq K f m k" "\<not> has_key (ko_equal K) (keys_of m) k" "filled (keys_of m) = map_alloc m"
  shows "map_search (Suc r) R K f (key_hash K k) m k ADD_IF_NOT_FOUND = R m \<bind> (\<lambda>m. map_search r R K f (key_hash K k) m k ADD_IF_NOT_FOUND)"
proof -
  note w = map_wfD(1) [OF assms(1)]
  have 1: "\<not> (p < map_alloc m \<and> keys_of m ! p = Key l \<and> ko_equal K l k)" for p l using assms(3) w by (auto simp: has_key_def)
  have 2: "\<not> free_slot h (keys_of m) q" for h q using free_slot_room [of h "keys_of m" q] assms(4) w by auto
  show ?thesis using search_outcome [OF assms(1,2)] 1 2 by (auto split: probe_result.splits option.splits)
qed

lemma lookup_add_room:
  assumes "map_wf K m" "\<not> has_key (ko_equal K) (keys_of m) k" "filled (keys_of m) < map_alloc m"
  shows "\<exists>q. mp_map_lookup_with R K m k ADD_IF_NOT_FOUND = Some (map_add_at K m q k, Some q)
    \<and> free_slot (key_hash K k) (keys_of m) q"
proof -
  note w = map_wfD [OF assms(1)]
  let ?f = "\<lambda>l. l = k \<or> \<not> (all_keys_are_qstrs m \<and> (ko_is_qstr K k \<or> \<not> ko_is_str K k)) \<and> ko_equal K l k"
  have "mp_map_lookup_with R K m k ADD_IF_NOT_FOUND = map_search (Suc 1) R K ?f (key_hash K k) m k ADD_IF_NOT_FOUND"
    using w(4,5) assms(3) by (simp add: mp_map_lookup_with_def Let_def numeral_2_eq_2 del: map_search.simps)
  then show ?thesis using search_add [OF assms(1) index_eq_compare [OF assms(1)] assms(2,3)] by auto
qed

lemma map_readd_spec:
  assumes "map_wf K m" "lookup = (\<lambda>m k. mp_map_lookup_with R K m k)"
    and "filled (keys_of m) + filled (map fst es) \<le> map_alloc m"
    and "distinct_keys (ko_equal K) es"
    and "\<And>k. Key k \<in> set (map fst es) \<Longrightarrow> \<not> has_key (ko_equal K) (keys_of m) k"
  shows "\<exists>m'. map_readd lookup es m = Some m' \<and> map_wf K m' \<and> map_alloc m' = map_alloc m
    \<and> filled (keys_of m') = filled (keys_of m) + filled (map fst es) \<and> map_keys m' = map_keys m \<union> {k. Key k \<in> set (map fst es)}
    \<and> (\<forall>k. map_get K m' k = (case table_get (ko_equal K) es k of Some v \<Rightarrow> Some v | None \<Rightarrow> map_get K m k))"
  using assms(1,3-5)
proof (induction es arbitrary: m)
  case Nil
  then show ?case by (auto simp: filled_def)
next
  case (Cons e es)
  obtain s v where e: "e = (s, v)" by fastforce
  have inj: "distinct_keys (ko_equal K) es" by (rule distinct_keys_tl [OF Cons.prems(3)])
  show ?case
  proof (cases "\<exists>k. s = Key k")
    case False
    then have "filled (map fst (e # es)) = filled (map fst es)" "map_readd lookup (e # es) m = map_readd lookup es m"
      "table_get (ko_equal K) (e # es) = table_get (ko_equal K) es" "{k. Key k \<in> set (map fst (e # es))} = {k. Key k \<in> set (map fst es)}"
      using e by (cases s; auto simp: filled_def)+
    moreover have "Key k' \<in> set (map fst es) \<Longrightarrow> \<not> has_key (ko_equal K) (keys_of m) k'" for k' using Cons.prems(4) by simp
    ultimately show ?thesis using Cons.IH [OF Cons.prems(1) _ inj] Cons.prems(2) by simp
  next
    case True
    then obtain k where s: "s = Key k" by blast
    have nk: "\<not> has_key (ko_equal K) (keys_of m) k" using Cons.prems(4) e s by simp
    have fe: "filled (map fst (e # es)) = filled (map fst es) + 1" using e s by (simp add: filled_def)
    obtain q where q: "lookup m k ADD_IF_NOT_FOUND = Some (map_add_at K m q k, Some q)" "free_slot (key_hash K k) (keys_of m) q"
      using lookup_add_room [OF Cons.prems(1) nk, of R] Cons.prems(2) fe assms(2) by auto
    define m1 where "m1 = map_add_at K m q k"
    define m2 where "m2 = map_set_value m1 q v"
    have al: "map_alloc m1 = map_alloc m" "map_alloc m2 = map_alloc m" by (simp_all add: m1_def m2_def map_add_at_def map_set_value_def)
    have ql: "q < map_alloc m" "\<forall>l. keys_of m ! q \<noteq> Key l" using q(2) map_wfD(1) [OF Cons.prems(1)] by (auto simp: free_slot_def)
    have m1: "map_wf K m1" "map_table m1 ! q = (Key k, None)" "\<And>k'. map_get K m1 k' = (if ko_equal K k k' then Some None else map_get K m k')"
      "filled (keys_of m1) = filled (keys_of m) + 1"
      using map_add_at_wf [OF Cons.prems(1) ql nk] q(2) unfolding m1_def free_slot_def by blast+
    have kq: "keys_of m1 ! q = Key k" using m1(2) ql(1) map_wfD(1) [OF m1(1)] al by simp
    have qa: "q < map_alloc m1" using ql(1) al by simp
    note m2 = map_set_value_wf [OF m1(1) qa kq, of v, folded m2_def]
    have ks: "map_keys m2 = insert k (map_keys m)"
    proof -
      have "keys_of m2 = (keys_of m)[q := Key k]" using m2(3) by (simp add: m1_def map_add_at_def map_update)
      then show ?thesis using map_keys_update [of q "keys_of m" k] ql map_wfD(1) [OF Cons.prems(1)] by (simp add: map_keys_def)
    qed
    have step: "map_readd lookup (e # es) m = map_readd lookup es m2"
      using e s q(1) by (simp add: m1_def m2_def map_set_value_def)
    have rec: "\<not> has_key (ko_equal K) (keys_of m2) k'" if "Key k' \<in> set (map fst es)" for k'
    proof -
      have "\<exists>p < length es. fst (es ! p) = Key k'" by (rule nth_key [OF that])
      then obtain p where p: "p < length es" "fst (es ! p) = Key k'" by blast
      have "\<not> ko_equal K k k'" using distinct_keysD [OF Cons.prems(3), of 0 "Suc p" k k'] p e s by auto
      then have "map_get K m2 k' = map_get K m k'" using m2(2) m1(3) by simp
      moreover have "\<not> has_key (ko_equal K) (keys_of m) k'" using Cons.prems(4) that by simp
      ultimately show ?thesis by (metis table_get_None)
    qed
    have room: "filled (keys_of m2) + filled (map fst es) \<le> map_alloc m2"
      using Cons.prems(2) fe m1(4) m2(3) al by simp
    obtain m' where m': "map_readd lookup es m2 = Some m'" "map_wf K m'" "map_alloc m' = map_alloc m2"
      "filled (keys_of m') = filled (keys_of m2) + filled (map fst es)" "map_keys m' = map_keys m2 \<union> {k. Key k \<in> set (map fst es)}"
      "\<And>k'. map_get K m' k' = (case table_get (ko_equal K) es k' of Some v \<Rightarrow> Some v | None \<Rightarrow> map_get K m2 k')"
      using Cons.IH [OF m2(1) room inj rec] by blast
    have "map_get K m' k' = (case table_get (ko_equal K) (e # es) k' of Some v \<Rightarrow> Some v | None \<Rightarrow> map_get K m k')" for k'
    proof (cases "ko_equal K k k'")
      case True
      have "\<not> has_key (ko_equal K) (map fst es) k'"
      proof
        assume "has_key (ko_equal K) (map fst es) k'"
        then obtain p l where p: "p < length es" "fst (es ! p) = Key l" "ko_equal K l k'" by (auto simp: has_key_def)
        then have "ko_equal K k l" using True eq_sym eq_trans by blast
        then show False using distinct_keysD [OF Cons.prems(3), of 0 "Suc p" k l] p e s by simp
      qed
      then have "table_get (ko_equal K) es k' = None" by (simp add: table_get_None)
      then show ?thesis using m'(6) m2(2) True e s by simp
    next
      case False
      then have "map_get K m2 k' = map_get K m k'" using m2(2) [of k'] m1(3) [of k'] by simp
      then show ?thesis using m'(6) [of k'] False e s by (simp split: option.split)
    qed
    moreover have "map_keys m' = map_keys m \<union> {k. Key k \<in> set (map fst (e # es))}" using m'(5) ks e s by auto
    ultimately show ?thesis using step m' al m2(3) m1(4) fe by auto
  qed
qed

lemma rehash_spec:
  assumes "map_wf K m" "lookup = (\<lambda>m k. mp_map_lookup_with R K m k)"
  shows "\<exists>m'. mp_map_rehash_with lookup m = Some m' \<and> map_wf K m' \<and> map_alloc m < map_alloc m'
    \<and> filled (keys_of m') = filled (keys_of m) \<and> map_keys m' = map_keys m \<and> (\<forall>k. map_get K m' k = map_get K m k)"
proof -
  note w = map_wfD [OF assms(1)]
  define n where "n = get_hash_alloc_greater_or_equal_to (map_alloc m + 1)"
  define m0 where "m0 = m\<lparr>map_alloc := n, map_used := 0, all_keys_are_qstrs := True, map_table := replicate n (Null, None)\<rparr>"
  have n: "map_alloc m < n" using get_hash_alloc_ge [of "map_alloc m + 1"] by (simp add: n_def)
  have wf: "map_wf K m0" by (rule map_wfI) (use w(4,5) in \<open>simp_all add: m0_def\<close>)
  have e: "\<not> has_key (ko_equal K) (keys_of m0) k" for k by (simp add: m0_def)
  have room: "filled (keys_of m0) + filled (map fst (map_table m)) \<le> map_alloc m0"
    using filled_le [of "keys_of m"] n w(1) by (simp add: m0_def)
  have inj: "distinct_keys (ko_equal K) (map_table m)"
    unfolding distinct_keys_def
  proof (intro allI impI, elim conjE)
    fix p q k l
    assume "p < length (map_table m)" "q < length (map_table m)" "fst (map_table m ! p) = Key k" "fst (map_table m ! q) = Key l"
      "ko_equal K k l"
    then show "p = q" using table_ok_inj [OF w(6), of p q k l] by simp
  qed
  have g0: "map_get K m0 k = None" for k using e [of k] by (simp add: table_get_None)
  obtain m' where m': "map_readd lookup (map_table m) m0 = Some m'" "map_wf K m'" "map_alloc m' = map_alloc m0"
    "filled (keys_of m') = filled (keys_of m0) + filled (keys_of m)" "map_keys m' = map_keys m0 \<union> {k. Key k \<in> set (keys_of m)}"
    "\<And>k. map_get K m' k = (case map_get K m k of Some v \<Rightarrow> Some v | None \<Rightarrow> map_get K m0 k)"
    using map_readd_spec [OF wf assms(2) room inj e] by blast
  have "mp_map_rehash_with lookup m = Some m'" using m'(1) by (simp add: mp_map_rehash_with_def m0_def n_def)
  moreover have "map_keys m' = map_keys m" using m'(5) by (auto simp: map_keys_def m0_def)
  moreover have "map_get K m' k = map_get K m k" for k using m'(6) g0 by (simp split: option.splits)
  moreover have "filled (keys_of m') = filled (keys_of m)" "map_alloc m' = n" using m'(3,4) by (simp_all add: m0_def)
  ultimately show ?thesis using m'(2) n by auto
qed

text \<open>The look-up in its three kinds.\<close>

lemma lookup_with_cases:
  assumes "map_wf K m" "kind \<noteq> ADD_IF_NOT_FOUND"
  shows "if has_key (ko_equal K) (keys_of m) k
    then \<exists>p l. mp_map_lookup_with R K m k kind = Some (if kind = REMOVE_IF_FOUND then map_remove_at m p else m, Some p)
      \<and> p < map_alloc m \<and> keys_of m ! p = Key l \<and> ko_equal K l k
    else mp_map_lookup_with R K m k kind = Some (m, None)"
proof -
  note w = map_wfD [OF assms(1)]
  let ?f = "\<lambda>l. l = k \<or> \<not> (all_keys_are_qstrs m \<and> (ko_is_qstr K k \<or> \<not> ko_is_str K k)) \<and> ko_equal K l k"
  have none: "\<not> has_key (ko_equal K) (keys_of m) k" if "all_keys_are_qstrs m \<and> \<not> ko_is_qstr K k \<and> \<not> ko_is_str K k \<or> map_alloc m = 0"
  proof
    assume "has_key (ko_equal K) (keys_of m) k"
    then obtain p l where p: "p < length (keys_of m)" "keys_of m ! p = Key l" "ko_equal K l k" by (auto simp: has_key_def)
    then have "Key l \<in> set (keys_of m)" using nth_mem by metis
    then show False using that w(1,3) p qstr_only_str by (cases "map_alloc m = 0") auto
  qed
  have srch: "mp_map_lookup_with R K m k kind = map_search (Suc 1) R K ?f (key_hash K k) m k kind"
    if "\<not> (all_keys_are_qstrs m \<and> \<not> ko_is_qstr K k \<and> \<not> ko_is_str K k \<or> map_alloc m = 0)"
    using that w(4,5) assms(2) by (auto simp: mp_map_lookup_with_def Let_def numeral_2_eq_2 simp del: map_search.simps)
  have early: "mp_map_lookup_with R K m k kind = Some (m, None)"
    if "all_keys_are_qstrs m \<and> \<not> ko_is_qstr K k \<and> \<not> ko_is_str K k \<or> map_alloc m = 0"
    using that w(4,5) assms(2) by (auto simp: mp_map_lookup_with_def Let_def simp del: map_search.simps)
  show ?thesis
    using search_found [OF assms(1) index_eq_compare [OF assms(1)], of k 1 R kind]
      search_missing [OF assms(1) index_eq_compare [OF assms(1)] _ assms(2), of k 1 R] srch early none
    by (cases "all_keys_are_qstrs m \<and> \<not> ko_is_qstr K k \<and> \<not> ko_is_str K k \<or> map_alloc m = 0") auto
qed

lemma index_eq_keys: "index_eq K f m k \<Longrightarrow> map_keys m' = map_keys m \<Longrightarrow> index_eq K f m' k"
  unfolding index_eq_def map_keys_def by blast

lemma has_key_get: "map_wf K m \<Longrightarrow> has_key (ko_equal K) (keys_of m) k \<longleftrightarrow> map_get K m k \<noteq> None"
  using table_get_None by metis

lemma lookup_with_add:
  assumes "map_wf K m" "R = mp_map_rehash_with (\<lambda>m k. mp_map_lookup_with R' K m k)"
  shows "if has_key (ko_equal K) (keys_of m) k
    then \<exists>m' p l. mp_map_lookup_with R K m k ADD_IF_NOT_FOUND = Some (m', Some p) \<and> m' = m
      \<and> p < map_alloc m' \<and> keys_of m' ! p = Key l \<and> ko_equal K l k
    else \<exists>m' q. mp_map_lookup_with R K m k ADD_IF_NOT_FOUND = Some (map_add_at K m' q k, Some q)
      \<and> map_wf K m' \<and> filled (keys_of m') = filled (keys_of m) \<and> map_alloc m \<le> map_alloc m' \<and> (\<forall>k. map_get K m' k = map_get K m k)
      \<and> free_slot (key_hash K k) (keys_of m') q"
proof -
  note w = map_wfD [OF assms(1)]
  let ?f = "\<lambda>l. l = k \<or> \<not> (all_keys_are_qstrs m \<and> (ko_is_qstr K k \<or> \<not> ko_is_str K k)) \<and> ko_equal K l k"
  let ?s = "\<lambda>r m. map_search r R K ?f (key_hash K k) m k ADD_IF_NOT_FOUND"
  have ie: "index_eq K ?f m k" by (rule index_eq_compare [OF assms(1)])
  obtain mr where mr: "R m = Some mr" "map_wf K mr" "map_alloc m < map_alloc mr" "filled (keys_of mr) = filled (keys_of m)"
    "map_keys mr = map_keys m" "\<And>k. map_get K mr k = map_get K m k"
    using rehash_spec [OF assms(1), of _ R'] assms(2) by blast
  have ier: "index_eq K ?f mr k" by (rule index_eq_keys [OF ie mr(5)])
  have hk: "has_key (ko_equal K) (keys_of mr) k \<longleftrightarrow> has_key (ko_equal K) (keys_of m) k"
    using has_key_get mr(2,6) assms(1) by metis
  have roomr: "filled (keys_of mr) < map_alloc mr" using filled_le [of "keys_of m"] w(1) mr(3,4) by simp
  have lw: "mp_map_lookup_with R K m k ADD_IF_NOT_FOUND = (if map_alloc m = 0 then ?s (Suc 1) mr else ?s (Suc 1) m)"
    using w(4,5) mr(1) by (simp add: mp_map_lookup_with_def Let_def numeral_2_eq_2 del: map_search.simps)
  show ?thesis
  proof (cases "has_key (ko_equal K) (keys_of m) k")
    case True
    then have "map_alloc m \<noteq> 0" using w(1) by (auto simp: has_key_def)
    then show ?thesis using search_found [OF assms(1) ie True, of 1 R ADD_IF_NOT_FOUND] lw True by auto
  next
    case False
    note addr = search_add [OF mr(2) ier _ roomr, of _ R]
    have through_r: "\<exists>q. ?s (Suc r) mr = Some (map_add_at K mr q k, Some q) \<and> free_slot (key_hash K k) (keys_of mr) q" for r
      using addr [of r] hk False by blast
    have "filled (keys_of m) = map_alloc m \<Longrightarrow> ?s (Suc (Suc 0)) m = ?s (Suc 0) mr"
      using search_full [OF assms(1) ie False, of "Suc 0" R] mr(1) by simp
    moreover have "filled (keys_of m) < map_alloc m \<Longrightarrow> \<exists>q. ?s (Suc (Suc 0)) m = Some (map_add_at K m q k, Some q) \<and> free_slot (key_hash K k) (keys_of m) q"
      by (rule search_add [OF assms(1) ie False])
    moreover have "filled (keys_of m) \<le> map_alloc m" using filled_le [of "keys_of m"] w(1) by simp
    ultimately have "(\<exists>q. mp_map_lookup_with R K m k ADD_IF_NOT_FOUND = Some (map_add_at K mr q k, Some q) \<and> free_slot (key_hash K k) (keys_of mr) q)
        \<or> (\<exists>q. mp_map_lookup_with R K m k ADD_IF_NOT_FOUND = Some (map_add_at K m q k, Some q) \<and> free_slot (key_hash K k) (keys_of m) q)"
      using lw through_r [of 1] through_r [of 0] by (cases "filled (keys_of m) = map_alloc m") (auto simp del: map_search.simps)
    then show ?thesis using False mr(2,3,4,6) assms(1) by (auto simp del: map_search.simps intro: less_imp_le)
  qed
qed

end

end
