(* ===== verification/DictLaws.thy ===== *)
theory DictLaws
  imports PyDict MapLaws
begin

text \<open>
  What the operations of a dictionary do under the laws of the keys.  A well-formed dictionary stands
  for a function from the keys, up to their equality, to values; every operation is characterised by
  its effect on this function and on the number of keys.
\<close>

section \<open>The look-ups of a well-formed map\<close>

text \<open>The value a map holds for a key.\<close>

definition dict_val :: "'o key_ops \<Rightarrow> ('o, 'v) mp_map \<Rightarrow> 'o \<Rightarrow> 'v option" where
  "dict_val K m k = (case map_get K m k of None \<Rightarrow> None | Some v \<Rightarrow> v)"

text \<open>A dictionary is a well-formed map in which every key has a value.\<close>

definition dict_ok :: "'o key_ops \<Rightarrow> ('o, 'v) mp_map \<Rightarrow> bool" where
  "dict_ok K m \<longleftrightarrow> map_wf K m \<and> (\<forall>k. map_get K m k \<noteq> Some None)"

lemma mp_map_lookup_unfold:
  fixes m :: "('o, 'v) mp_map"
  shows "mp_map_lookup K m k kind =
    mp_map_lookup_with (mp_map_rehash_with (\<lambda>m k. mp_map_lookup_with (mp_map_rehash_with (mp_map_lookup_depth 0 K)) K m k)) K m k kind"
proof -
  have "mp_map_lookup_depth (Suc 0) K = (\<lambda>(m :: ('o, 'v) mp_map) k. mp_map_lookup_with (mp_map_rehash_with (mp_map_lookup_depth 0 K)) K m k)"
    by (intro ext) simp
  moreover have "mp_map_lookup K m k kind = mp_map_lookup_with (mp_map_rehash_with (mp_map_lookup_depth (Suc 0) K)) K m k kind"
    unfolding mp_map_lookup_def numeral_2_eq_2 by (rule mp_map_lookup_depth.simps(2))
  ultimately show ?thesis by (simp only:)
qed

context key_laws
begin

lemma map_get_slot:
  assumes "map_wf K m" "p < map_alloc m" "keys_of m ! p = Key l" "ko_equal K l k"
  shows "map_get K m k = Some (snd (map_table m ! p))"
proof -
  have "fst (map_table m ! p) = Key l" using assms(2,3) map_wfD(1) [OF assms(1)] by simp
  then have "map_table m ! p = (Key l, snd (map_table m ! p))" by (metis prod.collapse)
  then show ?thesis using map_get_iff [OF assms(1)] assms(2,4) by blast
qed

lemma lookup_LOOKUP:
  assumes "map_wf K m"
  shows "\<exists>r. mp_map_lookup K m k LOOKUP = Some (m, r) \<and> map_get K m k = map_option (\<lambda>p. snd (map_table m ! p)) r"
proof (cases "has_key (ko_equal K) (keys_of m) k")
  case True
  then obtain p l where p: "mp_map_lookup K m k LOOKUP = Some (m, Some p)" "p < map_alloc m" "keys_of m ! p = Key l" "ko_equal K l k"
    using lookup_with_cases [OF assms, of LOOKUP k] unfolding mp_map_lookup_unfold by fastforce
  then show ?thesis using map_get_slot [OF assms p(2-4)] by simp
next
  case False
  then have "mp_map_lookup K m k LOOKUP = Some (m, None)"
    using lookup_with_cases [OF assms, of LOOKUP k] unfolding mp_map_lookup_unfold by simp
  then show ?thesis using False has_key_get [OF assms] by simp
qed

lemma lookup_REMOVE:
  assumes "map_wf K m"
  shows "\<exists>m' r. mp_map_lookup K m k REMOVE_IF_FOUND = Some (m', r) \<and> map_wf K m'
    \<and> map_get K m k = map_option (\<lambda>p. snd (map_table m' ! p)) r
    \<and> (\<forall>k'. map_get K m' k' = (if ko_equal K k k' then None else map_get K m k'))
    \<and> map_used m = map_used m' + (if r = None then 0 else 1)
    \<and> (\<forall>p. r = Some p \<longrightarrow> p < map_alloc m' \<and> (\<forall>l. keys_of m' ! p \<noteq> Key l))"
proof (cases "has_key (ko_equal K) (keys_of m) k")
  case True
  then obtain p l where p: "mp_map_lookup K m k REMOVE_IF_FOUND = Some (map_remove_at m p, Some p)" "p < map_alloc m"
    "keys_of m ! p = Key l" "ko_equal K l k"
    using lookup_with_cases [OF assms, of REMOVE_IF_FOUND k] unfolding mp_map_lookup_unfold by fastforce
  define m' where "m' = map_remove_at m p"
  note rem = map_remove_at_wf [OF assms p(2,3) disjI1 [OF refl], of m' "snd (map_table m ! p)"]
  have e: "m' = m\<lparr>map_used := map_used m - 1, map_table := (map_table m)[p := (deleted_slot (keys_of m) p, snd (map_table m ! p))]\<rparr>"
    by (simp add: m'_def map_remove_at_def)
  have pl: "p < length (map_table m)" using p(2) map_wfD(1) [OF assms] by simp
  have v: "snd (map_table m' ! p) = snd (map_table m ! p)" using pl by (simp add: e)
  have "\<forall>l. keys_of m' ! p \<noteq> Key l" "p < map_alloc m'" using pl p(2) by (auto simp: e deleted_slot_def)
  moreover have "ko_equal K l k' \<longleftrightarrow> ko_equal K k k'" for k' using p(4) eq_sym eq_trans by blast
  moreover have "map_used m = map_used m' + 1" using rem(3) [OF e] map_wfD(2) [OF assms] map_wfD(2) [OF rem(1) [OF e]] by simp
  ultimately show ?thesis using p(1) rem(1,2) [OF e] map_get_slot [OF assms p(2-4)] v unfolding m'_def [symmetric] by simp
next
  case False
  then have "mp_map_lookup K m k REMOVE_IF_FOUND = Some (m, None)"
    using lookup_with_cases [OF assms, of REMOVE_IF_FOUND k] unfolding mp_map_lookup_unfold by simp
  moreover have n: "map_get K m k = None" using False has_key_get [OF assms] by simp
  moreover have "map_get K m k' = None" if "ko_equal K k k'" for k' using map_get_cong [OF that assms] n by simp
  ultimately show ?thesis using assms by simp
qed

lemma lookup_ADD:
  assumes "map_wf K m"
  shows "\<exists>m' p l. mp_map_lookup K m k ADD_IF_NOT_FOUND = Some (m', Some p) \<and> map_wf K m' \<and> p < map_alloc m'
    \<and> keys_of m' ! p = Key l \<and> ko_equal K l k \<and> snd (map_table m' ! p) = dict_val K m k
    \<and> (\<forall>k'. map_get K m' k' = (if map_get K m k = None \<and> ko_equal K k k' then Some None else map_get K m k'))
    \<and> map_used m' = map_used m + (if map_get K m k = None then 1 else 0)"
proof (cases "has_key (ko_equal K) (keys_of m) k")
  case True
  then obtain p l where p: "mp_map_lookup K m k ADD_IF_NOT_FOUND = Some (m, Some p)" "p < map_alloc m" "keys_of m ! p = Key l" "ko_equal K l k"
    using lookup_with_add [OF assms refl, of k] unfolding mp_map_lookup_unfold by fastforce
  then show ?thesis using map_get_slot [OF assms p(2-4)] assms by (simp add: dict_val_def)
next
  case False
  obtain m' q where q: "mp_map_lookup K m k ADD_IF_NOT_FOUND = Some (map_add_at K m' q k, Some q)" "map_wf K m'"
    "filled (keys_of m') = filled (keys_of m)" "\<And>k. map_get K m' k = map_get K m k" "free_slot (key_hash K k) (keys_of m') q"
    using lookup_with_add [OF assms refl, of k] False unfolding mp_map_lookup_unfold by fastforce
  have n: "map_get K m k = None" using False has_key_get [OF assms] by simp
  then have nk: "\<not> has_key (ko_equal K) (keys_of m') k" using has_key_get [OF q(2)] q(4) by simp
  have ql: "q < map_alloc m'" "\<forall>l. keys_of m' ! q \<noteq> Key l" "slot_reached (key_hash K k) (keys_of m') q"
    using q(5) map_wfD(1) [OF q(2)] by (auto simp: free_slot_def)
  note add = map_add_at_wf [OF q(2) ql(1,2) nk ql(3)]
  have used: "map_used (map_add_at K m' q k) = map_used m + 1"
    using map_wfD(2) [OF add(1)] map_wfD(2) [OF assms] add(4) q(3) by simp
  have al: "q < map_alloc (map_add_at K m' q k)" using ql(1) by (simp add: map_add_at_def)
  have "keys_of (map_add_at K m' q k) ! q = Key k" using add(2) al map_wfD(1) [OF add(1)] by simp
  then show ?thesis using q(1,4) add(1,2,3) n used al eq_refl [of k] by (simp add: dict_val_def)
qed

lemma map_set_value_nokey:
  assumes "map_wf K m" "p < map_alloc m" "\<forall>l. keys_of m ! p \<noteq> Key l"
  shows "map_wf K (map_set_value m p v)" "map_get K (map_set_value m p v) k = map_get K m k"
proof -
  note w = map_wfD [OF assms(1)]
  have p: "p < length (map_table m)" using assms(2) w(1) by simp
  have keys: "keys_of (map_set_value m p v) = keys_of m"
    using p by (simp add: map_set_value_def map_update list_update_same_conv)
  show wf: "map_wf K (map_set_value m p v)"
    using assms(1) keys unfolding map_wf_def by (simp add: map_set_value_def)
  have nk: "\<forall>l. fst (map_table m ! p) \<noteq> Key l" using assms(3) p by simp
  have tab: "map_table (map_set_value m p v) = (map_table m)[p := (fst (map_table m ! p), v)]" "map_alloc (map_set_value m p v) = map_alloc m"
    by (simp_all add: map_set_value_def)
  show "map_get K (map_set_value m p v) k = map_get K m k"
  proof (rule option_extI)
    fix u
    have "map_get K (map_set_value m p v) k = Some u \<longleftrightarrow> elsewhere K (map_table m) p k u"
      using map_get_update [OF assms(1) wf assms(2) tab(2,1), of k u] nk by simp
    moreover have "map_get K m k = Some u \<longleftrightarrow> elsewhere K (map_table m) p k u"
      using map_get_split [OF assms(1,2), of k u] nk by (metis fst_conv)
    ultimately show "map_get K (map_set_value m p v) k = Some u \<longleftrightarrow> map_get K m k = Some u" by blast
  qed
qed

lemma map_put_spec:
  assumes "map_wf K m"
  shows "\<exists>m'. map_put K m k v = Some m' \<and> map_wf K m' \<and> (\<forall>k'. map_get K m' k' = (if ko_equal K k k' then Some v else map_get K m k'))
    \<and> map_used m' = map_used m + (if map_get K m k = None then 1 else 0)"
proof -
  obtain m' p l where p: "mp_map_lookup K m k ADD_IF_NOT_FOUND = Some (m', Some p)" "map_wf K m'" "p < map_alloc m'"
    "keys_of m' ! p = Key l" "ko_equal K l k"
    "\<And>k'. map_get K m' k' = (if map_get K m k = None \<and> ko_equal K k k' then Some None else map_get K m k')"
    "map_used m' = map_used m + (if map_get K m k = None then 1 else 0)"
    using lookup_ADD [OF assms, of k] by blast
  have "ko_equal K l k' \<longleftrightarrow> ko_equal K k k'" for k' using p(5) eq_sym eq_trans by blast
  then show ?thesis using p(1,6,7) map_set_value_wf [OF p(2-4), of v] by (simp add: map_put_def map_set_value_def)
qed

section \<open>The operations of a dictionary\<close>

lemma dict_okD:
  assumes "dict_ok K m"
  shows "map_wf K m" "map_get K m k = map_option Some (dict_val K m k)" "\<not> is_fixed m"
proof -
  have a: "map_wf K m" "map_get K m k \<noteq> Some None" using assms by (auto simp: dict_ok_def)
  show "map_wf K m" by (rule a(1))
  show "map_get K m k = map_option Some (dict_val K m k)"
    using a(2) by (cases "map_get K m k") (auto simp: dict_val_def)
  show "\<not> is_fixed m" by (rule map_wfD(4) [OF a(1)])
qed

lemma dict_val_cong: "dict_ok K m \<Longrightarrow> ko_equal K k k' \<Longrightarrow> dict_val K m k = dict_val K m k'"
  using map_get_cong dict_okD(1) unfolding dict_val_def by metis

lemma dict_okI: "map_wf K m \<Longrightarrow> (\<And>k. map_get K m k = map_option Some (f k)) \<Longrightarrow> dict_ok K m \<and> (\<forall>k. dict_val K m k = f k)"
  unfolding dict_ok_def dict_val_def by (auto split: option.splits)

lemma map_put_ok:
  assumes "dict_ok K m"
  shows "\<exists>m'. map_put K m k (Some v) = Some m' \<and> dict_ok K m' \<and> (\<forall>k'. dict_val K m' k' = (if ko_equal K k k' then Some v else dict_val K m k'))
    \<and> map_used m' = map_used m + (if dict_val K m k = None then 1 else 0)"
proof -
  note d = dict_okD [OF assms]
  obtain m' where m': "map_put K m k (Some v) = Some m'" "map_wf K m'"
    "\<And>k'. map_get K m' k' = (if ko_equal K k k' then Some (Some v) else map_get K m k')"
    "map_used m' = map_used m + (if map_get K m k = None then 1 else 0)"
    using map_put_spec [OF d(1), of k "Some v"] by blast
  have "map_get K m' k' = map_option Some (if ko_equal K k k' then Some v else dict_val K m k')" for k'
    using m'(3) [of k'] d(2) [of k'] by simp
  then show ?thesis using dict_okI [OF m'(2)] m'(1,4) d(2) [of k] by auto
qed

lemma dict_store_ok:
  assumes "dict_ok K m"
  shows "\<exists>m'. mp_obj_dict_store K m k v = Some (m', Inr ()) \<and> dict_ok K m' \<and> (\<forall>k'. dict_val K m' k' = (if ko_equal K k k' then Some v else dict_val K m k'))
    \<and> map_used m' = map_used m + (if dict_val K m k = None then 1 else 0)"
  using map_put_ok [OF assms, of k v] dict_okD(3) [OF assms] by (auto simp: mp_obj_dict_store_def)

lemma dict_get_ok:
  assumes "dict_ok K m"
  shows "mp_obj_dict_get K m k = Some (m, case dict_val K m k of None \<Rightarrow> Inl KeyError | Some v \<Rightarrow> Inr (Some v))"
proof -
  note d = dict_okD [OF assms]
  obtain r where "mp_map_lookup K m k LOOKUP = Some (m, r)" "map_get K m k = map_option (\<lambda>p. snd (map_table m ! p)) r"
    using lookup_LOOKUP [OF d(1), of k] by blast
  then show ?thesis using d(2) [of k] by (cases r) (auto simp: mp_obj_dict_get_def split: option.splits)
qed

lemma dict_contains_ok:
  assumes "dict_ok K m"
  shows "dict_contains K m k = Some (dict_val K m k \<noteq> None)"
proof -
  note d = dict_okD [OF assms]
  obtain r where "mp_map_lookup K m k LOOKUP = Some (m, r)" "map_get K m k = map_option (\<lambda>p. snd (map_table m ! p)) r"
    using lookup_LOOKUP [OF d(1), of k] by blast
  then show ?thesis using d(2) [of k] by (cases r) (auto simp: dict_contains_def)
qed

lemma dict_get_method_ok:
  assumes "dict_ok K m"
  shows "dict_get_helper K none m k dflt LOOKUP =
    Some (m, Inr (case dict_val K m k of Some v \<Rightarrow> v | None \<Rightarrow> (case dflt of Some d \<Rightarrow> d | None \<Rightarrow> none)))"
proof -
  note d = dict_okD [OF assms]
  obtain r where "mp_map_lookup K m k LOOKUP = Some (m, r)" "map_get K m k = map_option (\<lambda>p. snd (map_table m ! p)) r"
    using lookup_LOOKUP [OF d(1), of k] by blast
  then show ?thesis using d(2) [of k] by (cases r; cases dflt) (auto simp: dict_get_helper_def split: option.splits)
qed

lemma dict_pop_ok:
  assumes "dict_ok K m"
  shows "\<exists>m'. dict_get_helper K none m k dflt REMOVE_IF_FOUND =
      Some (m', case dict_val K m k of Some v \<Rightarrow> Inr v | None \<Rightarrow> (case dflt of Some d \<Rightarrow> Inr d | None \<Rightarrow> Inl KeyError))
    \<and> dict_ok K m' \<and> (\<forall>k'. dict_val K m' k' = (if ko_equal K k k' then None else dict_val K m k'))
    \<and> map_used m = map_used m' + (if dict_val K m k = None then 0 else 1)"
proof -
  note d = dict_okD [OF assms]
  obtain m' r where m': "mp_map_lookup K m k REMOVE_IF_FOUND = Some (m', r)" "map_wf K m'"
    "map_get K m k = map_option (\<lambda>p. snd (map_table m' ! p)) r"
    "\<And>k'. map_get K m' k' = (if ko_equal K k k' then None else map_get K m k')"
    "map_used m = map_used m' + (if r = None then 0 else 1)"
    "\<And>p. r = Some p \<Longrightarrow> p < map_alloc m' \<and> (\<forall>l. keys_of m' ! p \<noteq> Key l)"
    using lookup_REMOVE [OF d(1), of k] by blast
  have g: "map_get K m' k' = map_option Some (if ko_equal K k k' then None else dict_val K m k')" for k'
    using m'(4) [of k'] d(2) [of k'] by simp
  show ?thesis
  proof (cases r)
    case None
    then have "dict_val K m k = None" using m'(3) d(2) [of k] by simp
    then show ?thesis using dict_okI [OF m'(2) g] m'(1,5) None d(3) by (cases dflt) (auto simp: dict_get_helper_def)
  next
    case (Some p)
    then have v: "map_option Some (dict_val K m k) = Some (snd (map_table m' ! p))" using m'(3) d(2) [of k] by simp
    then obtain v where "dict_val K m k = Some v" "snd (map_table m' ! p) = Some v" by (cases "dict_val K m k") auto
    moreover have "map_wf K (map_set_value m' p None)" "\<And>k'. map_get K (map_set_value m' p None) k' = map_get K m' k'"
      using map_set_value_nokey [OF m'(2)] m'(6) [OF Some] by blast+
    moreover have "map_used (map_set_value m' p None) = map_used m'" by (simp add: map_set_value_def)
    ultimately show ?thesis using dict_okI [of "map_set_value m' p None"] m'(1,5) Some d(3) g by (auto simp: dict_get_helper_def)
  qed
qed

lemma dict_setdefault_ok:
  assumes "dict_ok K m"
  shows "\<exists>m'. dict_get_helper K none m k dflt ADD_IF_NOT_FOUND =
      Some (m', Inr (case dict_val K m k of Some v \<Rightarrow> v | None \<Rightarrow> (case dflt of Some d \<Rightarrow> d | None \<Rightarrow> none)))
    \<and> dict_ok K m' \<and> (\<forall>k'. dict_val K m' k' = (if dict_val K m k = None \<and> ko_equal K k k' then Some (case dflt of Some d \<Rightarrow> d | None \<Rightarrow> none) else dict_val K m k'))
    \<and> map_used m' = map_used m + (if dict_val K m k = None then 1 else 0)"
proof -
  note d = dict_okD [OF assms]
  let ?v = "case dflt of Some d \<Rightarrow> d | None \<Rightarrow> none"
  obtain m' p l where m': "mp_map_lookup K m k ADD_IF_NOT_FOUND = Some (m', Some p)" "map_wf K m'" "p < map_alloc m'"
    "keys_of m' ! p = Key l" "ko_equal K l k" "snd (map_table m' ! p) = dict_val K m k"
    "\<And>k'. map_get K m' k' = (if map_get K m k = None \<and> ko_equal K k k' then Some None else map_get K m k')"
    "map_used m' = map_used m + (if map_get K m k = None then 1 else 0)"
    using lookup_ADD [OF d(1), of k] by blast
  have eq: "ko_equal K l k' \<longleftrightarrow> ko_equal K k k'" for k' using m'(5) eq_sym eq_trans by blast
  show ?thesis
  proof (cases "dict_val K m k")
    case None
    let ?m = "map_set_value m' p (Some ?v)"
    note set = map_set_value_wf [OF m'(2-4), of "Some ?v"]
    have "map_get K ?m k' = map_option Some (if ko_equal K k k' then Some ?v else dict_val K m k')" for k'
      using set(2) [of k'] m'(7) [of k'] eq d(2) [of k'] by simp
    then have "dict_ok K ?m \<and> (\<forall>k'. dict_val K ?m k' = (if ko_equal K k k' then Some ?v else dict_val K m k'))"
      using dict_okI [OF set(1), where f = "\<lambda>k'. if ko_equal K k k' then Some ?v else dict_val K m k'"] by blast
    moreover have "map_used ?m = map_used m + 1" using m'(8) None d(2) [of k] by (simp add: map_set_value_def)
    ultimately show ?thesis using m'(1,6) None d(3) by (simp add: dict_get_helper_def Let_def)
  next
    case (Some v)
    then have "map_get K m' k' = map_option Some (dict_val K m k')" for k' using m'(7) [of k'] d(2) by simp
    then have "dict_ok K m' \<and> (\<forall>k'. dict_val K m' k' = dict_val K m k')" using dict_okI [OF m'(2)] by blast
    moreover have "map_used m' = map_used m" using m'(8) Some d(2) [of k] by simp
    ultimately show ?thesis using m'(1,6) Some d(3) by (simp add: dict_get_helper_def Let_def)
  qed
qed

lemma new_dict_ok: "dict_ok K (mp_obj_new_dict n)"
  unfolding dict_ok_def mp_obj_new_dict_def
  by (intro conjI map_wfI) (simp_all add: mp_map_init_def table_get_None [THEN iffD2])

lemma new_dict_val: "dict_val K (mp_obj_new_dict n) k = None"
  by (simp add: dict_val_def mp_obj_new_dict_def mp_map_init_def table_get_None [THEN iffD2])

lemma new_dict_len [simp]: "map_used (mp_obj_new_dict n) = 0"
  by (simp add: mp_obj_new_dict_def mp_map_init_def)

lemma dict_clear_ok:
  assumes "dict_ok K m"
  shows "\<exists>m'. dict_clear m = Some (m', Inr ()) \<and> dict_ok K m' \<and> (\<forall>k. dict_val K m' k = None) \<and> map_used m' = 0"
proof -
  note d = dict_okD [OF assms]
  have "map_wf K (mp_map_clear m)"
    by (rule map_wfI) (use map_wfD(5) [OF d(1)] in \<open>simp_all add: mp_map_clear_def table_ok_def filled_def\<close>)
  then show ?thesis using d(3) by (simp add: dict_clear_def dict_ok_def dict_val_def mp_map_clear_def)
qed

lemma dict_copy_ok:
  assumes "dict_ok K m"
  shows "mp_obj_dict_copy m = m"
  using map_wfD(1,4,5) [OF dict_okD(1) [OF assms]] by (simp add: mp_obj_dict_copy_def mp_obj_new_dict_def mp_map_init_def)

end

text \<open>The iterator stops at every filled slot once.\<close>

lemma first_filled_None: "first_filled m is = None \<longleftrightarrow> (\<forall>i \<in> set is. \<not> mp_map_slot_is_filled m i)"
  by (induction "is") auto

lemma first_filled_Some:
  "first_filled m [a ..< n] = Some i \<longleftrightarrow> a \<le> i \<and> i < n \<and> mp_map_slot_is_filled m i \<and> (\<forall>j. a \<le> j \<and> j < i \<longrightarrow> \<not> mp_map_slot_is_filled m j)"
proof (induction "n - a" arbitrary: a)
  case (Suc d)
  then have u: "[a ..< n] = a # [Suc a ..< n]" "d = n - Suc a" by (auto simp: upt_conv_Cons)
  show ?case
  proof (cases "mp_map_slot_is_filled m a")
    case True
    then show ?thesis using u Suc.hyps(2) by (auto simp: le_less)
  next
    case False
    have "(a \<le> i \<and> i < n \<and> mp_map_slot_is_filled m i \<and> (\<forall>j. a \<le> j \<and> j < i \<longrightarrow> \<not> mp_map_slot_is_filled m j)) \<longleftrightarrow>
      (Suc a \<le> i \<and> i < n \<and> mp_map_slot_is_filled m i \<and> (\<forall>j. Suc a \<le> j \<and> j < i \<longrightarrow> \<not> mp_map_slot_is_filled m j))"
      using False by (metis Suc_leD Suc_leI le_eq_less_or_eq)
    then show ?thesis using u Suc.hyps(1) [OF u(2)] False by simp
  qed
qed auto

lemma slot_filled_iff: "mp_map_slot_is_filled m i \<longleftrightarrow> (\<exists>k. fst (map_table m ! i) = Key k)"
  unfolding mp_map_slot_is_filled_def by (cases "fst (map_table m ! i)") auto

fun slot_items :: "('o slot \<times> 'v option) list \<Rightarrow> ('o \<times> 'v option) list" where
  "slot_items [] = []"
| "slot_items ((s, v) # es) = (case s of Key k \<Rightarrow> (k, v) # slot_items es | _ \<Rightarrow> slot_items es)"

lemma slot_items_append [simp]: "slot_items (xs @ ys) = slot_items xs @ slot_items ys"
  by (induction xs rule: slot_items.induct) (auto split: slot.splits)

lemma slot_items_skip: "\<forall>e \<in> set es. \<forall>k. fst e \<noteq> Key k \<Longrightarrow> slot_items es = []"
  by (induction es rule: slot_items.induct) (auto split: slot.splits)

lemma slot_items_length: "length (slot_items es) = filled (map fst es)"
  by (induction es rule: slot_items.induct) (auto simp: filled_def split: slot.splits)

lemma set_slot_items: "(k, v) \<in> set (slot_items es) \<longleftrightarrow> (\<exists>i < length es. es ! i = (Key k, v))"
proof -
  have "(k, v) \<in> set (slot_items es) \<longleftrightarrow> (Key k, v) \<in> set es"
    by (induction es rule: slot_items.induct) (auto split: slot.splits)
  then show ?thesis by (auto simp: in_set_conv_nth)
qed

definition view_item :: "dict_view_kind \<Rightarrow> 'o \<times> 'v option \<Rightarrow> ('o, 'v) view_item" where
  "view_item kind kv =
     (case kind of DICT_VIEW_ITEMS \<Rightarrow> Item (fst kv) (snd kv) | DICT_VIEW_KEYS \<Rightarrow> Item_Key (fst kv) | DICT_VIEW_VALUES \<Rightarrow> Item_Value (snd kv))"

lemma dict_view_drain:
  assumes "length (map_table m) = map_alloc m" "map_alloc m - cur < fuel"
  shows "dict_view_drain fuel kind m cur = Some (map (view_item kind) (slot_items (drop cur (map_table m))))"
  using assms(2)
proof (induction fuel arbitrary: cur)
  case (Suc fuel)
  let ?t = "map_table m"
  show ?case
  proof (cases "first_filled m [cur ..< map_alloc m]")
    case None
    have "fst e \<noteq> Key k" if "e \<in> set (drop cur ?t)" for e k
    proof -
      obtain i where "i < length ?t - cur" "e = ?t ! (cur + i)" using \<open>e \<in> set (drop cur ?t)\<close> by (auto simp: in_set_conv_nth)
      then show ?thesis using None assms(1) slot_filled_iff [of m "cur + i"] unfolding first_filled_None by auto
    qed
    then have "slot_items (drop cur ?t) = []" by (intro slot_items_skip) blast
    then show ?thesis using None by (simp add: dict_view_it_iternext_def dict_iter_next_def)
  next
    case (Some i)
    then have i: "cur \<le> i" "i < map_alloc m" "mp_map_slot_is_filled m i" "\<And>j. cur \<le> j \<Longrightarrow> j < i \<Longrightarrow> \<not> mp_map_slot_is_filled m j"
      unfolding first_filled_Some by blast+
    obtain k v where kv: "?t ! i = (Key k, v)" using i(3) unfolding slot_filled_iff by (metis prod.collapse)
    have d: "drop cur ?t = take (i - cur) (drop cur ?t) @ (Key k, v) # drop (Suc i) ?t"
      using id_take_nth_drop [of "i - cur" "drop cur ?t"] i(1,2) assms(1) kv by simp
    have "fst e \<noteq> Key k'" if "e \<in> set (take (i - cur) (drop cur ?t))" for e k'
    proof -
      obtain j where "j < i - cur" "e = ?t ! (cur + j)" using \<open>e \<in> set (take (i - cur) (drop cur ?t))\<close> i(2) assms(1) by (auto simp: in_set_conv_nth)
      then show ?thesis using i(4) [of "cur + j"] slot_filled_iff [of m "cur + j"] by auto
    qed
    then have "slot_items (take (i - cur) (drop cur ?t)) = []" by (intro slot_items_skip) blast
    then have s: "slot_items (drop cur ?t) = (k, v) # slot_items (drop (Suc i) ?t)" by (subst d) simp
    have "map_alloc m - Suc i < fuel" using Suc.prems i(1,2) by linarith
    then have "dict_view_drain fuel kind m (Suc i) = Some (map (view_item kind) (slot_items (drop (Suc i) ?t)))" by (rule Suc.IH)
    then show ?thesis using Some kv s by (simp add: dict_view_it_iternext_def dict_iter_next_def view_item_def split: dict_view_kind.splits)
  qed
qed simp

section \<open>Filling a store\<close>

text \<open>The interface that the loops over key and value pairs use.\<close>

fun put_all :: "('m \<Rightarrow> 'o \<Rightarrow> 'v \<Rightarrow> 'm option) \<Rightarrow> ('o \<times> 'v) list \<Rightarrow> 'm \<Rightarrow> 'm option" where
  "put_all put [] m = Some m"
| "put_all put ((k, v) # kvs) m = do { m \<leftarrow> put m k v; put_all put kvs m }"

text \<open>The last value given to a key.\<close>

fun last_value :: "('o \<Rightarrow> 'o \<Rightarrow> bool) \<Rightarrow> ('o \<times> 'v) list \<Rightarrow> 'o \<Rightarrow> 'v option \<Rightarrow> 'v option" where
  "last_value eq [] k d = d"
| "last_value eq ((k', v) # kvs) k d = last_value eq kvs k (if eq k' k then Some v else d)"

text \<open>The update of an association up to an equality of its keys, with the number of the keys.\<close>

fun abs_put :: "('o \<Rightarrow> 'o \<Rightarrow> bool) \<Rightarrow> 'o \<times> 'v \<Rightarrow> ('o \<Rightarrow> 'v option) \<times> nat \<Rightarrow> ('o \<Rightarrow> 'v option) \<times> nat" where
  "abs_put eq (k, v) (f, n) = ((\<lambda>k'. if eq k k' then Some v else f k'), if f k = None then n + 1 else n)"

lemma fold_abs_put: "fst (fold (abs_put eq) kvs (f, n)) k = last_value eq kvs k (f k)"
proof (induction kvs arbitrary: f n)
  case (Cons kv kvs)
  then show ?case by (cases kv) simp
qed simp

locale key_value_store =
  fixes eq :: "'o \<Rightarrow> 'o \<Rightarrow> bool" and ok :: "'m \<Rightarrow> bool" and val :: "'m \<Rightarrow> 'o \<Rightarrow> 'v option" and used :: "'m \<Rightarrow> nat"
    and put :: "'m \<Rightarrow> 'o \<Rightarrow> 'v \<Rightarrow> 'm option"
  assumes put_law: "ok m \<Longrightarrow> \<exists>m'. put m k v = Some m' \<and> ok m' \<and> (\<forall>k'. val m' k' = (if eq k k' then Some v else val m k'))
      \<and> used m' = used m + (if val m k = None then 1 else 0)"
begin

lemma put_all_law:
  "ok m \<Longrightarrow> \<exists>m'. put_all put kvs m = Some m' \<and> ok m' \<and> (val m', used m') = fold (abs_put eq) kvs (val m, used m)"
proof (induction kvs arbitrary: m)
  case (Cons kv kvs)
  obtain k v where kv: "kv = (k, v)" by fastforce
  obtain m1 where m1: "put m k v = Some m1" "ok m1" "\<And>k'. val m1 k' = (if eq k k' then Some v else val m k')"
    "used m1 = used m + (if val m k = None then 1 else 0)"
    using put_law [OF Cons.prems, of k v] by blast
  have "abs_put eq kv (val m, used m) = (val m1, used m1)" using m1(3,4) kv by auto
  then show ?case using Cons.IH [OF m1(2)] m1(1) kv by simp
qed simp

lemma put_all_val:
  assumes "ok m"
  shows "\<exists>m'. put_all put kvs m = Some m' \<and> ok m' \<and> (\<forall>k. val m' k = last_value eq kvs k (val m k))"
  using put_all_law [OF assms, of kvs] fold_abs_put [of eq kvs "val m" "used m"] by (metis fst_conv)

end

sublocale key_laws \<subseteq> store: key_value_store "ko_equal K" "dict_ok K :: ('o, 'v) mp_map \<Rightarrow> bool" "dict_val K" map_used "\<lambda>m k v. map_put K m k (Some v)"
proof unfold_locales
  fix m :: "('o, 'v) mp_map" and k :: 'o and v :: 'v
  assume "dict_ok K m"
  from map_put_ok [OF this, of k v]
  show "\<exists>m'. map_put K m k (Some v) = Some m' \<and> dict_ok K m' \<and> (\<forall>k'. dict_val K m' k' = (if ko_equal K k k' then Some v else dict_val K m k'))
      \<and> map_used m' = map_used m + (if dict_val K m k = None then 1 else 0)"
    by blast
qed

lemma dict_fromkeys_loop_put: "dict_fromkeys_loop K ks v m = put_all (\<lambda>m k v. map_put K m k (Some v)) (map (\<lambda>k. (k, v)) ks) m"
proof (induction ks arbitrary: m)
  case (Cons k ks)
  then show ?case by (cases "map_put K m k (Some v)") simp_all
qed simp

lemma dict_update_pairs_put:
  "dict_update_pairs K (map Some kvs) m = map_option (\<lambda>m. (m, Inr ())) (put_all (\<lambda>m k v. map_put K m k (Some v)) kvs m)"
proof (induction kvs arbitrary: m)
  case (Cons kv kvs)
  then show ?case by (cases kv; cases "map_put K m (fst kv) (Some (snd kv))") simp_all
qed simp

lemma dict_update_pairs_bad:
  "dict_update_pairs K (map Some kvs @ None # ps) m = map_option (\<lambda>m. (m, Inl ValueError)) (put_all (\<lambda>m k v. map_put K m k (Some v)) kvs m)"
proof (induction kvs arbitrary: m)
  case (Cons kv kvs)
  then show ?case by (cases kv; cases "map_put K m (fst kv) (Some (snd kv))") simp_all
qed simp

text \<open>The pairs of a dictionary.\<close>

definition dict_pairs :: "('o, 'v) mp_map \<Rightarrow> ('o \<times> 'v) list" where
  "dict_pairs m = map (\<lambda>(k, v). (k, the v)) (slot_items (map_table m))"

lemma dict_update_slots_put:
  "(\<And>k. (k, None) \<notin> set (slot_items es)) \<Longrightarrow>
    dict_update_slots K es m = put_all (\<lambda>m k v. map_put K m k (Some v)) (map (\<lambda>(k, v). (k, the v)) (slot_items es)) m"
proof (induction es arbitrary: m rule: slot_items.induct)
  case (2 s v es)
  show ?case
  proof (cases s)
    case (Key k)
    then obtain w where w: "v = Some w" using "2.prems" [of k] by (cases v) auto
    have "map_put K m k v \<bind> dict_update_slots K es = map_put K m k v \<bind> (\<lambda>m. put_all (\<lambda>m k v. map_put K m k (Some v)) (map (\<lambda>(k, v). (k, the v)) (slot_items es)) m)"
      using "2.IH"(3) [OF Key] "2.prems" Key by (cases "map_put K m k v") auto
    then show ?thesis using Key w by simp
  qed (use "2" in auto)
qed simp

context key_laws
begin

lemma distinct_table: "map_wf K m \<Longrightarrow> distinct_keys (ko_equal K) (map_table m)"
  unfolding distinct_keys_def
proof (intro allI impI, elim conjE)
  fix p q k l
  assume m: "map_wf K m" and "p < length (map_table m)" "q < length (map_table m)" "fst (map_table m ! p) = Key k"
    "fst (map_table m ! q) = Key l" "ko_equal K k l"
  then show "p = q" using table_ok_inj [OF map_wfD(6) [OF m], of p q k l] by simp
qed

lemma last_value_pairs:
  assumes "distinct_keys (ko_equal K) es" "\<And>k. (k, None) \<notin> set (slot_items es)"
  shows "last_value (ko_equal K) (map (\<lambda>(k, v). (k, the v)) (slot_items es)) k d
    = (case table_get (ko_equal K) es k of Some v \<Rightarrow> v | None \<Rightarrow> d)"
  using assms
proof (induction es arbitrary: d)
  case (Cons e es)
  obtain s v where e: "e = (s, v)" by fastforce
  note tl = distinct_keys_tl [OF Cons.prems(1)]
  have np: "(k, None) \<notin> set (slot_items es)" for k using Cons.prems(2) [of k] e by (auto split: slot.splits)
  show ?case
  proof (cases s)
    case (Key l)
    then obtain w where w: "v = Some w" using Cons.prems(2) [of l] e by (cases v) auto
    show ?thesis
    proof (cases "ko_equal K l k")
      case True
      have "\<not> has_key (ko_equal K) (map fst es) k"
      proof
        assume "has_key (ko_equal K) (map fst es) k"
        then obtain p l' where p: "p < length es" "fst (es ! p) = Key l'" "ko_equal K l' k" by (auto simp: has_key_def)
        then have "ko_equal K l l'" using True eq_sym eq_trans by blast
        then show False using distinct_keysD [OF Cons.prems(1), of 0 "Suc p" l l'] p e Key by simp
      qed
      then have "table_get (ko_equal K) es k = None" by (simp add: table_get_None)
      then show ?thesis using Cons.IH [OF tl np] True Key w e by simp
    next
      case False
      then show ?thesis using Cons.IH [OF tl np] Key w e by simp
    qed
  qed (use Cons.IH [OF tl np] e in simp_all)
qed simp

lemma dict_no_null:
  assumes "dict_ok K m"
  shows "(k, None) \<notin> set (slot_items (map_table m))"
proof
  assume "(k, None) \<in> set (slot_items (map_table m))"
  then obtain i where "i < map_alloc m" "map_table m ! i = (Key k, None)"
    using map_wfD(1) [OF dict_okD(1) [OF assms]] by (auto simp: set_slot_items)
  then have "map_get K m k = Some None" using map_get_iff [OF dict_okD(1) [OF assms], of k None] eq_refl [of k] by blast
  then show False using assms by (auto simp: dict_ok_def)
qed

lemma dict_pairs_value:
  assumes "dict_ok K m"
  shows "last_value (ko_equal K) (dict_pairs m) k d = (case dict_val K m k of Some v \<Rightarrow> Some v | None \<Rightarrow> d)"
  unfolding dict_pairs_def last_value_pairs [OF distinct_table [OF dict_okD(1) [OF assms]] dict_no_null [OF assms]] dict_okD(2) [OF assms]
  by (cases "dict_val K m k") simp_all

lemma dict_pairs_sound:
  assumes "dict_ok K m" "(k, v) \<in> set (dict_pairs m)"
  shows "dict_val K m k = Some v"
proof -
  obtain u where u: "(k, u) \<in> set (slot_items (map_table m))" "v = the u" using assms(2) by (auto simp: dict_pairs_def)
  then have s: "u = Some v" using dict_no_null [OF assms(1), of k] by (cases u) auto
  obtain i where "i < map_alloc m" "map_table m ! i = (Key k, u)"
    using u(1) map_wfD(1) [OF dict_okD(1) [OF assms(1)]] by (auto simp: set_slot_items)
  then have "map_get K m k = Some (Some v)" using map_get_iff [OF dict_okD(1) [OF assms(1)], of k "Some v"] eq_refl [of k] s by blast
  then show ?thesis by (simp add: dict_val_def)
qed

lemma dict_pairs_complete:
  assumes "dict_ok K m" "dict_val K m k = Some v"
  shows "\<exists>l. (l, v) \<in> set (dict_pairs m) \<and> ko_equal K l k"
proof -
  have "map_get K m k = Some (Some v)" using dict_okD(2) [OF assms(1)] assms(2) by simp
  then obtain i l where "i < map_alloc m" "map_table m ! i = (Key l, Some v)" "ko_equal K l k"
    using map_get_iff [OF dict_okD(1) [OF assms(1)], of k "Some v"] by blast
  then have "(l, Some v) \<in> set (slot_items (map_table m))" "ko_equal K l k"
    using map_wfD(1) [OF dict_okD(1) [OF assms(1)]] by (auto simp: set_slot_items)
  then show ?thesis by (force simp: dict_pairs_def)
qed

lemma dict_pairs_length:
  assumes "dict_ok K m"
  shows "length (dict_pairs m) = map_used m"
  using map_wfD(2) [OF dict_okD(1) [OF assms]] by (simp add: dict_pairs_def slot_items_length)

lemma dict_view_list_ok:
  assumes "dict_ok K m"
  shows "dict_view_list kind m = Some (map (view_item kind) (map (\<lambda>(k, v). (k, Some v)) (dict_pairs m)))"
proof -
  have "\<forall>kv \<in> set (slot_items (map_table m)). (case (case kv of (k, v) \<Rightarrow> (k, the v)) of (k, v) \<Rightarrow> (k, Some v)) = kv"
    using dict_no_null [OF assms] by (auto split: prod.splits) (metis option.collapse)
  then have "map (\<lambda>(k, v). (k, Some v)) (dict_pairs m) = slot_items (map_table m)"
    unfolding dict_pairs_def map_map comp_def by (intro map_idI) blast
  then show ?thesis
    using dict_view_drain [of m 0 "map_alloc m + 1" kind] map_wfD(1) [OF dict_okD(1) [OF assms]] by (simp add: dict_view_list_def)
qed

lemma dict_update_slots_ok:
  assumes "dict_ok K m" "\<And>k. (k, None) \<notin> set (slot_items es)"
  shows "\<exists>m'. dict_update_slots K es m = Some m' \<and> dict_ok K m' \<and> (dict_val K m', map_used m') =
    fold (abs_put (ko_equal K)) (map (\<lambda>(k, v). (k, the v)) (slot_items es)) (dict_val K m, map_used m)"
  unfolding dict_update_slots_put [OF assms(2)] by (rule store.put_all_law [OF assms(1)])

lemma dict_update_ok:
  assumes "dict_ok K m" "dict_ok K other" "\<And>k. (k, None) \<notin> set (slot_items (take (map_alloc kw) (map_table kw)))"
    and "(arg = No_Arg \<or> arg = From_Self) \<and> kvs = [] \<or> arg = From_Dict other \<and> kvs = dict_pairs other \<or> arg = From_Iterable (map Some kvs)"
  shows "\<exists>m'. dict_update K m arg kw = Some (m', Inr ()) \<and> dict_ok K m' \<and> (dict_val K m', map_used m') =
    fold (abs_put (ko_equal K)) (kvs @ map (\<lambda>(k, v). (k, the v)) (slot_items (take (map_alloc kw) (map_table kw)))) (dict_val K m, map_used m)"
proof -
  have oth: "take (map_alloc other) (map_table other) = map_table other" using map_wfD(1) [OF dict_okD(1) [OF assms(2)]] by simp
  obtain m1 where m1: "put_all (\<lambda>m k v. map_put K m k (Some v)) kvs m = Some m1" "dict_ok K m1"
    "(dict_val K m1, map_used m1) = fold (abs_put (ko_equal K)) kvs (dict_val K m, map_used m)"
    using store.put_all_law [OF assms(1), of kvs] by blast
  obtain m2 where m2: "dict_update_slots K (take (map_alloc kw) (map_table kw)) m1 = Some m2" "dict_ok K m2"
    "(dict_val K m2, map_used m2) = fold (abs_put (ko_equal K)) (map (\<lambda>(k, v). (k, the v)) (slot_items (take (map_alloc kw) (map_table kw)))) (dict_val K m1, map_used m1)"
    using dict_update_slots_ok [OF m1(2) assms(3)] by blast
  have "(case arg of No_Arg \<Rightarrow> Some (m, Inr ()) | From_Self \<Rightarrow> Some (m, Inr ())
      | From_Dict other \<Rightarrow> map_option (\<lambda>m. (m, Inr ())) (dict_update_slots K (take (map_alloc other) (map_table other)) m)
      | From_Iterable ps \<Rightarrow> dict_update_pairs K ps m) = Some (m1, Inr () :: dict_error + unit)"
    using assms(4) m1(1) oth dict_update_slots_put [OF dict_no_null [OF assms(2)], of K m] dict_update_pairs_put [of K kvs m]
    by (auto simp: dict_pairs_def)
  then have "dict_update K m arg kw = Some (m2, Inr ())" using dict_okD(3) [OF assms(1)] m2(1) by (simp add: dict_update_def)
  then show ?thesis using m2(2,3) m1(3) by simp
qed

lemma dict_update_bad:
  assumes "dict_ok K m"
  shows "\<exists>m'. dict_update K m (From_Iterable (map Some kvs @ None # ps)) kw = Some (m', Inl ValueError) \<and> dict_ok K m'
    \<and> (dict_val K m', map_used m') = fold (abs_put (ko_equal K)) kvs (dict_val K m, map_used m)"
proof -
  obtain m1 where "put_all (\<lambda>m k v. map_put K m k (Some v)) kvs m = Some m1" "dict_ok K m1"
    "(dict_val K m1, map_used m1) = fold (abs_put (ko_equal K)) kvs (dict_val K m, map_used m)"
    using store.put_all_law [OF assms, of kvs] by blast
  then show ?thesis using dict_okD(3) [OF assms] dict_update_pairs_bad [of K kvs ps m] by (simp add: dict_update_def)
qed

lemma dict_fromkeys_ok:
  "\<exists>m. dict_fromkeys K n ks v = Some m \<and> dict_ok K m \<and> (\<forall>k. dict_val K m k = (if \<exists>l \<in> set ks. ko_equal K l k then Some v else None))"
proof -
  let ?m0 = "mp_obj_new_dict (case n of None \<Rightarrow> 0 | Some n \<Rightarrow> n)"
  obtain m where m: "put_all (\<lambda>m k v. map_put K m k (Some v)) (map (\<lambda>k. (k, v)) ks) ?m0 = Some m" "dict_ok K m"
    "\<And>k. dict_val K m k = last_value (ko_equal K) (map (\<lambda>k. (k, v)) ks) k (dict_val K ?m0 k)"
    using store.put_all_val [OF new_dict_ok, of "map (\<lambda>k. (k, v)) ks" "case n of None \<Rightarrow> 0 | Some n \<Rightarrow> n"] by blast
  have "last_value (ko_equal K) (map (\<lambda>k. (k, v)) ks) k d = (if \<exists>l \<in> set ks. ko_equal K l k then Some v else d)" for k d
    by (induction ks arbitrary: d) auto
  then have "dict_val K m k = (if \<exists>l \<in> set ks. ko_equal K l k then Some v else None)" for k using m(3) [of k] by (simp add: new_dict_val)
  then show ?thesis using m(1,2) by (simp add: dict_fromkeys_def dict_fromkeys_loop_put)
qed

lemma dict_popitem_ok:
  assumes "dict_ok K m"
  shows "if map_used m = 0 then dict_popitem m = Some (m, Inl KeyError)
    else \<exists>m' k v. dict_popitem m = Some (m', Inr (k, Some v)) \<and> dict_val K m k = Some v \<and> dict_ok K m'
      \<and> (\<forall>k'. dict_val K m' k' = (if ko_equal K k k' then None else dict_val K m k')) \<and> map_used m = map_used m' + 1"
proof (cases "map_used m = 0")
  case True
  then show ?thesis using dict_okD(3) [OF assms] by (simp add: dict_popitem_def)
next
  case False
  note wf = dict_okD(1) [OF assms]
  have "\<exists>s \<in> set (keys_of m). s \<noteq> Null \<and> s \<noteq> Sentinel"
    using False map_wfD(2) [OF wf] by (auto simp: filled_def filter_empty_conv)
  then obtain j where "j < map_alloc m" "mp_map_slot_is_filled m j"
    using map_wfD(1) [OF wf] by (auto simp: mp_map_slot_is_filled_def in_set_conv_nth)
  then have "first_filled m [0 ..< map_alloc m] \<noteq> None" unfolding first_filled_None by auto
  then obtain p where p: "first_filled m [0 ..< map_alloc m] = Some p" by blast
  then have pa: "p < map_alloc m" "mp_map_slot_is_filled m p" unfolding first_filled_Some by blast+
  then obtain k u where ku: "map_table m ! p = (Key k, u)" unfolding slot_filled_iff by (metis prod.collapse)
  have key: "keys_of m ! p = Key k" using ku pa(1) map_wfD(1) [OF wf] by simp
  have g: "map_get K m k = Some u" using map_get_iff [OF wf, of k u] pa(1) ku eq_refl [of k] by blast
  then obtain v where v: "u = Some v" "dict_val K m k = Some v" using dict_okD(2) [OF assms, of k] by (cases "dict_val K m k") auto
  define m' where "m' = m\<lparr>map_used := map_used m - 1, map_table := (map_table m)[p := (Sentinel, None)]\<rparr>"
  have rem: "map_wf K m'" "\<And>k'. map_get K m' k' = (if ko_equal K k k' then None else map_get K m k')" "filled (keys_of m) = filled (keys_of m') + 1"
    using map_remove_at_wf [OF wf pa(1) key disjI2 [OF refl] m'_def] by blast+
  have "map_get K m' k' = map_option Some (if ko_equal K k k' then None else dict_val K m k')" for k'
    using rem(2) [of k'] dict_okD(2) [OF assms, of k'] by simp
  then have "dict_ok K m' \<and> (\<forall>k'. dict_val K m' k' = (if ko_equal K k k' then None else dict_val K m k'))"
    using dict_okI [OF rem(1), where f = "\<lambda>k'. if ko_equal K k k' then None else dict_val K m k'"] by blast
  moreover have "map_used m = map_used m' + 1" using rem(3) map_wfD(2) [OF wf] map_wfD(2) [OF rem(1)] by simp
  moreover have "dict_popitem m = Some (m', Inr (k, Some v))"
    using False dict_okD(3) [OF assms] p ku v(1) by (simp add: dict_popitem_def dict_iter_next_def m'_def)
  ultimately show ?thesis using False v(2) by auto
qed

text \<open>The comparison.\<close>

lemma dict_equal_loop_ok:
  assumes "dict_ok K rhs" "\<And>k. (k, None) \<notin> set (slot_items es)"
  shows "dict_equal_loop K veq es rhs =
    Some (\<forall>(k, v) \<in> set (slot_items es). \<exists>w. dict_val K rhs k = Some w \<and> veq (the v) w)"
  using assms(2)
proof (induction es)
  case (Cons e es)
  obtain s v where e: "e = (s, v)" by fastforce
  have np: "(k, None) \<notin> set (slot_items es)" for k using Cons.prems [of k] e by (auto split: slot.splits)
  show ?case
  proof (cases s)
    case (Key k)
    then obtain a where a: "v = Some a" using Cons.prems [of k] e by (cases v) auto
    obtain r where r: "mp_map_lookup K rhs k LOOKUP = Some (rhs, r)" "map_get K rhs k = map_option (\<lambda>p. snd (map_table rhs ! p)) r"
      using lookup_LOOKUP [OF dict_okD(1) [OF assms(1)], of k] by blast
    show ?thesis
    proof (cases r)
      case None
      then have "dict_val K rhs k = None" using r(2) by (simp add: dict_val_def)
      then show ?thesis using None r(1) Key e by simp
    next
      case (Some p)
      then obtain b where "dict_val K rhs k = Some b" "snd (map_table rhs ! p) = Some b"
        using r(2) dict_okD(2) [OF assms(1), of k] by (cases "dict_val K rhs k") auto
      then show ?thesis using Some r(1) Key e a Cons.IH [OF np] by simp
    qed
  qed (use Cons.IH [OF np] e in simp_all)
qed simp

lemma slot_items_distinct:
  assumes "distinct_keys (ko_equal K) es" "i < length (slot_items es)" "j < length (slot_items es)"
    and "ko_equal K (fst (slot_items es ! i)) (fst (slot_items es ! j))"
  shows "i = j"
  using assms
proof (induction es arbitrary: i j)
  case (Cons e es)
  obtain s v where e: "e = (s, v)" by fastforce
  note IH = Cons.IH [OF distinct_keys_tl [OF Cons.prems(1)]]
  show ?case
  proof (cases s)
    case (Key k)
    have no: "\<not> ko_equal K k (fst (slot_items es ! n))" "\<not> ko_equal K (fst (slot_items es ! n)) k" if n: "n < length (slot_items es)" for n
    proof -
      have "slot_items es ! n \<in> set (slot_items es)" using n by simp
      then obtain p where p: "p < length es" "es ! p = (Key (fst (slot_items es ! n)), snd (slot_items es ! n))"
        using set_slot_items [of "fst (slot_items es ! n)" "snd (slot_items es ! n)" es] by auto
      show "\<not> ko_equal K k (fst (slot_items es ! n))"
        using distinct_keysD [OF Cons.prems(1), of 0 "Suc p" k "fst (slot_items es ! n)"] p e Key by auto
      then show "\<not> ko_equal K (fst (slot_items es ! n)) k" using eq_sym by blast
    qed
    have si: "slot_items (e # es) = (k, v) # slot_items es" using e Key by simp
    show ?thesis
      using Cons.prems(2-4) IH no unfolding si by (cases i; cases j) auto
  qed (use IH Cons.prems(2-4) e in simp_all)
qed simp

lemma dict_keys_distinct:
  assumes "dict_ok K m" "i < length (dict_pairs m)" "j < length (dict_pairs m)" "ko_equal K (map fst (dict_pairs m) ! i) (map fst (dict_pairs m) ! j)"
  shows "i = j"
proof (rule slot_items_distinct [OF distinct_table [OF dict_okD(1) [OF assms(1)]]])
  show "i < length (slot_items (map_table m))" "j < length (slot_items (map_table m))" using assms(2,3) by (simp_all add: dict_pairs_def)
  then show "ko_equal K (fst (slot_items (map_table m) ! i)) (fst (slot_items (map_table m) ! j))"
    using assms(4) by (simp add: dict_pairs_def split_beta)
qed

text \<open>A dictionary whose keys another has as well is not larger.\<close>

lemma dict_embed:
  assumes "dict_ok K l" "dict_ok K r" "\<forall>k. dict_val K l k \<noteq> None \<longrightarrow> dict_val K r k \<noteq> None"
  shows "map_used l \<le> map_used r \<and> (map_used l = map_used r \<longrightarrow> (\<forall>k. dict_val K r k \<noteq> None \<longrightarrow> dict_val K l k \<noteq> None))"
proof -
  let ?kl = "map fst (dict_pairs l)" and ?kr = "map fst (dict_pairs r)"
  have len: "length ?kl = map_used l" "length ?kr = map_used r"
    using dict_pairs_length [OF assms(1)] dict_pairs_length [OF assms(2)] by simp_all
  have ap: "apart ?kl" unfolding apart_def using dict_keys_distinct [OF assms(1)] by simp
  have cov: "\<forall>x \<in> set ?kl. \<exists>y \<in> set ?kr. ko_equal K y x"
  proof
    fix x
    assume "x \<in> set ?kl"
    then obtain v where "(x, v) \<in> set (dict_pairs l)" by auto
    then have "dict_val K r x \<noteq> None" using dict_pairs_sound [OF assms(1)] assms(3) by blast
    then show "\<exists>y \<in> set ?kr. ko_equal K y x" using dict_pairs_complete [OF assms(2)] by force
  qed
  have "dict_val K l k \<noteq> None" if all: "\<forall>y \<in> set ?kr. \<exists>x \<in> set ?kl. ko_equal K x y" and k: "dict_val K r k \<noteq> None" for k
  proof -
    obtain v where "dict_val K r k = Some v" using k by blast
    then obtain m where m: "m \<in> set ?kr" "ko_equal K m k" using dict_pairs_complete [OF assms(2)] by force
    then obtain x v where x: "(x, v) \<in> set (dict_pairs l)" "ko_equal K x m" using all by fastforce
    have "dict_val K l x \<noteq> None" using dict_pairs_sound [OF assms(1) x(1)] by simp
    moreover have "ko_equal K x k" by (rule eq_trans [OF x(2) m(2)])
    ultimately show ?thesis using dict_val_cong [OF assms(1)] by metis
  qed
  then show ?thesis using apart_embed [OF ap cov] len by metis
qed

lemma dict_equal_ok:
  assumes "dict_ok K l" "dict_ok K r"
  shows "dict_equal K veq l r = Some (\<forall>k. rel_option veq (dict_val K l k) (dict_val K r k))"
proof (cases "map_used l = map_used r")
  case False
  have "\<not> (\<forall>k. rel_option veq (dict_val K l k) (dict_val K r k))"
  proof
    assume a: "\<forall>k. rel_option veq (dict_val K l k) (dict_val K r k)"
    have i: "dict_val K l k = None \<longleftrightarrow> dict_val K r k = None" for k using a [rule_format, of k] by (auto simp: option.rel_sel)
    have "map_used l \<le> map_used r" using dict_embed [OF assms] i by simp
    moreover have "map_used r \<le> map_used l" using dict_embed [OF assms(2,1)] i by simp
    ultimately show False using False by simp
  qed
  then show ?thesis using False by (simp add: dict_equal_def)
next
  case True
  let ?loop = "\<forall>(k, v) \<in> set (dict_pairs l). \<exists>w. dict_val K r k = Some w \<and> veq v w"
  have "take (map_alloc l) (map_table l) = map_table l" using map_wfD(1) [OF dict_okD(1) [OF assms(1)]] by simp
  then have 1: "dict_equal K veq l r = Some ?loop"
    using True dict_equal_loop_ok [OF assms(2) dict_no_null [OF assms(1)], of veq] by (auto simp: dict_equal_def dict_pairs_def)
  have "?loop \<longleftrightarrow> (\<forall>k. rel_option veq (dict_val K l k) (dict_val K r k))"
  proof
    assume a: ?loop
    have some: "\<exists>w. dict_val K r k = Some w \<and> veq v w" if v: "dict_val K l k = Some v" for k v
    proof -
      obtain m where m: "(m, v) \<in> set (dict_pairs l)" "ko_equal K m k" using dict_pairs_complete [OF assms(1) v] by blast
      then have "\<exists>w. dict_val K r m = Some w \<and> veq v w" using a by blast
      then show ?thesis using dict_val_cong [OF assms(2) m(2)] by simp
    qed
    show "\<forall>k. rel_option veq (dict_val K l k) (dict_val K r k)"
    proof
      fix k
      have "dict_val K r k \<noteq> None \<Longrightarrow> dict_val K l k \<noteq> None" using dict_embed [OF assms] True some by blast
      then show "rel_option veq (dict_val K l k) (dict_val K r k)" using some [of k]
        by (cases "dict_val K l k"; cases "dict_val K r k") auto
    qed
  next
    assume a: "\<forall>k. rel_option veq (dict_val K l k) (dict_val K r k)"
    show ?loop
    proof clarify
      fix k v
      assume "(k, v) \<in> set (dict_pairs l)"
      then have "dict_val K l k = Some v" by (rule dict_pairs_sound [OF assms(1)])
      then show "\<exists>w. dict_val K r k = Some w \<and> veq v w" using a [rule_format, of k] by (cases "dict_val K r k") auto
    qed
  qed
  then show ?thesis using 1 by simp
qed

end

end
