(* ===== verification/DictRun.thy ===== *)
theory DictRun
  imports DictLaws
begin

text \<open>Sequences of dictionary operations and the abstract dictionary that they refine.\<close>

section \<open>Sequences of operations\<close>

text \<open>
  The operations of a program on one dictionary.  A Python exception ends the operation, not the
  sequence.  The abstract dictionary is a function on keys up to their equality, with its size.
\<close>

datatype ('o, 'v) dict_op =
  Op_Getitem 'o | Op_Setitem 'o 'v | Op_Delitem 'o | Op_Get 'o "'v option" | Op_Pop 'o "'v option" | Op_Setdefault 'o "'v option"
| Op_Contains 'o | Op_Len | Op_Clear | Op_Update "('o \<times> 'v) list"

datatype 'v dict_ret = Ret_None | Ret_Value "'v option" | Ret_Bool bool | Ret_Nat nat

fun dict_do :: "'o key_ops \<Rightarrow> 'v \<Rightarrow> ('o, 'v) dict_op \<Rightarrow> ('o, 'v) mp_map \<Rightarrow> ('o, 'v, 'v dict_ret) dict_result" where
  "dict_do K none (Op_Getitem k) m = map_option (map_prod id (map_sum id Ret_Value)) (mp_obj_dict_get K m k)"
| "dict_do K none (Op_Setitem k v) m = map_option (map_prod id (map_sum id (\<lambda>_. Ret_None))) (mp_obj_dict_store K m k v)"
| "dict_do K none (Op_Delitem k) m = map_option (map_prod id (map_sum id (\<lambda>_. Ret_None))) (mp_obj_dict_delete K none m k)"
| "dict_do K none (Op_Get k d) m = map_option (map_prod id (map_sum id (Ret_Value \<circ> Some))) (dict_get_helper K none m k d LOOKUP)"
| "dict_do K none (Op_Pop k d) m = map_option (map_prod id (map_sum id (Ret_Value \<circ> Some))) (dict_get_helper K none m k d REMOVE_IF_FOUND)"
| "dict_do K none (Op_Setdefault k d) m = map_option (map_prod id (map_sum id (Ret_Value \<circ> Some))) (dict_get_helper K none m k d ADD_IF_NOT_FOUND)"
| "dict_do K none (Op_Contains k) m = map_option (\<lambda>b. (m, Inr (Ret_Bool b))) (dict_contains K m k)"
| "dict_do K none Op_Len m = Some (m, Inr (Ret_Nat (mp_obj_dict_len m)))"
| "dict_do K none Op_Clear m = map_option (map_prod id (map_sum id (\<lambda>_. Ret_None))) (dict_clear m)"
| "dict_do K none (Op_Update kvs) m =
     map_option (map_prod id (map_sum id (\<lambda>_. Ret_None))) (dict_update K m (From_Iterable (map Some kvs)) (mp_map_init_fixed_table 0 []))"

fun dict_run :: "'o key_ops \<Rightarrow> 'v \<Rightarrow> ('o, 'v) dict_op list \<Rightarrow> ('o, 'v) mp_map \<Rightarrow> (('o, 'v) mp_map \<times> (dict_error + 'v dict_ret) list) option" where
  "dict_run K none [] m = Some (m, [])"
| "dict_run K none (op # ops) m = do { (m, r) \<leftarrow> dict_do K none op m; (m, rs) \<leftarrow> dict_run K none ops m; Some (m, r # rs) }"

fun abs_remove :: "('o \<Rightarrow> 'o \<Rightarrow> bool) \<Rightarrow> 'o \<Rightarrow> ('o \<Rightarrow> 'v option) \<times> nat \<Rightarrow> ('o \<Rightarrow> 'v option) \<times> nat" where
  "abs_remove eq k (f, n) = ((\<lambda>k'. if eq k k' then None else f k'), if f k = None then n else n - 1)"

fun abs_do :: "('o \<Rightarrow> 'o \<Rightarrow> bool) \<Rightarrow> 'v \<Rightarrow> ('o, 'v) dict_op \<Rightarrow> ('o \<Rightarrow> 'v option) \<times> nat \<Rightarrow>
    (('o \<Rightarrow> 'v option) \<times> nat) \<times> (dict_error + 'v dict_ret)" where
  "abs_do eq none (Op_Getitem k) (f, n) = ((f, n), case f k of None \<Rightarrow> Inl KeyError | Some v \<Rightarrow> Inr (Ret_Value (Some v)))"
| "abs_do eq none (Op_Setitem k v) (f, n) = (abs_put eq (k, v) (f, n), Inr Ret_None)"
| "abs_do eq none (Op_Delitem k) (f, n) = (abs_remove eq k (f, n), if f k = None then Inl KeyError else Inr Ret_None)"
| "abs_do eq none (Op_Get k d) (f, n) =
     ((f, n), Inr (Ret_Value (Some (case f k of Some v \<Rightarrow> v | None \<Rightarrow> (case d of Some v \<Rightarrow> v | None \<Rightarrow> none)))))"
| "abs_do eq none (Op_Pop k d) (f, n) =
     (abs_remove eq k (f, n), case f k of Some v \<Rightarrow> Inr (Ret_Value (Some v)) | None \<Rightarrow> (case d of Some v \<Rightarrow> Inr (Ret_Value (Some v)) | None \<Rightarrow> Inl KeyError))"
| "abs_do eq none (Op_Setdefault k d) (f, n) =
     (let v = (case f k of Some v \<Rightarrow> v | None \<Rightarrow> (case d of Some v \<Rightarrow> v | None \<Rightarrow> none))
      in (if f k = None then abs_put eq (k, v) (f, n) else (f, n), Inr (Ret_Value (Some v))))"
| "abs_do eq none (Op_Contains k) (f, n) = ((f, n), Inr (Ret_Bool (f k \<noteq> None)))"
| "abs_do eq none Op_Len (f, n) = ((f, n), Inr (Ret_Nat n))"
| "abs_do eq none Op_Clear (f, n) = ((\<lambda>_. None, 0), Inr Ret_None)"
| "abs_do eq none (Op_Update kvs) (f, n) = (fold (abs_put eq) kvs (f, n), Inr Ret_None)"

fun abs_run :: "('o \<Rightarrow> 'o \<Rightarrow> bool) \<Rightarrow> 'v \<Rightarrow> ('o, 'v) dict_op list \<Rightarrow> ('o \<Rightarrow> 'v option) \<times> nat \<Rightarrow>
    (('o \<Rightarrow> 'v option) \<times> nat) \<times> (dict_error + 'v dict_ret) list" where
  "abs_run eq none [] a = (a, [])"
| "abs_run eq none (op # ops) a = (let (a, r) = abs_do eq none op a; (a, rs) = abs_run eq none ops a in (a, r # rs))"

abbreviation dict_abs :: "'o key_ops \<Rightarrow> ('o, 'v) mp_map \<Rightarrow> ('o \<Rightarrow> 'v option) \<times> nat" where
  "dict_abs K m \<equiv> (dict_val K m, map_used m)"

context key_laws
begin

lemma dict_do_refines:
  assumes "dict_ok K m"
  shows "\<exists>m'. dict_do K none op m = Some (m', snd (abs_do (ko_equal K) none op (dict_abs K m)))
    \<and> dict_ok K m' \<and> dict_abs K m' = fst (abs_do (ko_equal K) none op (dict_abs K m))"
proof (cases op)
  case (Op_Getitem k)
  then show ?thesis using assms by (simp add: dict_get_ok split: option.splits)
next
  case (Op_Setitem k v)
  obtain m' where "mp_obj_dict_store K m k v = Some (m', Inr ())" "dict_ok K m'" "\<And>k'. dict_val K m' k' = (if ko_equal K k k' then Some v else dict_val K m k')"
    "map_used m' = map_used m + (if dict_val K m k = None then 1 else 0)"
    using dict_store_ok [OF assms, of k v] by blast
  then show ?thesis using Op_Setitem by auto
next
  case (Op_Delitem k)
  obtain m' where "dict_get_helper K none m k None REMOVE_IF_FOUND =
      Some (m', case dict_val K m k of Some v \<Rightarrow> Inr v | None \<Rightarrow> (case None of Some d \<Rightarrow> Inr d | None \<Rightarrow> Inl KeyError))"
    "dict_ok K m'" "\<And>k'. dict_val K m' k' = (if ko_equal K k k' then None else dict_val K m k')"
    "map_used m = map_used m' + (if dict_val K m k = None then 0 else 1)"
    using dict_pop_ok [OF assms, of none k None] by blast
  then show ?thesis using Op_Delitem by (cases "dict_val K m k") (auto simp: mp_obj_dict_delete_def)
next
  case (Op_Get k d)
  then show ?thesis using assms by (simp add: dict_get_method_ok)
next
  case (Op_Pop k d)
  obtain m' where "dict_get_helper K none m k d REMOVE_IF_FOUND =
      Some (m', case dict_val K m k of Some v \<Rightarrow> Inr v | None \<Rightarrow> (case d of Some d \<Rightarrow> Inr d | None \<Rightarrow> Inl KeyError))"
    "dict_ok K m'" "\<And>k'. dict_val K m' k' = (if ko_equal K k k' then None else dict_val K m k')"
    "map_used m = map_used m' + (if dict_val K m k = None then 0 else 1)"
    using dict_pop_ok [OF assms, of none k d] by blast
  then show ?thesis using Op_Pop by (cases "dict_val K m k"; cases d) auto
next
  case (Op_Setdefault k d)
  obtain m' where m': "dict_get_helper K none m k d ADD_IF_NOT_FOUND =
      Some (m', Inr (case dict_val K m k of Some v \<Rightarrow> v | None \<Rightarrow> (case d of Some d \<Rightarrow> d | None \<Rightarrow> none)))" "dict_ok K m'"
    "\<And>k'. dict_val K m' k' = (if dict_val K m k = None \<and> ko_equal K k k' then Some (case d of Some d \<Rightarrow> d | None \<Rightarrow> none) else dict_val K m k')"
    "map_used m' = map_used m + (if dict_val K m k = None then 1 else 0)"
    using dict_setdefault_ok [OF assms, of none k d] by blast
  then show ?thesis using Op_Setdefault by (cases "dict_val K m k") (auto simp: Let_def)
next
  case (Op_Contains k)
  then show ?thesis using assms by (simp add: dict_contains_ok)
next
  case Op_Len
  then show ?thesis using assms by (simp add: mp_obj_dict_len_def)
next
  case Op_Clear
  then show ?thesis using dict_clear_ok [OF assms] by (auto simp: fun_eq_iff)
next
  case (Op_Update kvs)
  have e: "(k, None) \<notin> set (slot_items (take (map_alloc kw) (map_table kw)))" if "kw = mp_map_init_fixed_table 0 []" for k and kw :: "('o, 'v) mp_map"
    using that by (simp add: mp_map_init_fixed_table_def)
  show ?thesis
    using dict_update_ok [OF assms assms e [OF refl], of "From_Iterable (map Some kvs)" kvs] Op_Update
    by (auto simp: mp_map_init_fixed_table_def)
qed

lemma dict_run_refines:
  "dict_ok K m \<Longrightarrow> \<exists>m'. dict_run K none ops m = Some (m', snd (abs_run (ko_equal K) none ops (dict_abs K m)))
    \<and> dict_ok K m' \<and> dict_abs K m' = fst (abs_run (ko_equal K) none ops (dict_abs K m))"
proof (induction ops arbitrary: m)
  case (Cons op ops)
  obtain m1 where m1: "dict_do K none op m = Some (m1, snd (abs_do (ko_equal K) none op (dict_abs K m)))" "dict_ok K m1"
    "dict_abs K m1 = fst (abs_do (ko_equal K) none op (dict_abs K m))"
    using dict_do_refines [OF Cons.prems, of none op] by blast
  obtain m2 where m2: "dict_run K none ops m1 = Some (m2, snd (abs_run (ko_equal K) none ops (dict_abs K m1)))" "dict_ok K m2"
    "dict_abs K m2 = fst (abs_run (ko_equal K) none ops (dict_abs K m1))"
    using Cons.IH [OF m1(2)] by blast
  have "abs_run (ko_equal K) none (op # ops) (dict_abs K m) =
    (dict_abs K m2, snd (abs_do (ko_equal K) none op (dict_abs K m)) # snd (abs_run (ko_equal K) none ops (dict_abs K m1)))"
    using m1(3) m2(3) by (simp add: Let_def split_beta)
  then show ?case using m1(1) m2(1,2) by simp
qed simp

end

end
