(* ===== verification/PySet.thy ===== *)
theory PySet
  imports PyMap
begin

text \<open>
  The sets of \<^verbatim>\<open>py/map.c\<close> and their methods in \<^verbatim>\<open>py/objset.c\<close>.  The table of a set holds its elements;
  an element is found by its hash operator and the equality of objects alone.  An object that a
  method iterates over is the list of its items, but where the code iterates over the set that it
  changes the loop is over the slots of the changing table.  The comparisons start where both arguments are
  sets: an argument that is not one is made one by \<open>set_make_new\<close> before.
\<close>

section \<open>Sets\<close>

record 'o mp_set =
  set_alloc :: nat
  set_used :: nat
  set_table :: "'o slot list"

text \<open>The kinds of the look-up are sets of two bits.\<close>

datatype set_lookup_kind = SET_LOOKUP | SET_ADD | SET_REMOVE | SET_ADD_OR_REMOVE

fun kind_add :: "set_lookup_kind \<Rightarrow> bool" where
  "kind_add SET_ADD = True"
| "kind_add SET_ADD_OR_REMOVE = True"
| "kind_add _ = False"

fun kind_remove :: "set_lookup_kind \<Rightarrow> bool" where
  "kind_remove SET_REMOVE = True"
| "kind_remove SET_ADD_OR_REMOVE = True"
| "kind_remove _ = False"

definition mp_set_init :: "nat \<Rightarrow> 'o mp_set" where
  "mp_set_init n = \<lparr>set_alloc = n, set_used = 0, set_table = replicate n Null\<rparr>"

definition set_add_at :: "'o mp_set \<Rightarrow> nat \<Rightarrow> 'o \<Rightarrow> 'o mp_set" where
  "set_add_at s pos x = s\<lparr>set_used := set_used s + 1, set_table := (set_table s)[pos := Key x]\<rparr>"

definition set_remove_at :: "'o mp_set \<Rightarrow> nat \<Rightarrow> 'o mp_set" where
  "set_remove_at s pos = s\<lparr>set_used := set_used s - 1, set_table := (set_table s)[pos := deleted_slot (set_table s) pos]\<rparr>"

text \<open>The search loop; after a rehash it starts again.\<close>

fun set_search :: "nat \<Rightarrow> ('o mp_set \<Rightarrow> 'o mp_set option) \<Rightarrow> 'o key_ops \<Rightarrow> nat \<Rightarrow> 'o mp_set \<Rightarrow> 'o \<Rightarrow> set_lookup_kind \<Rightarrow>
    ('o mp_set \<times> 'o option) option" where
  "set_search 0 rehash K hash s index kind = None"
| "set_search (Suc rounds) rehash K hash s index kind =
     (case probe (\<lambda>elem. ko_equal K elem index) (set_table s) (probe_seq (set_alloc s) (hash mod set_alloc s)) None of
        Found pos \<Rightarrow>
          (case set_table s ! pos of
             Key elem \<Rightarrow> Some (if kind_remove kind then set_remove_at s pos else s, Some elem)
           | _ \<Rightarrow> None)
      | Empty pos avail_slot \<Rightarrow>
          if kind_add kind
          then Some (set_add_at s (case avail_slot of None \<Rightarrow> pos | Some a \<Rightarrow> a) index, Some index)
          else Some (s, None)
      | Wrapped avail_slot \<Rightarrow>
          if kind_add kind
          then (case avail_slot of
                  Some a \<Rightarrow> Some (set_add_at s a index, Some index)
                | None \<Rightarrow> do { s \<leftarrow> rehash s; set_search rounds rehash K hash s index kind })
          else Some (s, None))"

definition mp_set_lookup_with :: "('o mp_set \<Rightarrow> 'o mp_set option) \<Rightarrow> 'o key_ops \<Rightarrow> 'o mp_set \<Rightarrow> 'o \<Rightarrow> set_lookup_kind \<Rightarrow>
    ('o mp_set \<times> 'o option) option" where
  "mp_set_lookup_with rehash K s index kind =
     (if set_alloc s = 0 \<and> \<not> kind_add kind then Some (s, None)
      else do {
        s \<leftarrow> (if set_alloc s = 0 then rehash s else Some s);
        set_search 2 rehash K (ko_unary_hash K index) s index kind })"

fun set_readd :: "('o mp_set \<Rightarrow> 'o \<Rightarrow> set_lookup_kind \<Rightarrow> ('o mp_set \<times> 'o option) option) \<Rightarrow> 'o slot list \<Rightarrow> 'o mp_set \<Rightarrow> 'o mp_set option" where
  "set_readd lookup [] s = Some s"
| "set_readd lookup (e # es) s =
     (case e of
        Key x \<Rightarrow> do { (s, _) \<leftarrow> lookup s x SET_ADD; set_readd lookup es s }
      | _ \<Rightarrow> set_readd lookup es s)"

definition mp_set_rehash_with :: "('o mp_set \<Rightarrow> 'o \<Rightarrow> set_lookup_kind \<Rightarrow> ('o mp_set \<times> 'o option) option) \<Rightarrow> 'o mp_set \<Rightarrow> 'o mp_set option" where
  "mp_set_rehash_with lookup s =
     (let new_alloc = get_hash_alloc_greater_or_equal_to (set_alloc s + 1)
      in set_readd lookup (take (set_alloc s) (set_table s)) \<lparr>set_alloc = new_alloc, set_used = 0, set_table = replicate new_alloc Null\<rparr>)"

text \<open>As for maps, the depth of the calls is at most 2.\<close>

fun mp_set_lookup_depth :: "nat \<Rightarrow> 'o key_ops \<Rightarrow> 'o mp_set \<Rightarrow> 'o \<Rightarrow> set_lookup_kind \<Rightarrow> ('o mp_set \<times> 'o option) option" where
  "mp_set_lookup_depth 0 K s index kind = None"
| "mp_set_lookup_depth (Suc d) K s index kind =
     mp_set_lookup_with (mp_set_rehash_with (mp_set_lookup_depth d K)) K s index kind"

definition mp_set_lookup :: "'o key_ops \<Rightarrow> 'o mp_set \<Rightarrow> 'o \<Rightarrow> set_lookup_kind \<Rightarrow> ('o mp_set \<times> 'o option) option" where
  "mp_set_lookup K = mp_set_lookup_depth 2 K"

definition mp_set_slot_is_filled :: "'o mp_set \<Rightarrow> nat \<Rightarrow> bool" where
  "mp_set_slot_is_filled s pos \<longleftrightarrow> set_table s ! pos \<noteq> Null \<and> set_table s ! pos \<noteq> Sentinel"

fun set_first_filled :: "'o mp_set \<Rightarrow> nat list \<Rightarrow> nat option" where
  "set_first_filled s [] = None"
| "set_first_filled s (i # is) = (if mp_set_slot_is_filled s i then Some i else set_first_filled s is)"

definition mp_set_remove_first :: "'o mp_set \<Rightarrow> 'o mp_set \<times> 'o option" where
  "mp_set_remove_first s =
     (case set_first_filled s [0 ..< set_alloc s] of
        None \<Rightarrow> (s, None)
      | Some pos \<Rightarrow> (case set_table s ! pos of Key elem \<Rightarrow> (set_remove_at s pos, Some elem) | _ \<Rightarrow> (s, None)))"

definition mp_set_clear :: "'o mp_set \<Rightarrow> 'o mp_set" where
  "mp_set_clear s = \<lparr>set_alloc = 0, set_used = 0, set_table = []\<rparr>"

section \<open>Methods\<close>

datatype set_error = Set_KeyError

text \<open>The items of a set in the order of its iterator.\<close>

fun slot_elems :: "'o slot list \<Rightarrow> 'o list" where
  "slot_elems [] = []"
| "slot_elems (e # es) = (case e of Key x \<Rightarrow> x # slot_elems es | _ \<Rightarrow> slot_elems es)"

definition set_items :: "'o mp_set \<Rightarrow> 'o list" where
  "set_items s = slot_elems (take (set_alloc s) (set_table s))"

definition set_add :: "'o key_ops \<Rightarrow> 'o mp_set \<Rightarrow> 'o \<Rightarrow> 'o mp_set option" where
  "set_add K s item = map_option fst (mp_set_lookup K s item SET_ADD)"

definition set_discard :: "'o key_ops \<Rightarrow> 'o mp_set \<Rightarrow> 'o \<Rightarrow> 'o mp_set option" where
  "set_discard K s item = map_option fst (mp_set_lookup K s item SET_REMOVE)"

definition set_remove :: "'o key_ops \<Rightarrow> 'o mp_set \<Rightarrow> 'o \<Rightarrow> ('o mp_set \<times> (set_error + unit)) option" where
  "set_remove K s item =
     map_option (\<lambda>(s, r). (s, if r = None then Inl Set_KeyError else Inr ())) (mp_set_lookup K s item SET_REMOVE)"

definition set_pop :: "'o mp_set \<Rightarrow> 'o mp_set \<times> (set_error + 'o)" where
  "set_pop s = (case mp_set_remove_first s of (s, None) \<Rightarrow> (s, Inl Set_KeyError) | (s, Some obj) \<Rightarrow> (s, Inr obj))"

definition set_contains :: "'o key_ops \<Rightarrow> 'o mp_set \<Rightarrow> 'o \<Rightarrow> bool option" where
  "set_contains K s item = map_option (\<lambda>(_, r). r \<noteq> None) (mp_set_lookup K s item SET_LOOKUP)"

definition set_copy :: "'o mp_set \<Rightarrow> 'o mp_set" where
  "set_copy s = (mp_set_init (set_alloc s))\<lparr>set_used := set_used s, set_table := take (set_alloc s) (set_table s)\<rparr>"

text \<open>A loop of look-ups of one kind over the items of an iterable.\<close>

fun set_lookup_all :: "'o key_ops \<Rightarrow> set_lookup_kind \<Rightarrow> 'o mp_set \<Rightarrow> 'o list \<Rightarrow> 'o mp_set option" where
  "set_lookup_all K kind s [] = Some s"
| "set_lookup_all K kind s (x # xs) = do { (s, _) \<leftarrow> mp_set_lookup K s x kind; set_lookup_all K kind s xs }"

definition set_make_new :: "'o key_ops \<Rightarrow> 'o list \<Rightarrow> 'o mp_set option" where
  "set_make_new K items = set_lookup_all K SET_ADD (mp_set_init 0) items"

definition set_update_int :: "'o key_ops \<Rightarrow> 'o mp_set \<Rightarrow> 'o list \<Rightarrow> 'o mp_set option" where
  "set_update_int K s items = set_lookup_all K SET_ADD s items"

fun set_update :: "'o key_ops \<Rightarrow> 'o mp_set \<Rightarrow> 'o list list \<Rightarrow> 'o mp_set option" where
  "set_update K s [] = Some s"
| "set_update K s (xs # xss) = do { s \<leftarrow> set_update_int K s xs; set_update K s xss }"

definition set_union :: "'o key_ops \<Rightarrow> 'o mp_set \<Rightarrow> 'o list \<Rightarrow> 'o mp_set option" where
  "set_union K s items = set_update_int K (set_copy s) items"

text \<open>An argument of a method: the set itself, or an object with items.\<close>

datatype 'o set_arg = Itself | Items "'o list"

fun set_diff_update :: "'o key_ops \<Rightarrow> 'o mp_set \<Rightarrow> 'o set_arg list \<Rightarrow> 'o mp_set option" where
  "set_diff_update K s [] = Some s"
| "set_diff_update K s (Itself # args) = set_diff_update K (mp_set_clear s) args"
| "set_diff_update K s (Items xs # args) = do { s \<leftarrow> set_lookup_all K SET_REMOVE s xs; set_diff_update K s args }"

text \<open>The copy that \<open>difference\<close> works on is a new object, none of its arguments is the copy itself.\<close>

definition set_diff :: "'o key_ops \<Rightarrow> 'o mp_set \<Rightarrow> 'o list list \<Rightarrow> 'o mp_set option" where
  "set_diff K s args = set_diff_update K (set_copy s) (map Items args)"

fun set_intersect_loop :: "'o key_ops \<Rightarrow> 'o mp_set \<Rightarrow> 'o mp_set \<Rightarrow> 'o list \<Rightarrow> 'o mp_set option" where
  "set_intersect_loop K s out [] = Some out"
| "set_intersect_loop K s out (x # xs) =
     do { (_, r) \<leftarrow> mp_set_lookup K s x SET_LOOKUP;
          out \<leftarrow> (if r \<noteq> None then set_add K out x else Some out);
          set_intersect_loop K s out xs }"

text \<open>The set that \<open>intersection\<close> returns; \<open>intersection_update\<close> moves its table into the set.\<close>

definition set_intersect :: "'o key_ops \<Rightarrow> 'o mp_set \<Rightarrow> 'o set_arg \<Rightarrow> 'o mp_set option" where
  "set_intersect K s other =
     (case other of Itself \<Rightarrow> Some (set_copy s) | Items xs \<Rightarrow> set_intersect_loop K s (mp_set_init 0) xs)"

definition set_intersect_update :: "'o key_ops \<Rightarrow> 'o mp_set \<Rightarrow> 'o set_arg \<Rightarrow> 'o mp_set option" where
  "set_intersect_update K s other =
     (case other of
        Itself \<Rightarrow> Some s
      | Items xs \<Rightarrow>
          map_option (\<lambda>out. s\<lparr>set_alloc := set_alloc out, set_used := set_used out, set_table := set_table out\<rparr>)
            (set_intersect_loop K s (mp_set_init 0) xs))"

fun set_isdisjoint :: "'o key_ops \<Rightarrow> 'o mp_set \<Rightarrow> 'o list \<Rightarrow> bool option" where
  "set_isdisjoint K s [] = Some True"
| "set_isdisjoint K s (x # xs) =
     do { (_, r) \<leftarrow> mp_set_lookup K s x SET_LOOKUP; if r \<noteq> None then Some False else set_isdisjoint K s xs }"

fun set_issubset_loop :: "'o key_ops \<Rightarrow> 'o list \<Rightarrow> 'o mp_set \<Rightarrow> bool option" where
  "set_issubset_loop K [] other = Some True"
| "set_issubset_loop K (x # xs) other =
     do { (_, r) \<leftarrow> mp_set_lookup K other x SET_LOOKUP; if r = None then Some False else set_issubset_loop K xs other }"

definition set_issubset_internal :: "'o key_ops \<Rightarrow> 'o mp_set \<Rightarrow> 'o mp_set \<Rightarrow> bool \<Rightarrow> bool option" where
  "set_issubset_internal K self other proper =
     (if proper \<and> set_used self = set_used other then Some False else set_issubset_loop K (set_items self) other)"

definition set_equal :: "'o key_ops \<Rightarrow> 'o mp_set \<Rightarrow> 'o mp_set \<Rightarrow> bool option" where
  "set_equal K self other = (if set_used self \<noteq> set_used other then Some False else set_issubset_internal K self other False)"

text \<open>Over the set itself the loop runs while the slots change under it.\<close>

fun set_toggle_slots :: "'o key_ops \<Rightarrow> 'o mp_set \<Rightarrow> nat list \<Rightarrow> 'o mp_set option" where
  "set_toggle_slots K s [] = Some s"
| "set_toggle_slots K s (i # is) =
     (case set_table s ! i of
        Key x \<Rightarrow> do { (s, _) \<leftarrow> mp_set_lookup K s x SET_ADD_OR_REMOVE; set_toggle_slots K s is }
      | _ \<Rightarrow> set_toggle_slots K s is)"

definition set_symmetric_difference_update :: "'o key_ops \<Rightarrow> 'o mp_set \<Rightarrow> 'o set_arg \<Rightarrow> 'o mp_set option" where
  "set_symmetric_difference_update K s other =
     (case other of
        Itself \<Rightarrow> set_toggle_slots K s [0 ..< set_alloc s]
      | Items xs \<Rightarrow> set_lookup_all K SET_ADD_OR_REMOVE s xs)"

definition set_symmetric_difference :: "'o key_ops \<Rightarrow> 'o mp_set \<Rightarrow> 'o list \<Rightarrow> 'o mp_set option" where
  "set_symmetric_difference K s items = set_symmetric_difference_update K (set_copy s) (Items items)"

end
