(* ===== verification/SetLaws.thy ===== *)
theory SetLaws
  imports PySet MapLaws
begin

text \<open>
  What the look-up and the methods of a set do under the laws of its elements: a well-formed set
  stands for the set of the objects that are equal to one of its elements, and the methods are the
  operations on sets of objects.
\<close>

section \<open>The laws of the elements\<close>

locale set_keys = hash_keys "ko_equal K" "ko_unary_hash K" for K :: "'o key_ops"

definition set_wf :: "'o key_ops \<Rightarrow> 'o mp_set \<Rightarrow> bool" where
  "set_wf K s \<longleftrightarrow> length (set_table s) = set_alloc s \<and> set_used s = filled (set_table s)
     \<and> table_ok (ko_equal K) (ko_unary_hash K) (set_table s)"

text \<open>The objects that the set contains, up to their equality.\<close>

definition set_abs :: "'o key_ops \<Rightarrow> 'o mp_set \<Rightarrow> 'o set" where
  "set_abs K s = {x. has_key (ko_equal K) (set_table s) x}"

lemma set_wfD:
  assumes "set_wf K s"
  shows "length (set_table s) = set_alloc s" "set_used s = filled (set_table s)"
    "table_ok (ko_equal K) (ko_unary_hash K) (set_table s)"
  using assms by (simp_all add: set_wf_def)

definition distinct_slots :: "('o \<Rightarrow> 'o \<Rightarrow> bool) \<Rightarrow> 'o slot list \<Rightarrow> bool" where
  "distinct_slots eq es \<longleftrightarrow> (\<forall>p q k l. p < length es \<and> q < length es \<and> es ! p = Key k \<and> es ! q = Key l \<and> eq k l \<longrightarrow> p = q)"

lemma distinct_slotsD:
  "distinct_slots eq es \<Longrightarrow> p < length es \<Longrightarrow> q < length es \<Longrightarrow> es ! p = Key k \<Longrightarrow> es ! q = Key l \<Longrightarrow> eq k l \<Longrightarrow> p = q"
  unfolding distinct_slots_def by blast

lemma distinct_slots_tl: "distinct_slots eq (e # es) \<Longrightarrow> distinct_slots eq es"
  unfolding distinct_slots_def by (metis Suc_less_eq length_Cons nth_Cons_Suc old.nat.inject)

context set_keys
begin

lemma set_wf_unique:
  "set_wf K s \<Longrightarrow> p < set_alloc s \<Longrightarrow> q < set_alloc s \<Longrightarrow> set_table s ! p = Key k \<Longrightarrow> set_table s ! q = Key l \<Longrightarrow> ko_equal K k l \<Longrightarrow> p = q"
  unfolding set_wf_def table_ok_def by metis

lemma set_add_at_wf:
  assumes "set_wf K s" "free_slot (ko_unary_hash K x) (set_table s) q" "x \<notin> set_abs K s"
  shows "set_wf K (set_add_at s q x)" "set_abs K (set_add_at s q x) = set_abs K s \<union> {y. ko_equal K x y}"
    "set_used (set_add_at s q x) = set_used s + 1"
proof -
  note w = set_wfD [OF assms(1)]
  have q: "q < length (set_table s)" "\<forall>l. set_table s ! q \<noteq> Key l" "slot_reached (ko_unary_hash K x) (set_table s) q"
    using assms(2) by (auto simp: free_slot_def)
  have nk: "\<not> has_key (ko_equal K) (set_table s) x" using assms(3) by (simp add: set_abs_def)
  have fl: "filled ((set_table s)[q := Key x]) = filled (set_table s) + 1" using filled_update [OF q(1), of "Key x"] q(2) by simp
  show "set_used (set_add_at s q x) = set_used s + 1" by (simp add: set_add_at_def)
  show "set_wf K (set_add_at s q x)"
    using w fl table_ok_insert [OF w(3) q(1,2) nk q(3)] by (simp add: set_wf_def set_add_at_def)
  have "has_key (ko_equal K) ((set_table s)[q := Key x]) y \<longleftrightarrow> has_key (ko_equal K) (set_table s) y \<or> ko_equal K x y" for y
    unfolding has_key_def using q(1,2) by (auto simp: nth_list_update split: if_splits)
  then show "set_abs K (set_add_at s q x) = set_abs K s \<union> {y. ko_equal K x y}" by (auto simp: set_abs_def set_add_at_def)
qed

lemma set_remove_at_wf:
  assumes "set_wf K s" "p < set_alloc s" "set_table s ! p = Key l"
  shows "set_wf K (set_remove_at s p)" "set_abs K (set_remove_at s p) = set_abs K s - {y. ko_equal K l y}"
    "set_used s = set_used (set_remove_at s p) + 1"
proof -
  note w = set_wfD [OF assms(1)]
  let ?d = "deleted_slot (set_table s) p"
  have p: "p < length (set_table s)" using assms(2) w(1) by simp
  have nd: "\<forall>l. ?d \<noteq> Key l" by (simp add: deleted_slot_def)
  have fl: "filled (set_table s) = filled ((set_table s)[p := ?d]) + 1" using filled_update [OF p, of ?d] assms(3) nd by simp
  show "set_used s = set_used (set_remove_at s p) + 1" using fl w(2) by (simp add: set_remove_at_def)
  show "set_wf K (set_remove_at s p)"
    using w fl table_ok_delete [OF w(3) p assms(3)] by (simp add: set_wf_def set_remove_at_def)
  have "has_key (ko_equal K) ((set_table s)[p := ?d]) y \<longleftrightarrow> has_key (ko_equal K) (set_table s) y \<and> \<not> ko_equal K l y" for y
  proof
    assume "has_key (ko_equal K) ((set_table s)[p := ?d]) y"
    then obtain q m where q: "q < set_alloc s" "q \<noteq> p" "set_table s ! q = Key m" "ko_equal K m y"
      unfolding has_key_def using nd w(1) p by (metis length_list_update nth_list_update_eq nth_list_update_neq)
    have "\<not> ko_equal K m l" using set_wf_unique [OF assms(1) q(1) assms(2) q(3) assms(3)] q(2) by blast
    then show "has_key (ko_equal K) (set_table s) y \<and> \<not> ko_equal K l y"
      using q w(1) eq_sym eq_trans unfolding has_key_def by metis
  next
    assume "has_key (ko_equal K) (set_table s) y \<and> \<not> ko_equal K l y"
    then obtain q m where "q < length (set_table s)" "set_table s ! q = Key m" "ko_equal K m y" "\<not> ko_equal K l y"
      by (auto simp: has_key_def)
    moreover have "q \<noteq> p" using calculation assms(3) by auto
    ultimately show "has_key (ko_equal K) ((set_table s)[p := ?d]) y" unfolding has_key_def by (intro exI [of _ q]) auto
  qed
  then show "set_abs K (set_remove_at s p) = set_abs K s - {y. ko_equal K l y}" by (auto simp: set_abs_def set_remove_at_def)
qed

lemma set_abs_cong: "ko_equal K x y \<Longrightarrow> x \<in> set_abs K s \<longleftrightarrow> y \<in> set_abs K s"
  unfolding set_abs_def has_key_def using eq_sym eq_trans by blast

lemma set_outcome:
  assumes "set_wf K s"
  shows "case probe (\<lambda>e. ko_equal K e x) (set_table s) (probe_seq (set_alloc s) (ko_unary_hash K x mod set_alloc s)) None of
      Found p \<Rightarrow> p < set_alloc s \<and> (\<exists>l. set_table s ! p = Key l \<and> ko_equal K l x)
    | Empty p a \<Rightarrow> x \<notin> set_abs K s \<and> free_slot (ko_unary_hash K x) (set_table s) (case a of None \<Rightarrow> p | Some a \<Rightarrow> a)
    | Wrapped (Some a) \<Rightarrow> x \<notin> set_abs K s \<and> free_slot (ko_unary_hash K x) (set_table s) a
    | Wrapped None \<Rightarrow> x \<notin> set_abs K s \<and> filled (set_table s) = set_alloc s"
  using table_search [OF set_wfD(3) [OF assms] set_wfD(1) [OF assms, symmetric], of "\<lambda>e. ko_equal K e x" x]
  unfolding set_abs_def mem_Collect_eq by simp

lemma set_search_found:
  assumes "set_wf K s" "x \<in> set_abs K s"
  shows "\<exists>p l. set_search (Suc r) R K (ko_unary_hash K x) s x kind = Some (if kind_remove kind then set_remove_at s p else s, Some l)
    \<and> p < set_alloc s \<and> set_table s ! p = Key l \<and> ko_equal K l x"
  using set_outcome [OF assms(1), of x] assms(2) by (auto split: probe_result.splits option.splits)

lemma set_search_missing:
  assumes "set_wf K s" "x \<notin> set_abs K s" "\<not> kind_add kind"
  shows "set_search (Suc r) R K (ko_unary_hash K x) s x kind = Some (s, None)"
proof -
  have "\<not> (p < set_alloc s \<and> set_table s ! p = Key l \<and> ko_equal K l x)" for p l
    using assms(2) set_wfD(1) [OF assms(1)] by (auto simp: set_abs_def has_key_def)
  then show ?thesis using set_outcome [OF assms(1), of x] assms(3) by (simp split: probe_result.splits) blast
qed

lemma set_search_add:
  assumes "set_wf K s" "x \<notin> set_abs K s" "filled (set_table s) < set_alloc s" "kind_add kind"
  shows "\<exists>q. set_search (Suc r) R K (ko_unary_hash K x) s x kind = Some (set_add_at s q x, Some x)
    \<and> free_slot (ko_unary_hash K x) (set_table s) q"
proof -
  have "\<not> (p < set_alloc s \<and> set_table s ! p = Key l \<and> ko_equal K l x)" for p l
    using assms(2) set_wfD(1) [OF assms(1)] by (auto simp: set_abs_def has_key_def)
  then show ?thesis using set_outcome [OF assms(1), of x] assms(3,4) by (auto split: probe_result.splits option.splits)
qed

lemma set_search_full:
  assumes "set_wf K s" "x \<notin> set_abs K s" "filled (set_table s) = set_alloc s" "kind_add kind"
  shows "set_search (Suc r) R K (ko_unary_hash K x) s x kind = R s \<bind> (\<lambda>s. set_search r R K (ko_unary_hash K x) s x kind)"
proof -
  have "\<not> (p < set_alloc s \<and> set_table s ! p = Key l \<and> ko_equal K l x)" for p l
    using assms(2) set_wfD(1) [OF assms(1)] by (auto simp: set_abs_def has_key_def)
  moreover have "\<not> free_slot h (set_table s) q" for h q
    using free_slot_room [of h "set_table s" q] assms(3) set_wfD(1) [OF assms(1)] by auto
  ultimately show ?thesis using set_outcome [OF assms(1), of x] assms(4) by (auto split: probe_result.splits option.splits)
qed

definition cls :: "'o \<Rightarrow> 'o set" where
  "cls x = {y. ko_equal K x y}"

lemma cls_self [simp]: "x \<in> cls x"
  by (simp add: cls_def eq_refl)

lemma set_lookup_with_room:
  assumes "set_wf K s" "x \<notin> set_abs K s" "filled (set_table s) < set_alloc s" "kind_add kind"
  shows "\<exists>q. mp_set_lookup_with R K s x kind = Some (set_add_at s q x, Some x) \<and> free_slot (ko_unary_hash K x) (set_table s) q"
  using set_search_add [OF assms, of 1 R] assms(3) by (simp add: mp_set_lookup_with_def numeral_2_eq_2 del: set_search.simps)

lemma set_readd_spec:
  assumes "set_wf K s" "lookup = (\<lambda>s x. mp_set_lookup_with R K s x)"
    and "filled (set_table s) + filled es \<le> set_alloc s"
    and "distinct_slots (ko_equal K) es"
    and "\<And>k. Key k \<in> set es \<Longrightarrow> k \<notin> set_abs K s"
  shows "\<exists>s'. set_readd lookup es s = Some s' \<and> set_wf K s' \<and> set_alloc s' = set_alloc s
    \<and> filled (set_table s') = filled (set_table s) + filled es \<and> set_abs K s' = set_abs K s \<union> {x. has_key (ko_equal K) es x}"
  using assms(1,3-5)
proof (induction es arbitrary: s)
  case Nil
  then show ?case by (auto simp: filled_def has_key_def)
next
  case (Cons e es)
  have inj: "distinct_slots (ko_equal K) es" by (rule distinct_slots_tl [OF Cons.prems(3)])
  have hk: "has_key (ko_equal K) (e # es) x \<longleftrightarrow> (\<exists>k. e = Key k \<and> ko_equal K k x) \<or> has_key (ko_equal K) es x" for x
    unfolding has_key_def by (auto simp: less_Suc_eq_0_disj)
  show ?case
  proof (cases "\<exists>k. e = Key k")
    case False
    then have f: "filled (e # es) = filled es" "set_readd lookup (e # es) s = set_readd lookup es s"
      by (cases e; auto simp: filled_def)+
    have "\<And>k. Key k \<in> set es \<Longrightarrow> k \<notin> set_abs K s" using Cons.prems(4) by simp
    then show ?thesis using Cons.IH [OF Cons.prems(1) _ inj] Cons.prems(2) f False hk by simp
  next
    case True
    then obtain k where k: "e = Key k" by blast
    have nk: "k \<notin> set_abs K s" using Cons.prems(4) k by simp
    have fe: "filled (e # es) = filled es + 1" using k by (simp add: filled_def)
    have room: "filled (set_table s) < set_alloc s" using Cons.prems(2) fe by simp
    obtain q where q: "lookup s k SET_ADD = Some (set_add_at s q k, Some k)" "free_slot (ko_unary_hash K k) (set_table s) q"
      using set_lookup_with_room [OF Cons.prems(1) nk room, of SET_ADD R] assms(2) by auto
    note add = set_add_at_wf [OF Cons.prems(1) q(2) nk]
    have al: "set_alloc (set_add_at s q k) = set_alloc s" by (simp add: set_add_at_def)
    have fl: "filled (set_table (set_add_at s q k)) = filled (set_table s) + 1"
      using add(3) set_wfD(2) [OF add(1)] set_wfD(2) [OF Cons.prems(1)] by simp
    have new: "l \<notin> set_abs K (set_add_at s q k)" if l: "Key l \<in> set es" for l
    proof -
      obtain p where "p < length es" "es ! p = Key l" using l by (metis in_set_conv_nth)
      then have "\<not> ko_equal K k l" using distinct_slotsD [OF Cons.prems(3), of 0 "Suc p" k l] k by auto
      then show ?thesis using add(2) Cons.prems(4) [of l] l by simp
    qed
    obtain s' where "set_readd lookup es (set_add_at s q k) = Some s'" "set_wf K s'" "set_alloc s' = set_alloc s"
      "filled (set_table s') = filled (set_table s) + 1 + filled es"
      "set_abs K s' = set_abs K (set_add_at s q k) \<union> {x. has_key (ko_equal K) es x}"
      using Cons.IH [OF add(1) _ inj new] Cons.prems(2) fe fl al by auto
    then show ?thesis using q(1) k fe hk add(2) by auto
  qed
qed

lemma set_rehash_spec:
  assumes "set_wf K s" "lookup = (\<lambda>s x. mp_set_lookup_with R K s x)"
  shows "\<exists>s'. mp_set_rehash_with lookup s = Some s' \<and> set_wf K s' \<and> set_alloc s < set_alloc s'
    \<and> filled (set_table s') = filled (set_table s) \<and> set_abs K s' = set_abs K s"
proof -
  note w = set_wfD [OF assms(1)]
  define n where "n = get_hash_alloc_greater_or_equal_to (set_alloc s + 1)"
  define s0 :: "'o mp_set" where "s0 = \<lparr>set_alloc = n, set_used = 0, set_table = replicate n Null\<rparr>"
  have n: "set_alloc s < n" using get_hash_alloc_ge [of "set_alloc s + 1"] by (simp add: n_def)
  have wf: "set_wf K s0" by (simp add: set_wf_def s0_def)
  have e: "set_abs K s0 = {}" by (simp add: set_abs_def s0_def)
  have room: "filled (set_table s0) + filled (set_table s) \<le> set_alloc s0"
    using filled_le [of "set_table s"] n w(1) by (simp add: s0_def)
  have inj: "distinct_slots (ko_equal K) (set_table s)"
    unfolding distinct_slots_def using set_wf_unique [OF assms(1)] w(1) by metis
  obtain s' where "set_readd lookup (set_table s) s0 = Some s'" "set_wf K s'" "set_alloc s' = n"
    "filled (set_table s') = filled (set_table s)" "set_abs K s' = {x. has_key (ko_equal K) (set_table s) x}"
    using set_readd_spec [OF wf assms(2) room inj] e by (auto simp: s0_def)
  moreover have "mp_set_rehash_with lookup s = set_readd lookup (set_table s) s0"
    using w(1) by (simp add: mp_set_rehash_with_def s0_def n_def Let_def)
  ultimately show ?thesis using n by (simp add: set_abs_def)
qed

lemma mp_set_lookup_unfold:
  "mp_set_lookup K s x kind =
    mp_set_lookup_with (mp_set_rehash_with (\<lambda>s x. mp_set_lookup_with (mp_set_rehash_with (mp_set_lookup_depth 0 K)) K s x)) K s x kind"
proof -
  have "mp_set_lookup_depth (Suc 0) K = (\<lambda>s x. mp_set_lookup_with (mp_set_rehash_with (mp_set_lookup_depth 0 K)) K s x)"
    by (intro ext) simp
  moreover have "mp_set_lookup K s x kind = mp_set_lookup_with (mp_set_rehash_with (mp_set_lookup_depth (Suc 0) K)) K s x kind"
    unfolding mp_set_lookup_def numeral_2_eq_2 by (rule mp_set_lookup_depth.simps(2))
  ultimately show ?thesis by (simp only:)
qed

text \<open>The look-up in its four kinds.\<close>

lemma set_lookup_found:
  assumes "set_wf K s" "x \<in> set_abs K s"
  shows "\<exists>s' l. mp_set_lookup K s x kind = Some (s', Some l) \<and> set_wf K s' \<and> ko_equal K l x
    \<and> (if kind_remove kind then set_abs K s' = set_abs K s - cls x \<and> set_used s = set_used s' + 1
         \<and> set_alloc s' = set_alloc s \<and> (\<forall>i m. set_table s' ! i = Key m \<longrightarrow> set_table s ! i = Key m)
       else s' = s)"
proof -
  have "set_alloc s \<noteq> 0" using assms set_wfD(1) [OF assms(1)] by (auto simp: set_abs_def has_key_def)
  then have "mp_set_lookup_with R K s x kind = set_search (Suc 1) R K (ko_unary_hash K x) s x kind" for R
    by (simp add: mp_set_lookup_with_def numeral_2_eq_2 del: set_search.simps)
  then obtain p l where pl: "mp_set_lookup K s x kind = Some (if kind_remove kind then set_remove_at s p else s, Some l)"
    "p < set_alloc s" "set_table s ! p = Key l" "ko_equal K l x"
    using set_search_found [OF assms, of 1 _ kind] unfolding mp_set_lookup_unfold by metis
  have "{y. ko_equal K l y} = cls x" using pl(4) eq_sym eq_trans unfolding cls_def by blast
  moreover have "set_table s ! i = Key m" if "set_table (set_remove_at s p) ! i = Key m" for i m
    using that pl(2) set_wfD(1) [OF assms(1)] by (cases "i = p") (auto simp: set_remove_at_def deleted_slot_def split: if_splits)
  moreover have "set_alloc (set_remove_at s p) = set_alloc s" by (simp add: set_remove_at_def)
  ultimately show ?thesis using pl(1,4) assms(1) set_remove_at_wf [OF assms(1) pl(2,3)] by auto
qed

lemma set_lookup_missing:
  assumes "set_wf K s" "x \<notin> set_abs K s"
  shows "\<exists>s'. mp_set_lookup K s x kind = Some (s', if kind_add kind then Some x else None) \<and> set_wf K s'
    \<and> (if kind_add kind then set_abs K s' = set_abs K s \<union> cls x \<and> set_used s' = set_used s + 1 else s' = s)"
proof (cases "kind_add kind")
  case False
  then have "mp_set_lookup K s x kind = Some (s, None)"
    using set_search_missing [OF assms False, of 1] unfolding mp_set_lookup_unfold
    by (simp add: mp_set_lookup_with_def numeral_2_eq_2 del: set_search.simps)
  then show ?thesis using False assms(1) by simp
next
  case True
  let ?R = "mp_set_rehash_with (\<lambda>s x. mp_set_lookup_with (mp_set_rehash_with (mp_set_lookup_depth 0 K)) K s x)"
  let ?s = "\<lambda>r s. set_search r ?R K (ko_unary_hash K x) s x kind"
  note w = set_wfD [OF assms(1)]
  obtain sr where sr: "?R s = Some sr" "set_wf K sr" "set_alloc s < set_alloc sr" "filled (set_table sr) = filled (set_table s)"
    "set_abs K sr = set_abs K s"
    using set_rehash_spec [OF assms(1) refl] by blast
  have room: "filled (set_table sr) < set_alloc sr" using filled_le [of "set_table s"] w(1) sr(3,4) by simp
  have xr: "x \<notin> set_abs K sr" using assms(2) sr(5) by simp
  have lw: "mp_set_lookup K s x kind = (if set_alloc s = 0 then ?s (Suc 1) sr else ?s (Suc 1) s)"
    unfolding mp_set_lookup_unfold using sr(1) True by (simp add: mp_set_lookup_with_def numeral_2_eq_2 del: set_search.simps)
  have le: "filled (set_table s) \<le> set_alloc s" using filled_le [of "set_table s"] w(1) by simp
  have full: "filled (set_table s) = set_alloc s \<Longrightarrow> ?s (Suc 1) s = ?s (Suc 0) sr"
    using set_search_full [OF assms _ True, of "Suc 0" ?R] sr(1) by simp
  have "\<exists>t q. mp_set_lookup K s x kind = Some (set_add_at t q x, Some x) \<and> free_slot (ko_unary_hash K x) (set_table t) q
    \<and> set_wf K t \<and> set_abs K t = set_abs K s \<and> filled (set_table t) = filled (set_table s)"
  proof (cases "filled (set_table s) = set_alloc s")
    case False
    then have "filled (set_table s) < set_alloc s" using le by simp
    then show ?thesis using lw set_search_add [OF assms _ True, of 1 ?R] assms(1) by auto
  next
    case True
    define r :: nat where "r = (if set_alloc s = 0 then 1 else 0)"
    have e: "mp_set_lookup K s x kind = ?s (Suc r) sr" using lw full [OF True] by (simp add: r_def del: set_search.simps)
    show ?thesis unfolding e using set_search_add [OF sr(2) xr room \<open>kind_add kind\<close>, of r ?R] sr(2,4,5) by auto
  qed
  then obtain t q where t: "mp_set_lookup K s x kind = Some (set_add_at t q x, Some x)" "free_slot (ko_unary_hash K x) (set_table t) q"
    "set_wf K t" "set_abs K t = set_abs K s" "filled (set_table t) = filled (set_table s)" by blast
  have "x \<notin> set_abs K t" using t(4) assms(2) by simp
  note add = set_add_at_wf [OF t(3,2) this]
  have "set_used (set_add_at t q x) = set_used s + 1" using add(3) set_wfD(2) [OF t(3)] w(2) t(5) by simp
  then show ?thesis using t(1,4) add(1,2) True by (simp add: cls_def)
qed

text \<open>The elements of a set in its table.\<close>

lemma slot_elems_set: "set (slot_elems es) = {x. Key x \<in> set es}"
  by (induction es) (auto split: slot.splits)

lemma slot_elems_length: "length (slot_elems es) = filled es"
  by (induction es) (auto simp: filled_def split: slot.splits)

lemma slot_elems_apart: "distinct_slots (ko_equal K) es \<Longrightarrow> apart (slot_elems es)"
proof (induction es)
  case (Cons e es)
  note IH = Cons.IH [OF distinct_slots_tl [OF Cons.prems]]
  show ?case
  proof (cases e)
    case (Key k)
    have no: "\<not> ko_equal K k (slot_elems es ! n)" "\<not> ko_equal K (slot_elems es ! n) k" if n: "n < length (slot_elems es)" for n
    proof -
      have "Key (slot_elems es ! n) \<in> set es" using nth_mem [OF n] by (simp add: slot_elems_set)
      then obtain p where "p < length es" "es ! p = Key (slot_elems es ! n)" by (metis in_set_conv_nth)
      then show "\<not> ko_equal K k (slot_elems es ! n)"
        using distinct_slotsD [OF Cons.prems, of 0 "Suc p" k "slot_elems es ! n"] Key by auto
      then show "\<not> ko_equal K (slot_elems es ! n) k" using eq_sym by blast
    qed
    show ?thesis unfolding apart_def
    proof (intro allI impI)
      fix i j
      assume "i < length (slot_elems (e # es))" "j < length (slot_elems (e # es))" "ko_equal K (slot_elems (e # es) ! i) (slot_elems (e # es) ! j)"
      then show "i = j" using IH no Key unfolding apart_def by (cases i; cases j) auto
    qed
  qed (use IH in simp_all)
qed (simp add: apart_def)

lemma set_items_table: "set_wf K s \<Longrightarrow> set_items s = slot_elems (set_table s)"
  using set_wfD(1) [of K s] by (simp add: set_items_def)

lemma set_items_props:
  assumes "set_wf K s"
  shows "length (set_items s) = set_used s" "apart (set_items s)" "y \<in> set_abs K s \<longleftrightarrow> (\<exists>x \<in> set (set_items s). ko_equal K x y)"
    "x \<in> set (set_items s) \<Longrightarrow> x \<in> set_abs K s"
proof -
  show "length (set_items s) = set_used s" unfolding set_items_table [OF assms] slot_elems_length using set_wfD(2) [OF assms] by simp
  have "distinct_slots (ko_equal K) (set_table s)"
    unfolding distinct_slots_def using set_wf_unique [OF assms] set_wfD(1) [OF assms] by metis
  then show "apart (set_items s)" unfolding set_items_table [OF assms] by (rule slot_elems_apart)
  show abs: "y \<in> set_abs K s \<longleftrightarrow> (\<exists>x \<in> set (set_items s). ko_equal K x y)" for y
    unfolding set_items_table [OF assms] slot_elems_set set_abs_def has_key_def in_set_conv_nth by blast
  show "x \<in> set (set_items s) \<Longrightarrow> x \<in> set_abs K s" using abs [of x] eq_refl [of x] by blast
qed

lemma set_used_abs:
  assumes "set_wf K a" "set_wf K b" "set_abs K a \<subseteq> set_abs K b"
  shows "set_used a \<le> set_used b" "set_used a = set_used b \<longleftrightarrow> set_abs K a = set_abs K b"
proof -
  note pa = set_items_props [OF assms(1)]
  note pb = set_items_props [OF assms(2)]
  have "\<forall>x \<in> set (set_items a). \<exists>y \<in> set (set_items b). ko_equal K y x" using pa(4) pb(3) assms(3) by blast
  note e = apart_embed [OF pa(2) this]
  then show le: "set_used a \<le> set_used b" using pa(1) pb(1) by simp
  show "set_used a = set_used b \<longleftrightarrow> set_abs K a = set_abs K b"
  proof
    assume "set_used a = set_used b"
    then have cov: "\<forall>y \<in> set (set_items b). \<exists>x \<in> set (set_items a). ko_equal K x y" using e pa(1) pb(1) by simp
    have "y \<in> set_abs K a" if "y \<in> set_abs K b" for y
    proof -
      obtain z where z: "z \<in> set (set_items b)" "ko_equal K z y" using \<open>y \<in> set_abs K b\<close> pb(3) by blast
      then obtain x where x: "x \<in> set (set_items a)" "ko_equal K x z" using cov by blast
      then show ?thesis using pa(3) eq_trans [OF x(2) z(2)] by blast
    qed
    then show "set_abs K a = set_abs K b" using assms(3) by blast
  next
    assume "set_abs K a = set_abs K b"
    then have "\<forall>y \<in> set (set_items b). \<exists>x \<in> set (set_items a). ko_equal K x y" using pa(3) pb(4) by blast
    then show "set_used a = set_used b" using apart_embed [OF pb(2)] pa(1) pb(1) le by fastforce
  qed
qed

lemma set_lookup_ok:
  assumes "set_wf K s"
  shows "\<exists>s' r. mp_set_lookup K s x kind = Some (s', r) \<and> set_wf K s'
    \<and> set_abs K s' = (if x \<in> set_abs K s then (if kind_remove kind then set_abs K s - cls x else set_abs K s)
                       else if kind_add kind then set_abs K s \<union> cls x else set_abs K s)
    \<and> (r \<noteq> None \<longleftrightarrow> x \<in> set_abs K s \<or> kind_add kind)"
  using set_lookup_found [OF assms, of x kind] set_lookup_missing [OF assms, of x kind]
  by (cases "x \<in> set_abs K s") (auto split: if_splits)

lemma cls_closed: "x \<in> set_abs K s \<Longrightarrow> cls x \<subseteq> set_abs K s" "x \<notin> set_abs K s \<Longrightarrow> cls x \<inter> set_abs K s = {}"
  using set_abs_cong unfolding cls_def by blast+

lemma set_lookup_find:
  assumes "set_wf K s"
  shows "\<exists>r. mp_set_lookup K s x SET_LOOKUP = Some (s, r) \<and> (r \<noteq> None \<longleftrightarrow> x \<in> set_abs K s)"
  using set_lookup_found [OF assms, of x SET_LOOKUP] set_lookup_missing [OF assms, of x SET_LOOKUP]
  by (cases "x \<in> set_abs K s") auto
end

text \<open>The interface of the loops that apply one operation to every item.\<close>

fun step_all :: "('s \<Rightarrow> 'o \<Rightarrow> 's option) \<Rightarrow> 's \<Rightarrow> 'o list \<Rightarrow> 's option" where
  "step_all step s [] = Some s"
| "step_all step s (x # xs) = do { s \<leftarrow> step s x; step_all step s xs }"

locale element_store =
  fixes ok :: "'s \<Rightarrow> bool" and elems :: "'s \<Rightarrow> 'o set" and step :: "'s \<Rightarrow> 'o \<Rightarrow> 's option" and effect :: "'o \<Rightarrow> 'o set \<Rightarrow> 'o set"
  assumes step_law: "ok s \<Longrightarrow> \<exists>s'. step s x = Some s' \<and> ok s' \<and> elems s' = effect x (elems s)"
begin

lemma step_all_law: "ok s \<Longrightarrow> \<exists>s'. step_all step s xs = Some s' \<and> ok s' \<and> elems s' = fold effect xs (elems s)"
proof (induction xs arbitrary: s)
  case (Cons x xs)
  obtain s1 where s1: "step s x = Some s1" "ok s1" "elems s1 = effect x (elems s)" using step_law [OF Cons.prems, of x] by blast
  then show ?case using Cons.IH [OF s1(2)] by simp
qed simp

end

definition set_step :: "'o key_ops \<Rightarrow> set_lookup_kind \<Rightarrow> 'o mp_set \<Rightarrow> 'o \<Rightarrow> 'o mp_set option" where
  "set_step K kind s x = map_option fst (mp_set_lookup K s x kind)"

lemma set_lookup_all_step: "set_lookup_all K kind s xs = step_all (set_step K kind) s xs"
proof (induction xs arbitrary: s)
  case (Cons x xs)
  then show ?case by (cases "mp_set_lookup K s x kind") (auto simp: set_step_def split: prod.splits)
qed simp

definition toggle :: "'o set \<Rightarrow> 'o \<Rightarrow> 'o set \<Rightarrow> 'o set" where
  "toggle C x A = (if x \<in> A then A - C else A \<union> C)"

sublocale set_keys \<subseteq> adding: element_store "set_wf K" "set_abs K" "set_step K SET_ADD" "\<lambda>x A. A \<union> cls x"
proof unfold_locales
  fix s :: "'o mp_set" and x
  assume w: "set_wf K s"
  show "\<exists>s'. set_step K SET_ADD s x = Some s' \<and> set_wf K s' \<and> set_abs K s' = set_abs K s \<union> cls x"
    using set_lookup_ok [OF w, of x SET_ADD] cls_closed(1) [of x s] by (fastforce simp: set_step_def split: if_splits)
qed

sublocale set_keys \<subseteq> removing: element_store "set_wf K" "set_abs K" "set_step K SET_REMOVE" "\<lambda>x A. A - cls x"
proof unfold_locales
  fix s :: "'o mp_set" and x
  assume w: "set_wf K s"
  show "\<exists>s'. set_step K SET_REMOVE s x = Some s' \<and> set_wf K s' \<and> set_abs K s' = set_abs K s - cls x"
    using set_lookup_ok [OF w, of x SET_REMOVE] cls_closed(2) [of x s] by (fastforce simp: set_step_def split: if_splits)
qed

sublocale set_keys \<subseteq> toggling: element_store "set_wf K" "set_abs K" "set_step K SET_ADD_OR_REMOVE" "\<lambda>x. toggle (cls x) x"
proof unfold_locales
  fix s :: "'o mp_set" and x
  assume w: "set_wf K s"
  show "\<exists>s'. set_step K SET_ADD_OR_REMOVE s x = Some s' \<and> set_wf K s' \<and> set_abs K s' = toggle (cls x) x (set_abs K s)"
    using set_lookup_ok [OF w, of x SET_ADD_OR_REMOVE] by (auto simp: set_step_def toggle_def)
qed

lemma fold_union: "fold (\<lambda>x A. A \<union> f x) xs A = A \<union> (\<Union>x \<in> set xs. f x)"
  by (induction xs arbitrary: A) auto

lemma fold_minus: "fold (\<lambda>x A. A - f x) xs A = A - (\<Union>x \<in> set xs. f x)"
  by (induction xs arbitrary: A) auto

context set_keys
begin

text \<open>The objects equal to one of the items.\<close>

definition cover :: "'o list \<Rightarrow> 'o set" where
  "cover xs = {y. \<exists>x \<in> set xs. ko_equal K x y}"

lemma cover_UN: "(\<Union>x \<in> set xs. cls x) = cover xs"
  by (auto simp: cover_def cls_def)

lemma cover_append [simp]: "cover (xs @ ys) = cover xs \<union> cover ys"
  by (auto simp: cover_def)

lemma set_init_ok: "set_wf K (mp_set_init n)" "set_abs K (mp_set_init n) = {}" "set_used (mp_set_init n) = 0"
  by (simp_all add: set_wf_def set_abs_def mp_set_init_def)

lemma set_clear_ok: "set_wf K (mp_set_clear s)" "set_abs K (mp_set_clear s) = {}"
  by (simp_all add: set_wf_def set_abs_def mp_set_clear_def table_ok_def has_key_def filled_def)

lemma set_copy_ok: "set_wf K s \<Longrightarrow> set_copy s = s"
  using set_wfD(1) [of K s] by (simp add: set_copy_def mp_set_init_def)

lemma set_update_int_ok:
  assumes "set_wf K s"
  shows "\<exists>s'. set_update_int K s xs = Some s' \<and> set_wf K s' \<and> set_abs K s' = set_abs K s \<union> cover xs"
  using adding.step_all_law [OF assms, of xs] unfolding fold_union cover_UN by (simp add: set_update_int_def set_lookup_all_step)

lemma set_remove_all_ok:
  assumes "set_wf K s"
  shows "\<exists>s'. set_lookup_all K SET_REMOVE s xs = Some s' \<and> set_wf K s' \<and> set_abs K s' = set_abs K s - cover xs"
  using removing.step_all_law [OF assms, of xs] unfolding fold_minus cover_UN by (simp add: set_lookup_all_step)

lemma set_make_new_ok: "\<exists>s. set_make_new K xs = Some s \<and> set_wf K s \<and> set_abs K s = cover xs"
  using set_update_int_ok [OF set_init_ok(1), of 0 xs] by (simp add: set_make_new_def set_update_int_def set_init_ok(2))

lemma set_update_ok:
  "set_wf K s \<Longrightarrow> \<exists>s'. set_update K s xss = Some s' \<and> set_wf K s' \<and> set_abs K s' = set_abs K s \<union> cover (concat xss)"
proof (induction xss arbitrary: s)
  case (Cons xs xss)
  obtain s1 where s1: "set_update_int K s xs = Some s1" "set_wf K s1" "set_abs K s1 = set_abs K s \<union> cover xs"
    using set_update_int_ok [OF Cons.prems, of xs] by blast
  then show ?case using Cons.IH [OF s1(2)] by (simp add: Un_assoc)
qed (simp add: cover_def)

lemma set_union_ok:
  assumes "set_wf K s"
  shows "\<exists>s'. set_union K s xs = Some s' \<and> set_wf K s' \<and> set_abs K s' = set_abs K s \<union> cover xs"
  using set_update_int_ok [OF assms, of xs] set_copy_ok [OF assms] by (simp add: set_union_def)

fun arg_cover :: "'o set \<Rightarrow> 'o set_arg \<Rightarrow> 'o set" where
  "arg_cover A Itself = A"
| "arg_cover A (Items xs) = cover xs"

lemma set_diff_update_ok:
  assumes "set_wf K s" "set_abs K s \<subseteq> A"
  shows "\<exists>s'. set_diff_update K s args = Some s' \<and> set_wf K s' \<and> set_abs K s' = set_abs K s - (\<Union>a \<in> set args. arg_cover A a)"
  using assms(1,2)
proof (induction args arbitrary: s)
  case (Cons a args)
  show ?case
  proof (cases a)
    case Itself
    have "set_abs K (mp_set_clear s) \<subseteq> A" by (simp add: set_clear_ok(2))
    then obtain s' where "set_diff_update K (mp_set_clear s) args = Some s'" "set_wf K s'" "set_abs K s' = {}"
      using Cons.IH [OF set_clear_ok(1), of s] by (auto simp: set_clear_ok(2))
    moreover have "set_abs K s - (\<Union>a \<in> set (a # args). arg_cover A a) = {}" using Itself Cons.prems(2) by auto
    ultimately show ?thesis using Itself by simp
  next
    case (Items xs)
    obtain s1 where s1: "set_lookup_all K SET_REMOVE s xs = Some s1" "set_wf K s1" "set_abs K s1 = set_abs K s - cover xs"
      using set_remove_all_ok [OF Cons.prems(1), of xs] by blast
    then have "set_abs K s1 \<subseteq> A" using Cons.prems(2) by blast
    then show ?thesis using Cons.IH [OF s1(2)] Items s1(1,3) by auto
  qed
qed simp

lemma set_intersect_loop_ok:
  assumes "set_wf K s" "set_wf K out"
  shows "\<exists>out'. set_intersect_loop K s out xs = Some out' \<and> set_wf K out' \<and> set_abs K out' = set_abs K out \<union> (set_abs K s \<inter> cover xs)"
  using assms(2)
proof (induction xs arbitrary: out)
  case (Cons x xs)
  obtain r where r: "mp_set_lookup K s x SET_LOOKUP = Some (s, r)" "r \<noteq> None \<longleftrightarrow> x \<in> set_abs K s"
    using set_lookup_find [OF assms(1)] by blast
  show ?case
  proof (cases "x \<in> set_abs K s")
    case True
    obtain o1 where o1: "set_add K out x = Some o1" "set_wf K o1" "set_abs K o1 = set_abs K out \<union> cls x"
      using adding.step_law [OF Cons.prems, of x] by (auto simp: set_step_def set_add_def)
    have "set_abs K s \<inter> cover (x # xs) = cls x \<union> (set_abs K s \<inter> cover xs)"
      using cls_closed(1) [OF True] by (auto simp: cover_def cls_def)
    then show ?thesis using Cons.IH [OF o1(2)] r True o1(1,3) by auto
  next
    case False
    have "set_abs K s \<inter> cover (x # xs) = set_abs K s \<inter> cover xs"
      using cls_closed(2) [OF False] by (auto simp: cover_def cls_def)
    then show ?thesis using Cons.IH [OF Cons.prems] r False by simp
  qed
qed (simp add: cover_def)

lemma set_intersect_ok:
  assumes "set_wf K s"
  shows "\<exists>s'. set_intersect K s arg = Some s' \<and> set_wf K s' \<and> set_abs K s' = set_abs K s \<inter> arg_cover (set_abs K s) arg"
  using set_intersect_loop_ok [OF assms set_init_ok(1), of 0] set_copy_ok [OF assms] assms
  by (cases arg) (simp_all add: set_intersect_def set_init_ok(2))

lemma set_intersect_update_ok:
  assumes "set_wf K s"
  shows "\<exists>s'. set_intersect_update K s arg = Some s' \<and> set_wf K s' \<and> set_abs K s' = set_abs K s \<inter> arg_cover (set_abs K s) arg"
proof (cases arg)
  case Itself
  then show ?thesis using assms by (simp add: set_intersect_update_def)
next
  case (Items xs)
  obtain out where out: "set_intersect_loop K s (mp_set_init 0) xs = Some out" "set_wf K out" "set_abs K out = set_abs K s \<inter> cover xs"
    using set_intersect_loop_ok [OF assms set_init_ok(1), of 0 xs] by (auto simp: set_init_ok(2))
  have "s\<lparr>set_alloc := set_alloc out, set_used := set_used out, set_table := set_table out\<rparr> = out" by (cases s; cases out) simp
  then have "set_intersect_update K s arg = Some out" using Items out(1) by (simp add: set_intersect_update_def del: mp_set.update_convs)
  then show ?thesis using Items out(2,3) by simp
qed

lemma set_isdisjoint_ok:
  assumes "set_wf K s"
  shows "set_isdisjoint K s xs = Some (set_abs K s \<inter> cover xs = {})"
proof (induction xs)
  case (Cons x xs)
  obtain r where r: "mp_set_lookup K s x SET_LOOKUP = Some (s, r)" "r \<noteq> None \<longleftrightarrow> x \<in> set_abs K s"
    using set_lookup_find [OF assms] by blast
  show ?case
  proof (cases "x \<in> set_abs K s")
    case True
    then have "set_abs K s \<inter> cover (x # xs) \<noteq> {}" using eq_refl [of x] by (auto simp: cover_def)
    then show ?thesis using r True by simp
  next
    case False
    have "set_abs K s \<inter> cover (x # xs) = set_abs K s \<inter> cover xs"
      using cls_closed(2) [OF False] by (auto simp: cover_def cls_def)
    then show ?thesis using Cons.IH r False by simp
  qed
qed (simp add: cover_def)

lemma set_issubset_loop_ok:
  assumes "set_wf K other"
  shows "set_issubset_loop K xs other = Some (set xs \<subseteq> set_abs K other)"
proof (induction xs)
  case (Cons x xs)
  obtain r where "mp_set_lookup K other x SET_LOOKUP = Some (other, r)" "r \<noteq> None \<longleftrightarrow> x \<in> set_abs K other"
    using set_lookup_find [OF assms] by blast
  then show ?case using Cons.IH by (cases r) auto
qed simp

lemma set_items_subset:
  assumes "set_wf K a"
  shows "set (set_items a) \<subseteq> set_abs K b \<longleftrightarrow> set_abs K a \<subseteq> set_abs K b"
proof
  assume s: "set (set_items a) \<subseteq> set_abs K b"
  show "set_abs K a \<subseteq> set_abs K b"
  proof
    fix y
    assume "y \<in> set_abs K a"
    then obtain x where "x \<in> set (set_items a)" "ko_equal K x y" using set_items_props(3) [OF assms] by blast
    then show "y \<in> set_abs K b" using s set_abs_cong by blast
  qed
qed (use set_items_props(4) [OF assms] in blast)

lemma set_issubset_ok:
  assumes "set_wf K a" "set_wf K b"
  shows "set_issubset_internal K a b proper = Some (if proper then set_abs K a \<subset> set_abs K b else set_abs K a \<subseteq> set_abs K b)"
proof -
  have "set_abs K a \<subset> set_abs K b \<longleftrightarrow> set_used a \<noteq> set_used b \<and> set_abs K a \<subseteq> set_abs K b"
    using set_used_abs(2) [OF assms] by blast
  then show ?thesis
    by (simp add: set_issubset_internal_def set_issubset_loop_ok [OF assms(2)] set_items_subset [OF assms(1)])
qed

lemma set_equal_ok:
  assumes "set_wf K a" "set_wf K b"
  shows "set_equal K a b = Some (set_abs K a = set_abs K b)"
proof -
  have "set_abs K a = set_abs K b \<longleftrightarrow> set_used a = set_used b \<and> set_abs K a \<subseteq> set_abs K b"
    using set_used_abs(2) [OF assms] by blast
  then show ?thesis by (simp add: set_equal_def set_issubset_ok [OF assms])
qed

text \<open>The symmetric difference: an object changes sides for every item that equals it.\<close>

lemma fold_toggle:
  "A = {y. y \<in> A \<and> cls y \<subseteq> A} \<Longrightarrow> y \<in> fold (\<lambda>x. toggle (cls x) x) xs A \<longleftrightarrow> (y \<in> A) \<noteq> odd (length (filter (\<lambda>x. ko_equal K x y) xs))"
proof (induction xs arbitrary: A)
  case (Cons x xs)
  have A: "z \<in> A \<Longrightarrow> ko_equal K z w \<Longrightarrow> w \<in> A" for z w using Cons.prems by (auto simp: cls_def)
  let ?B = "toggle (cls x) x A"
  have mem: "z \<in> ?B \<longleftrightarrow> (z \<in> A) \<noteq> ko_equal K x z" for z
    using A [of x z] A [of z x] eq_sym [of x z] by (auto simp: toggle_def cls_def)
  have "w \<in> ?B" if "z \<in> ?B" "ko_equal K z w" for z w
  proof -
    have "ko_equal K x z \<longleftrightarrow> ko_equal K x w" using that(2) eq_sym eq_trans by blast
    moreover have "z \<in> A \<longleftrightarrow> w \<in> A" using A [of z w] A [of w z] that(2) eq_sym by blast
    ultimately show ?thesis using that(1) mem by simp
  qed
  then have "?B = {y. y \<in> ?B \<and> cls y \<subseteq> ?B}" by (auto simp: cls_def)
  then show ?case using Cons.IH [of ?B] mem [of y] by auto
qed simp

lemma set_abs_closed: "set_abs K s = {y. y \<in> set_abs K s \<and> cls y \<subseteq> set_abs K s}"
  using cls_closed(1) [of _ s] by blast

lemma set_symdiff_ok:
  assumes "set_wf K s"
  shows "\<exists>s'. set_symmetric_difference_update K s (Items xs) = Some s' \<and> set_wf K s'
    \<and> set_abs K s' = {y. (y \<in> set_abs K s) \<noteq> odd (length (filter (\<lambda>x. ko_equal K x y) xs))}"
  using toggling.step_all_law [OF assms, of xs] fold_toggle [OF set_abs_closed, of _ xs s]
  by (auto simp: set_symmetric_difference_update_def set_lookup_all_step)

text \<open>Items that are pairwise different give the symmetric difference of sets.\<close>

lemma apart_count:
  assumes "apart xs"
  shows "odd (length (filter (\<lambda>x. ko_equal K x y) xs)) \<longleftrightarrow> y \<in> cover xs"
proof -
  have ap: "\<forall>i < length xs. \<forall>j < length xs. ko_equal K (xs ! i) (xs ! j) \<longrightarrow> i = j" using assms by (simp add: apart_def)
  have "length (filter (\<lambda>x. ko_equal K x y) xs) = card {i. i < length xs \<and> ko_equal K (xs ! i) y}"
    by (rule length_filter_conv_card)
  moreover have "card {i. i < length xs \<and> ko_equal K (xs ! i) y} \<le> 1"
  proof (rule card_le_Suc0_iff_eq [THEN iffD2, simplified One_nat_def [symmetric]])
    show "\<forall>i \<in> {i. i < length xs \<and> ko_equal K (xs ! i) y}. \<forall>j \<in> {i. i < length xs \<and> ko_equal K (xs ! i) y}. i = j"
      using ap eq_sym eq_trans by blast
  qed simp
  moreover have "y \<in> cover xs \<longleftrightarrow> {i. i < length xs \<and> ko_equal K (xs ! i) y} \<noteq> {}"
    by (auto simp: cover_def Bex_def in_set_conv_nth)
  moreover have "{i. i < length xs \<and> ko_equal K (xs ! i) y} \<noteq> {} \<longleftrightarrow> card {i. i < length xs \<and> ko_equal K (xs ! i) y} > 0"
    by (simp add: card_gt_0_iff)
  ultimately show ?thesis by (metis One_nat_def even_zero gr0I le_antisym odd_one Suc_leI)
qed

text \<open>Over the set itself the loop removes every element.\<close>

lemma set_toggle_slots_ok:
  assumes "set_wf K s" "i \<le> set_alloc s" "\<And>j k. j < i \<Longrightarrow> set_table s ! j \<noteq> Key k"
  shows "\<exists>s'. set_toggle_slots K s [i ..< set_alloc s] = Some s' \<and> set_wf K s' \<and> set_abs K s' = {}"
  using assms
proof (induction "set_alloc s - i" arbitrary: s i)
  case 0
  then have "set_abs K s = {}" using set_wfD(1) [OF 0(2)] by (auto simp: set_abs_def has_key_def)
  then show ?case using 0 by simp
next
  case (Suc n)
  then have i: "i < set_alloc s" "[i ..< set_alloc s] = i # [Suc i ..< set_alloc s]" by (auto simp: upt_conv_Cons)
  show ?case
  proof (cases "\<exists>x. set_table s ! i = Key x")
    case False
    have "\<And>j k. j < Suc i \<Longrightarrow> set_table s ! j \<noteq> Key k" using Suc.prems(3) False by (auto simp: less_Suc_eq)
    moreover have "set_toggle_slots K s [i ..< set_alloc s] = set_toggle_slots K s [Suc i ..< set_alloc s]"
      using False unfolding i(2) by (auto split: slot.splits)
    ultimately show ?thesis using Suc.hyps(1) [of s "Suc i"] Suc.prems(1) Suc.hyps(2) i(1) by simp
  next
    case True
    then obtain x where x: "set_table s ! i = Key x" by blast
    then have xs: "x \<in> set_abs K s" using i(1) set_wfD(1) [OF Suc.prems(1)] eq_refl [of x] by (auto simp: set_abs_def has_key_def)
    obtain s1 l where s1: "mp_set_lookup K s x SET_ADD_OR_REMOVE = Some (s1, Some l)" "set_wf K s1" "set_abs K s1 = set_abs K s - cls x"
      "set_alloc s1 = set_alloc s" "\<And>i m. set_table s1 ! i = Key m \<Longrightarrow> set_table s ! i = Key m"
      using set_lookup_found [OF Suc.prems(1) xs, of SET_ADD_OR_REMOVE] by auto
    have "set_table s1 ! j \<noteq> Key k" if "j < Suc i" for j k
    proof
      assume k: "set_table s1 ! j = Key k"
      then have "j = i" "k = x" using s1(5) [OF k] Suc.prems(3) [of j k] that x by (auto simp: less_Suc_eq)
      then have "x \<in> set_abs K s1" using k i(1) s1(4) set_wfD(1) [OF s1(2)] eq_refl [of x] by (auto simp: set_abs_def has_key_def)
      then show False using s1(3) by simp
    qed
    then show ?thesis
      using Suc.hyps(1) [of s1 "Suc i"] Suc.hyps(2) s1(1,2,4) i x by simp
  qed
qed

lemma set_symdiff_self:
  assumes "set_wf K s"
  shows "\<exists>s'. set_symmetric_difference_update K s Itself = Some s' \<and> set_wf K s' \<and> set_abs K s' = {}"
  using set_toggle_slots_ok [OF assms, of 0] by (simp add: set_symmetric_difference_update_def)

lemma set_pop_ok:
  assumes "set_wf K s"
  shows "if set_abs K s = {} then set_pop s = (s, Inl Set_KeyError)
    else \<exists>s' x. set_pop s = (s', Inr x) \<and> x \<in> set_abs K s \<and> set_wf K s' \<and> set_abs K s' = set_abs K s - cls x \<and> set_used s = set_used s' + 1"
proof -
  note w = set_wfD [OF assms]
  have filled_iff: "mp_set_slot_is_filled s i \<longleftrightarrow> (\<exists>x. set_table s ! i = Key x)" for i
    unfolding mp_set_slot_is_filled_def by (cases "set_table s ! i") auto
  have first: "set_first_filled s is = None \<and> (\<forall>i \<in> set is. \<not> mp_set_slot_is_filled s i)
      \<or> (\<exists>i \<in> set is. set_first_filled s is = Some i \<and> mp_set_slot_is_filled s i)" for "is"
    by (induction "is") auto
  show ?thesis
  proof (cases "set_first_filled s [0 ..< set_alloc s]")
    case None
    then have "set_abs K s = {}" using first [of "[0 ..< set_alloc s]"] filled_iff w(1) by (auto simp: set_abs_def has_key_def)
    then show ?thesis using None by (simp add: set_pop_def mp_set_remove_first_def)
  next
    case (Some p)
    then obtain x where p: "p < set_alloc s" "set_table s ! p = Key x"
      using first [of "[0 ..< set_alloc s]"] filled_iff by auto
    have "x \<in> set_abs K s" using p w(1) eq_refl [of x] by (auto simp: set_abs_def has_key_def)
    then show ?thesis using Some p set_remove_at_wf [OF assms p] by (auto simp: set_pop_def mp_set_remove_first_def cls_def)
  qed
qed

lemma set_remove_ok:
  assumes "set_wf K s"
  shows "\<exists>s'. set_remove K s x = Some (s', if x \<in> set_abs K s then Inr () else Inl Set_KeyError) \<and> set_wf K s' \<and> set_abs K s' = set_abs K s - cls x"
  using set_lookup_ok [OF assms, of x SET_REMOVE] cls_closed(2) [of x s] by (fastforce simp: set_remove_def split: if_splits)

end

end
