(* ===== verification/PyObj.thy ===== *)
theory PyObj
  imports DictRun SetLaws MpzConv "HOL-Library.Word"
begin

text \<open>
  The objects that serve as keys here: small integers, long integers, booleans, interned strings,
  strings that are made at run time or defined statically, and objects that are compared by identity.  Their hash follows \<open>mp_unary_op\<close> of
  \<^verbatim>\<open>py/runtime.c\<close>, their equality \<open>mp_obj_equal\<close> of \<^verbatim>\<open>py/obj.c\<close> and \<open>mp_obj_str_equal\<close> of \<^verbatim>\<open>py/objstr.c\<close>.
  An interned string stands for its data, a long integer for its address and its value.
\<close>

unbundle bit_operations_syntax

section \<open>Hashes\<close>

fun qstr_hash_loop :: "32 word \<Rightarrow> 8 word list \<Rightarrow> 32 word" where
  "qstr_hash_loop hash [] = hash"
| "qstr_hash_loop hash (b # bs) = qstr_hash_loop ((push_bit 5 hash + hash) XOR ucast b) bs"

definition qstr_compute_hash :: "8 word list \<Rightarrow> 32 word" where
  "qstr_compute_hash data =
     (let hash = qstr_hash_loop 5381 data AND 0xFFFF in if hash = 0 then hash + 1 else hash)"

text \<open>Small integers in the low bit representation.\<close>

definition mp_obj_new_small_int :: "32 word \<Rightarrow> 32 word" where
  "mp_obj_new_small_int v = push_bit 1 v OR 1"

definition mp_obj_small_int_value :: "32 word \<Rightarrow> 32 word" where
  "mp_obj_small_int_value o_in = signed_drop_bit 1 o_in"

section \<open>Objects\<close>

datatype py_obj =
  Small_Int int | Int_Obj nat int | Bool_Obj bool | Qstr "8 word list" | Str nat "8 word list"
  | Static_Str nat "8 word list" | Ref nat

datatype py_type = Type_int | Type_bool | Type_str | Type_other

fun mp_obj_get_type :: "py_obj \<Rightarrow> py_type" where
  "mp_obj_get_type (Small_Int i) = Type_int"
| "mp_obj_get_type (Int_Obj a i) = Type_int"
| "mp_obj_get_type (Bool_Obj b) = Type_bool"
| "mp_obj_get_type (Qstr s) = Type_str"
| "mp_obj_get_type (Str a s) = Type_str"
| "mp_obj_get_type (Static_Str a s) = Type_str"
| "mp_obj_get_type (Ref a) = Type_other"

fun mp_obj_is_small_int :: "py_obj \<Rightarrow> bool" where
  "mp_obj_is_small_int (Small_Int i) = True"
| "mp_obj_is_small_int _ = False"

fun mp_obj_is_qstr :: "py_obj \<Rightarrow> bool" where
  "mp_obj_is_qstr (Qstr s) = True"
| "mp_obj_is_qstr _ = False"

definition mp_obj_is_str :: "py_obj \<Rightarrow> bool" where
  "mp_obj_is_str x \<longleftrightarrow> mp_obj_get_type x = Type_str"

fun str_data :: "py_obj \<Rightarrow> 8 word list" where
  "str_data (Qstr s) = s"
| "str_data (Str a s) = s"
| "str_data (Static_Str a s) = s"
| "str_data _ = []"

text \<open>
  The hash that a string carries.  A string that is not interned gets it when it is made, but a string
  that is defined statically (\<open>MP_DEFINE_STR_OBJ\<close>) has the hash 0, which stands for none.
\<close>

fun get_str_hash :: "py_obj \<Rightarrow> 32 word" where
  "get_str_hash (Static_Str a s) = 0"
| "get_str_hash x = qstr_compute_hash (str_data x)"

definition mp_obj_str_equal :: "py_obj \<Rightarrow> py_obj \<Rightarrow> bool" where
  "mp_obj_str_equal s1 s2 =
     (if mp_obj_is_qstr s1 \<and> mp_obj_is_qstr s2 then s1 = s2
      else let h1 = get_str_hash s1; h2 = get_str_hash s2
           in if h1 \<noteq> 0 \<and> h2 \<noteq> 0 \<and> h1 \<noteq> h2 then False
              else if length (str_data s1) \<noteq> length (str_data s2) then False
              else str_data s1 = str_data s2)"

text \<open>The hash operator; the result is the object of a small integer.\<close>

fun mp_unary_op_hash :: "py_obj \<Rightarrow> 32 word" where
  "mp_unary_op_hash (Small_Int i) = mp_obj_new_small_int (word_of_int i)"
| "mp_unary_op_hash (Qstr s) = (let h = get_str_hash (Qstr s) in mp_obj_new_small_int (if h = 0 then qstr_compute_hash s else h))"
| "mp_unary_op_hash (Str a s) = (let h = get_str_hash (Str a s) in mp_obj_new_small_int (if h = 0 then qstr_compute_hash s else h))"
| "mp_unary_op_hash (Static_Str a s) = (let h = get_str_hash (Static_Str a s) in mp_obj_new_small_int (if h = 0 then qstr_compute_hash s else h))"
| "mp_unary_op_hash (Int_Obj a i) = mp_obj_new_small_int (word_of_int (s32 i))"
| "mp_unary_op_hash (Bool_Obj b) = mp_obj_new_small_int (of_bool b)"
| "mp_unary_op_hash (Ref a) = mp_obj_new_small_int (of_nat a)"

section \<open>Equality\<close>

text \<open>The flag by which a type wants to compare with objects of other types.\<close>

fun eq_checks_other_type :: "py_type \<Rightarrow> bool" where
  "eq_checks_other_type Type_bool = True"
| "eq_checks_other_type _ = False"

fun int_value :: "py_obj \<Rightarrow> int option" where
  "int_value (Small_Int i) = Some i"
| "int_value (Int_Obj a i) = Some i"
| "int_value _ = None"

text \<open>
  The equality of two objects.  A type with a slot for binary operators may return \<open>None\<close> there, the
  null object.  \<open>pass\<close> counts the two passes of the loop, in the second the operands are swapped; the
  operator of a boolean compares its integer value again, which is the bound \<open>depth\<close>.
\<close>

fun type_binary_equal :: "(py_obj \<Rightarrow> py_obj \<Rightarrow> bool option) \<Rightarrow> py_obj \<Rightarrow> py_obj \<Rightarrow> bool option option" where
  "type_binary_equal equal (Bool_Obj b) rhs = map_option Some (equal (Small_Int (of_bool b)) rhs)"
| "type_binary_equal equal lhs rhs =
     (case (int_value lhs, int_value rhs) of
        (Some i, Some j) \<Rightarrow> Some (Some (i = j))
      | _ \<Rightarrow> Some None)"

definition has_binary_op :: "py_type \<Rightarrow> bool" where
  "has_binary_op t \<longleftrightarrow> t \<noteq> Type_other"

datatype equality_op = OP_EQUAL | OP_NOT_EQUAL

text \<open>The results \<open>local_true\<close> and \<open>local_false\<close>.\<close>

definition local_result :: "equality_op \<Rightarrow> bool \<Rightarrow> bool" where
  "local_result op r = (if op = OP_NOT_EQUAL then \<not> r else r)"

fun equal_passes :: "nat \<Rightarrow> equality_op \<Rightarrow> (py_obj \<Rightarrow> py_obj \<Rightarrow> bool option) \<Rightarrow> py_obj \<Rightarrow> py_obj \<Rightarrow> bool option" where
  "equal_passes 0 op equal o1 o2 = Some (local_result op (o1 = o2))"
| "equal_passes (Suc passes) op equal o1 o2 =
     (let t = mp_obj_get_type o1
      in if has_binary_op t \<and> (eq_checks_other_type t \<or> mp_obj_get_type o2 = t)
         then (case type_binary_equal equal o1 o2 of
                 None \<Rightarrow> None
               | Some (Some r) \<Rightarrow> Some (local_result op r)
               | Some None \<Rightarrow> equal_passes passes op equal o2 o1)
         else equal_passes passes op equal o2 o1)"

fun mp_obj_equal_not_equal :: "nat \<Rightarrow> equality_op \<Rightarrow> py_obj \<Rightarrow> py_obj \<Rightarrow> bool option" where
  "mp_obj_equal_not_equal 0 op o1 o2 = None"
| "mp_obj_equal_not_equal (Suc d) op o1 o2 =
     (if o1 = o2 then Some (local_result op True)
      else if mp_obj_is_str o1 then
        (if mp_obj_is_str o2 then Some (local_result op (mp_obj_str_equal o1 o2))
         else equal_passes 1 op (mp_obj_equal_not_equal d OP_EQUAL) o2 o1)
      else if mp_obj_is_small_int o1 then
        (if mp_obj_is_small_int o2 then Some (local_result op False)
         else equal_passes 1 op (mp_obj_equal_not_equal d OP_EQUAL) o2 o1)
      else equal_passes 2 op (mp_obj_equal_not_equal d OP_EQUAL) o1 o2)"

text \<open>A boolean is compared as an integer, with another boolean in turn: three levels are enough.\<close>

definition mp_obj_equal :: "py_obj \<Rightarrow> py_obj \<Rightarrow> bool" where
  "mp_obj_equal o1 o2 \<longleftrightarrow> mp_obj_equal_not_equal 3 OP_EQUAL o1 o2 = Some True"

text \<open>What two objects have in common when they are equal.\<close>

datatype key_class = Number int | Text "8 word list" | Identity nat

fun obj_class :: "py_obj \<Rightarrow> key_class" where
  "obj_class (Small_Int i) = Number i"
| "obj_class (Int_Obj a i) = Number i"
| "obj_class (Bool_Obj b) = Number (of_bool b)"
| "obj_class (Qstr s) = Text s"
| "obj_class (Str a s) = Text s"
| "obj_class (Static_Str a s) = Text s"
| "obj_class (Ref a) = Identity a"

lemma qstr_hash_nonzero: "qstr_compute_hash s \<noteq> 0"
  by (simp add: qstr_compute_hash_def Let_def)

lemma str_equal_data: "mp_obj_is_str a \<Longrightarrow> mp_obj_is_str b \<Longrightarrow> mp_obj_str_equal a b \<longleftrightarrow> str_data a = str_data b"
  by (cases a; cases b) (auto simp: mp_obj_is_str_def mp_obj_str_equal_def Let_def)

lemma mp_obj_equal_total: "mp_obj_equal_not_equal 3 op a b = Some (local_result op (obj_class a = obj_class b))"
  by (cases a; cases b)
    (auto simp: numeral_3_eq_3 numeral_2_eq_2 mp_obj_is_str_def has_binary_op_def str_equal_data local_result_def Let_def)

lemma mp_obj_equal_class: "mp_obj_equal a b \<longleftrightarrow> obj_class a = obj_class b"
  by (simp add: mp_obj_equal_def mp_obj_equal_total local_result_def)

section \<open>The keys of dictionaries and sets\<close>

definition py_keys :: "py_obj key_ops" where
  "py_keys = \<lparr>ko_is_qstr = mp_obj_is_qstr, ko_is_str = mp_obj_is_str, ko_qstr_hash = (\<lambda>x. unat (get_str_hash x)),
     ko_unary_hash = (\<lambda>x. unat (mp_obj_small_int_value (mp_unary_op_hash x))), ko_equal = mp_obj_equal\<rparr>"

lemma py_keys_simps [simp]:
  "ko_is_qstr py_keys = mp_obj_is_qstr" "ko_is_str py_keys = mp_obj_is_str" "ko_equal py_keys = mp_obj_equal"
  by (simp_all add: py_keys_def)

lemma small_int_bits:
  "bit (mp_obj_small_int_value (mp_obj_new_small_int v)) n \<longleftrightarrow> n < 32 \<and> bit v (min n 30)"
  unfolding mp_obj_small_int_value_def mp_obj_new_small_int_def
  by (auto simp add: bit_signed_drop_bit_iff bit_or_iff bit_push_bit_iff bit_1_iff min_def simp del: push_bit_Suc One_nat_def)

lemma qstr_hash_bound:
  assumes "16 \<le> n"
  shows "\<not> bit (qstr_compute_hash s) n"
proof -
  have m: "(0xFFFF :: 32 word) = mask 16" by (simp add: mask_eq_exp_minus_1)
  show ?thesis using assms unfolding qstr_compute_hash_def m
    by (auto simp: Let_def bit_and_iff bit_mask_iff bit_1_iff)
qed

lemma small_int_hash: "mp_obj_small_int_value (mp_obj_new_small_int (qstr_compute_hash s)) = qstr_compute_hash s"
proof (rule bit_word_eqI)
  fix n
  assume "n < LENGTH(32)"
  then show "bit (mp_obj_small_int_value (mp_obj_new_small_int (qstr_compute_hash s))) n = bit (qstr_compute_hash s) n"
    using qstr_hash_bound [of 30 s] qstr_hash_bound [of 31 s] by (cases "n = 31") (auto simp: small_int_bits min_def)
qed

lemma word_s32: "(word_of_int (s32 i) :: 32 word) = word_of_int i"
proof -
  have "s32 i mod 2 ^ 32 = i mod 2 ^ 32" by (simp add: s32_def mod_simps)
  then show ?thesis unfolding word_of_int_eq_iff take_bit_eq_mod by simp
qed

lemma unary_hash_class: "mp_obj_equal a b \<Longrightarrow> ko_unary_hash py_keys a = ko_unary_hash py_keys b"
  unfolding mp_obj_equal_class
  by (cases a; cases b) (auto simp: py_keys_def word_s32)

lemma unary_hash_qstr: "mp_obj_is_qstr a \<Longrightarrow> ko_unary_hash py_keys a = ko_qstr_hash py_keys a"
  by (cases a) (auto simp: py_keys_def small_int_hash)

lemma py_key_hash: "key_hash py_keys a = ko_unary_hash py_keys a"
  by (simp add: key_hash_def unary_hash_qstr)

text \<open>The objects have the laws that dictionaries ask of their keys.\<close>

interpretation py: key_laws py_keys
proof unfold_locales
  fix k l m :: py_obj
  show "ko_equal py_keys k k" by (simp add: mp_obj_equal_class)
  show "ko_equal py_keys k l \<Longrightarrow> ko_equal py_keys l k" by (simp add: mp_obj_equal_class)
  show "ko_equal py_keys k l \<Longrightarrow> ko_equal py_keys l m \<Longrightarrow> ko_equal py_keys k m" by (simp add: mp_obj_equal_class)
  show "ko_equal py_keys k l \<Longrightarrow> key_hash py_keys k = key_hash py_keys l" by (simp add: py_key_hash unary_hash_class)
  show "ko_is_qstr py_keys k \<Longrightarrow> ko_is_qstr py_keys l \<Longrightarrow> ko_equal py_keys k l \<Longrightarrow> k = l"
    by (cases k; cases l) (auto simp: mp_obj_equal_class)
  show "ko_is_qstr py_keys k \<Longrightarrow> ko_equal py_keys k l \<Longrightarrow> ko_is_qstr py_keys l \<or> ko_is_str py_keys l"
    by (cases k; cases l) (auto simp: mp_obj_equal_class mp_obj_is_str_def)
qed

interpretation py_set: set_keys py_keys
proof unfold_locales
  fix k l m :: py_obj
  show "ko_equal py_keys k k" by (simp add: mp_obj_equal_class)
  show "ko_equal py_keys k l \<Longrightarrow> ko_equal py_keys l k" by (simp add: mp_obj_equal_class)
  show "ko_equal py_keys k l \<Longrightarrow> ko_equal py_keys l m \<Longrightarrow> ko_equal py_keys k m" by (simp add: mp_obj_equal_class)
  show "ko_equal py_keys k l \<Longrightarrow> ko_unary_hash py_keys k = ko_unary_hash py_keys l" by (simp add: unary_hash_class)
qed

end
