(* ===== verification/DictTheorems.thy ===== *)
theory DictTheorems
  imports PyObj
begin

text \<open>The properties of keys, dictionaries and sets.\<close>

text \<open>
  C14: The equality of objects always comes to a result.  It is an equivalence: numbers are compared by
  value, whether they are small, long or booleans, strings by their data, whether they are interned or
  not, and other objects by identity.  Equal objects have equal hashes, an interned string the same hash
  as a string on the heap, and comparing the hashes of two strings first does not change the result.
\<close>

theorem mp_obj_equal_hash:
  "\<exists>r. mp_obj_equal_not_equal 3 OP_EQUAL a b = Some r \<and> mp_obj_equal_not_equal 3 OP_NOT_EQUAL a b = Some (\<not> r)
    \<and> r = (obj_class a = obj_class b)
    \<and> (r \<longrightarrow> mp_obj_small_int_value (mp_unary_op_hash a) = mp_obj_small_int_value (mp_unary_op_hash b)
         \<and> key_hash py_keys a = key_hash py_keys b)
    \<and> (mp_obj_is_str a \<and> mp_obj_is_str b \<longrightarrow> mp_obj_str_equal a b = r)"
proof (intro exI [of _ "obj_class a = obj_class b"] conjI impI)
  show "mp_obj_equal_not_equal 3 OP_EQUAL a b = Some (obj_class a = obj_class b)"
    "mp_obj_equal_not_equal 3 OP_NOT_EQUAL a b = Some (\<not> (obj_class a = obj_class b))"
    by (simp_all add: mp_obj_equal_total local_result_def)
  assume "obj_class a = obj_class b"
  then have u: "ko_unary_hash py_keys a = ko_unary_hash py_keys b" by (intro unary_hash_class) (simp add: mp_obj_equal_class)
  then show "mp_obj_small_int_value (mp_unary_op_hash a) = mp_obj_small_int_value (mp_unary_op_hash b)"
    by (simp add: py_keys_def word_unat_eq_iff)
  show "key_hash py_keys a = key_hash py_keys b" using u by (simp add: py_key_hash)
next
  assume "mp_obj_is_str a \<and> mp_obj_is_str b"
  then show "mp_obj_str_equal a b = (obj_class a = obj_class b)"
    by (cases a; cases b) (auto simp: str_equal_data mp_obj_is_str_def)
qed simp

theorem mp_obj_equal_hash_witness:
  "mp_obj_equal_not_equal 3 OP_EQUAL (Bool_Obj True) (Small_Int 1) = Some True
    \<and> mp_obj_small_int_value (mp_unary_op_hash (Bool_Obj True)) = mp_obj_small_int_value (mp_unary_op_hash (Small_Int 1))
    \<and> mp_obj_str_equal (Qstr [97, 98]) (Str 4096 [97, 98])"
  using mp_obj_equal_hash [of "Bool_Obj True" "Small_Int 1"] mp_obj_equal_hash [of "Qstr [97, 98]" "Str 4096 [97, 98]"]
  by (auto simp: mp_obj_is_str_def)

text \<open>
  C15: A look-up in a well-formed map always ends with a result, also when it rehashes, and keeps the map
  well-formed.  It finds the value of the key; adding gives the key a slot without value, removing takes
  the key out; the other keys keep their values.
\<close>

theorem mp_map_lookup_total:
  assumes "map_wf py_keys m"
  shows "\<exists>m' r. mp_map_lookup py_keys m k kind = Some (m', r) \<and> map_wf py_keys m'
    \<and> (kind = LOOKUP \<longrightarrow> m' = m)
    \<and> (kind \<noteq> ADD_IF_NOT_FOUND \<longrightarrow> map_get py_keys m k = map_option (\<lambda>p. snd (map_table m' ! p)) r)
    \<and> (kind = ADD_IF_NOT_FOUND \<longrightarrow> (\<exists>p l. r = Some p \<and> p < map_alloc m' \<and> keys_of m' ! p = Key l \<and> mp_obj_equal l k
         \<and> snd (map_table m' ! p) = dict_val py_keys m k))
    \<and> (\<forall>k'. map_get py_keys m' k' =
         (if mp_obj_equal k k'
          then (case kind of LOOKUP \<Rightarrow> map_get py_keys m k | REMOVE_IF_FOUND \<Rightarrow> None
                | ADD_IF_NOT_FOUND \<Rightarrow> (if map_get py_keys m k = None then Some None else map_get py_keys m k))
          else map_get py_keys m k'))"
proof -
  have cong: "mp_obj_equal k k' \<Longrightarrow> map_get py_keys m k' = map_get py_keys m k" for k'
    using py.map_get_cong [OF _ assms, of k k'] by simp
  show ?thesis
  proof (cases kind)
    case LOOKUP
    then show ?thesis using py.lookup_LOOKUP [OF assms, of k] assms cong by auto
  next
    case ADD_IF_NOT_FOUND
    obtain m' p l where "mp_map_lookup py_keys m k ADD_IF_NOT_FOUND = Some (m', Some p)" "map_wf py_keys m'" "p < map_alloc m'"
      "keys_of m' ! p = Key l" "mp_obj_equal l k" "snd (map_table m' ! p) = dict_val py_keys m k"
      "\<And>k'. map_get py_keys m' k' = (if map_get py_keys m k = None \<and> mp_obj_equal k k' then Some None else map_get py_keys m k')"
      using py.lookup_ADD [OF assms, of k] unfolding py_keys_simps by blast
    then show ?thesis unfolding ADD_IF_NOT_FOUND using cong by (intro exI [of _ m'] exI [of _ "Some p"]) auto
  next
    case REMOVE_IF_FOUND
    then show ?thesis using py.lookup_REMOVE [OF assms, of k] by auto
  qed
qed

theorem mp_map_lookup_total_witness:
  "\<exists>m' r. mp_map_lookup py_keys (mp_map_init 2 :: (py_obj, nat) mp_map) (Small_Int 7) ADD_IF_NOT_FOUND = Some (m', r)
    \<and> map_wf py_keys m' \<and> map_get py_keys m' (Int_Obj 64 7) = Some None"
proof -
  have wf: "map_wf py_keys (mp_map_init 2 :: (py_obj, nat) mp_map)"
    by (rule map_wfI) (simp_all add: mp_map_init_def)
  have "map_get py_keys (mp_map_init 2 :: (py_obj, nat) mp_map) (Small_Int 7) = None"
    by (simp add: mp_map_init_def numeral_2_eq_2)
  moreover obtain m' r where "mp_map_lookup py_keys (mp_map_init 2 :: (py_obj, nat) mp_map) (Small_Int 7) ADD_IF_NOT_FOUND = Some (m', r)"
    "map_wf py_keys m'" "\<forall>k'. map_get py_keys m' k' =
         (if mp_obj_equal (Small_Int 7) k'
          then (case ADD_IF_NOT_FOUND of LOOKUP \<Rightarrow> map_get py_keys (mp_map_init 2 :: (py_obj, nat) mp_map) (Small_Int 7) | REMOVE_IF_FOUND \<Rightarrow> None
                | ADD_IF_NOT_FOUND \<Rightarrow> (if map_get py_keys (mp_map_init 2 :: (py_obj, nat) mp_map) (Small_Int 7) = None then Some None
                    else map_get py_keys (mp_map_init 2) (Small_Int 7)))
          else map_get py_keys (mp_map_init 2) k')"
    using mp_map_lookup_total [OF wf, of "Small_Int 7" ADD_IF_NOT_FOUND] by blast
  moreover have "mp_obj_equal (Small_Int 7) (Int_Obj 64 7)" by (simp add: mp_obj_equal_class)
  ultimately show ?thesis by (simp del: map_search.simps)
qed

text \<open>
  C16: A dictionary implements the abstract dictionary: every program of item accesses, assignments,
  deletions, \<open>get\<close>, \<open>pop\<close>, \<open>setdefault\<close>, \<open>in\<close>, \<open>len\<close>, \<open>clear\<close> and \<open>update\<close> on a new dictionary ends,
  no assertion fails and no null slot is used, and its results and Python exceptions, the values at the
  end and the length are those of a function on keys up to equality.
\<close>

theorem dict_refines_function:
  "\<exists>m'. dict_run py_keys none ops (mp_obj_new_dict n) = Some (m', snd (abs_run mp_obj_equal none ops (\<lambda>_. None, 0)))
    \<and> dict_ok py_keys m' \<and> (dict_val py_keys m', mp_obj_dict_len m') = fst (abs_run mp_obj_equal none ops (\<lambda>_. None, 0))"
proof -
  have "(dict_val py_keys (mp_obj_new_dict n), map_used (mp_obj_new_dict n)) = ((\<lambda>_. None) :: py_obj \<Rightarrow> 'a option, 0)"
    using py.new_dict_val by (auto simp: fun_eq_iff)
  then show ?thesis
    using py.dict_run_refines [OF py.new_dict_ok, of none ops n] by (simp add: mp_obj_dict_len_def)
qed

text \<open>
  C17: Two dictionaries are equal for the comparison exactly when they have the same keys, up to the
  equality of objects, with equal values.  Comparing the lengths and searching the keys of the left one
  in the right one is enough.
\<close>

theorem dict_equal_pointwise:
  assumes "dict_ok py_keys l" "dict_ok py_keys r"
  shows "dict_equal py_keys veq l r = Some (\<forall>k. rel_option veq (dict_val py_keys l k) (dict_val py_keys r k))"
  by (rule py.dict_equal_ok [OF assms])

theorem dict_equal_pointwise_witness:
  "\<exists>l r :: (py_obj, nat) mp_map. dict_fromkeys py_keys None [Small_Int 1, Qstr [97]] 5 = Some l
    \<and> dict_fromkeys py_keys (Some 3) [Str 16 [97], Bool_Obj True] 5 = Some r \<and> dict_equal py_keys (=) l r = Some True"
proof -
  obtain l :: "(py_obj, nat) mp_map" where l: "dict_fromkeys py_keys None [Small_Int 1, Qstr [97]] 5 = Some l" "dict_ok py_keys l"
    "\<And>k. dict_val py_keys l k = (if \<exists>x \<in> set [Small_Int 1, Qstr [97]]. mp_obj_equal x k then Some 5 else None)"
    using py.dict_fromkeys_ok [of None "[Small_Int 1, Qstr [97]]" 5] by auto
  obtain r :: "(py_obj, nat) mp_map" where r: "dict_fromkeys py_keys (Some 3) [Str 16 [97], Bool_Obj True] 5 = Some r" "dict_ok py_keys r"
    "\<And>k. dict_val py_keys r k = (if \<exists>x \<in> set [Str 16 [97], Bool_Obj True]. mp_obj_equal x k then Some 5 else None)"
    using py.dict_fromkeys_ok [of "Some 3" "[Str 16 [97], Bool_Obj True]" 5] by auto
  have "rel_option (=) (dict_val py_keys l k) (dict_val py_keys r k)" for k
    unfolding l(3) r(3) by (auto simp: mp_obj_equal_class)
  then show ?thesis using dict_equal_pointwise [OF l(2) r(2), of "(=)"] l(1) r(1) by auto
qed

text \<open>
  C18: The iterator of a view of a dictionary ends and gives every key with its value exactly once, up to
  the equality of keys, as many as the length of the dictionary says.
\<close>

theorem dict_view_enumerates:
  assumes "dict_ok py_keys m"
  shows "\<exists>kvs. dict_view_list kind m = Some (map (view_item kind) (map (\<lambda>(k, v). (k, Some v)) kvs))
    \<and> length kvs = mp_obj_dict_len m
    \<and> (\<forall>k v. dict_val py_keys m k = Some v \<longleftrightarrow> (\<exists>l. (l, v) \<in> set kvs \<and> mp_obj_equal l k))
    \<and> (\<forall>i < length kvs. \<forall>j < length kvs. mp_obj_equal (fst (kvs ! i)) (fst (kvs ! j)) \<longrightarrow> i = j)"
proof (intro exI [of _ "dict_pairs m"] conjI allI impI)
  show "dict_view_list kind m = Some (map (view_item kind) (map (\<lambda>(k, v). (k, Some v)) (dict_pairs m)))"
    by (rule py.dict_view_list_ok [OF assms])
  show "length (dict_pairs m) = mp_obj_dict_len m" using py.dict_pairs_length [OF assms] by (simp add: mp_obj_dict_len_def)
  show "dict_val py_keys m k = Some v \<longleftrightarrow> (\<exists>l. (l, v) \<in> set (dict_pairs m) \<and> mp_obj_equal l k)" for k v
    using py.dict_pairs_sound [OF assms] py.dict_pairs_complete [OF assms] py.dict_val_cong [OF assms] by (metis py_keys_simps(3))
  show "i = j" if "i < length (dict_pairs m)" "j < length (dict_pairs m)" "mp_obj_equal (fst (dict_pairs m ! i)) (fst (dict_pairs m ! j))" for i j
    using py.dict_keys_distinct [OF assms that(1,2)] that by simp
qed

theorem dict_view_enumerates_witness:
  "\<exists>m :: (py_obj, nat) mp_map. dict_fromkeys py_keys None [Small_Int 1, Qstr [97], Bool_Obj True] 5 = Some m
    \<and> (\<exists>kvs. dict_view_list DICT_VIEW_KEYS m = Some (map (view_item DICT_VIEW_KEYS) (map (\<lambda>(k, v). (k, Some v)) kvs))
         \<and> (\<exists>l. (l, 5) \<in> set kvs \<and> mp_obj_equal l (Str 32 [97])))"
proof -
  obtain m :: "(py_obj, nat) mp_map" where m: "dict_fromkeys py_keys None [Small_Int 1, Qstr [97], Bool_Obj True] 5 = Some m" "dict_ok py_keys m"
    "\<And>k. dict_val py_keys m k = (if \<exists>x \<in> set [Small_Int 1, Qstr [97], Bool_Obj True]. mp_obj_equal x k then Some 5 else None)"
    using py.dict_fromkeys_ok [of None "[Small_Int 1, Qstr [97], Bool_Obj True]" 5] by auto
  have "dict_val py_keys m (Str 32 [97]) = Some 5" unfolding m(3) by (simp add: mp_obj_equal_class)
  then show ?thesis using dict_view_enumerates [OF m(2), of DICT_VIEW_KEYS] m(1) by blast
qed

text \<open>
  C19: On a well-formed set, adding, discarding, \<open>update\<close>, \<open>union\<close>, \<open>difference\<close>, \<open>difference_update\<close>,
  \<open>intersection\<close> and \<open>intersection_update\<close> always end and give the sets of objects that their names say,
  also where an argument is the set itself.
\<close>

theorem set_algebra:
  assumes "set_wf py_keys s"
  shows "(\<exists>t. set_add py_keys s x = Some t \<and> set_wf py_keys t \<and> set_abs py_keys t = set_abs py_keys s \<union> {y. mp_obj_equal x y})
    \<and> (\<exists>t. set_discard py_keys s x = Some t \<and> set_wf py_keys t \<and> set_abs py_keys t = set_abs py_keys s - {y. mp_obj_equal x y})
    \<and> (\<exists>t. set_update py_keys s xss = Some t \<and> set_wf py_keys t
      \<and> set_abs py_keys t = set_abs py_keys s \<union> {y. \<exists>xs \<in> set xss. \<exists>x \<in> set xs. mp_obj_equal x y})
    \<and> (\<exists>t. set_union py_keys s xs = Some t \<and> set_wf py_keys t \<and> set_abs py_keys t = set_abs py_keys s \<union> {y. \<exists>x \<in> set xs. mp_obj_equal x y})
    \<and> (\<exists>t. set_diff py_keys s xss = Some t \<and> set_wf py_keys t
      \<and> set_abs py_keys t = set_abs py_keys s - {y. \<exists>xs \<in> set xss. \<exists>x \<in> set xs. mp_obj_equal x y})
    \<and> (\<exists>t. set_diff_update py_keys s args = Some t \<and> set_wf py_keys t
      \<and> set_abs py_keys t = (if Itself \<in> set args then {} else set_abs py_keys s - {y. \<exists>xs. Items xs \<in> set args \<and> (\<exists>x \<in> set xs. mp_obj_equal x y)}))
    \<and> (\<exists>t. set_intersect py_keys s (Items xs) = Some t \<and> set_wf py_keys t
      \<and> set_abs py_keys t = {y \<in> set_abs py_keys s. \<exists>x \<in> set xs. mp_obj_equal x y})
    \<and> (\<exists>t. set_intersect_update py_keys s arg = Some t \<and> set_wf py_keys t
      \<and> set_abs py_keys t = (case arg of Itself \<Rightarrow> set_abs py_keys s | Items xs \<Rightarrow> {y \<in> set_abs py_keys s. \<exists>x \<in> set xs. mp_obj_equal x y}))"
proof (intro conjI)
  note defs = py_set.cover_def py_set.cls_def py_keys_simps
  show "\<exists>t. set_add py_keys s x = Some t \<and> set_wf py_keys t \<and> set_abs py_keys t = set_abs py_keys s \<union> {y. mp_obj_equal x y}"
    using py_set.adding.step_law [OF assms, of x] by (simp add: set_step_def set_add_def defs)
  show "\<exists>t. set_discard py_keys s x = Some t \<and> set_wf py_keys t \<and> set_abs py_keys t = set_abs py_keys s - {y. mp_obj_equal x y}"
    using py_set.removing.step_law [OF assms, of x] by (simp add: set_step_def set_discard_def defs)
  have c: "py_set.cover (concat xss) = {y. \<exists>xs \<in> set xss. \<exists>x \<in> set xs. mp_obj_equal x y}" by (auto simp: defs)
  show "\<exists>t. set_update py_keys s xss = Some t \<and> set_wf py_keys t
      \<and> set_abs py_keys t = set_abs py_keys s \<union> {y. \<exists>xs \<in> set xss. \<exists>x \<in> set xs. mp_obj_equal x y}"
    using py_set.set_update_ok [OF assms, of xss] unfolding c .
  show "\<exists>t. set_union py_keys s xs = Some t \<and> set_wf py_keys t \<and> set_abs py_keys t = set_abs py_keys s \<union> {y. \<exists>x \<in> set xs. mp_obj_equal x y}"
    using py_set.set_union_ok [OF assms, of xs] by (simp add: defs)
  have d: "(\<Union>a \<in> set (map Items xss). py_set.arg_cover A a) = {y. \<exists>xs \<in> set xss. \<exists>x \<in> set xs. mp_obj_equal x y}" for A
    by (auto simp: defs)
  show "\<exists>t. set_diff py_keys s xss = Some t \<and> set_wf py_keys t
      \<and> set_abs py_keys t = set_abs py_keys s - {y. \<exists>xs \<in> set xss. \<exists>x \<in> set xs. mp_obj_equal x y}"
    using py_set.set_diff_update_ok [OF assms subset_refl, of "map Items xss"] py_set.set_copy_ok [OF assms]
    unfolding d by (simp add: set_diff_def)
  have e: "set_abs py_keys s - (\<Union>a \<in> set args. py_set.arg_cover (set_abs py_keys s) a) =
    (if Itself \<in> set args then {} else set_abs py_keys s - {y. \<exists>xs. Items xs \<in> set args \<and> (\<exists>x \<in> set xs. mp_obj_equal x y)})"
  proof (cases "Itself \<in> set args")
    case False
    have "y \<in> (\<Union>a \<in> set args. py_set.arg_cover (set_abs py_keys s) a) \<longleftrightarrow> (\<exists>xs. Items xs \<in> set args \<and> (\<exists>x \<in> set xs. mp_obj_equal x y))" for y
    proof
      assume "y \<in> (\<Union>a \<in> set args. py_set.arg_cover (set_abs py_keys s) a)"
      then obtain a where "a \<in> set args" "y \<in> py_set.arg_cover (set_abs py_keys s) a" by blast
      moreover have "a \<noteq> Itself" using calculation(1) False by metis
      then obtain xs where "a = Items xs" by (cases a) blast+
      ultimately show "\<exists>xs. Items xs \<in> set args \<and> (\<exists>x \<in> set xs. mp_obj_equal x y)"
        by (intro exI [of _ xs]) (simp add: defs)
    qed (force simp: defs)
    then show ?thesis using False by auto
  qed force
  show "\<exists>t. set_diff_update py_keys s args = Some t \<and> set_wf py_keys t
      \<and> set_abs py_keys t = (if Itself \<in> set args then {} else set_abs py_keys s - {y. \<exists>xs. Items xs \<in> set args \<and> (\<exists>x \<in> set xs. mp_obj_equal x y)})"
    using py_set.set_diff_update_ok [OF assms subset_refl, of args] unfolding e .
  have i: "set_abs py_keys s \<inter> py_set.cover xs = {y \<in> set_abs py_keys s. \<exists>x \<in> set xs. mp_obj_equal x y}" for xs by (auto simp: defs)
  show "\<exists>t. set_intersect py_keys s (Items xs) = Some t \<and> set_wf py_keys t
      \<and> set_abs py_keys t = {y \<in> set_abs py_keys s. \<exists>x \<in> set xs. mp_obj_equal x y}"
    using py_set.set_intersect_ok [OF assms, of "Items xs"] unfolding py_set.arg_cover.simps i .
  show "\<exists>t. set_intersect_update py_keys s arg = Some t \<and> set_wf py_keys t
      \<and> set_abs py_keys t = (case arg of Itself \<Rightarrow> set_abs py_keys s | Items xs \<Rightarrow> {y \<in> set_abs py_keys s. \<exists>x \<in> set xs. mp_obj_equal x y})"
    using py_set.set_intersect_update_ok [OF assms, of arg] by (cases arg) (simp_all add: i)
qed

theorem set_algebra_witness:
  "\<exists>s t. set_make_new py_keys [Small_Int 1, Qstr [97]] = Some s \<and> set_diff_update py_keys s [Items [Bool_Obj True]] = Some t
    \<and> Small_Int 1 \<notin> set_abs py_keys t \<and> Str 8 [97] \<in> set_abs py_keys t"
proof -
  obtain s where s: "set_make_new py_keys [Small_Int 1, Qstr [97]] = Some s" "set_wf py_keys s"
    "set_abs py_keys s = py_set.cover [Small_Int 1, Qstr [97]]" using py_set.set_make_new_ok by blast
  have "\<exists>t. set_diff_update py_keys s [Items [Bool_Obj True]] = Some t \<and> set_wf py_keys t
    \<and> set_abs py_keys t = (if Itself \<in> set [Items [Bool_Obj True]] then {}
      else set_abs py_keys s - {y. \<exists>xs. Items xs \<in> set [Items [Bool_Obj True]] \<and> (\<exists>x \<in> set xs. mp_obj_equal x y)})"
    using set_algebra [OF s(2), where x = "Small_Int 0" and xs = "[]" and xss = "[]" and arg = Itself and args = "[Items [Bool_Obj True]]"]
    by (elim conjE) assumption
  then show ?thesis using s(1,3) by (auto simp: py_set.cover_def mp_obj_equal_class)
qed

text \<open>
  C20: The comparisons of sets: \<open>issubset\<close> and the proper subset, \<open>==\<close>, \<open>isdisjoint\<close> and \<open>in\<close> decide
  the relations of the sets of objects, and the number of the elements that they compare first tells
  a proper subset from an equal set.
\<close>

theorem set_comparisons:
  assumes "set_wf py_keys a" "set_wf py_keys b"
  shows "set_issubset_internal py_keys a b False = Some (set_abs py_keys a \<subseteq> set_abs py_keys b)
    \<and> set_issubset_internal py_keys a b True = Some (set_abs py_keys a \<subset> set_abs py_keys b)
    \<and> set_equal py_keys a b = Some (set_abs py_keys a = set_abs py_keys b)
    \<and> set_isdisjoint py_keys a xs = Some (\<forall>x \<in> set xs. x \<notin> set_abs py_keys a)
    \<and> set_contains py_keys a x = Some (x \<in> set_abs py_keys a)"
proof -
  have "y \<in> set_abs py_keys a \<longleftrightarrow> x \<in> set_abs py_keys a" if "mp_obj_equal x y" for x y
    using py_set.set_abs_cong [of x y a] that by simp
  moreover have "mp_obj_equal x x" for x by (simp add: mp_obj_equal_class)
  ultimately have "set_abs py_keys a \<inter> py_set.cover xs = {} \<longleftrightarrow> (\<forall>x \<in> set xs. x \<notin> set_abs py_keys a)"
    unfolding py_set.cover_def py_keys_simps by blast
  then show ?thesis
    using py_set.set_issubset_ok [OF assms] py_set.set_equal_ok [OF assms] py_set.set_isdisjoint_ok [OF assms(1), of xs]
      py_set.set_lookup_find [OF assms(1), of x] by (auto simp: set_contains_def)
qed

theorem set_comparisons_witness:
  "\<exists>a b. set_make_new py_keys [Small_Int 1] = Some a \<and> set_make_new py_keys [Qstr [97], Bool_Obj True] = Some b
    \<and> set_issubset_internal py_keys a b True = Some True \<and> set_equal py_keys a b = Some False"
proof -
  obtain a where a: "set_make_new py_keys [Small_Int 1] = Some a" "set_wf py_keys a" "set_abs py_keys a = py_set.cover [Small_Int 1]"
    using py_set.set_make_new_ok by blast
  obtain b where b: "set_make_new py_keys [Qstr [97], Bool_Obj True] = Some b" "set_wf py_keys b"
    "set_abs py_keys b = py_set.cover [Qstr [97], Bool_Obj True]" using py_set.set_make_new_ok by blast
  have "Qstr [97] \<in> set_abs py_keys b" "Qstr [97] \<notin> set_abs py_keys a" "set_abs py_keys a \<subseteq> set_abs py_keys b"
    unfolding a(3) b(3) by (auto simp: py_set.cover_def mp_obj_equal_class)
  then have "set_abs py_keys a \<subset> set_abs py_keys b" "set_abs py_keys a \<noteq> set_abs py_keys b" by auto
  then show ?thesis using set_comparisons [OF a(2) b(2)] a(1) b(1) by auto
qed

text \<open>
  The symmetric difference with an iterable toggles an object for every item that equals it.  When
  the items are pairwise different this is the symmetric difference of the sets; an item that comes
  twice leaves the set as it is.  Over the set itself the loop runs on the slots that it empties, and
  ends with the empty set.
\<close>

theorem set_symmetric_difference_toggles:
  assumes "set_wf py_keys s"
  shows "\<exists>t u. set_symmetric_difference py_keys s xs = Some t \<and> set_wf py_keys t
    \<and> set_abs py_keys t = {y. (y \<in> set_abs py_keys s) \<noteq> odd (length (filter (\<lambda>x. mp_obj_equal x y) xs))}
    \<and> ((\<forall>i < length xs. \<forall>j < length xs. mp_obj_equal (xs ! i) (xs ! j) \<longrightarrow> i = j) \<longrightarrow>
         set_abs py_keys t = {y. (y \<in> set_abs py_keys s) \<noteq> (\<exists>x \<in> set xs. mp_obj_equal x y)})
    \<and> set_symmetric_difference_update py_keys s Itself = Some u \<and> set_wf py_keys u \<and> set_abs py_keys u = {}"
proof -
  obtain t where t: "set_symmetric_difference py_keys s xs = Some t" "set_wf py_keys t"
    "set_abs py_keys t = {y. (y \<in> set_abs py_keys s) \<noteq> odd (length (filter (\<lambda>x. mp_obj_equal x y) xs))}"
    using py_set.set_symdiff_ok [OF assms, of xs] py_set.set_copy_ok [OF assms] by (auto simp: set_symmetric_difference_def)
  have "set_abs py_keys t = {y. (y \<in> set_abs py_keys s) \<noteq> (\<exists>x \<in> set xs. mp_obj_equal x y)}"
    if "\<forall>i < length xs. \<forall>j < length xs. mp_obj_equal (xs ! i) (xs ! j) \<longrightarrow> i = j"
  proof -
    have "py_set.apart xs" unfolding py_set.apart_def unfolding py_keys_simps by (rule that)
    from py_set.apart_count [OF this] show ?thesis unfolding t(3) by (simp add: py_set.cover_def)
  qed
  then show ?thesis using t py_set.set_symdiff_self [OF assms] by auto
qed

theorem set_symmetric_difference_toggles_witness:
  "\<exists>t. set_symmetric_difference py_keys (mp_set_init 0) [Small_Int 2, Small_Int 2] = Some t \<and> Small_Int 2 \<notin> set_abs py_keys t"
proof -
  obtain t u where "set_symmetric_difference py_keys (mp_set_init 0) [Small_Int 2, Small_Int 2] = Some t"
    "set_abs py_keys t = {y. (y \<in> set_abs py_keys (mp_set_init 0)) \<noteq> odd (length (filter (\<lambda>x. mp_obj_equal x y) [Small_Int 2, Small_Int 2]))}"
    "set_symmetric_difference_update py_keys (mp_set_init 0) Itself = Some u"
    using set_symmetric_difference_toggles [OF py_set.set_init_ok(1), of 0 "[Small_Int 2, Small_Int 2]"] by blast
  then show ?thesis by (simp add: py_set.set_init_ok(2) mp_obj_equal_class)
qed

text \<open>
  C21: \<open>pop\<close> and \<open>remove\<close> of a set raise \<open>KeyError\<close> exactly when the set is empty or does not contain the
  item, and take out one element otherwise; \<open>popitem\<close> of a dictionary raises \<open>KeyError\<close> exactly when the
  dictionary is empty and takes out one pair otherwise.
\<close>

theorem pop_remove_errors:
  assumes "set_wf py_keys s" "dict_ok py_keys m"
  shows "(if set_abs py_keys s = {} then set_pop s = (s, Inl Set_KeyError)
    else \<exists>t x. set_pop s = (t, Inr x) \<and> x \<in> set_abs py_keys s \<and> set_wf py_keys t
      \<and> set_abs py_keys t = set_abs py_keys s - {y. mp_obj_equal x y} \<and> set_used s = set_used t + 1)
    \<and> (\<exists>t. set_remove py_keys s x = Some (t, if x \<in> set_abs py_keys s then Inr () else Inl Set_KeyError) \<and> set_wf py_keys t
      \<and> set_abs py_keys t = set_abs py_keys s - {y. mp_obj_equal x y})
    \<and> (if map_used m = 0 then dict_popitem m = Some (m, Inl KeyError)
    else \<exists>m' k v. dict_popitem m = Some (m', Inr (k, Some v)) \<and> dict_val py_keys m k = Some v \<and> dict_ok py_keys m'
      \<and> (\<forall>k'. dict_val py_keys m' k' = (if mp_obj_equal k k' then None else dict_val py_keys m k')) \<and> map_used m = map_used m' + 1)"
  using py_set.set_pop_ok [OF assms(1)] py_set.set_remove_ok [OF assms(1), of x] py.dict_popitem_ok [OF assms(2)]
  unfolding py_set.cls_def py_keys_simps by blast

theorem pop_remove_errors_witness:
  "set_pop (mp_set_init 4 :: py_obj mp_set) = (mp_set_init 4, Inl Set_KeyError)
    \<and> dict_popitem (mp_obj_new_dict 3 :: (py_obj, nat) mp_map) = Some (mp_obj_new_dict 3, Inl KeyError)"
  using pop_remove_errors [where s = "mp_set_init 4" and m = "mp_obj_new_dict 3 :: (py_obj, nat) mp_map" and x = "Small_Int 0",
      OF py_set.set_init_ok(1) py.new_dict_ok]
  by (simp add: py_set.set_init_ok(2))

text \<open>
  A dictionary over a fixed table answers a look-up by a linear search and raises \<open>TypeError\<close> for a
  store, \<open>clear\<close> and \<open>popitem\<close>.  Its copy is not fixed but still an ordered array, so that a store of a
  new key in the copy dereferences the null pointer that the look-up returns.
\<close>

theorem fixed_dict_copy_store:
  assumes "length table = n" "m = mp_map_init_fixed_table n table" "\<forall>k v. (Key k, v) \<in> set table \<longrightarrow> \<not> mp_obj_equal k x"
  shows "(mp_obj_dict_store py_keys m x v = Some (m, Inl TypeError))
    \<and> (dict_clear m = Some (m, Inl TypeError))
    \<and> (dict_popitem m = Some (m, Inl TypeError))
    \<and> (mp_obj_dict_get py_keys m x = Some (m, Inl KeyError))
    \<and> (mp_obj_dict_store py_keys (mp_obj_dict_copy m) x v = None)"
proof (intro conjI)
  have ls: "linear_search f (map fst es) i = None" if "\<forall>k v. (Key k, v) \<in> set es \<longrightarrow> \<not> f k"
    for f and es :: "(py_obj slot \<times> 'a option) list" and i
    using that by (induction es arbitrary: i) (auto split: slot.splits)
  have no: "\<forall>k v. (Key k, v) \<in> set table \<longrightarrow> \<not> (k = x \<or> mp_obj_equal k x)" using assms(3) by (auto simp: mp_obj_equal_class)
  show "mp_obj_dict_store py_keys m x v = Some (m, Inl TypeError)" "dict_clear m = Some (m, Inl TypeError)"
    "dict_popitem m = Some (m, Inl TypeError)"
    by (simp_all add: assms(2) mp_map_init_fixed_table_def mp_obj_dict_store_def dict_clear_def dict_popitem_def)
  have l: "linear_search f (map fst table) 0 = None" if "\<forall>k. f k \<longrightarrow> k = x \<or> mp_obj_equal k x" for f
    using ls [of table f 0] no that by blast
  have tk: "take n (map fst table) = map fst table" using assms(1) by simp
  have look: "mp_map_lookup py_keys m x LOOKUP = Some (m, None)"
    unfolding mp_map_lookup_unfold
    by (simp add: mp_map_lookup_with_def Let_def assms(2) mp_map_init_fixed_table_def l tk del: mp_map_lookup_depth.simps)
  then show "mp_obj_dict_get py_keys m x = Some (m, Inl KeyError)" by (simp add: mp_obj_dict_get_def)
  have "mp_map_lookup py_keys (mp_obj_dict_copy m) x ADD_IF_NOT_FOUND = Some (mp_obj_dict_copy m, None)"
    unfolding mp_map_lookup_unfold
    by (simp add: mp_map_lookup_with_def Let_def assms(1,2) mp_map_init_fixed_table_def mp_obj_dict_copy_def mp_obj_new_dict_def
        mp_map_init_def l tk del: mp_map_lookup_depth.simps)
  then show "mp_obj_dict_store py_keys (mp_obj_dict_copy m) x v = None"
    by (simp add: mp_obj_dict_store_def map_put_def assms(2) mp_map_init_fixed_table_def mp_obj_dict_copy_def mp_obj_new_dict_def mp_map_init_def)
qed

theorem fixed_dict_copy_store_witness:
  "mp_obj_dict_store py_keys (mp_obj_dict_copy (mp_map_init_fixed_table 1 [(Key (Qstr [97]), Some (0 :: nat))])) (Qstr [98]) 1 = None"
proof -
  have "\<forall>k v. (Key k, v) \<in> set [(Key (Qstr [97]), Some (0 :: nat))] \<longrightarrow> \<not> mp_obj_equal k (Qstr [98])" by (simp add: mp_obj_equal_class)
  from fixed_dict_copy_store [OF _ refl this, of 1 1] show ?thesis by simp
qed

end
