(* ===== verification/IntObj.thy ===== *)
theory IntObj
  imports PyObj "HOL-Library.Signed_Division"
begin

text \<open>
  The integer objects and their operators: the small integer part of \<open>mp_unary_op\<close> and \<open>mp_binary_op\<close>
  in \<^verbatim>\<open>py/runtime.c\<close>, \<^verbatim>\<open>py/smallint.c\<close>, the long integer objects of \<^verbatim>\<open>py/objint_mpz.c\<close> and the booleans
  of \<^verbatim>\<open>py/objbool.c\<close> that act as integers.  A long integer object is its \<open>mpz_t\<close>.  A C value of type
  \<^verbatim>\<open>mp_int_t\<close> is an \<open>int\<close>; where an operation could leave the 32 bits, \<open>s32\<close> wraps its result.  \<open>None\<close>
  is a failed assertion or an mpz operation that fails.  Operations on doubles are not computed:
  their calls, with the operands, are results of their own.
\<close>

section \<open>Small integers\<close>

definition MP_SMALL_INT_MIN :: int where
  "MP_SMALL_INT_MIN = s32 0x80000000 div 2"

definition MP_SMALL_INT_MAX :: int where
  "MP_SMALL_INT_MAX = NOT MP_SMALL_INT_MIN"

text \<open>\<^verbatim>\<open>((n ^ ((mp_uint_t)n << 1)) & MP_OBJ_WORD_MSBIT_HIGH) == 0\<close>: the two top bits are equal.\<close>

definition MP_SMALL_INT_FITS :: "int \<Rightarrow> bool" where
  "MP_SMALL_INT_FITS n \<longleftrightarrow>
     (let w = word_of_int n :: 32 word in (w XOR push_bit 1 w) AND 0x80000000 = 0)"

definition mp_small_int_mul_overflow :: "int \<Rightarrow> int \<Rightarrow> bool" where
  "mp_small_int_mul_overflow x y =
     (if x > 0 then
        (if y > 0 then x > MP_SMALL_INT_MAX sdiv y
         else y < MP_SMALL_INT_MIN sdiv x)
      else
        (if y > 0 then x < MP_SMALL_INT_MIN sdiv y
         else x \<noteq> 0 \<and> y < MP_SMALL_INT_MAX sdiv x))"

definition mp_small_int_modulo :: "int \<Rightarrow> int \<Rightarrow> int" where
  "mp_small_int_modulo dividend divisor =
     (let dividend = dividend smod divisor
      in if dividend < 0 \<and> divisor > 0 \<or> dividend > 0 \<and> divisor < 0
         then s32 (dividend + divisor) else dividend)"

definition mp_small_int_floor_divide :: "int \<Rightarrow> int \<Rightarrow> int" where
  "mp_small_int_floor_divide num denom =
     (let num = (if num \<ge> 0
                 then (if denom < 0 then s32 (num + (- denom - 1)) else num)
                 else (if denom \<ge> 0 then s32 (num + (- denom + 1)) else num))
      in s32 (num sdiv denom))"

section \<open>Integer objects\<close>

datatype int_obj = Small int | Big mpz_t | Truth bool

text \<open>\<^verbatim>\<open>MP_OBJ_NEW_SMALL_INT\<close> followed by \<^verbatim>\<open>MP_OBJ_SMALL_INT_VALUE\<close>: the top bit of the value is lost.\<close>

definition new_small_int :: "int \<Rightarrow> int_obj" where
  "new_small_int n = Small (sint (mp_obj_small_int_value (mp_obj_new_small_int (word_of_int n))))"

text \<open>The objects with a new \<open>mpz_t\<close>, which \<open>mp_obj_int_new_mpz\<close> initialises to zero.\<close>

definition mp_obj_new_int_from_ll :: "int \<Rightarrow> int_obj option" where
  "mp_obj_new_int_from_ll val = map_option Big (mpz_set_from_ll mpz_init_zero val True)"

definition mp_obj_new_int_from_ull :: "int \<Rightarrow> int_obj option" where
  "mp_obj_new_int_from_ull val = map_option Big (mpz_set_from_ll mpz_init_zero val False)"

definition mp_obj_new_int :: "int \<Rightarrow> int_obj option" where
  "mp_obj_new_int value =
     (if MP_SMALL_INT_FITS value then Some (new_small_int value) else mp_obj_new_int_from_ll value)"

text \<open>\<^verbatim>\<open>MP_SMALL_INT_POSITIVE_MASK\<close> is the complement of the two top bits.\<close>

definition mp_obj_new_int_from_uint :: "32 word \<Rightarrow> int_obj option" where
  "mp_obj_new_int_from_uint value =
     (if value AND NOT (NOT (0x80000000 OR drop_bit 1 0x80000000)) = 0
      then Some (new_small_int (uint value))
      else mp_obj_new_int_from_ull (uint value))"

section \<open>Operators\<close>

datatype arith_op = OP_OR | OP_XOR | OP_AND | OP_LSHIFT | OP_RSHIFT | OP_ADD | OP_SUBTRACT
  | OP_MULTIPLY | OP_MAT_MULTIPLY | OP_FLOOR_DIVIDE | OP_TRUE_DIVIDE | OP_MODULO | OP_POWER

text \<open>
  The operators of \<^verbatim>\<open>mp_binary_op_t\<close> but \<open>MP_BINARY_OP_IS\<close>, which compares addresses: a long integer object
  is its \<open>mpz_t\<close> here and has none.
\<close>

datatype binary_operator = BINARY_LESS | BINARY_MORE | BINARY_EQUAL | BINARY_LESS_EQUAL | BINARY_MORE_EQUAL
  | BINARY_NOT_EQUAL | BINARY_IN | BINARY_EXCEPTION_MATCH
  | INPLACE arith_op | BINARY arith_op | BINARY_DIVMOD | BINARY_CONTAINS | REVERSE arith_op

datatype int_error = ZeroDivisionError | ValueError | OverflowError | TypeError

text \<open>
  \<open>Float_Divide\<close> is the quotient of the operands as doubles, \<open>Float_Power\<close> the call of
  \<open>mp_obj_float_binary_op\<close>, \<open>Null\<close> the null object of an operator that the type does not have.
\<close>

datatype int_result = Integer int_obj | Boolean bool | Tuple int_obj int_obj | Float_Divide int_obj int_obj
  | Float_Power int_obj int_obj | Raise int_error | Null

text \<open>The case for two small integers either has a value that is checked for fitting, or returns, or goes on.\<close>

datatype small_result = Checked int | Returned int_result | Generic_Binary_Op

function small_power_loop :: "int \<Rightarrow> int \<Rightarrow> int \<Rightarrow> int option" where
  "small_power_loop ans lhs_val rhs_val =
     (if rhs_val > 0 then
        (if rhs_val AND 1 \<noteq> 0 \<and> mp_small_int_mul_overflow ans lhs_val then None
         else let ans = (if rhs_val AND 1 \<noteq> 0 then s32 (ans * lhs_val) else ans)
              in if rhs_val = 1 then Some ans
                 else if mp_small_int_mul_overflow lhs_val lhs_val then None
                 else small_power_loop ans (s32 (lhs_val * lhs_val)) (rhs_val div 2))
      else Some ans)"
  by pat_completeness auto

termination small_power_loop
  by (relation "measure (\<lambda>(ans, lhs_val, rhs_val). nat rhs_val)") auto

declare small_power_loop.simps [simp del]

fun small_arith :: "arith_op \<Rightarrow> int \<Rightarrow> int \<Rightarrow> small_result" where
  "small_arith OP_OR lhs_val rhs_val = Checked (lhs_val OR rhs_val)"
| "small_arith OP_XOR lhs_val rhs_val = Checked (lhs_val XOR rhs_val)"
| "small_arith OP_AND lhs_val rhs_val = Checked (lhs_val AND rhs_val)"
| "small_arith OP_LSHIFT lhs_val rhs_val =
     (if rhs_val < 0 then Returned (Raise ValueError)
      else if rhs_val \<ge> 32 \<or> lhs_val > MP_SMALL_INT_MAX div 2 ^ nat rhs_val
                 \<or> lhs_val < MP_SMALL_INT_MIN div 2 ^ nat rhs_val
      then Generic_Binary_Op
      else Checked (s32 (lhs_val * 2 ^ nat rhs_val)))"
| "small_arith OP_RSHIFT lhs_val rhs_val =
     (if rhs_val < 0 then Returned (Raise ValueError)
      else let rhs_val = (if rhs_val \<ge> 32 then 31 else rhs_val)
           in Checked (lhs_val div 2 ^ nat rhs_val))"
| "small_arith OP_ADD lhs_val rhs_val = Checked (s32 (lhs_val + rhs_val))"
| "small_arith OP_SUBTRACT lhs_val rhs_val = Checked (s32 (lhs_val - rhs_val))"
| "small_arith OP_MULTIPLY lhs_val rhs_val =
     (if mp_small_int_mul_overflow lhs_val rhs_val then Generic_Binary_Op
      else Returned (Integer (new_small_int (s32 (lhs_val * rhs_val)))))"
| "small_arith OP_MAT_MULTIPLY lhs_val rhs_val = Returned (Raise TypeError)"
| "small_arith OP_FLOOR_DIVIDE lhs_val rhs_val =
     (if rhs_val = 0 then Returned (Raise ZeroDivisionError)
      else Checked (mp_small_int_floor_divide lhs_val rhs_val))"
| "small_arith OP_TRUE_DIVIDE lhs_val rhs_val =
     (if rhs_val = 0 then Returned (Raise ZeroDivisionError)
      else Returned (Float_Divide (Small lhs_val) (Small rhs_val)))"
| "small_arith OP_MODULO lhs_val rhs_val =
     (if rhs_val = 0 then Returned (Raise ZeroDivisionError)
      else Checked (mp_small_int_modulo lhs_val rhs_val))"
| "small_arith OP_POWER lhs_val rhs_val =
     (if rhs_val < 0 then Returned (Float_Power (Small lhs_val) (Small rhs_val))
      else case small_power_loop 1 lhs_val rhs_val of
             None \<Rightarrow> Generic_Binary_Op
           | Some ans \<Rightarrow> Checked ans)"

fun small_binary_op :: "binary_operator \<Rightarrow> int \<Rightarrow> int \<Rightarrow> small_result" where
  "small_binary_op (INPLACE a) lhs_val rhs_val = small_arith a lhs_val rhs_val"
| "small_binary_op (BINARY a) lhs_val rhs_val = small_arith a lhs_val rhs_val"
| "small_binary_op BINARY_DIVMOD lhs_val rhs_val =
     (if rhs_val = 0 then Returned (Raise ZeroDivisionError)
      else Returned (Tuple (new_small_int (mp_small_int_floor_divide lhs_val rhs_val))
                           (new_small_int (mp_small_int_modulo lhs_val rhs_val))))"
| "small_binary_op BINARY_LESS lhs_val rhs_val = Returned (Boolean (lhs_val < rhs_val))"
| "small_binary_op BINARY_MORE lhs_val rhs_val = Returned (Boolean (lhs_val > rhs_val))"
| "small_binary_op BINARY_LESS_EQUAL lhs_val rhs_val = Returned (Boolean (lhs_val \<le> rhs_val))"
| "small_binary_op BINARY_MORE_EQUAL lhs_val rhs_val = Returned (Boolean (lhs_val \<ge> rhs_val))"
| "small_binary_op _ lhs_val rhs_val = Returned (Raise TypeError)"

section \<open>Long integers\<close>

text \<open>\<open>None\<close> is the \<open>OverflowError\<close>.\<close>

fun mp_obj_int_get_checked :: "int_obj \<Rightarrow> int option" where
  "mp_obj_int_get_checked (Small v) = Some v"
| "mp_obj_int_get_checked (Big z) = mpz_as_int_checked z"
| "mp_obj_int_get_checked (Truth b) = None"

fun mp_obj_int_get_uint_checked :: "int_obj \<Rightarrow> nat option" where
  "mp_obj_int_get_uint_checked (Small v) = (if v \<ge> 0 then Some (nat v) else None)"
| "mp_obj_int_get_uint_checked (Big z) = mpz_as_uint_checked z"
| "mp_obj_int_get_uint_checked (Truth b) = None"

fun mp_obj_int_get_truncated :: "int_obj \<Rightarrow> int option" where
  "mp_obj_int_get_truncated (Small v) = Some v"
| "mp_obj_int_get_truncated (Big z) = Some (mpz_hash z)"
| "mp_obj_int_get_truncated (Truth b) = None"

fun mp_obj_int_sign :: "int_obj \<Rightarrow> int option" where
  "mp_obj_int_sign (Small v) = Some (if v < 0 then - 1 else if v > 0 then 1 else 0)"
| "mp_obj_int_sign (Big z) = Some (if dig z = [] then 0 else if \<not> neg z then 1 else - 1)"
| "mp_obj_int_sign (Truth b) = None"

text \<open>The shifts of \<open>mp_obj_int_binary_op\<close>.\<close>

definition int_shift :: "bool \<Rightarrow> mpz_t \<Rightarrow> int_obj \<Rightarrow> int_result option" where
  "int_shift left zlhs rhs_in =
     (case mp_obj_int_get_checked rhs_in of
        None \<Rightarrow> Some (Raise OverflowError)
      | Some irhs \<Rightarrow>
          if irhs < 0 then Some (Raise ValueError)
          else map_option (Integer \<circ> Big)
                 (if left then mpz_shl_inpl mpz_init_zero zlhs (nat irhs)
                  else mpz_shr_inpl False mpz_init_zero zlhs (nat irhs)))"

fun int_arith :: "arith_op \<Rightarrow> mpz_t \<Rightarrow> mpz_t \<Rightarrow> int_obj \<Rightarrow> int_result option" where
  "int_arith OP_ADD zlhs zrhs rhs_in = map_option (Integer \<circ> Big) (mpz_add_inpl mpz_init_zero zlhs zrhs)"
| "int_arith OP_SUBTRACT zlhs zrhs rhs_in = map_option (Integer \<circ> Big) (mpz_sub_inpl mpz_init_zero zlhs zrhs)"
| "int_arith OP_MULTIPLY zlhs zrhs rhs_in = map_option (Integer \<circ> Big) (mpz_mul_inpl mpz_init_zero zlhs zrhs)"
| "int_arith OP_FLOOR_DIVIDE zlhs zrhs rhs_in =
     (if mpz_is_zero zrhs then Some (Raise ZeroDivisionError)
      else map_option (\<lambda>(quo, rem). Integer (Big quo)) (mpz_divmod_inpl False mpz_init_zero mpz_init_zero zlhs zrhs))"
| "int_arith OP_MODULO zlhs zrhs rhs_in =
     (if mpz_is_zero zrhs then Some (Raise ZeroDivisionError)
      else map_option (\<lambda>(quo, rem). Integer (Big rem)) (mpz_divmod_inpl False mpz_init_zero mpz_init_zero zlhs zrhs))"
| "int_arith OP_AND zlhs zrhs rhs_in = map_option (Integer \<circ> Big) (mpz_and_inpl mpz_init_zero zlhs zrhs)"
| "int_arith OP_OR zlhs zrhs rhs_in = map_option (Integer \<circ> Big) (mpz_or_inpl mpz_init_zero zlhs zrhs)"
| "int_arith OP_XOR zlhs zrhs rhs_in = map_option (Integer \<circ> Big) (mpz_xor_inpl mpz_init_zero zlhs zrhs)"
| "int_arith OP_LSHIFT zlhs zrhs rhs_in = int_shift True zlhs rhs_in"
| "int_arith OP_RSHIFT zlhs zrhs rhs_in = int_shift False zlhs rhs_in"
| "int_arith OP_POWER zlhs zrhs rhs_in =
     (if neg zrhs then Some (Float_Power (Big zlhs) rhs_in)
      else map_option (Integer \<circ> Big) (mpz_pow_inpl mpz_init_zero zlhs zrhs))"
| "int_arith OP_TRUE_DIVIDE zlhs zrhs rhs_in =
     (if mpz_is_zero zrhs then Some (Raise ZeroDivisionError)
      else Some (Float_Divide (Big zlhs) (Big zrhs)))"
| "int_arith OP_MAT_MULTIPLY zlhs zrhs rhs_in = Some Null"

fun int_long_op :: "binary_operator \<Rightarrow> mpz_t \<Rightarrow> mpz_t \<Rightarrow> int_obj \<Rightarrow> int_result option" where
  "int_long_op (INPLACE a) zlhs zrhs rhs_in = int_arith a zlhs zrhs rhs_in"
| "int_long_op (BINARY a) zlhs zrhs rhs_in = int_arith a zlhs zrhs rhs_in"
| "int_long_op BINARY_DIVMOD zlhs zrhs rhs_in =
     (if mpz_is_zero zrhs then Some (Raise ZeroDivisionError)
      else map_option (\<lambda>(quo, rem). Tuple (Big quo) (Big rem))
             (mpz_divmod_inpl False mpz_init_zero mpz_init_zero zlhs zrhs))"
| "int_long_op BINARY_LESS zlhs zrhs rhs_in = Some (Boolean (mpz_cmp zlhs zrhs < 0))"
| "int_long_op BINARY_MORE zlhs zrhs rhs_in = Some (Boolean (mpz_cmp zlhs zrhs > 0))"
| "int_long_op BINARY_LESS_EQUAL zlhs zrhs rhs_in = Some (Boolean (mpz_cmp zlhs zrhs \<le> 0))"
| "int_long_op BINARY_MORE_EQUAL zlhs zrhs rhs_in = Some (Boolean (mpz_cmp zlhs zrhs \<ge> 0))"
| "int_long_op BINARY_EQUAL zlhs zrhs rhs_in = Some (Boolean (mpz_cmp zlhs zrhs = 0))"
| "int_long_op _ zlhs zrhs rhs_in = Some Null"

text \<open>
  \<^verbatim>\<open>z_int\<close> is the one buffer for a small operand: if both were small, the left one would be
  overwritten by the right one.  A boolean on the right is left to \<open>mp_obj_int_binary_op_extra_cases\<close>,
  which calls \<open>mp_binary_op\<close>, the parameter \<open>again\<close>.
\<close>

fun small_operand :: "int_obj \<Rightarrow> mpz_t option" where
  "small_operand (Small v) = mpz_init_fixed_from_int 2 v"
| "small_operand _ = None"

fun mp_obj_int_binary_op ::
  "(binary_operator \<Rightarrow> int_obj \<Rightarrow> int_obj \<Rightarrow> int_result option) \<Rightarrow>
   binary_operator \<Rightarrow> int_obj \<Rightarrow> int_obj \<Rightarrow> int_result option" where
  "mp_obj_int_binary_op again op (Truth b) rhs_in = None"
| "mp_obj_int_binary_op again op lhs_in (Truth b) = again op lhs_in (new_small_int (if b then 1 else 0))"
| "mp_obj_int_binary_op again op (Small v) (Small w) = do {
     z_int \<leftarrow> small_operand (Small w);
     int_long_op op z_int z_int (Small w) }"
| "mp_obj_int_binary_op again op (Small v) (Big zrhs) = do {
     z_int \<leftarrow> small_operand (Small v);
     int_long_op op z_int zrhs (Big zrhs) }"
| "mp_obj_int_binary_op again op (Big zlhs) (Small w) = do {
     z_int \<leftarrow> small_operand (Small w);
     int_long_op op zlhs z_int (Small w) }"
| "mp_obj_int_binary_op again op (Big zlhs) (Big zrhs) = int_long_op op zlhs zrhs (Big zrhs)"

section \<open>The operator of the runtime\<close>

fun type_binary_op ::
  "(binary_operator \<Rightarrow> int_obj \<Rightarrow> int_obj \<Rightarrow> int_result option) \<Rightarrow>
   binary_operator \<Rightarrow> int_obj \<Rightarrow> int_obj \<Rightarrow> int_result option" where
  "type_binary_op again op (Truth b) rhs = again op (new_small_int (of_bool b)) rhs"
| "type_binary_op again op lhs rhs = mp_obj_int_binary_op again op lhs rhs"

text \<open>From the label \<open>generic_binary_op\<close>; \<open>lhs\<close> and \<open>rhs\<close> are swapped for the reverse method.\<close>

fun op_tries :: "binary_operator \<Rightarrow> nat" where
  "op_tries (INPLACE a) = 2"
| "op_tries (BINARY a) = 1"
| "op_tries _ = 0"

function generic_binary_op ::
  "(binary_operator \<Rightarrow> int_obj \<Rightarrow> int_obj \<Rightarrow> int_result option) \<Rightarrow>
   binary_operator \<Rightarrow> int_obj \<Rightarrow> int_obj \<Rightarrow> int_result option" where
  "generic_binary_op again op lhs rhs =
     (case type_binary_op again op lhs rhs of
        None \<Rightarrow> None
      | Some result \<Rightarrow>
          if result \<noteq> Null then Some result
          else case op of
                 INPLACE a \<Rightarrow> generic_binary_op again (BINARY a) lhs rhs
               | BINARY a \<Rightarrow> generic_binary_op again (REVERSE a) rhs lhs
               | _ \<Rightarrow> Some (Raise TypeError))"
  by pat_completeness auto

termination generic_binary_op
  by (relation "measure (\<lambda>(again, op, lhs, rhs). op_tries op)") auto

declare generic_binary_op.simps [simp del]

fun mp_binary_op_small ::
  "(binary_operator \<Rightarrow> int_obj \<Rightarrow> int_obj \<Rightarrow> int_result option) \<Rightarrow>
   binary_operator \<Rightarrow> int \<Rightarrow> int \<Rightarrow> int_result option" where
  "mp_binary_op_small again op lhs_val rhs_val =
     (case small_binary_op op lhs_val rhs_val of
        Returned result \<Rightarrow> Some result
      | Checked val \<Rightarrow>
          (if MP_SMALL_INT_FITS val then Some (Integer (new_small_int val))
           else map_option Integer (mp_obj_new_int_from_ll val))
      | Generic_Binary_Op \<Rightarrow> do {
          lhs \<leftarrow> mp_obj_new_int_from_ll lhs_val;
          generic_binary_op again op lhs (Small rhs_val) })"

text \<open>
  \<open>mp_obj_equal_not_equal\<close> of \<^verbatim>\<open>py/obj.c\<close> on integers.  \<open>identical\<close> is the comparison of the two objects: a
  small integer and a boolean are their values; two long integers are taken as different objects, so
  that they are compared by their digits (one object has equal digits, and the same result).  A type that
  does not check other types, as the integers, is asked only about its own; a boolean, which does,
  calls the operator again, the parameter \<open>again\<close>.
\<close>

fun identical :: "int_obj \<Rightarrow> int_obj \<Rightarrow> bool" where
  "identical (Small v) (Small w) = (v = w)"
| "identical (Truth b) (Truth c) = (b = c)"
| "identical _ _ = False"

definition local_equal :: "binary_operator \<Rightarrow> bool \<Rightarrow> int_result" where
  "local_equal op r = Boolean (if op = BINARY_NOT_EQUAL then \<not> r else r)"

fun asks_other :: "int_obj \<Rightarrow> int_obj \<Rightarrow> bool" where
  "asks_other (Truth b) o2 = True"
| "asks_other o1 (Truth b) = False"
| "asks_other o1 o2 = True"

fun int_equal_passes ::
  "(binary_operator \<Rightarrow> int_obj \<Rightarrow> int_obj \<Rightarrow> int_result option) \<Rightarrow>
   nat \<Rightarrow> binary_operator \<Rightarrow> int_obj \<Rightarrow> int_obj \<Rightarrow> int_result option" where
  "int_equal_passes again 0 op o1 o2 = Some (local_equal op (identical o1 o2))"
| "int_equal_passes again (Suc passes) op o1 o2 =
     (if asks_other o1 o2
      then (case type_binary_op again BINARY_EQUAL o1 o2 of
              None \<Rightarrow> None
            | Some Null \<Rightarrow> int_equal_passes again passes op o2 o1
            | Some (Boolean r) \<Rightarrow> Some (local_equal op r)
            | Some result \<Rightarrow> Some result)
      else int_equal_passes again passes op o2 o1)"

definition int_equal_not_equal ::
  "(binary_operator \<Rightarrow> int_obj \<Rightarrow> int_obj \<Rightarrow> int_result option) \<Rightarrow>
   binary_operator \<Rightarrow> int_obj \<Rightarrow> int_obj \<Rightarrow> int_result option" where
  "int_equal_not_equal again op o1 o2 =
     (if identical o1 o2 then Some (local_equal op True)
      else case (o1, o2) of
             (Small v, Small w) \<Rightarrow> Some (local_equal op False)
           | (Small v, _) \<Rightarrow> int_equal_passes again 1 op o2 o1
           | _ \<Rightarrow> int_equal_passes again 2 op o1 o2)"

text \<open>
  An integer is no exception type and has no iterator, so that the matching of exceptions and the
  walk of \<open>BINARY_CONTAINS\<close>, at the end of \<open>generic_binary_op\<close>, raise the error.
\<close>

fun mp_binary_op_depth :: "nat \<Rightarrow> binary_operator \<Rightarrow> int_obj \<Rightarrow> int_obj \<Rightarrow> int_result option" where
  "mp_binary_op_depth 0 op lhs rhs = None"
| "mp_binary_op_depth (Suc d) op lhs rhs =
     (if op = BINARY_EQUAL \<or> op = BINARY_NOT_EQUAL then int_equal_not_equal (mp_binary_op_depth d) op lhs rhs
      else if op = BINARY_EXCEPTION_MATCH then Some (Raise TypeError)
      else case (lhs, rhs) of
             (Small lhs_val, Small rhs_val) \<Rightarrow> mp_binary_op_small (mp_binary_op_depth d) op lhs_val rhs_val
           | _ \<Rightarrow> (if op = BINARY_IN then generic_binary_op (mp_binary_op_depth d) BINARY_CONTAINS rhs lhs
                  else generic_binary_op (mp_binary_op_depth d) op lhs rhs))"

text \<open>A boolean on the left and one on the right each call the operator once more.\<close>

definition mp_binary_op :: "binary_operator \<Rightarrow> int_obj \<Rightarrow> int_obj \<Rightarrow> int_result option" where
  "mp_binary_op op lhs rhs = mp_binary_op_depth 3 op lhs rhs"

section \<open>Unary operators\<close>

datatype unary_operator = UNARY_POSITIVE | UNARY_NEGATIVE | UNARY_INVERT | UNARY_NOT | UNARY_BOOL
  | UNARY_HASH | UNARY_ABS | UNARY_INT_MAYBE

fun mp_obj_int_unary_op :: "unary_operator \<Rightarrow> mpz_t \<Rightarrow> int_result option" where
  "mp_obj_int_unary_op UNARY_BOOL z = Some (Boolean (\<not> mpz_is_zero z))"
| "mp_obj_int_unary_op UNARY_HASH z = Some (Integer (new_small_int (mpz_hash z)))"
| "mp_obj_int_unary_op UNARY_POSITIVE z = Some (Integer (Big z))"
| "mp_obj_int_unary_op UNARY_NEGATIVE z = map_option (Integer \<circ> Big) (mpz_neg_inpl mpz_init_zero z)"
| "mp_obj_int_unary_op UNARY_INVERT z = map_option (Integer \<circ> Big) (mpz_not_inpl mpz_init_zero z)"
| "mp_obj_int_unary_op UNARY_ABS z =
     (if \<not> neg z then Some (Integer (Big z))
      else map_option (Integer \<circ> Big) (mpz_abs_inpl mpz_init_zero z))"
| "mp_obj_int_unary_op UNARY_INT_MAYBE z = Some (Integer (Big z))"
| "mp_obj_int_unary_op UNARY_NOT z = Some Null"

fun small_unary_op :: "unary_operator \<Rightarrow> int \<Rightarrow> int_result option" where
  "small_unary_op UNARY_BOOL val = Some (Boolean (val \<noteq> 0))"
| "small_unary_op UNARY_HASH val = Some (Integer (Small val))"
| "small_unary_op UNARY_POSITIVE val = Some (Integer (Small val))"
| "small_unary_op UNARY_INT_MAYBE val = Some (Integer (Small val))"
| "small_unary_op UNARY_NEGATIVE val =
     (if val = MP_SMALL_INT_MIN then map_option Integer (mp_obj_new_int (s32 (- val)))
      else Some (Integer (new_small_int (- val))))"
| "small_unary_op UNARY_ABS val =
     (if val \<ge> 0 then Some (Integer (Small val))
      else if val = MP_SMALL_INT_MIN then map_option Integer (mp_obj_new_int (s32 (- val)))
      else Some (Integer (new_small_int (- val))))"
| "small_unary_op UNARY_INVERT val = Some (Integer (new_small_int (NOT val)))"
| "small_unary_op UNARY_NOT val = None"

text \<open>
  \<open>mp_obj_is_true\<close> of \<^verbatim>\<open>py/obj.c\<close> tests a small integer and the two booleans by itself, and asks the type
  of a long integer for \<open>UNARY_BOOL\<close>.
\<close>

fun mp_obj_is_true :: "int_obj \<Rightarrow> bool" where
  "mp_obj_is_true (Truth b) = b"
| "mp_obj_is_true (Small v) = (v \<noteq> 0)"
| "mp_obj_is_true (Big z) = (mp_obj_int_unary_op UNARY_BOOL z = Some (Boolean True))"

fun mp_unary_op :: "unary_operator \<Rightarrow> int_obj \<Rightarrow> int_result option" where
  "mp_unary_op op arg =
     (if op = UNARY_NOT then Some (Boolean (\<not> mp_obj_is_true arg))
      else case arg of
             Small val \<Rightarrow> small_unary_op op val
           | Big z \<Rightarrow> mp_obj_int_unary_op op z
           | Truth b \<Rightarrow> small_unary_op op (of_bool b))"

section \<open>Three-argument power\<close>

fun mp_mpz_for_int :: "int_obj \<Rightarrow> mpz_t option" where
  "mp_mpz_for_int (Small v) = mpz_init_from_int v"
| "mp_mpz_for_int (Big z) = Some z"
| "mp_mpz_for_int (Truth b) = None"

fun mp_obj_is_int :: "int_obj \<Rightarrow> bool" where
  "mp_obj_is_int (Truth b) = False"
| "mp_obj_is_int _ = True"

definition mp_obj_int_pow3 :: "int_obj \<Rightarrow> int_obj \<Rightarrow> int_obj \<Rightarrow> int_result option" where
  "mp_obj_int_pow3 base exponent modulus =
     (if \<not> mp_obj_is_int base \<or> \<not> mp_obj_is_int exponent \<or> \<not> mp_obj_is_int modulus
      then Some (Raise TypeError)
      else do {
        res \<leftarrow> mpz_set_from_ll mpz_init_zero 0 False;
        lhs \<leftarrow> mp_mpz_for_int base;
        rhs \<leftarrow> mp_mpz_for_int exponent;
        m \<leftarrow> mp_mpz_for_int modulus;
        res \<leftarrow> mpz_pow3_inpl res lhs rhs m;
        Some (Integer (Big res)) })"

section \<open>Small integers are exact\<close>

definition small_ok :: "int \<Rightarrow> bool" where
  "small_ok v \<longleftrightarrow> - (2 ^ 30) \<le> v \<and> v < 2 ^ 30"

lemma small_int_limits: "MP_SMALL_INT_MIN = - 1073741824" "MP_SMALL_INT_MAX = 1073741823"
  by (simp_all add: MP_SMALL_INT_MIN_def MP_SMALL_INT_MAX_def s32_def not_int_def)

lemma and_high: "(x :: 32 word) AND 0x80000000 = 0 \<longleftrightarrow> \<not> bit x 31"
proof -
  have h: "(0x80000000 :: 32 word) = push_bit 31 1" by simp
  show ?thesis unfolding h bit_eq_iff bit_and_iff bit_push_bit_iff bit_1_iff
    by (auto simp: less_Suc_eq_le [of _ 31, simplified] dest: le_antisym)
qed

lemma small_int_fits_bits: "MP_SMALL_INT_FITS n \<longleftrightarrow> bit n 31 = bit n 30"
  unfolding MP_SMALL_INT_FITS_def Let_def and_high bit_xor_iff bit_push_bit_iff by (simp add: bit_word_of_int_iff)

lemma small_int_fits:
  assumes "- (2 ^ 31) \<le> n" "n < 2 ^ 31"
  shows "MP_SMALL_INT_FITS n \<longleftrightarrow> small_ok n"
proof -
  have q: "n div 2 ^ 31 = (if n < 0 then - 1 else 0)"
    "n div 2 ^ 30 = (if n < - (2 ^ 30) then - 2 else if n < 0 then - 1 else if n < 2 ^ 30 then 0 else 1)"
    using assms by auto
  show ?thesis unfolding small_int_fits_bits bit_iff_odd q small_ok_def using assms by auto
qed

lemma new_small_int_bits:
  "bit (sint (mp_obj_small_int_value (mp_obj_new_small_int (word_of_int n)))) k \<longleftrightarrow> bit n (min k 30)"
  by (auto simp: bit_sint_iff small_int_bits bit_word_of_int_iff min_def)

lemma new_small_int_ok:
  assumes "small_ok n"
  shows "new_small_int n = Small n"
proof -
  have q: "n div 2 ^ k = (if n < 0 then - 1 else 0)" if "30 \<le> k" for k
  proof -
    have "(2::int) ^ 30 \<le> 2 ^ k" using that by (intro power_increasing) auto
    then show ?thesis using assms unfolding small_ok_def 
      by (auto simp: div_pos_pos_trivial intro!: int_div_pos_eq [where r = "n + 2 ^ k"])
  qed
  have "bit n (min k 30) = bit n k" for k
    using q [of k] q [of 30] by (cases "30 \<le> k") (auto simp: bit_iff_odd min_def)
  then show ?thesis unfolding new_small_int_def by (simp add: bit_eq_iff new_small_int_bits)
qed

end
