(* ===== verification/IntLaws.thy ===== *)
theory IntLaws
  imports IntObj
begin

text \<open>
  What the operators of the integer objects compute.  The small integer routines are exact as long
  as the result is a small integer; the long integer operators are those of the mpz library; and the
  operator of the runtime, which dispatches on the operands, gives the value of Python's operator
  (\<open>mp_binary_op_yields\<close>).
\<close>

section \<open>Small integer routines\<close>

lemma sdiv_cases:
  fixes a b :: int
  shows "0 \<le> a \<Longrightarrow> 0 < b \<Longrightarrow> a sdiv b = a div b"
    and "a < 0 \<Longrightarrow> 0 < b \<Longrightarrow> a sdiv b = - ((- a) div b)"
    and "0 \<le> a \<Longrightarrow> b < 0 \<Longrightarrow> a sdiv b = - (a div (- b))"
    and "a < 0 \<Longrightarrow> b < 0 \<Longrightarrow> a sdiv b = (- a) div (- b)"
  by (cases "a = 0"; simp add: signed_divide_int_def sgn_if)+

lemma smod_cases:
  fixes a b :: int
  shows "0 \<le> a \<Longrightarrow> b \<noteq> 0 \<Longrightarrow> a smod b = a mod \<bar>b\<bar>"
    and "a < 0 \<Longrightarrow> b \<noteq> 0 \<Longrightarrow> a smod b = - ((- a) mod \<bar>b\<bar>)"
  by (cases "a = 0"; simp add: signed_modulo_int_def sgn_if)+

lemma le_div_iff_mult:
  fixes a b c :: int
  assumes "0 < b"
  shows "c \<le> a div b \<longleftrightarrow> c * b \<le> a"
proof
  assume "c \<le> a div b"
  then have "c * b \<le> a div b * b" using assms by simp
  also have "\<dots> \<le> a" using assms by (simp add: minus_mod_eq_div_mult [symmetric])
  finally show "c * b \<le> a" .
next
  assume "c * b \<le> a"
  then have "c * b div b \<le> a div b" using assms by (rule zdiv_mono1)
  then show "c \<le> a div b" using assms by simp
qed

lemma mp_small_int_mul_overflow_iff:
  "mp_small_int_mul_overflow x y \<longleftrightarrow> \<not> small_ok (x * y)"
proof -
  have nn: "a div b < c \<longleftrightarrow> a < c * b" if "0 < b" for a b c :: int
    using le_div_iff_mult [OF that, of c a] by linarith
  consider "x > 0" "y > 0" | "x > 0" "y \<le> 0" | "x \<le> 0" "y > 0" | "x < 0" "y \<le> 0" | "x = 0" by linarith
  then show ?thesis
  proof cases
    case 1
    then have "- 1073741824 \<le> x * y" by (meson less_imp_le mult_nonneg_nonneg neg_numeral_le_zero order_trans)
    with 1 show ?thesis
      by (auto simp: mp_small_int_mul_overflow_def small_int_limits sdiv_cases nn small_ok_def not_less)
  next
    case 2
    then have "x * y \<le> 0" by (simp add: mult_nonneg_nonpos)
    with 2 le_div_iff_mult [of x "- y" 1073741824] nn [of x 1073741824 "- y"] show ?thesis
      by (auto simp: mp_small_int_mul_overflow_def small_int_limits sdiv_cases small_ok_def not_less mult.commute)
  next
    case 3
    then have "x * y \<le> 0" by (simp add: mult_nonpos_nonneg)
    with 3 nn [of y 1073741824 "- x"] show ?thesis
      by (auto simp: mp_small_int_mul_overflow_def small_int_limits sdiv_cases small_ok_def not_less)
  next
    case 4
    then have "0 \<le> x * y" by (simp add: mult_nonpos_nonpos)
    with 4 nn [of "- x" 1073741823 "- y"] show ?thesis
      by (auto simp: mp_small_int_mul_overflow_def small_int_limits sdiv_cases small_ok_def not_less mult.commute)
  next
    case 5
    then show ?thesis
      by (simp add: mp_small_int_mul_overflow_def small_ok_def small_int_limits sdiv_cases not_less pos_imp_zdiv_nonneg_iff)
  qed
qed

lemma small_product_bound:
  assumes "small_ok (x * y)"
  shows "s32 (x * y) = x * y"
  using assms by (intro s32_id) (auto simp: small_ok_def)

lemma abs_mod_less:
  fixes a b :: int
  assumes "b \<noteq> 0"
  shows "\<bar>a mod b\<bar> < \<bar>b\<bar>"
  using assms pos_mod_bound [of b a] neg_mod_bound [of b a] pos_mod_sign [of b a] neg_mod_sign [of b a]
  by (cases "0 < b") auto

lemma smod_smaller:
  fixes a b :: int
  assumes "b \<noteq> 0"
  shows "\<bar>a smod b\<bar> < \<bar>b\<bar>" "a smod b mod b = a mod b"
proof -
  have "\<bar>a\<bar> mod \<bar>b\<bar> < \<bar>b\<bar>" "0 \<le> \<bar>a\<bar> mod \<bar>b\<bar>" using assms by auto
  then show "\<bar>a smod b\<bar> < \<bar>b\<bar>"
    by (auto simp: signed_modulo_int_def abs_mult sgn_if)
  have "a smod b = a - b * (a sdiv b)" by (rule minus_mult_sdiv_eq_smod [symmetric])
  then show "a smod b mod b = a mod b" by (simp add: mod_diff_eq [symmetric])
qed

text \<open>The results of the C code are those of Python's floor division.\<close>

lemma mp_small_int_modulo_correct:
  assumes "small_ok b" "b \<noteq> 0"
  shows "mp_small_int_modulo a b = a mod b"
proof -
  let ?r = "a smod b"
  note r = smod_smaller [OF assms(2), of a]
  have "\<bar>b\<bar> \<le> 2 ^ 30" using assms(1) by (auto simp: small_ok_def)
  then have fits: "s32 (?r + b) = ?r + b" if "?r < 0 \<and> b > 0 \<or> ?r > 0 \<and> b < 0"
    using r(1) that by (intro s32_id) auto
  let ?m = "if ?r < 0 \<and> b > 0 \<or> ?r > 0 \<and> b < 0 then ?r + b else ?r"
  have "?m mod b = a mod b" using r(2) by simp
  moreover have "?m mod b = ?m"
  proof (cases "b > 0")
    case True
    then have "0 \<le> ?m \<and> ?m < b" using r(1) by auto
    then show ?thesis by (rule conjE) (rule mod_pos_pos_trivial)
  next
    case False
    then have "?m \<le> 0 \<and> b < ?m" using r(1) assms(2) by auto
    then show ?thesis by (rule conjE) (rule mod_neg_neg_trivial)
  qed
  ultimately show ?thesis using fits by (auto simp: mp_small_int_modulo_def Let_def)
qed

lemma ceiling_div:
  fixes m c :: int
  assumes "0 < c"
  shows "- ((m + c - 1) div c) = (- m) div c"
proof -
  let ?q = "(m + c - 1) div c"
  have "c * ?q + (m + c - 1) mod c = m + c - 1" by simp
  moreover have "0 \<le> (m + c - 1) mod c" "(m + c - 1) mod c < c" using assms by simp_all
  ultimately have "- m = c * (- ?q) + (c * ?q - m)" "0 \<le> c * ?q - m" "c * ?q - m < c"
    by (simp_all only: mult_minus_right)
  then show ?thesis by (rule int_div_pos_eq [symmetric])
qed

lemma div_within:
  fixes a b M :: int
  assumes "\<bar>a\<bar> \<le> M" "b \<noteq> 0"
  shows "\<bar>a div b\<bar> \<le> M"
proof -
  have pos: "\<bar>x div y\<bar> \<le> M" if "\<bar>x\<bar> \<le> M" "0 < y" for x y
  proof -
    have "M * 1 \<le> M * y" "(M + 1) * 1 \<le> (M + 1) * y" 
      using mult_left_mono [of 1 y M] mult_left_mono [of 1 y "M + 1"] that by auto
    then have "- M * y \<le> x" "x < (M + 1) * y" using that(1) by (auto simp: algebra_simps)
    then show ?thesis using le_div_iff_mult [OF that(2), of "- M" x] le_div_iff_mult [OF that(2), of "M + 1" x]
      by linarith
  qed
  show ?thesis using pos [of a b] pos [of "- a" "- b"] assms by (cases "0 < b") auto
qed

lemma mp_small_int_floor_divide_correct:
  assumes "small_ok a" "small_ok b" "b \<noteq> 0"
  shows "mp_small_int_floor_divide a b = a div b"
proof -
  have ab: "\<bar>a\<bar> \<le> 2 ^ 30" "\<bar>b\<bar> \<le> 2 ^ 30" using assms(1,2) by (auto simp: small_ok_def)
  have fits: "s32 (a div b) = a div b"
    using div_within [OF ab(1) assms(3)] by (intro s32_id) auto
  consider "a \<ge> 0" "b > 0" | "a \<ge> 0" "b < 0" | "a < 0" "b > 0" | "a < 0" "b < 0" using assms(3) by linarith
  then show ?thesis
  proof cases
    case 1
    then show ?thesis using fits by (simp add: mp_small_int_floor_divide_def sdiv_cases)
  next
    case 2
    then have "s32 (a + (- b - 1)) = a + (- b) - 1" using ab by (subst s32_id) auto
    with 2 fits ceiling_div [of "- b" a] show ?thesis
      by (simp add: mp_small_int_floor_divide_def sdiv_cases)
  next
    case 3
    then have "s32 (a + (- b + 1)) = - (- a + b - 1)" using ab by (subst s32_id) auto
    with 3 fits ceiling_div [of b "- a"] show ?thesis
      by (simp add: mp_small_int_floor_divide_def sdiv_cases)
  next
    case 4
    then show ?thesis using fits by (simp add: mp_small_int_floor_divide_def sdiv_cases)
  qed
qed

lemma small_power_loop_correct:
  "small_power_loop ans x n = Some r \<Longrightarrow> small_ok ans \<Longrightarrow> small_ok r \<and> r = ans * x ^ nat n"
proof (induction ans x n arbitrary: r rule: small_power_loop.induct)
  case (1 ans x n)
  note eq = small_power_loop.simps [of ans x n]
  consider "n \<le> 0" | "n > 0" by linarith
  then show ?case
  proof cases
    case 1
    then show ?thesis using "1.prems" by (subst (asm) eq) simp
  next
    case 2
    define ans' where "ans' = (if n AND 1 \<noteq> 0 then s32 (ans * x) else ans)"
    have o: "(n AND 1 \<noteq> 0) = odd n" by (simp add: and_one_eq odd_iff_mod_2_eq_one)
    have no: "\<not> (n AND 1 \<noteq> 0 \<and> mp_small_int_mul_overflow ans x)"
      using "1.prems"(1) 2 by (subst (asm) eq) (auto split: if_splits)
    then have a: "ans' = (if odd n then ans * x else ans)" "small_ok ans'"
      using "1.prems"(2) by (auto simp: ans'_def o mp_small_int_mul_overflow_iff small_product_bound)
    show ?thesis
    proof (cases "n = 1")
      case True
      then show ?thesis using "1.prems"(1) a no by (subst (asm) eq) (auto simp: o ans'_def split: if_splits)
    next
      case False
      then have sq: "small_ok (x * x)" and run: "small_power_loop ans' (s32 (x * x)) (n div 2) = Some r"
        using "1.prems"(1) 2 no
        by (subst (asm) eq; auto simp: Let_def ans'_def mp_small_int_mul_overflow_iff split: if_splits)+
      have ih: "small_ok r \<and> r = ans' * (x * x) ^ nat (n div 2)"
        using "1.IH" [OF 2 no ans'_def False _ run a(2)] sq
        unfolding small_product_bound [OF sq] mp_small_int_mul_overflow_iff by blast
      have "nat n = 2 * nat (n div 2) + of_bool (odd n)" using 2 by (auto elim!: evenE oddE)
      then have "x ^ nat n = (x * x) ^ nat (n div 2) * (if odd n then x else 1)"
        by (simp add: power_add power_mult power2_eq_square)
      then have "r = ans * x ^ nat n" using conjunct2 [OF ih] a(1) by simp
      then show ?thesis using conjunct1 [OF ih] by simp
    qed
  qed
qed

section \<open>What the operators mean\<close>

text \<open>The objects that the program can have, their values, and the result of an operator as a value.\<close>

fun int_obj_ok :: "int_obj \<Rightarrow> bool" where
  "int_obj_ok (Small v) = small_ok v"
| "int_obj_ok (Big z) = mpz_wf z"
| "int_obj_ok (Truth b) = True"

fun int_obj_val :: "int_obj \<Rightarrow> int" where
  "int_obj_val (Small v) = v"
| "int_obj_val (Big z) = mpz_val z"
| "int_obj_val (Truth b) = of_bool b"

datatype int_value = V_Int int | V_Bool bool | V_Pair int int | V_Divide int int | V_Power int int
  | V_Raise int_error | V_Null

fun result_value :: "int_result \<Rightarrow> int_value" where
  "result_value (Integer x) = V_Int (int_obj_val x)"
| "result_value (Boolean b) = V_Bool b"
| "result_value (Tuple x y) = V_Pair (int_obj_val x) (int_obj_val y)"
| "result_value (Float_Divide x y) = V_Divide (int_obj_val x) (int_obj_val y)"
| "result_value (Float_Power x y) = V_Power (int_obj_val x) (int_obj_val y)"
| "result_value (Raise e) = V_Raise e"
| "result_value Null = V_Null"

fun result_ok :: "int_result \<Rightarrow> bool" where
  "result_ok (Integer x) = int_obj_ok x"
| "result_ok (Tuple x y) \<longleftrightarrow> int_obj_ok x \<and> int_obj_ok y"
| "result_ok _ = True"

text \<open>A call returns a result of well-formed objects with the value \<open>v\<close>.\<close>

definition yields :: "int_result option \<Rightarrow> int_value \<Rightarrow> bool" where
  "yields r v \<longleftrightarrow> (\<exists>x. r = Some x \<and> result_ok x \<and> result_value x = v)"

text \<open>
  Python's operators on integers.  A shift count may be any integer that is not negative; the operators
  that the interpreter calls for a reverse method or for containment do not exist on integers.
\<close>

fun python_arith :: "arith_op \<Rightarrow> int \<Rightarrow> int \<Rightarrow> int_value" where
  "python_arith OP_OR a b = V_Int (a OR b)"
| "python_arith OP_XOR a b = V_Int (a XOR b)"
| "python_arith OP_AND a b = V_Int (a AND b)"
| "python_arith OP_LSHIFT a b =
     (if b < 0 then V_Raise ValueError else V_Int (a * 2 ^ nat b))"
| "python_arith OP_RSHIFT a b =
     (if b < 0 then V_Raise ValueError else V_Int (a div 2 ^ nat b))"
| "python_arith OP_ADD a b = V_Int (a + b)"
| "python_arith OP_SUBTRACT a b = V_Int (a - b)"
| "python_arith OP_MULTIPLY a b = V_Int (a * b)"
| "python_arith OP_MAT_MULTIPLY a b = V_Raise TypeError"
| "python_arith OP_FLOOR_DIVIDE a b = (if b = 0 then V_Raise ZeroDivisionError else V_Int (a div b))"
| "python_arith OP_TRUE_DIVIDE a b = (if b = 0 then V_Raise ZeroDivisionError else V_Divide a b)"
| "python_arith OP_MODULO a b = (if b = 0 then V_Raise ZeroDivisionError else V_Int (a mod b))"
| "python_arith OP_POWER a b = (if b < 0 then V_Power a b else V_Int (a ^ nat b))"

fun python_op :: "binary_operator \<Rightarrow> int \<Rightarrow> int \<Rightarrow> int_value" where
  "python_op (INPLACE x) a b = python_arith x a b"
| "python_op (BINARY x) a b = python_arith x a b"
| "python_op BINARY_DIVMOD a b =
     (if b = 0 then V_Raise ZeroDivisionError else V_Pair (a div b) (a mod b))"
| "python_op BINARY_LESS a b = V_Bool (a < b)"
| "python_op BINARY_MORE a b = V_Bool (a > b)"
| "python_op BINARY_LESS_EQUAL a b = V_Bool (a \<le> b)"
| "python_op BINARY_MORE_EQUAL a b = V_Bool (a \<ge> b)"
| "python_op BINARY_EQUAL a b = V_Bool (a = b)"
| "python_op BINARY_NOT_EQUAL a b = V_Bool (a \<noteq> b)"
| "python_op BINARY_IN a b = V_Raise TypeError"
| "python_op BINARY_CONTAINS a b = V_Raise TypeError"
| "python_op BINARY_EXCEPTION_MATCH a b = V_Raise TypeError"
| "python_op (REVERSE x) a b = V_Raise TypeError"

text \<open>The operators that the long integers do not have.\<close>

definition null_ops :: "binary_operator set" where
  "null_ops = {INPLACE OP_MAT_MULTIPLY, BINARY OP_MAT_MULTIPLY, BINARY_NOT_EQUAL, BINARY_IN, BINARY_CONTAINS,
     BINARY_EXCEPTION_MATCH} \<union> range REVERSE"

text \<open>The operators that \<open>mp_binary_op\<close> does not hand on to the types as they are.\<close>

definition handled_ops :: "binary_operator set" where
  "handled_ops = {BINARY_EQUAL, BINARY_NOT_EQUAL, BINARY_IN, BINARY_EXCEPTION_MATCH}"

section \<open>Objects\<close>

lemma yieldsI: "r = Some x \<Longrightarrow> result_ok x \<Longrightarrow> result_value x = v \<Longrightarrow> yields r v"
  by (auto simp: yields_def)

lemma gives_yields: "gives r v \<Longrightarrow> yields (map_option (Integer \<circ> Big) r) (V_Int v)"
  by (auto simp: gives_def yields_def)

lemma yields_Some [simp]: "yields (Some x) v \<longleftrightarrow> result_ok x \<and> result_value x = v"
  by (simp add: yields_def)

lemma from_ll_correct:
  assumes "- (2 ^ 63) \<le> v" "v < 2 ^ 63"
  shows "\<exists>z. mp_obj_new_int_from_ll v = Some (Big z) \<and> mpz_wf z \<and> mpz_val z = v"
  using mpz_set_from_ll_gives [of mpz_init_zero v True] assms mpz_wf_zero(3)
  by (auto simp: mp_obj_new_int_from_ll_def elim!: givesE)

lemma from_ull_correct:
  assumes "0 \<le> v" "v < 2 ^ 64"
  shows "\<exists>z. mp_obj_new_int_from_ull v = Some (Big z) \<and> mpz_wf z \<and> mpz_val z = v"
  using mpz_set_from_ll_gives [of mpz_init_zero v False] assms mpz_wf_zero(3)
  by (auto simp: mp_obj_new_int_from_ull_def elim!: givesE)

lemma new_int_correct:
  assumes "- (2 ^ 31) \<le> v" "v < 2 ^ 31"
  shows "\<exists>x. mp_obj_new_int v = Some x \<and> int_obj_ok x \<and> int_obj_val x = v"
  using from_ll_correct [of v] small_int_fits [OF assms] assms
  by (auto simp: mp_obj_new_int_def new_small_int_ok)

lemma operand_correct:
  assumes "- (2 ^ 31) \<le> v" "v < 2 ^ 31"
  shows "\<exists>z. mpz_init_fixed_from_int 2 v = Some z \<and> mpz_wf z \<and> mpz_val z = v"
proof -
  have eq: "mpz_init_fixed_from_int 2 v =
    map_option (\<lambda>z. z\<lparr>fixed_dig := True\<rparr>) (mpz_set_from_int \<lparr>neg = False, fixed_dig = False, alloc = 2, dig = []\<rparr> v)"
    by (simp add: mpz_init_fixed_from_int_def mpz_set_from_int_def mpz_need_dig_def Let_def)
  have "gives (mpz_set_from_int \<lparr>neg = False, fixed_dig = False, alloc = 2, dig = []\<rparr> v) v"
    using assms by (intro mpz_set_from_int_gives) auto
  then show ?thesis unfolding eq by (auto simp: mpz_wf_def mpz_val_def elim!: givesE)
qed

section \<open>Long integer operators\<close>

lemma divmod_exact:
  assumes "mpz_wf zlhs" "mpz_wf zrhs" "mpz_val zrhs \<noteq> 0"
  shows "\<exists>q r. mpz_divmod_inpl False mpz_init_zero mpz_init_zero zlhs zrhs = Some (q, r)
    \<and> mpz_wf q \<and> mpz_wf r \<and> mpz_val q = mpz_val zlhs div mpz_val zrhs \<and> mpz_val r = mpz_val zlhs mod mpz_val zrhs"
  using mpz_divmod_gives [OF mpz_wf_zero(3) mpz_wf_zero(3) assms, of False] by (auto simp: gives_def)

lemma get_checked_value:
  assumes "int_obj_ok x" "mp_obj_is_int x"
  shows "mp_obj_int_get_checked x = (if \<bar>int_obj_val x\<bar> < 2 ^ 31 then Some (int_obj_val x) else None)"
  using assms by (cases x) (auto simp: small_ok_def mpz_as_int_checked_correct)

lemma int_shift_yields:
  assumes "mpz_wf zlhs" "int_obj_ok rhs_in" "mp_obj_is_int rhs_in" "\<bar>int_obj_val rhs_in\<bar> < 2 ^ 31"
  shows "yields (int_shift left zlhs rhs_in)
    (python_arith (if left then OP_LSHIFT else OP_RSHIFT) (mpz_val zlhs) (int_obj_val rhs_in))"
proof -
  let ?v = "int_obj_val rhs_in"
  note count = get_checked_value [OF assms(2,3)] assms(4)
  show ?thesis
  proof (cases "?v < 0")
    case False
    then have "nat ?v < 2 ^ 32 - 15" using assms(4) by simp
    note shl = gives_yields [OF mpz_shl_gives [OF mpz_wf_zero(3) assms(1) this]]
    note shr = gives_yields [OF mpz_shr_gives [OF mpz_wf_zero(3) assms(1), of "nat ?v"]]
    show ?thesis using False shl shr count by (simp add: int_shift_def)
  qed (use count in \<open>simp add: int_shift_def\<close>)
qed

lemma int_shift_overflow:
  assumes "int_obj_ok rhs_in" "mp_obj_is_int rhs_in" "2 ^ 31 \<le> \<bar>int_obj_val rhs_in\<bar>"
  shows "int_shift left zlhs rhs_in = Some (Raise OverflowError)"
  using assms by (simp add: int_shift_def get_checked_value)

lemma int_arith_yields:
  assumes "mpz_wf zlhs" "mpz_wf zrhs" "int_obj_ok rhs_in" "mp_obj_is_int rhs_in" "int_obj_val rhs_in = mpz_val zrhs"
    and "a \<noteq> OP_MAT_MULTIPLY" "a = OP_POWER \<longrightarrow> mpz_val zlhs \<noteq> 0 \<or> mpz_val zrhs \<noteq> 0"
    and "a \<in> {OP_LSHIFT, OP_RSHIFT} \<longrightarrow> \<bar>mpz_val zrhs\<bar> < 2 ^ 31"
  shows "yields (int_arith a zlhs zrhs rhs_in) (python_arith a (mpz_val zlhs) (mpz_val zrhs))"
proof -
  note z = mpz_wf_val [OF assms(2)]
  note g = mpz_wf_zero(3) assms(1,2)
  note ring = mpz_add_gives [OF g] mpz_sub_gives [OF g] mpz_mul_gives [OF g]
    mpz_and_gives [OF g] mpz_or_gives [OF g] mpz_xor_gives [OF g]
  have shift: "yields (int_shift left zlhs rhs_in)
      (python_arith (if left then OP_LSHIFT else OP_RSHIFT) (mpz_val zlhs) (mpz_val zrhs))"
    if "a \<in> {OP_LSHIFT, OP_RSHIFT}" for left
  proof -
    have "\<bar>int_obj_val rhs_in\<bar> < 2 ^ 31" using assms(5,8) that by auto
    from int_shift_yields [OF assms(1,3,4) this, of left] show ?thesis by (simp only: assms(5))
  qed
  have pow: "yields (int_arith OP_POWER zlhs zrhs rhs_in) (python_arith OP_POWER (mpz_val zlhs) (mpz_val zrhs))"
    if "a = OP_POWER"
  proof (cases "mpz_val zrhs < 0")
    case True
    then show ?thesis using z(2) assms by simp
  next
    case False
    have "(if mpz_val zlhs = 0 \<or> mpz_val zrhs < 0 then 0 else mpz_val zlhs ^ nat (mpz_val zrhs))
      = mpz_val zlhs ^ nat (mpz_val zrhs)"
      using False assms(7) that by (auto simp: zero_power)
    with mpz_pow_gives [OF g] have "gives (mpz_pow_inpl mpz_init_zero zlhs zrhs) (mpz_val zlhs ^ nat (mpz_val zrhs))"
      by simp
    from gives_yields [OF this] show ?thesis using False z(2) by simp
  qed
  show ?thesis
  proof (cases a)
    case OP_FLOOR_DIVIDE
    then show ?thesis using z(3) divmod_exact [OF assms(1,2)] by (cases "mpz_val zrhs = 0") auto
  next
    case OP_MODULO
    then show ?thesis using z(3) divmod_exact [OF assms(1,2)] by (cases "mpz_val zrhs = 0") auto
  next
    case OP_TRUE_DIVIDE
    then show ?thesis using z(3) assms(1,2) by simp
  next
    case OP_POWER
    then show ?thesis using pow by simp
  next
    case OP_LSHIFT
    then show ?thesis using shift [of True] by simp
  next
    case OP_RSHIFT
    then show ?thesis using shift [of False] by simp
  qed (use assms(6) ring [THEN gives_yields] in simp_all)
qed

lemma int_long_op_yields:
  assumes "mpz_wf zlhs" "mpz_wf zrhs" "int_obj_ok rhs_in" "mp_obj_is_int rhs_in" "int_obj_val rhs_in = mpz_val zrhs"
    and "op \<notin> null_ops"
    and "op \<in> {INPLACE OP_POWER, BINARY OP_POWER} \<longrightarrow> mpz_val zlhs \<noteq> 0 \<or> mpz_val zrhs \<noteq> 0"
    and "op \<in> {INPLACE OP_LSHIFT, BINARY OP_LSHIFT, INPLACE OP_RSHIFT, BINARY OP_RSHIFT} \<longrightarrow> \<bar>mpz_val zrhs\<bar> < 2 ^ 31"
  shows "yields (int_long_op op zlhs zrhs rhs_in) (python_op op (mpz_val zlhs) (mpz_val zrhs))"
proof (cases op)
  case (INPLACE a)
  then show ?thesis using int_arith_yields [OF assms(1-5), of a] assms(6-8) by (auto simp: null_ops_def)
next
  case (BINARY a)
  then show ?thesis using int_arith_yields [OF assms(1-5), of a] assms(6-8) by (auto simp: null_ops_def)
next
  case BINARY_DIVMOD
  then show ?thesis using mpz_wf_val(3) [OF assms(2)] divmod_exact [OF assms(1,2)]
    by (cases "mpz_val zrhs = 0") auto
qed (use assms(6) mpz_cmp_correct [OF assms(1,2)] in \<open>auto simp: null_ops_def sgn_if split: if_splits\<close>)

lemma long_op_null:
  assumes "op \<in> null_ops"
  shows "int_long_op op zlhs zrhs rhs_in = Some Null"
  using assms by (auto simp: null_ops_def)

section \<open>Small operators\<close>

lemma small_ok_bits: "small_ok v \<longleftrightarrow> signed_take_bit 30 v = v"
  by (simp add: small_ok_def signed_take_bit_int_eq_self_iff)

lemma small_ok_bitwise:
  assumes "small_ok a" "small_ok b"
  shows "small_ok (a OR b)" "small_ok (a XOR b)" "small_ok (a AND b)"
  using assms unfolding small_ok_bits
  by (simp_all add: bit_eq_iff bit_signed_take_bit_iff bit_or_iff bit_xor_iff bit_and_iff)

lemma small_ok_range: "small_ok v \<Longrightarrow> - (2 ^ 31) \<le> v \<and> v < 2 ^ 31"
  by (auto simp: small_ok_def)

lemma small_shl:
  assumes "0 \<le> b" "b < 32" "a \<le> MP_SMALL_INT_MAX div 2 ^ nat b" "MP_SMALL_INT_MIN div 2 ^ nat b \<le> a"
  shows "- (2 ^ 31) \<le> a * 2 ^ nat b \<and> a * 2 ^ nat b < 2 ^ 31"
proof -
  have p: "(0::int) < 2 ^ nat b" by simp
  have up: "a * 2 ^ nat b \<le> MP_SMALL_INT_MAX" using le_div_iff_mult [OF p] assms(3) by simp
  show ?thesis
  proof (cases "b = 31")
    case True
    then show ?thesis using assms(4) up by (simp add: small_int_limits)
  next
    case False
    then have "nat b \<le> 30" using assms(2) by simp
    then have "(2::int) ^ nat b dvd 2 ^ 30" by (rule le_imp_power_dvd)
    then have "(2::int) ^ nat b dvd - (2 ^ 30)" by (simp only: dvd_minus_iff)
    then have "(2::int) ^ nat b dvd MP_SMALL_INT_MIN" by (simp only: small_int_limits) simp
    then have "MP_SMALL_INT_MIN = MP_SMALL_INT_MIN div 2 ^ nat b * 2 ^ nat b" by simp
    also have "\<dots> \<le> a * 2 ^ nat b" using assms(4) by (intro mult_right_mono) auto
    finally show ?thesis using up by (simp add: small_int_limits)
  qed
qed

lemma small_shr:
  assumes "small_ok a" "31 \<le> b"
  shows "a div 2 ^ b = a div 2 ^ 31"
proof -
  have q: "a div 2 ^ k = (if a < 0 then - 1 else 0)" if "31 \<le> k" for k
  proof -
    have "(2::int) ^ 31 \<le> 2 ^ k" using that by (intro power_increasing) auto
    then show ?thesis using assms(1) unfolding small_ok_def
      by (auto simp: div_pos_pos_trivial intro!: int_div_pos_eq [where r = "a + 2 ^ k"])
  qed
  show ?thesis using q [OF assms(2)] q [of 31] by simp
qed

text \<open>What the small integer case has to deliver for the value \<open>v\<close> of the operator.\<close>

fun small_result_ok :: "small_result \<Rightarrow> int_value \<Rightarrow> bool" where
  "small_result_ok (Checked x) v \<longleftrightarrow> v = V_Int x \<and> - (2 ^ 31) \<le> x \<and> x < 2 ^ 31"
| "small_result_ok (Returned r) v \<longleftrightarrow> result_ok r \<and> result_value r = v"
| "small_result_ok Generic_Binary_Op v \<longleftrightarrow> True"

lemma within_word: "\<bar>q\<bar> \<le> 2 ^ 30 \<Longrightarrow> - (2 ^ 31) \<le> q \<and> q < (2 :: int) ^ 31"
  by auto

lemma small_arith_correct:
  assumes "small_ok a" "small_ok b"
  shows "small_result_ok (small_arith x a b) (python_arith x a b)"
proof -
  have ab: "\<bar>a\<bar> \<le> 2 ^ 30" "\<bar>b\<bar> \<le> 2 ^ 30" "\<bar>b\<bar> < 2 ^ 31" using assms by (auto simp: small_ok_def)
  show ?thesis
  proof (cases x)
    case OP_LSHIFT
    show ?thesis
    proof (cases "b < 0 \<or> b \<ge> 32 \<or> a > MP_SMALL_INT_MAX div 2 ^ nat b \<or> a < MP_SMALL_INT_MIN div 2 ^ nat b")
      case False
      then have r: "- (2 ^ 31) \<le> a * 2 ^ nat b \<and> a * 2 ^ nat b < 2 ^ 31" by (intro small_shl) auto
      then have "s32 (a * 2 ^ nat b) = a * 2 ^ nat b" by (intro s32_id) auto
      then show ?thesis using OP_LSHIFT False r ab(3) by simp
    qed (use OP_LSHIFT ab(3) in auto)
  next
    case OP_RSHIFT
    have "\<bar>a div 2 ^ k\<bar> \<le> 2 ^ 30" for k by (rule div_within [OF ab(1)]) simp
    then have r: "- (2 ^ 31) \<le> a div 2 ^ k \<and> a div 2 ^ k < 2 ^ 31" for k
      by (rule within_word)
    have "a div 2 ^ nat b = a div 2 ^ 31" if "32 \<le> b" using small_shr [OF assms(1), of "nat b"] that by simp
    then show ?thesis using OP_RSHIFT ab(3) r [of "nat b"] r [of 31] by (auto simp: Let_def)
  next
    case OP_ADD
    have r: "- (2 ^ 31) \<le> a + b \<and> a + b < 2 ^ 31" using assms by (auto simp: small_ok_def)
    then have "s32 (a + b) = a + b" by (intro s32_id) auto
    with OP_ADD r show ?thesis by simp
  next
    case OP_SUBTRACT
    have r: "- (2 ^ 31) \<le> a - b \<and> a - b < 2 ^ 31" using assms by (auto simp: small_ok_def)
    then have "s32 (a - b) = a - b" by (intro s32_id) auto
    with OP_SUBTRACT r show ?thesis by simp
  next
    case OP_MULTIPLY
    then show ?thesis by (simp add: mp_small_int_mul_overflow_iff small_product_bound new_small_int_ok)
  next
    case OP_FLOOR_DIVIDE
    then show ?thesis using mp_small_int_floor_divide_correct [OF assms] div_within [OF ab(1), of b] by auto
  next
    case OP_MODULO
    then show ?thesis using mp_small_int_modulo_correct [OF assms(2)] abs_mod_less [of b a] ab(2) by auto
  next
    case OP_POWER
    have "small_ok 1" by (simp add: small_ok_def)
    then show ?thesis using OP_POWER assms small_power_loop_correct [of 1 a b] small_ok_range
      by (auto split: option.split)
  qed (use assms small_ok_bitwise [OF assms] small_ok_range in auto)
qed

section \<open>The operator on all integers\<close>

fun is_long :: "int_obj \<Rightarrow> bool" where
  "is_long (Big z) = True"
| "is_long _ = False"

text \<open>
  Where the code does not give Python's result: \<open>divmod\<close> of the smallest small integer by \<open>-1\<close>, whose
  quotient is made a small integer without a test that it fits; the zeroth power of zero when one of
  the operands is a long integer; and a shift count that is not a machine integer, for which the code
  raises \<open>OverflowError\<close> where Python shifts, or raises \<open>ValueError\<close> when it is negative.
\<close>

definition long_zero_power :: "int_obj \<Rightarrow> int_obj \<Rightarrow> bool" where
  "long_zero_power lhs rhs \<longleftrightarrow> (is_long lhs \<or> is_long rhs) \<and> int_obj_val lhs = 0 \<and> int_obj_val rhs = 0"

fun arith_deviates :: "arith_op \<Rightarrow> int_obj \<Rightarrow> int_obj \<Rightarrow> bool" where
  "arith_deviates OP_POWER lhs rhs \<longleftrightarrow> long_zero_power lhs rhs"
| "arith_deviates OP_LSHIFT lhs rhs \<longleftrightarrow> 2 ^ 31 \<le> \<bar>int_obj_val rhs\<bar>"
| "arith_deviates OP_RSHIFT lhs rhs \<longleftrightarrow> 2 ^ 31 \<le> \<bar>int_obj_val rhs\<bar>"
| "arith_deviates _ lhs rhs \<longleftrightarrow> False"

fun deviates :: "binary_operator \<Rightarrow> int_obj \<Rightarrow> int_obj \<Rightarrow> bool" where
  "deviates BINARY_DIVMOD lhs rhs \<longleftrightarrow> lhs = Small (- (2 ^ 30)) \<and> rhs = Small (- 1)"
| "deviates (INPLACE a) lhs rhs \<longleftrightarrow> arith_deviates a lhs rhs"
| "deviates (BINARY a) lhs rhs \<longleftrightarrow> arith_deviates a lhs rhs"
| "deviates _ lhs rhs \<longleftrightarrow> False"

lemma int_binary_op_operands:
  assumes "int_obj_ok lhs" "int_obj_ok rhs" "mp_obj_is_int lhs" "mp_obj_is_int rhs" "is_long lhs \<or> is_long rhs"
  shows "\<exists>zlhs zrhs. mp_obj_int_binary_op again op lhs rhs = int_long_op op zlhs zrhs rhs
    \<and> mpz_wf zlhs \<and> mpz_wf zrhs \<and> mpz_val zlhs = int_obj_val lhs \<and> mpz_val zrhs = int_obj_val rhs"
proof -
  have small: "\<exists>z. mpz_init_fixed_from_int 2 a = Some z \<and> mpz_wf z \<and> mpz_val z = a" if "small_ok a" for a
    using operand_correct small_ok_range that by blast
  show ?thesis using assms by (cases lhs; cases rhs; (force dest!: small)?)
qed

lemma type_op_int: "mp_obj_is_int lhs \<Longrightarrow> type_binary_op again op lhs rhs = mp_obj_int_binary_op again op lhs rhs"
  by (cases lhs) auto

lemma python_op_not_null: "python_op op a b \<noteq> V_Null"
proof -
  have "python_arith y a b \<noteq> V_Null" for y by (cases y) auto
  then show ?thesis by (cases op) auto
qed

lemma generic_result:
  assumes "yields (type_binary_op again op lhs rhs) v" "v \<noteq> V_Null"
  shows "yields (generic_binary_op again op lhs rhs) v"
  using assms by (subst generic_binary_op.simps) (auto simp: yields_def)

lemma generic_binary_op_yields:
  assumes "int_obj_ok lhs" "int_obj_ok rhs" "mp_obj_is_int lhs" "mp_obj_is_int rhs" "is_long lhs \<or> is_long rhs"
    and "op \<notin> handled_ops" "\<not> deviates op lhs rhs"
  shows "yields (generic_binary_op again op lhs rhs) (python_op op (int_obj_val lhs) (int_obj_val rhs))"
proof (cases "op \<in> null_ops")
  case True
  have null: "type_binary_op again op' lhs rhs = Some Null" "type_binary_op again op' rhs lhs = Some Null"
    if "op' \<in> null_ops" for op'
    using int_binary_op_operands [of lhs rhs again op'] int_binary_op_operands [of rhs lhs again op']
      long_op_null [OF that] assms by (auto simp: type_op_int)
  have rev: "generic_binary_op again (REVERSE x) rhs lhs = Some (Raise TypeError)"
    "generic_binary_op again (REVERSE x) lhs rhs = Some (Raise TypeError)"
    "generic_binary_op again BINARY_CONTAINS lhs rhs = Some (Raise TypeError)" for x
    by (subst generic_binary_op.simps; simp add: null null_ops_def)+
  have norm: "generic_binary_op again (BINARY OP_MAT_MULTIPLY) lhs rhs = Some (Raise TypeError)"
    by (subst generic_binary_op.simps) (simp add: null null_ops_def rev)
  have "generic_binary_op again (INPLACE OP_MAT_MULTIPLY) lhs rhs = Some (Raise TypeError)"
    by (subst generic_binary_op.simps) (simp add: null null_ops_def norm)
  then show ?thesis using True assms(6) rev norm by (auto simp: null_ops_def handled_ops_def)
next
  case False
  obtain zl zr where z: "mp_obj_int_binary_op again op lhs rhs = int_long_op op zl zr rhs" "mpz_wf zl" "mpz_wf zr"
    "mpz_val zl = int_obj_val lhs" "mpz_val zr = int_obj_val rhs"
    using int_binary_op_operands [OF assms(1-5), of again op] by blast
  have pow: "op \<in> {INPLACE OP_POWER, BINARY OP_POWER} \<longrightarrow> mpz_val zl \<noteq> 0 \<or> mpz_val zr \<noteq> 0"
    using assms(5,7) z(4,5) by (auto simp: long_zero_power_def)
  have count: "op \<in> {INPLACE OP_LSHIFT, BINARY OP_LSHIFT, INPLACE OP_RSHIFT, BINARY OP_RSHIFT} \<longrightarrow> \<bar>mpz_val zr\<bar> < 2 ^ 31"
    using assms(7) z(5) by auto
  have "yields (int_long_op op zl zr rhs) (python_op op (mpz_val zl) (mpz_val zr))"
    using int_long_op_yields [OF z(2,3) assms(2,4) z(5) [symmetric] False pow count] .
  then obtain x where x: "type_binary_op again op lhs rhs = Some x" "result_ok x"
    "result_value x = python_op op (int_obj_val lhs) (int_obj_val rhs)"
    using z(1,4,5) type_op_int [OF assms(3)] by (auto simp: yields_def)
  have "yields (type_binary_op again op lhs rhs) (python_op op (int_obj_val lhs) (int_obj_val rhs))"
    using x by simp
  then show ?thesis by (rule generic_result) (rule python_op_not_null)
qed

lemma small_long_zero: "\<not> long_zero_power (Big z) (Small b) \<longleftrightarrow> mpz_val z \<noteq> 0 \<or> b \<noteq> 0"
  by (auto simp: long_zero_power_def)

lemma small_arith_generic: "small_arith OP_POWER a b = Generic_Binary_Op \<Longrightarrow> b \<noteq> 0"
  by (auto simp: small_power_loop.simps [of 1 a 0])

lemma divmod_small:
  assumes "small_ok a" "small_ok b" "b \<noteq> 0" "a \<noteq> - (2 ^ 30) \<or> b \<noteq> - 1"
  shows "small_ok (a div b)" "small_ok (a mod b)"
proof -
  have "\<bar>a\<bar> \<le> 2 ^ 30" "\<bar>b\<bar> \<le> 2 ^ 30" using assms by (auto simp: small_ok_def)
  then show "small_ok (a mod b)" using abs_mod_less [OF assms(3), of a] by (auto simp: small_ok_def)
  have lo: "- (2 ^ 30) \<le> a div b" using div_within [OF \<open>\<bar>a\<bar> \<le> 2 ^ 30\<close> assms(3)] by auto
  have hi: "a div b < 2 ^ 30"
  proof (cases "b > 0")
    case True
    then have "a < 2 ^ 30 * b" using assms(1) by (auto simp: small_ok_def)
    then show ?thesis using le_div_iff_mult [OF True, of "2 ^ 30" a] by simp
  next
    case False
    then have p: "0 < - b" using assms(3) by simp
    have "- a < 2 ^ 30 * (- b)" using assms(1,4) p by (auto simp: small_ok_def)
    then have "(- a) div (- b) < 2 ^ 30" using le_div_iff_mult [OF p, of "2 ^ 30" "- a"] by simp
    then show ?thesis by simp
  qed
  show "small_ok (a div b)" using lo hi by (simp add: small_ok_def)
qed

lemma mp_binary_op_small_yields:
  assumes "small_ok a" "small_ok b" "op \<notin> {BINARY_EQUAL, BINARY_NOT_EQUAL}" "\<not> deviates op (Small a) (Small b)"
  shows "yields (mp_binary_op_small again op a b) (python_op op a b)"
proof -
  obtain z where z: "mp_obj_new_int_from_ll a = Some (Big z)" "mpz_wf z" "mpz_val z = a"
    using from_ll_correct [of a] small_ok_range [OF assms(1)] by auto
  have checked: "small_result_ok (small_binary_op op a b) (python_op op a b)"
    using small_arith_correct [OF assms(1,2)] assms
    by (cases op) (auto simp: new_small_int_ok divmod_small mp_small_int_floor_divide_correct mp_small_int_modulo_correct)
  show ?thesis
  proof (cases "small_binary_op op a b")
    case (Checked x)
    with checked have x: "python_op op a b = V_Int x" "- (2 ^ 31) \<le> x" "x < 2 ^ 31" by auto
    then show ?thesis using Checked from_ll_correct [of x] small_int_fits [OF x(2,3)]
      by (auto simp: new_small_int_ok)
  next
    case (Returned r)
    then show ?thesis using checked by auto
  next
    case Generic_Binary_Op
    then obtain x where x: "op = INPLACE x \<or> op = BINARY x" "small_arith x a b = Generic_Binary_Op"
      by (cases op) (auto split: if_splits)
    have "\<not> arith_deviates x (Big z) (Small b)"
      using small_arith_generic [of a b] x(2) small_ok_range [OF assms(2)] assms(4) x(1)
      by (cases x) (auto simp: small_long_zero)
    then have "\<not> deviates op (Big z) (Small b)" "op \<notin> handled_ops" using x(1) by (auto simp: handled_ops_def)
    then show ?thesis
      using generic_binary_op_yields [of "Big z" "Small b" op again] z assms Generic_Binary_Op by simp
  qed
qed

lemma of_bool_small: "new_small_int (of_bool b) = Small (of_bool b)" "small_ok (of_bool b)"
proof -
  show "small_ok (of_bool b)" by (simp add: small_ok_def)
  then show "new_small_int (of_bool b) = Small (of_bool b)" by (rule new_small_int_ok)
qed

lemma arith_deviates_truth:
  "arith_deviates x lhs (Truth b) = arith_deviates x lhs (Small (of_bool b))"
  "arith_deviates x (Truth b) rhs = arith_deviates x (Small (of_bool b)) rhs"
  by (cases x; simp add: long_zero_power_def)+

lemma deviates_truth:
  "deviates op lhs (Truth b) = deviates op lhs (Small (of_bool b))"
  "deviates op (Truth b) rhs = deviates op (Small (of_bool b)) rhs"
  by (cases op; cases b; simp add: arith_deviates_truth)+

text \<open>Equality, for each of the levels at which a boolean may call the operator again.\<close>

lemma long_equal:
  assumes "int_obj_ok lhs" "int_obj_ok rhs" "mp_obj_is_int lhs" "mp_obj_is_int rhs" "is_long lhs \<or> is_long rhs"
  shows "type_binary_op again BINARY_EQUAL lhs rhs = Some (Boolean (int_obj_val lhs = int_obj_val rhs))"
proof -
  obtain zl zr where z: "mp_obj_int_binary_op again BINARY_EQUAL lhs rhs = int_long_op BINARY_EQUAL zl zr rhs"
    "mpz_wf zl" "mpz_wf zr" "mpz_val zl = int_obj_val lhs" "mpz_val zr = int_obj_val rhs"
    using int_binary_op_operands [OF assms] by blast
  then have "mpz_cmp zl zr = 0 \<longleftrightarrow> int_obj_val lhs = int_obj_val rhs"
    using mpz_cmp_correct [OF z(2,3)] by (auto simp: sgn_if split: if_splits)
  then show ?thesis using z(1) type_op_int [OF assms(3)] by simp
qed

abbreviation equality_of :: "binary_operator \<Rightarrow> int_obj \<Rightarrow> int_obj \<Rightarrow> int_result option" where
  "equality_of op lhs rhs \<equiv> Some (local_equal op (int_obj_val lhs = int_obj_val rhs))"

lemma equal_int_int:
  assumes "int_obj_ok lhs" "int_obj_ok rhs" "mp_obj_is_int lhs" "mp_obj_is_int rhs"
  shows "int_equal_not_equal again op lhs rhs = equality_of op lhs rhs"
  using long_equal [of lhs rhs again] long_equal [of rhs lhs again] assms
  by (cases lhs; cases rhs) (auto simp: int_equal_not_equal_def numeral_2_eq_2 intro: arg_cong [where f = "local_equal op"])

lemma equal_depth:
  "int_equal_not_equal (mp_binary_op_depth d) op lhs rhs = equality_of op lhs rhs \<Longrightarrow> op \<in> {BINARY_EQUAL, BINARY_NOT_EQUAL} \<Longrightarrow>
   mp_binary_op_depth (Suc d) op lhs rhs = equality_of op lhs rhs"
  by auto

lemma equal_truth:
  assumes "int_obj_ok x" "mp_binary_op_depth d BINARY_EQUAL (Small (of_bool b)) x = equality_of BINARY_EQUAL (Small (of_bool b)) x"
  shows "int_equal_not_equal (mp_binary_op_depth d) op (Truth b) x = equality_of op (Truth b) x"
    "mp_obj_is_int x \<Longrightarrow> int_equal_not_equal (mp_binary_op_depth d) op x (Truth b) = equality_of op x (Truth b)"
  using assms of_bool_small(1) [of b]
  by (cases x; auto simp: int_equal_not_equal_def local_equal_def numeral_2_eq_2 split: if_splits)+

lemma equality_yields:
  "op \<in> {BINARY_EQUAL, BINARY_NOT_EQUAL} \<Longrightarrow> yields (equality_of op lhs rhs) (python_op op (int_obj_val lhs) (int_obj_val rhs))"
  by (auto simp: local_equal_def)

lemma equal_one_truth:
  assumes "int_obj_ok x" "mp_obj_is_int x" "op \<in> {BINARY_EQUAL, BINARY_NOT_EQUAL}"
  shows "mp_binary_op_depth (Suc (Suc d)) op (Truth b) x = equality_of op (Truth b) x"
    "mp_binary_op_depth (Suc (Suc d)) op x (Truth b) = equality_of op x (Truth b)"
proof -
  have "mp_binary_op_depth (Suc d) BINARY_EQUAL (Small (of_bool b)) x = equality_of BINARY_EQUAL (Small (of_bool b)) x"
    using equal_int_int [of "Small (of_bool b)" x] assms of_bool_small(2) [of b] by (intro equal_depth) auto
  from equal_truth [OF assms(1) this] assms(2,3) show
    "mp_binary_op_depth (Suc (Suc d)) op (Truth b) x = equality_of op (Truth b) x"
    "mp_binary_op_depth (Suc (Suc d)) op x (Truth b) = equality_of op x (Truth b)"
    by (blast intro: equal_depth)+
qed

lemma mp_binary_op_equal:
  assumes "int_obj_ok lhs" "int_obj_ok rhs" "op \<in> {BINARY_EQUAL, BINARY_NOT_EQUAL}"
  shows "mp_binary_op op lhs rhs = equality_of op lhs rhs"
proof -
  have both: "mp_binary_op_depth (Suc (Suc (Suc d))) op (Truth b) (Truth c) = equality_of op (Truth b) (Truth c)" for b c d
    using equal_truth(1) [of "Truth c" "Suc (Suc d)" b op] equal_one_truth(2) [of "Small (of_bool b)" BINARY_EQUAL d c]
      assms(3) of_bool_small(2) [of b] by (intro equal_depth) auto
  have "mp_binary_op_depth (Suc (Suc (Suc 0))) op lhs rhs = equality_of op lhs rhs"
    using assms equal_depth [OF equal_int_int [of lhs rhs], of op] equal_one_truth [of lhs op 1] equal_one_truth [of rhs op 1] both
    by (cases "mp_obj_is_int lhs"; cases "mp_obj_is_int rhs"; (cases lhs)?; (cases rhs)?) (simp_all del: mp_binary_op_depth.simps)
  then show ?thesis by (simp only: mp_binary_op_def numeral_3_eq_3)
qed

text \<open>The other operators, level by level.\<close>

lemma depth_in: "mp_binary_op_depth d BINARY_IN lhs rhs = mp_binary_op_depth d BINARY_CONTAINS rhs lhs"
  by (cases d; cases lhs; cases rhs) auto

lemma depth_generic:
  assumes "op \<notin> handled_ops" "\<not> (\<exists>v w. lhs = Small v \<and> rhs = Small w)"
  shows "mp_binary_op_depth (Suc d) op lhs rhs = generic_binary_op (mp_binary_op_depth d) op lhs rhs"
  using assms by (cases lhs; cases rhs) (auto simp: handled_ops_def)

lemma depth_int_int:
  assumes "int_obj_ok lhs" "int_obj_ok rhs" "\<not> deviates op lhs rhs" "mp_obj_is_int lhs" "mp_obj_is_int rhs"
    and "op \<notin> handled_ops"
  shows "yields (mp_binary_op_depth (Suc d) op lhs rhs) (python_op op (int_obj_val lhs) (int_obj_val rhs))"
proof (cases "is_long lhs \<or> is_long rhs")
  case True
  then show ?thesis using generic_binary_op_yields [OF assms(1,2,4,5) True assms(6,3)] assms(6)
    by (subst depth_generic) auto
next
  case False
  then obtain a b where ab: "lhs = Small a" "rhs = Small b" using assms(4,5) by (cases lhs; cases rhs) auto
  have op: "op \<notin> {BINARY_EQUAL, BINARY_NOT_EQUAL}" "op \<noteq> BINARY_EXCEPTION_MATCH" using assms(6) by (auto simp: handled_ops_def)
  show ?thesis
    using mp_binary_op_small_yields [of a b op "mp_binary_op_depth d"] assms(1-3) op
    unfolding ab by (simp del: mp_binary_op_small.simps)
qed

lemma depth_int_any:
  assumes "int_obj_ok lhs" "int_obj_ok rhs" "\<not> deviates op lhs rhs" "mp_obj_is_int lhs" "op \<notin> handled_ops"
  shows "yields (mp_binary_op_depth (Suc (Suc d)) op lhs rhs) (python_op op (int_obj_val lhs) (int_obj_val rhs))"
proof (cases rhs)
  case (Truth b)
  let ?again = "mp_binary_op_depth (Suc d)"
  have dv: "\<not> deviates op lhs (Small (of_bool b))" using assms(3) deviates_truth(1) Truth by simp
  have "yields (?again op lhs (Small (of_bool b))) (python_op op (int_obj_val lhs) (int_obj_val (Small (of_bool b))))"
    by (rule depth_int_int [OF assms(1) _ dv assms(4) _ assms(5)])
      (simp_all only: int_obj_ok.simps of_bool_small mp_obj_is_int.simps)
  moreover have "type_binary_op ?again op lhs rhs = ?again op lhs (Small (of_bool b))"
    using assms(4) of_bool_small(1) [of b] unfolding Truth by (cases lhs) (auto simp: of_bool_def)
  ultimately have "yields (generic_binary_op ?again op lhs rhs) (python_op op (int_obj_val lhs) (of_bool b))"
    by (intro generic_result python_op_not_null) simp
  then show ?thesis using depth_generic [OF assms(5), of lhs rhs "Suc d"] Truth by simp
qed (use depth_int_int [OF assms(1-4) _ assms(5), of "Suc d"] in simp_all)

lemma depth_any_any:
  assumes "int_obj_ok lhs" "int_obj_ok rhs" "\<not> deviates op lhs rhs" "op \<notin> handled_ops"
  shows "yields (mp_binary_op op lhs rhs) (python_op op (int_obj_val lhs) (int_obj_val rhs))"
proof (cases lhs)
  case (Truth b)
  let ?again = "mp_binary_op_depth 2"
  have dv: "\<not> deviates op (Small (of_bool b)) rhs" using assms(3) deviates_truth(2) Truth by simp
  have "yields (?again op (Small (of_bool b)) rhs) (python_op op (int_obj_val (Small (of_bool b))) (int_obj_val rhs))"
    unfolding numeral_2_eq_2
    by (rule depth_int_any [OF _ assms(2) dv _ assms(4)]) (simp_all only: int_obj_ok.simps of_bool_small mp_obj_is_int.simps)
  moreover have "type_binary_op ?again op lhs rhs = ?again op (Small (of_bool b)) rhs"
    unfolding Truth by (simp add: of_bool_small)
  ultimately have "yields (generic_binary_op ?again op lhs rhs) (python_op op (of_bool b) (int_obj_val rhs))"
    by (intro generic_result python_op_not_null) simp
  then show ?thesis using depth_generic [OF assms(4), of lhs rhs 2] Truth
    by (simp add: mp_binary_op_def numeral_3_eq_3 numeral_2_eq_2)
qed (use depth_int_any [OF assms(1-3) _ assms(4), of 1] in
    \<open>simp_all add: mp_binary_op_def numeral_3_eq_3 del: mp_binary_op_depth.simps\<close>)

lemma mp_binary_op_yields:
  assumes "int_obj_ok lhs" "int_obj_ok rhs" "\<not> deviates op lhs rhs"
  shows "yields (mp_binary_op op lhs rhs) (python_op op (int_obj_val lhs) (int_obj_val rhs))"
proof -
  consider "op \<in> {BINARY_EQUAL, BINARY_NOT_EQUAL}" | "op = BINARY_EXCEPTION_MATCH" | "op = BINARY_IN" | "op \<notin> handled_ops"
    by (auto simp: handled_ops_def)
  then show ?thesis
  proof cases
    case 1
    then show ?thesis using mp_binary_op_equal [OF assms(1,2)] equality_yields by metis
  next
    case 2
    then show ?thesis by (simp add: mp_binary_op_def numeral_3_eq_3)
  next
    case 3
    have "BINARY_CONTAINS \<notin> handled_ops" by (simp add: handled_ops_def)
    from depth_any_any [OF assms(2,1) _ this] show ?thesis by (simp add: 3 mp_binary_op_def depth_in)
  next
    case 4
    then show ?thesis by (rule depth_any_any [OF assms])
  qed
qed

end
