(* ===== verification/IntConv.thy ===== *)
theory IntConv
  imports IntLaws
begin

text \<open>
  The ways into and out of the integer objects in \<^verbatim>\<open>py/objint.c\<close>: the conversion of a double, the
  decimal and other formats of a small integer (a long one is left to \<open>mpz_as_str_inpl\<close>), and the
  methods \<open>from_bytes\<close> and \<open>to_bytes\<close>, with \<open>mp_binary_set_int\<close> of \<^verbatim>\<open>py/binary.c\<close>.  The target is a
  big-endian machine with 32-bit words.
\<close>

section \<open>Doubles\<close>

text \<open>The two words of a double with sign \<open>sg\<close>, biased exponent \<open>ex\<close> and fraction \<open>fr\<close>, the high one first.\<close>

definition float_high :: "bool \<Rightarrow> nat \<Rightarrow> nat \<Rightarrow> 32 word" where
  "float_high sg ex fr = of_nat (of_bool sg * 2 ^ 31 + ex * 2 ^ 20 + fr div 2 ^ 32)"

definition float_low :: "nat \<Rightarrow> 32 word" where
  "float_low fr = of_nat (fr mod 2 ^ 32)"

datatype mp_fp_as_int_class_t = MP_FP_CLASS_FIT_SMALLINT | MP_FP_CLASS_FIT_LONGINT

definition mp_classify_fp_as_int :: "32 word \<Rightarrow> 32 word \<Rightarrow> mp_fp_as_int_class_t" where
  "mp_classify_fp_as_int high low =
     (let e = high;
          e = (if e AND push_bit 31 1 \<noteq> 0
               then let e = e OR of_bool (low \<noteq> 0)
                    in if e AND NOT (push_bit 31 1) = 0 then 0
                       else e + push_bit 20 (push_bit 11 1 - 1)
               else e AND NOT (push_bit 20 1 - 1))
      in if e \<le> push_bit 20 (8 * 4 + 1023 - 3) then MP_FP_CLASS_FIT_SMALLINT
         else MP_FP_CLASS_FIT_LONGINT)"

text \<open>\<open>float_trunc\<close> is the magnitude of the C conversion \<^verbatim>\<open>(mp_int_t)val\<close>.\<close>

definition mp_obj_new_int_from_float :: "bool \<Rightarrow> nat \<Rightarrow> nat \<Rightarrow> int_result option" where
  "mp_obj_new_int_from_float sg ex fr =
     (if ex = 2 ^ 11 - 1 then
        (if fr = 0 then Some (Raise OverflowError) else Some (Raise ValueError))
      else case mp_classify_fp_as_int (float_high sg ex fr) (float_low fr) of
             MP_FP_CLASS_FIT_SMALLINT \<Rightarrow>
               Some (Integer (new_small_int
                 (if sg then - int (float_trunc ex fr) else int (float_trunc ex fr))))
           | MP_FP_CLASS_FIT_LONGINT \<Rightarrow>
               map_option (Integer \<circ> Big) (mpz_set_from_float mpz_init_zero sg ex fr))"

section \<open>Formats of a small integer\<close>

text \<open>
  The loop fills the buffer from its end: \<open>s\<close> are the characters from \<open>b\<close> on, the terminating zero not
  counted, \<open>room\<close> is the number of characters that fit, so \<^verbatim>\<open>b > str\<close> is \<open>length s < room\<close>, and
  \<open>last_comma\<close> is the number of characters from the last separator on.
\<close>

lemma quotient_shrinks: "0 < num div base \<Longrightarrow> \<not> base < 2 \<Longrightarrow> num div base < (num :: nat)"
  by (cases "num = 0") auto

function small_format_loop ::
  "nat \<Rightarrow> nat \<Rightarrow> nat \<Rightarrow> nat \<Rightarrow> nat \<Rightarrow> nat list \<Rightarrow> nat \<Rightarrow> nat list option" where
  "small_format_loop base base_char comma room num s last_comma =
     (if base < 2 then None
      else let c = num mod base;
               num = num div base;
               c = (if c \<ge> 10 then c + (base_char - 10) else c + 48);
               s = c # s;
               sep = (comma \<noteq> 0 \<and> num \<noteq> 0 \<and> length s < room \<and> length s - last_comma = 3);
               s = (if sep then comma # s else s);
               last_comma = (if sep then length s else last_comma)
           in if length s < room \<and> num \<noteq> 0
              then small_format_loop base base_char comma room num s last_comma
              else Some s)"
  by pat_completeness auto

termination small_format_loop
  by (relation "measure (\<lambda>(base, base_char, comma, room, num, s, last_comma). num)")
    (auto intro: quotient_shrinks)

declare small_format_loop.simps [simp del]

definition small_int_formatted :: "int \<Rightarrow> nat \<Rightarrow> nat list option \<Rightarrow> nat \<Rightarrow> nat \<Rightarrow> nat list option" where
  "small_int_formatted num base prefix base_char comma =
     (let sign = (num < 0);
          num = (if num < 0 then s32 (- num) else num)
      in do {
        needed_size \<leftarrow> mp_int_format_size (4 * 8) base prefix comma;
        let room = needed_size - 1;
        s \<leftarrow> (if num = 0 then Some [48]
              else small_format_loop base base_char comma room (nat num) [] 0);
        let s = (case prefix of None \<Rightarrow> s
                 | Some p \<Rightarrow> if length p + length s < room then p @ s else s);
        Some (if sign \<and> length s < room then 45 # s else s) })"

fun mp_obj_int_formatted ::
  "int_obj \<Rightarrow> nat \<Rightarrow> nat list option \<Rightarrow> nat \<Rightarrow> nat \<Rightarrow> nat list option" where
  "mp_obj_int_formatted (Small v) base prefix base_char comma = small_int_formatted v base prefix base_char comma"
| "mp_obj_int_formatted (Big z) base prefix base_char comma = mpz_as_str_inpl z base prefix base_char comma"
| "mp_obj_int_formatted (Truth b) base prefix base_char comma = None"

section \<open>Bytes\<close>

text \<open>The loop of \<open>from_bytes\<close>; \<open>None\<close> is the return with a long integer.\<close>

fun from_bytes_loop :: "nat \<Rightarrow> nat list \<Rightarrow> nat option" where
  "from_bytes_loop val [] = Some val"
| "from_bytes_loop val (b # bs) =
     (if int val > MP_SMALL_INT_MAX div 2 ^ 8 then None
      else from_bytes_loop (u32 (val * 2 ^ 8) OR b) bs)"

definition int_from_bytes :: "bool \<Rightarrow> nat list \<Rightarrow> int_obj option" where
  "int_from_bytes little buf =
     (case from_bytes_loop 0 (if little then rev buf else buf) of
        None \<Rightarrow> map_option Big (mpz_set_from_bytes mpz_init_zero (\<not> little) buf)
      | Some val \<Rightarrow> mp_obj_new_int_from_uint (of_nat val))"

text \<open>The bytes of a word in memory, and the number of them that is copied, forwards or backwards.\<close>

definition word_image :: "nat \<Rightarrow> nat list" where
  "word_image val = map (\<lambda>i. u8 (val div 256 ^ i)) [3, 2, 1, 0]"

definition mp_binary_set_int :: "nat \<Rightarrow> bool \<Rightarrow> nat \<Rightarrow> nat list" where
  "mp_binary_set_int val_sz big_endian val =
     (if big_endian then drop (4 - val_sz) (word_image val)
      else take val_sz (rev (word_image val)))"

text \<open>\<open>len\<close> is the second argument as a machine integer; the result is an error or the bytes.\<close>

definition int_to_bytes :: "int_obj \<Rightarrow> int \<Rightarrow> bool \<Rightarrow> (int_error + nat list) option" where
  "int_to_bytes arg len big_endian =
     (if len < 0 then Some (Inl ValueError)
      else let len = nat len
           in case arg of
                Small val \<Rightarrow>
                  let l = min len 4;
                      bytes = mp_binary_set_int l big_endian (nat (val mod 2 ^ 32));
                      zeros = replicate (len - l) 0
                  in Some (Inr (if big_endian then zeros @ bytes else bytes @ zeros))
              | Big z \<Rightarrow> map_option Inr (mpz_as_bytes z big_endian len)
              | Truth b \<Rightarrow> None)"

section \<open>Doubles are truncated\<close>

lemma sign_mask: "push_bit 31 1 = (0x80000000 :: 32 word)" "push_bit 20 (8 * 4 + 1023 - 3) = (0x41C00000 :: 32 word)"
  "push_bit 20 (push_bit 11 1 - 1) = (0x7FF00000 :: 32 word)" "push_bit 20 1 - 1 = (0xFFFFF :: 32 word)"
  by simp_all

lemma unat_of_nat_less: "n < 2 ^ 32 \<Longrightarrow> unat (of_nat n :: 32 word) = n"
  by (simp only: unat_of_nat) simp

lemma float_high_unat:
  assumes "ex < 2047" "fr < 2 ^ 52"
  shows "unat (float_high sg ex fr) = of_bool sg * 2 ^ 31 + ex * 2 ^ 20 + fr div 2 ^ 32"
proof -
  have "fr div 2 ^ 32 < 2 ^ 20" using assms(2) by (simp add: div_less_iff_less_mult)
  then have "of_bool sg * 2 ^ 31 + ex * 2 ^ 20 + fr div 2 ^ 32 < 2 ^ 32" using assms(1) by (cases sg) auto
  then show ?thesis unfolding float_high_def by (rule unat_of_nat_less)
qed

lemma high_mask: "(x :: 32 word) AND 0x80000000 = (if bit x 31 then 0x80000000 else 0)"
proof -
  have h: "(0x80000000 :: 32 word) = push_bit 31 1" by simp
  have "x AND push_bit 31 1 = (if bit x 31 then push_bit 31 1 else 0)"
    by (rule bit_word_eqI)
      (auto simp: bit_and_iff bit_push_bit_iff bit_1_iff less_Suc_eq_le [of _ 31, simplified] dest: le_antisym
        simp del: push_bit_numeral push_bit_of_1)
  then show ?thesis unfolding h .
qed

lemma and_not_minus:
  fixes a b :: "32 word"
  shows "a AND NOT b = a - (a AND b)"
proof -
  have "a - (a AND b) = a AND NOT (a AND b)" 
    by (rule disjunctive_diff_eq_and_not) (auto simp: bit_eq_iff bit_and_iff bit_not_iff)
  also have "\<dots> = a AND NOT b" by (rule bit_word_eqI) (auto simp: bit_and_iff bit_or_iff bit_not_iff)
  finally show ?thesis by simp
qed

lemma float_high_sign:
  assumes "ex < 2047" "fr < 2 ^ 52"
  shows "bit (float_high sg ex fr) 31 \<longleftrightarrow> sg"
proof -
  have f: "fr div 2 ^ 32 < 2 ^ 20" using assms(2) by (simp add: div_less_iff_less_mult)
  have "bit (float_high sg ex fr) 31 \<longleftrightarrow> bit (unat (float_high sg ex fr)) 31" by (simp add: bit_unsigned_iff)
  also have "\<dots> \<longleftrightarrow> odd ((of_bool sg * 2 ^ 31 + ex * 2 ^ 20 + fr div 2 ^ 32) div 2 ^ 31)"
    unfolding float_high_unat [OF assms] by (simp only: bit_iff_odd)
  also have "(of_bool sg * 2 ^ 31 + ex * 2 ^ 20 + fr div 2 ^ 32) div 2 ^ 31 = of_bool sg"
    using f assms(1) by (cases sg) auto
  finally show ?thesis by simp
qed

lemma clear_low_bits:
  assumes "ex < 2047" "fr < 2 ^ 52"
  shows "unat (float_high False ex fr AND NOT 0xFFFFF) = ex * 2 ^ 20"
proof -
  let ?h = "float_high False ex fr"
  have m: "(0xFFFFF :: 32 word) = mask 20" by (simp add: mask_eq_exp_minus_1)
  have f: "fr div 2 ^ 32 < 2 ^ 20" using assms(2) by (simp add: div_less_iff_less_mult)
  have t: "unat (?h AND mask 20) = fr div 2 ^ 32"
    using f unfolding take_bit_eq_mask [symmetric] unsigned_take_bit_eq float_high_unat [OF assms]
    by (simp add: take_bit_eq_mod)
  have "?h AND NOT (mask 20) = ?h - (?h AND mask 20)" by (rule and_not_minus)
  moreover have "?h AND mask 20 \<le> ?h" using t float_high_unat [OF assms, of False] by (simp add: word_le_nat_alt)
  ultimately show ?thesis unfolding m using t float_high_unat [OF assms, of False] by (simp add: unat_sub)
qed

lemma nat_or_1: "n OR Suc 0 = (if even n then n + 1 else (n :: nat))"
  using or_one_eq [of n] by simp

text \<open>The class depends on the exponent, and for the power of two below the range on the fraction.\<close>

lemma classify_correct:
  assumes "ex < 2047" "fr < 2 ^ 52"
  shows "mp_classify_fp_as_int (float_high sg ex fr) (float_low fr) = MP_FP_CLASS_FIT_SMALLINT \<longleftrightarrow>
    (if sg then ex = 0 \<and> fr = 0 \<or> 1 \<le> ex \<and> (ex \<le> 1052 \<or> ex = 1053 \<and> fr = 0) else ex \<le> 1052)"
proof (cases sg)
  case False
  have "unat (float_high False ex fr AND NOT 0xFFFFF) \<le> 0x41C00000 \<longleftrightarrow> ex \<le> 1052"
    unfolding clear_low_bits [OF assms] by auto
  then show ?thesis using False float_high_sign [OF assms, of False]
    unfolding mp_classify_fp_as_int_def sign_mask high_mask Let_def
    by (simp add: word_le_nat_alt)
next
  case True
  let ?fh = "fr div 2 ^ 32" and ?low = "fr mod 2 ^ 32 \<noteq> 0"
  define e where "e = float_high True ex fr OR of_bool (float_low fr \<noteq> 0)"
  have low: "float_low fr \<noteq> 0 \<longleftrightarrow> ?low"
    unfolding float_low_def by (simp add: unat_of_nat_less flip: unat_eq_zero)
  have fh: "?fh < 2 ^ 20" using assms(2) by (simp add: div_less_iff_less_mult)
  define F where "F = (if ?low \<and> even ?fh then ?fh + 1 else ?fh)"
  have F: "F < 2 ^ 20" "F = 0 \<longleftrightarrow> fr = 0"
  proof -
    show "F < 2 ^ 20" using fh unfolding F_def by (auto simp: less_Suc_eq elim!: evenE)
    have "fr = ?fh * 2 ^ 32 + fr mod 2 ^ 32" by simp
    then show "F = 0 \<longleftrightarrow> fr = 0" unfolding F_def by (metis (no_types) add_cancel_right_left add_is_0 div_0 even_zero mod_0 mult_is_0 one_neq_zero)
  qed
  have "unat e = (2 ^ 31 + ex * 2 ^ 20 + ?fh) OR of_bool ?low"
    unfolding e_def unsigned_or_eq float_high_unat [OF assms] low by simp
  also have "\<dots> = 2 ^ 31 + ex * 2 ^ 20 + F" by (auto simp: F_def nat_or_1)
  finally have e: "unat e = 2 ^ 31 + ex * 2 ^ 20 + F" .
  have lt: "ex * 2 ^ 20 + F < 2 ^ 31" using F(1) assms(1) by simp
  have top: "bit e 31" using float_high_sign [OF assms, of True] unfolding e_def by (simp add: bit_or_iff)
  have zero: "e AND NOT 0x80000000 = 0 \<longleftrightarrow> ex = 0 \<and> fr = 0"
    unfolding and_not_minus high_mask if_P [OF top] right_minus_eq
    unfolding word_unat_eq_iff e using F(2) by auto
  have sum: "unat (e + 0x7FF00000) = (if ex = 0 then 0xFFF00000 + F else (ex - 1) * 2 ^ 20 + F)"
    unfolding unat_word_ariths e using lt F(1) by (cases ex) auto
  have "mp_classify_fp_as_int (float_high True ex fr) (float_low fr) =
    (if (if e AND NOT 0x80000000 = 0 then 0 else e + 0x7FF00000) \<le> 0x41C00000
     then MP_FP_CLASS_FIT_SMALLINT else MP_FP_CLASS_FIT_LONGINT)"
    using float_high_sign [OF assms, of True]
    unfolding mp_classify_fp_as_int_def sign_mask high_mask Let_def e_def by simp
  also have "\<dots> = (if ex = 0 \<and> fr = 0 \<or> (if ex = 0 then 0xFFF00000 + F else (ex - 1) * 2 ^ 20 + F) \<le> 0x41C00000
     then MP_FP_CLASS_FIT_SMALLINT else MP_FP_CLASS_FIT_LONGINT)"
    unfolding zero word_le_nat_alt sum [symmetric] by simp
  finally show ?thesis using True F by (cases ex) auto
qed

lemma float_trunc_small:
  assumes "ex \<le> 1052" "fr < 2 ^ 52"
  shows "float_trunc ex fr < 2 ^ 30"
proof -
  have "float_trunc ex fr = (2 ^ 52 + fr) div 2 ^ (1075 - ex)" using assms(1) by (simp add: float_trunc_def)
  also have "\<dots> \<le> (2 ^ 52 + fr) div 2 ^ 23" using assms(1)
    by (intro div_le_mono2 power_increasing) auto
  also have "\<dots> < 2 ^ 30" using assms(2) by (simp add: div_less_iff_less_mult)
  finally show ?thesis .
qed

lemma float_trunc_below_one:
  assumes "ex < 1023" "fr < 2 ^ 52"
  shows "float_trunc ex fr = 0"
proof -
  have "float_trunc ex fr = (2 ^ 52 + fr) div 2 ^ (1075 - ex)" using assms(1) by (simp add: float_trunc_def)
  also have "\<dots> \<le> (2 ^ 52 + fr) div 2 ^ 53" using assms(1)
    by (intro div_le_mono2 power_increasing) auto
  also have "\<dots> = 0" using assms(2) by simp
  finally show ?thesis by simp
qed

lemma mp_obj_new_int_from_float_yields:
  assumes "ex < 2047" "fr < 2 ^ 52"
  shows "yields (mp_obj_new_int_from_float sg ex fr)
    (V_Int (if sg then - int (float_trunc ex fr) else int (float_trunc ex fr)))"
proof (cases "mp_classify_fp_as_int (float_high sg ex fr) (float_low fr)")
  case MP_FP_CLASS_FIT_SMALLINT
  then have c: "if sg then ex = 0 \<and> fr = 0 \<or> 1 \<le> ex \<and> (ex \<le> 1052 \<or> ex = 1053 \<and> fr = 0) else ex \<le> 1052"
    using classify_correct [OF assms, of sg] by simp
  have "small_ok (if sg then - int (float_trunc ex fr) else int (float_trunc ex fr))"
  proof (cases "ex \<le> 1052")
    case True
    then show ?thesis using float_trunc_small [OF True assms(2)] by (auto simp: small_ok_def)
  next
    case False
    then have "sg" "ex = 1053" "fr = 0" using c by (auto split: if_splits)
    then show ?thesis by (simp add: small_ok_def float_trunc_def)
  qed
  then show ?thesis using MP_FP_CLASS_FIT_SMALLINT assms(1)
    unfolding mp_obj_new_int_from_float_def by (simp add: new_small_int_ok del: of_nat_power)
next
  case MP_FP_CLASS_FIT_LONGINT
  then have c: "\<not> (if sg then ex = 0 \<and> fr = 0 \<or> 1 \<le> ex \<and> (ex \<le> 1052 \<or> ex = 1053 \<and> fr = 0) else ex \<le> 1052)"
    using classify_correct [OF assms, of sg] by simp
  then have ne: "ex \<noteq> 1023" by (auto split: if_splits)
  define t where "t = float_trunc ex fr"
  have "ex < 1023 \<Longrightarrow> t = 0" unfolding t_def by (rule float_trunc_below_one [OF _ assms(2)])
  then have "(if ex < 1023 then 0 else if ex = 1023 then 1 else if sg then - int t else int t)
    = (if sg then - int t else int t)"
    using ne by simp
  then have "gives (mpz_set_from_float mpz_init_zero sg ex fr) (if sg then - int t else int t)"
    using mpz_set_from_float_gives [OF mpz_wf_zero(3) assms, of sg] unfolding t_def by (simp only:)
  from gives_yields [OF this] show ?thesis using MP_FP_CLASS_FIT_LONGINT assms(1)
    unfolding t_def by (simp add: mp_obj_new_int_from_float_def)
qed

section \<open>Small integers are printed as numbers\<close>

text \<open>A separator between groups of three characters, none at the end.\<close>

fun inner_commas :: "nat \<Rightarrow> nat \<Rightarrow> nat list \<Rightarrow> nat list" where
  "inner_commas comma k [] = []"
| "inner_commas comma k [x] = [x]"
| "inner_commas comma k (x # y # xs) =
     (if comma \<noteq> 0 \<and> k = 2 then x # comma # inner_commas comma 0 (y # xs)
      else x # inner_commas comma (Suc k) (y # xs))"

lemma inner_commas_none [simp]: "inner_commas 0 k xs = xs"
  by (induction "0 :: nat" k xs rule: inner_commas.induct) auto

lemma length_inner_commas:
  "length (inner_commas comma k xs) \<le> length xs + (if comma \<noteq> 0 then (k + length xs) div 3 else 0)"
  by (induction comma k xs rule: inner_commas.induct) auto

lemma length_inner_commas_ge: "length xs \<le> length (inner_commas comma k xs)"
  by (induction comma k xs rule: inner_commas.induct) auto

lemma small_digit_char:
  assumes "c < base" "base \<le> 10 \<or> 10 \<le> bc"
  shows "(if c \<ge> 10 then c + (bc - 10) else c + 48) = mpz_digit_char bc c"
  using assms by (auto simp: mpz_digit_char_def Let_def)

lemma small_format_loop_correct:
  assumes "2 \<le> base" "base \<le> 10 \<or> 10 \<le> bc" "0 < num" "lc \<le> length s" "comma \<noteq> 0 \<longrightarrow> length s - lc < 3"
    and "length s + length (inner_commas comma (length s - lc) (map (mpz_digit_char bc) (repr base num))) \<le> room"
  shows "small_format_loop base bc comma room num s lc
    = Some (rev (inner_commas comma (length s - lc) (map (mpz_digit_char bc) (repr base num))) @ s)"
  using assms(3-)
proof (induction num arbitrary: s lc rule: less_induct)
  case (less num)
  let ?d = "mpz_digit_char bc"
  have c: "(if num mod base \<ge> 10 then num mod base + (bc - 10) else num mod base + 48) = ?d (num mod base)"
    using assms(1,2) by (intro small_digit_char [where base = base]) auto
  show ?case
  proof (cases "base \<le> num")
    case False
    then have "num div base = 0" "num mod base = num" "repr base num = [num]"
      by (auto simp: repr.simps [of base num])
    moreover have "(if num \<ge> 10 then num + (bc - 10) else num + 48) = ?d num"
      using False assms(2) by (intro small_digit_char [where base = base]) auto
    ultimately show ?thesis using assms(1) by (subst small_format_loop.simps) (simp add: Let_def)
  next
    case True
    then have q: "0 < num div base" using assms(1) by (simp add: div_greater_zero_iff)
    have smaller: "num div base < num" using assms(1) less.prems(1) by (intro div_less_dividend) auto
    have r: "repr base num = num mod base # repr base (num div base)"
      using True assms(1) by (subst repr.simps) simp
    obtain y ys where y: "repr base (num div base) = y # ys" by (cases "repr base (num div base)") auto
    let ?sep = "comma \<noteq> 0 \<and> length s - lc = 2"
    define s' where "s' = (if ?sep then comma # ?d (num mod base) # s else ?d (num mod base) # s)"
    define lc' where "lc' = (if ?sep then length s' else lc)"
    have ic: "inner_commas comma (length s - lc) (map ?d (repr base num)) =
      (if ?sep then [?d (num mod base), comma] else [?d (num mod base)])
        @ inner_commas comma (length s' - lc') (map ?d (repr base (num div base)))"
      using less.prems(2) unfolding r y s'_def lc'_def by (cases "comma = 0") (auto simp: Suc_diff_le)
    have room: "length s' + length (inner_commas comma (length s' - lc') (map ?d (repr base (num div base)))) \<le> room"
    proof -
      have "length s' = length s + length (if ?sep then [?d (num mod base), comma] else [?d (num mod base)])"
        by (simp add: s'_def)
      moreover note less.prems(4) [unfolded ic length_append]
      ultimately show ?thesis by linarith
    qed
    have "0 < length (repr base (num div base))" by simp
    then have "length s' < room"
      using room length_inner_commas_ge [of "map ?d (repr base (num div base))" comma "length s' - lc'"]
      unfolding length_map by linarith
    then have run: "small_format_loop base bc comma room num s lc = small_format_loop base bc comma room (num div base) s' lc'"
      using assms(1) less.prems(2) q c unfolding s'_def lc'_def
      by (subst small_format_loop.simps) (auto simp: Let_def Suc_diff_le)
    have "small_format_loop base bc comma room (num div base) s' lc'
      = Some (rev (inner_commas comma (length s' - lc') (map ?d (repr base (num div base)))) @ s')"
      using less.prems(2,3) room by (intro less.IH smaller q) (auto simp: s'_def lc'_def)
    then show ?thesis unfolding run ic by (simp add: s'_def)
  qed
qed

lemma repr_fits_format:
  assumes "2 \<le> base" "base \<le> 16" "num < 2 ^ 32"
  shows "length (repr base num) \<le> 32 div log_base2_floor ! (base - 1) + 1"
proof -
  let ?l = "log_base2_floor ! (base - 1)"
  note l = log_base2_floor_le [OF assms(1,2)]
  have "32 < ?l * (32 div ?l + 1)" using dividend_less_times_div [OF l(2), of 32] by simp
  then have "(2::nat) ^ 32 \<le> 2 ^ (?l * (32 div ?l + 1))" by (intro power_increasing) auto
  also have "\<dots> = (2 ^ ?l) ^ (32 div ?l + 1)" by (rule power_mult)
  also have "\<dots> \<le> base ^ (32 div ?l + 1)" using l(1) by (rule power_mono) simp
  finally have "num < base ^ (32 div ?l + 1)" using assms(3) by simp
  then show ?thesis by (intro repr_length [OF assms(1)]) auto
qed

lemma small_int_formatted_correct:
  assumes "small_ok v" "2 \<le> base" "base \<le> 16" "base \<le> 10 \<or> 10 \<le> bc"
  shows "small_int_formatted v base prefix bc comma =
    Some ((if v < 0 then [45] else []) @ (case prefix of None \<Rightarrow> [] | Some p \<Rightarrow> p)
      @ (if v = 0 then [48]
         else rev (inner_commas comma 0 (map (mpz_digit_char bc) (repr base (nat \<bar>v\<bar>))))))"
proof -
  let ?digits = "32 div log_base2_floor ! (base - 1) + 1" and ?p = "case prefix of None \<Rightarrow> [] | Some p \<Rightarrow> p"
  let ?cs = "inner_commas comma 0 (map (mpz_digit_char bc) (repr base (nat \<bar>v\<bar>)))"
  define room where "room = ?digits + (if comma \<noteq> 0 then ?digits div 3 else 0) + length ?p + 1"
  have size: "mp_int_format_size (4 * 8) base prefix comma = Some (room + 1)"
    using assms(2,3) by (auto simp: mp_int_format_size_def room_def Let_def split: option.split)
  have "nat \<bar>v\<bar> < 2 ^ 32" using assms(1) by (auto simp: small_ok_def)
  note k = repr_fits_format [OF assms(2,3) this]
  have "length (repr base (nat \<bar>v\<bar>)) div 3 \<le> ?digits div 3" using k by (rule div_le_mono)
  with length_inner_commas [of comma 0 "map (mpz_digit_char bc) (repr base (nat \<bar>v\<bar>))"] k
  have len: "length ?cs + length ?p < room" by (auto simp: room_def)
  have loop: "small_format_loop base bc comma room (nat \<bar>v\<bar>) [] 0 = Some (rev ?cs)" if "v \<noteq> 0"
    using small_format_loop_correct [OF assms(2,4), of "nat \<bar>v\<bar>" 0 "[]" comma room] len that by simp
  have num: "(if v < 0 then s32 (- v) else v) = \<bar>v\<bar>" using assms(1) by (auto simp: small_ok_def s32_id)
  define t where "t = (if v = 0 then [48] else rev ?cs)"
  have s: "(if \<bar>v\<bar> = 0 then Some [48] else small_format_loop base bc comma room (nat \<bar>v\<bar>) [] 0) = Some t"
    using loop by (simp add: t_def)
  have "length t + length ?p < room" using len by (auto simp: t_def room_def)
  then show ?thesis
    unfolding small_int_formatted_def Let_def num size Option.bind.bind_lunit add_diff_cancel_right' s t_def [symmetric]
    by (auto split: option.split)
qed

text \<open>Small and long integers.\<close>

lemma int_formatted_correct:
  assumes "int_obj_ok x" "mp_obj_is_int x" "2 \<le> base" "base \<le> 16" "base \<le> 10 \<or> 10 \<le> bc"
  shows "mp_obj_int_formatted x base prefix bc 0 =
      Some ((if int_obj_val x < 0 then [45] else []) @ (case prefix of None \<Rightarrow> [] | Some p \<Rightarrow> p)
        @ rev (map (mpz_digit_char bc) (repr base (nat \<bar>int_obj_val x\<bar>))))
    \<and> (\<forall>v comma. x = Small v \<longrightarrow> mp_obj_int_formatted x base prefix bc comma =
      Some ((if v < 0 then [45] else []) @ (case prefix of None \<Rightarrow> [] | Some p \<Rightarrow> p)
        @ rev (inner_commas comma 0 (map (mpz_digit_char bc) (repr base (nat \<bar>v\<bar>))))))"
proof -
  have zero: "rev (inner_commas comma 0 (map (mpz_digit_char bc) (repr base 0))) = [48]"
    "rev (map (mpz_digit_char bc) (repr base 0)) = [48]" for comma
    using assms(3) by (simp_all add: repr.simps [of base 0] mpz_digit_char_def)
  have small: "mp_obj_int_formatted (Small v) base prefix bc comma =
      Some ((if v < 0 then [45] else []) @ (case prefix of None \<Rightarrow> [] | Some p \<Rightarrow> p)
        @ rev (inner_commas comma 0 (map (mpz_digit_char bc) (repr base (nat \<bar>v\<bar>)))))" if "small_ok v" for v comma
    using small_int_formatted_correct [OF that assms(3-5), of prefix comma] zero by simp
  have "base \<le> 32" using assms(4) by simp
  show ?thesis
  proof (cases x)
    case (Small v)
    then show ?thesis using small [of v] assms(1) by simp
  next
    case (Big z)
    then show ?thesis using mpz_as_str_correct [OF _ assms(3) \<open>base \<le> 32\<close>, of z prefix bc 0] assms(1) zero by simp
  qed (use assms in simp)
qed

section \<open>Bytes\<close>

lemma positive_mask: "NOT (NOT (0x80000000 OR drop_bit 1 0x80000000)) = (NOT (mask 30) :: 32 word)"
proof -
  have "(0xC0000000 :: 32 word) = NOT (mask 30)" by (simp add: mask_eq_exp_minus_1)
  moreover have "0x80000000 OR drop_bit 1 0x80000000 = (0xC0000000 :: 32 word)" by simp
  ultimately show ?thesis by simp
qed

lemma eq_mod_iff: "0 < m \<Longrightarrow> x = x mod m \<longleftrightarrow> x < (m :: nat)"
  by (metis mod_less mod_less_divisor)

lemma from_uint_correct:
  "\<exists>x. mp_obj_new_int_from_uint w = Some x \<and> int_obj_ok x \<and> int_obj_val x = uint w"
proof -
  have "w AND NOT (mask 30) = 0 \<longleftrightarrow> w = take_bit 30 w"
    unfolding and_not_minus right_minus_eq take_bit_eq_mask ..
  also have "\<dots> \<longleftrightarrow> unat w = unat w mod 2 ^ 30"
    unfolding word_unat_eq_iff unsigned_take_bit_eq by (simp only: take_bit_eq_mod)
  also have "\<dots> \<longleftrightarrow> unat w < 2 ^ 30" by (intro eq_mod_iff zero_less_power zero_less_numeral)
  also have "\<dots> \<longleftrightarrow> int (unat w) < int (2 ^ 30)" by (simp only: of_nat_less_iff)
  finally have fits: "w AND NOT (mask 30) = 0 \<longleftrightarrow> uint w < 2 ^ 30" by (simp only: uint_nat of_nat_power of_nat_numeral)
  have "uint w < 2 ^ 64" using uint_lt2p [of w] by simp
  moreover have "small_ok (uint w)" if "uint w < 2 ^ 30" using that order_trans [OF _ uint_ge_0 [of w], of "- (2 ^ 30)"] by (simp add: small_ok_def)
  ultimately show ?thesis using from_ull_correct [of "uint w"] fits
    unfolding mp_obj_new_int_from_uint_def positive_mask by (auto simp: new_small_int_ok)
qed

lemma from_bytes_loop_correct:
  assumes "digs_ok 256 bs" "val < 2 ^ 30" "from_bytes_loop val bs = Some w"
  shows "w < 2 ^ 30 \<and> w = val * 256 ^ length bs + dval 256 (rev bs)"
  using assms
proof (induction bs arbitrary: val)
  case (Cons b bs)
  then have v: "val \<le> 4194303" and run: "from_bytes_loop (u32 (val * 2 ^ 8) OR b) bs = Some w"
    by (auto simp: small_int_limits split: if_splits)
  have "u32 (val * 2 ^ 8) OR b = val * 2 ^ 8 + b"
    using Cons.prems(1) v or_disjoint_nat [of b 8 val] by (simp add: u32_id)
  with run Cons.IH [of "val * 2 ^ 8 + b"] Cons.prems(1) v show ?case
    by (simp add: digit_simps algebra_simps)
qed simp

lemma int_from_bytes_correct:
  assumes "digs_ok 256 bs"
  shows "\<exists>y. int_from_bytes little bs = Some y \<and> int_obj_ok y
    \<and> int_obj_val y = int (dval 256 (if little then bs else rev bs))"
proof (cases "from_bytes_loop 0 (if little then rev bs else bs)")
  case None
  then show ?thesis using mpz_set_from_bytes_gives [OF mpz_wf_zero(3) assms, of "\<not> little"]
    by (auto simp: int_from_bytes_def elim!: givesE split: if_splits)
next
  case (Some w)
  have "digs_ok 256 (if little then rev bs else bs)" using assms by (auto simp: digs_ok_def)
  from from_bytes_loop_correct [OF this _ Some] have w: "w < 2 ^ 30" "w = dval 256 (if little then bs else rev bs)"
    by auto
  then have "uint (of_nat w :: 32 word) = int w" by (simp add: uint_nat unat_of_nat_less)
  then show ?thesis using Some from_uint_correct [of "of_nat w"] w(2) by (simp add: int_from_bytes_def)
qed

lemma word_image_bytes: "rev (word_image (nat (v mod 2 ^ 32))) = le_bytes 4 v"
proof -
  have b: "u8 (nat (v mod 2 ^ 32) div 256 ^ i) = nat (v div 256 ^ i mod 256)" if "i < 4" for i
  proof -
    have e: "(2::int) ^ 32 = 256 ^ i * 256 ^ (4 - i)" using that by (simp add: power_add [symmetric])
    have "v mod 2 ^ 32 div 256 ^ i = v div 256 ^ i mod 256 ^ (4 - i)"
      unfolding e by (simp add: zmod_zmult2_eq)
    moreover have "(256::int) dvd 256 ^ (4 - i)" using that by (intro dvd_power) auto
    ultimately have "v mod 2 ^ 32 div 256 ^ i mod 256 = v div 256 ^ i mod 256" by (simp only: mod_mod_cancel)
    moreover have "nat (x div 256 ^ i mod 256) = nat x div 256 ^ i mod 256" if "0 \<le> x" for x :: int
      using that by (simp add: nat_mod_distrib nat_div_distrib pos_imp_zdiv_nonneg_iff nat_power_eq)
    from this [of "v mod 2 ^ 32"]
    have "nat (v mod 2 ^ 32 div 256 ^ i mod 256) = nat (v mod 2 ^ 32) div 256 ^ i mod 256" by simp
    moreover have "u8 y = y mod 256" for y by (simp add: u8_def)
    ultimately show ?thesis by (simp only:)
  qed
  have four: "4 = Suc (Suc (Suc (Suc 0)))" by simp
  have d: "v div 256 div 256 = v div 65536" "v div 65536 div 256 = v div 16777216"
    using zdiv_zmult2_eq [of 256 v 256] zdiv_zmult2_eq [of 256 v 65536] by simp_all
  show ?thesis unfolding word_image_def four using b [of 0] b [of 1] b [of 2] b [of 3] by (simp add: d)
qed

lemma mp_binary_set_int_bytes:
  assumes "l \<le> 4"
  shows "mp_binary_set_int l big (nat (v mod 2 ^ 32)) = (if big then rev else (\<lambda>bs. bs)) (le_bytes l v)"
proof -
  have t: "take l (rev (word_image (nat (v mod 2 ^ 32)))) = le_bytes l v"
    unfolding word_image_bytes using assms by (simp add: le_bytes_take min_absorb1)
  have "length (word_image x) = 4" for x by (simp add: word_image_def)
  then have d: "drop (4 - l) (word_image x) = rev (take l (rev (word_image x)))" for x
    by (simp add: rev_take)
  show ?thesis unfolding mp_binary_set_int_def d t by simp
qed

lemma le_bytes_zeros:
  assumes "0 \<le> v" "v < 256 ^ l" "l \<le> len"
  shows "le_bytes l v @ replicate (len - l) 0 = le_bytes len v"
  using le_bytes_add [of l "len - l" v] assms by (simp add: le_bytes_sign)

lemma int_to_bytes_correct:
  assumes "int_obj_ok x" "mp_obj_is_int x" "0 < len" "0 \<le> int_obj_val x"
  shows "int_to_bytes x (int len) big
    = Some (Inr ((if big then rev else (\<lambda>bs. bs)) (le_bytes len (int_obj_val x))))"
proof (cases x)
  case (Small v)
  have v: "0 \<le> v" "v < 256 ^ 4" using assms(1,4) by (auto simp: Small small_ok_def)
  have z: "le_bytes (min len 4) v @ replicate (len - min len 4) 0 = le_bytes len v"
    using le_bytes_zeros [OF v, of len] by (cases "4 \<le> len") (auto simp: min_def)
  then have "replicate (len - min len 4) 0 @ rev (le_bytes (min len 4) v) = rev (le_bytes len v)"
    by (metis rev_append rev_replicate)
  with z show ?thesis using assms(3) mp_binary_set_int_bytes [of "min len 4" big v]
    by (cases big) (simp_all add: Small int_to_bytes_def Let_def)
qed (use assms mpz_as_bytes_correct in \<open>simp_all add: int_to_bytes_def\<close>)

lemma int_bytes_round_trip:
  assumes "int_obj_ok x" "mp_obj_is_int x" "0 < len" "0 \<le> int_obj_val x" "int_obj_val x < 256 ^ len"
  shows "\<exists>bs y. int_to_bytes x (int len) big = Some (Inr bs) \<and> length bs = len
    \<and> int_from_bytes (\<not> big) bs = Some y \<and> int_obj_ok y \<and> int_obj_val y = int_obj_val x"
proof -
  let ?bs = "(if big then rev else (\<lambda>bs. bs)) (le_bytes len (int_obj_val x))"
  have "digs_ok 256 ?bs" using le_bytes_ok [of len "int_obj_val x"] by (auto simp: digs_ok_def)
  from int_from_bytes_correct [OF this, of "\<not> big"] int_to_bytes_correct [OF assms(1-4), of big]
  show ?thesis using assms(4,5) by (auto simp: le_bytes_value)
qed

text \<open>A negative small integer is not extended beyond the four bytes of the word, a long one is.\<close>

lemma int_to_bytes_negative:
  assumes "small_ok v" "v < 0" "4 \<le> len"
  shows "int_to_bytes (Small v) (int len) False = Some (Inr (le_bytes 4 v @ replicate (len - 4) 0))"
  using assms mp_binary_set_int_bytes [of 4 False v]
  by (simp add: int_to_bytes_def Let_def min_def)

end
