(* ===== verification/IntParse.thy ===== *)
theory IntParse
  imports IntConv "HOL-Library.Monad_Syntax"
begin

text \<open>
  Parsing of integers: \<open>mp_parse_num_base\<close> of \<^verbatim>\<open>py/parsenumbase.c\<close> and \<open>mp_parse_num_integer\<close> of
  \<^verbatim>\<open>py/parsenum.c\<close>, which the constructor \<^verbatim>\<open>int\<close> and the parser of the language call.  Characters are
  bytes.  A pointer into the string is the rest of the string from there on.  \<open>None\<close> is an operation on
  long integers that fails.
\<close>

section \<open>The code\<close>

text \<open>\<open>unichar_isspace\<close>: the characters with the attribute \<^verbatim>\<open>AT_SP\<close>.\<close>

definition unichar_isspace :: "nat \<Rightarrow> bool" where
  "unichar_isspace c \<longleftrightarrow> 9 \<le> c \<and> c \<le> 13 \<or> c = 32"

text \<open>The number of characters to skip and the base.\<close>

definition mp_parse_num_base :: "nat list \<Rightarrow> int \<Rightarrow> nat \<times> int" where
  "mp_parse_num_base str base =
     (if length str \<le> 1 then (0, if base = 0 then 10 else base)
      else if (base = 0 \<or> base = 16) \<and> str ! 0 = 48 then
        (if str ! 1 OR 32 = 120 then (2, 16)
         else if base = 0 \<and> str ! 1 OR 32 = 111 then (2, 8)
         else if base = 0 \<and> str ! 1 OR 32 = 98 then (2, 2)
         else (0, if base = 0 then 10 else base))
      else if base = 8 \<and> str ! 0 = 48 then (if str ! 1 OR 32 \<noteq> 111 then (0, base) else (2, base))
      else if base = 2 \<and> str ! 0 = 48 then (if str ! 1 OR 32 \<noteq> 98 then (0, base) else (2, base))
      else (0, if base = 0 then 10 else base))"

text \<open>The loop over the digits ends with the value and the rest of the string, or with \<open>None\<close> for the jump to \<open>overflow\<close>.\<close>

fun parse_digits :: "int \<Rightarrow> int \<Rightarrow> nat list \<Rightarrow> (int \<times> nat list) option" where
  "parse_digits base int_val [] = Some (int_val, [])"
| "parse_digits base int_val (c # cs) =
     (if c = 95 then parse_digits base int_val cs
      else
        let digit = (if 48 \<le> c \<and> c \<le> 57 then Some (c - 48)
                     else if 97 \<le> c OR 32 \<and> c OR 32 \<le> 122 then Some ((c OR 32) - 87) else None)
        in case digit of
             None \<Rightarrow> Some (int_val, c # cs)
           | Some v \<Rightarrow>
               if int v \<ge> base then Some (int_val, c # cs)
               else if mp_small_int_mul_overflow int_val base then None
               else let int_val = s32 (int_val * base + int v)
                    in if \<not> MP_SMALL_INT_FITS int_val then None else parse_digits base int_val cs)"

datatype parse_error = Parse_ValueError | Parse_SyntaxError

text \<open>\<open>lexer\<close>: the call comes from the parser, which turns the error into a \<^verbatim>\<open>SyntaxError\<close>.\<close>

definition parse_int_value ::
  "nat list \<Rightarrow> bool \<Rightarrow> int \<Rightarrow> (int_obj \<times> nat list) option" where
  "parse_int_value str_val_start negative base =
     (case parse_digits base 0 str_val_start of
        Some (int_val, str) \<Rightarrow> Some (new_small_int (if negative then - int_val else int_val), str)
      | None \<Rightarrow> do {
          (z, n) \<leftarrow> mpz_set_from_str mpz_init_zero str_val_start negative (nat base);
          Some (Big z, drop n str_val_start) })"

definition mp_parse_num_integer :: "nat list \<Rightarrow> int \<Rightarrow> bool \<Rightarrow> (parse_error + int_obj) option" where
  "mp_parse_num_integer str base lexer =
     (if base \<noteq> 0 \<and> base < 2 \<or> base > 36 then Some (Inl Parse_ValueError)
      else
        let str = dropWhile unichar_isspace str;
            (str, negative) = (case str of c # cs \<Rightarrow> if c = 43 then (cs, False) else if c = 45 then (cs, True) else (str, False)
                                    | [] \<Rightarrow> (str, False));
            (skip, base) = mp_parse_num_base str base;
            str_val_start = drop skip str;
            value_error = Inl (if lexer then Parse_SyntaxError else Parse_ValueError)
        in do {
          (ret_val, str) \<leftarrow> parse_int_value str_val_start negative base;
          Some (if length str = length str_val_start then value_error
                else if dropWhile unichar_isspace str \<noteq> [] then value_error
                else Inr ret_val) })"

section \<open>The digits\<close>

definition body_char :: "nat \<Rightarrow> nat \<Rightarrow> bool" where
  "body_char base c \<longleftrightarrow> c = 95 \<or> mpz_char_digit base c \<noteq> None"

definition body_value :: "nat \<Rightarrow> nat list \<Rightarrow> nat" where
  "body_value base cs = foldl (\<lambda>v c. v * base + the (mpz_char_digit base c)) 0 (filter (\<lambda>c. c \<noteq> 95) cs)"

lemma underscore_no_digit: "mpz_char_digit base 95 = None"
  by (simp add: mpz_char_digit_def)

text \<open>Setting the bit 32 turns the upper case letters into the lower case ones, and makes a letter of nothing else.\<close>

lemma or_32: "(c :: nat) OR 32 = (if bit c 5 then c else c + 32)"
proof -
  have n: "(32 :: nat) = push_bit 5 1" by simp
  have b: "bit (32 :: nat) k \<longleftrightarrow> k = 5" for k unfolding n bit_push_bit_iff bit_1_iff by auto
  show ?thesis
  proof (cases "bit c 5")
    case True
    then have "c OR 32 = c" unfolding bit_eq_iff by (auto simp: bit_or_iff b)
    then show ?thesis using True by simp
  next
    case False
    then have "c AND 32 = 0" unfolding bit_eq_iff by (auto simp: bit_and_iff b)
    then have "c + 32 = c OR 32" by (rule disjunctive_add_eq_or)
    then show ?thesis using False by simp
  qed
qed

lemma letter_digit:
  fixes c :: nat
  assumes "c < 256"
  shows "(if 48 \<le> c \<and> c \<le> 57 then Some (c - 48) else if 97 \<le> c OR 32 \<and> c OR 32 \<le> 122 then Some ((c OR 32) - 87) else None)
    = (if 48 \<le> c \<and> c \<le> 57 then Some (c - 48) else if 65 \<le> c \<and> c \<le> 90 then Some (c - 55)
       else if 97 \<le> c \<and> c \<le> 122 then Some (c - 87) else None)"
proof -
  define q r where "q = c div 32" and "r = c mod 32"
  have c: "c = 32 * q + r" "r < 32" by (simp_all add: q_def r_def)
  have "bit c 5 = odd q" by (simp add: bit_iff_odd q_def)
  then have or32: "c OR 32 = (if odd q then c else c + 32)" using or_32 [of c] by simp
  have "q = 0 \<or> q = 1 \<or> q = 2 \<or> q = 3 \<or> q = 4 \<or> q = 5 \<or> q = 6 \<or> q = 7" using assms c by linarith
  then show ?thesis unfolding or32 using c by (elim disjE) auto
qed

definition body_fold :: "nat \<Rightarrow> nat \<Rightarrow> nat list \<Rightarrow> nat" where
  "body_fold base v cs = foldl (\<lambda>v c. v * base + the (mpz_char_digit base c)) v (filter (\<lambda>c. c \<noteq> 95) cs)"

lemma body_fold_simps [simp]:
  "body_fold base v [] = v" "body_fold base v (95 # cs) = body_fold base v cs"
  "c \<noteq> 95 \<Longrightarrow> body_fold base v (c # cs) = body_fold base (v * base + the (mpz_char_digit base c)) cs"
  by (simp_all add: body_fold_def)

lemma body_fold_ge: "0 < base \<Longrightarrow> v \<le> body_fold base v cs"
proof (induction cs arbitrary: v)
  case (Cons c cs)
  show ?case
  proof (cases "c = 95")
    case False
    have "v \<le> v * base + the (mpz_char_digit base c)" using Cons.prems by (simp add: trans_le_add1)
    then show ?thesis using Cons.IH [OF Cons.prems, of "v * base + the (mpz_char_digit base c)"] False by simp
  qed (use Cons in simp)
qed simp

lemma parse_digits_step:
  assumes "c < 256" "c \<noteq> 95" "2 \<le> base" "base \<le> 36" "v < 2 ^ 30"
  shows "parse_digits (int base) (int v) (c # cs) = (case mpz_char_digit base c of None \<Rightarrow> Some (int v, c # cs)
    | Some d \<Rightarrow> if v * base + d < 2 ^ 30 then parse_digits (int base) (int (v * base + d)) cs else None)"
proof -
  let ?digit = "if 48 \<le> c \<and> c \<le> 57 then Some (c - 48) else if 97 \<le> c OR 32 \<and> c OR 32 \<le> 122 then Some ((c OR 32) - 87) else None"
  have dig: "mpz_char_digit base c = (case ?digit of None \<Rightarrow> None | Some d \<Rightarrow> if d \<ge> base then None else Some d)"
    unfolding letter_digit [OF assms(1)] by (simp add: mpz_char_digit_def)
  have over: "(if mp_small_int_mul_overflow (int v) (int base) then None
      else let w = s32 (int v * int base + int d) in if \<not> MP_SMALL_INT_FITS w then None else parse_digits (int base) w cs)
    = (if v * base + d < 2 ^ 30 then parse_digits (int base) (int (v * base + d)) cs else None)" if "d < base" for d
  proof (cases "v * base < 2 ^ 30")
    case True
    then have mul: "\<not> mp_small_int_mul_overflow (int v) (int base)"
      by (simp add: mp_small_int_mul_overflow_iff small_ok_def flip: of_nat_mult)
    define x where "x = int (v * base + d)"
    have "v * base + d < 2147483648" using True that assms(4) by simp
    then have "int (v * base + d) < int 2147483648" by (simp only: of_nat_less_iff)
    then have "x < 2 ^ 31" unfolding x_def by simp
    then have x: "0 \<le> x" "x < 2 ^ 31" "int v * int base + int d = x" by (simp_all add: x_def)
    have w: "s32 x = x" using x(1,2) by (simp add: s32_def)
    have "MP_SMALL_INT_FITS x \<longleftrightarrow> x < 2 ^ 30" using small_int_fits [of x] x by (simp add: small_ok_def)
    moreover have "x < 2 ^ 30 \<longleftrightarrow> v * base + d < 2 ^ 30"
      unfolding x_def by (metis of_nat_less_iff of_nat_numeral of_nat_power)
    ultimately show ?thesis using mul unfolding x(3) Let_def w by (simp add: x_def)
  next
    case False
    then have "mp_small_int_mul_overflow (int v) (int base)"
      by (simp add: mp_small_int_mul_overflow_iff small_ok_def flip: of_nat_mult)
    then show ?thesis using False by simp
  qed
  show ?thesis
  proof (cases ?digit)
    case None
    then show ?thesis unfolding dig using assms(2) by (simp only: parse_digits.simps Let_def None option.case if_False)
  next
    case (Some d)
    have "parse_digits (int base) (int v) (c # cs) = (if int d \<ge> int base then Some (int v, c # cs)
      else if mp_small_int_mul_overflow (int v) (int base) then None
      else let w = s32 (int v * int base + int d) in if \<not> MP_SMALL_INT_FITS w then None else parse_digits (int base) w cs)"
      using assms(2) by (simp only: parse_digits.simps Let_def Some option.case if_False)
    then show ?thesis using over [of d] unfolding dig Some by (cases "base \<le> d") simp_all
  qed
qed

lemma parse_digits_correct:
  assumes "\<forall>c \<in> set cs. c < 256" "2 \<le> base" "base \<le> 36" "v < 2 ^ 30"
  shows "parse_digits (int base) (int v) cs
    = (if body_fold base v (takeWhile (body_char base) cs) < 2 ^ 30
       then Some (int (body_fold base v (takeWhile (body_char base) cs)), dropWhile (body_char base) cs) else None)"
  using assms(1,4)
proof (induction cs arbitrary: v)
  case (Cons c cs)
  show ?case
  proof (cases "c = 95")
    case True
    moreover have "body_char base 95" by (simp add: body_char_def)
    ultimately show ?thesis using Cons by simp
  next
    case False
    have c: "c < 256" using Cons.prems(1) by simp
    note st = parse_digits_step [OF c False assms(2,3) Cons.prems(2), of cs]
    show ?thesis
    proof (cases "mpz_char_digit base c")
      case None
      then show ?thesis using st False Cons.prems(2) by (simp add: body_char_def)
    next
      case (Some d)
      let ?w = "v * base + d"
      have body: "body_char base c" by (simp add: body_char_def Some)
      show ?thesis
      proof (cases "?w < 2 ^ 30")
        case True
        then show ?thesis using st Cons.IH [OF _ True] Cons.prems(1) body False by (simp add: Some)
      next
        case over: False
        have "?w \<le> body_fold base ?w (takeWhile (body_char base) cs)" using body_fold_ge [of base] assms(2) by simp
        then have "\<not> body_fold base v (takeWhile (body_char base) (c # cs)) < 2 ^ 30"
          using over body False by (simp add: Some)
        then show ?thesis using st over by (simp add: Some)
      qed
    qed
  qed
qed simp

section \<open>The value of a string\<close>

text \<open>After the prefix: the characters of the number are followed by spaces only.\<close>

definition number_body :: "nat \<Rightarrow> nat list \<Rightarrow> nat list option" where
  "number_body base str =
     (let body = takeWhile (body_char base) str; rest = dropWhile (body_char base) str
      in if body = [] \<or> dropWhile unichar_isspace rest \<noteq> [] then None else Some body)"

lemma parse_int_value_small:
  assumes "\<forall>c \<in> set str. c < 256" "2 \<le> base" "base \<le> 36"
    "body_fold base 0 (takeWhile (body_char base) str) < 2 ^ 30"
  shows "parse_int_value str negative (int base)
    = Some (Small ((if negative then - 1 else 1) * int (body_fold base 0 (takeWhile (body_char base) str))),
        dropWhile (body_char base) str)"
proof -
  have "parse_digits (int base) 0 str
      = Some (int (body_fold base 0 (takeWhile (body_char base) str)), dropWhile (body_char base) str)"
    using parse_digits_correct [OF assms(1-3), of 0] assms(4) by simp
  moreover have "new_small_int x = Small x" if "- (2 ^ 30) \<le> x" "x < 2 ^ 30" for x
    using that by (intro new_small_int_ok) (simp add: small_ok_def)
  ultimately show ?thesis using assms(4) by (simp add: parse_int_value_def)
qed

lemma parse_int_value_long:
  assumes "\<forall>c \<in> set str. c < 256" "2 \<le> base" "base \<le> 36"
    "2 ^ 30 \<le> body_fold base 0 (takeWhile (body_char base) str)"
  defines "pre \<equiv> takeWhile (\<lambda>c. mpz_char_digit base c \<noteq> None) str"
  shows "\<exists>y. parse_int_value str negative (int base) = Some (Big y, drop (length pre) str)
    \<and> (95 \<notin> set (takeWhile (body_char base) str) \<longrightarrow> pre = takeWhile (body_char base) str \<and> mpz_wf y
        \<and> mpz_val y = (if negative then - 1 else 1) * int (body_fold base 0 (takeWhile (body_char base) str)))"
proof -
  have over: "parse_digits (int base) 0 str = None"
    using parse_digits_correct [OF assms(1-3), of 0] assms(4) by simp
  have "\<not> fixed_dig mpz_init_zero" "0 < base" using assms(2) by (simp_all add: mpz_init_zero_def)
  then obtain y where y: "mpz_set_from_str mpz_init_zero str negative base = Some (y, length pre)" "neg y = negative"
    "nok (dig y)" "normalised (dig y)" "length (dig y) \<le> alloc y"
    "nval (dig y) = foldl (\<lambda>v c. v * base + the (mpz_char_digit base c)) 0 pre"
    using mpz_set_from_str_correct [OF _ _ assms(3), of mpz_init_zero str negative] unfolding pre_def by blast
  have run: "parse_int_value str negative (int base) = Some (Big y, drop (length pre) str)"
    by (simp add: parse_int_value_def over y(1))
  moreover have "pre = takeWhile (body_char base) str \<and> mpz_wf y
      \<and> mpz_val y = (if negative then - 1 else 1) * int (body_fold base 0 (takeWhile (body_char base) str))"
    if no: "95 \<notin> set (takeWhile (body_char base) str)"
  proof -
    have pre: "pre = takeWhile (body_char base) str"
      unfolding pre_def using no by (induction str) (auto simp: body_char_def split: if_splits)
    have "filter (\<lambda>c. c \<noteq> 95) pre = pre" using no unfolding pre by (intro filter_True) auto
    then have val: "nval (dig y) = body_fold base 0 pre" unfolding y(6) body_fold_def by simp
    then have "dig y \<noteq> []" using assms(4) unfolding pre by auto
    then show ?thesis using pre val y(2-5) by (auto simp: mpz_wf_def mpz_val_simps)
  qed
  ultimately show ?thesis by blast
qed

lemma parse_num_base_ok:
  assumes "base = 0 \<or> 2 \<le> base" "base \<le> 36" "mp_parse_num_base str base = (skip, b)"
  shows "\<exists>k. b = int k \<and> 2 \<le> k \<and> k \<le> 36"
proof -
  have "2 \<le> b \<and> b \<le> 36" using assms by (auto simp: mp_parse_num_base_def split: if_splits)
  then show ?thesis by (intro exI [of _ "nat b"]) auto
qed

text \<open>The result of the last part of the function: the value with its type, or the error.\<close>

definition parsed :: "nat \<Rightarrow> nat list \<Rightarrow> bool \<Rightarrow> parse_error \<Rightarrow> parse_error + int_obj \<Rightarrow> bool" where
  "parsed base str negative err r =
     (case number_body base str of
        None \<Rightarrow> r = Inl err
      | Some body \<Rightarrow>
          (let v = (if negative then - 1 else 1) * int (body_fold base 0 body)
           in if body_fold base 0 body < 2 ^ 30 then r = Inr (Small v)
              else if 95 \<in> set body then r = Inl err
              else \<exists>y. r = Inr (Big y) \<and> mpz_wf y \<and> mpz_val y = v))"

lemma stops_at_underscore:
  assumes "95 \<in> set (takeWhile (body_char base) str)"
  shows "\<exists>ys. drop (length (takeWhile (\<lambda>c. mpz_char_digit base c \<noteq> None) str)) str = 95 # ys"
  using assms
proof (induction str)
  case (Cons c cs)
  show ?case
  proof (cases "mpz_char_digit base c")
    case None
    then show ?thesis using Cons.prems by (auto simp: body_char_def split: if_splits)
  next
    case (Some d)
    then have "c \<noteq> 95" using underscore_no_digit [of base] by auto
    then show ?thesis using Cons Some by (auto simp: body_char_def split: if_splits)
  qed
qed simp

lemma parse_tail_correct:
  assumes "\<forall>c \<in> set str. c < 256" "2 \<le> base" "base \<le> 36"
  shows "\<exists>v rest. parse_int_value str negative (int base) = Some (v, rest)
    \<and> parsed base str negative err (if length rest = length str then Inl err
        else if dropWhile unichar_isspace rest \<noteq> [] then Inl err else Inr v)"
proof -
  let ?body = "takeWhile (body_char base) str" and ?rest = "dropWhile (body_char base) str"
  have split: "length str = length ?body + length ?rest" by (metis length_append takeWhile_dropWhile_id)
  show ?thesis
  proof (cases "body_fold base 0 ?body < 2 ^ 30")
    case True
    then show ?thesis
      using parse_int_value_small [OF assms True, of negative] split
      by (auto simp: parsed_def number_body_def Let_def split: option.splits)
  next
    case False
    then have big: "2 ^ 30 \<le> body_fold base 0 ?body" by simp
    then have ne: "?body \<noteq> []" by auto
    let ?pre = "takeWhile (\<lambda>c. mpz_char_digit base c \<noteq> None) str"
    obtain y where y: "parse_int_value str negative (int base) = Some (Big y, drop (length ?pre) str)"
      "95 \<notin> set ?body \<longrightarrow> ?pre = ?body \<and> mpz_wf y
        \<and> mpz_val y = (if negative then - 1 else 1) * int (body_fold base 0 ?body)"
      using parse_int_value_long [OF assms big, of negative] by blast
    show ?thesis
    proof (cases "95 \<in> set ?body")
      case True
      obtain ys where ys: "drop (length ?pre) str = 95 # ys" using stops_at_underscore [OF True] by blast
      have "dropWhile unichar_isspace (95 # ys) \<noteq> []" by (simp add: unichar_isspace_def)
      then show ?thesis
        using y(1) ne True big unfolding ys by (auto simp: parsed_def number_body_def Let_def split: option.splits)
    next
      case no: False
      then have rest: "drop (length ?pre) str = ?rest" using y(2) by (metis dropWhile_eq_drop)
      have "parsed base str negative err (if length ?rest = length str then Inl err
          else if dropWhile unichar_isspace ?rest \<noteq> [] then Inl err else Inr (Big y))"
        using y(2) no ne big split by (auto simp: parsed_def number_body_def Let_def split: option.splits)
      then show ?thesis using y(1) unfolding rest by blast
    qed
  qed
qed

text \<open>The sign.\<close>

definition split_sign :: "nat list \<Rightarrow> nat list \<times> bool" where
  "split_sign str = (case str of c # cs \<Rightarrow> if c = 43 then (cs, False) else if c = 45 then (cs, True) else (str, False)
     | [] \<Rightarrow> (str, False))"

lemma parse_num_integer_correct:
  assumes "\<forall>c \<in> set str. c < 256" "base = 0 \<or> 2 \<le> base" "base \<le> 36"
    "split_sign (dropWhile unichar_isspace str) = (s, negative)" "mp_parse_num_base s base = (skip, int b)"
  shows "\<exists>r. mp_parse_num_integer str base lexer = Some r
    \<and> parsed b (drop skip s) negative (if lexer then Parse_SyntaxError else Parse_ValueError) r"
proof -
  have b: "2 \<le> b" "b \<le> 36" using parse_num_base_ok [OF assms(2,3,5)] by auto
  have "set s \<subseteq> set t" if "split_sign t = (s, negative)" for t
    using that by (cases t) (auto simp: split_sign_def split: if_splits)
  then have "set s \<subseteq> set (dropWhile unichar_isspace str)" using assms(4) .
  then have "set s \<subseteq> set str" by (meson set_dropWhileD subset_iff)
  then have bytes: "\<forall>c \<in> set (drop skip s). c < 256" using assms(1) in_set_dropD by fast
  obtain v rest where v: "parse_int_value (drop skip s) negative (int b) = Some (v, rest)"
    "parsed b (drop skip s) negative (if lexer then Parse_SyntaxError else Parse_ValueError)
      (if length rest = length (drop skip s) then Inl (if lexer then Parse_SyntaxError else Parse_ValueError)
        else if dropWhile unichar_isspace rest \<noteq> [] then Inl (if lexer then Parse_SyntaxError else Parse_ValueError) else Inr v)"
    using parse_tail_correct [OF bytes b] by blast
  have ok: "\<not> (base \<noteq> 0 \<and> base < 2 \<or> base > 36)" using assms(2,3) by auto
  have "mp_parse_num_integer str base lexer
    = Some (if length rest = length (drop skip s) then Inl (if lexer then Parse_SyntaxError else Parse_ValueError)
        else if dropWhile unichar_isspace rest \<noteq> [] then Inl (if lexer then Parse_SyntaxError else Parse_ValueError) else Inr v)"
    unfolding mp_parse_num_integer_def if_not_P [OF ok] Let_def assms(4) [unfolded split_sign_def] prod.case assms(5) v(1)
    by simp
  then show ?thesis using v(2) by blast
qed

section \<open>Printed integers\<close>

lemma char_digit_byte: "mpz_char_digit base c = Some d \<Longrightarrow> c < 256 \<and> c \<noteq> 95 \<and> \<not> unichar_isspace c \<and> c \<noteq> 43 \<and> c \<noteq> 45"
  by (auto simp: mpz_char_digit_def unichar_isspace_def split: if_splits)

lemma char_digit_letter:
  assumes "mpz_char_digit base c = Some d" "97 \<le> c OR 32" "c OR 32 \<le> 122"
  shows "c OR 32 < 87 + base"
proof -
  have c: "c < 256" using char_digit_byte [OF assms(1)] by blast
  have "mpz_char_digit base c = (case (if 48 \<le> c \<and> c \<le> 57 then Some (c - 48)
      else if 97 \<le> c OR 32 \<and> c OR 32 \<le> 122 then Some ((c OR 32) - 87) else None) of None \<Rightarrow> None
      | Some d \<Rightarrow> if d \<ge> base then None else Some d)"
    unfolding letter_digit [OF c] by (simp add: mpz_char_digit_def)
  moreover have "\<not> (48 \<le> c \<and> c \<le> 57)" using assms(2) or_32 [of c] by (auto split: if_splits)
  ultimately show ?thesis using assms by (auto split: if_splits)
qed

lemma parse_num_base_digits:
  assumes "\<forall>c \<in> set s. mpz_char_digit base c \<noteq> None" "2 \<le> base" "base \<le> 16"
  shows "mp_parse_num_base s (int base) = (0, int base)"
proof (cases "length s \<le> 1")
  case True
  then show ?thesis using assms(2) by (simp add: mp_parse_num_base_def)
next
  case False
  then have "s ! 1 \<in> set s" by simp
  then obtain d where d: "mpz_char_digit base (s ! 1) = Some d" using assms(1) by blast
  have "s ! 1 OR 32 \<noteq> 120" "base \<le> 8 \<Longrightarrow> s ! 1 OR 32 \<noteq> 111" "base \<le> 2 \<Longrightarrow> s ! 1 OR 32 \<noteq> 98"
    using char_digit_letter [OF d] assms(3) by fastforce+
  then show ?thesis using assms(2) by (auto simp: mp_parse_num_base_def)
qed

lemma parse_printed:
  assumes "\<forall>c \<in> set ds. mpz_char_digit base c \<noteq> None" "ds \<noteq> []" "body_fold base 0 ds = n"
    "2 \<le> base" "base \<le> 16"
    "prefix = [] \<and> base_arg = int base \<or> prefix = [48, 120] \<and> base = 16 \<and> base_arg \<in> {0, 16}
     \<or> prefix = [48, 111] \<and> base = 8 \<and> base_arg \<in> {0, 8} \<or> prefix = [48, 98] \<and> base = 2 \<and> base_arg \<in> {0, 2}"
  shows "\<exists>y. mp_parse_num_integer ((if negative then [45] else []) @ prefix @ ds) base_arg lexer = Some (Inr y)
    \<and> int_obj_ok y \<and> int_obj_val y = (if negative then - int n else int n)"
proof -
  let ?s = "prefix @ ds"
  have dig: "c < 256" "c \<noteq> 95" "\<not> unichar_isspace c" "c \<noteq> 43" "c \<noteq> 45" if "c \<in> set ds" for c
    using assms(1) that char_digit_byte by fastforce+
  obtain c cs where c: "?s = c # cs" "c < 256" "\<not> unichar_isspace c" "c \<noteq> 43" "c \<noteq> 45"
    using assms(2,6) dig by (cases ds) (auto simp: unichar_isspace_def)
  have sign: "split_sign (dropWhile unichar_isspace ((if negative then [45] else []) @ ?s)) = (?s, negative)"
  proof (cases negative)
    case True
    then show ?thesis by (simp add: split_sign_def unichar_isspace_def)
  next
    case False
    then show ?thesis using c(3-5) unfolding c(1) by (simp add: split_sign_def)
  qed
  have pb: "mp_parse_num_base ?s base_arg = (length prefix, int base)"
    using assms(6)
  proof (elim disjE)
    assume "prefix = [] \<and> base_arg = int base"
    then show ?thesis using parse_num_base_digits [OF assms(1,4,5)] by simp
  qed (use assms(2) in \<open>auto simp: mp_parse_num_base_def or_32 bit_iff_odd\<close>)
  have bytes: "\<forall>c \<in> set ((if negative then [45] else []) @ ?s). c < 256" using assms(6) dig(1) by auto
  have arg: "base_arg = 0 \<or> 2 \<le> base_arg" "base_arg \<le> 36" using assms(4-6) by auto
  obtain r where r: "mp_parse_num_integer ((if negative then [45] else []) @ ?s) base_arg lexer = Some r"
    "parsed base (drop (length prefix) ?s) negative (if lexer then Parse_SyntaxError else Parse_ValueError) r"
    using parse_num_integer_correct [OF bytes arg sign pb] by blast
  have all: "\<forall>c \<in> set ds. body_char base c" using assms(1) by (simp add: body_char_def)
  then have tw: "takeWhile (body_char base) ds = ds" "dropWhile (body_char base) ds = []"
    by (simp_all add: takeWhile_eq_all_conv dropWhile_eq_Nil_conv)
  then have "number_body base ds = Some ds" using assms(2) unfolding number_body_def Let_def tw by simp
  moreover have "95 \<notin> set ds" using dig(2) by blast
  ultimately show ?thesis using r assms(3) by (auto simp: parsed_def Let_def small_ok_def split: if_splits)
qed

lemma repr_char_digits:
  fixes base n :: nat
  assumes "2 \<le> base" "base \<le> 36" "bc = 65 \<or> bc = 97"
  defines "ds \<equiv> rev (map (mpz_digit_char bc) (repr base n))"
  shows "\<forall>c \<in> set ds. mpz_char_digit base c \<noteq> None" "ds \<noteq> []" "body_fold base 0 ds = n"
proof -
  have r: "dval base (repr base n) = n" "digs_ok base (repr base n)" using repr_correct [OF assms(1), of n] by auto
  note all = digit_chars_all [OF r(2) assms(2,3)]
  show dig: "\<forall>c \<in> set ds. mpz_char_digit base c \<noteq> None"
    unfolding ds_def using all unfolding takeWhile_eq_all_conv .
  show "ds \<noteq> []" by (simp add: ds_def)
  have "filter (\<lambda>c. c \<noteq> 95) ds = ds" using dig underscore_no_digit [of base] by (intro filter_True) auto
  then show "body_fold base 0 ds = n"
    using foldl_digit_chars [OF r(2) assms(2,3)] r(1) by (simp add: body_fold_def) (simp add: ds_def)
qed

text \<open>The prefixes of \<^verbatim>\<open>bin\<close>, \<^verbatim>\<open>oct\<close> and \<^verbatim>\<open>hex\<close>, and the second argument of \<^verbatim>\<open>int\<close> that reads them.\<close>

definition readable :: "nat list option \<Rightarrow> nat \<Rightarrow> int \<Rightarrow> bool" where
  "readable prefix base base_arg \<longleftrightarrow> prefix = None \<and> base_arg = int base
     \<or> prefix = Some [48, 120] \<and> base = 16 \<and> base_arg \<in> {0, 16}
     \<or> prefix = Some [48, 111] \<and> base = 8 \<and> base_arg \<in> {0, 8} \<or> prefix = Some [48, 98] \<and> base = 2 \<and> base_arg \<in> {0, 2}"

lemma print_parse_correct:
  assumes "int_obj_ok x" "mp_obj_is_int x" "2 \<le> base" "base \<le> 16" "bc = 65 \<or> bc = 97" "readable prefix base base_arg"
  shows "\<exists>s y. mp_obj_int_formatted x base prefix bc 0 = Some s
    \<and> mp_parse_num_integer s base_arg lexer = Some (Inr y) \<and> int_obj_ok y \<and> int_obj_val y = int_obj_val x"
proof -
  let ?n = "nat \<bar>int_obj_val x\<bar>"
  let ?ds = "rev (map (mpz_digit_char bc) (repr base ?n))"
  let ?p = "case prefix of None \<Rightarrow> [] | Some p \<Rightarrow> p"
  have b: "base \<le> 36" "base \<le> 10 \<or> 10 \<le> bc" using assms(4,5) by auto
  have printed: "mp_obj_int_formatted x base prefix bc 0 = Some ((if int_obj_val x < 0 then [45] else []) @ ?p @ ?ds)"
    using int_formatted_correct [OF assms(1-4) b(2), of prefix] by blast
  have pre: "?p = [] \<and> base_arg = int base \<or> ?p = [48, 120] \<and> base = 16 \<and> base_arg \<in> {0, 16}
     \<or> ?p = [48, 111] \<and> base = 8 \<and> base_arg \<in> {0, 8} \<or> ?p = [48, 98] \<and> base = 2 \<and> base_arg \<in> {0, 2}"
    using assms(6) by (auto simp: readable_def)
  show ?thesis
    using parse_printed [where negative = "int_obj_val x < 0" and lexer = lexer,
        OF repr_char_digits [OF assms(3) b(1) assms(5), of ?n] assms(3,4) pre] printed
    by (auto split: if_splits)
qed

end
