(* ===== verification/IntTheorems.thy ===== *)
theory IntTheorems
  imports IntParse MpzTheorems
begin

text \<open>
  The properties of the integer objects: every operator of the runtime on small integers, long
  integers and booleans, where it deviates from Python, the unary operators, the conversions from
  and to machine words and doubles, the printed form, the bytes and parsing.
\<close>

section \<open>Truncation to a small integer\<close>

definition small_wrap :: "int \<Rightarrow> int" where
  "small_wrap n = (n + 2 ^ 30) mod 2 ^ 31 - 2 ^ 30"

lemma new_small_int_wrap: "new_small_int n = Small (small_wrap n)"
proof -
  have "sint (mp_obj_small_int_value (mp_obj_new_small_int (word_of_int n))) = signed_take_bit 30 n"
    by (simp add: bit_eq_iff new_small_int_bits bit_signed_take_bit_iff min.commute)
  also have "\<dots> = small_wrap n"
    by (simp add: small_wrap_def signed_take_bit_eq_take_bit_shift take_bit_eq_mod)
  finally show ?thesis by (simp add: new_small_int_def)
qed

lemma small_wrap_ok: "small_ok (small_wrap n)" "small_ok n \<Longrightarrow> small_wrap n = n"
  by (simp_all add: small_wrap_def small_ok_def)

section \<open>Binary operators\<close>



text \<open>
  Where the operators deviate: the quotient \<open>2 ^ 30\<close> of \<open>divmod(-2 ** 30, -1)\<close> is made a small integer
  without a test that it fits and comes out as \<open>-2 ** 30\<close>; zero to the power zero is 0 as soon as
  an operand is a long integer; and a shift by a count that is not a machine integer is an
  \<open>OverflowError\<close>, \<^verbatim>\<open>1 >> 2 ** 40\<close> as well as \<^verbatim>\<open>1 >> -2 ** 40\<close>.
\<close>

theorem int_operator_deviations:
  assumes "mpz_wf z" "mpz_wf w" "mpz_val z = 0" "mpz_val w = 0"
    and "mpz_wf c" "2 ^ 31 \<le> \<bar>mpz_val c\<bar>" "int_obj_ok x" "mp_obj_is_int x" "shift \<in> {OP_LSHIFT, OP_RSHIFT}"
  shows "mp_binary_op BINARY_DIVMOD (Small (- (2 ^ 30))) (Small (- 1)) = Some (Tuple (Small (- (2 ^ 30))) (Small 0))
    \<and> yields (mp_binary_op (BINARY OP_POWER) (Big z) (Big w)) (V_Int 0)
    \<and> yields (mp_binary_op (BINARY OP_POWER) (Big z) (Small 0)) (V_Int 0)
    \<and> yields (mp_binary_op (BINARY OP_POWER) (Small 0) (Big w)) (V_Int 0)
    \<and> mp_binary_op (BINARY shift) x (Big c) = Some (Raise OverflowError)"
proof -
  obtain zl zr where "mp_obj_int_binary_op (mp_binary_op_depth 2) (BINARY shift) x (Big c) = int_arith shift zl zr (Big c)"
    using int_binary_op_operands [of x "Big c" "mp_binary_op_depth 2" "BINARY shift"] assms(5,7,8) by auto
  then have "yields (type_binary_op (mp_binary_op_depth 2) (BINARY shift) x (Big c)) (V_Raise OverflowError)"
    using int_shift_overflow [of "Big c"] assms(5-9) by (auto simp: type_op_int)
  then have "yields (generic_binary_op (mp_binary_op_depth 2) (BINARY shift) x (Big c)) (V_Raise OverflowError)"
    by (rule generic_result) simp
  moreover have "r = Raise e" if "result_value r = V_Raise e" for r e using that by (cases r) auto
  ultimately have "generic_binary_op (mp_binary_op_depth 2) (BINARY shift) x (Big c) = Some (Raise OverflowError)"
    by (auto simp: yields_def)
  then have overflow: "mp_binary_op (BINARY shift) x (Big c) = Some (Raise OverflowError)"
    using depth_generic [of "BINARY shift" x "Big c" 2] by (simp add: mp_binary_op_def handled_ops_def numeral_3_eq_3 numeral_2_eq_2)
  have pow: "yields (generic_binary_op again (BINARY OP_POWER) x y) (V_Int 0)"
    if "mp_obj_int_binary_op again (BINARY OP_POWER) x y = int_long_op (BINARY OP_POWER) zl zr y"
      "mp_obj_is_int x" "mpz_wf zl" "mpz_wf zr" "mpz_val zl = 0" "mpz_val zr = 0" for again x y zl zr
  proof (rule generic_result)
    have "gives (mpz_pow_inpl mpz_init_zero zl zr) 0"
      using mpz_pow_gives [OF mpz_wf_zero(3) that(3,4)] that(5) by simp
    from gives_yields [OF this] show "yields (type_binary_op again (BINARY OP_POWER) x y) (V_Int 0)"
      using that mpz_wf_val(2) [OF that(4)] by (simp add: type_op_int)
  qed simp
  have sm: "\<exists>z0. mpz_init_fixed_from_int 2 0 = Some z0 \<and> mpz_wf z0 \<and> mpz_val z0 = 0"
    using operand_correct [of 0] by simp
  then obtain z0 where z0: "mpz_init_fixed_from_int 2 0 = Some z0" "mpz_wf z0" "mpz_val z0 = 0" by blast
  have "mp_small_int_floor_divide (- (2 ^ 30)) (- 1) = 2 ^ 30" "mp_small_int_modulo (- (2 ^ 30)) (- 1) = 0"
    by (simp_all add: mp_small_int_floor_divide_correct mp_small_int_modulo_correct small_ok_def)
  moreover have "new_small_int (2 ^ 30) = Small (- (2 ^ 30))" "new_small_int 0 = Small 0"
    by (simp_all add: new_small_int_wrap small_wrap_def)
  ultimately show ?thesis
    using overflow pow [of "mp_binary_op_depth 2" "Big z" "Big w" z w] pow [of "mp_binary_op_depth 2" "Big z" "Small 0" z z0]
      pow [of "mp_binary_op_depth 2" "Small 0" "Big w" z0 w] z0 assms(1-4)
    by (simp add: mp_binary_op_def numeral_3_eq_3 numeral_2_eq_2)
qed

theorem int_operator_deviations_witness:
  "yields (mp_binary_op (BINARY OP_POWER) (Big (mpz_of False [])) (Small 0)) (V_Int 0)
    \<and> mp_binary_op BINARY_DIVMOD (Small (- 1073741824)) (Small (- 1))
      = Some (Tuple (Small (- 1073741824)) (Small 0))
    \<and> mp_binary_op (BINARY OP_RSHIFT) (Small 1) (Big (mpz_of False [0, 0, 256])) = Some (Raise OverflowError)"
  using int_operator_deviations [of "mpz_of False []" "mpz_of False []" "mpz_of False [0, 0, 256]" "Small 1" OP_RSHIFT]
  by (simp add: mpz_of_facts small_ok_def)

section \<open>Unary operators\<close>

fun python_unary :: "unary_operator \<Rightarrow> int \<Rightarrow> int_value" where
  "python_unary UNARY_POSITIVE v = V_Int v"
| "python_unary UNARY_NEGATIVE v = V_Int (- v)"
| "python_unary UNARY_INVERT v = V_Int (- v - 1)"
| "python_unary UNARY_NOT v = V_Bool (v = 0)"
| "python_unary UNARY_BOOL v = V_Bool (v \<noteq> 0)"
| "python_unary UNARY_HASH v = V_Int (small_wrap (s32 v))"
| "python_unary UNARY_ABS v = V_Int \<bar>v\<bar>"
| "python_unary UNARY_INT_MAYBE v = V_Int v"

lemma small_unary_yields:
  assumes "small_ok v" "op \<noteq> UNARY_NOT"
  shows "yields (small_unary_op op v) (python_unary op v)"
proof -
  have neg: "small_ok (- v)" if "v \<noteq> MP_SMALL_INT_MIN" using assms(1) that by (auto simp: small_ok_def small_int_limits)
  have inv: "small_ok (- v - 1)" using assms(1) by (auto simp: small_ok_def)
  have min: "s32 (- v) = 2 ^ 30" "\<exists>x. mp_obj_new_int (2 ^ 30) = Some x \<and> int_obj_ok x \<and> int_obj_val x = 2 ^ 30"
    if "v = MP_SMALL_INT_MIN"
    using new_int_correct [of "2 ^ 30"] that by (auto simp: small_int_limits s32_id)
  have "s32 v = v" using small_ok_range [OF assms(1)] by (intro s32_id) auto
  then show ?thesis using assms neg inv min small_wrap_ok(2) [OF assms(1)]
    by (cases op) (auto simp: new_small_int_ok not_int_def small_int_limits)
qed

text \<open>
  C23: The unary operators on every integer have Python's values, with a result that is well-formed
  when the smallest small integer is negated; the hash depends on the value only, so an integer hashes
  alike as a small integer, a long integer and a boolean.
\<close>

theorem int_unary_operators:
  assumes "int_obj_ok x"
  shows "yields (mp_unary_op op x) (python_unary op (int_obj_val x))"
proof (cases "op = UNARY_NOT")
  case True
  then show ?thesis using assms mpz_wf_val(3) by (cases x) auto
next
  case False
  show ?thesis
  proof (cases x)
    case (Small v)
    then show ?thesis using small_unary_yields [of v op] assms False by simp
  next
    case (Truth b)
    then show ?thesis using small_unary_yields [of "of_bool b" op] of_bool_small(2) [of b] False by simp
  next
    case (Big z)
    then have wf: "mpz_wf z" using assms by simp
    note g = mpz_neg_gives [OF mpz_wf_zero(3) wf] mpz_not_gives [OF mpz_wf_zero(3) wf]
      mpz_abs_gives [OF mpz_wf_zero(3) wf]
    show ?thesis
      using Big wf False g [THEN gives_yields] mpz_wf_val(2,3) [OF wf] small_wrap_ok(1)
      by (cases op) (auto simp: new_small_int_wrap mpz_hash_correct)
  qed
qed

theorem int_unary_operators_witness:
  "yields (mp_unary_op UNARY_NEGATIVE (Small (- 1073741824))) (V_Int 1073741824)
    \<and> yields (mp_unary_op UNARY_HASH (Big (mpz_of False [0, 0, 1]))) (V_Int 0)"
  using int_unary_operators [of "Small (- 1073741824)" UNARY_NEGATIVE]
    int_unary_operators [of "Big (mpz_of False [0, 0, 1])" UNARY_HASH]
  by (simp add: small_ok_def mpz_of_facts small_wrap_def s32_def)

section \<open>Conversions\<close>

text \<open>
  C24: A machine integer, a machine word and a finite double become an integer object with exactly
  their value (the double truncated towards zero, whichever of the two representations is chosen),
  and the accessors give the value back, except that \<open>mp_obj_int_get_checked\<close> raises
  \<open>OverflowError\<close> for \<open>-2 ** 31\<close>, which a machine integer holds.
\<close>

theorem int_conversions:
  assumes "- (2 ^ 31) \<le> v" "v < 2 ^ 31" "ex < 2047" "fr < 2 ^ 52"
  shows "(\<exists>x. mp_obj_new_int v = Some x \<and> int_obj_ok x \<and> int_obj_val x = v
      \<and> mp_obj_int_get_truncated x = Some v \<and> mp_obj_int_sign x = Some (sgn v)
      \<and> mp_obj_int_get_checked x = (if v = - (2 ^ 31) then None else Some v))
    \<and> (\<exists>x. mp_obj_new_int_from_uint w = Some x \<and> int_obj_ok x \<and> int_obj_val x = uint w
      \<and> mp_obj_int_get_uint_checked x = Some (unat w))
    \<and> yields (mp_obj_new_int_from_float sg ex fr)
        (V_Int (if sg then - int (float_trunc ex fr) else int (float_trunc ex fr)))"
proof (intro conjI)
  obtain x where x: "mp_obj_new_int v = Some x" "int_obj_ok x" "int_obj_val x = v" "mp_obj_is_int x"
    using new_int_correct [OF assms(1,2)]
    by (auto simp: mp_obj_new_int_def new_small_int_def mp_obj_new_int_from_ll_def split: if_splits)
  have "s32 v = v" using assms(1,2) by (intro s32_id) auto
  then have "mp_obj_int_get_truncated x = Some v" using x(2-4) by (cases x) (auto simp: mpz_hash_correct)
  moreover have "mp_obj_int_sign x = Some (sgn v)"
    using x(2-4) mpz_wf_val by (cases x) (auto simp: sgn_if)
  moreover have "mp_obj_int_get_checked x = (if v = - (2 ^ 31) then None else Some v)"
    using get_checked_value [OF x(2,4)] x(3) assms(1,2) by auto
  ultimately show "\<exists>x. mp_obj_new_int v = Some x \<and> int_obj_ok x \<and> int_obj_val x = v
      \<and> mp_obj_int_get_truncated x = Some v \<and> mp_obj_int_sign x = Some (sgn v)
      \<and> mp_obj_int_get_checked x = (if v = - (2 ^ 31) then None else Some v)"
    using x by blast
next
  obtain x where x: "mp_obj_new_int_from_uint w = Some x" "int_obj_ok x" "int_obj_val x = uint w"
    using from_uint_correct by blast
  have "uint w < 2 ^ 32" using uint_lt2p [of w] by simp
  moreover have "x \<noteq> Truth b" for b
    using x(1) by (auto simp: mp_obj_new_int_from_uint_def new_small_int_def mp_obj_new_int_from_ull_def split: if_splits)
  ultimately have "mp_obj_int_get_uint_checked x = Some (unat w)"
    using x(2,3) by (cases x) (auto simp: mpz_as_uint_checked_correct)
  with x show "\<exists>x. mp_obj_new_int_from_uint w = Some x \<and> int_obj_ok x \<and> int_obj_val x = uint w
      \<and> mp_obj_int_get_uint_checked x = Some (unat w)" by blast
next
  show "yields (mp_obj_new_int_from_float sg ex fr)
        (V_Int (if sg then - int (float_trunc ex fr) else int (float_trunc ex fr)))"
    by (rule mp_obj_new_int_from_float_yields [OF assms(3,4)])
qed

theorem int_conversions_witness:
  "(\<exists>x. mp_obj_new_int 1073741824 = Some x \<and> int_obj_val x = 1073741824
      \<and> mp_obj_int_get_checked x = Some 1073741824)
    \<and> yields (mp_obj_new_int_from_float True 1053 0) (V_Int (- 1073741824))"
  using int_conversions [of 1073741824 1053 0 5 True] by (auto simp: float_trunc_def)

section \<open>Text and bytes\<close>

text \<open>
  C25: The printed form of an integer without a separator is the sign, the prefix and the digits of
  its magnitude in the base, by the small integer formatter, which fills a fixed buffer from its end,
  and by the long integer formatter alike.  With a separator the theorem is about small integers only,
  where it stands between groups of three digits; the long integer formatter also puts one before the
  first digit of a full group (\<open>mpz_as_str_leading_separator\<close>).
\<close>

theorem int_formatted_digits:
  assumes "int_obj_ok x" "mp_obj_is_int x" "2 \<le> base" "base \<le> 16" "base \<le> 10 \<or> 10 \<le> bc"
  shows "mp_obj_int_formatted x base prefix bc 0 =
      Some ((if int_obj_val x < 0 then [45] else []) @ (case prefix of None \<Rightarrow> [] | Some p \<Rightarrow> p)
        @ rev (map (mpz_digit_char bc) (repr base (nat \<bar>int_obj_val x\<bar>))))
    \<and> (\<forall>v comma. x = Small v \<longrightarrow> mp_obj_int_formatted x base prefix bc comma =
      Some ((if v < 0 then [45] else []) @ (case prefix of None \<Rightarrow> [] | Some p \<Rightarrow> p)
        @ rev (inner_commas comma 0 (map (mpz_digit_char bc) (repr base (nat \<bar>v\<bar>))))))"
  by (rule int_formatted_correct [OF assms])

theorem int_formatted_digits_witness:
  "mp_obj_int_formatted (Small (- 1234567)) 10 None 0 44
    = Some [45, 49, 44, 50, 51, 52, 44, 53, 54, 55]"
  using int_formatted_digits [of "Small (- 1234567)" 10 0 None]
  by (simp add: small_ok_def repr.simps mpz_digit_char_def)

text \<open>
  C26: \<open>to_bytes\<close> and \<open>from_bytes\<close> are inverse to each other on the integers that are not negative
  and fit into the bytes, in both byte orders and for both representations.  The four bytes of a
  negative small integer are padded with zeros, where a long integer is extended with its sign.
\<close>

theorem int_bytes_inverse:
  assumes "int_obj_ok x" "mp_obj_is_int x" "0 < len" "0 \<le> int_obj_val x" "int_obj_val x < 256 ^ len"
    and "small_ok v" "v < 0" "4 \<le> len'"
  shows "(\<exists>bs y. int_to_bytes x (int len) big = Some (Inr bs) \<and> length bs = len
      \<and> int_from_bytes (\<not> big) bs = Some y \<and> int_obj_ok y \<and> int_obj_val y = int_obj_val x)
    \<and> int_to_bytes (Small v) (int len') False = Some (Inr (le_bytes 4 v @ replicate (len' - 4) 0))"
  using int_bytes_round_trip [OF assms(1-5), of big] int_to_bytes_negative [OF assms(6-8)] by blast

theorem int_bytes_inverse_witness:
  "(\<exists>bs y. int_to_bytes (Small 258) 3 True = Some (Inr bs) \<and> length bs = 3
      \<and> int_from_bytes False bs = Some y \<and> int_obj_val y = 258)
    \<and> int_to_bytes (Small (- 1)) 5 False = Some (Inr [255, 255, 255, 255, 0])"
  using int_bytes_inverse [of "Small 258" 3 "- 1" 5 True]
  by (auto simp: small_ok_def eval_nat_numeral)

section \<open>Parsing\<close>

text \<open>
  C27: \<open>mp_parse_num_integer\<close> refuses a base that is neither 0 nor between 2 and 36, and otherwise
  returns: spaces, a sign and the prefix of the base are skipped; the characters up to the first one
  that is neither a digit of the base nor an underscore are the number, and only spaces may follow.
  The result is a small integer of their value, or a long integer of it, or the error, a
  \<^verbatim>\<open>SyntaxError\<close> for the parser.  An underscore in a number that is too large for a small integer is an
  error as well: the long integer parser, which starts over, does not know underscores.
\<close>

theorem int_parse_value:
  assumes "\<forall>c \<in> set str. c < 256"
  shows "(if base \<noteq> 0 \<and> (base < 2 \<or> 36 < base) then mp_parse_num_integer str base lexer = Some (Inl Parse_ValueError)
    else \<exists>s negative skip b r. split_sign (dropWhile unichar_isspace str) = (s, negative)
      \<and> mp_parse_num_base s base = (skip, int b) \<and> mp_parse_num_integer str base lexer = Some r
      \<and> parsed b (drop skip s) negative (if lexer then Parse_SyntaxError else Parse_ValueError) r)"
proof (cases "base \<noteq> 0 \<and> (base < 2 \<or> 36 < base)")
  case True
  then show ?thesis by (auto simp: mp_parse_num_integer_def)
next
  case False
  then have base: "base = 0 \<or> 2 \<le> base" "base \<le> 36" by auto
  obtain s negative where s: "split_sign (dropWhile unichar_isspace str) = (s, negative)" by (cases "split_sign (dropWhile unichar_isspace str)")
  obtain skip b where b: "mp_parse_num_base s base = (skip, int b)"
    using parse_num_base_ok [OF base, of s] by (metis surj_pair)
  show ?thesis using parse_num_integer_correct [OF assms base s b] s b False by auto
qed

text \<open>\<^verbatim>\<open>" -1_0 "\<close> is -10, and \<^verbatim>\<open>"1_0000000000"\<close> is an error.\<close>

theorem int_parse_value_witness:
  "mp_parse_num_integer [32, 45, 49, 95, 48, 32] 10 False = Some (Inr (Small (- 10)))
    \<and> mp_parse_num_integer [49, 95, 48, 48, 48, 48, 48, 48, 48, 48, 48, 48] 10 False = Some (Inl Parse_ValueError)"
proof -
  have digits: "mpz_char_digit 10 48 = Some 0" "mpz_char_digit 10 49 = Some 1" "mpz_char_digit 10 32 = None"
    "mpz_char_digit 10 95 = None"
    by (simp_all add: mpz_char_digit_def)
  have "split_sign (dropWhile unichar_isspace [32, 45, 49, 95, 48, 32]) = ([49, 95, 48, 32], True)"
    "split_sign (dropWhile unichar_isspace [49, 95, 48, 48, 48, 48, 48, 48, 48, 48, 48, 48])
      = ([49, 95, 48, 48, 48, 48, 48, 48, 48, 48, 48, 48], False)"
    by (simp_all add: unichar_isspace_def split_sign_def)
  moreover have "mp_parse_num_base [49, 95, 48, 32] 10 = (0, 10)"
    "mp_parse_num_base [49, 95, 48, 48, 48, 48, 48, 48, 48, 48, 48, 48] 10 = (0, 10)"
    by (simp_all add: mp_parse_num_base_def)
  moreover have "number_body 10 [49, 95, 48, 32] = Some [49, 95, 48]"
    "number_body 10 [49, 95, 48, 48, 48, 48, 48, 48, 48, 48, 48, 48] = Some [49, 95, 48, 48, 48, 48, 48, 48, 48, 48, 48, 48]"
    by (simp_all add: number_body_def body_char_def digits unichar_isspace_def)
  moreover have "body_fold 10 0 [49, 95, 48] = 10"
    "body_fold 10 0 [49, 95, 48, 48, 48, 48, 48, 48, 48, 48, 48, 48] = 10000000000"
    by (simp_all add: body_fold_def digits)
  ultimately show ?thesis
    using int_parse_value [of "[32, 45, 49, 95, 48, 32]" 10 False]
      int_parse_value [of "[49, 95, 48, 48, 48, 48, 48, 48, 48, 48, 48, 48]" 10 False]
    by (auto simp: parsed_def)
qed

text \<open>
  C28: Reading back a printed integer, small or long, in a base up to 16 and with the prefix of
  \<^verbatim>\<open>bin\<close>, \<^verbatim>\<open>oct\<close> or \<^verbatim>\<open>hex\<close> when there is one, gives an integer of the same value, whether the base is
  given to \<^verbatim>\<open>int\<close> or read from the prefix.
\<close>

theorem int_print_parse:
  assumes "int_obj_ok x" "mp_obj_is_int x" "2 \<le> base" "base \<le> 16" "bc = 65 \<or> bc = 97" "readable prefix base base_arg"
  shows "\<exists>s y. mp_obj_int_formatted x base prefix bc 0 = Some s
    \<and> mp_parse_num_integer s base_arg lexer = Some (Inr y) \<and> int_obj_ok y \<and> int_obj_val y = int_obj_val x"
  by (rule print_parse_correct [OF assms])

theorem int_print_parse_witness:
  "\<exists>s y. mp_obj_int_formatted (Big (mpz_of True [57, 48])) 16 (Some [48, 120]) 97 0 = Some s
    \<and> mp_parse_num_integer s 0 False = Some (Inr y) \<and> int_obj_val y = - 3145785"
  using int_print_parse [of "Big (mpz_of True [57, 48])" 16 97 "Some [48, 120]" 0 False]
  by (auto simp: mpz_of_facts readable_def)

end
