(* ===== verification/StrEdit.thy ===== *)
theory StrEdit
  imports MP_Prelude
begin

text \<open>
  The editable string of the port's console (\<^verbatim>\<open>ports/sh/stredit.c\<close>): a growing buffer with a few
  reserved bytes in front, a maximum size and a prefix that cannot be edited.  \<open>ed_text\<close> are the
  \<open>size\<close> bytes of content, the terminating zero not included.  The reserved bytes are the header
  of a console line (\<^verbatim>\<open>console_fline_t\<close>): its size and its number of rendered lines.  \<open>None\<close> is a
  write outside of the allocated buffer; allocation does not fail.
\<close>

section \<open>State\<close>

record stredit =
  ed_fsize :: nat
  ed_render :: nat
  ed_text :: "nat list"
  ed_max :: nat
  ed_reserved :: nat
  ed_alloc :: nat
  ed_prefix :: nat

text \<open>A frozen line.\<close>

record console_fline =
  fl_size :: nat
  fl_render :: nat
  fl_data :: "nat list"

definition CONSOLE_FLINE_SIZE :: nat where
  "CONSOLE_FLINE_SIZE = 3"

definition PE_CONSOLE_LINE_MAX_LENGTH :: nat where
  "PE_CONSOLE_LINE_MAX_LENGTH = 1024"

text \<open>The editor after \<^verbatim>\<open>memset\<close>: the buffer is the null pointer, of size 0.\<close>

definition stredit_zero :: stredit where
  "stredit_zero = \<lparr>ed_fsize = 0, ed_render = 0, ed_text = [], ed_max = 0, ed_reserved = 0, ed_alloc = 0, ed_prefix = 0\<rparr>"

definition stredit_init :: "nat \<Rightarrow> nat \<Rightarrow> nat \<Rightarrow> stredit" where
  "stredit_init prealloc_size reserved_bytes max_size =
     (if max_size = 0 then stredit_zero
      else \<lparr>ed_fsize = 0, ed_render = 0, ed_text = [], ed_max = u16 max_size, ed_reserved = u16 reserved_bytes,
            ed_alloc = u16 (reserved_bytes + prealloc_size + 1), ed_prefix = 0\<rparr>)"

definition stredit_capacity :: "stredit \<Rightarrow> int" where
  "stredit_capacity ed = int (ed_max ed) - int (length (ed_text ed))"

definition stredit_reset :: "stredit \<Rightarrow> stredit" where
  "stredit_reset ed = stredit_zero"

text \<open>The buffer that is handed over holds the header and the text; it may be made smaller before.\<close>

definition stredit_freeze_and_reset :: "stredit \<Rightarrow> console_fline \<times> stredit" where
  "stredit_freeze_and_reset ed =
     (\<lparr>fl_size = ed_fsize ed, fl_render = ed_render ed, fl_data = ed_text ed\<rparr>, stredit_reset ed)"

definition stredit_alloc :: "stredit \<Rightarrow> nat \<Rightarrow> stredit" where
  "stredit_alloc ed n =
     (if ed_alloc ed \<ge> ed_reserved ed + n + 1 then ed
      else let newsize = max (ed_alloc ed + 16) (ed_reserved ed + n + 1)
           in ed\<lparr>ed_alloc := u16 newsize\<rparr>)"

definition stredit_set_prefix :: "stredit \<Rightarrow> int \<Rightarrow> stredit" where
  "stredit_set_prefix ed prefix_size =
     ed\<lparr>ed_prefix := nat (min (max 0 prefix_size) (int (length (ed_text ed))))\<rparr>"

definition stredit_insert :: "stredit \<Rightarrow> int \<Rightarrow> nat list \<Rightarrow> (stredit \<times> bool) option" where
  "stredit_insert ed p insert_str =
     (let n = length insert_str; size = length (ed_text ed)
      in if p < 0 \<or> p > int size \<or> size + n > ed_max ed then Some (ed, False)
         else let ed = stredit_alloc ed (size + n)
              in if ed_reserved ed + size + n + 1 \<le> ed_alloc ed
                 then Some (ed\<lparr>ed_text := take (nat p) (ed_text ed) @ insert_str @ drop (nat p) (ed_text ed)\<rparr>, True)
                 else None)"

definition stredit_delete :: "stredit \<Rightarrow> int \<Rightarrow> int \<Rightarrow> stredit \<times> int" where
  "stredit_delete ed p n =
     (let (p, n) = (if p < int (ed_prefix ed)
                    then let unremovable = int (ed_prefix ed) - p in (p + unremovable, n - unremovable)
                    else (p, n));
          n = min n (int (length (ed_text ed)) - p)
      in if n < 0 then (ed, 0)
         else (ed\<lparr>ed_text := take (nat p) (ed_text ed) @ drop (nat (p + n)) (ed_text ed)\<rparr>, n))"

section \<open>Invariant\<close>

definition stredit_ok :: "stredit \<Rightarrow> bool" where
  "stredit_ok ed \<longleftrightarrow> ed_reserved ed + length (ed_text ed) + 1 \<le> ed_alloc ed
     \<and> length (ed_text ed) \<le> ed_max ed \<and> ed_prefix ed \<le> length (ed_text ed)
     \<and> ed_max ed \<le> 32768 \<and> ed_reserved ed \<le> 16 \<and> ed_alloc ed \<le> 40000"

text \<open>
  What the console relies on: the contents of an editor and its three operations.  A cursor is a
  position in the contents.
\<close>

locale text_editor =
  fixes contents :: "'e \<Rightarrow> nat list" and ok :: "'e \<Rightarrow> bool" and limit :: "'e \<Rightarrow> nat"
    and locked :: "'e \<Rightarrow> nat" and insert_at :: "'e \<Rightarrow> int \<Rightarrow> nat list \<Rightarrow> ('e \<times> bool) option"
    and delete_at :: "'e \<Rightarrow> int \<Rightarrow> int \<Rightarrow> 'e \<times> int"
  assumes insert_fits: "ok e \<Longrightarrow> c \<le> length (contents e) \<Longrightarrow> length (contents e) + length s \<le> limit e \<Longrightarrow>
      \<exists>e'. insert_at e (int c) s = Some (e', True) \<and> ok e' \<and> limit e' = limit e \<and> locked e' = locked e
        \<and> contents e' = take c (contents e) @ s @ drop c (contents e)"
    and delete_part: "ok e \<Longrightarrow> locked e \<le> c \<Longrightarrow> c + n \<le> length (contents e) \<Longrightarrow>
      \<exists>e'. delete_at e (int c) (int n) = (e', int n) \<and> ok e' \<and> limit e' = limit e \<and> locked e' = locked e
        \<and> contents e' = take c (contents e) @ drop (c + n) (contents e)"
    and locked_le: "ok e \<Longrightarrow> locked e \<le> length (contents e)"
    and contents_le: "ok e \<Longrightarrow> length (contents e) \<le> limit e"
begin

text \<open>A deletion undoes the insertion before it, if that was not in the locked part.\<close>

lemma insert_delete:
  assumes "ok e" "locked e \<le> c" "c \<le> length (contents e)" "length (contents e) + length s \<le> limit e"
  shows "\<exists>e1 e2. insert_at e (int c) s = Some (e1, True) \<and> delete_at e1 (int c) (int (length s)) = (e2, int (length s))
    \<and> ok e2 \<and> contents e2 = contents e \<and> locked e2 = locked e"
proof -
  obtain e1 where e1: "insert_at e (int c) s = Some (e1, True)" "ok e1" "locked e1 = locked e"
    "contents e1 = take c (contents e) @ s @ drop c (contents e)"
    using insert_fits [OF assms(1,3,4)] by blast
  have "c + length s \<le> length (contents e1)" using e1(4) assms(3) by simp
  with delete_part [OF e1(2), of c "length s"] e1 assms(2,3) show ?thesis by auto
qed

lemma insert_end:
  assumes "ok e" "length (contents e) + length s \<le> limit e"
  shows "\<exists>e'. insert_at e (int (length (contents e))) s = Some (e', True) \<and> ok e' \<and> limit e' = limit e
    \<and> locked e' = locked e \<and> contents e' = contents e @ s"
  using insert_fits [OF assms(1) order_refl assms(2)] by simp

end

lemma stredit_insert_ok:
  assumes "stredit_ok ed" "c \<le> length (ed_text ed)" "length (ed_text ed) + length s \<le> ed_max ed"
  shows "\<exists>a. stredit_insert ed (int c) s
    = Some (ed\<lparr>ed_alloc := a, ed_text := take c (ed_text ed) @ s @ drop c (ed_text ed)\<rparr>, True)
    \<and> stredit_ok (ed\<lparr>ed_alloc := a, ed_text := take c (ed_text ed) @ s @ drop c (ed_text ed)\<rparr>)"
  using assms
  by (auto simp: stredit_insert_def stredit_alloc_def stredit_ok_def Let_def u16_id max_def min_def
      intro!: exI [of _ "ed_alloc (stredit_alloc ed (length (ed_text ed) + length s))"])

interpretation editor: text_editor ed_text stredit_ok ed_max ed_prefix stredit_insert stredit_delete
proof unfold_locales
  fix e :: stredit and c :: nat and s :: "nat list"
  assume "stredit_ok e" "c \<le> length (ed_text e)" "length (ed_text e) + length s \<le> ed_max e"
  from stredit_insert_ok [OF this]
  show "\<exists>e'. stredit_insert e (int c) s = Some (e', True) \<and> stredit_ok e' \<and> ed_max e' = ed_max e \<and> ed_prefix e' = ed_prefix e
        \<and> ed_text e' = take c (ed_text e) @ s @ drop c (ed_text e)" by auto
next
  fix e :: stredit and c n :: nat
  assume "stredit_ok e" "ed_prefix e \<le> c" "c + n \<le> length (ed_text e)"
  then show "\<exists>e'. stredit_delete e (int c) (int n) = (e', int n) \<and> stredit_ok e' \<and> ed_max e' = ed_max e \<and> ed_prefix e' = ed_prefix e
        \<and> ed_text e' = take c (ed_text e) @ drop (c + n) (ed_text e)"
    by (auto simp: stredit_delete_def stredit_ok_def nat_add_distrib min_def)
qed (auto simp: stredit_ok_def)

end
