(* ===== verification/LineBuf.thy ===== *)
theory LineBuf
  imports StrEdit "HOL-Library.Monad_Syntax"
begin

text \<open>
  The rotating array of console lines (the \<open>linebuf\<close> functions of \<^verbatim>\<open>ports/sh/console.c\<close>).  A slot of the
  array is the null pointer, a pointer to a line, or a pointer whose line has been freed: the code
  does not clear the slots of recycled lines.  \<open>None\<close> is a failed assertion, an access to a freed line
  or a second \<^verbatim>\<open>free\<close> of it.  The line that is edited is not in the array but in \<open>edit\<close>, its header
  fields are the reserved bytes of the editor.  The absolute line numbers are not bounded here; the code
  has them in an \<^verbatim>\<open>int\<close>, so the model is that of a console with fewer than 2^31 lines in its life.
\<close>

section \<open>State\<close>

datatype slot = Null_Line | Line console_fline | Freed

record linebuf =
  lb_lines :: "slot list"
  lb_edit :: stredit
  lb_capacity :: nat
  lb_start :: nat
  lb_size :: nat
  lb_total_rendered :: int
  lb_absolute :: nat
  lb_backlog_size :: nat
  lb_total_size_except_last :: int
  lb_absolute_rendered :: int

definition s16 :: "int \<Rightarrow> int" where
  "s16 x = (x + 2 ^ 15) mod 2 ^ 16 - 2 ^ 15"

definition linebuf_init :: "nat \<Rightarrow> nat \<Rightarrow> linebuf option" where
  "linebuf_init capacity backlog_size =
     (if capacity = 0 then None
      else Some \<lparr>lb_lines = replicate capacity Null_Line, lb_edit = stredit_init 0 0 0,
                 lb_capacity = nat (s16 (int capacity)), lb_start = 0, lb_size = 0, lb_total_rendered = 0,
                 lb_absolute = 1, lb_backlog_size = backlog_size, lb_total_size_except_last = 0,
                 lb_absolute_rendered = 0\<rparr>)"

definition linebuf_nth_to_index :: "linebuf \<Rightarrow> nat \<Rightarrow> nat" where
  "linebuf_nth_to_index buf k = (lb_start buf + k) mod lb_capacity buf"

text \<open>The pointer \<open>linebuf_get_nth_line\<close> returns: the editor's buffer or a slot; \<open>None\<close> is null.\<close>

datatype line_ref = Last_Line | Slot nat

definition linebuf_get_nth_line :: "linebuf \<Rightarrow> int \<Rightarrow> line_ref option" where
  "linebuf_get_nth_line buf k =
     (if k < 0 \<or> k \<ge> int (lb_size buf) then None
      else if k = int (lb_size buf) - 1 then Some Last_Line
      else Some (Slot (linebuf_nth_to_index buf (nat k))))"

definition linebuf_index_add :: "linebuf \<Rightarrow> nat \<Rightarrow> int \<Rightarrow> nat" where
  "linebuf_index_add buf index diff = nat ((int index + diff + int (lb_capacity buf)) mod int (lb_capacity buf))"

definition linebuf_start :: "linebuf \<Rightarrow> nat" where
  "linebuf_start buf = lb_absolute buf"

definition linebuf_end :: "linebuf \<Rightarrow> nat" where
  "linebuf_end buf = lb_absolute buf + lb_size buf"

definition linebuf_get_line :: "linebuf \<Rightarrow> nat \<Rightarrow> line_ref option" where
  "linebuf_get_line buf ab = linebuf_get_nth_line buf (int ab - int (lb_absolute buf))"

text \<open>Reading a line through a reference; the last line is read with its header.\<close>

definition read_line :: "linebuf \<Rightarrow> line_ref option \<Rightarrow> console_fline option" where
  "read_line buf r =
     (case r of
        Some Last_Line \<Rightarrow> Some \<lparr>fl_size = ed_fsize (lb_edit buf), fl_render = ed_render (lb_edit buf),
                                 fl_data = ed_text (lb_edit buf)\<rparr>
      | Some (Slot i) \<Rightarrow> (case lb_lines buf ! i of Line fl \<Rightarrow> Some fl | _ \<Rightarrow> None)
      | None \<Rightarrow> None)"

definition write_render :: "linebuf \<Rightarrow> line_ref option \<Rightarrow> nat \<Rightarrow> linebuf option" where
  "write_render buf r n =
     (case r of
        Some Last_Line \<Rightarrow> Some (buf\<lparr>lb_edit := (lb_edit buf)\<lparr>ed_render := n\<rparr>\<rparr>)
      | Some (Slot i) \<Rightarrow>
          (case lb_lines buf ! i of
             Line fl \<Rightarrow> Some (buf\<lparr>lb_lines := (lb_lines buf)[i := Line (fl\<lparr>fl_render := n\<rparr>)]\<rparr>)
           | _ \<Rightarrow> None)
      | None \<Rightarrow> None)"

text \<open>Freeing the last line frees the editor's buffer, which its next initialisation replaces.\<close>

definition free_line :: "linebuf \<Rightarrow> line_ref option \<Rightarrow> linebuf option" where
  "free_line buf r =
     (case r of
        Some (Slot i) \<Rightarrow> (case lb_lines buf ! i of Line fl \<Rightarrow> Some (buf\<lparr>lb_lines := (lb_lines buf)[i := Freed]\<rparr>) | _ \<Rightarrow> None)
      | _ \<Rightarrow> Some buf)"

definition linebuf_get_last_line :: "linebuf \<Rightarrow> stredit option" where
  "linebuf_get_last_line buf = (if lb_size buf > 0 then Some (lb_edit buf) else None)"

section \<open>Operations\<close>

text \<open>The loop over the lines \<open>k\<close> to \<open>count - 1\<close>; \<open>n\<close> is the number that is left.\<close>

fun recycle_loop :: "nat \<Rightarrow> nat \<Rightarrow> linebuf \<Rightarrow> linebuf option" where
  "recycle_loop 0 k buf = Some buf"
| "recycle_loop (Suc n) k buf = do {
     FL \<leftarrow> read_line buf (linebuf_get_nth_line buf (int k));
     let ref = linebuf_get_nth_line buf (int k);
     let buf = buf\<lparr>lb_total_rendered := s16 (lb_total_rendered buf - int (fl_render FL))\<rparr>;
     let buf = (if int k \<noteq> int (lb_size buf) - 1
                then buf\<lparr>lb_total_size_except_last := lb_total_size_except_last buf - int (fl_size FL)\<rparr> else buf);
     buf \<leftarrow> free_line buf ref;
     recycle_loop n (Suc k) buf }"

definition linebuf_recycle_oldest_lines :: "linebuf \<Rightarrow> int \<Rightarrow> linebuf option" where
  "linebuf_recycle_oldest_lines buf count =
     (let count = min count (int (lb_size buf))
      in if count \<le> 0 then Some buf
         else do {
           buf \<leftarrow> recycle_loop (nat count) 0 buf;
           Some (buf\<lparr>lb_start := linebuf_index_add buf (lb_start buf) count,
                     lb_size := lb_size buf - nat count,
                     lb_absolute := lb_absolute buf + nat count\<rparr>) })"

text \<open>Freezing the last line: its buffer goes into the array, with the size written into the header.\<close>

definition freeze_last :: "linebuf \<Rightarrow> linebuf option" where
  "freeze_last buf =
     (if lb_size buf > 0
      then let size = length (ed_text (lb_edit buf));
               (frozen, edit) = stredit_freeze_and_reset (lb_edit buf);
               frozen = frozen\<lparr>fl_size := u16 size\<rparr>;
               last_nth = linebuf_nth_to_index buf (lb_size buf - 1)
           in if lb_lines buf ! last_nth = Null_Line
              then Some (buf\<lparr>lb_total_size_except_last := lb_total_size_except_last buf + int size,
                             lb_edit := edit, lb_lines := (lb_lines buf)[last_nth := Line frozen]\<rparr>)
              else None
      else Some buf)"

definition linebuf_newline :: "linebuf \<Rightarrow> linebuf option" where
  "linebuf_newline buf = do {
     buf \<leftarrow> linebuf_recycle_oldest_lines buf (int (lb_size buf) - int (lb_capacity buf) + 1);
     buf \<leftarrow> freeze_last buf;
     let buf = buf\<lparr>lb_size := lb_size buf + 1\<rparr>;
     let last_nth = linebuf_nth_to_index buf (lb_size buf - 1);
     Some (buf\<lparr>lb_lines := (lb_lines buf)[last_nth := Null_Line],
               lb_edit := stredit_init 16 CONSOLE_FLINE_SIZE PE_CONSOLE_LINE_MAX_LENGTH\<rparr>) }"

text \<open>The number of lines to remove; the first argument bounds the loop by the lines that are left.\<close>

fun backlog_loop :: "nat \<Rightarrow> linebuf \<Rightarrow> nat \<Rightarrow> int \<Rightarrow> nat option" where
  "backlog_loop 0 buf remove n = Some remove"
| "backlog_loop (Suc j) buf remove n =
     (if int remove < int (lb_size buf) - 1 \<and> n > int (lb_backlog_size buf)
      then do {
        FL \<leftarrow> read_line buf (linebuf_get_nth_line buf (int remove));
        backlog_loop j buf (remove + 1) (n - int (fl_size FL)) }
      else Some remove)"

definition linebuf_clean_backlog :: "linebuf \<Rightarrow> linebuf option" where
  "linebuf_clean_backlog buf =
     (if lb_size buf = 0 then Some buf
      else do {
        last \<leftarrow> linebuf_get_last_line buf;
        let n = lb_total_size_except_last buf + int (length (ed_text last));
        remove \<leftarrow> backlog_loop (lb_size buf) buf 0 n;
        linebuf_recycle_oldest_lines buf (int remove) })"

text \<open>\<open>free\<close> of every slot: the null pointer is ignored, a freed line is freed again.\<close>

fun free_slots :: "slot list \<Rightarrow> bool" where
  "free_slots [] \<longleftrightarrow> True"
| "free_slots (s # ss) \<longleftrightarrow> s \<noteq> Freed \<and> free_slots ss"

definition linebuf_deinit :: "linebuf \<Rightarrow> unit option" where
  "linebuf_deinit buf = (if free_slots (lb_lines buf) then Some () else None)"

section \<open>Invariant\<close>

text \<open>The frozen lines, the oldest first, and the texts of all lines.\<close>

definition slot_line :: "slot \<Rightarrow> console_fline" where
  "slot_line s = (case s of Line fl \<Rightarrow> fl | _ \<Rightarrow> \<lparr>fl_size = 0, fl_render = 0, fl_data = []\<rparr>)"

definition frozen :: "linebuf \<Rightarrow> console_fline list" where
  "frozen buf = map (\<lambda>k. slot_line (lb_lines buf ! linebuf_nth_to_index buf k)) [0..<lb_size buf - 1]"

definition lb_texts :: "linebuf \<Rightarrow> nat list list" where
  "lb_texts buf = map fl_data (frozen buf) @ (if lb_size buf > 0 then [ed_text (lb_edit buf)] else [])"

definition last_render :: "linebuf \<Rightarrow> nat" where
  "last_render buf = (if lb_size buf > 0 then ed_render (lb_edit buf) else 0)"

definition fline_ok :: "console_fline \<Rightarrow> bool" where
  "fline_ok fl \<longleftrightarrow> fl_size fl = length (fl_data fl) \<and> length (fl_data fl) \<le> PE_CONSOLE_LINE_MAX_LENGTH"

definition lb_shape :: "linebuf \<Rightarrow> bool" where
  "lb_shape buf \<longleftrightarrow> 0 < lb_capacity buf \<and> length (lb_lines buf) = lb_capacity buf \<and> lb_start buf < lb_capacity buf
     \<and> lb_size buf \<le> lb_capacity buf
     \<and> (\<forall>k < lb_size buf - 1. \<exists>fl. lb_lines buf ! linebuf_nth_to_index buf k = Line fl \<and> fline_ok fl)
     \<and> (0 < lb_size buf \<longrightarrow> lb_lines buf ! linebuf_nth_to_index buf (lb_size buf - 1) = Null_Line)"

definition lb_totals :: "linebuf \<Rightarrow> bool" where
  "lb_totals buf \<longleftrightarrow> lb_total_size_except_last buf = int (sum_list (map fl_size (frozen buf)))
     \<and> lb_total_rendered buf = s16 (int (sum_list (map fl_render (frozen buf)) + last_render buf))"

definition last_ok :: "linebuf \<Rightarrow> bool" where
  "last_ok buf \<longleftrightarrow> (0 < lb_size buf \<longrightarrow> stredit_ok (lb_edit buf) \<and> ed_max (lb_edit buf) = PE_CONSOLE_LINE_MAX_LENGTH)"

definition lb_ok :: "linebuf \<Rightarrow> bool" where
  "lb_ok buf \<longleftrightarrow> lb_shape buf \<and> lb_totals buf \<and> last_ok buf"

section \<open>Indices\<close>

lemma nth_index_less: "0 < lb_capacity buf \<Longrightarrow> linebuf_nth_to_index buf k < lb_capacity buf"
  by (simp add: linebuf_nth_to_index_def)

lemma mod_window_inj:
  fixes s :: nat
  assumes "i < c" "j < c" "(s + i) mod c = (s + j) mod c"
  shows "i = j"
proof -
  have "(int s + int i) mod int c = (int s + int j) mod int c" using assms(3) by (metis of_nat_add of_nat_mod)
  then have "(int s + int i - int s) mod int c = (int s + int j - int s) mod int c" by (rule mod_diff_cong) simp
  then show ?thesis using assms(1,2) by simp
qed

lemma s16_diff: "s16 (s16 x - y) = s16 (x - y)"
  by (simp add: s16_def mod_simps algebra_simps)

section \<open>Recycling\<close>

definition line_at :: "linebuf \<Rightarrow> nat \<Rightarrow> console_fline" where
  "line_at buf k =
     (if k = lb_size buf - 1
      then \<lparr>fl_size = ed_fsize (lb_edit buf), fl_render = ed_render (lb_edit buf), fl_data = ed_text (lb_edit buf)\<rparr>
      else slot_line (lb_lines buf ! linebuf_nth_to_index buf k))"

definition free_one :: "linebuf \<Rightarrow> nat \<Rightarrow> slot list \<Rightarrow> slot list" where
  "free_one buf j L = (if j < lb_size buf - 1 then L[linebuf_nth_to_index buf j := Freed] else L)"

definition freed :: "linebuf \<Rightarrow> nat \<Rightarrow> nat \<Rightarrow> slot list" where
  "freed buf k n = fold (free_one buf) [k..<k + n] (lb_lines buf)"

lemma length_free_fold: "length (fold (free_one buf) js L) = length L"
  by (induction js arbitrary: L) (auto simp: free_one_def)

lemma free_fold_nth:
  assumes "length L = lb_capacity buf" "lb_size buf \<le> lb_capacity buf" "j < lb_size buf"
    "set js \<subseteq> {..<lb_size buf}"
  shows "fold (free_one buf) js L ! linebuf_nth_to_index buf j
    = (if j \<in> set js \<and> j < lb_size buf - 1 then Freed else L ! linebuf_nth_to_index buf j)"
  using assms(1,4)
proof (induction js arbitrary: L)
  case (Cons i js)
  have eq: "linebuf_nth_to_index buf i = linebuf_nth_to_index buf j \<longleftrightarrow> i = j"
    using mod_window_inj [of i "lb_capacity buf" j "lb_start buf"] assms(2,3) Cons.prems(2)
    by (auto simp: linebuf_nth_to_index_def)
  have len: "length (free_one buf i L) = lb_capacity buf" using Cons.prems(1) by (simp add: free_one_def)
  have "linebuf_nth_to_index buf j < length L"
    using Cons.prems(1) assms(2,3) by (simp add: nth_index_less)
  then have "free_one buf i L ! linebuf_nth_to_index buf j
      = (if i = j \<and> j < lb_size buf - 1 then Freed else L ! linebuf_nth_to_index buf j)"
    by (auto simp: free_one_def nth_list_update eq)
  then show ?case using Cons.IH [OF len] Cons.prems(2) by auto
qed simp

lemma get_nth_line_cases:
  assumes "k < lb_size buf"
  shows "linebuf_get_nth_line buf (int k)
    = Some (if k = lb_size buf - 1 then Last_Line else Slot (linebuf_nth_to_index buf k))"
  using assms by (auto simp: linebuf_get_nth_line_def)

text \<open>The lines from \<open>k\<close> on are live.\<close>

definition live_from :: "linebuf \<Rightarrow> nat \<Rightarrow> bool" where
  "live_from buf k \<longleftrightarrow> (\<forall>j. k \<le> j \<and> j < lb_size buf - 1 \<longrightarrow> (\<exists>fl. lb_lines buf ! linebuf_nth_to_index buf j = Line fl))"

lemma read_line_at:
  assumes "k < lb_size buf" "live_from buf k"
  shows "read_line buf (linebuf_get_nth_line buf (int k)) = Some (line_at buf k)"
proof (cases "k = lb_size buf - 1")
  case False
  then have "k < lb_size buf - 1" using assms(1) by simp
  then obtain fl where "lb_lines buf ! linebuf_nth_to_index buf k = Line fl"
    using assms(2) unfolding live_from_def by blast
  with False get_nth_line_cases [OF assms(1)] show ?thesis by (simp add: read_line_def line_at_def slot_line_def)
next
  case True
  have "linebuf_get_nth_line buf (int k) = Some Last_Line" using get_nth_line_cases [OF assms(1)] True by simp
  then show ?thesis using True by (simp add: read_line_def line_at_def)
qed

definition sizes_from :: "linebuf \<Rightarrow> nat \<Rightarrow> nat \<Rightarrow> int" where
  "sizes_from buf k n = (\<Sum>j = k..<k + n. if j < lb_size buf - 1 then int (fl_size (line_at buf j)) else 0)"

definition renders_from :: "linebuf \<Rightarrow> nat \<Rightarrow> nat \<Rightarrow> int" where
  "renders_from buf k n = (\<Sum>j = k..<k + n. int (fl_render (line_at buf j)))"

lemma recycle_loop_correct:
  assumes "length (lb_lines buf) = lb_capacity buf" "0 < lb_capacity buf" "lb_size buf \<le> lb_capacity buf"
    "k + n \<le> lb_size buf" "live_from buf k" "lb_total_rendered buf = s16 x"
  shows "recycle_loop n k buf = Some (buf\<lparr>lb_lines := freed buf k n, lb_total_rendered := s16 (x - renders_from buf k n),
    lb_total_size_except_last := lb_total_size_except_last buf - sizes_from buf k n\<rparr>)"
  using assms
proof (induction n arbitrary: k buf x)
  case 0
  then show ?case by (simp add: freed_def renders_from_def sizes_from_def)
next
  case (Suc n)
  let ?FL = "line_at buf k" and ?last = "k = lb_size buf - 1"
  have k: "k < lb_size buf" using Suc.prems(4) by simp
  define buf1 where "buf1 = buf\<lparr>lb_total_rendered := s16 (x - int (fl_render ?FL)),
    lb_total_size_except_last := lb_total_size_except_last buf - (if k < lb_size buf - 1 then int (fl_size ?FL) else 0),
    lb_lines := free_one buf k (lb_lines buf)\<rparr>"
  have sel: "lb_size buf1 = lb_size buf" "lb_capacity buf1 = lb_capacity buf" "lb_start buf1 = lb_start buf"
    "lb_edit buf1 = lb_edit buf" "lb_lines buf1 = free_one buf k (lb_lines buf)"
    by (simp_all add: buf1_def)
  have idx: "linebuf_nth_to_index buf1 j = linebuf_nth_to_index buf j" for j
    by (simp add: linebuf_nth_to_index_def sel)
  have one: "lb_lines buf1 ! linebuf_nth_to_index buf j = lb_lines buf ! linebuf_nth_to_index buf j"
    if "k < j" "j < lb_size buf" for j
    using free_fold_nth [OF Suc.prems(1,3) that(2), of "[k]"] k that by (simp add: sel)
  have at: "line_at buf1 j = line_at buf j" if "k < j" "j < lb_size buf" for j
    using one [OF that] by (simp add: line_at_def sel idx)
  have live: "live_from buf1 (Suc k)"
    unfolding live_from_def sel(1) idx
  proof (intro allI impI)
    fix j
    assume j: "Suc k \<le> j \<and> j < lb_size buf - 1"
    then have "\<exists>fl. lb_lines buf ! linebuf_nth_to_index buf j = Line fl"
      using Suc.prems(5) unfolding live_from_def by simp
    then show "\<exists>fl. lb_lines buf1 ! linebuf_nth_to_index buf j = Line fl" using one [of j] conjunct1 [OF j] conjunct2 [OF j] by simp
  qed
  have step: "recycle_loop (Suc n) k buf = recycle_loop n (Suc k) buf1"
  proof (cases ?last)
    case True
    then show ?thesis
      using read_line_at [OF k Suc.prems(5)] get_nth_line_cases [OF k] Suc.prems(6) k
      by (simp add: Let_def buf1_def free_line_def free_one_def s16_diff)
  next
    case False
    then have lt: "k < lb_size buf - 1" "int k \<noteq> int (lb_size buf) - 1" using k by auto
    then obtain fl where fl: "lb_lines buf ! linebuf_nth_to_index buf k = Line fl"
      using Suc.prems(5) unfolding live_from_def by blast
    show ?thesis
      using read_line_at [OF k Suc.prems(5)] get_nth_line_cases [OF k] Suc.prems(6) lt fl
      by (simp add: Let_def buf1_def free_line_def free_one_def s16_diff)
  qed
  have IH: "recycle_loop n (Suc k) buf1 = Some (buf1\<lparr>lb_lines := freed buf1 (Suc k) n,
      lb_total_rendered := s16 (x - int (fl_render ?FL) - renders_from buf1 (Suc k) n),
      lb_total_size_except_last := lb_total_size_except_last buf1 - sizes_from buf1 (Suc k) n\<rparr>)"
    using Suc.prems live by (intro Suc.IH) (auto simp: buf1_def free_one_def)
  have split: "{k..<k + Suc n} = insert k {Suc k..<Suc k + n}" by auto
  have r: "renders_from buf k (Suc n) = int (fl_render ?FL) + renders_from buf1 (Suc k) n"
    using Suc.prems(4) unfolding renders_from_def split by (simp add: at)
  have z: "sizes_from buf k (Suc n) = (if k < lb_size buf - 1 then int (fl_size ?FL) else 0) + sizes_from buf1 (Suc k) n"
    using Suc.prems(4) unfolding sizes_from_def split sel(1)
    by (simp add: at) (intro impI sum.cong refl, simp add: at)
  have fo: "free_one buf1 = free_one buf" by (intro ext) (simp add: free_one_def sel idx)
  have "[k..<k + Suc n] = k # [Suc k..<Suc k + n]" by (simp add: upt_rec)
  then have f: "freed buf k (Suc n) = freed buf1 (Suc k) n" by (simp add: freed_def fo sel)
  show ?case unfolding step IH r z f by (simp add: buf1_def algebra_simps)
qed

lemma frozen_line_at: "frozen buf = map (line_at buf) [0..<lb_size buf - 1]"
  by (auto simp: frozen_def line_at_def)

lemma renders_total:
  assumes "c < lb_size buf"
  shows "int (sum_list (map fl_render (drop c (frozen buf))) + ed_render (lb_edit buf))
    = int (sum_list (map fl_render (frozen buf)) + ed_render (lb_edit buf)) - renders_from buf 0 c"
proof -
  have e: "map fl_render (frozen buf) = map (fl_render \<circ> line_at buf) [0..<lb_size buf - 1]"
    by (simp add: frozen_line_at)
  have "[0..<lb_size buf - 1] = [0..<c] @ [c..<lb_size buf - 1]" using assms by (intro upt_split) simp_all
  then have "sum_list (map fl_render (frozen buf)) = sum_list (map (fl_render \<circ> line_at buf) [0..<c])
      + sum_list (map fl_render (drop c (frozen buf)))"
    by (simp add: frozen_line_at drop_map)
  moreover have "int (sum_list (map (fl_render \<circ> line_at buf) [0..<c])) = renders_from buf 0 c"
    by (simp add: renders_from_def interv_sum_list_conv_sum_set_nat)
  ultimately show ?thesis by simp
qed

lemma sizes_total:
  assumes "c \<le> lb_size buf"
  shows "int (sum_list (map fl_size (drop c (frozen buf)))) = int (sum_list (map fl_size (frozen buf))) - sizes_from buf 0 c"
proof -
  let ?m = "min c (lb_size buf - 1)"
  have "[0..<lb_size buf - 1] = [0..<?m] @ [?m..<lb_size buf - 1]"
    by (rule upt_split) simp_all
  then have "sum_list (map fl_size (frozen buf)) = sum_list (map (fl_size \<circ> line_at buf) [0..<?m])
      + sum_list (map fl_size (drop ?m (frozen buf)))"
    by (simp add: frozen_line_at drop_map)
  moreover have "drop ?m (frozen buf) = drop c (frozen buf)" by (auto simp: frozen_line_at min_def)
  moreover have "int (sum_list (map (fl_size \<circ> line_at buf) [0..<?m])) = sizes_from buf 0 c"
  proof -
    have "{0..<c} \<inter> {j. j < lb_size buf - 1} = {0..<?m}" by auto
    then show ?thesis by (simp add: sizes_from_def interv_sum_list_conv_sum_set_nat sum.If_cases)
  qed
  ultimately show ?thesis by simp
qed

lemma recycle_correct:
  assumes "lb_shape buf" "lb_totals buf" "c \<le> lb_size buf"
  shows "\<exists>buf'. linebuf_recycle_oldest_lines buf (int c) = Some buf' \<and> lb_shape buf' \<and> lb_totals buf'
    \<and> frozen buf' = drop c (frozen buf) \<and> lb_size buf' = lb_size buf - c \<and> lb_absolute buf' = lb_absolute buf + c
    \<and> lb_edit buf' = lb_edit buf \<and> lb_capacity buf' = lb_capacity buf \<and> lb_backlog_size buf' = lb_backlog_size buf
    \<and> lb_absolute_rendered buf' = lb_absolute_rendered buf"
proof (cases "c = 0")
  case True
  then show ?thesis using assms(1,2) by (simp add: linebuf_recycle_oldest_lines_def)
next
  case False
  note sh = assms(1) [unfolded lb_shape_def] and tot = assms(2) [unfolded lb_totals_def]
  have cap: "0 < lb_capacity buf" "length (lb_lines buf) = lb_capacity buf" "lb_size buf \<le> lb_capacity buf"
    using sh by blast+
  have live: "live_from buf 0" using sh by (auto simp: live_from_def)
  define buf' where "buf' = buf\<lparr>lb_lines := freed buf 0 c,
    lb_total_rendered := s16 (int (sum_list (map fl_render (frozen buf)) + last_render buf) - renders_from buf 0 c),
    lb_total_size_except_last := lb_total_size_except_last buf - sizes_from buf 0 c,
    lb_start := linebuf_index_add buf (lb_start buf) (int c), lb_size := lb_size buf - c,
    lb_absolute := lb_absolute buf + c\<rparr>"
  have start: "linebuf_index_add buf (lb_start buf) (int c) = (lb_start buf + c) mod lb_capacity buf"
    by (simp add: linebuf_index_add_def nat_mod_distrib flip: of_nat_add)
  have run: "linebuf_recycle_oldest_lines buf (int c) = Some buf'"
    using recycle_loop_correct [OF cap(2,1,3) _ live, of c] tot assms(3) False
    by (simp add: linebuf_recycle_oldest_lines_def Let_def buf'_def linebuf_index_add_def)
  have idx: "linebuf_nth_to_index buf' k = linebuf_nth_to_index buf (c + k)" for k
    by (simp add: linebuf_nth_to_index_def buf'_def start mod_add_left_eq add.assoc)
  have slot: "lb_lines buf' ! linebuf_nth_to_index buf' k = lb_lines buf ! linebuf_nth_to_index buf (c + k)"
    if "k < lb_size buf - c" for k
  proof -
    have "set [0..<c] \<subseteq> {..<lb_size buf}" "c + k < lb_size buf" using assms(3) that by auto
    from free_fold_nth [OF cap(2,3) this(2,1)] show ?thesis unfolding idx by (simp add: buf'_def freed_def)
  qed
  have sel: "lb_size buf' = lb_size buf - c" "lb_capacity buf' = lb_capacity buf" "lb_edit buf' = lb_edit buf"
    "length (lb_lines buf') = length (lb_lines buf)" "lb_start buf' = (lb_start buf + c) mod lb_capacity buf"
    by (simp_all add: buf'_def start freed_def length_free_fold)
  have fr: "frozen buf' = drop c (frozen buf)"
    by (rule nth_equalityI) (auto simp: frozen_def slot sel(1) less_diff_conv)
  have "lb_shape buf'"
    unfolding lb_shape_def
  proof (intro conjI)
    show "\<forall>k<lb_size buf' - 1. \<exists>fl. lb_lines buf' ! linebuf_nth_to_index buf' k = Line fl \<and> fline_ok fl"
    proof (intro allI impI)
      fix k
      assume "k < lb_size buf' - 1"
      then have "k < lb_size buf - c" "c + k < lb_size buf - 1" by (auto simp: sel(1))
      then show "\<exists>fl. lb_lines buf' ! linebuf_nth_to_index buf' k = Line fl \<and> fline_ok fl"
        using sh slot [of k] by simp
    qed
    show "0 < lb_size buf' \<longrightarrow> lb_lines buf' ! linebuf_nth_to_index buf' (lb_size buf' - 1) = Null_Line"
      using sh slot [of "lb_size buf' - 1"] by (auto simp: sel(1))
  qed (use cap sel in auto)
  moreover have "lb_totals buf'"
  proof -
    have "sizes_from buf 0 c = int (sum_list (map fl_size (frozen buf))) - int (sum_list (map fl_size (drop c (frozen buf))))"
      using sizes_total [OF assms(3)] by simp
    then have "lb_total_size_except_last buf' = int (sum_list (map fl_size (frozen buf')))"
      using tot by (simp add: fr) (simp add: buf'_def)
    moreover have "int (sum_list (map fl_render (frozen buf)) + last_render buf) - renders_from buf 0 c
      = int (sum_list (map fl_render (frozen buf')) + last_render buf')"
    proof (cases "c < lb_size buf")
      case True
      then show ?thesis using renders_total [OF True] by (simp add: fr last_render_def sel)
    next
      case eq: False
      then have c: "c = Suc (lb_size buf - 1)" using assms(3) False by simp
      have "renders_from buf 0 c = renders_from buf 0 (lb_size buf - 1) + int (ed_render (lb_edit buf))"
        unfolding c by (simp add: renders_from_def line_at_def)
      moreover have "frozen buf' = []" "last_render buf' = 0"
        using eq by (simp_all add: fr frozen_def last_render_def sel)
      moreover have "drop (lb_size buf - 1) (frozen buf) = []" by (simp add: frozen_def)
      ultimately show ?thesis using renders_total [of "lb_size buf - 1" buf] False assms(3)
        by (simp add: last_render_def)
    qed
    moreover have "lb_total_rendered buf'
      = s16 (int (sum_list (map fl_render (frozen buf)) + last_render buf) - renders_from buf 0 c)"
      unfolding buf'_def by simp
    ultimately show ?thesis unfolding lb_totals_def by (simp only: simp_thms)
  qed
  moreover have "lb_absolute buf' = lb_absolute buf + c" "lb_backlog_size buf' = lb_backlog_size buf"
    "lb_absolute_rendered buf' = lb_absolute_rendered buf"
    by (simp_all add: buf'_def)
  ultimately show ?thesis using run fr sel by blast
qed

section \<open>A new line\<close>

definition edit_line :: "stredit \<Rightarrow> console_fline" where
  "edit_line ed = \<lparr>fl_size = length (ed_text ed), fl_render = ed_render ed, fl_data = ed_text ed\<rparr>"

definition all_lines :: "linebuf \<Rightarrow> console_fline list" where
  "all_lines buf = frozen buf @ (if lb_size buf > 0 then [edit_line (lb_edit buf)] else [])"

lemma length_frozen [simp]: "length (frozen buf) = lb_size buf - 1"
  by (simp add: frozen_def)

lemma length_all_lines [simp]: "length (all_lines buf) = lb_size buf"
  by (simp add: all_lines_def)

lemma lb_texts_lines: "lb_texts buf = map fl_data (all_lines buf)"
  by (simp add: lb_texts_def all_lines_def edit_line_def)

lemma frozen_ok:
  assumes "lb_shape buf" "fl \<in> set (frozen buf)"
  shows "fline_ok fl"
proof -
  obtain k where k: "k < lb_size buf - 1" "fl = slot_line (lb_lines buf ! linebuf_nth_to_index buf k)"
    using assms(2) by (auto simp: frozen_def)
  then show ?thesis using assms(1) unfolding lb_shape_def by (force simp: slot_line_def)
qed

lemma index_eq_iff:
  assumes "i < lb_capacity buf" "j < lb_capacity buf"
  shows "linebuf_nth_to_index buf i = linebuf_nth_to_index buf j \<longleftrightarrow> i = j"
  using mod_window_inj [OF assms, of "lb_start buf"] by (auto simp: linebuf_nth_to_index_def)

definition fresh_line :: stredit where
  "fresh_line = stredit_init 16 CONSOLE_FLINE_SIZE PE_CONSOLE_LINE_MAX_LENGTH"

lemma fresh_line_ok:
  "stredit_ok fresh_line" "ed_text fresh_line = []" "ed_render fresh_line = 0" "ed_prefix fresh_line = 0"
  "ed_max fresh_line = PE_CONSOLE_LINE_MAX_LENGTH"
  by (simp_all add: fresh_line_def stredit_init_def stredit_ok_def PE_CONSOLE_LINE_MAX_LENGTH_def
      CONSOLE_FLINE_SIZE_def u16_def)

text \<open>After the buffer has made space: freezing and the new slot.\<close>

lemma append_line_correct:
  assumes "lb_ok buf" "lb_size buf < lb_capacity buf"
  shows "\<exists>b1 b2. freeze_last buf = Some b1
    \<and> b2 = b1\<lparr>lb_size := lb_size b1 + 1,
        lb_lines := (lb_lines b1)[linebuf_nth_to_index b1 (lb_size b1) := Null_Line], lb_edit := fresh_line\<rparr>
    \<and> lb_ok b2 \<and> frozen b2 = all_lines buf \<and> lb_size b2 = lb_size buf + 1 \<and> lb_edit b2 = fresh_line
    \<and> lb_capacity b2 = lb_capacity buf \<and> lb_absolute b2 = lb_absolute buf
    \<and> lb_backlog_size b2 = lb_backlog_size buf \<and> lb_absolute_rendered b2 = lb_absolute_rendered buf"
proof -
  note sh = assms(1) [unfolded lb_ok_def lb_shape_def]
  let ?n = "lb_size buf" and ?L = "lb_lines buf" and ?i = "linebuf_nth_to_index buf"
  let ?fl = "edit_line (lb_edit buf)"
  define L1 where "L1 = (if 0 < ?n then ?L[?i (?n - 1) := Line ?fl] else ?L)"
  define b1 where "b1 = (if 0 < ?n then buf\<lparr>lb_total_size_except_last := lb_total_size_except_last buf + int (fl_size ?fl),
      lb_edit := stredit_zero, lb_lines := L1\<rparr> else buf)"
  define b2 where "b2 = b1\<lparr>lb_size := lb_size b1 + 1,
      lb_lines := (lb_lines b1)[linebuf_nth_to_index b1 (lb_size b1) := Null_Line], lb_edit := fresh_line\<rparr>"
  have last: "length (ed_text (lb_edit buf)) \<le> 1024" if "0 < ?n"
    using assms(1) that editor.contents_le [of "lb_edit buf"]
    by (auto simp: lb_ok_def last_ok_def PE_CONSOLE_LINE_MAX_LENGTH_def)
  have freeze: "freeze_last buf = Some b1"
    using sh last
    by (auto simp: freeze_last_def b1_def L1_def stredit_freeze_and_reset_def stredit_reset_def edit_line_def u16_id Let_def)
  have sel: "lb_size b2 = ?n + 1" "lb_capacity b2 = lb_capacity buf" "lb_start b2 = lb_start buf" "lb_edit b2 = fresh_line"
    "lb_lines b2 = L1[?i ?n := Null_Line]" "lb_absolute b2 = lb_absolute buf" "lb_backlog_size b2 = lb_backlog_size buf"
    "lb_absolute_rendered b2 = lb_absolute_rendered buf" "lb_total_rendered b2 = lb_total_rendered buf"
    "lb_total_size_except_last b2 = lb_total_size_except_last buf + (if 0 < ?n then int (fl_size ?fl) else 0)"
    by (simp_all add: b2_def b1_def L1_def linebuf_nth_to_index_def)
  have idx: "linebuf_nth_to_index b2 k = ?i k" for k by (simp add: linebuf_nth_to_index_def sel)
  have len: "length L1 = lb_capacity buf" using sh by (simp add: L1_def)
  have i_less: "?i k < lb_capacity buf" for k using sh by (intro nth_index_less) blast
  have slot: "lb_lines b2 ! ?i k = (if k = ?n then Null_Line else if Suc k = ?n then Line ?fl else ?L ! ?i k)"
    if "k \<le> ?n" for k
  proof -
    have "?i ?n = ?i k \<longleftrightarrow> ?n = k" "0 < ?n \<Longrightarrow> ?i (?n - 1) = ?i k \<longleftrightarrow> ?n - 1 = k"
      using that assms(2) by (auto simp: index_eq_iff)
    then show ?thesis using that i_less sh by (auto simp: sel L1_def nth_list_update)
  qed
  have fr: "frozen b2 = all_lines buf"
  proof (rule nth_equalityI)
    show "length (frozen b2) = length (all_lines buf)" by (simp add: sel)
    fix k
    assume "k < length (frozen b2)"
    then have k: "k < ?n" by (simp add: sel)
    then show "frozen b2 ! k = all_lines buf ! k"
      using slot [of k] by (auto simp: frozen_def all_lines_def nth_append sel idx slot_line_def)
  qed
  have ok: "fline_ok ?fl" if "0 < ?n" using last [OF that] by (simp add: fline_ok_def edit_line_def PE_CONSOLE_LINE_MAX_LENGTH_def)
  have "lb_shape b2"
    unfolding lb_shape_def
  proof (intro conjI)
    show "\<forall>k<lb_size b2 - 1. \<exists>fl. lb_lines b2 ! linebuf_nth_to_index b2 k = Line fl \<and> fline_ok fl"
    proof (intro allI impI)
      fix k
      assume "k < lb_size b2 - 1"
      then have k: "k < ?n" by (simp add: sel)
      show "\<exists>fl. lb_lines b2 ! linebuf_nth_to_index b2 k = Line fl \<and> fline_ok fl"
      proof (cases "Suc k = ?n")
        case True
        then show ?thesis using slot [of k] ok k by (simp add: idx)
      next
        case False
        then have "k < ?n - 1" using k by simp
        then show ?thesis using slot [of k] sh k False by (simp add: idx)
      qed
    qed
    show "0 < lb_size b2 \<longrightarrow> lb_lines b2 ! linebuf_nth_to_index b2 (lb_size b2 - 1) = Null_Line"
      using slot [of ?n] by (simp add: sel(1) idx)
  qed (use sh assms(2) len sel in auto)
  moreover have "lb_totals b2"
    using assms(1) fresh_line_ok(3) unfolding lb_ok_def lb_totals_def fr
    by (auto simp: sel last_render_def all_lines_def edit_line_def)
  moreover have "last_ok b2" using fresh_line_ok by (simp add: last_ok_def sel)
  ultimately show ?thesis using freeze b2_def fr sel unfolding lb_ok_def by blast
qed

lemma lb_ok_recycled:
  assumes "lb_ok buf" "lb_shape buf'" "lb_totals buf'" "lb_edit buf' = lb_edit buf" "lb_size buf' \<le> lb_size buf"
  shows "lb_ok buf'"
  using assms by (auto simp: lb_ok_def last_ok_def)

lemma recycle_none: "count \<le> 0 \<Longrightarrow> linebuf_recycle_oldest_lines buf count = Some buf"
  by (simp add: linebuf_recycle_oldest_lines_def Let_def min_def)

lemma newline_correct:
  assumes "lb_ok buf"
  shows "\<exists>buf'. linebuf_newline buf = Some buf' \<and> lb_ok buf'
    \<and> frozen buf' = drop (lb_size buf + 1 - lb_capacity buf) (all_lines buf) \<and> lb_edit buf' = fresh_line
    \<and> 0 < lb_size buf' \<and> lb_absolute buf' = lb_absolute buf + (lb_size buf + 1 - lb_capacity buf)
    \<and> lb_capacity buf' = lb_capacity buf \<and> lb_backlog_size buf' = lb_backlog_size buf
    \<and> lb_absolute_rendered buf' = lb_absolute_rendered buf"
proof -
  let ?d = "lb_size buf + 1 - lb_capacity buf"
  have cap: "0 < lb_capacity buf" "lb_size buf \<le> lb_capacity buf" using assms by (auto simp: lb_ok_def lb_shape_def)
  have d: "?d = 0 \<and> int (lb_size buf) - int (lb_capacity buf) + 1 \<le> 0
    \<or> int (lb_size buf) - int (lb_capacity buf) + 1 = int ?d" by linarith
  have rec: "linebuf_recycle_oldest_lines buf (int (lb_size buf) - int (lb_capacity buf) + 1)
      = linebuf_recycle_oldest_lines buf (int ?d)"
    using d
  proof
    assume "?d = 0 \<and> int (lb_size buf) - int (lb_capacity buf) + 1 \<le> 0"
    then show ?thesis using recycle_none by simp
  next
    assume "int (lb_size buf) - int (lb_capacity buf) + 1 = int ?d"
    then show ?thesis by (simp only:)
  qed
  have "?d \<le> lb_size buf" using cap by linarith
  with recycle_correct [of buf ?d] assms obtain b where b:
    "linebuf_recycle_oldest_lines buf (int (lb_size buf) - int (lb_capacity buf) + 1) = Some b"
    "lb_shape b" "lb_totals b" "frozen b = drop ?d (frozen buf)" "lb_size b = lb_size buf - ?d"
    "lb_absolute b = lb_absolute buf + ?d" "lb_edit b = lb_edit buf" "lb_capacity b = lb_capacity buf"
    "lb_backlog_size b = lb_backlog_size buf" "lb_absolute_rendered b = lb_absolute_rendered buf"
    unfolding lb_ok_def rec by blast
  have "lb_ok b" using lb_ok_recycled [OF assms b(2,3,7)] b(5) by simp
  moreover have "lb_size b < lb_capacity b" using b(5,8) cap by auto
  ultimately obtain b1 b2 where a: "freeze_last b = Some b1"
    "b2 = b1\<lparr>lb_size := lb_size b1 + 1, lb_lines := (lb_lines b1)[linebuf_nth_to_index b1 (lb_size b1) := Null_Line],
      lb_edit := fresh_line\<rparr>" "lb_ok b2" "frozen b2 = all_lines b" "lb_size b2 = lb_size b + 1" "lb_edit b2 = fresh_line"
    "lb_capacity b2 = lb_capacity b" "lb_absolute b2 = lb_absolute b" "lb_backlog_size b2 = lb_backlog_size b"
    "lb_absolute_rendered b2 = lb_absolute_rendered b"
    using append_line_correct [of b] by blast
  have "linebuf_newline buf = Some b2"
    unfolding linebuf_newline_def b(1) a(2) by (simp add: a(1) Let_def fresh_line_def linebuf_nth_to_index_def)
  moreover have "all_lines b = drop ?d (all_lines buf)"
    using b(4,5,7) cap by (auto simp: all_lines_def)
  ultimately show ?thesis using a b by auto
qed

section \<open>The backlog\<close>

lemma backlog_loop_correct:
  assumes "lb_shape buf" "r0 \<le> lb_size buf - 1" "lb_size buf - 1 < k + r0"
    and "n = N - int (sum_list (map fl_size (take r0 (frozen buf))))"
  shows "\<exists>r. backlog_loop k buf r0 n = Some r \<and> r0 \<le> r \<and> r \<le> lb_size buf - 1
    \<and> (r = lb_size buf - 1 \<or> N - int (sum_list (map fl_size (take r (frozen buf)))) \<le> int (lb_backlog_size buf))
    \<and> (\<forall>j. r0 \<le> j \<and> j < r \<longrightarrow> int (lb_backlog_size buf) < N - int (sum_list (map fl_size (take j (frozen buf)))))"
  using assms
proof (induction k arbitrary: r0 n)
  case (Suc k)
  show ?case
  proof (cases "int r0 < int (lb_size buf) - 1 \<and> n > int (lb_backlog_size buf)")
    case True
    then have r0: "r0 < lb_size buf - 1" "r0 < lb_size buf" by auto
    have live: "live_from buf r0" using Suc.prems(1) unfolding lb_shape_def live_from_def by blast
    have fl: "line_at buf r0 = frozen buf ! r0" using r0 by (simp add: frozen_line_at)
    have "take (Suc r0) (frozen buf) = take r0 (frozen buf) @ [frozen buf ! r0]"
      using r0 by (simp add: take_Suc_conv_app_nth)
    then have n: "n - int (fl_size (frozen buf ! r0)) = N - int (sum_list (map fl_size (take (Suc r0) (frozen buf))))"
      using Suc.prems(4) by simp
    obtain r where r: "backlog_loop k buf (Suc r0) (n - int (fl_size (frozen buf ! r0))) = Some r" "Suc r0 \<le> r"
      "r \<le> lb_size buf - 1"
      "r = lb_size buf - 1 \<or> N - int (sum_list (map fl_size (take r (frozen buf)))) \<le> int (lb_backlog_size buf)"
      "\<forall>j. Suc r0 \<le> j \<and> j < r \<longrightarrow> int (lb_backlog_size buf) < N - int (sum_list (map fl_size (take j (frozen buf))))"
      using Suc.IH [OF Suc.prems(1) _ _ n] r0 Suc.prems(3) by auto
    have "backlog_loop (Suc k) buf r0 n = Some r"
      using True r(1) read_line_at [OF r0(2) live] by (simp add: fl)
    moreover have "int (lb_backlog_size buf) < N - int (sum_list (map fl_size (take j (frozen buf))))"
      if "r0 \<le> j" "j < r" for j
      using r(5) True Suc.prems(4) that by (cases "j = r0") auto
    ultimately show ?thesis using r by auto
  next
    case False
    then have "backlog_loop (Suc k) buf r0 n = Some r0" by auto
    then show ?thesis using False Suc.prems by auto
  qed
qed simp

lemma clean_backlog_correct:
  assumes "lb_ok buf" "0 < lb_size buf"
  shows "\<exists>buf' r. linebuf_clean_backlog buf = Some buf' \<and> lb_ok buf' \<and> r \<le> lb_size buf - 1
    \<and> frozen buf' = drop r (frozen buf) \<and> lb_edit buf' = lb_edit buf \<and> lb_size buf' = lb_size buf - r
    \<and> lb_absolute buf' = lb_absolute buf + r \<and> lb_capacity buf' = lb_capacity buf
    \<and> lb_backlog_size buf' = lb_backlog_size buf \<and> lb_absolute_rendered buf' = lb_absolute_rendered buf
    \<and> (lb_size buf' = 1 \<or> sum_list (map length (lb_texts buf')) \<le> lb_backlog_size buf)
    \<and> (0 < r \<longrightarrow> lb_backlog_size buf < sum_list (map length (drop (r - 1) (lb_texts buf))))"
proof -
  note ok = assms(1) [unfolded lb_ok_def]
  let ?sizes = "\<lambda>fls. int (sum_list (map fl_size fls))"
  define N where "N = lb_total_size_except_last buf + int (length (ed_text (lb_edit buf)))"
  obtain r where r: "backlog_loop (lb_size buf) buf 0 N = Some r" "r \<le> lb_size buf - 1"
    "r = lb_size buf - 1 \<or> N - ?sizes (take r (frozen buf)) \<le> int (lb_backlog_size buf)"
    "\<forall>j. j < r \<longrightarrow> int (lb_backlog_size buf) < N - ?sizes (take j (frozen buf))"
    using backlog_loop_correct [of buf 0 "lb_size buf" N N] ok assms(2) by auto
  have run: "linebuf_clean_backlog buf = linebuf_recycle_oldest_lines buf (int r)"
    using r(1) assms(2) by (simp add: linebuf_clean_backlog_def linebuf_get_last_line_def N_def)
  obtain buf' where b: "linebuf_recycle_oldest_lines buf (int r) = Some buf'" "lb_shape buf'" "lb_totals buf'"
    "frozen buf' = drop r (frozen buf)" "lb_size buf' = lb_size buf - r" "lb_absolute buf' = lb_absolute buf + r"
    "lb_edit buf' = lb_edit buf" "lb_capacity buf' = lb_capacity buf" "lb_backlog_size buf' = lb_backlog_size buf"
    "lb_absolute_rendered buf' = lb_absolute_rendered buf"
    using recycle_correct [OF conjunct1 [OF ok] conjunct1 [OF conjunct2 [OF ok]], of r] r(2)
    by (meson diff_le_self order_trans)
  have size: "map length (map fl_data fls) = map fl_size fls" if "set fls \<subseteq> set (frozen buf)" for fls
    using that frozen_ok ok by (auto simp: fline_ok_def subset_iff)
  have rest: "N - ?sizes (take j (frozen buf)) = int (sum_list (map length (drop j (lb_texts buf))))"
    if "j \<le> lb_size buf - 1" for j
  proof -
    have "?sizes (frozen buf) = ?sizes (take j (frozen buf)) + ?sizes (drop j (frozen buf))"
      by (metis append_take_drop_id map_append of_nat_add sum_list_append)
    moreover have "map length (drop j (lb_texts buf)) = map fl_size (drop j (frozen buf)) @ [length (ed_text (lb_edit buf))]"
      using that assms(2) size [of "drop j (frozen buf)"] set_drop_subset [of j "frozen buf"]
      by (simp add: lb_texts_def drop_map)
    ultimately show ?thesis using ok by (simp add: N_def lb_totals_def)
  qed
  have texts: "lb_texts buf' = drop r (lb_texts buf)"
    using b(4,5,7) assms(2) r(2) by (simp add: lb_texts_def drop_map)
  have "lb_size buf' = 1 \<or> sum_list (map length (lb_texts buf')) \<le> lb_backlog_size buf"
    using r(3) rest [OF r(2)] b(5) assms(2) unfolding texts by auto
  moreover have "0 < r \<longrightarrow> lb_backlog_size buf < sum_list (map length (drop (r - 1) (lb_texts buf)))"
    using r(2) r(4) [rule_format, of "r - 1"] rest [of "r - 1"] by auto
  moreover have "lb_ok buf'" using lb_ok_recycled [OF assms(1) b(2,3,7)] b(5) by simp
  ultimately show ?thesis using run b r(2) by auto
qed

end
