(* ===== verification/Console.thy ===== *)
theory Console
  imports LineBuf
begin

text \<open>
  The terminal emulator of \<^verbatim>\<open>ports/sh/console.c\<close> on top of the rotating array of lines.  What the
  display library computes is a parameter: \<open>fit font w s\<close> is the number of bytes of \<open>s\<close> that \<^verbatim>\<open>drsize\<close>
  puts on a line of width \<open>w\<close> in the given font.  Functions that the source runs between two calls of
  \<^verbatim>\<open>dfont\<close> get \<open>fit\<close> at the font that is set there.  A call returns the console and its Boolean result;
  \<open>None\<close> is an access outside of a buffer, to a freed line or through the null pointer.
\<close>

text \<open>A font is a pointer; 0 is the null pointer, which stands for the default font.\<close>

type_synonym font = nat

section \<open>Layout\<close>

text \<open>The width of the text, for the black and white (\<open>fx\<close>) and the colour models.\<close>

definition view_params :: "bool \<Rightarrow> int \<Rightarrow> int" where
  "view_params fx w = (if fx then w - 2 else w - 4)"

partial_function (option) render_lines_loop :: "(nat list \<Rightarrow> nat) \<Rightarrow> nat list \<Rightarrow> nat \<Rightarrow> nat option" where
  "render_lines_loop fit p render_lines =
     (let render_lines = u8 (render_lines + 1);
          p = drop (fit p) p
      in if p = [] \<or> hd p = 0 then Some render_lines
         else render_lines_loop fit p render_lines)"

definition console_fline_update_render_lines :: "(nat list \<Rightarrow> nat) \<Rightarrow> nat list \<Rightarrow> nat option" where
  "console_fline_update_render_lines fit data = render_lines_loop fit data 0"

text \<open>The loop over the absolute line numbers from \<open>ab\<close> on; \<open>n\<close> lines are left.\<close>

fun update_render_loop :: "(nat list \<Rightarrow> nat) \<Rightarrow> nat \<Rightarrow> nat \<Rightarrow> linebuf \<Rightarrow> linebuf option" where
  "update_render_loop fit 0 ab buf = Some buf"
| "update_render_loop fit (Suc n) ab buf = do {
     let ref = linebuf_get_nth_line buf (int ab - int (lb_absolute buf));
     FL \<leftarrow> read_line buf ref;
     let buf = buf\<lparr>lb_total_rendered := s16 (lb_total_rendered buf - int (fl_render FL))\<rparr>;
     render_lines \<leftarrow> console_fline_update_render_lines fit (fl_data FL);
     buf \<leftarrow> write_render buf ref render_lines;
     let buf = buf\<lparr>lb_total_rendered := s16 (lb_total_rendered buf + int render_lines)\<rparr>;
     update_render_loop fit n (Suc ab) buf }"

definition linebuf_update_render :: "(int \<Rightarrow> nat list \<Rightarrow> nat) \<Rightarrow> bool \<Rightarrow> linebuf \<Rightarrow> int \<Rightarrow> bool \<Rightarrow> linebuf option" where
  "linebuf_update_render fit fx buf width lazy =
     (let start = linebuf_start buf;
          fin = linebuf_end buf;
          start = (if lazy then nat (max (int start) (lb_absolute_rendered buf + 1)) else start);
          text_w = view_params fx width
      in do {
        buf \<leftarrow> update_render_loop (fit text_w) (fin - start) start buf;
        Some (buf\<lparr>lb_absolute_rendered := max (lb_absolute_rendered buf) (int fin - 2)\<rparr>) })"

section \<open>The console\<close>

record console =
  cons_lines :: linebuf
  cons_cursor :: int
  cons_render_needed :: bool
  cons_render_font :: font
  cons_render_width :: int
  cons_render_lines :: int

definition console_newline :: "console \<Rightarrow> console option" where
  "console_newline cons = do {
     buf \<leftarrow> linebuf_newline (cons_lines cons);
     buf \<leftarrow> linebuf_clean_backlog buf;
     Some (cons\<lparr>cons_lines := buf, cons_cursor := 0, cons_render_needed := True\<rparr>) }"

definition console_create :: "int \<Rightarrow> int \<Rightarrow> console option" where
  "console_create backlog_size maximum_line_count = do {
     buf \<leftarrow> linebuf_init (nat (max maximum_line_count 1))
              (nat (max backlog_size (int PE_CONSOLE_LINE_MAX_LENGTH)));
     console_newline \<lparr>cons_lines = buf, cons_cursor = - 1, cons_render_needed = True,
                       cons_render_font = 0, cons_render_width = 0, cons_render_lines = 0\<rparr> }"

definition console_clear_render_flag :: "console \<Rightarrow> console" where
  "console_clear_render_flag cons = cons\<lparr>cons_render_needed := False\<rparr>"

definition console_destroy :: "console \<Rightarrow> unit option" where
  "console_destroy cons = linebuf_deinit (cons_lines cons)"

definition console_compute_view ::
  "(font \<Rightarrow> int \<Rightarrow> nat list \<Rightarrow> nat) \<Rightarrow> bool \<Rightarrow> console \<Rightarrow> font \<Rightarrow> int \<Rightarrow> int \<Rightarrow> console option" where
  "console_compute_view fit fx cons font width rows =
     (let lazy = (width \<noteq> 0 \<and> cons_render_width cons = width);
          cons = cons\<lparr>cons_render_font := font, cons_render_width := s16 width, cons_render_lines := s16 rows\<rparr>
      in do {
        buf \<leftarrow> linebuf_update_render (fit font) fx (cons_lines cons) width lazy;
        Some (cons\<lparr>cons_lines := buf\<rparr>) })"

definition console_clamp_scrollpos :: "console \<Rightarrow> int \<Rightarrow> int" where
  "console_clamp_scrollpos cons pos =
     (if lb_total_rendered (cons_lines cons) < cons_render_lines cons then 0
      else max 0 (min pos (lb_total_rendered (cons_lines cons) - cons_render_lines cons)))"

section \<open>Editing\<close>

definition last_line :: "console \<Rightarrow> stredit option" where
  "last_line cons = linebuf_get_last_line (cons_lines cons)"

definition set_last_line :: "console \<Rightarrow> stredit \<Rightarrow> console" where
  "set_last_line cons ed = cons\<lparr>cons_lines := (cons_lines cons)\<lparr>lb_edit := ed\<rparr>\<rparr>"

definition console_set_cursor :: "console \<Rightarrow> int \<Rightarrow> (console \<times> bool) option" where
  "console_set_cursor cons pos = do {
     ed \<leftarrow> last_line cons;
     if pos < int (ed_prefix ed) \<or> pos > int (length (ed_text ed)) then Some (cons, False)
     else Some (cons\<lparr>cons_cursor := pos\<rparr>, True) }"

definition console_move_cursor :: "console \<Rightarrow> int \<Rightarrow> (console \<times> bool) option" where
  "console_move_cursor cons cursor_movement = console_set_cursor cons (cons_cursor cons + cursor_movement)"

definition console_get_line :: "console \<Rightarrow> nat list option" where
  "console_get_line cons = do {
     ed \<leftarrow> last_line cons;
     Some (drop (ed_prefix ed) (ed_text ed)) }"

text \<open>The loop of \<open>console_write_raw\<close>: \<open>str\<close> is the whole string in every round.\<close>

partial_function (option) write_raw_loop :: "console \<Rightarrow> nat list \<Rightarrow> int \<Rightarrow> (console \<times> bool) option" where
  "write_raw_loop cons str n =
     (if n > 0 then do {
        ed \<leftarrow> last_line cons;
        let capacity = stredit_capacity ed;
        let round_size = min n capacity;
        (ed, ok) \<leftarrow> stredit_insert ed (cons_cursor cons) (take (nat round_size) str);
        let cons = set_last_line cons ed;
        if \<not> ok then Some (cons, False)
        else do {
          let cons = cons\<lparr>cons_cursor := s16 (cons_cursor cons + round_size), cons_render_needed := True\<rparr>;
          cons \<leftarrow> (if round_size < n then console_newline cons else Some cons);
          write_raw_loop cons str (n - round_size) } }
      else Some (cons, True))"

definition console_write_raw :: "console \<Rightarrow> nat list \<Rightarrow> (console \<times> bool) option" where
  "console_write_raw cons str = do {
     cons \<leftarrow> (if lb_size (cons_lines cons) = 0 then console_newline cons else Some cons);
     write_raw_loop cons str (int (length str)) }"

text \<open>A backspace, and what follows the escape character \<open>27\<close>.\<close>

definition write_backspace :: "console \<Rightarrow> console option" where
  "write_backspace cons = do {
     ed \<leftarrow> last_line cons;
     Some (if cons_cursor cons > 0
           then let cons' = set_last_line cons (fst (stredit_delete ed (cons_cursor cons - 1) 1))
                in cons'\<lparr>cons_cursor := cons_cursor cons' - 1\<rparr>
           else cons) }"

definition write_escape :: "console \<Rightarrow> nat list \<Rightarrow> (console \<times> nat list) option" where
  "write_escape cons s = do {
     ed \<leftarrow> last_line cons;
     let (cons, s) =
       (if take 2 s = [91, 75]
        then (set_last_line cons
                (fst (stredit_delete ed (cons_cursor cons) (int (length (ed_text ed)) - cons_cursor cons))), drop 2 s)
        else (cons, s));
     ed \<leftarrow> last_line cons;
     let cons = (if take 2 s = [1, 68] \<and> cons_cursor cons > 0
                 then cons\<lparr>cons_cursor := cons_cursor cons - 1\<rparr> else cons);
     let cons = (if take 2 s = [1, 67] \<and> cons_cursor cons < int (length (ed_text ed))
                 then cons\<lparr>cons_cursor := cons_cursor cons + 1\<rparr> else cons);
     Some (cons, s) }"

definition plain_char :: "nat \<Rightarrow> bool" where
  "plain_char c \<longleftrightarrow> c \<noteq> 10 \<and> c \<noteq> 27 \<and> c \<noteq> 8"

partial_function (option) write_loop :: "console \<Rightarrow> nat list \<Rightarrow> (console \<times> bool) option" where
  "write_loop cons s =
     (if s = [] then Some (cons, True)
      else do {
        let line = takeWhile plain_char s;
        let rest = dropWhile plain_char s;
        (cons, ok) \<leftarrow> console_write_raw cons line;
        if \<not> ok then Some (cons, False)
        else if rest = [] then Some (cons, True)
        else do {
          (cons, s) \<leftarrow>
            (if hd rest = 10 then map_option (\<lambda>cons. (cons, tl rest)) (console_newline cons)
             else if hd rest = 8 then map_option (\<lambda>cons. (cons, tl rest)) (write_backspace cons)
             else write_escape cons (tl rest));
          write_loop (cons\<lparr>cons_render_needed := True\<rparr>) s } })"

definition console_write :: "console \<Rightarrow> nat list \<Rightarrow> (console \<times> bool) option" where
  "console_write cons buf = write_loop cons buf"

definition console_lock_prefix :: "console \<Rightarrow> console option" where
  "console_lock_prefix cons = do {
     ed \<leftarrow> last_line cons;
     Some (set_last_line cons (stredit_set_prefix ed (cons_cursor cons))) }"

definition console_delete_at_cursor :: "console \<Rightarrow> int \<Rightarrow> console option" where
  "console_delete_at_cursor cons n = do {
     ed \<leftarrow> last_line cons;
     let (ed, real_n) = stredit_delete ed (cons_cursor cons - n) n;
     let cons = set_last_line cons ed;
     Some (cons\<lparr>cons_cursor := cons_cursor cons - real_n, cons_render_needed := True\<rparr>) }"

definition console_clear_current_line :: "console \<Rightarrow> console option" where
  "console_clear_current_line cons = do {
     ed \<leftarrow> last_line cons;
     let ed = fst (stredit_delete ed (int (ed_prefix ed)) (int (length (ed_text ed)) - int (ed_prefix ed)));
     let cons = set_last_line cons ed;
     Some (cons\<lparr>cons_cursor := int (ed_prefix ed), cons_render_needed := True\<rparr>) }"

section \<open>Invariant\<close>

text \<open>
  The invariant of the header file: the console is never empty and the cursor is in the last line;
  and the memory bound, that the frozen lines stay within the backlog.
\<close>

definition cons_text :: "console \<Rightarrow> nat list" where
  "cons_text cons = ed_text (lb_edit (cons_lines cons))"

definition cons_texts :: "console \<Rightarrow> nat list list" where
  "cons_texts cons = lb_texts (cons_lines cons)"

definition cons_ok :: "console \<Rightarrow> bool" where
  "cons_ok cons \<longleftrightarrow> lb_ok (cons_lines cons) \<and> 0 < lb_size (cons_lines cons)
     \<and> 0 \<le> cons_cursor cons \<and> cons_cursor cons \<le> int (length (cons_text cons))
     \<and> PE_CONSOLE_LINE_MAX_LENGTH \<le> lb_backlog_size (cons_lines cons)
     \<and> sum_list (map length (butlast (cons_texts cons))) \<le> lb_backlog_size (cons_lines cons)"

text \<open>\<open>b\<close> has the same array of frozen lines and the same numbers as \<open>a\<close>.\<close>

definition same_array :: "linebuf \<Rightarrow> linebuf \<Rightarrow> bool" where
  "same_array a b \<longleftrightarrow> lb_absolute_rendered b = lb_absolute_rendered a \<and> lb_capacity b = lb_capacity a
     \<and> lb_backlog_size b = lb_backlog_size a"

lemma lb_texts_butlast: "0 < lb_size buf \<Longrightarrow> butlast (lb_texts buf) = map fl_data (frozen buf)"
  by (simp add: lb_texts_def)

lemma lb_texts_last: "0 < lb_size buf \<Longrightarrow> lb_texts buf = map fl_data (frozen buf) @ [ed_text (lb_edit buf)]"
  by (simp add: lb_texts_def)

lemma length_lb_texts [simp]: "length (lb_texts buf) = lb_size buf"
  by (simp add: lb_texts_lines)

lemma console_newline_correct:
  assumes "lb_ok (cons_lines cons)" "PE_CONSOLE_LINE_MAX_LENGTH \<le> lb_backlog_size (cons_lines cons)"
  shows "\<exists>c d. console_newline cons = Some c \<and> cons_ok c \<and> cons_cursor c = 0
    \<and> lb_edit (cons_lines c) = fresh_line \<and> d \<le> length (cons_texts cons)
    \<and> frozen (cons_lines c) = drop d (all_lines (cons_lines cons))
    \<and> cons_texts c = drop d (cons_texts cons) @ [[]]
    \<and> lb_absolute (cons_lines c) = lb_absolute (cons_lines cons) + d
    \<and> (lb_size (cons_lines cons) < lb_capacity (cons_lines cons)
        \<and> sum_list (map length (cons_texts cons)) \<le> lb_backlog_size (cons_lines cons) \<longrightarrow> d = 0)
    \<and> same_array (cons_lines cons) (cons_lines c) \<and> cons_render_width c = cons_render_width cons
    \<and> cons_render_lines c = cons_render_lines cons"
proof -
  let ?b = "cons_lines cons"
  let ?d = "lb_size ?b + 1 - lb_capacity ?b"
  obtain b1 where b1: "linebuf_newline ?b = Some b1" "lb_ok b1" "frozen b1 = drop ?d (all_lines ?b)"
    "lb_edit b1 = fresh_line" "0 < lb_size b1" "lb_absolute b1 = lb_absolute ?b + ?d" "lb_capacity b1 = lb_capacity ?b"
    "lb_backlog_size b1 = lb_backlog_size ?b" "lb_absolute_rendered b1 = lb_absolute_rendered ?b"
    using newline_correct [OF assms(1)] by blast
  obtain b2 r where b2: "linebuf_clean_backlog b1 = Some b2" "lb_ok b2" "r \<le> lb_size b1 - 1"
    "frozen b2 = drop r (frozen b1)" "lb_edit b2 = lb_edit b1" "lb_size b2 = lb_size b1 - r"
    "lb_absolute b2 = lb_absolute b1 + r" "lb_capacity b2 = lb_capacity b1" "lb_backlog_size b2 = lb_backlog_size b1"
    "lb_absolute_rendered b2 = lb_absolute_rendered b1"
    "lb_size b2 = 1 \<or> sum_list (map length (lb_texts b2)) \<le> lb_backlog_size b1"
    "0 < r \<longrightarrow> lb_backlog_size b1 < sum_list (map length (drop (r - 1) (lb_texts b1)))"
    using clean_backlog_correct [OF b1(2,5)] by blast
  define c where "c = cons\<lparr>cons_lines := b2, cons_cursor := 0, cons_render_needed := True\<rparr>"
  have run: "console_newline cons = Some c" by (simp add: console_newline_def b1(1) b2(1) c_def)
  have pos: "0 < lb_size b2" using b1(5) b2(3,6) by auto
  have fr: "frozen b2 = drop (?d + r) (all_lines ?b)" unfolding b2(4) b1(3) by (simp add: add.commute)
  have size: "length (frozen b1) = lb_size b1 - 1" by simp
  then have dr: "?d + r \<le> lb_size ?b"
    using b1(3,5) b2(3) assms(1) by (auto simp: lb_ok_def lb_shape_def)
  have texts: "cons_texts c = drop (?d + r) (cons_texts cons) @ [[]]"
    using pos fr b1(4) b2(5) fresh_line_ok(2)
    by (simp add: cons_texts_def c_def lb_texts_last lb_texts_lines [of ?b] drop_map)
  have "sum_list (map length (butlast (cons_texts c))) \<le> lb_backlog_size b2"
  proof (cases "lb_size b2 = 1")
    case True
    then have "frozen b2 = []" by (simp add: frozen_def)
    then show ?thesis using pos by (simp add: cons_texts_def c_def lb_texts_butlast)
  next
    case False
    then have "sum_list (map length (lb_texts b2)) \<le> lb_backlog_size b1" using b2(11) by simp
    then show ?thesis using pos b2(9) by (simp add: cons_texts_def c_def lb_texts_butlast lb_texts_last)
  qed
  then have "cons_ok c"
    using b2(2,9) b1(8) pos assms(2) by (simp add: cons_ok_def c_def cons_text_def)
  moreover have "r = 0" if "lb_size ?b < lb_capacity ?b" "sum_list (map length (cons_texts cons)) \<le> lb_backlog_size ?b"
  proof (rule ccontr)
    assume "r \<noteq> 0"
    have "lb_texts b1 = cons_texts cons @ [[]]"
      using b1(3-5) that(1) fresh_line_ok(2) by (simp add: lb_texts_last cons_texts_def lb_texts_lines [of ?b])
    then have "sum_list (map length (lb_texts b1)) \<le> lb_backlog_size b1" using that(2) b1(8) by simp
    moreover have "sum_list (map length (drop (r - 1) (lb_texts b1))) \<le> sum_list (map length (lb_texts b1))"
      by (metis append_take_drop_id le_add2 map_append sum_list_append)
    ultimately show False using b2(12) \<open>r \<noteq> 0\<close> by simp
  qed
  ultimately show ?thesis using run texts fr dr b1 b2(3-10)
    by (intro exI [of _ c] exI [of _ "?d + r"]) (simp add: c_def same_array_def cons_texts_def)
qed

section \<open>Operations on the last line\<close>

text \<open>The lines of \<open>b\<close> are those of \<open>a\<close> with more lines added and the oldest ones dropped.\<close>

definition extends :: "linebuf \<Rightarrow> linebuf \<Rightarrow> bool" where
  "extends a b \<longleftrightarrow> (\<exists>d ls. frozen b = drop d (frozen a @ ls) \<and> d \<le> length (frozen a @ ls)
     \<and> lb_absolute b = lb_absolute a + d \<and> lb_size b + d = lb_size a + length ls \<and> same_array a b)"

lemma extends_refl: "extends a a"
  by (auto simp: extends_def same_array_def intro!: exI [of _ 0] exI [of _ "[]"])

lemma extends_trans:
  assumes "extends a b" "extends b c"
  shows "extends a c"
proof -
  obtain d ls where 1: "frozen b = drop d (frozen a @ ls)" "d \<le> length (frozen a @ ls)"
    "lb_absolute b = lb_absolute a + d" "lb_size b + d = lb_size a + length ls" "same_array a b"
    using assms(1) unfolding extends_def by blast
  obtain e ms where 2: "frozen c = drop e (frozen b @ ms)" "e \<le> length (frozen b @ ms)"
    "lb_absolute c = lb_absolute b + e" "lb_size c + e = lb_size b + length ms" "same_array b c"
    using assms(2) unfolding extends_def by blast
  have comp: "drop e (drop d X @ ms) = drop (d + e) (X @ ms)" if "d \<le> length X" for X :: "console_fline list"
    using that by (simp add: add.commute)
  have "frozen c = drop (d + e) (frozen a @ (ls @ ms))"
    using comp [OF 1(2)] unfolding 2(1) 1(1) append_assoc .
  moreover have "d + e \<le> length (frozen a @ (ls @ ms))"
    using 1(2) 2(2) unfolding 1(1) by (simp only: length_append length_drop)
  ultimately show ?thesis using 1 2 unfolding extends_def same_array_def
    by (intro exI [of _ "d + e"] exI [of _ "ls @ ms"]) simp
qed

lemma set_last_line_facts:
  "lb_size (cons_lines (set_last_line cons ed)) = lb_size (cons_lines cons)"
  "frozen (cons_lines (set_last_line cons ed)) = frozen (cons_lines cons)"
  "lb_edit (cons_lines (set_last_line cons ed)) = ed"
  "lb_absolute (cons_lines (set_last_line cons ed)) = lb_absolute (cons_lines cons)"
  "lb_backlog_size (cons_lines (set_last_line cons ed)) = lb_backlog_size (cons_lines cons)"
  "cons_cursor (set_last_line cons ed) = cons_cursor cons"
  "extends (cons_lines cons) (cons_lines (set_last_line cons ed))"
proof -
  show fr: "frozen (cons_lines (set_last_line cons ed)) = frozen (cons_lines cons)"
    by (simp add: frozen_def set_last_line_def linebuf_nth_to_index_def)
  show "extends (cons_lines cons) (cons_lines (set_last_line cons ed))"
    unfolding extends_def fr
    by (intro exI [of _ 0] exI [of _ "[]"]) (simp add: set_last_line_def same_array_def)
qed (simp_all add: set_last_line_def)

lemma set_last_line_ok:
  assumes "lb_ok (cons_lines cons)" "stredit_ok ed" "ed_max ed = PE_CONSOLE_LINE_MAX_LENGTH"
    "ed_render ed = ed_render (lb_edit (cons_lines cons))"
  shows "lb_ok (cons_lines (set_last_line cons ed))"
proof -
  have "linebuf_nth_to_index (cons_lines (set_last_line cons ed)) = linebuf_nth_to_index (cons_lines cons)"
    by (intro ext) (simp add: linebuf_nth_to_index_def set_last_line_def)
  then have "lb_shape (cons_lines (set_last_line cons ed))"
    using assms(1) by (simp add: lb_ok_def lb_shape_def set_last_line_def)
  moreover have "lb_totals (cons_lines (set_last_line cons ed))"
    using assms(1,4) unfolding lb_ok_def lb_totals_def set_last_line_facts
    by (simp add: last_render_def set_last_line_def)
  moreover have "last_ok (cons_lines (set_last_line cons ed))"
    using assms(2,3) by (simp add: last_ok_def set_last_line_def)
  ultimately show ?thesis by (simp add: lb_ok_def)
qed

lemma cons_texts_last:
  assumes "0 < lb_size (cons_lines cons)"
  shows "cons_texts cons = map fl_data (frozen (cons_lines cons)) @ [cons_text cons]"
  using assms by (simp add: cons_texts_def cons_text_def lb_texts_last)

lemma cons_ok_last:
  assumes "cons_ok cons"
  shows "last_line cons = Some (lb_edit (cons_lines cons))" "stredit_ok (lb_edit (cons_lines cons))"
    "ed_max (lb_edit (cons_lines cons)) = PE_CONSOLE_LINE_MAX_LENGTH"
    "ed_text (lb_edit (cons_lines cons)) = cons_text cons"
  using assms by (auto simp: cons_ok_def lb_ok_def last_ok_def last_line_def linebuf_get_last_line_def cons_text_def)

text \<open>Replacing the last line by another one that the editor accepts, with a cursor in it.\<close>

lemma cons_ok_edit:
  assumes "cons_ok cons" "stredit_ok ed" "ed_max ed = PE_CONSOLE_LINE_MAX_LENGTH"
    "ed_render ed = ed_render (lb_edit (cons_lines cons))" "0 \<le> p" "p \<le> int (length (ed_text ed))"
  shows "cons_ok ((set_last_line cons ed)\<lparr>cons_cursor := p, cons_render_needed := r\<rparr>)"
proof -
  have size: "0 < lb_size (cons_lines cons)" using assms(1) by (simp add: cons_ok_def)
  let ?c = "(set_last_line cons ed)\<lparr>cons_cursor := p, cons_render_needed := r\<rparr>"
  have l: "cons_lines ?c = cons_lines (set_last_line cons ed)" by simp
  have "butlast (cons_texts ?c) = butlast (cons_texts cons)"
    using size unfolding cons_texts_def l by (simp add: lb_texts_butlast set_last_line_facts)
  then show ?thesis
    using assms size set_last_line_ok [of cons ed] unfolding cons_ok_def l cons_text_def
    by (simp add: set_last_line_facts)
qed

lemma insert_round:
  assumes "cons_ok cons" "length (cons_text cons) + length s \<le> PE_CONSOLE_LINE_MAX_LENGTH"
  shows "\<exists>ed. stredit_insert (lb_edit (cons_lines cons)) (cons_cursor cons) s = Some (ed, True)
    \<and> stredit_ok ed \<and> ed_max ed = PE_CONSOLE_LINE_MAX_LENGTH \<and> ed_render ed = ed_render (lb_edit (cons_lines cons))
    \<and> ed_prefix ed = ed_prefix (lb_edit (cons_lines cons))
    \<and> ed_text ed = take (nat (cons_cursor cons)) (cons_text cons) @ s @ drop (nat (cons_cursor cons)) (cons_text cons)
    \<and> cons_ok ((set_last_line cons ed)\<lparr>cons_cursor := s16 (cons_cursor cons + int (length s)), cons_render_needed := r\<rparr>)
    \<and> s16 (cons_cursor cons + int (length s)) = cons_cursor cons + int (length s)"
proof -
  let ?ed = "lb_edit (cons_lines cons)" and ?c = "nat (cons_cursor cons)"
  note last = cons_ok_last [OF assms(1)]
  have c: "0 \<le> cons_cursor cons" "cons_cursor cons \<le> int (length (cons_text cons))"
    using assms(1) by (auto simp: cons_ok_def)
  obtain a where a: "stredit_insert ?ed (int ?c) s
      = Some (?ed\<lparr>ed_alloc := a, ed_text := take ?c (ed_text ?ed) @ s @ drop ?c (ed_text ?ed)\<rparr>, True)"
    "stredit_ok (?ed\<lparr>ed_alloc := a, ed_text := take ?c (ed_text ?ed) @ s @ drop ?c (ed_text ?ed)\<rparr>)"
    using stredit_insert_ok [OF last(2), of ?c s] c assms(2) by (auto simp: last(3,4) nat_le_iff)
  define e where "e = ?ed\<lparr>ed_alloc := a, ed_text := take ?c (ed_text ?ed) @ s @ drop ?c (ed_text ?ed)\<rparr>"
  have e: "ed_max e = PE_CONSOLE_LINE_MAX_LENGTH" "ed_render e = ed_render ?ed" "ed_prefix e = ed_prefix ?ed"
    "ed_text e = take ?c (cons_text cons) @ s @ drop ?c (cons_text cons)"
    by (simp_all add: e_def last(3,4))
  have s16: "s16 (cons_cursor cons + int (length s)) = cons_cursor cons + int (length s)"
    using c assms(2) by (simp add: s16_def PE_CONSOLE_LINE_MAX_LENGTH_def)
  have "cons_ok ((set_last_line cons e)\<lparr>cons_cursor := s16 (cons_cursor cons + int (length s)), cons_render_needed := r\<rparr>)"
    unfolding s16 using a(2) c e by (intro cons_ok_edit [OF assms(1)]) (auto simp: e_def)
  then show ?thesis using a c(1) e s16 by (intro exI [of _ e]) (simp add: e_def)
qed

lemma cons_ok_flag: "cons_ok (cons\<lparr>cons_render_needed := b\<rparr>) = cons_ok cons"
  by (simp add: cons_ok_def cons_text_def cons_texts_def)

lemma cons_ok_cursor:
  assumes "cons_ok cons" "0 \<le> p" "p \<le> int (length (cons_text cons))"
  shows "cons_ok (cons\<lparr>cons_cursor := p\<rparr>)"
  using assms by (simp add: cons_ok_def cons_text_def cons_texts_def)

text \<open>An operation that keeps the invariant and only adds or drops whole lines.\<close>

definition good_step :: "console \<Rightarrow> console \<Rightarrow> bool" where
  "good_step a b \<longleftrightarrow> cons_ok b \<and> extends (cons_lines a) (cons_lines b)
     \<and> cons_render_width b = cons_render_width a"

lemma good_step_trans: "good_step a b \<Longrightarrow> good_step b c \<Longrightarrow> good_step a c"
  using extends_trans by (auto simp: good_step_def)

lemma good_step_refl: "cons_ok a \<Longrightarrow> good_step a a"
  by (simp add: good_step_def extends_refl)

lemma good_step_ok: "good_step a b \<Longrightarrow> cons_ok b"
  by (simp add: good_step_def)

lemma good_step_flag: "good_step a b \<Longrightarrow> good_step a (b\<lparr>cons_render_needed := r\<rparr>)"
  by (simp add: good_step_def cons_ok_flag)

lemma good_step_edit:
  assumes "cons_ok ((set_last_line cons ed)\<lparr>cons_cursor := p, cons_render_needed := b\<rparr>)"
  shows "good_step cons ((set_last_line cons ed)\<lparr>cons_cursor := p, cons_render_needed := b\<rparr>)"
  using assms set_last_line_facts(7) [of cons ed] by (simp add: good_step_def set_last_line_def)


section \<open>Writing\<close>

lemma write_raw_loop_done: "n \<le> 0 \<Longrightarrow> write_raw_loop cons str n = Some (cons, True)"
  by (subst write_raw_loop.simps) simp

text \<open>One round of the loop: the part that fits is inserted at the cursor.\<close>

definition inserted :: "nat list \<Rightarrow> int \<Rightarrow> nat list \<Rightarrow> nat list" where
  "inserted text p s = take (nat p) text @ s @ drop (nat p) text"

lemma write_raw_round:
  assumes "cons_ok cons" "0 < n" "n \<le> int (length str)"
  shows "\<exists>c m. m = min (nat n) (PE_CONSOLE_LINE_MAX_LENGTH - length (cons_text cons))
    \<and> good_step cons c \<and> cons_text c = inserted (cons_text cons) (cons_cursor cons) (take m str)
    \<and> cons_cursor c = cons_cursor cons + int m \<and> frozen (cons_lines c) = frozen (cons_lines cons)
    \<and> lb_absolute (cons_lines c) = lb_absolute (cons_lines cons)
    \<and> write_raw_loop cons str n
      = (if int m < n then console_newline c else Some c) \<bind> (\<lambda>c'. write_raw_loop c' str (n - int m))"
proof -
  let ?ed = "lb_edit (cons_lines cons)"
  define m where "m = min (nat n) (PE_CONSOLE_LINE_MAX_LENGTH - length (cons_text cons))"
  note last = cons_ok_last [OF assms(1)]
  have le: "length (cons_text cons) \<le> PE_CONSOLE_LINE_MAX_LENGTH"
    using editor.contents_le [OF last(2)] last(3,4) by simp
  have cap: "min n (stredit_capacity ?ed) = int m"
    using le assms(2) unfolding stredit_capacity_def last(3,4) m_def by linarith
  have "m \<le> length str" using assms(2,3) unfolding m_def by linarith
  then have lm: "length (take m str) = m" by simp
  have fit: "length (cons_text cons) + length (take m str) \<le> PE_CONSOLE_LINE_MAX_LENGTH" using le by (simp add: lm m_def)
  obtain ed where ed: "stredit_insert ?ed (cons_cursor cons) (take m str) = Some (ed, True)"
    "ed_text ed = inserted (cons_text cons) (cons_cursor cons) (take m str)"
    "cons_ok ((set_last_line cons ed)\<lparr>cons_cursor := s16 (cons_cursor cons + int m), cons_render_needed := True\<rparr>)"
    "s16 (cons_cursor cons + int m) = cons_cursor cons + int m"
    using insert_round [OF assms(1) fit, of True] unfolding lm inserted_def by blast
  define c where "c = (set_last_line cons ed)\<lparr>cons_cursor := s16 (cons_cursor cons + int m), cons_render_needed := True\<rparr>"
  have l: "cons_lines c = cons_lines (set_last_line cons ed)" by (simp add: c_def)
  have good: "good_step cons c" unfolding c_def by (rule good_step_edit) (rule ed(3))
  have "write_raw_loop cons str n
      = (if int m < n then console_newline c else Some c) \<bind> (\<lambda>c'. write_raw_loop c' str (n - int m))"
    using assms(2) by (subst write_raw_loop.simps) (simp add: last(1) cap ed(1) Let_def c_def set_last_line_facts)
  then show ?thesis
    using ed(2,4) m_def good
    by (intro exI [of _ c] exI [of _ m]) (simp add: l set_last_line_facts cons_text_def c_def)
qed

lemma newline_extends:
  assumes "cons_ok cons"
  shows "\<exists>c d. console_newline cons = Some c \<and> good_step cons c \<and> cons_cursor c = 0 \<and> lb_edit (cons_lines c) = fresh_line
    \<and> d \<le> length (cons_texts cons) \<and> cons_texts c = drop d (cons_texts cons @ [[]])
    \<and> lb_absolute (cons_lines c) = lb_absolute (cons_lines cons) + d
    \<and> (lb_size (cons_lines cons) < lb_capacity (cons_lines cons)
        \<and> sum_list (map length (cons_texts cons)) \<le> lb_backlog_size (cons_lines cons) \<longrightarrow> d = 0)"
proof -
  let ?b = "cons_lines cons"
  have size: "0 < lb_size ?b" and pre: "lb_ok ?b" "PE_CONSOLE_LINE_MAX_LENGTH \<le> lb_backlog_size ?b"
    using assms by (auto simp: cons_ok_def)
  obtain c d where c: "console_newline cons = Some c" "cons_ok c" "cons_cursor c = 0" "lb_edit (cons_lines c) = fresh_line"
    "d \<le> length (cons_texts cons)" "frozen (cons_lines c) = drop d (all_lines ?b)"
    "cons_texts c = drop d (cons_texts cons) @ [[]]" "lb_absolute (cons_lines c) = lb_absolute ?b + d"
    "same_array ?b (cons_lines c)" "cons_render_width c = cons_render_width cons"
    "lb_size ?b < lb_capacity ?b \<and> sum_list (map length (cons_texts cons)) \<le> lb_backlog_size ?b \<longrightarrow> d = 0"
    using console_newline_correct [OF pre] by blast
  have "lb_size (cons_lines c) - 1 = lb_size ?b - d" using c(6) by (metis length_all_lines length_drop length_frozen)
  moreover have "0 < lb_size (cons_lines c)" "d \<le> lb_size ?b"
    using c(2,5) by (simp_all add: cons_ok_def cons_texts_def)
  ultimately have "lb_size (cons_lines c) + d = lb_size ?b + 1" by linarith
  then have "extends ?b (cons_lines c)"
    using c(5,6,8,9) size unfolding extends_def
    by (intro exI [of _ d] exI [of _ "[edit_line (lb_edit ?b)]"]) (simp add: all_lines_def cons_texts_def)
  then show ?thesis using c by (intro exI [of _ c] exI [of _ d]) (simp add: good_step_def)
qed

lemma write_raw_loop_total:
  assumes "cons_ok cons" "n \<le> int (length str)"
  shows "\<exists>c. write_raw_loop cons str n = Some (c, True) \<and> good_step cons c"
  using assms
proof (induction "2 * nat n + of_bool (length (cons_text cons) = PE_CONSOLE_LINE_MAX_LENGTH)" arbitrary: cons n rule: less_induct)
  case less
  show ?case
  proof (cases "0 < n")
    case False
    then show ?thesis using less.prems good_step_refl by (auto simp: write_raw_loop_done)
  next
    case True
    obtain c m where c: "m = min (nat n) (PE_CONSOLE_LINE_MAX_LENGTH - length (cons_text cons))" "good_step cons c"
      "write_raw_loop cons str n
        = (if int m < n then console_newline c else Some c) \<bind> (\<lambda>c'. write_raw_loop c' str (n - int m))"
      using write_raw_round [OF less.prems(1) True less.prems(2)] by blast
    show ?thesis
    proof (cases "int m < n")
      case False
      then show ?thesis using c by (auto simp: write_raw_loop_done)
    next
      case rest: True
      obtain c' where c': "console_newline c = Some c'" "good_step c c'"
        "lb_edit (cons_lines c') = fresh_line"
        using newline_extends good_step_ok [OF c(2)] by blast
      have t: "cons_text c' = []" using c'(3) fresh_line_ok(2) by (simp add: cons_text_def)
      have "length (cons_text cons) \<le> PE_CONSOLE_LINE_MAX_LENGTH"
        using editor.contents_le cons_ok_last(2-4) [OF less.prems(1)] by metis
      then have "2 * nat (n - int m) + of_bool (length (cons_text c') = PE_CONSOLE_LINE_MAX_LENGTH)
          < 2 * nat n + of_bool (length (cons_text cons) = PE_CONSOLE_LINE_MAX_LENGTH)"
        using True rest c(1) by (auto simp: t PE_CONSOLE_LINE_MAX_LENGTH_def)
      from less.hyps [OF this good_step_ok [OF c'(2)]] less.prems(2) obtain c'' where
        "write_raw_loop c' str (n - int m) = Some (c'', True)" "good_step c' c''"
        by auto
      moreover from this have "good_step cons c''"
        using good_step_trans [OF good_step_trans [OF c(2) c'(2)]] by blast
      ultimately show ?thesis using c(3) c'(1) rest by simp
    qed
  qed
qed

lemma write_raw_total:
  assumes "cons_ok cons"
  shows "\<exists>c. console_write_raw cons str = Some (c, True) \<and> good_step cons c"
  using write_raw_loop_total [OF assms order_refl] assms by (auto simp: console_write_raw_def cons_ok_def)

text \<open>A string that fits into the line.\<close>

lemma write_raw_fits:
  assumes "cons_ok cons" "length (cons_text cons) + length str \<le> PE_CONSOLE_LINE_MAX_LENGTH"
  shows "\<exists>c. console_write_raw cons str = Some (c, True) \<and> good_step cons c
    \<and> cons_text c = inserted (cons_text cons) (cons_cursor cons) str
    \<and> cons_cursor c = cons_cursor cons + int (length str) \<and> frozen (cons_lines c) = frozen (cons_lines cons)
    \<and> lb_absolute (cons_lines c) = lb_absolute (cons_lines cons)"
proof (cases "str = []")
  case True
  then show ?thesis using assms good_step_refl
    by (intro exI [of _ cons]) (simp add: console_write_raw_def cons_ok_def write_raw_loop_done inserted_def)
next
  case False
  then have n: "0 < int (length str)" by simp
  obtain c m where c: "m = min (nat (int (length str))) (PE_CONSOLE_LINE_MAX_LENGTH - length (cons_text cons))" "good_step cons c"
    "cons_text c = inserted (cons_text cons) (cons_cursor cons) (take m str)" "cons_cursor c = cons_cursor cons + int m"
    "frozen (cons_lines c) = frozen (cons_lines cons)" "lb_absolute (cons_lines c) = lb_absolute (cons_lines cons)"
    "write_raw_loop cons str (int (length str))
      = (if int m < int (length str) then console_newline c else Some c)
          \<bind> (\<lambda>c'. write_raw_loop c' str (int (length str) - int m))"
    using write_raw_round [OF assms(1) n order_refl] by blast
  have "m = length str" using c(1) assms(2) by simp
  then show ?thesis using c assms(1)
    by (intro exI [of _ c]) (simp add: console_write_raw_def cons_ok_def write_raw_loop_done)
qed

section \<open>Deletion\<close>

text \<open>A deletion is safe for every position and count: it removes a part behind the locked prefix.\<close>

lemma stredit_delete_ok:
  assumes "stredit_ok ed"
  shows "\<exists>t q r. stredit_delete ed p n = (ed\<lparr>ed_text := t\<rparr>, int r) \<and> stredit_ok (ed\<lparr>ed_text := t\<rparr>)
    \<and> t = take q (ed_text ed) @ drop (q + r) (ed_text ed) \<and> q + r \<le> length (ed_text ed) \<and> ed_prefix ed \<le> q
    \<and> int r \<le> max 0 n \<and> (0 < r \<longrightarrow> int q = max p (int (ed_prefix ed)) \<and> max p (int (ed_prefix ed)) + int r \<le> p + n)"
proof -
  define q where "q = max p (int (ed_prefix ed))"
  define m where "m = min (p + n - q) (int (length (ed_text ed)) - q)"
  have len: "ed_prefix ed \<le> length (ed_text ed)" using assms by (rule editor.locked_le)
  have del: "stredit_delete ed p n
      = (if m < 0 then (ed, 0) else (ed\<lparr>ed_text := take (nat q) (ed_text ed) @ drop (nat (q + m)) (ed_text ed)\<rparr>, m))"
    by (auto simp: stredit_delete_def q_def m_def Let_def max_def algebra_simps)
  show ?thesis
  proof (cases "m < 0")
    case True
    then show ?thesis using del assms len
      by (intro exI [of _ "ed_text ed"] exI [of _ "length (ed_text ed)"] exI [of _ 0]) simp
  next
    case False
    have q0: "0 \<le> q" "int (ed_prefix ed) \<le> q" by (simp_all add: q_def)
    then have q: "int (nat q) = q" "ed_prefix ed \<le> nat q" by linarith+
    have m: "int (nat m) = m" "nat (q + m) = nat q + nat m" using False q0 by (simp_all add: nat_add_distrib)
    have le: "nat q + nat m \<le> length (ed_text ed)" using False q(1) m(1) unfolding m_def by linarith
    have "stredit_ok (ed\<lparr>ed_text := take (nat q) (ed_text ed) @ drop (nat q + nat m) (ed_text ed)\<rparr>)"
      using assms le q(2) by (auto simp: stredit_ok_def)
    moreover have "m \<le> max 0 n" "q + m \<le> p + n" unfolding m_def q_def by auto
    moreover define t where "t = take (nat q) (ed_text ed) @ drop (nat q + nat m) (ed_text ed)"
    moreover have "stredit_delete ed p n = (ed\<lparr>ed_text := t\<rparr>, int (nat m))" using del False m unfolding t_def by simp
    moreover have "int (nat q) = max p (int (ed_prefix ed))" using q(1) q_def by simp
    ultimately show ?thesis using le q m by metis
  qed
qed

text \<open>The same on the last line of a console.\<close>

lemma delete_round:
  assumes "cons_ok cons"
  shows "\<exists>ed q r. stredit_delete (lb_edit (cons_lines cons)) p n = (ed, int r)
    \<and> ed_text ed = take q (cons_text cons) @ drop (q + r) (cons_text cons) \<and> q + r \<le> length (cons_text cons)
    \<and> ed_prefix ed = ed_prefix (lb_edit (cons_lines cons)) \<and> ed_prefix ed \<le> q \<and> int r \<le> max 0 n
    \<and> (0 < r \<longrightarrow> int q = max p (int (ed_prefix ed)) \<and> max p (int (ed_prefix ed)) + int r \<le> p + n)
    \<and> (\<forall>c b. 0 \<le> c \<and> c \<le> int (length (ed_text ed)) \<longrightarrow> cons_ok ((set_last_line cons ed)\<lparr>cons_cursor := c, cons_render_needed := b\<rparr>))"
proof -
  note last = cons_ok_last [OF assms]
  obtain t q r where d: "stredit_delete (lb_edit (cons_lines cons)) p n = ((lb_edit (cons_lines cons))\<lparr>ed_text := t\<rparr>, int r)"
    "stredit_ok ((lb_edit (cons_lines cons))\<lparr>ed_text := t\<rparr>)" "t = take q (cons_text cons) @ drop (q + r) (cons_text cons)"
    "q + r \<le> length (cons_text cons)" "ed_prefix (lb_edit (cons_lines cons)) \<le> q" "int r \<le> max 0 n"
    "0 < r \<longrightarrow> int q = max p (int (ed_prefix (lb_edit (cons_lines cons)))) \<and> max p (int (ed_prefix (lb_edit (cons_lines cons)))) + int r \<le> p + n"
    using stredit_delete_ok [OF last(2), of p n] unfolding last(4) by blast
  show ?thesis
    by (rule exI [of _ "(lb_edit (cons_lines cons))\<lparr>ed_text := t\<rparr>"], rule exI [of _ q], rule exI [of _ r])
      (use d(1,4-7) last(3) cons_ok_edit [OF assms d(2)] in \<open>simp add: d(3)\<close>)
qed


section \<open>The write loop\<close>

lemma backspace_step:
  assumes "cons_ok cons"
  shows "\<exists>c. write_backspace cons = Some c \<and> good_step cons c"
proof (cases "0 < cons_cursor cons")
  case False
  then show ?thesis
    using good_step_refl [OF assms] cons_ok_last(1) [OF assms] by (simp add: write_backspace_def)
next
  case True
  obtain ed q r where d: "stredit_delete (lb_edit (cons_lines cons)) (cons_cursor cons - 1) 1 = (ed, int r)"
    "ed_text ed = take q (cons_text cons) @ drop (q + r) (cons_text cons)" "q + r \<le> length (cons_text cons)"
    "int r \<le> max 0 1"
    "\<And>c b. 0 \<le> c \<Longrightarrow> c \<le> int (length (ed_text ed)) \<Longrightarrow> cons_ok ((set_last_line cons ed)\<lparr>cons_cursor := c, cons_render_needed := b\<rparr>)"
    using delete_round [OF assms] by blast
  have "cons_cursor cons - 1 \<le> int (length (ed_text ed))"
    using d(2-4) assms by (simp add: cons_ok_def)
  then have "cons_ok ((set_last_line cons ed)\<lparr>cons_cursor := cons_cursor cons - 1, cons_render_needed := cons_render_needed cons\<rparr>)"
    using d(5) True by simp
  from good_step_edit [OF this] show ?thesis
    using True d(1) cons_ok_last(1) [OF assms] by (simp add: write_backspace_def set_last_line_def)
qed

lemma erase_step:
  assumes "cons_ok cons"
  shows "good_step cons (set_last_line cons
    (fst (stredit_delete (lb_edit (cons_lines cons)) (cons_cursor cons) (int (length (cons_text cons)) - cons_cursor cons))))"
proof -
  obtain ed q r where d: "stredit_delete (lb_edit (cons_lines cons)) (cons_cursor cons) (int (length (cons_text cons)) - cons_cursor cons)
      = (ed, int r)"
    "ed_text ed = take q (cons_text cons) @ drop (q + r) (cons_text cons)" "q + r \<le> length (cons_text cons)"
    "int r \<le> max 0 (int (length (cons_text cons)) - cons_cursor cons)"
    "\<And>c b. 0 \<le> c \<Longrightarrow> c \<le> int (length (ed_text ed)) \<Longrightarrow> cons_ok ((set_last_line cons ed)\<lparr>cons_cursor := c, cons_render_needed := b\<rparr>)"
    using delete_round [OF assms] by blast
  have "0 \<le> cons_cursor cons" "cons_cursor cons \<le> int (length (ed_text ed))"
    using d(2-4) assms by (simp_all add: cons_ok_def)
  then have "cons_ok ((set_last_line cons ed)\<lparr>cons_cursor := cons_cursor cons, cons_render_needed := cons_render_needed cons\<rparr>)"
    by (rule d(5))
  from good_step_edit [OF this] show ?thesis using d(1) by (simp add: set_last_line_def)
qed

lemma good_step_cursor:
  assumes "good_step cons c" "0 \<le> p" "p \<le> int (length (cons_text c))"
  shows "good_step cons (c\<lparr>cons_cursor := p\<rparr>)"
  using assms cons_ok_cursor by (simp add: good_step_def)

lemma escape_step:
  assumes "cons_ok cons"
  shows "\<exists>c s'. write_escape cons s = Some (c, s') \<and> good_step cons c \<and> length s' \<le> length s"
proof -
  define c1 where "c1 = (if take 2 s = [91, 75] then set_last_line cons (fst (stredit_delete (lb_edit (cons_lines cons)) (cons_cursor cons)
      (int (length (cons_text cons)) - cons_cursor cons))) else cons)"
  define s1 where "s1 = (if take 2 s = [91, 75] then drop 2 s else s)"
  define c2 where "c2 = (if take 2 s1 = [1, 68] \<and> cons_cursor c1 > 0 then c1\<lparr>cons_cursor := cons_cursor c1 - 1\<rparr> else c1)"
  define c3 where "c3 = (if take 2 s1 = [1, 67] \<and> cons_cursor c2 < int (length (cons_text c1))
      then c2\<lparr>cons_cursor := cons_cursor c2 + 1\<rparr> else c2)"
  have g1: "good_step cons c1" using erase_step [OF assms] good_step_refl [OF assms] by (simp add: c1_def)
  then have ok1: "cons_ok c1" by (rule good_step_ok)
  have "0 \<le> cons_cursor c1" "cons_cursor c1 \<le> int (length (cons_text c1))" using ok1 by (simp_all add: cons_ok_def)
  then have g2: "good_step cons c2" using g1 good_step_cursor [OF g1, of "cons_cursor c1 - 1"] by (simp add: c2_def)
  have t2: "cons_text c2 = cons_text c1" by (simp add: c2_def cons_text_def)
  have "0 \<le> cons_cursor c2" using good_step_ok [OF g2] by (simp add: cons_ok_def)
  then have g3: "good_step cons c3" using g2 t2 good_step_cursor [OF g2, of "cons_cursor c2 + 1"] by (simp add: c3_def)
  have e1: "(if take 2 s = [91, 75] then (set_last_line cons (fst (stredit_delete (lb_edit (cons_lines cons)) (cons_cursor cons)
      (int (length (cons_text cons)) - cons_cursor cons))), drop 2 s) else (cons, s)) = (c1, s1)"
    by (simp add: c1_def s1_def)
  have "write_escape cons s = Some (c3, s1)"
    unfolding write_escape_def cons_ok_last(1) [OF assms] bind.bind_lunit cons_ok_last(4) [OF assms] e1 Let_def prod.case
      cons_ok_last(1) [OF ok1] cons_ok_last(4) [OF ok1] c2_def [symmetric] c3_def [symmetric] ..
  then show ?thesis using g3 by (intro exI [of _ c3] exI [of _ s1]) (simp add: s1_def)
qed

lemma write_loop_special:
  assumes "dropWhile plain_char s = x # xs" "console_write_raw cons (takeWhile plain_char s) = Some (c, True)"
  shows "write_loop cons s = (if x = 10 then map_option (\<lambda>cons. (cons, xs)) (console_newline c)
      else if x = 8 then map_option (\<lambda>cons. (cons, xs)) (write_backspace c) else write_escape c xs)
    \<bind> (\<lambda>(c, s). write_loop (c\<lparr>cons_render_needed := True\<rparr>) s)"
proof -
  have "s \<noteq> []" using assms(1) by auto
  then show ?thesis using assms by (subst write_loop.simps) (simp add: Let_def)
qed

lemma write_loop_total:
  assumes "cons_ok cons"
  shows "\<exists>c. write_loop cons s = Some (c, True) \<and> good_step cons c"
  using assms
proof (induction s arbitrary: cons rule: length_induct)
  case (1 s)
  show ?case
  proof (cases "s = []")
    case True
    then show ?thesis using good_step_refl [OF 1(2)] by (subst write_loop.simps) simp
  next
    case s: False
    obtain c where c: "console_write_raw cons (takeWhile plain_char s) = Some (c, True)" "good_step cons c"
      using write_raw_total [OF 1(2)] by blast
    note ok = good_step_ok [OF c(2)]
    show ?thesis
    proof (cases "dropWhile plain_char s")
      case Nil
      then show ?thesis using s c by (subst write_loop.simps) simp
    next
      case (Cons x xs)
      have len: "length xs < length s" using length_dropWhile_le [of plain_char s] Cons by simp
      have x: "x = 10 \<or> x = 27 \<or> x = 8" using Cons hd_dropWhile [of plain_char s] by (auto simp: plain_char_def)
      have "\<exists>c1 s1. (if x = 10 then map_option (\<lambda>cons. (cons, xs)) (console_newline c)
          else if x = 8 then map_option (\<lambda>cons. (cons, xs)) (write_backspace c) else write_escape c xs) = Some (c1, s1)
          \<and> good_step c c1 \<and> length s1 \<le> length xs"
        using x
      proof (elim disjE)
        assume "x = 10"
        then show ?thesis using newline_extends [OF ok] by auto
      next
        assume "x = 8"
        then show ?thesis using backspace_step [OF ok] by auto
      next
        assume "x = 27"
        then show ?thesis using escape_step [OF ok, of xs] by simp
      qed
      then obtain c1 s1 where c1: "(if x = 10 then map_option (\<lambda>cons. (cons, xs)) (console_newline c)
          else if x = 8 then map_option (\<lambda>cons. (cons, xs)) (write_backspace c) else write_escape c xs) = Some (c1, s1)"
        "good_step c c1" "length s1 \<le> length xs" by blast
      have g: "good_step cons (c1\<lparr>cons_render_needed := True\<rparr>)"
        using good_step_trans [OF c(2) c1(2)] by (rule good_step_flag)
      have "length s1 < length s" using len c1(3) by simp
      from 1(1) [rule_format, OF this good_step_ok [OF g]] obtain c2 where
        c2: "write_loop (c1\<lparr>cons_render_needed := True\<rparr>) s1 = Some (c2, True)" "good_step (c1\<lparr>cons_render_needed := True\<rparr>) c2"
        by blast
      have "write_loop cons s = Some (c2, True)"
        unfolding write_loop_special [OF Cons c(1)] c1(1) by (simp add: c2(1))
      then show ?thesis using good_step_trans [OF g c2(2)] by blast
    qed
  qed
qed

end
