(* ===== verification/ConsoleView.thy ===== *)
theory ConsoleView
  imports Console
begin

text \<open>
  The view of the console: \<^verbatim>\<open>console_compute_view\<close> lays the lines out again, only the last ones when
  the width has not changed.  The invariant of the lazy update, and the reachable consoles.
\<close>

section \<open>Laying out one line\<close>

text \<open>
  What the console relies on of \<^verbatim>\<open>drsize\<close>: of a string that is not empty (whose first byte is not the
  terminating zero) at least one byte fits.
\<close>

definition fit_ok :: "(nat list \<Rightarrow> nat) \<Rightarrow> bool" where
  "fit_ok fit \<longleftrightarrow> (\<forall>p. p \<noteq> [] \<and> hd p \<noteq> 0 \<longrightarrow> 0 < fit p)"

lemma render_lines_loop_total: "fit_ok fit \<Longrightarrow> \<exists>r. render_lines_loop fit p n = Some r"
proof (induction "length p" arbitrary: p n rule: less_induct)
  case less
  show ?case
  proof (cases "drop (fit p) p = [] \<or> hd (drop (fit p) p) = 0")
    case True
    then show ?thesis by (subst render_lines_loop.simps) (auto simp: Let_def)
  next
    case False
    show ?thesis
    proof (cases "0 < fit p")
      case True
      then have "length (drop (fit p) p) < length p" using False by (cases p) auto
      from less.hyps [OF this less.prems] False show ?thesis
        by (subst render_lines_loop.simps) (simp add: Let_def)
    next
      case zero: False
      then have "fit p = 0" by simp
      then have "p \<noteq> []" "hd p \<noteq> 0" using False by simp_all
      then have "0 < fit p" using less.prems by (simp add: fit_ok_def)
      then show ?thesis using zero by simp
    qed
  qed
qed

text \<open>The number of lines the code computes for a text.\<close>

definition line_count :: "(nat list \<Rightarrow> nat) \<Rightarrow> nat list \<Rightarrow> nat" where
  "line_count fit p = the (console_fline_update_render_lines fit p)"

lemma line_count: "fit_ok fit \<Longrightarrow> console_fline_update_render_lines fit p = Some (line_count fit p)"
  using render_lines_loop_total [of fit p 0] by (auto simp: line_count_def console_fline_update_render_lines_def)

definition set_render :: "linebuf \<Rightarrow> nat \<Rightarrow> nat \<Rightarrow> linebuf" where
  "set_render buf k r =
     (if k = lb_size buf - 1 then buf\<lparr>lb_edit := (lb_edit buf)\<lparr>ed_render := r\<rparr>\<rparr>
      else buf\<lparr>lb_lines := (lb_lines buf)[linebuf_nth_to_index buf k :=
                 Line ((slot_line (lb_lines buf ! linebuf_nth_to_index buf k))\<lparr>fl_render := r\<rparr>)]\<rparr>)"

definition renders :: "linebuf \<Rightarrow> nat list" where
  "renders buf = map fl_render (all_lines buf)"

lemma length_renders [simp]: "length (renders buf) = lb_size buf"
  by (simp add: renders_def)

lemma lb_total_renders: "lb_totals buf \<Longrightarrow> lb_total_rendered buf = s16 (int (sum_list (renders buf)))"
  by (simp add: lb_totals_def renders_def all_lines_def last_render_def edit_line_def)

lemma set_render_sel [simp]:
  "lb_size (set_render buf k r) = lb_size buf" "lb_capacity (set_render buf k r) = lb_capacity buf"
  "lb_start (set_render buf k r) = lb_start buf" "lb_absolute (set_render buf k r) = lb_absolute buf"
  "lb_backlog_size (set_render buf k r) = lb_backlog_size buf"
  "lb_absolute_rendered (set_render buf k r) = lb_absolute_rendered buf"
  "lb_total_rendered (set_render buf k r) = lb_total_rendered buf"
  "lb_total_size_except_last (set_render buf k r) = lb_total_size_except_last buf"
  "ed_text (lb_edit (set_render buf k r)) = ed_text (lb_edit buf)"
  "linebuf_nth_to_index (set_render buf k r) = linebuf_nth_to_index buf"
  by (auto simp: set_render_def linebuf_nth_to_index_def)

lemma set_render_frozen:
  assumes "lb_shape buf" "k < lb_size buf"
  shows "frozen (set_render buf k r)
    = (if k = lb_size buf - 1 then frozen buf else (frozen buf)[k := (frozen buf ! k)\<lparr>fl_render := r\<rparr>])"
proof (cases "k = lb_size buf - 1")
  case True
  then show ?thesis by (simp add: frozen_def set_render_def linebuf_nth_to_index_def)
next
  case False
  note sh = assms(1) [unfolded lb_shape_def]
  have k: "k < lb_size buf - 1" using False assms(2) by simp
  show ?thesis
  proof (rule nth_equalityI)
    show "length (frozen (set_render buf k r))
        = length (if k = lb_size buf - 1 then frozen buf else (frozen buf)[k := (frozen buf ! k)\<lparr>fl_render := r\<rparr>])" by simp
    fix j
    assume "j < length (frozen (set_render buf k r))"
    then have j: "j < lb_size buf - 1" by simp
    have "linebuf_nth_to_index buf k = linebuf_nth_to_index buf j \<longleftrightarrow> k = j"
      using j k sh by (intro index_eq_iff) auto
    moreover have "linebuf_nth_to_index buf k < length (lb_lines buf)" using sh nth_index_less by simp
    ultimately show "frozen (set_render buf k r) ! j
        = (if k = lb_size buf - 1 then frozen buf else (frozen buf)[k := (frozen buf ! k)\<lparr>fl_render := r\<rparr>]) ! j"
      using False j k
      by (simp add: frozen_def nth_list_update slot_line_def set_render_def linebuf_nth_to_index_def)
  qed
qed

lemma set_render_lines:
  assumes "lb_shape buf" "k < lb_size buf"
  shows "all_lines (set_render buf k r) = (all_lines buf)[k := (all_lines buf ! k)\<lparr>fl_render := r\<rparr>]"
proof (cases "k = lb_size buf - 1")
  case True
  then show ?thesis using assms set_render_frozen [OF assms, of r]
    by (simp add: all_lines_def edit_line_def set_render_def list_update_append nth_append)
next
  case False
  then have "k < lb_size buf - 1" using assms(2) by simp
  then show ?thesis using assms set_render_frozen [OF assms, of r] False
    by (simp add: all_lines_def edit_line_def set_render_def list_update_append nth_append)
qed

lemma set_render_texts:
  assumes "lb_shape buf" "k < lb_size buf"
  shows "lb_texts (set_render buf k r) = lb_texts buf"
proof -
  have "fl_data ((all_lines buf ! k)\<lparr>fl_render := r\<rparr>) = lb_texts buf ! k" using assms(2) by (simp add: lb_texts_lines)
  then show ?thesis unfolding lb_texts_lines set_render_lines [OF assms] map_update by (simp add: lb_texts_lines)
qed

lemma set_render_shape:
  assumes "lb_shape buf" "k < lb_size buf"
  shows "lb_shape (set_render buf k r)"
proof (cases "k = lb_size buf - 1")
  case True
  then show ?thesis using assms(1) by (simp add: lb_shape_def set_render_def linebuf_nth_to_index_def)
next
  case False
  note sh = assms(1) [unfolded lb_shape_def]
  let ?i = "linebuf_nth_to_index buf"
  have k: "k < lb_size buf - 1" using False assms(2) by simp
  obtain fl where fl: "lb_lines buf ! ?i k = Line fl" "fline_ok fl" using sh k by blast
  have lines: "lb_lines (set_render buf k r) = (lb_lines buf)[?i k := Line (fl\<lparr>fl_render := r\<rparr>)]"
    using False fl by (simp add: set_render_def slot_line_def)
  have ok: "fline_ok (fl\<lparr>fl_render := r\<rparr>)" using fl(2) by (simp add: fline_ok_def)
  have less: "?i k < length (lb_lines buf)" using sh nth_index_less by simp
  have inj: "?i k = ?i j \<longleftrightarrow> k = j" if "j < lb_size buf" for j
    using that k sh by (intro index_eq_iff) auto
  have "\<exists>fl. lb_lines (set_render buf k r) ! ?i j = Line fl \<and> fline_ok fl" if "j < lb_size buf - 1" for j
    using sh that inj [of j] ok less unfolding lines by (cases "j = k") simp_all
  moreover have "lb_lines (set_render buf k r) ! ?i (lb_size buf - 1) = Null_Line"
    using sh k inj [of "lb_size buf - 1"] unfolding lines by simp
  moreover have "length (lb_lines (set_render buf k r)) = length (lb_lines buf)" unfolding lines by simp
  ultimately show ?thesis using sh unfolding lb_shape_def set_render_sel by simp
qed

lemma sum_list_update_int:
  "k < length xs \<Longrightarrow> int (sum_list (xs[k := y])) = int (sum_list xs) - int (xs ! k) + int (y :: nat)"
  using member_le_sum_list [of "xs ! k" xs] by (simp add: sum_list_update of_nat_diff trans_le_add1)

lemma s16_add: "s16 (s16 x + y) = s16 (x + y)"
  using s16_diff [of x "- y"] by simp

text \<open>One round of the loop.\<close>

definition layout_one :: "(nat list \<Rightarrow> nat) \<Rightarrow> linebuf \<Rightarrow> nat \<Rightarrow> linebuf" where
  "layout_one fit buf k =
     (let b = set_render buf k (line_count fit (lb_texts buf ! k))
      in b\<lparr>lb_total_rendered := s16 (int (sum_list (renders b)))\<rparr>)"

lemma write_render_at:
  assumes "lb_shape buf" "k < lb_size buf"
  shows "write_render buf (linebuf_get_nth_line buf (int k)) r = Some (set_render buf k r)"
proof (cases "k = lb_size buf - 1")
  case True
  then show ?thesis using get_nth_line_cases [OF assms(2)] by (simp add: write_render_def set_render_def)
next
  case False
  then have "k < lb_size buf - 1" using assms(2) by simp
  then obtain fl where "lb_lines buf ! linebuf_nth_to_index buf k = Line fl" using assms(1) unfolding lb_shape_def by blast
  then show ?thesis using get_nth_line_cases [OF assms(2)] False by (simp add: write_render_def set_render_def slot_line_def)
qed

lemma total_update:
  "set_render (buf\<lparr>lb_total_rendered := t\<rparr>) k r = (set_render buf k r)\<lparr>lb_total_rendered := t\<rparr>"
  "lb_shape (buf\<lparr>lb_total_rendered := t\<rparr>) = lb_shape buf" "frozen (buf\<lparr>lb_total_rendered := t\<rparr>) = frozen buf"
  "all_lines (buf\<lparr>lb_total_rendered := t\<rparr>) = all_lines buf" "lb_texts (buf\<lparr>lb_total_rendered := t\<rparr>) = lb_texts buf"
  "linebuf_get_nth_line (buf\<lparr>lb_total_rendered := t\<rparr>) j = linebuf_get_nth_line buf j"
  by (simp_all add: set_render_def lb_shape_def frozen_def all_lines_def lb_texts_def linebuf_nth_to_index_def
      linebuf_get_nth_line_def)

lemma layout_one_facts:
  assumes "lb_ok buf" "k < lb_size buf"
  shows "lb_ok (layout_one fit buf k)" "lb_texts (layout_one fit buf k) = lb_texts buf"
    "renders (layout_one fit buf k) = (renders buf)[k := line_count fit (lb_texts buf ! k)]"
    "lb_size (layout_one fit buf k) = lb_size buf" "lb_absolute (layout_one fit buf k) = lb_absolute buf"
    "lb_capacity (layout_one fit buf k) = lb_capacity buf" "lb_backlog_size (layout_one fit buf k) = lb_backlog_size buf"
    "lb_absolute_rendered (layout_one fit buf k) = lb_absolute_rendered buf"
    "ed_text (lb_edit (layout_one fit buf k)) = ed_text (lb_edit buf)"
proof -
  let ?r = "line_count fit (lb_texts buf ! k)"
  have sh: "lb_shape buf" using assms(1) by (simp add: lb_ok_def)
  note frz = set_render_frozen [OF sh assms(2), of ?r]
  show re: "renders (layout_one fit buf k) = (renders buf)[k := ?r]"
    by (simp add: layout_one_def Let_def renders_def total_update set_render_lines [OF sh assms(2)] map_update)
  show tx: "lb_texts (layout_one fit buf k) = lb_texts buf"
    by (simp add: layout_one_def Let_def total_update set_render_texts [OF sh assms(2)])
  have "map fl_size (frozen (layout_one fit buf k)) = map fl_size (frozen buf)"
  proof -
    have "map fl_size ((frozen buf)[k := (frozen buf ! k)\<lparr>fl_render := ?r\<rparr>]) = map fl_size (frozen buf)"
    proof (cases "k < length (frozen buf)")
      case True
      then show ?thesis unfolding map_update by (simp add: list_update_same_conv)
    qed (simp add: list_update_beyond)
    then show ?thesis by (simp add: layout_one_def Let_def total_update frz)
  qed
  moreover have "int (sum_list (map fl_render (frozen (layout_one fit buf k))) + last_render (layout_one fit buf k))
      = int (sum_list (renders (layout_one fit buf k)))"
    by (simp add: renders_def all_lines_def last_render_def edit_line_def)
  moreover have "lb_total_rendered (layout_one fit buf k) = s16 (int (sum_list (renders (layout_one fit buf k))))"
    by (simp add: layout_one_def Let_def renders_def total_update)
  moreover have "lb_total_size_except_last (layout_one fit buf k) = lb_total_size_except_last buf"
    by (simp add: layout_one_def Let_def)
  ultimately have "lb_totals (layout_one fit buf k)" using assms(1) by (simp add: lb_totals_def lb_ok_def)
  moreover have "lb_shape (layout_one fit buf k)"
    using set_render_shape [OF sh assms(2)] by (simp add: layout_one_def Let_def total_update)
  moreover have "last_ok (layout_one fit buf k)"
    using assms(1) by (auto simp: lb_ok_def last_ok_def layout_one_def Let_def set_render_def stredit_ok_def)
  ultimately show "lb_ok (layout_one fit buf k)" by (simp add: lb_ok_def)
qed (simp_all add: layout_one_def Let_def)

lemma update_render_round:
  assumes "lb_ok buf" "k < lb_size buf" "fit_ok fit"
  shows "update_render_loop fit (Suc n) (lb_absolute buf + k) buf
    = update_render_loop fit n (Suc (lb_absolute buf + k)) (layout_one fit buf k)"
proof -
  let ?ref = "linebuf_get_nth_line buf (int k)" and ?r = "line_count fit (lb_texts buf ! k)"
  have sh: "lb_shape buf" and tot: "lb_total_rendered buf = s16 (int (sum_list (renders buf)))"
    using assms(1) lb_total_renders by (auto simp: lb_ok_def)
  have live: "live_from buf k" using sh unfolding lb_shape_def live_from_def by blast
  have rd: "read_line buf ?ref = Some (line_at buf k)" by (rule read_line_at [OF assms(2) live])
  have line: "fl_render (line_at buf k) = renders buf ! k" "fl_data (line_at buf k) = lb_texts buf ! k"
  proof -
    have "all_lines buf ! k = edit_line (lb_edit buf)" if "k = lb_size buf - 1"
      using that assms(2) by (simp add: all_lines_def nth_append)
    moreover have "all_lines buf ! k = slot_line (lb_lines buf ! linebuf_nth_to_index buf k)" if "k \<noteq> lb_size buf - 1"
      using that assms(2) by (simp add: all_lines_def nth_append frozen_def)
    ultimately show "fl_render (line_at buf k) = renders buf ! k" "fl_data (line_at buf k) = lb_texts buf ! k"
      using assms(2) by (simp_all add: renders_def lb_texts_lines line_at_def edit_line_def)
  qed
  let ?t = "s16 (lb_total_rendered buf - int (renders buf ! k))"
  have "write_render (buf\<lparr>lb_total_rendered := ?t\<rparr>) ?ref ?r = Some ((set_render buf k ?r)\<lparr>lb_total_rendered := ?t\<rparr>)"
    using write_render_at [of "buf\<lparr>lb_total_rendered := ?t\<rparr>" k ?r] sh assms(2) by (simp add: total_update)
  moreover have "s16 (?t + int ?r) = s16 (int (sum_list (renders (set_render buf k ?r))))"
    using assms(2) unfolding tot s16_diff s16_add
    by (simp add: renders_def set_render_lines [OF sh assms(2)] map_update sum_list_update_int)
  moreover have "int (lb_absolute buf + k) - int (lb_absolute buf) = int k" by simp
  ultimately show ?thesis
    by (simp add: rd line Let_def line_count [OF assms(3)] layout_one_def)
qed

text \<open>All rounds: the lines from the \<open>k\<close>-th on get their count, the others keep theirs.\<close>

lemma update_render_loop_correct:
  assumes "lb_ok buf" "fit_ok fit" "k + n = lb_size buf"
  shows "\<exists>b. update_render_loop fit n (lb_absolute buf + k) buf = Some b \<and> lb_ok b \<and> lb_texts b = lb_texts buf
    \<and> renders b = take k (renders buf) @ map (line_count fit) (drop k (lb_texts buf))
    \<and> lb_size b = lb_size buf \<and> lb_absolute b = lb_absolute buf \<and> lb_capacity b = lb_capacity buf
    \<and> lb_backlog_size b = lb_backlog_size buf \<and> lb_absolute_rendered b = lb_absolute_rendered buf
    \<and> ed_text (lb_edit b) = ed_text (lb_edit buf)"
  using assms
proof (induction n arbitrary: k buf)
  case 0
  then show ?case by simp
next
  case (Suc n)
  have k: "k < lb_size buf" using Suc.prems(3) by simp
  let ?b = "layout_one fit buf k"
  note f = layout_one_facts [OF Suc.prems(1) k, of fit]
  obtain b where b: "update_render_loop fit n (lb_absolute ?b + Suc k) ?b = Some b" "lb_ok b" "lb_texts b = lb_texts ?b"
    "renders b = take (Suc k) (renders ?b) @ map (line_count fit) (drop (Suc k) (lb_texts ?b))"
    "lb_size b = lb_size ?b" "lb_absolute b = lb_absolute ?b" "lb_capacity b = lb_capacity ?b"
    "lb_backlog_size b = lb_backlog_size ?b" "lb_absolute_rendered b = lb_absolute_rendered ?b"
    "ed_text (lb_edit b) = ed_text (lb_edit ?b)"
    using Suc.IH [OF f(1) Suc.prems(2), of "Suc k"] Suc.prems(3) f(4) by auto
  have "take (Suc k) (renders ?b) = take k (renders buf) @ [line_count fit (lb_texts buf ! k)]"
    using k unfolding f(3) by (simp add: take_Suc_conv_app_nth)
  moreover have "drop k (lb_texts buf) = lb_texts buf ! k # drop (Suc k) (lb_texts buf)"
    using k by (simp add: Cons_nth_drop_Suc)
  ultimately have "renders b = take k (renders buf) @ map (line_count fit) (drop k (lb_texts buf))"
    using b(4) f(2) by simp
  moreover have "update_render_loop fit (Suc n) (lb_absolute buf + k) buf = Some b"
    unfolding update_render_round [OF Suc.prems(1) k Suc.prems(2)] using b(1) f(5) by simp
  ultimately show ?case using b f by simp
qed

section \<open>The lazy update\<close>

text \<open>
  The lines up to \<open>absolute_rendered\<close>, all of them frozen, have the count of their text.
\<close>

definition rendered :: "(nat list \<Rightarrow> nat) \<Rightarrow> linebuf \<Rightarrow> bool" where
  "rendered fit buf \<longleftrightarrow>
     (\<forall>k < lb_size buf - 1. int (lb_absolute buf + k) \<le> lb_absolute_rendered buf
        \<longrightarrow> fl_render (frozen buf ! k) = line_count fit (fl_data (frozen buf ! k)))"

definition rendered_bound :: "linebuf \<Rightarrow> bool" where
  "rendered_bound buf \<longleftrightarrow> lb_absolute_rendered buf \<le> int (linebuf_end buf) - 2"

lemma extends_bound:
  assumes "extends a b" "rendered_bound a"
  shows "rendered_bound b"
  using assms by (auto simp: extends_def rendered_bound_def same_array_def linebuf_end_def)

lemma extends_rendered:
  assumes "extends a b" "rendered fit a" "rendered_bound a" "0 < lb_size a"
  shows "rendered fit b"
  unfolding rendered_def
proof (intro allI impI)
  fix k
  assume k: "k < lb_size b - 1" "int (lb_absolute b + k) \<le> lb_absolute_rendered b"
  obtain d ls where e: "frozen b = drop d (frozen a @ ls)" "lb_absolute b = lb_absolute a + d"
    "lb_absolute_rendered b = lb_absolute_rendered a" "d \<le> length (frozen a @ ls)"
    using assms(1) unfolding extends_def same_array_def by blast
  have "k < length (frozen b)" using k(1) by simp
  then have nth: "frozen b ! k = (frozen a @ ls) ! (d + k)" unfolding e(1) using e(4) by (simp only: nth_drop)
  have "int (lb_absolute a + (d + k)) \<le> lb_absolute_rendered a" using k(2) e(2,3) by simp
  moreover from this have "d + k < lb_size a - 1"
    using assms(3,4) unfolding rendered_bound_def linebuf_end_def by linarith
  ultimately have "fl_render (frozen a ! (d + k)) = line_count fit (fl_data (frozen a ! (d + k)))"
    using assms(2) unfolding rendered_def by blast
  then show "fl_render (frozen b ! k) = line_count fit (fl_data (frozen b ! k))"
    using \<open>d + k < lb_size a - 1\<close> unfolding nth by (simp add: nth_append)
qed

lemma frozen_nth_texts: "k < lb_size buf - 1 \<Longrightarrow> fl_data (frozen buf ! k) = lb_texts buf ! k"
  by (simp add: lb_texts_lines all_lines_def nth_append)

lemma frozen_nth_renders: "k < lb_size buf - 1 \<Longrightarrow> fl_render (frozen buf ! k) = renders buf ! k"
  by (simp add: renders_def all_lines_def nth_append)

text \<open>The line that the update starts with, counted from the first line of the buffer.\<close>

definition lazy_start :: "linebuf \<Rightarrow> bool \<Rightarrow> nat" where
  "lazy_start buf lazy = (if lazy then nat (lb_absolute_rendered buf + 1 - int (lb_absolute buf)) else 0)"

text \<open>The lines in front of it keep their counts, the others get the counts of their texts.\<close>

lemma update_render_general:
  assumes "lb_ok buf" "0 < lb_size buf" "fit_ok (fit (view_params fx w))" "rendered_bound buf"
  shows "\<exists>b. linebuf_update_render fit fx buf w lazy = Some b \<and> lb_ok b \<and> lb_texts b = lb_texts buf
    \<and> renders b = take (lazy_start buf lazy) (renders buf)
        @ map (line_count (fit (view_params fx w))) (drop (lazy_start buf lazy) (lb_texts buf))
    \<and> lb_size b = lb_size buf \<and> lb_absolute b = lb_absolute buf \<and> lb_backlog_size b = lb_backlog_size buf
    \<and> ed_text (lb_edit b) = ed_text (lb_edit buf)
    \<and> lb_absolute_rendered b = int (linebuf_end buf) - 2 \<and> lazy_start buf lazy < lb_size buf"
proof -
  let ?f = "fit (view_params fx w)"
  define start where "start = (if lazy then nat (max (int (linebuf_start buf)) (lb_absolute_rendered buf + 1)) else linebuf_start buf)"
  define k where "k = lazy_start buf lazy"
  have bound: "lb_absolute_rendered buf \<le> int (lb_absolute buf) + int (lb_size buf) - 2"
    using assms(4) by (simp add: rendered_bound_def linebuf_end_def)
  have start: "start = lb_absolute buf + k" "linebuf_end buf - start = lb_size buf - k" "k + (lb_size buf - k) = lb_size buf"
    using bound assms(2) by (auto simp: k_def start_def lazy_start_def linebuf_start_def linebuf_end_def)
  have less: "k < lb_size buf" using bound assms(2) by (auto simp: k_def lazy_start_def)
  obtain b where b: "update_render_loop ?f (lb_size buf - k) (lb_absolute buf + k) buf = Some b" "lb_ok b"
    "lb_texts b = lb_texts buf" "renders b = take k (renders buf) @ map (line_count ?f) (drop k (lb_texts buf))"
    "lb_size b = lb_size buf" "lb_absolute b = lb_absolute buf" "lb_capacity b = lb_capacity buf"
    "lb_backlog_size b = lb_backlog_size buf" "lb_absolute_rendered b = lb_absolute_rendered buf"
    "ed_text (lb_edit b) = ed_text (lb_edit buf)"
    using update_render_loop_correct [OF assms(1,3) start(3)] by blast
  define b' where "b' = b\<lparr>lb_absolute_rendered := max (lb_absolute_rendered b) (int (linebuf_end buf) - 2)\<rparr>"
  have fin: "linebuf_end buf - (lb_absolute buf + k) = lb_size buf - k" using start(2) unfolding start(1) .
  have run: "linebuf_update_render fit fx buf w lazy = Some b'"
    unfolding linebuf_update_render_def Let_def start_def [symmetric] start(1) fin b(1) by (simp add: b'_def)
  have sel: "frozen b' = frozen b" "all_lines b' = all_lines b" "lb_size b' = lb_size b" "lb_edit b' = lb_edit b"
    "lb_absolute b' = lb_absolute b" "lb_backlog_size b' = lb_backlog_size b"
    by (simp_all add: b'_def frozen_def all_lines_def linebuf_nth_to_index_def)
  have "lb_ok b'" using b(2)
    by (simp add: b'_def lb_ok_def lb_shape_def lb_totals_def last_ok_def last_render_def frozen_def linebuf_nth_to_index_def)
  moreover have "lb_absolute_rendered b' = int (linebuf_end buf) - 2"
    using bound b(9) by (simp add: b'_def linebuf_end_def)
  ultimately show ?thesis
    using run b(3,4,5,6,8,10) less by (intro exI [of _ b']) (simp add: sel lb_texts_lines renders_def k_def)
qed

lemma rendered_take:
  assumes "rendered f buf" "rendered_bound buf"
  shows "take (lazy_start buf lazy) (renders buf) = map (line_count f) (take (lazy_start buf lazy) (lb_texts buf))"
proof (rule nth_equalityI)
  let ?k = "lazy_start buf lazy"
  show "length (take ?k (renders buf)) = length (map (line_count f) (take ?k (lb_texts buf)))" by simp
  fix j
  assume "j < length (take ?k (renders buf))"
  then have j: "j < ?k" "j < lb_size buf" by auto
  then have le: "int (lb_absolute buf + j) \<le> lb_absolute_rendered buf" by (auto simp: lazy_start_def split: if_splits)
  then have "j < lb_size buf - 1" using assms(2) unfolding rendered_bound_def linebuf_end_def by linarith
  then have "renders buf ! j = line_count f (lb_texts buf ! j)"
    using le assms(1) frozen_nth_texts frozen_nth_renders unfolding rendered_def by metis
  then show "take ?k (renders buf) ! j = map (line_count f) (take ?k (lb_texts buf)) ! j" using j by simp
qed

lemma renders_rendered:
  assumes "renders b = map (line_count f) (lb_texts b)"
  shows "rendered f b"
  unfolding rendered_def using assms frozen_nth_texts frozen_nth_renders by simp

lemma update_render_correct:
  assumes "lb_ok buf" "0 < lb_size buf" "fit_ok (fit (view_params fx w))" "rendered_bound buf"
    "lazy \<longrightarrow> rendered (fit (view_params fx w)) buf"
    "linebuf_update_render fit fx buf w lazy = Some b"
  shows "renders b = map (line_count (fit (view_params fx w))) (lb_texts buf)"
proof -
  let ?f = "fit (view_params fx w)" and ?k = "lazy_start buf lazy"
  have re: "renders b = take ?k (renders buf) @ map (line_count ?f) (drop ?k (lb_texts buf))"
    using update_render_general [where fit = fit and fx = fx and w = w and lazy = lazy, OF assms(1-4)] assms(6) by auto
  have "take ?k (renders buf) = map (line_count ?f) (take ?k (lb_texts buf))"
  proof (cases lazy)
    case True
    then show ?thesis using assms(4,5) rendered_take by blast
  qed (simp add: lazy_start_def)
  then show ?thesis unfolding re by (metis append_take_drop_id map_append)
qed

text \<open>
  A lazy update in another font: the frozen lines that were laid out keep the counts of the first one.
\<close>

lemma update_render_stale:
  assumes "lb_ok buf" "0 < lb_size buf" "fit_ok (fit (view_params fx w))"
    "lb_absolute_rendered buf = int (linebuf_end buf) - 2" "renders buf = map (line_count f) (lb_texts buf)"
    "linebuf_update_render fit fx buf w True = Some b"
  shows "renders b = map (line_count f) (butlast (lb_texts buf)) @ [line_count (fit (view_params fx w)) (last (lb_texts buf))]"
proof -
  have bound: "rendered_bound buf" by (simp add: rendered_bound_def assms(4))
  have k: "lazy_start buf True = length (lb_texts buf) - 1"
    using assms(2) by (simp add: lazy_start_def assms(4) linebuf_end_def)
  have ne: "lb_texts buf \<noteq> []" using assms(2) length_lb_texts [of buf] by (metis length_0_conv less_numeral_extra(3))
  have "drop (length (lb_texts buf) - 1) (lb_texts buf) = [last (lb_texts buf)]"
    using ne by (metis append_butlast_last_id append_eq_conv_conj length_butlast)
  moreover have "take (length (lb_texts buf) - 1) (renders buf) = map (line_count f) (butlast (lb_texts buf))"
    unfolding assms(5) by (simp add: butlast_conv_take take_map)
  ultimately show ?thesis
    using update_render_general [where fit = fit and fx = fx and w = w and lazy = True, OF assms(1-3) bound] assms(6)
    unfolding k by auto
qed

text \<open>A line that has its count is laid out to itself.\<close>

lemma layout_one_same:
  assumes "lb_ok buf" "k < lb_size buf - 1" "fl_render (frozen buf ! k) = line_count fit (fl_data (frozen buf ! k))"
  shows "layout_one fit buf k = buf"
proof -
  have sh: "lb_shape buf" and tot: "lb_total_rendered buf = s16 (int (sum_list (renders buf)))"
    using assms(1) lb_total_renders by (auto simp: lb_ok_def)
  obtain fl where fl: "lb_lines buf ! linebuf_nth_to_index buf k = Line fl" using sh assms(2) unfolding lb_shape_def by blast
  then have "frozen buf ! k = fl" using assms(2) by (simp add: frozen_def slot_line_def)
  then have "line_count fit (lb_texts buf ! k) = fl_render fl" using assms(2,3) frozen_nth_texts [OF assms(2)] by simp
  moreover have "(lb_lines buf)[linebuf_nth_to_index buf k := Line fl] = lb_lines buf"
    using list_update_id [of "lb_lines buf" "linebuf_nth_to_index buf k"] by (simp add: fl)
  ultimately have "set_render buf k (line_count fit (lb_texts buf ! k)) = buf"
    using assms(2) by (simp add: set_render_def fl slot_line_def)
  then show ?thesis by (simp add: layout_one_def Let_def flip: tot)
qed

lemma update_render_skip:
  assumes "lb_ok buf" "fit_ok fit" "k + n = lb_size buf" "j \<le> n" "k + j \<le> lb_size buf - 1"
    "\<forall>i. k \<le> i \<and> i < k + j \<longrightarrow> fl_render (frozen buf ! i) = line_count fit (fl_data (frozen buf ! i))"
  shows "update_render_loop fit n (lb_absolute buf + k) buf = update_render_loop fit (n - j) (lb_absolute buf + (k + j)) buf"
  using assms(3-6)
proof (induction j arbitrary: k n)
  case (Suc j)
  obtain m where n: "n = Suc m" using Suc.prems(2) by (cases n) auto
  have k: "k < lb_size buf - 1" using Suc.prems(3) by simp
  have "layout_one fit buf k = buf" using Suc.prems(4) k by (intro layout_one_same [OF assms(1)]) auto
  then have "update_render_loop fit n (lb_absolute buf + k) buf = update_render_loop fit m (lb_absolute buf + Suc k) buf"
    using update_render_round [OF assms(1) _ assms(2), of k m] k n by simp
  also have "\<dots> = update_render_loop fit (m - j) (lb_absolute buf + (Suc k + j)) buf"
    using Suc.prems n by (intro Suc.IH) auto
  finally show ?case using n by simp
qed simp

lemma lazy_update_same:
  assumes "lb_ok buf" "0 < lb_size buf" "fit_ok (fit (view_params fx w))" "rendered_bound buf"
    "rendered (fit (view_params fx w)) buf"
  shows "linebuf_update_render fit fx buf w True = linebuf_update_render fit fx buf w False"
proof -
  define j where "j = nat (lb_absolute_rendered buf + 1 - int (lb_absolute buf))"
  have bound: "lb_absolute_rendered buf \<le> int (lb_absolute buf) + int (lb_size buf) - 2"
    using assms(4) by (simp add: rendered_bound_def linebuf_end_def)
  have j: "j \<le> lb_size buf - 1" using bound assms(2) unfolding j_def by linarith
  have start: "nat (max (int (linebuf_start buf)) (lb_absolute_rendered buf + 1)) = lb_absolute buf + j"
    unfolding j_def linebuf_start_def by linarith
  have fin: "linebuf_end buf - (lb_absolute buf + j) = lb_size buf - j" "linebuf_end buf - linebuf_start buf = lb_size buf"
    by (simp_all add: linebuf_end_def linebuf_start_def)
  have "fl_render (frozen buf ! i) = line_count (fit (view_params fx w)) (fl_data (frozen buf ! i))" if "i < 0 + j" for i
  proof -
    have "i < lb_size buf - 1" using that j by simp
    moreover have "int (lb_absolute buf + i) \<le> lb_absolute_rendered buf" using that unfolding j_def by simp
    ultimately show ?thesis using assms(5) unfolding rendered_def by blast
  qed
  then have "update_render_loop (fit (view_params fx w)) (lb_size buf) (lb_absolute buf + 0) buf
      = update_render_loop (fit (view_params fx w)) (lb_size buf - j) (lb_absolute buf + (0 + j)) buf"
    using j by (intro update_render_skip [OF assms(1,3)]) auto
  then show ?thesis unfolding linebuf_update_render_def Let_def by (simp add: start fin) (simp add: linebuf_start_def)
qed

section \<open>Plain text\<close>

text \<open>
  What a terminal does with plain text: a new line, or the character at the end of the last line.
\<close>

definition put_char :: "nat list list \<Rightarrow> nat \<Rightarrow> nat list list" where
  "put_char ls c = (if c = 10 then ls @ [[]] else butlast ls @ [last ls @ [c]])"

definition put_text :: "nat list list \<Rightarrow> nat list \<Rightarrow> nat list list" where
  "put_text ls s = foldl put_char ls s"

lemma put_char_nonempty [simp]: "put_char ls c \<noteq> []"
  by (simp add: put_char_def)

lemma put_text_nonempty: "ls \<noteq> [] \<Longrightarrow> put_text ls s \<noteq> []"
  by (induction s arbitrary: ls) (simp_all add: put_text_def)

lemma put_text_plain: "10 \<notin> set s \<Longrightarrow> ls \<noteq> [] \<Longrightarrow> put_text ls s = butlast ls @ [last ls @ s]"
proof (induction s arbitrary: ls)
  case (Cons c s)
  have "put_text ls (c # s) = put_text (butlast ls @ [last ls @ [c]]) s" using Cons.prems by (simp add: put_text_def put_char_def)
  then show ?case using Cons by simp
qed (simp add: put_text_def)

lemma put_text_append: "put_text ls (s @ t) = put_text (put_text ls s) t"
  by (simp add: put_text_def)

text \<open>Only the last line matters, so old lines may be dropped.\<close>

lemma put_char_drop: "d < length ls \<Longrightarrow> put_char (drop d ls) c = drop d (put_char ls c)"
  by (simp add: put_char_def butlast_drop last_drop)

lemma length_put_char: "length ls \<le> length (put_char ls c)"
  by (cases ls rule: rev_cases) (simp_all add: put_char_def)

lemma put_text_drop: "d < length ls \<Longrightarrow> put_text (drop d ls) s = drop d (put_text ls s)"
proof (induction s arbitrary: ls)
  case (Cons c s)
  have "d < length (put_char ls c)" using Cons.prems length_put_char order_less_le_trans by blast
  then show ?case using Cons by (simp add: put_text_def put_char_drop)
qed (simp add: put_text_def)

lemma put_text_length: "length ls \<le> length (put_text ls s)"
proof (induction s arbitrary: ls)
  case (Cons c s)
  show ?case using length_put_char [of ls c] Cons [of "put_char ls c"] by (simp add: put_text_def)
qed (simp add: put_text_def)

lemma put_char_size: "sum_list (map length (butlast ls)) \<le> sum_list (map length (butlast (put_char ls c)))"
  by (cases ls rule: rev_cases) (simp_all add: put_char_def butlast_append)

lemma put_text_size: "sum_list (map length (butlast ls)) \<le> sum_list (map length (butlast (put_text ls s)))"
proof (induction s arbitrary: ls)
  case (Cons c s)
  show ?case using put_char_size [of ls c] Cons [of "put_char ls c"] by (simp add: put_text_def)
qed (simp add: put_text_def)

text \<open>The lines only grow.\<close>

lemma put_text_last: "ls \<noteq> [] \<Longrightarrow> \<exists>l \<in> set (put_text ls s). length (last ls) \<le> length l"
proof (induction s arbitrary: ls rule: rev_induct)
  case Nil
  then show ?case by (auto simp: put_text_def)
next
  case (snoc c s)
  obtain l where l: "l \<in> set (put_text ls s)" "length (last ls) \<le> length l" using snoc by blast
  let ?p = "put_text ls s"
  have "?p = butlast ?p @ [last ?p]" using put_text_nonempty [OF snoc.prems] by simp
  then have "l \<in> set (butlast ?p) \<or> l = last ?p" using l(1) by (metis Un_iff set_append empty_set insert_iff list.simps(15) empty_iff)
  then have "\<exists>m \<in> set (put_char ?p c). length l \<le> length m" using l(1) by (auto simp: put_char_def)
  then obtain m where "m \<in> set (put_char ?p c)" "length (last ls) \<le> length m" using l(2) order_trans by blast
  moreover have "put_text ls (s @ [c]) = put_char ?p c" by (simp add: put_text_def)
  ultimately show ?case by auto
qed

text \<open>The cursor is at the end of the last line.\<close>

definition at_end :: "console \<Rightarrow> bool" where
  "at_end cons \<longleftrightarrow> cons_cursor cons = int (length (cons_text cons))"

lemma last_cons_texts: "cons_ok cons \<Longrightarrow> last (cons_texts cons) = cons_text cons \<and> cons_texts cons \<noteq> []"
  using cons_texts_last [of cons] by (simp add: cons_ok_def)

lemma write_plain_line:
  assumes "cons_ok cons" "at_end cons" "10 \<notin> set s" "length (cons_text cons) + length s \<le> PE_CONSOLE_LINE_MAX_LENGTH"
  shows "\<exists>c. console_write_raw cons s = Some (c, True) \<and> good_step cons c \<and> at_end c
    \<and> cons_texts c = put_text (cons_texts cons) s \<and> lb_absolute (cons_lines c) = lb_absolute (cons_lines cons)"
proof -
  obtain c where c: "console_write_raw cons s = Some (c, True)" "good_step cons c"
    "cons_text c = inserted (cons_text cons) (cons_cursor cons) s" "cons_cursor c = cons_cursor cons + int (length s)"
    "frozen (cons_lines c) = frozen (cons_lines cons)" "lb_absolute (cons_lines c) = lb_absolute (cons_lines cons)"
    using write_raw_fits [OF assms(1,4)] by blast
  have t: "cons_text c = cons_text cons @ s" using assms(2) unfolding c(3) at_end_def by (simp add: inserted_def)
  have "cons_texts c = put_text (cons_texts cons) s"
    using cons_texts_last [of c] cons_texts_last [of cons] assms(1) good_step_ok [OF c(2)] put_text_plain [OF assms(3)]
    by (simp add: cons_ok_def t c(5))
  moreover have "at_end c" using c(4) assms(2) by (simp add: at_end_def t)
  ultimately show ?thesis using c(1,2,6) by blast
qed

lemma write_plain_correct:
  assumes "cons_ok cons" "at_end cons" "27 \<notin> set s" "8 \<notin> set s"
    "\<forall>l \<in> set (put_text (cons_texts cons) s). length l \<le> PE_CONSOLE_LINE_MAX_LENGTH"
  shows "\<exists>c d. write_loop cons s = Some (c, True) \<and> good_step cons c \<and> at_end c \<and> d < length (put_text (cons_texts cons) s)
    \<and> cons_texts c = drop d (put_text (cons_texts cons) s) \<and> lb_absolute (cons_lines c) = lb_absolute (cons_lines cons) + d
    \<and> (length (put_text (cons_texts cons) s) \<le> lb_capacity (cons_lines cons)
        \<and> sum_list (map length (butlast (put_text (cons_texts cons) s))) \<le> lb_backlog_size (cons_lines cons) \<longrightarrow> d = 0)"
  using assms
proof (induction s arbitrary: cons rule: length_induct)
  case (1 s)
  note last = last_cons_texts [OF 1(2)]
  let ?line = "takeWhile plain_char s" and ?rest = "dropWhile plain_char s"
  have split: "s = ?line @ ?rest" by simp
  have plain: "10 \<notin> set ?line" using set_takeWhileD [of 10 plain_char s] by (auto simp: plain_char_def)
  have len: "length (cons_text cons) + length ?line \<le> PE_CONSOLE_LINE_MAX_LENGTH"
  proof -
    have "put_text (cons_texts cons) ?line \<noteq> []" using last put_text_nonempty by blast
    then obtain l where "l \<in> set (put_text (put_text (cons_texts cons) ?line) ?rest)"
      "length (List.last (put_text (cons_texts cons) ?line)) \<le> length l"
      using put_text_last by blast
    moreover have "List.last (put_text (cons_texts cons) ?line) = cons_text cons @ ?line"
      using put_text_plain [OF plain] last by simp
    ultimately show ?thesis using 1(6) split by (metis length_append order_trans put_text_append)
  qed
  obtain c where c: "console_write_raw cons ?line = Some (c, True)" "good_step cons c" "at_end c"
    "cons_texts c = put_text (cons_texts cons) ?line" "lb_absolute (cons_lines c) = lb_absolute (cons_lines cons)"
    using write_plain_line [OF 1(2,3) plain len] by blast
  show ?case
  proof (cases ?rest)
    case Nil
    then have line: "?line = s" using split by simp
    have ne: "put_text (cons_texts cons) s \<noteq> []" using last put_text_nonempty by blast
    show ?thesis
    proof (cases "s = []")
      case True
      then have "write_loop cons s = Some (cons, True)" by (subst write_loop.simps) simp
      then show ?thesis
        using True 1(2,3) good_step_refl [OF 1(2)] last by (intro exI [of _ cons] exI [of _ 0]) (simp add: put_text_def)
    next
      case False
      then have "write_loop cons s = Some (c, True)" using Nil c(1) by (subst write_loop.simps) (simp add: Let_def)
      then show ?thesis using c ne unfolding line by (intro exI [of _ c] exI [of _ 0]) simp
    qed
  next
    case (Cons x xs)
    then have "x \<in> set s" "\<not> plain_char x" using split hd_dropWhile [of plain_char s] by (metis in_set_conv_decomp, simp)
    then have x: "x = 10" using 1(4,5) by (auto simp: plain_char_def)
    have xs: "length xs < length s" using length_dropWhile_le [of plain_char s] Cons by simp
    obtain c1 d where c1: "console_newline c = Some c1" "good_step c c1" "cons_cursor c1 = 0" "lb_edit (cons_lines c1) = fresh_line"
      "d \<le> length (cons_texts c)" "cons_texts c1 = drop d (cons_texts c @ [[]])" "lb_absolute (cons_lines c1) = lb_absolute (cons_lines c) + d"
      "lb_size (cons_lines c) < lb_capacity (cons_lines c)
        \<and> sum_list (map length (cons_texts c)) \<le> lb_backlog_size (cons_lines c) \<longrightarrow> d = 0"
      using newline_extends [OF good_step_ok [OF c(2)]] by blast
    let ?c = "c1\<lparr>cons_render_needed := True\<rparr>"
    have g: "good_step cons ?c" using good_step_trans [OF c(2) c1(2)] by (rule good_step_flag)
    have texts: "cons_texts ?c = drop d (put_text (cons_texts cons) (?line @ [10]))"
    proof -
      have "cons_texts ?c = cons_texts c1" by (simp add: cons_texts_def)
      moreover have "put_text (cons_texts cons) (?line @ [10]) = cons_texts c @ [[]]"
        unfolding put_text_append c(4) [symmetric] by (simp add: put_text_def put_char_def)
      ultimately show ?thesis unfolding c1(6) by (simp only:)
    qed
    have d: "d < length (put_text (cons_texts cons) (?line @ [10]))"
      using c1(5) c(4) by (simp add: put_text_append) (simp add: put_text_def put_char_def)
    have all: "put_text (cons_texts ?c) xs = drop d (put_text (cons_texts cons) s)"
      unfolding texts put_text_drop [OF d] using split Cons x by (metis append_Cons append_Nil append_assoc put_text_append)
    have "at_end ?c" using c1(3,4) fresh_line_ok(2) by (simp add: at_end_def cons_text_def)
    moreover have "\<forall>l \<in> set (put_text (cons_texts ?c) xs). length l \<le> PE_CONSOLE_LINE_MAX_LENGTH"
      using 1(6) unfolding all by (meson in_set_dropD)
    moreover have "27 \<notin> set xs" "8 \<notin> set xs" using 1(4,5) split Cons by (metis Un_iff set_append set_subset_Cons subsetD)+
    ultimately obtain c2 e where c2: "write_loop ?c xs = Some (c2, True)" "good_step ?c c2" "at_end c2"
      "e < length (put_text (cons_texts ?c) xs)" "cons_texts c2 = drop e (put_text (cons_texts ?c) xs)"
      "lb_absolute (cons_lines c2) = lb_absolute (cons_lines ?c) + e"
      "length (put_text (cons_texts ?c) xs) \<le> lb_capacity (cons_lines ?c)
        \<and> sum_list (map length (butlast (put_text (cons_texts ?c) xs))) \<le> lb_backlog_size (cons_lines ?c) \<longrightarrow> e = 0"
      using 1(1) [rule_format, OF xs good_step_ok [OF g]] by blast
    have "write_loop cons s = Some (c2, True)"
      unfolding write_loop_special [OF Cons c(1)] by (simp add: x c1(1) c2(1))
    moreover have "cons_texts c2 = drop (d + e) (put_text (cons_texts cons) s)" using c2(5) unfolding all by (simp add: add.commute)
    moreover have "d + e < length (put_text (cons_texts cons) s)" using c2(4) unfolding all by simp
    moreover have "d + e = 0" if "length (put_text (cons_texts cons) s) \<le> lb_capacity (cons_lines cons)"
      "sum_list (map length (butlast (put_text (cons_texts cons) s))) \<le> lb_backlog_size (cons_lines cons)"
    proof -
      have same: "lb_capacity (cons_lines a) = lb_capacity (cons_lines cons)"
        "lb_backlog_size (cons_lines a) = lb_backlog_size (cons_lines cons)" if "good_step cons a" for a
        using that by (auto simp: good_step_def extends_def same_array_def)
      have "put_text (cons_texts cons) s = put_text (put_text (cons_texts cons) (?line @ [10])) xs"
        using split Cons x by (metis append_Cons append_Nil append_assoc put_text_append)
      moreover have "put_text (cons_texts cons) (?line @ [10]) = cons_texts c @ [[]]"
        unfolding put_text_append c(4) [symmetric] by (simp add: put_text_def put_char_def)
      ultimately have s: "put_text (cons_texts cons) s = put_text (cons_texts c @ [[]]) xs" by simp
      have "length (cons_texts c @ [[]]) \<le> lb_capacity (cons_lines cons)"
        using put_text_length order_trans that(1) unfolding s by blast
      moreover have "sum_list (map length (butlast (cons_texts c @ [[]]))) \<le> lb_backlog_size (cons_lines cons)"
        using put_text_size order_trans that(2) unfolding s by blast
      ultimately have d0: "d = 0" using c1(8) same [OF c(2)] by (simp add: cons_texts_def)
      then show ?thesis using c2(7) that same [OF g] unfolding all by simp
    qed
    ultimately show ?thesis
      using good_step_trans [OF g c2(2)] c2(3,6) c1(7) c(5) by (intro exI [of _ c2] exI [of _ "d + e"]) simp
  qed
qed

section \<open>Destroying a console whose backlog was cleaned up\<close>

lemma free_slots_iff: "free_slots ss \<longleftrightarrow> Freed \<notin> set ss"
  by (induction ss) auto

text \<open>The slots of the recycled lines are not cleared.\<close>

lemma recycle_dangling:
  assumes "lb_shape buf" "lb_totals buf" "0 < c" "c \<le> lb_size buf" "1 < lb_size buf"
    "linebuf_recycle_oldest_lines buf (int c) = Some b"
  shows "Freed \<in> set (lb_lines b)"
proof -
  note sh = assms(1) [unfolded lb_shape_def] and tot = assms(2) [unfolded lb_totals_def]
  have cap: "0 < lb_capacity buf" "length (lb_lines buf) = lb_capacity buf" "lb_size buf \<le> lb_capacity buf"
    using sh by blast+
  have live: "live_from buf 0" using sh by (auto simp: live_from_def)
  have lines: "lb_lines b = freed buf 0 c"
    using recycle_loop_correct [OF cap(2,1,3) _ live, of c] tot assms(3,4,6)
    by (auto simp: linebuf_recycle_oldest_lines_def Let_def min_def)
  have "0 < lb_size buf" "set [0..<0 + c] \<subseteq> {..<lb_size buf}" using assms(4,5) by auto
  from free_fold_nth [OF cap(2,3) this] assms(3,5)
  have "lb_lines b ! linebuf_nth_to_index buf 0 = Freed" by (simp add: lines freed_def)
  moreover have "linebuf_nth_to_index buf 0 < length (lb_lines b)"
    using cap nth_index_less by (simp add: lines freed_def length_free_fold)
  ultimately show ?thesis by (metis nth_mem)
qed

lemma clean_backlog_dangling:
  assumes "lb_ok buf" "1 < lb_size buf" "lb_backlog_size buf < sum_list (map length (lb_texts buf))"
    "linebuf_clean_backlog buf = Some b"
  shows "Freed \<in> set (lb_lines b)"
proof -
  have pos: "0 < lb_size buf" using assms(2) by simp
  obtain r where r: "linebuf_clean_backlog buf = linebuf_recycle_oldest_lines buf (int r)"
  proof -
    have "\<exists>r. linebuf_clean_backlog buf = linebuf_recycle_oldest_lines buf (int r)"
      using assms(4) pos by (auto simp: linebuf_clean_backlog_def linebuf_get_last_line_def Let_def split: bind_splits)
        (metis)
    then show ?thesis using that by blast
  qed
  obtain b' q where b: "linebuf_clean_backlog buf = Some b'" "frozen b' = drop q (frozen buf)" "lb_edit b' = lb_edit buf"
    "lb_size b' = lb_size buf - q" "q \<le> lb_size buf - 1"
    "lb_size b' = 1 \<or> sum_list (map length (lb_texts b')) \<le> lb_backlog_size buf"
    using clean_backlog_correct [OF assms(1) pos] by blast
  have "q \<noteq> 0"
  proof
    assume "q = 0"
    then have "lb_texts b' = lb_texts buf" "lb_size b' = lb_size buf" using b(2-4) by (simp_all add: lb_texts_def)
    then show False using b(6) assms(2,3) by simp
  qed
  then have size: "lb_size b < lb_size buf" using b(1,4,5) assms(2,4) by auto
  have "0 < r"
    using size assms(4) unfolding r by (cases "r = 0") (auto simp: linebuf_recycle_oldest_lines_def)
  moreover have "r \<le> lb_size buf"
  proof (rule ccontr)
    assume "\<not> r \<le> lb_size buf"
    then have "linebuf_recycle_oldest_lines buf (int r) = linebuf_recycle_oldest_lines buf (int (lb_size buf))"
      by (simp add: linebuf_recycle_oldest_lines_def)
    then have "lb_size b = 0"
      using recycle_correct [of buf "lb_size buf"] assms(1,4) unfolding r lb_ok_def by auto
    then show False using b(1,4,5) assms(2,4) by simp
  qed
  ultimately show ?thesis
    using recycle_dangling [of buf r b] assms(1,2,4) unfolding r lb_ok_def by blast
qed

lemma newline_dangling:
  assumes "cons_ok cons" "lb_size (cons_lines cons) < lb_capacity (cons_lines cons)"
    "lb_backlog_size (cons_lines cons) < sum_list (map length (cons_texts cons))"
  shows "\<exists>c. console_newline cons = Some c \<and> console_destroy c = None"
proof -
  let ?b = "cons_lines cons"
  have ok: "lb_ok ?b" "0 < lb_size ?b" using assms(1) by (auto simp: cons_ok_def)
  obtain b1 where b1: "linebuf_newline ?b = Some b1" "lb_ok b1" "frozen b1 = drop (lb_size ?b + 1 - lb_capacity ?b) (all_lines ?b)"
    "lb_edit b1 = fresh_line" "0 < lb_size b1" "lb_backlog_size b1 = lb_backlog_size ?b"
    using newline_correct [OF ok(1)] by blast
  have texts: "lb_texts b1 = cons_texts cons @ [[]]"
    using b1(3-5) assms(2) fresh_line_ok(2) by (simp add: lb_texts_last cons_texts_def lb_texts_lines [of ?b])
  then have "lb_size b1 = lb_size ?b + 1" by (metis cons_texts_def length_append_singleton length_lb_texts Suc_eq_plus1)
  then have size: "1 < lb_size b1" using ok(2) by simp
  obtain c where c: "console_newline cons = Some c"
    using newline_extends [OF assms(1)] by blast
  then obtain b2 where b2: "linebuf_clean_backlog b1 = Some b2" "cons_lines c = b2"
    by (auto simp: console_newline_def b1(1) split: bind_splits)
  have "Freed \<in> set (lb_lines b2)"
    using clean_backlog_dangling [OF b1(2) size _ b2(1)] assms(3) by (simp add: texts b1(6))
  then show ?thesis using c b2(2) by (simp add: console_destroy_def linebuf_deinit_def free_slots_iff)
qed

section \<open>A text that needs two lines\<close>

lemma write_raw_two_lines:
  assumes "cons_ok cons" "cons_text cons = []" "PE_CONSOLE_LINE_MAX_LENGTH < length s" "length s \<le> 2 * PE_CONSOLE_LINE_MAX_LENGTH"
  shows "\<exists>c d. console_write_raw cons s = Some (c, True) \<and> d \<le> lb_size (cons_lines cons)
    \<and> cons_texts c = drop d (butlast (cons_texts cons) @ [take PE_CONSOLE_LINE_MAX_LENGTH s])
        @ [take (length s - PE_CONSOLE_LINE_MAX_LENGTH) s]"
proof -
  let ?N = "PE_CONSOLE_LINE_MAX_LENGTH"
  have cur: "cons_cursor cons = 0" using assms(1,2) by (simp add: cons_ok_def)
  have n: "0 < int (length s)" using assms(3) by linarith
  obtain c m where c: "m = min (nat (int (length s))) (?N - length (cons_text cons))" "good_step cons c"
    "cons_text c = inserted (cons_text cons) (cons_cursor cons) (take m s)" "frozen (cons_lines c) = frozen (cons_lines cons)"
    "write_raw_loop cons s (int (length s))
      = (if int m < int (length s) then console_newline c else Some c) \<bind> (\<lambda>c'. write_raw_loop c' s (int (length s) - int m))"
    using write_raw_round [OF assms(1) n order_refl] by blast
  have m: "m = ?N" using c(1) assms(2,3) by simp
  have texts: "cons_texts c = butlast (cons_texts cons) @ [take ?N s]"
    using cons_texts_last [of c] cons_texts_last [of cons] good_step_ok [OF c(2)] assms(1,2)
    by (simp add: cons_ok_def c(3,4) m inserted_def)
  obtain c1 d where c1: "console_newline c = Some c1" "good_step c c1" "cons_cursor c1 = 0" "lb_edit (cons_lines c1) = fresh_line"
    "d \<le> length (cons_texts c)" "cons_texts c1 = drop d (cons_texts c @ [[]])"
    using newline_extends [OF good_step_ok [OF c(2)]] by blast
  have t1: "cons_text c1 = []" using c1(4) fresh_line_ok(2) by (simp add: cons_text_def)
  define k where "k = length s - ?N"
  have k: "0 < int k" "int k \<le> int (length s)" "int (length s) - int m = int k" "k \<le> ?N"
    using assms(3,4) by (auto simp: k_def m)
  obtain c2 j where c2: "j = min (nat (int k)) (?N - length (cons_text c1))" "good_step c1 c2"
    "cons_text c2 = inserted (cons_text c1) (cons_cursor c1) (take j s)" "frozen (cons_lines c2) = frozen (cons_lines c1)"
    "write_raw_loop c1 s (int k)
      = (if int j < int k then console_newline c2 else Some c2) \<bind> (\<lambda>c'. write_raw_loop c' s (int k - int j))"
    using write_raw_round [OF good_step_ok [OF c1(2)] k(1,2)] by blast
  have j: "j = k" using c2(1) k(4) t1 by simp
  have "console_write_raw cons s = write_raw_loop cons s (int (length s))"
    using assms(1) by (simp add: console_write_raw_def cons_ok_def)
  also have "\<dots> = write_raw_loop c1 s (int k)" unfolding c(5) using assms(3) by (simp add: m c1(1) k(3) [unfolded m])
  also have "\<dots> = Some (c2, True)" unfolding c2(5) by (simp add: j write_raw_loop_done)
  finally have run: "console_write_raw cons s = Some (c2, True)" .
  have "butlast (cons_texts c1) = drop d (cons_texts c)" unfolding c1(6) using c1(5) by simp
  then have "cons_texts c2 = drop d (cons_texts c) @ [take k s]"
    using cons_texts_last [of c2] cons_texts_last [of c1] good_step_ok [OF c2(2)] good_step_ok [OF c1(2)]
    by (simp add: cons_ok_def c2(3,4) j t1 c1(3) inserted_def)
  moreover have "d \<le> lb_size (cons_lines cons)"
    using c1(5) unfolding texts using assms(1) by (simp add: cons_texts_def cons_ok_def)
  ultimately show ?thesis using run unfolding texts k_def by blast
qed

end
