(* ===== verification/ConsoleRender.thy ===== *)
theory ConsoleRender
  imports ConsoleView "HOL-Library.Signed_Division"
begin

text \<open>
  Drawing the console (\<^verbatim>\<open>console_render\<close> of \<^verbatim>\<open>ports/sh/console.c\<close>).  The calls of the display library are
  collected in a list: a piece of text, the cursor behind the given bytes of a piece, the scroll bar.
  All of them are drawn at the same horizontal position, which is left out.
\<close>

section \<open>Drawing\<close>

datatype draw =
    Draw_Text int "nat list"
  | Draw_Cursor int "nat list"
  | Draw_Scrollbar int int

definition cursor_in :: "int \<Rightarrow> int \<Rightarrow> int \<Rightarrow> bool" where
  "cursor_in cursor line_offset len \<longleftrightarrow> cursor \<ge> line_offset \<and> cursor \<le> line_offset + len"

partial_function (option) fline_render_loop ::
  "(nat list \<Rightarrow> nat) \<Rightarrow> int \<Rightarrow> int \<Rightarrow> int \<Rightarrow> int \<Rightarrow> nat list \<Rightarrow> int \<Rightarrow> int \<Rightarrow> int \<Rightarrow> draw list \<Rightarrow> (int \<times> draw list) option" where
  "fline_render_loop fit dy show_from show_until cursor p y line_offset line_number out =
     (if p = [] then Some (y, out)
      else let len = fit p;
               shown = (line_number \<ge> show_from \<and> line_number < show_until);
               out = (if shown
                      then out @ [Draw_Text y (take len p)]
                        @ (if cursor_in cursor line_offset (int len)
                           then [Draw_Cursor y (take (nat (cursor - line_offset)) p)] else [])
                      else out);
               y = (if shown then y + dy else y)
           in fline_render_loop fit dy show_from show_until cursor (drop len p) y (line_offset + int len) (line_number + 1) out)"

definition console_fline_render ::
  "(nat list \<Rightarrow> nat) \<Rightarrow> int \<Rightarrow> console_fline \<Rightarrow> int \<Rightarrow> int \<Rightarrow> int \<Rightarrow> int \<Rightarrow> (int \<times> draw list) option" where
  "console_fline_render fit y FL dy show_from show_until cursor =
     (let p = take (fl_size FL) (fl_data FL)
      in fline_render_loop fit dy show_from show_until cursor p y 0 0
           (if p = [] \<and> cursor = 0 then [Draw_Cursor y []] else []))"

text \<open>From the end of the buffer up to the first line that is visible; \<open>n\<close> lines are left above.\<close>

fun render_start_loop :: "linebuf \<Rightarrow> nat \<Rightarrow> int \<Rightarrow> (nat \<times> int) option" where
  "render_start_loop buf 0 line_y = Some (0, line_y)"
| "render_start_loop buf (Suc n) line_y =
     (if line_y > 0
      then do {
        FL \<leftarrow> read_line buf (linebuf_get_line buf (linebuf_start buf + n));
        render_start_loop buf n (line_y - int (fl_render FL)) }
      else Some (Suc n, line_y))"

text \<open>Down to the end of the view; \<open>k\<close> lines are left.\<close>

fun render_down_loop ::
  "(nat list \<Rightarrow> nat) \<Rightarrow> linebuf \<Rightarrow> int \<Rightarrow> int \<Rightarrow> int \<Rightarrow> nat \<Rightarrow> nat \<Rightarrow> int \<Rightarrow> int \<Rightarrow> draw list option" where
  "render_down_loop fit buf dy visible_lines cursor 0 i line_y y = Some []"
| "render_down_loop fit buf dy visible_lines cursor (Suc k) i line_y y =
     (if line_y < visible_lines
      then do {
        FL \<leftarrow> read_line buf (linebuf_get_line buf i);
        (y, out) \<leftarrow> console_fline_render fit y FL dy (- line_y) (visible_lines - line_y)
                      (if i = linebuf_end buf - 1 then cursor else - 1);
        rest \<leftarrow> render_down_loop fit buf dy visible_lines cursor k (Suc i) (line_y + int (fl_render FL)) y;
        Some (out @ rest) }
      else Some [])"

definition console_render ::
  "(font \<Rightarrow> int \<Rightarrow> nat list \<Rightarrow> nat) \<Rightarrow> bool \<Rightarrow> int \<Rightarrow> console \<Rightarrow> int \<Rightarrow> int \<Rightarrow> (console \<times> draw list) option" where
  "console_render fit fx y0 cons dy pos =
     (let total_lines = lb_total_rendered (cons_lines cons);
          visible_lines = cons_render_lines cons;
          text_w = view_params fx (cons_render_width cons)
      in do {
        ed \<leftarrow> linebuf_get_last_line (cons_lines cons);
        let cons = set_last_line cons (ed\<lparr>ed_fsize := u16 (length (ed_text ed))\<rparr>);
        let buf = cons_lines cons;
        (n, line_y) \<leftarrow> render_start_loop buf (linebuf_end buf - linebuf_start buf) (visible_lines + pos);
        let line_y = min line_y pos;
        let i = linebuf_start buf + n;
        out \<leftarrow> render_down_loop (fit (cons_render_font cons) text_w) buf dy visible_lines (cons_cursor cons)
                (linebuf_end buf - i) i line_y y0;
        let first_shown = total_lines - visible_lines - pos;
        let h = dy * visible_lines;
        if total_lines > visible_lines
        then (if total_lines = 0 then None
              else Some (cons, out @ [Draw_Scrollbar (y0 + h * first_shown sdiv total_lines)
                                        (y0 + h * (first_shown + visible_lines) sdiv total_lines)]))
        else Some (cons, out) })"

section \<open>The rows of a text\<close>

function chunks :: "(nat list \<Rightarrow> nat) \<Rightarrow> nat list \<Rightarrow> nat list list" where
  "chunks fit p = (if p = [] \<or> fit p = 0 then [] else take (fit p) p # chunks fit (drop (fit p) p))"
  by auto
termination by (relation "measure (length \<circ> snd)") auto

declare chunks.simps [simp del]

text \<open>An empty line counts as one row.\<close>

definition text_rows :: "(nat list \<Rightarrow> nat) \<Rightarrow> nat list \<Rightarrow> nat list list" where
  "text_rows fit p = (if p = [] then [[]] else chunks fit p)"

lemma chunks_step:
  assumes "fit_ok fit" "0 \<notin> set p" "p \<noteq> []"
  shows "0 < fit p" "chunks fit p = take (fit p) p # chunks fit (drop (fit p) p)" "0 \<notin> set (drop (fit p) p)"
proof -
  have "hd p \<noteq> 0" using assms(2,3) by (cases p) auto
  then show fit: "0 < fit p" using assms(1,3) by (simp add: fit_ok_def)
  then show "chunks fit p = take (fit p) p # chunks fit (drop (fit p) p)" using assms(3) by (subst chunks.simps) simp
  show "0 \<notin> set (drop (fit p) p)" using assms(2) in_set_dropD by fast
qed

lemma chunks_nonempty: "[] \<notin> set (chunks fit p)"
  by (induction fit p rule: chunks.induct) (subst chunks.simps, auto)

lemma chunks_induct [consumes 2, case_names Nil Step]:
  assumes "fit_ok fit" "0 \<notin> set p" "P []"
    "\<And>p. p \<noteq> [] \<Longrightarrow> 0 \<notin> set p \<Longrightarrow> 0 < fit p \<Longrightarrow> P (drop (fit p) p) \<Longrightarrow> P p"
  shows "P p"
  using assms(2)
proof (induction "length p" arbitrary: p rule: less_induct)
  case less
  show ?case
  proof (cases "p = []")
    case False
    note st = chunks_step [OF assms(1) less.prems False]
    have "length (drop (fit p) p) < length p" using st(1) False by simp
    then show ?thesis using less.hyps st(3) assms(4) False less.prems st(1) by blast
  qed (use assms(3) in simp)
qed

lemma concat_text_rows:
  assumes "fit_ok fit" "0 \<notin> set p"
  shows "concat (text_rows fit p) = p"
proof -
  from assms have "concat (chunks fit p) = p"
  proof (induction p rule: chunks_induct)
    case Nil
    then show ?case by (simp add: chunks.simps)
  next
    case (Step p)
    then show ?case using chunks_step(2) [OF assms(1) Step(2,1)] by simp
  qed
  then show ?thesis by (simp add: text_rows_def)
qed

text \<open>The code's count is the number of rows, if it fits into a byte.\<close>

lemma render_lines_loop_rows:
  assumes "fit_ok fit" "0 \<notin> set p" "p \<noteq> []" "n + length (chunks fit p) < 256"
  shows "render_lines_loop fit p n = Some (n + length (chunks fit p))"
proof -
  have "p \<noteq> [] \<longrightarrow> (\<forall>n. n + length (chunks fit p) < 256 \<longrightarrow> render_lines_loop fit p n = Some (n + length (chunks fit p)))"
    using assms(1,2)
  proof (induction p rule: chunks_induct)
    case (Step p)
    note st = chunks_step [OF assms(1) Step(2,1)]
    have u8: "u8 (n + 1) = n + 1" if "n + length (chunks fit p) < 256" for n
      using that unfolding st(2) by (simp add: u8_def)
    have empty: "chunks fit [] = []" by (simp add: chunks.simps)
    show ?case
    proof (intro impI allI)
      fix n
      assume n: "n + length (chunks fit p) < 256"
      show "render_lines_loop fit p n = Some (n + length (chunks fit p))"
      proof (cases "drop (fit p) p = []")
        case True
        then show ?thesis using u8 [OF n] unfolding st(2) by (subst render_lines_loop.simps) (simp add: Let_def empty)
      next
        case False
        then have "hd (drop (fit p) p) \<noteq> 0" using st(3) by (metis hd_in_set)
        then show ?thesis
          using Step(4) False n u8 [OF n] unfolding st(2) by (subst render_lines_loop.simps) (simp add: Let_def)
      qed
    qed
  qed simp
  then show ?thesis using assms(3,4) by blast
qed

lemma line_count_rows:
  assumes "fit_ok fit" "0 \<notin> set p" "length (text_rows fit p) < 256"
  shows "line_count fit p = length (text_rows fit p)"
proof (cases "p = []")
  case True
  have "render_lines_loop fit [] 0 = Some 1" by (subst render_lines_loop.simps) (simp add: Let_def u8_def)
  then show ?thesis using True by (simp add: line_count_def console_fline_update_render_lines_def text_rows_def)
next
  case False
  then show ?thesis
    using render_lines_loop_rows [OF assms(1,2) False, of 0] assms(3)
    by (simp add: line_count_def console_fline_update_render_lines_def text_rows_def)
qed

section \<open>What is drawn\<close>

text \<open>The rows \<open>r\<close> with \<open>a \<le> r < b\<close> when the first row of the list has the number \<open>n\<close>.\<close>

fun window :: "int \<Rightarrow> int \<Rightarrow> int \<Rightarrow> 'a list \<Rightarrow> 'a list" where
  "window a b n [] = []"
| "window a b n (r # rs) = (if a \<le> n \<and> n < b then [r] else []) @ window a b (n + 1) rs"

lemma window_append: "window a b n (xs @ ys) = window a b n xs @ window a b (n + int (length xs)) ys"
  by (induction xs arbitrary: n) (simp_all add: add.assoc)

lemma window_shift: "window (a + k) (b + k) (n + k) xs = window a b n xs"
proof (induction xs arbitrary: n)
  case (Cons x xs)
  have "window (a + k) (b + k) (n + k + 1) xs = window a b (n + 1) xs"
    using Cons [of "n + 1"] by (simp add: ac_simps)
  then show ?case by simp
qed simp

lemma window_above: "b \<le> n \<Longrightarrow> window a b n xs = []"
  by (induction xs arbitrary: n) simp_all

lemma window_below: "n + int (length xs) \<le> a \<Longrightarrow> window a b n xs = []"
  by (induction xs arbitrary: n) simp_all

lemma window_take: "0 \<le> n \<Longrightarrow> window 0 b n xs = take (nat (b - n)) xs"
proof (induction xs arbitrary: n)
  case (Cons x xs)
  show ?case
  proof (cases "n < b")
    case True
    then have "nat (b - n) = Suc (nat (b - (n + 1)))" by simp
    then show ?thesis using Cons True by simp
  qed (simp add: window_above Cons.prems)
qed simp

lemma window_take_drop: "n \<le> 0 \<Longrightarrow> window 0 b n xs = take (nat b) (drop (nat (- n)) xs)"
proof (induction xs arbitrary: n)
  case (Cons x xs)
  show ?case
  proof (cases "n = 0")
    case True
    then show ?thesis using window_take [of 0 b "x # xs"] by simp
  next
    case False
    then have "nat (- n) = Suc (nat (- (n + 1)))" using Cons.prems by simp
    then show ?thesis using Cons False by simp
  qed
qed simp

text \<open>Pieces of text at consecutive heights.\<close>

fun place :: "int \<Rightarrow> int \<Rightarrow> nat list list \<Rightarrow> draw list" where
  "place y dy [] = []"
| "place y dy (r # rs) = Draw_Text y r # place (y + dy) dy rs"

definition texts_of :: "draw list \<Rightarrow> draw list" where
  "texts_of out = filter (\<lambda>d. \<exists>y r. d = Draw_Text y r) out"

lemma texts_of_simps [simp]:
  "texts_of [] = []" "texts_of (Draw_Text y r # ds) = Draw_Text y r # texts_of ds"
  "texts_of (Draw_Cursor y r # ds) = texts_of ds" "texts_of (Draw_Scrollbar i j # ds) = texts_of ds"
  "texts_of (xs @ ys) = texts_of xs @ texts_of ys"
  by (simp_all add: texts_of_def)

lemma place_append: "place y dy (xs @ ys) = place y dy xs @ place (y + dy * int (length xs)) dy ys"
  by (induction xs arbitrary: y) (simp_all add: algebra_simps)

lemma fline_render_loop_rows:
  assumes "fit_ok fit" "0 \<notin> set p"
  shows "\<exists>out'. fline_render_loop fit dy a b cursor p y off n out
      = Some (y + dy * int (length (window a b n (chunks fit p))), out')
    \<and> texts_of out' = texts_of out @ place y dy (window a b n (chunks fit p))"
  using assms
proof (induction p arbitrary: y off n out rule: chunks_induct)
  case Nil
  then show ?case by (subst fline_render_loop.simps) (simp add: chunks.simps)
next
  case (Step p)
  note st = chunks_step [OF assms(1) Step(2,1)]
  let ?shown = "a \<le> n \<and> n < b"
  define out1 where "out1 = (if ?shown then out @ [Draw_Text y (take (fit p) p)]
      @ (if cursor_in cursor off (int (fit p)) then [Draw_Cursor y (take (nat (cursor - off)) p)] else []) else out)"
  define y1 where "y1 = (if ?shown then y + dy else y)"
  obtain out' where o: "fline_render_loop fit dy a b cursor (drop (fit p) p) y1 (off + int (fit p)) (n + 1) out1
      = Some (y1 + dy * int (length (window a b (n + 1) (chunks fit (drop (fit p) p)))), out')"
    "texts_of out' = texts_of out1 @ place y1 dy (window a b (n + 1) (chunks fit (drop (fit p) p)))"
    using Step(4) by blast
  have "fline_render_loop fit dy a b cursor p y off n out
      = fline_render_loop fit dy a b cursor (drop (fit p) p) y1 (off + int (fit p)) (n + 1) out1"
    using Step(1) by (subst fline_render_loop.simps) (simp add: Let_def out1_def y1_def)
  moreover have "texts_of out1 = texts_of out @ (if ?shown then [Draw_Text y (take (fit p) p)] else [])"
    by (simp add: out1_def)
  ultimately show ?case using o st(2) by (simp add: y1_def algebra_simps)
qed

lemma chunks_text_rows: "chunks fit p = filter (\<lambda>r. r \<noteq> []) (text_rows fit p)"
proof (cases "p = []")
  case True
  then show ?thesis by (simp add: text_rows_def chunks.simps)
next
  case False
  then show ?thesis using chunks_nonempty [of fit p] by (auto simp: text_rows_def filter_id_conv intro!: filter_id_conv [THEN iffD2, symmetric])
qed

lemma window_filter_rows: "window a b n (chunks fit p) = filter (\<lambda>r. r \<noteq> []) (window a b n (text_rows fit p))"
proof (cases "p = []")
  case True
  then show ?thesis by (simp add: text_rows_def chunks.simps)
next
  case False
  have sub: "set (window a b n xs) \<subseteq> set xs" for xs :: "nat list list" by (induction xs arbitrary: n) auto
  then have "[] \<notin> set (window a b n (chunks fit p))" using chunks_nonempty by blast
  then have "filter (\<lambda>r. r \<noteq> []) (window a b n (chunks fit p)) = window a b n (chunks fit p)"
    by (metis (mono_tags, lifting) filter_True)
  then show ?thesis using False by (simp add: text_rows_def)
qed

lemma console_fline_render_rows:
  assumes "fit_ok fit" "0 \<notin> set (fl_data FL)" "fl_size FL = length (fl_data FL)"
  shows "\<exists>out. console_fline_render fit y FL dy a b cursor
      = Some (y + dy * int (length (filter (\<lambda>r. r \<noteq> []) (window a b 0 (text_rows fit (fl_data FL))))), out)
    \<and> texts_of out = place y dy (filter (\<lambda>r. r \<noteq> []) (window a b 0 (text_rows fit (fl_data FL))))"
proof -
  obtain out where out: "fline_render_loop fit dy a b cursor (fl_data FL) y 0 0
        (if fl_data FL = [] \<and> cursor = 0 then [Draw_Cursor y []] else [])
      = Some (y + dy * int (length (window a b 0 (chunks fit (fl_data FL)))), out)"
    "texts_of out = place y dy (window a b 0 (chunks fit (fl_data FL)))"
    using fline_render_loop_rows [OF assms(1,2), of dy a b cursor y 0 0
        "if fl_data FL = [] \<and> cursor = 0 then [Draw_Cursor y []] else []"] by auto
  then show ?thesis by (simp add: console_fline_render_def Let_def assms(3) window_filter_rows)
qed

section \<open>The two loops\<close>

lemma read_all_lines:
  assumes "lb_ok buf" "ed_fsize (lb_edit buf) = length (ed_text (lb_edit buf))" "k < lb_size buf"
  shows "read_line buf (linebuf_get_line buf (lb_absolute buf + k)) = Some (all_lines buf ! k)"
proof -
  have live: "live_from buf k" using assms(1) unfolding lb_ok_def lb_shape_def live_from_def by blast
  have "line_at buf k = all_lines buf ! k"
    using assms(2,3) by (auto simp: all_lines_def nth_append frozen_def edit_line_def line_at_def)
  then show ?thesis using read_line_at [OF assms(3) live] by (simp add: linebuf_get_line_def)
qed

lemma start_loop_correct:
  assumes "lb_ok buf" "ed_fsize (lb_edit buf) = length (ed_text (lb_edit buf))" "n \<le> lb_size buf"
  shows "\<exists>m \<le> n. \<exists>ly'. render_start_loop buf n ly = Some (m, ly')
    \<and> ly' = ly - int (sum_list (drop m (take n (renders buf)))) \<and> (m = 0 \<or> ly' \<le> 0)"
  using assms(3)
proof (induction n arbitrary: ly)
  case (Suc n)
  show ?case
  proof (cases "0 < ly")
    case True
    have rd: "read_line buf (linebuf_get_line buf (linebuf_start buf + n)) = Some (all_lines buf ! n)"
      using read_all_lines [OF assms(1,2), of n] Suc.prems by (simp add: linebuf_start_def)
    obtain m ly' where m: "m \<le> n" "render_start_loop buf n (ly - int (fl_render (all_lines buf ! n))) = Some (m, ly')"
      "ly' = ly - int (fl_render (all_lines buf ! n)) - int (sum_list (drop m (take n (renders buf))))" "m = 0 \<or> ly' \<le> 0"
      using Suc by (metis Suc_leD)
    have "drop m (take (Suc n) (renders buf)) = drop m (take n (renders buf)) @ [fl_render (all_lines buf ! n)]"
      using Suc.prems m(1) by (simp add: take_Suc_conv_app_nth renders_def)
    then show ?thesis using m True rd by (intro exI [of _ m] exI [of _ ly'] conjI) (auto simp: linebuf_start_def)
  next
    case False
    then show ?thesis by (intro exI [of _ "Suc n"]) simp
  qed
qed simp

text \<open>The rows of all lines, from the \<open>k\<close>-th line on.\<close>

definition rows_from :: "(nat list \<Rightarrow> nat) \<Rightarrow> linebuf \<Rightarrow> nat \<Rightarrow> nat list list" where
  "rows_from fit buf k = concat (map (text_rows fit) (drop k (lb_texts buf)))"

lemma down_loop_correct:
  assumes "lb_ok buf" "ed_fsize (lb_edit buf) = length (ed_text (lb_edit buf))" "fit_ok fit"
    "\<forall>l \<in> set (lb_texts buf). 0 \<notin> set l" "renders buf = map (length \<circ> text_rows fit) (lb_texts buf)"
    "k + n = lb_size buf"
  shows "\<exists>out. render_down_loop fit buf dy vis cursor n (lb_absolute buf + k) ly y = Some out
    \<and> texts_of out = place y dy (filter (\<lambda>r. r \<noteq> []) (window 0 vis ly (rows_from fit buf k)))"
  using assms(6)
proof (induction n arbitrary: k ly y)
  case 0
  then show ?case by (simp add: rows_from_def)
next
  case (Suc n)
  have k: "k < lb_size buf" using Suc.prems by simp
  let ?FL = "all_lines buf ! k" and ?t = "lb_texts buf ! k"
  have data: "fl_data ?FL = ?t" using k by (simp add: lb_texts_lines)
  have mem: "?t \<in> set (lb_texts buf)" using k by simp
  have size: "fl_size ?FL = length (fl_data ?FL)"
    using k assms(1) frozen_ok [of buf] by (auto simp: all_lines_def nth_append edit_line_def lb_ok_def fline_ok_def)
  have render: "fl_render ?FL = length (text_rows fit ?t)"
  proof -
    have "fl_render ?FL = renders buf ! k" using k by (simp add: renders_def)
    then show ?thesis using k unfolding assms(5) by simp
  qed
  have rows: "rows_from fit buf k = text_rows fit ?t @ rows_from fit buf (Suc k)"
    using k by (simp add: rows_from_def flip: Cons_nth_drop_Suc)
  show ?case
  proof (cases "ly < vis")
    case False
    then show ?thesis by (simp add: window_above)
  next
    case True
    define W where "W = filter (\<lambda>r. r \<noteq> []) (window 0 vis ly (text_rows fit ?t))"
    have shift: "window (- ly) (vis - ly) 0 (text_rows fit ?t) = window 0 vis ly (text_rows fit ?t)"
      using window_shift [of "- ly" ly "vis - ly" 0 "text_rows fit ?t"] by simp
    obtain o1 where o1: "console_fline_render fit y ?FL dy (- ly) (vis - ly)
        (if lb_absolute buf + k = linebuf_end buf - 1 then cursor else - 1) = Some (y + dy * int (length W), o1)"
      "texts_of o1 = place y dy W"
      using console_fline_render_rows [OF assms(3) _ size, of y dy "- ly" "vis - ly"] assms(4) mem
      unfolding data shift W_def by blast
    obtain o2 where o2: "render_down_loop fit buf dy vis cursor n (lb_absolute buf + Suc k)
        (ly + int (length (text_rows fit ?t))) (y + dy * int (length W)) = Some o2"
      "texts_of o2 = place (y + dy * int (length W)) dy
        (filter (\<lambda>r. r \<noteq> []) (window 0 vis (ly + int (length (text_rows fit ?t))) (rows_from fit buf (Suc k))))"
      using Suc.IH [of "Suc k"] Suc.prems by (metis add_Suc_shift)
    have "render_down_loop fit buf dy vis cursor (Suc n) (lb_absolute buf + k) ly y = Some (o1 @ o2)"
      using True read_all_lines [OF assms(1,2) k] o1(1) o2(1) by (simp add: render)
    then show ?thesis using o1(2) o2(2) by (simp add: rows window_append place_append W_def)
  qed
qed

text \<open>Both loops return for any counts.\<close>

lemma down_loop_total:
  assumes "lb_ok buf" "ed_fsize (lb_edit buf) = length (ed_text (lb_edit buf))" "fit_ok fit"
    "\<forall>l \<in> set (lb_texts buf). 0 \<notin> set l" "k + n = lb_size buf"
  shows "\<exists>out. render_down_loop fit buf dy vis cursor n (lb_absolute buf + k) ly y = Some out"
  using assms(5)
proof (induction n arbitrary: k ly y)
  case (Suc n)
  have k: "k < lb_size buf" using Suc.prems by simp
  let ?FL = "all_lines buf ! k"
  have data: "0 \<notin> set (fl_data ?FL)" using k assms(4) by (simp add: lb_texts_lines)
  have size: "fl_size ?FL = length (fl_data ?FL)"
    using k assms(1) frozen_ok [of buf] by (auto simp: all_lines_def nth_append edit_line_def lb_ok_def fline_ok_def)
  show ?case
  proof (cases "ly < vis")
    case True
    obtain y1 o1 where o1: "console_fline_render fit y ?FL dy (- ly) (vis - ly)
        (if lb_absolute buf + k = linebuf_end buf - 1 then cursor else - 1) = Some (y1, o1)"
      using console_fline_render_rows [OF assms(3) data size] by blast
    obtain o2 where o2: "render_down_loop fit buf dy vis cursor n (lb_absolute buf + Suc k) (ly + int (fl_render ?FL)) y1 = Some o2"
      using Suc.IH [of "Suc k"] Suc.prems by (metis add_Suc_shift)
    then show ?thesis using True read_all_lines [OF assms(1,2) k] o1 by simp
  qed simp
qed simp

text \<open>The size that drawing writes into the header of the last line.\<close>

definition sized_last :: "console \<Rightarrow> console" where
  "sized_last cons = set_last_line cons ((lb_edit (cons_lines cons))\<lparr>ed_fsize := u16 (length (cons_text cons))\<rparr>)"

lemma sized_last_good:
  assumes "cons_ok cons"
  shows "good_step cons (sized_last cons)"
proof -
  note last = cons_ok_last [OF assms]
  let ?ed = "(lb_edit (cons_lines cons))\<lparr>ed_fsize := u16 (length (cons_text cons))\<rparr>"
  have "cons_ok ((set_last_line cons ?ed)\<lparr>cons_cursor := cons_cursor cons, cons_render_needed := cons_render_needed cons\<rparr>)"
    using last assms by (intro cons_ok_edit [OF assms]) (auto simp: stredit_ok_def cons_ok_def)
  from good_step_edit [OF this] show ?thesis by (simp add: sized_last_def set_last_line_def)
qed

lemma render_total:
  assumes "cons_ok cons" "fit_ok (fit (cons_render_font cons) (view_params fx (cons_render_width cons)))"
    "\<forall>l \<in> set (cons_texts cons). 0 \<notin> set l" "0 \<le> cons_render_lines cons"
  shows "\<exists>out. console_render fit fx y0 cons dy pos = Some (sized_last cons, out)"
proof -
  let ?ed = "lb_edit (cons_lines cons)" and ?V = "cons_render_lines cons"
  define c where "c = sized_last cons"
  define b where "b = cons_lines c"
  note last = cons_ok_last [OF assms(1)]
  have ok: "lb_ok b" using good_step_ok [OF sized_last_good [OF assms(1)]] by (simp add: b_def c_def cons_ok_def)
  note sel = set_last_line_facts(1-4) [of cons "?ed\<lparr>ed_fsize := u16 (length (ed_text ?ed))\<rparr>"]
  have b: "lb_edit b = ?ed\<lparr>ed_fsize := u16 (length (ed_text ?ed))\<rparr>" "lb_size b = lb_size (cons_lines cons)"
    "frozen b = frozen (cons_lines cons)"
    using sel by (simp_all add: b_def c_def sized_last_def cons_text_def)
  have len: "length (ed_text ?ed) < 65536"
    using editor.contents_le [OF last(2)] last(3) by (simp add: PE_CONSOLE_LINE_MAX_LENGTH_def)
  then have fs: "ed_fsize (lb_edit b) = length (ed_text (lb_edit b))" by (simp add: b(1) u16_id)
  have texts: "lb_texts b = cons_texts cons" by (simp add: lb_texts_def cons_texts_def b)
  have cs: "cons_render_lines c = ?V" "cons_cursor c = cons_cursor cons" "cons_render_font c = cons_render_font cons"
    by (simp_all add: c_def sized_last_def set_last_line_def)
  obtain m ly where m: "m \<le> lb_size b" "render_start_loop b (lb_size b) (?V + pos) = Some (m, ly)"
    using start_loop_correct [OF ok fs order_refl] by blast
  have fin: "linebuf_end b - linebuf_start b = lb_size b" "linebuf_start b + m = lb_absolute b + m"
    "linebuf_end b - (lb_absolute b + m) = lb_size b - m"
    by (simp_all add: linebuf_end_def linebuf_start_def)
  obtain out where out: "render_down_loop (fit (cons_render_font cons) (view_params fx (cons_render_width cons))) b dy ?V
      (cons_cursor cons) (lb_size b - m) (lb_absolute b + m) (min ly pos) y0 = Some out"
    using down_loop_total [OF ok fs assms(2) _ le_add_diff_inverse [OF m(1)]] assms(3) unfolding texts by blast
  have get: "linebuf_get_last_line (cons_lines cons) = Some ?ed" using last(1) by (simp add: last_line_def)
  have c: "set_last_line cons (?ed\<lparr>ed_fsize := u16 (length (ed_text ?ed))\<rparr>) = c"
    by (simp add: c_def sized_last_def cons_text_def)
  have div: "lb_total_rendered (cons_lines cons) > ?V \<Longrightarrow> lb_total_rendered (cons_lines cons) \<noteq> 0" using assms(4) by linarith
  show ?thesis
    unfolding console_render_def get Let_def bind.bind_lunit c b_def [symmetric] fin m(2) prod.case cs out c_def [symmetric]
    using div by auto
qed

section \<open>The view on the screen\<close>

lemma rows_from_split: "rows_from fit buf 0 = concat (map (text_rows fit) (take m (lb_texts buf))) @ rows_from fit buf m"
  by (simp add: rows_from_def) (metis append_take_drop_id concat_append map_append)

lemma render_rows:
  assumes "lb_ok (cons_lines cons)" "0 < lb_size (cons_lines cons)" "fit_ok f"
    "f = fit (cons_render_font cons) (view_params fx (cons_render_width cons))"
    "\<forall>l \<in> set (cons_texts cons). 0 \<notin> set l"
    "renders (cons_lines cons) = map (length \<circ> text_rows f) (cons_texts cons)"
    "T = int (sum_list (renders (cons_lines cons)))" "0 \<le> cons_render_lines cons" "0 \<le> pos" "pos \<le> max 0 (T - cons_render_lines cons)"
  shows "\<exists>c out. console_render fit fx y0 cons dy pos = Some (c, out) \<and> cons_texts c = cons_texts cons
    \<and> texts_of out = place y0 dy (filter (\<lambda>r. r \<noteq> [])
        (take (nat (cons_render_lines cons)) (drop (nat (T - cons_render_lines cons - pos)) (concat (map (text_rows f) (cons_texts cons))))))"
proof -
  let ?ed = "lb_edit (cons_lines cons)" and ?V = "cons_render_lines cons"
  define c where "c = set_last_line cons (?ed\<lparr>ed_fsize := u16 (length (ed_text ?ed))\<rparr>)"
  define b where "b = cons_lines c"
  have last: "stredit_ok ?ed" "ed_max ?ed = PE_CONSOLE_LINE_MAX_LENGTH" using assms(1,2) by (auto simp: lb_ok_def last_ok_def)
  have ok: "lb_ok b" unfolding b_def c_def
    using last by (intro set_last_line_ok [OF assms(1)]) (auto simp: stredit_ok_def)
  note sel = set_last_line_facts(1-4) [of cons "?ed\<lparr>ed_fsize := u16 (length (ed_text ?ed))\<rparr>", folded c_def b_def]
  have len: "length (ed_text ?ed) < 65536"
    using editor.contents_le [OF last(1)] last(2) by (simp add: PE_CONSOLE_LINE_MAX_LENGTH_def)
  then have fs: "ed_fsize (lb_edit b) = length (ed_text (lb_edit b))" by (simp add: sel(3) u16_id)
  have lines: "all_lines b = all_lines (cons_lines cons)"
    unfolding all_lines_def sel by (simp add: edit_line_def)
  then have texts: "lb_texts b = cons_texts cons" "renders b = renders (cons_lines cons)" "cons_texts c = cons_texts cons"
    by (simp_all add: lb_texts_lines renders_def cons_texts_def flip: b_def)
  have cs: "cons_render_lines c = ?V" "cons_cursor c = cons_cursor cons" "cons_render_font c = cons_render_font cons" "lb_total_rendered b = lb_total_rendered (cons_lines cons)"
    by (simp_all add: c_def b_def set_last_line_def)
  have div: "lb_total_rendered (cons_lines cons) > ?V \<Longrightarrow> lb_total_rendered (cons_lines cons) \<noteq> 0" using assms(8) by linarith
  obtain m ly where m: "m \<le> lb_size b" "render_start_loop b (lb_size b) (?V + pos) = Some (m, ly)"
    "ly = ?V + pos - int (sum_list (drop m (take (lb_size b) (renders b))))" "m = 0 \<or> ly \<le> 0"
    using start_loop_correct [OF ok fs order_refl] by blast
  define A where "A = concat (map (text_rows f) (take m (lb_texts b)))"
  have lenA: "int (length A) = int (sum_list (take m (renders b)))"
    by (simp add: A_def length_concat texts assms(6) take_map comp_def)
  have sum: "sum_list (renders b) = sum_list (take m (renders b)) + sum_list (drop m (renders b))"
    by (metis append_take_drop_id sum_list_append)
  have ly: "ly = ?V + pos - T + int (length A)" using m(3) sum lenA unfolding assms(7) texts(2) [symmetric] by simp
  have start: "min ly pos \<le> 0 \<and> window 0 ?V (min ly pos) (rows_from f b m)
      = take (nat ?V) (drop (nat (T - ?V - pos)) (rows_from f b 0))"
  proof (cases "ly \<le> 0")
    case True
    then have min: "min ly pos = ly" using assms(9) by simp
    have "window 0 ?V (?V + pos - T) (rows_from f b 0) = window 0 ?V ly (rows_from f b m)"
      unfolding rows_from_split [of f b m] A_def [symmetric] window_append ly using True ly
      by (simp add: window_below)
    moreover have "window 0 ?V (?V + pos - T) (rows_from f b 0) = take (nat ?V) (drop (nat (T - ?V - pos)) (rows_from f b 0))"
      using window_take_drop [of "?V + pos - T" ?V] True ly by (simp add: algebra_simps)
    ultimately show ?thesis using True unfolding min by simp
  next
    case False
    then have "m = 0" using m(4) by simp
    then have "T < ?V \<and> pos = 0" using False ly assms(9,10) by (auto simp: A_def)
    then have "min ly pos = 0" using False by simp
    then show ?thesis using window_take [of 0 ?V "rows_from f b 0"] \<open>m = 0\<close> \<open>T < ?V \<and> pos = 0\<close> by simp
  qed
  have fin: "linebuf_end b - linebuf_start b = lb_size b" "linebuf_start b + m = lb_absolute b + m"
    "linebuf_end b - (lb_absolute b + m) = lb_size b - m"
    by (simp_all add: linebuf_end_def linebuf_start_def)
  have pre: "\<forall>l \<in> set (lb_texts b). 0 \<notin> set l" "renders b = map (length \<circ> text_rows f) (lb_texts b)"
    using assms(5,6) by (simp_all add: texts)
  obtain out where out: "render_down_loop f b dy ?V (cons_cursor cons) (lb_size b - m) (lb_absolute b + m) (min ly pos) y0 = Some out"
    "texts_of out = place y0 dy (filter (\<lambda>r. r \<noteq> []) (window 0 ?V (min ly pos) (rows_from f b m)))"
    using down_loop_correct [OF ok fs assms(3) pre le_add_diff_inverse [OF m(1)]] by blast
  have get: "linebuf_get_last_line (cons_lines cons) = Some ?ed" using assms(2) by (simp add: linebuf_get_last_line_def)
  define bar where "bar = (if lb_total_rendered (cons_lines cons) > ?V
    then [Draw_Scrollbar (y0 + dy * ?V * (lb_total_rendered (cons_lines cons) - ?V - pos) sdiv lb_total_rendered (cons_lines cons))
      (y0 + dy * ?V * (lb_total_rendered (cons_lines cons) - ?V - pos + ?V) sdiv lb_total_rendered (cons_lines cons))] else [])"
  have "console_render fit fx y0 cons dy pos = Some (c, out @ bar)"
    unfolding console_render_def get Let_def bind.bind_lunit c_def [symmetric] b_def [symmetric] fin m(2) prod.case
      assms(4) [symmetric] cs out(1) bar_def using div by simp
  moreover have "texts_of bar = []" by (simp add: bar_def)
  ultimately show ?thesis
    using out(2) start texts(3) by (intro exI [of _ c] exI [of _ "out @ bar"]) (simp add: rows_from_def texts(1))
qed

text \<open>A zero byte in a line: \<^verbatim>\<open>drsize\<close> stops in front of it, and the loop never gets past it.\<close>

lemma fline_render_loop_stuck:
  assumes "p \<noteq> []" "fit p = 0"
  shows "fline_render_loop fit dy a b cursor p y off n out = None"
proof (rule ccontr)
  assume "fline_render_loop fit dy a b cursor p y off n out \<noteq> None"
  then obtain r where "fline_render_loop fit dy a b cursor p y off n out = Some r" by auto
  then have "\<not> (p \<noteq> [] \<and> fit p = 0)"
    by (rule fline_render_loop.raw_induct
        [where P = "\<lambda>fit dy a b cursor p y off n out r. \<not> (p \<noteq> [] \<and> fit p = 0)", rotated])
      (fastforce simp: Let_def split: if_splits)
  then show False using assms by blast
qed

lemma fline_render_stuck:
  assumes "fit_ok fit" "0 \<notin> set p" "\<And>q. fit (0 # q) = 0" "\<And>s. s \<noteq> [] \<Longrightarrow> 0 \<notin> set s \<Longrightarrow> fit (s @ 0 # q) \<le> length s"
  shows "fline_render_loop fit dy a b cursor (p @ 0 # q) y off n out = None"
  using assms(2)
proof (induction "length p" arbitrary: p y off n out rule: less_induct)
  case less
  show ?case
  proof (cases "p = []")
    case True
    then show ?thesis using fline_render_loop_stuck [of "0 # q" fit] assms(3) by simp
  next
    case False
    have "hd (p @ 0 # q) \<noteq> 0" using less.prems False by (cases p) auto
    then have pos: "0 < fit (p @ 0 # q)" using assms(1) unfolding fit_ok_def by blast
    have le: "fit (p @ 0 # q) \<le> length p" using assms(4) False less.prems by blast
    then have "drop (fit (p @ 0 # q)) (p @ 0 # q) = drop (fit (p @ 0 # q)) p @ 0 # q" by simp
    moreover have "length (drop (fit (p @ 0 # q)) p) < length p" using pos False by simp
    moreover have "0 \<notin> set (drop (fit (p @ 0 # q)) p)" using less.prems in_set_dropD by fast
    ultimately show ?thesis using less.hyps False by (subst fline_render_loop.simps) (simp add: Let_def)
  qed
qed

end
