(* ===== verification/ConsoleReach.thy ===== *)
theory ConsoleReach
  imports ConsoleRender
begin

text \<open>
  The operations of the console as steps: the reachable consoles, with the fonts of their views, the
  invariant of the lazy layout and what is seen on the screen after a view.
\<close>

section \<open>The reachable consoles\<close>

text \<open>
  The calls of the interface of the console (\<^verbatim>\<open>ports/sh/console.h\<close>) but two: \<^verbatim>\<open>console_clamp_scrollpos\<close>,
  which reads two numbers, and \<^verbatim>\<open>console_destroy\<close>, after which there is no console.
\<close>

datatype console_op =
    Op_Write "nat list"
  | Op_Write_Raw "nat list"
  | Op_Newline
  | Op_Lock_Prefix
  | Op_Delete int
  | Op_Clear_Line
  | Op_Set_Cursor int
  | Op_Move_Cursor int
  | Op_Get_Line
  | Op_Compute_View font int int
  | Op_Render int int int
  | Op_Clear_Flag

fun console_do :: "(font \<Rightarrow> int \<Rightarrow> nat list \<Rightarrow> nat) \<Rightarrow> bool \<Rightarrow> console \<Rightarrow> console_op \<Rightarrow> console option" where
  "console_do fit fx cons (Op_Write s) = map_option fst (console_write cons s)"
| "console_do fit fx cons (Op_Write_Raw s) = map_option fst (console_write_raw cons s)"
| "console_do fit fx cons Op_Newline = console_newline cons"
| "console_do fit fx cons Op_Lock_Prefix = console_lock_prefix cons"
| "console_do fit fx cons (Op_Delete n) = console_delete_at_cursor cons n"
| "console_do fit fx cons Op_Clear_Line = console_clear_current_line cons"
| "console_do fit fx cons (Op_Set_Cursor p) = map_option fst (console_set_cursor cons p)"
| "console_do fit fx cons (Op_Move_Cursor d) = map_option fst (console_move_cursor cons d)"
| "console_do fit fx cons Op_Get_Line = map_option (\<lambda>s. cons) (console_get_line cons)"
| "console_do fit fx cons (Op_Compute_View font w rows) = console_compute_view fit fx cons font w rows"
| "console_do fit fx cons (Op_Render y0 dy pos) = map_option fst (console_render fit fx y0 cons dy pos)"
| "console_do fit fx cons Op_Clear_Flag = Some (console_clear_render_flag cons)"

text \<open>
  What the caller has to see to.  A view has a width in which a character of the font fits and that the
  \<^verbatim>\<open>int16_t\<close> field can hold.  The console is drawn with such a view and with a number of rows that is not
  negative, and no text has a zero byte: drawing loops forever at one (\<open>fline_render_stuck\<close>).
\<close>

fun op_ok :: "(font \<Rightarrow> int \<Rightarrow> nat list \<Rightarrow> nat) \<Rightarrow> bool \<Rightarrow> console \<Rightarrow> console_op \<Rightarrow> bool" where
  "op_ok fit fx cons (Op_Compute_View font w rows) \<longleftrightarrow>
     - 32768 \<le> w \<and> w < 32768 \<and> fit_ok (fit font (view_params fx w))"
| "op_ok fit fx cons (Op_Render y0 dy pos) \<longleftrightarrow>
     fit_ok (fit (cons_render_font cons) (view_params fx (cons_render_width cons)))
     \<and> 0 \<le> cons_render_lines cons \<and> (\<forall>l \<in> set (cons_texts cons). 0 \<notin> set l)"
| "op_ok fit fx cons _ \<longleftrightarrow> True"

text \<open>
  A run also records the fonts of the views since the last time all lines were laid out: the code does
  not look at the font when it decides to update lazily.
\<close>

fun view_fonts :: "console \<Rightarrow> font set \<Rightarrow> console_op \<Rightarrow> font set" where
  "view_fonts cons F (Op_Compute_View font w rows) =
     (if w \<noteq> 0 \<and> cons_render_width cons = w then insert font F else {font})"
| "view_fonts cons F _ = F"

inductive console_run :: "(font \<Rightarrow> int \<Rightarrow> nat list \<Rightarrow> nat) \<Rightarrow> bool \<Rightarrow> font set \<Rightarrow> console \<Rightarrow> bool" for fit fx where
  create: "console_create backlog_size lines = Some cons \<Longrightarrow> lines \<le> 32767 \<Longrightarrow> console_run fit fx {} cons"
| step: "console_run fit fx F cons \<Longrightarrow> op_ok fit fx cons op \<Longrightarrow> console_do fit fx cons op = Some cons' \<Longrightarrow>
    console_run fit fx (view_fonts cons F op) cons'"

definition console_reach :: "(font \<Rightarrow> int \<Rightarrow> nat list \<Rightarrow> nat) \<Rightarrow> bool \<Rightarrow> console \<Rightarrow> bool" where
  "console_reach fit fx cons \<longleftrightarrow> (\<exists>F. console_run fit fx F cons)"

lemma console_reach_create:
  "console_create backlog_size lines = Some cons \<Longrightarrow> lines \<le> 32767 \<Longrightarrow> console_reach fit fx cons"
  unfolding console_reach_def by (blast intro: console_run.create)

lemma console_reach_step:
  "console_reach fit fx cons \<Longrightarrow> op_ok fit fx cons op \<Longrightarrow> console_do fit fx cons op = Some cons' \<Longrightarrow>
    console_reach fit fx cons'"
  unfolding console_reach_def by (blast intro: console_run.step)

text \<open>The layout is the one of the font, if there was only one.\<close>

definition console_inv :: "(font \<Rightarrow> int \<Rightarrow> nat list \<Rightarrow> nat) \<Rightarrow> bool \<Rightarrow> font set \<Rightarrow> console \<Rightarrow> bool" where
  "console_inv fit fx F cons \<longleftrightarrow> cons_ok cons \<and> rendered_bound (cons_lines cons)
     \<and> (\<forall>f. cons_render_width cons \<noteq> 0 \<and> F \<subseteq> {f}
          \<longrightarrow> rendered (fit f (view_params fx (cons_render_width cons))) (cons_lines cons))"

lemma good_step_inv:
  assumes "console_inv fit fx F a" "good_step a b"
  shows "console_inv fit fx F b"
  using assms extends_bound extends_rendered unfolding console_inv_def good_step_def cons_ok_def by metis

lemma lock_prefix_step:
  assumes "cons_ok cons"
  shows "\<exists>c. console_lock_prefix cons = Some c \<and> good_step cons c"
proof -
  let ?ed = "stredit_set_prefix (lb_edit (cons_lines cons)) (cons_cursor cons)"
  note last = cons_ok_last [OF assms]
  have "stredit_ok ?ed" using last(2) by (auto simp: stredit_ok_def stredit_set_prefix_def min_def)
  then have "cons_ok ((set_last_line cons ?ed)\<lparr>cons_cursor := cons_cursor cons, cons_render_needed := cons_render_needed cons\<rparr>)"
    using last(3,4) assms by (intro cons_ok_edit [OF assms]) (auto simp: stredit_set_prefix_def cons_ok_def)
  from good_step_edit [OF this] show ?thesis using last(1) by (simp add: console_lock_prefix_def set_last_line_def)
qed

lemma delete_at_cursor_step:
  assumes "cons_ok cons"
  shows "\<exists>c. console_delete_at_cursor cons n = Some c \<and> good_step cons c"
proof -
  obtain ed q r where d: "stredit_delete (lb_edit (cons_lines cons)) (cons_cursor cons - n) n = (ed, int r)"
    "ed_text ed = take q (cons_text cons) @ drop (q + r) (cons_text cons)" "q + r \<le> length (cons_text cons)"
    "0 < r \<longrightarrow> int q = max (cons_cursor cons - n) (int (ed_prefix ed))
      \<and> max (cons_cursor cons - n) (int (ed_prefix ed)) + int r \<le> cons_cursor cons - n + n"
    "\<And>c b. 0 \<le> c \<Longrightarrow> c \<le> int (length (ed_text ed)) \<Longrightarrow> cons_ok ((set_last_line cons ed)\<lparr>cons_cursor := c, cons_render_needed := b\<rparr>)"
    using delete_round [OF assms] by blast
  have "0 \<le> cons_cursor cons - int r" "cons_cursor cons - int r \<le> int (length (ed_text ed))"
    using d(2-4) assms by (auto simp: cons_ok_def)
  then have "cons_ok ((set_last_line cons ed)\<lparr>cons_cursor := cons_cursor cons - int r, cons_render_needed := True\<rparr>)"
    by (rule d(5))
  from good_step_edit [OF this] show ?thesis
    using d(1) cons_ok_last(1) [OF assms] by (simp add: console_delete_at_cursor_def set_last_line_def)
qed

lemma clear_line_step:
  assumes "cons_ok cons"
  shows "\<exists>c. console_clear_current_line cons = Some c \<and> good_step cons c"
proof -
  let ?ed = "lb_edit (cons_lines cons)"
  obtain ed q r where d: "stredit_delete ?ed (int (ed_prefix ?ed)) (int (length (cons_text cons)) - int (ed_prefix ?ed)) = (ed, int r)"
    "ed_text ed = take q (cons_text cons) @ drop (q + r) (cons_text cons)" "q + r \<le> length (cons_text cons)"
    "ed_prefix ed = ed_prefix ?ed" "ed_prefix ed \<le> q"
    "\<And>c b. 0 \<le> c \<Longrightarrow> c \<le> int (length (ed_text ed)) \<Longrightarrow> cons_ok ((set_last_line cons ed)\<lparr>cons_cursor := c, cons_render_needed := b\<rparr>)"
    using delete_round [OF assms] by blast
  have "cons_ok ((set_last_line cons ed)\<lparr>cons_cursor := int (ed_prefix ed), cons_render_needed := True\<rparr>)"
    using d(2,3,5) by (intro d(6)) auto
  from good_step_edit [OF this] show ?thesis
    using d(1) cons_ok_last(1,4) [OF assms] by (simp add: console_clear_current_line_def set_last_line_def)
qed

lemma set_cursor_step:
  assumes "cons_ok cons"
  shows "\<exists>c b. console_set_cursor cons p = Some (c, b) \<and> good_step cons c"
  using good_step_refl [OF assms] good_step_cursor [OF good_step_refl [OF assms], of p] cons_ok_last(1,4) [OF assms]
  by (auto simp: console_set_cursor_def)

text \<open>Every operation but the view.\<close>

lemma console_do_good:
  assumes "cons_ok cons" "op_ok fit fx cons op" "\<And>font w rows. op \<noteq> Op_Compute_View font w rows"
  shows "\<exists>c. console_do fit fx cons op = Some c \<and> good_step cons c"
proof (cases op)
  case (Op_Write s)
  then show ?thesis using write_loop_total [OF assms(1), of s] by (auto simp: console_write_def)
next
  case (Op_Write_Raw s)
  then show ?thesis using write_raw_total [OF assms(1), of s] by auto
next
  case Op_Newline
  then show ?thesis using newline_extends [OF assms(1)] by auto
next
  case Op_Lock_Prefix
  then show ?thesis using lock_prefix_step [OF assms(1)] by simp
next
  case (Op_Delete n)
  then show ?thesis using delete_at_cursor_step [OF assms(1)] by simp
next
  case Op_Clear_Line
  then show ?thesis using clear_line_step [OF assms(1)] by simp
next
  case (Op_Set_Cursor p)
  then show ?thesis using set_cursor_step [OF assms(1), of p] by auto
next
  case (Op_Move_Cursor d)
  then show ?thesis using set_cursor_step [OF assms(1)] by (force simp: console_move_cursor_def)
next
  case Op_Get_Line
  then show ?thesis using cons_ok_last(1) [OF assms(1)] good_step_refl [OF assms(1)] by (simp add: console_get_line_def)
next
  case (Op_Render y0 dy pos)
  then obtain out where "console_render fit fx y0 cons dy pos = Some (sized_last cons, out)"
    using render_total [OF assms(1), of fit fx y0 dy pos] assms(2) by auto
  then show ?thesis using sized_last_good [OF assms(1)] Op_Render by simp
next
  case Op_Clear_Flag
  then show ?thesis using good_step_flag [OF good_step_refl [OF assms(1)]] by (simp add: console_clear_render_flag_def)
qed (use assms(3) in simp)

lemma compute_view_step:
  assumes "console_inv fit fx F cons" "op_ok fit fx cons (Op_Compute_View font w rows)"
  shows "\<exists>c. console_compute_view fit fx cons font w rows = Some c
    \<and> console_inv fit fx (view_fonts cons F (Op_Compute_View font w rows)) c
    \<and> linebuf_update_render (fit font) fx (cons_lines cons) w (w \<noteq> 0 \<and> cons_render_width cons = w) = Some (cons_lines c)
    \<and> cons_texts c = cons_texts cons \<and> cons_cursor c = cons_cursor cons
    \<and> cons_render_width c = w \<and> cons_render_font c = font \<and> cons_render_lines c = s16 rows
    \<and> lb_absolute_rendered (cons_lines c) = int (linebuf_end (cons_lines c)) - 2
    \<and> lb_absolute (cons_lines c) = lb_absolute (cons_lines cons)
    \<and> ((w \<noteq> 0 \<and> cons_render_width cons = w \<longrightarrow> F \<subseteq> {font})
        \<longrightarrow> renders (cons_lines c) = map (line_count (fit font (view_params fx w))) (cons_texts cons))"
proof -
  let ?b = "cons_lines cons" and ?f = "fit font (view_params fx w)" and ?lazy = "w \<noteq> 0 \<and> cons_render_width cons = w"
  have ok: "cons_ok cons" "lb_ok ?b" "0 < lb_size ?b" "rendered_bound ?b" "fit_ok ?f"
    using assms by (auto simp: console_inv_def cons_ok_def)
  obtain b where b: "linebuf_update_render (fit font) fx ?b w ?lazy = Some b" "lb_ok b"
    "lb_texts b = lb_texts ?b" "lb_size b = lb_size ?b"
    "lb_absolute b = lb_absolute ?b" "lb_backlog_size b = lb_backlog_size ?b" "ed_text (lb_edit b) = ed_text (lb_edit ?b)"
    "lb_absolute_rendered b = int (linebuf_end ?b) - 2"
    using update_render_general [where fit = "fit font" and fx = fx and w = w and lazy = ?lazy, OF ok(2,3,5,4)] by blast
  have full: "renders b = map (line_count ?f) (lb_texts ?b)" if "?lazy \<longrightarrow> F \<subseteq> {font}"
  proof -
    have "?lazy \<longrightarrow> rendered ?f ?b" using that assms(1) by (auto simp: console_inv_def)
    then show ?thesis by (rule update_render_correct [where fit = "fit font", OF ok(2,3,5,4) _ b(1)])
  qed
  define c where "c = cons\<lparr>cons_render_font := font, cons_render_width := s16 w, cons_render_lines := s16 rows, cons_lines := b\<rparr>"
  have w: "s16 w = w" using assms(2) by (simp add: s16_def)
  have sel: "cons_lines c = b" "cons_cursor c = cons_cursor cons" "cons_render_width c = w" "cons_render_font c = font"
    "cons_render_lines c = s16 rows" by (simp_all add: c_def w)
  have fin: "lb_absolute_rendered b = int (linebuf_end b) - 2" using b(4,5,8) by (simp add: linebuf_end_def)
  have "console_compute_view fit fx cons font w rows = Some c"
    unfolding console_compute_view_def Let_def using b(1) by (simp add: c_def)
  moreover have "cons_ok c" using ok(1) b(2-4,6,7) by (simp add: cons_ok_def sel cons_text_def cons_texts_def)
  moreover have "rendered_bound b" using fin by (simp add: rendered_bound_def)
  moreover have "rendered (fit f (view_params fx w)) b" if "view_fonts cons F (Op_Compute_View font w rows) \<subseteq> {f}" for f
  proof -
    have "f = font" "?lazy \<longrightarrow> F \<subseteq> {font}" using that by (auto split: if_splits)
    then show ?thesis using full renders_rendered b(3) by simp
  qed
  ultimately show ?thesis using full b(1,3,5) fin
    by (intro exI [of _ c]) (simp add: sel cons_texts_def console_inv_def del: view_fonts.simps)
qed

lemma create_run:
  assumes "lines \<le> 32767"
  shows "\<exists>c. console_create backlog_size lines = Some c \<and> console_inv fit fx {} c \<and> cons_texts c = [[]] \<and> cons_cursor c = 0
    \<and> lb_capacity (cons_lines c) = nat (max lines 1)
    \<and> lb_backlog_size (cons_lines c) = nat (max backlog_size (int PE_CONSOLE_LINE_MAX_LENGTH))"
proof -
  define n where "n = nat (max lines 1)"
  define bs where "bs = nat (max backlog_size (int PE_CONSOLE_LINE_MAX_LENGTH))"
  have n: "0 < n" "nat (s16 (int n)) = n" using assms by (auto simp: n_def s16_def)
  define buf where "buf = \<lparr>lb_lines = replicate n Null_Line, lb_edit = stredit_zero,
    lb_capacity = n, lb_start = 0, lb_size = 0, lb_total_rendered = 0, lb_absolute = 1, lb_backlog_size = bs,
    lb_total_size_except_last = 0, lb_absolute_rendered = 0\<rparr>"
  define c0 where "c0 = \<lparr>cons_lines = buf, cons_cursor = - 1, cons_render_needed = True,
      cons_render_font = 0, cons_render_width = 0, cons_render_lines = 0\<rparr>"
  have init: "linebuf_init n bs = Some buf" using n by (simp add: linebuf_init_def buf_def stredit_init_def)
  have run: "console_create backlog_size lines = console_newline c0"
    using init by (simp add: console_create_def n_def bs_def c0_def)
  have empty: "cons_texts c0 = []" "cons_lines c0 = buf" "cons_render_width c0 = 0"
    by (simp_all add: c0_def buf_def cons_texts_def lb_texts_def frozen_def)
  have "lb_ok (cons_lines c0)"
    using n(1) by (simp add: empty lb_ok_def lb_shape_def lb_totals_def last_ok_def buf_def frozen_def last_render_def s16_def)
  moreover have "PE_CONSOLE_LINE_MAX_LENGTH \<le> lb_backlog_size (cons_lines c0)" unfolding empty buf_def bs_def by simp
  ultimately obtain c d where c: "console_newline c0 = Some c" "cons_ok c" "cons_cursor c = 0" "d \<le> length (cons_texts c0)"
    "cons_texts c = drop d (cons_texts c0) @ [[]]" "lb_absolute (cons_lines c) = lb_absolute (cons_lines c0) + d"
    "same_array (cons_lines c0) (cons_lines c)" "cons_render_width c = cons_render_width c0"
    using console_newline_correct [of c0] by blast
  have "d = 0" using c(4) by (simp add: empty)
  then have "rendered_bound (cons_lines c)"
    using c(2,6,7) by (auto simp: rendered_bound_def linebuf_end_def same_array_def empty buf_def cons_ok_def)
  then have "console_inv fit fx {} c" using c(2,8) by (simp add: console_inv_def empty)
  then show ?thesis using c(1,3,5,7) by (simp add: run empty same_array_def) (simp add: buf_def n_def bs_def)
qed

lemma create_ok: "console_create backlog_size lines = Some cons \<Longrightarrow> lines \<le> 32767 \<Longrightarrow> console_inv fit fx {} cons"
  using create_run [of lines backlog_size fit fx] by auto

lemma run_inv: "console_run fit fx F cons \<Longrightarrow> console_inv fit fx F cons"
proof (induction rule: console_run.induct)
  case (create backlog_size lines cons)
  then show ?case by (rule create_ok)
next
  case (step F cons op cons')
  show ?case
  proof (cases "\<exists>font w rows. op = Op_Compute_View font w rows")
    case True
    then obtain font w rows where op: "op = Op_Compute_View font w rows" by blast
    show ?thesis using compute_view_step [OF step.IH step.hyps(2) [unfolded op]] step.hyps(3) unfolding op by auto
  next
    case False
    have "cons_ok cons" using step.IH by (simp add: console_inv_def)
    then have "good_step cons cons'" using console_do_good [of cons fit fx op] False step.hyps(2,3) by auto
    moreover have "view_fonts cons F op = F" using False by (cases op) auto
    ultimately show ?thesis using good_step_inv [OF step.IH] by simp
  qed
qed

lemma reach_inv: "console_reach fit fx cons \<Longrightarrow> \<exists>F. console_inv fit fx F cons"
  unfolding console_reach_def using run_inv by blast

lemma reach_ok: "console_reach fit fx cons \<Longrightarrow> cons_ok cons"
  using reach_inv by (auto simp: console_inv_def)

lemma console_do_total:
  assumes "console_inv fit fx F cons" "op_ok fit fx cons op"
  shows "\<exists>c. console_do fit fx cons op = Some c"
proof (cases "\<exists>font w rows. op = Op_Compute_View font w rows")
  case True
  then obtain font w rows where op: "op = Op_Compute_View font w rows" by blast
  show ?thesis using compute_view_step [OF assms(1) assms(2) [unfolded op]] unfolding op by auto
next
  case False
  then show ?thesis using console_do_good [of cons fit fx op] assms by (auto simp: console_inv_def)
qed

text \<open>A view in another font at the same width, after a view that laid out all lines.\<close>

lemma font_change_stale:
  assumes "console_inv fit fx {font} cons" "op_ok fit fx cons (Op_Compute_View font2 w rows)" "w \<noteq> 0" "cons_render_width cons = w"
    "lb_absolute_rendered (cons_lines cons) = int (linebuf_end (cons_lines cons)) - 2"
    "renders (cons_lines cons) = map (line_count (fit font (view_params fx w))) (cons_texts cons)"
  shows "\<exists>d. console_compute_view fit fx cons font2 w rows = Some d
    \<and> renders (cons_lines d) = map (line_count (fit font (view_params fx w))) (butlast (cons_texts cons))
        @ [line_count (fit font2 (view_params fx w)) (last (cons_texts cons))]"
proof -
  have ok: "lb_ok (cons_lines cons)" "0 < lb_size (cons_lines cons)" "fit_ok (fit font2 (view_params fx w))"
    using assms(1,2) by (auto simp: console_inv_def cons_ok_def)
  have lazy: "(w \<noteq> 0 \<and> cons_render_width cons = w) = True" using assms(3,4) by simp
  obtain d where d: "console_compute_view fit fx cons font2 w rows = Some d"
    "linebuf_update_render (fit font2) fx (cons_lines cons) w True = Some (cons_lines d)"
    using compute_view_step [OF assms(1,2)] unfolding lazy by blast
  from update_render_stale [where fit = "fit font2", OF ok assms(5) _ d(2)] assms(6) d(1)
  show ?thesis by (simp add: cons_texts_def)
qed

section \<open>The view on the screen\<close>

text \<open>
  A view in a font, when all views since the last full layout were in this font, drawn at a clamped
  scroll position.
\<close>

lemma render_after_view:
  fixes cons :: console
  defines "R \<equiv> \<lambda>f. concat (map (text_rows f) (cons_texts cons))"
  assumes "console_inv fit fx F cons" "op_ok fit fx cons (Op_Compute_View font w rows)" "f = fit font (view_params fx w)"
    "0 \<le> rows" "rows \<le> 32767" "\<forall>l \<in> set (cons_texts cons). 0 \<notin> set l \<and> length (text_rows f l) < 256"
    "length (R f) \<le> 32767" "w \<noteq> 0 \<and> cons_render_width cons = w \<longrightarrow> F \<subseteq> {font}"
  shows "\<exists>c c' out. console_compute_view fit fx cons font w rows = Some c \<and> cons_texts c = cons_texts cons
    \<and> console_clamp_scrollpos c pos = max 0 (min pos (int (length (R f)) - rows))
    \<and> console_render fit fx y0 c dy (console_clamp_scrollpos c pos) = Some (c', out) \<and> cons_texts c' = cons_texts cons
    \<and> texts_of out = place y0 dy (filter (\<lambda>r. r \<noteq> [])
        (take (nat rows) (drop (nat (int (length (R f)) - rows - console_clamp_scrollpos c pos)) (R f))))"
proof -
  obtain c where c: "console_compute_view fit fx cons font w rows = Some c" "cons_ok c" "cons_texts c = cons_texts cons"
    "renders (cons_lines c) = map (line_count f) (cons_texts cons)" "cons_render_width c = w" "cons_render_font c = font"
    "cons_render_lines c = s16 rows"
    using compute_view_step [OF assms(2,3)] assms(9) unfolding assms(4) console_inv_def by blast
  have sel: "cons_render_width c = w" "cons_render_lines c = rows" "cons_render_font c = font"
    using c(5-7) assms(5,6) by (simp_all add: s16_def)
  have fit: "fit_ok f" using assms(3) by (simp add: assms(4))
  have re: "renders (cons_lines c) = map (length \<circ> text_rows f) (cons_texts c)"
    using assms(7) line_count_rows [OF fit] unfolding c(3,4) by auto
  have T: "sum_list (renders (cons_lines c)) = length (R f)"
    unfolding re c(3) R_def by (simp add: length_concat comp_def)
  have ok: "lb_ok (cons_lines c)" "0 < lb_size (cons_lines c)" using c(2) by (auto simp: cons_ok_def)
  have "lb_total_rendered (cons_lines c) = int (length (R f))"
    using lb_total_renders [of "cons_lines c"] ok assms(8) T by (simp add: lb_ok_def s16_def)
  then have clamp: "console_clamp_scrollpos c pos = max 0 (min pos (int (length (R f)) - rows))"
    by (auto simp: console_clamp_scrollpos_def sel)
  then have pos: "0 \<le> console_clamp_scrollpos c pos"
    "console_clamp_scrollpos c pos \<le> max 0 (int (length (R f)) - rows)" by auto
  then obtain c' out where out: "console_render fit fx y0 c dy (console_clamp_scrollpos c pos) = Some (c', out)"
    "cons_texts c' = cons_texts c"
    "texts_of out = place y0 dy (filter (\<lambda>r. r \<noteq> [])
          (take (nat (cons_render_lines c)) (drop (nat (int (length (R f)) - cons_render_lines c - console_clamp_scrollpos c pos))
            (concat (map (text_rows f) (cons_texts c))))))"
  proof -
    have "\<exists>c' out. console_render fit fx y0 c dy (console_clamp_scrollpos c pos) = Some (c', out) \<and> cons_texts c' = cons_texts c
      \<and> texts_of out = place y0 dy (filter (\<lambda>r. r \<noteq> [])
          (take (nat (cons_render_lines c)) (drop (nat (int (length (R f)) - cons_render_lines c - console_clamp_scrollpos c pos))
            (concat (map (text_rows f) (cons_texts c))))))"
      by (rule render_rows [OF ok fit]) (use assms(4,5,7) c(3) re T pos in \<open>simp_all add: sel\<close>)
    then show ?thesis using that by blast
  qed
  have "concat (map (text_rows f) (cons_texts c)) = R f" by (simp add: R_def c(3))
  then show ?thesis using c(1,3) clamp out(1,2) out(3) [unfolded sel]
    by (intro exI [of _ c] exI [of _ c'] exI [of _ out]) (simp add: R_def)
qed

end
