(* ===== verification/ConsoleTheorems.thy ===== *)
theory ConsoleTheorems
  imports ConsoleReach
begin

text \<open>
  The properties of the port's console: safety of every reachable state, the lazy view, plain text,
  the screen, and two deviations (a text longer than a line, the destruction after a clean-up of the backlog).
\<close>

section \<open>The console is always in a good state\<close>

text \<open>
  C29: From the creation of a console on, in every state that writing, editing, laying out views in any
  fonts and drawing can reach, every such call returns: no access outside of a buffer or to a freed line,
  no failed assertion, no endless loop.  The conditions on the caller are \<open>op_ok\<close>: a width in which a
  character fits; and, to draw, a view of that kind and no zero byte in a text (drawing loops forever at
  one).  The console is never empty, the cursor stays in the last line, no line is longer than the
  maximum, and the lines before the last one stay within the backlog.  Writing any bytes succeeds, with
  and without escape sequences.  Destroying the console is not one of these calls: it is safe exactly
  when no slot of the array still points to a recycled line (\<open>console_destroy_double_free\<close> is a run
  where one does).
\<close>

theorem console_reachable_safe:
  assumes "console_reach fit fx cons" "op_ok fit fx cons op"
  shows "(\<exists>c. console_do fit fx cons op = Some c \<and> console_reach fit fx c)
    \<and> (\<exists>c. console_write cons s = Some (c, True)) \<and> (\<exists>c. console_write_raw cons s = Some (c, True))
    \<and> 0 < lb_size (cons_lines cons) \<and> lb_size (cons_lines cons) \<le> lb_capacity (cons_lines cons)
    \<and> 0 \<le> cons_cursor cons \<and> cons_cursor cons \<le> int (length (cons_text cons))
    \<and> (\<forall>l \<in> set (cons_texts cons). length l \<le> PE_CONSOLE_LINE_MAX_LENGTH)
    \<and> sum_list (map length (butlast (cons_texts cons))) \<le> lb_backlog_size (cons_lines cons)
    \<and> (console_destroy cons = Some () \<longleftrightarrow> Freed \<notin> set (lb_lines (cons_lines cons)))"
proof -
  have ok: "cons_ok cons" by (rule reach_ok [OF assms(1)])
  obtain c where c: "console_do fit fx cons op = Some c" using reach_inv [OF assms(1)] console_do_total assms(2) by blast
  have "console_reach fit fx c" by (rule console_reach_step [OF assms c])
  moreover have "\<exists>c. console_write cons s = Some (c, True)"
    using write_loop_total [OF ok] by (auto simp: console_write_def)
  moreover have "\<exists>c. console_write_raw cons s = Some (c, True)" using write_raw_total [OF ok] by blast
  moreover have "length l \<le> PE_CONSOLE_LINE_MAX_LENGTH" if "l \<in> set (cons_texts cons)" for l
    using that cons_texts_last [of cons] cons_ok_last [OF ok] editor.contents_le [of "lb_edit (cons_lines cons)"] ok
      frozen_ok [of "cons_lines cons"]
    by (auto simp: cons_ok_def lb_ok_def fline_ok_def)
  moreover have "console_destroy cons = Some () \<longleftrightarrow> Freed \<notin> set (lb_lines (cons_lines cons))"
    by (simp add: console_destroy_def linebuf_deinit_def free_slots_iff)
  ultimately show ?thesis using c ok by (simp add: cons_ok_def lb_ok_def lb_shape_def)
qed

text \<open>A console that shows one character per rendered line.\<close>

lemma one_fit_ok: "fit_ok (\<lambda>p. of_bool (p \<noteq> []))"
  by (simp add: fit_ok_def)

lemma small_console: "\<exists>c. console_create 0 4 = Some c \<and> console_run (\<lambda>f w p. of_bool (p \<noteq> [])) False {} c
    \<and> cons_texts c = [[]] \<and> cons_cursor c = 0 \<and> lb_capacity (cons_lines c) = 4 \<and> lb_backlog_size (cons_lines c) = 1024"
proof -
  obtain c where c: "console_create 0 4 = Some c" "cons_texts c = [[]]" "cons_cursor c = 0"
    "lb_capacity (cons_lines c) = 4" "lb_backlog_size (cons_lines c) = 1024"
    using create_run [of 4 0] by (auto simp: PE_CONSOLE_LINE_MAX_LENGTH_def)
  have "console_run (\<lambda>f w p. of_bool (p \<noteq> [])) False {} c" by (rule console_run.create [OF c(1)]) simp
  then show ?thesis using c by blast
qed

lemma small_console_reach: "\<exists>c. console_create 0 4 = Some c \<and> console_reach (\<lambda>f w p. of_bool (p \<noteq> [])) False c
    \<and> cons_texts c = [[]] \<and> cons_cursor c = 0 \<and> lb_capacity (cons_lines c) = 4 \<and> lb_backlog_size (cons_lines c) = 1024"
  using small_console unfolding console_reach_def by blast

theorem console_reachable_safe_witness:
  "\<exists>c d. console_create 0 4 = Some c \<and> console_do (\<lambda>f w p. of_bool (p \<noteq> [])) False c (Op_Delete 5) = Some d
    \<and> cons_cursor c \<le> int (length (cons_text c))"
proof -
  obtain c where c: "console_create 0 4 = Some c" "console_reach (\<lambda>f w p. of_bool (p \<noteq> [])) False c"
    using small_console_reach by blast
  have "op_ok (\<lambda>f w p. of_bool (p \<noteq> [])) False c (Op_Delete 5)" by simp
  from console_reachable_safe [OF c(2) this] show ?thesis using c(1) by blast
qed

section \<open>The view\<close>

text \<open>
  C31: Laying out the console for a font and a width is the same as laying out all of its lines again,
  if all views since the last time everything was laid out were in this font (\<open>F\<close> are their fonts): the
  lazy update, which starts at the last line that was both rendered and frozen and is used when the
  width is the one of the view before, then gives the buffer of the full update.  Afterwards every line
  has the number of rendered lines of its text, their total is the one the scroll position is clamped
  with, in 16 bits, and no text changes.  The code keeps the font of the view but does not compare it: a
  view in another font at the same width is also updated lazily, and all lines but the last one keep
  the counts of the first font.
\<close>

theorem console_lazy_view:
  assumes "console_run fit fx F cons" "op_ok fit fx cons (Op_Compute_View font w rows)"
    "w \<noteq> 0 \<and> cons_render_width cons = w \<longrightarrow> F \<subseteq> {font}"
  shows "\<exists>b c. linebuf_update_render (fit font) fx (cons_lines cons) w False = Some b
    \<and> console_compute_view fit fx cons font w rows = Some c \<and> cons_lines c = b \<and> cons_texts c = cons_texts cons
    \<and> map fl_render (all_lines b) = map (line_count (fit font (view_params fx w))) (cons_texts cons)
    \<and> lb_total_rendered b = s16 (int (sum_list (map (line_count (fit font (view_params fx w))) (cons_texts cons))))
    \<and> console_run fit fx {font} c
    \<and> (\<forall>font2 rows2. w \<noteq> 0 \<and> op_ok fit fx c (Op_Compute_View font2 w rows2)
        \<longrightarrow> (\<exists>d. console_compute_view fit fx c font2 w rows2 = Some d
              \<and> map fl_render (all_lines (cons_lines d))
                = map (line_count (fit font (view_params fx w))) (butlast (cons_texts cons))
                  @ [line_count (fit font2 (view_params fx w)) (last (cons_texts cons))]))"
proof -
  let ?lazy = "w \<noteq> 0 \<and> cons_render_width cons = w" and ?f = "fit font (view_params fx w)"
  have inv: "console_inv fit fx F cons" using assms(1) by (rule run_inv)
  have fonts: "view_fonts cons F (Op_Compute_View font w rows) = {font}" using assms(3) by auto
  obtain c where c: "console_compute_view fit fx cons font w rows = Some c" "console_inv fit fx {font} c"
    "linebuf_update_render (fit font) fx (cons_lines cons) w ?lazy = Some (cons_lines c)" "cons_texts c = cons_texts cons"
    "cons_render_width c = w" "lb_absolute_rendered (cons_lines c) = int (linebuf_end (cons_lines c)) - 2"
    "renders (cons_lines c) = map (line_count ?f) (cons_texts cons)"
    using compute_view_step [OF inv assms(2), unfolded fonts] assms(3) by blast
  have "linebuf_update_render (fit font) fx (cons_lines cons) w False = Some (cons_lines c)"
  proof (cases ?lazy)
    case True
    then have "rendered ?f (cons_lines cons)" using inv assms(3) by (auto simp: console_inv_def)
    then have "linebuf_update_render (fit font) fx (cons_lines cons) w True
        = linebuf_update_render (fit font) fx (cons_lines cons) w False"
      using inv assms(2) by (intro lazy_update_same) (simp_all add: console_inv_def cons_ok_def)
    moreover have "?lazy = True" using True by simp
    ultimately show ?thesis using c(3) by (simp only:)
  next
    case False
    then have "?lazy = False" by simp
    then show ?thesis using c(3) by (simp only:)
  qed
  moreover have "lb_total_rendered (cons_lines c) = s16 (int (sum_list (renders (cons_lines c))))"
    using c(2) lb_total_renders by (simp add: console_inv_def cons_ok_def lb_ok_def)
  moreover have "console_run fit fx {font} c"
    using console_run.step [OF assms(1,2), of c] c(1) unfolding fonts by simp
  moreover have "\<exists>d. console_compute_view fit fx c font2 w rows2 = Some d
      \<and> renders (cons_lines d) = map (line_count ?f) (butlast (cons_texts cons))
        @ [line_count (fit font2 (view_params fx w)) (last (cons_texts cons))]"
    if "w \<noteq> 0" "op_ok fit fx c (Op_Compute_View font2 w rows2)" for font2 rows2
    using font_change_stale [OF c(2) that(2,1) c(5,6)] c(4,7) by simp
  ultimately show ?thesis using c(1,4,7) by (simp add: renders_def)
qed

text \<open>
  A font of which one character fits on a row and one of which ten do: after the change of the font the
  two characters of the first line still count as two rows.
\<close>

definition two_fonts :: "font \<Rightarrow> int \<Rightarrow> nat list \<Rightarrow> nat" where
  "two_fonts font w p = min (length p) (if font = 0 then 1 else 10)"

theorem console_lazy_view_witness:
  "\<exists>c d v e. console_create 0 4 = Some c \<and> console_write c [72, 105, 10, 79, 107] = Some (d, True)
    \<and> console_compute_view two_fonts False d 0 20 3 = Some v
    \<and> map fl_render (all_lines (cons_lines v)) = [2, 2]
    \<and> console_compute_view two_fonts False v 1 20 3 = Some e
    \<and> map fl_render (all_lines (cons_lines e)) = [2, 1]"
proof -
  let ?s = "[72, 105, 10, 79, 107] :: nat list"
  obtain c where c: "console_create 0 4 = Some c" "cons_texts c = [[]]" "cons_cursor c = 0"
    "lb_capacity (cons_lines c) = 4" "lb_backlog_size (cons_lines c) = 1024"
    using create_run [of 4 0] by (auto simp: PE_CONSOLE_LINE_MAX_LENGTH_def)
  have run: "console_run two_fonts False {} c" by (rule console_run.create [OF c(1)]) simp
  have ok: "cons_ok c" using run_inv [OF run] by (simp add: console_inv_def)
  have "cons_text c = []" using last_cons_texts [OF ok] c(2) by simp
  then have fin: "at_end c" using c(3) by (simp add: at_end_def)
  have put: "put_text (cons_texts c) ?s = [[72, 105], [79, 107]]" by (simp add: c(2) put_text_def put_char_def)
  obtain d k where d: "write_loop c ?s = Some (d, True)" "cons_texts d = drop k [[72, 105], [79, 107]]" "k = 0"
    using write_plain_correct [OF ok fin, of ?s] c(4,5) unfolding put by (auto simp: PE_CONSOLE_LINE_MAX_LENGTH_def)
  have run2: "console_run two_fonts False {} d"
    using console_run.step [OF run, of "Op_Write ?s"] d(1) by (simp add: console_write_def)
  have fit: "fit_ok (two_fonts f w)" for f w by (simp add: fit_ok_def two_fonts_def)
  have view: "op_ok two_fonts False d (Op_Compute_View 0 20 3)" using fit by simp
  have count: "line_count (two_fonts 0 16) [72, 105] = 2" "line_count (two_fonts 0 16) [79, 107] = 2"
    "line_count (two_fonts 1 16) [79, 107] = 1"
    by (simp_all add: line_count_rows [OF fit] text_rows_def chunks.simps two_fonts_def)
  have texts: "cons_texts d = [[72, 105], [79, 107]]" using d(2,3) by simp
  obtain v where v: "console_compute_view two_fonts False d 0 20 3 = Some v"
    "map fl_render (all_lines (cons_lines v)) = map (line_count (two_fonts 0 (view_params False 20))) (cons_texts d)"
    "\<forall>font2 rows2. (20 :: int) \<noteq> 0 \<and> op_ok two_fonts False v (Op_Compute_View font2 20 rows2)
        \<longrightarrow> (\<exists>e. console_compute_view two_fonts False v font2 20 rows2 = Some e
              \<and> map fl_render (all_lines (cons_lines e))
                = map (line_count (two_fonts 0 (view_params False 20))) (butlast (cons_texts d))
                  @ [line_count (two_fonts font2 (view_params False 20)) (last (cons_texts d))])"
    using console_lazy_view [OF run2 view] by blast
  have "op_ok two_fonts False v (Op_Compute_View 1 20 3)" using fit by simp
  then show ?thesis using c(1) d(1) v texts count by (simp add: console_write_def view_params_def) metis
qed

section \<open>Plain text\<close>

text \<open>
  C30: Bytes without escape sequences and backspaces, written with the cursor at the end, act as on a
  plain terminal that appends every character to its last line and starts a line at a line feed, as
  long as no line gets longer than the maximum.  Of the lines of that terminal the console keeps the
  last ones, and all of them when their number is within the capacity and the bytes before the
  last line are within the backlog; the number of the first line counts the lines that are gone.
\<close>

theorem console_plain_text:
  assumes "console_reach fit fx cons" "cons_cursor cons = int (length (cons_text cons))"
    "27 \<notin> set s" "8 \<notin> set s" "\<forall>l \<in> set (put_text (cons_texts cons) s). length l \<le> PE_CONSOLE_LINE_MAX_LENGTH"
  shows "\<exists>c d. console_write cons s = Some (c, True) \<and> d < length (put_text (cons_texts cons) s)
    \<and> cons_texts c = drop d (put_text (cons_texts cons) s)
    \<and> lb_absolute (cons_lines c) = lb_absolute (cons_lines cons) + d
    \<and> cons_cursor c = int (length (cons_text c))
    \<and> (length (put_text (cons_texts cons) s) \<le> lb_capacity (cons_lines cons)
        \<and> sum_list (map length (butlast (put_text (cons_texts cons) s))) \<le> lb_backlog_size (cons_lines cons) \<longrightarrow> d = 0)"
proof -
  have "cons_ok cons" by (rule reach_ok [OF assms(1)])
  moreover have "at_end cons" using assms(2) by (simp add: at_end_def)
  ultimately show ?thesis
    using write_plain_correct [OF _ _ assms(3,4,5)] unfolding console_write_def at_end_def by blast
qed

theorem console_plain_text_witness:
  "\<exists>c d. console_create 0 4 = Some c \<and> console_write c [72, 105, 10, 62] = Some (d, True)
    \<and> cons_texts d = [[72, 105], [62]]"
proof -
  obtain c where c: "console_create 0 4 = Some c" "console_reach (\<lambda>f w p. of_bool (p \<noteq> [])) False c" "cons_texts c = [[]]"
    "cons_cursor c = 0" "lb_capacity (cons_lines c) = 4" "lb_backlog_size (cons_lines c) = 1024"
    using small_console_reach by blast
  have ok: "cons_ok c" by (rule reach_ok [OF c(2)])
  have "cons_text c = []" using last_cons_texts [OF ok] c(3) by simp
  then have fin: "cons_cursor c = int (length (cons_text c))" using c(4) by simp
  have put: "put_text (cons_texts c) [72, 105, 10, 62] = [[72, 105], [62]]"
    by (simp add: c(3) put_text_def put_char_def)
  have "\<forall>l \<in> set (put_text (cons_texts c) [72, 105, 10, 62]). length l \<le> PE_CONSOLE_LINE_MAX_LENGTH"
    unfolding put by (simp add: PE_CONSOLE_LINE_MAX_LENGTH_def)
  from console_plain_text [OF c(2) fin _ _ this] show ?thesis using c(1,5,6) unfolding put by auto
qed

section \<open>Deviations\<close>

text \<open>
  C33: \<^verbatim>\<open>console_write_raw\<close> does not advance its pointer from one chunk to the next.  Bytes that need
  two lines, written to an empty line, give their first 1024 bytes and then their first bytes again
  instead of the rest: the second line is wrong for every text whose rest differs from its start.
\<close>

theorem console_long_line_repeats:
  assumes "console_reach fit fx cons" "cons_text cons = []"
    "PE_CONSOLE_LINE_MAX_LENGTH < length s" "length s \<le> 2 * PE_CONSOLE_LINE_MAX_LENGTH"
  shows "\<exists>c d. console_write_raw cons s = Some (c, True) \<and> d \<le> lb_size (cons_lines cons)
    \<and> cons_texts c = drop d (butlast (cons_texts cons) @ [take PE_CONSOLE_LINE_MAX_LENGTH s])
        @ [take (length s - PE_CONSOLE_LINE_MAX_LENGTH) s]
    \<and> (cons_text c = drop PE_CONSOLE_LINE_MAX_LENGTH s
        \<longleftrightarrow> (\<forall>i < length s - PE_CONSOLE_LINE_MAX_LENGTH. s ! (PE_CONSOLE_LINE_MAX_LENGTH + i) = s ! i))"
proof -
  let ?N = PE_CONSOLE_LINE_MAX_LENGTH
  have ok: "cons_ok cons" by (rule reach_ok [OF assms(1)])
  obtain c d where c: "console_write_raw cons s = Some (c, True)" "d \<le> lb_size (cons_lines cons)"
    "cons_texts c = drop d (butlast (cons_texts cons) @ [take ?N s]) @ [take (length s - ?N) s]"
    using write_raw_two_lines [OF ok assms(2-4)] by blast
  have "cons_ok c" using write_raw_total [OF ok, of s] c(1) by (auto simp: good_step_def)
  then have "cons_text c = take (length s - ?N) s" using last_cons_texts [of c] c(3) by simp
  moreover have "take (length s - ?N) s = drop ?N s \<longleftrightarrow> (\<forall>i < length s - ?N. s ! (?N + i) = s ! i)"
    using assms(3) by (auto simp: list_eq_iff_nth_eq)
  ultimately show ?thesis using c by auto
qed

theorem console_long_line_repeats_witness:
  "\<exists>c d. console_create 0 4 = Some c \<and> console_write_raw c (replicate 1024 65 @ [66]) = Some (d, True)
    \<and> last (cons_texts d) = [65]"
proof -
  obtain c where c: "console_create 0 4 = Some c" "console_reach (\<lambda>f w p. of_bool (p \<noteq> [])) False c" "cons_texts c = [[]]"
    using small_console_reach by blast
  have ok: "cons_ok c" by (rule reach_ok [OF c(2)])
  have "cons_text c = []" using last_cons_texts [OF ok] c(3) by simp
  from console_long_line_repeats [OF c(2) this, of "replicate 1024 65 @ [66]"]
  show ?thesis using c(1) by (auto simp: PE_CONSOLE_LINE_MAX_LENGTH_def)
qed

text \<open>
  C34: Recycling lines frees them and keeps their pointers in the array.  A new line that makes the
  console clean up its backlog leaves such pointers behind, and \<^verbatim>\<open>console_destroy\<close>, which frees every
  pointer of the array, then frees a line twice.
\<close>

theorem console_destroy_double_free:
  assumes "console_reach fit fx cons" "lb_size (cons_lines cons) < lb_capacity (cons_lines cons)"
    "lb_backlog_size (cons_lines cons) < sum_list (map length (cons_texts cons))"
  shows "\<exists>c. console_do fit fx cons Op_Newline = Some c \<and> console_reach fit fx c \<and> console_destroy c = None"
proof -
  have "cons_ok cons" by (rule reach_ok [OF assms(1)])
  then obtain c where c: "console_newline cons = Some c" "console_destroy c = None"
    using newline_dangling assms(2,3) by blast
  moreover have "console_reach fit fx c" using console_reach_step [OF assms(1), of Op_Newline] c(1) by simp
  ultimately show ?thesis by simp
qed

text \<open>Two lines of 600 bytes each are more than the backlog of 1024 bytes.\<close>

theorem console_destroy_double_free_witness:
  "\<exists>c d e. console_create 0 4 = Some c \<and> console_write c (replicate 600 65 @ 10 # replicate 600 66) = Some (d, True)
    \<and> console_newline d = Some e \<and> console_destroy e = None"
proof -
  let ?s = "replicate 600 (65 :: nat) @ 10 # replicate 600 66"
  obtain c where c: "console_create 0 4 = Some c" "console_reach (\<lambda>f w p. of_bool (p \<noteq> [])) False c" "cons_texts c = [[]]"
    "cons_cursor c = 0" "lb_capacity (cons_lines c) = 4" "lb_backlog_size (cons_lines c) = 1024"
    using small_console_reach by blast
  have ok: "cons_ok c" by (rule reach_ok [OF c(2)])
  have "cons_text c = []" using last_cons_texts [OF ok] c(3) by simp
  then have fin: "at_end c" using c(4) by (simp add: at_end_def)
  have "put_text [[]] ?s = put_text (put_text (put_text [[]] (replicate 600 65)) [10]) (replicate 600 66)"
    unfolding put_text_append [symmetric] by simp
  also have "\<dots> = [replicate 600 65, replicate 600 66]"
    by (simp add: put_text_plain) (simp add: put_text_def put_char_def put_text_plain [unfolded put_text_def])
  finally have put: "put_text (cons_texts c) ?s = [replicate 600 65, replicate 600 66]" by (simp add: c(3))
  obtain d k where d: "write_loop c ?s = Some (d, True)" "good_step c d" "cons_texts d = drop k (put_text (cons_texts c) ?s)"
    "length (put_text (cons_texts c) ?s) \<le> lb_capacity (cons_lines c)
      \<and> sum_list (map length (butlast (put_text (cons_texts c) ?s))) \<le> lb_backlog_size (cons_lines c) \<longrightarrow> k = 0"
    "k < length (put_text (cons_texts c) ?s)"
    using write_plain_correct [OF ok fin, of ?s] unfolding put by (auto simp: PE_CONSOLE_LINE_MAX_LENGTH_def)
  have "k = 0" using d(4) c(5,6) unfolding put by simp
  then have texts: "cons_texts d = [replicate 600 65, replicate 600 66]" using d(3) unfolding put by simp
  have "lb_capacity (cons_lines d) = 4" "lb_backlog_size (cons_lines d) = 1024"
    using d(2) c(5,6) by (auto simp: good_step_def extends_def same_array_def)
  moreover have "lb_size (cons_lines d) = 2" using texts length_lb_texts [of "cons_lines d"] by (simp add: cons_texts_def)
  moreover have "console_reach (\<lambda>f w p. of_bool (p \<noteq> [])) False d"
    using console_reach_step [OF c(2), of "Op_Write ?s"] d(1) by (simp add: console_write_def)
  ultimately show ?thesis
    using console_destroy_double_free [of "\<lambda>f w p. of_bool (p \<noteq> [])" False d] c(1) d(1)
    by (auto simp: texts console_write_def)
qed

section \<open>The screen\<close>

text \<open>
  C32: After a view has been computed, drawing the console at a scroll position, clamped as the shell
  does it, shows the window of \<open>rows\<close> rows that ends \<open>pos\<close> rows above the last one: the pieces of text
  are those rows of all the wrapped lines, one below the other.  A row of an empty line has no piece
  and takes no height, although it is counted as a row: the code does not advance \<open>y\<close> for it.  The
  hypotheses: all views since the last full layout were in the font of this one (C31 has what happens
  otherwise), one character fits on a row, no text has a zero byte, a line has less than 256 rows, and
  all of them are within 16 bits.  The console may have been viewed and drawn before.
\<close>

theorem console_render_window:
  assumes "console_run fit fx F cons" "op_ok fit fx cons (Op_Compute_View font w rows)"
    "w \<noteq> 0 \<and> cons_render_width cons = w \<longrightarrow> F \<subseteq> {font}" "0 \<le> rows" "rows \<le> 32767"
    "\<forall>l \<in> set (cons_texts cons). 0 \<notin> set l \<and> length (text_rows (fit font (view_params fx w)) l) < 256"
    "length (concat (map (text_rows (fit font (view_params fx w))) (cons_texts cons))) \<le> 32767"
  shows "\<exists>c c' out R at. R = concat (map (text_rows (fit font (view_params fx w))) (cons_texts cons))
    \<and> console_compute_view fit fx cons font w rows = Some c \<and> at = console_clamp_scrollpos c pos
    \<and> at = max 0 (min pos (int (length R) - rows))
    \<and> console_render fit fx y0 c dy at = Some (c', out) \<and> cons_texts c' = cons_texts cons
    \<and> texts_of out = place y0 dy (filter (\<lambda>r. r \<noteq> []) (take (nat rows) (drop (nat (int (length R) - rows - at)) R)))"
  using render_after_view [OF run_inv [OF assms(1)] assms(2) refl assms(4-7) assms(3), of pos y0 dy] by blast

text \<open>The second of three lines is empty: its row is counted, and the rows around it are drawn without a gap.\<close>

theorem console_render_window_witness:
  "\<exists>c d v e out. console_create 0 4 = Some c \<and> console_write c [72, 105, 10, 10, 62] = Some (d, True)
    \<and> console_compute_view (\<lambda>f w p. of_bool (p \<noteq> [])) False d 0 20 3 = Some v
    \<and> console_render (\<lambda>f w p. of_bool (p \<noteq> [])) False 0 v 10 0 = Some (e, out)
    \<and> texts_of out = [Draw_Text 0 [105], Draw_Text 10 [62]]"
proof -
  let ?fit = "\<lambda>(f :: font) (w :: int) (p :: nat list). of_bool (p \<noteq> []) :: nat" and ?s = "[72, 105, 10, 10, 62] :: nat list"
  obtain c where c: "console_create 0 4 = Some c" "console_run ?fit False {} c" "cons_texts c = [[]]"
    "cons_cursor c = 0" "lb_capacity (cons_lines c) = 4" "lb_backlog_size (cons_lines c) = 1024"
    using small_console by blast
  have ok: "cons_ok c" using run_inv [OF c(2)] by (simp add: console_inv_def)
  have "cons_text c = []" using last_cons_texts [OF ok] c(3) by simp
  then have fin: "at_end c" using c(4) by (simp add: at_end_def)
  have put: "put_text (cons_texts c) ?s = [[72, 105], [], [62]]" by (simp add: c(3) put_text_def put_char_def)
  obtain d k where d: "write_loop c ?s = Some (d, True)" "cons_texts d = drop k [[72, 105], [], [62]]" "k = 0"
    using write_plain_correct [OF ok fin, of ?s] c(5,6) unfolding put by (auto simp: PE_CONSOLE_LINE_MAX_LENGTH_def)
  have reach: "console_run ?fit False {} d"
    using console_run.step [OF c(2), of "Op_Write ?s"] d(1) by (simp add: console_write_def)
  have view: "op_ok ?fit False d (Op_Compute_View 0 20 3)" using one_fit_ok by simp
  have texts: "cons_texts d = [[72, 105], [], [62]]" using d(2,3) by simp
  have rows: "text_rows (?fit 0 (view_params False 20)) [72, 105] = [[72], [105]]"
    "text_rows (?fit 0 (view_params False 20)) [] = [[]]" "text_rows (?fit 0 (view_params False 20)) [62] = [[62]]"
    by (simp_all add: text_rows_def chunks.simps)
  obtain v e out R at where r: "R = concat (map (text_rows (?fit 0 (view_params False 20))) (cons_texts d))"
    "console_compute_view ?fit False d 0 20 3 = Some v" "at = max 0 (min 0 (int (length R) - 3))"
    "console_render ?fit False 0 v 10 at = Some (e, out)"
    "texts_of out = place 0 10 (filter (\<lambda>r. r \<noteq> []) (take (nat 3) (drop (nat (int (length R) - 3 - at)) R)))"
    using console_render_window [OF reach view, of 0 0 10] unfolding texts by (auto simp: rows)
  have R: "R = [[72], [105], [], [62]]" unfolding r(1) texts by (simp add: rows)
  then show ?thesis using c(1) d(1) r(2-5) by (simp add: console_write_def numeral_eq_Suc)
qed

end
