(* ===== verification/ListSort.thy ===== *)
theory ListSort
  imports MP_Prelude "HOL-Library.Monad_Syntax" "HOL-Library.Multiset"
begin

text \<open>
  \<open>mp_quicksort\<close> of \<^verbatim>\<open>py/objlist.c\<close>.  The pointers into the array are indices, which can be one below
  its start; an access outside of the array, or a loop that does not end, is \<open>None\<close>.  \<open>key\<close> gives the
  key of an element and \<open>lt\<close> the result of the operator \<^verbatim>\<open><\<close> on two keys; each may raise an exception,
  a value \<open>Inl\<close>, which leaves the array as it is at that moment.  \<open>less_result\<close> is the value that the
  code compares the result of \<open>lt\<close> with: true, or false for a reversed sort.
\<close>

section \<open>The code\<close>

definition item :: "'a list \<Rightarrow> int \<Rightarrow> 'a option" where
  "item a i = (if 0 \<le> i \<and> i < int (length a) then Some (a ! nat i) else None)"

definition swap_items :: "'a list \<Rightarrow> int \<Rightarrow> int \<Rightarrow> 'a list option" where
  "swap_items a i j = do {
     x \<leftarrow> item a i;
     y \<leftarrow> item a j;
     Some (a[nat i := y, nat j := x]) }"

text \<open>The conditions of the two scans: the comparison of an element with the pivot \<open>v\<close>.\<close>

definition before_pivot ::
  "('a \<Rightarrow> 'e + 'k) \<Rightarrow> ('k \<Rightarrow> 'k \<Rightarrow> 'e + bool) \<Rightarrow> bool \<Rightarrow> 'k \<Rightarrow> 'a \<Rightarrow> 'e + bool" where
  "before_pivot key lt less_result v x =
     (case key x of
        Inl e \<Rightarrow> Inl e
      | Inr k \<Rightarrow> (case lt k v of Inl e \<Rightarrow> Inl e | Inr r \<Rightarrow> Inr (r = less_result)))"

definition behind_pivot ::
  "('a \<Rightarrow> 'e + 'k) \<Rightarrow> ('k \<Rightarrow> 'k \<Rightarrow> 'e + bool) \<Rightarrow> bool \<Rightarrow> 'k \<Rightarrow> 'a \<Rightarrow> 'e + bool" where
  "behind_pivot key lt less_result v x =
     (case key x of
        Inl e \<Rightarrow> Inl e
      | Inr k \<Rightarrow> (case lt v k of Inl e \<Rightarrow> Inl e | Inr r \<Rightarrow> Inr (r = less_result)))"

partial_function (option) scan_up :: "('a \<Rightarrow> 'e + bool) \<Rightarrow> 'a list \<Rightarrow> int \<Rightarrow> int \<Rightarrow> ('e + int) option" where
  "scan_up cond a h t =
     (let h = h + 1
      in if h < t then do {
           x \<leftarrow> item a h;
           (case cond x of
              Inl e \<Rightarrow> Some (Inl e)
            | Inr c \<Rightarrow> if c then scan_up cond a h t else Some (Inr h)) }
         else Some (Inr h))"

partial_function (option) scan_down :: "('a \<Rightarrow> 'e + bool) \<Rightarrow> 'a list \<Rightarrow> int \<Rightarrow> int \<Rightarrow> ('e + int) option" where
  "scan_down cond a h t =
     (let t = t - 1
      in if h < t then do {
           x \<leftarrow> item a t;
           (case cond x of
              Inl e \<Rightarrow> Some (Inl e)
            | Inr c \<Rightarrow> if c then scan_down cond a h t else Some (Inr t)) }
         else Some (Inr t))"

partial_function (option) partition_loop ::
  "('a \<Rightarrow> 'e + bool) \<Rightarrow> ('a \<Rightarrow> 'e + bool) \<Rightarrow> 'a list \<Rightarrow> int \<Rightarrow> int \<Rightarrow> ('a list \<times> ('e + int \<times> int)) option" where
  "partition_loop before behind a h t = do {
     r \<leftarrow> scan_up before a h t;
     (case r of
        Inl e \<Rightarrow> Some (a, Inl e)
      | Inr h \<Rightarrow> do {
          r \<leftarrow> scan_down behind a h t;
          (case r of
             Inl e \<Rightarrow> Some (a, Inl e)
           | Inr t \<Rightarrow>
               if h \<ge> t then Some (a, Inr (h, t))
               else do {
                 a \<leftarrow> swap_items a h t;
                 partition_loop before behind a h t }) }) }"

partial_function (option) mp_quicksort ::
  "('a \<Rightarrow> 'e + 'k) \<Rightarrow> ('k \<Rightarrow> 'k \<Rightarrow> 'e + bool) \<Rightarrow> bool \<Rightarrow> 'a list \<Rightarrow> int \<Rightarrow> int \<Rightarrow> ('a list \<times> ('e + unit)) option" where
  "mp_quicksort key lt less_result a head tail =
     (if head < tail then do {
        x \<leftarrow> item a tail;
        (case key x of
           Inl e \<Rightarrow> Some (a, Inl e)
         | Inr v \<Rightarrow> do {
             (a, r) \<leftarrow> partition_loop (before_pivot key lt less_result v) (behind_pivot key lt less_result v)
               a (head - 1) tail;
             (case r of
                Inl e \<Rightarrow> Some (a, Inl e)
              | Inr (h, t) \<Rightarrow> do {
                  a \<leftarrow> swap_items a h tail;
                  if t - head < tail - h - 1
                  then do {
                    (a, r) \<leftarrow> mp_quicksort key lt less_result a head t;
                    (case r of
                       Inl e \<Rightarrow> Some (a, Inl e)
                     | Inr _ \<Rightarrow> mp_quicksort key lt less_result a (h + 1) tail) }
                  else do {
                    (a, r) \<leftarrow> mp_quicksort key lt less_result a (h + 1) tail;
                    (case r of
                       Inl e \<Rightarrow> Some (a, Inl e)
                     | Inr _ \<Rightarrow> mp_quicksort key lt less_result a head t) } }) }) }
      else Some (a, Inr ()))"

section \<open>Array facts\<close>

lemma item_Some [simp]: "0 \<le> i \<Longrightarrow> i < int (length a) \<Longrightarrow> item a i = Some (a ! nat i)"
  by (simp add: item_def)

text \<open>\<open>a'\<close> has the elements of \<open>a\<close>, those from \<open>i\<close> to \<open>j\<close> in some other order.\<close>

definition permutes_within :: "int \<Rightarrow> int \<Rightarrow> 'a list \<Rightarrow> 'a list \<Rightarrow> bool" where
  "permutes_within i j a a' \<longleftrightarrow> mset a' = mset a
     \<and> (\<forall>k. 0 \<le> k \<longrightarrow> k < i \<or> j < k \<longrightarrow> a' ! nat k = a ! nat k)"

lemma permutes_refl [simp]: "permutes_within i j a a"
  by (simp add: permutes_within_def)

lemma permutes_trans: "permutes_within i j a b \<Longrightarrow> permutes_within i j b c \<Longrightarrow> permutes_within i j a c"
  by (simp add: permutes_within_def)

lemma permutes_wider: "permutes_within i j a b \<Longrightarrow> i' \<le> i \<Longrightarrow> j \<le> j' \<Longrightarrow> permutes_within i' j' a b"
  by (auto simp: permutes_within_def)

lemma permutes_length: "permutes_within i j a b \<Longrightarrow> length b = length a"
  unfolding permutes_within_def by (metis size_mset)

lemma permutes_set: "permutes_within i j a b \<Longrightarrow> set b = set a"
  unfolding permutes_within_def by (metis set_mset_mset)

lemma mset_swap_items:
  assumes "i < length a" "j < length a"
  shows "mset (a[i := a ! j, j := a ! i]) = mset a"
proof (cases "i = j")
  case False
  then show ?thesis using assms mset_swap [of i a j] by (simp add: list_update_swap)
qed simp

lemma swap_permutes:
  assumes "0 \<le> i" "i \<le> p" "p < int (length a)" "p \<le> j" "i \<le> q" "q < int (length a)" "q \<le> j"
  shows "\<exists>b. swap_items a p q = Some b \<and> permutes_within i j a b
    \<and> b ! nat p = a ! nat q \<and> b ! nat q = a ! nat p
    \<and> (\<forall>k. 0 \<le> k \<longrightarrow> k \<noteq> p \<longrightarrow> k \<noteq> q \<longrightarrow> b ! nat k = a ! nat k)"
proof (intro exI conjI)
  show "swap_items a p q = Some (a[nat p := a ! nat q, nat q := a ! nat p])"
    using assms by (simp add: swap_items_def)
  have e: "a[nat p := a ! nat q, nat q := a ! nat p] ! nat k = a ! nat k" if "0 \<le> k" "k \<noteq> p" "k \<noteq> q" for k
    using that assms by (simp add: nth_list_update)
  then show "\<forall>k. 0 \<le> k \<longrightarrow> k \<noteq> p \<longrightarrow> k \<noteq> q \<longrightarrow> a[nat p := a ! nat q, nat q := a ! nat p] ! nat k = a ! nat k"
    by blast
  show "permutes_within i j a (a[nat p := a ! nat q, nat q := a ! nat p])"
    unfolding permutes_within_def using assms mset_swap_items [of "nat p" a "nat q"]
    by (auto intro!: e)
qed (use assms in \<open>simp_all add: nth_list_update\<close>)

text \<open>The elements from \<open>i\<close> to \<open>j\<close>.\<close>

definition elems :: "'a list \<Rightarrow> int \<Rightarrow> int \<Rightarrow> 'a set" where
  "elems a i j = {a ! nat k | k. i \<le> k \<and> k \<le> j}"

lemma elemsI: "i \<le> k \<Longrightarrow> k \<le> j \<Longrightarrow> a ! nat k \<in> elems a i j"
  unfolding elems_def by blast

lemma elems_segment:
  assumes "0 \<le> i" "i \<le> j + 1" "j < int (length a)"
  shows "elems a i j = set (take (nat (j + 1 - i)) (drop (nat i) a))"
proof -
  let ?n = "nat (j + 1 - i)"
  have "take ?n (drop (nat i) a) = map (\<lambda>k. a ! nat (i + int k)) [0..<?n]"
    using assms by (intro nth_equalityI) (auto simp: nat_add_distrib)
  then have "set (take ?n (drop (nat i) a)) = (\<lambda>k. a ! nat (i + int k)) ` {..<?n}" by auto
  moreover have "a ! nat k \<in> (\<lambda>k. a ! nat (i + int k)) ` {..<?n}" if "i \<le> k" "k \<le> j" for k
    using that by (intro image_eqI [of _ _ "nat (k - i)"]) auto
  ultimately show ?thesis unfolding elems_def by (auto simp: )
qed

lemma permutes_elems:
  assumes p: "permutes_within i j a b" and r: "0 \<le> i" "i \<le> j + 1" "j < int (length a)"
  shows "elems b i j = elems a i j"
proof -
  let ?n = "nat (j + 1 - i)" and ?m = "nat i"
  have l: "length b = length a" by (rule permutes_length [OF p])
  have o: "b ! k = a ! k" if "k < ?m \<or> nat (j + 1) \<le> k" for k
    using p that unfolding permutes_within_def by (elim conjE allE [of _ "int k"]) auto
  have s: "xs = take ?m xs @ take ?n (drop ?m xs) @ drop (?m + ?n) xs" for xs :: "'a list"
    by (metis append_take_drop_id drop_drop add.commute)
  have "take ?m b = take ?m a" using l o by (intro nth_equalityI) auto
  moreover have "drop (?m + ?n) b = drop (?m + ?n) a" using l o r by (intro nth_equalityI) auto
  moreover have "mset (take ?m b) + mset (take ?n (drop ?m b)) + mset (drop (?m + ?n) b)
      = mset (take ?m a) + mset (take ?n (drop ?m a)) + mset (drop (?m + ?n) a)"
    using p s [of a] s [of b] unfolding permutes_within_def by (metis add.assoc mset_append)
  ultimately have "mset (take ?n (drop ?m b)) = mset (take ?n (drop ?m a))" by simp
  then show ?thesis using elems_segment r l by (metis set_mset_mset)
qed

section \<open>The scans\<close>

text \<open>The scans end whatever the comparison gives and stay between the two indices.\<close>

lemma scan_up_correct:
  assumes "- 1 \<le> h" "h < t" "t \<le> int (length a)"
  shows "\<exists>r. scan_up cond a h t = Some r \<and> (case r of
      Inl e \<Rightarrow> (\<exists>x \<in> set a. cond x = Inl e)
    | Inr h' \<Rightarrow> h < h' \<and> h' \<le> t \<and> (\<forall>i. h < i \<and> i < h' \<longrightarrow> cond (a ! nat i) = Inr True)
        \<and> (h' < t \<longrightarrow> cond (a ! nat h') = Inr False))"
  using assms
proof (induction "nat (t - h)" arbitrary: h rule: less_induct)
  case less
  show ?case
  proof (cases "h + 1 < t")
    case lt: True
    then have it: "item a (h + 1) = Some (a ! nat (h + 1))" "a ! nat (h + 1) \<in> set a"
      using less.prems by auto
    show ?thesis
    proof (cases "cond (a ! nat (h + 1)) = Inr True")
      case True
      then obtain r where r: "scan_up cond a (h + 1) t = Some r" and p: "case r of
          Inl e \<Rightarrow> (\<exists>x \<in> set a. cond x = Inl e)
        | Inr h' \<Rightarrow> h + 1 < h' \<and> h' \<le> t \<and> (\<forall>i. h + 1 < i \<and> i < h' \<longrightarrow> cond (a ! nat i) = Inr True)
            \<and> (h' < t \<longrightarrow> cond (a ! nat h') = Inr False)"
        using less.hyps [of "h + 1"] less.prems lt by auto
      have "cond (a ! nat i) = Inr True"
        if "\<forall>i. h + 1 < i \<and> i < h' \<longrightarrow> cond (a ! nat i) = Inr True" "h < i" "i < h'" for i h'
        using that True by (cases "i = h + 1") auto
      then have "case r of
          Inl e \<Rightarrow> (\<exists>x \<in> set a. cond x = Inl e)
        | Inr h' \<Rightarrow> h < h' \<and> h' \<le> t \<and> (\<forall>i. h < i \<and> i < h' \<longrightarrow> cond (a ! nat i) = Inr True)
            \<and> (h' < t \<longrightarrow> cond (a ! nat h') = Inr False)"
        using p by (cases r) auto
      then show ?thesis using True r it lt by (subst scan_up.simps) (simp add: Let_def)
    next
      case False
      then show ?thesis using it lt less.prems
        by (subst scan_up.simps) (auto simp: Let_def split: sum.split)
    qed
  next
    case False
    then show ?thesis using less.prems by (subst scan_up.simps) (auto simp: Let_def)
  qed
qed

lemma scan_down_correct:
  assumes "0 \<le> h" "h \<le> t" "t \<le> int (length a)"
  shows "\<exists>r. scan_down cond a h t = Some r \<and> (case r of
      Inl e \<Rightarrow> (\<exists>x \<in> set a. cond x = Inl e)
    | Inr t' \<Rightarrow> t' < t \<and> h - 1 \<le> t' \<and> (h < t \<longrightarrow> h \<le> t')
        \<and> (\<forall>i. t' < i \<and> i < t \<longrightarrow> cond (a ! nat i) = Inr True)
        \<and> (h < t' \<longrightarrow> cond (a ! nat t') = Inr False))"
  using assms
proof (induction "nat (t - h)" arbitrary: t rule: less_induct)
  case less
  show ?case
  proof (cases "h < t - 1")
    case lt: True
    then have it: "item a (t - 1) = Some (a ! nat (t - 1))" "a ! nat (t - 1) \<in> set a"
      using less.prems by auto
    show ?thesis
    proof (cases "cond (a ! nat (t - 1)) = Inr True")
      case True
      then obtain r where r: "scan_down cond a h (t - 1) = Some r" and p: "case r of
          Inl e \<Rightarrow> (\<exists>x \<in> set a. cond x = Inl e)
        | Inr t' \<Rightarrow> t' < t - 1 \<and> h - 1 \<le> t' \<and> (h < t - 1 \<longrightarrow> h \<le> t')
            \<and> (\<forall>i. t' < i \<and> i < t - 1 \<longrightarrow> cond (a ! nat i) = Inr True)
            \<and> (h < t' \<longrightarrow> cond (a ! nat t') = Inr False)"
        using less.hyps [of "t - 1"] less.prems lt by auto
      have "cond (a ! nat i) = Inr True"
        if "\<forall>i. t' < i \<and> i < t - 1 \<longrightarrow> cond (a ! nat i) = Inr True" "t' < i" "i < t" for i t'
        using that True by (cases "i = t - 1") auto
      then have "case r of
          Inl e \<Rightarrow> (\<exists>x \<in> set a. cond x = Inl e)
        | Inr t' \<Rightarrow> t' < t \<and> h - 1 \<le> t' \<and> (h < t \<longrightarrow> h \<le> t')
            \<and> (\<forall>i. t' < i \<and> i < t \<longrightarrow> cond (a ! nat i) = Inr True)
            \<and> (h < t' \<longrightarrow> cond (a ! nat t') = Inr False)"
        using p lt by (cases r) auto
      then show ?thesis using True r it lt by (subst scan_down.simps) (simp add: Let_def)
    next
      case False
      then show ?thesis using it lt less.prems
        by (subst scan_down.simps) (auto simp: Let_def split: sum.split)
    qed
  next
    case False
    then show ?thesis using less.prems by (subst scan_down.simps) (auto simp: Let_def)
  qed
qed

section \<open>The partition\<close>

text \<open>What the scans have found about an element: it may stay before or behind the pivot.\<close>

definition left_ok :: "('a \<Rightarrow> 'e + bool) \<Rightarrow> ('a \<Rightarrow> 'e + bool) \<Rightarrow> 'a \<Rightarrow> bool" where
  "left_ok before behind x \<longleftrightarrow> before x = Inr True \<or> behind x = Inr False"

definition right_ok :: "('a \<Rightarrow> 'e + bool) \<Rightarrow> ('a \<Rightarrow> 'e + bool) \<Rightarrow> 'a \<Rightarrow> bool" where
  "right_ok before behind x \<longleftrightarrow> behind x = Inr True \<or> before x = Inr False"

definition partitioned ::
  "('a \<Rightarrow> 'e + bool) \<Rightarrow> ('a \<Rightarrow> 'e + bool) \<Rightarrow> int \<Rightarrow> int \<Rightarrow> 'a list \<Rightarrow> int \<Rightarrow> int \<Rightarrow> bool" where
  "partitioned before behind head tail a h t \<longleftrightarrow>
     (\<forall>i. head \<le> i \<and> i < h \<longrightarrow> left_ok before behind (a ! nat i))
     \<and> (\<forall>i. t \<le> i \<and> i < tail \<longrightarrow> right_ok before behind (a ! nat i))"

text \<open>The end of the loop: the parts meet, and \<open>t\<close> is at the border or one below it.\<close>

definition partition_end ::
  "('a \<Rightarrow> 'e + bool) \<Rightarrow> ('a \<Rightarrow> 'e + bool) \<Rightarrow> int \<Rightarrow> int \<Rightarrow> 'a list \<Rightarrow> 'e + int \<times> int \<Rightarrow> bool" where
  "partition_end before behind head tail a r =
     (case r of
        Inl e \<Rightarrow> (\<exists>x \<in> set a. before x = Inl e \<or> behind x = Inl e)
      | Inr (h, t) \<Rightarrow> head \<le> h \<and> h \<le> tail \<and> t < tail \<and> (t = h \<or> t = h - 1)
          \<and> partitioned before behind head tail a h h)"

text \<open>One round: the scans raise, meet, or stop at two elements that have to change places.\<close>

lemma partition_round:
  assumes "0 \<le> head" "head - 1 \<le> h" "h < t" "t \<le> tail" "tail < int (length a)"
    "partitioned before behind head tail a (h + 1) t"
  shows "(\<exists>e. scan_up before a h t = Some (Inl e) \<and> (\<exists>x \<in> set a. before x = Inl e))
    \<or> (\<exists>h' e. scan_up before a h t = Some (Inr h') \<and> scan_down behind a h' t = Some (Inl e)
        \<and> (\<exists>x \<in> set a. behind x = Inl e))
    \<or> (\<exists>h' t'. scan_up before a h t = Some (Inr h') \<and> scan_down behind a h' t = Some (Inr t')
        \<and> h < h' \<and> t' < t
        \<and> (t' \<le> h' \<and> partition_end before behind head tail a (Inr (h', t'))
          \<or> h' < t' \<and> partitioned before behind head tail a h' (t' + 1)
             \<and> right_ok before behind (a ! nat h') \<and> left_ok before behind (a ! nat t')))"
proof -
  obtain r where r: "scan_up before a h t = Some r" "case r of
      Inl e \<Rightarrow> (\<exists>x \<in> set a. before x = Inl e)
    | Inr h' \<Rightarrow> h < h' \<and> h' \<le> t \<and> (\<forall>i. h < i \<and> i < h' \<longrightarrow> before (a ! nat i) = Inr True)
        \<and> (h' < t \<longrightarrow> before (a ! nat h') = Inr False)"
    using scan_up_correct [of h t a before] assms by auto
  show ?thesis
  proof (cases r)
    case (Inr h')
    then have h': "h < h'" "h' \<le> t" "\<And>i. h < i \<Longrightarrow> i < h' \<Longrightarrow> before (a ! nat i) = Inr True"
      "h' < t \<Longrightarrow> before (a ! nat h') = Inr False" using r(2) by auto
    obtain q where q: "scan_down behind a h' t = Some q" "case q of
        Inl e \<Rightarrow> (\<exists>x \<in> set a. behind x = Inl e)
      | Inr t' \<Rightarrow> t' < t \<and> h' - 1 \<le> t' \<and> (h' < t \<longrightarrow> h' \<le> t')
          \<and> (\<forall>i. t' < i \<and> i < t \<longrightarrow> behind (a ! nat i) = Inr True)
          \<and> (h' < t' \<longrightarrow> behind (a ! nat t') = Inr False)"
      using scan_down_correct [of h' t a behind] assms h' by auto
    show ?thesis
    proof (cases q)
      case (Inr t')
      then have t': "t' < t" "h' - 1 \<le> t'" "h' < t \<Longrightarrow> h' \<le> t'"
        "\<And>i. t' < i \<Longrightarrow> i < t \<Longrightarrow> behind (a ! nat i) = Inr True"
        "h' < t' \<Longrightarrow> behind (a ! nat t') = Inr False" using q(2) by auto
      have left: "left_ok before behind (a ! nat i)" if "head \<le> i" "i < h'" for i
        using that h'(3) [of i] assms(6) unfolding partitioned_def left_ok_def by (cases "i < h + 1") auto
      have right: "right_ok before behind (a ! nat i)" if "t' < i" "i < tail" for i
        using that t'(4) [of i] assms(6) unfolding partitioned_def right_ok_def by (cases "i < t") auto
      have at_h: "right_ok before behind (a ! nat h')" if "h' < t" using h'(4) that by (simp add: right_ok_def)
      have "partition_end before behind head tail a (Inr (h', t'))" if g: "t' \<le> h'"
      proof -
        have "right_ok before behind (a ! nat i)" if "h' \<le> i" "i < tail" for i
          using that right [of i] at_h g t' assms(4) h'(2) by (cases "h' < t"; cases "i = h'") auto
        moreover have "t' = h' \<or> t' = h' - 1" using g t'(2) by auto
        ultimately show ?thesis using left h' t' assms unfolding partition_end_def partitioned_def by auto
      qed
      moreover have "partitioned before behind head tail a h' (t' + 1)
          \<and> right_ok before behind (a ! nat h') \<and> left_ok before behind (a ! nat t')" if "h' < t'"
        using left right at_h t' that unfolding partitioned_def left_ok_def by auto
      ultimately have "t' \<le> h' \<and> partition_end before behind head tail a (Inr (h', t'))
          \<or> h' < t' \<and> partitioned before behind head tail a h' (t' + 1)
             \<and> right_ok before behind (a ! nat h') \<and> left_ok before behind (a ! nat t')"
        by (cases "t' \<le> h'") auto
      then show ?thesis using r(1) q(1) Inr \<open>r = Inr h'\<close> h'(1) t'(1) by blast
    qed (use r(1) q Inr in auto)
  qed (use r in auto)
qed

lemma partition_loop_correct:
  assumes "0 \<le> head" "head - 1 \<le> h" "h < t" "t \<le> tail" "tail < int (length a)"
    "partitioned before behind head tail a (h + 1) t"
  shows "\<exists>b r. partition_loop before behind a h t = Some (b, r) \<and> permutes_within head (tail - 1) a b
    \<and> partition_end before behind head tail b r"
  using assms
proof (induction "nat (t - h)" arbitrary: a h t rule: less_induct)
  case less
  let ?up = "scan_up before a h t" and ?down = "\<lambda>h. scan_down behind a h t"
  consider (up) e where "?up = Some (Inl e)" "\<exists>x \<in> set a. before x = Inl e"
    | (down) h' e where "?up = Some (Inr h')" "?down h' = Some (Inl e)" "\<exists>x \<in> set a. behind x = Inl e"
    | (meet) h' t' where "?up = Some (Inr h')" "?down h' = Some (Inr t')" "t' \<le> h'"
        "partition_end before behind head tail a (Inr (h', t'))"
    | (swap) h' t' where "?up = Some (Inr h')" "?down h' = Some (Inr t')" "h' < t'" "h < h'" "t' < t"
        "partitioned before behind head tail a h' (t' + 1)"
        "right_ok before behind (a ! nat h')" "left_ok before behind (a ! nat t')"
    using partition_round [OF less.prems] by blast
  then show ?case
  proof cases
    case up
    then have "partition_loop before behind a h t = Some (a, Inl e)" by (subst partition_loop.simps) simp
    then show ?thesis using up(2) by (auto simp: partition_end_def)
  next
    case down
    then have "partition_loop before behind a h t = Some (a, Inl e)" by (subst partition_loop.simps) simp
    then show ?thesis using down(3) by (auto simp: partition_end_def)
  next
    case meet
    then have "partition_loop before behind a h t = Some (a, Inr (h', t'))" by (subst partition_loop.simps) simp
    then show ?thesis using meet(4) permutes_refl by blast
  next
    case swap
    have rng: "0 \<le> head" "head \<le> h'" "h' < int (length a)" "h' \<le> tail - 1" "head \<le> t'"
      "t' < int (length a)" "t' \<le> tail - 1" using swap less.prems by auto
    obtain b where b: "swap_items a h' t' = Some b" "permutes_within head (tail - 1) a b"
      "b ! nat h' = a ! nat t'" "b ! nat t' = a ! nat h'"
      "\<And>k. 0 \<le> k \<Longrightarrow> k \<noteq> h' \<Longrightarrow> k \<noteq> t' \<Longrightarrow> b ! nat k = a ! nat k"
      using swap_permutes [OF rng] by blast
    have "left_ok before behind (b ! nat i)" if "head \<le> i" "i < h' + 1" for i
      using that swap(3,6,8) b(3) b(5) [of i] rng(1) unfolding partitioned_def by (cases "i = h'") auto
    moreover have "right_ok before behind (b ! nat i)" if "t' \<le> i" "i < tail" for i
      using that swap(3,6,7) b(4) b(5) [of i] rng(1,5) unfolding partitioned_def by (cases "i = t'") auto
    ultimately have p: "partitioned before behind head tail b (h' + 1) t'" unfolding partitioned_def by blast
    have "partition_loop before behind a h t = partition_loop before behind b h' t'"
      by (subst partition_loop.simps) (use swap(1-3) b(1) in simp)
    moreover have "\<exists>c r. partition_loop before behind b h' t' = Some (c, r) \<and> permutes_within head (tail - 1) b c
        \<and> partition_end before behind head tail c r"
      by (rule less.hyps) (use swap(3-5) rng less.prems permutes_length [OF b(2)] p in auto)
    ultimately show ?thesis using permutes_trans [OF b(2)] by auto
  qed
qed

section \<open>The sort\<close>

text \<open>The exceptions that the keys and comparisons of the elements can raise.\<close>

definition raised :: "('a \<Rightarrow> 'e + 'k) \<Rightarrow> ('k \<Rightarrow> 'k \<Rightarrow> 'e + bool) \<Rightarrow> 'a set \<Rightarrow> 'e set" where
  "raised key lt S = {e. \<exists>x \<in> S. key x = Inl e
     \<or> (\<exists>y \<in> S. \<exists>k l. key x = Inr k \<and> key y = Inr l \<and> lt k l = Inl e)}"

definition precedes :: "('a \<Rightarrow> 'e + 'k) \<Rightarrow> ('k \<Rightarrow> 'k \<Rightarrow> 'e + bool) \<Rightarrow> 'a \<Rightarrow> 'a \<Rightarrow> bool" where
  "precedes key lt x y \<longleftrightarrow> (\<exists>k l. key x = Inr k \<and> key y = Inr l \<and> lt k l = Inr True)"

text \<open>The comparison raises nothing and is a strict weak order on the elements.\<close>

definition weakly_ordered :: "('a \<Rightarrow> 'e + 'k) \<Rightarrow> ('k \<Rightarrow> 'k \<Rightarrow> 'e + bool) \<Rightarrow> 'a set \<Rightarrow> bool" where
  "weakly_ordered key lt S \<longleftrightarrow> raised key lt S = {}
     \<and> (\<forall>x \<in> S. \<forall>y \<in> S. precedes key lt x y \<longrightarrow> \<not> precedes key lt y x)
     \<and> (\<forall>x \<in> S. \<forall>y \<in> S. \<forall>z \<in> S. \<not> precedes key lt x y \<longrightarrow> \<not> precedes key lt y z \<longrightarrow> \<not> precedes key lt x z)"

text \<open>\<open>x\<close> may stand before \<open>y\<close> in the result.\<close>

definition in_order :: "('a \<Rightarrow> 'e + 'k) \<Rightarrow> ('k \<Rightarrow> 'k \<Rightarrow> 'e + bool) \<Rightarrow> bool \<Rightarrow> 'a \<Rightarrow> 'a \<Rightarrow> bool" where
  "in_order key lt less_result x y = (if less_result then \<not> precedes key lt y x else \<not> precedes key lt x y)"

definition sorted_within ::
  "('a \<Rightarrow> 'e + 'k) \<Rightarrow> ('k \<Rightarrow> 'k \<Rightarrow> 'e + bool) \<Rightarrow> bool \<Rightarrow> 'a list \<Rightarrow> int \<Rightarrow> int \<Rightarrow> bool" where
  "sorted_within key lt less_result a i j \<longleftrightarrow>
     (\<forall>p q. i \<le> p \<and> p < q \<and> q \<le> j \<longrightarrow> in_order key lt less_result (a ! nat p) (a ! nat q))"

lemma in_order_trans:
  assumes w: "weakly_ordered key lt S" and s: "x \<in> S" "y \<in> S" "z \<in> S"
    and o: "in_order key lt b x y" "in_order key lt b y z"
  shows "in_order key lt b x z"
proof -
  have t: "\<And>x y z. x \<in> S \<Longrightarrow> y \<in> S \<Longrightarrow> z \<in> S \<Longrightarrow> \<not> precedes key lt x y \<Longrightarrow> \<not> precedes key lt y z \<Longrightarrow> \<not> precedes key lt x z"
    using w unfolding weakly_ordered_def by blast
  show ?thesis using t [OF s] t [OF s(3,2,1)] o unfolding in_order_def by (cases b) simp_all
qed

lemma pivot_tests:
  assumes "raised key lt S = {}" "x \<in> S" "pivot \<in> S" "key pivot = Inr v"
  shows "before_pivot key lt b v x = Inr (precedes key lt x pivot = b)"
    "behind_pivot key lt b v x = Inr (precedes key lt pivot x = b)"
proof -
  obtain k where k: "key x = Inr k" using assms(1,2) unfolding raised_def by (cases "key x") auto
  have "lt k v \<noteq> Inl e" "lt v k \<noteq> Inl e" for e using assms k unfolding raised_def by blast+
  then obtain r q where "lt k v = Inr r" "lt v k = Inr q" by (metis sum.exhaust)
  then show "before_pivot key lt b v x = Inr (precedes key lt x pivot = b)"
    "behind_pivot key lt b v x = Inr (precedes key lt pivot x = b)"
    using k assms(4) by (auto simp: before_pivot_def behind_pivot_def precedes_def)
qed

lemma pivot_sides:
  assumes w: "weakly_ordered key lt S" and s: "x \<in> S" "pivot \<in> S" "key pivot = Inr v"
  shows "left_ok (before_pivot key lt b v) (behind_pivot key lt b v) x \<Longrightarrow> in_order key lt b x pivot"
    "right_ok (before_pivot key lt b v) (behind_pivot key lt b v) x \<Longrightarrow> in_order key lt b pivot x"
proof -
  have r: "raised key lt S = {}" using w by (simp add: weakly_ordered_def)
  have a: "precedes key lt x pivot \<Longrightarrow> \<not> precedes key lt pivot x"
    using w s unfolding weakly_ordered_def by blast
  show "left_ok (before_pivot key lt b v) (behind_pivot key lt b v) x \<Longrightarrow> in_order key lt b x pivot"
    "right_ok (before_pivot key lt b v) (behind_pivot key lt b v) x \<Longrightarrow> in_order key lt b pivot x"
    using a unfolding left_ok_def right_ok_def pivot_tests [OF r s] in_order_def by (cases b; auto)+
qed

lemma pivot_raises:
  assumes "x \<in> S" "pivot \<in> S" "key pivot = Inr v"
    "before_pivot key lt b v x = Inl e \<or> behind_pivot key lt b v x = Inl e"
  shows "e \<in> raised key lt S"
  using assms unfolding raised_def before_pivot_def behind_pivot_def
  by (auto split: sum.splits)

text \<open>The two parts and the pivot between them give a sorted range.\<close>

lemma sorted_join:
  assumes w: "weakly_ordered key lt S" and S: "set a \<subseteq> S" "pivot \<in> S" and l: "tail < int (length a)"
    and r: "0 \<le> head" "head \<le> h" "h \<le> tail" "t = h \<or> t = h - 1" "t = h - 1 \<longrightarrow> a ! nat h = pivot"
    and parts: "sorted_within key lt b a head t" "sorted_within key lt b a (h + 1) tail"
    and left: "\<And>x. x \<in> elems a head t \<Longrightarrow> in_order key lt b x pivot"
    and right: "\<And>x. x \<in> elems a (h + 1) tail \<Longrightarrow> in_order key lt b pivot x"
  shows "sorted_within key lt b a head tail"
  unfolding sorted_within_def
proof (intro allI impI)
  fix p q assume pq: "head \<le> p \<and> p < q \<and> q \<le> tail"
  have in_S: "a ! nat p \<in> S" "a ! nat q \<in> S" using pq r l S by auto
  consider "q \<le> t" | "h + 1 \<le> p" | "p \<le> t" "h + 1 \<le> q" | "t = h - 1" "q = h" | "t = h - 1" "p = h"
    using pq r(4) by linarith
  then show "in_order key lt b (a ! nat p) (a ! nat q)"
  proof cases
    case 3
    have "in_order key lt b (a ! nat p) pivot" by (rule left [OF elemsI]) (use pq 3 in auto)
    moreover have "in_order key lt b pivot (a ! nat q)" by (rule right [OF elemsI]) (use pq 3 in auto)
    ultimately show ?thesis by (rule in_order_trans [OF w in_S(1) S(2) in_S(2)])
  next
    case 4
    have "in_order key lt b (a ! nat p) pivot" by (rule left [OF elemsI]) (use pq 4 in auto)
    then show ?thesis using r(5) 4 by simp
  next
    case 5
    have "in_order key lt b pivot (a ! nat q)" by (rule right [OF elemsI]) (use pq 5 in auto)
    then show ?thesis using r(5) 5 by simp
  qed (use parts pq in \<open>auto simp: sorted_within_def\<close>)
qed

text \<open>What a call on the part from \<open>head\<close> to \<open>tail\<close> does, and two calls on parts that do not overlap.\<close>

definition sort_post ::
  "('a \<Rightarrow> 'e + 'k) \<Rightarrow> ('k \<Rightarrow> 'k \<Rightarrow> 'e + bool) \<Rightarrow> bool \<Rightarrow> int \<Rightarrow> int \<Rightarrow> 'a list \<Rightarrow> ('a list \<times> ('e + unit)) option \<Rightarrow> bool" where
  "sort_post key lt less_result head tail a res \<longleftrightarrow>
     (\<exists>c r. res = Some (c, r) \<and> permutes_within head tail a c
        \<and> (case r of
             Inl e \<Rightarrow> e \<in> raised key lt (set a)
           | Inr _ \<Rightarrow> weakly_ordered key lt (set a) \<longrightarrow> sorted_within key lt less_result c head tail))"

lemma nth_nat_mem: "0 \<le> k \<Longrightarrow> k < int (length a) \<Longrightarrow> a ! nat k \<in> set a"
  by simp

lemma in_order_refl:
  assumes "weakly_ordered key lt S" "x \<in> S"
  shows "in_order key lt b x x"
proof -
  have "\<forall>x \<in> S. \<forall>y \<in> S. precedes key lt x y \<longrightarrow> \<not> precedes key lt y x"
    using assms(1) unfolding weakly_ordered_def by (elim conjE)
  then have "\<not> precedes key lt x x" using assms(2) by blast
  then show ?thesis by (simp add: in_order_def)
qed

lemma elems_image: "elems a i j = (\<lambda>k. a ! nat k) ` {i..j}"
  by (auto simp: elems_def)

lemma permutes_elsewhere:
  assumes "permutes_within i j a b" "0 \<le> p" "q < i \<or> j < p"
  shows "elems b p q = elems a p q" "sorted_within key lt ls b p q = sorted_within key lt ls a p q"
proof -
  have e: "b ! nat k = a ! nat k" if "p \<le> k" "k \<le> q" for k
    using assms that unfolding permutes_within_def by auto
  show "elems b p q = elems a p q" unfolding elems_image using e by (intro image_cong) auto
  show "sorted_within key lt ls b p q = sorted_within key lt ls a p q"
    unfolding sorted_within_def by (simp add: e cong: imp_cong)
qed

lemma two_parts:
  assumes f: "sort_post key lt ls i j a res" and g: "\<forall>b. permutes_within i j a b \<longrightarrow> sort_post key lt ls i' j' b (g b)"
    and d: "j < i' \<or> j' < i" "0 \<le> i" "0 \<le> i'" "i \<le> j + 1" "i' \<le> j' + 1" "j < int (length a)" "j' < int (length a)"
  shows "\<exists>c r. res \<bind> (\<lambda>(b, r). case r of Inl e \<Rightarrow> Some (b, Inl e) | Inr _ \<Rightarrow> g b) = Some (c, r)
    \<and> mset c = mset a \<and> (\<forall>k. 0 \<le> k \<longrightarrow> k < i \<or> j < k \<longrightarrow> k < i' \<or> j' < k \<longrightarrow> c ! nat k = a ! nat k)
    \<and> elems c i j = elems a i j \<and> elems c i' j' = elems a i' j'
    \<and> (case r of
         Inl e \<Rightarrow> e \<in> raised key lt (set a)
       | Inr _ \<Rightarrow> weakly_ordered key lt (set a) \<longrightarrow> sorted_within key lt ls c i j \<and> sorted_within key lt ls c i' j')"
proof -
  obtain b r where b: "res = Some (b, r)" "permutes_within i j a b" "case r of
      Inl e \<Rightarrow> e \<in> raised key lt (set a)
    | Inr _ \<Rightarrow> weakly_ordered key lt (set a) \<longrightarrow> sorted_within key lt ls b i j"
    using f unfolding sort_post_def by blast
  have l: "length b = length a" and s: "set b = set a" using permutes_length permutes_set b(2) by blast+
  have eb: "elems b i j = elems a i j" "elems b i' j' = elems a i' j'"
    using permutes_elems [OF b(2)] permutes_elsewhere(1) [OF b(2)] d by auto
  show ?thesis
  proof (cases r)
    case (Inl e)
    then show ?thesis using b eb by (auto simp: permutes_within_def)
  next
    case (Inr u)
    obtain c q where c: "g b = Some (c, q)" "permutes_within i' j' b c" "case q of
        Inl e \<Rightarrow> e \<in> raised key lt (set b)
      | Inr _ \<Rightarrow> weakly_ordered key lt (set b) \<longrightarrow> sorted_within key lt ls c i' j'"
      using g b(2) unfolding sort_post_def by blast
    have ec: "elems c i' j' = elems b i' j'" "elems c i j = elems b i j"
      "sorted_within key lt ls c i j = sorted_within key lt ls b i j"
      using permutes_elems [OF c(2)] permutes_elsewhere [OF c(2), of i j] d l by simp_all blast+
    have m: "mset c = mset a" "\<forall>k. 0 \<le> k \<longrightarrow> k < i \<or> j < k \<longrightarrow> k < i' \<or> j' < k \<longrightarrow> c ! nat k = a ! nat k"
      using b(2) c(2) unfolding permutes_within_def by simp_all
    have "case q of
        Inl e \<Rightarrow> e \<in> raised key lt (set a)
      | Inr _ \<Rightarrow> weakly_ordered key lt (set a) \<longrightarrow> sorted_within key lt ls c i j \<and> sorted_within key lt ls c i' j'"
      using c(3) b(3) Inr ec(3) s by (cases q) simp_all
    then show ?thesis using b(1) Inr c(1) m ec eb by simp
  qed
qed

text \<open>The two calls behind the partition, in either order.\<close>

lemma both_parts:
  assumes f: "\<forall>x. length x = length c \<longrightarrow> sort_post key lt ls head t x (f x)"
    and g: "\<forall>x. length x = length c \<longrightarrow> sort_post key lt ls (h + 1) tail x (g x)"
    and r: "0 \<le> head" "head \<le> h" "h \<le> tail" "t = h \<or> t = h - 1" "t < tail" "tail < int (length c)"
  shows "\<exists>d q. (if first then f c \<bind> (\<lambda>(b, r). case r of Inl e \<Rightarrow> Some (b, Inl e) | Inr _ \<Rightarrow> g b)
        else g c \<bind> (\<lambda>(b, r). case r of Inl e \<Rightarrow> Some (b, Inl e) | Inr _ \<Rightarrow> f b)) = Some (d, q)
    \<and> permutes_within head tail c d \<and> (t < h \<longrightarrow> d ! nat h = c ! nat h)
    \<and> elems d head t = elems c head t \<and> elems d (h + 1) tail = elems c (h + 1) tail
    \<and> (case q of
         Inl e \<Rightarrow> e \<in> raised key lt (set c)
       | Inr _ \<Rightarrow> weakly_ordered key lt (set c) \<longrightarrow> sorted_within key lt ls d head t \<and> sorted_within key lt ls d (h + 1) tail)"
proof -
  have d: "t < h + 1 \<or> tail < head" "tail < head \<or> t < h + 1" "0 \<le> h + 1" "head \<le> t + 1" "h + 1 \<le> tail + 1"
    "t < int (length c)" using r by auto
  have g': "\<forall>b. permutes_within head t c b \<longrightarrow> sort_post key lt ls (h + 1) tail b (g b)"
    using g permutes_length by blast
  have f': "\<forall>b. permutes_within (h + 1) tail c b \<longrightarrow> sort_post key lt ls head t b (f b)"
    using f permutes_length by blast
  have e: "permutes_within head tail c d \<and> (t < h \<longrightarrow> d ! nat h = c ! nat h)"
    if "mset d = mset c" "\<forall>k. 0 \<le> k \<longrightarrow> k < head \<or> t < k \<longrightarrow> k < h + 1 \<or> tail < k \<longrightarrow> d ! nat k = c ! nat k" for d
    using that r unfolding permutes_within_def by auto
  show ?thesis
  proof (cases first)
    case True
    obtain d q where "f c \<bind> (\<lambda>(b, r). case r of Inl e \<Rightarrow> Some (b, Inl e) | Inr _ \<Rightarrow> g b) = Some (d, q)"
      "mset d = mset c" "\<forall>k. 0 \<le> k \<longrightarrow> k < head \<or> t < k \<longrightarrow> k < h + 1 \<or> tail < k \<longrightarrow> d ! nat k = c ! nat k"
      "elems d head t = elems c head t" "elems d (h + 1) tail = elems c (h + 1) tail"
      "case q of Inl e \<Rightarrow> e \<in> raised key lt (set c)
       | Inr _ \<Rightarrow> weakly_ordered key lt (set c) \<longrightarrow> sorted_within key lt ls d head t \<and> sorted_within key lt ls d (h + 1) tail"
      using two_parts [where g = g, OF f [rule_format, OF refl] g' d(1) r(1) d(3-6) r(6)] by (elim exE conjE)
    then show ?thesis using e [of d] True by (intro exI [of _ d] exI [of _ q]) simp
  next
    case False
    obtain d q where "g c \<bind> (\<lambda>(b, r). case r of Inl e \<Rightarrow> Some (b, Inl e) | Inr _ \<Rightarrow> f b) = Some (d, q)"
      "mset d = mset c" "\<forall>k. 0 \<le> k \<longrightarrow> k < h + 1 \<or> tail < k \<longrightarrow> k < head \<or> t < k \<longrightarrow> d ! nat k = c ! nat k"
      "elems d (h + 1) tail = elems c (h + 1) tail" "elems d head t = elems c head t"
      "case q of Inl e \<Rightarrow> e \<in> raised key lt (set c)
       | Inr _ \<Rightarrow> weakly_ordered key lt (set c) \<longrightarrow> sorted_within key lt ls d (h + 1) tail \<and> sorted_within key lt ls d head t"
      using two_parts [where g = f, OF g [rule_format, OF refl] f' d(2,3) r(1) d(5,4) r(6) d(6)] by (elim exE conjE)
    then show ?thesis using e [of d] False by (intro exI [of _ d] exI [of _ q]) (cases q; simp)
  qed
qed

text \<open>The pivot is put between the parts.\<close>

lemma pivot_placed:
  assumes ht: "0 \<le> head" "head < tail" "tail < int (length a)" and v: "key (a ! nat tail) = Inr v"
    and b: "permutes_within head (tail - 1) a b"
      "partition_end (before_pivot key lt ls v) (behind_pivot key lt ls v) head tail b (Inr (h, t))"
  shows "\<exists>c. swap_items b h tail = Some c \<and> permutes_within head tail a c \<and> c ! nat h = a ! nat tail
    \<and> (weakly_ordered key lt (set a) \<longrightarrow>
         (\<forall>x \<in> elems c head t. in_order key lt ls x (a ! nat tail))
         \<and> (\<forall>x \<in> elems c (h + 1) tail. in_order key lt ls (a ! nat tail) x))"
proof -
  let ?before = "before_pivot key lt ls v" and ?behind = "behind_pivot key lt ls v" and ?pivot = "a ! nat tail"
  have pivot: "?pivot \<in> set a" using ht by simp
  have l: "length b = length a" by (rule permutes_length [OF b(1)])
  have p: "head \<le> h" "h \<le> tail" "t < tail" "t = h \<or> t = h - 1"
    "\<And>i. head \<le> i \<Longrightarrow> i < h \<Longrightarrow> left_ok ?before ?behind (b ! nat i)"
    "\<And>i. h \<le> i \<Longrightarrow> i < tail \<Longrightarrow> right_ok ?before ?behind (b ! nat i)"
    using b(2) by (auto simp: partition_end_def partitioned_def)
  have bt: "b ! nat tail = ?pivot" using b(1) ht unfolding permutes_within_def by auto
  obtain c where c: "swap_items b h tail = Some c" "permutes_within head tail b c" "c ! nat h = b ! nat tail"
    "c ! nat tail = b ! nat h" "\<And>k. 0 \<le> k \<Longrightarrow> k \<noteq> h \<Longrightarrow> k \<noteq> tail \<Longrightarrow> c ! nat k = b ! nat k"
    using swap_permutes [of head h b tail tail] ht p(1,2) l by auto
  have ac: "permutes_within head tail a c" 
    by (rule permutes_trans [OF permutes_wider [OF b(1)] c(2)]) simp_all
  have in_a: "c ! nat k \<in> set a" if "head \<le> k" "k \<le> tail" for k
    using nth_nat_mem [of k c] permutes_length [OF ac] permutes_set [OF ac] that ht by simp
  have left: "in_order key lt ls x ?pivot" if w: "weakly_ordered key lt (set a)" and x: "x \<in> elems c head t" for x
  proof -
    obtain k where k: "head \<le> k" "k \<le> t" "x = c ! nat k" using x unfolding elems_def by blast
    show ?thesis
    proof (cases "k = h")
      case True
      then show ?thesis using in_order_refl [OF w pivot] k(3) c(3) bt by simp
    next
      case False
      then have "left_ok ?before ?behind x" using k p(2-4) p(5) [of k] c(5) [of k] ht by auto
      then show ?thesis using pivot_sides(1) [OF w in_a pivot v] k p(3) by simp
    qed
  qed
  have right: "in_order key lt ls ?pivot x" if w: "weakly_ordered key lt (set a)" and x: "x \<in> elems c (h + 1) tail" for x
  proof -
    obtain k where k: "h + 1 \<le> k" "k \<le> tail" "x = c ! nat k" using x unfolding elems_def by blast
    then have "right_ok ?before ?behind x"
      using p(1,2) p(6) [of k] p(6) [of h] c(4) c(5) [of k] ht by (cases "k = tail") auto
    then show ?thesis using pivot_sides(2) [OF w in_a pivot v] k p(1) by simp
  qed
  show ?thesis using c(1,3) ac bt left right by auto
qed

lemma quicksort_step:
  assumes ht: "0 \<le> head" "head < tail" "tail < int (length a)"
    and rec: "\<And>b i j. length b = length a \<Longrightarrow> 0 \<le> i \<Longrightarrow> j < int (length a) \<Longrightarrow> j - i < tail - head \<Longrightarrow> i \<le> j + 1 \<Longrightarrow>
      sort_post key lt ls i j b (mp_quicksort key lt ls b i j)"
    and v: "key (a ! nat tail) = Inr v"
  shows "sort_post key lt ls head tail a (mp_quicksort key lt ls a head tail)"
proof -
  let ?before = "before_pivot key lt ls v" and ?behind = "behind_pivot key lt ls v" and ?pivot = "a ! nat tail"
  have pivot: "?pivot \<in> set a" using ht by simp
  have "\<exists>b r. partition_loop ?before ?behind a (head - 1) tail = Some (b, r) \<and> permutes_within head (tail - 1) a b
    \<and> partition_end ?before ?behind head tail b r"
    by (rule partition_loop_correct) (use ht in \<open>auto simp: partitioned_def\<close>)
  then obtain b r where b: "partition_loop ?before ?behind a (head - 1) tail = Some (b, r)"
    "permutes_within head (tail - 1) a b" "partition_end ?before ?behind head tail b r" by blast
  show ?thesis
  proof (cases r)
    case (Inl e)
    then have "mp_quicksort key lt ls a head tail = Some (b, Inl e)"
      using ht v b(1) by (subst mp_quicksort.simps) simp
    moreover have "e \<in> raised key lt (set a)"
      using b(3) Inl permutes_set [OF b(2)] pivot_raises [of _ "set a" ?pivot key v lt ls e] pivot v
      unfolding partition_end_def by auto
    ultimately show ?thesis unfolding sort_post_def using permutes_wider [OF b(2)] by auto
  next
    case (Inr ht')
    obtain h t where r: "r = Inr (h, t)" using Inr by (cases ht') simp
    then have p: "head \<le> h" "h \<le> tail" "t < tail" "t = h \<or> t = h - 1"
      using b(3) by (auto simp: partition_end_def)
    obtain c where c: "swap_items b h tail = Some c" "permutes_within head tail a c" "c ! nat h = ?pivot"
      "weakly_ordered key lt (set a) \<Longrightarrow> x \<in> elems c head t \<Longrightarrow> in_order key lt ls x ?pivot"
      "weakly_ordered key lt (set a) \<Longrightarrow> x \<in> elems c (h + 1) tail \<Longrightarrow> in_order key lt ls ?pivot x" for x
      using pivot_placed [OF ht v b(2) b(3) [unfolded r]] by blast
    have lc: "length c = length a" and sc: "set c = set a"
      using permutes_length [OF c(2)] permutes_set [OF c(2)] by simp_all
    let ?sort = "mp_quicksort key lt ls"
    have pl: "\<forall>x. length x = length c \<longrightarrow> sort_post key lt ls head t x (?sort x head t)"
      by (intro allI impI rec) (use lc p ht in auto)
    have pr: "\<forall>x. length x = length c \<longrightarrow> sort_post key lt ls (h + 1) tail x (?sort x (h + 1) tail)"
      by (intro allI impI rec) (use lc p ht in auto)
    obtain d q where d: "(if t - head < tail - h - 1
        then ?sort c head t \<bind> (\<lambda>(b, r). case r of Inl e \<Rightarrow> Some (b, Inl e) | Inr _ \<Rightarrow> ?sort b (h + 1) tail)
        else ?sort c (h + 1) tail \<bind> (\<lambda>(b, r). case r of Inl e \<Rightarrow> Some (b, Inl e) | Inr _ \<Rightarrow> ?sort b head t)) = Some (d, q)"
      "permutes_within head tail c d" "t < h \<longrightarrow> d ! nat h = c ! nat h"
      "elems d head t = elems c head t" "elems d (h + 1) tail = elems c (h + 1) tail"
      "case q of Inl e \<Rightarrow> e \<in> raised key lt (set c)
       | Inr _ \<Rightarrow> weakly_ordered key lt (set c) \<longrightarrow> sorted_within key lt ls d head t \<and> sorted_within key lt ls d (h + 1) tail"
      using both_parts [where f = "\<lambda>x. ?sort x head t" and g = "\<lambda>x. ?sort x (h + 1) tail" and first = "t - head < tail - h - 1",
          OF pl pr ht(1) p(1,2,4,3) ht(3) [folded lc]] by (elim exE conjE)
    have run: "?sort a head tail = Some (d, q)"
      using ht v b(1) r c(1) d(1) by (subst mp_quicksort.simps) simp
    have perm: "permutes_within head tail a d" by (rule permutes_trans [OF c(2) d(2)])
    have sorted: "sorted_within key lt ls d head tail"
      if w: "weakly_ordered key lt (set a)"
        and s: "sorted_within key lt ls d head t" "sorted_within key lt ls d (h + 1) tail"
    proof (rule sorted_join [OF w _ pivot _ ht(1) p(1,2,4) _ s])
      show "t = h - 1 \<longrightarrow> d ! nat h = ?pivot" using d(3) c(3) by auto
    qed (use d(4,5) c(4,5) [OF w] permutes_set [OF perm] permutes_length [OF perm] ht in auto)
    show ?thesis unfolding sort_post_def run using d(6) perm sorted sc by (cases q) auto
  qed
qed

lemma quicksort_correct:
  assumes "0 \<le> head" "tail < int (length a)" "head \<le> tail + 1"
  shows "sort_post key lt ls head tail a (mp_quicksort key lt ls a head tail)"
  using assms
proof (induction "nat (tail - head)" arbitrary: a head tail rule: less_induct)
  case less
  show ?case
  proof (cases "head < tail")
    case True
    then have "0 \<le> tail" using less.prems by simp
    show ?thesis
    proof (cases "key (a ! nat tail)")
      case (Inl e)
      then have "mp_quicksort key lt ls a head tail = Some (a, Inl e)"
        using True less.prems by (subst mp_quicksort.simps) simp
      moreover have "e \<in> raised key lt (set a)"
        using Inl nth_nat_mem [OF \<open>0 \<le> tail\<close> less.prems(2)] unfolding raised_def by blast
      ultimately show ?thesis unfolding sort_post_def by simp
    next
      case (Inr v)
      show ?thesis by (rule quicksort_step [where v = v]) (use less.prems less.hyps True Inr in auto)
    qed
  next
    case False
    then have "mp_quicksort key lt ls a head tail = Some (a, Inr ())" by (subst mp_quicksort.simps) simp
    moreover have "sorted_within key lt ls a head tail" using False by (auto simp: sorted_within_def)
    ultimately show ?thesis unfolding sort_post_def by simp
  qed
qed

end
