(* ===== verification/PyList.thy ===== *)
theory PyList
  imports ListSort IntTheorems
begin

text \<open>
  Lists: \<^verbatim>\<open>py/objlist.c\<close>, the sequence helpers of \<^verbatim>\<open>py/sequence.c\<close>, the slices of \<^verbatim>\<open>py/objslice.c\<close> and
  \<open>mp_get_index\<close> of \<^verbatim>\<open>py/obj.c\<close>.  The array of a list is a list of cells; an access outside of it, or a
  read of a cell without an object, is \<open>None\<close>.  Sizes are 32 bits wide.  \<open>grant n\<close> says whether the
  allocator can serve a request of \<open>n\<close> bytes; where it cannot, the operation raises \<open>MemoryError\<close>, in the
  state that the code has reached by then.  The equality and the order of the elements, and the key function
  of a sort, are parameters: functions of the elements, which leave the list alone.  The order may raise, the
  equality does not.
\<close>

section \<open>Data\<close>

text \<open>The null object, an object, and memory that nobody has written.\<close>

datatype 'a cell = No_Obj | Obj 'a | Unset

record 'a mp_list =
  list_alloc :: nat
  list_len :: nat
  list_items :: "'a cell list"

datatype list_error = List_IndexError | List_ValueError | List_TypeError | List_OverflowError
  | List_NotImplementedError | List_MemoryError

text \<open>The result of an operation on a list: its state afterwards, and a value or an exception.\<close>

type_synonym ('a, 'r) outcome = "('a mp_list \<times> (list_error + 'r)) option"

definition LIST_MIN_ALLOC :: nat where
  "LIST_MIN_ALLOC = 4"

section \<open>Arrays\<close>

text \<open>
  \<^verbatim>\<open>m_renew\<close> for objects of four bytes; the size in bytes wraps.  An array that does not grow is cut where it
  is, which cannot fail (\<^verbatim>\<open>gc_realloc\<close>).
\<close>

definition m_renew :: "(nat \<Rightarrow> bool) \<Rightarrow> 'a cell list \<Rightarrow> nat \<Rightarrow> 'a cell list option" where
  "m_renew grant items new_num =
     (let bytes = u32 (4 * new_num); n = bytes div 4
      in if bytes \<le> 4 * length items \<or> grant bytes then Some (take n items @ replicate (n - length items) Unset)
         else None)"

definition mp_seq_clear :: "'a cell list \<Rightarrow> nat \<Rightarrow> nat \<Rightarrow> 'a cell list option" where
  "mp_seq_clear items len alloc_len =
     (if len \<le> alloc_len \<and> alloc_len \<le> length items
      then Some (take len items @ replicate (alloc_len - len) No_Obj @ drop alloc_len items) else None)"

definition store_cell :: "'a cell list \<Rightarrow> nat \<Rightarrow> 'a cell \<Rightarrow> 'a cell list option" where
  "store_cell items i c = (if i < length items then Some (items[i := c]) else None)"

definition load_cell :: "'a cell list \<Rightarrow> nat \<Rightarrow> 'a cell option" where
  "load_cell items i = (if i < length items then Some (items ! i) else None)"

definition load_obj :: "'a cell list \<Rightarrow> nat \<Rightarrow> 'a option" where
  "load_obj items i = (case load_cell items i of Some (Obj x) \<Rightarrow> Some x | _ \<Rightarrow> None)"

text \<open>\<^verbatim>\<open>memcpy\<close> and \<^verbatim>\<open>memmove\<close> of cells into an array.\<close>

definition copy_cells :: "'a cell list \<Rightarrow> nat \<Rightarrow> 'a cell list \<Rightarrow> 'a cell list option" where
  "copy_cells items i cs =
     (if i + length cs \<le> length items then Some (take i items @ cs @ drop (i + length cs) items) else None)"

definition cells_from :: "'a cell list \<Rightarrow> nat \<Rightarrow> nat \<Rightarrow> 'a cell list option" where
  "cells_from items i n = (if i + n \<le> length items then Some (take n (drop i items)) else None)"

text \<open>The objects of a range of cells.\<close>

fun cell_objs :: "'a cell list \<Rightarrow> 'a list option" where
  "cell_objs [] = Some []"
| "cell_objs (Obj x # cs) = map_option ((#) x) (cell_objs cs)"
| "cell_objs (_ # cs) = None"

definition list_objs :: "'a mp_list \<Rightarrow> 'a list option" where
  "list_objs self = cells_from (list_items self) 0 (list_len self) \<bind> cell_objs"

section \<open>Indices and slices\<close>

text \<open>An object that is used as an index: an integer object or one that does not convert to an integer.\<close>

datatype index_obj = Index_Int int_obj | Index_Other

fun mp_obj_get_int_maybe :: "index_obj \<Rightarrow> list_error + int option" where
  "mp_obj_get_int_maybe (Index_Int (Truth b)) = Inr (Some (of_bool b))"
| "mp_obj_get_int_maybe (Index_Int (Small v)) = Inr (Some v)"
| "mp_obj_get_int_maybe (Index_Int (Big z)) =
     (case mp_obj_int_get_checked (Big z) of None \<Rightarrow> Inl List_OverflowError | Some v \<Rightarrow> Inr (Some v))"
| "mp_obj_get_int_maybe Index_Other = Inr None"

definition mp_obj_get_int :: "index_obj \<Rightarrow> list_error + int" where
  "mp_obj_get_int arg =
     (case mp_obj_get_int_maybe arg of
        Inl e \<Rightarrow> Inl e
      | Inr None \<Rightarrow> Inl List_TypeError
      | Inr (Some v) \<Rightarrow> Inr v)"

definition mp_get_index :: "nat \<Rightarrow> index_obj \<Rightarrow> bool \<Rightarrow> list_error + nat" where
  "mp_get_index len index is_slice =
     (case mp_obj_get_int_maybe index of
        Inl e \<Rightarrow> Inl e
      | Inr None \<Rightarrow> Inl List_TypeError
      | Inr (Some i) \<Rightarrow>
          (let i = (if i < 0 then s32 (i + int len) else i)
           in if is_slice
              then Inr (if i < 0 then 0 else if i > int len then len else nat i)
              else if i < 0 \<or> i \<ge> int len then Inl List_IndexError else Inr (nat i)))"

text \<open>A slice; \<open>None\<close> is the object None.\<close>

record slice_obj =
  slice_start :: "index_obj option"
  slice_stop :: "index_obj option"
  slice_step :: "index_obj option"

definition slice_step_value :: "slice_obj \<Rightarrow> list_error + int" where
  "slice_step_value self =
     (case slice_step self of
        None \<Rightarrow> Inr 1
      | Some x \<Rightarrow>
          (case mp_obj_get_int x of
             Inl e \<Rightarrow> Inl e
           | Inr step \<Rightarrow> if step = 0 then Inl List_ValueError else Inr step))"

text \<open>A start or a stop: its default, or the value clipped to the bounds \<open>low\<close> and \<open>high\<close>.\<close>

definition slice_bound :: "int \<Rightarrow> int \<Rightarrow> int \<Rightarrow> int \<Rightarrow> index_obj option \<Rightarrow> list_error + int" where
  "slice_bound len low high missing x =
     (case x of
        None \<Rightarrow> Inr missing
      | Some x \<Rightarrow>
          (case mp_obj_get_int x of
             Inl e \<Rightarrow> Inl e
           | Inr v \<Rightarrow> (let v = (if v < 0 then s32 (v + len) else v) in Inr (min high (max v low)))))"

definition mp_obj_slice_indices :: "slice_obj \<Rightarrow> int \<Rightarrow> list_error + int \<times> int \<times> int" where
  "mp_obj_slice_indices self len =
     (case slice_step_value self of
        Inl e \<Rightarrow> Inl e
      | Inr step \<Rightarrow>
          (case (if step > 0 then slice_bound len 0 len 0 (slice_start self)
                 else slice_bound len (- 1) (len - 1) (len - 1) (slice_start self)) of
             Inl e \<Rightarrow> Inl e
           | Inr start \<Rightarrow>
               (case (if step > 0 then slice_bound len 0 len len (slice_stop self)
                      else slice_bound len (- 1) (len - 1) (- 1) (slice_stop self)) of
                  Inl e \<Rightarrow> Inl e
                | Inr stop \<Rightarrow> Inr (start, stop, step))))"

definition mp_seq_get_fast_slice_indexes :: "nat \<Rightarrow> slice_obj \<Rightarrow> list_error + bool \<times> int \<times> int \<times> int" where
  "mp_seq_get_fast_slice_indexes len slc =
     (case mp_obj_slice_indices slc (int len) of
        Inl e \<Rightarrow> Inl e
      | Inr (start, stop, step) \<Rightarrow>
          (let stop = (if step < 0 then stop + 1 else stop);
               stop = (if step > 0 \<and> start > stop then start
                       else if step < 0 \<and> start < stop then start + 1 else stop)
           in Inr (step = 1, start, stop, step)))"

section \<open>New lists, appending\<close>

definition list_new :: "(nat \<Rightarrow> bool) \<Rightarrow> nat \<Rightarrow> (list_error + 'a mp_list) option" where
  "list_new grant n =
     (let alloc = (if n < LIST_MIN_ALLOC then LIST_MIN_ALLOC else n)
      in case m_renew grant [] alloc of
           None \<Rightarrow> Some (Inl List_MemoryError)
         | Some items \<Rightarrow> do {
             items \<leftarrow> mp_seq_clear items n alloc;
             Some (Inr \<lparr>list_alloc = alloc, list_len = n, list_items = items\<rparr>) })"

text \<open>The code copies the objects one by one, or with \<^verbatim>\<open>mp_seq_copy\<close>, into the new array.\<close>

definition list_of_cells :: "(nat \<Rightarrow> bool) \<Rightarrow> nat \<Rightarrow> 'a cell list \<Rightarrow> (list_error + 'a mp_list) option" where
  "list_of_cells grant n cs = do {
     r \<leftarrow> list_new grant n;
     (case r of
        Inl e \<Rightarrow> Some (Inl e)
      | Inr s \<Rightarrow> do {
          items \<leftarrow> copy_cells (list_items s) 0 cs;
          Some (Inr (s\<lparr>list_items := items\<rparr>)) }) }"

definition mp_obj_new_list :: "(nat \<Rightarrow> bool) \<Rightarrow> 'a list \<Rightarrow> (list_error + 'a mp_list) option" where
  "mp_obj_new_list grant xs = list_of_cells grant (length xs) (map Obj xs)"

definition mp_obj_list_append :: "(nat \<Rightarrow> bool) \<Rightarrow> 'a mp_list \<Rightarrow> 'a \<Rightarrow> ('a, unit) outcome" where
  "mp_obj_list_append grant self arg =
     (if list_len self \<ge> list_alloc self
      then (case m_renew grant (list_items self) (u32 (list_alloc self * 2)) of
              None \<Rightarrow> Some (self, Inl List_MemoryError)
            | Some items \<Rightarrow>
                (let alloc = u32 (list_alloc self * 2)
                 in do {
                      items \<leftarrow> mp_seq_clear items (list_len self + 1) alloc;
                      items \<leftarrow> store_cell items (list_len self) (Obj arg);
                      Some (\<lparr>list_alloc = alloc, list_len = list_len self + 1, list_items = items\<rparr>, Inr ()) }))
      else do {
        items \<leftarrow> store_cell (list_items self) (list_len self) (Obj arg);
        Some (self\<lparr>list_len := list_len self + 1, list_items := items\<rparr>, Inr ()) })"

text \<open>The items that an iterator gives.\<close>

fun list_extend_from_iter :: "(nat \<Rightarrow> bool) \<Rightarrow> 'a mp_list \<Rightarrow> 'a list \<Rightarrow> ('a, unit) outcome" where
  "list_extend_from_iter grant self [] = Some (self, Inr ())"
| "list_extend_from_iter grant self (x # xs) = do {
     (self, r) \<leftarrow> mp_obj_list_append grant self x;
     (case r of
        Inl e \<Rightarrow> Some (self, Inl e)
      | Inr _ \<Rightarrow> list_extend_from_iter grant self xs) }"

definition mp_obj_list_make_new :: "(nat \<Rightarrow> bool) \<Rightarrow> 'a list option \<Rightarrow> (list_error + 'a mp_list) option" where
  "mp_obj_list_make_new grant arg =
     (case arg of
        None \<Rightarrow> mp_obj_new_list grant []
      | Some iterable \<Rightarrow> do {
          r \<leftarrow> mp_obj_new_list grant [];
          (case r of
             Inl e \<Rightarrow> Some (Inl e)
           | Inr s \<Rightarrow> do {
               (s, r) \<leftarrow> list_extend_from_iter grant s iterable;
               Some (case r of Inl e \<Rightarrow> Inl e | Inr _ \<Rightarrow> Inr s) }) })"

text \<open>
  Another operand: the list itself, another list, something else to iterate over, or an object that
  can at most be converted to an integer.
\<close>

datatype 'a operand = Same_List | Other_List "'a mp_list" | Iterable "'a list" | Single_Obj index_obj

definition list_extend_list :: "(nat \<Rightarrow> bool) \<Rightarrow> 'a mp_list \<Rightarrow> nat \<Rightarrow> ('a cell list \<Rightarrow> 'a cell list option) \<Rightarrow> ('a, unit) outcome" where
  "list_extend_list grant self arg_len arg_cells =
     (let len = list_len self;
          grown = (if u32 (len + arg_len) > list_alloc self
            then (case m_renew grant (list_items self) (u32 (len + arg_len + 4)) of
                    None \<Rightarrow> Some (Inl List_MemoryError)
                  | Some items \<Rightarrow> do {
                      items \<leftarrow> mp_seq_clear items (u32 (len + arg_len)) (u32 (len + arg_len + 4));
                      Some (Inr (self\<lparr>list_items := items, list_alloc := u32 (len + arg_len + 4)\<rparr>)) })
            else Some (Inr self))
      in do {
        r \<leftarrow> grown;
        (case r of
           Inl e \<Rightarrow> Some (self, Inl e)
         | Inr self \<Rightarrow> do {
             cs \<leftarrow> arg_cells (list_items self);
             items \<leftarrow> copy_cells (list_items self) len cs;
             Some (self\<lparr>list_items := items, list_len := u32 (len + arg_len)\<rparr>, Inr ()) }) })"

text \<open>The items of the list itself are read after its array may have moved.\<close>

definition list_extend :: "(nat \<Rightarrow> bool) \<Rightarrow> 'a mp_list \<Rightarrow> 'a operand \<Rightarrow> ('a, unit) outcome" where
  "list_extend grant self arg =
     (case arg of
        Same_List \<Rightarrow> list_extend_list grant self (list_len self) (\<lambda>items. cells_from items 0 (list_len self))
      | Other_List p \<Rightarrow> list_extend_list grant self (list_len p) (\<lambda>_. cells_from (list_items p) 0 (list_len p))
      | Iterable xs \<Rightarrow> list_extend_from_iter grant self xs
      | Single_Obj _ \<Rightarrow> Some (self, Inl List_TypeError))"

section \<open>Removing, storing, inserting\<close>

definition list_pop :: "(nat \<Rightarrow> bool) \<Rightarrow> 'a mp_list \<Rightarrow> index_obj option \<Rightarrow> ('a, 'a) outcome" where
  "list_pop grant self arg =
     (if list_len self = 0 then Some (self, Inl List_IndexError)
      else case mp_get_index (list_len self) (case arg of None \<Rightarrow> Index_Int (Small (- 1)) | Some x \<Rightarrow> x) False of
             Inl e \<Rightarrow> Some (self, Inl e)
           | Inr index \<Rightarrow> do {
               ret \<leftarrow> load_obj (list_items self) index;
               let len = list_len self - 1;
               cs \<leftarrow> cells_from (list_items self) (index + 1) (len - index);
               items \<leftarrow> copy_cells (list_items self) index cs;
               items \<leftarrow> store_cell items len No_Obj;
               let popped = self\<lparr>list_len := len, list_items := items\<rparr>;
               if list_alloc self > LIST_MIN_ALLOC \<and> list_alloc self > 2 * len
               then (case m_renew grant items (list_alloc self div 2) of
                       None \<Rightarrow> Some (popped, Inl List_MemoryError)
                     | Some items \<Rightarrow> Some (popped\<lparr>list_items := items, list_alloc := list_alloc self div 2\<rparr>, Inr ret))
               else Some (popped, Inr ret) })"

definition mp_obj_list_pop :: "(nat \<Rightarrow> bool) \<Rightarrow> 'a mp_list \<Rightarrow> index_obj \<Rightarrow> ('a, 'a) outcome" where
  "mp_obj_list_pop grant self index = list_pop grant self (Some index)"

definition mp_obj_list_store :: "'a mp_list \<Rightarrow> index_obj \<Rightarrow> 'a \<Rightarrow> ('a, unit) outcome" where
  "mp_obj_list_store self index value =
     (case mp_get_index (list_len self) index False of
        Inl e \<Rightarrow> Some (self, Inl e)
      | Inr i \<Rightarrow> do {
          items \<leftarrow> store_cell (list_items self) i (Obj value);
          Some (self\<lparr>list_items := items\<rparr>, Inr ()) })"

text \<open>
  The index of \<open>insert\<close> is not converted: \<^verbatim>\<open>MP_OBJ_SMALL_INT_VALUE\<close> shifts the object, which for an
  object that is not a small integer is its address; \<open>addr\<close> gives the word.
\<close>

definition raw_small_int_value :: "(index_obj \<Rightarrow> 32 word) \<Rightarrow> index_obj \<Rightarrow> int" where
  "raw_small_int_value addr idx =
     (case idx of Index_Int (Small v) \<Rightarrow> v | _ \<Rightarrow> sint (mp_obj_small_int_value (addr idx)))"

fun shift_up :: "nat \<Rightarrow> nat \<Rightarrow> 'a cell list \<Rightarrow> 'a cell list option" where
  "shift_up i index items =
     (if i > index then do {
        c \<leftarrow> load_cell items (i - 1);
        items \<leftarrow> store_cell items i c;
        shift_up (i - 1) index items }
      else Some items)"

declare shift_up.simps [simp del]

definition insert_index :: "nat \<Rightarrow> int \<Rightarrow> nat" where
  "insert_index len index =
     (let index = (if index < 0 then s32 (index + int len) else index);
          index = (if index < 0 then 0 else index)
      in if index > int len then len else nat index)"

definition list_insert ::
  "(nat \<Rightarrow> bool) \<Rightarrow> (index_obj \<Rightarrow> 32 word) \<Rightarrow> 'a \<Rightarrow> 'a mp_list \<Rightarrow> index_obj \<Rightarrow> 'a \<Rightarrow> ('a, unit) outcome" where
  "list_insert grant addr none self idx obj =
     (let index = insert_index (list_len self) (raw_small_int_value addr idx)
      in do {
        (self, r) \<leftarrow> mp_obj_list_append grant self none;
        (case r of
           Inl e \<Rightarrow> Some (self, Inl e)
         | Inr _ \<Rightarrow> do {
             items \<leftarrow> shift_up (list_len self - 1) index (list_items self);
             items \<leftarrow> store_cell items index (Obj obj);
             Some (self\<lparr>list_items := items\<rparr>, Inr ()) }) })"

definition list_clear :: "(nat \<Rightarrow> bool) \<Rightarrow> 'a mp_list \<Rightarrow> ('a, unit) outcome" where
  "list_clear grant self =
     (let self = self\<lparr>list_len := 0\<rparr>
      in case m_renew grant (list_items self) LIST_MIN_ALLOC of
           None \<Rightarrow> Some (self, Inl List_MemoryError)
         | Some items \<Rightarrow> do {
             items \<leftarrow> mp_seq_clear items 0 LIST_MIN_ALLOC;
             Some (self\<lparr>list_items := items, list_alloc := LIST_MIN_ALLOC\<rparr>, Inr ()) })"

definition list_copy :: "(nat \<Rightarrow> bool) \<Rightarrow> 'a mp_list \<Rightarrow> (list_error + 'a mp_list) option" where
  "list_copy grant self = do {
     cs \<leftarrow> cells_from (list_items self) 0 (list_len self);
     list_of_cells grant (list_len self) cs }"

text \<open>The loop of \<open>list_reverse\<close> from \<open>i\<close> on.\<close>

function reverse_loop :: "nat \<Rightarrow> nat \<Rightarrow> 'a cell list \<Rightarrow> 'a cell list option" where
  "reverse_loop i len items =
     (if i < len div 2 then do {
        a \<leftarrow> load_cell items i;
        b \<leftarrow> load_cell items (len - i - 1);
        items \<leftarrow> store_cell items i b;
        items \<leftarrow> store_cell items (len - i - 1) a;
        reverse_loop (i + 1) len items }
      else Some items)"
  by pat_completeness auto

termination reverse_loop
  by (relation "measure (\<lambda>(i, len, items). len - i)") auto

declare reverse_loop.simps [simp del]

definition list_reverse :: "'a mp_list \<Rightarrow> ('a, unit) outcome" where
  "list_reverse self = do {
     items \<leftarrow> reverse_loop 0 (list_len self) (list_items self);
     Some (self\<lparr>list_items := items\<rparr>, Inr ()) }"

section \<open>Searching\<close>

definition find_index :: "('a \<Rightarrow> 'a \<Rightarrow> bool) \<Rightarrow> 'a list \<Rightarrow> 'a \<Rightarrow> nat \<Rightarrow> nat \<Rightarrow> nat option" where
  "find_index eq xs value start stop = find (\<lambda>i. eq (xs ! i) value) [start..<stop]"

definition mp_seq_index_obj ::
  "('a \<Rightarrow> 'a \<Rightarrow> bool) \<Rightarrow> 'a list \<Rightarrow> 'a \<Rightarrow> index_obj option \<Rightarrow> index_obj option \<Rightarrow> list_error + nat" where
  "mp_seq_index_obj eq xs value a2 a3 =
     (case (case a2 of None \<Rightarrow> Inr 0 | Some x \<Rightarrow> mp_get_index (length xs) x True) of
        Inl e \<Rightarrow> Inl e
      | Inr start \<Rightarrow>
          (case (case a3 of None \<Rightarrow> Inr (length xs) | Some x \<Rightarrow> mp_get_index (length xs) x True) of
             Inl e \<Rightarrow> Inl e
           | Inr stop \<Rightarrow>
               (case find_index eq xs value start stop of
                  None \<Rightarrow> Inl List_ValueError
                | Some i \<Rightarrow> Inr i)))"

definition list_index ::
  "('a \<Rightarrow> 'a \<Rightarrow> bool) \<Rightarrow> 'a mp_list \<Rightarrow> 'a \<Rightarrow> index_obj option \<Rightarrow> index_obj option \<Rightarrow> (list_error + nat) option" where
  "list_index eq self value a2 a3 =
     map_option (\<lambda>xs. mp_seq_index_obj eq xs value a2 a3) (list_objs self)"

fun mp_seq_count_obj :: "('a \<Rightarrow> 'a \<Rightarrow> bool) \<Rightarrow> 'a list \<Rightarrow> 'a \<Rightarrow> nat" where
  "mp_seq_count_obj eq [] value = 0"
| "mp_seq_count_obj eq (x # xs) value = (if eq x value then 1 else 0) + mp_seq_count_obj eq xs value"

definition list_count :: "('a \<Rightarrow> 'a \<Rightarrow> bool) \<Rightarrow> 'a mp_list \<Rightarrow> 'a \<Rightarrow> nat option" where
  "list_count eq self value = map_option (\<lambda>xs. mp_seq_count_obj eq xs value) (list_objs self)"

definition mp_obj_list_remove ::
  "(nat \<Rightarrow> bool) \<Rightarrow> ('a \<Rightarrow> 'a \<Rightarrow> bool) \<Rightarrow> 'a mp_list \<Rightarrow> 'a \<Rightarrow> ('a, unit) outcome" where
  "mp_obj_list_remove grant eq self value = do {
     r \<leftarrow> list_index eq self value None None;
     (case r of
        Inl e \<Rightarrow> Some (self, Inl e)
      | Inr i \<Rightarrow> do {
          (self, r) \<leftarrow> list_pop grant self (Some (Index_Int (new_small_int (int i))));
          Some (self, case r of Inl e \<Rightarrow> Inl e | Inr _ \<Rightarrow> Inr ()) }) }"

text \<open>The sort gets the objects of the list; it cannot touch another cell.\<close>

definition mp_obj_list_sort ::
  "('a \<Rightarrow> list_error + 'k) \<Rightarrow> ('k \<Rightarrow> 'k \<Rightarrow> list_error + bool) \<Rightarrow> bool \<Rightarrow> 'a mp_list \<Rightarrow> ('a, unit) outcome" where
  "mp_obj_list_sort key lt reversed self =
     (if list_len self > 1 then do {
        xs \<leftarrow> list_objs self;
        (ys, r) \<leftarrow> mp_quicksort key lt (\<not> reversed) xs 0 (int (list_len self) - 1);
        items \<leftarrow> copy_cells (list_items self) 0 (map Obj ys);
        Some (self\<lparr>list_items := items\<rparr>, r) }
      else Some (self, Inr ()))"

section \<open>Operators\<close>

text \<open>\<open>rel op x y\<close>: whether the operator \<open>op\<close> gives true on two elements, or what it raises.\<close>

fun cmp_loop ::
  "binary_operator \<Rightarrow> ('a \<Rightarrow> 'a \<Rightarrow> bool) \<Rightarrow> (binary_operator \<Rightarrow> 'a \<Rightarrow> 'a \<Rightarrow> list_error + bool) \<Rightarrow>
   'a list \<Rightarrow> 'a list \<Rightarrow> (list_error + bool) option" where
  "cmp_loop op eq rel (x # xs) (y # ys) =
     (if eq x y then cmp_loop op eq rel xs ys
      else if op = BINARY_EQUAL then Some (Inr False)
      else Some (rel op x y))"
| "cmp_loop op eq rel _ _ = None"

definition mp_seq_cmp_objs ::
  "binary_operator \<Rightarrow> ('a \<Rightarrow> 'a \<Rightarrow> bool) \<Rightarrow> (binary_operator \<Rightarrow> 'a \<Rightarrow> 'a \<Rightarrow> list_error + bool) \<Rightarrow>
   'a list \<Rightarrow> 'a list \<Rightarrow> list_error + bool" where
  "mp_seq_cmp_objs op eq rel items1 items2 =
     (if op = BINARY_EQUAL \<and> length items1 \<noteq> length items2 then Inr False
      else let (op, items1, items2) =
                 (if op = BINARY_LESS then (BINARY_MORE, items2, items1)
                  else if op = BINARY_LESS_EQUAL then (BINARY_MORE_EQUAL, items2, items1)
                  else (op, items1, items2))
           in case cmp_loop op eq rel items1 items2 of
                Some r \<Rightarrow> r
              | None \<Rightarrow>
                  if length items1 \<noteq> length items2 then Inr (\<not> length items1 < length items2)
                  else Inr (op \<noteq> BINARY_MORE))"

text \<open>\<^verbatim>\<open>mp_seq_multiply\<close>: \<open>n\<close> copies of the items, one behind the other.\<close>

fun mp_seq_multiply :: "'a cell list \<Rightarrow> nat \<Rightarrow> 'a cell list \<Rightarrow> nat \<Rightarrow> 'a cell list option" where
  "mp_seq_multiply items 0 dest i = Some dest"
| "mp_seq_multiply items (Suc n) dest i = do {
     dest \<leftarrow> copy_cells dest i items;
     mp_seq_multiply items n dest (i + length items) }"

datatype 'a list_result = New_List "'a mp_list" | Truth_Value bool | This_List | Unsupported

definition new_list_result :: "'a mp_list \<Rightarrow> (list_error + 'a mp_list) option \<Rightarrow> ('a, 'a list_result) outcome" where
  "new_list_result self r =
     map_option (\<lambda>r. (self, case r of Inl e \<Rightarrow> Inl e | Inr s \<Rightarrow> Inr (New_List s))) r"

definition list_add :: "(nat \<Rightarrow> bool) \<Rightarrow> 'a mp_list \<Rightarrow> 'a mp_list \<Rightarrow> (list_error + 'a mp_list) option" where
  "list_add grant o1 p = do {
     r \<leftarrow> list_new grant (u32 (list_len o1 + list_len p));
     (case r of
        Inl e \<Rightarrow> Some (Inl e)
      | Inr s \<Rightarrow> do {
          cs \<leftarrow> cells_from (list_items o1) 0 (list_len o1);
          ds \<leftarrow> cells_from (list_items p) 0 (list_len p);
          items \<leftarrow> copy_cells (list_items s) 0 cs;
          items \<leftarrow> copy_cells items (list_len o1) ds;
          Some (Inr (s\<lparr>list_items := items\<rparr>)) }) }"

definition list_multiply :: "(nat \<Rightarrow> bool) \<Rightarrow> 'a mp_list \<Rightarrow> int \<Rightarrow> (list_error + 'a mp_list) option" where
  "list_multiply grant o1 n =
     (let n = nat (if n < 0 then 0 else n)
      in do {
        r \<leftarrow> list_new grant (u32 (list_len o1 * n));
        (case r of
           Inl e \<Rightarrow> Some (Inl e)
         | Inr s \<Rightarrow> do {
             cs \<leftarrow> cells_from (list_items o1) 0 (list_len o1);
             items \<leftarrow> mp_seq_multiply cs n (list_items s) 0;
             Some (Inr (s\<lparr>list_items := items\<rparr>)) }) })"

definition list_compare ::
  "('a \<Rightarrow> 'a \<Rightarrow> bool) \<Rightarrow> (binary_operator \<Rightarrow> 'a \<Rightarrow> 'a \<Rightarrow> list_error + bool) \<Rightarrow> binary_operator \<Rightarrow>
   'a mp_list \<Rightarrow> 'a mp_list \<Rightarrow> (list_error + bool) option" where
  "list_compare eq rel op o1 o2 = do {
     xs \<leftarrow> list_objs o1;
     ys \<leftarrow> list_objs o2;
     Some (mp_seq_cmp_objs op eq rel xs ys) }"

definition is_comparison :: "binary_operator \<Rightarrow> bool" where
  "is_comparison op \<longleftrightarrow> op \<in> {BINARY_EQUAL, BINARY_LESS, BINARY_LESS_EQUAL, BINARY_MORE, BINARY_MORE_EQUAL}"

definition list_binary_op ::
  "(nat \<Rightarrow> bool) \<Rightarrow> ('a \<Rightarrow> 'a \<Rightarrow> bool) \<Rightarrow> (binary_operator \<Rightarrow> 'a \<Rightarrow> 'a \<Rightarrow> list_error + bool) \<Rightarrow> binary_operator \<Rightarrow>
   'a mp_list \<Rightarrow> 'a operand \<Rightarrow> ('a, 'a list_result) outcome" where
  "list_binary_op grant eq rel op lhs rhs =
     (let list_rhs = (case rhs of Same_List \<Rightarrow> Some lhs | Other_List p \<Rightarrow> Some p | _ \<Rightarrow> None)
      in if op = BINARY OP_ADD then
           (case list_rhs of
              None \<Rightarrow> Some (lhs, Inr Unsupported)
            | Some p \<Rightarrow> new_list_result lhs (list_add grant lhs p))
         else if op = INPLACE OP_ADD then
           map_option (\<lambda>(s, r). (s, case r of Inl e \<Rightarrow> Inl e | Inr _ \<Rightarrow> Inr This_List)) (list_extend grant lhs rhs)
         else if op = BINARY OP_MULTIPLY then
           (case rhs of
              Single_Obj x \<Rightarrow>
                (case mp_obj_get_int_maybe x of
                   Inl e \<Rightarrow> Some (lhs, Inl e)
                 | Inr None \<Rightarrow> Some (lhs, Inr Unsupported)
                 | Inr (Some n) \<Rightarrow> new_list_result lhs (list_multiply grant lhs n))
            | _ \<Rightarrow> Some (lhs, Inr Unsupported))
         else if is_comparison op then
           (case list_rhs of
              None \<Rightarrow> Some (lhs, Inr (if op = BINARY_EQUAL then Truth_Value False else Unsupported))
            | Some p \<Rightarrow> map_option (\<lambda>r. (lhs, case r of Inl e \<Rightarrow> Inl e | Inr b \<Rightarrow> Inr (Truth_Value b))) (list_compare eq rel op lhs p))
         else Some (lhs, Inr Unsupported))"

section \<open>Subscripts\<close>

text \<open>The loops of \<open>mp_seq_extract_slice\<close>; the sum of the position and the step wraps.\<close>

partial_function (option) extract_loop ::
  "(nat \<Rightarrow> bool) \<Rightarrow> 'a cell list \<Rightarrow> int \<Rightarrow> int \<Rightarrow> int \<Rightarrow> 'a mp_list \<Rightarrow> (list_error + 'a mp_list) option" where
  "extract_loop grant seq start stop step res =
     (if (if step < 0 then start \<ge> stop else start < stop)
      then do {
        x \<leftarrow> (if start < 0 then None else load_obj seq (nat start));
        (res, r) \<leftarrow> mp_obj_list_append grant res x;
        (case r of
           Inl e \<Rightarrow> Some (Inl e)
         | Inr _ \<Rightarrow> extract_loop grant seq (s32 (start + step)) stop step res) }
      else Some (Inr res))"

definition mp_seq_extract_slice ::
  "(nat \<Rightarrow> bool) \<Rightarrow> 'a cell list \<Rightarrow> int \<Rightarrow> int \<Rightarrow> int \<Rightarrow> (list_error + 'a mp_list) option" where
  "mp_seq_extract_slice grant seq start stop step = do {
     r \<leftarrow> mp_obj_new_list grant [];
     (case r of
        Inl e \<Rightarrow> Some (Inl e)
      | Inr res \<Rightarrow> extract_loop grant seq start stop step res) }"

definition list_load_slice :: "(nat \<Rightarrow> bool) \<Rightarrow> 'a mp_list \<Rightarrow> slice_obj \<Rightarrow> (list_error + 'a mp_list) option" where
  "list_load_slice grant self index =
     (case mp_seq_get_fast_slice_indexes (list_len self) index of
        Inl e \<Rightarrow> Some (Inl e)
      | Inr (fast, start, stop, step) \<Rightarrow>
          if \<not> fast then mp_seq_extract_slice grant (list_items self) start stop step
          else do {
            cs \<leftarrow> cells_from (list_items self) (nat start) (nat (stop - start));
            list_of_cells grant (nat (stop - start)) cs })"

text \<open>\<^verbatim>\<open>mp_seq_replace_slice_no_grow\<close>, then the free cells are cleared.\<close>

definition replace_no_grow :: "'a mp_list \<Rightarrow> nat \<Rightarrow> nat \<Rightarrow> 'a cell list \<Rightarrow> nat \<Rightarrow> 'a mp_list option" where
  "replace_no_grow self start stop value new_len = do {
     items \<leftarrow> copy_cells (list_items self) start value;
     cs \<leftarrow> cells_from items stop (list_len self - stop);
     items \<leftarrow> copy_cells items (start + length value) cs;
     items \<leftarrow> mp_seq_clear items new_len (list_len self);
     Some (self\<lparr>list_items := items, list_len := new_len\<rparr>) }"

definition list_delete_slice :: "'a mp_list \<Rightarrow> slice_obj \<Rightarrow> ('a, unit) outcome" where
  "list_delete_slice self index =
     (case mp_seq_get_fast_slice_indexes (list_len self) index of
        Inl e \<Rightarrow> Some (self, Inl e)
      | Inr (fast, start, stop, step) \<Rightarrow>
          if \<not> fast then Some (self, Inl List_NotImplementedError)
          else let len_adj = start - stop
               in map_option (\<lambda>self. (self, Inr ()))
                    (replace_no_grow self (nat start) (nat stop) [] (nat (int (list_len self) + len_adj))))"

text \<open>
  The value that is stored in a slice, as \<open>mp_obj_get_array\<close> takes it: the list itself, whose array is the one
  that is changed; another list or a tuple with its items; and what is neither, with or without items.
\<close>

datatype 'a store_array = Own_Array | Array "'a list" | Iterable_Array "'a list" | Not_Iterable

text \<open>
  \<^verbatim>\<open>mp_seq_replace_slice_grow_inplace\<close> moves the end of the list first.  The list's own items are then
  read through the pointer that was taken before the array was enlarged: if it has moved (\<open>moves n\<close>: a
  request of \<open>n\<close> bytes moves the array), from the old block, which the collector has freed but not changed.
\<close>

definition store_cells :: "'a mp_list \<Rightarrow> bool \<Rightarrow> 'a cell list \<Rightarrow> 'a store_array \<Rightarrow> 'a cell list option" where
  "store_cells self moved items value =
     (case value of
        Own_Array \<Rightarrow> cells_from (if moved then list_items self else items) 0 (list_len self)
      | Array xs \<Rightarrow> Some (map Obj xs)
      | _ \<Rightarrow> None)"

definition replace_grow ::
  "(nat \<Rightarrow> bool) \<Rightarrow> (nat \<Rightarrow> bool) \<Rightarrow> 'a mp_list \<Rightarrow> nat \<Rightarrow> nat \<Rightarrow> 'a store_array \<Rightarrow> nat \<Rightarrow> nat \<Rightarrow> ('a, unit) outcome" where
  "replace_grow grant moves self0 start stop value value_len new_len =
     (let grows = new_len > list_alloc self0;
          grown = (if grows
            then (case m_renew grant (list_items self0) new_len of
                    None \<Rightarrow> Inl List_MemoryError
                  | Some items \<Rightarrow> Inr (self0\<lparr>list_items := items, list_alloc := new_len\<rparr>))
            else Inr self0)
      in case grown of
           Inl e \<Rightarrow> Some (self0, Inl e)
         | Inr self \<Rightarrow> do {
             cs \<leftarrow> cells_from (list_items self) stop (new_len - (start + value_len));
             items \<leftarrow> copy_cells (list_items self) (start + value_len) cs;
             vs \<leftarrow> store_cells self0 (grows \<and> moves (4 * new_len)) items value;
             items \<leftarrow> copy_cells items start vs;
             Some (self\<lparr>list_items := items, list_len := new_len\<rparr>, Inr ()) })"

definition list_store_slice ::
  "(nat \<Rightarrow> bool) \<Rightarrow> (nat \<Rightarrow> bool) \<Rightarrow> 'a mp_list \<Rightarrow> slice_obj \<Rightarrow> 'a store_array \<Rightarrow> ('a, unit) outcome" where
  "list_store_slice grant moves self index value =
     (case (case value of Own_Array \<Rightarrow> Some (list_len self) | Array xs \<Rightarrow> Some (length xs) | _ \<Rightarrow> None) of
        None \<Rightarrow> Some (self, Inl List_TypeError)
      | Some value_len \<Rightarrow>
          (case mp_seq_get_fast_slice_indexes (list_len self) index of
             Inl e \<Rightarrow> Some (self, Inl e)
           | Inr (fast, start, stop, step) \<Rightarrow>
               if \<not> fast then Some (self, Inl List_NotImplementedError)
               else let len_adj = s32 (int value_len - (stop - start));
                        new_len = nat (int (list_len self) + len_adj)
                    in if len_adj > 0 then replace_grow grant moves self (nat start) (nat stop) value value_len new_len
                       else do {
                         vs \<leftarrow> store_cells self False (list_items self) value;
                         self \<leftarrow> replace_no_grow self (nat start) (nat stop) vs new_len;
                         Some (self, Inr ()) }))"

text \<open>
  The value of \<open>list_subscr\<close>: the null object deletes, the sentinel loads; another value is stored, with
  its items where it has some.
\<close>

datatype subscript = Index index_obj | Slice slice_obj

datatype 'a subscr_value = Subscr_Delete | Subscr_Load | Subscr_Store 'a "'a store_array"

datatype 'a subscr_result = Subscr_None | Subscr_Obj 'a | Subscr_List "'a mp_list"

definition subscr_outcome :: "('r \<Rightarrow> 'a subscr_result) \<Rightarrow> ('a, 'r) outcome \<Rightarrow> ('a, 'a subscr_result) outcome" where
  "subscr_outcome f r = map_option (\<lambda>(s, r). (s, case r of Inl e \<Rightarrow> Inl e | Inr x \<Rightarrow> Inr (f x))) r"

definition list_subscr ::
  "(nat \<Rightarrow> bool) \<Rightarrow> (nat \<Rightarrow> bool) \<Rightarrow> 'a mp_list \<Rightarrow> subscript \<Rightarrow> 'a subscr_value \<Rightarrow> ('a, 'a subscr_result) outcome" where
  "list_subscr grant moves self index value =
     (case value of
        Subscr_Delete \<Rightarrow>
          (case index of
             Slice s \<Rightarrow> subscr_outcome (\<lambda>_. Subscr_None) (list_delete_slice self s)
           | Index i \<Rightarrow> subscr_outcome (\<lambda>_. Subscr_None) (list_pop grant self (Some i)))
      | Subscr_Load \<Rightarrow>
          (case index of
             Slice s \<Rightarrow> subscr_outcome Subscr_List (map_option (Pair self) (list_load_slice grant self s))
           | Index i \<Rightarrow>
               (case mp_get_index (list_len self) i False of
                  Inl e \<Rightarrow> Some (self, Inl e)
                | Inr k \<Rightarrow> map_option (\<lambda>x. (self, Inr (Subscr_Obj x))) (load_obj (list_items self) k)))
      | Subscr_Store x xs \<Rightarrow>
          (case index of
             Slice s \<Rightarrow> subscr_outcome (\<lambda>_. Subscr_None) (list_store_slice grant moves self s xs)
           | Index i \<Rightarrow> subscr_outcome (\<lambda>_. Subscr_None) (mp_obj_list_store self i x)))"

section \<open>The iterator\<close>

text \<open>The next object and the new position; \<open>None\<close> inside is the end of the iteration.\<close>

definition list_it_iternext :: "'a mp_list \<Rightarrow> nat \<Rightarrow> ('a option \<times> nat) option" where
  "list_it_iternext l cur =
     (if cur < list_len l then map_option (\<lambda>x. (Some x, cur + 1)) (load_obj (list_items l) cur)
      else Some (None, cur))"

definition list_unary_bool :: "'a mp_list \<Rightarrow> bool" where
  "list_unary_bool self \<longleftrightarrow> list_len self \<noteq> 0"

definition list_unary_len :: "'a mp_list \<Rightarrow> int_obj" where
  "list_unary_len self = new_small_int (int (list_len self))"

end
