(* ===== verification/ListLaws.thy ===== *)
theory ListLaws
  imports PyList
begin

text \<open>
  The laws of the list operations: the list of objects that an array stands for, and what each operation
  does to it: new lists, appending, indices, removing and storing, inserting, reversing, extending,
  concatenating and repeating.
\<close>

section \<open>The abstract list\<close>

text \<open>
  The array holds the objects of the list and null objects behind them.  The allocator can serve less than
  1 GB, so that no size of an array that exists wraps.
\<close>

definition list_rep :: "'a mp_list \<Rightarrow> 'a list \<Rightarrow> bool" where
  "list_rep self xs \<longleftrightarrow>
     list_items self = map Obj xs @ replicate (list_alloc self - length xs) No_Obj
     \<and> list_len self = length xs \<and> length xs \<le> list_alloc self
     \<and> 2 \<le> list_alloc self \<and> list_alloc self < 2 ^ 28"

definition grant_ok :: "(nat \<Rightarrow> bool) \<Rightarrow> bool" where
  "grant_ok grant \<longleftrightarrow> (\<forall>n. grant n \<longrightarrow> n < 2 ^ 30)"

text \<open>
  The allocator refused a request that is not larger than an array of twice \<open>n\<close> objects and a few more.
\<close>

definition refused :: "(nat \<Rightarrow> bool) \<Rightarrow> nat \<Rightarrow> bool" where
  "refused grant n \<longleftrightarrow> (\<exists>k \<le> 8 * n + 16. \<not> grant k)"

lemma refusedI: "\<not> grant k \<Longrightarrow> k \<le> 8 * n + 16 \<Longrightarrow> refused grant n"
  by (auto simp: refused_def)

lemma refused_new: "\<not> grant (4 * max 4 n) \<Longrightarrow> refused grant n"
  by (erule refusedI) (simp add: max_def)

lemma refused_mono: "refused grant m \<Longrightarrow> m \<le> n \<Longrightarrow> refused grant n"
  unfolding refused_def by (meson add_le_mono1 le_trans mult_le_mono2)

text \<open>
  The operation leaves the list \<open>ys\<close> and gives \<open>r\<close>; or memory for a list of that length was refused, and
  it raises \<open>MemoryError\<close> with a list of \<open>F\<close> left.
\<close>

definition behaves ::
  "(nat \<Rightarrow> bool) \<Rightarrow> ('a, 'r) outcome \<Rightarrow> 'a list \<Rightarrow> list_error + 'r \<Rightarrow> 'a list set \<Rightarrow> bool" where
  "behaves grant res ys r F \<longleftrightarrow>
     (\<exists>self q. res = Some (self, q)
        \<and> (list_rep self ys \<and> q = r
           \<or> q = Inl List_MemoryError \<and> refused grant (length ys) \<and> (\<exists>zs \<in> F. list_rep self zs)))"

definition gives_list :: "(nat \<Rightarrow> bool) \<Rightarrow> (list_error + 'a mp_list) option \<Rightarrow> 'a list \<Rightarrow> bool" where
  "gives_list grant res ys \<longleftrightarrow>
     (\<exists>q. res = Some q \<and> ((\<exists>s. q = Inr s \<and> list_rep s ys) \<or> q = Inl List_MemoryError \<and> refused grant (length ys)))"

lemma list_repD:
  assumes "list_rep self xs"
  shows "list_items self = map Obj xs @ replicate (list_alloc self - length xs) No_Obj"
    "list_len self = length xs" "length xs \<le> list_alloc self" "2 \<le> list_alloc self" "list_alloc self < 2 ^ 28"
    "length (list_items self) = list_alloc self"
  using assms by (auto simp: list_rep_def)

lemma list_repI:
  assumes "items = map Obj xs @ replicate (n - length xs) No_Obj" "l = length xs" "length xs \<le> n"
    "2 \<le> n" "n < 2 ^ 28"
  shows "list_rep \<lparr>list_alloc = n, list_len = l, list_items = items\<rparr> xs"
  using assms by (simp add: list_rep_def)

lemma list_rep_update:
  assumes "list_rep self xs" "length ys \<le> list_alloc self" "items = map Obj ys @ replicate (list_alloc self - length ys) No_Obj"
    "len = length ys"
  shows "list_rep (self\<lparr>list_items := items, list_len := len\<rparr>) ys"
    "list_rep (self\<lparr>list_len := len, list_items := items\<rparr>) ys"
  using assms by (simp_all add: list_rep_def)

lemma list_rep_items:
  assumes "list_rep self xs" "length ys = length xs" "items = map Obj ys @ replicate (list_alloc self - length ys) No_Obj"
  shows "list_rep (self\<lparr>list_items := items\<rparr>) ys"
  using assms by (simp add: list_rep_def)

lemma behaves_mono: "behaves grant res ys r F \<Longrightarrow> F \<subseteq> G \<Longrightarrow> behaves grant res ys r G"
  unfolding behaves_def by blast

text \<open>The abstract list is determined.\<close>

lemma list_rep_unique:
  assumes "list_rep self xs" "list_rep self ys"
  shows "xs = ys"
proof -
  have "map Obj xs = map Obj ys" using assms by (auto simp: list_rep_def)
  then show ?thesis by (rule map_injective) (simp add: inj_def)
qed

section \<open>Arrays\<close>

lemma m_renew_cases:
  assumes "grant_ok grant" "length items < n" "n < 2 ^ 30"
  shows "m_renew grant items n = (if grant (4 * n) then Some (items @ replicate (n - length items) Unset) else None)"
    "grant (4 * n) \<Longrightarrow> n < 2 ^ 28"
  using assms by (auto simp: m_renew_def u32_def Let_def grant_ok_def)

lemma m_renew_shrink: "n \<le> length items \<Longrightarrow> n < 2 ^ 30 \<Longrightarrow> m_renew grant items n = Some (take n items)"
  by (simp add: m_renew_def u32_def Let_def)

lemma load_cell_map [simp]: "i < length xs \<Longrightarrow> load_cell (map Obj xs @ cs) i = Some (Obj (xs ! i))"
  by (simp add: load_cell_def nth_append)

lemma load_obj_map [simp]: "i < length xs \<Longrightarrow> load_obj (map Obj xs @ cs) i = Some (xs ! i)"
  by (simp add: load_obj_def)

lemma cells_from_map: "i + n \<le> length xs \<Longrightarrow> cells_from (map Obj xs @ cs) i n = Some (map Obj (take n (drop i xs)))"
  by (simp add: cells_from_def take_map drop_map)

lemma copy_cells_Some:
  "i + length cs \<le> length items \<Longrightarrow> copy_cells items i cs = Some (take i items @ cs @ drop (i + length cs) items)"
  by (simp add: copy_cells_def)

lemma cell_objs_map [simp]: "cell_objs (map Obj xs) = Some xs"
  by (induction xs) auto

lemma list_objs_rep: "list_rep self xs \<Longrightarrow> list_objs self = Some xs"
  using cells_from_map [of 0 "length xs" xs] by (simp add: list_objs_def list_repD)

section \<open>New lists, appending\<close>

lemma list_new_cases:
  assumes "grant_ok grant" "n < 2 ^ 30"
  shows "\<not> grant (4 * max 4 n) \<and> list_new grant n = Some (Inl List_MemoryError :: list_error + 'a mp_list)
    \<or> grant (4 * max 4 n) \<and> (\<exists>s :: 'a mp_list. list_new grant n = Some (Inr s) \<and> n \<le> list_alloc s \<and> 4 \<le> list_alloc s \<and> list_alloc s < 2 ^ 28
         \<and> list_len s = n \<and> list_items s = replicate n Unset @ replicate (list_alloc s - n) No_Obj)"
proof -
  define a where "a = (if n < LIST_MIN_ALLOC then LIST_MIN_ALLOC else n)"
  have a: "n \<le> a" "4 \<le> a" "a < 2 ^ 30" "max 4 n = a" using assms(2) by (auto simp: a_def LIST_MIN_ALLOC_def)
  have r: "m_renew grant [] a = (if grant (4 * a) then Some (replicate a (Unset :: 'a cell)) else None)"
    "grant (4 * a) \<Longrightarrow> a < 2 ^ 28"
    using m_renew_cases(1) [OF assms(1), of "[] :: 'a cell list" a] m_renew_cases(2) [OF assms(1), of "[] :: 'a cell list" a] a by auto
  show ?thesis
  proof (cases "grant (4 * a)")
    case True
    then have "list_new grant n = Some (Inr \<lparr>list_alloc = a, list_len = n,
        list_items = replicate n (Unset :: 'a cell) @ replicate (a - n) No_Obj\<rparr>)"
      using r(1) a unfolding list_new_def a_def [symmetric] Let_def by (simp add: mp_seq_clear_def min_def)
    then show ?thesis using r(2) [OF True] a True by auto
  next
    case False
    then show ?thesis using r a(4) unfolding list_new_def a_def [symmetric] Let_def by auto
  qed
qed

lemma list_of_cells_gives:
  assumes "grant_ok grant" "length xs < 2 ^ 30"
  shows "gives_list grant (list_of_cells grant (length xs) (map Obj xs)) xs"
  using list_new_cases [OF assms, where 'a = 'a]
proof (elim disjE exE conjE)
  assume "\<not> grant (4 * max 4 (length xs))" "list_new grant (length xs) = Some (Inl List_MemoryError :: list_error + 'a mp_list)"
  then show ?thesis using refused_new [of grant "length xs"] by (simp add: list_of_cells_def gives_list_def)
next
  fix s :: "'a mp_list"
  assume s: "list_new grant (length xs) = Some (Inr s)" "length xs \<le> list_alloc s" "4 \<le> list_alloc s"
    "list_alloc s < 2 ^ 28" "list_len s = length xs"
    "list_items s = replicate (length xs) Unset @ replicate (list_alloc s - length xs) No_Obj"
  have "list_rep (s\<lparr>list_items := map Obj xs @ replicate (list_alloc s - length xs) No_Obj\<rparr>) xs"
    using s by (simp add: list_rep_def)
  then show ?thesis using s(1,5,6) unfolding list_of_cells_def gives_list_def by (simp add: copy_cells_def)
qed

lemma new_list_gives: "grant_ok grant \<Longrightarrow> length xs < 2 ^ 30 \<Longrightarrow> gives_list grant (mp_obj_new_list grant xs) xs"
  unfolding mp_obj_new_list_def by (rule list_of_cells_gives)

lemma list_append_behaves:
  assumes rep: "list_rep self xs" and g: "grant_ok grant"
  shows "behaves grant (mp_obj_list_append grant self x) (xs @ [x]) (Inr ()) {xs}"
proof (cases "list_len self \<ge> list_alloc self")
  case True
  note r = list_repD [OF rep]
  let ?a = "list_alloc self * 2"
  have a: "u32 ?a = ?a" "length xs = list_alloc self" using r True by (auto simp: u32_def)
  have m: "m_renew grant (list_items self) ?a
      = (if grant (4 * ?a) then Some (list_items self @ replicate (list_alloc self) Unset) else None)"
    "grant (4 * ?a) \<Longrightarrow> ?a < 2 ^ 28"
    using m_renew_cases(1) [OF g, of "list_items self" ?a] m_renew_cases(2) [OF g, of "list_items self" ?a] r by auto
  show ?thesis
  proof (cases "grant (4 * ?a)")
    case gr: True
    have it: "(map Obj xs @ replicate (list_alloc self) Unset) = map Obj xs @ Unset # replicate (list_alloc self - 1) Unset"
      using r(4) by (cases "list_alloc self") auto
    have c: "mp_seq_clear (map Obj xs @ Unset # replicate (list_alloc self - 1) Unset) (length xs + 1) ?a
        = Some (map Obj xs @ Unset # replicate (list_alloc self - 1) No_Obj)"
      using r(4) a(2) by (simp add: mp_seq_clear_def)
    have s: "store_cell (map Obj xs @ Unset # replicate (list_alloc self - 1) No_Obj) (length xs) (Obj x)
        = Some (map Obj (xs @ [x]) @ replicate (list_alloc self - 1) No_Obj)"
      by (simp add: store_cell_def list_update_append)
    have "mp_obj_list_append grant self x = Some (\<lparr>list_alloc = ?a, list_len = length xs + 1,
        list_items = map Obj (xs @ [x]) @ replicate (list_alloc self - 1) No_Obj\<rparr>, Inr ())"
      using True gr a m(1) c s r(1,2) it unfolding mp_obj_list_append_def by simp
    moreover have "list_rep \<lparr>list_alloc = ?a, list_len = length xs + 1,
        list_items = map Obj (xs @ [x]) @ replicate (list_alloc self - 1) No_Obj\<rparr> (xs @ [x])"
      by (rule list_repI) (use a r m(2) [OF gr] in auto)
    ultimately show ?thesis unfolding behaves_def by blast
  next
    case False
    have "refused grant (length (xs @ [x]))" using refusedI [of grant "4 * ?a" "length (xs @ [x])"] False a(2) by simp
    then show ?thesis using False True a m rep unfolding behaves_def mp_obj_list_append_def by auto
  qed
next
  case False
  note r = list_repD [OF rep]
  have "list_alloc self - length xs = Suc (list_alloc self - length xs - 1)" using False r(2) by simp
  then have i: "list_items self = map Obj xs @ No_Obj # replicate (list_alloc self - length xs - 1) No_Obj"
    using r(1) by (metis replicate_Suc)
  have s: "store_cell (list_items self) (list_len self) (Obj x)
      = Some (map Obj (xs @ [x]) @ replicate (list_alloc self - length (xs @ [x])) No_Obj)"
    unfolding i r(2) by (simp add: store_cell_def list_update_append)
  show ?thesis unfolding mp_obj_list_append_def behaves_def using False r s
    list_rep_update [OF rep _ refl refl, of "xs @ [x]"] by simp
qed

lemma extend_iter_behaves:
  assumes "list_rep self xs" "grant_ok grant"
  shows "behaves grant (list_extend_from_iter grant self ys) (xs @ ys) (Inr ()) {xs @ take k ys | k. True}"
  using assms(1)
proof (induction ys arbitrary: self xs)
  case Nil
  then show ?case by (auto simp: behaves_def)
next
  case (Cons y ys)
  obtain s q where s: "mp_obj_list_append grant self y = Some (s, q)"
    "list_rep s (xs @ [y]) \<and> q = Inr () \<or> q = Inl List_MemoryError \<and> refused grant (length (xs @ [y])) \<and> list_rep s xs"
    using list_append_behaves [OF Cons.prems assms(2), of y] unfolding behaves_def by auto
  from s(2) show ?case
  proof
    assume q: "list_rep s (xs @ [y]) \<and> q = Inr ()"
    have "behaves grant (list_extend_from_iter grant s ys) (xs @ y # ys) (Inr ()) {(xs @ [y]) @ take k ys | k. True}"
      using Cons.IH [of s "xs @ [y]"] q by simp
    moreover have "{(xs @ [y]) @ take k ys | k. True} \<subseteq> {xs @ take k (y # ys) | k. True}"
      by clarsimp (metis take_Suc_Cons)
    ultimately show ?case using behaves_mono q s(1) by fastforce
  next
    assume q: "q = Inl List_MemoryError \<and> refused grant (length (xs @ [y])) \<and> list_rep s xs"
    then have "refused grant (length (xs @ y # ys))" using refused_mono by fastforce
    moreover have "xs \<in> {xs @ take k (y # ys) | k. True}" by (auto intro: exI [of _ 0])
    then have "\<exists>zs \<in> {xs @ take k (y # ys) | k. True}. list_rep s zs" using q by blast
    ultimately show ?case using q s(1) unfolding behaves_def by simp
  qed
qed

section \<open>Indices\<close>

lemma get_int_maybe_value:
  assumes "int_obj_ok x"
  shows "mp_obj_get_int_maybe (Index_Int x)
    = (if \<bar>int_obj_val x\<bar> < 2 ^ 31 then Inr (Some (int_obj_val x)) else Inl List_OverflowError)"
  using assms by (cases x) (auto simp: small_ok_def mpz_as_int_checked_correct)

text \<open>An object as an index, for the reference: a value, or the error of the conversion.\<close>

fun index_value :: "index_obj \<Rightarrow> list_error + int" where
  "index_value (Index_Int x) = Inr (int_obj_val x)"
| "index_value Index_Other = Inl List_TypeError"

text \<open>A well-formed object, and one that is well-formed and fits into a machine word if it is an integer.\<close>

fun index_wf :: "index_obj \<Rightarrow> bool" where
  "index_wf (Index_Int x) \<longleftrightarrow> int_obj_ok x"
| "index_wf Index_Other \<longleftrightarrow> True"

fun index_word :: "index_obj \<Rightarrow> bool" where
  "index_word (Index_Int x) \<longleftrightarrow> \<bar>int_obj_val x\<bar> < 2 ^ 31"
| "index_word Index_Other \<longleftrightarrow> True"

definition index_obj_ok :: "index_obj \<Rightarrow> bool" where
  "index_obj_ok index \<longleftrightarrow> index_wf index \<and> index_word index"

lemma index_obj_ok_simps [simp]:
  "index_obj_ok (Index_Int x) \<longleftrightarrow> int_obj_ok x \<and> \<bar>int_obj_val x\<bar> < 2 ^ 31" "index_obj_ok Index_Other"
  by (simp_all add: index_obj_ok_def)

text \<open>An integer that does not fit is an error wherever it is used as an index.\<close>

lemma index_overflow:
  assumes "index_wf index" "\<not> index_word index"
  shows "mp_get_index n index b = Inl List_OverflowError" "mp_obj_get_int index = Inl List_OverflowError"
proof -
  obtain x where x: "index = Index_Int x" using assms(2) by (cases index) auto
  have "mp_obj_get_int_maybe index = Inl List_OverflowError"
    using assms unfolding x by (auto simp: get_int_maybe_value simp del: mp_obj_get_int_maybe.simps)
  then show "mp_get_index n index b = Inl List_OverflowError" "mp_obj_get_int index = Inl List_OverflowError"
    by (simp_all add: mp_get_index_def mp_obj_get_int_def)
qed

text \<open>The position that an index stands for; a negative one counts from the end.\<close>

definition py_position :: "nat \<Rightarrow> int \<Rightarrow> int" where
  "py_position n v = (if v < 0 then v + int n else v)"

definition py_index :: "nat \<Rightarrow> index_obj \<Rightarrow> list_error + nat" where
  "py_index n index =
     (case index_value index of
        Inl e \<Rightarrow> Inl e
      | Inr v \<Rightarrow> if 0 \<le> py_position n v \<and> py_position n v < int n then Inr (nat (py_position n v)) else Inl List_IndexError)"

definition py_clip :: "nat \<Rightarrow> index_obj \<Rightarrow> list_error + nat" where
  "py_clip n index =
     (case index_value index of
        Inl e \<Rightarrow> Inl e
      | Inr v \<Rightarrow> Inr (nat (max 0 (min (int n) (py_position n v)))))"

lemma index_value_cases:
  assumes "index_obj_ok index"
  shows "(\<exists>e. index_value index = Inl e \<and> mp_obj_get_int index = Inl e
        \<and> (mp_obj_get_int_maybe index = Inl e \<or> e = List_TypeError \<and> mp_obj_get_int_maybe index = Inr None))
    \<or> (\<exists>v. index_value index = Inr v \<and> \<bar>v\<bar> < 2 ^ 31 \<and> mp_obj_get_int index = Inr v
        \<and> mp_obj_get_int_maybe index = Inr (Some v))"
  using assms by (cases index) (auto simp: mp_obj_get_int_def get_int_maybe_value simp del: mp_obj_get_int_maybe.simps(1-3))

lemma position_wrap: "\<bar>v\<bar> < 2 ^ 31 \<Longrightarrow> n < 2 ^ 31 \<Longrightarrow> (if v < 0 then s32 (v + int n) else v) = py_position n v"
  by (auto simp: py_position_def wrap_simps)

lemma mp_get_index_correct:
  assumes "index_obj_ok index" "n < 2 ^ 31"
  shows "mp_get_index n index False = py_index n index" "mp_get_index n index True = py_clip n index"
  using index_value_cases [OF assms(1)] position_wrap [OF _ assms(2)]
  by (auto simp: mp_get_index_def py_index_def py_clip_def Let_def)

lemma py_index_less: "py_index n index = Inr i \<Longrightarrow> i < n"
  by (auto simp: py_index_def split: sum.splits if_splits)

section \<open>Removing and storing\<close>

definition delete_at :: "nat \<Rightarrow> 'a list \<Rightarrow> 'a list" where
  "delete_at i xs = take i xs @ drop (Suc i) xs"

lemma length_delete_at [simp]: "i < length xs \<Longrightarrow> length (delete_at i xs) = length xs - 1"
  by (simp add: delete_at_def)

lemma pop_cells:
  assumes rep: "list_rep self xs" and i: "i < length xs"
  shows "load_obj (list_items self) i = Some (xs ! i)"
    "cells_from (list_items self) (i + 1) (length xs - 1 - i) = Some (map Obj (drop (Suc i) xs))"
    "copy_cells (list_items self) i (map Obj (drop (Suc i) xs)) \<bind> (\<lambda>items. store_cell items (length xs - 1) No_Obj)
      = Some (map Obj (delete_at i xs) @ replicate (list_alloc self - (length xs - 1)) No_Obj)"
proof -
  note r = list_repD [OF rep]
  show "load_obj (list_items self) i = Some (xs ! i)" using r(1) i by simp
  show "cells_from (list_items self) (i + 1) (length xs - 1 - i) = Some (map Obj (drop (Suc i) xs))"
    unfolding r(1) using i by (simp add: cells_from_map)
  have d: "drop (length xs - 1) xs = [last xs]" using i by (cases xs rule: rev_cases) auto
  have "copy_cells (list_items self) i (map Obj (drop (Suc i) xs))
      = Some (map Obj (delete_at i xs) @ Obj (last xs) # replicate (list_alloc self - length xs) No_Obj)"
    unfolding r(1) using i d by (simp add: copy_cells_Some delete_at_def drop_map take_map)
  moreover have "store_cell (map Obj (delete_at i xs) @ Obj (last xs) # replicate (list_alloc self - length xs) No_Obj) (length xs - 1) No_Obj
      = Some (map Obj (delete_at i xs) @ No_Obj # replicate (list_alloc self - length xs) No_Obj)"
    using i by (simp add: store_cell_def list_update_append)
  moreover have "list_alloc self - (length xs - 1) = Suc (list_alloc self - length xs)" using i r(3) by simp
  ultimately show "copy_cells (list_items self) i (map Obj (drop (Suc i) xs)) \<bind> (\<lambda>items. store_cell items (length xs - 1) No_Obj)
      = Some (map Obj (delete_at i xs) @ replicate (list_alloc self - (length xs - 1)) No_Obj)" by simp
qed

text \<open>The array is halved when it is more than half empty.\<close>

lemma list_pop_behaves:
  assumes rep: "list_rep self xs" and g: "grant_ok grant" and ne: "xs \<noteq> []"
    and ix: "mp_get_index (length xs) (case arg of None \<Rightarrow> Index_Int (Small (- 1)) | Some x \<Rightarrow> x) False = Inr i" and i: "i < length xs"
  shows "behaves grant (list_pop grant self arg) (delete_at i xs) (Inr (xs ! i)) {}"
proof -
  note r = list_repD [OF rep]
  define n where "n = length xs - 1"
  let ?ys = "delete_at i xs"
  have ln: "length ?ys = n" "n \<le> length xs" "length xs - Suc 0 = n" using i by (simp_all add: n_def)
  obtain cs where cs: "copy_cells (list_items self) i (map Obj (drop (Suc i) xs)) = Some cs"
    "store_cell cs n No_Obj = Some (map Obj ?ys @ replicate (list_alloc self - n) No_Obj)"
    using pop_cells(3) [OF rep i] by (auto simp: bind_eq_Some_conv n_def)
  let ?items = "map Obj ?ys @ replicate (list_alloc self - n) No_Obj"
  let ?s = "self\<lparr>list_len := n, list_items := ?items\<rparr>"
  have s: "list_rep ?s ?ys" by (rule list_rep_update(2) [OF rep]) (use ln r(3) in auto)
  have run: "list_pop grant self arg = (if list_alloc self > LIST_MIN_ALLOC \<and> list_alloc self > 2 * n
      then (case m_renew grant ?items (list_alloc self div 2) of
              None \<Rightarrow> Some (?s, Inl List_MemoryError)
            | Some items \<Rightarrow> Some (?s\<lparr>list_items := items, list_alloc := list_alloc self div 2\<rparr>, Inr (xs ! i)))
      else Some (?s, Inr (xs ! i)))"
    using ne ix pop_cells(1,2) [OF rep i, folded n_def] cs unfolding list_pop_def r(2) Let_def n_def [symmetric] by simp
  show ?thesis
  proof (cases "list_alloc self > LIST_MIN_ALLOC \<and> list_alloc self > 2 * n")
    case big: True
    let ?a = "list_alloc self div 2"
    have a: "2 \<le> ?a" "n \<le> ?a" "?a < 2 ^ 28" "?a \<le> list_alloc self" using big r by (auto simp: LIST_MIN_ALLOC_def)
    have m: "m_renew grant ?items ?a = Some (map Obj ?ys @ replicate (?a - n) No_Obj)"
      using m_renew_shrink [of ?a ?items] a ln by (simp add: min_def)
    have "list_rep (?s\<lparr>list_items := map Obj ?ys @ replicate (?a - n) No_Obj, list_alloc := ?a\<rparr>) ?ys"
      unfolding list_rep_def using a ln by simp
    then show ?thesis using run big m unfolding behaves_def by simp
  qed (use run s in \<open>auto simp: behaves_def\<close>)
qed

lemma list_pop_errors:
  assumes "list_rep self xs"
  shows "xs = [] \<Longrightarrow> list_pop grant self arg = Some (self, Inl List_IndexError)"
    "xs \<noteq> [] \<Longrightarrow> mp_get_index (length xs) (case arg of None \<Rightarrow> Index_Int (Small (- 1)) | Some x \<Rightarrow> x) False = Inl e \<Longrightarrow>
      list_pop grant self arg = Some (self, Inl e)"
  using list_repD(2) [OF assms] by (simp_all add: list_pop_def)

lemma list_store_behaves:
  assumes "list_rep self xs" "mp_get_index (length xs) index False = Inr i" "i < length xs"
  shows "behaves grant (mp_obj_list_store self index x) (xs[i := x]) (Inr ()) F"
  using assms list_repD [OF assms(1)] list_rep_items [OF assms(1) _ refl, of "xs[i := x]"]
  by (simp add: mp_obj_list_store_def behaves_def store_cell_def list_update_append map_update)

lemma list_clear_behaves:
  assumes rep: "list_rep self xs" and g: "grant_ok grant"
  shows "\<exists>s q. list_clear grant self = Some (s, q)
    \<and> (list_rep s [] \<and> q = Inr ()
       \<or> q = Inl List_MemoryError \<and> refused grant 0 \<and> s = self\<lparr>list_len := 0\<rparr>)"
proof (cases "4 \<le> list_alloc self \<or> grant 16")
  case True
  note r = list_repD [OF rep]
  have "m_renew grant (list_items self) 4 = Some (take 4 (list_items self) @ replicate (4 - list_alloc self) Unset)"
    using True r(6) by (auto simp: m_renew_def u32_def Let_def)
  moreover have "mp_seq_clear (take 4 (list_items self) @ replicate (4 - list_alloc self) Unset) 0 4 = Some (replicate 4 No_Obj)"
    using r(6) by (simp add: mp_seq_clear_def min_def)
  ultimately show ?thesis unfolding list_clear_def LIST_MIN_ALLOC_def by (simp add: list_rep_def)
next
  case False
  then have "m_renew grant (list_items self) 4 = None" using list_repD(6) [OF rep] by (simp add: m_renew_def u32_def Let_def)
  then show ?thesis using refusedI [of grant 16 0] False by (simp add: list_clear_def LIST_MIN_ALLOC_def)
qed

lemma list_copy_gives:
  assumes "list_rep self xs" "grant_ok grant"
  shows "gives_list grant (list_copy grant self) xs"
  using list_repD [OF assms(1)] list_of_cells_gives [OF assms(2), of xs] cells_from_map [of 0 "length xs" xs]
  by (simp add: list_copy_def)

section \<open>Inserting\<close>

definition insert_at :: "nat \<Rightarrow> 'a \<Rightarrow> 'a list \<Rightarrow> 'a list" where
  "insert_at i x xs = take i xs @ x # drop i xs"

lemma shift_up_correct:
  assumes "i < length items" "index \<le> i"
  shows "\<exists>items'. shift_up i index items = Some items' \<and> length items' = length items
    \<and> (\<forall>k < length items. items' ! k = (if index < k \<and> k \<le> i then items ! (k - 1) else items ! k))"
  using assms
proof (induction i arbitrary: items)
  case (Suc i)
  show ?case
  proof (cases "Suc i > index")
    case True
    let ?it = "items[Suc i := items ! i]"
    have it: "load_cell items i = Some (items ! i)" "store_cell items (Suc i) (items ! i) = Some ?it"
      using Suc.prems by (simp_all add: load_cell_def store_cell_def)
    obtain items' where i': "shift_up i index ?it = Some items'" "length items' = length ?it"
      "\<forall>k < length ?it. items' ! k = (if index < k \<and> k \<le> i then ?it ! (k - 1) else ?it ! k)"
      using Suc.IH [of ?it] Suc.prems True by auto
    have "items' ! k = (if index < k \<and> k \<le> Suc i then items ! (k - 1) else items ! k)" if "k < length items" for k
      using i'(3) that True by (cases "k = Suc i") (auto simp: nth_list_update le_Suc_eq)
    then show ?thesis using True it i'(1,2) by (subst shift_up.simps) simp
  qed (subst shift_up.simps, use Suc.prems in auto)
qed (subst shift_up.simps, auto)

lemma insert_index_correct:
  assumes "\<bar>v\<bar> < 2 ^ 31" "n < 2 ^ 31"
  shows "insert_index n v = nat (max 0 (min (int n) (py_position n v)))"
  using position_wrap [OF assms] by (auto simp: insert_index_def Let_def)

lemma insert_index_le: "insert_index n v \<le> n"
  by (auto simp: insert_index_def Let_def)

lemma list_insert_behaves:
  assumes rep: "list_rep self xs" and g: "grant_ok grant"
    and index: "index = insert_index (length xs) (raw_small_int_value addr idx)"
  shows "behaves grant (list_insert grant addr none self idx x) (insert_at index x xs) (Inr ()) {xs}"
proof -
  have ix: "index \<le> length xs" unfolding index by (rule insert_index_le)
  obtain s q where s: "mp_obj_list_append grant self none = Some (s, q)"
    "list_rep s (xs @ [none]) \<and> q = Inr () \<or> q = Inl List_MemoryError \<and> refused grant (Suc (length xs)) \<and> list_rep s xs"
    using list_append_behaves [OF rep g, of none] unfolding behaves_def by auto
  from s(2) show ?thesis
  proof
    assume q: "list_rep s (xs @ [none]) \<and> q = Inr ()"
    note r = list_repD [OF conjunct1 [OF q]]
    let ?R = "replicate (list_alloc s - length (xs @ [none])) No_Obj"
    have l: "length xs < length (list_items s)" using r(3,6) by simp
    obtain it where it: "shift_up (length xs) index (list_items s) = Some it" "length it = length (list_items s)"
      "\<And>k. k < length (list_items s) \<Longrightarrow> it ! k = (if index < k \<and> k \<le> length xs then list_items s ! (k - 1) else list_items s ! k)"
      using shift_up_correct [OF l ix] by blast
    have "it[index := Obj x] = map Obj (insert_at index x xs) @ ?R"
    proof (rule nth_equalityI)
      fix k assume "k < length (it[index := Obj x])"
      then have k: "k < length (list_items s)" using it(2) by simp
      have c: "list_items s ! j = (if j < length xs then Obj (xs ! j) else if j = length xs then Obj none else No_Obj)"
        if "j < length (list_items s)" for j using that r(6) unfolding r(1) by (auto simp: nth_append)
      have "(map Obj (insert_at index x xs) @ ?R) ! k = (if k < index then Obj (xs ! k) else if k = index then Obj x
          else if k \<le> length xs then Obj (xs ! (k - 1)) else No_Obj)"
        using ix k r(6) by (auto simp: insert_at_def nth_append nth_Cons' less_diff_conv)
      moreover have "it[index := Obj x] ! k = (if k < index then Obj (xs ! k) else if k = index then Obj x
          else if k \<le> length xs then Obj (xs ! (k - 1)) else No_Obj)"
        using it(3) [OF k] c [of k] c [of "k - 1"] k ix it(2) by (auto simp: nth_list_update)
      ultimately show "it[index := Obj x] ! k = (map Obj (insert_at index x xs) @ ?R) ! k" by simp
    qed (use it(2) r(3,6) ix in \<open>simp add: insert_at_def\<close>)
    moreover have "list_rep (s\<lparr>list_items := map Obj (insert_at index x xs) @ ?R\<rparr>) (insert_at index x xs)"
      using list_rep_items [OF conjunct1 [OF q], of "insert_at index x xs"] ix by (simp add: insert_at_def)
    moreover have "store_cell it index (Obj x) = Some (it[index := Obj x])"
      using it(2) l ix by (simp add: store_cell_def)
    ultimately show ?thesis using s(1) q r(2) it(1) index list_repD(2) [OF rep]
      unfolding list_insert_def behaves_def by simp
  next
    assume "q = Inl List_MemoryError \<and> refused grant (Suc (length xs)) \<and> list_rep s xs"
    moreover have "length (insert_at index x xs) = Suc (length xs)" using ix by (simp add: insert_at_def)
    ultimately show ?thesis using s(1) by (simp add: list_insert_def behaves_def Let_def)
  qed
qed

section \<open>Reversing\<close>

lemma reverse_loop_correct:
  assumes "len \<le> length items"
  shows "\<exists>items'. reverse_loop i len items = Some items' \<and> length items' = length items
    \<and> (\<forall>k < length items. items' ! k = (if i \<le> k \<and> k < len - i then items ! (len - 1 - k) else items ! k))"
  using assms
proof (induction i len items rule: reverse_loop.induct)
  case (1 i len items)
  show ?case
  proof (cases "i < len div 2")
    case True
    let ?j = "len - i - 1"
    let ?it = "items[i := items ! ?j, ?j := items ! i]"
    have j: "i < length items" "?j < length items" "i < ?j" using True "1.prems" by auto
    have it: "load_cell items i = Some (items ! i)" "load_cell items ?j = Some (items ! ?j)"
      "store_cell items i (items ! ?j) = Some (items[i := items ! ?j])"
      "store_cell (items[i := items ! ?j]) ?j (items ! i) = Some ?it"
      using j by (simp_all add: load_cell_def store_cell_def)
    obtain items' where i': "reverse_loop (i + 1) len ?it = Some items'" "length items' = length ?it"
      "\<forall>k < length ?it. items' ! k = (if i + 1 \<le> k \<and> k < len - (i + 1) then ?it ! (len - 1 - k) else ?it ! k)"
      using "1.IH" [OF True it] "1.prems" by auto
    have "items' ! k = (if i \<le> k \<and> k < len - i then items ! (len - 1 - k) else items ! k)" if k: "k < length items" for k
    proof (cases "k = i \<or> k = ?j")
      case True
      then show ?thesis using i'(3) k j by (auto simp: nth_list_update)
    next
      case False
      then show ?thesis using i'(3) k j by (auto simp: nth_list_update)
    qed
    then show ?thesis using True it i'(1,2) by (subst reverse_loop.simps) simp
  next
    case False
    then have "k = len - 1 - k" if "i \<le> k" "k < len - i" for k using that by linarith
    then show ?thesis using False by (subst reverse_loop.simps) (auto intro: arg_cong [of _ _ "(!) items"])
  qed
qed

lemma list_reverse_behaves:
  assumes rep: "list_rep self xs"
  shows "behaves grant (list_reverse self) (rev xs) (Inr ()) F"
proof -
  note r = list_repD [OF rep]
  obtain it where it: "reverse_loop 0 (length xs) (list_items self) = Some it" "length it = length (list_items self)"
    "\<And>k. k < length (list_items self) \<Longrightarrow> it ! k = (if k < length xs then list_items self ! (length xs - 1 - k) else list_items self ! k)"
    using reverse_loop_correct [of "length xs" "list_items self" 0] r(3,6) by auto
  have "it = map Obj (rev xs) @ replicate (list_alloc self - length (rev xs)) No_Obj"
    by (rule nth_equalityI) (use it r(3,6) in \<open>auto simp: r(1) nth_append rev_nth\<close>)
  then show ?thesis using it(1) r(2) list_rep_items [OF rep, of "rev xs"]
    unfolding list_reverse_def behaves_def by simp
qed

section \<open>Extending, concatenating, repeating\<close>

lemma extend_list_behaves:
  assumes rep: "list_rep self xs" and g: "grant_ok grant" and ys: "length ys < 2 ^ 28"
    and arg: "\<And>cs. arg_cells (map Obj xs @ cs) = Some (map Obj ys)"
  shows "behaves grant (list_extend_list grant self (length ys) arg_cells) (xs @ ys) (Inr ()) {xs}"
proof -
  note r = list_repD [OF rep]
  let ?n = "length xs + length ys"
  have u: "u32 ?n = ?n" "u32 (?n + 4) = ?n + 4" using ys r(3,5) by (auto simp: u32_def)
  show ?thesis
  proof (cases "?n > list_alloc self")
    case True
    have m: "m_renew grant (list_items self) (?n + 4)
        = (if grant (4 * (?n + 4)) then Some (list_items self @ replicate (?n + 4 - list_alloc self) Unset) else None)"
      "grant (4 * (?n + 4)) \<Longrightarrow> ?n + 4 < 2 ^ 28"
      using m_renew_cases(1) [OF g, of "list_items self" "?n + 4"] m_renew_cases(2) [OF g, of "list_items self" "?n + 4"] r(3,5,6) ys True by (simp_all del: mult_Suc_right distrib_left_numeral add_mult_distrib2)
    show ?thesis
    proof (cases "grant (4 * (?n + 4))")
      case gr: True
      define cs where "cs = take (length ys) (replicate (list_alloc self - length xs) No_Obj @ replicate (?n + 4 - list_alloc self) (Unset :: 'a cell))"
      have lcs: "length cs = length ys" using True r(3) by (simp add: cs_def)
      have c: "mp_seq_clear (list_items self @ replicate (?n + 4 - list_alloc self) Unset) ?n (?n + 4)
          = Some (map Obj xs @ cs @ replicate 4 No_Obj)"
        using True r(3) unfolding mp_seq_clear_def r(1) cs_def by simp
      have "copy_cells (map Obj xs @ cs @ replicate 4 No_Obj) (length xs) (map Obj ys)
          = Some (map Obj (xs @ ys) @ replicate 4 No_Obj)"
        using lcs by (simp add: copy_cells_def)
      then have "list_extend_list grant self (length ys) arg_cells
          = Some (self\<lparr>list_items := map Obj (xs @ ys) @ replicate 4 No_Obj, list_alloc := ?n + 4, list_len := ?n\<rparr>, Inr ())"
        using True gr u m(1) c arg [of "cs @ replicate 4 No_Obj"] r(2) unfolding list_extend_list_def by (simp add: Let_def)
      moreover have "list_rep (self\<lparr>list_items := map Obj (xs @ ys) @ replicate 4 No_Obj, list_alloc := ?n + 4, list_len := ?n\<rparr>) (xs @ ys)"
        using m(2) [OF gr] by (simp add: list_rep_def)
      ultimately show ?thesis unfolding behaves_def by blast
    next
      case no: False
      have "refused grant (length (xs @ ys))" using refusedI [of grant "4 * (?n + 4)" "length (xs @ ys)"] no by simp
      then show ?thesis using no True u m(1) r(2) rep by (auto simp: list_extend_list_def behaves_def Let_def)
    qed
  next
    case False
    have "copy_cells (list_items self) (length xs) (map Obj ys)
        = Some (map Obj (xs @ ys) @ replicate (list_alloc self - length (xs @ ys)) No_Obj)"
      unfolding r(1) using False by (simp add: copy_cells_def)
    then show ?thesis using False u r(2) arg [of "replicate (list_alloc self - length xs) No_Obj", folded r(1)]
        list_rep_update(1) [OF rep _ refl refl, of "xs @ ys"]
      unfolding list_extend_list_def behaves_def Let_def by simp
  qed
qed

lemma list_add_gives:
  assumes "list_rep o1 xs" "list_rep p ys" "grant_ok grant"
  shows "gives_list grant (list_add grant o1 p) (xs @ ys)"
proof -
  note r = list_repD [OF assms(1)] and q = list_repD [OF assms(2)]
  have n: "length (xs @ ys) < 2 ^ 30" using r(3,5) q(3,5) by simp
  have u: "u32 (length xs + length ys) = length (xs @ ys)" using n by (simp add: u32_def)
  have c: "cells_from (list_items o1) 0 (length xs) = Some (map Obj xs)" "cells_from (list_items p) 0 (length ys) = Some (map Obj ys)"
    unfolding r(1) q(1) by (simp_all add: cells_from_map)
  show ?thesis using list_new_cases [OF assms(3) n, where 'a = 'a]
  proof (elim disjE exE conjE)
    fix s :: "'a mp_list"
    assume s: "list_new grant (length (xs @ ys)) = Some (Inr s)" "length (xs @ ys) \<le> list_alloc s" "4 \<le> list_alloc s"
      "list_alloc s < 2 ^ 28" "list_len s = length (xs @ ys)"
      "list_items s = replicate (length (xs @ ys)) Unset @ replicate (list_alloc s - length (xs @ ys)) No_Obj"
    have "list_rep (s\<lparr>list_items := map Obj (xs @ ys) @ replicate (list_alloc s - length (xs @ ys)) No_Obj\<rparr>) (xs @ ys)"
      using s by (simp add: list_rep_def)
    moreover have "copy_cells (list_items s) 0 (map Obj xs) \<bind> (\<lambda>items. copy_cells items (length xs) (map Obj ys))
        = Some (map Obj (xs @ ys) @ replicate (list_alloc s - length (xs @ ys)) No_Obj)"
      unfolding s(6) by (simp add: copy_cells_def)
    ultimately show ?thesis using s(1) c r(2) q(2) u unfolding list_add_def gives_list_def
      by (auto simp: bind_eq_Some_conv)
  next
    assume "\<not> grant (4 * max 4 (length (xs @ ys)))" "list_new grant (length (xs @ ys)) = Some (Inl List_MemoryError :: list_error + 'a mp_list)"
    then show ?thesis using u r(2) q(2) refused_new [of grant "length (xs @ ys)"] by (simp add: list_add_def gives_list_def)
  qed
qed

lemma multiply_fits:
  "i + n * length cs \<le> length dest \<Longrightarrow>
    mp_seq_multiply cs n dest i = Some (take i dest @ concat (replicate n cs) @ drop (i + n * length cs) dest)"
proof (induction n arbitrary: dest i)
  case (Suc n)
  have "copy_cells dest i cs = Some (take i dest @ cs @ drop (i + length cs) dest)"
    using Suc.prems by (simp add: copy_cells_def)
  moreover have "mp_seq_multiply cs n (take i dest @ cs @ drop (i + length cs) dest) (i + length cs)
      = Some (take i dest @ concat (replicate (Suc n) cs) @ drop (i + Suc n * length cs) dest)"
    using Suc.IH [of "i + length cs" "take i dest @ cs @ drop (i + length cs) dest"] Suc.prems by (simp add: algebra_simps)
  ultimately show ?case by simp
qed simp

lemma multiply_outside:
  "length dest < i + n * length cs \<Longrightarrow> i \<le> length dest \<Longrightarrow> mp_seq_multiply cs n dest i = None"
proof (induction n arbitrary: dest i)
  case (Suc n)
  show ?case
  proof (cases "i + length cs \<le> length dest")
    case True
    then show ?thesis using Suc.IH [of "take i dest @ cs @ drop (i + length cs) dest" "i + length cs"] Suc.prems
      by (simp add: copy_cells_def)
  qed (simp add: copy_cells_def)
qed simp

text \<open>The product: exactly one request is made, for the new array.\<close>

lemma list_multiply_gives:
  assumes "list_rep o1 xs" "grant_ok grant" "length xs * nat n < 2 ^ 30"
  shows "if grant (4 * max 4 (length xs * nat n))
    then \<exists>s. list_multiply grant o1 n = Some (Inr s) \<and> list_rep s (concat (replicate (nat n) xs))
    else list_multiply grant o1 n = Some (Inl List_MemoryError)"
proof -
  note r = list_repD [OF assms(1)]
  let ?ys = "concat (replicate (nat n) xs)"
  have l: "length ?ys = length xs * nat n" by (simp add: length_concat sum_list_replicate)
  have n: "nat (if n < 0 then 0 else n) = nat n" "u32 (length xs * nat n) = length xs * nat n" "length xs * nat n < 2 ^ 30"
    using assms(3) by (auto simp: u32_def)
  have c: "cells_from (list_items o1) 0 (length xs) = Some (map Obj xs)"
    unfolding r(1) by (simp add: cells_from_map)
  show ?thesis using list_new_cases [OF assms(2) n(3), where 'a = 'a]
  proof (elim disjE exE conjE)
    fix s :: "'a mp_list"
    assume s: "grant (4 * max 4 (length xs * nat n))" "list_new grant (length xs * nat n) = Some (Inr s)"
      "length xs * nat n \<le> list_alloc s" "4 \<le> list_alloc s"
      "list_alloc s < 2 ^ 28" "list_len s = length xs * nat n"
      "list_items s = replicate (length xs * nat n) Unset @ replicate (list_alloc s - length xs * nat n) No_Obj"
    have "list_rep (s\<lparr>list_items := map Obj ?ys @ replicate (list_alloc s - length ?ys) No_Obj\<rparr>) ?ys"
      using s l by (simp add: list_rep_def)
    moreover have "mp_seq_multiply (map Obj xs) (nat n) (list_items s) 0 = Some (map Obj ?ys @ replicate (list_alloc s - length ?ys) No_Obj)"
      using multiply_fits [of 0 "nat n" "map Obj xs" "list_items s"] s l by (simp add: map_concat mult.commute)
    ultimately show ?thesis using s(1,2) c r(2) n unfolding list_multiply_def Let_def by auto
  qed (use n r(2) in \<open>auto simp: list_multiply_def\<close>)
qed

end
