(* ===== verification/SliceLaws.thy ===== *)
theory SliceLaws
  imports ListLaws
begin

text \<open>
  Searching, sorting and comparing lists, and slices: their bounds against a reference, the positions they
  select, and loading, deleting and storing them.
\<close>

section \<open>Searching and sorting\<close>

lemma list_index_correct:
  assumes "list_rep self xs"
  shows "list_index eq self value a2 a3 = Some (mp_seq_index_obj eq xs value a2 a3)"
    "list_count eq self value = Some (mp_seq_count_obj eq xs value)"
  using list_objs_rep [OF assms] by (simp_all add: list_index_def list_count_def)

lemma find_index_iff:
  "find_index eq xs value start stop = Some i \<longleftrightarrow>
     start \<le> i \<and> i < stop \<and> eq (xs ! i) value \<and> (\<forall>j. start \<le> j \<and> j < i \<longrightarrow> \<not> eq (xs ! j) value)"
proof -
  have "(\<exists>k < stop - start. eq (xs ! (start + k)) value \<and> i = start + k \<and> (\<forall>j < k. \<not> eq (xs ! (start + j)) value))
    \<longleftrightarrow> start \<le> i \<and> i < stop \<and> eq (xs ! i) value \<and> (\<forall>j. start \<le> j \<and> j < i \<longrightarrow> \<not> eq (xs ! j) value)"
    (is "?L \<longleftrightarrow> ?R")
  proof
    assume ?R
    then have "\<forall>j < i - start. \<not> eq (xs ! (start + j)) value" by auto
    then show ?L using \<open>?R\<close> by (intro exI [of _ "i - start"]) auto
  next
    assume ?L
    then obtain k where k: "k < stop - start" "eq (xs ! (start + k)) value" "i = start + k"
      "\<forall>j < k. \<not> eq (xs ! (start + j)) value" by blast
    have "\<not> eq (xs ! j) value" if "start \<le> j" "j < i" for j
      using k(4) [rule_format, of "j - start"] that k(3) by simp
    then show ?R using k by auto
  qed
  then show ?thesis unfolding find_index_def find_Some_iff by auto
qed

lemma find_index_None: "find_index eq xs value start stop = None \<longleftrightarrow> (\<forall>i. start \<le> i \<and> i < stop \<longrightarrow> \<not> eq (xs ! i) value)"
  unfolding find_index_def find_None_iff by auto

text \<open>The list without its first element that is equal to a value.\<close>

fun remove_first :: "('a \<Rightarrow> 'a \<Rightarrow> bool) \<Rightarrow> 'a \<Rightarrow> 'a list \<Rightarrow> 'a list option" where
  "remove_first eq v [] = None"
| "remove_first eq v (x # xs) = (if eq x v then Some xs else map_option ((#) x) (remove_first eq v xs))"

lemma find_index_Cons:
  "find_index eq (x # xs) v 0 (length (x # xs)) = (if eq x v then Some 0 else map_option Suc (find_index eq xs v 0 (length xs)))"
proof -
  have "find (\<lambda>i. eq ((x # xs) ! i) v) (map Suc ns) = map_option Suc (find (\<lambda>i. eq (xs ! i) v) ns)" for ns
    by (induction ns) auto
  then show ?thesis unfolding find_index_def by (simp add: upt_conv_Cons map_Suc_upt [symmetric] del: upt_Suc map_Suc_upt)
qed

lemma remove_first_index:
  "remove_first eq v xs = map_option (\<lambda>i. delete_at i xs) (find_index eq xs v 0 (length xs))"
proof (induction xs)
  case (Cons x xs)
  then show ?case unfolding find_index_Cons remove_first.simps by (simp add: option.map_comp o_def delete_at_def)
qed (simp add: find_index_def)

lemma list_remove_behaves:
  assumes rep: "list_rep self xs" and g: "grant_ok grant"
  shows "case remove_first eq v xs of
      None \<Rightarrow> mp_obj_list_remove grant eq self v = Some (self, Inl List_ValueError)
    | Some ys \<Rightarrow> behaves grant (mp_obj_list_remove grant eq self v) ys (Inr ()) {}"
proof (cases "find_index eq xs v 0 (length xs)")
  case None
  then show ?thesis using list_index_correct(1) [OF rep]
    by (simp add: mp_obj_list_remove_def mp_seq_index_obj_def remove_first_index)
next
  case (Some i)
  then have i: "i < length xs" unfolding find_index_iff by simp
  then have l: "int i < 2 ^ 28" "length xs < 2 ^ 31" using list_repD(3,5) [OF rep] by auto
  have o: "new_small_int (int i) = Small (int i)" by (rule new_small_int_ok) (use l in \<open>simp add: small_ok_def\<close>)
  have "mp_get_index (length xs) (Index_Int (Small (int i))) False = Inr i"
    using l i by (simp add: mp_get_index_def)
  then have "behaves grant (list_pop grant self (Some (Index_Int (Small (int i))))) (delete_at i xs) (Inr (xs ! i)) {}"
    using list_pop_behaves [OF rep g _ _ i, of "Some (Index_Int (Small (int i)))"] i by fastforce
  then show ?thesis using Some list_index_correct(1) [OF rep] o
    unfolding behaves_def by (auto simp: mp_obj_list_remove_def mp_seq_index_obj_def remove_first_index)
qed

lemma list_sort_correct:
  assumes rep: "list_rep self xs"
  shows "\<exists>s ys r. mp_obj_list_sort key lt reversed self = Some (s, r) \<and> list_rep s ys \<and> mset ys = mset xs
    \<and> (case r of
         Inl e \<Rightarrow> e \<in> raised key lt (set xs)
       | Inr _ \<Rightarrow> weakly_ordered key lt (set xs) \<longrightarrow> sorted_within key lt (\<not> reversed) ys 0 (int (length xs) - 1))"
proof (cases "length xs > 1")
  case True
  note r = list_repD [OF rep]
  have "sort_post key lt (\<not> reversed) 0 (int (length xs) - 1) xs (mp_quicksort key lt (\<not> reversed) xs 0 (int (length xs) - 1))"
    by (rule quicksort_correct) (use True in auto)
  then obtain ys q where q: "mp_quicksort key lt (\<not> reversed) xs 0 (int (length xs) - 1) = Some (ys, q)"
    "permutes_within 0 (int (length xs) - 1) xs ys"
    "case q of Inl e \<Rightarrow> e \<in> raised key lt (set xs)
     | Inr _ \<Rightarrow> weakly_ordered key lt (set xs) \<longrightarrow> sorted_within key lt (\<not> reversed) ys 0 (int (length xs) - 1)"
    unfolding sort_post_def by blast
  have l: "length ys = length xs" by (rule permutes_length [OF q(2)])
  have "copy_cells (list_items self) 0 (map Obj ys) = Some (map Obj ys @ replicate (list_alloc self - length ys) No_Obj)"
    unfolding r(1) using l by (simp add: copy_cells_def)
  then show ?thesis using q l True r(2) list_objs_rep [OF rep] list_rep_items [OF rep l refl]
    unfolding mp_obj_list_sort_def permutes_within_def by auto
next
  case False
  then have "sorted_within key lt (\<not> reversed) xs 0 (int (length xs) - 1)" by (auto simp: sorted_within_def)
  then show ?thesis using False rep list_repD(2) [OF rep] unfolding mp_obj_list_sort_def by auto
qed

section \<open>Comparing\<close>

text \<open>
  The elements have values of a linear order, and their operators compare the values: then the lists are
  compared as the lists of the values, in the lexicographic order.
\<close>

definition compares_values ::
  "('a \<Rightarrow> 'b :: linorder) \<Rightarrow> 'a set \<Rightarrow> ('a \<Rightarrow> 'a \<Rightarrow> bool) \<Rightarrow> (binary_operator \<Rightarrow> 'a \<Rightarrow> 'a \<Rightarrow> list_error + bool) \<Rightarrow> bool" where
  "compares_values val S eq rel \<longleftrightarrow>
     (\<forall>x \<in> S. \<forall>y \<in> S. (eq x y \<longleftrightarrow> val x = val y)
        \<and> rel BINARY_MORE x y = Inr (val x > val y) \<and> rel BINARY_MORE_EQUAL x y = Inr (val x \<ge> val y))"

lemma cmp_loop_equal:
  assumes "compares_values val (set xs \<union> set ys) eq rel" "length xs = length ys"
  shows "cmp_loop BINARY_EQUAL eq rel xs ys = (if map val xs = map val ys then None else Some (Inr False))"
  using assms(2,1) by (induction xs ys rule: list_induct2) (auto simp: compares_values_def)

lemma cmp_loop_more:
  assumes "compares_values val (set xs \<union> set ys) eq rel" "op = BINARY_MORE \<or> op = BINARY_MORE_EQUAL"
  shows "(case cmp_loop op eq rel xs ys of
       Some r \<Rightarrow> r
     | None \<Rightarrow> if length xs \<noteq> length ys then Inr (\<not> length xs < length ys) else Inr (op \<noteq> BINARY_MORE))
    = Inr (ord_class.lexordp (map val ys) (map val xs) \<or> op = BINARY_MORE_EQUAL \<and> map val xs = map val ys)"
  using assms
proof (induction op eq rel xs ys rule: cmp_loop.induct)
  case (1 op eq rel x xs y ys)
  have v: "eq x y \<longleftrightarrow> val x = val y" "rel BINARY_MORE x y = Inr (val x > val y)" "rel BINARY_MORE_EQUAL x y = Inr (val x \<ge> val y)"
    using "1.prems"(1) unfolding compares_values_def by auto
  show ?case
  proof (cases "val x = val y")
    case True
    have "compares_values val (set xs \<union> set ys) eq rel" using "1.prems"(1) unfolding compares_values_def by auto
    then show ?thesis using "1.IH" "1.prems"(2) True v(1) by (cases "cmp_loop op eq rel xs ys"; cases "length xs = length ys") simp_all
  next
    case False
    then show ?thesis using "1.prems"(2) v by (cases "op = BINARY_MORE") (auto simp: not_less le_less)
  qed
qed auto

lemma mp_seq_cmp_objs_correct:
  assumes c: "compares_values val (set xs \<union> set ys) eq rel"
  shows "mp_seq_cmp_objs BINARY_EQUAL eq rel xs ys = Inr (map val xs = map val ys)"
    "mp_seq_cmp_objs BINARY_LESS eq rel xs ys = Inr (ord_class.lexordp (map val xs) (map val ys))"
    "mp_seq_cmp_objs BINARY_LESS_EQUAL eq rel xs ys = Inr (ord_class.lexordp (map val xs) (map val ys) \<or> map val xs = map val ys)"
    "mp_seq_cmp_objs BINARY_MORE eq rel xs ys = Inr (ord_class.lexordp (map val ys) (map val xs))"
    "mp_seq_cmp_objs BINARY_MORE_EQUAL eq rel xs ys = Inr (ord_class.lexordp (map val ys) (map val xs) \<or> map val xs = map val ys)"
proof -
  have c': "compares_values val (set ys \<union> set xs) eq rel" using c by (simp add: Un_commute)
  show "mp_seq_cmp_objs BINARY_EQUAL eq rel xs ys = Inr (map val xs = map val ys)"
    using cmp_loop_equal [OF c] map_eq_imp_length_eq [of val xs val ys] by (auto simp: mp_seq_cmp_objs_def)
  show "mp_seq_cmp_objs BINARY_LESS eq rel xs ys = Inr (ord_class.lexordp (map val xs) (map val ys))"
    using cmp_loop_more [OF c', of BINARY_MORE] by (simp add: mp_seq_cmp_objs_def)
  have "(map val ys = map val xs) = (map val xs = map val ys)" by (rule eq_commute)
  then show "mp_seq_cmp_objs BINARY_LESS_EQUAL eq rel xs ys
      = Inr (ord_class.lexordp (map val xs) (map val ys) \<or> map val xs = map val ys)"
    using cmp_loop_more [OF c', of BINARY_MORE_EQUAL] by (simp add: mp_seq_cmp_objs_def)
  show "mp_seq_cmp_objs BINARY_MORE eq rel xs ys = Inr (ord_class.lexordp (map val ys) (map val xs))"
    using cmp_loop_more [OF c, of BINARY_MORE] by (simp add: mp_seq_cmp_objs_def)
  show "mp_seq_cmp_objs BINARY_MORE_EQUAL eq rel xs ys = Inr (ord_class.lexordp (map val ys) (map val xs) \<or> map val xs = map val ys)"
    using cmp_loop_more [OF c, of BINARY_MORE_EQUAL] by (simp add: mp_seq_cmp_objs_def)
qed

section \<open>Slices\<close>

text \<open>
  The reference: a bound of a slice is a missing one or a value, which counts from the end when it is
  negative and is clipped; the elements are those at the positions \<open>start\<close>, \<open>start + step\<close> and so on.
\<close>

fun slice_part_value :: "index_obj option \<Rightarrow> list_error + int option" where
  "slice_part_value None = Inr None"
| "slice_part_value (Some x) = (case index_value x of Inl e \<Rightarrow> Inl e | Inr v \<Rightarrow> Inr (Some v))"

definition py_bound :: "nat \<Rightarrow> int \<Rightarrow> int \<Rightarrow> int \<Rightarrow> int option \<Rightarrow> int" where
  "py_bound n low high missing v =
     (case v of None \<Rightarrow> missing | Some v \<Rightarrow> max low (min high (py_position n v)))"

definition py_slice_bounds :: "nat \<Rightarrow> int option \<Rightarrow> int option \<Rightarrow> int \<Rightarrow> int \<times> int" where
  "py_slice_bounds n start stop step =
     (if step > 0 then (py_bound n 0 (int n) 0 start, py_bound n 0 (int n) (int n) stop)
      else (py_bound n (- 1) (int n - 1) (int n - 1) start, py_bound n (- 1) (int n - 1) (- 1) stop))"

definition slice_positions :: "nat \<Rightarrow> int \<Rightarrow> int \<Rightarrow> int \<Rightarrow> nat list" where
  "slice_positions n start stop step =
     (if step > 0 then filter (\<lambda>i. start \<le> int i \<and> int i < stop \<and> step dvd int i - start) [0..<n]
      else rev (filter (\<lambda>i. stop < int i \<and> int i \<le> start \<and> step dvd int i - start) [0..<n]))"

definition py_slice :: "'a list \<Rightarrow> int option \<Rightarrow> int option \<Rightarrow> int \<Rightarrow> 'a list" where
  "py_slice xs start stop step =
     (let (lo, hi) = py_slice_bounds (length xs) start stop step
      in map ((!) xs) (slice_positions (length xs) lo hi step))"

text \<open>The values of the three parts, or the first error in the order step, start, stop.\<close>

definition slice_values :: "slice_obj \<Rightarrow> list_error + int option \<times> int option \<times> int" where
  "slice_values s =
     (case slice_part_value (slice_step s) of
        Inl e \<Rightarrow> Inl e
      | Inr st \<Rightarrow>
          if st = Some 0 then Inl List_ValueError
          else case slice_part_value (slice_start s) of
            Inl e \<Rightarrow> Inl e
          | Inr a \<Rightarrow>
              (case slice_part_value (slice_stop s) of
                 Inl e \<Rightarrow> Inl e
               | Inr b \<Rightarrow> Inr (a, b, case st of None \<Rightarrow> 1 | Some v \<Rightarrow> v)))"

definition slice_ok :: "slice_obj \<Rightarrow> bool" where
  "slice_ok s \<longleftrightarrow> pred_option index_obj_ok (slice_start s) \<and> pred_option index_obj_ok (slice_stop s)
     \<and> pred_option index_obj_ok (slice_step s)"

lemma slice_bound_correct:
  assumes "pred_option index_obj_ok x" "n < 2 ^ 31" "low \<le> high"
  shows "slice_bound (int n) low high missing x
    = (case slice_part_value x of Inl e \<Rightarrow> Inl e | Inr v \<Rightarrow> Inr (py_bound n low high missing v))"
proof (cases x)
  case (Some y)
  then have "index_obj_ok y" using assms(1) by simp
  then show ?thesis using index_value_cases [of y] position_wrap [OF _ assms(2)] assms(3) Some
    by (auto simp: slice_bound_def py_bound_def Let_def min_max_distrib2 max_def min_def)
qed (simp add: slice_bound_def py_bound_def)

lemma slice_step_correct:
  assumes "pred_option index_obj_ok (slice_step s)"
  shows "slice_step_value s = (case slice_part_value (slice_step s) of
      Inl e \<Rightarrow> Inl e
    | Inr v \<Rightarrow> if v = Some 0 then Inl List_ValueError else Inr (case v of None \<Rightarrow> 1 | Some v \<Rightarrow> v))"
proof (cases "slice_step s")
  case (Some y)
  then have "index_obj_ok y" using assms by simp
  then show ?thesis using index_value_cases [of y] Some by (auto simp: slice_step_value_def)
qed (simp add: slice_step_value_def)

lemma slice_indices_correct:
  assumes ok: "slice_ok s" and n: "n < 2 ^ 31"
  shows "mp_obj_slice_indices s (int n) = (case slice_values s of
      Inl e \<Rightarrow> Inl e
    | Inr (a, b, step) \<Rightarrow> (case py_slice_bounds n a b step of (lo, hi) \<Rightarrow> Inr (lo, hi, step)))"
proof -
  have p: "pred_option index_obj_ok (slice_start s)" "pred_option index_obj_ok (slice_stop s)"
    "pred_option index_obj_ok (slice_step s)" using ok by (simp_all add: slice_ok_def)
  have b: "slice_bound (int n) 0 (int n) m x = (case slice_part_value x of Inl e \<Rightarrow> Inl e | Inr v \<Rightarrow> Inr (py_bound n 0 (int n) m v))"
    "slice_bound (int n) (- 1) (int n - 1) m x = (case slice_part_value x of Inl e \<Rightarrow> Inl e | Inr v \<Rightarrow> Inr (py_bound n (- 1) (int n - 1) m v))"
    if "pred_option index_obj_ok x" for m x
    using slice_bound_correct [OF that n] by simp_all
  show ?thesis
    unfolding mp_obj_slice_indices_def slice_step_correct [OF p(3)] b [OF p(1)] b [OF p(2)] slice_values_def
    by (auto simp: py_slice_bounds_def split: sum.split)
qed

lemma slice_values_step: "slice_values s = Inr (a, b, step) \<Longrightarrow> step \<noteq> 0"
  by (auto simp: slice_values_def split: sum.splits if_splits option.splits)

lemma slice_bounds_range:
  assumes "py_slice_bounds n a b step = (lo, hi)"
  shows "step > 0 \<Longrightarrow> 0 \<le> lo \<and> lo \<le> int n \<and> 0 \<le> hi \<and> hi \<le> int n"
    "\<not> step > 0 \<Longrightarrow> - 1 \<le> lo \<and> lo < int n \<and> - 1 \<le> hi \<and> hi < int n"
  using assms by (auto simp: py_slice_bounds_def py_bound_def split: option.splits)

lemma fast_slice_correct:
  assumes ok: "slice_ok s" and n: "n < 2 ^ 31"
  shows "mp_seq_get_fast_slice_indexes n s = (case slice_values s of
      Inl e \<Rightarrow> Inl e
    | Inr (a, b, step) \<Rightarrow> (case py_slice_bounds n a b step of (lo, hi) \<Rightarrow>
        Inr (step = 1, lo, if step > 0 then max lo hi else if lo < hi + 1 then lo + 1 else hi + 1, step)))"
  unfolding mp_seq_get_fast_slice_indexes_def slice_indices_correct [OF assms]
  using slice_values_step [of s] by (auto simp: Let_def max_def split: sum.split prod.split)

text \<open>The positions from one on, one step further each time.\<close>

lemma filter_upt_first:
  assumes "P i" "i < n" "\<And>j. j < i \<Longrightarrow> \<not> P j"
  shows "filter P [0..<n] = i # filter (\<lambda>j. i < j \<and> P j) [0..<n]"
proof -
  have s: "[0..<n] = [0..<i] @ i # [Suc i..<n]" using assms(2) upt_split [of 0 i n] upt_conv_Cons [of i n] by simp
  have "filter P [0..<i] = []" "filter (\<lambda>j. i < j \<and> P j) [0..<i] = []" using assms(3) by (simp_all add: filter_empty_conv)
  moreover have "filter (\<lambda>j. i < j \<and> P j) [Suc i..<n] = filter P [Suc i..<n]" by (rule filter_cong) auto
  ultimately show ?thesis unfolding s using assms(1) by simp
qed

lemma positions_up:
  assumes "step > 0" "0 \<le> start" "stop \<le> int n"
  shows "slice_positions n start stop step =
    (if start < stop then nat start # slice_positions n (start + step) stop step else [])"
proof (cases "start < stop")
  case True
  have d: "nat start < j \<and> start \<le> int j \<and> int j < stop \<and> step dvd int j - start
      \<longleftrightarrow> start + step \<le> int j \<and> int j < stop \<and> step dvd int j - (start + step)" for j
  proof -
    have "step dvd int j - start \<longleftrightarrow> step dvd int j - (start + step)"
      using dvd_add_right_iff [of step "- step" "int j - start"] by (simp add: algebra_simps)
    moreover have "start + step \<le> int j" if "start < int j" "step dvd int j - start"
      using zdvd_imp_le [OF that(2)] that(1) by simp
    ultimately show ?thesis using assms by auto
  qed
  have "filter (\<lambda>i. start \<le> int i \<and> int i < stop \<and> step dvd int i - start) [0..<n]
      = nat start # filter (\<lambda>j. nat start < j \<and> start \<le> int j \<and> int j < stop \<and> step dvd int j - start) [0..<n]"
    by (rule filter_upt_first) (use assms True in auto)
  then show ?thesis using True assms(1) unfolding slice_positions_def d by simp
qed (use assms in \<open>auto simp: slice_positions_def filter_empty_conv\<close>)

lemma filter_upt_last:
  assumes "P i" "i < n" "\<And>j. i < j \<Longrightarrow> \<not> P j"
  shows "filter P [0..<n] = filter (\<lambda>j. j < i \<and> P j) [0..<n] @ [i]"
proof -
  have s: "[0..<n] = [0..<i] @ i # [Suc i..<n]" using assms(2) upt_split [of 0 i n] upt_conv_Cons [of i n] by simp
  have "filter P [Suc i..<n] = []" "filter (\<lambda>j. j < i \<and> P j) [Suc i..<n] = []" using assms(3) by (auto simp: filter_empty_conv)
  moreover have "filter (\<lambda>j. j < i \<and> P j) [0..<i] = filter P [0..<i]" by (rule filter_cong) auto
  ultimately show ?thesis unfolding s using assms(1) by simp
qed

lemma positions_down:
  assumes "step < 0" "- 1 \<le> stop" "start < int n"
  shows "slice_positions n start stop step =
    (if stop < start then nat start # slice_positions n (start + step) stop step else [])"
proof (cases "stop < start")
  case True
  have d: "j < nat start \<and> stop < int j \<and> int j \<le> start \<and> step dvd int j - start
      \<longleftrightarrow> stop < int j \<and> int j \<le> start + step \<and> step dvd int j - (start + step)" for j
  proof -
    have "step dvd int j - start \<longleftrightarrow> step dvd int j - (start + step)"
      using dvd_add_right_iff [of step "- step" "int j - start"] by (simp add: algebra_simps)
    moreover have "int j \<le> start + step" if "int j < start" "step dvd int j - start"
    proof -
      have "- step dvd start - int j" using that(2) by (metis dvd_minus_iff minus_diff_eq minus_dvd_iff)
      then show ?thesis using zdvd_imp_le [of "- step" "start - int j"] that(1) by simp
    qed
    ultimately show ?thesis using assms True by auto
  qed
  have "filter (\<lambda>i. stop < int i \<and> int i \<le> start \<and> step dvd int i - start) [0..<n]
      = filter (\<lambda>j. j < nat start \<and> stop < int j \<and> int j \<le> start \<and> step dvd int j - start) [0..<n] @ [nat start]"
    by (rule filter_upt_last) (use assms True in auto)
  then show ?thesis using True assms(1) unfolding slice_positions_def d by simp
qed (use assms in \<open>auto simp: slice_positions_def filter_empty_conv\<close>)

lemma positions_step_one:
  assumes "0 \<le> start" "start \<le> stop" "stop \<le> int n"
  shows "slice_positions n start stop 1 = [nat start..<nat stop]"
proof -
  have "[0..<n] = [0..<nat start] @ [nat start..<nat stop] @ [nat stop..<n]"
    using assms upt_split [of 0 "nat start" n] upt_split [of "nat start" "nat stop" n] by simp
  moreover have "filter (\<lambda>i. start \<le> int i \<and> int i < stop) [0..<nat start] = []"
    "filter (\<lambda>i. start \<le> int i \<and> int i < stop) [nat stop..<n] = []"
    "filter (\<lambda>i. start \<le> int i \<and> int i < stop) [nat start..<nat stop] = [nat start..<nat stop]"
    by (auto simp: filter_empty_conv filter_id_conv)
  ultimately show ?thesis unfolding slice_positions_def by simp
qed

lemma gives_listI: "list_rep s ys \<Longrightarrow> gives_list grant (Some (Inr s)) ys"
  by (simp add: gives_list_def)

lemma append_cases:
  assumes "list_rep res ys" "grant_ok grant"
  shows "(\<exists>s. mp_obj_list_append grant res x = Some (s, Inr ()) \<and> list_rep s (ys @ [x]))
    \<or> (\<exists>s. mp_obj_list_append grant res x = Some (s, Inl List_MemoryError) \<and> refused grant (Suc (length ys)))"
  using list_append_behaves [OF assms, of x] unfolding behaves_def by auto

lemma extract_up:
  assumes rep: "list_rep self xs" and g: "grant_ok grant"
    and "step > 0" "0 \<le> start" "stop \<le> int (length xs)" "int (length xs) + step < 2 ^ 31" "list_rep res ys"
  shows "gives_list grant (extract_loop grant (list_items self) start stop step res)
    (ys @ map ((!) xs) (slice_positions (length xs) start stop step))"
  using assms(3-)
proof (induction "nat (stop - start)" arbitrary: start res ys rule: less_induct)
  case less
  note p = positions_up [OF less.prems(1-3)]
  show ?case
  proof (cases "start < stop")
    case True
    let ?x = "xs ! nat start"
    have x: "load_obj (list_items self) (nat start) = Some ?x"
      using list_repD(1) [OF rep] True less.prems by simp
    have w: "s32 (start + step) = start + step" using True less.prems by (simp add: wrap_simps)
    show ?thesis
      using append_cases [OF less.prems(5) g, of ?x]
    proof (elim disjE exE conjE)
      fix s assume s: "mp_obj_list_append grant res ?x = Some (s, Inr ())" "list_rep s (ys @ [?x])"
      have "extract_loop grant (list_items self) start stop step res = extract_loop grant (list_items self) (start + step) stop step s"
        using True x w s(1) less.prems by (subst extract_loop.simps) simp
      moreover have "gives_list grant (extract_loop grant (list_items self) (start + step) stop step s)
          ((ys @ [?x]) @ map ((!) xs) (slice_positions (length xs) (start + step) stop step))"
        by (rule less.hyps) (use True less.prems s in auto)
      ultimately show ?thesis using p True by simp
    next
      fix s assume s: "mp_obj_list_append grant res ?x = Some (s, Inl List_MemoryError)" "refused grant (Suc (length ys))"
      have "extract_loop grant (list_items self) start stop step res = Some (Inl List_MemoryError)"
        using True x s(1) less.prems by (subst extract_loop.simps) simp
      moreover have "refused grant (length (ys @ map ((!) xs) (slice_positions (length xs) start stop step)))"
        by (rule refused_mono [OF s(2)]) (use p True in simp)
      ultimately show ?thesis by (simp add: gives_list_def)
    qed
  next
    case False
    then have "extract_loop grant (list_items self) start stop step res = Some (Inr res)"
      using less.prems by (subst extract_loop.simps) simp
    then show ?thesis using False p less.prems(5) by (simp add: gives_listI)
  qed
qed

lemma extract_down:
  assumes rep: "list_rep self xs" and g: "grant_ok grant"
    and "step < 0" "- 1 \<le> stop" "start < int (length xs)" "int (length xs) - step < 2 ^ 31" "list_rep res ys"
  shows "gives_list grant (extract_loop grant (list_items self) start (stop + 1) step res)
    (ys @ map ((!) xs) (slice_positions (length xs) start stop step))"
  using assms(3-)
proof (induction "nat (start - stop)" arbitrary: start res ys rule: less_induct)
  case less
  note p = positions_down [OF less.prems(1-3)]
  show ?case
  proof (cases "stop < start")
    case True
    let ?x = "xs ! nat start"
    have x: "load_obj (list_items self) (nat start) = Some ?x" "\<not> start < 0"
      using list_repD(1) [OF rep] True less.prems by simp_all
    have w: "s32 (start + step) = start + step" using True less.prems by (simp add: wrap_simps)
    show ?thesis
      using append_cases [OF less.prems(5) g, of ?x]
    proof (elim disjE exE conjE)
      fix s assume s: "mp_obj_list_append grant res ?x = Some (s, Inr ())" "list_rep s (ys @ [?x])"
      have "extract_loop grant (list_items self) start (stop + 1) step res
          = extract_loop grant (list_items self) (start + step) (stop + 1) step s"
        using True x w s(1) less.prems by (subst extract_loop.simps) simp
      moreover have "gives_list grant (extract_loop grant (list_items self) (start + step) (stop + 1) step s)
          ((ys @ [?x]) @ map ((!) xs) (slice_positions (length xs) (start + step) stop step))"
        by (rule less.hyps) (use True less.prems s in auto)
      ultimately show ?thesis using p True by simp
    next
      fix s assume s: "mp_obj_list_append grant res ?x = Some (s, Inl List_MemoryError)" "refused grant (Suc (length ys))"
      have "extract_loop grant (list_items self) start (stop + 1) step res = Some (Inl List_MemoryError)"
        using True x s(1) less.prems by (subst extract_loop.simps) simp
      moreover have "refused grant (length (ys @ map ((!) xs) (slice_positions (length xs) start stop step)))"
        by (rule refused_mono [OF s(2)]) (use p True in simp)
      ultimately show ?thesis by (simp add: gives_list_def)
    qed
  next
    case False
    then have "extract_loop grant (list_items self) start (stop + 1) step res = Some (Inr res)"
      using less.prems by (subst extract_loop.simps) simp
    then show ?thesis using False p less.prems(5) by (simp add: gives_listI)
  qed
qed

lemma list_rep_small: "list_rep self xs \<Longrightarrow> list_len self = length xs \<and> length xs < 2 ^ 28"
  unfolding list_rep_def by simp

lemma extract_slice_gives:
  assumes rep: "list_rep self xs" and g: "grant_ok grant" and b: "py_slice_bounds (length xs) a c step = (lo, hi)"
    and step: "step \<noteq> 0" "int (length xs) + \<bar>step\<bar> < 2 ^ 31"
  shows "gives_list grant (mp_seq_extract_slice grant (list_items self) lo
      (if step > 0 then max lo hi else if lo < hi + 1 then lo + 1 else hi + 1) step) (py_slice xs a c step)"
proof -
  have py: "py_slice xs a c step = map ((!) xs) (slice_positions (length xs) lo hi step)"
    using b by (simp add: py_slice_def)
  have loop: "gives_list grant (extract_loop grant (list_items self) lo
      (if step > 0 then max lo hi else if lo < hi + 1 then lo + 1 else hi + 1) step res) (py_slice xs a c step)"
    if res: "list_rep res []" for res
  proof (cases "step > 0")
    case True
    note r = slice_bounds_range(1) [OF b True]
    have "slice_positions (length xs) lo (max lo hi) step = slice_positions (length xs) lo hi step"
      using positions_up [OF True, of lo hi "length xs"] positions_up [OF True, of lo lo "length xs"] r
      by (cases "lo < hi") (auto simp: max_def)
    then show ?thesis using extract_up [OF rep g True _ _ _ res, of lo "max lo hi"] r step True py by simp
  next
    case False
    note r = slice_bounds_range(2) [OF b False]
    have n: "step < 0" using False step(1) by simp
    have e: "(if lo < hi + 1 then lo + 1 else hi + 1) = min lo hi + 1" by (simp add: min_def)
    have "slice_positions (length xs) lo (min lo hi) step = slice_positions (length xs) lo hi step"
      using positions_down [OF n, of hi lo "length xs"] positions_down [OF n, of lo lo "length xs"] r
      by (cases "hi < lo") (auto simp: min_def)
    then show ?thesis using extract_down [OF rep g n _ _ _ res, of "min lo hi" lo] r step n py False unfolding e by simp
  qed
  have "refused grant (length (py_slice xs a c step))" if "refused grant 0" using refused_mono [OF that] by simp
  then show ?thesis
    using new_list_gives [OF g, of "[] :: 'a list"] loop unfolding mp_seq_extract_slice_def gives_list_def by auto
qed

text \<open>Loading a slice.\<close>

lemma load_slice_gives:
  assumes rep: "list_rep self xs" and g: "grant_ok grant" and ok: "slice_ok s"
  shows "slice_values s = Inl e \<Longrightarrow> list_load_slice grant self s = Some (Inl e)"
    "slice_values s = Inr (a, b, step) \<Longrightarrow> int (length xs) + \<bar>step\<bar> < 2 ^ 31 \<Longrightarrow>
      gives_list grant (list_load_slice grant self s) (py_slice xs a b step)"
proof -
  have n: "list_len self = length xs" "length xs < 2 ^ 31" using list_rep_small [OF rep] by auto
  note f = fast_slice_correct [OF ok n(2)]
  show "slice_values s = Inl e \<Longrightarrow> list_load_slice grant self s = Some (Inl e)"
    using f n(1) by (simp add: list_load_slice_def)
  assume v: "slice_values s = Inr (a, b, step)" and small: "int (length xs) + \<bar>step\<bar> < 2 ^ 31"
  obtain lo hi where b: "py_slice_bounds (length xs) a b step = (lo, hi)" by (cases "py_slice_bounds (length xs) a b step")
  have f': "mp_seq_get_fast_slice_indexes (length xs) s
      = Inr (step = 1, lo, if step > 0 then max lo hi else if lo < hi + 1 then lo + 1 else hi + 1, step)"
    using f v b by simp
  show "gives_list grant (list_load_slice grant self s) (py_slice xs a b step)"
  proof (cases "step = 1")
    case False
    then have "list_load_slice grant self s = mp_seq_extract_slice grant (list_items self) lo
        (if step > 0 then max lo hi else if lo < hi + 1 then lo + 1 else hi + 1) step"
      using f' n(1) unfolding list_load_slice_def by simp
    then show ?thesis using extract_slice_gives [OF rep g b slice_values_step [OF v] small] by simp
  next
    case True
    have r: "0 \<le> lo" "lo \<le> int (length xs)" "0 \<le> hi" "hi \<le> int (length xs)"
      using slice_bounds_range(1) [OF b] True by auto
    let ?m = "max lo hi"
    have run: "list_load_slice grant self s = cells_from (list_items self) (nat lo) (nat (?m - lo)) \<bind> list_of_cells grant (nat (?m - lo))"
      using f' n(1) True unfolding list_load_slice_def by simp
    have "slice_positions (length xs) lo hi 1 = [nat lo..<nat ?m]"
    proof (cases "lo \<le> hi")
      case True
      then show ?thesis using positions_step_one [of lo hi "length xs"] r by (simp add: max_def)
    next
      case False
      then show ?thesis using positions_up [of 1 lo hi "length xs"] r by (simp add: max_def)
    qed
    then have py: "py_slice xs a b step = take (nat (?m - lo)) (drop (nat lo) xs)"
      using b True r unfolding py_slice_def by (auto intro!: nth_equalityI simp: max_def nat_diff_distrib)
    have "cells_from (list_items self) (nat lo) (nat (?m - lo)) = Some (map Obj (py_slice xs a b step))"
      unfolding list_repD(1) [OF rep] py by (rule cells_from_map) (use r in \<open>auto simp: max_def\<close>)
    moreover have "length (py_slice xs a b step) = nat (?m - lo)" using r unfolding py by (auto simp: max_def)
    ultimately show ?thesis unfolding run
      using list_of_cells_gives [OF g, of "py_slice xs a b step"] list_rep_small [OF rep] r by (simp add: max_def split: if_splits)
  qed
qed

section \<open>Replacing a slice\<close>

definition replace_range :: "'a list \<Rightarrow> nat \<Rightarrow> nat \<Rightarrow> 'a list \<Rightarrow> 'a list" where
  "replace_range xs lo hi ys = take lo xs @ ys @ drop hi xs"

lemma replace_no_grow_correct:
  assumes rep: "list_rep self xs" and r: "lo \<le> hi" "hi \<le> length xs" "length ys \<le> hi - lo"
  shows "\<exists>s. replace_no_grow self lo hi (map Obj ys) (length xs + length ys - (hi - lo)) = Some s \<and> list_rep s (replace_range xs lo hi ys)"
proof -
  note q = list_repD [OF rep]
  define n where "n = length xs + length ys - (hi - lo)"
  let ?R = "replicate (list_alloc self - length xs) No_Obj"
  have n: "lo + length ys + (length xs - hi) = n" "n \<le> length xs" "length (replace_range xs lo hi ys) = n"
    using r by (simp_all add: n_def replace_range_def)
  define t where "t = drop (lo + length ys) xs"
  have a: "copy_cells (list_items self) lo (map Obj ys) = Some (map Obj (take lo xs @ ys @ t) @ ?R)"
    unfolding q(1) t_def using r by (simp add: copy_cells_def take_map drop_map)
  have len: "length (take lo xs @ ys @ t) = length xs" "drop hi (take lo xs @ ys @ t) = drop hi xs"
    using r by (simp_all add: t_def)
  have b: "cells_from (map Obj (take lo xs @ ys @ t) @ ?R) hi (length xs - hi) = Some (map Obj (drop hi xs))"
    using cells_from_map [of hi "length xs - hi" "take lo xs @ ys @ t" ?R] len r by simp
  define c where "c = drop n xs"
  have lt: "drop (length xs - hi) t = c" using r n by (simp add: t_def c_def add.commute)
  have d: "copy_cells (map Obj (take lo xs @ ys @ t) @ ?R) (lo + length ys) (map Obj (drop hi xs))
      = Some (map Obj (replace_range xs lo hi ys) @ map Obj c @ ?R)"
    using r lt [symmetric] by (simp add: copy_cells_def replace_range_def t_def drop_map)
  have "length c = length xs - n" by (simp add: c_def)
  then have e: "mp_seq_clear (map Obj (replace_range xs lo hi ys) @ map Obj c @ ?R) n (length xs)
      = Some (map Obj (replace_range xs lo hi ys) @ replicate (length xs - n) No_Obj @ ?R)"
    using n by (simp add: mp_seq_clear_def)
  have f: "replicate (length xs - n) No_Obj @ ?R = replicate (list_alloc self - n) (No_Obj :: 'a cell)"
    using n(2) q(3) by (simp add: replicate_add [symmetric])
  have "replace_no_grow self lo hi (map Obj ys) n
      = Some (self\<lparr>list_items := map Obj (replace_range xs lo hi ys) @ replicate (list_alloc self - n) No_Obj, list_len := n\<rparr>)"
    unfolding replace_no_grow_def q(2) using a b d e f by simp
  moreover have "list_rep (self\<lparr>list_items := map Obj (replace_range xs lo hi ys) @ replicate (list_alloc self - n) No_Obj, list_len := n\<rparr>)
      (replace_range xs lo hi ys)"
    by (rule list_rep_update(1) [OF rep]) (use n q(3) in auto)
  ultimately show ?thesis unfolding n_def by blast
qed

text \<open>The objects that are stored in a slice; the list's own are those before the operation.\<close>

definition stored_values :: "'a list \<Rightarrow> 'a store_array \<Rightarrow> 'a list option" where
  "stored_values xs value = (case value of Own_Array \<Rightarrow> Some xs | Array ys \<Rightarrow> Some ys | _ \<Rightarrow> None)"

lemma store_cells_correct:
  assumes "list_rep self xs" "stored_values xs value = Some ys" "\<not> moved \<and> value = Own_Array \<longrightarrow> (\<exists>cs. items = map Obj xs @ cs)"
  shows "store_cells self moved items value = Some (map Obj ys)"
  using assms list_repD(1,2) [OF assms(1)] cells_from_map [of 0 "length xs" xs]
  by (auto simp: store_cells_def stored_values_def split: store_array.splits)

lemma replace_grow_behaves:
  assumes rep: "list_rep self xs" and g: "grant_ok grant" and r: "lo \<le> hi" "hi \<le> length xs" "hi - lo < length ys"
    and small: "length ys < 2 ^ 28" and val: "stored_values xs value = Some ys"
  shows "behaves grant (replace_grow grant moves self lo hi value (length ys) (length xs + length ys - (hi - lo)))
    (replace_range xs lo hi ys) (Inr ()) {xs}"
proof -
  note q = list_repD [OF rep]
  define n where "n = length xs + length ys - (hi - lo)"
  have n: "lo + length ys + (length xs - hi) = n" "length xs < n" "length (replace_range xs lo hi ys) = n" "n < 2 ^ 30"
    using r small q(3,5) by (simp_all add: n_def replace_range_def)
  have store: "\<exists>cs it. cells_from (map Obj xs @ R) hi (n - (lo + length ys)) = Some cs
       \<and> copy_cells (map Obj xs @ R) (lo + length ys) cs = Some it
       \<and> (\<forall>m. store_cells self m it value = Some (map Obj ys))
       \<and> copy_cells it lo (map Obj ys) = Some (map Obj (replace_range xs lo hi ys) @ drop (n - length xs) R)"
    if R: "n \<le> length xs + length R" for R
  proof -
    have k: "n - (lo + length ys) = length xs - hi" using n(1) by simp
    have a: "cells_from (map Obj xs @ R) hi (n - (lo + length ys)) = Some (map Obj (drop hi xs))"
      unfolding k using cells_from_map [of hi "length xs - hi" xs R] r by simp
    have b: "copy_cells (map Obj xs @ R) (lo + length ys) (map Obj (drop hi xs))
        = Some (take (lo + length ys) (map Obj xs @ R) @ map Obj (drop hi xs) @ drop (n - length xs) R)"
      using n R r by (simp add: copy_cells_def)
    define p where "p = take (lo + length ys) (map Obj xs @ R)"
    have "lo + length ys \<le> length xs + length R" using n(1) R by linarith
    then have p: "take lo p = map Obj (take lo xs)" "length p = lo + length ys"
      using r by (auto simp: p_def take_map min_def)
    have "copy_cells (p @ map Obj (drop hi xs) @ drop (n - length xs) R) lo (map Obj ys)
        = Some (map Obj (replace_range xs lo hi ys) @ drop (n - length xs) R)"
      using p by (simp add: copy_cells_def replace_range_def)
    moreover have "store_cells self m (p @ map Obj (drop hi xs) @ drop (n - length xs) R) value = Some (map Obj ys)" for m
    proof (rule store_cells_correct [OF rep val], intro impI)
      assume "\<not> m \<and> value = Own_Array"
      then have "ys = xs" using val by (simp add: stored_values_def)
      then have "p = map Obj xs @ take (lo + length ys - length xs) R" by (simp add: p_def)
      then show "\<exists>cs. p @ map Obj (drop hi xs) @ drop (n - length xs) R = map Obj xs @ cs" by simp
    qed
    ultimately show ?thesis using a b unfolding p_def by simp
  qed
  show ?thesis
  proof (cases "n > list_alloc self")
    case True
    have m: "m_renew grant (list_items self) n = (if grant (4 * n) then Some (list_items self @ replicate (n - list_alloc self) Unset) else None)"
      "grant (4 * n) \<Longrightarrow> n < 2 ^ 28"
      using m_renew_cases(1) [OF g, of "list_items self" n] m_renew_cases(2) [OF g, of "list_items self" n] n q(6) True by auto
    show ?thesis
    proof (cases "grant (4 * n)")
      case gr: True
      let ?R = "replicate (list_alloc self - length xs) No_Obj @ replicate (n - list_alloc self) Unset"
      have d: "drop (n - length xs) ?R = []" using q(3) True by simp
      have e: "list_items self @ replicate (n - list_alloc self) Unset = map Obj xs @ ?R" using q(1) by simp
      obtain cs it where it: "cells_from (map Obj xs @ ?R) hi (n - (lo + length ys)) = Some cs"
        "copy_cells (map Obj xs @ ?R) (lo + length ys) cs = Some it" "\<And>m. store_cells self m it value = Some (map Obj ys)"
        "copy_cells it lo (map Obj ys) = Some (map Obj (replace_range xs lo hi ys))"
        using store [of ?R] q(3) True unfolding d by auto
      have "replace_grow grant moves self lo hi value (length ys) n
          = Some (self\<lparr>list_alloc := n, list_items := map Obj (replace_range xs lo hi ys), list_len := n\<rparr>, Inr ())"
        using True gr m(1) it unfolding replace_grow_def e by (simp add: Let_def)
      moreover have "list_rep (self\<lparr>list_alloc := n, list_items := map Obj (replace_range xs lo hi ys), list_len := n\<rparr>) (replace_range xs lo hi ys)"
        using m(2) [OF gr] n q(4) True by (simp add: list_rep_def)
      ultimately show ?thesis unfolding behaves_def n_def by blast
    next
      case no: False
      have "refused grant (length (replace_range xs lo hi ys))" by (rule refusedI [of grant "4 * n"]) (use no n(3) in simp_all)
      then show ?thesis using no True m(1) rep by (auto simp: replace_grow_def behaves_def Let_def n_def [symmetric])
    qed
  next
    case False
    let ?R = "replicate (list_alloc self - length xs) No_Obj"
    have d: "drop (n - length xs) ?R = replicate (list_alloc self - n) No_Obj" using n(2) by simp
    obtain cs it where it: "cells_from (list_items self) hi (n - (lo + length ys)) = Some cs"
      "copy_cells (list_items self) (lo + length ys) cs = Some it" "\<And>m. store_cells self m it value = Some (map Obj ys)"
      "copy_cells it lo (map Obj ys) = Some (map Obj (replace_range xs lo hi ys) @ replicate (list_alloc self - n) No_Obj)"
      using store [of ?R] q(3) False unfolding d q(1) [symmetric] by auto
    have "replace_grow grant moves self lo hi value (length ys) n
        = Some (self\<lparr>list_items := map Obj (replace_range xs lo hi ys) @ replicate (list_alloc self - n) No_Obj, list_len := n\<rparr>, Inr ())"
      using False it unfolding replace_grow_def by (simp add: Let_def)
    moreover have "list_rep (self\<lparr>list_items := map Obj (replace_range xs lo hi ys) @ replicate (list_alloc self - n) No_Obj, list_len := n\<rparr>)
        (replace_range xs lo hi ys)"
      by (rule list_rep_update(1) [OF rep]) (use n False in auto)
    ultimately show ?thesis unfolding behaves_def n_def by blast
  qed
qed

section \<open>Deleting and storing slices\<close>

lemma slice_range:
  assumes rep: "list_rep self xs" and ok: "slice_ok s" and v: "slice_values s = Inr (a, b, step)"
  shows "\<exists>lo hi. py_slice_bounds (length xs) a b step = (lo, hi)
    \<and> mp_seq_get_fast_slice_indexes (list_len self) s
        = Inr (step = 1, lo, if step > 0 then max lo hi else if lo < hi + 1 then lo + 1 else hi + 1, step)
    \<and> (step = 1 \<longrightarrow> 0 \<le> lo \<and> lo \<le> int (length xs) \<and> 0 \<le> hi \<and> hi \<le> int (length xs))"
proof -
  have n: "list_len self = length xs" "length xs < 2 ^ 31" using list_rep_small [OF rep] by auto
  obtain lo hi where b: "py_slice_bounds (length xs) a b step = (lo, hi)" by (cases "py_slice_bounds (length xs) a b step")
  have "step = 1 \<Longrightarrow> 0 \<le> lo \<and> lo \<le> int (length xs) \<and> 0 \<le> hi \<and> hi \<le> int (length xs)"
    using slice_bounds_range(1) [OF b] by simp
  then show ?thesis using fast_slice_correct [OF ok n(2)] v b n(1) by simp
qed

lemma slice_range_error:
  assumes "list_rep self xs" "slice_ok s" "slice_values s = Inl e"
  shows "mp_seq_get_fast_slice_indexes (list_len self) s = Inl e"
  using fast_slice_correct [OF assms(2), of "length xs"] list_rep_small [OF assms(1)] assms(3) by simp

text \<open>The list in which a slice is replaced by other objects, as the code does it: only a step of one is implemented.\<close>

definition code_replace_slice :: "'a list \<Rightarrow> slice_obj \<Rightarrow> 'a list \<Rightarrow> list_error + 'a list" where
  "code_replace_slice xs s ys =
     (case slice_values s of
        Inl e \<Rightarrow> Inl e
      | Inr (a, b, step) \<Rightarrow>
          if step \<noteq> 1 then Inl List_NotImplementedError
          else let (lo, hi) = py_slice_bounds (length xs) a b step
               in Inr (replace_range xs (nat lo) (nat (max lo hi)) ys))"

lemma new_length:
  assumes "0 \<le> lo" "lo \<le> m" "m \<le> int n"
  shows "nat (int n + (int k - (m - lo))) = n + k - (nat m - nat lo)"
proof -
  obtain p q where "lo = int p" "m = int q" using assms by (metis nonneg_int_cases order_trans)
  then show ?thesis using assms by simp
qed

lemma delete_slice_behaves:
  assumes rep: "list_rep self xs" and ok: "slice_ok s"
  shows "case code_replace_slice xs s [] of
      Inl e \<Rightarrow> list_delete_slice self s = Some (self, Inl e)
    | Inr ys \<Rightarrow> behaves grant (list_delete_slice self s) ys (Inr ()) F"
proof (cases "slice_values s")
  case (Inl e)
  then show ?thesis using slice_range_error [OF rep ok Inl] by (simp add: list_delete_slice_def code_replace_slice_def)
next
  case (Inr v)
  then obtain a b step where v: "slice_values s = Inr (a, b, step)" using Inr by (cases v) auto
  obtain lo hi where b: "py_slice_bounds (length xs) a b step = (lo, hi)"
    "mp_seq_get_fast_slice_indexes (list_len self) s
      = Inr (step = 1, lo, if step > 0 then max lo hi else if lo < hi + 1 then lo + 1 else hi + 1, step)"
    "step = 1 \<longrightarrow> 0 \<le> lo \<and> lo \<le> int (length xs) \<and> 0 \<le> hi \<and> hi \<le> int (length xs)"
    using slice_range [OF rep ok v] by blast
  show ?thesis
  proof (cases "step = 1")
    case True
    let ?m = "max lo hi"
    have r: "nat lo \<le> nat ?m" "nat ?m \<le> length xs" "0 \<le> lo" using b(3) True by auto
    have n: "nat (int (list_len self) + (lo - ?m)) = length xs - (nat ?m - nat lo)"
      using new_length [of lo ?m "length xs" 0] b(3) True list_repD(2) [OF rep] by simp
    obtain s' where s': "replace_no_grow self (nat lo) (nat ?m) [] (length xs - (nat ?m - nat lo)) = Some s'"
      "list_rep s' (replace_range xs (nat lo) (nat ?m) [])"
      using replace_no_grow_correct [OF rep r(1,2), of "[]"] by auto
    then show ?thesis using b(1,2) v True n by (simp add: list_delete_slice_def code_replace_slice_def behaves_def Let_def)
  next
    case False
    then show ?thesis using b(2) v by (simp add: list_delete_slice_def code_replace_slice_def)
  qed
qed

lemma store_slice_behaves:
  assumes rep: "list_rep self xs" and ok: "slice_ok s" and g: "grant_ok grant" and small: "length vs < 2 ^ 28"
    and val: "stored_values xs value = Some vs"
  shows "case code_replace_slice xs s vs of
      Inl e \<Rightarrow> list_store_slice grant moves self s value = Some (self, Inl e)
    | Inr ys \<Rightarrow> behaves grant (list_store_slice grant moves self s value) ys (Inr ()) {xs}"
proof -
  have len: "(case value of Own_Array \<Rightarrow> Some (list_len self) | Array xs \<Rightarrow> Some (length xs) | _ \<Rightarrow> None) = Some (length vs)"
    using val list_repD(2) [OF rep] by (auto simp: stored_values_def split: store_array.splits)
  show ?thesis
  proof (cases "slice_values s")
    case (Inl e)
    then show ?thesis using slice_range_error [OF rep ok Inl] by (simp add: list_store_slice_def len code_replace_slice_def)
  next
    case (Inr v)
    then obtain a b step where v: "slice_values s = Inr (a, b, step)" using Inr by (cases v) auto
    obtain lo hi where b: "py_slice_bounds (length xs) a b step = (lo, hi)"
      "mp_seq_get_fast_slice_indexes (list_len self) s
        = Inr (step = 1, lo, if step > 0 then max lo hi else if lo < hi + 1 then lo + 1 else hi + 1, step)"
      "step = 1 \<longrightarrow> 0 \<le> lo \<and> lo \<le> int (length xs) \<and> 0 \<le> hi \<and> hi \<le> int (length xs)"
      using slice_range [OF rep ok v] by blast
    show ?thesis
    proof (cases "step = 1")
      case True
      let ?m = "max lo hi"
      have r: "nat lo \<le> nat ?m" "nat ?m \<le> length xs" "0 \<le> lo" "lo \<le> ?m" "?m \<le> int (length xs)" using b(3) True by auto
      have l: "list_len self = length xs" "length xs < 2 ^ 28" using list_rep_small [OF rep] by auto
      have adj: "s32 (int (length vs) - (?m - lo)) = int (length vs) - (?m - lo)"
        using r l small by (intro s32_id) auto
      define N where "N = length xs + length vs - (nat ?m - nat lo)"
      have n: "nat (int (length xs) + (int (length vs) - (?m - lo))) = N"
        unfolding N_def by (rule new_length [OF r(3-5)])
      have own: "store_cells self False (list_items self) value = Some (map Obj vs)"
        using list_repD(1) [OF rep] by (intro store_cells_correct [OF rep val]) auto
      have run: "list_store_slice grant moves self s value = (if int (length vs) - (?m - lo) > 0
          then replace_grow grant moves self (nat lo) (nat ?m) value (length vs) N
          else replace_no_grow self (nat lo) (nat ?m) (map Obj vs) N \<bind> (\<lambda>self. Some (self, Inr ())))"
        using b(2) True adj n l(1) by (simp add: list_store_slice_def len own Let_def)
      have py: "code_replace_slice xs s vs = Inr (replace_range xs (nat lo) (nat ?m) vs)"
        using v b(1) True by (simp add: code_replace_slice_def)
      show ?thesis
      proof (cases "int (length vs) - (?m - lo) > 0")
        case True
        have "nat ?m - nat lo < length vs" using True nat_diff_distrib [OF r(3,4)] by linarith
        then show ?thesis using replace_grow_behaves [OF rep g r(1,2) _ small val, folded N_def] True run py by simp
      next
        case False
        have "length vs \<le> nat ?m - nat lo" using False nat_diff_distrib [OF r(3,4)] by linarith
        then show ?thesis using replace_no_grow_correct [OF rep r(1,2), of vs, folded N_def] False run py by (auto simp: behaves_def)
      qed
    next
      case False
      then show ?thesis using b(2) v by (simp add: list_store_slice_def len code_replace_slice_def)
    qed
  qed
qed

end
