(* ===== verification/ListRun.thy ===== *)
theory ListRun
  imports SliceLaws
begin

text \<open>
  Programs of list operations: the effect that Python gives to each operation, the operations with which the
  code deviates from it, the agreement of all others, and their sequences until memory is refused; the
  construction, the sum, the iterator and the length of lists.
\<close>

section \<open>Programs of list operations\<close>

text \<open>The methods and subscripts that have a determined effect; \<open>Op_Subscr\<close> loads, stores and deletes.\<close>

datatype 'a list_op = Op_Append 'a | Op_Extend "'a operand" | Op_Pop "index_obj option" | Op_Insert index_obj 'a
  | Op_Remove 'a | Op_Clear | Op_Reverse | Op_Subscr subscript "'a subscr_value"

datatype 'a op_value = No_Value | Object 'a | Sequence "'a list"

definition value_of :: "('r \<Rightarrow> 'a op_value) \<Rightarrow> ('a, 'r) outcome \<Rightarrow> ('a, 'a op_value) outcome" where
  "value_of f r = map_option (\<lambda>(s, r). (s, case r of Inl e \<Rightarrow> Inl e | Inr x \<Rightarrow> Inr (f x))) r"

text \<open>A new list is shown as the list of its objects.\<close>

fun shown_result :: "'a subscr_result \<Rightarrow> 'a op_value option" where
  "shown_result Subscr_None = Some No_Value"
| "shown_result (Subscr_Obj x) = Some (Object x)"
| "shown_result (Subscr_List s) = map_option Sequence (list_objs s)"

definition shown_subscr :: "('a, 'a subscr_result) outcome \<Rightarrow> ('a, 'a op_value) outcome" where
  "shown_subscr r = do {
     (s, r) \<leftarrow> r;
     (case r of Inl e \<Rightarrow> Some (s, Inl e) | Inr x \<Rightarrow> map_option (\<lambda>v. (s, Inr v)) (shown_result x)) }"

text \<open>
  The circumstances of a program: the allocator (what it serves and when it moves an array), the words of
  objects, the object None and the equality.
\<close>

record 'a list_world =
  grants :: "nat \<Rightarrow> bool"
  moves_array :: "nat \<Rightarrow> bool"
  obj_word :: "index_obj \<Rightarrow> 32 word"
  none_obj :: 'a
  obj_eq :: "'a \<Rightarrow> 'a \<Rightarrow> bool"

fun exec_op :: "'a list_world \<Rightarrow> 'a list_op \<Rightarrow> 'a mp_list \<Rightarrow> ('a, 'a op_value) outcome" where
  "exec_op w (Op_Append x) self = value_of (\<lambda>_. No_Value) (mp_obj_list_append (grants w) self x)"
| "exec_op w (Op_Extend arg) self = value_of (\<lambda>_. No_Value) (list_extend (grants w) self arg)"
| "exec_op w (Op_Pop arg) self = value_of Object (list_pop (grants w) self arg)"
| "exec_op w (Op_Insert idx x) self = value_of (\<lambda>_. No_Value) (list_insert (grants w) (obj_word w) (none_obj w) self idx x)"
| "exec_op w (Op_Remove x) self = value_of (\<lambda>_. No_Value) (mp_obj_list_remove (grants w) (obj_eq w) self x)"
| "exec_op w Op_Clear self = value_of (\<lambda>_. No_Value) (list_clear (grants w) self)"
| "exec_op w Op_Reverse self = value_of (\<lambda>_. No_Value) (list_reverse self)"
| "exec_op w (Op_Subscr index value) self = shown_subscr (list_subscr (grants w) (moves_array w) self index value)"

section \<open>Python's lists\<close>

text \<open>
  What Python does to a list; integers have no bound here.  An index counts from the end when it is negative;
  a slice with a step is deleted, or replaced by as many objects.
\<close>

definition py_operand :: "'a list \<Rightarrow> 'a operand \<Rightarrow> 'a list option" where
  "py_operand xs arg =
     (case arg of Same_List \<Rightarrow> Some xs | Other_List p \<Rightarrow> list_objs p | Iterable ys \<Rightarrow> Some ys | Single_Obj _ \<Rightarrow> None)"

definition py_pop :: "'a list \<Rightarrow> index_obj option \<Rightarrow> list_error + nat" where
  "py_pop xs arg =
     (case arg of
        None \<Rightarrow> if xs = [] then Inl List_IndexError else Inr (length xs - 1)
      | Some i \<Rightarrow> py_index (length xs) i)"

definition py_delete_slice :: "'a list \<Rightarrow> slice_obj \<Rightarrow> list_error + 'a list" where
  "py_delete_slice xs s =
     (case slice_values s of
        Inl e \<Rightarrow> Inl e
      | Inr (a, b, step) \<Rightarrow>
          (let (lo, hi) = py_slice_bounds (length xs) a b step
           in if step = 1 then Inr (replace_range xs (nat lo) (nat (max lo hi)) [])
              else Inr (map ((!) xs) (filter (\<lambda>i. i \<notin> set (slice_positions (length xs) lo hi step)) [0..<length xs]))))"

definition py_store_slice :: "'a list \<Rightarrow> slice_obj \<Rightarrow> 'a list \<Rightarrow> list_error + 'a list" where
  "py_store_slice xs s ys =
     (case slice_values s of
        Inl e \<Rightarrow> Inl e
      | Inr (a, b, step) \<Rightarrow>
          (let (lo, hi) = py_slice_bounds (length xs) a b step; ps = slice_positions (length xs) lo hi step
           in if step = 1 then Inr (replace_range xs (nat lo) (nat (max lo hi)) ys)
              else if length ys = length ps then Inr (foldl (\<lambda>zs (p, y). zs[p := y]) xs (zip ps ys))
              else Inl List_ValueError))"

text \<open>Python takes the objects of anything it can iterate over.\<close>

definition py_array :: "'a list \<Rightarrow> 'a store_array \<Rightarrow> 'a list option" where
  "py_array xs value =
     (case value of Own_Array \<Rightarrow> Some xs | Array ys \<Rightarrow> Some ys | Iterable_Array ys \<Rightarrow> Some ys | Not_Iterable \<Rightarrow> None)"

definition in_place :: "'a list \<Rightarrow> list_error + 'a list \<Rightarrow> 'a list \<times> (list_error + 'a op_value)" where
  "in_place xs r = (case r of Inl e \<Rightarrow> (xs, Inl e) | Inr ys \<Rightarrow> (ys, Inr No_Value))"

fun py_subscr :: "'a list \<Rightarrow> subscript \<Rightarrow> 'a subscr_value \<Rightarrow> 'a list \<times> (list_error + 'a op_value)" where
  "py_subscr xs (Index i) Subscr_Delete =
     (case py_pop xs (Some i) of Inl e \<Rightarrow> (xs, Inl e) | Inr k \<Rightarrow> (delete_at k xs, Inr No_Value))"
| "py_subscr xs (Index i) Subscr_Load =
     (xs, case py_index (length xs) i of Inl e \<Rightarrow> Inl e | Inr k \<Rightarrow> Inr (Object (xs ! k)))"
| "py_subscr xs (Index i) (Subscr_Store x vs) =
     (case py_index (length xs) i of Inl e \<Rightarrow> (xs, Inl e) | Inr k \<Rightarrow> (xs[k := x], Inr No_Value))"
| "py_subscr xs (Slice s) Subscr_Delete = in_place xs (py_delete_slice xs s)"
| "py_subscr xs (Slice s) Subscr_Load =
     (xs, case slice_values s of Inl e \<Rightarrow> Inl e | Inr (a, b, step) \<Rightarrow> Inr (Sequence (py_slice xs a b step)))"
| "py_subscr xs (Slice s) (Subscr_Store x vs) =
     in_place xs (case py_array xs vs of
         None \<Rightarrow> (case slice_values s of Inl e \<Rightarrow> Inl e | Inr _ \<Rightarrow> Inl List_TypeError)
       | Some ys \<Rightarrow> py_store_slice xs s ys)"

fun py_op :: "'a list_world \<Rightarrow> 'a list_op \<Rightarrow> 'a list \<Rightarrow> 'a list \<times> (list_error + 'a op_value)" where
  "py_op w (Op_Append x) xs = (xs @ [x], Inr No_Value)"
| "py_op w (Op_Extend arg) xs =
     (case py_operand xs arg of None \<Rightarrow> (xs, Inl List_TypeError) | Some ys \<Rightarrow> (xs @ ys, Inr No_Value))"
| "py_op w (Op_Pop arg) xs =
     (case py_pop xs arg of Inl e \<Rightarrow> (xs, Inl e) | Inr k \<Rightarrow> (delete_at k xs, Inr (Object (xs ! k))))"
| "py_op w (Op_Insert idx x) xs =
     (case py_clip (length xs) idx of Inl e \<Rightarrow> (xs, Inl e) | Inr k \<Rightarrow> (insert_at k x xs, Inr No_Value))"
| "py_op w (Op_Remove x) xs =
     (case remove_first (obj_eq w) x xs of None \<Rightarrow> (xs, Inl List_ValueError) | Some ys \<Rightarrow> (ys, Inr No_Value))"
| "py_op w Op_Clear xs = ([], Inr No_Value)"
| "py_op w Op_Reverse xs = (rev xs, Inr No_Value)"
| "py_op w (Op_Subscr index value) xs = py_subscr xs index value"

section \<open>Deviations\<close>

text \<open>Well-formed operands: integers, other lists, and arrays that are not larger than memory.\<close>

definition slice_wf :: "slice_obj \<Rightarrow> bool" where
  "slice_wf s \<longleftrightarrow> pred_option index_wf (slice_start s) \<and> pred_option index_wf (slice_stop s)
     \<and> pred_option index_wf (slice_step s)"

fun op_ok :: "'a list_op \<Rightarrow> bool" where
  "op_ok (Op_Extend (Other_List p)) \<longleftrightarrow> (case list_objs p of None \<Rightarrow> False | Some ys \<Rightarrow> list_rep p ys)"
| "op_ok (Op_Pop arg) \<longleftrightarrow> pred_option index_wf arg"
| "op_ok (Op_Insert idx x) \<longleftrightarrow> index_wf idx"
| "op_ok (Op_Subscr (Index i) value) \<longleftrightarrow> index_wf i"
| "op_ok (Op_Subscr (Slice s) value) \<longleftrightarrow> slice_wf s
     \<and> (case value of Subscr_Store x (Array vs) \<Rightarrow> length vs < 2 ^ 28 | _ \<Rightarrow> True)"
| "op_ok _ \<longleftrightarrow> True"

text \<open>
  Where the code is not Python's, for a list \<open>xs\<close>: an index or a part of a slice that does not fit into a
  machine word (\<open>OverflowError\<close>); an index of \<open>insert\<close> that is not a small integer (it is used without a
  conversion); an index that is no integer, on an empty list (popping and deleting look at the length
  first); a step that reaches past \<open>2 ^ 31\<close>; a step other than one where a slice is deleted or stored
  (\<open>NotImplementedError\<close>); a value for a slice that is neither a list nor a tuple (\<open>TypeError\<close>).
\<close>

definition slice_word :: "slice_obj \<Rightarrow> bool" where
  "slice_word s \<longleftrightarrow> pred_option index_word (slice_start s) \<and> pred_option index_word (slice_stop s)
     \<and> pred_option index_word (slice_step s)"

definition step_is :: "(int \<Rightarrow> bool) \<Rightarrow> slice_obj \<Rightarrow> bool" where
  "step_is P s \<longleftrightarrow> (case slice_values s of Inl _ \<Rightarrow> False | Inr (a, b, step) \<Rightarrow> P step)"

fun slice_deviates :: "'a list \<Rightarrow> slice_obj \<Rightarrow> 'a subscr_value \<Rightarrow> bool" where
  "slice_deviates xs s Subscr_Load \<longleftrightarrow> step_is (\<lambda>step. int (length xs) + \<bar>step\<bar> \<ge> 2 ^ 31) s"
| "slice_deviates xs s Subscr_Delete \<longleftrightarrow> step_is (\<lambda>step. step \<noteq> 1) s"
| "slice_deviates xs s (Subscr_Store x Own_Array) \<longleftrightarrow> step_is (\<lambda>step. step \<noteq> 1) s"
| "slice_deviates xs s (Subscr_Store x (Array vs)) \<longleftrightarrow> step_is (\<lambda>step. step \<noteq> 1) s"
| "slice_deviates xs s (Subscr_Store x (Iterable_Array vs)) \<longleftrightarrow> True"
| "slice_deviates xs s (Subscr_Store x Not_Iterable) \<longleftrightarrow> \<not> step_is (\<lambda>step. True) s"

fun op_deviates :: "'a list \<Rightarrow> 'a list_op \<Rightarrow> bool" where
  "op_deviates xs (Op_Pop (Some i)) \<longleftrightarrow> \<not> index_word i \<or> xs = [] \<and> i = Index_Other"
| "op_deviates xs (Op_Insert idx x) \<longleftrightarrow> (case idx of Index_Int (Small v) \<Rightarrow> False | _ \<Rightarrow> True)"
| "op_deviates xs (Op_Subscr (Index i) value) \<longleftrightarrow>
     \<not> index_word i \<or> value = Subscr_Delete \<and> xs = [] \<and> i = Index_Other"
| "op_deviates xs (Op_Subscr (Slice s) value) \<longleftrightarrow> \<not> slice_word s \<or> slice_deviates xs s value"
| "op_deviates xs _ \<longleftrightarrow> False"

lemma slice_okI: "slice_wf s \<Longrightarrow> slice_word s \<Longrightarrow> slice_ok s"
  by (auto simp: slice_wf_def slice_word_def slice_ok_def index_obj_ok_def pred_option_def)

section \<open>One operation\<close>

text \<open>
  One operation: it leaves the expected list with the expected result, or memory for the list or for the
  result was refused and it raises \<open>MemoryError\<close>, with a list left whose objects are all there.
\<close>

definition list_sane :: "'a mp_list \<Rightarrow> bool" where
  "list_sane self \<longleftrightarrow> (\<exists>xs cs. list_items self = map Obj xs @ cs \<and> list_len self = length xs
     \<and> length (list_items self) = list_alloc self)"

definition op_size :: "'a list \<times> (list_error + 'a op_value) \<Rightarrow> nat" where
  "op_size expected = max (length (fst expected)) (case snd expected of Inr (Sequence vs) \<Rightarrow> length vs | _ \<Rightarrow> 0)"

definition agrees ::
  "(nat \<Rightarrow> bool) \<Rightarrow> ('a, 'a op_value) outcome \<Rightarrow> 'a list \<times> (list_error + 'a op_value) \<Rightarrow> bool" where
  "agrees grant res expected \<longleftrightarrow>
     (\<exists>self q. res = Some (self, q)
        \<and> (list_rep self (fst expected) \<and> q = snd expected
           \<or> q = Inl List_MemoryError \<and> refused grant (op_size expected) \<and> list_sane self))"

lemma rep_sane: "list_rep self xs \<Longrightarrow> list_sane self"
  unfolding list_sane_def by (metis list_repD(1,2,6))

lemma agrees_value_of:
  assumes "behaves grant res ys (Inr x) F"
  shows "agrees grant (value_of f res) (ys, Inr (f x))"
proof -
  obtain s q where s: "res = Some (s, q)"
    "list_rep s ys \<and> q = Inr x \<or> q = Inl List_MemoryError \<and> refused grant (length ys) \<and> (\<exists>zs \<in> F. list_rep s zs)"
    using assms unfolding behaves_def by blast
  have "refused grant (op_size (ys, Inr (f x)))" if "refused grant (length ys)"
    using refused_mono [OF that] by (simp add: op_size_def)
  then show ?thesis using s rep_sane unfolding agrees_def value_of_def by fastforce
qed

lemma error_agrees: "list_rep self xs \<Longrightarrow> res = Some (self, Inl e) \<Longrightarrow> agrees grant (value_of f res) (xs, Inl e)"
  unfolding agrees_def value_of_def by simp

lemma shown_value:
  "shown_subscr (subscr_outcome (\<lambda>_. Subscr_None) r) = value_of (\<lambda>_. No_Value) r"
  by (cases r) (auto simp: shown_subscr_def subscr_outcome_def value_of_def split: sum.split)

lemma extend_agrees:
  assumes rep: "list_rep self xs" and g: "grant_ok grant" and ok: "op_ok (Op_Extend arg)"
  shows "agrees grant (value_of (\<lambda>_. No_Value) (list_extend grant self arg))
    (case py_operand xs arg of None \<Rightarrow> (xs, Inl List_TypeError) | Some ys \<Rightarrow> (xs @ ys, Inr No_Value))"
proof (cases arg)
  case Same_List
  have "cells_from (map Obj xs @ cs) 0 (length xs) = Some (map Obj xs)" for cs :: "'a cell list"
    by (simp add: cells_from_map)
  then have b: "behaves grant (list_extend_list grant self (length xs) (\<lambda>items. cells_from items 0 (length xs))) (xs @ xs) (Inr ()) {xs}"
    by (intro extend_list_behaves [OF rep g]) (use list_rep_small [OF rep] in auto)
  then show ?thesis using agrees_value_of [OF b, of "\<lambda>_. No_Value"] Same_List list_repD(2) [OF rep]
    by (simp add: list_extend_def py_operand_def)
next
  case (Other_List p)
  then obtain ys where ys: "list_objs p = Some ys" "list_rep p ys" using ok by (auto split: option.splits)
  have "cells_from (list_items p) 0 (length ys) = Some (map Obj ys)"
    unfolding list_repD(1) [OF ys(2)] by (simp add: cells_from_map)
  then have b: "behaves grant (list_extend_list grant self (length ys) (\<lambda>_. cells_from (list_items p) 0 (length ys))) (xs @ ys) (Inr ()) {xs}"
    by (intro extend_list_behaves [OF rep g]) (use list_rep_small [OF ys(2)] in auto)
  then show ?thesis using agrees_value_of [OF b, of "\<lambda>_. No_Value"] Other_List list_repD(2) [OF ys(2)] ys(1)
    by (simp add: list_extend_def py_operand_def)
next
  case (Iterable ys)
  then show ?thesis using agrees_value_of [OF extend_iter_behaves [OF rep g, of ys], of "\<lambda>_. No_Value"]
    by (simp add: list_extend_def py_operand_def)
next
  case (Single_Obj i)
  then show ?thesis using error_agrees [OF rep refl] by (simp add: list_extend_def py_operand_def)
qed

lemma pop_agrees:
  assumes rep: "list_rep self xs" and g: "grant_ok grant" and ok: "pred_option index_wf arg"
    and dev: "\<not> op_deviates xs (Op_Pop arg)"
  shows "agrees grant (value_of f (list_pop grant self arg))
    (case py_pop xs arg of Inl e \<Rightarrow> (xs, Inl e) | Inr k \<Rightarrow> (delete_at k xs, Inr (f (xs ! k))))"
proof (cases "xs = []")
  case True
  have "py_pop xs arg = Inl List_IndexError"
  proof (cases arg)
    case (Some i)
    then show ?thesis using True dev by (cases i) (auto simp: py_pop_def py_index_def py_position_def)
  qed (use True in \<open>simp add: py_pop_def\<close>)
  then show ?thesis using error_agrees [OF rep list_pop_errors(1) [OF rep True]] by simp
next
  case False
  have n: "length xs < 2 ^ 31" using list_rep_small [OF rep] by simp
  let ?i = "case arg of None \<Rightarrow> Index_Int (Small (- 1)) | Some x \<Rightarrow> x"
  have ok': "pred_option index_obj_ok arg" using ok dev by (cases arg) (auto simp: index_obj_ok_def)
  have ix: "mp_get_index (length xs) ?i False = py_pop xs arg"
    using mp_get_index_correct(1) [OF _ n] ok' False n
    by (cases arg) (auto simp: py_pop_def mp_get_index_def Let_def wrap_simps nat_diff_distrib)
  show ?thesis
  proof (cases "py_pop xs arg")
    case (Inl e)
    then show ?thesis using error_agrees [OF rep list_pop_errors(2) [OF rep False]] ix by simp
  next
    case (Inr k)
    have k: "k < length xs" using Inr False py_index_less by (auto simp: py_pop_def split: option.splits)
    have "mp_get_index (length xs) ?i False = Inr k" using ix Inr by simp
    then show ?thesis using agrees_value_of [OF list_pop_behaves [OF rep g False _ k, of arg], of f] Inr by simp
  qed
qed

text \<open>With a step of one, and in the cases that are errors anyway, the code's effect on a slice is Python's.\<close>

lemma code_slice_python:
  assumes "\<not> step_is (\<lambda>step. step \<noteq> 1) s"
  shows "code_replace_slice xs s [] = py_delete_slice xs s" "code_replace_slice xs s ys = py_store_slice xs s ys"
  using assms
  by (auto simp: step_is_def code_replace_slice_def py_delete_slice_def py_store_slice_def Let_def split: sum.splits prod.splits)

lemma slice_load_agrees:
  assumes rep: "list_rep self xs" and g: "grant_ok grant" and ok: "slice_ok s" and dev: "\<not> slice_deviates xs s Subscr_Load"
  shows "agrees grant (shown_subscr (list_subscr grant moves self (Slice s) Subscr_Load)) (py_subscr xs (Slice s) Subscr_Load)"
proof (cases "slice_values s")
  case (Inl e)
  then show ?thesis using load_slice_gives(1) [OF rep g ok Inl] rep
    by (simp add: list_subscr_def shown_subscr_def subscr_outcome_def agrees_def)
next
  case (Inr v)
  obtain a b step where v: "v = (a, b, step)" by (cases v) auto
  have "int (length xs) + \<bar>step\<bar> < 2 ^ 31" using dev Inr v by (simp add: step_is_def)
  then have "gives_list grant (list_load_slice grant self s) (py_slice xs a b step)"
    using load_slice_gives(2) [OF rep g ok] Inr v by simp
  then consider sa where "list_load_slice grant self s = Some (Inr sa)" "list_objs sa = Some (py_slice xs a b step)"
    | "list_load_slice grant self s = Some (Inl List_MemoryError)" "refused grant (length (py_slice xs a b step))"
    unfolding gives_list_def using list_objs_rep by blast
  then show ?thesis
  proof cases
    case 1
    then show ?thesis using rep Inr v by (simp add: list_subscr_def shown_subscr_def subscr_outcome_def agrees_def)
  next
    case 2
    have "refused grant (op_size (xs, Inr (Sequence (py_slice xs a b step))))"
      by (rule refused_mono [OF 2(2)]) (simp add: op_size_def)
    then show ?thesis using 2(1) Inr v rep_sane [OF rep]
      by (simp add: list_subscr_def shown_subscr_def subscr_outcome_def agrees_def)
  qed
qed

lemma in_place_agrees:
  assumes rep: "list_rep self xs"
    and b: "case r of Inl e \<Rightarrow> res = Some (self, Inl e) | Inr ys \<Rightarrow> behaves grant res ys (Inr ()) F"
  shows "agrees grant (value_of (\<lambda>_. No_Value) res) (in_place xs r)"
proof (cases r)
  case (Inl e)
  then have "res = Some (self, Inl e)" using b by simp
  from error_agrees [OF rep this] show ?thesis using Inl by (simp add: in_place_def)
next
  case (Inr ys)
  then have "behaves grant res ys (Inr ()) F" using b by simp
  from agrees_value_of [OF this, of "\<lambda>_. No_Value"] show ?thesis using Inr by (simp add: in_place_def)
qed

lemma slice_store_agrees:
  assumes rep: "list_rep self xs" and g: "grant_ok grant" and ok: "slice_ok s"
    and small: "\<And>vs. arr = Array vs \<Longrightarrow> length vs < 2 ^ 28" and dev: "\<not> slice_deviates xs s (Subscr_Store x arr)"
  shows "agrees grant (value_of (\<lambda>_. No_Value) (list_store_slice grant moves self s arr)) (py_subscr xs (Slice s) (Subscr_Store x arr))"
proof (cases arr)
  case Own_Array
  have v: "stored_values xs arr = Some xs" "length xs < 2 ^ 28" using Own_Array list_rep_small [OF rep] by (simp_all add: stored_values_def)
  have "code_replace_slice xs s xs = py_store_slice xs s xs" using dev Own_Array code_slice_python(2) by simp
  then show ?thesis
    using in_place_agrees [OF rep store_slice_behaves [OF rep ok g v(2,1)]] Own_Array by (simp add: py_array_def)
next
  case (Array vs)
  have v: "stored_values xs arr = Some vs" "length vs < 2 ^ 28" using Array small by (simp_all add: stored_values_def)
  have "code_replace_slice xs s vs = py_store_slice xs s vs" using dev Array code_slice_python(2) by simp
  then show ?thesis
    using in_place_agrees [OF rep store_slice_behaves [OF rep ok g v(2,1)]] Array by (simp add: py_array_def)
next
  case (Iterable_Array vs)
  then show ?thesis using dev by simp
next
  case Not_Iterable
  then have "\<exists>r. slice_values s = Inr r" using dev by (cases "slice_values s") (auto simp: step_is_def)
  then show ?thesis using error_agrees [OF rep refl] Not_Iterable
    by (auto simp: list_store_slice_def py_array_def in_place_def)
qed

lemma subscr_agrees:
  assumes rep: "list_rep self xs" and g: "grant_ok grant" and ok: "op_ok (Op_Subscr index value)"
    and dev: "\<not> op_deviates xs (Op_Subscr index value)"
  shows "agrees grant (shown_subscr (list_subscr grant moves self index value)) (py_subscr xs index value)"
proof -
  have n: "list_len self = length xs" "length xs < 2 ^ 28" "length xs < 2 ^ 31" using list_rep_small [OF rep] by auto
  show ?thesis
  proof (cases index)
    case (Index i)
    have ii: "index_obj_ok i" using ok dev Index by (simp add: index_obj_ok_def)
    note ix = mp_get_index_correct(1) [OF ii n(3)]
    show ?thesis
    proof (cases "value")
      case Subscr_Delete
      have "\<not> op_deviates xs (Op_Pop (Some i))" using dev Index Subscr_Delete by auto
      then show ?thesis using pop_agrees [OF rep g, of "Some i" "\<lambda>_. No_Value"] ok Index Subscr_Delete
        by (simp add: list_subscr_def shown_value)
    next
      case Subscr_Load
      have "load_obj (list_items self) k = Some (xs ! k)" if "k < length xs" for k
        using list_repD(1) [OF rep] that by simp
      then show ?thesis using Subscr_Load Index ix n(1) rep py_index_less [of "length xs" i]
        by (auto simp: list_subscr_def shown_subscr_def agrees_def split: sum.split)
    next
      case (Subscr_Store x vs)
      show ?thesis
      proof (cases "py_index (length xs) i")
        case (Inl e)
        have "mp_obj_list_store self i x = Some (self, Inl e)" using ix n(1) Inl by (simp add: mp_obj_list_store_def)
        then show ?thesis using error_agrees [OF rep refl] Subscr_Store Index Inl by (simp add: list_subscr_def shown_value)
      next
        case (Inr k)
        have k: "mp_get_index (length xs) i False = Inr k" "k < length xs" using ix Inr py_index_less [OF Inr] by simp_all
        show ?thesis using agrees_value_of [OF list_store_behaves [OF rep k], of grant "\<lambda>_. No_Value"] Subscr_Store Index Inr
          by (simp add: list_subscr_def shown_value)
      qed
    qed
  next
    case (Slice s)
    have s: "slice_ok s" "\<not> slice_deviates xs s value" using ok dev Slice slice_okI by auto
    show ?thesis
    proof (cases "value")
      case Subscr_Delete
      have "code_replace_slice xs s [] = py_delete_slice xs s" using s(2) Subscr_Delete code_slice_python(1) by simp
      then show ?thesis using in_place_agrees [OF rep delete_slice_behaves [OF rep s(1), of grant "{}"]] Subscr_Delete Slice
        by (simp add: list_subscr_def shown_value)
    next
      case Subscr_Load
      then show ?thesis using slice_load_agrees [OF rep g s(1)] s(2) Slice by simp
    next
      case (Subscr_Store x arr)
      have "length vs < 2 ^ 28" if "arr = Array vs" for vs using ok Slice Subscr_Store that by simp
      from slice_store_agrees [OF rep g s(1) this s(2) [unfolded Subscr_Store], of moves]
      show ?thesis using Slice Subscr_Store by (simp add: list_subscr_def shown_value)
    qed
  qed
qed

lemma op_agrees:
  assumes rep: "list_rep self xs" and g: "grant_ok (grants w)" and ok: "op_ok op" and dev: "\<not> op_deviates xs op"
  shows "agrees (grants w) (exec_op w op self) (py_op w op xs)"
proof (cases op)
  case (Op_Append x)
  then show ?thesis using agrees_value_of [OF list_append_behaves [OF rep g, of x], of "\<lambda>_. No_Value"] by simp
next
  case (Op_Extend arg)
  then show ?thesis using extend_agrees [OF rep g, of arg] ok by simp
next
  case (Op_Pop arg)
  then show ?thesis using pop_agrees [OF rep g, of arg Object] ok dev by simp
next
  case (Op_Insert idx x)
  then obtain v where v: "idx = Index_Int (Small v)" using dev by (auto split: index_obj.splits int_obj.splits)
  have small: "\<bar>v\<bar> < 2 ^ 31" using ok Op_Insert v by (auto simp: small_ok_def)
  have raw: "raw_small_int_value (obj_word w) idx = v" by (simp add: v raw_small_int_value_def)
  have i: "insert_index (length xs) v = nat (max 0 (min (int (length xs)) (py_position (length xs) v)))"
    using list_rep_small [OF rep] by (intro insert_index_correct small) auto
  have "behaves (grants w) (list_insert (grants w) (obj_word w) (none_obj w) self idx x)
      (insert_at (insert_index (length xs) v) x xs) (Inr ()) {xs}"
    by (rule list_insert_behaves [OF rep g]) (simp add: raw)
  from agrees_value_of [OF this, of "\<lambda>_. No_Value"] show ?thesis using Op_Insert v unfolding i by (simp add: py_clip_def)
next
  case (Op_Remove x)
  note b = list_remove_behaves [OF rep g, of "obj_eq w" x]
  show ?thesis
  proof (cases "remove_first (obj_eq w) x xs")
    case None
    then show ?thesis using b error_agrees [OF rep refl] Op_Remove by simp
  next
    case (Some ys)
    then have "behaves (grants w) (mp_obj_list_remove (grants w) (obj_eq w) self x) ys (Inr ()) {}" using b by simp
    from agrees_value_of [OF this, of "\<lambda>_. No_Value"] show ?thesis using Some Op_Remove by simp
  qed
next
  case Op_Clear
  obtain s q where s: "list_clear (grants w) self = Some (s, q)"
    "list_rep s [] \<and> q = Inr () \<or> q = Inl List_MemoryError \<and> refused (grants w) 0 \<and> s = self\<lparr>list_len := 0\<rparr>"
    using list_clear_behaves [OF rep g] by blast
  have "list_sane (self\<lparr>list_len := 0\<rparr>)" using list_repD(6) [OF rep] by (simp add: list_sane_def)
  then show ?thesis using s Op_Clear by (auto simp: value_of_def agrees_def op_size_def)
next
  case Op_Reverse
  then show ?thesis using agrees_value_of [OF list_reverse_behaves [OF rep, of "grants w" "{}"], of "\<lambda>_. No_Value"] by simp
next
  case (Op_Subscr index val)
  then show ?thesis using subscr_agrees [OF rep g] ok dev by simp
qed

text \<open>A program runs until memory is refused.\<close>

fun run_list :: "'a list_world \<Rightarrow> 'a list_op list \<Rightarrow> 'a mp_list \<Rightarrow> ('a mp_list \<times> (list_error + 'a op_value) list) option" where
  "run_list w [] self = Some (self, [])"
| "run_list w (op # ops) self = do {
     (self, r) \<leftarrow> exec_op w op self;
     if r = Inl List_MemoryError then Some (self, [r])
     else do {
       (self, rs) \<leftarrow> run_list w ops self;
       Some (self, r # rs) } }"

fun py_run :: "'a list_world \<Rightarrow> 'a list_op list \<Rightarrow> 'a list \<Rightarrow> 'a list \<times> (list_error + 'a op_value) list" where
  "py_run w [] xs = (xs, [])"
| "py_run w (op # ops) xs =
     (let (ys, r) = py_op w op xs; (zs, rs) = py_run w ops ys in (zs, r # rs))"

text \<open>The program does not come to an operation with which the code deviates; the size of its largest list.\<close>

fun no_deviation :: "'a list_world \<Rightarrow> 'a list_op list \<Rightarrow> 'a list \<Rightarrow> bool" where
  "no_deviation w [] xs \<longleftrightarrow> True"
| "no_deviation w (op # ops) xs \<longleftrightarrow> \<not> op_deviates xs op \<and> no_deviation w ops (fst (py_op w op xs))"

fun run_size :: "'a list_world \<Rightarrow> 'a list_op list \<Rightarrow> 'a list \<Rightarrow> nat" where
  "run_size w [] xs = length xs"
| "run_size w (op # ops) xs = max (op_size (py_op w op xs)) (run_size w ops (fst (py_op w op xs)))"

text \<open>\<open>rs\<close> are the first results of \<open>full\<close> and then a \<open>MemoryError\<close>.\<close>

definition stopped_early :: "(list_error + 'r) list \<Rightarrow> (list_error + 'r) list \<Rightarrow> bool" where
  "stopped_early rs full \<longleftrightarrow> (\<exists>k < length full. rs = take k full @ [Inl List_MemoryError])"

lemma stopped_early_Cons: "stopped_early rs full \<Longrightarrow> stopped_early (r # rs) (r # full)"
  unfolding stopped_early_def by (metis Suc_less_eq append_Cons length_Cons take_Suc_Cons)

lemma py_op_no_memory: "snd (py_op w op xs) \<noteq> Inl List_MemoryError"
proof -
  have v: "index_value i \<noteq> Inl List_MemoryError" for i by (cases i) auto
  have i: "py_index n i \<noteq> Inl List_MemoryError" "py_clip n i \<noteq> Inl List_MemoryError" for n i
    using v [of i] by (auto simp: py_index_def py_clip_def split: sum.splits)
  have p: "py_pop xs a \<noteq> Inl List_MemoryError" for a
    using i by (auto simp: py_pop_def split: option.splits)
  have sp: "slice_part_value x \<noteq> Inl List_MemoryError" for x
    using v by (cases x) (auto split: sum.splits)
  have sv: "slice_values s \<noteq> Inl List_MemoryError" for s
    using sp by (auto simp: slice_values_def split: sum.splits)
  have rp: "py_delete_slice xs s \<noteq> Inl List_MemoryError" "py_store_slice xs s ys \<noteq> Inl List_MemoryError" for s ys
    using sv [of s] by (auto simp: py_delete_slice_def py_store_slice_def Let_def split: sum.splits prod.splits)
  have sub: "snd (py_subscr xs ix val) \<noteq> Inl List_MemoryError" for ix val
    using i p rp sv by (cases "(xs, ix, val)" rule: py_subscr.cases) (auto simp: in_place_def split: sum.splits option.splits)
  show ?thesis using p sub i by (cases op) (auto split: option.splits sum.splits)
qed

lemma run_list_agrees:
  assumes "list_rep self xs" "grant_ok (grants w)" "\<forall>op \<in> set ops. op_ok op" "no_deviation w ops xs"
  shows "\<exists>s rs. run_list w ops self = Some (s, rs)
    \<and> (list_rep s (fst (py_run w ops xs)) \<and> rs = snd (py_run w ops xs)
       \<or> stopped_early rs (snd (py_run w ops xs)) \<and> refused (grants w) (run_size w ops xs) \<and> list_sane s)"
  using assms(1,3,4)
proof (induction ops arbitrary: self xs)
  case (Cons op ops)
  obtain ys r where y: "py_op w op xs = (ys, r)" by (cases "py_op w op xs")
  have nm: "r \<noteq> Inl List_MemoryError" using py_op_no_memory [of w op xs] y by simp
  obtain zs rs where z: "py_run w ops ys = (zs, rs)" by (cases "py_run w ops ys")
  have full: "py_run w (op # ops) xs = (zs, r # rs)" using y z by simp
  have size: "run_size w (op # ops) xs = max (op_size (ys, r)) (run_size w ops ys)" using y by simp
  obtain s q where s: "exec_op w op self = Some (s, q)"
    "list_rep s ys \<and> q = r \<or> q = Inl List_MemoryError \<and> refused (grants w) (op_size (ys, r)) \<and> list_sane s"
    using op_agrees [OF Cons.prems(1) assms(2), of op] Cons.prems(2,3) y unfolding agrees_def by auto
  from s(2) show ?case
  proof
    assume q: "list_rep s ys \<and> q = r"
    obtain t us where t: "run_list w ops s = Some (t, us)"
      "list_rep t zs \<and> us = rs \<or> stopped_early us rs \<and> refused (grants w) (run_size w ops ys) \<and> list_sane t"
      using Cons.IH [of s ys] Cons.prems(2,3) q y z by auto
    have "refused (grants w) (run_size w (op # ops) xs)" if "refused (grants w) (run_size w ops ys)"
      using refused_mono [OF that] size by simp
    then show ?thesis using s(1) q t nm full stopped_early_Cons [of us rs r] by (auto simp del: run_size.simps)
  next
    assume q: "q = Inl List_MemoryError \<and> refused (grants w) (op_size (ys, r)) \<and> list_sane s"
    have "refused (grants w) (run_size w (op # ops) xs)"
      unfolding size by (rule refused_mono [of _ "op_size (ys, r)"]) (use q in simp_all)
    moreover have "stopped_early [Inl List_MemoryError] (r # rs)" by (auto simp: stopped_early_def intro: exI [of _ 0])
    ultimately show ?thesis using s(1) q full by (auto simp del: run_size.simps)
  qed
qed auto

text \<open>The deviations: what the code does there.\<close>

lemma insert_raw_index:
  assumes "list_rep self xs" "grant_ok grant"
  shows "behaves grant (list_insert grant addr none self idx x)
    (insert_at (insert_index (length xs) (raw_small_int_value addr idx)) x xs) (Inr ()) {xs}"
  by (rule list_insert_behaves [OF assms refl])

lemma slice_deviations:
  assumes "list_rep self xs" "slice_ok s" "step_is (\<lambda>step. step \<noteq> 1) s"
  shows "list_delete_slice self s = Some (self, Inl List_NotImplementedError)"
    "stored_values xs arr = Some vs \<Longrightarrow> list_store_slice grant moves self s arr = Some (self, Inl List_NotImplementedError)"
    "list_store_slice grant moves self s (Iterable_Array vs) = Some (self, Inl List_TypeError)"
proof -
  obtain a b step where v: "slice_values s = Inr (a, b, step)" "step \<noteq> 1"
    using assms(3) by (auto simp: step_is_def split: sum.splits prod.splits)
  obtain x y z where f: "mp_seq_get_fast_slice_indexes (list_len self) s = Inr (False, x, y, z)"
    using slice_range [OF assms(1,2) v(1)] v(2) by auto
  show "list_delete_slice self s = Some (self, Inl List_NotImplementedError)" by (simp add: list_delete_slice_def f)
  show "list_store_slice grant moves self s arr = Some (self, Inl List_NotImplementedError)" if "stored_values xs arr = Some vs"
    using that by (cases arr) (auto simp: list_store_slice_def f stored_values_def)
  show "list_store_slice grant moves self s (Iterable_Array vs) = Some (self, Inl List_TypeError)"
    by (simp add: list_store_slice_def)
qed

section \<open>Construction, operators, iteration\<close>

lemma make_new_gives:
  assumes "grant_ok grant"
  shows "gives_list grant (mp_obj_list_make_new grant (Some ys)) ys"
    "gives_list grant (mp_obj_list_make_new grant None) ([] :: 'a list)"
proof -
  show "gives_list grant (mp_obj_list_make_new grant None) ([] :: 'a list)"
    using new_list_gives [OF assms, of "[]"] by (simp add: mp_obj_list_make_new_def)
  show "gives_list grant (mp_obj_list_make_new grant (Some ys)) ys"
    using new_list_gives [OF assms, of "[] :: 'b list"]
  proof (simp add: gives_list_def, elim exE conjE disjE)
    fix q s assume q: "mp_obj_new_list grant [] = Some q" "q = Inr s" "list_rep s ([] :: 'b list)"
    show "\<exists>q. mp_obj_list_make_new grant (Some ys) = Some q
        \<and> ((\<exists>s. q = Inr s \<and> list_rep s ys) \<or> q = Inl List_MemoryError \<and> refused grant (length ys))"
      using extend_iter_behaves [OF q(3) assms, of ys] q(1,2)
      unfolding behaves_def mp_obj_list_make_new_def by auto
  qed (use refused_mono [of grant 0 "length ys"] in \<open>auto simp: mp_obj_list_make_new_def\<close>)
qed

text \<open>Addition gives a new list, also of a list and itself; the list stays as it is.\<close>

lemma binary_add_gives:
  assumes "list_rep lhs xs" "grant_ok grant" "case rhs of Same_List \<Rightarrow> ys = xs | Other_List p \<Rightarrow> list_rep p ys | _ \<Rightarrow> False"
  shows "\<exists>q. list_binary_op grant eq rel (BINARY OP_ADD) lhs rhs = Some (lhs, q)
    \<and> ((\<exists>s. q = Inr (New_List s) \<and> list_rep s (xs @ ys)) \<or> q = Inl List_MemoryError \<and> refused grant (length xs + length ys))"
proof -
  obtain p where p: "(case rhs of Same_List \<Rightarrow> Some lhs | Other_List p \<Rightarrow> Some p | _ \<Rightarrow> None) = Some p" "list_rep p ys"
    using assms(1,3) by (cases rhs) auto
  obtain q where q: "list_add grant lhs p = Some q"
    "(\<exists>s. q = Inr s \<and> list_rep s (xs @ ys)) \<or> q = Inl List_MemoryError \<and> refused grant (length (xs @ ys))"
    using list_add_gives [OF assms(1) p(2) assms(2)] unfolding gives_list_def by blast
  have "list_binary_op grant eq rel (BINARY OP_ADD) lhs rhs = new_list_result lhs (list_add grant lhs p)"
    unfolding list_binary_op_def Let_def p(1) by simp
  then show ?thesis using q by (auto simp: new_list_result_def)
qed

text \<open>An iterator over a list that does not change gives its objects in order and then ends for good.\<close>

lemma iternext_correct:
  assumes "list_rep l xs"
  shows "list_it_iternext l cur = Some (if cur < length xs then (Some (xs ! cur), cur + 1) else (None, cur))"
  using list_repD(1,2) [OF assms] by (simp add: list_it_iternext_def)

lemma unary_correct:
  assumes "list_rep self xs"
  shows "list_unary_bool self \<longleftrightarrow> xs \<noteq> []" "list_unary_len self = Small (int (length xs))"
proof -
  have n: "list_len self = length xs" "int (length xs) < 2 ^ 28" using list_rep_small [OF assms] by auto
  show "list_unary_bool self \<longleftrightarrow> xs \<noteq> []" using n(1) by (simp add: list_unary_bool_def)
  show "list_unary_len self = Small (int (length xs))"
    unfolding list_unary_len_def n(1) by (rule new_small_int_ok) (use n(2) in \<open>simp add: small_ok_def\<close>)
qed

end
