(* ===== verification/ListTheorems.thy ===== *)
theory ListTheorems
  imports ListRun
begin

text \<open>
  The properties of lists: programs of list operations refine Python's lists, sorting ends for every
  comparison and sorts for an order, comparison is lexicographic, and two sizes that wrap.
\<close>

section \<open>Programs\<close>

text \<open>
  C35: A list made of any objects, and then any program of list methods and subscripts (append, extend
  with itself or others, pop, insert, remove, clear, reverse, loading, storing and deleting items and
  slices, also a slice of a list into itself): every step returns, stays inside its array and reads no cell
  without an object, and the list and all results are those of Python, errors included, as long as the
  program does not come to one of the operations with which the code deviates from Python.  These are the ones of
  \<open>op_deviates\<close>: integers as indices that do not fit into a machine word, an index of \<open>insert\<close> that is not
  a small integer, an index that is no integer on an empty list, huge steps, and, for slices that are
  deleted or stored, steps other than one and values that are neither lists nor tuples.  The only other exception is a refused
  request for memory, of at most eight bytes per object of the longest list of the program and sixteen
  more, which raises \<open>MemoryError\<close> and leaves a list whose objects are all there.  The equality of
  the elements is a function that does not touch the list.
\<close>

theorem list_refines_python:
  assumes "grant_ok (grants w)" "length xs < 2 ^ 30" "\<forall>op \<in> set ops. op_ok op" "no_deviation w ops xs"
  shows "\<exists>r. mp_obj_new_list (grants w) xs = Some r \<and> (case r of
      Inl e \<Rightarrow> e = List_MemoryError \<and> (\<exists>n \<le> 8 * length xs + 16. \<not> grants w n)
    | Inr self \<Rightarrow> \<exists>s rs. run_list w ops self = Some (s, rs)
        \<and> (list_rep s (fst (py_run w ops xs)) \<and> rs = snd (py_run w ops xs)
           \<or> stopped_early rs (snd (py_run w ops xs)) \<and> (\<exists>n \<le> 8 * run_size w ops xs + 16. \<not> grants w n) \<and> list_sane s))"
proof -
  obtain r where r: "mp_obj_new_list (grants w) xs = Some r"
    "(\<exists>s. r = Inr s \<and> list_rep s xs) \<or> r = Inl List_MemoryError \<and> refused (grants w) (length xs)"
    using new_list_gives [OF assms(1,2)] unfolding gives_list_def by blast
  from r(2) show ?thesis
  proof (elim disjE exE conjE)
    fix self assume "r = Inr self" "list_rep self xs"
    then show ?thesis using r(1) run_list_agrees [OF _ assms(1,3,4), of self] unfolding refused_def by simp
  qed (use r(1) in \<open>simp add: refused_def\<close>)
qed

text \<open>
  With memory for a thousand bytes nothing is refused: the program runs to its end.  Its last step stores the
  list into a slice of itself.
\<close>

theorem list_refines_python_witness:
  "\<exists>s rs. run_list \<lparr>grants = \<lambda>n. n < 1000, moves_array = \<lambda>_. False, obj_word = \<lambda>_. 30, none_obj = 0, obj_eq = (=)\<rparr>
      [Op_Append (4 :: int), Op_Extend Same_List, Op_Pop None, Op_Remove 9,
       Op_Subscr (Slice \<lparr>slice_start = None, slice_stop = None, slice_step = Some (Index_Int (Small (- 2)))\<rparr>) Subscr_Load,
       Op_Insert (Index_Int (Small (- 1))) 7,
       Op_Subscr (Slice \<lparr>slice_start = Some (Index_Int (Small 1)), slice_stop = Some (Index_Int (Small 1)), slice_step = None\<rparr>)
         (Subscr_Store 0 Own_Array)]
      \<lparr>list_alloc = 4, list_len = 2, list_items = [Obj 1, Obj 2, No_Obj, No_Obj]\<rparr> = Some (s, rs)
    \<and> list_rep s [1, 1, 2, 4, 1, 7, 2, 2, 4, 1, 7, 2]
    \<and> rs = [Inr No_Value, Inr No_Value, Inr (Object 4), Inl List_ValueError, Inr (Sequence [2, 4, 1]), Inr No_Value, Inr No_Value]"
proof -
  let ?w = "\<lparr>grants = \<lambda>n. n < 1000, moves_array = \<lambda>_. False, obj_word = \<lambda>_. 30, none_obj = 0, obj_eq = (=)\<rparr> :: int list_world"
  let ?s = "\<lparr>slice_start = None, slice_stop = None, slice_step = Some (Index_Int (Small (- 2)))\<rparr>"
  let ?t = "\<lparr>slice_start = Some (Index_Int (Small 1)), slice_stop = Some (Index_Int (Small 1)), slice_step = None\<rparr>"
  let ?ops = "[Op_Append 4, Op_Extend Same_List, Op_Pop None, Op_Remove 9, Op_Subscr (Slice ?s) Subscr_Load,
    Op_Insert (Index_Int (Small (- 1))) 7, Op_Subscr (Slice ?t) (Subscr_Store 0 Own_Array)] :: int list_op list"
  have new: "mp_obj_new_list (grants ?w) [1, 2 :: int] = Some (Inr \<lparr>list_alloc = 4, list_len = 2, list_items = [Obj 1, Obj 2, No_Obj, No_Obj]\<rparr>)"
  proof -
    have u: "u32 16 = 16" by (simp add: u32_def)
    have "replicate 4 Unset = [Unset, Unset, Unset, Unset :: int cell]" "replicate 2 No_Obj = [No_Obj, No_Obj :: int cell]"
      by (simp_all add: eval_nat_numeral)
    then show ?thesis using u by (simp add: mp_obj_new_list_def list_of_cells_def list_new_def LIST_MIN_ALLOC_def m_renew_def
        mp_seq_clear_def copy_cells_def)
  qed
  have v: "slice_values ?s = Inr (None, None, - 2)" "slice_values ?t = Inr (Some 1, Some 1, 1)" by (simp_all add: slice_values_def)
  have up: "[0..<5] = [0, 1, 2, 3, 4 :: nat]" by (simp add: upt_rec)
  have load: "py_slice [1, 2, 4, 1, 2 :: int] None None (- 2) = [2, 4, 1]"
    by (simp add: py_slice_def py_slice_bounds_def py_bound_def slice_positions_def up dvd_eq_mod_eq_0)
  have store: "py_store_slice [1, 2, 4, 1, 7, 2] ?t [1, 2, 4, 1, 7, 2 :: int] = Inr [1, 1, 2, 4, 1, 7, 2, 2, 4, 1, 7, 2]"
    by (simp add: py_store_slice_def v(2) py_slice_bounds_def py_bound_def py_position_def replace_range_def)
  note simps = py_operand_def py_pop_def delete_at_def py_clip_def py_position_def insert_at_def py_array_def in_place_def
  have py: "py_run ?w ?ops [1, 2] = ([1, 1, 2, 4, 1, 7, 2, 2, 4, 1, 7, 2],
      [Inr No_Value, Inr No_Value, Inr (Object 4), Inl List_ValueError, Inr (Sequence [2, 4, 1]), Inr No_Value, Inr No_Value])"
    using v load store by (simp add: simps)
  have size: "run_size ?w ?ops [1, 2] = 12"
    using v load store by (simp add: simps op_size_def)
  have dev: "no_deviation ?w ?ops [1, 2]"
    using v load store by (simp add: simps slice_word_def step_is_def)
  have "grant_ok (grants ?w)" "\<forall>op \<in> set ?ops. op_ok op"
    using v by (simp_all add: grant_ok_def slice_wf_def small_ok_def)
  from list_refines_python [OF this(1) _ this(2) dev] show ?thesis
    unfolding new py size by auto
qed

section \<open>Slices\<close>

text \<open>
  C40: A slice with a step that reaches past the end by more than a machine word can hold: after the first element
  the sum of the position and the step wraps to a negative number, which is below the end, and the loop reads
  the array there.  Python gives the one element.
\<close>

theorem list_slice_step_overflow:
  assumes "list_rep self xs" "grant_ok grant" "slice_ok s" "grant 16"
    "slice_values s = Inr (Some start, None, 2 ^ 31 - 1)" "0 < start" "start < int (length xs)"
  shows "list_load_slice grant self s = None \<and> py_slice xs (Some start) None (2 ^ 31 - 1) = [xs ! nat start]"
proof
  have n: "list_len self = length xs" "length xs < 2 ^ 28" using list_rep_small [OF assms(1)] by auto
  have b: "py_slice_bounds (length xs) (Some start) None (2 ^ 31 - 1) = (start, int (length xs))"
    using assms(6,7) by (simp add: py_slice_bounds_def py_bound_def py_position_def)
  have f: "mp_seq_get_fast_slice_indexes (length xs) s = Inr (False, start, int (length xs), 2 ^ 31 - 1)"
    using fast_slice_correct [OF assms(3), of "length xs"] n(2) b assms(5,7) by simp
  have l: "load_obj (list_items self) (nat start) = Some (xs ! nat start)"
    using list_repD(1) [OF assms(1)] assms(6,7) by simp
  have w: "s32 (start + (2 ^ 31 - 1)) = start - 2 ^ 31 - 1"
    using assms(6,7) n(2) mod_add_self2 [of "start - 1" "2 ^ 32"] by (simp add: s32_def algebra_simps)
  let ?e = "\<lparr>list_alloc = 4, list_len = 0, list_items = replicate 4 No_Obj\<rparr> :: 'a mp_list"
  have e: "mp_obj_new_list grant [] = Some (Inr ?e)"
    using assms(4) by (simp add: mp_obj_new_list_def list_of_cells_def list_new_def LIST_MIN_ALLOC_def m_renew_def u32_def
        mp_seq_clear_def copy_cells_def)
  have a: "\<exists>r. mp_obj_list_append grant ?e (xs ! nat start) = Some (r, Inr ())"
    by (simp add: mp_obj_list_append_def store_cell_def)
  have "extract_loop grant (list_items self) (start - 2 ^ 31 - 1) (int (length xs)) (2 ^ 31 - 1) r = None" for r
    using n(2) assms(7) by (subst extract_loop.simps) simp
  then have "extract_loop grant (list_items self) start (int (length xs)) (2 ^ 31 - 1) ?e = None"
    using l a w assms(6,7) by (subst extract_loop.simps) auto
  then show "list_load_slice grant self s = None"
    using f n(1) e by (simp add: list_load_slice_def mp_seq_extract_slice_def)
  have "slice_positions (length xs) start (int (length xs)) (2 ^ 31 - 1) = [nat start]"
    using positions_up [of "2 ^ 31 - 1" start "int (length xs)" "length xs"]
      positions_up [of "2 ^ 31 - 1" "start + (2 ^ 31 - 1)" "int (length xs)" "length xs"] assms(6,7) n(2) by simp
  then show "py_slice xs (Some start) None (2 ^ 31 - 1) = [xs ! nat start]"
    using b by (simp add: py_slice_def)
qed

theorem list_slice_step_overflow_witness:
  "list_load_slice (\<lambda>n. n < 100) \<lparr>list_alloc = 4, list_len = 4, list_items = [Obj 5, Obj 6, Obj 7, Obj (8 :: int)]\<rparr>
      \<lparr>slice_start = Some (Index_Int (Small 1)), slice_stop = None, slice_step = Some (Index_Int (Big (mpz_of False [65535, 32767])))\<rparr> = None
    \<and> py_slice [5, 6, 7, 8 :: int] (Some 1) None (2 ^ 31 - 1) = [6]"
proof -
  have rep: "list_rep \<lparr>list_alloc = 4, list_len = 4, list_items = [Obj 5, Obj 6, Obj 7, Obj (8 :: int)]\<rparr> [5, 6, 7, 8]"
    by (simp add: list_rep_def)
  show ?thesis
    using list_slice_step_overflow [OF rep, of "\<lambda>n. n < 100"
        "\<lparr>slice_start = Some (Index_Int (Small 1)), slice_stop = None, slice_step = Some (Index_Int (Big (mpz_of False [65535, 32767])))\<rparr>" 1]
    by (simp add: grant_ok_def slice_ok_def slice_values_def small_ok_def mpz_of_facts)
qed

section \<open>Sorting\<close>

text \<open>
  C36: \<open>sort\<close> ends for every key function and every comparison that do not touch the list, whatever they
  give, even inconsistent results or an exception in the middle; it stays inside the list and leaves a
  permutation of its objects.  It raises only what a key or a comparison raised.  If nothing is raised and
  the comparison is a strict weak order, no object stands before a smaller one (a larger one, for a
  reversed sort).  The key function and the comparison are functions of the objects here.  Nothing in the
  code keeps a real one from changing the list: \<^verbatim>\<open>mp_quicksort\<close> holds pointers into the array, and a key
  function that makes the list shrink or grow leaves it with pointers to memory that may be
  freed; such calls are outside of this theorem.
\<close>

theorem list_sort_any_comparison:
  assumes "list_rep self xs"
  shows "\<exists>s ys r. mp_obj_list_sort key lt reversed self = Some (s, r) \<and> list_rep s ys \<and> mset ys = mset xs
    \<and> (case r of
         Inl e \<Rightarrow> e \<in> raised key lt (set xs)
       | Inr _ \<Rightarrow> weakly_ordered key lt (set xs) \<longrightarrow> sorted_within key lt (\<not> reversed) ys 0 (int (length xs) - 1))"
  by (rule list_sort_correct [OF assms])

theorem list_sort_any_comparison_witness:
  "\<exists>s ys r. mp_obj_list_sort Inr (\<lambda>x y. if x = 7 then Inl List_TypeError else Inr True) False
      \<lparr>list_alloc = 4, list_len = 3, list_items = [Obj 5, Obj (7 :: int), Obj 6, No_Obj]\<rparr> = Some (s, r)
    \<and> list_rep s ys \<and> mset ys = {#5, 6, 7#} \<and> (\<forall>e. r = Inl e \<longrightarrow> e = List_TypeError)"
proof -
  let ?l = "\<lparr>list_alloc = 4, list_len = 3, list_items = [Obj 5, Obj (7 :: int), Obj 6, No_Obj]\<rparr>"
  have "list_rep ?l [5, 7, 6]" by (simp add: list_rep_def)
  from list_sort_any_comparison [OF this, of Inr "\<lambda>x y. if x = 7 then Inl List_TypeError else Inr True" False]
  obtain s ys r where s: "mp_obj_list_sort Inr (\<lambda>x y. if x = 7 then Inl List_TypeError else Inr True) False ?l = Some (s, r)"
    "list_rep s ys" "mset ys = mset [5, 7, 6]"
    "case r of Inl e \<Rightarrow> e \<in> raised Inr (\<lambda>x y. if x = 7 then Inl List_TypeError else Inr True) (set [5, 7, 6 :: int])
     | Inr _ \<Rightarrow> weakly_ordered Inr (\<lambda>x y. if x = 7 then Inl List_TypeError else Inr True) (set [5, 7, 6 :: int])
         \<longrightarrow> sorted_within Inr (\<lambda>x y. if x = 7 then Inl List_TypeError else Inr True) (\<not> False) ys 0 (int (length [5, 7, 6 :: int]) - 1)"
    by blast
  have "\<forall>e. r = Inl e \<longrightarrow> e = List_TypeError" using s(4) by (auto simp: raised_def split: if_splits)
  then show ?thesis using s(1-3) by (intro exI [of _ s] exI [of _ ys] exI [of _ r]) (simp add: add_mset_commute)
qed

text \<open>The operator \<^verbatim>\<open><\<close> of the interpreter on integer objects.\<close>

definition int_less :: "int_obj \<Rightarrow> int_obj \<Rightarrow> list_error + bool" where
  "int_less x y = (case mp_binary_op BINARY_LESS x y of Some (Boolean b) \<Rightarrow> Inr b | _ \<Rightarrow> Inl List_TypeError)"

lemma int_less_value:
  assumes "int_obj_ok x" "int_obj_ok y"
  shows "int_less x y = Inr (int_obj_val x < int_obj_val y)"
proof -
  have "yields (mp_binary_op BINARY_LESS x y) (V_Bool (int_obj_val x < int_obj_val y))"
    using mp_binary_op_yields [OF assms, of BINARY_LESS] by simp
  then obtain r where r: "mp_binary_op BINARY_LESS x y = Some r" "result_value r = V_Bool (int_obj_val x < int_obj_val y)"
    unfolding yields_def by blast
  then show ?thesis by (cases r) (auto simp: int_less_def)
qed

lemma int_less_order:
  assumes "\<forall>x \<in> S. int_obj_ok x"
  shows "weakly_ordered Inr int_less S"
    "x \<in> S \<Longrightarrow> y \<in> S \<Longrightarrow> precedes Inr int_less x y \<longleftrightarrow> int_obj_val x < int_obj_val y"
proof -
  have p: "precedes Inr int_less x y \<longleftrightarrow> int_obj_val x < int_obj_val y" if "x \<in> S" "y \<in> S" for x y
    using int_less_value assms that by (simp add: precedes_def)
  then show "x \<in> S \<Longrightarrow> y \<in> S \<Longrightarrow> precedes Inr int_less x y \<longleftrightarrow> int_obj_val x < int_obj_val y" by blast
  have "raised Inr int_less S = {}" using int_less_value assms by (auto simp: raised_def)
  then show "weakly_ordered Inr int_less S" unfolding weakly_ordered_def by (auto simp: p)
qed

lemma int_sorted:
  assumes ok: "\<forall>x \<in> set ys. int_obj_ok x" and s: "sorted_within Inr int_less (\<not> reversed) ys 0 (int (length ys) - 1)"
  shows "sorted (map int_obj_val (if reversed then rev ys else ys))"
proof -
  note o = int_less_order(2) [OF ok]
  have v: "if reversed then int_obj_val (ys ! q) \<le> int_obj_val (ys ! p) else int_obj_val (ys ! p) \<le> int_obj_val (ys ! q)"
    if "p < q" "q < length ys" for p q
  proof -
    have m: "ys ! p \<in> set ys" "ys ! q \<in> set ys" using that by simp_all
    have w: "in_order Inr int_less (\<not> reversed) (ys ! p) (ys ! q)"
      using s [unfolded sorted_within_def, rule_format, of "int p" "int q"] that by simp
    show ?thesis
    proof (cases reversed)
      case True
      then have "\<not> precedes Inr int_less (ys ! p) (ys ! q)" using w by (simp add: in_order_def)
      then show ?thesis using True unfolding o [OF m] by simp
    next
      case False
      then have "\<not> precedes Inr int_less (ys ! q) (ys ! p)" using w by (simp add: in_order_def)
      then show ?thesis using False unfolding o [OF m(2,1)] by simp
    qed
  qed
  show ?thesis
  proof (cases reversed)
    case True
    have "int_obj_val (rev ys ! p) \<le> int_obj_val (rev ys ! q)" if "p < q" "q < length ys" for p q
      using v [of "length ys - Suc q" "length ys - Suc p"] that True by (simp add: rev_nth)
    then show ?thesis using True by (simp add: sorted_iff_nth_mono_less rev_map)
  next
    case False
    then show ?thesis using v by (simp add: sorted_iff_nth_mono_less)
  qed
qed

text \<open>
  C37: Sorting a list of integers (small, long and Booleans, in any mixture) with the operator of the
  interpreter raises nothing and orders them by their values, in descending order when reversed.
\<close>

theorem list_sort_integers:
  assumes "list_rep self xs" "\<forall>x \<in> set xs. int_obj_ok x"
  shows "\<exists>s ys. mp_obj_list_sort Inr int_less reversed self = Some (s, Inr ()) \<and> list_rep s ys \<and> mset ys = mset xs
    \<and> sorted (map int_obj_val (if reversed then rev ys else ys))"
proof -
  have o: "weakly_ordered Inr int_less (set xs)" by (rule int_less_order(1) [OF assms(2)])
  obtain s ys r where s: "mp_obj_list_sort Inr int_less reversed self = Some (s, r)" "list_rep s ys" "mset ys = mset xs"
    "case r of Inl e \<Rightarrow> e \<in> raised Inr int_less (set xs)
     | Inr _ \<Rightarrow> weakly_ordered Inr int_less (set xs) \<longrightarrow> sorted_within Inr int_less (\<not> reversed) ys 0 (int (length xs) - 1)"
    using list_sort_correct [OF assms(1)] by blast
  have "raised Inr int_less (set xs) = {}" using o by (simp add: weakly_ordered_def)
  then have r: "r = Inr ()" using s(4) by (cases r) auto
  have e: "length ys = length xs" "set ys = set xs" using s(3) by (metis size_mset, metis set_mset_mset)
  have "sorted (map int_obj_val (if reversed then rev ys else ys))"
    by (rule int_sorted) (use s(4) r o e assms(2) in simp_all)
  then show ?thesis using s(1-3) r by blast
qed

theorem list_sort_integers_witness:
  "\<exists>s ys. mp_obj_list_sort Inr int_less True
      \<lparr>list_alloc = 4, list_len = 3, list_items = [Obj (Small 3), Obj (Truth True), Obj (Small (- 2)), No_Obj]\<rparr> = Some (s, Inr ())
    \<and> list_rep s ys \<and> map int_obj_val ys = [3, 1, - 2]"
proof -
  let ?xs = "[Small 3, Truth True, Small (- 2)]"
  have "list_rep \<lparr>list_alloc = 4, list_len = 3, list_items = [Obj (Small 3), Obj (Truth True), Obj (Small (- 2)), No_Obj]\<rparr> ?xs"
    by (simp add: list_rep_def)
  from list_sort_integers [OF this, of True] obtain s ys where
    s: "mp_obj_list_sort Inr int_less True
      \<lparr>list_alloc = 4, list_len = 3, list_items = [Obj (Small 3), Obj (Truth True), Obj (Small (- 2)), No_Obj]\<rparr> = Some (s, Inr ())"
    "list_rep s ys" "mset ys = mset ?xs" "sorted (map int_obj_val (rev ys))"
    by (auto simp: small_ok_def)
  have "mset (map int_obj_val (rev ys)) = mset (map int_obj_val ?xs)" using s(3) by (simp only: mset_map mset_rev)
  then have "map int_obj_val (rev ys) = sort (map int_obj_val ?xs)" using s(4) by (metis properties_for_sort)
  then have "rev (map int_obj_val ys) = [- 2, 1, 3]" by (simp add: rev_map)
  then have "map int_obj_val ys = rev [- 2, 1, 3]" by (metis rev_rev_ident)
  then show ?thesis using s(1,2) by auto
qed

section \<open>Repeating and comparing\<close>

text \<open>From \<open>2 ^ 30\<close> objects on the new array is smaller than the product.\<close>

lemma list_multiply_wraps:
  assumes "list_rep self xs" and False: "\<not> length xs * nat n < 2 ^ 30"
    and bytes: "bytes = u32 (4 * max 4 (u32 (length xs * nat n)))"
  shows "list_multiply grant self n = (if bytes = 0 \<or> grant bytes then None else Some (Inl List_MemoryError))"
proof -
  note r = list_repD [OF assms(1)]
  let ?m = "u32 (length xs * nat n)"
  define a where "a = (if ?m < LIST_MIN_ALLOC then LIST_MIN_ALLOC else ?m)"
  have n: "nat (if n < 0 then 0 else n) = nat n" by simp
  have a: "bytes = u32 (4 * a)" unfolding bytes a_def LIST_MIN_ALLOC_def by (simp add: max_def)
  have c: "cells_from (list_items self) 0 (length xs) = Some (map Obj xs)"
    unfolding r(1) by (simp add: cells_from_map)
  have new: "list_new grant ?m = (case m_renew grant [] a of
      None \<Rightarrow> Some (Inl List_MemoryError)
    | Some items \<Rightarrow> do {
        items \<leftarrow> mp_seq_clear items ?m a;
        Some (Inr \<lparr>list_alloc = a, list_len = ?m, list_items = items :: 'a cell list\<rparr>) })"
    unfolding list_new_def a_def [symmetric] Let_def ..
  have renew: "m_renew grant [] a = (if bytes = 0 \<or> grant bytes then Some (replicate (bytes div 4) (Unset :: 'a cell)) else None)"
    by (simp add: m_renew_def Let_def a)
  show ?thesis
  proof (cases "bytes = 0 \<or> grant bytes")
    case False
    then show ?thesis using renew new r(2) unfolding list_multiply_def n by (simp add: Let_def)
  next
    case gr: True
    let ?it = "replicate (bytes div 4) (Unset :: 'a cell)"
    have "bytes div 4 < 2 ^ 30" unfolding a by (rule less_mult_imp_div_less) simp
    then have small: "length ?it < length xs * nat n" using False by simp
    have some: "m_renew grant [] a = Some ?it" using renew gr by simp
    have "list_multiply grant self n = None"
    proof (cases "mp_seq_clear ?it ?m a")
      case None
      then show ?thesis using some new r(2) c unfolding list_multiply_def n by (simp add: Let_def)
    next
      case (Some it')
      then have "length it' = length ?it" by (auto simp: mp_seq_clear_def split: if_splits)
      then have "mp_seq_multiply (map Obj xs) (nat n) it' 0 = None"
        using multiply_outside [of it' 0 "nat n" "map Obj xs"] small by (simp add: mult.commute)
      then show ?thesis using Some some new r(2) c unfolding list_multiply_def n by (simp add: Let_def)
    qed
    then show ?thesis using gr by simp
  qed
qed

text \<open>
  C39: The product of a list and a number makes one request for memory.  As long as it has fewer than \<open>2 ^ 30\<close>
  objects, the request is for them, or for four objects if they are fewer, and the product is the repeated list
  exactly when that request is served, and \<open>MemoryError\<close> otherwise.  From \<open>2 ^ 30\<close> objects on, the size of the
  new array wraps, in the number of objects or in bytes: if the smaller request is served, or is for no bytes,
  the copies are written behind the end of the array; only if it is refused the code raises \<open>MemoryError\<close>.
\<close>

theorem list_multiply_sizes:
  assumes "list_rep self xs" "grant_ok grant" "- (2 ^ 31) \<le> n" "n < 2 ^ 31" "m = length xs * nat n"
  shows "if m < 2 ^ 30 then
      (if grant (4 * max 4 m)
       then \<exists>s. list_multiply grant self n = Some (Inr s) \<and> list_rep s (concat (replicate (nat n) xs))
       else list_multiply grant self n = Some (Inl List_MemoryError))
    else (let bytes = u32 (4 * max 4 (u32 m))
          in list_multiply grant self n = (if bytes = 0 \<or> grant bytes then None else Some (Inl List_MemoryError)))"
  using list_multiply_gives [OF assms(1,2), of n] list_multiply_wraps [OF assms(1) _ refl, of n grant]
  unfolding assms(5) Let_def by simp

text \<open>A product that fits, one that is refused, and one whose size wraps to a request of 16 bytes.\<close>

theorem list_multiply_sizes_witness:
  "list_multiply (\<lambda>n. n < 100) \<lparr>list_alloc = 4, list_len = 4, list_items = [Obj 0, Obj 0, Obj 0, Obj (0 :: int)]\<rparr> (2 ^ 30) = None
   \<and> list_multiply (\<lambda>n. n < 100) \<lparr>list_alloc = 4, list_len = 4, list_items = [Obj 0, Obj 0, Obj 0, Obj (0 :: int)]\<rparr> 7
       = Some (Inl List_MemoryError)
   \<and> (\<exists>s. list_multiply (\<lambda>n. n < 100)
       \<lparr>list_alloc = 4, list_len = 1, list_items = [Obj (7 :: int), No_Obj, No_Obj, No_Obj]\<rparr> 3 = Some (Inr s) \<and> list_rep s [7, 7, 7])"
proof -
  let ?l = "\<lparr>list_alloc = 4, list_len = 4, list_items = [Obj 0, Obj 0, Obj 0, Obj (0 :: int)]\<rparr>"
  let ?k = "\<lparr>list_alloc = 4, list_len = 1, list_items = [Obj (7 :: int), No_Obj, No_Obj, No_Obj]\<rparr>"
  have rep: "list_rep ?l [0, 0, 0, 0]" "list_rep ?k [7]" by (simp_all add: list_rep_def numeral_3_eq_3)
  have g: "grant_ok (\<lambda>n. n < 100)" by (simp add: grant_ok_def)
  have "list_multiply (\<lambda>n. n < 100) ?l (2 ^ 30) = None"
    using list_multiply_sizes [OF rep(1) g, of "2 ^ 30" "4 * 2 ^ 30"] by (simp add: u32_def)
  moreover have "list_multiply (\<lambda>n. n < 100) ?l 7 = Some (Inl List_MemoryError)"
    using list_multiply_sizes [OF rep(1) g, of 7 28] by simp
  moreover have "concat (replicate (nat 3) [7]) = [7, 7, 7 :: int]" by (simp add: numeral_3_eq_3)
  then have "\<exists>s. list_multiply (\<lambda>n. n < 100) ?k 3 = Some (Inr s) \<and> list_rep s [7, 7, 7]"
    using list_multiply_sizes [OF rep(2) g, of 3 3] by simp
  ultimately show ?thesis by blast
qed

text \<open>
  C38: The comparison operators of lists are equality and the lexicographic order, when the equality and the
  order of the elements are those of some values in a linear order; the order operators are reduced to
  two of them with swapped operands.
\<close>

theorem list_compare_lexicographic:
  assumes "list_rep o1 xs" "list_rep o2 ys" "compares_values val (set xs \<union> set ys) eq rel"
  shows "list_compare eq rel BINARY_EQUAL o1 o2 = Some (Inr (map val xs = map val ys))
    \<and> list_compare eq rel BINARY_LESS o1 o2 = Some (Inr (ord_class.lexordp (map val xs) (map val ys)))
    \<and> list_compare eq rel BINARY_LESS_EQUAL o1 o2 = Some (Inr (ord_class.lexordp (map val xs) (map val ys) \<or> map val xs = map val ys))
    \<and> list_compare eq rel BINARY_MORE o1 o2 = Some (Inr (ord_class.lexordp (map val ys) (map val xs)))
    \<and> list_compare eq rel BINARY_MORE_EQUAL o1 o2 = Some (Inr (ord_class.lexordp (map val ys) (map val xs) \<or> map val xs = map val ys))"
  using mp_seq_cmp_objs_correct [OF assms(3)] list_objs_rep [OF assms(1)] list_objs_rep [OF assms(2)]
  by (simp_all add: list_compare_def)

text \<open>The operators of the interpreter on integer objects compare their values.\<close>

definition int_rel :: "binary_operator \<Rightarrow> int_obj \<Rightarrow> int_obj \<Rightarrow> list_error + bool" where
  "int_rel op x y = (case mp_binary_op op x y of Some (Boolean b) \<Rightarrow> Inr b | _ \<Rightarrow> Inl List_TypeError)"

lemma int_rel_values:
  assumes "\<forall>x \<in> S. int_obj_ok x"
  shows "compares_values int_obj_val S (\<lambda>x y. int_obj_val x = int_obj_val y) int_rel"
proof -
  have "int_rel BINARY_MORE x y = Inr (int_obj_val x > int_obj_val y)"
    "int_rel BINARY_MORE_EQUAL x y = Inr (int_obj_val x \<ge> int_obj_val y)" if "int_obj_ok x" "int_obj_ok y" for x y
  proof -
    have v: "result_value r = V_Bool b \<longleftrightarrow> r = Boolean b" for r b by (cases r) auto
    show "int_rel BINARY_MORE x y = Inr (int_obj_val x > int_obj_val y)"
      "int_rel BINARY_MORE_EQUAL x y = Inr (int_obj_val x \<ge> int_obj_val y)"
      using mp_binary_op_yields [OF that, of BINARY_MORE] mp_binary_op_yields [OF that, of BINARY_MORE_EQUAL] v
      by (auto simp: yields_def int_rel_def)
  qed
  then show ?thesis using assms by (simp add: compares_values_def)
qed

theorem list_compare_lexicographic_witness:
  "list_compare (\<lambda>x y. int_obj_val x = int_obj_val y) int_rel BINARY_LESS
      \<lparr>list_alloc = 4, list_len = 2, list_items = [Obj (Truth True), Obj (Small 2), No_Obj, No_Obj]\<rparr>
      \<lparr>list_alloc = 4, list_len = 3, list_items = [Obj (Small 1), Obj (Small 2), Obj (Small (- 5)), No_Obj]\<rparr> = Some (Inr True)"
proof -
  let ?l = "\<lparr>list_alloc = 4, list_len = 2, list_items = [Obj (Truth True), Obj (Small 2), No_Obj, No_Obj]\<rparr>"
  let ?m = "\<lparr>list_alloc = 4, list_len = 3, list_items = [Obj (Small 1), Obj (Small 2), Obj (Small (- 5)), No_Obj]\<rparr>"
  let ?xs = "[Truth True, Small 2]" and ?ys = "[Small 1, Small 2, Small (- 5)]"
  have "replicate 2 x = [x, x]" for x :: "int_obj cell" by (simp add: numeral_2_eq_2)
  then have "list_rep ?l ?xs" "list_rep ?m ?ys" by (simp_all add: list_rep_def)
  moreover have "compares_values int_obj_val (set ?xs \<union> set ?ys) (\<lambda>x y. int_obj_val x = int_obj_val y) int_rel"
    by (rule int_rel_values) (simp add: small_ok_def)
  ultimately show ?thesis using list_compare_lexicographic [of ?l ?xs ?m ?ys int_obj_val] by simp
qed

end
