(* ===== verification/Spec2Isabelle.thy ===== *)
theory Spec2Isabelle
  imports MpzTheorems GcTheorems DictTheorems IntTheorems ConsoleTheorems ListTheorems
begin

text \<open>
  \<^bold>\<open>PythonExtra.\<close>  PythonExtra is MicroPython for CASIO calculators.  The virtual machine under
  \<^verbatim>\<open>src/py\<close> compiles Python text to byte code and runs it on objects in a garbage collected heap; the
  port under \<^verbatim>\<open>src/ports/sh\<close> gives it a terminal.  This development models the parts of the
  program whose data structures every Python program rests on, in the configuration of that port: a
  32-bit big endian machine, a heap split into areas of 16-byte blocks without finalisers, object
  representation A (31-bit small integers in a tagged word), long integers with 16-bit digits, qstr
  hashes of two bytes, no ordered dictionaries and no look-up cache.

  \<^bold>\<open>How the parts interact.\<close>  The interpreter calls \<^verbatim>\<open>mp_binary_op\<close> and \<^verbatim>\<open>mp_unary_op\<close> on objects;
  integers that leave the small range become long integer objects over \<^verbatim>\<open>mpz\<close>; dictionaries and
  sets hash and compare their keys with \<^verbatim>\<open>mp_unary_op\<close> and \<^verbatim>\<open>mp_obj_equal\<close>; all of these live in
  blocks of the collector; the output of the program is written to the console.

  \<^bold>\<open>Long integers\<close> (\<^verbatim>\<open>py/mpz.c\<close>).  \<^verbatim>\<open>Mpn\<close>, \<^verbatim>\<open>MpnBits\<close>, \<^verbatim>\<open>MpnDiv\<close>: the \<^verbatim>\<open>mpn_\<close> functions on arrays of
  digits, lists with the least digit first, one recursive function per loop, with the division loop
  as written and its termination.  \<^verbatim>\<open>Mpz\<close>, \<^verbatim>\<open>MpzConv\<close>: the record \<open>mpz\<close> (sign, digits), the \<^verbatim>\<open>mpz_\<close>
  operations on it and the conversions to text, bytes, machine words and doubles.  \<^verbatim>\<open>MpzTheorems\<close>:
  each operation is its operation on \<open>int\<close>, through the abstraction \<open>mpz_val\<close>; round trips of text
  and bytes; the size of the buffer for text; the cases where the code deviates, as the division of an
  object in place, and the sign of the remainder, which is not the one of the comment.

  \<^bold>\<open>The collector\<close> (\<^verbatim>\<open>py/gc.c\<close>).  \<^verbatim>\<open>GcTable\<close>: the allocation table, two bits per block in bytes, and its
  macros.  \<^verbatim>\<open>Gc\<close>: the areas, the state of the collector and the layout of \<^verbatim>\<open>gc_init\<close> and \<^verbatim>\<open>gc_add\<close>.
  \<^verbatim>\<open>GcMark\<close>: marking with the bounded stack of 64 entries and the rescan on overflow; \<^verbatim>\<open>GcSweep\<close>;
  \<^verbatim>\<open>GcCollect\<close>; \<^verbatim>\<open>GcAlloc\<close>: \<^verbatim>\<open>gc_alloc\<close>, with the collection it may start; \<^verbatim>\<open>GcFree\<close>: \<^verbatim>\<open>gc_free\<close> and
  \<^verbatim>\<open>gc_realloc\<close>; \<^verbatim>\<open>GcInfo\<close>: the counters.  The contents of blocks are a function from addresses to words, the roots a list of
  words.  \<^verbatim>\<open>GcTheorems\<close>: a collection frees the unreachable chains and keeps the others, whatever
  their depth; the contracts of allocation, resizing and freeing; the invariant along every run; the
  masked scan of table bytes.

  \<^bold>\<open>Maps, dictionaries and sets\<close> (\<^verbatim>\<open>py/map.c\<close>, \<^verbatim>\<open>py/objdict.c\<close>, \<^verbatim>\<open>py/objset.c\<close>).  \<^verbatim>\<open>HashTable\<close>: open
  addressing as a locale over the key functions of a client.  \<^verbatim>\<open>PyObj\<close>: the objects used as keys,
  their hash and equality (\<^verbatim>\<open>py/obj.c\<close>): integers, booleans, interned, dynamic and static strings, and
  objects compared by identity.  \<^verbatim>\<open>PyMap\<close>, \<^verbatim>\<open>MapLaws\<close>: \<^verbatim>\<open>mp_map_lookup\<close> in its three kinds,
  the linear tables and the rehash.  \<^verbatim>\<open>PyDict\<close>, \<^verbatim>\<open>DictLaws\<close>, \<^verbatim>\<open>DictRun\<close>: the methods and iterators of
  dictionaries; \<^verbatim>\<open>PySet\<close>, \<^verbatim>\<open>SetLaws\<close>: those of sets, the comparisons from
  the point where both arguments are sets.  \<^verbatim>\<open>DictTheorems\<close>: dictionaries refine functions
  from keys to values, sets compute the set algebra, look-ups end, equality and the errors.

  \<^bold>\<open>Integer objects\<close> (\<^verbatim>\<open>py/runtime.c\<close>, \<^verbatim>\<open>py/objint.c\<close>, \<^verbatim>\<open>py/objint_mpz.c\<close>, \<^verbatim>\<open>py/smallint.c\<close>,
  \<^verbatim>\<open>py/objbool.c\<close>).  \<^verbatim>\<open>IntObj\<close>: the operators of the interpreter on small integers, long integers and
  Booleans, errors as values: arithmetic, shifts, bitwise operators, \<^verbatim>\<open>divmod\<close> and power, their in-place and
  reverse forms, the six comparisons with the two passes of \<open>mp_obj_equal_not_equal\<close>, containment and
  exception matching (both are errors on integers); only \<^verbatim>\<open>is\<close> is left out, since a long integer is its value
  here.  \<^verbatim>\<open>IntLaws\<close>: the operators compute Python's values, except for the inputs of \<open>deviates\<close>.  \<^verbatim>\<open>IntConv\<close>: doubles,
  formatted text and bytes; \<^verbatim>\<open>IntParse\<close>: \<^verbatim>\<open>py/parsenum.c\<close>.  \<^verbatim>\<open>IntTheorems\<close>: the properties, with the inputs where the code deviates
  from Python.  These theorems go through the laws of \<^verbatim>\<open>mpz\<close>.

  \<^bold>\<open>The console\<close> (\<^verbatim>\<open>ports/sh/stredit.c\<close>, \<^verbatim>\<open>ports/sh/console.c\<close>).  \<^verbatim>\<open>StrEdit\<close>: the line editor, a locale
  for what the console relies on.  \<^verbatim>\<open>LineBuf\<close>: the rotating array of frozen lines, with freed slots as
  they are left behind.  \<^verbatim>\<open>Console\<close>: writing and editing.  \<^verbatim>\<open>ConsoleView\<close>: the layout.  A font is a number, and
  what the display library's \<^verbatim>\<open>drsize\<close> fits on a line in a font and a width is the parameter \<open>fit\<close>.
  \<^verbatim>\<open>ConsoleRender\<close>: drawing.  \<^verbatim>\<open>ConsoleReach\<close>: the calls that the shell makes, with their conditions (\<open>op_ok\<close>), and the consoles that
  they reach, viewed and drawn ones among them; \<open>console_run\<close> keeps the fonts of the views since the last full
  layout.  \<^verbatim>\<open>ConsoleTheorems\<close>: every reachable console is in a good state and these calls
  return, the lazy layout is the full one as long as the font does not change (and stale after a change),
  plain text acts as on a terminal, the screen shows the window of rows at the scroll position; a text longer than a line, and the destruction of a console whose
  array still points to recycled lines.  The number of the first line, an \<^verbatim>\<open>int\<close> in the source, is unbounded
  (it would take \<open>2 ^ 31\<close> lines to overflow it).

  \<^bold>\<open>Lists\<close> (\<^verbatim>\<open>py/objlist.c\<close>, \<^verbatim>\<open>py/sequence.c\<close>, \<^verbatim>\<open>py/objslice.c\<close>, the indices of \<^verbatim>\<open>py/obj.c\<close>).  \<^verbatim>\<open>ListSort\<close>: the
  quicksort, with comparisons that may raise; it ends and permutes for every comparison and sorts for a strict
  weak order.  \<^verbatim>\<open>PyList\<close>: the record \<open>mp_list\<close> (allocated and used length, array of cells) and the methods,
  operators and subscripts, with sizes of 32 bits and an allocator that may refuse or move an array.  The key
  of a sort and the order and equality of elements are functions that do not change the list (keys and orders
  may raise): what a sort does under a callback that changes its list is not modelled.  \<^verbatim>\<open>ListLaws\<close>,
  \<^verbatim>\<open>SliceLaws\<close>: each operation on the list of objects (\<open>list_rep\<close>) that an array stands for.  \<^verbatim>\<open>ListRun\<close>:
  programs of operations, Python's lists, and the operations with which the code deviates from them
  (\<open>op_deviates\<close>).  \<^verbatim>\<open>ListTheorems\<close>: programs without these refine Python's lists; sorting; lexicographic
  comparison; two sizes that wrap.  Integers as indices and elements go through the laws of the integer objects.

  \<^bold>\<open>Conventions.\<close>  \<^verbatim>\<open>MP_Prelude\<close> holds the shared definitions (wrapping to 8, 16 and 32 bits) and lemmas.  An
  operation that can run out of an array, use freed memory or fail an assertion returns an option,
  and \<open>None\<close> is that failure; Python errors are values.  Memory that the system provides (\<^verbatim>\<open>malloc\<close> of the port,
  \<^verbatim>\<open>m_new\<close> where it is not the collector itself) is not exhausted, except for lists.

  \<^bold>\<open>Bounds and fuel.\<close>  The mark stack has the 64 entries of the source.  Loops that end structurally
  are \<open>fun\<close>; loops whose end needs an argument are \<open>partial_function (option)\<close> with a theorem that
  they return, or count down a number that is proved to be enough: two rounds for a look-up (the
  second after the one rehash), depth two for the look-up and three for equality and for
  \<^verbatim>\<open>mp_binary_op\<close> (the nesting of calls of these functions on the keys and operands modelled), the
  size of the table plus one for an iterator.

  \<^bold>\<open>Not modelled.\<close>  The lexer, parser, compiler, emitters and the byte code interpreter, which work on
  trees and code whose meaning is the whole language; floating point arithmetic (a result of its own
  where an integer operator ends in it) and \<^verbatim>\<open>mpz_as_float\<close>; strings, user classes, generators and
  the other object types; modules, import, streams and files; the port's drawing on the display and its
  devices, which call libraries outside of the repository; the other ports and vendored libraries.
\<close>

end
